(* ===== verification/Lurker_Base.thy ===== *)
theory Lurker_Base imports Main "HOL-Library.AList" "HOL-Library.Sublist" begin

text \<open>
  The prelude: the part of JavaScript's strings, arrays and maps that the modelled code uses,
  the lemmas every component shares, and the development's fact collections.

  Text is \<open>string\<close>: one character of the model is one UTF-16 code unit of the program, and the
  model covers the code units below 256 (ASCII and Latin-1).  Lengths, offsets and equality are
  then the program's; \<open>utf8_length\<close> is \<open>Buffer.byteLength\<close> on that range.  A JavaScript \<open>Map\<close> or
  \<open>Set\<close> whose insertion order is observable is an association list (\<open>AList.update\<close> replaces in
  place or appends, as \<open>Map.set\<close> does) or a distinct list.
\<close>

named_theorems js_string "equations that evaluate the string helpers"

named_theorems wf_intros "preservation of well-formedness invariants"

section \<open>Strings\<close>

subsection \<open>Bytes and case\<close>

definition utf8_char :: "char \<Rightarrow> nat" where
  "utf8_char c = (if (of_char c :: nat) < 128 then 1 else 2)"

definition utf8_length :: "string \<Rightarrow> nat" where
  "utf8_length s = sum_list (map utf8_char s)"

text \<open>\<open>toLowerCase\<close> and \<open>toUpperCase\<close> on code units below 256.  The three characters whose
  uppercase leaves the range (\<open>\<mu>\<close>, \<open>\<ss>\<close>, \<open>\<yen>\<close>-diaeresis at 0xFF) are kept as they are.\<close>

definition lower_char :: "char \<Rightarrow> char" where
  "lower_char c =
     (let n = (of_char c :: nat) in
      if (65 \<le> n \<and> n \<le> 90) \<or> (192 \<le> n \<and> n \<le> 222 \<and> n \<noteq> 215) then char_of (n + 32) else c)"

definition upper_char :: "char \<Rightarrow> char" where
  "upper_char c =
     (let n = (of_char c :: nat) in
      if (97 \<le> n \<and> n \<le> 122) \<or> (224 \<le> n \<and> n \<le> 254 \<and> n \<noteq> 247) then char_of (n - 32) else c)"

definition to_lower :: "string \<Rightarrow> string" where
  "to_lower = map lower_char"

definition to_upper :: "string \<Rightarrow> string" where
  "to_upper = map upper_char"

lemma of_char_lt_256: "(of_char (c :: char) :: nat) < 256"
  using nat_of_char_less_256 [of c] by simp

lemma lower_char_idem: "lower_char (lower_char c) = lower_char c"
proof -
  have of_ch: "(of_char (char_of (of_char c + 32 :: nat) :: char) :: nat) = of_char c + 32"
    if "of_char c \<le> (222 :: nat)"
    using that by simp
  show ?thesis
    by (auto simp: lower_char_def Let_def of_ch)
qed

lemma to_lower_idem [simp]: "to_lower (to_lower s) = to_lower s"
  by (simp add: to_lower_def lower_char_idem)

lemma to_lower_Nil [simp]: "to_lower [] = []"
  by (simp add: to_lower_def)

lemma to_lower_eq_Nil [simp]: "to_lower s = [] \<longleftrightarrow> s = []"
  by (simp add: to_lower_def)

lemma length_to_lower [simp]: "length (to_lower s) = length s"
  by (simp add: to_lower_def)

lemma utf8_length_simps [simp]:
  "utf8_length [] = 0"
  "utf8_length (c # s) = utf8_char c + utf8_length s"
  "utf8_length (s @ t) = utf8_length s + utf8_length t"
  by (simp_all add: utf8_length_def)

lemma utf8_length_ge: "length s \<le> utf8_length s"
  by (induction s) (auto simp: utf8_char_def)

subsection \<open>Searching and splitting\<close>

text \<open>\<open>s.indexOf(c)\<close> for a one-character needle: \<open>None\<close> for the code's \<open>-1\<close>.\<close>

fun index_of :: "char \<Rightarrow> string \<Rightarrow> nat option" where
  "index_of c [] = None"
| "index_of c (x # xs) = (if x = c then Some 0 else map_option Suc (index_of c xs))"

lemma index_of_None_iff [simp]: "index_of c s = None \<longleftrightarrow> c \<notin> set s"
  by (induction s) auto

lemma index_of_notin [simp]: "c \<notin> set s \<Longrightarrow> index_of c s = None"
  by simp

lemma index_of_Some_split:
  "index_of c s = Some i \<Longrightarrow> s = take i s @ c # drop (Suc i) s \<and> c \<notin> set (take i s) \<and> i < length s"
  by (induction s arbitrary: i) (auto split: if_splits)

lemma index_of_append_Some: "index_of c s = Some i \<Longrightarrow> index_of c (s @ t) = Some i"
  by (induction s arbitrary: i) (auto split: if_splits)

lemma index_of_append_notin: "c \<notin> set s \<Longrightarrow> index_of c (s @ c # t) = Some (length s)"
  by (induction s) auto

text \<open>\<open>s.split(c)\<close> on a one-character separator: always at least one piece.\<close>

fun split_on :: "char \<Rightarrow> string \<Rightarrow> string list" where
  "split_on c [] = [[]]"
| "split_on c (x # xs) =
     (if x = c then [] # split_on c xs
      else case split_on c xs of [] \<Rightarrow> [[x]] | p # ps \<Rightarrow> (x # p) # ps)"

fun join_with :: "string \<Rightarrow> string list \<Rightarrow> string" where
  "join_with sep [] = []"
| "join_with sep [s] = s"
| "join_with sep (s # t # ss) = s @ sep @ join_with sep (t # ss)"

lemma split_on_nonempty [simp]: "split_on c s \<noteq> []"
  by (cases s) (auto split: list.splits)

lemma join_split: "join_with [c] (split_on c s) = s"
proof (induction s)
  case Nil
  show ?case by simp
next
  case (Cons x xs)
  obtain p ps where p: "split_on c xs = p # ps"
    by (cases "split_on c xs") auto
  from Cons.IH p show ?case by (cases ps) auto
qed

lemma split_on_no_sep: "p \<in> set (split_on c s) \<Longrightarrow> c \<notin> set p"
  by (induction s arbitrary: p) (auto split: if_splits list.splits)

lemma split_on_notin: "c \<notin> set s \<Longrightarrow> split_on c s = [s]"
  by (induction s) auto

lemma split_on_append: "c \<notin> set s \<Longrightarrow> split_on c (s @ c # t) = s # split_on c t"
  by (induction s) auto

lemma split_on_join:
  "ps \<noteq> [] \<Longrightarrow> (\<And>p. p \<in> set ps \<Longrightarrow> c \<notin> set p) \<Longrightarrow> split_on c (join_with [c] ps) = ps"
proof (induction ps rule: induct_list012)
  case (3 p q ps)
  then show ?case by (simp add: split_on_append)
qed (auto simp: split_on_notin)

text \<open>JavaScript's \<open>\s\<close> and \<open>trim\<close> on code units below 256.\<close>

definition is_space :: "char \<Rightarrow> bool" where
  "is_space c = (let n = (of_char c :: nat) in (9 \<le> n \<and> n \<le> 13) \<or> n = 32 \<or> n = 160)"

definition is_digit :: "char \<Rightarrow> bool" where
  "is_digit c \<longleftrightarrow> 48 \<le> (of_char c :: nat) \<and> (of_char c :: nat) \<le> 57"

definition js_trim :: "string \<Rightarrow> string" where
  "js_trim s = rev (dropWhile is_space (rev (dropWhile is_space s)))"

definition starts_with :: "string \<Rightarrow> string \<Rightarrow> bool" where
  "starts_with s p = (take (length p) s = p)"

text \<open>\<open>s.includes(t)\<close>.\<close>

definition js_includes :: "string \<Rightarrow> string \<Rightarrow> bool" where
  "js_includes s t = (\<exists>u \<in> set (suffixes s). starts_with u t)"

lemma starts_with_iff_prefix: "starts_with s p \<longleftrightarrow> prefix p s"
proof
  assume "starts_with s p"
  then have "take (length p) s = p" by (simp add: starts_with_def)
  then show "prefix p s" by (metis take_is_prefix)
qed (auto simp: starts_with_def prefix_def)

lemma js_includes_iff_sublist: "js_includes s t \<longleftrightarrow> sublist t s"
  by (auto simp: js_includes_def starts_with_iff_prefix sublist_altdef')

section \<open>Ordered maps\<close>

text \<open>
  The contract of a JavaScript \<open>Map\<close> that its clients rely on: \<open>get\<close> after \<open>set\<close> and \<open>delete\<close>,
  and the key set.  The components' maps are association lists with distinct keys.
\<close>

locale js_map =
  fixes get :: "'m \<Rightarrow> 'k \<Rightarrow> 'v option"
    and set_entry :: "'k \<Rightarrow> 'v \<Rightarrow> 'm \<Rightarrow> 'm"
    and delete_entry :: "'k \<Rightarrow> 'm \<Rightarrow> 'm"
    and wf :: "'m \<Rightarrow> bool"
  assumes get_set: "get (set_entry k v m) = (get m)(k \<mapsto> v)"
    and get_delete: "get (delete_entry k m) = (get m)(k := None)"
    and wf_set: "wf m \<Longrightarrow> wf (set_entry k v m)"
    and wf_delete: "wf m \<Longrightarrow> wf (delete_entry k m)"
begin

lemma move_key:
  "get (set_entry k' v (delete_entry k m)) = (get m)(k := None, k' \<mapsto> v)"
  by (simp add: get_set get_delete)

lemma move_key_dom:
  "dom (get (set_entry k' v (delete_entry k m))) = insert k' (dom (get m) - {k})"
  by (auto simp: move_key)

lemma move_same_key: "get (set_entry k v (delete_entry k m)) = (get m)(k \<mapsto> v)"
  by (simp add: move_key)

lemma wf_move: "wf m \<Longrightarrow> wf (set_entry k' v (delete_entry k m))"
  by (intro wf_set wf_delete)

end

definition keys_distinct :: "('k \<times> 'v) list \<Rightarrow> bool" where
  "keys_distinct m = distinct (map fst m)"

interpretation om: js_map map_of AList.update AList.delete keys_distinct
  by unfold_locales
    (auto simp: update_conv' delete_conv' keys_distinct_def distinct_update distinct_delete)

lemma set_alist_update: "set (AList.update k v m) \<subseteq> insert (k, v) (set m)"
  by (induction m) auto

lemma keys_distinct_Nil [simp]: "keys_distinct []"
  by (simp add: keys_distinct_def)

text \<open>Adding to and deleting from a \<open>Set\<close> kept in insertion order.\<close>

definition set_add :: "'a \<Rightarrow> 'a list \<Rightarrow> 'a list" where
  "set_add x xs = (if x \<in> set xs then xs else xs @ [x])"

definition set_del :: "'a \<Rightarrow> 'a list \<Rightarrow> 'a list" where
  "set_del x xs = filter (\<lambda>y. y \<noteq> x) xs"

lemma set_set_add [simp]: "set (set_add x xs) = insert x (set xs)"
  by (auto simp: set_add_def)

lemma set_set_del [simp]: "set (set_del x xs) = set xs - {x}"
  by (auto simp: set_del_def)

lemma distinct_set_add [wf_intros]: "distinct xs \<Longrightarrow> distinct (set_add x xs)"
  by (auto simp: set_add_def)

lemma distinct_set_del [wf_intros]: "distinct xs \<Longrightarrow> distinct (set_del x xs)"
  by (simp add: set_del_def)

section \<open>Histories\<close>

text \<open>Each act of a history, oldest first, was fit for what came before it.\<close>

definition along :: "('a list \<Rightarrow> 'a \<Rightarrow> bool) \<Rightarrow> 'a list \<Rightarrow> bool" where
  "along P tr \<longleftrightarrow> (\<forall>before a after. tr = before @ a # after \<longrightarrow> P before a)"

lemma along_Nil [simp]: "along P []"
  by (simp add: along_def)

lemma along_snoc [simp]: "along P (tr @ [a]) \<longleftrightarrow> along P tr \<and> P tr a"
proof
  assume h: "along P (tr @ [a])"
  have "P before b" if "tr = before @ b # after" for before b after
    using h that unfolding along_def by (metis append.assoc append_Cons)
  moreover have "P tr a" using h by (auto simp: along_def)
  ultimately show "along P tr \<and> P tr a" by (auto simp: along_def)
next
  assume h: "along P tr \<and> P tr a"
  show "along P (tr @ [a])"
    unfolding along_def
  proof (intro allI impI)
    fix before b after assume e: "tr @ [a] = before @ b # after"
    show "P before b"
    proof (cases after rule: rev_cases)
      case Nil
      with e h show ?thesis by simp
    next
      case (snoc ys y)
      with e have "tr = before @ b # ys" by (metis append.assoc append_Cons butlast_snoc)
      with h show ?thesis by (auto simp: along_def)
    qed
  qed
qed

lemma along_snoc2 [simp]: "along P (tr @ [a, b]) \<longleftrightarrow> along P tr \<and> P tr a \<and> P (tr @ [a]) b"
  using along_snoc [of P "tr @ [a]" b] by (simp del: along_snoc) simp

lemma alongD: "along P tr \<Longrightarrow> tr = before @ a # after \<Longrightarrow> P before a"
  unfolding along_def by blast

end
