(* ===== verification/Backlog.thy ===== *)
theory Backlog imports Lurker_Base begin

text \<open>
  The interface between a connection's backlog (\<open>LineBuffer\<close> in \<open>server/engine/lineBuffer.ts\<close>) and
  the connection that drains it (\<open>EngineUpstream\<close> in \<open>server/engine/upstream.ts\<close>): numbered lines,
  pending ones contiguous up to the last number handed out, an append that may shed from the front,
  and an acknowledgement that forgets a prefix.
\<close>

record buffered_line =
  bl_seq :: nat
  bl_line :: string

lemma upt_eq_ConsD: "x # xs = [m..<n] \<Longrightarrow> x = m \<and> xs = [Suc m..<n] \<and> m < n"
  by (drule sym) (auto simp: upt_eq_Cons_conv)

lemma contiguous_filter:
  "map bl_seq ls = [k..<n] \<Longrightarrow> filter (\<lambda>l. s < bl_seq l) ls = drop (Suc s - k) ls"
proof (induction ls arbitrary: k)
  case (Cons l ls)
  then have l: "bl_seq l = k" "map bl_seq ls = [Suc k..<n]"
    by (auto dest: upt_eq_ConsD)
  show ?case
  proof (cases "s < k")
    case True
    then have "filter (\<lambda>l. s < bl_seq l) ls = ls"
      using Cons.IH [OF l(2)] by simp
    with True l show ?thesis by simp
  next
    case False
    then have "Suc s - k = Suc (Suc s - Suc k)" by simp
    with False Cons.IH [OF l(2)] l show ?thesis by simp
  qed
qed simp

lemma contiguous_dropWhile:
  "map bl_seq ls = [k..<n] \<Longrightarrow>
   dropWhile (\<lambda>l. bl_seq l \<le> s) ls = filter (\<lambda>l. s < bl_seq l) ls"
proof (induction ls arbitrary: k)
  case (Cons l ls)
  then have l: "bl_seq l = k" "map bl_seq ls = [Suc k..<n]"
    by (auto dest: upt_eq_ConsD)
  show ?case
  proof (cases "k \<le> s")
    case True
    with Cons.IH [OF l(2)] l show ?thesis by simp
  next
    case False
    with contiguous_filter [OF l(2), of s] l show ?thesis by simp
  qed
qed simp

locale backlog =
  fixes pending_of :: "'b \<Rightarrow> buffered_line list"
    and next_of :: "'b \<Rightarrow> nat"
    and append_to :: "string \<Rightarrow> 'b \<Rightarrow> 'b"
    and ack_to :: "nat \<Rightarrow> 'b \<Rightarrow> 'b"
    and ok :: "'b \<Rightarrow> bool"
  assumes contiguous: "ok b \<Longrightarrow> map bl_seq (pending_of b) = [next_of b - length (pending_of b) ..< next_of b]"
    and length_pending: "ok b \<Longrightarrow> length (pending_of b) < next_of b"
    and ok_append: "ok b \<Longrightarrow> ok (append_to l b)"
    and next_append: "ok b \<Longrightarrow> next_of (append_to l b) = Suc (next_of b)"
    and append_suffix: "ok b \<Longrightarrow>
      suffix (pending_of (append_to l b)) (pending_of b @ [\<lparr>bl_seq = next_of b, bl_line = l\<rparr>])"
    and append_nonempty: "ok b \<Longrightarrow> pending_of (append_to l b) \<noteq> []"
    and ok_ack: "ok b \<Longrightarrow> ok (ack_to s b)"
    and next_ack: "ok b \<Longrightarrow> next_of (ack_to s b) = next_of b"
    and pending_ack: "ok b \<Longrightarrow> pending_of (ack_to s b) = filter (\<lambda>l. s < bl_seq l) (pending_of b)"
begin

lemma pending_lt_next: "ok b \<Longrightarrow> l \<in> set (pending_of b) \<Longrightarrow> bl_seq l < next_of b"
proof -
  assume "ok b" "l \<in> set (pending_of b)"
  then have "bl_seq l \<in> set [next_of b - length (pending_of b) ..< next_of b]"
    by (metis contiguous image_eqI set_map)
  then show ?thesis by simp
qed

lemma sorted_pending: "ok b \<Longrightarrow> sorted_wrt (<) (map bl_seq (pending_of b))"
  by (simp add: contiguous)

text \<open>What a reader that has seen everything up to \<open>s\<close> is still owed.\<close>

definition owed :: "nat \<Rightarrow> 'b \<Rightarrow> buffered_line list" where
  "owed s b = filter (\<lambda>l. s < bl_seq l) (pending_of b)"

lemma owed_by_index:
  assumes "ok b"
  shows "owed s b = drop (Suc s - (next_of b - length (pending_of b))) (pending_of b)"
  unfolding owed_def by (rule contiguous_filter [OF contiguous [OF assms]])

lemma owed_ack: "ok b \<Longrightarrow> s' \<le> s \<Longrightarrow> owed s (ack_to s' b) = owed s b"
  unfolding owed_def by (simp add: pending_ack) (rule filter_cong; auto)

lemma owed_ack_past: "ok b \<Longrightarrow> s \<le> s' \<Longrightarrow> owed s (ack_to s' b) = owed s' b"
  unfolding owed_def by (simp add: pending_ack) (rule filter_cong; auto)

lemma newest_owed:
  assumes "ok b" "s < next_of b"
  shows "owed s (append_to l b) \<noteq> [] \<and> last (owed s (append_to l b)) = \<lparr>bl_seq = next_of b, bl_line = l\<rparr>"
proof -
  obtain xs where xs: "pending_of (append_to l b) = xs @ [\<lparr>bl_seq = next_of b, bl_line = l\<rparr>]"
    using append_suffix [OF assms(1), of l] append_nonempty [OF assms(1), of l]
    by (metis append_butlast_last_id last_appendR last_snoc not_Cons_self2 suffix_def)
  then show ?thesis using assms(2) by (simp add: owed_def)
qed

end

end
