(* ===== verification/Line_Buffer.thy ===== *)
theory Line_Buffer imports Backlog begin

text \<open>
  \<open>server/engine/lineBuffer.ts\<close>: the per-connection backlog of unacknowledged lines and the
  byte budget all backlogs of the process share.  A \<open>LineBuffer\<close> is a record; the \<open>ByteBudget\<close>
  holds the set of registered buffers (insertion order, as a JavaScript \<open>Set\<close> iterates) and a
  heap from buffer identities to buffers, since reclaiming under pressure mutates other
  connections' buffers.  \<open>Date.now()\<close> is an argument: it only ever stamps a gap.
\<close>

section \<open>State\<close>

record gap =
  firstDroppedSeq :: nat
  lastDroppedSeq :: nat
  gapAt :: int

record line_buffer =
  lb_lines :: "buffered_line list"
  lb_nextSeq :: nat
  lb_gap :: "gap option"
  lb_bytes :: int
  lb_maxBytes :: int

record byte_budget =
  bb_used :: int
  bb_max :: int
  bb_buffers :: "nat list"
  bb_heap :: "nat \<Rightarrow> line_buffer"

definition line_bytes :: "string \<Rightarrow> int" where
  "line_bytes l = int (utf8_length l) + 2"

definition lb_length :: "line_buffer \<Rightarrow> nat" where
  "lb_length b = length (lb_lines b)"

definition lastSeq :: "line_buffer \<Rightarrow> nat" where
  "lastSeq b = lb_nextSeq b - 1"

section \<open>Operations\<close>

definition new_buffer :: "nat \<Rightarrow> int \<Rightarrow> byte_budget \<Rightarrow> byte_budget" where
  "new_buffer i maxb w =
     w\<lparr>bb_heap := (bb_heap w)(i := \<lparr>lb_lines = [], lb_nextSeq = 1, lb_gap = None,
                                    lb_bytes = 0, lb_maxBytes = maxb\<rparr>),
       bb_buffers := set_add i (bb_buffers w)\<rparr>"

text \<open>\<open>dropOldest\<close>: an open gap is extended, otherwise a new one is recorded.\<close>

definition extend_gap :: "int \<Rightarrow> nat \<Rightarrow> gap option \<Rightarrow> gap option" where
  "extend_gap now s g =
     (case g of
        Some g \<Rightarrow> Some (g\<lparr>lastDroppedSeq := s, gapAt := now\<rparr>)
      | None \<Rightarrow> Some \<lparr>firstDroppedSeq = s, lastDroppedSeq = s, gapAt = now\<rparr>)"

definition dropOldest :: "int \<Rightarrow> nat \<Rightarrow> byte_budget \<Rightarrow> byte_budget" where
  "dropOldest now i w =
     (let b = bb_heap w i in
      case lb_lines b of
        [] \<Rightarrow> w
      | dropped # rest \<Rightarrow>
          (let size = line_bytes (bl_line dropped) in
           w\<lparr>bb_heap := (bb_heap w)(i := b\<lparr>lb_lines := rest,
                                          lb_bytes := lb_bytes b - size,
                                          lb_gap := extend_gap now (bl_seq dropped) (lb_gap b)\<rparr>),
             bb_used := bb_used w - size\<rparr>))"

text \<open>The scan of \<open>reclaim\<close>: the largest buffer that still has more than one line.\<close>

fun pick_largest :: "(nat \<Rightarrow> line_buffer) \<Rightarrow> nat option \<Rightarrow> nat list \<Rightarrow> nat option" where
  "pick_largest h largest [] = largest"
| "pick_largest h largest (b # bs) =
     (if 1 < lb_length (h b) \<and>
         (case largest of None \<Rightarrow> True | Some l \<Rightarrow> lb_bytes (h l) < lb_bytes (h b))
      then pick_largest h (Some b) bs else pick_largest h largest bs)"

definition total_lines :: "byte_budget \<Rightarrow> nat" where
  "total_lines w = (\<Sum>i \<leftarrow> bb_buffers w. lb_length (bb_heap w i))"

lemma pick_largest_in:
  "pick_largest h best bs = Some i \<Longrightarrow>
   best = Some i \<or> (i \<in> set bs \<and> 1 < lb_length (h i))"
  by (induction h best bs rule: pick_largest.induct) (auto split: if_splits)

lemma sum_list_fun_upd_less:
  fixes f :: "'a \<Rightarrow> nat"
  shows "i \<in> set xs \<Longrightarrow> v < f i \<Longrightarrow> (\<Sum>x \<leftarrow> xs. (f(i := v)) x) < (\<Sum>x \<leftarrow> xs. f x)"
proof (induction xs)
  case Nil
  then show ?case by simp
next
  case (Cons x xs)
  have le: "(\<Sum>x \<leftarrow> xs. (f(i := v)) x) \<le> (\<Sum>x \<leftarrow> xs. f x)"
    using Cons.prems(2) by (intro sum_list_mono) auto
  show ?case
  proof (cases "x = i")
    case True
    with Cons.prems(2) le show ?thesis by simp
  next
    case False
    with Cons show ?thesis by simp
  qed
qed

lemma total_lines_dropOldest:
  assumes "i \<in> set (bb_buffers w)" "1 < lb_length (bb_heap w i)"
  shows "total_lines (dropOldest now i w) < total_lines w"
proof -
  obtain d rest where d: "lb_lines (bb_heap w i) = d # rest"
    using assms(2) by (cases "lb_lines (bb_heap w i)") (auto simp: lb_length_def)
  have "total_lines (dropOldest now i w) =
        (\<Sum>j \<leftarrow> bb_buffers w. ((\<lambda>j. lb_length (bb_heap w j))(i := length rest)) j)"
    unfolding total_lines_def
    by (rule arg_cong [where f = sum_list], intro map_cong) (auto simp: dropOldest_def d Let_def lb_length_def)
  also have "\<dots> < total_lines w"
    unfolding total_lines_def using assms(1)
    by (rule sum_list_fun_upd_less) (simp add: d lb_length_def)
  finally show ?thesis .
qed

function reclaim :: "int \<Rightarrow> byte_budget \<Rightarrow> byte_budget" where
  "reclaim now w =
     (if bb_max w < bb_used w
      then case pick_largest (bb_heap w) None (bb_buffers w) of
             None \<Rightarrow> w
           | Some i \<Rightarrow> reclaim now (dropOldest now i w)
      else w)"
  by pat_completeness auto
termination
  by (relation "measure (\<lambda>(now, w). total_lines w)")
    (auto dest!: pick_largest_in intro: total_lines_dropOldest)

declare reclaim.simps [simp del]

text \<open>The loop of \<open>push\<close> that sheds the buffer's own oldest lines over its own cap.\<close>

function trim_own :: "int \<Rightarrow> nat \<Rightarrow> byte_budget \<Rightarrow> byte_budget" where
  "trim_own now i w =
     (if 1 < lb_length (bb_heap w i) \<and> lb_maxBytes (bb_heap w i) < lb_bytes (bb_heap w i)
      then trim_own now i (dropOldest now i w) else w)"
  by pat_completeness auto
termination
  by (relation "measure (\<lambda>(now, i, w). lb_length (bb_heap w i))")
    (auto simp: dropOldest_def Let_def lb_length_def split: list.splits)

declare trim_own.simps [simp del]

definition push :: "int \<Rightarrow> nat \<Rightarrow> string \<Rightarrow> byte_budget \<Rightarrow> byte_budget \<times> nat" where
  "push now i line w =
     (let b = bb_heap w i;
          seq = lb_nextSeq b;
          size = line_bytes line;
          b' = b\<lparr>lb_nextSeq := seq + 1,
                 lb_lines := lb_lines b @ [\<lparr>bl_seq = seq, bl_line = line\<rparr>],
                 lb_bytes := lb_bytes b + size\<rparr>;
          w' = w\<lparr>bb_heap := (bb_heap w)(i := b'), bb_used := bb_used w + size\<rparr>
      in (reclaim now (trim_own now i w'), seq))"

text \<open>\<open>ack\<close>: first the recorded hole shrinks, then the lines up to \<open>seq\<close> go.\<close>

definition ack_gap :: "nat \<Rightarrow> gap option \<Rightarrow> gap option" where
  "ack_gap seq g =
     (case g of
        None \<Rightarrow> None
      | Some g \<Rightarrow>
          if lastDroppedSeq g \<le> seq then None
          else if firstDroppedSeq g \<le> seq then Some (g\<lparr>firstDroppedSeq := seq + 1\<rparr>)
          else Some g)"

definition ack :: "nat \<Rightarrow> nat \<Rightarrow> byte_budget \<Rightarrow> byte_budget" where
  "ack seq i w =
     (let b = bb_heap w i;
          b' = b\<lparr>lb_gap := ack_gap seq (lb_gap b)\<rparr>;
          acked = takeWhile (\<lambda>l. bl_seq l \<le> seq) (lb_lines b);
          freed = sum_list (map (\<lambda>l. line_bytes (bl_line l)) acked)
      in if length acked = 0 then w\<lparr>bb_heap := (bb_heap w)(i := b')\<rparr>
         else w\<lparr>bb_heap := (bb_heap w)(i := b'\<lparr>lb_lines := drop (length acked) (lb_lines b),
                                               lb_bytes := lb_bytes b - freed\<rparr>),
                bb_used := bb_used w - freed\<rparr>)"

definition pending :: "nat \<Rightarrow> byte_budget \<Rightarrow> buffered_line list" where
  "pending i w = lb_lines (bb_heap w i)"

definition peekGap :: "nat \<Rightarrow> byte_budget \<Rightarrow> gap option" where
  "peekGap i w = lb_gap (bb_heap w i)"

definition takeGap :: "nat \<Rightarrow> byte_budget \<Rightarrow> byte_budget \<times> gap option" where
  "takeGap i w = (w\<lparr>bb_heap := (bb_heap w)(i := (bb_heap w i)\<lparr>lb_gap := None\<rparr>)\<rparr>, peekGap i w)"

definition dispose :: "nat \<Rightarrow> byte_budget \<Rightarrow> byte_budget" where
  "dispose i w =
     (let b = bb_heap w i in
      w\<lparr>bb_used := bb_used w - lb_bytes b,
        bb_heap := (bb_heap w)(i := b\<lparr>lb_bytes := 0, lb_lines := []\<rparr>),
        bb_buffers := set_del i (bb_buffers w)\<rparr>)"

section \<open>The buffer invariant\<close>

definition lines_bytes :: "buffered_line list \<Rightarrow> int" where
  "lines_bytes ls = sum_list (map (\<lambda>l. line_bytes (bl_line l)) ls)"

text \<open>Pending sequence numbers are contiguous up to the last one handed out, the byte count is
  exact, and a recorded gap ends exactly where the pending lines begin.\<close>

definition gap_before :: "nat \<Rightarrow> gap option \<Rightarrow> bool" where
  "gap_before k g \<longleftrightarrow>
     (case g of None \<Rightarrow> True
      | Some g \<Rightarrow> 1 \<le> firstDroppedSeq g \<and> firstDroppedSeq g \<le> lastDroppedSeq g \<and>
                 Suc (lastDroppedSeq g) = k)"

definition lb_inv :: "line_buffer \<Rightarrow> bool" where
  "lb_inv b \<longleftrightarrow>
     length (lb_lines b) < lb_nextSeq b \<and>
     map bl_seq (lb_lines b) = [lb_nextSeq b - length (lb_lines b) ..< lb_nextSeq b] \<and>
     lb_bytes b = lines_bytes (lb_lines b) \<and>
     gap_before (lb_nextSeq b - length (lb_lines b)) (lb_gap b)"

text \<open>The shared budget counts exactly the bytes of the registered buffers.\<close>

definition bb_inv :: "byte_budget \<Rightarrow> bool" where
  "bb_inv w \<longleftrightarrow>
     distinct (bb_buffers w) \<and>
     (\<forall>i \<in> set (bb_buffers w). lb_inv (bb_heap w i)) \<and>
     bb_used w = (\<Sum>i \<leftarrow> bb_buffers w. lb_bytes (bb_heap w i))"

lemma lines_bytes_simps [simp]:
  "lines_bytes [] = 0"
  "lines_bytes (l # ls) = line_bytes (bl_line l) + lines_bytes ls"
  "lines_bytes (ls @ ls') = lines_bytes ls + lines_bytes ls'"
  by (simp_all add: lines_bytes_def)

lemma line_bytes_pos: "2 \<le> line_bytes l"
  by (simp add: line_bytes_def)

lemma lines_bytes_nonneg: "0 \<le> lines_bytes ls"
proof (induction ls)
  case (Cons l ls)
  with line_bytes_pos [of "bl_line l"] show ?case by simp
qed simp

subsection \<open>One buffer at a time\<close>

text \<open>Every operation replaces one buffer and moves the budget by the difference in its bytes.\<close>

definition put_buffer :: "nat \<Rightarrow> line_buffer \<Rightarrow> byte_budget \<Rightarrow> byte_budget" where
  "put_buffer i b w =
     w\<lparr>bb_heap := (bb_heap w)(i := b), bb_used := bb_used w + (lb_bytes b - lb_bytes (bb_heap w i))\<rparr>"

definition drop_line :: "int \<Rightarrow> line_buffer \<Rightarrow> line_buffer" where
  "drop_line now b =
     (case lb_lines b of
        [] \<Rightarrow> b
      | d # rest \<Rightarrow> b\<lparr>lb_lines := rest, lb_bytes := lb_bytes b - line_bytes (bl_line d),
                     lb_gap := extend_gap now (bl_seq d) (lb_gap b)\<rparr>)"

definition append_line :: "string \<Rightarrow> line_buffer \<Rightarrow> line_buffer" where
  "append_line line b =
     b\<lparr>lb_nextSeq := lb_nextSeq b + 1,
       lb_lines := lb_lines b @ [\<lparr>bl_seq = lb_nextSeq b, bl_line = line\<rparr>],
       lb_bytes := lb_bytes b + line_bytes line\<rparr>"

definition ack_buffer :: "nat \<Rightarrow> line_buffer \<Rightarrow> line_buffer" where
  "ack_buffer seq b =
     b\<lparr>lb_gap := ack_gap seq (lb_gap b),
       lb_lines := dropWhile (\<lambda>l. bl_seq l \<le> seq) (lb_lines b),
       lb_bytes := lb_bytes b - lines_bytes (takeWhile (\<lambda>l. bl_seq l \<le> seq) (lb_lines b))\<rparr>"

lemma dropOldest_put: "dropOldest now i w = put_buffer i (drop_line now (bb_heap w i)) w"
  by (cases "lb_lines (bb_heap w i)") (simp_all add: dropOldest_def put_buffer_def drop_line_def Let_def)

lemma ack_put: "ack seq i w = put_buffer i (ack_buffer seq (bb_heap w i)) w"
proof (cases "takeWhile (\<lambda>l. bl_seq l \<le> seq) (lb_lines (bb_heap w i))")
  case Nil
  then have "dropWhile (\<lambda>l. bl_seq l \<le> seq) (lb_lines (bb_heap w i)) = lb_lines (bb_heap w i)"
    by (metis append_Nil takeWhile_dropWhile_id)
  with Nil show ?thesis
    by (simp add: ack_def put_buffer_def ack_buffer_def Let_def)
next
  case (Cons a as)
  then show ?thesis
    by (simp add: ack_def put_buffer_def ack_buffer_def Let_def lines_bytes_def dropWhile_eq_drop)
qed

lemma push_put:
  "push now i line w =
     (reclaim now (trim_own now i (put_buffer i (append_line line (bb_heap w i)) w)),
      lb_nextSeq (bb_heap w i))"
  by (simp add: push_def put_buffer_def append_line_def Let_def)

lemma put_buffer_simps [simp]:
  "bb_buffers (put_buffer i b w) = bb_buffers w"
  "bb_max (put_buffer i b w) = bb_max w"
  "bb_heap (put_buffer i b w) = (bb_heap w)(i := b)"
  by (simp_all add: put_buffer_def)

lemma sum_list_upd:
  fixes f :: "'a \<Rightarrow> int"
  assumes "distinct xs" "i \<in> set xs"
  shows "(\<Sum>x \<leftarrow> xs. (f(i := v)) x) = (\<Sum>x \<leftarrow> xs. f x) + (v - f i)"
proof -
  have "(\<Sum>x \<in> set xs. (f(i := v)) x) = v + (\<Sum>x \<in> set xs - {i}. f x)"
    using assms(2) by (subst sum.remove [of _ i]) auto
  moreover have "(\<Sum>x \<in> set xs. f x) = f i + (\<Sum>x \<in> set xs - {i}. f x)"
    using assms(2) by (subst sum.remove [of _ i]) auto
  ultimately show ?thesis
    using assms(1) by (simp add: sum_list_distinct_conv_sum_set)
qed

lemma bb_inv_put [wf_intros]:
  assumes "bb_inv w" "i \<in> set (bb_buffers w)" "lb_inv b"
  shows "bb_inv (put_buffer i b w)"
proof -
  have "(\<Sum>j \<leftarrow> bb_buffers w. lb_bytes (((bb_heap w)(i := b)) j)) =
        (\<Sum>j \<leftarrow> bb_buffers w. ((\<lambda>j. lb_bytes (bb_heap w j))(i := lb_bytes b)) j)"
    by (rule arg_cong [where f = sum_list], intro map_cong) auto
  also have "\<dots> = bb_used w + (lb_bytes b - lb_bytes (bb_heap w i))"
    using assms by (subst sum_list_upd) (auto simp: bb_inv_def)
  finally show ?thesis
    using assms by (auto simp: bb_inv_def put_buffer_def)
qed

lemma bb_invD [dest]: "bb_inv w \<Longrightarrow> i \<in> set (bb_buffers w) \<Longrightarrow> lb_inv (bb_heap w i)"
  by (simp add: bb_inv_def)

lemma lb_inv_Cons:
  assumes "lb_inv b" "lb_lines b = d # rest"
  shows "bl_seq d = lb_nextSeq b - Suc (length rest)"
    and "map bl_seq rest = [lb_nextSeq b - length rest ..< lb_nextSeq b]"
    and "Suc (length rest) < lb_nextSeq b"
proof -
  show len: "Suc (length rest) < lb_nextSeq b"
    using assms by (simp add: lb_inv_def)
  have "bl_seq d # map bl_seq rest = [lb_nextSeq b - Suc (length rest) ..< lb_nextSeq b]"
    using assms by (simp add: lb_inv_def)
  note eqs = upt_eq_ConsD [OF this]
  show "bl_seq d = lb_nextSeq b - Suc (length rest)"
    using eqs by simp
  have "Suc (lb_nextSeq b - Suc (length rest)) = lb_nextSeq b - length rest"
    using len by simp
  with eqs show "map bl_seq rest = [lb_nextSeq b - length rest ..< lb_nextSeq b]"
    by simp
qed

lemma lb_inv_drop_line [wf_intros]:
  assumes inv: "lb_inv b"
  shows "lb_inv (drop_line now b)"
proof (cases "lb_lines b")
  case (Cons d rest)
  note facts = lb_inv_Cons [OF inv Cons]
  have "gap_before (lb_nextSeq b - length rest) (extend_gap now (bl_seq d) (lb_gap b))"
    using inv Cons facts(1,3)
    by (cases "lb_gap b") (auto simp: lb_inv_def extend_gap_def gap_before_def)
  with inv Cons facts(2,3) show ?thesis
    by (simp add: lb_inv_def drop_line_def)
qed (use inv in \<open>simp add: drop_line_def\<close>)

lemma lb_inv_append_line [wf_intros]: "lb_inv b \<Longrightarrow> lb_inv (append_line line b)"
  by (auto simp: lb_inv_def append_line_def split: option.splits)

lemma dropWhile_upt: "dropWhile (\<lambda>x. x \<le> s) [k..<n] = [max k (Suc s)..<n]"
proof (induction "n - k" arbitrary: k)
  case 0
  then show ?case by simp
next
  case (Suc d)
  then have "k < n" "d = n - Suc k" by simp_all
  with Suc.hyps(1) [of "Suc k"] show ?case
    by (cases "k \<le> s") (simp_all add: upt_conv_Cons max_absorb1 max_absorb2)
qed

lemma seqs_dropWhile:
  "map bl_seq ls = [k..<n] \<Longrightarrow> map bl_seq (dropWhile (\<lambda>l. bl_seq l \<le> s) ls) = [max k (Suc s)..<n]"
  using dropWhile_map [of "\<lambda>x. x \<le> s" bl_seq ls] by (simp add: comp_def dropWhile_upt)

lemma lines_bytes_split:
  "lines_bytes (takeWhile P ls) + lines_bytes (dropWhile P ls) = lines_bytes ls"
  by (metis lines_bytes_simps(3) takeWhile_dropWhile_id)

lemma lb_inv_ack [wf_intros]:
  assumes inv: "lb_inv b"
  shows "lb_inv (ack_buffer s b)"
proof -
  let ?n = "lb_nextSeq b" and ?k = "lb_nextSeq b - length (lb_lines b)"
  let ?rest = "dropWhile (\<lambda>l. bl_seq l \<le> s) (lb_lines b)"
  have len: "length (lb_lines b) < ?n" and seqs: "map bl_seq (lb_lines b) = [?k..<?n]"
    using inv by (simp_all add: lb_inv_def)
  have rest: "map bl_seq ?rest = [max ?k (Suc s)..<?n]"
    by (rule seqs_dropWhile [OF seqs])
  then have rest_len: "length ?rest = ?n - max ?k (Suc s)"
    by (metis length_map length_upt)
  have seqs': "map bl_seq ?rest = [?n - length ?rest..<?n]"
    unfolding rest rest_len by (cases "max ?k (Suc s) \<le> ?n") simp_all
  have bytes: "lb_bytes b - lines_bytes (takeWhile (\<lambda>l. bl_seq l \<le> s) (lb_lines b)) = lines_bytes ?rest"
    using inv lines_bytes_split [of "\<lambda>l. bl_seq l \<le> s" "lb_lines b"] by (simp add: lb_inv_def)
  have gap: "gap_before (?n - length ?rest) (ack_gap s (lb_gap b))"
    using inv rest_len len
    by (cases "lb_gap b") (auto simp: lb_inv_def gap_before_def ack_gap_def max_def)
  show ?thesis
    using len rest_len seqs' bytes gap by (auto simp: lb_inv_def ack_buffer_def)
qed

lemma dropOldest_inv [wf_intros]:
  "bb_inv w \<Longrightarrow> i \<in> set (bb_buffers w) \<Longrightarrow> bb_inv (dropOldest now i w)"
  unfolding dropOldest_put by (intro wf_intros bb_invD) auto

lemma bb_buffers_dropOldest [simp]: "bb_buffers (dropOldest now i w) = bb_buffers w"
  by (simp add: dropOldest_put)

lemma bb_max_dropOldest [simp]: "bb_max (dropOldest now i w) = bb_max w"
  by (simp add: dropOldest_put)

text \<open>What \<open>push\<close> may do to the buffers, besides appending, is a series of \<open>dropOldest\<close> on
  registered buffers that still have two lines: anything such a step keeps, the loops keep.\<close>

lemma reclaim_induct:
  assumes step: "\<And>t w i. P w \<Longrightarrow> i \<in> set (bb_buffers w) \<Longrightarrow> 1 < lb_length (bb_heap w i) \<Longrightarrow>
                           P (dropOldest t i w)"
    and start: "P w"
  shows "P (reclaim now w)"
  using start
proof (induction now w rule: reclaim.induct)
  case (1 now w)
  show ?case
  proof (cases "bb_max w < bb_used w")
    case True
    show ?thesis
    proof (cases "pick_largest (bb_heap w) None (bb_buffers w)")
      case None
      with True 1 show ?thesis by (simp add: reclaim.simps [of now w])
    next
      case (Some i)
      then have i: "i \<in> set (bb_buffers w)" "1 < lb_length (bb_heap w i)"
        by (auto dest: pick_largest_in)
      have "P (dropOldest now i w)" by (rule step [OF "1.prems" i])
      then have "P (reclaim now (dropOldest now i w))" by (rule "1.IH" [OF True Some])
      with True Some show ?thesis by (simp add: reclaim.simps [of now w])
    qed
  next
    case False
    with 1 show ?thesis by (simp add: reclaim.simps [of now w])
  qed
qed

lemma trim_own_induct:
  assumes "\<And>t w. P w \<Longrightarrow> 1 < lb_length (bb_heap w i) \<Longrightarrow> P (dropOldest t i w)"
    and "P w"
  shows "P (trim_own now i w)"
  using assms
proof (induction now i w rule: trim_own.induct)
  case (1 now i w)
  show ?case
  proof (cases "1 < lb_length (bb_heap w i) \<and> lb_maxBytes (bb_heap w i) < lb_bytes (bb_heap w i)")
    case True
    then have "P (dropOldest now i w)" by (intro "1.prems") simp
    with True "1.IH" "1.prems"(1) show ?thesis by (simp add: trim_own.simps [of now i w])
  next
    case False
    with 1 show ?thesis by (subst trim_own.simps) auto
  qed
qed

section \<open>Nothing is lost silently\<close>

text \<open>The sequence numbers a buffer can still answer for: pending lines and the recorded gap.\<close>

definition gap_range :: "gap option \<Rightarrow> nat set" where
  "gap_range g = (case g of None \<Rightarrow> {} | Some g \<Rightarrow> {firstDroppedSeq g .. lastDroppedSeq g})"

definition accounted :: "line_buffer \<Rightarrow> nat set" where
  "accounted b = set (map bl_seq (lb_lines b)) \<union> gap_range (lb_gap b)"

lemma set_seqs: "lb_inv b \<Longrightarrow> set (map bl_seq (lb_lines b)) = {lb_nextSeq b - length (lb_lines b) ..< lb_nextSeq b}"
  by (simp add: lb_inv_def del: set_map)

lemma accounted_drop_line:
  assumes inv: "lb_inv b"
  shows "accounted (drop_line now b) = accounted b"
proof (cases "lb_lines b")
  case (Cons d rest)
  note facts = lb_inv_Cons [OF inv Cons]
  have "gap_range (extend_gap now (bl_seq d) (lb_gap b)) = insert (bl_seq d) (gap_range (lb_gap b))"
    using inv Cons facts(1,3)
    by (cases "lb_gap b") (auto simp: lb_inv_def gap_before_def extend_gap_def gap_range_def)
  with Cons show ?thesis
    by (auto simp: accounted_def drop_line_def)
qed (simp add: drop_line_def)

lemma accounted_append_line: "accounted (append_line l b) = insert (lb_nextSeq b) (accounted b)"
  by (auto simp: accounted_def append_line_def)

lemma accounted_ack:
  assumes inv: "lb_inv b"
  shows "accounted (ack_buffer s b) = accounted b - {..s}"
proof -
  let ?n = "lb_nextSeq b" and ?k = "lb_nextSeq b - length (lb_lines b)"
  have "map bl_seq (dropWhile (\<lambda>l. bl_seq l \<le> s) (lb_lines b)) = [max ?k (Suc s)..<?n]"
    using inv by (intro seqs_dropWhile) (simp add: lb_inv_def)
  then have "set (map bl_seq (lb_lines (ack_buffer s b))) = {max ?k (Suc s)..<?n}"
    by (simp add: ack_buffer_def del: set_map)
  then have lines: "set (map bl_seq (lb_lines (ack_buffer s b))) = {?k..<?n} - {..s}"
    by auto
  have "gap_range (ack_gap s (lb_gap b)) = gap_range (lb_gap b) - {..s}"
    by (cases "lb_gap b") (auto simp: ack_gap_def gap_range_def)
  with lines show ?thesis
    unfolding accounted_def set_seqs [OF inv] by (auto simp: ack_buffer_def)
qed

text \<open>\<open>shed w w'\<close>: \<open>w'\<close> differs from \<open>w\<close> by dropped oldest lines only, each one recorded.\<close>

definition shed :: "byte_budget \<Rightarrow> byte_budget \<Rightarrow> bool" where
  "shed w w' \<longleftrightarrow>
     bb_buffers w' = bb_buffers w \<and> bb_max w' = bb_max w \<and> bb_inv w' \<and>
     (\<forall>j. lb_nextSeq (bb_heap w' j) = lb_nextSeq (bb_heap w j) \<and>
          lb_maxBytes (bb_heap w' j) = lb_maxBytes (bb_heap w j) \<and>
          suffix (lb_lines (bb_heap w' j)) (lb_lines (bb_heap w j)) \<and>
          (lb_lines (bb_heap w j) \<noteq> [] \<longrightarrow> lb_lines (bb_heap w' j) \<noteq> [])) \<and>
     (\<forall>j \<in> set (bb_buffers w). accounted (bb_heap w' j) = accounted (bb_heap w j))"

lemma shed_refl: "bb_inv w \<Longrightarrow> shed w w"
  by (simp add: shed_def)

lemma drop_line_simps [simp]:
  "lb_lines (drop_line now b) = tl (lb_lines b)"
  "lb_nextSeq (drop_line now b) = lb_nextSeq b"
  "lb_maxBytes (drop_line now b) = lb_maxBytes b"
  by (simp_all add: drop_line_def split: list.splits)

lemma shed_dropOldest:
  assumes shed: "shed w w'" and i: "i \<in> set (bb_buffers w')" and len: "1 < lb_length (bb_heap w' i)"
  shows "shed w (dropOldest now i w')"
proof -
  have inv: "lb_inv (bb_heap w' i)" "bb_inv w'"
    using shed i by (auto simp: shed_def)
  have "tl (lb_lines (bb_heap w' i)) \<noteq> []"
    using len by (cases "lb_lines (bb_heap w' i)" rule: remdups_adj.cases) (auto simp: lb_length_def)
  moreover have "suffix (tl (lb_lines (bb_heap w' i))) (lb_lines (bb_heap w i))"
  proof (rule suffix_order.trans [OF suffix_tl])
    show "suffix (lb_lines (bb_heap w' i)) (lb_lines (bb_heap w i))"
      using shed by (simp add: shed_def)
  qed
  ultimately show ?thesis
    using shed i inv dropOldest_inv [OF inv(2) i, of now] accounted_drop_line [OF inv(1), of now]
    by (auto simp: shed_def dropOldest_put)
qed

lemma shedD:
  assumes "shed w w'"
  shows "bb_inv w'" "bb_buffers w' = bb_buffers w" "bb_max w' = bb_max w"
    "lb_nextSeq (bb_heap w' j) = lb_nextSeq (bb_heap w j)"
    "lb_maxBytes (bb_heap w' j) = lb_maxBytes (bb_heap w j)"
    "suffix (lb_lines (bb_heap w' j)) (lb_lines (bb_heap w j))"
    "lb_lines (bb_heap w j) \<noteq> [] \<Longrightarrow> lb_lines (bb_heap w' j) \<noteq> []"
    "j \<in> set (bb_buffers w) \<Longrightarrow> accounted (bb_heap w' j) = accounted (bb_heap w j)"
  using assms by (auto simp: shed_def)

lemma shed_reclaim: "bb_inv w \<Longrightarrow> shed w (reclaim now w)"
  by (rule reclaim_induct) (auto intro: shed_dropOldest shed_refl)

lemma shed_trim_own: "bb_inv w \<Longrightarrow> i \<in> set (bb_buffers w) \<Longrightarrow> shed w (trim_own now i w)"
  by (rule trim_own_induct) (simp_all add: shed_refl shed_dropOldest shedD(2))

lemma shed_trans: "shed u v \<Longrightarrow> shed v w \<Longrightarrow> shed u w"
  by (auto simp: shed_def intro: suffix_order.trans)

lemma lines_bytes_suffix: "suffix xs ys \<Longrightarrow> lines_bytes xs \<le> lines_bytes ys"
  using lines_bytes_nonneg by (auto simp: suffix_def)

lemma shed_bytes:
  assumes "shed w w'" "bb_inv w" "j \<in> set (bb_buffers w)"
  shows "lb_bytes (bb_heap w' j) \<le> lb_bytes (bb_heap w j)"
    and "lb_length (bb_heap w' j) \<le> lb_length (bb_heap w j)"
proof -
  have "lb_inv (bb_heap w j)" "lb_inv (bb_heap w' j)"
    using assms by (auto simp: shed_def)
  then show "lb_bytes (bb_heap w' j) \<le> lb_bytes (bb_heap w j)"
    using lines_bytes_suffix [OF shedD(6) [OF assms(1)]] by (simp add: lb_inv_def)
  show "lb_length (bb_heap w' j) \<le> lb_length (bb_heap w j)"
    using shedD(6) [OF assms(1), of j] by (auto simp: lb_length_def dest: suffix_length_le)
qed

lemma last_suffix: "suffix xs ys \<Longrightarrow> xs \<noteq> [] \<Longrightarrow> last xs = last ys"
  by (auto simp: suffix_def)

text \<open>\<open>push\<close> is an append followed by shedding.\<close>

lemma push_sheds:
  assumes "bb_inv w" "i \<in> set (bb_buffers w)"
  shows "shed (put_buffer i (append_line line (bb_heap w i)) w) (fst (push now i line w))"
proof -
  let ?w1 = "put_buffer i (append_line line (bb_heap w i)) w"
  have inv: "bb_inv ?w1" and i: "i \<in> set (bb_buffers ?w1)"
    using assms by (auto intro!: wf_intros)
  have "shed ?w1 (trim_own now i ?w1)"
    by (rule shed_trim_own [OF inv i])
  moreover have "shed (trim_own now i ?w1) (reclaim now (trim_own now i ?w1))"
    by (intro shed_reclaim shedD(1) [OF calculation])
  ultimately show ?thesis
    unfolding push_put by (auto intro: shed_trans)
qed

lemma push_inv [wf_intros]:
  "bb_inv w \<Longrightarrow> i \<in> set (bb_buffers w) \<Longrightarrow> bb_inv (fst (push now i line w))"
  by (blast intro: shedD(1) push_sheds)

lemma push_buffers [simp]:
  "bb_inv w \<Longrightarrow> i \<in> set (bb_buffers w) \<Longrightarrow> bb_buffers (fst (push now i line w)) = bb_buffers w"
  using shedD(2) [OF push_sheds] by simp

lemma reclaim_fits:
  "\<not> bb_max (reclaim now w) < bb_used (reclaim now w) \<or>
   pick_largest (bb_heap (reclaim now w)) None (bb_buffers (reclaim now w)) = None"
proof (induction now w rule: reclaim.induct)
  case (1 now w)
  then show ?case
    by (cases "pick_largest (bb_heap w) None (bb_buffers w)") (auto simp: reclaim.simps [of now w])
qed

lemma pick_largest_None:
  "pick_largest h best bs = None \<Longrightarrow> best = None \<and> (\<forall>i \<in> set bs. lb_length (h i) \<le> 1)"
  by (induction h best bs rule: pick_largest.induct) (auto split: if_splits)

lemma pick_largest_max:
  "pick_largest h best bs = Some i \<Longrightarrow>
   (\<forall>j \<in> set bs. 1 < lb_length (h j) \<longrightarrow> lb_bytes (h j) \<le> lb_bytes (h i)) \<and>
   (\<forall>j. best = Some j \<longrightarrow> lb_bytes (h j) \<le> lb_bytes (h i))"
  by (induction h best bs rule: pick_largest.induct) (fastforce split: if_splits option.splits)+

lemma trim_own_fits:
  "lb_length (bb_heap (trim_own now i w) i) \<le> 1 \<or>
   lb_bytes (bb_heap (trim_own now i w) i) \<le> lb_maxBytes (bb_heap (trim_own now i w) i)"
proof (induction now i w rule: trim_own.induct)
  case (1 now i w)
  then show ?case
    by (cases "1 < lb_length (bb_heap w i) \<and> lb_maxBytes (bb_heap w i) < lb_bytes (bb_heap w i)")
      (auto simp: trim_own.simps [of now i w])
qed

text \<open>A registered buffer is the backlog its connection drains.\<close>

lemma append_buffer_lines: "lb_lines (append_line l b) = lb_lines b @ [\<lparr>bl_seq = lb_nextSeq b, bl_line = l\<rparr>]"
  by (simp add: append_line_def)

interpretation lbq: backlog "pending i" "\<lambda>w. lb_nextSeq (bb_heap w i)" "\<lambda>l w. fst (push now i l w)"
    "\<lambda>s. ack s i" "\<lambda>w. bb_inv w \<and> i \<in> set (bb_buffers w)" for i now
proof (unfold_locales, goal_cases)
  case (1 b) then show ?case by (auto simp: pending_def lb_inv_def dest: bb_invD)
next
  case (2 b) then show ?case by (auto simp: pending_def lb_inv_def dest: bb_invD)
next
  case (3 b l) then show ?case by (auto intro: push_inv)
next
  case (4 b l)
  then show ?case using shedD(4) [OF push_sheds [of b i l now], of i] by (simp add: append_line_def)
next
  case (5 b l)
  then show ?case using shedD(6) [OF push_sheds [of b i l now], of i] by (simp add: append_buffer_lines pending_def)
next
  case (6 b l)
  then show ?case using shedD(7) [OF push_sheds [of b i l now], of i] by (simp add: append_buffer_lines pending_def)
next
  case (7 b s) then show ?case by (auto simp: ack_put intro!: wf_intros)
next
  case (8 b s) then show ?case by (simp add: ack_put) (simp add: ack_buffer_def)
next
  case (9 b s)
  then have "lb_inv (bb_heap b i)" by auto
  then show ?case
    by (auto simp: ack_put pending_def ack_buffer_def lb_inv_def intro!: contiguous_dropWhile)
qed

section \<open>Runs and the ledger they refine\<close>

text \<open>A run is a sequence of timed operations on the buffers of one process, the budget's own
  reclaiming included (it happens inside \<open>Push\<close>).  Each step reports what it observed.\<close>

datatype bb_op =
    Open nat int
  | Push nat string
  | Ack nat nat
  | TakeGap nat
  | Dispose nat

datatype bb_event =
    Opened nat
  | Pushed nat nat
  | Acked nat nat
  | Reported nat "gap option"
  | Disposed nat

fun bb_step :: "int \<Rightarrow> bb_op \<Rightarrow> byte_budget \<Rightarrow> byte_budget \<times> bb_event" where
  "bb_step now (Open i m) w = (new_buffer i m w, Opened i)"
| "bb_step now (Push i l) w = (case push now i l w of (w', seq) \<Rightarrow> (w', Pushed i seq))"
| "bb_step now (Ack s i) w = (ack s i w, Acked s i)"
| "bb_step now (TakeGap i) w = (case takeGap i w of (w', g) \<Rightarrow> (w', Reported i g))"
| "bb_step now (Dispose i) w = (dispose i w, Disposed i)"

text \<open>A buffer is used between its construction and its \<open>dispose\<close>, and its identity is fresh.\<close>

fun bb_ok :: "bb_op \<Rightarrow> byte_budget \<Rightarrow> bool" where
  "bb_ok (Open i m) w = (i \<notin> set (bb_buffers w))"
| "bb_ok (Push i l) w = (i \<in> set (bb_buffers w))"
| "bb_ok (Ack s i) w = (i \<in> set (bb_buffers w))"
| "bb_ok (TakeGap i) w = (i \<in> set (bb_buffers w))"
| "bb_ok (Dispose i) w = (i \<in> set (bb_buffers w))"

fun bb_run :: "(int \<times> bb_op) list \<Rightarrow> byte_budget \<Rightarrow> byte_budget \<times> bb_event list" where
  "bb_run [] w = (w, [])"
| "bb_run ((now, a) # as) w =
     (let (w', e) = bb_step now a w; (w'', es) = bb_run as w' in (w'', e # es))"

fun bb_run_ok :: "(int \<times> bb_op) list \<Rightarrow> byte_budget \<Rightarrow> bool" where
  "bb_run_ok [] w = True"
| "bb_run_ok ((now, a) # as) w = (bb_ok a w \<and> bb_run_ok as (fst (bb_step now a w)))"

definition empty_budget :: "int \<Rightarrow> byte_budget" where
  "empty_budget m =
     \<lparr>bb_used = 0, bb_max = m, bb_buffers = [],
      bb_heap = (\<lambda>_. \<lparr>lb_lines = [], lb_nextSeq = 1, lb_gap = None, lb_bytes = 0, lb_maxBytes = 0\<rparr>)\<rparr>"

text \<open>The specification: per live buffer, the sequence numbers not yet acknowledged or reported
  lost, and the next one.  It knows nothing of bytes, caps or other buffers.\<close>

type_synonym ledger = "nat \<Rightarrow> (nat set \<times> nat) option"

fun ledger_step :: "bb_event \<Rightarrow> ledger \<Rightarrow> ledger" where
  "ledger_step (Opened i) L = L(i \<mapsto> ({}, 1))"
| "ledger_step (Pushed i s) L = L(i := map_option (\<lambda>(A, n). (insert s A, Suc s)) (L i))"
| "ledger_step (Acked s i) L = L(i := map_option (\<lambda>(A, n). (A - {..s}, n)) (L i))"
| "ledger_step (Reported i g) L = L(i := map_option (\<lambda>(A, n). (A - gap_range g, n)) (L i))"
| "ledger_step (Disposed i) L = L(i := None)"

definition ledger_of :: "byte_budget \<Rightarrow> ledger" where
  "ledger_of w i =
     (if i \<in> set (bb_buffers w) then Some (accounted (bb_heap w i), lb_nextSeq (bb_heap w i)) else None)"

subsection \<open>The remaining operations keep the invariant\<close>

lemma sum_list_del:
  fixes f :: "'a \<Rightarrow> int"
  assumes "distinct xs" "i \<in> set xs"
  shows "(\<Sum>x \<leftarrow> set_del i xs. f x) = (\<Sum>x \<leftarrow> xs. f x) - f i"
  using sum.remove [of "set xs" i f] assms
  by (simp add: sum_list_distinct_conv_sum_set distinct_set_del)

lemma ack_inv [wf_intros]: "bb_inv w \<Longrightarrow> i \<in> set (bb_buffers w) \<Longrightarrow> bb_inv (ack s i w)"
  unfolding ack_put by (intro wf_intros bb_invD) auto

lemma lb_inv_no_gap: "lb_inv b \<Longrightarrow> lb_inv (b\<lparr>lb_gap := None\<rparr>)"
  by (simp add: lb_inv_def gap_before_def)

lemma takeGap_put:
  "takeGap i w = (put_buffer i ((bb_heap w i)\<lparr>lb_gap := None\<rparr>) w, lb_gap (bb_heap w i))"
  by (simp add: takeGap_def put_buffer_def peekGap_def)

lemma takeGap_inv [wf_intros]:
  "bb_inv w \<Longrightarrow> i \<in> set (bb_buffers w) \<Longrightarrow> bb_inv (fst (takeGap i w))"
  unfolding takeGap_put by (auto intro!: wf_intros lb_inv_no_gap)

lemma new_buffer_inv [wf_intros]:
  assumes "bb_inv w" "i \<notin> set (bb_buffers w)"
  shows "bb_inv (new_buffer i m w)"
proof -
  have "(\<Sum>j \<leftarrow> bb_buffers w. lb_bytes (bb_heap (new_buffer i m w) j)) = (\<Sum>j \<leftarrow> bb_buffers w. lb_bytes (bb_heap w j))"
    using assms(2) by (intro arg_cong [where f = sum_list] map_cong) (auto simp: new_buffer_def)
  with assms show ?thesis
    by (auto simp: bb_inv_def new_buffer_def set_add_def lb_inv_def gap_before_def)
qed

lemma dispose_inv [wf_intros]:
  assumes "bb_inv w" "i \<in> set (bb_buffers w)"
  shows "bb_inv (dispose i w)"
proof -
  have "(\<Sum>j \<leftarrow> set_del i (bb_buffers w). lb_bytes (bb_heap (dispose i w) j)) =
        (\<Sum>j \<leftarrow> set_del i (bb_buffers w). lb_bytes (bb_heap w j))"
    by (intro arg_cong [where f = sum_list] map_cong) (auto simp: dispose_def Let_def)
  with assms sum_list_del [of "bb_buffers w" i "\<lambda>j. lb_bytes (bb_heap w j)"] show ?thesis
    by (auto simp: bb_inv_def dispose_def Let_def distinct_set_del)
qed

lemma bb_step_inv: "bb_inv w \<Longrightarrow> bb_ok a w \<Longrightarrow> bb_inv (fst (bb_step now a w))"
  by (cases a) (auto simp: split_beta intro: wf_intros)

lemma bb_run_Cons:
  "bb_run ((now, a) # as) w =
     (fst (bb_run as (fst (bb_step now a w))),
      snd (bb_step now a w) # snd (bb_run as (fst (bb_step now a w))))"
  by (simp add: split_beta Let_def)

declare bb_run.simps(2) [simp del]

lemma bb_run_inv: "bb_inv w \<Longrightarrow> bb_run_ok as w \<Longrightarrow> bb_inv (fst (bb_run as w))"
  by (induction as arbitrary: w) (auto simp: bb_run_Cons bb_step_inv)

lemma empty_budget_inv: "bb_inv (empty_budget m)"
  by (simp add: bb_inv_def empty_budget_def)

subsection \<open>One step refines the ledger\<close>

lemma ledger_put:
  "i \<in> set (bb_buffers w) \<Longrightarrow>
   ledger_of (put_buffer i b w) = (ledger_of w)(i \<mapsto> (accounted b, lb_nextSeq b))"
  by (auto simp: ledger_of_def)

lemma ledger_shed: "shed w w' \<Longrightarrow> ledger_of w' = ledger_of w"
  by (auto simp: ledger_of_def fun_eq_iff shedD)

lemma ledger_live: "i \<in> set (bb_buffers w) \<Longrightarrow>
   ledger_of w i = Some (accounted (bb_heap w i), lb_nextSeq (bb_heap w i))"
  by (simp add: ledger_of_def)

lemma ledger_push:
  assumes "bb_inv w" "i \<in> set (bb_buffers w)"
  shows "ledger_of (fst (push now i l w)) =
         (ledger_of w)(i \<mapsto> (insert (lb_nextSeq (bb_heap w i)) (accounted (bb_heap w i)),
                             Suc (lb_nextSeq (bb_heap w i))))"
  using assms ledger_shed [OF push_sheds [OF assms]]
  by (simp add: ledger_put accounted_append_line) (simp add: append_line_def)

lemma accounted_take: "lb_inv b \<Longrightarrow> accounted (b\<lparr>lb_gap := None\<rparr>) = accounted b - gap_range (lb_gap b)"
  using set_seqs [of b]
  by (cases "lb_gap b") (auto simp: accounted_def gap_range_def lb_inv_def gap_before_def)

lemma bb_step_ledger:
  assumes inv: "bb_inv w" and ok: "bb_ok a w"
  shows "ledger_of (fst (bb_step now a w)) = ledger_step (snd (bb_step now a w)) (ledger_of w)"
proof (cases a)
  case (Push i l)
  with ok have i: "i \<in> set (bb_buffers w)" by simp
  with Push ledger_push [OF inv i, of now l] show ?thesis
    by (simp add: split_beta ledger_live) (simp add: push_put)
next
  case (Ack s i)
  with inv ok show ?thesis
    by (auto simp: ack_put ledger_put ledger_live accounted_ack bb_invD) (simp add: ack_buffer_def)
next
  case (TakeGap i)
  with inv ok show ?thesis
    by (auto simp: takeGap_put ledger_put ledger_live accounted_take bb_invD)
qed (use ok in \<open>auto simp: ledger_of_def new_buffer_def dispose_def accounted_def gap_range_def Let_def\<close>)

section \<open>Properties\<close>

text \<open>C1: Whatever is pushed, acknowledged, reported, opened and disposed, in any order and under any
  memory pressure, the sequence numbers a buffer holds or has recorded as its gap are exactly
  those pushed and neither acknowledged nor reported lost: no line disappears without a record.\<close>

theorem run_refines_ledger:
  assumes "bb_inv w" "bb_run_ok as w"
  shows "ledger_of (fst (bb_run as w)) = fold ledger_step (snd (bb_run as w)) (ledger_of w)"
  using assms
proof (induction as arbitrary: w)
  case (Cons ta as)
  obtain now a where ta: "ta = (now, a)" by (cases ta)
  from Cons ta have "bb_inv (fst (bb_step now a w))" "bb_run_ok as (fst (bb_step now a w))"
    by (auto simp: bb_step_inv)
  from Cons.IH [OF this] Cons.prems ta show ?case
    by (simp add: bb_run_Cons bb_step_ledger)
qed simp

lemma run_refines_ledger_witness:
  "let as = [(5, Open 7 100), (6, Push 7 ''PING''), (7, Push 7 ''abc''), (8, Ack 1 7)] in
   bb_run_ok as (empty_budget 1000) \<and>
   ledger_of (fst (bb_run as (empty_budget 1000))) =
     fold ledger_step (snd (bb_run as (empty_budget 1000))) (ledger_of (empty_budget 1000))"
proof -
  let ?as = "[(5, Open 7 100), (6, Push 7 ''PING''), (7, Push 7 ''abc''), (8, Ack 1 7)] :: (int \<times> bb_op) list"
  have ok: "bb_run_ok ?as (empty_budget 1000)"
    by (simp add: push_put empty_budget_def new_buffer_def set_add_def put_buffer_def append_line_def
        line_bytes_def utf8_char_def trim_own.simps reclaim.simps lb_length_def)
  show ?thesis
    unfolding Let_def using ok run_refines_ledger [OF empty_budget_inv ok] by blast
qed

text \<open>After a push the newest line is the last one pending, the pushed buffer is within its own cap
  or down to one line, and the process is within the shared budget or every buffer is down to one
  line.\<close>

theorem push_bounds:
  assumes "bb_inv w" "i \<in> set (bb_buffers w)" "push now i line w = (w', seq)"
  shows "pending i w' \<noteq> [] \<and>
    last (pending i w') = \<lparr>bl_seq = seq, bl_line = line\<rparr> \<and>
    (lb_length (bb_heap w' i) \<le> 1 \<or> lb_bytes (bb_heap w' i) \<le> lb_maxBytes (bb_heap w i)) \<and>
    (bb_used w' \<le> bb_max w \<or> (\<forall>j \<in> set (bb_buffers w). lb_length (bb_heap w' j) \<le> 1))"
proof -
  let ?w1 = "put_buffer i (append_line line (bb_heap w i)) w"
  let ?w2 = "trim_own now i ?w1"
  have inv1: "bb_inv ?w1" "i \<in> set (bb_buffers ?w1)"
    using assms by (auto intro!: wf_intros)
  have w': "w' = reclaim now ?w2" and seq: "seq = lb_nextSeq (bb_heap w i)"
    using assms(3) by (simp_all add: push_put)
  have s1: "shed ?w1 ?w2" by (rule shed_trim_own [OF inv1])
  have s2: "shed ?w2 w'" unfolding w' by (rule shed_reclaim [OF shedD(1) [OF s1]])
  have s: "shed ?w1 w'" by (rule shed_trans [OF s1 s2])
  have ne: "pending i w' \<noteq> []"
    using shedD(7) [OF s, of i] by (simp add: pending_def append_line_def)
  moreover have "last (pending i w') = \<lparr>bl_seq = seq, bl_line = line\<rparr>"
    using last_suffix [OF shedD(6) [OF s, of i]] ne by (simp add: pending_def append_line_def seq)
  moreover have "lb_length (bb_heap w' i) \<le> 1 \<or> lb_bytes (bb_heap w' i) \<le> lb_maxBytes (bb_heap w i)"
    using trim_own_fits [of now i ?w1] shed_bytes [OF s2 shedD(1) [OF s1], of i] inv1(2) shedD(2,5) [OF s1]
    by (auto simp: append_line_def)
  moreover have "bb_used w' \<le> bb_max w \<or> (\<forall>j \<in> set (bb_buffers w). lb_length (bb_heap w' j) \<le> 1)"
    using reclaim_fits [of now ?w2] pick_largest_None [of "bb_heap w'" None "bb_buffers w'"]
      shedD(2,3) [OF s] by (auto simp: w' [symmetric])
  ultimately show ?thesis by blast
qed

lemmas bb_eval = push_put new_buffer_def set_add_def put_buffer_def append_line_def line_bytes_def
  utf8_char_def trim_own.simps reclaim.simps lb_length_def dropOldest_put drop_line_def
  extend_gap_def empty_budget_def pending_def

lemma push_bounds_witness:
  "let w = new_buffer 1 12 (empty_budget 1000); w1 = fst (push 5 1 ''abcdef'' w);
       w2 = fst (push 6 1 ''ghijkl'' w1) in
   bb_inv w1 \<and> 1 \<in> set (bb_buffers w1) \<and> pending 1 w2 = [\<lparr>bl_seq = 2, bl_line = ''ghijkl''\<rparr>] \<and>
   lb_bytes (bb_heap w2 1) \<le> 12"
proof -
  let ?w = "new_buffer 1 12 (empty_budget 1000)"
  let ?w1 = "fst (push 5 1 ''abcdef'' ?w)"
  have "bb_inv ?w"
    by (rule new_buffer_inv [OF empty_budget_inv]) (simp add: empty_budget_def)
  moreover have "1 \<in> set (bb_buffers ?w)"
    by (simp add: empty_budget_def new_buffer_def)
  ultimately have w: "bb_inv ?w" "1 \<in> set (bb_buffers ?w)" .
  have w1: "bb_inv ?w1" "1 \<in> set (bb_buffers ?w1)"
    using w by (auto intro: wf_intros)
  have "push 6 1 ''ghijkl'' ?w1 = (fst (push 6 1 ''ghijkl'' ?w1), snd (push 6 1 ''ghijkl'' ?w1))"
    by simp
  note b = push_bounds [OF w1 this]
  have "pending 1 (fst (push 6 1 ''ghijkl'' ?w1)) = [\<lparr>bl_seq = 2, bl_line = ''ghijkl''\<rparr>]"
    by (simp add: bb_eval)
  moreover have "lb_maxBytes (bb_heap ?w1 1) = 12" "lb_bytes (bb_heap (fst (push 6 1 ''ghijkl'' ?w1)) 1) = 8"
    by (simp_all add: bb_eval)
  ultimately show ?thesis
    using w1 b by (simp add: Let_def)
qed

text \<open>Under global pressure it is a largest backlog that sheds: each step of \<open>reclaim\<close> drops from a
  registered buffer with more than one line whose byte count no other such buffer exceeds.\<close>

theorem reclaim_sheds_largest:
  assumes "bb_max w < bb_used w" "pick_largest (bb_heap w) None (bb_buffers w) = Some i"
  shows "reclaim now w = reclaim now (dropOldest now i w) \<and>
    i \<in> set (bb_buffers w) \<and> 1 < lb_length (bb_heap w i) \<and>
    (\<forall>j \<in> set (bb_buffers w). 1 < lb_length (bb_heap w j) \<longrightarrow>
       lb_bytes (bb_heap w j) \<le> lb_bytes (bb_heap w i))"
  using assms pick_largest_in [OF assms(2)] pick_largest_max [OF assms(2)]
  by (simp add: reclaim.simps [of now w])

lemma reclaim_sheds_largest_witness:
  "let big = \<lparr>lb_lines = [\<lparr>bl_seq = 1, bl_line = ''aaaaaaaa''\<rparr>, \<lparr>bl_seq = 2, bl_line = ''b''\<rparr>],
              lb_nextSeq = 3, lb_gap = None, lb_bytes = 13, lb_maxBytes = 100\<rparr>;
       small = \<lparr>lb_lines = [\<lparr>bl_seq = 1, bl_line = ''c''\<rparr>, \<lparr>bl_seq = 2, bl_line = ''d''\<rparr>],
                lb_nextSeq = 3, lb_gap = None, lb_bytes = 6, lb_maxBytes = 100\<rparr>;
       w = \<lparr>bb_used = 19, bb_max = 15, bb_buffers = [4, 9], bb_heap = (\<lambda>i. if i = 9 then big else small)\<rparr>
   in reclaim 0 w = reclaim 0 (dropOldest 0 9 w) \<and> lb_length (bb_heap (reclaim 0 w) 4) = 2"
proof -
  let ?big = "\<lparr>lb_lines = [\<lparr>bl_seq = 1, bl_line = ''aaaaaaaa''\<rparr>, \<lparr>bl_seq = 2, bl_line = ''b''\<rparr>],
              lb_nextSeq = 3, lb_gap = None, lb_bytes = 13, lb_maxBytes = 100\<rparr>"
  let ?small = "\<lparr>lb_lines = [\<lparr>bl_seq = 1, bl_line = ''c''\<rparr>, \<lparr>bl_seq = 2, bl_line = ''d''\<rparr>],
                lb_nextSeq = 3, lb_gap = None, lb_bytes = 6, lb_maxBytes = 100\<rparr>"
  let ?w = "\<lparr>bb_used = 19, bb_max = 15, bb_buffers = [4, 9], bb_heap = (\<lambda>i. if i = 9 then ?big else ?small)\<rparr>"
  have "bb_max ?w < bb_used ?w" "pick_largest (bb_heap ?w) None (bb_buffers ?w) = Some 9"
    by (simp_all add: lb_length_def)
  note r = reclaim_sheds_largest [OF this, of 0]
  have "lb_length (bb_heap (reclaim 0 ?w) 4) = 2"
    by (simp add: bb_eval)
  with r show ?thesis unfolding Let_def by blast
qed

text \<open>From an empty process, after any run, the shared counter is the exact sum of the bytes of the
  lines the live buffers hold, so a buffer that ends gives all of its share back.\<close>

theorem budget_exact:
  assumes "bb_run_ok as (empty_budget m)"
  shows "bb_used (fst (bb_run as (empty_budget m))) =
         (\<Sum>i \<leftarrow> bb_buffers (fst (bb_run as (empty_budget m))).
            lines_bytes (lb_lines (bb_heap (fst (bb_run as (empty_budget m))) i)))"
proof -
  let ?w = "fst (bb_run as (empty_budget m))"
  have inv: "bb_inv ?w"
    by (rule bb_run_inv [OF empty_budget_inv assms])
  then have "(\<Sum>i \<leftarrow> bb_buffers ?w. lb_bytes (bb_heap ?w i)) =
             (\<Sum>i \<leftarrow> bb_buffers ?w. lines_bytes (lb_lines (bb_heap ?w i)))"
    by (intro arg_cong [where f = sum_list] map_cong) (auto simp: lb_inv_def dest: bb_invD)
  with inv show ?thesis by (simp add: bb_inv_def)
qed

lemma budget_exact_witness:
  "let as = [(1, Open 1 100), (2, Open 2 100), (3, Push 1 ''abc''), (4, Push 2 ''de''), (5, Dispose 1)] in
   bb_run_ok as (empty_budget 50) \<and> bb_used (fst (bb_run as (empty_budget 50))) = 4"
proof -
  let ?as = "[(1, Open 1 100), (2, Open 2 100), (3, Push 1 ''abc''), (4, Push 2 ''de''), (5, Dispose 1)]"
  have ok: "bb_run_ok ?as (empty_budget 50)"
    by (simp add: bb_eval)
  have "(\<Sum>i \<leftarrow> bb_buffers (fst (bb_run ?as (empty_budget 50))).
            lines_bytes (lb_lines (bb_heap (fst (bb_run ?as (empty_budget 50))) i))) = 4"
    by (simp add: bb_run_Cons bb_eval dispose_def set_del_def Let_def)
  with budget_exact [OF ok] ok show ?thesis by (simp add: Let_def)
qed

end
