(* ===== verification/Numerals.thy ===== *)
theory Numerals imports Lurker_Base begin

text \<open>
  Numbers as texts: the decimal digits JavaScript prints, and the digits of a base that it reads.
\<close>

text \<open>The decimal digits of a number.\<close>

fun digits_of :: "nat \<Rightarrow> string" where
  "digits_of n = (if n < 10 then [char_of (48 + n)] else digits_of (n div 10) @ [char_of (48 + n mod 10)])"

declare digits_of.simps [simp del]

definition digit_value :: "nat \<Rightarrow> char \<Rightarrow> nat option" where
  "digit_value base c =
     (let n = of_char c :: nat;
          v = (if 48 \<le> n \<and> n \<le> 57 then n - 48 else if 97 \<le> n \<and> n \<le> 122 then n - 87 else if 65 \<le> n \<and> n \<le> 90 then n - 55 else base)
      in if v < base then Some v else None)"

fun digits_value :: "nat \<Rightarrow> nat \<Rightarrow> string \<Rightarrow> nat option" where
  "digits_value base acc [] = Some acc"
| "digits_value base acc (c # cs) =
     (case digit_value base c of None \<Rightarrow> None | Some v \<Rightarrow> digits_value base (acc * base + v) cs)"

definition numeral_of :: "nat \<Rightarrow> string \<Rightarrow> nat option" where
  "numeral_of base s = (if s = [] then None else digits_value base 0 s)"

lemma digit_value_digit: "is_digit c \<Longrightarrow> digit_value 10 c = Some (of_char c - 48)"
  by (auto simp: digit_value_def is_digit_def Let_def)

lemma digits_value_digits: "list_all is_digit s \<Longrightarrow> \<exists>n. digits_value 10 acc s = Some n"
  by (induction s arbitrary: acc) (auto simp: digit_value_digit)

lemma digits_value_append:
  "digits_value b acc (s @ t) = (case digits_value b acc s of None \<Rightarrow> None | Some n \<Rightarrow> digits_value b n t)"
  by (induction s arbitrary: acc) (auto split: option.splits)

lemma is_digit_char: "k < 10 \<Longrightarrow> is_digit (char_of (48 + k :: nat))"
  by (simp add: is_digit_def)

lemma digits_of_digits: "list_all is_digit (digits_of n) \<and> digits_of n \<noteq> []"
proof (induction n rule: digits_of.induct)
  case (1 n)
  then show ?case by (cases "n < 10") (simp_all add: digits_of.simps [of n] is_digit_char)
qed

lemma digits_of_value: "digits_value 10 0 (digits_of n) = Some n"
proof (induction n rule: digits_of.induct)
  case (1 n)
  show ?case
  proof (cases "n < 10")
    case True
    then show ?thesis by (subst digits_of.simps) (simp add: digit_value_def Let_def)
  next
    case False
    then show ?thesis using 1 by (subst digits_of.simps) (simp add: digits_value_append digit_value_def Let_def)
  qed
qed

lemma numeral_of_digits: "numeral_of 10 (digits_of n) = Some n"
  using digits_of_digits [of n] digits_of_value [of n] by (simp add: numeral_of_def)

end
