(* ===== verification/Proxy_Config.thy ===== *)
theory Proxy_Config imports Numerals begin

text \<open>
  \<open>shared/proxy.ts\<close>: the validated proxy setting of a network, the redacted form that may reach a
  log, and the comparison that decides whether a held socket still runs through the configured
  proxy.  \<open>parseProxyUrl\<close> is not modelled (it is the WHATWG \<open>URL\<close> parser plus \<open>validateProxy\<close>).
  \<open>Number(text)\<close> on a port given as text is the argument \<open>to_number\<close>: \<open>Some n\<close> when the text reads
  as the integer \<open>n\<close>, \<open>None\<close> otherwise (not a number, or not an integer).
\<close>

datatype proxy_type = Socks5 | Http

record proxy_config =
  px_type :: proxy_type
  px_host :: string
  px_port :: int
  px_username :: "string option"
  px_password :: "string option"

datatype proxy_field = FType | FHost | FPort | FUsername | FPassword

record proxy_problem =
  pp_error :: string
  pp_field :: "proxy_field option"

datatype port_input = PortMissing | PortNumber "int option" | PortText string

record proxy_input =
  pi_type :: "string option"
  pi_host :: "string option"
  pi_port :: port_input
  pi_username :: "string option"
  pi_password :: "string option"

text \<open>\<open>s || ''\<close>.\<close>

fun or_empty :: "string option \<Rightarrow> string" where
  "or_empty None = ''''"
| "or_empty (Some s) = s"

definition non_empty :: "string \<Rightarrow> string option" where
  "non_empty s = (if s = '''' then None else Some s)"

fun proxy_type_of :: "string \<Rightarrow> proxy_type option" where
  "proxy_type_of s = (if s = ''socks5'' then Some Socks5 else if s = ''http'' then Some Http else None)"

fun proxy_type_name :: "proxy_type \<Rightarrow> string" where
  "proxy_type_name Socks5 = ''socks5''"
| "proxy_type_name Http = ''http''"

definition has_line_break :: "string \<Rightarrow> bool" where
  "has_line_break s = (CHR 0x0D \<in> set s \<or> CHR 0x0A \<in> set s)"

definition port_number :: "(string \<Rightarrow> int option) \<Rightarrow> port_input \<Rightarrow> int option" where
  "port_number to_number p =
     (case p of PortMissing \<Rightarrow> None | PortNumber n \<Rightarrow> n | PortText t \<Rightarrow> to_number t)"

definition problem :: "string \<Rightarrow> proxy_field \<Rightarrow> proxy_problem + proxy_config" where
  "problem e f = Inl \<lparr>pp_error = e, pp_field = Some f\<rparr>"

text \<open>The error texts that quote the input keep their fixed part only.\<close>

definition validateProxy ::
  "(string \<Rightarrow> int option) \<Rightarrow> proxy_input \<Rightarrow> proxy_problem + proxy_config" where
  "validateProxy to_number inp =
     (case proxy_type_of (to_lower (or_empty (pi_type inp))) of
        None \<Rightarrow> problem ''is not a proxy type Lurker speaks'' FType
      | Some type \<Rightarrow>
        let host = js_trim (or_empty (pi_host inp)) in
        if host = '''' then problem ''a proxy needs a host'' FHost
        else if list_ex is_space host then problem ''a proxy host cannot contain spaces'' FHost
        else
        (case port_number to_number (pi_port inp) of
           None \<Rightarrow> problem ''is not a valid port'' FPort
         | Some port \<Rightarrow>
           if port < 1 \<or> 65535 < port then problem ''is not a valid port'' FPort
           else
           let username = js_trim (or_empty (pi_username inp));
               password = or_empty (pi_password inp) in
           if password \<noteq> '''' \<and> username = ''''
           then problem ''a proxy password needs a username too'' FUsername
           else if 255 < utf8_length username
           then problem ''a proxy username can be at most 255 bytes'' FUsername
           else if 255 < utf8_length password
           then problem ''a proxy password can be at most 255 bytes'' FPassword
           else if has_line_break username \<or> has_line_break password
           then problem ''proxy credentials cannot contain line breaks'' FUsername
           else if CHR '':'' \<in> set username
           then problem ''a proxy username cannot contain a colon'' FUsername
           else Inr \<lparr>px_type = type, px_host = host, px_port = port,
                     px_username = non_empty username, px_password = non_empty password\<rparr>))"

definition describeProxy :: "proxy_config \<Rightarrow> string" where
  "describeProxy p =
     (let auth = (case px_username p of
                    None \<Rightarrow> ''''
                  | Some u \<Rightarrow> if u = '''' then ''''
                            else u @ (if or_empty (px_password p) \<noteq> '''' then '':***'' else '''') @ ''@'');
          host = (if CHR '':'' \<in> set (px_host p) then ''['' @ px_host p @ '']'' else px_host p)
      in proxy_type_name (px_type p) @ ''://'' @ auth @ host @ '':'' @ digits_of (nat (px_port p)))"

definition sameProxyRoute :: "proxy_config option \<Rightarrow> proxy_config option \<Rightarrow> bool" where
  "sameProxyRoute a b =
     (case (a, b) of
        (Some a, Some b) \<Rightarrow>
          px_type a = px_type b \<and> px_host a = px_host b \<and> px_port a = px_port b \<and>
          or_empty (px_username a) = or_empty (px_username b)
      | (None, None) \<Rightarrow> True
      | _ \<Rightarrow> False)"

definition sameProxy :: "proxy_config option \<Rightarrow> proxy_config option \<Rightarrow> bool" where
  "sameProxy a b =
     (sameProxyRoute a b \<and>
      or_empty (Option.bind a px_password) = or_empty (Option.bind b px_password))"

section \<open>Lemmas\<close>

definition proxy_wf :: "proxy_config \<Rightarrow> bool" where
  "proxy_wf p \<longleftrightarrow>
     px_host p \<noteq> '''' \<and> \<not> list_ex is_space (px_host p) \<and>
     1 \<le> px_port p \<and> px_port p \<le> 65535 \<and>
     px_username p \<noteq> Some '''' \<and> px_password p \<noteq> Some '''' \<and>
     (px_password p \<noteq> None \<longrightarrow> px_username p \<noteq> None) \<and>
     utf8_length (or_empty (px_username p)) \<le> 255 \<and> utf8_length (or_empty (px_password p)) \<le> 255 \<and>
     \<not> has_line_break (or_empty (px_username p)) \<and> \<not> has_line_break (or_empty (px_password p)) \<and>
     CHR '':'' \<notin> set (or_empty (px_username p)) \<and>
     js_trim (or_empty (px_username p)) = or_empty (px_username p)"

lemma js_trim_id: "(\<And>c. c \<in> set s \<Longrightarrow> \<not> is_space c) \<Longrightarrow> js_trim s = s"
proof -
  have keep: "dropWhile P xs = xs" if "\<And>c. c \<in> set xs \<Longrightarrow> \<not> P c" for P and xs :: string
    using that by (cases xs) auto
  assume "\<And>c. c \<in> set s \<Longrightarrow> \<not> is_space c"
  then have "dropWhile is_space s = s" "dropWhile is_space (rev s) = rev s"
    by (auto intro!: keep)
  then show ?thesis by (simp add: js_trim_def)
qed

lemma js_trim_Nil [simp]: "js_trim [] = []"
  by (simp add: js_trim_def)

lemma dropWhile_idem: "dropWhile P (dropWhile P xs) = dropWhile P xs"
  by (induction xs) auto

lemma js_trim_idem: "js_trim (js_trim s) = js_trim s"
proof -
  have "dropWhile is_space (rev (dropWhile is_space (rev (dropWhile is_space s)))) =
        rev (dropWhile is_space (rev (dropWhile is_space s)))"
  proof (cases "dropWhile is_space s")
    case (Cons x xs)
    then have x: "\<not> is_space x" by (metis dropWhile_eq_Cons_conv)
    have "rev (dropWhile is_space (rev (x # xs))) = x # rev (dropWhile is_space (rev xs))"
      using x by (simp add: dropWhile_append)
    then show ?thesis using Cons x by simp
  next
    case Nil
    then show ?thesis by (simp only: Nil dropWhile.simps rev.simps)
  qed
  then show ?thesis by (simp add: js_trim_def dropWhile_idem)
qed

lemma non_empty_simps [simp]: "non_empty [] = None" "s \<noteq> [] \<Longrightarrow> non_empty s = Some s"
  by (simp_all add: non_empty_def)

lemma or_empty_non_empty [simp]: "or_empty (non_empty s) = s"
  by (simp add: non_empty_def)

lemma validateProxy_wf: "validateProxy num inp = Inr p \<Longrightarrow> proxy_wf p"
  by (auto simp: validateProxy_def problem_def proxy_wf_def Let_def non_empty_def js_trim_idem
      split: option.splits if_splits)

lemma proxy_type_name_of [simp]: "proxy_type_of (to_lower (proxy_type_name t)) = Some t"
  by (cases t) (simp_all add: to_lower_def lower_char_def)

definition to_input :: "proxy_config \<Rightarrow> proxy_input" where
  "to_input p = \<lparr>pi_type = Some (proxy_type_name (px_type p)), pi_host = Some (px_host p),
     pi_port = PortNumber (Some (px_port p)), pi_username = px_username p, pi_password = px_password p\<rparr>"

lemma revalidate: "proxy_wf p \<Longrightarrow> validateProxy num (to_input p) = Inr p"
proof -
  assume wf: "proxy_wf p"
  have host: "js_trim (px_host p) = px_host p"
    using wf by (intro js_trim_id) (auto simp: proxy_wf_def list_ex_iff)
  have opt: "non_empty (or_empty x) = x" if "x \<noteq> Some ''''" for x
    using that by (cases x) (auto simp: non_empty_def)
  have "non_empty (or_empty (px_username p)) = px_username p"
       "non_empty (or_empty (px_password p)) = px_password p"
    using wf by (auto intro!: opt simp: proxy_wf_def)
  with wf host show ?thesis
    by (auto simp: validateProxy_def to_input_def proxy_wf_def port_number_def problem_def
        simp del: proxy_type_of.simps)
qed

section \<open>Properties\<close>

text \<open>A proxy setting that validation accepts is one that can be put on the wire: non-empty host without
  spaces, port in range, credentials that fit RFC 1929 and contain no line break, no password
  without a username.  Validating the stored columns again accepts them unchanged.\<close>

theorem validateProxy_sound:
  assumes "validateProxy num inp = Inr p"
  shows "proxy_wf p \<and> validateProxy num' (to_input p) = Inr p"
  using validateProxy_wf [OF assms] revalidate by blast

lemma validateProxy_sound_witness:
  "let inp = \<lparr>pi_type = Some ''SOCKS5'', pi_host = Some '' tor.example '', pi_port = PortText ''9050'',
              pi_username = Some ''u'', pi_password = Some ''p w''\<rparr>;
       p = \<lparr>px_type = Socks5, px_host = ''tor.example'', px_port = 9050,
            px_username = Some ''u'', px_password = Some ''p w''\<rparr>
   in validateProxy (\<lambda>t. Some 9050) inp = Inr p \<and> validateProxy (\<lambda>t. None) (to_input p) = Inr p"
proof -
  let ?inp = "\<lparr>pi_type = Some ''SOCKS5'', pi_host = Some '' tor.example '', pi_port = PortText ''9050'',
              pi_username = Some ''u'', pi_password = Some ''p w''\<rparr>"
  let ?p = "\<lparr>px_type = Socks5, px_host = ''tor.example'', px_port = 9050,
            px_username = Some ''u'', px_password = Some ''p w''\<rparr>"
  have v: "validateProxy (\<lambda>t. Some 9050) ?inp = Inr ?p"
    by (simp add: validateProxy_def to_lower_def lower_char_def js_trim_def is_space_def port_number_def
        has_line_break_def utf8_char_def non_empty_def char_of_def bit_0)
  show ?thesis
    unfolding Let_def using v validateProxy_sound [OF v, of "\<lambda>t. None"] by blast
qed

text \<open>Two validated settings are the same proxy to the dial comparison exactly when they are equal, so no
  edit of a setting is mistaken for the socket already held.\<close>

theorem sameProxy_iff_eq:
  assumes "\<And>p. a = Some p \<Longrightarrow> proxy_wf p" "\<And>p. b = Some p \<Longrightarrow> proxy_wf p"
  shows "sameProxy a b \<longleftrightarrow> a = b"
proof (cases a; cases b)
  fix p q
  assume ab: "a = Some p" "b = Some q"
  have opt: "or_empty x = or_empty y \<longleftrightarrow> x = y" if "x \<noteq> Some ''''" "y \<noteq> Some ''''" for x y
    using that by (cases x; cases y) auto
  have "px_username p \<noteq> Some ''''" "px_username q \<noteq> Some ''''"
       "px_password p \<noteq> Some ''''" "px_password q \<noteq> Some ''''"
    using assms ab by (auto simp: proxy_wf_def)
  then show ?thesis
    using ab by (auto simp: sameProxy_def sameProxyRoute_def opt)
qed (auto simp: sameProxy_def sameProxyRoute_def)

lemma sameProxy_iff_eq_witness:
  "let p = \<lparr>px_type = Http, px_host = ''h'', px_port = 3128, px_username = Some ''u'', px_password = Some ''a''\<rparr>
   in proxy_wf p \<and> \<not> sameProxy (Some p) (Some (p\<lparr>px_password := Some ''b''\<rparr>))"
proof -
  let ?p = "\<lparr>px_type = Http, px_host = ''h'', px_port = 3128, px_username = Some ''u'', px_password = Some ''a''\<rparr>"
  have wf: "proxy_wf ?p" "proxy_wf (?p\<lparr>px_password := Some ''b''\<rparr>)"
    by (simp_all add: proxy_wf_def is_space_def has_line_break_def utf8_char_def js_trim_def)
  have "sameProxy (Some ?p) (Some (?p\<lparr>px_password := Some ''b''\<rparr>)) \<longleftrightarrow>
        Some ?p = Some (?p\<lparr>px_password := Some ''b''\<rparr>)"
    using wf by (intro sameProxy_iff_eq) auto
  with wf show ?thesis by (simp add: Let_def)
qed

text \<open>The form of a proxy that may be logged does not depend on the password: only whether there is
  one shows.\<close>

theorem describeProxy_hides_password:
  assumes "or_empty pw = '''' \<longleftrightarrow> or_empty (px_password p) = ''''"
  shows "describeProxy (p\<lparr>px_password := pw\<rparr>) = describeProxy p"
  using assms by (simp add: describeProxy_def Let_def)

lemma describeProxy_hides_password_witness:
  "let p = \<lparr>px_type = Http, px_host = ''h'', px_port = 80, px_username = Some ''u'', px_password = Some ''hunter2''\<rparr>
   in describeProxy (p\<lparr>px_password := Some ''x''\<rparr>) = describeProxy p \<and>
      describeProxy p = ''http://u:***@h:80''"
proof -
  let ?p = "\<lparr>px_type = Http, px_host = ''h'', px_port = 80, px_username = Some ''u'', px_password = Some ''hunter2''\<rparr>"
  have "describeProxy ?p = ''http://u:***@h:80''"
    by (simp add: describeProxy_def digits_of.simps char_of_def bit_0)
  then show ?thesis
    unfolding Let_def using describeProxy_hides_password [of "Some ''x''" ?p] by simp
qed

end
