(* ===== verification/Engine_Protocol.thy ===== *)
theory Engine_Protocol imports Complex_Main Line_Buffer Proxy_Config begin

text \<open>
  \<open>server/engine/protocol.ts\<close>: the frames of the link between the app and the IRC engine, and the
  newline-delimited reader both ends share.  A frame from the peer is untrusted JSON: a field the
  code type-checks before use is an \<open>option\<close> (\<open>None\<close> for a value of the wrong type).  The JSON text
  parser and printer are arguments (\<open>json_parse\<close>, \<open>stringify\<close>); the check on the parsed value is
  \<open>isFrame\<close>.
\<close>

section \<open>Frames\<close>

definition PROTOCOL_MAJOR :: int where
  "PROTOCOL_MAJOR = 1"

definition PROTOCOL_MINOR :: int where
  "PROTOCOL_MINOR = 6"

definition MAX_FRAME_BYTES :: nat where
  "MAX_FRAME_BYTES = 256 * 1024"

type_synonym endpoint = "string \<times> nat"

datatype conn_state = SDialing | SOpen | SClosing

record connection_info =
  ci_id :: string
  ci_state :: conn_state
  ci_attached :: bool
  ci_nick :: "string option"
  ci_channelCount :: nat
  ci_bufferedLines :: nat
  ci_bufferedBytes :: int
  ci_detachedForMs :: "int option"

record connect_frame =
  cf_id :: "string option"
  cf_host :: "string option"
  cf_port :: "int option"
  cf_tls :: bool
  cf_rejectUnauthorized :: bool
  cf_outgoingAddr :: "string option"
  cf_ident :: "string option"
  cf_clientCert :: "(string option \<times> string option) option"
  cf_proxy :: "proxy_input option"

record hello_frame =
  hf_protocol :: int
  hf_secret :: "string option"
  hf_instance :: "string option"
  hf_startedAt :: rat

datatype app_frame =
    AHello hello_frame
  | APing
  | APong
  | AConnect connect_frame
  | AWrite string string
  | AAck string nat
  | ADetach string
  | AClose string
  | AList
  | AUnknown string

record attached_payload =
  ap_local :: endpoint
  ap_remote :: endpoint
  ap_socket :: string
  ap_replay :: "string list"
  ap_nick :: "string option"
  ap_channels :: "string list"
  ap_detachedForMs :: int
  ap_unattended :: bool

datatype engine_frame =
    FHello int int string "string list"
  | FPong
  | FDialing string
  | FOpen string endpoint endpoint string
  | FAttached string attached_payload
  | FLine string nat string
  | FLive string
  | FGap string gap
  | FDetached string
  | FClosed string "string option"
  | FHeld string
  | FListing "connection_info list"
  | FError "string option" string

section \<open>Framing\<close>

datatype json =
    JNull
  | JBool bool
  | JNum rat
  | JStr string
  | JArr "json list"
  | JObj "(string \<times> json) list"

fun isFrame :: "json \<Rightarrow> bool" where
  "isFrame (JObj kvs) = (case map_of kvs ''op'' of Some (JStr _) \<Rightarrow> True | _ \<Rightarrow> False)"
| "isFrame _ = False"

datatype frame_error = FrameTooLong | MalformedFrame | BadJson

abbreviation newline :: char where
  "newline \<equiv> CHR 0x0A"

definition encodeFrame :: "(json \<Rightarrow> string) \<Rightarrow> json \<Rightarrow> string" where
  "encodeFrame stringify f = stringify f @ [newline]"

lemma index_of_length: "index_of c s = Some i \<Longrightarrow> i < length s"
  using index_of_Some_split by blast

text \<open>The loop of \<open>FrameReader.push\<close>: complete lines come out, the rest stays.  An exception leaves the
  caller nothing but itself (it drops the link).\<close>

function read_frames :: "(string \<Rightarrow> json option) \<Rightarrow> string \<Rightarrow> frame_error + json list \<times> string" where
  "read_frames json_parse buf =
     (case index_of newline buf of
        None \<Rightarrow> Inr ([], buf)
      | Some nl \<Rightarrow>
          (let raw = take nl buf; rest = drop (Suc nl) buf in
           if js_trim raw = [] then read_frames json_parse rest
           else if MAX_FRAME_BYTES < length raw then Inl FrameTooLong
           else case json_parse raw of
                  None \<Rightarrow> Inl BadJson
                | Some parsed \<Rightarrow>
                    if \<not> isFrame parsed then Inl MalformedFrame
                    else case read_frames json_parse rest of
                           Inl e \<Rightarrow> Inl e
                         | Inr (out, b) \<Rightarrow> Inr (parsed # out, b)))"
  by pat_completeness auto
termination
  by (relation "measure (\<lambda>(p, buf). length buf)") (auto dest: index_of_length)

declare read_frames.simps [simp del]

definition reader_push ::
  "(string \<Rightarrow> json option) \<Rightarrow> string \<Rightarrow> string \<Rightarrow> frame_error + json list \<times> string" where
  "reader_push json_parse buf chunk =
     (case read_frames json_parse (buf @ chunk) of
        Inl e \<Rightarrow> Inl e
      | Inr (out, b) \<Rightarrow> if MAX_FRAME_BYTES < length b then Inl FrameTooLong else Inr (out, b))"

text \<open>A link's whole input: each chunk is pushed into the same reader.\<close>

fun feed :: "(string \<Rightarrow> json option) \<Rightarrow> string \<Rightarrow> string list \<Rightarrow> frame_error + json list \<times> string" where
  "feed json_parse buf [] = Inr ([], buf)"
| "feed json_parse buf (c # cs) =
     (case reader_push json_parse buf c of
        Inl e \<Rightarrow> Inl e
      | Inr (out, b) \<Rightarrow>
          (case feed json_parse b cs of
             Inl e \<Rightarrow> Inl e
           | Inr (out', b') \<Rightarrow> Inr (out @ out', b')))"

section \<open>Addresses\<close>

text \<open>\<open>parseHostPort\<close>: \<open>Number\<close> on a text, as an integer, is the argument \<open>num\<close>; the error is the message.\<close>

definition checkPort :: "(string \<Rightarrow> int option) \<Rightarrow> string \<Rightarrow> string \<Rightarrow> string + int" where
  "checkPort num raw t =
     (case num t of
        None \<Rightarrow> Inl (''invalid port in '' @ [CHR 0x22] @ raw @ [CHR 0x22])
      | Some n \<Rightarrow>
          if n \<le> 0 \<or> 65535 < n then Inl (''invalid port in '' @ [CHR 0x22] @ raw @ [CHR 0x22]) else Inr n)"

definition all_digits :: "string \<Rightarrow> bool" where
  "all_digits s = (s \<noteq> [] \<and> list_all is_digit s)"

text \<open>A bracketed address and the text of its port.\<close>

definition match_v6 :: "string \<Rightarrow> (string \<times> string option) option" where
  "match_v6 s =
     (if s = [] \<or> hd s \<noteq> CHR ''['' then None
      else case index_of (CHR '']'') (tl s) of
             None \<Rightarrow> None
           | Some i \<Rightarrow>
               let inner = take i (tl s); rest = drop (Suc i) (tl s) in
               if inner = [] then None
               else if rest = [] then Some (inner, None)
               else if hd rest = CHR '':'' \<and> all_digits (tl rest) then Some (inner, Some (tl rest))
               else None)"

definition last_index_of :: "char \<Rightarrow> string \<Rightarrow> nat option" where
  "last_index_of c s = map_option (\<lambda>i. length s - Suc i) (index_of c (rev s))"

definition parseHostPort :: "(string \<Rightarrow> int option) \<Rightarrow> string \<Rightarrow> string \<times> int \<Rightarrow> string + string \<times> int" where
  "parseHostPort num raw defaults =
     (let s = js_trim raw; with_port = (\<lambda>h t. case checkPort num raw t of Inl e \<Rightarrow> Inl e | Inr n \<Rightarrow> Inr (h, n)) in
      if s = [] then Inr defaults
      else case match_v6 s of
             Some (h, None) \<Rightarrow> Inr (h, snd defaults)
           | Some (h, Some t) \<Rightarrow> with_port h t
           | None \<Rightarrow>
               if all_digits s then with_port (fst defaults) s
               else case last_index_of (CHR '':'') s of
                      None \<Rightarrow> Inr (s, snd defaults)
                    | Some colon \<Rightarrow>
                        with_port (if take colon s = [] then fst defaults else take colon s) (drop (Suc colon) s))"

text \<open>Whatever form the address has, an accepted port is one a socket takes.\<close>

lemma parseHostPort_port:
  "parseHostPort num raw (h, d) = Inr (h', n) \<Longrightarrow> 1 \<le> d \<Longrightarrow> d \<le> 65535 \<Longrightarrow> 1 \<le> n \<and> n \<le> 65535"
  by (auto simp: parseHostPort_def checkPort_def Let_def split: if_splits option.splits sum.splits)

text \<open>\<open>host:port\<close>, as an address is shown, is read back.\<close>

lemma parseHostPort_reads_address:
  assumes "host \<noteq> []" "hd host \<noteq> CHR ''[''" "CHR '':'' \<notin> set port" "num port = Some n" "1 \<le> n" "n \<le> 65535"
    and "js_trim (host @ '':'' @ port) = host @ '':'' @ port"
  shows "parseHostPort num (host @ '':'' @ port) d = Inr (host, n)"
proof -
  let ?s = "host @ CHR '':'' # port"
  have "match_v6 ?s = None" using assms(1,2) by (simp add: match_v6_def)
  moreover have "\<not> all_digits ?s" by (simp add: all_digits_def is_digit_def)
  moreover have "index_of (CHR '':'') (rev ?s) = Some (length port)"
    using index_of_append_notin [of "CHR '':''" "rev port" "rev host"] assms(3) by simp
  then have "last_index_of (CHR '':'') ?s = Some (length host)" by (simp add: last_index_of_def)
  ultimately show ?thesis using assms by (simp add: parseHostPort_def checkPort_def Let_def)
qed

section \<open>Lemmas\<close>

lemma read_frames_append:
  "read_frames p buf = Inr (out, b) \<Longrightarrow>
   read_frames p (buf @ tail) =
     (case read_frames p (b @ tail) of Inl e \<Rightarrow> Inl e | Inr (out', b') \<Rightarrow> Inr (out @ out', b'))"
proof (induction p buf arbitrary: out b rule: read_frames.induct)
  case (1 p buf)
  show ?case
  proof (cases "index_of newline buf")
    case None
    with "1.prems" have "out = []" "b = buf"
      by (auto simp: read_frames.simps [of p buf])
    then show ?thesis by (auto split: sum.splits)
  next
    case (Some nl)
    let ?raw = "take nl buf" and ?rest = "drop (Suc nl) buf"
    have nl: "nl < length buf" "index_of newline (buf @ tail) = Some nl"
      using Some index_of_length index_of_append_Some by auto
    then have cut: "take nl (buf @ tail) = ?raw" "drop (Suc nl) (buf @ tail) = ?rest @ tail"
      by auto
    show ?thesis
    proof (cases "js_trim ?raw = []")
      case True
      with "1.prems" Some have "read_frames p ?rest = Inr (out, b)"
        by (simp add: read_frames.simps [of p buf])
      with "1.IH"(1) [OF Some refl refl True this] True nl cut show ?thesis
        by (simp add: read_frames.simps [of p "buf @ tail"])
    next
      case False
      with "1.prems" Some obtain parsed out1 where parsed:
        "\<not> MAX_FRAME_BYTES < length ?raw" "p ?raw = Some parsed" "isFrame parsed"
        "read_frames p ?rest = Inr (out1, b)" "out = parsed # out1"
        by (auto simp: read_frames.simps [of p buf] Let_def split: if_splits option.splits sum.splits)
      have "read_frames p (?rest @ tail) =
            (case read_frames p (b @ tail) of Inl e \<Rightarrow> Inl e | Inr (out', b') \<Rightarrow> Inr (out1 @ out', b'))"
        using "1.IH"(2) [OF Some refl refl False _ _ _ parsed(4)] parsed by simp
      with False parsed nl cut show ?thesis
        by (simp add: read_frames.simps [of p "buf @ tail"] Let_def split: sum.splits)
    qed
  qed
qed


lemma feed_read:
  "feed p buf cs = Inr (out, b) \<Longrightarrow> cs \<noteq> [] \<Longrightarrow> reader_push p buf (concat cs) = Inr (out, b)"
proof (induction cs arbitrary: buf out)
  case (Cons c cs)
  from Cons.prems obtain out1 b1 out2 where step:
    "reader_push p buf c = Inr (out1, b1)" "feed p b1 cs = Inr (out2, b)" "out = out1 @ out2"
    by (auto split: sum.splits)
  then have first: "read_frames p (buf @ c) = Inr (out1, b1)" "\<not> MAX_FRAME_BYTES < length b1"
    by (auto simp: reader_push_def split: sum.splits if_splits)
  show ?case
  proof (cases "cs = []")
    case True
    with step show ?thesis by simp
  next
    case False
    with Cons.IH step have "reader_push p b1 (concat cs) = Inr (out2, b)" by simp
    then have "read_frames p (b1 @ concat cs) = Inr (out2, b)" "\<not> MAX_FRAME_BYTES < length b"
      by (auto simp: reader_push_def split: sum.splits if_splits)
    with read_frames_append [OF first(1), of "concat cs"] step(3) show ?thesis
      by (simp add: reader_push_def)
  qed
qed simp

lemma read_frames_encoded:
  assumes "\<And>f. f \<in> set fs \<Longrightarrow> newline \<notin> set (stringify f)"
    and "\<And>f. f \<in> set fs \<Longrightarrow> js_trim (stringify f) \<noteq> []"
    and "\<And>f. f \<in> set fs \<Longrightarrow> length (stringify f) \<le> MAX_FRAME_BYTES"
    and "\<And>f. f \<in> set fs \<Longrightarrow> p (stringify f) = Some f \<and> isFrame f"
    and "newline \<notin> set rest"
  shows "read_frames p (concat (map (encodeFrame stringify) fs) @ rest) = Inr (fs, rest)"
  using assms
proof (induction fs)
  case Nil
  then show ?case by (simp add: read_frames.simps)
next
  case (Cons f fs)
  have "read_frames p (concat (map (encodeFrame stringify) fs) @ rest) = Inr (fs, rest)"
    by (rule Cons.IH) (use Cons.prems in auto)
  moreover have "\<not> MAX_FRAME_BYTES < length (stringify f)"
    using Cons.prems(3) [of f] by simp
  ultimately show ?case using Cons.prems
    by (subst read_frames.simps) (auto simp: encodeFrame_def index_of_append_notin Let_def)
qed

section \<open>Properties\<close>

text \<open>How TCP cuts the stream does not matter: when the chunks of a link are read one after another
  without an error, the frames and the unfinished rest are those of reading the whole stream at
  once.\<close>

theorem feed_chunking_irrelevant:
  assumes "feed p buf cs = Inr (out, b)" "feed p buf ds = Inr (out', b')"
    and "concat cs = concat ds" "cs \<noteq> []" "ds \<noteq> []"
  shows "out = out' \<and> b = b'"
  using feed_read [OF assms(1,4)] feed_read [OF assms(2,5)] assms(3) by simp

lemma feed_chunking_irrelevant_witness:
  "let fr = JObj [(''op'', JStr ''ping'')]; p = (\<lambda>t. if t = ''{p}'' then Some fr else None) in
   feed p '''' [''{p'', ''}'' @ [newline] @ ''{''] = Inr ([fr], ''{'') \<and>
   feed p '''' [''{p'', ''}'' @ [newline] @ ''{''] = feed p '''' [''{'', ''p}'' @ [newline], ''{'']"
proof -
  let ?fr = "JObj [(''op'', JStr ''ping'')]"
  let ?p = "\<lambda>t. if t = ''{p}'' then Some ?fr else None"
  have a: "feed ?p '''' [''{p'', ''}'' @ [newline] @ ''{''] = Inr ([?fr], ''{'')"
    by (simp add: reader_push_def read_frames.simps js_trim_def is_space_def MAX_FRAME_BYTES_def)
  obtain out b where b: "feed ?p '''' [''{'', ''p}'' @ [newline], ''{''] = Inr (out, b)"
    by (simp add: reader_push_def read_frames.simps js_trim_def is_space_def MAX_FRAME_BYTES_def)
  have "out = [?fr] \<and> b = ''{''"
    using feed_chunking_irrelevant [OF b a] by simp
  with a b show ?thesis by (simp only: Let_def)
qed

text \<open>Frames written with \<open>encodeFrame\<close> are read back unchanged and in order, with nothing left over.
  The hypotheses on the JSON library are that it prints a frame on one line with a visible
  character in it, and parses what it prints.\<close>

theorem encoded_frames_roundtrip:
  assumes stringify: "\<And>f. f \<in> set fs \<Longrightarrow> newline \<notin> set (stringify f) \<and> js_trim (stringify f) \<noteq> []"
    and parse: "\<And>f. f \<in> set fs \<Longrightarrow> json_parse (stringify f) = Some f"
    and frames: "\<And>f. f \<in> set fs \<Longrightarrow> isFrame f \<and> length (stringify f) \<le> MAX_FRAME_BYTES"
  shows "reader_push json_parse '''' (concat (map (encodeFrame stringify) fs)) = Inr (fs, '''')"
  using read_frames_encoded [of fs stringify json_parse "[]"] assms by (auto simp: reader_push_def)

lemma encoded_frames_roundtrip_witness:
  "let ping = JObj [(''op'', JStr ''ping'')]; pong = JObj [(''op'', JStr ''pong'')];
       print = (\<lambda>f. if f = ping then ''{i}'' else ''{o}'');
       parse = (\<lambda>t. if t = ''{i}'' then Some ping else if t = ''{o}'' then Some pong else None)
   in reader_push parse '''' (concat (map (encodeFrame print) [ping, pong, ping])) = Inr ([ping, pong, ping], '''')"
  unfolding Let_def
  by (rule encoded_frames_roundtrip)
    (auto simp: js_trim_def is_space_def MAX_FRAME_BYTES_def)

end
