(* ===== verification/Engine_Upstream.thy ===== *)
theory Engine_Upstream imports Engine_Protocol begin

text \<open>
  \<open>server/engine/upstream.ts\<close>: one IRC socket held by the engine.  The class \<open>EngineUpstream\<close> is the
  record \<open>upstream\<close>; its \<open>LineBuffer\<close> is the buffer \<open>u_uid\<close> of the shared budget.  Methods take the
  budget and the object and return both with the effects they performed, in order: bytes written to
  the IRC socket, frames sent to the attached link, events emitted to the server.

  Arguments stand for what is outside: \<open>parse\<close> is irc-framework's line parser, \<open>ok\<close> is the
  backpressure answer of the attached link to each frame, \<open>digest\<close> is SHA-256 in hex, \<open>now\<close> is
  \<open>Date.now()\<close>, and socket endpoints come from the socket.  \<open>identd\<close> is the number the identd
  registry answers a registration with, \<open>None\<close> when identd is switched off.
\<close>

section \<open>State\<close>

record irc_msg =
  msg_command :: string
  msg_params :: "string list"
  msg_prefix :: "string option"

record dial_opts =
  do_host :: string
  do_port :: int
  do_tls :: bool
  do_rejectUnauthorized :: bool
  do_outgoingAddr :: "string option"
  do_ident :: "string option"
  do_clientCert :: "(string \<times> string) option"
  do_proxy :: "proxy_config option"

record burst_line =
  br_line :: string
  br_chan :: "string option"

datatype up_state = Dialing | UOpen | UClosed

record upstream =
  u_uid :: nat
  u_id :: string
  u_instance :: string
  u_opts :: dial_opts
  u_socketId :: string
  u_state :: up_state
  u_dialed :: bool
  u_proxyCred :: string
  u_proxyDialPending :: bool
  u_closing :: bool
  u_local :: "endpoint option"
  u_remote :: "endpoint option"
  u_nick :: "string option"
  u_pingsAnsweredDetached :: nat
  u_hasSocket :: bool
  u_closeTimer :: bool
  u_inbuf :: string
  u_lastError :: "string option"
  u_identdId :: "nat option"
  u_burst :: "burst_line list"
  u_burstBytes :: int
  u_burstFull :: bool
  u_burstDone :: bool
  u_burstEndSeq :: nat
  u_registeredUnattended :: bool
  u_nickAtBurstEnd :: "string option"
  u_hostmask :: "string option"
  u_caps :: "string list"
  u_capsAtBurstEnd :: "string list option"
  u_serverName :: "string option"
  u_channels :: "(string \<times> string) list"
  u_sink :: "nat option"
  u_quietClose :: bool
  u_stalled :: bool
  u_sentSeq :: nat
  u_liveAfterSeq :: "nat option"
  u_detachedAt :: "int option"

datatype effect =
    SocketWrite string
  | SocketEnd
  | SocketDestroy
  | SendTo nat engine_frame
  | EmitOpen endpoint endpoint
  | EmitRegistered bool
  | EmitClosed "string option"
  | RegisterIdent endpoint endpoint string
  | UnregisterIdent nat

type_synonym held = "byte_budget \<times> upstream"

definition MAX_IRC_LINE :: nat where
  "MAX_IRC_LINE = 16 * 1024"

definition MAX_BURST_BYTES :: int where
  "MAX_BURST_BYTES = 64 * 1024"

definition FALLBACK_USERHOST :: string where
  "FALLBACK_USERHOST = ''~lurker@engine.invalid''"

text \<open>\<open>x || null\<close> on strings, and an array read that may be out of range.\<close>

definition truthy :: "string option \<Rightarrow> string option" where
  "truthy s = (case s of Some t \<Rightarrow> non_empty t | None \<Rightarrow> None)"

definition nth_param :: "nat \<Rightarrow> string list \<Rightarrow> string option" where
  "nth_param k ps = (if k < length ps then Some (ps ! k) else None)"

definition last_param :: "string list \<Rightarrow> string option" where
  "last_param ps = (if ps = [] then None else Some (last ps))"

section \<open>Construction and dialing\<close>

definition proxyCredDigest :: "(string \<Rightarrow> string) \<Rightarrow> proxy_config option \<Rightarrow> string" where
  "proxyCredDigest digest p =
     (case p of None \<Rightarrow> ''''
      | Some p \<Rightarrow> digest (or_empty (px_username p) @ [CHR 0x00] @ or_empty (px_password p)))"

definition prefixNick :: "string option \<Rightarrow> string" where
  "prefixNick pfx =
     (case pfx of
        None \<Rightarrow> ''''
      | Some p \<Rightarrow> (case index_of CHR ''!'' p of Some bang \<Rightarrow> take bang p | None \<Rightarrow> p))"

definition new_upstream ::
  "(string \<Rightarrow> string) \<Rightarrow> nat \<Rightarrow> string \<Rightarrow> string \<Rightarrow> string \<Rightarrow> dial_opts \<Rightarrow> upstream" where
  "new_upstream digest uid socketId i inst opts =
     \<lparr>u_uid = uid, u_id = i, u_instance = inst, u_opts = opts, u_socketId = socketId,
      u_state = Dialing, u_dialed = False, u_proxyCred = proxyCredDigest digest (do_proxy opts),
      u_proxyDialPending = False, u_closing = False, u_local = None, u_remote = None,
      u_nick = None, u_pingsAnsweredDetached = 0, u_hasSocket = False, u_closeTimer = False,
      u_inbuf = '''', u_lastError = None, u_identdId = None, u_burst = [], u_burstBytes = 0, u_burstFull = False,
      u_burstDone = False, u_burstEndSeq = 0, u_registeredUnattended = False,
      u_nickAtBurstEnd = None, u_hostmask = None, u_caps = [], u_capsAtBurstEnd = None,
      u_serverName = None, u_channels = [], u_sink = None, u_quietClose = False,
      u_stalled = False, u_sentSeq = 0, u_liveAfterSeq = None, u_detachedAt = None\<rparr>"

definition attached :: "upstream \<Rightarrow> bool" where
  "attached u = (u_sink u \<noteq> None)"

definition registered :: "upstream \<Rightarrow> bool" where
  "registered u = u_burstDone u"

definition matchesDial ::
  "(string \<Rightarrow> string) \<Rightarrow> upstream \<Rightarrow> string \<Rightarrow> int \<Rightarrow> bool \<Rightarrow> string option \<Rightarrow>
   (string \<times> string) option \<Rightarrow> proxy_config option \<Rightarrow> bool" where
  "matchesDial digest u host port tls outgoingAddr clientCert proxy =
     (do_host (u_opts u) = host \<and>
      do_port (u_opts u) = port \<and>
      do_tls (u_opts u) = tls \<and>
      or_empty (do_outgoingAddr (u_opts u)) = or_empty outgoingAddr \<and>
      or_empty (map_option fst (do_clientCert (u_opts u))) = or_empty (map_option fst clientCert) \<and>
      sameProxyRoute (do_proxy (u_opts u)) proxy \<and>
      u_proxyCred u = proxyCredDigest digest proxy)"

text \<open>The client key and the proxy password are dropped once the dial has them.\<close>

definition wipe_key :: "dial_opts \<Rightarrow> dial_opts" where
  "wipe_key opts = opts\<lparr>do_clientCert := map_option (\<lambda>(cert, key). (cert, '''')) (do_clientCert opts)\<rparr>"

definition wipe_password :: "dial_opts \<Rightarrow> dial_opts" where
  "wipe_password opts =
     (case do_proxy opts of
        None \<Rightarrow> opts
      | Some p \<Rightarrow> if or_empty (px_password p) = '''' then opts
                 else opts\<lparr>do_proxy := Some (p\<lparr>px_password := Some ''''\<rparr>)\<rparr>)"

text \<open>\<open>dial()\<close>: \<open>None\<close> is the thrown \<open>once per instance\<close>.\<close>

definition dial :: "upstream \<Rightarrow> upstream option" where
  "dial u =
     (if u_dialed u then None
      else let u1 = u\<lparr>u_dialed := True\<rparr> in
        if do_proxy (u_opts u) \<noteq> None then Some (u1\<lparr>u_proxyDialPending := True\<rparr>)
        else Some (u1\<lparr>u_hasSocket := True, u_opts := wipe_key (u_opts u1)\<rparr>))"

section \<open>Own state\<close>

definition channelNamed :: "upstream \<Rightarrow> string list \<Rightarrow> string option" where
  "channelNamed u params =
     find (\<lambda>key. key \<noteq> '''' \<and> map_of (u_channels u) key \<noteq> None) (map to_lower (butlast params))"

definition recordBurst :: "string \<Rightarrow> string list \<Rightarrow> bool \<Rightarrow> upstream \<Rightarrow> upstream" where
  "recordBurst line params force u =
     (let bytes = line_bytes line;
          full = u_burstFull u \<or> MAX_BURST_BYTES < u_burstBytes u + bytes;
          u1 = (if full then u\<lparr>u_burstFull := True\<rparr> else u)
      in if full \<and> \<not> force then u1
         else u1\<lparr>u_burst := u_burst u1 @ [\<lparr>br_line = line, br_chan = channelNamed u1 params\<rparr>],
                u_burstBytes := u_burstBytes u1 + bytes\<rparr>)"

definition track_cap :: "bool \<Rightarrow> string \<Rightarrow> string list \<Rightarrow> string list" where
  "track_cap del token caps =
     (if token = '''' then caps
      else let minus = starts_with token ''-'';
               off = del \<or> minus;
               name = hd (split_on CHR ''='' (if minus then tl token else token))
           in if name = '''' then caps
              else if off then set_del name caps else set_add name caps)"

definition trackCaps :: "string list \<Rightarrow> upstream \<Rightarrow> upstream" where
  "trackCaps params u =
     (if length params < 3 then u
      else let sub = to_upper (params ! 1) in
        if sub \<noteq> ''ACK'' \<and> sub \<noteq> ''DEL'' then u
        else u\<lparr>u_caps := fold (track_cap (sub = ''DEL''))
                          (split_on CHR '' '' (or_empty (last_param params))) (u_caps u)\<rparr>)"

definition isSelf :: "upstream \<Rightarrow> string \<Rightarrow> bool" where
  "isSelf u n = (case u_nick u of None \<Rightarrow> False | Some me \<Rightarrow> to_lower n = to_lower me)"

definition noteHostmask :: "string option \<Rightarrow> upstream \<Rightarrow> upstream" where
  "noteHostmask pfx u =
     (case pfx of
        None \<Rightarrow> u
      | Some p \<Rightarrow> (case index_of CHR ''!'' p of
                    Some bang \<Rightarrow> u\<lparr>u_hostmask := Some (drop (Suc bang) p)\<rparr>
                  | None \<Rightarrow> u))"

definition bad_channel_name :: "string \<Rightarrow> bool" where
  "bad_channel_name n = list_ex (\<lambda>c. is_space c \<or> c = CHR '','') n"

text \<open>\<open>track\<close>: returns whether the line was own channel movement.\<close>

definition track :: "string \<Rightarrow> string option \<Rightarrow> string list \<Rightarrow> upstream \<Rightarrow> bool \<times> upstream" where
  "track command pfx params u =
     (let from = prefixNick pfx;
          p0 = or_empty (nth_param 0 params);
          p1 = or_empty (nth_param 1 params) in
      if command = ''NICK'' \<and> isSelf u from then
        (False, noteHostmask pfx (u\<lparr>u_nick := (if p0 = '''' then u_nick u else Some p0)\<rparr>))
      else if command = ''JOIN'' \<and> isSelf u from then
        (True, noteHostmask pfx
                 (if p0 = '''' then u else u\<lparr>u_channels := AList.update (to_lower p0) p0 (u_channels u)\<rparr>))
      else if command = ''PART'' \<and> isSelf u from then
        (True, u\<lparr>u_channels := AList.delete (to_lower p0) (u_channels u)\<rparr>)
      else if command = ''KICK'' \<and> isSelf u p1 then
        (True, u\<lparr>u_channels := AList.delete (to_lower p0) (u_channels u)\<rparr>)
      else if command = ''RENAME'' then
        (if p0 = '''' \<or> p1 = '''' then (False, u)
         else if map_of (u_channels u) (to_lower p0) = None then (False, u)
         else if length params < 3 \<or> bad_channel_name p1 then (False, u)
         else (True, u\<lparr>u_channels := AList.update (to_lower p1) p1
                                      (AList.delete (to_lower p0) (u_channels u))\<rparr>))
      else if command = ''CHGHOST'' \<and> isSelf u from then
        (False, if p0 \<noteq> '''' \<and> p1 \<noteq> '''' then u\<lparr>u_hostmask := Some (p0 @ ''@'' @ p1)\<rparr> else u)
      else (False, u))"

section \<open>Delivery to the attached link\<close>

definition rawWrite :: "upstream \<Rightarrow> string \<Rightarrow> effect list" where
  "rawWrite u line =
     (if u_state u = UOpen \<and> \<not> u_closing u \<and> u_hasSocket u
      then [SocketWrite (line @ [CHR 0x0D, newline])] else [])"

definition sendLive :: "nat \<Rightarrow> upstream \<Rightarrow> upstream \<times> effect list" where
  "sendLive l u = (u\<lparr>u_liveAfterSeq := None\<rparr>, [SendTo l (FLive (u_id u))])"

text \<open>The loop of \<open>flush\<close> over the lines still owed, and the \<open>live\<close> marker after it.\<close>

fun send_lines :: "(engine_frame \<Rightarrow> bool) \<Rightarrow> nat \<Rightarrow> buffered_line list \<Rightarrow> upstream \<Rightarrow> upstream \<times> effect list" where
  "send_lines ok l [] u = (if u_liveAfterSeq u \<noteq> None then sendLive l u else (u, []))"
| "send_lines ok l (b # bs) u =
     (let u1 = u\<lparr>u_sentSeq := bl_seq b\<rparr>;
          frame = FLine (u_id u) (bl_seq b) (bl_line b);
          (u2, live) = (case u_liveAfterSeq u1 of
                          Some t \<Rightarrow> if t \<le> bl_seq b then sendLive l u1 else (u1, [])
                        | None \<Rightarrow> (u1, []))
      in if \<not> ok frame then (u2\<lparr>u_stalled := True\<rparr>, SendTo l frame # live)
         else let (u3, rest) = send_lines ok l bs u2 in (u3, SendTo l frame # live @ rest))"

text \<open>Sequence numbers are contiguous, so the first owed line is at a computable index.\<close>

definition first_owed :: "nat \<Rightarrow> buffered_line list \<Rightarrow> nat" where
  "first_owed sent pend =
     (if pend \<noteq> [] \<and> bl_seq (hd pend) \<le> sent then sent - bl_seq (hd pend) + 1 else 0)"

definition flush :: "(engine_frame \<Rightarrow> bool) \<Rightarrow> held \<Rightarrow> held \<times> effect list" where
  "flush ok h =
     (let (w, u) = h in
      case u_sink u of
        None \<Rightarrow> (h, [])
      | Some l \<Rightarrow>
        if u_stalled u then (h, [])
        else
          let (w1, gapfx, full) =
                (case peekGap (u_uid u) w of
                   Some g \<Rightarrow> if u_sentSeq u < lastDroppedSeq g
                             then (fst (takeGap (u_uid u) w), [SendTo l (FGap (u_id u) g)],
                                   \<not> ok (FGap (u_id u) g))
                             else (w, [], False)
                 | None \<Rightarrow> (w, [], False))
          in if full then ((w1, u\<lparr>u_stalled := True\<rparr>), gapfx)
             else let pend = pending (u_uid u) w1;
                      (u', fx) = send_lines ok l (drop (first_owed (u_sentSeq u) pend) pend) u
                  in ((w1, u'), gapfx @ fx))"

definition resume :: "(engine_frame \<Rightarrow> bool) \<Rightarrow> held \<Rightarrow> held \<times> effect list" where
  "resume ok h = flush ok (fst h, (snd h)\<lparr>u_stalled := False\<rparr>)"

definition up_write :: "string \<Rightarrow> upstream \<Rightarrow> effect list" where
  "up_write line u = rawWrite u line"

definition up_ack :: "nat \<Rightarrow> held \<Rightarrow> held" where
  "up_ack seq h = (ack seq (u_uid (snd h)) (fst h), snd h)"

section \<open>Lines from the server\<close>

text \<open>The own-state half of \<open>onLine\<close>, before the line is pushed: tracking, recording, the end of the burst.\<close>

definition tracked :: "irc_msg \<Rightarrow> upstream \<Rightarrow> bool \<times> upstream" where
  "tracked msg u =
     (let command = to_upper (msg_command msg); params = msg_params msg;
          u1 = (if command = ''001''
                then u\<lparr>u_nick := truthy (nth_param 0 params), u_serverName := truthy (msg_prefix msg)\<rparr> else u);
          u2 = (if command = ''CAP'' then trackCaps params u1 else u1)
      in if u_nick u2 \<noteq> None then track command (msg_prefix msg) params u2 else (False, u2))"

definition ends_burst :: "irc_msg \<Rightarrow> bool" where
  "ends_burst msg = (to_upper (msg_command msg) = ''376'' \<or> to_upper (msg_command msg) = ''422'')"

definition end_burst :: "upstream \<Rightarrow> upstream" where
  "end_burst u =
     u\<lparr>u_burstDone := True, u_capsAtBurstEnd := Some (u_caps u), u_nickAtBurstEnd := u_nick u,
       u_registeredUnattended := (u_sink u = None)\<rparr>"

definition own_state :: "irc_msg \<Rightarrow> string \<Rightarrow> upstream \<Rightarrow> upstream \<times> effect list" where
  "own_state msg line u =
     (let (own, u3) = tracked msg u in
      if u_burstDone u3 then (u3, [])
      else let ub = (if own then u3 else recordBurst line (msg_params msg) (ends_burst msg) u3)
           in if ends_burst msg then (end_burst ub, [EmitRegistered (u_sink ub = None)]) else (ub, []))"

definition mark_burst_end :: "nat \<Rightarrow> upstream \<Rightarrow> upstream" where
  "mark_burst_end seq u =
     (if u_burstDone u \<and> u_burstEndSeq u = 0 then u\<lparr>u_burstEndSeq := seq\<rparr> else u)"

definition is_ping :: "irc_msg \<Rightarrow> bool" where
  "is_ping msg = (to_upper (msg_command msg) = ''PING'')"

definition on_line ::
  "(string \<Rightarrow> irc_msg option) \<Rightarrow> (engine_frame \<Rightarrow> bool) \<Rightarrow> int \<Rightarrow> string \<Rightarrow> held \<Rightarrow> held \<times> effect list" where
  "on_line parse ok now line h =
     (let (w, u) = h in
      case parse line of
        None \<Rightarrow> (h, [])
      | Some msg \<Rightarrow>
          if is_ping msg
          then ((w, if u_sink u = None then u\<lparr>u_pingsAnsweredDetached := u_pingsAnsweredDetached u + 1\<rparr> else u),
                rawWrite u (case last_param (msg_params msg) of None \<Rightarrow> ''PONG''
                            | Some token \<Rightarrow> ''PONG :'' @ token))
          else let (u4, fx) = own_state msg line u;
                   (w1, seq) = push now (u_uid u) line w;
                   (h', fx') = flush ok (w1, mark_burst_end seq u4)
               in (h', fx @ fx'))"

definition dropPeer :: "string \<Rightarrow> upstream \<Rightarrow> upstream \<times> effect list" where
  "dropPeer why u = (u\<lparr>u_lastError := Some why\<rparr>, if u_hasSocket u then [SocketDestroy] else [])"

text \<open>The socket's \<open>timeout\<close> and \<open>error\<close> events.\<close>

definition on_timeout :: "upstream \<Rightarrow> upstream \<times> effect list" where
  "on_timeout u = (if u_state u = Dialing then dropPeer ''dial timed out'' u else (u, []))"

definition on_error :: "string \<Rightarrow> upstream \<Rightarrow> upstream" where
  "on_error why u = u\<lparr>u_lastError := Some why\<rparr>"

definition strip_cr :: "string \<Rightarrow> string" where
  "strip_cr s = (if s \<noteq> [] \<and> last s = CHR 0x0D then butlast s else s)"

text \<open>\<open>onData\<close>: the complete lines of the input, one by one; the rest becomes \<open>inbuf\<close>.\<close>

function data_lines ::
  "(string \<Rightarrow> irc_msg option) \<Rightarrow> (engine_frame \<Rightarrow> bool) \<Rightarrow> int \<Rightarrow> string \<Rightarrow> held \<Rightarrow> held \<times> effect list" where
  "data_lines parse ok now buf h =
     (case index_of newline buf of
        None \<Rightarrow>
          (let u = (snd h)\<lparr>u_inbuf := buf\<rparr> in
           if MAX_IRC_LINE < length buf
           then let (u', fx) = dropPeer ''peer sent an over-long line'' u in ((fst h, u'), fx)
           else ((fst h, u), []))
      | Some nl \<Rightarrow>
          (let line = strip_cr (take nl buf); rest = drop (Suc nl) buf in
           if MAX_IRC_LINE < length line
           then let (u', fx) = dropPeer ''peer sent an over-long line'' ((snd h)\<lparr>u_inbuf := rest\<rparr>)
                in ((fst h, u'), fx)
           else if line = '''' then data_lines parse ok now rest h
           else let (h1, fx) = on_line parse ok now line h;
                    (h2, fx') = data_lines parse ok now rest h1
                in (h2, fx @ fx')))"
  by pat_completeness auto
termination
  by (relation "measure (\<lambda>(p, ok, now, buf, h). length buf)") (auto dest: index_of_length)

declare data_lines.simps [simp del]

definition on_data ::
  "(string \<Rightarrow> irc_msg option) \<Rightarrow> (engine_frame \<Rightarrow> bool) \<Rightarrow> int \<Rightarrow> string \<Rightarrow> held \<Rightarrow> held \<times> effect list" where
  "on_data parse ok now chunk h = data_lines parse ok now (u_inbuf (snd h) @ chunk) h"

section \<open>Replay, attach and detach\<close>

definition capDelta :: "upstream \<Rightarrow> string list" where
  "capDelta u =
     (case u_capsAtBurstEnd u of
        None \<Rightarrow> []
      | Some before \<Rightarrow>
        let gone = filter (\<lambda>cap. cap \<notin> set (u_caps u)) before;
            added = filter (\<lambda>cap. cap \<notin> set before) (u_caps u);
            from = (case u_serverName u of None \<Rightarrow> '''' | Some s \<Rightarrow> '':'' @ s @ '' '');
            target = (case u_nickAtBurstEnd u of Some n \<Rightarrow> n | None \<Rightarrow>
                      (case u_nick u of Some n \<Rightarrow> n | None \<Rightarrow> ''*''))
        in (if gone \<noteq> [] then [from @ ''CAP '' @ target @ '' DEL :'' @ join_with '' '' gone] else []) @
           (if added \<noteq> [] then [from @ ''CAP '' @ target @ '' ACK :'' @ join_with '' '' added] else []))"

definition still_in :: "upstream \<Rightarrow> burst_line \<Rightarrow> bool" where
  "still_in u b =
     (case br_chan b of
        None \<Rightarrow> True
      | Some c \<Rightarrow> c = '''' \<or> map_of (u_channels u) c \<noteq> None)"

definition replaySet :: "upstream \<Rightarrow> string list" where
  "replaySet u =
     (let out = map br_line (filter (still_in u) (u_burst u)) in
      case u_nick u of
        None \<Rightarrow> out
      | Some nick \<Rightarrow>
        let userhost = (case u_hostmask u of Some h \<Rightarrow> if h = '''' then FALLBACK_USERHOST else h
                        | None \<Rightarrow> FALLBACK_USERHOST);
            nick_line = (case u_nickAtBurstEnd u of
                           None \<Rightarrow> []
                         | Some old \<Rightarrow> if old \<noteq> nick then ['':'' @ old @ ''!'' @ userhost @ '' NICK :'' @ nick] else [])
        in out @ capDelta u @ nick_line @
           map (\<lambda>(key, chan). '':'' @ nick @ ''!'' @ userhost @ '' JOIN '' @ chan) (u_channels u))"

datatype attach_result = StillDialing | Unregistered | Attached attached_payload

definition attach :: "int \<Rightarrow> nat \<Rightarrow> held \<Rightarrow> held \<times> attach_result" where
  "attach now l h =
     (let (w, u) = h;
          detachedForMs = (case u_detachedAt u of None \<Rightarrow> 0 | Some t \<Rightarrow> now - t);
          u1 = u\<lparr>u_sink := Some l, u_stalled := False, u_detachedAt := None\<rparr> in
      case (u_local u, u_remote u) of
        (Some local, Some remote) \<Rightarrow>
          if u_state u \<noteq> UOpen then ((w, u1\<lparr>u_sentSeq := 0\<rparr>), StillDialing)
          else if \<not> u_burstDone u then ((w, u1), Unregistered)
          else let w1 = ack (u_burstEndSeq u) (u_uid u) w;
                   pend = pending (u_uid u) w1;
                   u2 = u1\<lparr>u_sentSeq := u_burstEndSeq u,
                           u_liveAfterSeq := Some (if pend \<noteq> [] then bl_seq (last pend) else 0)\<rparr>
               in ((w1, u2),
                   Attached \<lparr>ap_local = local, ap_remote = remote, ap_socket = u_socketId u,
                             ap_replay = replaySet u2, ap_nick = u_nick u2,
                             ap_channels = map snd (u_channels u2), ap_detachedForMs = detachedForMs,
                             ap_unattended = u_registeredUnattended u2\<rparr>)
      | _ \<Rightarrow> ((w, u1\<lparr>u_sentSeq := 0\<rparr>), StillDialing))"

definition flushAfterAttach :: "(engine_frame \<Rightarrow> bool) \<Rightarrow> held \<Rightarrow> held \<times> effect list" where
  "flushAfterAttach ok h =
     (let (w, u) = h;
          (u1, live) = (case u_sink u of
                          Some l \<Rightarrow> if u_liveAfterSeq u = Some 0 then sendLive l u else (u, [])
                        | None \<Rightarrow> if u_liveAfterSeq u = Some 0 then (u\<lparr>u_liveAfterSeq := None\<rparr>, []) else (u, []));
          (h', fx) = flush ok (w, u1)
      in (h', live @ fx))"

definition detach :: "int \<Rightarrow> upstream \<Rightarrow> upstream" where
  "detach now u =
     (if u_sink u = None then u
      else u\<lparr>u_sink := None, u_stalled := False, u_liveAfterSeq := None, u_detachedAt := Some now\<rparr>)"

definition silence :: "int \<Rightarrow> upstream \<Rightarrow> upstream" where
  "silence now u = (detach now u)\<lparr>u_quietClose := True\<rparr>"

section \<open>The end of a socket\<close>

definition on_close :: "held \<Rightarrow> held \<times> effect list" where
  "on_close h =
     (let (w, u) = h in
      if u_state u = UClosed then (h, [])
      else ((dispose (u_uid u) w,
             u\<lparr>u_state := UClosed, u_closeTimer := False, u_identdId := None, u_sink := None\<rparr>),
            (case u_identdId u of Some n \<Rightarrow> [UnregisterIdent n] | None \<Rightarrow> []) @
            (case u_sink u of
               Some l \<Rightarrow> if u_quietClose u then [] else [SendTo l (FClosed (u_id u) (truthy (u_lastError u)))]
             | None \<Rightarrow> []) @
            [EmitClosed (u_lastError u)]))"

definition destroy :: "held \<Rightarrow> held \<times> effect list" where
  "destroy h =
     (let (w, u) = h;
          u1 = u\<lparr>u_closing := True\<rparr>;
          fx = (if u_hasSocket u then [SocketDestroy] else []) in
      if u_proxyDialPending u1 \<and> u_state u1 \<noteq> UClosed
      then let (h', fx') = on_close (w, u1) in (h', fx @ fx')
      else ((w, u1), fx))"

definition close_up :: "held \<Rightarrow> held \<times> effect list" where
  "close_up h =
     (let (w, u) = h in
      if u_closing u then (h, [])
      else let u1 = u\<lparr>u_closing := True, u_quietClose := True\<rparr> in
        if u_state u1 \<noteq> UOpen then destroy (w, u1)
        else ((w, u1\<lparr>u_closeTimer := True\<rparr>), if u_hasSocket u1 then [SocketEnd] else []))"

definition quit :: "string \<Rightarrow> held \<Rightarrow> held \<times> effect list" where
  "quit message h =
     (let fx = rawWrite (snd h) (''QUIT :'' @ message); (h', fx') = close_up h in (h', fx @ fx'))"

text \<open>The ten seconds after a close are over.\<close>

definition on_close_timer :: "upstream \<Rightarrow> effect list" where
  "on_close_timer u = (if u_closeTimer u \<and> u_hasSocket u then [SocketDestroy] else [])"

definition on_tcp_connect :: "nat option \<Rightarrow> endpoint \<Rightarrow> endpoint \<Rightarrow> upstream \<Rightarrow> upstream \<times> effect list" where
  "on_tcp_connect identd local remote u =
     (if u_closing u then (u, [])
      else let u1 = u\<lparr>u_local := Some local, u_remote := Some remote\<rparr> in
        case (truthy (do_ident (u_opts u1)), u_identdId u1, identd) of
          (Some ident, None, Some n) \<Rightarrow> (u1\<lparr>u_identdId := Some n\<rparr>, [RegisterIdent local remote ident])
        | _ \<Rightarrow> (u1, []))"

definition on_open :: "nat option \<Rightarrow> endpoint \<Rightarrow> endpoint \<Rightarrow> upstream \<Rightarrow> upstream \<times> effect list" where
  "on_open identd slocal sremote u =
     (if \<not> u_hasSocket u \<or> u_closing u then (u, [])
      else let u1 = u\<lparr>u_state := UOpen\<rparr>;
               (u2, fx) = (if u_local u1 = None \<or> u_remote u1 = None
                           then on_tcp_connect identd slocal sremote u1 else (u1, []));
               local = (case u_local u2 of Some e \<Rightarrow> e | None \<Rightarrow> slocal);
               remote = (case u_remote u2 of Some e \<Rightarrow> e | None \<Rightarrow> sremote);
               u3 = u2\<lparr>u_local := Some local, u_remote := Some remote\<rparr>
           in (u3, fx @ EmitOpen local remote #
                   (case u_sink u3 of
                      Some l \<Rightarrow> [SendTo l (FOpen (u_id u3) local remote (u_socketId u3))]
                    | None \<Rightarrow> [])))"

text \<open>The two ends of a proxied dial: the tunnel is up, or the dial failed.\<close>

definition proxy_tunnel_up :: "endpoint \<Rightarrow> endpoint \<Rightarrow> held \<Rightarrow> held \<times> effect list" where
  "proxy_tunnel_up local remote h =
     (let (w, u) = h; u1 = u\<lparr>u_proxyDialPending := False\<rparr> in
      if u_closing u1 \<or> u_state u1 = UClosed
      then (let (h', fx) = (if u_state u1 \<noteq> UClosed then on_close (w, u1) else ((w, u1), []))
            in (h', SocketDestroy # fx))
      else ((w, u1\<lparr>u_hasSocket := True, u_opts := wipe_password (wipe_key (u_opts u1)),
                   u_local := Some local, u_remote := Some remote\<rparr>), []))"

definition proxy_dial_failed :: "string \<Rightarrow> held \<Rightarrow> held \<times> effect list" where
  "proxy_dial_failed why h =
     (let (w, u) = h; u1 = u\<lparr>u_proxyDialPending := False, u_lastError := Some why\<rparr> in
      if u_state u1 \<noteq> UClosed then on_close (w, u1) else ((w, u1), []))"

definition info :: "int \<Rightarrow> held \<Rightarrow> connection_info" where
  "info now h =
     (let (w, u) = h in
      \<lparr>ci_id = u_id u,
       ci_state = (if u_closing u then SClosing else
                   case u_state u of UClosed \<Rightarrow> SClosing | Dialing \<Rightarrow> SDialing | UOpen \<Rightarrow> SOpen),
       ci_attached = attached u, ci_nick = u_nick u, ci_channelCount = length (u_channels u),
       ci_bufferedLines = lb_length (bb_heap w (u_uid u)),
       ci_bufferedBytes = lb_bytes (bb_heap w (u_uid u)),
       ci_detachedForMs = map_option (\<lambda>t. now - t) (u_detachedAt u)\<rparr>)"

end
