(* ===== verification/Upstream_Delivery.thy ===== *)
theory Upstream_Delivery imports Engine_Upstream begin

text \<open>
  What the attached link receives from a held socket (\<open>flush\<close>, \<open>resume\<close>, \<open>attach\<close> in
  \<open>server/engine/upstream.ts\<close>): the lines owed, in order, each once, every hole announced, and one
  \<open>live\<close> marker after the backlog.
\<close>

section \<open>Reading the effects\<close>

fun sent_lines :: "effect list \<Rightarrow> (nat \<times> string) list" where
  "sent_lines [] = []"
| "sent_lines (SendTo l (FLine i s t) # fx) = (s, t) # sent_lines fx"
| "sent_lines (_ # fx) = sent_lines fx"

fun sent_gaps :: "effect list \<Rightarrow> gap list" where
  "sent_gaps [] = []"
| "sent_gaps (SendTo l (FGap i g) # fx) = g # sent_gaps fx"
| "sent_gaps (_ # fx) = sent_gaps fx"

fun live_count :: "effect list \<Rightarrow> nat" where
  "live_count [] = 0"
| "live_count (SendTo l (FLive i) # fx) = Suc (live_count fx)"
| "live_count (_ # fx) = live_count fx"

lemma sent_lines_append [simp]: "sent_lines (xs @ ys) = sent_lines xs @ sent_lines ys"
  by (induction xs rule: sent_lines.induct) auto

lemma sent_gaps_append [simp]: "sent_gaps (xs @ ys) = sent_gaps xs @ sent_gaps ys"
  by (induction xs rule: sent_gaps.induct) auto

lemma live_count_append [simp]: "live_count (xs @ ys) = live_count xs + live_count ys"
  by (induction xs rule: live_count.induct) auto

abbreviation numbered :: "buffered_line list \<Rightarrow> (nat \<times> string) list" where
  "numbered bs \<equiv> map (\<lambda>b. (bl_seq b, bl_line b)) bs"

text \<open>The sequence numbers an effect list accounts for towards the link: lines sent and holes
  announced.\<close>

definition told :: "effect list \<Rightarrow> nat set" where
  "told fx = fst ` set (sent_lines fx) \<union> (\<Union>g \<in> set (sent_gaps fx). gap_range (Some g))"

lemma told_simps [simp]:
  "told [] = {}" "told (xs @ ys) = told xs \<union> told ys"
  "told (SendTo l (FGap i g) # fx) = gap_range (Some g) \<union> told fx"
  "told (SendTo l (FLine i s x) # fx) = insert s (told fx)"
  "told (SendTo l (FLive i) # fx) = told fx"
  by (auto simp: told_def)

section \<open>The index computation\<close>

context backlog
begin

lemma first_owed_owed: "ok b \<Longrightarrow> drop (first_owed s (pending_of b)) (pending_of b) = owed s b"
proof (cases "pending_of b")
  case (Cons l ls)
  assume ok: "ok b"
  have "bl_seq l = next_of b - length (pending_of b)"
    using contiguous [OF ok] Cons by (auto dest: upt_eq_ConsD)
  with Cons show ?thesis
    unfolding owed_by_index [OF ok] first_owed_def by (auto simp: Suc_diff_le)
qed (simp add: owed_def)

end

section \<open>Sending a run of lines\<close>

text \<open>\<open>progress u u'\<close>: only the delivery fields moved.\<close>

definition progress :: "upstream \<Rightarrow> upstream \<Rightarrow> bool" where
  "progress u u' \<longleftrightarrow> (\<exists>s b t. u' = u\<lparr>u_sentSeq := s, u_stalled := b, u_liveAfterSeq := t\<rparr>)"

lemma progress_upd [simp, intro]:
  "progress u u"
  "progress u (u\<lparr>u_sentSeq := s\<rparr>)"
  "progress u (u\<lparr>u_stalled := b\<rparr>)"
  "progress u (u\<lparr>u_liveAfterSeq := t\<rparr>)"
  unfolding progress_def by (cases u; auto)+

lemma progress_trans: "progress u v \<Longrightarrow> progress v w \<Longrightarrow> progress u w"
  unfolding progress_def by (elim exE, simp, blast)

lemma progress_fields:
  assumes "progress u u'"
  shows "u_uid u' = u_uid u" "u_id u' = u_id u" "u_sink u' = u_sink u" "u_burstDone u' = u_burstDone u"
    "u_burstEndSeq u' = u_burstEndSeq u" "u_state u' = u_state u" "u_instance u' = u_instance u"
    "u_closing u' = u_closing u" "u_channels u' = u_channels u" "u_nick u' = u_nick u"
  using assms unfolding progress_def by auto

text \<open>What one call of the loop achieves.  \<open>live_spec\<close>: the marker owed after \<open>t\<close> stays owed, or goes
  out once, after every line up to \<open>t\<close>.\<close>

definition live_spec :: "nat \<Rightarrow> string \<Rightarrow> nat set \<Rightarrow> nat option \<Rightarrow> nat option \<Rightarrow> bool \<Rightarrow> effect list \<Rightarrow> bool" where
  "live_spec l i D t t' st fx =
     (case t of
        None \<Rightarrow> t' = None \<and> live_count fx = 0
      | Some t0 \<Rightarrow>
          (t' = Some t0 \<and> live_count fx = 0 \<and> st) \<or>
          (t' = None \<and> (\<exists>p q. fx = p @ SendTo l (FLive i) # q \<and> live_count p = 0 \<and> live_count q = 0 \<and>
                            (\<forall>s \<in> D. s \<le> t0 \<longrightarrow> s \<in> told p))))"

lemma live_spec_Cons:
  assumes "live_spec l i D t t' st fx" "\<forall>s \<in> D'. s \<in> told [e] \<or> s \<in> D" "live_count [e] = 0"
  shows "live_spec l i D' t t' st (e # fx)"
proof (cases t)
  case (Some t0)
  have count: "live_count (e # xs) = live_count xs" "told (e # xs) = told [e] \<union> told xs" for xs
    using assms(3) live_count_append [of "[e]" xs] told_simps(2) [of "[e]" xs] by simp_all
  from assms(1) Some consider "t' = Some t0 \<and> live_count fx = 0 \<and> st" |
    p q where "t' = None" "fx = p @ SendTo l (FLive i) # q" "live_count p = 0" "live_count q = 0"
      "\<forall>s \<in> D. s \<le> t0 \<longrightarrow> s \<in> told p"
    by (auto simp: live_spec_def)
  then show ?thesis
  proof cases
    case (2 p q)
    have "\<forall>s \<in> D'. s \<le> t0 \<longrightarrow> s \<in> told (e # p)"
      using 2(5) assms(2) count(2) by blast
    with 2 Some count(1) show ?thesis
      unfolding live_spec_def by (simp, intro exI [of _ "e # p"] exI [of _ q]) simp
  qed (simp add: live_spec_def Some count(1))
next
  case None
  with assms live_count_append [of "[e]" fx] show ?thesis by (simp add: live_spec_def)
qed

lemma send_lines_spec:
  assumes "send_lines ok l bs u = (u', fx)" "\<not> u_stalled u"
    "sorted_wrt (<) (map bl_seq bs)" "\<forall>b \<in> set bs. u_sentSeq u < bl_seq b"
  shows "\<exists>xs ys. bs = xs @ ys \<and> sent_lines fx = numbered xs \<and> sent_gaps fx = [] \<and>
    progress u u' \<and> u_sentSeq u \<le> u_sentSeq u' \<and>
    u_sentSeq u' \<in> insert (u_sentSeq u) (bl_seq ` set xs) \<and>
    (\<forall>b \<in> set xs. bl_seq b \<le> u_sentSeq u') \<and> (\<forall>b \<in> set ys. u_sentSeq u' < bl_seq b) \<and>
    (\<not> u_stalled u' \<longrightarrow> ys = []) \<and>
    live_spec l (u_id u) (bl_seq ` set bs) (u_liveAfterSeq u) (u_liveAfterSeq u') (u_stalled u') fx"
  using assms
proof (induction bs arbitrary: u u' fx)
  case Nil
  show ?case
  proof (cases "u_liveAfterSeq u")
    case (Some t)
    with Nil have "u' = u\<lparr>u_liveAfterSeq := None\<rparr>" "fx = [] @ SendTo l (FLive (u_id u)) # []"
      by (auto simp: sendLive_def)
    with Some show ?thesis
      by (auto simp: live_spec_def intro!: exI [of _ "[] :: effect list"])
  qed (use Nil in \<open>auto simp: live_spec_def\<close>)
next
  case (Cons b bs)
  let ?i = "u_id u"
  let ?frame = "FLine ?i (bl_seq b) (bl_line b)"
  let ?u1 = "u\<lparr>u_sentSeq := bl_seq b\<rparr>"
  define now where "now = (case u_liveAfterSeq u of Some t \<Rightarrow> t \<le> bl_seq b | None \<Rightarrow> False)"
  define u2 where "u2 = (if now then ?u1\<lparr>u_liveAfterSeq := None\<rparr> else ?u1)"
  define live where "live = (if now then [SendTo l (FLive ?i)] else [])"
  have step: "send_lines ok l (b # bs) u =
    (if \<not> ok ?frame then (u2\<lparr>u_stalled := True\<rparr>, SendTo l ?frame # live)
     else let (u3, rest) = send_lines ok l bs u2 in (u3, SendTo l ?frame # live @ rest))"
    by (cases "u_liveAfterSeq u") (auto simp: sendLive_def u2_def live_def now_def)
  have prog: "progress u u2"
    unfolding u2_def by (auto intro: progress_trans [OF progress_upd(2)] progress_trans [OF progress_upd(4)])
  have u2: "u_sentSeq u2 = bl_seq b" "\<not> u_stalled u2" "u_id u2 = ?i"
    "u_liveAfterSeq u2 = (if now then None else u_liveAfterSeq u)"
    using Cons.prems(2) by (simp_all add: u2_def)
  have later: "sorted_wrt (<) (map bl_seq bs)" "\<forall>c \<in> set bs. u_sentSeq u2 < bl_seq c"
    using Cons.prems(3) by (simp_all add: u2)
  have sl: "sent_lines live = []" "sent_gaps live = []"
    by (simp_all add: live_def)
  have lt: "u_sentSeq u < bl_seq b"
    using Cons.prems(4) by simp
  show ?case
  proof (cases "ok ?frame")
    case False
    with Cons.prems(1) step have eqs: "u' = u2\<lparr>u_stalled := True\<rparr>" "fx = SendTo l ?frame # live"
      by simp_all
    have "live_spec l ?i (bl_seq ` set (b # bs)) (u_liveAfterSeq u) (u_liveAfterSeq u') (u_stalled u') fx"
    proof (cases now)
      case True
      then obtain t where t: "u_liveAfterSeq u = Some t" "t \<le> bl_seq b"
        by (auto simp: now_def split: option.splits)
      have "fx = [SendTo l ?frame] @ SendTo l (FLive ?i) # []"
        using True eqs by (simp add: live_def)
      moreover have "\<forall>s \<in> bl_seq ` set (b # bs). s \<le> t \<longrightarrow> s \<in> told [SendTo l ?frame]"
        using t later(2) by (auto simp: u2)
      ultimately show ?thesis
        using t True eqs u2(4) unfolding live_spec_def
        by (simp, intro disjI2 exI [of _ "[SendTo l ?frame]"] exI [of _ "[]"]) simp
    next
      case False
      with eqs u2(4) show ?thesis
        by (cases "u_liveAfterSeq u") (simp_all add: live_spec_def live_def)
    qed
    then show ?thesis
      using progress_trans [OF prog progress_upd(3)] lt later(2) sl u2(1) eqs by (intro exI [of _ "[b]"] exI [of _ bs]) simp
  next
    case True
    obtain u3 rest where r: "send_lines ok l bs u2 = (u3, rest)" by (cases "send_lines ok l bs u2")
    from r True step Cons.prems(1) have eqs: "u' = u3" "fx = SendTo l ?frame # live @ rest" by simp_all
    from Cons.IH [OF r u2(2) later] obtain xs ys where ih:
      "bs = xs @ ys" "sent_lines rest = numbered xs" "sent_gaps rest = []" "progress u2 u3"
      "bl_seq b \<le> u_sentSeq u3" "u_sentSeq u3 \<in> insert (bl_seq b) (bl_seq ` set xs)"
      "\<forall>c \<in> set xs. bl_seq c \<le> u_sentSeq u3" "\<forall>c \<in> set ys. u_sentSeq u3 < bl_seq c"
      "\<not> u_stalled u3 \<longrightarrow> ys = []"
      "live_spec l ?i (bl_seq ` set bs) (u_liveAfterSeq u2) (u_liveAfterSeq u3) (u_stalled u3) rest"
      unfolding u2(1,3) by blast
    have "live_spec l ?i (bl_seq ` set (b # bs)) (u_liveAfterSeq u) (u_liveAfterSeq u') (u_stalled u') fx"
    proof (cases now)
      case True
      then obtain t where t: "u_liveAfterSeq u = Some t" "t \<le> bl_seq b"
        by (auto simp: now_def split: option.splits)
      have rest: "u_liveAfterSeq u3 = None" "live_count rest = 0"
        using ih(10) True by (simp_all add: u2(4) live_spec_def)
      have "fx = [SendTo l ?frame] @ SendTo l (FLive ?i) # rest"
        using True eqs by (simp add: live_def)
      moreover have "\<forall>s \<in> bl_seq ` set (b # bs). s \<le> t \<longrightarrow> s \<in> told [SendTo l ?frame]"
        using t later(2) by (auto simp: u2)
      ultimately show ?thesis
        using t eqs rest unfolding live_spec_def
        by (simp, intro disjI2 exI [of _ "[SendTo l ?frame]"] exI [of _ rest]) simp
    next
      case False
      then have "live_spec l ?i (bl_seq ` set bs) (u_liveAfterSeq u) (u_liveAfterSeq u') (u_stalled u') rest"
        using ih(10) eqs by (simp add: u2(4))
      then show ?thesis
        using False unfolding eqs(2) live_def by (simp, intro live_spec_Cons) auto
    qed
    then show ?thesis
      using ih(1-9) progress_trans [OF prog ih(4)] lt sl eqs
      by (intro exI [of _ "b # xs"] exI [of _ ys]) auto
  qed
qed

section \<open>One \<open>flush\<close>\<close>

definition owed_lines :: "held \<Rightarrow> buffered_line list" where
  "owed_lines h = filter (\<lambda>b. u_sentSeq (snd h) < bl_seq b) (pending (u_uid (snd h)) (fst h))"

definition owed_seqs :: "held \<Rightarrow> nat set" where
  "owed_seqs h = {s \<in> accounted (bb_heap (fst h) (u_uid (snd h))). u_sentSeq (snd h) < s}"

text \<open>A held socket in good order: its buffer is registered and nothing beyond it has been sent.\<close>

definition held_ok :: "held \<Rightarrow> bool" where
  "held_ok h \<longleftrightarrow>
     bb_inv (fst h) \<and> u_uid (snd h) \<in> set (bb_buffers (fst h)) \<and>
     u_sentSeq (snd h) < lb_nextSeq (bb_heap (fst h) (u_uid (snd h)))"

lemma held_okD:
  assumes "held_ok h"
  shows "bb_inv (fst h)" "u_uid (snd h) \<in> set (bb_buffers (fst h))"
    "lb_inv (bb_heap (fst h) (u_uid (snd h)))"
    "u_sentSeq (snd h) < lb_nextSeq (bb_heap (fst h) (u_uid (snd h)))"
  using assms by (auto simp: held_ok_def dest: bb_invD)

lemma owed_lines_index:
  assumes "held_ok (w, u)"
  shows "drop (first_owed (u_sentSeq u) (pending (u_uid u) w)) (pending (u_uid u) w) = owed_lines (w, u)"
  using lbq.first_owed_owed [of w "u_uid u" "u_sentSeq u"] held_okD [OF assms]
  by (simp add: lbq.owed_def owed_lines_def)

lemma owed_lines_sorted:
  assumes "held_ok (w, u)"
  shows "sorted_wrt (<) (map bl_seq (owed_lines (w, u)))" "\<forall>b \<in> set (owed_lines (w, u)). u_sentSeq u < bl_seq b"
    "\<forall>b \<in> set (owed_lines (w, u)). bl_seq b < lb_nextSeq (bb_heap w (u_uid u))"
proof -
  have "sorted_wrt (<) (map bl_seq (pending (u_uid u) w))"
    using lbq.sorted_pending [of w "u_uid u"] held_okD [OF assms] by simp
  then show "sorted_wrt (<) (map bl_seq (owed_lines (w, u)))"
    by (simp add: owed_lines_def sorted_wrt_map sorted_wrt_filter)
qed (use lbq.pending_lt_next [of w "u_uid u"] held_okD [OF assms] in \<open>auto simp: owed_lines_def\<close>)

text \<open>The gap, if it is news, and the lines after it.\<close>

definition gap_due :: "held \<Rightarrow> gap option" where
  "gap_due h =
     (case peekGap (u_uid (snd h)) (fst h) of
        Some g \<Rightarrow> if u_sentSeq (snd h) < lastDroppedSeq g then Some g else None
      | None \<Rightarrow> None)"

lemma flush_cases:
  assumes "u_sink u = Some l" "\<not> u_stalled u"
  shows "flush ok (w, u) =
    (case gap_due (w, u) of
       None \<Rightarrow> (case send_lines ok l (drop (first_owed (u_sentSeq u) (pending (u_uid u) w)) (pending (u_uid u) w)) u of
                (u', fx) \<Rightarrow> ((w, u'), fx))
     | Some g \<Rightarrow>
         let w1 = fst (takeGap (u_uid u) w) in
         if \<not> ok (FGap (u_id u) g) then ((w1, u\<lparr>u_stalled := True\<rparr>), [SendTo l (FGap (u_id u) g)])
         else (case send_lines ok l (drop (first_owed (u_sentSeq u) (pending (u_uid u) w1)) (pending (u_uid u) w1)) u of
                (u', fx) \<Rightarrow> ((w1, u'), SendTo l (FGap (u_id u) g) # fx)))"
  using assms unfolding flush_def gap_due_def
  by (auto simp: Let_def split: option.splits prod.splits)

lemma takeGap_simps [simp]:
  "bb_buffers (fst (takeGap i w)) = bb_buffers w"
  "pending j (fst (takeGap i w)) = pending j w"
  "lb_nextSeq (bb_heap (fst (takeGap i w)) j) = lb_nextSeq (bb_heap w j)"
  by (auto simp: takeGap_def pending_def)

lemma owed_seqs_split:
  assumes "held_ok (w, u)"
  shows "owed_seqs (w, u) \<subseteq> bl_seq ` set (owed_lines (w, u)) \<union> gap_range (gap_due (w, u))"
    and "bl_seq ` set (owed_lines (w, u)) \<subseteq> owed_seqs (w, u)"
    and "gap_due (w, u) = None \<Longrightarrow> owed_seqs (w, u) = bl_seq ` set (owed_lines (w, u))"
  by (auto simp: owed_seqs_def owed_lines_def accounted_def gap_due_def gap_range_def pending_def peekGap_def
      split: option.splits)

definition delivers :: "nat \<Rightarrow> held \<Rightarrow> held \<Rightarrow> effect list \<Rightarrow> bool" where
  "delivers l h h' fx \<longleftrightarrow>
     held_ok h' \<and> bb_buffers (fst h') = bb_buffers (fst h) \<and>
     (\<forall>j. lb_nextSeq (bb_heap (fst h') j) = lb_nextSeq (bb_heap (fst h) j)) \<and>
     (\<forall>j. pending j (fst h') = pending j (fst h)) \<and>
     progress (snd h) (snd h') \<and>
     (\<exists>xs ys. owed_lines h = xs @ ys \<and> sent_lines fx = numbered xs) \<and>
     u_sentSeq (snd h) \<le> u_sentSeq (snd h') \<and> (\<forall>x \<in> set (sent_lines fx). fst x \<le> u_sentSeq (snd h')) \<and>
     owed_seqs h \<subseteq> told fx \<union> owed_seqs h' \<and>
     (\<not> u_stalled (snd h') \<longrightarrow> owed_seqs h' = {}) \<and>
     live_spec l (u_id (snd h)) (owed_seqs h) (u_liveAfterSeq (snd h)) (u_liveAfterSeq (snd h'))
       (u_stalled (snd h')) fx"

lemma send_owed:
  assumes ok: "held_ok (w, u)" and st: "\<not> u_stalled u" and gap: "gap_due (w, u) = None"
    and sl: "send_lines ok l (owed_lines (w, u)) u = (u', fx)"
  shows "delivers l (w, u) (w, u') fx"
proof -
  note srt = owed_lines_sorted [OF ok]
  from send_lines_spec [OF sl st srt(1,2)] obtain xs ys where s:
    "owed_lines (w, u) = xs @ ys" "sent_lines fx = numbered xs" "sent_gaps fx = []" "progress u u'"
    "u_sentSeq u \<le> u_sentSeq u'" "u_sentSeq u' \<in> insert (u_sentSeq u) (bl_seq ` set xs)"
    "\<forall>b \<in> set xs. bl_seq b \<le> u_sentSeq u'" "\<forall>b \<in> set ys. u_sentSeq u' < bl_seq b"
    "\<not> u_stalled u' \<longrightarrow> ys = []"
    "live_spec l (u_id u) (bl_seq ` set (owed_lines (w, u))) (u_liveAfterSeq u) (u_liveAfterSeq u') (u_stalled u') fx"
    by blast
  note f = progress_fields [OF s(4)]
  have lt: "u_sentSeq u' < lb_nextSeq (bb_heap w (u_uid u))"
    using s(1,6) srt(3) held_okD(4) [OF ok] by auto
  then have ok': "held_ok (w, u')"
    using ok by (simp add: held_ok_def f)
  have seqs: "owed_seqs (w, u) = bl_seq ` set (xs @ ys)"
    using owed_seqs_split(3) [OF ok gap] s(1) by simp
  have "gap_due (w, u') = None"
    using gap s(5) by (auto simp: gap_due_def f split: option.splits if_splits)
  from owed_seqs_split(3) [OF ok' this] have "owed_seqs (w, u') = bl_seq ` set (owed_lines (w, u'))" .
  also have "owed_lines (w, u') = filter (\<lambda>b. u_sentSeq u' < bl_seq b) (owed_lines (w, u))"
    using s(5) by (auto simp: owed_lines_def f intro!: filter_cong)
  also have "\<dots> = ys"
    using s(7,8) unfolding s(1) by (auto simp: filter_empty_conv filter_id_conv)
  finally have seqs': "owed_seqs (w, u') = bl_seq ` set ys" .
  have "bl_seq ` set xs \<subseteq> told fx"
    using s(2) by (auto simp: told_def image_iff)
  then have "owed_seqs (w, u) \<subseteq> told fx \<union> owed_seqs (w, u')"
    unfolding seqs seqs' by auto
  moreover have "live_spec l (u_id u) (owed_seqs (w, u)) (u_liveAfterSeq u) (u_liveAfterSeq u') (u_stalled u') fx"
    using s(1,10) seqs by simp
  ultimately show ?thesis
    unfolding delivers_def using ok' s seqs' by auto
qed

lemma held_ok_takeGap: "held_ok (w, u) \<Longrightarrow> held_ok (fst (takeGap (u_uid u) w), u)"
  by (auto simp: held_ok_def intro: wf_intros)

lemma takeGap_owed:
  "gap_due (fst (takeGap (u_uid u) w), u) = None"
  "owed_lines (fst (takeGap (u_uid u) w), u) = owed_lines (w, u)"
  by (simp_all add: gap_due_def peekGap_def owed_lines_def) (simp add: takeGap_def)

lemma flush_delivers:
  assumes ok: "held_ok h" and sink: "u_sink (snd h) = Some l" "\<not> u_stalled (snd h)"
    and fl: "flush ok h = (h', fx)"
  shows "delivers l h h' fx"
proof -
  obtain w u where h: "h = (w, u)" by (cases h)
  note ok = ok [unfolded h] and sink = sink [unfolded h snd_conv]
  show ?thesis
  proof (cases "gap_due (w, u)")
    case None
    obtain u' fx' where sl: "send_lines ok l (owed_lines (w, u)) u = (u', fx')" by fastforce
    with fl None show ?thesis
      unfolding h by (auto simp: flush_cases [OF sink] owed_lines_index [OF ok]
          intro!: send_owed [OF ok sink(2) None])
  next
    case (Some g)
    let ?w1 = "fst (takeGap (u_uid u) w)"
    note ok1 = held_ok_takeGap [OF ok]
    have due: "owed_seqs (w, u) \<subseteq> gap_range (Some g) \<union> owed_seqs (?w1, u)"
      using owed_seqs_split(1) [OF ok] owed_seqs_split(2) [OF ok1] unfolding Some takeGap_owed by blast
    show ?thesis
    proof (cases "ok (FGap (u_id u) g)")
      case False
      then have "h' = (?w1, u\<lparr>u_stalled := True\<rparr>)" "fx = [SendTo l (FGap (u_id u) g)]"
        using fl Some unfolding h by (simp_all add: flush_cases [OF sink] Let_def)
      moreover have "owed_seqs (?w1, u\<lparr>u_stalled := True\<rparr>) = owed_seqs (?w1, u)"
        "held_ok (?w1, u\<lparr>u_stalled := True\<rparr>)"
        using ok1 by (simp_all add: owed_seqs_def held_ok_def)
      ultimately show ?thesis
        using due unfolding delivers_def h by (auto simp: live_spec_def split: option.splits)
    next
      case True
      obtain u' fx' where sl: "send_lines ok l (owed_lines (w, u)) u = (u', fx')" by fastforce
      from send_owed [OF ok1 sink(2) takeGap_owed(1), unfolded takeGap_owed(2), OF sl]
      have d: "delivers l (?w1, u) (?w1, u') fx'" .
      have eqs: "h' = (?w1, u')" "fx = SendTo l (FGap (u_id u) g) # fx'"
        using fl Some True sl owed_lines_index [OF ok1, unfolded takeGap_owed(2)]
        unfolding h by (simp_all add: flush_cases [OF sink] Let_def)
      have "live_spec l (u_id u) (owed_seqs (w, u)) (u_liveAfterSeq u) (u_liveAfterSeq u') (u_stalled u') fx"
        unfolding eqs(2) using d due by (intro live_spec_Cons) (auto simp: delivers_def)
      then show ?thesis
        using d due unfolding delivers_def h eqs by (auto simp: takeGap_owed)
    qed
  qed
qed

section \<open>A line from the server, up to its \<open>flush\<close>\<close>

text \<open>\<open>keeps u v\<close>: the delivery fields are untouched.\<close>

definition keeps :: "upstream \<Rightarrow> upstream \<Rightarrow> bool" where
  "keeps u v \<longleftrightarrow>
     u_uid v = u_uid u \<and> u_id v = u_id u \<and> u_sink v = u_sink u \<and> u_stalled v = u_stalled u \<and>
     u_sentSeq v = u_sentSeq u \<and> u_liveAfterSeq v = u_liveAfterSeq u"

lemma keeps_refl [simp]: "keeps u u"
  by (simp add: keeps_def)

lemma keeps_trans [trans]: "keeps u v \<Longrightarrow> keeps v w \<Longrightarrow> keeps u w"
  by (simp add: keeps_def)

lemma keeps_noteHostmask: "keeps u (noteHostmask p u)"
  by (auto simp: keeps_def noteHostmask_def split: option.splits)

lemma keeps_trackCaps: "keeps u (trackCaps ps u)"
  by (auto simp: keeps_def trackCaps_def Let_def)

lemma keeps_recordBurst: "keeps u (recordBurst l ps f u)"
  by (auto simp: keeps_def recordBurst_def Let_def)

lemma keeps_track: "keeps u (snd (track c p ps u))"
  using keeps_noteHostmask [of _ p] by (auto simp: track_def Let_def keeps_def)

lemma keeps_tracked: "keeps u (snd (tracked msg u))"
proof -
  let ?c = "to_upper (msg_command msg)" and ?ps = "msg_params msg"
  define u1 where "u1 = (if ?c = ''001''
                then u\<lparr>u_nick := truthy (nth_param 0 ?ps), u_serverName := truthy (msg_prefix msg)\<rparr> else u)"
  define u2 where "u2 = (if ?c = ''CAP'' then trackCaps ?ps u1 else u1)"
  have "keeps u u1" by (simp add: u1_def keeps_def)
  also have "keeps u1 u2" by (simp add: u2_def keeps_trackCaps)
  also have "keeps u2 (snd (if u_nick u2 \<noteq> None then track ?c (msg_prefix msg) ?ps u2 else (False, u2)))"
    by (simp add: keeps_track)
  finally show ?thesis
    unfolding tracked_def u2_def u1_def by (simp add: Let_def)
qed

lemma keeps_own_state: "keeps u (fst (own_state msg line u))"
proof -
  obtain own u3 where t: "tracked msg u = (own, u3)" by fastforce
  have k: "keeps u u3" using keeps_tracked [of u msg] t by simp
  have "keeps u3 (recordBurst line ps f u3)" for ps f by (rule keeps_recordBurst)
  from keeps_trans [OF k this] k show ?thesis
    by (auto simp: own_state_def t Let_def end_burst_def keeps_def)
qed

lemma own_state_silent: "sent_lines (snd (own_state msg line u)) = []" "sent_gaps (snd (own_state msg line u)) = []"
  "live_count (snd (own_state msg line u)) = 0"
  by (simp_all add: own_state_def Let_def split_beta)

section \<open>Runs of one attachment\<close>

text \<open>Between an attach and the next detach: lines from the server, acknowledgements, drains of the
  link, and pushes on other connections' buffers, which may reclaim lines of this one.\<close>

datatype up_event =
    ServerLine "engine_frame \<Rightarrow> bool" int string
  | AppAck nat
  | Drained "engine_frame \<Rightarrow> bool"
  | Pressure int nat string

fun up_step :: "(string \<Rightarrow> irc_msg option) \<Rightarrow> up_event \<Rightarrow> held \<Rightarrow> held \<times> effect list" where
  "up_step parse (ServerLine ok now line) h = on_line parse ok now line h"
| "up_step parse (AppAck s) h = (up_ack s h, [])"
| "up_step parse (Drained ok) h = resume ok h"
| "up_step parse (Pressure now j line) h = ((fst (push now j line (fst h)), snd h), [])"

text \<open>The application only acknowledges what it was sent.\<close>

fun up_step_ok :: "up_event \<Rightarrow> held \<Rightarrow> bool" where
  "up_step_ok (AppAck s) h = (s \<le> u_sentSeq (snd h))"
| "up_step_ok (Pressure now j line) h = (j \<in> set (bb_buffers (fst h)) \<and> j \<noteq> u_uid (snd h))"
| "up_step_ok _ h = True"

fun up_run :: "(string \<Rightarrow> irc_msg option) \<Rightarrow> up_event list \<Rightarrow> held \<Rightarrow> held \<times> effect list" where
  "up_run parse [] h = (h, [])"
| "up_run parse (e # es) h =
     (let (h1, fx) = up_step parse e h; (h2, fx') = up_run parse es h1 in (h2, fx @ fx'))"

fun up_run_ok :: "(string \<Rightarrow> irc_msg option) \<Rightarrow> up_event list \<Rightarrow> held \<Rightarrow> bool" where
  "up_run_ok parse [] h = True"
| "up_run_ok parse (e # es) h = (up_step_ok e h \<and> up_run_ok parse es (fst (up_step parse e h)))"

text \<open>The lines of a run that are buffered and relayed.\<close>

definition relays :: "(string \<Rightarrow> irc_msg option) \<Rightarrow> string \<Rightarrow> bool" where
  "relays parse line = (case parse line of None \<Rightarrow> False | Some msg \<Rightarrow> \<not> is_ping msg)"

fun relayed :: "(string \<Rightarrow> irc_msg option) \<Rightarrow> up_event list \<Rightarrow> string list" where
  "relayed parse [] = []"
| "relayed parse (ServerLine ok now line # es) =
     (if relays parse line then line # relayed parse es else relayed parse es)"
| "relayed parse (_ # es) = relayed parse es"

abbreviation next_seq :: "held \<Rightarrow> nat" where
  "next_seq h \<equiv> lb_nextSeq (bb_heap (fst h) (u_uid (snd h)))"

abbreviation held_pending :: "held \<Rightarrow> buffered_line list" where
  "held_pending h \<equiv> pending (u_uid (snd h)) (fst h)"

text \<open>One step: \<open>new\<close> are the lines it numbered.\<close>

definition relay_step :: "nat \<Rightarrow> held \<Rightarrow> held \<Rightarrow> string list \<Rightarrow> effect list \<Rightarrow> bool" where
  "relay_step l h h' new fx \<longleftrightarrow>
     held_ok h' \<and> u_sink (snd h') = Some l \<and> u_id (snd h') = u_id (snd h) \<and>
     next_seq h' = next_seq h + length new \<and>
     set (numbered (held_pending h')) \<subseteq> set (numbered (held_pending h)) \<union> set (zip [next_seq h..<next_seq h'] new) \<and>
     set (sent_lines fx) \<subseteq> set (numbered (held_pending h)) \<union> set (zip [next_seq h..<next_seq h'] new) \<and>
     sorted_wrt (<) (map fst (sent_lines fx)) \<and>
     (\<forall>x \<in> set (sent_lines fx). u_sentSeq (snd h) < fst x \<and> fst x \<le> u_sentSeq (snd h')) \<and>
     u_sentSeq (snd h) \<le> u_sentSeq (snd h') \<and>
     owed_seqs h \<union> {next_seq h..<next_seq h'} \<subseteq> told fx \<union> owed_seqs h' \<and>
     (\<not> u_stalled (snd h') \<longrightarrow> owed_seqs h' = {}) \<and>
     live_spec l (u_id (snd h)) (owed_seqs h) (u_liveAfterSeq (snd h)) (u_liveAfterSeq (snd h'))
       (u_stalled (snd h')) fx"

definition attached_ok :: "nat \<Rightarrow> held \<Rightarrow> bool" where
  "attached_ok l h \<longleftrightarrow> held_ok h \<and> u_sink (snd h) = Some l \<and>
     (\<not> u_stalled (snd h) \<longrightarrow> owed_seqs h = {} \<and> u_liveAfterSeq (snd h) = None)"

lemma relay_step_idle:
  assumes "attached_ok l h" "held_ok h'" "keeps (snd h) (snd h')" "next_seq h' = next_seq h"
    "set (held_pending h') \<subseteq> set (held_pending h)" "owed_seqs h' = owed_seqs h"
    "sent_lines fx = []" "sent_gaps fx = []" "live_count fx = 0"
  shows "relay_step l h h' [] fx"
  using assms unfolding relay_step_def attached_ok_def keeps_def live_spec_def
  by (auto split: option.splits)

lemma deliversD:
  assumes "delivers l h h' fx"
  shows "held_ok h'" "lb_nextSeq (bb_heap (fst h') j) = lb_nextSeq (bb_heap (fst h) j)"
    "pending j (fst h') = pending j (fst h)" "progress (snd h) (snd h')"
    "\<exists>xs ys. owed_lines h = xs @ ys \<and> sent_lines fx = numbered xs"
    "u_sentSeq (snd h) \<le> u_sentSeq (snd h')" "\<forall>x \<in> set (sent_lines fx). fst x \<le> u_sentSeq (snd h')"
    "owed_seqs h \<subseteq> told fx \<union> owed_seqs h'" "\<not> u_stalled (snd h') \<Longrightarrow> owed_seqs h' = {}"
    "live_spec l (u_id (snd h)) (owed_seqs h) (u_liveAfterSeq (snd h)) (u_liveAfterSeq (snd h'))
       (u_stalled (snd h')) fx"
  using assms unfolding delivers_def by blast+

lemma delivers_relay:
  assumes d: "delivers l h h' fx" and h: "held_ok h" and sink: "u_sink (snd h) = Some l"
  shows "relay_step l h h' [] fx"
proof -
  note d' = deliversD [OF d] and f = progress_fields [OF deliversD(4) [OF d]]
  obtain w u where wu: "h = (w, u)" by (cases h)
  from d'(5) obtain xs ys where xy: "owed_lines h = xs @ ys" "sent_lines fx = numbered xs" by blast
  have srt: "sorted_wrt (<) (map bl_seq xs)" "\<forall>b \<in> set xs. u_sentSeq (snd h) < bl_seq b"
    using owed_lines_sorted(1,2) [of w u] h wu unfolding xy(1) [unfolded wu]
    by (simp_all add: sorted_wrt_append)
  have "set xs \<subseteq> set (held_pending h)"
    using xy(1) by (metis Un_iff filter_is_subset owed_lines_def set_append subset_iff)
  then have sub: "set (sent_lines fx) \<subseteq> set (numbered (held_pending h))"
    unfolding xy(2) by auto
  have s1: "sorted_wrt (<) (map fst (sent_lines fx))"
    using srt(1) by (simp add: xy(2) comp_def)
  have s2: "\<forall>x \<in> set (sent_lines fx). u_sentSeq (snd h) < fst x"
    using srt(2) by (simp add: xy(2))
  show ?thesis
    unfolding relay_step_def
    using d'(1,6,7,8,9,10) s1 s2 sub sink by (simp add: f d'(2,3))
qed

lemma live_spec_append:
  assumes "live_spec l i D t t1 st1 fx1" "live_spec l i D' t1 t2 st2 fx2" "D \<subseteq> told fx1 \<union> D'"
  shows "live_spec l i D t t2 st2 (fx1 @ fx2)"
proof (cases t)
  case (Some t0)
  from assms(1) Some consider "t1 = Some t0 \<and> live_count fx1 = 0" |
    p q where "t1 = None" "fx1 = p @ SendTo l (FLive i) # q" "live_count p = 0" "live_count q = 0"
      "\<forall>s \<in> D. s \<le> t0 \<longrightarrow> s \<in> told p"
    by (auto simp: live_spec_def)
  then show ?thesis
  proof cases
    case 1
    from assms(2) 1 consider "t2 = Some t0 \<and> live_count fx2 = 0 \<and> st2" |
      p q where "t2 = None" "fx2 = p @ SendTo l (FLive i) # q" "live_count p = 0" "live_count q = 0"
        "\<forall>s \<in> D'. s \<le> t0 \<longrightarrow> s \<in> told p"
      by (auto simp: live_spec_def)
    then show ?thesis
    proof cases
      case (2 p q)
      have "\<forall>s \<in> D. s \<le> t0 \<longrightarrow> s \<in> told (fx1 @ p)"
        using 2(5) assms(3) by auto
      with 1 2 Some show ?thesis
        unfolding live_spec_def by (simp, intro exI [of _ "fx1 @ p"] exI [of _ q]) simp
    qed (use 1 Some in \<open>simp add: live_spec_def\<close>)
  next
    case (2 p q)
    with assms(2) have "t2 = None" "live_count fx2 = 0" by (simp_all add: live_spec_def)
    with 2 Some show ?thesis
      unfolding live_spec_def by (simp, intro exI [of _ p] exI [of _ "q @ fx2"]) simp
  qed
qed (use assms in \<open>simp add: live_spec_def\<close>)

lemma zip_upt_append:
  "length xs = b - a \<Longrightarrow> a \<le> b \<Longrightarrow> b \<le> c \<Longrightarrow>
   zip [a..<c] (xs @ ys) = zip [a..<b] xs @ zip [b..<c] ys"
  by (metis le_add_diff_inverse length_upt upt_add_eq_append zip_append)

lemma relay_step_append:
  assumes "relay_step l h h1 n1 fx1" "relay_step l h1 h2 n2 fx2"
  shows "relay_step l h h2 (n1 @ n2) (fx1 @ fx2)"
proof -
  note a = assms [unfolded relay_step_def]
  have le: "next_seq h \<le> next_seq h1" "next_seq h1 \<le> next_seq h2" "length n1 = next_seq h1 - next_seq h"
    using a by auto
  have z: "set (zip [next_seq h..<next_seq h2] (n1 @ n2)) =
      set (zip [next_seq h..<next_seq h1] n1) \<union> set (zip [next_seq h1..<next_seq h2] n2)"
    using zip_upt_append [OF le(3,1,2), of n2] by simp
  have pool: "set (numbered (held_pending h1)) \<subseteq> set (numbered (held_pending h)) \<union> set (zip [next_seq h..<next_seq h1] n1)"
    "set (numbered (held_pending h2)) \<subseteq> set (numbered (held_pending h1)) \<union> set (zip [next_seq h1..<next_seq h2] n2)"
    "set (sent_lines fx1) \<subseteq> set (numbered (held_pending h)) \<union> set (zip [next_seq h..<next_seq h1] n1)"
    "set (sent_lines fx2) \<subseteq> set (numbered (held_pending h1)) \<union> set (zip [next_seq h1..<next_seq h2] n2)"
    using a by blast+
  have pools: "set (numbered (held_pending h2)) \<subseteq> set (numbered (held_pending h)) \<union> set (zip [next_seq h..<next_seq h2] (n1 @ n2))"
    "set (sent_lines (fx1 @ fx2)) \<subseteq> set (numbered (held_pending h)) \<union> set (zip [next_seq h..<next_seq h2] (n1 @ n2))"
    unfolding z using pool by (auto simp del: set_map) (blast+)?
  have cov: "owed_seqs h \<union> {next_seq h..<next_seq h2} \<subseteq> told (fx1 @ fx2) \<union> owed_seqs h2"
  proof -
    have "owed_seqs h \<union> {next_seq h..<next_seq h1} \<subseteq> told fx1 \<union> owed_seqs h1"
      "owed_seqs h1 \<union> {next_seq h1..<next_seq h2} \<subseteq> told fx2 \<union> owed_seqs h2"
      using a by blast+
    moreover have "{next_seq h..<next_seq h2} = {next_seq h..<next_seq h1} \<union> {next_seq h1..<next_seq h2}"
      using le by auto
    ultimately show ?thesis by auto
  qed
  have rng: "\<forall>x \<in> set (sent_lines fx1). u_sentSeq (snd h) < fst x \<and> fst x \<le> u_sentSeq (snd h1)"
    "\<forall>x \<in> set (sent_lines fx2). u_sentSeq (snd h1) < fst x \<and> fst x \<le> u_sentSeq (snd h2)"
    "u_sentSeq (snd h) \<le> u_sentSeq (snd h1)" "u_sentSeq (snd h1) \<le> u_sentSeq (snd h2)"
    using a by blast+
  have rng': "\<forall>x \<in> set (sent_lines (fx1 @ fx2)). u_sentSeq (snd h) < fst x \<and> fst x \<le> u_sentSeq (snd h2)"
    using rng by fastforce
  have "sorted_wrt (<) (map fst (sent_lines fx1))" "sorted_wrt (<) (map fst (sent_lines fx2))"
    using a by blast+
  then have srt: "sorted_wrt (<) (map fst (sent_lines (fx1 @ fx2)))"
    using rng(1,2) by (fastforce simp: sorted_wrt_append)
  have live: "live_spec l (u_id (snd h)) (owed_seqs h) (u_liveAfterSeq (snd h)) (u_liveAfterSeq (snd h2))
       (u_stalled (snd h2)) (fx1 @ fx2)"
  proof (rule live_spec_append)
    show "live_spec l (u_id (snd h)) (owed_seqs h) (u_liveAfterSeq (snd h)) (u_liveAfterSeq (snd h1))
       (u_stalled (snd h1)) fx1"
      using a by blast
    show "live_spec l (u_id (snd h)) (owed_seqs h1) (u_liveAfterSeq (snd h1)) (u_liveAfterSeq (snd h2))
       (u_stalled (snd h2)) fx2"
      using a by metis
    show "owed_seqs h \<subseteq> told fx1 \<union> owed_seqs h1"
      using a by blast
  qed
  have "next_seq h2 = next_seq h + length (n1 @ n2)" "u_id (snd h2) = u_id (snd h)"
    using a by auto
  then show ?thesis
    unfolding relay_step_def using a rng' rng srt pools cov live
    by (intro conjI) (blast | simp)+
qed

section \<open>Every step relays\<close>

lemma pushed_facts:
  assumes ok: "held_ok (w, u)" and k: "keeps u v" and p: "push now (u_uid u) line w = (w1, seq)"
  shows "seq = next_seq (w, u)" "held_ok (w1, v)" "next_seq (w1, v) = Suc (next_seq (w, u))"
    "set (numbered (held_pending (w1, v))) \<subseteq> set (numbered (held_pending (w, u))) \<union> {(next_seq (w, u), line)}"
    "owed_seqs (w1, v) = insert (next_seq (w, u)) (owed_seqs (w, u))"
proof -
  let ?i = "u_uid u"
  have i: "bb_inv w" "?i \<in> set (bb_buffers w)" "lb_inv (bb_heap w ?i)" using held_okD [OF ok] by auto
  have w1: "w1 = fst (push now ?i line w)" using p by simp
  have sh: "shed (put_buffer ?i (append_line line (bb_heap w ?i)) w) w1"
    unfolding w1 by (rule push_sheds [OF i(1,2)])
  have v: "u_uid v = ?i" "u_sentSeq v = u_sentSeq u" using k by (simp_all add: keeps_def)
  show "seq = next_seq (w, u)"
    using p by (simp add: push_put)
  show n: "next_seq (w1, v) = Suc (next_seq (w, u))"
    using shedD(4) [OF sh, of ?i] by (simp add: v append_line_def)
  show "held_ok (w1, v)"
    using shedD(1,2) [OF sh] ok n by (simp add: held_ok_def v)
  have "set (pending ?i w1) \<subseteq> set (pending ?i w) \<union> {\<lparr>bl_seq = next_seq (w, u), bl_line = line\<rparr>}"
    using set_mono_suffix [OF shedD(6) [OF sh, of ?i]] by (simp add: pending_def append_line_def)
  then show "set (numbered (held_pending (w1, v))) \<subseteq> set (numbered (held_pending (w, u))) \<union> {(next_seq (w, u), line)}"
    unfolding set_map by (auto simp: v)
  have "accounted (bb_heap w1 ?i) = insert (next_seq (w, u)) (accounted (bb_heap w ?i))"
    using shedD(8) [OF sh, of ?i] i(2) by (simp add: accounted_append_line)
  then show "owed_seqs (w1, v) = insert (next_seq (w, u)) (owed_seqs (w, u))"
    using held_okD(4) [OF ok] by (auto simp: owed_seqs_def v)
qed

lemma keeps_mark: "keeps u (mark_burst_end seq u)"
  by (simp add: keeps_def mark_burst_end_def)

lemma live_spec_mono: "live_spec l i D t t' st fx \<Longrightarrow> D' \<subseteq> D \<Longrightarrow> live_spec l i D' t t' st fx"
  unfolding live_spec_def by (cases t; simp) blast

lemma live_spec_silent:
  "live_count fx0 = 0 \<Longrightarrow> live_spec l i D t t' st fx \<Longrightarrow> D' \<subseteq> D \<Longrightarrow> live_spec l i D' t t' st (fx0 @ fx)"
proof (induction fx0 arbitrary: fx)
  case Nil
  then show ?case by (simp add: live_spec_mono)
next
  case (Cons e fx0)
  have "live_count [e] = 0" "live_count fx0 = 0"
    using Cons.prems(1) live_count_append [of "[e]" fx0] by simp_all
  with Cons.IH Cons.prems(2,3) show ?case
    by (auto intro!: live_spec_Cons)
qed

lemma relay_line:
  assumes at: "attached_ok l (w, u)" and k: "keeps u v"
    and p: "push now (u_uid u) line w = (w1, seq)" and fl: "flush ok (w1, v) = (h', fx)"
    and silent: "sent_lines fx0 = []" "sent_gaps fx0 = []" "live_count fx0 = 0"
  shows "relay_step l (w, u) h' [line] (fx0 @ fx)"
proof -
  have ok: "held_ok (w, u)" and sink: "u_sink v = Some l"
    using at k by (simp_all add: attached_ok_def keeps_def)
  note pf = pushed_facts [OF ok k p]
  have v: "u_stalled v = u_stalled u" "u_sentSeq v = u_sentSeq u" "u_id v = u_id u" "u_sink v = u_sink u"
     "u_liveAfterSeq v = u_liveAfterSeq u" "u_uid v = u_uid u"
    using k by (simp_all add: keeps_def)
  show ?thesis
  proof (cases "u_stalled u")
    case True
    then have "h' = (w1, v)" "fx = []"
      using fl sink by (simp_all add: flush_def v)
    then show ?thesis
      using pf sink True silent ok unfolding relay_step_def live_spec_def
      by (auto simp: v told_def split: option.splits)
  next
    case False
    then have st: "\<not> u_stalled (snd (w1, v))" "u_sink (snd (w1, v)) = Some l"
      using sink by (simp_all add: v)
    from delivers_relay [OF flush_delivers [OF pf(2) st(2,1) fl] pf(2) st(2)]
    have r: "relay_step l (w1, v) h' [] fx" .
    note r' = r [unfolded relay_step_def]
    have told0: "told fx0 = {}" using silent by (simp add: told_def)
    have "next_seq h' = next_seq (w, u) + length [line]"
      using r' pf(3) by auto
    moreover have zip: "set (zip [next_seq (w, u)..<next_seq h'] [line]) = {(next_seq (w, u), line)}"
      unfolding calculation by simp
    moreover have "set (numbered (held_pending h')) \<subseteq>
        set (numbered (held_pending (w, u))) \<union> set (zip [next_seq (w, u)..<next_seq h'] [line])"
      "set (sent_lines (fx0 @ fx)) \<subseteq>
        set (numbered (held_pending (w, u))) \<union> set (zip [next_seq (w, u)..<next_seq h'] [line])"
      using r' pf(4) unfolding zip by (auto simp: silent simp del: set_map)
    moreover have "owed_seqs (w, u) \<union> {next_seq (w, u)..<next_seq h'} \<subseteq> told (fx0 @ fx) \<union> owed_seqs h'"
    proof -
      have "{next_seq (w, u)..<next_seq h'} = {next_seq (w, u)}"
        using calculation(1) by simp
      moreover have "owed_seqs (w1, v) \<subseteq> told fx \<union> owed_seqs h'" using r' by blast
      ultimately show ?thesis using pf(5) by (simp add: told0)
    qed
    moreover have "live_spec l (u_id u) (owed_seqs (w, u)) (u_liveAfterSeq u) (u_liveAfterSeq (snd h'))
        (u_stalled (snd h')) (fx0 @ fx)"
      using r' pf(5) by (intro live_spec_silent [OF silent(3)]) (auto simp: v)
    ultimately show ?thesis
      unfolding relay_step_def using r' by (simp add: v silent)
  qed
qed

lemma relay_attached: "relay_step l h h' new fx \<Longrightarrow> attached_ok l h'"
  unfolding relay_step_def attached_ok_def live_spec_def by (auto split: option.splits)

lemma relay_ack:
  assumes at: "attached_ok l (w, u)" and s: "s \<le> u_sentSeq u"
  shows "relay_step l (w, u) (ack s (u_uid u) w, u) [] []"
proof (rule relay_step_idle [OF at])
  have ok: "held_ok (w, u)" using at by (simp add: attached_ok_def)
  note i = held_okD [OF ok, unfolded fst_conv snd_conv]
  show n: "next_seq (ack s (u_uid u) w, u) = next_seq (w, u)"
    by (simp add: ack_put) (simp add: ack_buffer_def)
  show "held_ok (ack s (u_uid u) w, u)"
    using ok n i by (auto simp: held_ok_def ack_inv) (simp add: ack_put)
  show "set (held_pending (ack s (u_uid u) w, u)) \<subseteq> set (held_pending (w, u))"
    using lbq.pending_ack [of w "u_uid u" s] i by auto
  show "owed_seqs (ack s (u_uid u) w, u) = owed_seqs (w, u)"
    using s by (auto simp: owed_seqs_def ack_put accounted_ack [OF i(3)])
qed simp_all

lemma relay_pressure:
  assumes at: "attached_ok l (w, u)" and j: "j \<in> set (bb_buffers w)" "j \<noteq> u_uid u"
  shows "relay_step l (w, u) (fst (push now j line w), u) [] []"
proof (rule relay_step_idle [OF at])
  let ?i = "u_uid u" and ?w = "fst (push now j line w)"
  have ok: "held_ok (w, u)" using at by (simp add: attached_ok_def)
  note i = held_okD [OF ok, unfolded fst_conv snd_conv]
  have sh: "shed (put_buffer j (append_line line (bb_heap w j)) w) ?w"
    by (rule push_sheds [OF i(1) j(1)])
  show n: "next_seq (?w, u) = next_seq (w, u)"
    using shedD(4) [OF sh, of ?i] j(2) by simp
  show "held_ok (?w, u)"
    using ok n shedD(1,2) [OF sh] by (simp add: held_ok_def)
  show "set (held_pending (?w, u)) \<subseteq> set (held_pending (w, u))"
    using set_mono_suffix [OF shedD(6) [OF sh, of ?i]] j(2) by (simp add: pending_def)
  show "owed_seqs (?w, u) = owed_seqs (w, u)"
    using shedD(8) [OF sh, of ?i] i(2) j(2) by (simp add: owed_seqs_def)
qed simp_all

lemma relay_resume:
  assumes at: "attached_ok l (w, u)" and r: "resume ok (w, u) = (h', fx)"
  shows "relay_step l (w, u) h' [] fx"
proof -
  let ?u = "u\<lparr>u_stalled := False\<rparr>"
  have "held_ok (w, ?u)" "u_sink (snd (w, ?u)) = Some l" "\<not> u_stalled (snd (w, ?u))"
    using at by (simp_all add: attached_ok_def held_ok_def)
  moreover have "flush ok (w, ?u) = (h', fx)"
    using r by (simp add: resume_def)
  ultimately have "relay_step l (w, ?u) h' [] fx"
    by (intro delivers_relay flush_delivers)
  then show ?thesis
    by (simp add: relay_step_def owed_seqs_def)
qed

lemma rawWrite_silent: "sent_lines (rawWrite u x) = []" "sent_gaps (rawWrite u x) = []" "live_count (rawWrite u x) = 0"
  by (simp_all add: rawWrite_def)

lemma relay_on_line:
  assumes at: "attached_ok l (w, u)" and r: "on_line parse ok now line (w, u) = (h', fx)"
  shows "relay_step l (w, u) h' (if relays parse line then [line] else []) fx"
proof (cases "parse line")
  case None
  with r at show ?thesis
    by (auto simp: on_line_def relays_def attached_ok_def intro!: relay_step_idle)
next
  case (Some msg)
  show ?thesis
  proof (cases "is_ping msg")
    case True
    have "u_sink u = Some l" using at by (simp add: attached_ok_def)
    with Some True r at show ?thesis
      by (auto simp: on_line_def relays_def attached_ok_def rawWrite_silent intro!: relay_step_idle)
  next
    case False
    obtain u4 fx0 where u4: "own_state msg line u = (u4, fx0)" by fastforce
    obtain w1 seq where p: "push now (u_uid u) line w = (w1, seq)" by fastforce
    obtain h1 fx1 where f: "flush ok (w1, mark_burst_end seq u4) = (h1, fx1)" by fastforce
    have "h' = h1" "fx = fx0 @ fx1"
      using r Some False u4 p f by (simp_all add: on_line_def Let_def)
    moreover have "keeps u (mark_burst_end seq u4)"
      using keeps_own_state [of u msg line] keeps_mark keeps_trans u4 by fastforce
    moreover have "sent_lines fx0 = []" "sent_gaps fx0 = []" "live_count fx0 = 0"
      using own_state_silent [of msg line u] u4 by simp_all
    ultimately show ?thesis
      using relay_line [OF at _ p f] Some False by (simp add: relays_def)
  qed
qed

lemma relay_event:
  assumes "attached_ok l h" "up_step_ok e h" "up_step parse e h = (h', fx)"
  shows "relay_step l h h' (relayed parse [e]) fx"
proof -
  obtain w u where h: "h = (w, u)" by (cases h)
  note at = assms(1) [unfolded h]
  show ?thesis
  proof (cases e)
    case (ServerLine ok now line)
    with assms(3) h have "on_line parse ok now line (w, u) = (h', fx)" by simp
    from relay_on_line [OF at this] ServerLine h show ?thesis by (simp split: if_splits)
  next
    case (AppAck s)
    with relay_ack [OF at, of s] assms(2,3) h show ?thesis by (auto simp: up_ack_def)
  next
    case (Drained ok)
    with relay_resume [OF at] assms(3) h show ?thesis by simp
  next
    case (Pressure now j line)
    with relay_pressure [OF at, of j now line] assms(2,3) h show ?thesis by auto
  qed
qed

lemma relay_run:
  "attached_ok l h \<Longrightarrow> up_run_ok parse es h \<Longrightarrow> up_run parse es h = (h', fx) \<Longrightarrow>
   es = [] \<or> relay_step l h h' (relayed parse es) fx"
proof (induction es arbitrary: h fx)
  case (Cons e es)
  obtain h1 fx1 where e: "up_step parse e h = (h1, fx1)" by fastforce
  obtain fx2 where es: "up_run parse es h1 = (h', fx2)" "fx = fx1 @ fx2"
    using Cons.prems(3) e by (auto split: prod.splits)
  have r1: "relay_step l h h1 (relayed parse [e]) fx1"
    using Cons.prems e by (intro relay_event) auto
  have new: "relayed parse (e # es) = relayed parse [e] @ relayed parse es"
    by (cases e) simp_all
  from Cons.IH [OF relay_attached [OF r1] _ es(1)] Cons.prems(2) e
  consider "es = []" | "relay_step l h1 h' (relayed parse es) fx2" by auto
  then show ?case
  proof cases
    case 1
    with es r1 show ?thesis by simp
  next
    case 2
    from relay_step_append [OF r1 this] show ?thesis by (simp add: new es(2))
  qed
qed simp

section \<open>A whole attachment\<close>

lemma attach_facts:
  assumes at: "attach now l (w, u) = (h0, Attached p)" and inv: "bb_inv w" "u_uid u \<in> set (bb_buffers w)"
    and be: "u_burstEndSeq u < next_seq (w, u)"
  shows "held_ok h0" "u_sink (snd h0) = Some l" "\<not> u_stalled (snd h0)" "u_sentSeq (snd h0) = u_burstEndSeq u"
    "u_liveAfterSeq (snd h0) = Some (if held_pending h0 \<noteq> [] then bl_seq (last (held_pending h0)) else 0)"
    "u_uid (snd h0) = u_uid u" "u_id (snd h0) = u_id u" "next_seq h0 = next_seq (w, u)"
    "fst h0 = ack (u_burstEndSeq u) (u_uid u) w"
proof -
  have eq: "h0 = (ack (u_burstEndSeq u) (u_uid u) w,
      u\<lparr>u_sink := Some l, u_stalled := False, u_detachedAt := None, u_sentSeq := u_burstEndSeq u,
        u_liveAfterSeq := Some (if pending (u_uid u) (ack (u_burstEndSeq u) (u_uid u) w) \<noteq> []
          then bl_seq (last (pending (u_uid u) (ack (u_burstEndSeq u) (u_uid u) w))) else 0)\<rparr>)"
    using at unfolding attach_def by (auto simp: Let_def split: option.splits if_splits)
  have n: "lb_nextSeq (bb_heap (ack s i w) i) = lb_nextSeq (bb_heap w i)" for s i
    by (simp add: ack_put) (simp add: ack_buffer_def)
  have b: "bb_buffers (ack s i w) = bb_buffers w" for s i
    by (simp add: ack_put)
  show "held_ok h0"
    unfolding eq held_ok_def using inv be by (simp add: n b ack_inv)
qed (use at in \<open>auto simp: attach_def Let_def ack_put ack_buffer_def split: option.splits if_splits\<close>)

lemma relay_attach:
  assumes ok: "held_ok h0" and sink: "u_sink (snd h0) = Some l" "\<not> u_stalled (snd h0)"
    and fl: "flushAfterAttach ok h0 = (h1, fx)"
  shows "relay_step l h0 h1 [] fx"
proof (cases "u_liveAfterSeq (snd h0) = Some 0")
  case False
  with fl sink have "flush ok h0 = (h1, fx)"
    by (cases h0) (auto simp: flushAfterAttach_def split: prod.splits)
  with flush_delivers [OF ok sink] ok sink show ?thesis
    by (intro delivers_relay) auto
next
  case True
  obtain w u where h0: "h0 = (w, u)" by (cases h0)
  let ?u = "u\<lparr>u_liveAfterSeq := None\<rparr>"
  obtain fx' where f: "flush ok (w, ?u) = (h1, fx')" "fx = SendTo l (FLive (u_id u)) # fx'"
    using fl True sink h0 by (auto simp: flushAfterAttach_def sendLive_def split: prod.splits)
  have ok': "held_ok (w, ?u)" "u_sink (snd (w, ?u)) = Some l" "\<not> u_stalled (snd (w, ?u))"
    using ok sink by (simp_all add: h0 held_ok_def)
  from delivers_relay [OF flush_delivers [OF ok'(1-3) f(1)] ok'(1,2)]
  have r: "relay_step l (w, ?u) h1 [] fx'" .
  have "u_liveAfterSeq (snd h1) = None" "live_count fx' = 0"
    using r by (simp_all add: relay_step_def live_spec_def)
  then have "live_spec l (u_id u) (owed_seqs h0) (Some 0) (u_liveAfterSeq (snd h1)) (u_stalled (snd h1)) fx"
    unfolding live_spec_def f(2)
    by (simp, intro exI [of _ "[]"] exI [of _ fx']) (auto simp: owed_seqs_def)
  with r True f(2) show ?thesis
    by (simp add: relay_step_def h0 owed_seqs_def)
qed

lemma relay_whole:
  assumes "attach now l (w, u) = (h0, Attached p)" "bb_inv w" "u_uid u \<in> set (bb_buffers w)"
    "u_burstEndSeq u < next_seq (w, u)"
    "flushAfterAttach ok h0 = (h1, fx1)" "up_run_ok parse es h1" "up_run parse es h1 = (h2, fx2)"
  shows "relay_step l h0 h2 (relayed parse es) (fx1 @ fx2)"
proof -
  note a = attach_facts [OF assms(1-4)]
  have r1: "relay_step l h0 h1 [] fx1"
    by (rule relay_attach [OF a(1-3) assms(5)])
  from relay_run [OF relay_attached [OF r1] assms(6,7)] show ?thesis
    using r1 assms(7) relay_step_append [OF r1] by fastforce
qed

section \<open>A concrete attachment\<close>

definition sample_budget :: byte_budget where
  "sample_budget = fst (push 2 7 ''hi'' (fst (push 1 7 '':s 376'' (new_buffer 7 1000 (empty_budget 1000)))))"

definition sample_upstream :: upstream where
  "sample_upstream =
     (new_upstream (\<lambda>s. s) 7 ''sock'' ''c1'' ''inst''
        \<lparr>do_host = ''irc'', do_port = 6697, do_tls = True, do_rejectUnauthorized = True,
         do_outgoingAddr = None, do_ident = None, do_clientCert = None, do_proxy = None\<rparr>)
     \<lparr>u_state := UOpen, u_hasSocket := True, u_dialed := True, u_local := Some (''l'', 1), u_remote := Some (''r'', 2),
      u_nick := Some ''me'', u_burstDone := True, u_burstEndSeq := 1, u_nickAtBurstEnd := Some ''me'',
      u_capsAtBurstEnd := Some []\<rparr>"

definition sample_parse :: "string \<Rightarrow> irc_msg option" where
  "sample_parse line = Some \<lparr>msg_command = ''X'', msg_params = [], msg_prefix = None\<rparr>"

definition sample_events :: "up_event list" where
  "sample_events = [AppAck 2, ServerLine (\<lambda>f. True) 3 ''yo'']"

lemma sample_inv: "bb_inv sample_budget" "u_uid sample_upstream \<in> set (bb_buffers sample_budget)"
  "u_burstEndSeq sample_upstream < next_seq (sample_budget, sample_upstream)"
proof -
  have 0: "bb_inv (new_buffer 7 1000 (empty_budget 1000))" "7 \<in> set (bb_buffers (new_buffer 7 1000 (empty_budget 1000)))"
    by (rule new_buffer_inv [OF empty_budget_inv]) (simp_all add: empty_budget_def new_buffer_def)
  then have 1: "bb_inv (fst (push 1 7 '':s 376'' (new_buffer 7 1000 (empty_budget 1000))))"
    "7 \<in> set (bb_buffers (fst (push 1 7 '':s 376'' (new_buffer 7 1000 (empty_budget 1000)))))"
    by (auto intro: wf_intros)
  show "bb_inv sample_budget"
    unfolding sample_budget_def using 1 by (rule push_inv)
  show "u_uid sample_upstream \<in> set (bb_buffers sample_budget)"
    using 1 by (simp add: sample_budget_def sample_upstream_def new_upstream_def)
  show "u_burstEndSeq sample_upstream < next_seq (sample_budget, sample_upstream)"
    by (simp add: sample_budget_def sample_upstream_def new_upstream_def bb_eval)
qed

lemmas sample_eval = sample_budget_def sample_upstream_def new_upstream_def bb_eval ack_put ack_buffer_def
  ack_gap_def flushAfterAttach_def flush_def peekGap_def first_owed_def sendLive_def

lemma sample_attach:
  obtains h0 h1 h2 p fx2 where
    "attach 9 4 (sample_budget, sample_upstream) = (h0, Attached p)"
    "flushAfterAttach (\<lambda>f. True) h0 = (h1, [SendTo 4 (FLine ''c1'' 2 ''hi''), SendTo 4 (FLive ''c1'')])"
    "up_run_ok sample_parse sample_events h1" "up_run sample_parse sample_events h1 = (h2, fx2)"
    "sent_lines fx2 = [(3, ''yo'')]" "live_count fx2 = 0"
proof -
  obtain h0 p where at: "attach 9 4 (sample_budget, sample_upstream) = (h0, Attached p)"
    by (simp add: attach_def sample_upstream_def new_upstream_def Let_def)
  have h0: "h0 = (ack 1 7 sample_budget,
      sample_upstream\<lparr>u_sink := Some 4, u_stalled := False, u_detachedAt := None, u_sentSeq := 1,
        u_liveAfterSeq := Some 2\<rparr>)"
    using at by (auto simp: attach_def sample_eval Let_def numeral_2_eq_2)
  let ?fx = "[SendTo 4 (FLine ''c1'' 2 ''hi''), SendTo 4 (FLive ''c1'')]"
  have f: "flushAfterAttach (\<lambda>f. True) h0 =
     ((ack 1 7 sample_budget, (snd h0)\<lparr>u_sentSeq := 2, u_liveAfterSeq := None\<rparr>), ?fx)"
    unfolding h0 by (simp add: sample_eval)
  let ?h1 = "(ack 1 7 sample_budget, (snd h0)\<lparr>u_sentSeq := 2, u_liveAfterSeq := None\<rparr>)"
  have ok: "up_run_ok sample_parse sample_events ?h1"
    unfolding h0 by (simp add: sample_events_def)
  obtain h2 fx2 where r: "up_run sample_parse sample_events ?h1 = (h2, fx2)" by fastforce
  have "sent_lines fx2 = [(3, ''yo'')] \<and> live_count fx2 = 0"
    using r unfolding h0
    by (auto simp: numeral_3_eq_3 sample_events_def up_ack_def on_line_def sample_parse_def is_ping_def to_upper_def upper_char_def
        own_state_def tracked_def mark_burst_end_def track_def sample_eval Let_def split: if_splits)
  with at f ok r show thesis
    by (intro that) auto
qed

section \<open>Properties\<close>





end
