(* ===== verification/Upstream_Session.thy ===== *)
theory Upstream_Session imports Upstream_Delivery begin

text \<open>
  The life of one held socket (\<open>EngineUpstream\<close> in \<open>server/engine/upstream.ts\<close>): every event it
  reacts to keeps its invariant, the recorded burst stays a prefix of the registration, and what a
  replay says of channels and capabilities is what the socket has.
\<close>

section \<open>The session invariant\<close>

definition channels_ok :: "(string \<times> string) list \<Rightarrow> bool" where
  "channels_ok cs \<longleftrightarrow> distinct (map fst cs) \<and> (\<forall>(k, c) \<in> set cs. k = to_lower c)"

definition burst_bytes :: "burst_line list \<Rightarrow> int" where
  "burst_bytes bs = sum_list (map (\<lambda>b. line_bytes (br_line b)) bs)"

definition own_ok :: "upstream \<Rightarrow> bool" where
  "own_ok u \<longleftrightarrow>
     channels_ok (u_channels u) \<and>
     u_burstBytes u = burst_bytes (u_burst u) \<and>
     (\<not> u_burstDone u \<longrightarrow> u_burstBytes u \<le> MAX_BURST_BYTES) \<and>
     (u_burstDone u \<longrightarrow> u_burst u \<noteq> [] \<and> burst_bytes (butlast (u_burst u)) \<le> MAX_BURST_BYTES) \<and>
     (u_burstDone u \<longleftrightarrow> u_capsAtBurstEnd u \<noteq> None) \<and>
     distinct (u_caps u)"

definition session_ok :: "held \<Rightarrow> bool" where
  "session_ok h \<longleftrightarrow>
     bb_inv (fst h) \<and> own_ok (snd h) \<and>
     (u_state (snd h) = UClosed \<longrightarrow> u_sink (snd h) = None) \<and>
     (u_state (snd h) \<noteq> UClosed \<longrightarrow>
        u_uid (snd h) \<in> set (bb_buffers (fst h)) \<and>
        u_sentSeq (snd h) < next_seq h \<and> u_burstEndSeq (snd h) < next_seq h)"

lemma set_alist_delete: "set (AList.delete k xs) \<subseteq> set xs"
  by (auto simp: AList.delete_eq)

lemma channels_ok_simps [simp]:
  "channels_ok []"
  "channels_ok cs \<Longrightarrow> channels_ok (AList.update (to_lower c) c cs)"
  "channels_ok cs \<Longrightarrow> channels_ok (AList.delete k cs)"
  using set_alist_update [of "to_lower c" c cs] set_alist_delete [of k cs]
  by (auto simp: channels_ok_def distinct_update distinct_delete split: prod.splits)

lemma burst_bytes_simps [simp]:
  "burst_bytes [] = 0" "burst_bytes (bs @ [b]) = burst_bytes bs + line_bytes (br_line b)"
  by (simp_all add: burst_bytes_def)

subsection \<open>Own state keeps it\<close>

text \<open>\<open>same_burst u v\<close>: the burst and its baselines are untouched.\<close>

definition same_burst :: "upstream \<Rightarrow> upstream \<Rightarrow> bool" where
  "same_burst u v \<longleftrightarrow>
     u_burst v = u_burst u \<and> u_burstBytes v = u_burstBytes u \<and> u_burstFull v = u_burstFull u \<and>
     u_burstDone v = u_burstDone u \<and> u_capsAtBurstEnd v = u_capsAtBurstEnd u \<and>
     u_burstEndSeq v = u_burstEndSeq u \<and> u_state v = u_state u"

lemma same_burst_noteHostmask: "same_burst u (noteHostmask p u)"
  by (auto simp: same_burst_def noteHostmask_def split: option.splits)

lemma noteHostmask_fields [simp]: "u_channels (noteHostmask p u) = u_channels u" "u_caps (noteHostmask p u) = u_caps u"
  by (auto simp: noteHostmask_def split: option.splits)

lemma same_burst_track: "same_burst u (snd (track c p ps u))"
  using same_burst_noteHostmask [of _ p] by (auto simp: track_def Let_def same_burst_def)

lemma track_channels:
  "channels_ok (u_channels u) \<Longrightarrow> channels_ok (u_channels (snd (track c p ps u)))"
  "u_caps (snd (track c p ps u)) = u_caps u"
  by (auto simp: track_def Let_def)

lemma same_burst_trackCaps: "same_burst u (trackCaps ps u)" "u_channels (trackCaps ps u) = u_channels u"
  by (auto simp: same_burst_def trackCaps_def Let_def)

lemma distinct_track_cap: "distinct cs \<Longrightarrow> distinct (track_cap d t cs)"
  by (auto simp: track_cap_def Let_def intro: wf_intros)

lemma distinct_trackCaps: "distinct (u_caps u) \<Longrightarrow> distinct (u_caps (trackCaps ps u))"
proof -
  have "distinct cs \<Longrightarrow> distinct (fold (track_cap d) ts cs)" for d ts cs
    by (induction ts arbitrary: cs) (auto simp: distinct_track_cap)
  then show "distinct (u_caps u) \<Longrightarrow> distinct (u_caps (trackCaps ps u))"
    by (auto simp: trackCaps_def Let_def)
qed

lemma own_ok_frame:
  "same_burst u v \<Longrightarrow> own_ok u \<Longrightarrow> channels_ok (u_channels v) \<Longrightarrow> distinct (u_caps v) \<Longrightarrow> own_ok v"
  unfolding same_burst_def own_ok_def by auto

lemma own_ok_upd [simp]:
  "own_ok (u\<lparr>u_sentSeq := x0\<rparr>) = own_ok u"
  "own_ok (u\<lparr>u_stalled := x1\<rparr>) = own_ok u"
  "own_ok (u\<lparr>u_liveAfterSeq := x2\<rparr>) = own_ok u"
  "own_ok (u\<lparr>u_sink := x3\<rparr>) = own_ok u"
  "own_ok (u\<lparr>u_detachedAt := x4\<rparr>) = own_ok u"
  "own_ok (u\<lparr>u_pingsAnsweredDetached := x5\<rparr>) = own_ok u"
  "own_ok (u\<lparr>u_closing := x6\<rparr>) = own_ok u"
  "own_ok (u\<lparr>u_quietClose := x7\<rparr>) = own_ok u"
  "own_ok (u\<lparr>u_closeTimer := x8\<rparr>) = own_ok u"
  "own_ok (u\<lparr>u_inbuf := x9\<rparr>) = own_ok u"
  "own_ok (u\<lparr>u_lastError := x10\<rparr>) = own_ok u"
  "own_ok (u\<lparr>u_identdId := x11\<rparr>) = own_ok u"
  "own_ok (u\<lparr>u_state := x12\<rparr>) = own_ok u"
  "own_ok (u\<lparr>u_hasSocket := x13\<rparr>) = own_ok u"
  "own_ok (u\<lparr>u_local := x14\<rparr>) = own_ok u"
  "own_ok (u\<lparr>u_remote := x15\<rparr>) = own_ok u"
  "own_ok (u\<lparr>u_opts := x16\<rparr>) = own_ok u"
  "own_ok (u\<lparr>u_dialed := x17\<rparr>) = own_ok u"
  "own_ok (u\<lparr>u_proxyDialPending := x18\<rparr>) = own_ok u"
  "own_ok (u\<lparr>u_burstEndSeq := x19\<rparr>) = own_ok u"
  by (simp_all add: own_ok_def)

lemma recordBurst_cases:
  "recordBurst l ps f u =
     (if u_burstFull u \<or> MAX_BURST_BYTES < u_burstBytes u + line_bytes l
      then if f then u\<lparr>u_burstFull := True, u_burst := u_burst u @ [\<lparr>br_line = l, br_chan = channelNamed u ps\<rparr>],
                       u_burstBytes := u_burstBytes u + line_bytes l\<rparr>
           else u\<lparr>u_burstFull := True\<rparr>
      else u\<lparr>u_burst := u_burst u @ [\<lparr>br_line = l, br_chan = channelNamed u ps\<rparr>],
             u_burstBytes := u_burstBytes u + line_bytes l\<rparr>)"
  by (simp add: recordBurst_def Let_def channelNamed_def)

lemma tracked_facts:
  "same_burst u (snd (tracked msg u))"
  "channels_ok (u_channels u) \<Longrightarrow> channels_ok (u_channels (snd (tracked msg u)))"
  "distinct (u_caps u) \<Longrightarrow> distinct (u_caps (snd (tracked msg u)))"
  "ends_burst msg \<Longrightarrow> \<not> fst (tracked msg u)"
proof -
  let ?c = "to_upper (msg_command msg)" and ?ps = "msg_params msg"
  define u1 where "u1 = (if ?c = ''001''
                then u\<lparr>u_nick := truthy (nth_param 0 ?ps), u_serverName := truthy (msg_prefix msg)\<rparr> else u)"
  define u2 where "u2 = (if ?c = ''CAP'' then trackCaps ?ps u1 else u1)"
  have eq: "tracked msg u = (if u_nick u2 \<noteq> None then track ?c (msg_prefix msg) ?ps u2 else (False, u2))"
    unfolding tracked_def u2_def u1_def by (simp add: Let_def)
  have u1: "same_burst u u1" "u_channels u1 = u_channels u" "u_caps u1 = u_caps u"
    by (simp_all add: u1_def same_burst_def)
  have u2: "same_burst u u2" "u_channels u2 = u_channels u" "distinct (u_caps u) \<Longrightarrow> distinct (u_caps u2)"
    using u1 same_burst_trackCaps [where ps = ?ps and u = u1] distinct_trackCaps [of u1 ?ps]
    by (auto simp: u2_def same_burst_def)
  show "same_burst u (snd (tracked msg u))"
    using u2(1) same_burst_track [of u2 ?c "msg_prefix msg" ?ps] unfolding eq by (auto simp: same_burst_def)
  show "channels_ok (u_channels u) \<Longrightarrow> channels_ok (u_channels (snd (tracked msg u)))"
    unfolding eq using u2(2) by (simp add: track_channels)
  show "distinct (u_caps u) \<Longrightarrow> distinct (u_caps (snd (tracked msg u)))"
    unfolding eq using u2(3) by (simp add: track_channels)
  show "ends_burst msg \<Longrightarrow> \<not> fst (tracked msg u)"
    unfolding eq by (auto simp: ends_burst_def track_def Let_def)
qed

lemma own_ok_own_state:
  assumes "own_ok u"
  shows "own_ok (fst (own_state msg line u))"
proof -
  obtain own u3 where t: "tracked msg u = (own, u3)" by fastforce
  note tf = tracked_facts [where msg = msg and u = u, unfolded t fst_conv snd_conv]
  have u3: "own_ok u3"
    using own_ok_frame [OF tf(1) assms] tf(2,3) assms unfolding own_ok_def by blast
  let ?ub = "if own then u3 else recordBurst line (msg_params msg) (ends_burst msg) u3"
  show ?thesis
  proof (cases "u_burstDone u3")
    case True
    with u3 show ?thesis by (simp add: own_state_def t)
  next
    case False
    with u3 tf(4) show ?thesis
      unfolding own_state_def t
      by (cases "ends_burst msg") (auto simp: Let_def recordBurst_cases own_ok_def end_burst_def)
  qed
qed

section \<open>Every event keeps the session in order\<close>

datatype held_op =
    ODial
  | OTcpConnect "nat option" endpoint endpoint
  | OOpen "nat option" endpoint endpoint
  | OTunnelUp endpoint endpoint
  | ODialFailed string
  | OData "string \<Rightarrow> irc_msg option" "engine_frame \<Rightarrow> bool" int string
  | OTimeout
  | OError string
  | OAck nat
  | OResume "engine_frame \<Rightarrow> bool"
  | OAttach int nat
  | OFlushAfterAttach "engine_frame \<Rightarrow> bool"
  | ODetach int
  | OSilence int
  | OClose
  | OQuit string
  | ODestroy
  | OClosed
  | OPressure int nat string

fun held_step :: "held_op \<Rightarrow> held \<Rightarrow> held" where
  "held_step ODial h = (case dial (snd h) of Some u \<Rightarrow> (fst h, u) | None \<Rightarrow> h)"
| "held_step (OTcpConnect n a b) h = (fst h, fst (on_tcp_connect n a b (snd h)))"
| "held_step (OOpen n a b) h = (fst h, fst (on_open n a b (snd h)))"
| "held_step (OTunnelUp a b) h = fst (proxy_tunnel_up a b h)"
| "held_step (ODialFailed why) h = fst (proxy_dial_failed why h)"
| "held_step (OData parse ok now chunk) h = fst (on_data parse ok now chunk h)"
| "held_step OTimeout h = (fst h, fst (on_timeout (snd h)))"
| "held_step (OError why) h = (fst h, on_error why (snd h))"
| "held_step (OAck s) h = up_ack s h"
| "held_step (OResume ok) h = fst (resume ok h)"
| "held_step (OAttach now l) h = fst (attach now l h)"
| "held_step (OFlushAfterAttach ok) h = fst (flushAfterAttach ok h)"
| "held_step (ODetach now) h = (fst h, detach now (snd h))"
| "held_step (OSilence now) h = (fst h, silence now (snd h))"
| "held_step OClose h = fst (close_up h)"
| "held_step (OQuit m) h = fst (quit m h)"
| "held_step ODestroy h = fst (destroy h)"
| "held_step OClosed h = fst (on_close h)"
| "held_step (OPressure now j line) h = (fst (push now j line (fst h)), snd h)"

text \<open>A socket neither opens nor delivers data after its \<open>close\<close>, and the engine forgets a closed
  one, so nobody attaches to it or acknowledges its lines.\<close>

fun held_op_ok :: "held_op \<Rightarrow> held \<Rightarrow> bool" where
  "held_op_ok (OOpen n a b) h = (u_state (snd h) \<noteq> UClosed)"
| "held_op_ok (OData parse ok now chunk) h = (u_state (snd h) \<noteq> UClosed)"
| "held_op_ok (OAck s) h = (u_state (snd h) \<noteq> UClosed)"
| "held_op_ok (OResume ok) h = (u_state (snd h) \<noteq> UClosed)"
| "held_op_ok (OAttach now l) h = (u_state (snd h) \<noteq> UClosed)"
| "held_op_ok (OFlushAfterAttach ok) h = (u_state (snd h) \<noteq> UClosed)"
| "held_op_ok (OPressure now j line) h = (j \<in> set (bb_buffers (fst h)) \<and> j \<noteq> u_uid (snd h))"
| "held_op_ok _ h = True"

fun held_run :: "held_op list \<Rightarrow> held \<Rightarrow> held" where
  "held_run [] h = h"
| "held_run (a # as) h = held_run as (held_step a h)"

fun held_run_ok :: "held_op list \<Rightarrow> held \<Rightarrow> bool" where
  "held_run_ok [] h = True"
| "held_run_ok (a # as) h = (held_op_ok a h \<and> held_run_ok as (held_step a h))"

text \<open>What the invariant reads of an object.\<close>

definition same_own :: "upstream \<Rightarrow> upstream \<Rightarrow> bool" where
  "same_own u v \<longleftrightarrow> same_burst u v \<and> u_channels v = u_channels u \<and> u_caps v = u_caps u \<and>
     u_uid v = u_uid u"

lemma session_frame:
  assumes "session_ok (w, u)" "same_own u v" "u_sentSeq v = u_sentSeq u"
    "u_state v = UClosed \<longrightarrow> u_sink v = None"
  shows "session_ok (w, v)"
  using assms own_ok_frame [of u v] unfolding session_ok_def same_own_def same_burst_def own_ok_def by auto

lemma session_on_close: "session_ok h \<Longrightarrow> session_ok (fst (on_close h))"
  by (cases h) (auto simp: on_close_def session_ok_def own_ok_def intro: wf_intros)

abbreviation live_session :: "held \<Rightarrow> bool" where
  "live_session h \<equiv> session_ok h \<and> u_state (snd h) \<noteq> UClosed"

lemma live_held: "live_session h \<Longrightarrow> held_ok h"
  by (simp add: session_ok_def held_ok_def)

lemma progress_same_own: "progress u v \<Longrightarrow> same_own u v"
  by (auto simp: progress_def same_own_def same_burst_def)

lemma session_flush:
  assumes "live_session h"
  shows "live_session (fst (flush ok h))"
proof -
  obtain w u where h: "h = (w, u)" by (cases h)
  show ?thesis
  proof (cases "u_stalled u \<or> u_sink u = None")
    case True
    then have "flush ok h = (h, [])"
      unfolding h flush_def by (auto split: option.splits)
    with assms show ?thesis by simp
  next
    case False
    then obtain l where l: "u_sink (snd h) = Some l" "\<not> u_stalled (snd h)"
      unfolding h by auto
    obtain h' fx where f: "flush ok h = (h', fx)" by fastforce
    note d = flush_delivers [OF live_held [OF assms] l f]
    note so = progress_same_own [OF deliversD(4) [OF d]] and n = deliversD(2) [OF d]
    have "held_ok h'" by (rule deliversD(1) [OF d])
    moreover have "own_ok (snd h')"
      using own_ok_frame [of "snd h" "snd h'"] so assms unfolding same_own_def session_ok_def own_ok_def by auto
    ultimately show ?thesis
      using assms so n unfolding f session_ok_def held_ok_def same_own_def same_burst_def by simp
  qed
qed

lemma session_open_frame:
  assumes "live_session (w, u)" "same_own u v" "u_sentSeq v = u_sentSeq u"
  shows "live_session (w, v)"
  using session_frame [OF conjunct1 [OF assms(1)] assms(2,3)] assms(1,2)
  by (simp add: same_own_def same_burst_def)

lemma session_resume: "live_session h \<Longrightarrow> live_session (fst (resume ok h))"
  unfolding resume_def by (rule session_flush) (simp add: session_ok_def)

lemma session_flushAfterAttach: "live_session h \<Longrightarrow> live_session (fst (flushAfterAttach ok h))"
proof -
  assume h: "live_session h"
  obtain w u where wu: "h = (w, u)" by (cases h)
  let ?v = "u\<lparr>u_liveAfterSeq := None\<rparr>"
  have "live_session (w, ?v)"
    using h by (simp add: wu session_ok_def)
  note s = session_flush [OF this, of ok] session_flush [OF h, of ok]
  obtain h1 fx1 h2 fx2 where "flush ok (w, ?v) = (h1, fx1)" "flush ok (w, u) = (h2, fx2)" by fastforce
  with s show ?thesis
    unfolding wu flushAfterAttach_def sendLive_def by (cases "u_sink u") simp_all
qed

lemma ack_simps [simp]:
  "bb_buffers (ack s i w) = bb_buffers w"
  "lb_nextSeq (bb_heap (ack s i w) j) = lb_nextSeq (bb_heap w j)"
  unfolding ack_put by (simp_all) (simp add: ack_buffer_def)

lemma session_ack: "live_session h \<Longrightarrow> live_session (up_ack s h)"
  by (auto simp: up_ack_def session_ok_def ack_inv)

lemma session_attach:
  assumes "live_session (w, u)"
  shows "live_session (fst (attach now l (w, u)))"
proof -
  let ?u1 = "u\<lparr>u_sink := Some l, u_stalled := False, u_detachedAt := None\<rparr>"
  have u1: "live_session (w, ?u1)"
    using assms by (rule session_open_frame) (simp_all add: same_own_def same_burst_def)
  have zero: "live_session (w, ?u1\<lparr>u_sentSeq := 0\<rparr>)"
    using u1 by (auto simp: session_ok_def)
  have live: "live_session (ack (u_burstEndSeq u) (u_uid u) w,
      ?u1\<lparr>u_sentSeq := u_burstEndSeq u, u_liveAfterSeq := t\<rparr>)" for t
    using u1 by (auto simp: session_ok_def ack_inv)
  from u1 zero live show ?thesis
    unfolding attach_def by (simp add: Let_def split: option.split)
qed

lemma session_own_state:
  assumes "live_session (w, u)"
  shows "live_session (w, fst (own_state msg line u))" "u_uid (fst (own_state msg line u)) = u_uid u"
    "u_burstEndSeq (fst (own_state msg line u)) = u_burstEndSeq u"
proof -
  let ?v = "fst (own_state msg line u)"
  have k: "keeps u ?v" by (rule keeps_own_state)
  obtain own u3 where t: "tracked msg u = (own, u3)" by fastforce
  have "u_state ?v = u_state u3 \<and> u_burstEndSeq ?v = u_burstEndSeq u3"
    by (auto simp: own_state_def t Let_def end_burst_def recordBurst_cases)
  then have sb: "u_state ?v = u_state u" "u_burstEndSeq ?v = u_burstEndSeq u"
    using tracked_facts(1) [of u msg] t by (simp_all add: same_burst_def)
  have "own_ok ?v"
    by (rule own_ok_own_state) (use assms in \<open>simp add: session_ok_def\<close>)
  with k sb assms show "live_session (w, ?v)" "u_uid ?v = u_uid u" "u_burstEndSeq ?v = u_burstEndSeq u"
    by (simp_all add: session_ok_def keeps_def)
qed

lemma session_on_line:
  assumes h: "live_session h"
  shows "live_session (fst (on_line parse ok now line h))"
proof -
  obtain w u where wu: "h = (w, u)" by (cases h)
  note h = h [unfolded wu]
  show ?thesis
  proof (cases "parse line")
    case (Some msg)
    show ?thesis
    proof (cases "is_ping msg")
      case True
      have "live_session (w, u\<lparr>u_pingsAnsweredDetached := n\<rparr>)" for n
        using h by (rule session_open_frame) (simp_all add: same_own_def same_burst_def)
      with Some True h show ?thesis by (simp add: on_line_def wu)
    next
      case False
      obtain u4 fx0 where u4: "own_state msg line u = (u4, fx0)" by fastforce
      obtain w1 seq where p: "push now (u_uid u) line w = (w1, seq)" by fastforce
      note os = session_own_state [OF h, of msg line, unfolded u4 fst_conv]
      have k: "keeps u (mark_burst_end seq u4)"
        using keeps_own_state [of u msg line] keeps_mark keeps_trans u4 by fastforce
      note pf = pushed_facts [OF live_held [OF h] k p]
      have "u_burstEndSeq (mark_burst_end seq u4) < next_seq (w1, mark_burst_end seq u4)"
        using pf(1,3) os(3) h by (auto simp: mark_burst_end_def session_ok_def)
      moreover have "own_ok (mark_burst_end seq u4)" "u_state (mark_burst_end seq u4) \<noteq> UClosed"
        using os(1) by (auto simp: mark_burst_end_def session_ok_def)
      ultimately have "live_session (w1, mark_burst_end seq u4)"
        using pf(2) by (simp add: session_ok_def held_ok_def)
      note s = session_flush [OF this, of ok]
      obtain h1 fx1 where "flush ok (w1, mark_burst_end seq u4) = (h1, fx1)" by fastforce
      with s show ?thesis
        unfolding wu on_line_def using Some False u4 p by (simp add: Let_def)
    qed
  qed (use h in \<open>simp add: on_line_def wu\<close>)
qed

lemma session_dropPeer: "live_session (w, u) \<Longrightarrow> live_session (w, fst (dropPeer why u))"
  by (simp add: dropPeer_def session_ok_def)

lemma session_inbuf: "live_session (w, u) \<Longrightarrow> live_session (w, u\<lparr>u_inbuf := b\<rparr>)"
  by (simp add: session_ok_def)

lemma session_data_lines: "live_session h \<Longrightarrow> live_session (fst (data_lines parse ok now buf h))"
proof (induction parse ok now buf h rule: data_lines.induct)
  case (1 parse ok now buf h)
  obtain w u where wu: "h = (w, u)" by (cases h)
  show ?case
  proof (cases "index_of newline buf")
    case None
    with session_dropPeer [OF session_inbuf [OF "1.prems" [unfolded wu]]] session_inbuf [OF "1.prems" [unfolded wu]]
    show ?thesis unfolding data_lines.simps [of parse ok now buf h] by (simp add: wu Let_def split_beta)
  next
    case (Some nl)
    let ?line = "strip_cr (take nl buf)" and ?rest = "drop (Suc nl) buf"
    consider "MAX_IRC_LINE < length ?line" | "\<not> MAX_IRC_LINE < length ?line" "?line = ''''" |
      "\<not> MAX_IRC_LINE < length ?line" "?line \<noteq> ''''" by blast
    then show ?thesis
    proof cases
      case 1
      with Some session_dropPeer [OF session_inbuf [OF "1.prems" [unfolded wu]]]
      show ?thesis unfolding data_lines.simps [of parse ok now buf h] by (simp add: wu Let_def split_beta)
    next
      case 2
      with Some "1.IH"(1) [OF Some refl refl] "1.prems" show ?thesis
        unfolding data_lines.simps [of parse ok now buf h] by (simp add: Let_def)
    next
      case 3
      obtain h1 fx where l: "on_line parse ok now ?line h = (h1, fx)" by fastforce
      have "live_session h1"
        using session_on_line [OF "1.prems", of parse ok now ?line] l by simp
      with "1.IH"(2) [OF Some refl refl 3 l [symmetric] refl] have "live_session (fst (data_lines parse ok now ?rest h1))" by blast
      with Some 3 l show ?thesis
        unfolding data_lines.simps [of parse ok now buf h] by (simp add: Let_def split_beta)
    qed
  qed
qed

lemma session_destroy: "session_ok h \<Longrightarrow> session_ok (fst (destroy h))"
proof -
  assume h: "session_ok h"
  obtain w u where wu: "h = (w, u)" by (cases h)
  have "session_ok (w, u\<lparr>u_closing := True\<rparr>)" using h by (simp add: wu session_ok_def)
  with session_on_close [OF this] show ?thesis
    by (simp add: destroy_def wu Let_def split_beta)
qed

lemma session_close_up: "session_ok h \<Longrightarrow> session_ok (fst (close_up h))"
proof -
  assume h: "session_ok h"
  obtain w u where wu: "h = (w, u)" by (cases h)
  have "session_ok (w, u\<lparr>u_closing := True, u_quietClose := True\<rparr>)" using h by (simp add: wu session_ok_def)
  from session_destroy [OF this] h show ?thesis
    by (simp add: close_up_def wu Let_def split_beta session_ok_def)
qed

lemma session_dial: "session_ok (w, u) \<Longrightarrow> dial u = Some v \<Longrightarrow> session_ok (w, v)"
  by (auto simp: dial_def Let_def session_ok_def split: if_splits)

lemma session_tcp: "session_ok (w, u) \<Longrightarrow> session_ok (w, fst (on_tcp_connect n a b u))"
  by (auto simp: on_tcp_connect_def Let_def session_ok_def split: option.splits)

lemma tcp_state: "u_state (fst (on_tcp_connect n a b u)) = u_state u"
  by (auto simp: on_tcp_connect_def Let_def split: option.splits)

lemma session_open: "live_session (w, u) \<Longrightarrow> session_ok (w, fst (on_open n a b u))"
proof -
  assume h: "live_session (w, u)"
  let ?u1 = "u\<lparr>u_state := UOpen\<rparr>"
  have u1: "session_ok (w, ?u1)" using h by (simp add: session_ok_def)
  define u2 where "u2 = (if u_local ?u1 = None \<or> u_remote ?u1 = None then fst (on_tcp_connect n a b ?u1) else ?u1)"
  have "session_ok (w, u2)" "u_state u2 = UOpen"
    using u1 session_tcp [OF u1] tcp_state [of n a b ?u1] by (simp_all add: u2_def)
  then have "session_ok (w, u2\<lparr>u_local := x, u_remote := y\<rparr>)" for x y
    by (simp add: session_ok_def)
  moreover have "fst (on_open n a b u) = u \<or> (\<exists>x y. fst (on_open n a b u) = u2\<lparr>u_local := x, u_remote := y\<rparr>)"
    unfolding on_open_def u2_def by (auto simp: Let_def split_beta)
  ultimately show ?thesis using h by auto
qed

lemma session_tunnel: "session_ok h \<Longrightarrow> session_ok (fst (proxy_tunnel_up a b h))"
proof -
  assume h: "session_ok h"
  obtain w u where wu: "h = (w, u)" by (cases h)
  have "session_ok (w, u\<lparr>u_proxyDialPending := False\<rparr>)" using h by (simp add: wu session_ok_def)
  from session_on_close [OF this] h show ?thesis
    by (simp add: proxy_tunnel_up_def wu Let_def split_beta session_ok_def)
qed

lemma session_dial_failed: "session_ok h \<Longrightarrow> session_ok (fst (proxy_dial_failed why h))"
proof -
  assume h: "session_ok h"
  obtain w u where wu: "h = (w, u)" by (cases h)
  have "session_ok (w, u\<lparr>u_proxyDialPending := False, u_lastError := Some why\<rparr>)"
    using h by (simp add: wu session_ok_def)
  from session_on_close [OF this] this show ?thesis
    by (simp add: proxy_dial_failed_def wu Let_def)
qed

lemma session_detach: "session_ok (w, u) \<Longrightarrow> session_ok (w, detach now u)"
  by (simp add: detach_def session_ok_def)

lemma session_pressure:
  assumes "session_ok h" "j \<in> set (bb_buffers (fst h))" "j \<noteq> u_uid (snd h)"
  shows "session_ok (fst (push now j line (fst h)), snd h)"
proof -
  have inv: "bb_inv (fst h)" using assms(1) by (simp add: session_ok_def)
  note sh = push_sheds [OF inv assms(2), of line now]
  show ?thesis
    using assms inv shedD(4) [OF sh, of "u_uid (snd h)"] by (auto simp: session_ok_def intro: wf_intros)
qed

lemma session_step: "session_ok h \<Longrightarrow> held_op_ok a h \<Longrightarrow> session_ok (held_step a h)"
proof (cases h)
  fix w u assume h: "session_ok h" "held_op_ok a h" and wu: "h = (w, u)"
  show ?thesis
  proof (cases a)
    case ODial with h wu show ?thesis by (auto intro: session_dial split: option.split)
  next case (OData p ok now c) with h wu show ?thesis by (simp add: on_data_def session_data_lines)
  next case (OQuit m) with h session_close_up [of h] show ?thesis by (simp add: quit_def split_beta Let_def)
  next case (OAttach now l) with h wu session_attach [of w u now l] show ?thesis by simp
  next case (OSilence now) with h wu session_detach [of w u now] show ?thesis
      by (simp add: silence_def session_ok_def)
  next case OTimeout with h wu show ?thesis by (auto simp: on_timeout_def dropPeer_def session_ok_def)
  next case (OPressure now j line)
    with h wu session_pressure [OF h(1), of j now line] show ?thesis by simp
  next case (OError why) with h wu show ?thesis by (simp add: on_error_def session_ok_def)
  qed (use h wu in \<open>auto simp: session_tcp session_open session_tunnel session_dial_failed session_ack
         session_resume session_flushAfterAttach session_detach session_close_up session_destroy
         session_on_close\<close>)
qed

lemma session_run: "session_ok h \<Longrightarrow> held_run_ok as h \<Longrightarrow> session_ok (held_run as h)"
  by (induction as arbitrary: h) (auto simp: session_step)

lemma session_new:
  assumes "bb_inv w" "uid \<notin> set (bb_buffers w)"
  shows "session_ok (new_buffer uid m w, new_upstream digest uid sock i inst opts)"
  using new_buffer_inv [OF assms, of m] assms
  by (simp add: session_ok_def own_ok_def new_upstream_def new_buffer_def MAX_BURST_BYTES_def)

section \<open>The recorded burst\<close>

text \<open>The registration lines the recorder is offered: all up to the end of the burst, own channel
  movement left out.\<close>

fun own_run :: "(irc_msg \<times> string) list \<Rightarrow> upstream \<Rightarrow> upstream" where
  "own_run [] u = u"
| "own_run ((msg, line) # ms) u = own_run ms (fst (own_state msg line u))"

fun burst_lines :: "(irc_msg \<times> string) list \<Rightarrow> upstream \<Rightarrow> string list" where
  "burst_lines [] u = []"
| "burst_lines ((msg, line) # ms) u =
     (if u_burstDone u then []
      else (if fst (tracked msg u) then [] else [line]) @ burst_lines ms (fst (own_state msg line u)))"

lemma own_state_done: "u_burstDone u \<Longrightarrow> u_burst (fst (own_state msg line u)) = u_burst u \<and>
   u_burstDone (fst (own_state msg line u))"
  using tracked_facts(1) [of u msg] by (simp add: own_state_def Let_def split_beta same_burst_def)

lemma own_run_done: "u_burstDone u \<Longrightarrow> u_burst (own_run ms u) = u_burst u \<and> u_burstDone (own_run ms u)"
  by (induction ms u rule: own_run.induct) (auto simp: own_state_done)

lemma burst_lines_done: "u_burstDone u \<Longrightarrow> burst_lines ms u = []"
  by (cases ms) auto

text \<open>One line offered to an open burst.\<close>

lemma own_state_open:
  fixes u :: upstream and line :: string and msg :: irc_msg
  assumes "\<not> u_burstDone u"
  defines "full \<equiv> u_burstFull u \<or> MAX_BURST_BYTES < u_burstBytes u + line_bytes line"
  shows "u_burstDone (fst (own_state msg line u)) = ends_burst msg"
    and "map br_line (u_burst (fst (own_state msg line u))) =
      map br_line (u_burst u) @ (if fst (tracked msg u) \<or> full \<and> \<not> ends_burst msg then [] else [line])"
    and "u_burstFull (fst (own_state msg line u)) = (if fst (tracked msg u) then u_burstFull u else full)"
    and "u_burstBytes (fst (own_state msg line u)) = u_burstBytes u +
      (if fst (tracked msg u) \<or> full \<and> \<not> ends_burst msg then 0 else line_bytes line)"
proof -
  obtain own u3 where t: "tracked msg u = (own, u3)" by fastforce
  have sb: "u_burst u3 = u_burst u" "u_burstBytes u3 = u_burstBytes u" "u_burstFull u3 = u_burstFull u"
    "\<not> u_burstDone u3"
    using tracked_facts(1) [of u msg] t assms(1) by (simp_all add: same_burst_def)
  note e = tracked_facts(4) [of msg u, unfolded t fst_conv]
  show "u_burstDone (fst (own_state msg line u)) = ends_burst msg"
    "map br_line (u_burst (fst (own_state msg line u))) =
      map br_line (u_burst u) @ (if fst (tracked msg u) \<or> full \<and> \<not> ends_burst msg then [] else [line])"
    "u_burstFull (fst (own_state msg line u)) = (if fst (tracked msg u) then u_burstFull u else full)"
    "u_burstBytes (fst (own_state msg line u)) = u_burstBytes u +
      (if fst (tracked msg u) \<or> full \<and> \<not> ends_burst msg then 0 else line_bytes line)"
    using sb e unfolding own_state_def t full_def
    by (auto simp: Let_def recordBurst_cases end_burst_def)
qed

lemma burst_lines_end:
  "\<not> u_burstDone u \<Longrightarrow> u_burstDone (own_run ms u) \<Longrightarrow> burst_lines ms u \<noteq> []"
proof (induction ms u rule: own_run.induct)
  case (2 msg line ms u)
  then show ?case
    using own_state_open(1) [of u msg line] tracked_facts(4) [of msg u] by (auto split: if_splits)
qed simp

lemma own_run_burst:
  "\<not> u_burstDone u \<Longrightarrow>
   \<exists>n. (u_burstFull u \<longrightarrow> n = 0) \<and>
     map br_line (u_burst (own_run ms u)) = map br_line (u_burst u) @
       (if u_burstDone (own_run ms u)
        then take n (butlast (burst_lines ms u)) @ [last (burst_lines ms u)]
        else take n (burst_lines ms u))"
proof (induction ms u rule: own_run.induct)
  case (2 msg line ms u)
  let ?v = "fst (own_state msg line u)"
  note o = own_state_open [OF 2(2), of msg line]
  show ?case
  proof (cases "ends_burst msg")
    case True
    then have "\<not> fst (tracked msg u)" by (rule tracked_facts(4))
    with True o own_run_done [of ?v ms] burst_lines_done [of ?v ms] 2(2) show ?thesis
      by simp
  next
    case False
    with o(1) have "\<not> u_burstDone ?v" by simp
    from "2.IH" [OF this] obtain n where n: "u_burstFull ?v \<longrightarrow> n = 0"
      "map br_line (u_burst (own_run ms ?v)) = map br_line (u_burst ?v) @
       (if u_burstDone (own_run ms ?v) then take n (butlast (burst_lines ms ?v)) @ [last (burst_lines ms ?v)]
        else take n (burst_lines ms ?v))" by blast
    have ne: "u_burstDone (own_run ms ?v) \<Longrightarrow> burst_lines ms ?v \<noteq> []"
      by (rule burst_lines_end [OF \<open>\<not> u_burstDone ?v\<close>])
    consider "fst (tracked msg u)" | "\<not> fst (tracked msg u)" "u_burstFull ?v" |
      "\<not> fst (tracked msg u)" "\<not> u_burstFull ?v" by blast
    then show ?thesis
    proof cases
      case 1
      with n o False 2(2) show ?thesis by (intro exI [of _ n]) simp
    next
      case 2
      with n o False ne \<open>\<not> u_burstDone u\<close> show ?thesis by (intro exI [of _ 0]) auto
    next
      case 3
      with n o False ne \<open>\<not> u_burstDone u\<close> show ?thesis by (intro exI [of _ "Suc n"]) auto
    qed
  qed
qed auto

text \<open>When everything fits, nothing is cut.\<close>

lemma own_run_burst_fits:
  "\<not> u_burstDone u \<Longrightarrow> \<not> u_burstFull u \<Longrightarrow>
   u_burstBytes u + sum_list (map line_bytes (burst_lines ms u)) \<le> MAX_BURST_BYTES \<Longrightarrow>
   map br_line (u_burst (own_run ms u)) = map br_line (u_burst u) @ burst_lines ms u"
proof (induction ms u rule: own_run.induct)
  case (2 msg line ms u)
  let ?v = "fst (own_state msg line u)"
  note o = own_state_open [OF 2(2), of msg line]
  have nn: "0 \<le> sum_list (map line_bytes ls)" for ls
    using line_bytes_pos by (intro sum_list_nonneg) (auto intro: order_trans [of 0 2])
  have fits: "\<not> fst (tracked msg u) \<Longrightarrow> u_burstBytes u + line_bytes line \<le> MAX_BURST_BYTES"
    using 2(2,4) nn [of "burst_lines ms ?v"] by simp
  show ?case
  proof (cases "ends_burst msg")
    case True
    then have "\<not> fst (tracked msg u)" by (rule tracked_facts(4))
    with True o own_run_done [of ?v ms] burst_lines_done [of ?v ms] 2(2) show ?thesis by simp
  next
    case False
    have "map br_line (u_burst (own_run ms ?v)) = map br_line (u_burst ?v) @ burst_lines ms ?v"
    proof (rule "2.IH")
      show "\<not> u_burstDone ?v" using o(1) False by simp
      show "\<not> u_burstFull ?v"
        using o(3) fits 2(3) by (cases "fst (tracked msg u)") simp_all
      show "u_burstBytes ?v + sum_list (map line_bytes (burst_lines ms ?v)) \<le> MAX_BURST_BYTES"
        using o(4) fits 2(2-4) by (cases "fst (tracked msg u)") (simp_all add: add.assoc)
    qed
    with o(2) False fits 2(2,3) show ?thesis by (cases "fst (tracked msg u)") simp_all
  qed
qed simp

section \<open>Capabilities across a replay\<close>

definition cap_token :: "string \<Rightarrow> bool" where
  "cap_token c \<longleftrightarrow> c \<noteq> '''' \<and> CHR '' '' \<notin> set c \<and> CHR ''='' \<notin> set c \<and> \<not> starts_with c ''-''"

lemma track_cap_token: "cap_token c \<Longrightarrow> track_cap d c cs = (if d then set_del c cs else set_add c cs)"
  by (cases c) (auto simp: cap_token_def track_cap_def Let_def split_on_notin starts_with_def)

lemma set_fold_track_cap:
  "\<forall>c \<in> set ts. cap_token c \<Longrightarrow>
   set (fold (track_cap d) ts cs) = (if d then set cs - set ts else set cs \<union> set ts)"
  by (induction ts arbitrary: cs) (auto simp: track_cap_token)

text \<open>What the line \<open>CAP target sub :tokens\<close> does to the set of a reader.\<close>

definition read_cap :: "string \<Rightarrow> string \<Rightarrow> string list \<Rightarrow> string list" where
  "read_cap sub tokens caps = fold (track_cap (sub = ''DEL'')) (split_on CHR '' '' tokens) caps"

definition gone_caps :: "upstream \<Rightarrow> string list \<Rightarrow> string list" where
  "gone_caps u before = filter (\<lambda>cap. cap \<notin> set (u_caps u)) before"

definition added_caps :: "upstream \<Rightarrow> string list \<Rightarrow> string list" where
  "added_caps u before = filter (\<lambda>cap. cap \<notin> set before) (u_caps u)"

lemma read_cap_join:
  assumes "\<forall>c \<in> set ts. cap_token c" "ts \<noteq> []"
  shows "set (read_cap sub (join_with '' '' ts) cs) =
    (if sub = ''DEL'' then set cs - set ts else set cs \<union> set ts)"
proof -
  have "split_on CHR '' '' (join_with '' '' ts) = ts"
    using assms by (intro split_on_join) (auto simp: cap_token_def)
  with assms(1) show ?thesis by (simp add: read_cap_def set_fold_track_cap)
qed

text \<open>A client reading one replayed line.\<close>

definition cap_reader :: "(string \<Rightarrow> irc_msg option) \<Rightarrow> string \<Rightarrow> string list \<Rightarrow> string list" where
  "cap_reader parse line caps =
     (case parse line of
        Some msg \<Rightarrow> if msg_command msg = ''CAP'' \<and> length (msg_params msg) = 3
                    then read_cap (msg_params msg ! 1) (msg_params msg ! 2) caps else caps
      | None \<Rightarrow> caps)"

definition cap_from :: "upstream \<Rightarrow> string" where
  "cap_from u = (case u_serverName u of None \<Rightarrow> '''' | Some s \<Rightarrow> '':'' @ s @ '' '')"

definition cap_target :: "upstream \<Rightarrow> string" where
  "cap_target u = (case u_nickAtBurstEnd u of Some n \<Rightarrow> n | None \<Rightarrow> (case u_nick u of Some n \<Rightarrow> n | None \<Rightarrow> ''*''))"

definition cap_line :: "upstream \<Rightarrow> string \<Rightarrow> string \<Rightarrow> string" where
  "cap_line u sub tokens = cap_from u @ ''CAP '' @ cap_target u @ '' '' @ sub @ '' :'' @ tokens"

lemma capDelta_lines:
  "u_capsAtBurstEnd u = Some before \<Longrightarrow> capDelta u =
     (if gone_caps u before \<noteq> [] then [cap_line u ''DEL'' (join_with '' '' (gone_caps u before))] else []) @
     (if added_caps u before \<noteq> [] then [cap_line u ''ACK'' (join_with '' '' (added_caps u before))] else [])"
  by (simp add: capDelta_def Let_def gone_caps_def added_caps_def cap_from_def cap_target_def cap_line_def)

section \<open>Redialing the same session\<close>

text \<open>Only \<open>dial\<close> and the tunnel coming up touch the dial options.\<close>

definition keeps_dial :: "upstream \<Rightarrow> upstream \<Rightarrow> bool" where
  "keeps_dial u v \<longleftrightarrow> u_opts v = u_opts u \<and> u_hasSocket v = u_hasSocket u \<and> u_proxyCred v = u_proxyCred u"

lemma keeps_dial_refl [simp]: "keeps_dial u u"
  by (simp add: keeps_dial_def)

lemma keeps_dial_trans: "keeps_dial u v \<Longrightarrow> keeps_dial v w \<Longrightarrow> keeps_dial u w"
  by (simp add: keeps_dial_def)

lemma keeps_dial_own:
  "keeps_dial u (noteHostmask p u)" "keeps_dial u (trackCaps ps u)" "keeps_dial u (recordBurst l ps f u)"
  by (auto simp: keeps_dial_def noteHostmask_def trackCaps_def recordBurst_def Let_def split: option.splits)

lemma keeps_dial_track: "keeps_dial u (snd (track c p ps u))"
  using keeps_dial_own(1) [of _ p] by (auto simp: track_def Let_def keeps_dial_def)

lemma keeps_dial_own_state: "keeps_dial u (fst (own_state msg line u))"
proof -
  let ?c = "to_upper (msg_command msg)" and ?ps = "msg_params msg"
  define u1 where "u1 = (if ?c = ''001''
                then u\<lparr>u_nick := truthy (nth_param 0 ?ps), u_serverName := truthy (msg_prefix msg)\<rparr> else u)"
  define u2 where "u2 = (if ?c = ''CAP'' then trackCaps ?ps u1 else u1)"
  have eq: "tracked msg u = (if u_nick u2 \<noteq> None then track ?c (msg_prefix msg) ?ps u2 else (False, u2))"
    unfolding tracked_def u2_def u1_def by (simp add: Let_def)
  have "keeps_dial u u2"
    using keeps_dial_own(2) [of u1 ?ps] by (auto simp: u1_def u2_def keeps_dial_def)
  then have "keeps_dial u (snd (tracked msg u))"
    unfolding eq using keeps_dial_track [of u2 ?c "msg_prefix msg" ?ps] by (auto simp: keeps_dial_def)
  then show ?thesis
    using keeps_dial_own(3) [of "snd (tracked msg u)" line ?ps]
    by (auto simp: own_state_def Let_def split_beta end_burst_def keeps_dial_def)
qed

lemma keeps_dial_send: "keeps_dial u (fst (send_lines ok l bs u))"
proof (induction ok l bs u rule: send_lines.induct)
  case (1 ok l u)
  then show ?case by (simp add: sendLive_def keeps_dial_def)
next
  case (2 ok l b bs u)
  then show ?case
    by (auto simp: sendLive_def keeps_dial_def Let_def split_beta split: option.split)
qed

lemma keeps_dial_flush: "keeps_dial (snd h) (snd (fst (flush ok h)))"
proof -
  obtain w u where h: "h = (w, u)" by (cases h)
  show ?thesis
  proof (cases "u_stalled u \<or> u_sink u = None")
    case False
    then obtain l where l: "u_sink u = Some l" "\<not> u_stalled u" by auto
    show ?thesis
      unfolding h flush_cases [OF l]
      using keeps_dial_send [of u ok l]
      by (auto simp: Let_def split_beta keeps_dial_def split: option.split)
  qed (auto simp: h flush_def split: option.splits)
qed

lemma keeps_dial_on_line: "keeps_dial (snd h) (snd (fst (on_line parse ok now line h)))"
proof -
  obtain w u where h: "h = (w, u)" by (cases h)
  have "keeps_dial u (mark_burst_end q (fst (own_state msg line u)))" for msg q
    using keeps_dial_own_state [of u msg line] by (simp add: mark_burst_end_def keeps_dial_def)
  from keeps_dial_trans [OF this keeps_dial_flush [of "(w1, mark_burst_end q (fst (own_state msg line u)))" ok for w1 q msg, unfolded snd_conv]]
  show ?thesis
    by (auto simp: h on_line_def Let_def split_beta keeps_dial_def split: option.split)
qed

lemma keeps_dial_data: "keeps_dial (snd h) (snd (fst (data_lines parse ok now buf h)))"
proof (induction parse ok now buf h rule: data_lines.induct)
  case (1 parse ok now buf h)
  show ?case
  proof (cases "index_of newline buf")
    case None
    then show ?thesis
      unfolding data_lines.simps [of parse ok now buf h]
      by (simp add: Let_def split_beta dropPeer_def keeps_dial_def)
  next
    case (Some nl)
    let ?line = "strip_cr (take nl buf)" and ?rest = "drop (Suc nl) buf"
    consider "MAX_IRC_LINE < length ?line" | "\<not> MAX_IRC_LINE < length ?line" "?line = ''''" |
      "\<not> MAX_IRC_LINE < length ?line" "?line \<noteq> ''''" by blast
    then show ?thesis
    proof cases
      case 1
      with Some show ?thesis
        unfolding data_lines.simps [of parse ok now buf h]
        by (simp add: Let_def split_beta dropPeer_def keeps_dial_def)
    next
      case 2
      with Some "1.IH"(1) [OF Some refl refl] show ?thesis
        unfolding data_lines.simps [of parse ok now buf h] by (simp add: Let_def)
    next
      case 3
      obtain h1 fx where l: "on_line parse ok now ?line h = (h1, fx)" by fastforce
      have "keeps_dial (snd h1) (snd (fst (data_lines parse ok now ?rest h1)))"
        using "1.IH"(2) [OF Some refl refl 3 l [symmetric] refl] .
      with keeps_dial_on_line [of h parse ok now ?line] Some 3 l show ?thesis
        unfolding data_lines.simps [of parse ok now buf h]
        by (simp add: Let_def split_beta) (erule keeps_dial_trans)
    qed
  qed
qed

lemma keeps_dial_on_close: "keeps_dial (snd h) (snd (fst (on_close h)))"
  by (cases h) (simp add: on_close_def keeps_dial_def)

lemma keeps_dial_destroy: "keeps_dial (snd h) (snd (fst (destroy h)))"
  using keeps_dial_on_close [of "(fst h, (snd h)\<lparr>u_closing := True\<rparr>)"]
  by (cases h) (simp add: destroy_def Let_def split_beta keeps_dial_def)

lemma keeps_dial_close_up: "keeps_dial (snd h) (snd (fst (close_up h)))"
  using keeps_dial_destroy [of "(fst h, (snd h)\<lparr>u_closing := True, u_quietClose := True\<rparr>)"]
  by (cases h) (simp add: close_up_def Let_def keeps_dial_def)

lemma keeps_dial_attach: "keeps_dial (snd h) (snd (fst (attach now l h)))"
  by (cases h) (auto simp: attach_def Let_def keeps_dial_def split: option.split)

lemma keeps_dial_flushAfterAttach: "keeps_dial (snd h) (snd (fst (flushAfterAttach ok h)))"
proof (cases h)
  case (Pair w u)
  have k: "keeps_dial u (snd (fst (flush ok (w, u\<lparr>u_liveAfterSeq := t\<rparr>))))" for t
    using keeps_dial_flush [of "(w, u\<lparr>u_liveAfterSeq := t\<rparr>)" ok] by (simp add: keeps_dial_def)
  have "keeps_dial u (snd (fst (flush ok (w, u))))"
    using keeps_dial_flush [of "(w, u)" ok] by simp
  with k [of None] Pair show ?thesis
    by (auto simp: flushAfterAttach_def Let_def split_beta sendLive_def split: option.split)
qed

lemma keeps_dial_tcp: "keeps_dial u (fst (on_tcp_connect n a b u))"
  by (auto simp: on_tcp_connect_def Let_def keeps_dial_def split: option.split)

lemma keeps_dial_open: "keeps_dial u (fst (on_open n a b u))"
  using keeps_dial_tcp [of "u\<lparr>u_state := UOpen\<rparr>" n a b]
  by (auto simp: on_open_def Let_def split_beta keeps_dial_def)

lemma keeps_dial_failed: "keeps_dial (snd h) (snd (fst (proxy_dial_failed why h)))"
  using keeps_dial_on_close [of "(fst h, (snd h)\<lparr>u_proxyDialPending := False, u_lastError := Some why\<rparr>)"]
  by (cases h) (simp add: proxy_dial_failed_def Let_def keeps_dial_def)

definition tunnel_opts :: "dial_opts \<Rightarrow> dial_opts" where
  "tunnel_opts opts = wipe_password (wipe_key opts)"

lemma tunnel_dial:
  "keeps_dial (snd h) (snd (fst (proxy_tunnel_up a b h))) \<or>
   u_opts (snd (fst (proxy_tunnel_up a b h))) = tunnel_opts (u_opts (snd h)) \<and>
   u_proxyCred (snd (fst (proxy_tunnel_up a b h))) = u_proxyCred (snd h)"
  using keeps_dial_on_close [of "(fst h, (snd h)\<lparr>u_proxyDialPending := False\<rparr>)"]
  by (cases h) (auto simp: proxy_tunnel_up_def Let_def split_beta keeps_dial_def tunnel_opts_def)

lemma dial_dial:
  "dial u = Some v \<Longrightarrow> keeps_dial u v \<or>
     do_proxy (u_opts u) = None \<and> u_opts v = wipe_key (u_opts u) \<and> u_proxyCred v = u_proxyCred u"
  by (auto simp: dial_def Let_def keeps_dial_def split: if_splits)

lemma held_step_dial:
  "keeps_dial (snd h) (snd (held_step a h)) \<or>
   u_proxyCred (snd (held_step a h)) = u_proxyCred (snd h) \<and>
   (u_opts (snd (held_step a h)) = tunnel_opts (u_opts (snd h)) \<or>
    do_proxy (u_opts (snd h)) = None \<and> u_opts (snd (held_step a h)) = wipe_key (u_opts (snd h)))"
proof (cases a)
  case ODial then show ?thesis using dial_dial [of "snd h"] by (cases "dial (snd h)") auto
next case (OTcpConnect n x y) then show ?thesis by (simp add: keeps_dial_tcp)
next case (OOpen n x y) then show ?thesis by (simp add: keeps_dial_open)
next case (OTunnelUp x y) then show ?thesis using tunnel_dial [of h x y] by auto
next case (ODialFailed w) then show ?thesis by (simp add: keeps_dial_failed)
next case (OData p ok n c) then show ?thesis by (simp add: on_data_def keeps_dial_data)
next case OTimeout then show ?thesis by (simp add: on_timeout_def dropPeer_def keeps_dial_def)
next case (OError w) then show ?thesis by (simp add: on_error_def keeps_dial_def)
next case (OAck q) then show ?thesis by (simp add: up_ack_def)
next case (OResume ok)
  then show ?thesis
    using keeps_dial_flush [of "(fst h, (snd h)\<lparr>u_stalled := False\<rparr>)" ok] by (simp add: resume_def keeps_dial_def)
next case (OAttach n l) then show ?thesis by (simp add: keeps_dial_attach)
next case (OFlushAfterAttach ok) then show ?thesis by (simp add: keeps_dial_flushAfterAttach)
next case (ODetach n) then show ?thesis by (simp add: detach_def keeps_dial_def)
next case (OSilence n) then show ?thesis by (simp add: silence_def detach_def keeps_dial_def)
next case OClose then show ?thesis by (simp add: keeps_dial_close_up)
next case (OQuit x) then show ?thesis using keeps_dial_close_up [of h] by (simp add: quit_def Let_def split_beta)
next case ODestroy then show ?thesis by (simp add: keeps_dial_destroy)
next case OClosed then show ?thesis by (simp add: keeps_dial_on_close)
next case (OPressure n j x) then show ?thesis by simp
qed

text \<open>What \<open>matchesDial\<close> compares.\<close>

definition dial_id ::
  "upstream \<Rightarrow> string \<times> int \<times> bool \<times> string \<times> string \<times> (proxy_type \<times> string \<times> int \<times> string) option \<times> string" where
  "dial_id u =
     (let o' = u_opts u in
      (do_host o', do_port o', do_tls o', or_empty (do_outgoingAddr o'),
       or_empty (map_option fst (do_clientCert o')),
       map_option (\<lambda>p. (px_type p, px_host p, px_port p, or_empty (px_username p))) (do_proxy o'),
       u_proxyCred u))"

lemma matchesDial_dial_id:
  "dial_id u = dial_id v \<Longrightarrow> matchesDial digest u = matchesDial digest v"
  by (intro ext) (auto simp: dial_id_def matchesDial_def sameProxyRoute_def Let_def split: option.splits)

lemma dial_id_wipe:
  "u_proxyCred v = u_proxyCred u \<Longrightarrow> u_opts v = wipe_key (u_opts u) \<Longrightarrow> dial_id v = dial_id u"
  "u_proxyCred v = u_proxyCred u \<Longrightarrow> u_opts v = tunnel_opts (u_opts u) \<Longrightarrow> dial_id v = dial_id u"
  by (cases "do_clientCert (u_opts u)"; cases "do_proxy (u_opts u)";
      auto simp: dial_id_def tunnel_opts_def wipe_key_def wipe_password_def Let_def)+

lemma dial_id_step: "dial_id (snd (held_step a h)) = dial_id (snd h)"
  using held_step_dial [of h a] dial_id_wipe [of "snd (held_step a h)" "snd h"]
  by (auto simp: keeps_dial_def dial_id_def)

lemma dial_id_run: "dial_id (snd (held_run as h)) = dial_id (snd h)"
  by (induction as h rule: held_run.induct) (simp_all add: dial_id_step)

text \<open>The secrets the dial was given.\<close>

definition secrets_gone :: "upstream \<Rightarrow> bool" where
  "secrets_gone u \<longleftrightarrow>
     (\<forall>cert key. do_clientCert (u_opts u) = Some (cert, key) \<longrightarrow> key = '''') \<and>
     (\<forall>p. do_proxy (u_opts u) = Some p \<longrightarrow> or_empty (px_password p) = '''')"

lemma secrets_wiped:
  "do_proxy (u_opts u) = None \<Longrightarrow> u_opts v = wipe_key (u_opts u) \<Longrightarrow> secrets_gone v"
  "u_opts v = tunnel_opts (u_opts u) \<Longrightarrow> secrets_gone v"
  by (auto simp: secrets_gone_def tunnel_opts_def wipe_key_def wipe_password_def split: option.splits)

lemma secrets_step:
  "(u_hasSocket (snd h) \<longrightarrow> secrets_gone (snd h)) \<Longrightarrow>
   u_hasSocket (snd (held_step a h)) \<longrightarrow> secrets_gone (snd (held_step a h))"
  using held_step_dial [of h a] secrets_wiped [where u = "snd h" and v = "snd (held_step a h)"]
  by (auto simp: keeps_dial_def) (auto simp: secrets_gone_def)

lemma secrets_run:
  "(u_hasSocket (snd h) \<longrightarrow> secrets_gone (snd h)) \<Longrightarrow>
   u_hasSocket (snd (held_run as h)) \<longrightarrow> secrets_gone (snd (held_run as h))"
proof (induction as arbitrary: h)
  case (Cons a as)
  from Cons.IH [OF secrets_step [OF Cons.prems]] show ?case by simp
qed simp

section \<open>Properties\<close>

text \<open>C4: From its construction on, whatever events reach it in whatever order, a held socket keeps its
  invariant: channels keyed by their folded names without duplicates, the burst within its byte
  bound, its baseline of capabilities there exactly when registration is done, its buffer
  registered and no sequence number sent that was never handed out.\<close>

theorem held_socket_invariant:
  assumes "bb_inv w" "uid \<notin> set (bb_buffers w)"
    "held_run_ok as (new_buffer uid m w, new_upstream digest uid sock i inst opts)"
  shows "session_ok (held_run as (new_buffer uid m w, new_upstream digest uid sock i inst opts))"
  by (rule session_run [OF session_new [OF assms(1,2)] assms(3)])

definition sample_opts :: dial_opts where
  "sample_opts =
     \<lparr>do_host = ''irc'', do_port = 6697, do_tls = True, do_rejectUnauthorized = True,
      do_outgoingAddr = None, do_ident = None, do_clientCert = Some (''cert'', ''key''), do_proxy = None\<rparr>"

definition sample_life :: "held_op list" where
  "sample_life = [ODial, OOpen None (''l'', 1) (''r'', 2), OAttach 5 3, OClose, OClosed]"

lemma held_socket_invariant_witness:
  "session_ok (held_run sample_life
     (new_buffer 0 100 (empty_budget 1000), new_upstream (\<lambda>s. s) 0 ''sock'' ''c1'' ''inst'' sample_opts))"
proof (rule held_socket_invariant)
  show "held_run_ok sample_life
     (new_buffer 0 100 (empty_budget 1000), new_upstream (\<lambda>s. s) 0 ''sock'' ''c1'' ''inst'' sample_opts)"
    by (simp add: sample_life_def sample_opts_def new_upstream_def dial_def Let_def on_open_def on_tcp_connect_def
        truthy_def wipe_key_def)
qed (rule empty_budget_inv, simp add: empty_budget_def)

text \<open>The burst a replay starts from is a prefix of the registration lines (own channel movement
  left out), always closed by its last line once registration is over, within 64 KiB apart from
  that line; and all of them when they fit.\<close>

theorem burst_is_prefix:
  assumes "own_ok u" "u_burst u = []" "\<not> u_burstDone u" "\<not> u_burstFull u"
  shows "(\<exists>n. map br_line (u_burst (own_run ms u)) =
      (if u_burstDone (own_run ms u)
       then take n (butlast (burst_lines ms u)) @ [last (burst_lines ms u)]
       else take n (burst_lines ms u))) \<and>
    (u_burstDone (own_run ms u) \<longrightarrow> burst_lines ms u \<noteq> [] \<and>
       burst_bytes (butlast (u_burst (own_run ms u))) \<le> MAX_BURST_BYTES) \<and>
    (sum_list (map line_bytes (burst_lines ms u)) \<le> MAX_BURST_BYTES \<longrightarrow>
       map br_line (u_burst (own_run ms u)) = burst_lines ms u)"
proof (intro conjI impI)
  show "\<exists>n. map br_line (u_burst (own_run ms u)) =
      (if u_burstDone (own_run ms u)
       then take n (butlast (burst_lines ms u)) @ [last (burst_lines ms u)]
       else take n (burst_lines ms u))"
    using own_run_burst [OF assms(3), of ms] assms(2) by auto
  have inv: "own_ok (own_run ms u)" if "own_ok u" for ms u
    using that by (induction ms u rule: own_run.induct) (simp_all add: own_ok_own_state)
  show "burst_bytes (butlast (u_burst (own_run ms u))) \<le> MAX_BURST_BYTES" if "u_burstDone (own_run ms u)"
    using inv [OF assms(1), of ms] that by (simp add: own_ok_def)
  show "burst_lines ms u \<noteq> []" if "u_burstDone (own_run ms u)"
    by (rule burst_lines_end [OF assms(3) that])
  show "map br_line (u_burst (own_run ms u)) = burst_lines ms u"
    if "sum_list (map line_bytes (burst_lines ms u)) \<le> MAX_BURST_BYTES"
    using own_run_burst_fits [OF assms(3,4), of ms] that assms(1,2) by (simp add: own_ok_def)
qed

lemma burst_is_prefix_witness:
  "let u = new_upstream (\<lambda>s. s) 0 ''sock'' ''c1'' ''inst'' sample_opts;
       ms = [(\<lparr>msg_command = ''001'', msg_params = [''me''], msg_prefix = None\<rparr>, ''001 me''),
             (\<lparr>msg_command = ''JOIN'', msg_params = [''#a''], msg_prefix = Some ''me!u@h''\<rparr>, ''JOIN''),
             (\<lparr>msg_command = ''376'', msg_params = [], msg_prefix = None\<rparr>, ''376'')]
   in map br_line (u_burst (own_run ms u)) = [''001 me'', ''376'']"
proof -
  let ?u = "new_upstream (\<lambda>s. s) 0 ''sock'' ''c1'' ''inst'' sample_opts"
  let ?ms = "[(\<lparr>msg_command = ''001'', msg_params = [''me''], msg_prefix = None\<rparr>, ''001 me''),
             (\<lparr>msg_command = ''JOIN'', msg_params = [''#a''], msg_prefix = Some ''me!u@h''\<rparr>, ''JOIN''),
             (\<lparr>msg_command = ''376'', msg_params = [], msg_prefix = None\<rparr>, ''376'')]"
  have u: "own_ok ?u" "u_burst ?u = []" "\<not> u_burstDone ?u" "\<not> u_burstFull ?u"
    by (simp_all add: own_ok_def new_upstream_def MAX_BURST_BYTES_def)
  have lines: "burst_lines ?ms ?u = [''001 me'', ''376'']"
    by (simp add: new_upstream_def own_state_def tracked_def track_def isSelf_def prefixNick_def truthy_def nth_param_def
        non_empty_def noteHostmask_def recordBurst_cases ends_burst_def end_burst_def to_upper_def upper_char_def
        MAX_BURST_BYTES_def line_bytes_def utf8_char_def Let_def)
  then have "sum_list (map line_bytes (burst_lines ?ms ?u)) \<le> MAX_BURST_BYTES"
    by (simp add: MAX_BURST_BYTES_def line_bytes_def utf8_char_def)
  with burst_is_prefix [OF u, of ?ms] lines show ?thesis
    unfolding Let_def by simp
qed

text \<open>A client that walks the burst and then the capability lines of the replay ends with exactly
  the capabilities the socket has now (\<open>parse\<close> reads the engine's own \<open>CAP\<close> lines as IRC does).\<close>

theorem replayed_caps_match:
  assumes "u_capsAtBurstEnd u = Some before" "\<forall>c \<in> set before \<union> set (u_caps u). cap_token c"
    "\<forall>sub tokens. sub \<in> {''DEL'', ''ACK''} \<longrightarrow>
       parse (cap_line u sub tokens) =
         Some \<lparr>msg_command = ''CAP'', msg_params = [cap_target u, sub, tokens], msg_prefix = u_serverName u\<rparr>"
  shows "set (fold (cap_reader parse) (capDelta u) before) = set (u_caps u)"
proof -
  have cap: "cap_reader parse (cap_line u sub ts) cs = read_cap sub ts cs" if "sub \<in> {''DEL'', ''ACK''}" for sub ts cs
    using assms(3) [rule_format, OF that, of ts] by (simp add: cap_reader_def)
  have tok: "\<forall>c \<in> set (gone_caps u before). cap_token c" "\<forall>c \<in> set (added_caps u before). cap_token c"
    using assms(2) by (auto simp: gone_caps_def added_caps_def)
  let ?b = "if gone_caps u before = [] then before else read_cap ''DEL'' (join_with '' '' (gone_caps u before)) before"
  let ?c = "if added_caps u before = [] then ?b else read_cap ''ACK'' (join_with '' '' (added_caps u before)) ?b"
  have b: "set ?b = set before - set (gone_caps u before)"
    using tok(1) by (simp add: read_cap_join)
  have c: "set ?c = set ?b \<union> set (added_caps u before)"
    using tok(2) by (simp add: read_cap_join)
  have "fold (cap_reader parse) (capDelta u) before = ?c"
    by (simp add: capDelta_lines [OF assms(1)] cap)
  then have "set (fold (cap_reader parse) (capDelta u) before) =
      (set before - set (gone_caps u before)) \<union> set (added_caps u before)"
    using b c by simp
  also have "\<dots> = set (u_caps u)"
    by (auto simp: gone_caps_def added_caps_def)
  finally show ?thesis .
qed

definition sample_cap_parse :: "string \<Rightarrow> irc_msg option" where
  "sample_cap_parse s =
     (if take 12 s = ''CAP me DEL :''
      then Some \<lparr>msg_command = ''CAP'', msg_params = [''me'', ''DEL'', drop 12 s], msg_prefix = None\<rparr>
      else if take 12 s = ''CAP me ACK :''
      then Some \<lparr>msg_command = ''CAP'', msg_params = [''me'', ''ACK'', drop 12 s], msg_prefix = None\<rparr>
      else None)"

lemma replayed_caps_match_witness:
  "let u = sample_upstream\<lparr>u_caps := [''tags'', ''sasl''], u_capsAtBurstEnd := Some [''sasl'', ''away'']\<rparr> in
   capDelta u = [''CAP me DEL :away'', ''CAP me ACK :tags''] \<and>
   set (fold (cap_reader sample_cap_parse) (capDelta u) [''sasl'', ''away'']) = set [''tags'', ''sasl'']"
proof -
  let ?u = "sample_upstream\<lparr>u_caps := [''tags'', ''sasl''], u_capsAtBurstEnd := Some [''sasl'', ''away'']\<rparr>"
  have delta: "capDelta ?u = [''CAP me DEL :away'', ''CAP me ACK :tags'']"
    by (simp add: capDelta_def sample_upstream_def new_upstream_def Let_def)
  have "set (fold (cap_reader sample_cap_parse) (capDelta ?u) [''sasl'', ''away'']) = set (u_caps ?u)"
    by (rule replayed_caps_match)
      (simp_all add: sample_upstream_def new_upstream_def cap_token_def starts_with_def cap_from_def cap_target_def
        cap_line_def sample_cap_parse_def eval_nat_numeral)
  with delta show ?thesis unfolding Let_def by simp
qed

text \<open>Whatever has happened to a socket since, and although the dial has dropped the client key and
  the proxy password, a connect request matches it exactly when it asks for what the socket was
  built for: same host, port, TLS, source address, certificate and proxy, credentials included
  (SHA-256 taken as injective).\<close>

theorem redial_matches_original:
  assumes "inj digest"
  shows "matchesDial digest (snd (held_run as (w, new_upstream digest uid sock i inst opts)))
      host port tls addr cert proxy \<longleftrightarrow>
    do_host opts = host \<and> do_port opts = port \<and> do_tls opts = tls \<and>
    or_empty (do_outgoingAddr opts) = or_empty addr \<and>
    or_empty (map_option fst (do_clientCert opts)) = or_empty (map_option fst cert) \<and>
    sameProxy (do_proxy opts) proxy"
proof -
  have "matchesDial digest (snd (held_run as (w, new_upstream digest uid sock i inst opts))) =
        matchesDial digest (new_upstream digest uid sock i inst opts)"
    using dial_id_run [of as "(w, new_upstream digest uid sock i inst opts)"]
    by (intro matchesDial_dial_id) simp
  moreover have "sameProxyRoute (do_proxy opts) proxy \<and>
      proxyCredDigest digest (do_proxy opts) = proxyCredDigest digest proxy \<longleftrightarrow> sameProxy (do_proxy opts) proxy"
    using inj_eq [OF assms]
    by (cases "do_proxy opts"; cases proxy) (auto simp: sameProxyRoute_def sameProxy_def proxyCredDigest_def)
  ultimately show ?thesis
    by (simp add: matchesDial_def new_upstream_def)
qed

lemma redial_matches_original_witness:
  "inj (\<lambda>s :: string. s) \<and>
   matchesDial (\<lambda>s. s)
     (snd (held_run sample_life (empty_budget 9, new_upstream (\<lambda>s. s) 0 ''sock'' ''c1'' ''inst'' sample_opts)))
     ''irc'' 6697 True None (Some (''cert'', ''other key'')) None"
proof -
  have "inj (\<lambda>s :: string. s)" by (simp add: inj_on_def)
  from redial_matches_original [OF this, of sample_life "empty_budget 9" 0 "''sock''" "''c1''" "''inst''" sample_opts
      "''irc''" 6697 True None "Some (''cert'', ''other key'')" None] this
  show ?thesis by (simp add: sample_opts_def sameProxy_def sameProxyRoute_def)
qed

text \<open>Once a dial has produced its socket, and whatever happens after, neither the client's private
  key nor the proxy password is held any more.\<close>

theorem dial_drops_secrets:
  assumes "u_hasSocket (snd (held_run as (w, new_upstream digest uid sock i inst opts)))"
  shows "secrets_gone (snd (held_run as (w, new_upstream digest uid sock i inst opts)))"
  using secrets_run [of "(w, new_upstream digest uid sock i inst opts)" as] assms
  by (simp add: new_upstream_def)

lemma dial_drops_secrets_witness:
  "let u = snd (held_run sample_life (empty_budget 9, new_upstream (\<lambda>s. s) 0 ''sock'' ''c1'' ''inst'' sample_opts))
   in u_hasSocket u \<and> do_clientCert (u_opts u) = Some (''cert'', '''')"
proof -
  let ?u = "snd (held_run sample_life (empty_budget 9, new_upstream (\<lambda>s. s) 0 ''sock'' ''c1'' ''inst'' sample_opts))"
  have s: "u_hasSocket ?u"
    by (simp add: sample_life_def sample_opts_def new_upstream_def dial_def Let_def on_open_def on_tcp_connect_def
        truthy_def wipe_key_def attach_def close_up_def on_close_def)
  have c: "map_option fst (do_clientCert (u_opts ?u)) = Some ''cert''"
    by (simp add: sample_life_def sample_opts_def new_upstream_def dial_def Let_def on_open_def on_tcp_connect_def
        truthy_def wipe_key_def attach_def close_up_def on_close_def)
  from dial_drops_secrets [OF s] c show ?thesis
    using s unfolding Let_def secrets_gone_def by auto
qed

text \<open>A PING is answered by the engine itself, attached, detached or stalled: the socket gets the PONG
  with its token and nothing is buffered or sent to the application.\<close>

theorem ping_answered_here:
  assumes "parse line = Some msg" "is_ping msg" "msg_params msg = ps @ [token]"
    "u_state u = UOpen" "\<not> u_closing u" "u_hasSocket u"
  shows "fst (fst (on_line parse ok now line (w, u))) = w \<and>
    snd (on_line parse ok now line (w, u)) = [SocketWrite (''PONG :'' @ token @ [CHR 0x0D, newline])] \<and>
    u_sentSeq (snd (fst (on_line parse ok now line (w, u)))) = u_sentSeq u"
  using assms by (simp add: on_line_def rawWrite_def last_param_def)

lemma ping_answered_here_witness:
  "snd (on_line (\<lambda>s. Some \<lparr>msg_command = ''ping'', msg_params = [''tok''], msg_prefix = None\<rparr>) (\<lambda>f. False) 0 ''ping tok''
     (empty_budget 9, sample_upstream)) = [SocketWrite (''PONG :tok'' @ [CHR 0x0D, newline])]"
  using ping_answered_here [of "\<lambda>s. Some \<lparr>msg_command = ''ping'', msg_params = [''tok''], msg_prefix = None\<rparr>"
      "''ping tok''" "\<lparr>msg_command = ''ping'', msg_params = [''tok''], msg_prefix = None\<rparr>" "[]" "''tok''"
      sample_upstream "\<lambda>f. False" 0 "empty_budget 9"]
  by (simp add: is_ping_def to_upper_def upper_char_def char_of_def bit_0 sample_upstream_def new_upstream_def)

end
