(* ===== verification/Engine_Server.thy ===== *)
theory Engine_Server imports Engine_Upstream begin

text \<open>
  \<open>server/engine/server.ts\<close>: the engine's listener.  App links and held sockets are objects with an
  identity: \<open>en_link\<close> and \<open>en_heap\<close> are the heaps, \<open>en_links\<close> the \<open>Set\<close> of live links and
  \<open>en_upstreams\<close> the \<open>Map\<close> from connection ids to sockets.  A handler returns the new engine and what
  it put out, in order.  What an upstream emits is handled by the listeners \<open>connect\<close> registered:
  \<open>registered\<close> offers the session, \<open>closed\<close> forgets it; \<open>open\<close> only logs.

  Arguments stand for what is outside: SHA-256, \<open>net.isIP\<close>, \<open>isDialableCertPair\<close>, \<open>Number\<close> on a text,
  whether Node throws on a dial, the length of an encoded frame, the socket UUIDs, the JSON decoder, the IRC parser,
  and per event the clock and the backpressure answers of the links.  Log lines are left out, and
  error texts that quote the request keep their fixed part.
\<close>

section \<open>State\<close>

record link =
  lk_authed :: bool
  lk_buf :: string
  lk_claimed :: "nat list"
  lk_sniffed :: bool
  lk_generation :: rat
  lk_instance :: string
  lk_lastSeen :: int
  lk_destroyed :: bool

record engine =
  en_upstreams :: "(string \<times> nat) list"
  en_links :: "nat list"
  en_link :: "nat \<Rightarrow> link"
  en_heap :: "nat \<Rightarrow> upstream"
  en_budget :: byte_budget
  en_releasedBy :: "(nat \<times> nat) list"
  en_next :: nat

record env =
  ev_digest :: "string \<Rightarrow> string"
  ev_isIP :: "string \<Rightarrow> bool"
  ev_certPair :: "string \<Rightarrow> string \<Rightarrow> bool"
  ev_number :: "string \<Rightarrow> int option"
  ev_dialThrows :: "dial_opts \<Rightarrow> string option"
  ev_frameLength :: "engine_frame \<Rightarrow> nat"
  ev_json :: "string \<Rightarrow> json option"
  ev_decode :: "json \<Rightarrow> app_frame"
  ev_parse :: "string \<Rightarrow> irc_msg option"
  ev_socketId :: "nat \<Rightarrow> string"
  ev_secret :: string
  ev_version :: string
  ev_bufferBytes :: int
  ev_orphanMs :: int

datatype out =
    ToLink nat engine_frame
  | LinkEnd nat string
  | LinkDestroy nat
  | OnSocket nat effect

type_synonym handler = "engine \<Rightarrow> engine \<times> out list"

definition LINK_SILENCE_MS :: int where
  "LINK_SILENCE_MS = 90000"

definition skip :: handler where
  "skip e = (e, [])"

definition and_then :: "handler \<Rightarrow> handler \<Rightarrow> handler" where
  "and_then f g e = (let (e1, o1) = f e; (e2, o2) = g e1 in (e2, o1 @ o2))"

fun in_order :: "handler list \<Rightarrow> handler" where
  "in_order [] = skip"
| "in_order (f # fs) = and_then f (in_order fs)"

section \<open>Links\<close>

definition new_link :: "int \<Rightarrow> link" where
  "new_link now =
     \<lparr>lk_authed = False, lk_buf = '''', lk_claimed = [], lk_sniffed = False, lk_generation = 0,
      lk_instance = '''', lk_lastSeen = now, lk_destroyed = False\<rparr>"

definition upd_link :: "nat \<Rightarrow> (link \<Rightarrow> link) \<Rightarrow> engine \<Rightarrow> engine" where
  "upd_link l f e = e\<lparr>en_link := (en_link e)(l := f (en_link e l))\<rparr>"

definition send :: "nat \<Rightarrow> engine_frame \<Rightarrow> handler" where
  "send l f e = (e, if lk_destroyed (en_link e l) then [] else [ToLink l f])"

definition fail :: "nat \<Rightarrow> string \<Rightarrow> string option \<Rightarrow> handler" where
  "fail l message i = send l (FError (truthy i) message)"

definition destroy_link :: "nat \<Rightarrow> handler" where
  "destroy_link l e = (upd_link l (lk_destroyed_update (\<lambda>_. True)) e, [LinkDestroy l])"

definition claim :: "nat \<Rightarrow> nat \<Rightarrow> engine \<Rightarrow> engine" where
  "claim l u e = upd_link l (lk_claimed_update (set_add u)) e"

definition unclaim :: "nat \<Rightarrow> nat \<Rightarrow> engine \<Rightarrow> engine" where
  "unclaim l u e = upd_link l (lk_claimed_update (set_del u)) e"

definition unclaim_all :: "nat \<Rightarrow> engine \<Rightarrow> engine" where
  "unclaim_all u e = fold (\<lambda>l. unclaim l u) (en_links e) e"

section \<open>Sessions and claims\<close>

definition isSession :: "engine \<Rightarrow> nat \<Rightarrow> bool" where
  "isSession e u = (u_state (en_heap e u) = UOpen \<and> registered (en_heap e u) \<and> \<not> u_closing (en_heap e u))"

definition holderOf :: "engine \<Rightarrow> nat \<Rightarrow> nat option \<Rightarrow> nat option" where
  "holderOf e u except = find (\<lambda>l. Some l \<noteq> except \<and> u \<in> set (lk_claimed (en_link e l))) (en_links e)"

definition heldFor :: "engine \<Rightarrow> nat \<Rightarrow> string list" where
  "heldFor e l =
     map (\<lambda>u. u_id (en_heap e u))
       (filter (\<lambda>u. isSession e u \<and> holderOf e u (Some l) = None)
         (filter (\<lambda>u. u_instance (en_heap e u) = lk_instance (en_link e l)) (map snd (en_upstreams e))))"

definition offer_one :: "nat option \<Rightarrow> nat \<Rightarrow> handler" where
  "offer_one except u e =
     (if \<not> isSession e u \<or> holderOf e u None \<noteq> None then (e, [])
      else (e, map (\<lambda>l. ToLink l (FHeld (u_id (en_heap e u))))
                 (filter (\<lambda>l. Some l \<noteq> except \<and> lk_authed (en_link e l) \<and> \<not> lk_destroyed (en_link e l) \<and>
                              lk_instance (en_link e l) = u_instance (en_heap e u)) (en_links e))))"

definition offer :: "nat list \<Rightarrow> nat option \<Rightarrow> handler" where
  "offer released except = in_order (map (offer_one except) released)"

text \<open>\<open>contest\<close>: the refusing holder, or the way is clear and a superseded holder has been told.\<close>

definition contest :: "nat \<Rightarrow> nat \<Rightarrow> engine \<Rightarrow> nat option \<times> engine \<times> out list" where
  "contest l u e =
     (case holderOf e u (Some l) of
        None \<Rightarrow> (None, e, [])
      | Some other \<Rightarrow>
          if lk_generation (en_link e l) < lk_generation (en_link e other) then (Some other, e, [])
          else let (e', fx) = send other (FDetached (u_id (en_heap e u))) (unclaim other u e) in (None, e', fx))"

definition held_ids :: "engine \<Rightarrow> string list" where
  "held_ids e = map (\<lambda>u. u_id (en_heap e u)) (filter (isSession e) (map snd (en_upstreams e)))"

section \<open>Calling into an upstream\<close>

text \<open>The listeners \<open>connect\<close> registers on a new upstream.\<close>

definition on_closed :: "nat \<Rightarrow> engine \<Rightarrow> engine" where
  "on_closed u e =
     unclaim_all u
       (if map_of (en_upstreams e) (u_id (en_heap e u)) = Some u
        then e\<lparr>en_upstreams := AList.delete (u_id (en_heap e u)) (en_upstreams e)\<rparr> else e)"

fun handle_effect :: "nat \<Rightarrow> effect \<Rightarrow> handler" where
  "handle_effect u (SendTo l f) e = send l f e"
| "handle_effect u (EmitRegistered unattended) e =
     (if unattended then offer [u] (map_of (en_releasedBy e) u) e else (e, []))"
| "handle_effect u (EmitClosed error) e = (on_closed u e, [])"
| "handle_effect u (EmitOpen local remote) e = (e, [])"
| "handle_effect u fx e = (e, [OnSocket u fx])"

definition up_call :: "nat \<Rightarrow> (held \<Rightarrow> held \<times> effect list) \<Rightarrow> handler" where
  "up_call u f e =
     (let ((w, o'), fx) = f (en_budget e, en_heap e u)
      in in_order (map (handle_effect u) fx) (e\<lparr>en_budget := w, en_heap := (en_heap e)(u := o')\<rparr>))"

text \<open>Methods that touch the object only.\<close>

definition up_own :: "nat \<Rightarrow> (upstream \<Rightarrow> upstream) \<Rightarrow> handler" where
  "up_own u f = up_call u (\<lambda>(w, o'). ((w, f o'), []))"

definition up_fx :: "nat \<Rightarrow> (upstream \<Rightarrow> upstream \<times> effect list) \<Rightarrow> handler" where
  "up_fx u f = up_call u (\<lambda>(w, o'). let (o'', fx) = f o' in ((w, o''), fx))"

text \<open>The backpressure answer of the link a socket is attached to: a destroyed link never takes more.\<close>

definition sink_ok :: "(engine_frame \<Rightarrow> bool) \<Rightarrow> nat \<Rightarrow> engine \<Rightarrow> engine_frame \<Rightarrow> bool" where
  "sink_ok ok u e f =
     (case u_sink (en_heap e u) of
        None \<Rightarrow> False
      | Some l \<Rightarrow> \<not> lk_destroyed (en_link e l) \<and> ok f)"

definition release :: "int \<Rightarrow> nat \<Rightarrow> nat \<Rightarrow> handler" where
  "release now l u e =
     (if u \<notin> set (lk_claimed (en_link e l)) then (e, [])
      else and_then (up_own u (detach now))
             (\<lambda>e. offer [u] (Some l) (e\<lparr>en_releasedBy := AList.update u l (en_releasedBy e)\<rparr>))
             (unclaim l u e))"

definition onLinkClose :: "int \<Rightarrow> nat \<Rightarrow> handler" where
  "onLinkClose now l e =
     (if l \<notin> set (en_links e) then (e, [])
      else let released = lk_claimed (en_link e l) in
        and_then (in_order (map (\<lambda>u. up_own u (detach now)) released))
          (\<lambda>e. offer released None (upd_link l (lk_claimed_update (\<lambda>_. [])) e))
          (e\<lparr>en_links := set_del l (en_links e)\<rparr>))"

section \<open>Connect or attach\<close>

text \<open>The checks on a \<open>connect\<close> frame, before any upstream exists: the error, or what to dial.\<close>

definition check_cert :: "env \<Rightarrow> connect_frame \<Rightarrow> string + (string \<times> string) option" where
  "check_cert env frame =
     (case cf_clientCert frame of
        None \<Rightarrow> Inr None
      | Some (Some cert, Some key) \<Rightarrow>
          if cert = '''' \<or> key = '''' then Inl ''connect: clientCert needs both a cert and a key''
          else if \<not> ev_certPair env cert key
          then Inl ''connect: clientCert is not a usable certificate/key pair''
          else Inr (Some (cert, key))
      | Some _ \<Rightarrow> Inl ''connect: clientCert needs both a cert and a key'')"

definition check_proxy :: "env \<Rightarrow> connect_frame \<Rightarrow> string + proxy_config option" where
  "check_proxy env frame =
     (case cf_proxy frame of
        None \<Rightarrow> Inr None
      | Some inp \<Rightarrow> (case validateProxy (ev_number env) inp of
                        Inl p \<Rightarrow> Inl (''connect: proxy is unusable ('' @ pp_error p @ '')'')
                      | Inr p \<Rightarrow> Inr (Some p)))"

definition check_connect :: "env \<Rightarrow> connect_frame \<Rightarrow> string + (string \<times> dial_opts)" where
  "check_connect env frame =
     (case (cf_id frame, cf_host frame) of
        (Some i, Some host) \<Rightarrow>
          if i = '''' \<or> host = '''' then Inl ''connect needs an id and a host''
          else
          (case cf_port frame of
             None \<Rightarrow> Inl ''connect: invalid port''
           | Some port \<Rightarrow>
             if port < 1 \<or> 65535 < port then Inl ''connect: invalid port''
             else if or_empty (cf_outgoingAddr frame) \<noteq> '''' \<and> \<not> ev_isIP env (or_empty (cf_outgoingAddr frame))
             then Inl ''connect: outgoingAddr must be an IP address''
             else
             (case check_cert env frame of
                Inl m \<Rightarrow> Inl m
              | Inr cert \<Rightarrow>
                (case check_proxy env frame of
                   Inl m \<Rightarrow> Inl m
                 | Inr proxy \<Rightarrow>
                   Inr (i, \<lparr>do_host = host, do_port = port, do_tls = cf_tls frame,
                            do_rejectUnauthorized = cf_rejectUnauthorized frame,
                            do_outgoingAddr = truthy (cf_outgoingAddr frame),
                            do_ident = truthy (cf_ident frame), do_clientCert = cert, do_proxy = proxy\<rparr>))))
      | _ \<Rightarrow> Inl ''connect needs an id and a host'')"

text \<open>The new socket at the end of \<open>connect\<close>: made, claimed, attached, dialed.\<close>

definition fresh_dial :: "env \<Rightarrow> int \<Rightarrow> nat \<Rightarrow> string \<Rightarrow> dial_opts \<Rightarrow> handler" where
  "fresh_dial env now l i opts e =
     (let u = en_next e;
          e1 = e\<lparr>en_next := Suc u,
                 en_budget := new_buffer u (ev_bufferBytes env) (en_budget e),
                 en_heap := (en_heap e)(u := new_upstream (ev_digest env) u (ev_socketId env u) i (lk_instance (en_link e l)) opts),
                 en_upstreams := AList.update i u (en_upstreams e)\<rparr>
      in and_then (up_call u (\<lambda>h. (fst (attach now l h), [])))
          (and_then (send l (FDialing i))
            (\<lambda>e. case (do_proxy opts, ev_dialThrows env opts) of
                    (None, Some message) \<Rightarrow>
                      and_then (up_own u (u_dialed_update (\<lambda>_. True)))
                        (\<lambda>e. send l (FClosed i (Some message))
                           (unclaim l u (e\<lparr>en_upstreams := AList.delete i (en_upstreams e)\<rparr>))) e
                  | _ \<Rightarrow> up_own u (\<lambda>o'. case dial o' of Some o'' \<Rightarrow> o'' | None \<Rightarrow> o') e))
          (claim l u e1))"

text \<open>A held socket that is not handed over: it ends quietly, under nobody's claim.\<close>

definition discard :: "int \<Rightarrow> nat \<Rightarrow> handler" where
  "discard now u = and_then (up_own u (silence now)) (up_call u close_up)"

text \<open>Attaching to the socket that is held under the id.\<close>

definition attach_held ::
  "env \<Rightarrow> (engine_frame \<Rightarrow> bool) \<Rightarrow> int \<Rightarrow> nat \<Rightarrow> string \<Rightarrow> dial_opts \<Rightarrow> nat \<Rightarrow> handler" where
  "attach_held env ok now l i opts u e =
     (case contest l u e of
        (Some other, e1, o1) \<Rightarrow> (case send l (FDetached i) e1 of (e2, o2) \<Rightarrow> (e2, o1 @ o2))
      | (None, e1, o1) \<Rightarrow>
          (let e2 = claim l u e1;
               result = snd (attach now l (en_budget e2, en_heap e2 u));
               (e3, o3) = up_call u (\<lambda>h. (fst (attach now l h), [])) e2;
               (e4, o4) =
                 (case result of
                    StillDialing \<Rightarrow> send l (FDialing i) e3
                  | Unregistered \<Rightarrow>
                      and_then (discard now u) (fresh_dial env now l i opts) (unclaim l u e3)
                  | Attached payload \<Rightarrow>
                      if MAX_FRAME_BYTES < ev_frameLength env (FAttached i payload)
                      then and_then (discard now u)
                             (send l (FClosed i (Some ''replay too large to hand over''))) (unclaim l u e3)
                      else and_then (send l (FAttached i payload))
                             (\<lambda>e. up_call u (flushAfterAttach (sink_ok ok u e)) e) e3)
           in (e4, o1 @ o3 @ o4)))"

definition connect ::
  "env \<Rightarrow> (engine_frame \<Rightarrow> bool) \<Rightarrow> int \<Rightarrow> nat \<Rightarrow> connect_frame \<Rightarrow> handler" where
  "connect env ok now l frame e =
     (case check_connect env frame of
        Inl message \<Rightarrow> fail l message (cf_id frame) e
      | Inr (i, opts) \<Rightarrow>
          (case map_of (en_upstreams e) i of
             None \<Rightarrow> fresh_dial env now l i opts e
           | Some u \<Rightarrow>
               if u_instance (en_heap e u) \<noteq> lk_instance (en_link e l)
               then fail l ''connection id belongs to another instance'' (Some i) e
               else if u_closing (en_heap e u) \<or> u_state (en_heap e u) = UClosed
               then and_then (up_own u (silence now)) (fresh_dial env now l i opts) (unclaim_all u e)
               else if \<not> matchesDial (ev_digest env) (en_heap e u) (do_host opts) (do_port opts) (do_tls opts)
                          (cf_outgoingAddr frame) (do_clientCert opts) (do_proxy opts)
               then and_then (discard now u) (fresh_dial env now l i opts) (unclaim_all u e)
               else attach_held env ok now l i opts u e))"

section \<open>Dispatch\<close>

definition hello :: "env \<Rightarrow> nat \<Rightarrow> app_frame \<Rightarrow> handler" where
  "hello env l frame e =
     (let refuse = (\<lambda>message. and_then (fail l message None) (destroy_link l) e) in
      case frame of
        AHello h \<Rightarrow>
          if hf_protocol h \<noteq> PROTOCOL_MAJOR then refuse ''protocol major mismatch''
          else if ev_digest env (or_empty (hf_secret h)) \<noteq> ev_digest env (ev_secret env) then refuse ''bad secret''
          else if or_empty (hf_instance h) = '''' then refuse ''hello needs an instance''
          else let e1 = upd_link l (\<lambda>k. k\<lparr>lk_authed := True, lk_instance := or_empty (hf_instance h),
                                         lk_generation := hf_startedAt h\<rparr>) e
               in send l (FHello PROTOCOL_MAJOR PROTOCOL_MINOR (ev_version env) (heldFor e1 l)) e1
      | _ \<Rightarrow> refuse ''hello first'')"

text \<open>\<open>write\<close>, \<open>ack\<close>, \<open>detach\<close> and \<open>close\<close> share the guards on the id, the instance and the claim.\<close>

fun frame_target :: "app_frame \<Rightarrow> string option" where
  "frame_target (AWrite i line) = Some i"
| "frame_target (AAck i seq) = Some i"
| "frame_target (ADetach i) = Some i"
| "frame_target (AClose i) = Some i"
| "frame_target _ = None"

fun is_ack :: "app_frame \<Rightarrow> bool" where
  "is_ack (AAck i seq) = True"
| "is_ack _ = False"

fun is_close :: "app_frame \<Rightarrow> bool" where
  "is_close (AClose i) = True"
| "is_close _ = False"

fun perform :: "int \<Rightarrow> nat \<Rightarrow> nat \<Rightarrow> app_frame \<Rightarrow> handler" where
  "perform now l u (AWrite i line) = up_fx u (\<lambda>o'. (o', up_write line o'))"
| "perform now l u (AAck i seq) = up_call u (\<lambda>h. (up_ack seq h, []))"
| "perform now l u (ADetach i) = release now l u"
| "perform now l u frame = up_call u close_up"

definition drive :: "int \<Rightarrow> nat \<Rightarrow> string \<Rightarrow> app_frame \<Rightarrow> handler" where
  "drive now l i frame e =
     (case map_of (en_upstreams e) i of
        None \<Rightarrow> fail l ''unknown connection'' (Some i) e
      | Some u \<Rightarrow>
          if u_instance (en_heap e u) \<noteq> lk_instance (en_link e l)
          then fail l ''connection id belongs to another instance'' (Some i) e
          else if u \<in> set (lk_claimed (en_link e l)) \<or> is_ack frame then perform now l u frame e
          else if \<not> is_close frame then fail l ''not attached to this connection'' (Some i) e
          else (case contest l u e of
                  (Some other, e1, o1) \<Rightarrow>
                    (case fail l ''not attached to this connection'' (Some i) e1 of (e2, o2) \<Rightarrow> (e2, o1 @ o2))
                | (None, e1, o1) \<Rightarrow>
                    (case and_then (up_own u (silence now)) (perform now l u frame) e1 of
                       (e2, o2) \<Rightarrow> (e2, o1 @ o2))))"

definition dispatch ::
  "env \<Rightarrow> (engine_frame \<Rightarrow> bool) \<Rightarrow> int \<Rightarrow> nat \<Rightarrow> app_frame \<Rightarrow> handler" where
  "dispatch env ok now l frame e =
     (if \<not> lk_authed (en_link e l) then hello env l frame e
      else case frame of
             AHello h \<Rightarrow> (e, [])
           | APing \<Rightarrow> send l FPong e
           | APong \<Rightarrow> (e, [])
           | AConnect c \<Rightarrow> connect env ok now l c e
           | AList \<Rightarrow> send l (FListing (map (\<lambda>u. info now (en_budget e, en_heap e u)) (map snd (en_upstreams e)))) e
           | AUnknown op \<Rightarrow> fail l (''unknown op '' @ op) None e
           | _ \<Rightarrow> (case frame_target frame of Some i \<Rightarrow> drive now l i frame e | None \<Rightarrow> (e, [])))"

section \<open>Input of a link\<close>

text \<open>The frames of one chunk; a link that has been destroyed reads no further.\<close>

fun dispatch_all ::
  "env \<Rightarrow> (engine_frame \<Rightarrow> bool) \<Rightarrow> int \<Rightarrow> nat \<Rightarrow> app_frame list \<Rightarrow> handler" where
  "dispatch_all env ok now l [] = skip"
| "dispatch_all env ok now l (f # fs) =
     (\<lambda>e. if lk_destroyed (en_link e l) then (e, [])
          else and_then (dispatch env ok now l f) (dispatch_all env ok now l fs) e)"

definition probe_reply :: "nat \<Rightarrow> string" where
  "probe_reply held =
     (let body = ''{\"ok\":true,\"held\":'' @ digits_of held @ ''}''; crlf = [CHR 0x0D, newline]
      in ''HTTP/1.1 200 OK'' @ crlf @ ''Content-Type: application/json'' @ crlf @
         ''Content-Length: '' @ digits_of (utf8_length body) @ crlf @ ''Connection: close'' @ crlf @ crlf @ body)"

definition onData ::
  "env \<Rightarrow> (engine_frame \<Rightarrow> bool) \<Rightarrow> int \<Rightarrow> nat \<Rightarrow> string \<Rightarrow> handler" where
  "onData env ok now l chunk e =
     (let first = \<not> lk_sniffed (en_link e l);
          e1 = upd_link l (\<lambda>k. k\<lparr>lk_lastSeen := now, lk_sniffed := True\<rparr>) e in
      if first \<and> (starts_with chunk ''GET '' \<or> starts_with chunk ''HEAD '')
      then (e1, [LinkEnd l (probe_reply (length (en_upstreams e1)))])
      else case reader_push (ev_json env) (lk_buf (en_link e1 l)) chunk of
             Inl err \<Rightarrow> destroy_link l e1
           | Inr (frames, rest) \<Rightarrow>
               dispatch_all env ok now l (map (ev_decode env) frames)
                 (upd_link l (lk_buf_update (\<lambda>_. rest)) e1))"

definition accept :: "int \<Rightarrow> nat \<Rightarrow> handler" where
  "accept now l e = (e\<lparr>en_links := set_add l (en_links e), en_link := (en_link e)(l := new_link now)\<rparr>, [])"

definition onDrain :: "(engine_frame \<Rightarrow> bool) \<Rightarrow> nat \<Rightarrow> handler" where
  "onDrain ok l e = in_order (map (\<lambda>u e. up_call u (resume (sink_ok ok u e)) e) (lk_claimed (en_link e l))) e"

section \<open>The sweep timer and the shutdown\<close>

definition reapOrphan :: "env \<Rightarrow> int \<Rightarrow> nat \<Rightarrow> handler" where
  "reapOrphan env now u e =
     (let o' = en_heap e u in
      if attached o' \<or> u_closing o' \<or> u_state o' \<noteq> UOpen then (e, [])
      else case u_detachedAt o' of
             Some since \<Rightarrow>
               if since < now - ev_orphanMs env
               then up_call u (quit ''Lurker: no app returned for this connection'') e else (e, [])
           | None \<Rightarrow> (e, []))"

definition reapOrphans :: "env \<Rightarrow> int \<Rightarrow> handler" where
  "reapOrphans env now e =
     (if ev_orphanMs env \<le> 0 then (e, [])
      else in_order (map (reapOrphan env now) (map snd (en_upstreams e))) e)"

definition sweepSilentLinks :: "int \<Rightarrow> handler" where
  "sweepSilentLinks now e =
     in_order (map (\<lambda>l e. if lk_lastSeen (en_link e l) < now - LINK_SILENCE_MS then destroy_link l e else (e, []))
                (en_links e)) e"

text \<open>\<open>shutdown\<close> up to its wait, and what it does after it (\<open>pending\<close> is the list it captured).\<close>

definition shutdown :: "string \<Rightarrow> handler" where
  "shutdown message e =
     and_then (in_order (map destroy_link (en_links e)))
       (\<lambda>e. in_order (map (\<lambda>u e. if u_state (en_heap e u) = UClosed then (e, []) else up_call u (quit message) e)
                       (map snd (en_upstreams e))) (e\<lparr>en_links := []\<rparr>)) e"

definition shutdown_end :: "nat list \<Rightarrow> handler" where
  "shutdown_end waiting = in_order (map (\<lambda>u. up_call u destroy) waiting)"

section \<open>Events\<close>

datatype event =
    EvAccept nat
  | EvLinkData nat string
  | EvDrain nat
  | EvLinkClosed nat
  | EvTcpConnect nat "nat option" endpoint endpoint
  | EvOpen nat "nat option" endpoint endpoint
  | EvTunnelUp nat endpoint endpoint
  | EvDialFailed nat string
  | EvSocketData nat string
  | EvSocketTimeout nat
  | EvSocketError nat string
  | EvSocketClosed nat
  | EvCloseTimer nat
  | EvSweep

fun engine_step :: "env \<Rightarrow> (engine_frame \<Rightarrow> bool) \<Rightarrow> int \<Rightarrow> event \<Rightarrow> handler" where
  "engine_step env ok now (EvAccept l) = accept now l"
| "engine_step env ok now (EvLinkData l chunk) = onData env ok now l chunk"
| "engine_step env ok now (EvDrain l) = onDrain ok l"
| "engine_step env ok now (EvLinkClosed l) = onLinkClose now l"
| "engine_step env ok now (EvTcpConnect u n a b) = up_fx u (on_tcp_connect n a b)"
| "engine_step env ok now (EvOpen u n a b) = up_fx u (on_open n a b)"
| "engine_step env ok now (EvTunnelUp u a b) = up_call u (proxy_tunnel_up a b)"
| "engine_step env ok now (EvDialFailed u why) = up_call u (proxy_dial_failed why)"
| "engine_step env ok now (EvSocketData u chunk) =
     (\<lambda>e. up_call u (on_data (ev_parse env) (sink_ok ok u e) now chunk) e)"
| "engine_step env ok now (EvSocketTimeout u) = up_fx u on_timeout"
| "engine_step env ok now (EvSocketError u why) = up_own u (on_error why)"
| "engine_step env ok now (EvSocketClosed u) = up_call u on_close"
| "engine_step env ok now (EvCloseTimer u) = up_fx u (\<lambda>o'. (o', on_close_timer o'))"
| "engine_step env ok now EvSweep = and_then (sweepSilentLinks now) (reapOrphans env now)"

definition engine_start :: "int \<Rightarrow> engine" where
  "engine_start total_bytes =
     \<lparr>en_upstreams = [], en_links = [], en_link = (\<lambda>_. new_link 0),
      en_heap = (\<lambda>_. new_upstream (\<lambda>s. s) 0 '''' '''' ''''
        \<lparr>do_host = '''', do_port = 0, do_tls = False, do_rejectUnauthorized = True, do_outgoingAddr = None,
         do_ident = None, do_clientCert = None, do_proxy = None\<rparr>),
      en_budget = empty_budget total_bytes, en_releasedBy = [], en_next = 0\<rparr>"

end
