(* ===== verification/Server_Claims.thy ===== *)
theory Server_Claims imports Engine_Server begin

text \<open>
  The claims of \<open>server/engine/server.ts\<close>: a link claims a socket exactly when the socket delivers to
  it, at most one link claims a socket, only an authenticated link of the socket's own instance
  does, and every handler keeps it so.
\<close>

section \<open>The invariant\<close>

text \<open>A socket whose dial threw: out of the map, and nothing will ever happen to it.\<close>

definition stillborn :: "upstream \<Rightarrow> bool" where
  "stillborn u \<longleftrightarrow> u_dialed u \<and> \<not> u_hasSocket u \<and> \<not> u_proxyDialPending u \<and> u_state u = Dialing"

text \<open>\<open>X\<close>: sockets whose sink is being changed.\<close>

definition claims_inv :: "nat set \<Rightarrow> engine \<Rightarrow> bool" where
  "claims_inv X e \<longleftrightarrow>
     (\<forall>l. l \<notin> set (en_links e) \<longrightarrow> lk_claimed (en_link e l) = []) \<and>
     (\<forall>l. \<forall>u \<in> set (lk_claimed (en_link e l)).
        u < en_next e \<and> lk_authed (en_link e l) \<and>
        u_instance (en_heap e u) = lk_instance (en_link e l) \<and>
        (u \<notin> X \<longrightarrow> u_sink (en_heap e u) = Some l) \<and>
        map_of (en_upstreams e) (u_id (en_heap e u)) = Some u) \<and>
     (\<forall>u < en_next e. \<forall>l. u_sink (en_heap e u) = Some l \<longrightarrow>
        u \<in> X \<or> u \<in> set (lk_claimed (en_link e l)) \<or> stillborn (en_heap e u)) \<and>
     (\<forall>i u. map_of (en_upstreams e) i = Some u \<longrightarrow>
        u < en_next e \<and> u_id (en_heap e u) = i \<and> (u \<notin> X \<longrightarrow> \<not> stillborn (en_heap e u)))"

lemma claims_invD:
  assumes "claims_inv X e"
  shows "l \<notin> set (en_links e) \<Longrightarrow> lk_claimed (en_link e l) = []"
    "u \<in> set (lk_claimed (en_link e l)) \<Longrightarrow>
       u < en_next e \<and> lk_authed (en_link e l) \<and> u_instance (en_heap e u) = lk_instance (en_link e l) \<and>
       map_of (en_upstreams e) (u_id (en_heap e u)) = Some u"
    "u \<in> set (lk_claimed (en_link e l)) \<Longrightarrow> u \<notin> X \<Longrightarrow> u_sink (en_heap e u) = Some l"
    "u < en_next e \<Longrightarrow> u_sink (en_heap e u) = Some l \<Longrightarrow> u \<notin> X \<Longrightarrow> \<not> stillborn (en_heap e u) \<Longrightarrow>
       u \<in> set (lk_claimed (en_link e l))"
    "map_of (en_upstreams e) i = Some u \<Longrightarrow> u < en_next e \<and> u_id (en_heap e u) = i"
    "map_of (en_upstreams e) i = Some u \<Longrightarrow> u \<notin> X \<Longrightarrow> \<not> stillborn (en_heap e u)"
  using assms unfolding claims_inv_def by blast+

text \<open>A claim is exclusive.\<close>

lemma claim_exclusive:
  "claims_inv X e \<Longrightarrow> u \<notin> X \<Longrightarrow> u \<in> set (lk_claimed (en_link e l)) \<Longrightarrow>
   u \<in> set (lk_claimed (en_link e l')) \<Longrightarrow> l' = l"
  using claims_invD(3) [of X e u l] claims_invD(3) [of X e u l'] by simp

section \<open>Handlers in sequence\<close>

lemma and_then_simps: "fst (and_then f g e) = fst (g (fst (f e)))" "snd (and_then f g e) = snd (f e) @ snd (g (fst (f e)))"
  by (simp_all add: and_then_def split_beta Let_def)

lemma in_order_inv:
  "(\<And>f e. f \<in> set fs \<Longrightarrow> P e \<Longrightarrow> P (fst (f e))) \<Longrightarrow> P e \<Longrightarrow> P (fst (in_order fs e))"
  by (induction fs arbitrary: e) (auto simp: skip_def and_then_simps)

lemma upd_link_simps [simp]:
  "en_upstreams (upd_link l f e) = en_upstreams e" "en_links (upd_link l f e) = en_links e"
  "en_heap (upd_link l f e) = en_heap e" "en_budget (upd_link l f e) = en_budget e"
  "en_releasedBy (upd_link l f e) = en_releasedBy e" "en_next (upd_link l f e) = en_next e"
  "en_link (upd_link l f e) = (en_link e)(l := f (en_link e l))"
  by (simp_all add: upd_link_def)

lemma fst_send [simp]: "fst (send l f e) = e"
  by (simp add: send_def)

lemma fst_fail [simp]: "fst (fail l m i e) = e"
  by (simp add: fail_def)

lemma fst_offer [simp]: "fst (offer us x e) = e"
proof -
  have "fst (in_order (map (offer_one x) us) e) = e"
    by (induction us) (auto simp: skip_def and_then_simps offer_one_def)
  then show ?thesis by (simp add: offer_def)
qed

lemma unclaim_all_facts [simp]:
  "en_upstreams (unclaim_all u e) = en_upstreams e" "en_links (unclaim_all u e) = en_links e"
  "en_heap (unclaim_all u e) = en_heap e" "en_budget (unclaim_all u e) = en_budget e"
  "en_releasedBy (unclaim_all u e) = en_releasedBy e" "en_next (unclaim_all u e) = en_next e"
proof -
  have "en_upstreams (fold (\<lambda>l. unclaim l u) ls e) = en_upstreams e \<and> en_links (fold (\<lambda>l. unclaim l u) ls e) = en_links e \<and>
    en_heap (fold (\<lambda>l. unclaim l u) ls e) = en_heap e \<and> en_budget (fold (\<lambda>l. unclaim l u) ls e) = en_budget e \<and>
    en_releasedBy (fold (\<lambda>l. unclaim l u) ls e) = en_releasedBy e \<and> en_next (fold (\<lambda>l. unclaim l u) ls e) = en_next e" for ls
    by (induction ls arbitrary: e) (simp_all add: unclaim_def)
  then show "en_upstreams (unclaim_all u e) = en_upstreams e" "en_links (unclaim_all u e) = en_links e"
    "en_heap (unclaim_all u e) = en_heap e" "en_budget (unclaim_all u e) = en_budget e"
    "en_releasedBy (unclaim_all u e) = en_releasedBy e" "en_next (unclaim_all u e) = en_next e"
    by (simp_all add: unclaim_all_def)
qed

lemma set_del_idem [simp]: "set_del x (set_del x xs) = set_del x xs"
  by (simp add: set_del_def)

lemma unclaim_all_link:
  "en_link (unclaim_all u e) l =
     (if l \<in> set (en_links e) then (en_link e l)\<lparr>lk_claimed := set_del u (lk_claimed (en_link e l))\<rparr> else en_link e l)"
proof -
  have "en_link (fold (\<lambda>l. unclaim l u) ls e) l =
    (if l \<in> set ls then (en_link e l)\<lparr>lk_claimed := set_del u (lk_claimed (en_link e l))\<rparr> else en_link e l)" for ls
    by (induction ls arbitrary: e) (auto simp: unclaim_def)
  then show ?thesis by (simp add: unclaim_all_def)
qed

section \<open>Calls that only look at their own socket\<close>

definition emits_closed :: "effect list \<Rightarrow> bool" where
  "emits_closed fx \<longleftrightarrow> (\<exists>err. EmitClosed err \<in> set fx)"

lemma on_closed_idem: "on_closed u (on_closed u e) = on_closed u e"
proof -
  have "en_link (on_closed u (on_closed u e)) = en_link (on_closed u e)"
    by (intro ext) (auto simp: on_closed_def unclaim_all_link)
  moreover have "en_upstreams (on_closed u (on_closed u e)) = en_upstreams (on_closed u e)"
    by (auto simp: on_closed_def delete_conv' map_of_eq_None_iff)
  ultimately show ?thesis
    by (auto simp: on_closed_def intro!: engine.equality)
qed

lemma handle_effects_state:
  "fst (in_order (map (handle_effect u) fx) e) = (if emits_closed fx then on_closed u e else e)"
proof (induction fx arbitrary: e)
  case Nil
  then show ?case by (simp add: skip_def emits_closed_def)
next
  case (Cons x fx)
  have "fst (handle_effect u x e) = (case x of EmitClosed err \<Rightarrow> on_closed u e | _ \<Rightarrow> e)"
    by (cases x) simp_all
  with Cons show ?case
    by (cases x) (auto simp: and_then_simps emits_closed_def on_closed_idem)
qed

definition store :: "nat \<Rightarrow> held \<Rightarrow> engine \<Rightarrow> engine" where
  "store u h e = e\<lparr>en_budget := fst h, en_heap := (en_heap e)(u := snd h)\<rparr>"

lemma up_call_state:
  "fst (up_call u f e) =
     (let r = f (en_budget e, en_heap e u); e1 = store u (fst r) e
      in if emits_closed (snd r) then on_closed u e1 else e1)"
  by (simp add: up_call_def handle_effects_state store_def split_beta Let_def)

definition tame :: "(held \<Rightarrow> held \<times> effect list) \<Rightarrow> held \<Rightarrow> bool" where
  "tame f h \<longleftrightarrow>
     (let u = snd h; v = snd (fst (f h)); closed = emits_closed (snd (f h)) in
      u_id v = u_id u \<and> u_instance v = u_instance u \<and>
      u_sink v = (if closed then None else u_sink u) \<and>
      (\<not> stillborn u \<longrightarrow> \<not> stillborn v))"

lemma claims_store:
  assumes inv: "claims_inv X e" and u: "u < en_next e"
    and v: "u_id (snd h) = u_id (en_heap e u)" "u_instance (snd h) = u_instance (en_heap e u)"
    "u_sink (snd h) = u_sink (en_heap e u)" "\<not> stillborn (en_heap e u)" "\<not> stillborn (snd h)"
  shows "claims_inv X (store u h e)"
proof -
  have heap: "en_heap (store u h e) = (en_heap e)(u := snd h)"
    and rest: "en_links (store u h e) = en_links e" "en_next (store u h e) = en_next e"
      "en_link (store u h e) = en_link e" "en_upstreams (store u h e) = en_upstreams e"
    by (simp_all add: store_def)
  have same: "u_id (en_heap (store u h e) w) = u_id (en_heap e w)"
    "u_instance (en_heap (store u h e) w) = u_instance (en_heap e w)"
    "u_sink (en_heap (store u h e) w) = u_sink (en_heap e w)"
    "stillborn (en_heap (store u h e) w) = stillborn (en_heap e w)" for w
    using v by (auto simp: heap)
  show ?thesis
    unfolding claims_inv_def rest same(1-3)
  proof (intro conjI allI ballI impI)
    show "l \<notin> set (en_links e) \<Longrightarrow> lk_claimed (en_link e l) = []" for l
      by (rule claims_invD(1) [OF inv])
    fix l w assume w: "w \<in> set (lk_claimed (en_link e l))"
    show "w < en_next e" "lk_authed (en_link e l)" "u_instance (en_heap e w) = lk_instance (en_link e l)"
      "map_of (en_upstreams e) (u_id (en_heap e w)) = Some w"
      using claims_invD(2) [OF inv w] by blast+
    show "w \<notin> X \<Longrightarrow> u_sink (en_heap e w) = Some l"
      by (rule claims_invD(3) [OF inv w])
  next
    fix w l assume "w < en_next e" "u_sink (en_heap e w) = Some l"
    then show "w \<in> X \<or> w \<in> set (lk_claimed (en_link e l)) \<or> stillborn (en_heap (store u h e) w)"
      using claims_invD(4) [OF inv, of w l] same(4) [of w] by blast
  next
    fix i w assume w: "map_of (en_upstreams e) i = Some w"
    show "w < en_next e" "u_id (en_heap e w) = i"
      using claims_invD(5) [OF inv w] by blast+
    show "w \<notin> X \<Longrightarrow> \<not> stillborn (en_heap (store u h e) w)"
      using claims_invD(6) [OF inv w] same(4) [of w] by blast
  qed
qed

lemma claims_closed:
  assumes inv: "claims_inv X e" and u: "u < en_next e"
    and v: "u_id (snd h) = u_id (en_heap e u)" "u_instance (snd h) = u_instance (en_heap e u)"
    "u_sink (snd h) = None" "\<not> stillborn (en_heap e u) \<longrightarrow> \<not> stillborn (snd h)"
  shows "claims_inv X (on_closed u (store u h e))"
proof -
  let ?e = "on_closed u (store u h e)"
  have heap: "en_heap ?e = (en_heap e)(u := snd h)" and links: "en_links ?e = en_links e" "en_next ?e = en_next e"
    by (simp_all add: on_closed_def store_def)
  have ups: "map_of (en_upstreams ?e) = (if map_of (en_upstreams e) (u_id (en_heap e u)) = Some u
      then (map_of (en_upstreams e))(u_id (en_heap e u) := None) else map_of (en_upstreams e))"
    using v(1) by (auto simp: on_closed_def store_def delete_conv')
  have cl: "set (lk_claimed (en_link ?e l)) = set (lk_claimed (en_link e l)) - {u}" for l
    using claims_invD(1) [OF inv, of l] by (auto simp: on_closed_def store_def unclaim_all_link)
  have lk: "lk_authed (en_link ?e l) = lk_authed (en_link e l)" "lk_instance (en_link ?e l) = lk_instance (en_link e l)" for l
    by (auto simp: on_closed_def store_def unclaim_all_link)
  show ?thesis
    unfolding claims_inv_def
  proof (intro conjI allI ballI impI)
    fix l assume "l \<notin> set (en_links ?e)"
    then have "set (lk_claimed (en_link ?e l)) = {}"
      using cl [of l] claims_invD(1) [OF inv, of l] links by simp
    then show "lk_claimed (en_link ?e l) = []" by simp
  next
    fix l w assume "w \<in> set (lk_claimed (en_link ?e l))"
    then have w: "w \<in> set (lk_claimed (en_link e l))" "w \<noteq> u" using cl by auto
    note d = claims_invD(2) [OF inv w(1)]
    show "w < en_next ?e" "lk_authed (en_link ?e l)" "u_instance (en_heap ?e w) = lk_instance (en_link ?e l)"
      using d w(2) by (simp_all add: heap links lk)
    show "w \<notin> X \<Longrightarrow> u_sink (en_heap ?e w) = Some l"
      using claims_invD(3) [OF inv w(1)] w(2) by (simp add: heap)
    show "map_of (en_upstreams ?e) (u_id (en_heap ?e w)) = Some w"
      using d w(2) by (auto simp: ups heap)
  next
    fix w l assume "w < en_next ?e" "u_sink (en_heap ?e w) = Some l"
    then show "w \<in> X \<or> w \<in> set (lk_claimed (en_link ?e l)) \<or> stillborn (en_heap ?e w)"
      using claims_invD(4) [OF inv, of w l] v(3) cl by (auto simp: heap links split: if_splits)
  next
    fix i w assume "map_of (en_upstreams ?e) i = Some w"
    then have w: "map_of (en_upstreams e) i = Some w" "w \<noteq> u \<or> stillborn (en_heap e u) \<or> \<not> stillborn (snd h)"
      using v(4) by (auto simp: ups split: if_splits)
    note d = claims_invD(5,6) [OF inv w(1)]
    show "w < en_next ?e" "u_id (en_heap ?e w) = i" "w \<notin> X \<Longrightarrow> \<not> stillborn (en_heap ?e w)"
      using d w(2) v(1,4) by (auto simp: heap links)
  qed
qed

lemma claims_up_call:
  assumes "claims_inv X e" "u < en_next e" "\<not> stillborn (en_heap e u)" "tame f (en_budget e, en_heap e u)"
  shows "claims_inv X (fst (up_call u f e))"
  using assms(3,4) claims_store [OF assms(1,2), of "fst (f (en_budget e, en_heap e u))"]
    claims_closed [OF assms(1,2), of "fst (f (en_budget e, en_heap e u))"]
  by (auto simp: up_call_state tame_def Let_def)

section \<open>The operations of a socket are tame\<close>

definition same_core :: "upstream \<Rightarrow> upstream \<Rightarrow> bool" where
  "same_core u v \<longleftrightarrow> u_uid v = u_uid u \<and> u_id v = u_id u \<and> u_instance v = u_instance u \<and> u_sink v = u_sink u \<and>
     u_state v = u_state u \<and> u_dialed v = u_dialed u \<and> u_hasSocket v = u_hasSocket u \<and>
     u_proxyDialPending v = u_proxyDialPending u"

lemma same_core_refl [simp]: "same_core u u"
  by (simp add: same_core_def)

lemma same_core_trans: "same_core u v \<Longrightarrow> same_core v w \<Longrightarrow> same_core u w"
  by (simp add: same_core_def)

lemma same_core_stillborn: "same_core u v \<Longrightarrow> stillborn v = stillborn u"
  by (simp add: same_core_def stillborn_def)

lemma tame_core: "same_core (snd h) (snd (fst (f h))) \<Longrightarrow> \<not> emits_closed (snd (f h)) \<Longrightarrow> tame f h"
  by (simp add: tame_def Let_def same_core_stillborn) (simp add: same_core_def)

lemma emits_closed_simps [simp]:
  "\<not> emits_closed []" "emits_closed (xs @ ys) \<longleftrightarrow> emits_closed xs \<or> emits_closed ys"
  "emits_closed (SendTo l f # fx) = emits_closed fx" "emits_closed (SocketWrite x # fx) = emits_closed fx"
  "emits_closed (SocketEnd # fx) = emits_closed fx" "emits_closed (SocketDestroy # fx) = emits_closed fx"
  "emits_closed (EmitOpen a b # fx) = emits_closed fx" "emits_closed (EmitRegistered r # fx) = emits_closed fx"
  "emits_closed (RegisterIdent a b i # fx) = emits_closed fx" "emits_closed (UnregisterIdent n # fx) = emits_closed fx"
  "emits_closed (EmitClosed err # fx)"
  by (auto simp: emits_closed_def)

lemma core_own:
  "same_core u (noteHostmask p u)" "same_core u (trackCaps ps u)" "same_core u (recordBurst l ps f u)"
  by (auto simp: same_core_def noteHostmask_def trackCaps_def recordBurst_def Let_def split: option.splits)

lemma core_track: "same_core u (snd (track c p ps u))"
  using core_own(1) [of _ p] by (auto simp: track_def Let_def same_core_def)

lemma core_own_state: "same_core u (fst (own_state msg line u))" "\<not> emits_closed (snd (own_state msg line u))"
proof -
  let ?c = "to_upper (msg_command msg)" and ?ps = "msg_params msg"
  define u1 where "u1 = (if ?c = ''001''
                then u\<lparr>u_nick := truthy (nth_param 0 ?ps), u_serverName := truthy (msg_prefix msg)\<rparr> else u)"
  define u2 where "u2 = (if ?c = ''CAP'' then trackCaps ?ps u1 else u1)"
  have eq: "tracked msg u = (if u_nick u2 \<noteq> None then track ?c (msg_prefix msg) ?ps u2 else (False, u2))"
    unfolding tracked_def u2_def u1_def by (simp add: Let_def)
  have "same_core u u2"
    using core_own(2) [of u1 ?ps] by (auto simp: u1_def u2_def same_core_def)
  then have "same_core u (snd (tracked msg u))"
    unfolding eq using core_track [of u2 ?c "msg_prefix msg" ?ps] by (auto simp: same_core_def)
  then show "same_core u (fst (own_state msg line u))"
    using core_own(3) [of "snd (tracked msg u)" line ?ps]
    by (auto simp: own_state_def Let_def split_beta end_burst_def same_core_def)
  show "\<not> emits_closed (snd (own_state msg line u))"
    by (simp add: own_state_def Let_def split_beta)
qed

lemma core_send: "same_core u (fst (send_lines ok l bs u)) \<and> \<not> emits_closed (snd (send_lines ok l bs u))"
proof (induction ok l bs u rule: send_lines.induct)
  case (1 ok l u)
  then show ?case by (simp add: sendLive_def same_core_def)
next
  case (2 ok l b bs u)
  then show ?case
    by (auto simp: sendLive_def same_core_def Let_def split_beta split: option.split)
qed

lemma core_flush: "same_core (snd h) (snd (fst (flush ok h)))" "\<not> emits_closed (snd (flush ok h))"
proof -
  have "same_core (snd h) (snd (fst (flush ok h))) \<and> \<not> emits_closed (snd (flush ok h))"
  proof (cases h)
    case (Pair w u)
    show ?thesis
    proof (cases "u_stalled u \<or> u_sink u = None")
      case False
      then obtain l where l: "u_sink u = Some l" "\<not> u_stalled u" by auto
      show ?thesis
        unfolding Pair flush_def using l core_send [of u ok l]
        by (auto simp: Let_def split_beta same_core_def split: option.split)
    qed (auto simp: Pair flush_def split: option.splits)
  qed
  then show "same_core (snd h) (snd (fst (flush ok h)))" "\<not> emits_closed (snd (flush ok h))" by blast+
qed

lemma core_on_line:
  "same_core (snd h) (snd (fst (on_line parse ok now line h))) \<and> \<not> emits_closed (snd (on_line parse ok now line h))"
proof (cases h)
  case (Pair w u)
  have "same_core u (mark_burst_end q (fst (own_state msg line u)))" for msg q
    using core_own_state(1) [of u msg line] by (simp add: mark_burst_end_def same_core_def)
  moreover have "same_core u (snd (fst (flush ok (w1, mark_burst_end q (fst (own_state msg line u))))))" for w1 q msg
    using same_core_trans [OF calculation core_flush(1) [of "(w1, mark_burst_end q (fst (own_state msg line u)))" ok, unfolded snd_conv]] .
  ultimately show ?thesis
    using core_own_state(2) core_flush(2)
    by (auto simp: Pair on_line_def Let_def split_beta same_core_def rawWrite_def split: option.split)
qed

lemma core_data:
  "same_core (snd h) (snd (fst (data_lines parse ok now buf h))) \<and> \<not> emits_closed (snd (data_lines parse ok now buf h))"
proof (induction parse ok now buf h rule: data_lines.induct)
  case (1 parse ok now buf h)
  show ?case
  proof (cases "index_of newline buf")
    case None
    then show ?thesis
      unfolding data_lines.simps [of parse ok now buf h]
      by (simp add: Let_def split_beta dropPeer_def same_core_def)
  next
    case (Some nl)
    let ?line = "strip_cr (take nl buf)" and ?rest = "drop (Suc nl) buf"
    consider "MAX_IRC_LINE < length ?line" | "\<not> MAX_IRC_LINE < length ?line" "?line = ''''" |
      "\<not> MAX_IRC_LINE < length ?line" "?line \<noteq> ''''" by blast
    then show ?thesis
    proof cases
      case 1
      with Some show ?thesis
        unfolding data_lines.simps [of parse ok now buf h]
        by (simp add: Let_def split_beta dropPeer_def same_core_def)
    next
      case 2
      with Some "1.IH"(1) [OF Some refl refl] show ?thesis
        unfolding data_lines.simps [of parse ok now buf h] by (simp add: Let_def)
    next
      case 3
      obtain h1 fx where l: "on_line parse ok now ?line h = (h1, fx)" by fastforce
      note ih = "1.IH"(2) [OF Some refl refl 3 l [symmetric] refl]
      note step = core_on_line [of h parse ok now ?line, unfolded l fst_conv snd_conv]
      have "same_core (snd h) (snd (fst (data_lines parse ok now ?rest h1)))"
        using same_core_trans [OF conjunct1 [OF step] conjunct1 [OF ih]] .
      with ih step Some 3 l show ?thesis
        unfolding data_lines.simps [of parse ok now buf h]
        by (simp add: Let_def split_beta)
    qed
  qed
qed

lemma tame_on_close: "tame on_close h"
  by (cases h) (auto simp: tame_def on_close_def stillborn_def split: option.split)

lemma tame_destroy: "tame destroy h"
proof (cases h)
  case (Pair w u)
  let ?u = "u\<lparr>u_closing := True\<rparr>"
  have "stillborn ?u = stillborn u" by (simp add: stillborn_def)
  with tame_on_close [of "(w, ?u)"] show ?thesis
    by (simp add: tame_def destroy_def Pair Let_def split_beta)
qed

lemma tame_close_up: "tame close_up h"
proof (cases h)
  case (Pair w u)
  let ?u = "u\<lparr>u_closing := True, u_quietClose := True\<rparr>"
  have "stillborn ?u = stillborn u" "stillborn (?u\<lparr>u_closeTimer := True\<rparr>) = stillborn u"
    by (simp_all add: stillborn_def)
  with tame_destroy [of "(w, ?u)"] show ?thesis
    by (simp add: tame_def close_up_def Pair Let_def split_beta)
qed

lemma tame_quit: "tame (quit m) h"
  using tame_close_up [of h] by (simp add: tame_def quit_def Let_def split_beta rawWrite_def)

lemma tame_dial_failed: "tame (proxy_dial_failed why) h"
proof (cases h)
  case (Pair w u)
  let ?u = "u\<lparr>u_proxyDialPending := False, u_lastError := Some why\<rparr>"
  show ?thesis
    using tame_on_close [of "(w, ?u)"]
    by (auto simp: tame_def proxy_dial_failed_def Pair Let_def on_close_def stillborn_def)
qed

lemma tame_tunnel_up: "tame (proxy_tunnel_up a b) h"
  by (cases h) (auto simp: tame_def proxy_tunnel_up_def Let_def on_close_def stillborn_def split: option.split)

lemma tame_data: "tame (on_data parse ok now chunk) h"
  using core_data [of h parse ok now] by (auto simp: on_data_def intro!: tame_core)

lemma tame_resume: "tame (resume ok) h"
  using core_flush [where h = "(fst h, (snd h)\<lparr>u_stalled := False\<rparr>)" and ok = ok]
  by (auto simp: resume_def same_core_def intro!: tame_core)

lemma core_flushAfterAttach:
  "same_core (snd h) (snd (fst (flushAfterAttach ok h)))" "\<not> emits_closed (snd (flushAfterAttach ok h))"
proof -
  obtain w u where h: "h = (w, u)" by (cases h)
  have "same_core u (snd (fst (flush ok (w, u\<lparr>u_liveAfterSeq := t\<rparr>))))" for t
    using core_flush(1) [of "(w, u\<lparr>u_liveAfterSeq := t\<rparr>)" ok] by (simp add: same_core_def)
  with core_flush(1) [of "(w, u)" ok] show "same_core (snd h) (snd (fst (flushAfterAttach ok h)))"
    by (auto simp: h flushAfterAttach_def Let_def split_beta sendLive_def split: option.split)
  show "\<not> emits_closed (snd (flushAfterAttach ok h))"
    using core_flush(2)
    by (auto simp: h flushAfterAttach_def Let_def split_beta sendLive_def split: option.split)
qed

lemma tame_flushAfterAttach: "tame (flushAfterAttach ok) h"
  by (rule tame_core [OF core_flushAfterAttach])

lemma tame_ack: "tame (\<lambda>h. (up_ack s h, [])) h"
  by (rule tame_core) (simp_all add: up_ack_def)

lemma tame_tcp: "tame (\<lambda>(w, o'). let (o'', fx) = on_tcp_connect n a b o' in ((w, o''), fx)) h"
  by (cases h, rule tame_core) (auto simp: on_tcp_connect_def Let_def same_core_def split: option.split)

lemma tame_open: "tame (\<lambda>(w, o'). let (o'', fx) = on_open n a b o' in ((w, o''), fx)) h"
proof (cases h)
  case (Pair w u)
  have tcp: "same_core u (fst (on_tcp_connect n a b u))" "\<not> emits_closed (snd (on_tcp_connect n a b u))" for u
    by (auto simp: on_tcp_connect_def Let_def same_core_def split: option.split)
  show ?thesis
    using tcp [of "u\<lparr>u_state := UOpen\<rparr>"]
    by (auto simp: Pair tame_def on_open_def Let_def split_beta same_core_def stillborn_def split: option.split)
qed

lemma tame_small:
  "tame (\<lambda>(w, o'). let (o'', fx) = on_timeout o' in ((w, o''), fx)) h"
  "tame (\<lambda>(w, o'). ((w, on_error why o'), [])) h"
  "tame (\<lambda>(w, o'). ((w, o'), on_close_timer o')) h"
  "tame (\<lambda>(w, o'). ((w, o'), up_write line o')) h"
  by (cases h, rule tame_core; auto simp: on_timeout_def dropPeer_def on_error_def on_close_timer_def
      up_write_def rawWrite_def same_core_def)+

section \<open>Handlers that move claims\<close>

text \<open>A link's flags do not matter to the invariant.\<close>

lemma claims_upd_link:
  assumes "claims_inv X e" "lk_claimed (f (en_link e l)) = lk_claimed (en_link e l)"
    "lk_authed (f (en_link e l)) = lk_authed (en_link e l)" "lk_instance (f (en_link e l)) = lk_instance (en_link e l)"
  shows "claims_inv X (upd_link l f e)"
proof -
  have "lk_claimed (en_link (upd_link l f e) k) = lk_claimed (en_link e k)"
    "lk_authed (en_link (upd_link l f e) k) = lk_authed (en_link e k)"
    "lk_instance (en_link (upd_link l f e) k) = lk_instance (en_link e k)" for k
    using assms(2-4) by simp_all
  with assms(1) show ?thesis
    unfolding claims_inv_def upd_link_simps(1-6) by simp
qed

lemma claims_destroy_link: "claims_inv X e \<Longrightarrow> claims_inv X (fst (destroy_link l e))"
  by (simp add: destroy_link_def claims_upd_link)

lemma claims_mono: "claims_inv X e \<Longrightarrow> X \<subseteq> Y \<Longrightarrow> claims_inv Y e"
  unfolding claims_inv_def by blast

lemma claims_drop:
  assumes inv: "claims_inv X e"
    and same: "en_upstreams e' = en_upstreams e" "en_heap e' = en_heap e" "en_next e' = en_next e" "en_links e' = en_links e"
    "\<And>l. lk_authed (en_link e' l) = lk_authed (en_link e l)" "\<And>l. lk_instance (en_link e' l) = lk_instance (en_link e l)"
    and sub: "\<And>l. set (lk_claimed (en_link e' l)) \<subseteq> set (lk_claimed (en_link e l))"
    and keep: "\<And>l w. w \<in> set (lk_claimed (en_link e l)) \<Longrightarrow> w = u \<or> w \<in> set (lk_claimed (en_link e' l))"
  shows "claims_inv (insert u X) e'"
  unfolding claims_inv_def same
proof (intro conjI allI ballI impI)
  show "lk_claimed (en_link e' l) = []" if "l \<notin> set (en_links e)" for l
    using claims_invD(1) [OF inv that] sub [of l] by simp
  fix l w assume "w \<in> set (lk_claimed (en_link e' l))"
  then have w: "w \<in> set (lk_claimed (en_link e l))" using sub by blast
  show "w < en_next e" "lk_authed (en_link e l)" "u_instance (en_heap e w) = lk_instance (en_link e l)"
    "map_of (en_upstreams e) (u_id (en_heap e w)) = Some w"
    using claims_invD(2) [OF inv w] by blast+
  show "w \<notin> insert u X \<Longrightarrow> u_sink (en_heap e w) = Some l"
    using claims_invD(3) [OF inv w] by blast
next
  fix w l assume "w < en_next e" "u_sink (en_heap e w) = Some l"
  then show "w \<in> insert u X \<or> w \<in> set (lk_claimed (en_link e' l)) \<or> stillborn (en_heap e w)"
    using claims_invD(4) [OF inv, of w l] keep by blast
next
  fix i w assume w: "map_of (en_upstreams e) i = Some w"
  show "w < en_next e" "u_id (en_heap e w) = i" using claims_invD(5) [OF inv w] by blast+
  show "w \<notin> insert u X \<Longrightarrow> \<not> stillborn (en_heap e w)" using claims_invD(6) [OF inv w] by blast
qed

lemma claims_unclaim: "claims_inv X e \<Longrightarrow> claims_inv (insert u X) (unclaim l u e)"
  by (erule claims_drop) (auto simp: unclaim_def)

lemma claims_unclaim_all: "claims_inv X e \<Longrightarrow> claims_inv (insert u X) (unclaim_all u e)"
  by (erule claims_drop) (auto simp: unclaim_all_link)

text \<open>Once nobody claims \<open>u\<close>, cutting its sink settles it.\<close>

definition unclaimed :: "nat \<Rightarrow> engine \<Rightarrow> bool" where
  "unclaimed u e \<longleftrightarrow> (\<forall>l. u \<notin> set (lk_claimed (en_link e l)))"

lemma unclaimed_all: "claims_inv X e \<Longrightarrow> unclaimed u (unclaim_all u e)"
  by (auto simp: unclaimed_def unclaim_all_link claims_invD(1))

lemma claims_cut:
  assumes inv: "claims_inv (insert u X) e" and un: "unclaimed u e"
    and v: "u_id v = u_id (en_heap e u)" "u_instance v = u_instance (en_heap e u)" "u_sink v = None"
    "stillborn v = stillborn (en_heap e u)" "u \<notin> X \<Longrightarrow> \<not> stillborn (en_heap e u)"
  shows "claims_inv X (store u (en_budget e, v) e)"
proof -
  let ?e = "store u (en_budget e, v) e"
  have rest: "en_links ?e = en_links e" "en_next ?e = en_next e" "en_link ?e = en_link e" "en_upstreams ?e = en_upstreams e"
    by (simp_all add: store_def)
  have same: "u_id (en_heap ?e w) = u_id (en_heap e w)" "u_instance (en_heap ?e w) = u_instance (en_heap e w)"
    "stillborn (en_heap ?e w) = stillborn (en_heap e w)" for w
    using v by (auto simp: store_def)
  have sink: "u_sink (en_heap ?e w) = (if w = u then None else u_sink (en_heap e w))" for w
    using v by (simp add: store_def)
  show ?thesis
    unfolding claims_inv_def rest same
  proof (intro conjI allI ballI impI)
    show "l \<notin> set (en_links e) \<Longrightarrow> lk_claimed (en_link e l) = []" for l
      by (rule claims_invD(1) [OF inv])
    fix l w assume w: "w \<in> set (lk_claimed (en_link e l))"
    show "w < en_next e" "lk_authed (en_link e l)" "u_instance (en_heap e w) = lk_instance (en_link e l)"
      "map_of (en_upstreams e) (u_id (en_heap e w)) = Some w"
      using claims_invD(2) [OF inv w] by blast+
    show "w \<notin> X \<Longrightarrow> u_sink (en_heap ?e w) = Some l"
      using claims_invD(3) [OF inv w] un w by (auto simp: sink unclaimed_def)
  next
    fix w l assume "w < en_next e" "u_sink (en_heap ?e w) = Some l"
    then show "w \<in> X \<or> w \<in> set (lk_claimed (en_link e l)) \<or> stillborn (en_heap e w)"
      using claims_invD(4) [OF inv, of w l] by (auto simp: sink split: if_splits)
  next
    fix i w assume w: "map_of (en_upstreams e) i = Some w"
    show "w < en_next e" "u_id (en_heap e w) = i" using claims_invD(5) [OF inv w] by blast+
    show "w \<notin> X \<Longrightarrow> \<not> stillborn (en_heap e w)"
      using claims_invD(6) [OF inv w] v(5) by (cases "w = u") auto
  qed
qed

lemma up_own_state: "fst (up_own u f e) = store u (en_budget e, f (en_heap e u)) e"
  by (simp add: up_own_def up_call_state Let_def)

lemma silence_facts [simp]:
  "u_sink (silence now u) = None" "u_id (silence now u) = u_id u" "u_instance (silence now u) = u_instance u"
  "stillborn (silence now u) = stillborn u"
  "u_sink (detach now u) = None" "u_id (detach now u) = u_id u" "u_instance (detach now u) = u_instance u"
  "stillborn (detach now u) = stillborn u"
  by (simp_all add: silence_def detach_def stillborn_def)

lemma claims_silence:
  "claims_inv (insert u X) e \<Longrightarrow> unclaimed u e \<Longrightarrow> \<not> stillborn (en_heap e u) \<Longrightarrow>
   claims_inv X (fst (up_own u (silence now) e))"
  unfolding up_own_state by (rule claims_cut) simp_all

lemma claims_detach:
  "claims_inv (insert u X) e \<Longrightarrow> unclaimed u e \<Longrightarrow> \<not> stillborn (en_heap e u) \<Longrightarrow>
   claims_inv X (fst (up_own u (detach now) e))"
  unfolding up_own_state by (rule claims_cut) simp_all

text \<open>Frame facts of a call.\<close>

lemma up_call_frame:
  "en_links (fst (up_call u f e)) = en_links e" "en_next (fst (up_call u f e)) = en_next e"
  "lk_authed (en_link (fst (up_call u f e)) l) = lk_authed (en_link e l)"
  "lk_instance (en_link (fst (up_call u f e)) l) = lk_instance (en_link e l)"
  "set (lk_claimed (en_link (fst (up_call u f e)) l)) \<subseteq> set (lk_claimed (en_link e l))"
  "map_of (en_upstreams (fst (up_call u f e))) i = Some w \<Longrightarrow> map_of (en_upstreams e) i = Some w"
  "w \<noteq> u \<Longrightarrow> en_heap (fst (up_call u f e)) w = en_heap e w"
  "en_heap (fst (up_call u f e)) u = snd (fst (f (en_budget e, en_heap e u)))"
  by (auto simp: up_call_state Let_def on_closed_def store_def unclaim_all_link delete_conv' split: if_splits)

lemma unclaimed_up_call: "unclaimed w e \<Longrightarrow> unclaimed w (fst (up_call u f e))"
  using up_call_frame(5) unfolding unclaimed_def by blast

lemma up_own_frame:
  "en_links (fst (up_own u f e)) = en_links e" "en_next (fst (up_own u f e)) = en_next e"
  "en_link (fst (up_own u f e)) = en_link e" "en_upstreams (fst (up_own u f e)) = en_upstreams e"
  "en_heap (fst (up_own u f e)) = (en_heap e)(u := f (en_heap e u))"
  by (simp_all add: up_own_state store_def)

lemma unclaimed_up_own [simp]: "unclaimed w (fst (up_own u f e)) = unclaimed w e"
  by (simp add: unclaimed_def up_own_frame)

lemma claims_discard:
  assumes "claims_inv (insert u X) e" "unclaimed u e" "\<not> stillborn (en_heap e u)" "u < en_next e"
  shows "claims_inv X (fst (discard now u e))" "unclaimed u (fst (discard now u e))"
    "en_links (fst (discard now u e)) = en_links e" "en_next (fst (discard now u e)) = en_next e"
    "lk_authed (en_link (fst (discard now u e)) l) = lk_authed (en_link e l)"
    "lk_instance (en_link (fst (discard now u e)) l) = lk_instance (en_link e l)"
    "map_of (en_upstreams (fst (discard now u e))) i = Some w \<Longrightarrow> map_of (en_upstreams e) i = Some w"
    "w \<noteq> u \<Longrightarrow> en_heap (fst (discard now u e)) w = en_heap e w"
proof -
  let ?e = "fst (up_own u (silence now) e)"
  have "claims_inv X ?e" by (rule claims_silence [OF assms(1-3)])
  moreover have "\<not> stillborn (en_heap ?e u)" "u < en_next ?e" using assms(3,4) by (simp_all add: up_own_frame)
  ultimately show "claims_inv X (fst (discard now u e))"
    unfolding discard_def and_then_simps by (intro claims_up_call tame_close_up)
  show "unclaimed u (fst (discard now u e))"
    unfolding discard_def and_then_simps using assms(2) by (intro unclaimed_up_call) simp
  show "map_of (en_upstreams (fst (discard now u e))) i = Some w \<Longrightarrow> map_of (en_upstreams e) i = Some w"
    using up_call_frame(6) [of u close_up ?e i w] by (simp add: discard_def and_then_simps up_own_frame)
  show "w \<noteq> u \<Longrightarrow> en_heap (fst (discard now u e)) w = en_heap e w"
    by (simp add: discard_def and_then_simps up_own_frame up_call_frame)
qed (simp_all add: discard_def and_then_simps up_own_frame up_call_frame)

text \<open>The single claimant becomes the sink.\<close>

definition sole_claim :: "nat \<Rightarrow> nat \<Rightarrow> engine \<Rightarrow> bool" where
  "sole_claim l u e \<longleftrightarrow> (\<forall>k. u \<in> set (lk_claimed (en_link e k)) \<longleftrightarrow> k = l)"

lemma claims_set_sink:
  assumes inv: "claims_inv (insert u X) e" and sole: "sole_claim l u e"
    and v: "u_id v = u_id (en_heap e u)" "u_instance v = u_instance (en_heap e u)" "u_sink v = Some l"
    "stillborn v = stillborn (en_heap e u)" "\<not> stillborn (en_heap e u)"
  shows "claims_inv X (store u (w0, v) e)"
proof -
  let ?e = "store u (w0, v) e"
  have rest: "en_links ?e = en_links e" "en_next ?e = en_next e" "en_link ?e = en_link e" "en_upstreams ?e = en_upstreams e"
    by (simp_all add: store_def)
  have same: "u_id (en_heap ?e w) = u_id (en_heap e w)" "u_instance (en_heap ?e w) = u_instance (en_heap e w)"
    "stillborn (en_heap ?e w) = stillborn (en_heap e w)" for w
    using v by (auto simp: store_def)
  have sink: "u_sink (en_heap ?e w) = (if w = u then Some l else u_sink (en_heap e w))" for w
    using v by (simp add: store_def)
  show ?thesis
    unfolding claims_inv_def rest same
  proof (intro conjI allI ballI impI)
    show "k \<notin> set (en_links e) \<Longrightarrow> lk_claimed (en_link e k) = []" for k
      by (rule claims_invD(1) [OF inv])
    fix k w assume w: "w \<in> set (lk_claimed (en_link e k))"
    show "w < en_next e" "lk_authed (en_link e k)" "u_instance (en_heap e w) = lk_instance (en_link e k)"
      "map_of (en_upstreams e) (u_id (en_heap e w)) = Some w"
      using claims_invD(2) [OF inv w] by blast+
    show "w \<notin> X \<Longrightarrow> u_sink (en_heap ?e w) = Some k"
      using claims_invD(3) [OF inv w] sole w by (auto simp: sink sole_claim_def)
  next
    fix w k assume "w < en_next e" "u_sink (en_heap ?e w) = Some k"
    then show "w \<in> X \<or> w \<in> set (lk_claimed (en_link e k)) \<or> stillborn (en_heap e w)"
      using claims_invD(4) [OF inv, of w k] sole by (auto simp: sink sole_claim_def split: if_splits)
  next
    fix i w assume w: "map_of (en_upstreams e) i = Some w"
    show "w < en_next e" "u_id (en_heap e w) = i" using claims_invD(5) [OF inv w] by blast+
    show "w \<notin> X \<Longrightarrow> \<not> stillborn (en_heap e w)"
      using claims_invD(6) [OF inv w] v(5) by (cases "w = u") auto
  qed
qed

lemma attach_core:
  "u_id (snd (fst (attach now l h))) = u_id (snd h)" "u_instance (snd (fst (attach now l h))) = u_instance (snd h)"
  "u_sink (snd (fst (attach now l h))) = Some l" "stillborn (snd (fst (attach now l h))) = stillborn (snd h)"
  by (cases h; auto simp: attach_def Let_def stillborn_def split: option.split)+

lemma claims_attach:
  assumes "claims_inv (insert u X) e" "sole_claim l u e" "\<not> stillborn (en_heap e u)"
  shows "claims_inv X (fst (up_call u (\<lambda>h. (fst (attach now l h), [])) e))"
    "sole_claim l u (fst (up_call u (\<lambda>h. (fst (attach now l h), [])) e))"
    "\<not> stillborn (en_heap (fst (up_call u (\<lambda>h. (fst (attach now l h), [])) e)) u)"
proof -
  obtain w0 v where v: "fst (attach now l (en_budget e, en_heap e u)) = (w0, v)" by fastforce
  note ac = attach_core [of now l "(en_budget e, en_heap e u)", unfolded v snd_conv]
  have st: "fst (up_call u (\<lambda>h. (fst (attach now l h), [])) e) = store u (w0, v) e"
    by (simp add: up_call_state v Let_def)
  show "claims_inv X (fst (up_call u (\<lambda>h. (fst (attach now l h), [])) e))"
    unfolding st using ac assms by (intro claims_set_sink [OF assms(1,2)]) simp_all
  show "sole_claim l u (fst (up_call u (\<lambda>h. (fst (attach now l h), [])) e))"
    unfolding st using assms(2) by (simp add: sole_claim_def store_def)
  show "\<not> stillborn (en_heap (fst (up_call u (\<lambda>h. (fst (attach now l h), [])) e)) u)"
    unfolding st using ac assms(3) by (simp add: store_def)
qed

section \<open>A fresh dial\<close>

definition born :: "env \<Rightarrow> nat \<Rightarrow> string \<Rightarrow> dial_opts \<Rightarrow> engine \<Rightarrow> engine" where
  "born env l i opts e =
     claim l (en_next e)
       (e\<lparr>en_next := Suc (en_next e),
          en_budget := new_buffer (en_next e) (ev_bufferBytes env) (en_budget e),
          en_heap := (en_heap e)(en_next e := new_upstream (ev_digest env) (en_next e) (ev_socketId env (en_next e)) i
                                   (lk_instance (en_link e l)) opts),
          en_upstreams := AList.update i (en_next e) (en_upstreams e)\<rparr>)"

lemma fresh_dial_born:
  "fresh_dial env now l i opts e =
     and_then (up_call (en_next e) (\<lambda>h. (fst (attach now l h), [])))
       (and_then (send l (FDialing i))
         (\<lambda>e'. case (do_proxy opts, ev_dialThrows env opts) of
                 (None, Some message) \<Rightarrow>
                   and_then (up_own (en_next e) (u_dialed_update (\<lambda>_. True)))
                     (\<lambda>e'. send l (FClosed i (Some message))
                        (unclaim l (en_next e) (e'\<lparr>en_upstreams := AList.delete i (en_upstreams e')\<rparr>))) e'
               | _ \<Rightarrow> up_own (en_next e) (\<lambda>o'. case dial o' of Some o'' \<Rightarrow> o'' | None \<Rightarrow> o') e'))
       (born env l i opts e)"
  by (simp add: fresh_dial_def born_def Let_def)

text \<open>Whoever is in the map under the id is nobody's any more.\<close>

definition id_free :: "string \<Rightarrow> engine \<Rightarrow> bool" where
  "id_free i e \<longleftrightarrow> (\<forall>u. map_of (en_upstreams e) i = Some u \<longrightarrow> unclaimed u e)"

lemma born_frame:
  "en_links (born env l i opts e) = en_links e" "en_next (born env l i opts e) = Suc (en_next e)"
  "map_of (en_upstreams (born env l i opts e)) = (map_of (en_upstreams e))(i \<mapsto> en_next e)"
  "en_heap (born env l i opts e) = (en_heap e)(en_next e := new_upstream (ev_digest env) (en_next e)
      (ev_socketId env (en_next e)) i (lk_instance (en_link e l)) opts)"
  "lk_authed (en_link (born env l i opts e) k) = lk_authed (en_link e k)"
  "lk_instance (en_link (born env l i opts e) k) = lk_instance (en_link e k)"
  "set (lk_claimed (en_link (born env l i opts e) k)) =
     (if k = l then insert (en_next e) (set (lk_claimed (en_link e k))) else set (lk_claimed (en_link e k)))"
  by (auto simp: born_def claim_def update_conv')

lemma claims_born:
  assumes inv: "claims_inv {} e" and l: "lk_authed (en_link e l)" "l \<in> set (en_links e)" and free: "id_free i e"
  shows "claims_inv {en_next e} (born env l i opts e)" "sole_claim l (en_next e) (born env l i opts e)"
    "\<not> stillborn (en_heap (born env l i opts e) (en_next e))"
proof -
  let ?u = "en_next e" and ?e = "born env l i opts e"
  note fr = born_frame [of env l i opts e]
  have old: "w < ?u \<and> u_id (en_heap e w) \<noteq> i" if "w \<in> set (lk_claimed (en_link e k))" for w k
    using claims_invD(2) [OF inv that] free that by (auto simp: id_free_def unclaimed_def)
  have heap: "en_heap ?e w = en_heap e w" if "w < ?u" for w
    using that by (simp add: fr)
  show "claims_inv {?u} ?e"
    unfolding claims_inv_def
  proof (intro conjI allI ballI impI)
    fix k assume "k \<notin> set (en_links ?e)"
    then have "set (lk_claimed (en_link ?e k)) = {}"
      using claims_invD(1) [OF inv, of k] l(2) by (auto simp: fr)
    then show "lk_claimed (en_link ?e k) = []" by simp
  next
    fix k w assume "w \<in> set (lk_claimed (en_link ?e k))"
    then consider "k = l" "w = ?u" | "w \<in> set (lk_claimed (en_link e k))" "w < ?u" "u_id (en_heap e w) \<noteq> i"
      using old by (auto simp: fr split: if_splits)
    then have "w < en_next ?e \<and> lk_authed (en_link ?e k) \<and> u_instance (en_heap ?e w) = lk_instance (en_link ?e k) \<and>
        (w \<notin> {?u} \<longrightarrow> u_sink (en_heap ?e w) = Some k) \<and> map_of (en_upstreams ?e) (u_id (en_heap ?e w)) = Some w"
    proof cases
      case 1
      then show ?thesis using l by (simp add: fr new_upstream_def)
    next
      case 2
      note d = claims_invD(2) [OF inv 2(1)] claims_invD(3) [OF inv 2(1)]
      from d 2 show ?thesis by (simp add: fr(1-3,5,6) heap)
    qed
    then show "w < en_next ?e" "lk_authed (en_link ?e k)" "u_instance (en_heap ?e w) = lk_instance (en_link ?e k)"
      "w \<notin> {?u} \<Longrightarrow> u_sink (en_heap ?e w) = Some k" "map_of (en_upstreams ?e) (u_id (en_heap ?e w)) = Some w"
      by blast+
  next
    fix w k assume w: "w < en_next ?e" "u_sink (en_heap ?e w) = Some k"
    show "w \<in> {?u} \<or> w \<in> set (lk_claimed (en_link ?e k)) \<or> stillborn (en_heap ?e w)"
    proof (cases "w = ?u")
      case False
      with w have "w < ?u" by (simp add: fr)
      with w claims_invD(4) [OF inv, of w k] show ?thesis by (auto simp: heap fr(7))
    qed simp
  next
    fix j w assume "map_of (en_upstreams ?e) j = Some w"
    then consider "j = i" "w = ?u" | "j \<noteq> i" "map_of (en_upstreams e) j = Some w"
      by (auto simp: fr split: if_splits)
    then have "w < en_next ?e \<and> u_id (en_heap ?e w) = j \<and> (w \<notin> {?u} \<longrightarrow> \<not> stillborn (en_heap ?e w))"
    proof cases
      case 1
      then show ?thesis by (simp add: fr new_upstream_def)
    next
      case 2
      note d = claims_invD(5,6) [OF inv 2(2)]
      from d show ?thesis by (simp add: fr(2) heap)
    qed
    then show "w < en_next ?e" "u_id (en_heap ?e w) = j" "w \<notin> {?u} \<Longrightarrow> \<not> stillborn (en_heap ?e w)" by blast+
  qed
  show "sole_claim l ?u ?e"
    using old by (auto simp: sole_claim_def fr split: if_splits)
  show "\<not> stillborn (en_heap ?e ?u)"
    by (simp add: fr new_upstream_def stillborn_def)
qed

text \<open>The dial threw: the object is dropped everywhere but in its own sink.\<close>

lemma claims_stillborn:
  assumes inv: "claims_inv {} e" and sole: "sole_claim l u e" and u: "u_id (en_heap e u) = i"
    "stillborn v" "u_id v = i"
    and e': "en_upstreams e' = AList.delete i (en_upstreams e)" "en_links e' = en_links e" "en_next e' = en_next e"
      "en_heap e' = (en_heap e)(u := v)" "\<And>k. lk_authed (en_link e' k) = lk_authed (en_link e k)"
      "\<And>k. lk_instance (en_link e' k) = lk_instance (en_link e k)"
      "\<And>k. set (lk_claimed (en_link e' k)) = set (lk_claimed (en_link e k)) - {u}"
  shows "claims_inv {} e'"
proof -
  have mu: "map_of (en_upstreams e) i = Some u"
    using claims_invD(2) [OF inv, of u l] sole u by (auto simp: sole_claim_def)
  show ?thesis
    unfolding claims_inv_def
  proof (intro conjI allI ballI impI)
    fix k assume "k \<notin> set (en_links e')"
    then have "set (lk_claimed (en_link e' k)) = {}"
      using claims_invD(1) [OF inv, of k] by (simp add: e')
    then show "lk_claimed (en_link e' k) = []" by simp
  next
    fix k w assume "w \<in> set (lk_claimed (en_link e' k))"
    then have w: "w \<in> set (lk_claimed (en_link e k))" "w \<noteq> u" by (simp_all add: e')
    note d = claims_invD(2) [OF inv w(1)] claims_invD(3) [OF inv w(1)]
    show "w < en_next e'" "lk_authed (en_link e' k)" "u_instance (en_heap e' w) = lk_instance (en_link e' k)"
      "w \<notin> {} \<Longrightarrow> u_sink (en_heap e' w) = Some k" "map_of (en_upstreams e') (u_id (en_heap e' w)) = Some w"
      using d w(2) mu by (auto simp: e' delete_conv')
  next
    fix w k assume "w < en_next e'" "u_sink (en_heap e' w) = Some k"
    then show "w \<in> {} \<or> w \<in> set (lk_claimed (en_link e' k)) \<or> stillborn (en_heap e' w)"
      using claims_invD(4) [OF inv, of w k] u(2) by (cases "w = u") (auto simp: e')
  next
    fix j w assume "map_of (en_upstreams e') j = Some w"
    then have w: "map_of (en_upstreams e) j = Some w" "j \<noteq> i" by (auto simp: e' delete_conv' split: if_splits)
    with claims_invD(5,6) [OF inv w(1)] u mu
    show "w < en_next e'" "u_id (en_heap e' w) = j" "w \<notin> {} \<Longrightarrow> \<not> stillborn (en_heap e' w)"
      by (auto simp: e')
  qed
qed

lemma claims_fresh_dial:
  assumes inv: "claims_inv {} e" and l: "lk_authed (en_link e l)" "l \<in> set (en_links e)" and free: "id_free i e"
  shows "claims_inv {} (fst (fresh_dial env now l i opts e))"
proof -
  let ?u = "en_next e" and ?e0 = "born env l i opts e"
  let ?e1 = "fst (up_call ?u (\<lambda>h. (fst (attach now l h), [])) ?e0)"
  note b = claims_born [OF inv l free, of env opts]
  note a = claims_attach [OF b, of now]
  note fr = up_call_frame [where u = ?u and f = "\<lambda>h. (fst (attach now l h), [])" and e = ?e0]
  have u: "?u < en_next ?e1" "u_id (en_heap ?e1 ?u) = i" "u_dialed (en_heap ?e1 ?u) = False"
    "u_state (en_heap ?e1 ?u) = Dialing" "u_hasSocket (en_heap ?e1 ?u) = False"
    "u_proxyDialPending (en_heap ?e1 ?u) = False"
    unfolding fr(2) fr(8) by (simp_all add: born_frame new_upstream_def attach_def)
  show ?thesis
  proof (cases "do_proxy opts = None \<and> ev_dialThrows env opts \<noteq> None")
    case True
    then obtain message where m: "do_proxy opts = None" "ev_dialThrows env opts = Some message" by auto
    let ?e2 = "fst (up_own ?u (u_dialed_update (\<lambda>_. True)) ?e1)"
    have eq: "fst (fresh_dial env now l i opts e) =
        unclaim l ?u (?e2\<lparr>en_upstreams := AList.delete i (en_upstreams ?e2)\<rparr>)"
      by (simp add: fresh_dial_born and_then_simps m)
    show ?thesis
      unfolding eq
    proof (rule claims_stillborn [OF a(1,2) u(2)])
      show "stillborn ((en_heap ?e1 ?u)\<lparr>u_dialed := True\<rparr>)"
        using u by (simp add: stillborn_def)
      show "set (lk_claimed (en_link (unclaim l ?u (?e2\<lparr>en_upstreams := AList.delete i (en_upstreams ?e2)\<rparr>)) k)) =
            set (lk_claimed (en_link ?e1 k)) - {?u}" for k
        using a(2) by (auto simp: unclaim_def up_own_frame sole_claim_def)
    qed (simp_all add: u unclaim_def up_own_frame)
  next
    case False
    then have eq: "fst (fresh_dial env now l i opts e) =
        fst (up_own ?u (\<lambda>o'. case dial o' of Some o'' \<Rightarrow> o'' | None \<Rightarrow> o') ?e1)"
      by (auto simp: fresh_dial_born and_then_simps split: option.split)
    show ?thesis
      unfolding eq up_own_state
      by (rule claims_store [OF a(1) u(1)])
        (use u a(3) in \<open>auto simp: dial_def Let_def stillborn_def split: option.split\<close>)
  qed
qed

section \<open>Contesting a claim\<close>

lemma holderOf_Some:
  "holderOf e u x = Some k \<Longrightarrow> k \<in> set (en_links e) \<and> Some k \<noteq> x \<and> u \<in> set (lk_claimed (en_link e k))"
  by (auto simp: holderOf_def find_Some_iff)

lemma holderOf_None:
  "holderOf e u x = None \<Longrightarrow> k \<in> set (en_links e) \<Longrightarrow> Some k \<noteq> x \<Longrightarrow> u \<notin> set (lk_claimed (en_link e k))"
  by (auto simp: holderOf_def find_None_iff)

text \<open>A contest that is not refused leaves at most the contender as a claimant.\<close>

lemma contest_clear:
  assumes inv: "claims_inv {} e" and c: "contest l u e = (None, e1, o1)"
  shows "claims_inv {u} e1" "\<And>k. u \<in> set (lk_claimed (en_link e1 k)) \<Longrightarrow> k = l"
    "e1 = e \<or> (\<exists>other. other \<noteq> l \<and> e1 = unclaim other u e \<and> u \<in> set (lk_claimed (en_link e other)))"
proof -
  show cases: "e1 = e \<or> (\<exists>other. other \<noteq> l \<and> e1 = unclaim other u e \<and> u \<in> set (lk_claimed (en_link e other)))"
    using c by (auto simp: contest_def Let_def send_def split: option.splits if_splits dest: holderOf_Some)
  then show "claims_inv {u} e1"
    using claims_mono [OF inv, of "{u}"] claims_unclaim [OF inv] by auto
  show "k = l" if k: "u \<in> set (lk_claimed (en_link e1 k))" for k
  proof (cases "holderOf e u (Some l)")
    case None
    then have "e1 = e" using c by (simp add: contest_def)
    with k holderOf_None [OF None, of k] claims_invD(1) [OF inv, of k] show ?thesis by fastforce
  next
    case (Some other)
    then have e1: "e1 = unclaim other u e"
      using c by (simp add: contest_def Let_def send_def split: if_splits)
    then have "k \<noteq> other" "u \<in> set (lk_claimed (en_link e k))"
      using k by (auto simp: unclaim_def split: if_splits)
    with claim_exclusive [OF inv, of u other k] holderOf_Some [OF Some] show ?thesis by simp
  qed
qed

lemma contest_refused: "contest l u e = (Some other, e1, o1) \<Longrightarrow> e1 = e \<and> o1 = []"
  by (auto simp: contest_def Let_def send_def split: option.splits if_splits)

lemma contest_frame:
  "contest l u e = (r, e1, o1) \<Longrightarrow>
   en_links e1 = en_links e \<and> en_next e1 = en_next e \<and> en_heap e1 = en_heap e \<and> en_upstreams e1 = en_upstreams e \<and>
   lk_authed (en_link e1 k) = lk_authed (en_link e k) \<and> lk_instance (en_link e1 k) = lk_instance (en_link e k)"
  by (auto simp: contest_def Let_def send_def unclaim_def split: option.splits if_splits)

lemma claims_claim:
  assumes inv: "claims_inv X e" and u: "u \<in> X" "u < en_next e" "lk_authed (en_link e l)" "l \<in> set (en_links e)"
    "u_instance (en_heap e u) = lk_instance (en_link e l)" "map_of (en_upstreams e) (u_id (en_heap e u)) = Some u"
  shows "claims_inv X (claim l u e)"
proof -
  have cl: "set (lk_claimed (en_link (claim l u e) k)) = (if k = l then insert u (set (lk_claimed (en_link e k)))
      else set (lk_claimed (en_link e k)))" for k
    by (simp add: claim_def)
  have rest: "en_links (claim l u e) = en_links e" "en_next (claim l u e) = en_next e"
    "en_heap (claim l u e) = en_heap e" "en_upstreams (claim l u e) = en_upstreams e"
    "lk_authed (en_link (claim l u e) k) = lk_authed (en_link e k)"
    "lk_instance (en_link (claim l u e) k) = lk_instance (en_link e k)" for k
    by (simp_all add: claim_def)
  show ?thesis
    unfolding claims_inv_def rest
  proof (intro conjI allI ballI impI)
    fix k assume "k \<notin> set (en_links e)"
    then have "set (lk_claimed (en_link (claim l u e) k)) = {}"
      using claims_invD(1) [OF inv, of k] u(4) by (auto simp: cl)
    then show "lk_claimed (en_link (claim l u e) k) = []" by simp
  next
    fix k w assume "w \<in> set (lk_claimed (en_link (claim l u e) k))"
    then consider "k = l" "w = u" | "w \<in> set (lk_claimed (en_link e k))" by (auto simp: cl split: if_splits)
    then have "w < en_next e \<and> lk_authed (en_link e k) \<and> u_instance (en_heap e w) = lk_instance (en_link e k) \<and>
       (w \<notin> X \<longrightarrow> u_sink (en_heap e w) = Some k) \<and> map_of (en_upstreams e) (u_id (en_heap e w)) = Some w"
      using u claims_invD(2,3) [OF inv, of w k] by cases auto
    then show "w < en_next e" "lk_authed (en_link e k)" "u_instance (en_heap e w) = lk_instance (en_link e k)"
      "w \<notin> X \<Longrightarrow> u_sink (en_heap e w) = Some k" "map_of (en_upstreams e) (u_id (en_heap e w)) = Some w"
      by blast+
  next
    fix w k assume "w < en_next e" "u_sink (en_heap e w) = Some k"
    then show "w \<in> X \<or> w \<in> set (lk_claimed (en_link (claim l u e) k)) \<or> stillborn (en_heap e w)"
      using claims_invD(4) [OF inv, of w k] by (auto simp: cl)
  next
    fix j w assume w: "map_of (en_upstreams e) j = Some w"
    show "w < en_next e" "u_id (en_heap e w) = j" using claims_invD(5) [OF inv w] by blast+
    show "w \<notin> X \<Longrightarrow> \<not> stillborn (en_heap e w)" by (rule claims_invD(6) [OF inv w])
  qed
qed

section \<open>Every handler keeps the claims\<close>

lemma attach_held_state:
  "contest l u e = (None, e1, o1) \<Longrightarrow>
   fst (attach_held env ok now l i opts u e) =
     (let e2 = claim l u e1;
          e3 = fst (up_call u (\<lambda>h. (fst (attach now l h), [])) e2) in
      case snd (attach now l (en_budget e2, en_heap e2 u)) of
        StillDialing \<Rightarrow> e3
      | Unregistered \<Rightarrow> fst (fresh_dial env now l i opts (fst (discard now u (unclaim l u e3))))
      | Attached payload \<Rightarrow>
          if MAX_FRAME_BYTES < ev_frameLength env (FAttached i payload)
          then fst (discard now u (unclaim l u e3))
          else fst (up_call u (flushAfterAttach (sink_ok ok u e3)) e3))"
  by (simp add: attach_held_def Let_def split_beta and_then_simps split: attach_result.split)

lemma claims_attach_held:
  assumes inv: "claims_inv {} e" and l: "lk_authed (en_link e l)" "l \<in> set (en_links e)"
    and u: "map_of (en_upstreams e) i = Some u" "u_instance (en_heap e u) = lk_instance (en_link e l)"
  shows "claims_inv {} (fst (attach_held env ok now l i opts u e))"
proof -
  obtain r e1 o1 where c: "contest l u e = (r, e1, o1)" using prod_cases3 by blast
  show ?thesis
  proof (cases r)
    case (Some other)
    with c contest_refused [of l u e other e1 o1] inv show ?thesis
      by (simp add: attach_held_def split_beta)
  next
    case None
    note c = c [unfolded None]
    note cl = contest_clear [OF inv c] and cf = contest_frame [OF c]
    note d = claims_invD(5,6) [OF inv u(1)]
    let ?e2 = "claim l u e1"
    let ?e3 = "fst (up_call u (\<lambda>h. (fst (attach now l h), [])) ?e2)"
    have e2: "claims_inv {u} ?e2"
      by (rule claims_claim [OF cl(1)]) (use d u l cf in auto)
    have sole: "sole_claim l u ?e2"
      using cl(2) by (auto simp: sole_claim_def claim_def)
    have alive: "\<not> stillborn (en_heap ?e2 u)"
      using d cf by (simp add: claim_def)
    note a = claims_attach [OF e2 sole alive, of now]
    have next3: "u < en_next ?e3" using d cf by (simp add: up_call_frame claim_def)
    have drop: "claims_inv {u} (unclaim l u ?e3)" "unclaimed u (unclaim l u ?e3)"
      "\<not> stillborn (en_heap (unclaim l u ?e3) u)" "u < en_next (unclaim l u ?e3)"
      using claims_unclaim [OF a(1), of u l] a(2,3) next3
      by (auto simp: unclaimed_def unclaim_def sole_claim_def)
    note di = claims_discard [OF drop, where now = now]
    have l3: "lk_authed (en_link (unclaim l u ?e3) l)" "l \<in> set (en_links (unclaim l u ?e3))"
      using l cf by (simp_all add: unclaim_def up_call_frame claim_def)
    have free: "id_free i (fst (discard now u (unclaim l u ?e3)))"
    proof -
      have "w = u" if "map_of (en_upstreams (fst (discard now u (unclaim l u ?e3)))) i = Some w" for w
      proof -
        have "map_of (en_upstreams ?e3) i = Some w" using di(7) [OF that] by (simp add: unclaim_def)
        from up_call_frame(6) [OF this] have "map_of (en_upstreams e1) i = Some w" by (simp add: claim_def)
        then show "w = u" using cf u(1) by simp
      qed
      with di(2) show ?thesis by (auto simp: id_free_def)
    qed
    have "claims_inv {} (fst (fresh_dial env now l i opts (fst (discard now u (unclaim l u ?e3)))))"
      by (rule claims_fresh_dial [OF di(1) _ _ free]) (use l3 di in auto)
    moreover have "claims_inv {} (fst (up_call u (flushAfterAttach (sink_ok ok u ?e3)) ?e3))"
      by (rule claims_up_call [OF a(1) next3 a(3) tame_flushAfterAttach])
    ultimately show ?thesis
      using a(1) di(1) unfolding attach_held_state [OF c] by (simp add: Let_def split: attach_result.split)
  qed
qed

lemma claims_connect:
  assumes inv: "claims_inv {} e" and l: "lk_authed (en_link e l)" "l \<in> set (en_links e)"
  shows "claims_inv {} (fst (connect env ok now l frame e))"
proof (cases "check_connect env frame")
  case (Inr io)
  obtain i opts where io: "io = (i, opts)" by (cases io)
  show ?thesis
  proof (cases "map_of (en_upstreams e) i")
    case None
    then have "id_free i e" by (simp add: id_free_def)
    with None Inr io claims_fresh_dial [OF inv l] show ?thesis by (simp add: connect_def)
  next
    case (Some u)
    note d = claims_invD(5,6) [OF inv Some]
    let ?e1 = "unclaim_all u e"
    have drop: "claims_inv {u} ?e1" "unclaimed u ?e1" "\<not> stillborn (en_heap ?e1 u)" "u < en_next ?e1"
      using claims_unclaim_all [OF inv] unclaimed_all [OF inv] d by simp_all
    have l1: "lk_authed (en_link ?e1 l)" "l \<in> set (en_links ?e1)"
      using l by (simp_all add: unclaim_all_link)
    note di = claims_discard [OF drop, where now = now]
    let ?e2 = "fst (up_own u (silence now) ?e1)"
    have "claims_inv {} ?e2" by (rule claims_silence [OF drop(1-3)])
    moreover have "id_free i ?e2"
      using drop(2) Some by (auto simp: id_free_def up_own_frame)
    ultimately have a: "claims_inv {} (fst (fresh_dial env now l i opts ?e2))"
      using l1 by (intro claims_fresh_dial) (simp_all add: up_own_frame)
    have "id_free i (fst (discard now u ?e1))"
      unfolding id_free_def
    proof (intro allI impI)
      fix w assume "map_of (en_upstreams (fst (discard now u ?e1))) i = Some w"
      then have "w = u" using di(7) [of i w] Some by simp
      with di(2) show "unclaimed w (fst (discard now u ?e1))" by simp
    qed
    then have b: "claims_inv {} (fst (fresh_dial env now l i opts (fst (discard now u ?e1))))"
      by (intro claims_fresh_dial [OF di(1)]) (use l1 di in auto)
    from a b claims_attach_held [OF inv l Some] inv Inr io Some show ?thesis
      by (simp add: connect_def and_then_simps)
  qed
qed (use inv in \<open>simp add: connect_def\<close>)

lemma releasedBy_irrelevant [simp]: "claims_inv X (e\<lparr>en_releasedBy := r\<rparr>) = claims_inv X e"
  by (simp add: claims_inv_def)

lemma claims_release:
  assumes inv: "claims_inv {} e"
  shows "claims_inv {} (fst (release now l u e))"
proof (cases "u \<in> set (lk_claimed (en_link e l))")
  case True
  note d = claims_invD(2,3) [OF inv True]
  have "unclaimed u (unclaim l u e)"
    using claim_exclusive [OF inv _ True] by (auto simp: unclaimed_def unclaim_def)
  moreover have "\<not> stillborn (en_heap (unclaim l u e) u)"
    using d claims_invD(6) [OF inv, of "u_id (en_heap e u)" u] by (simp add: unclaim_def)
  ultimately have "claims_inv {} (fst (up_own u (detach now) (unclaim l u e)))"
    by (intro claims_detach [OF claims_unclaim [OF inv]])
  with True show ?thesis by (simp add: release_def and_then_simps)
qed (use inv in \<open>simp add: release_def\<close>)

lemma claims_drive:
  assumes inv: "claims_inv {} e"
  shows "claims_inv {} (fst (drive now l i frame e))"
proof (cases "map_of (en_upstreams e) i")
  case (Some u)
  note d = claims_invD(5,6) [OF inv Some]
  have perform: "claims_inv {} (fst (perform now l u frame e'))"
    if "claims_inv {} e'" "u < en_next e'" "\<not> stillborn (en_heap e' u)" for e' frame
    using that by (cases frame) (simp_all add: claims_release up_fx_def claims_up_call tame_small tame_ack tame_close_up)
  obtain r e1 o1 where c: "contest l u e = (r, e1, o1)" using prod_cases3 by blast
  have taken: "claims_inv {} (fst (and_then (up_own u (silence now)) (perform now l u frame) e1))"
    if r: "r = None" and not: "u \<notin> set (lk_claimed (en_link e l))"
  proof -
    note c = c [unfolded r]
    note cl = contest_clear [OF inv c] and cf = contest_frame [OF c]
    have "u \<notin> set (lk_claimed (en_link e1 l))"
      using cl(3) not by (auto simp: unclaim_def)
    then have "unclaimed u e1" using cl(2) by (auto simp: unclaimed_def)
    moreover have "\<not> stillborn (en_heap e1 u)" using d cf by simp
    ultimately have "claims_inv {} (fst (up_own u (silence now) e1))"
      by (intro claims_silence [OF cl(1)])
    then show ?thesis
      unfolding and_then_simps using d cf by (intro perform) (simp_all add: up_own_frame)
  qed
  show ?thesis
    using Some d inv perform [OF inv] taken c contest_refused [of l u e _ e1 o1]
    by (cases r) (auto simp: drive_def split_beta)
qed (use inv in \<open>simp add: drive_def\<close>)

lemma claims_hello:
  assumes inv: "claims_inv {} e" and new: "\<not> lk_authed (en_link e l)"
  shows "claims_inv {} (fst (hello env l frame e))"
proof -
  have none: "lk_claimed (en_link e l) = []"
  proof (rule ccontr)
    assume "lk_claimed (en_link e l) \<noteq> []"
    then obtain w where "w \<in> set (lk_claimed (en_link e l))" by (cases "lk_claimed (en_link e l)") auto
    from claims_invD(2) [OF inv this] new show False by simp
  qed
  have refuse: "claims_inv {} (fst (and_then (fail l m i) (destroy_link l) e))" for m i
    using claims_destroy_link [OF inv] by (simp add: and_then_simps)
  have auth: "claims_inv {} (upd_link l (\<lambda>k. k\<lparr>lk_authed := True, lk_instance := x, lk_generation := g\<rparr>) e)" for x g
    using inv none unfolding claims_inv_def upd_link_simps(1-6) by (auto split: if_splits)
  show ?thesis
    using refuse auth by (simp add: hello_def Let_def split: app_frame.split)
qed

lemma claims_dispatch:
  assumes "claims_inv {} e" "l \<in> set (en_links e)"
  shows "claims_inv {} (fst (dispatch env ok now l frame e))"
  using assms claims_hello [OF assms(1)] claims_connect [OF assms(1) _ assms(2)] claims_drive [OF assms(1)]
  by (cases frame) (simp_all add: dispatch_def)

text \<open>Links come and go only by \<open>accept\<close> and \<open>onLinkClose\<close>.\<close>

lemma links_discard [simp]: "en_links (fst (discard now u e)) = en_links e"
  by (simp add: discard_def and_then_simps up_own_frame up_call_frame)

lemma links_up [simp]: "en_links (fst (up_own u f e)) = en_links e" "en_links (fst (up_call u g e)) = en_links e"
  "en_links (fst (up_fx u k e)) = en_links e"
  by (simp_all add: up_own_frame up_call_frame up_fx_def)

lemma links_claim [simp]: "en_links (claim l u e) = en_links e" "en_links (unclaim l u e) = en_links e"
  by (simp_all add: claim_def unclaim_def)

lemma links_fresh [simp]: "en_links (fst (fresh_dial env now l i opts e)) = en_links e"
  by (auto simp: fresh_dial_born and_then_simps born_frame split: option.split)

lemma links_attach_held [simp]: "en_links (fst (attach_held env ok now l i opts u e)) = en_links e"
proof -
  obtain r e1 o1 where c: "contest l u e = (r, e1, o1)" using prod_cases3 by blast
  from contest_frame [OF c] show ?thesis
  proof (cases r)
    case None
    with c contest_frame [OF c] show ?thesis
      by (simp add: attach_held_state Let_def split: attach_result.split)
  qed (simp add: attach_held_def c split_beta)
qed

lemma links_release [simp]: "en_links (fst (release now l u e)) = en_links e"
  by (simp add: release_def and_then_simps)

lemma links_drive [simp]: "en_links (fst (drive now l i frame e)) = en_links e"
proof -
  have p: "en_links (fst (perform now l u frame e)) = en_links e" for u frame e
    by (cases frame) simp_all
  show ?thesis
  proof (cases "map_of (en_upstreams e) i")
    case (Some u)
    obtain r e1 o1 where c: "contest l u e = (r, e1, o1)" using prod_cases3 by blast
    with contest_frame [OF c] Some show ?thesis
      by (cases r) (simp_all add: drive_def split_beta and_then_simps p)
  qed (simp add: drive_def)
qed

lemma links_dispatch [simp]: "en_links (fst (dispatch env ok now l frame e)) = en_links e"
proof -
  have "en_links (fst (hello env l frame e)) = en_links e"
    by (simp add: hello_def Let_def and_then_simps destroy_link_def split: app_frame.split)
  moreover have "en_links (fst (connect env ok now l c e)) = en_links e" for c
    by (simp add: connect_def and_then_simps split: sum.split option.split prod.split)
  ultimately show ?thesis
    by (cases frame) (simp_all add: dispatch_def)
qed

lemma claims_dispatch_all:
  "claims_inv {} e \<Longrightarrow> l \<in> set (en_links e) \<Longrightarrow>
   claims_inv {} (fst (dispatch_all env ok now l fs e))"
proof (induction fs arbitrary: e)
  case (Cons f fs)
  show ?case
  proof (cases "lk_destroyed (en_link e l)")
    case False
    have "claims_inv {} (fst (dispatch_all env ok now l fs (fst (dispatch env ok now l f e))))"
      using Cons.prems by (intro Cons.IH claims_dispatch) simp_all
    with False show ?thesis by (simp add: and_then_simps)
  qed (use Cons.prems in simp)
qed (simp add: skip_def)

lemma claims_onData:
  assumes "claims_inv {} e" "l \<in> set (en_links e)"
  shows "claims_inv {} (fst (onData env ok now l chunk e))"
proof -
  let ?e1 = "upd_link l (\<lambda>k. k\<lparr>lk_lastSeen := now, lk_sniffed := True\<rparr>) e"
  have e1: "claims_inv {} ?e1" by (rule claims_upd_link [OF assms(1)]) simp_all
  have "claims_inv {} (upd_link l (lk_buf_update (\<lambda>_. rest)) ?e1)" for rest
    by (rule claims_upd_link [OF e1]) simp_all
  with e1 assms(2) claims_dispatch_all claims_destroy_link [OF e1] show ?thesis
    by (simp add: onData_def Let_def split: sum.split prod.split)
qed

lemma claims_onDrain:
  assumes inv: "claims_inv {} e"
  shows "claims_inv {} (fst (onDrain ok l e))"
proof -
  have "claims_inv {} e' \<and> (\<forall>u \<in> set us. u < en_next e' \<and> \<not> stillborn (en_heap e' u)) \<Longrightarrow>
     claims_inv {} (fst (in_order (map (\<lambda>u e. up_call u (resume (sink_ok ok u e)) e) us) e'))" for us e'
  proof (induction us arbitrary: e')
    case (Cons u us)
    let ?e1 = "fst (up_call u (resume (sink_ok ok u e')) e')"
    have t: "tame (resume (sink_ok ok u e')) (en_budget e', en_heap e' u)" by (rule tame_resume)
    have "\<not> stillborn (en_heap ?e1 w)" if "w \<in> set us" for w
      using Cons.prems that t by (cases "w = u") (auto simp: up_call_frame tame_def Let_def)
    moreover have "claims_inv {} ?e1" using Cons.prems t by (intro claims_up_call) auto
    ultimately show ?case
      using Cons.prems by (simp add: and_then_simps Cons.IH up_call_frame)
  qed (simp add: skip_def)
  moreover have "\<forall>u \<in> set (lk_claimed (en_link e l)). u < en_next e \<and> \<not> stillborn (en_heap e u)"
    using claims_invD(2,6) [OF inv] by blast
  ultimately show ?thesis using inv by (simp add: onDrain_def)
qed

lemma detach_all_state:
  "fst (in_order (map (\<lambda>u. up_own u (detach now)) us) e) =
     e\<lparr>en_heap := (\<lambda>u. if u \<in> set us then detach now (en_heap e u) else en_heap e u)\<rparr>"
proof (induction us arbitrary: e)
  case (Cons u us)
  have d: "detach now (detach now o') = detach now o'" for o'
    by (simp add: detach_def)
  show ?case
    by (auto simp: and_then_simps Cons.IH up_own_state store_def d fun_eq_iff intro!: engine.equality)
qed (simp add: skip_def)

lemma claims_onLinkClose:
  assumes inv: "claims_inv {} e"
  shows "claims_inv {} (fst (onLinkClose now l e))"
proof (cases "l \<in> set (en_links e)")
  case True
  let ?us = "lk_claimed (en_link e l)"
  define e' where "e' = upd_link l (lk_claimed_update (\<lambda>_. []))
     (e\<lparr>en_links := set_del l (en_links e),
        en_heap := (\<lambda>u. if u \<in> set ?us then detach now (en_heap e u) else en_heap e u)\<rparr>)"
  have eq: "fst (onLinkClose now l e) = e'"
    using True by (simp add: onLinkClose_def and_then_simps detach_all_state Let_def e'_def cong: if_cong)
  have only: "k = l" if "w \<in> set ?us" "w \<in> set (lk_claimed (en_link e k))" for w k
    using claim_exclusive [OF inv _ that] by simp
  show ?thesis
    unfolding eq claims_inv_def
  proof (intro conjI allI ballI impI)
    fix k assume "k \<notin> set (en_links e')"
    then show "lk_claimed (en_link e' k) = []"
      using claims_invD(1) [OF inv, of k] by (auto simp: e'_def)
  next
    fix k w assume "w \<in> set (lk_claimed (en_link e' k))"
    then have k: "k \<noteq> l" "w \<in> set (lk_claimed (en_link e k))" by (auto simp: e'_def split: if_splits)
    with only have w: "w \<notin> set ?us" by blast
    note d = claims_invD(2,3) [OF inv k(2)]
    show "w < en_next e'" "lk_authed (en_link e' k)" "u_instance (en_heap e' w) = lk_instance (en_link e' k)"
      "w \<notin> {} \<Longrightarrow> u_sink (en_heap e' w) = Some k" "map_of (en_upstreams e') (u_id (en_heap e' w)) = Some w"
      using d k(1) w by (simp_all add: e'_def)
  next
    fix w k assume w: "w < en_next e'" "u_sink (en_heap e' w) = Some k"
    then have "w \<notin> set ?us" by (auto simp: e'_def)
    with w claims_invD(4) [OF inv, of w k] show "w \<in> {} \<or> w \<in> set (lk_claimed (en_link e' k)) \<or> stillborn (en_heap e' w)"
      by (auto simp: e'_def)
  next
    fix j w assume "map_of (en_upstreams e') j = Some w"
    then have w: "map_of (en_upstreams e) j = Some w" by (simp add: e'_def)
    from claims_invD(5,6) [OF inv w] show "w < en_next e'" "u_id (en_heap e' w) = j"
      "w \<notin> {} \<Longrightarrow> \<not> stillborn (en_heap e' w)"
      by (auto simp: e'_def)
  qed
qed (use inv in \<open>simp add: onLinkClose_def\<close>)

text \<open>The map of sockets keeps one entry per id.\<close>

abbreviation ids_distinct :: "engine \<Rightarrow> bool" where
  "ids_distinct e \<equiv> keys_distinct (en_upstreams e)"

lemma ids_up [simp]: "ids_distinct e \<Longrightarrow> ids_distinct (fst (up_call u f e))"
  by (simp add: up_call_state Let_def on_closed_def store_def om.wf_delete)

lemma ids_own [simp]: "ids_distinct (fst (up_own u f e)) = ids_distinct e"
  by (simp add: up_own_frame)

lemma ids_claim [simp]: "ids_distinct (claim l u e) = ids_distinct e" "ids_distinct (unclaim l u e) = ids_distinct e"
  by (simp_all add: claim_def unclaim_def)

lemma ids_contest: "contest l u e = (r, e1, o1) \<Longrightarrow> ids_distinct e1 = ids_distinct e"
  using contest_frame [of l u e r e1 o1] by simp

lemma ids_fresh [simp]: "ids_distinct e \<Longrightarrow> ids_distinct (fst (fresh_dial env now l i opts e))"
proof -
  assume "ids_distinct e"
  then have "ids_distinct (born env l i opts e)" by (simp add: born_def om.wf_set)
  then show ?thesis
    by (auto simp: fresh_dial_born and_then_simps om.wf_delete unclaim_def split: option.split)
qed

lemma ids_discard [simp]: "ids_distinct e \<Longrightarrow> ids_distinct (fst (discard now u e))"
  by (simp add: discard_def and_then_simps)

lemma ids_attach_held: "ids_distinct e \<Longrightarrow> ids_distinct (fst (attach_held env ok now l i opts u e))"
proof -
  assume i: "ids_distinct e"
  obtain r e1 o1 where c: "contest l u e = (r, e1, o1)" using prod_cases3 by blast
  show ?thesis
  proof (cases r)
    case None
    with c ids_contest [OF c] i show ?thesis
      by (simp add: attach_held_state Let_def split: attach_result.split)
  qed (use ids_contest [OF c] i in \<open>simp add: attach_held_def c split_beta\<close>)
qed

lemma ids_dispatch: "ids_distinct e \<Longrightarrow> ids_distinct (fst (dispatch env ok now l frame e))"
proof -
  assume i: "ids_distinct e"
  have p: "ids_distinct e \<Longrightarrow> ids_distinct (fst (perform now l u frame e))" for u frame e
    by (cases frame) (simp_all add: up_fx_def release_def and_then_simps)
  have "ids_distinct (fst (drive now l j frame e))" for j
  proof (cases "map_of (en_upstreams e) j")
    case (Some u)
    obtain r e1 o1 where c: "contest l u e = (r, e1, o1)" using prod_cases3 by blast
    with ids_contest [OF c] Some i p show ?thesis
      by (cases r) (simp_all add: drive_def split_beta and_then_simps)
  qed (use i in \<open>simp add: drive_def\<close>)
  moreover have "ids_distinct (fst (hello env l frame e))"
    using i by (simp add: hello_def Let_def and_then_simps destroy_link_def split: app_frame.split)
  moreover have "ids_distinct (fst (connect env ok now l c e))" for c
    using i ids_attach_held by (simp add: connect_def and_then_simps split: sum.split option.split prod.split)
  ultimately show ?thesis
    using i by (cases frame) (simp_all add: dispatch_def)
qed

lemma ids_in_order:
  "(\<And>f e. f \<in> set fs \<Longrightarrow> ids_distinct e \<Longrightarrow> ids_distinct (fst (f e))) \<Longrightarrow> ids_distinct e \<Longrightarrow>
   ids_distinct (fst (in_order fs e))"
  by (rule in_order_inv)

lemma ids_step: "ids_distinct e \<Longrightarrow> ids_distinct (fst (engine_step env ok now ev e))"
proof (cases ev)
  case (EvLinkData l chunk)
  assume i: "ids_distinct e"
  have "ids_distinct e \<Longrightarrow> ids_distinct (fst (dispatch_all env ok now l fs e))" for fs e
    by (induction fs arbitrary: e) (simp_all add: skip_def and_then_simps ids_dispatch)
  with i EvLinkData show ?thesis
    by (simp add: onData_def Let_def destroy_link_def split: sum.split prod.split)
next
  case (EvDrain l)
  assume "ids_distinct e"
  with EvDrain show ?thesis by (auto simp: onDrain_def intro!: ids_in_order)
next
  case (EvLinkClosed l)
  assume "ids_distinct e"
  with EvLinkClosed show ?thesis
    by (simp add: onLinkClose_def and_then_simps detach_all_state Let_def)
next
  case EvSweep
  assume i: "ids_distinct e"
  have "ids_distinct e \<Longrightarrow> ids_distinct (fst (sweepSilentLinks now e))" for e
    unfolding sweepSilentLinks_def by (rule ids_in_order) (auto simp: destroy_link_def)
  moreover have "ids_distinct e \<Longrightarrow> ids_distinct (fst (reapOrphans env now e))" for e
    unfolding reapOrphans_def
    by (auto intro!: ids_in_order simp: reapOrphan_def Let_def split: option.split)
  ultimately show ?thesis using i EvSweep by (simp add: and_then_simps)
qed (simp_all add: accept_def up_fx_def)

section \<open>Runs\<close>

lemma claims_reap:
  assumes inv: "claims_inv {} e" and ids: "ids_distinct e"
  shows "claims_inv {} (fst (reapOrphans env now e))"
proof -
  have one: "claims_inv {} (fst (reapOrphan env now u e')) \<and> en_next (fst (reapOrphan env now u e')) = en_next e'"
    if "claims_inv {} e'" "u < en_next e'" for u e'
    using claims_up_call [OF that, of "quit ''Lurker: no app returned for this connection''"] tame_quit that(1)
    by (auto simp: reapOrphan_def Let_def stillborn_def up_call_frame split: option.split)
  have "claims_inv {} e' \<Longrightarrow> \<forall>u \<in> set us. u < en_next e' \<Longrightarrow>
      claims_inv {} (fst (in_order (map (reapOrphan env now) us) e'))" for us e'
    by (induction us arbitrary: e') (auto simp: skip_def and_then_simps one)
  moreover have "\<forall>u \<in> set (map snd (en_upstreams e)). u < en_next e"
    using claims_invD(5) [OF inv] ids by (auto simp: keys_distinct_def)
  ultimately show ?thesis
    using inv by (simp add: reapOrphans_def del: map_map)
qed

text \<open>Events come from objects that exist: a link's data from a live link, a socket's events from a
  dialed one; an accepted link is new.\<close>

fun event_ok :: "event \<Rightarrow> engine \<Rightarrow> bool" where
  "event_ok (EvAccept l) e = (l \<notin> set (en_links e))"
| "event_ok (EvLinkData l chunk) e = (l \<in> set (en_links e))"
| "event_ok (EvDrain l) e = True"
| "event_ok (EvLinkClosed l) e = True"
| "event_ok EvSweep e = True"
| "event_ok (EvTcpConnect u n a b) e = (u < en_next e \<and> \<not> stillborn (en_heap e u))"
| "event_ok (EvOpen u n a b) e = (u < en_next e \<and> \<not> stillborn (en_heap e u))"
| "event_ok (EvTunnelUp u a b) e = (u < en_next e \<and> \<not> stillborn (en_heap e u))"
| "event_ok (EvDialFailed u why) e = (u < en_next e \<and> \<not> stillborn (en_heap e u))"
| "event_ok (EvSocketData u chunk) e = (u < en_next e \<and> \<not> stillborn (en_heap e u))"
| "event_ok (EvSocketTimeout u) e = (u < en_next e \<and> \<not> stillborn (en_heap e u))"
| "event_ok (EvSocketError u why) e = (u < en_next e \<and> \<not> stillborn (en_heap e u))"
| "event_ok (EvSocketClosed u) e = (u < en_next e \<and> \<not> stillborn (en_heap e u))"
| "event_ok (EvCloseTimer u) e = (u < en_next e \<and> \<not> stillborn (en_heap e u))"

lemma claims_step:
  assumes inv: "claims_inv {} e" and ids: "ids_distinct e" and ok: "event_ok ev e"
  shows "claims_inv {} (fst (engine_step env bp now ev e))"
proof (cases ev)
  case (EvAccept l)
  have "lk_claimed (en_link e l) = []" using ok EvAccept claims_invD(1) [OF inv, of l] by simp
  then show ?thesis
    using inv EvAccept unfolding claims_inv_def by (auto simp: accept_def new_link_def split: if_splits)
next
  case EvSweep
  have "claims_inv {} (fst (sweepSilentLinks now e))"
    unfolding sweepSilentLinks_def
    by (rule in_order_inv [where P = "claims_inv {}"]) (auto intro: claims_destroy_link inv)
  moreover have "ids_distinct (fst (sweepSilentLinks now e))"
    unfolding sweepSilentLinks_def by (rule ids_in_order) (auto simp: destroy_link_def ids)
  ultimately show ?thesis using EvSweep by (simp add: and_then_simps claims_reap)
qed (use inv ok in \<open>auto simp: up_fx_def up_own_def claims_onData claims_onDrain claims_onLinkClose
      intro!: claims_up_call tame_data tame_tcp [unfolded Let_def] tame_open [unfolded Let_def] tame_tunnel_up
        tame_dial_failed tame_small [unfolded Let_def] tame_on_close\<close>)

fun engine_run :: "env \<Rightarrow> ((engine_frame \<Rightarrow> bool) \<times> int \<times> event) list \<Rightarrow> handler" where
  "engine_run env [] = skip"
| "engine_run env ((bp, now, ev) # evs) = and_then (engine_step env bp now ev) (engine_run env evs)"

fun engine_run_ok :: "env \<Rightarrow> ((engine_frame \<Rightarrow> bool) \<times> int \<times> event) list \<Rightarrow> engine \<Rightarrow> bool" where
  "engine_run_ok env [] e = True"
| "engine_run_ok env ((bp, now, ev) # evs) e =
     (event_ok ev e \<and> engine_run_ok env evs (fst (engine_step env bp now ev e)))"

lemma claims_run:
  "claims_inv {} e \<Longrightarrow> ids_distinct e \<Longrightarrow> engine_run_ok env evs e \<Longrightarrow>
   claims_inv {} (fst (engine_run env evs e)) \<and> ids_distinct (fst (engine_run env evs e))"
proof (induction evs arbitrary: e)
  case (Cons x evs)
  obtain bp now ev where x: "x = (bp, now, ev)" using prod_cases3 by blast
  from Cons.IH [OF claims_step ids_step] Cons.prems x show ?case
    by (simp add: and_then_simps)
qed (simp add: skip_def)

lemma claims_start: "claims_inv {} (engine_start m)" "ids_distinct (engine_start m)"
  by (simp_all add: claims_inv_def engine_start_def new_link_def)

end
