(* ===== verification/Server_Buffers.thy ===== *)
theory Server_Buffers imports Server_Claims begin

text \<open>
  The backlogs of the engine's sockets are apart: a socket keeps the buffer it was made with, no two sockets have the
  same, and what a link asks of one socket (\<open>server/engine/server.ts\<close>, \<open>upstream.ts\<close>) changes no other's.
\<close>

section \<open>A socket keeps its buffer\<close>

definition own_buffers :: "engine \<Rightarrow> bool" where
  "own_buffers e \<longleftrightarrow> (\<forall>u < en_next e. u_uid (en_heap e u) = u)"

lemma core_uid: "same_core u v \<Longrightarrow> u_uid v = u_uid u"
  by (simp add: same_core_def)

lemma uid_small [simp]:
  "u_uid (detach now u) = u_uid u" "u_uid (silence now u) = u_uid u" "u_uid (on_error why u) = u_uid u"
  "u_uid (fst (on_timeout u)) = u_uid u" "u_uid (fst (on_tcp_connect n a b u)) = u_uid u"
  by (auto simp: detach_def silence_def on_error_def on_timeout_def dropPeer_def on_tcp_connect_def Let_def split: option.split)

lemma uid_open [simp]: "u_uid (fst (on_open n a b u)) = u_uid u"
  by (auto simp: on_open_def Let_def split_beta)

lemma uid_attach [simp]: "u_uid (snd (fst (attach now l h))) = u_uid (snd h)"
  by (cases h) (auto simp: attach_def Let_def split: option.split)

lemma uid_flush [simp]:
  "u_uid (snd (fst (flush ok h))) = u_uid (snd h)" "u_uid (snd (fst (flushAfterAttach ok h))) = u_uid (snd h)"
  "u_uid (snd (fst (resume ok h))) = u_uid (snd h)" "u_uid (snd (fst (on_data parse ok now chunk h))) = u_uid (snd h)"
  using core_uid [OF core_flush(1)] core_uid [OF core_flushAfterAttach(1)] core_uid [OF conjunct1 [OF core_data]]
  by (simp_all add: resume_def on_data_def)

lemma uid_on_close [simp]: "u_uid (snd (fst (on_close h))) = u_uid (snd h)"
  by (cases h) (simp add: on_close_def)

lemma uid_destroy [simp]: "u_uid (snd (fst (destroy h))) = u_uid (snd h)"
  by (cases h) (simp add: destroy_def Let_def split_beta)

lemma uid_close [simp]: "u_uid (snd (fst (close_up h))) = u_uid (snd h)" "u_uid (snd (fst (quit m h))) = u_uid (snd h)"
proof -
  show c: "u_uid (snd (fst (close_up h))) = u_uid (snd h)" for h
    by (cases h) (simp add: close_up_def Let_def)
  show "u_uid (snd (fst (quit m h))) = u_uid (snd h)"
    using c by (simp add: quit_def split_beta Let_def)
qed

lemma uid_dial [simp]:
  "u_uid (snd (fst (proxy_tunnel_up a b h))) = u_uid (snd h)" "u_uid (snd (fst (proxy_dial_failed why h))) = u_uid (snd h)"
  "u_uid (case dial u of Some v \<Rightarrow> v | None \<Rightarrow> u) = u_uid u"
  by (cases h; simp add: proxy_tunnel_up_def proxy_dial_failed_def dial_def Let_def split_beta)+

lemma buffers_up [intro]:
  "own_buffers e \<Longrightarrow> (\<And>h. u_uid (snd (fst (f h))) = u_uid (snd h)) \<Longrightarrow> own_buffers (fst (up_call u f e))"
  unfolding own_buffers_def by (metis up_call_frame(2,7,8) snd_conv)

lemma buffers_own [intro]: "own_buffers e \<Longrightarrow> (\<And>o'. u_uid (f o') = u_uid o') \<Longrightarrow> own_buffers (fst (up_own u f e))"
  by (simp add: own_buffers_def up_own_frame)

lemma buffers_fx [intro]: "own_buffers e \<Longrightarrow> (\<And>o'. u_uid (fst (f o')) = u_uid o') \<Longrightarrow> own_buffers (fst (up_fx u f e))"
  unfolding up_fx_def by (rule buffers_up) (simp_all add: split_beta)

lemma buffers_same [simp]:
  "own_buffers (upd_link l f e) = own_buffers e" "own_buffers (claim l u e) = own_buffers e"
  "own_buffers (unclaim l u e) = own_buffers e" "own_buffers (unclaim_all u e) = own_buffers e"
  "own_buffers (e\<lparr>en_releasedBy := r\<rparr>) = own_buffers e" "own_buffers (e\<lparr>en_upstreams := m\<rparr>) = own_buffers e"
  "own_buffers (e\<lparr>en_links := ls\<rparr>) = own_buffers e"
  by (simp_all add: own_buffers_def claim_def unclaim_def)

lemma buffers_contest: "contest l u e = (r, e1, o1) \<Longrightarrow> own_buffers e1 = own_buffers e"
  using contest_frame [of l u e r e1 o1] by (simp add: own_buffers_def)

lemma buffers_fresh: "own_buffers e \<Longrightarrow> own_buffers (fst (fresh_dial env now l i opts e))"
proof -
  assume "own_buffers e"
  then have "own_buffers (born env l i opts e)"
    by (simp add: own_buffers_def born_frame less_Suc_eq) (simp add: new_upstream_def)
  then have b: "own_buffers (fst (up_call u (\<lambda>h. (fst (attach now l h), [])) (born env l i opts e)))" for u
    by (rule buffers_up) simp
  have d: "own_buffers (fst (up_own u (u_dialed_update (\<lambda>_. True)) e'))" if "own_buffers e'" for e' u
    by (rule buffers_own [OF that]) simp
  have o: "own_buffers (fst (up_own u (\<lambda>o'. case dial o' of Some o'' \<Rightarrow> o'' | None \<Rightarrow> o') e'))" if "own_buffers e'" for e' u
    by (rule buffers_own [OF that]) simp
  show ?thesis
    using b d o by (simp add: fresh_dial_born and_then_simps split: option.split)
qed

lemma buffers_discard: "own_buffers e \<Longrightarrow> own_buffers (fst (discard now u e))"
  unfolding discard_def and_then_simps by (intro buffers_up buffers_own) simp_all

lemma buffers_attach_held: "own_buffers e \<Longrightarrow> own_buffers (fst (attach_held env ok now l i opts u e))"
proof -
  assume i: "own_buffers e"
  obtain r e1 o1 where c: "contest l u e = (r, e1, o1)" using prod_cases3 by blast
  show ?thesis
  proof (cases r)
    case None
    let ?e3 = "fst (up_call u (\<lambda>h. (fst (attach now l h), [])) (claim l u e1))"
    have e3: "own_buffers ?e3" by (rule buffers_up) (use i buffers_contest [OF c] in simp_all)
    have "own_buffers (fst (up_call u (flushAfterAttach (sink_ok ok u ?e3)) ?e3))" by (rule buffers_up [OF e3]) simp
    with c None e3 buffers_discard buffers_fresh show ?thesis
      by (simp add: attach_held_state Let_def split: attach_result.split)
  qed (use buffers_contest [OF c] i in \<open>simp add: attach_held_def c split_beta\<close>)
qed

lemma buffers_perform: "own_buffers e \<Longrightarrow> own_buffers (fst (perform now l u frame e))"
proof (cases frame)
  case (AWrite i line)
  assume "own_buffers e"
  then show ?thesis unfolding AWrite perform.simps by (rule buffers_fx) simp
next
  case (ADetach i)
  assume "own_buffers e"
  then have "own_buffers (fst (up_own u (detach now) (unclaim l u e)))" by (intro buffers_own) simp_all
  then show ?thesis using \<open>own_buffers e\<close> by (simp add: ADetach release_def and_then_simps)
qed (auto intro!: buffers_up simp: up_ack_def)

lemma buffers_dispatch: "own_buffers e \<Longrightarrow> own_buffers (fst (dispatch env ok now l frame e))"
proof -
  assume i: "own_buffers e"
  have "own_buffers (fst (drive now l j frame e))" for j
  proof (cases "map_of (en_upstreams e) j")
    case (Some u)
    obtain r e1 o1 where c: "contest l u e = (r, e1, o1)" using prod_cases3 by blast
    have "own_buffers (fst (up_own u (silence now) e1))" by (rule buffers_own) (use buffers_contest [OF c] i in simp_all)
    with c buffers_contest [OF c] Some i buffers_perform show ?thesis
      by (cases r) (simp_all add: drive_def split_beta and_then_simps)
  qed (use i in \<open>simp add: drive_def\<close>)
  moreover have "own_buffers (fst (hello env l frame e))"
    using i by (simp add: hello_def Let_def and_then_simps destroy_link_def split: app_frame.split)
  moreover have "own_buffers (fst (connect env ok now l c e))" for c
  proof -
    have "own_buffers (fst (up_own u (silence now) (unclaim_all u e)))" for u by (rule buffers_own) (use i in simp_all)
    with i buffers_attach_held buffers_fresh buffers_discard show ?thesis
      by (simp add: connect_def and_then_simps split: sum.split option.split prod.split)
  qed
  ultimately show ?thesis
    using i by (cases frame) (simp_all add: dispatch_def)
qed

lemma buffers_step: "own_buffers e \<Longrightarrow> own_buffers (fst (engine_step env ok now ev e))"
proof (cases ev)
  case (EvAccept l)
  assume "own_buffers e"
  then show ?thesis by (simp add: EvAccept accept_def own_buffers_def)
next
  case (EvLinkData l chunk)
  assume i: "own_buffers e"
  have "own_buffers e \<Longrightarrow> own_buffers (fst (dispatch_all env ok now l fs e))" for fs e
    by (induction fs arbitrary: e) (simp_all add: skip_def and_then_simps buffers_dispatch)
  with i EvLinkData show ?thesis
    by (simp add: onData_def Let_def destroy_link_def split: sum.split prod.split)
next
  case (EvDrain l)
  assume "own_buffers e"
  with EvDrain show ?thesis unfolding EvDrain engine_step.simps onDrain_def
    by (intro in_order_inv [where P = own_buffers]) (auto intro!: buffers_up)
next
  case (EvLinkClosed l)
  assume "own_buffers e"
  with EvLinkClosed show ?thesis
    by (simp add: onLinkClose_def and_then_simps detach_all_state Let_def) (simp add: own_buffers_def)
next
  case EvSweep
  assume i: "own_buffers e"
  have "own_buffers e \<Longrightarrow> own_buffers (fst (sweepSilentLinks now e))" for e
    unfolding sweepSilentLinks_def by (rule in_order_inv [where P = own_buffers]) (auto simp: destroy_link_def)
  moreover have "own_buffers e \<Longrightarrow> own_buffers (fst (reapOrphans env now e))" for e
    unfolding reapOrphans_def
    by (auto intro!: in_order_inv [where P = own_buffers] buffers_up simp: reapOrphan_def Let_def split: option.split)
  ultimately show ?thesis using i EvSweep by (simp add: and_then_simps)
qed (auto intro!: buffers_up buffers_fx buffers_own)

lemma buffers_run: "own_buffers e \<Longrightarrow> own_buffers (fst (engine_run env evs e))"
proof (induction evs arbitrary: e)
  case (Cons x evs)
  obtain bp now ev where x: "x = (bp, now, ev)" using prod_cases3 by blast
  from Cons.IH [OF buffers_step] Cons.prems x show ?case
    by (simp add: and_then_simps)
qed (simp add: skip_def)

lemma buffers_start: "own_buffers (engine_start m)"
  by (simp add: own_buffers_def engine_start_def)

end
