(* ===== verification/Server_Sessions.thy ===== *)
theory Server_Sessions imports Server_Buffers begin

text \<open>
  What the engine of \<open>server/engine/server.ts\<close> promises the applications that share it: a session is
  visible to its own instance and to one link at a time, a newer process keeps what it holds, and
  nothing happens on a link before it is authenticated.
\<close>

section \<open>Sockets a handler leaves alone\<close>

text \<open>The socket, its backlog, who claims it and whether its id means it.\<close>

definition untouched :: "nat \<Rightarrow> engine \<Rightarrow> engine \<Rightarrow> bool" where
  "untouched w e e' \<longleftrightarrow>
     en_heap e' w = en_heap e w \<and>
     bb_heap (en_budget e') (u_uid (en_heap e w)) = bb_heap (en_budget e) (u_uid (en_heap e w)) \<and>
     (u_uid (en_heap e w) \<in> set (bb_buffers (en_budget e')) \<longleftrightarrow> u_uid (en_heap e w) \<in> set (bb_buffers (en_budget e))) \<and>
     (\<forall>k. w \<in> set (lk_claimed (en_link e' k)) \<longleftrightarrow> w \<in> set (lk_claimed (en_link e k))) \<and>
     (map_of (en_upstreams e') (u_id (en_heap e w)) = Some w \<longleftrightarrow>
      map_of (en_upstreams e) (u_id (en_heap e w)) = Some w)"

lemma untouched_refl [simp]: "untouched w e e"
  by (simp add: untouched_def)

lemma untouched_trans: "untouched w e e1 \<Longrightarrow> untouched w e1 e2 \<Longrightarrow> untouched w e e2"
  by (simp add: untouched_def)

text \<open>Two sockets, each with its own backlog, and what touches one of them only.\<close>

definition beside :: "nat \<Rightarrow> nat \<Rightarrow> engine \<Rightarrow> bool" where
  "beside w u e \<longleftrightarrow> own_buffers e \<and> w < en_next e \<and> u < en_next e \<and> w \<noteq> u"

lemma besideD: "beside w u e \<Longrightarrow> w \<noteq> u" "beside w u e \<Longrightarrow> u_uid (en_heap e w) \<noteq> u_uid (en_heap e u)"
  by (auto simp: beside_def own_buffers_def)

lemma beside_up [intro]:
  "beside w u e \<Longrightarrow> (\<And>h. u_uid (snd (fst (f h))) = u_uid (snd h)) \<Longrightarrow> beside w u (fst (up_call v f e))"
  unfolding beside_def by (auto simp: up_call_frame)

lemma beside_own [intro]: "beside w u e \<Longrightarrow> (\<And>o'. u_uid (f o') = u_uid o') \<Longrightarrow> beside w u (fst (up_own v f e))"
  unfolding beside_def by (auto simp: up_own_frame)

lemma beside_same [simp]:
  "beside w u (claim l v e) = beside w u e" "beside w u (unclaim l v e) = beside w u e" "beside w u (unclaim_all v e) = beside w u e"
  "beside w u (e\<lparr>en_upstreams := ups\<rparr>) = beside w u e"
  unfolding beside_def by (simp_all add: claim_def unclaim_def)

definition minds_own :: "(held \<Rightarrow> held \<times> effect list) \<Rightarrow> bool" where
  "minds_own f \<longleftrightarrow> (\<forall>h i. i \<noteq> u_uid (snd h) \<longrightarrow> bb_heap (fst (fst (f h))) i = bb_heap (fst h) i \<and>
     (i \<in> set (bb_buffers (fst (fst (f h)))) \<longleftrightarrow> i \<in> set (bb_buffers (fst h))))"

lemma minds_ownD:
  assumes "minds_own f" "i \<noteq> u_uid (snd h)"
  shows "bb_heap (fst (fst (f h))) i = bb_heap (fst h) i" "i \<in> set (bb_buffers (fst (fst (f h)))) \<longleftrightarrow> i \<in> set (bb_buffers (fst h))"
  using assms unfolding minds_own_def by blast+

lemma minds_ack: "minds_own (\<lambda>h. (up_ack s h, []))" "minds_own (\<lambda>h. (fst (attach now l h), []))"
  by (auto simp: minds_own_def up_ack_def ack_put attach_def Let_def split: option.split)

lemma minds_flush: "minds_own (flush ok)"
  by (auto simp: minds_own_def flush_def takeGap_def Let_def split_beta split: option.split)

lemma minds_flushAfterAttach: "minds_own (flushAfterAttach ok)"
  unfolding minds_own_def
proof (intro allI impI)
  fix h :: held and i
  assume i: "i \<noteq> u_uid (snd h)"
  obtain w u where h: "h = (w, u)" by (cases h)
  have f: "bb_heap (fst (fst (flush ok (w, v)))) i = bb_heap w i \<and> (i \<in> set (bb_buffers (fst (fst (flush ok (w, v))))) \<longleftrightarrow> i \<in> set (bb_buffers w))"
    if "u_uid v = u_uid u" for v
    using minds_ownD [OF minds_flush, of i "(w, v)" ok] i h that by simp
  show "bb_heap (fst (fst (flushAfterAttach ok h))) i = bb_heap (fst h) i \<and>
     (i \<in> set (bb_buffers (fst (fst (flushAfterAttach ok h)))) \<longleftrightarrow> i \<in> set (bb_buffers (fst h)))"
    unfolding h by (auto simp: flushAfterAttach_def Let_def split_beta f sendLive_def split: option.split)
qed

lemma minds_close: "minds_own close_up"
  by (auto simp: minds_own_def close_up_def destroy_def on_close_def dispose_def Let_def)

lemma untouched_up_call: "beside w u e \<Longrightarrow> minds_own f \<Longrightarrow> untouched w e (fst (up_call u f e))"
  using besideD [of w u e] minds_ownD [of f "u_uid (en_heap e w)" "(en_budget e, en_heap e u)"]
  by (auto simp: untouched_def up_call_state Let_def on_closed_def store_def unclaim_all_link delete_conv')

lemma budget_up_own [simp]: "en_budget (fst (up_own u f e)) = en_budget e"
  by (simp add: up_own_state store_def)

lemma untouched_up_own: "w \<noteq> u \<Longrightarrow> untouched w e (fst (up_own u f e))"
  by (simp add: untouched_def up_own_frame)

lemma untouched_claim: "w \<noteq> u \<Longrightarrow> untouched w e (claim l u e)" "w \<noteq> u \<Longrightarrow> untouched w e (unclaim l u e)"
  "w \<noteq> u \<Longrightarrow> untouched w e (unclaim_all u e)"
  by (auto simp: untouched_def claim_def unclaim_def unclaim_all_link)

lemma untouched_discard: "beside w u e \<Longrightarrow> untouched w e (fst (discard now u e))"
  unfolding discard_def and_then_simps
  by (intro untouched_trans [OF untouched_up_own untouched_up_call] beside_own minds_close) (simp_all add: besideD)

lemma untouched_release:
  assumes "w \<noteq> u"
  shows "untouched w e (fst (release now l u e))"
proof -
  have r: "untouched w e (e'\<lparr>en_releasedBy := r\<rparr>) = untouched w e e'" for e' r
    by (simp add: untouched_def)
  show ?thesis
    using untouched_trans [OF untouched_claim(2) [OF assms] untouched_up_own [OF assms]]
    by (simp add: release_def and_then_simps r)
qed

lemma discard_map: "map_of (en_upstreams (fst (discard now u e))) i = Some w \<Longrightarrow> map_of (en_upstreams e) i = Some w"
proof -
  assume "map_of (en_upstreams (fst (discard now u e))) i = Some w"
  then have "map_of (en_upstreams (fst (up_call u close_up (fst (up_own u (silence now) e))))) i = Some w"
    by (simp add: discard_def and_then_simps)
  from up_call_frame(6) [OF this] show ?thesis by (simp add: up_own_frame)
qed

lemma buffers_born: "own_buffers e \<Longrightarrow> own_buffers (born env l i opts e)"
  by (simp add: own_buffers_def born_frame less_Suc_eq) (simp add: new_upstream_def)

lemma untouched_born:
  assumes "own_buffers e" "w < en_next e" "map_of (en_upstreams e) i \<noteq> Some w"
  shows "untouched w e (born env l i opts e)"
proof -
  have "u_uid (en_heap e w) = w" using assms(1,2) by (simp add: own_buffers_def)
  moreover have "en_budget (born env l i opts e) = new_buffer (en_next e) (ev_bufferBytes env) (en_budget e)"
    by (simp add: born_def claim_def)
  ultimately show ?thesis
    using assms(2,3) by (auto simp: untouched_def born_frame new_buffer_def)
qed

lemma untouched_fresh_dial:
  assumes b: "own_buffers e" and w: "w < en_next e" "map_of (en_upstreams e) i \<noteq> Some w"
  shows "untouched w e (fst (fresh_dial env now l i opts e))"
proof -
  let ?u = "en_next e" and ?e0 = "born env l i opts e"
  let ?e1 = "fst (up_call ?u (\<lambda>h. (fst (attach now l h), [])) ?e0)"
  have ne: "w \<noteq> ?u" using w by simp
  have "beside w ?u ?e0" using buffers_born [OF b] w(1) by (simp add: beside_def born_frame)
  then have u1: "untouched w e ?e1"
    by (rule untouched_trans [OF untouched_born [OF b w] untouched_up_call [OF _ minds_ack(2)]])
  have del: "untouched w e (e'\<lparr>en_upstreams := AList.delete i (en_upstreams e')\<rparr>)"
    if e': "untouched w e e'" "map_of (en_upstreams e') i \<noteq> Some w" for e'
    using that w(2) by (auto simp: untouched_def delete_conv')
  have m1: "map_of (en_upstreams ?e1) i \<noteq> Some w"
    using up_call_frame(6) [of ?u "\<lambda>h. (fst (attach now l h), [])" ?e0 i w] ne by (auto simp: born_frame)
  let ?e2 = "fst (up_own ?u (u_dialed_update (\<lambda>_. True)) ?e1)"
  have u2: "untouched w e (fst (up_own ?u f ?e1))" for f
    by (rule untouched_trans [OF u1 untouched_up_own [OF ne]])
  have "untouched w e (unclaim l ?u (?e2\<lparr>en_upstreams := AList.delete i (en_upstreams ?e2)\<rparr>))"
    using m1 by (intro untouched_trans [OF del [OF u2] untouched_claim(2) [OF ne]]) (simp add: up_own_frame)
  with u2 show ?thesis
    by (simp add: fresh_dial_born and_then_simps split: option.split)
qed

lemma untouched_contest:
  assumes "contest l u e = (r, e1, o1)" "w \<noteq> u"
  shows "untouched w e e1"
  using assms untouched_claim(2) [OF assms(2)]
  by (auto simp: contest_def Let_def send_def split: option.splits if_splits)

lemma next_up [simp]: "en_next (fst (up_call u f e)) = en_next e" "en_next (fst (up_own u g e)) = en_next e"
  "en_next (claim l u e) = en_next e" "en_next (unclaim l u e) = en_next e" "en_next (fst (discard now u e)) = en_next e"
  by (simp_all add: up_call_frame up_own_frame claim_def unclaim_def discard_def and_then_simps)

lemma beside_contest: "contest l u e = (r, e1, o1) \<Longrightarrow> beside w v e1 = beside w v e"
  using contest_frame [of l u e r e1 o1] buffers_contest [of l u e r e1 o1] by (simp add: beside_def)

lemma untouched_attach_held:
  assumes b: "beside w u e" and u: "map_of (en_upstreams e) i = Some u"
  shows "untouched w e (fst (attach_held env ok now l i opts u e))"
proof -
  have ne: "w \<noteq> u" by (rule besideD [OF b])
  obtain r e1 o1 where c: "contest l u e = (r, e1, o1)" using prod_cases3 by blast
  note u1 = untouched_contest [OF c ne] and cf = contest_frame [OF c]
  show ?thesis
  proof (cases r)
    case (Some other)
    with c u1 show ?thesis by (simp add: attach_held_def split_beta)
  next
    case None
    let ?e2 = "claim l u e1"
    let ?e3 = "fst (up_call u (\<lambda>h. (fst (attach now l h), [])) ?e2)"
    let ?e4 = "fst (discard now u (unclaim l u ?e3))"
    have b2: "beside w u ?e2" using b beside_contest [OF c] by simp
    have b3: "beside w u ?e3" by (rule beside_up [OF b2]) simp
    have u3: "untouched w e ?e3"
      by (rule untouched_trans [OF untouched_trans [OF u1 untouched_claim(1) [OF ne]] untouched_up_call [OF b2 minds_ack(2)]])
    have u4: "untouched w e ?e4"
      by (rule untouched_trans [OF untouched_trans [OF u3 untouched_claim(2) [OF ne]] untouched_discard]) (simp add: b3)
    have "map_of (en_upstreams ?e4) i \<noteq> Some w"
    proof
      assume m: "map_of (en_upstreams ?e4) i = Some w"
      have "map_of (en_upstreams ?e3) i = Some w"
        using discard_map [OF m] by (simp add: unclaim_def)
      from up_call_frame(6) [OF this] show False using cf u ne by (simp add: claim_def)
    qed
    moreover have "own_buffers ?e4" "w < en_next ?e4" using b3 by (simp_all add: beside_def buffers_discard)
    ultimately have u5: "untouched w e (fst (fresh_dial env now l i opts ?e4))"
      by (intro untouched_trans [OF u4 untouched_fresh_dial])
    have u6: "untouched w e (fst (up_call u (flushAfterAttach (sink_ok ok u ?e3)) ?e3))"
      by (rule untouched_trans [OF u3 untouched_up_call [OF b3 minds_flushAfterAttach]])
    from u3 u4 u5 u6 show ?thesis
      using c None by (simp add: attach_held_state Let_def split: attach_result.split)
  qed
qed

text \<open>An authenticated link's frame leaves every other instance's sockets alone.\<close>

lemma untouched_dispatch:
  assumes inv: "claims_inv {} e" and b: "own_buffers e" and auth: "lk_authed (en_link e l)"
    and w: "w < en_next e" "u_instance (en_heap e w) \<noteq> lk_instance (en_link e l)"
  shows "untouched w e (fst (dispatch env ok now l frame e))"
proof -
  have beside: "beside w u e" if "map_of (en_upstreams e) i = Some u" "u_instance (en_heap e u) = lk_instance (en_link e l)" for i u
    using claims_invD(5) [OF inv that(1)] that(2) w b by (auto simp: beside_def)
  have drive: "untouched w e (fst (drive now l i f e))" for i f
  proof (cases "map_of (en_upstreams e) i")
    case (Some u)
    show ?thesis
    proof (cases "u_instance (en_heap e u) = lk_instance (en_link e l)")
      case True
      note bs = beside [OF Some True]
      have ne: "w \<noteq> u" by (rule besideD [OF bs])
      have p: "untouched w e' (fst (perform now l u f e'))" if "beside w u e'" for f e'
        using untouched_up_call [OF that minds_ack(1)] untouched_up_call [OF that minds_close] untouched_release [OF ne] 
          untouched_up_call [OF that, of "\<lambda>(w, o'). ((w, o'), up_write line o')" for line]
        by (cases f) (simp_all add: up_fx_def minds_own_def split_beta)
      obtain r e1 o1 where c: "contest l u e = (r, e1, o1)" using prod_cases3 by blast
      have u1: "untouched w e e1" by (rule untouched_contest [OF c ne])
      have "beside w u (fst (up_own u (silence now) e1))" using bs beside_contest [OF c] by (intro beside_own) simp_all
      then have "untouched w e (fst (perform now l u f (fst (up_own u (silence now) e1))))"
        by (rule untouched_trans [OF untouched_trans [OF u1 untouched_up_own [OF ne]] p])
      with Some True p [OF bs] u1 c show ?thesis
        by (cases r) (simp_all add: drive_def split_beta and_then_simps)
    qed (simp add: drive_def Some)
  qed (simp add: drive_def)
  have connect: "untouched w e (fst (connect env ok now l c e))" for c
  proof (cases "check_connect env c")
    case (Inr io)
    obtain i opts where io: "io = (i, opts)" by (cases io)
    show ?thesis
    proof (cases "map_of (en_upstreams e) i")
      case None
      with Inr io untouched_fresh_dial [OF b w(1), of i] show ?thesis by (simp add: connect_def)
    next
      case (Some u)
      show ?thesis
      proof (cases "u_instance (en_heap e u) = lk_instance (en_link e l)")
        case True
        note bs = beside [OF Some True]
        have ne: "w \<noteq> u" by (rule besideD [OF bs])
        let ?a = "fst (up_own u (silence now) (unclaim_all u e))" and ?b = "fst (discard now u (unclaim_all u e))"
        have ab: "untouched w e ?a" "untouched w e ?b"
          by (rule untouched_trans [OF untouched_claim(3) [OF ne] untouched_up_own [OF ne]],
              rule untouched_trans [OF untouched_claim(3) [OF ne] untouched_discard]) (simp add: bs)
        have own: "own_buffers ?a" "own_buffers ?b" using b by (auto intro!: buffers_own buffers_discard)
        have mb: "map_of (en_upstreams ?b) i = Some w \<Longrightarrow> False" 
          using discard_map [of now u "unclaim_all u e" i w] Some ne by simp
        have "untouched w e (fst (fresh_dial env now l i opts ?a))"
          using Some ne w(1) by (intro untouched_trans [OF ab(1) untouched_fresh_dial [OF own(1)]]) (simp_all add: up_own_frame)
        moreover have "untouched w e (fst (fresh_dial env now l i opts ?b))"
          using mb w(1) by (intro untouched_trans [OF ab(2) untouched_fresh_dial [OF own(2)]]) auto
        ultimately show ?thesis
          using Inr io Some True untouched_attach_held [OF bs Some] by (simp add: connect_def and_then_simps)
      qed (simp add: connect_def Inr io Some)
    qed
  qed (simp add: connect_def)
  show ?thesis
    using auth drive connect by (cases frame) (simp_all add: dispatch_def)
qed

text \<open>What a frame makes the engine say: to its link, on the socket it is about, to links of that socket's instance.\<close>

definition about :: "nat \<Rightarrow> nat \<Rightarrow> engine \<Rightarrow> out \<Rightarrow> bool" where
  "about l u e x \<longleftrightarrow> (\<exists>f. x = ToLink l f) \<or> (\<exists>fx. x = OnSocket u fx) \<or>
     (\<exists>k f. x = ToLink k f \<and> lk_instance (en_link e k) = u_instance (en_heap e u))"

lemma about_same:
  "about l u e x \<Longrightarrow> (\<And>k. lk_instance (en_link e' k) = lk_instance (en_link e k)) \<Longrightarrow> u_instance (en_heap e' u) = u_instance (en_heap e u) \<Longrightarrow>
   about l u e' x"
  by (auto simp: about_def)

lemma out_send: "x \<in> set (snd (send l f e)) \<Longrightarrow> about l u e' x" "x \<in> set (snd (fail l m i e)) \<Longrightarrow> about l u e' x"
  by (auto simp: send_def fail_def about_def split: if_splits)

lemma out_call:
  "x \<in> set (snd (up_call u f e)) \<Longrightarrow> \<forall>b. EmitRegistered b \<notin> set (snd (f (en_budget e, en_heap e u))) \<Longrightarrow>
   (\<exists>fx. x = OnSocket u fx) \<or> (\<exists>k g. x = ToLink k g \<and> SendTo k g \<in> set (snd (f (en_budget e, en_heap e u))))"
proof -
  have "x \<in> set (snd (in_order (map (handle_effect u) fx) e')) \<Longrightarrow> \<forall>b. EmitRegistered b \<notin> set fx \<Longrightarrow>
     (\<exists>fx. x = OnSocket u fx) \<or> (\<exists>k g. x = ToLink k g \<and> SendTo k g \<in> set fx)" for fx e'
  proof (induction fx arbitrary: e')
    case (Cons y fx)
    have "x \<in> set (snd (handle_effect u y e')) \<or> x \<in> set (snd (in_order (map (handle_effect u) fx) (fst (handle_effect u y e'))))"
      using Cons.prems(1) by (simp add: and_then_simps)
    then show ?case
    proof
      assume "x \<in> set (snd (handle_effect u y e'))"
      then show ?thesis using Cons.prems(2) by (cases y) (auto simp: send_def split: if_splits)
    next
      assume "x \<in> set (snd (in_order (map (handle_effect u) fx) (fst (handle_effect u y e'))))"
      from Cons.IH [OF this] Cons.prems(2) show ?thesis by auto
    qed
  qed (simp add: skip_def)
  then show "x \<in> set (snd (up_call u f e)) \<Longrightarrow> \<forall>b. EmitRegistered b \<notin> set (snd (f (en_budget e, en_heap e u))) \<Longrightarrow> ?thesis"
    by (fastforce simp: up_call_def split_beta)
qed

lemma out_own [simp]: "snd (up_own v g e') = []"
  by (simp add: up_own_def up_call_def split_beta skip_def)

lemma out_attach [simp]: "snd (up_call v (\<lambda>h. (fst (attach now l h), [])) e') = []"
  by (simp add: up_call_def split_beta skip_def)

lemma sent_lines: "x \<in> set (snd (send_lines ok l bs u)) \<Longrightarrow> \<exists>f. x = SendTo l f"
  by (induction ok l bs u rule: send_lines.induct) (auto simp: sendLive_def Let_def split_beta split: option.splits if_splits)

lemma flush_sent: "x \<in> set (snd (flush ok h)) \<Longrightarrow> \<exists>k f. x = SendTo k f \<and> u_sink (snd h) = Some k"
  by (auto simp: flush_def Let_def split_beta split: option.splits if_splits dest!: sent_lines)

lemma flush_after_sent: "x \<in> set (snd (flushAfterAttach ok h)) \<Longrightarrow> \<exists>k f. x = SendTo k f \<and> u_sink (snd h) = Some k"
  by (cases h) (auto simp: flushAfterAttach_def sendLive_def Let_def split_beta split: option.splits if_splits dest!: flush_sent)

lemma out_fresh: "x \<in> set (snd (fresh_dial env now l i opts e)) \<Longrightarrow> about l u e' x"
  by (auto simp: fresh_dial_born and_then_simps send_def about_def split: option.splits if_splits)

lemma close_quiet: "x \<in> set (snd (close_up h)) \<Longrightarrow> (\<forall>b. x \<noteq> EmitRegistered b) \<and> (\<forall>k g. x \<noteq> SendTo k g)"
  by (cases h) (auto simp: close_up_def Let_def destroy_def on_close_def split_beta split: if_splits option.splits)

lemma out_close: "x \<in> set (snd (up_call u close_up e)) \<Longrightarrow> about l u e' x"
  using out_call [of x u close_up e] close_quiet by (fastforce simp: about_def)

lemma out_discard: "x \<in> set (snd (discard now u e)) \<Longrightarrow> about l u e' x"
  by (auto simp: discard_def and_then_simps intro: out_close)

lemma out_contest:
  assumes "claims_inv {} e" "contest l u e = (r, e1, o1)" "x \<in> set o1"
  shows "about l u e x"
proof -
  obtain k where k: "holderOf e u (Some l) = Some k" "x = ToLink k (FDetached (u_id (en_heap e u)))"
    using assms(2,3) by (auto simp: contest_def send_def Let_def split: option.splits if_splits)
  show ?thesis using claims_invD(2) [OF assms(1)] holderOf_Some [OF k(1)] k(2) by (auto simp: about_def)
qed

lemma out_release: "x \<in> set (snd (release now l u e)) \<Longrightarrow> about l u e x"
proof -
  assume "x \<in> set (snd (release now l u e))"
  then show ?thesis
    by (auto simp: release_def and_then_simps offer_def offer_one_def skip_def about_def up_own_frame unclaim_def split: if_splits)
qed

lemma out_perform: "x \<in> set (snd (perform now l u f e)) \<Longrightarrow> about l u e x"
proof (cases f)
  case (AWrite i line)
  assume "x \<in> set (snd (perform now l u f e))"
  then have "x \<in> set (snd (up_call u (\<lambda>(w, o'). ((w, o'), up_write line o')) e))" by (simp add: AWrite up_fx_def)
  from out_call [OF this] show ?thesis by (auto simp: up_write_def rawWrite_def about_def)
next
  case (AAck i s)
  assume "x \<in> set (snd (perform now l u f e))"
  then show ?thesis using out_call [of x u "\<lambda>h. (up_ack s h, [])" e] by (auto simp: AAck about_def)
qed (auto intro: out_close out_release)

lemma out_attach_held:
  assumes inv: "claims_inv {} e" and x: "x \<in> set (snd (attach_held env ok now l i opts u e))"
  shows "about l u e x"
proof -
  obtain r e1 o1 where c: "contest l u e = (r, e1, o1)" using prod_cases3 by blast
  let ?e3 = "fst (up_call u (\<lambda>h. (fst (attach now l h), [])) (claim l u e1))"
  have sink: "u_sink (en_heap ?e3 u) = Some l" by (simp add: up_call_frame attach_core)
  have fl: "about l u e y" if "y \<in> set (snd (up_call u (flushAfterAttach (sink_ok ok u ?e3)) ?e3))" for y
    using out_call [OF that] flush_after_sent [of _ "sink_ok ok u ?e3" "(en_budget ?e3, en_heap ?e3 u)"] sink by (fastforce simp: about_def)
  show ?thesis
    using x c out_contest [OF inv c] out_send(1) out_discard out_fresh fl
    by (auto simp: attach_held_def Let_def split_beta and_then_simps split: option.splits attach_result.splits if_splits)
qed

text \<open>No effect of an authenticated link's frame is on another instance's socket or link.\<close>

lemma out_dispatch:
  assumes inv: "claims_inv {} e" and auth: "lk_authed (en_link e l)" and x: "x \<in> set (snd (dispatch env ok now l frame e))"
  shows "\<exists>u. u_instance (en_heap e u) = lk_instance (en_link e l) \<and> u < en_next e \<and> about l u e x \<or> (\<exists>f. x = ToLink l f)"
proof -
  have sent: "x \<in> set (snd (send l f e')) \<Longrightarrow> \<exists>f. x = ToLink l f" "x \<in> set (snd (fail l m i e')) \<Longrightarrow> \<exists>f. x = ToLink l f" for f e' m i
    by (auto simp: send_def fail_def split: if_splits)
  have fresh: "x \<in> set (snd (fresh_dial env now l i opts e')) \<Longrightarrow> \<exists>f. x = ToLink l f" for i opts e'
    by (auto simp: fresh_dial_born and_then_simps send_def split: option.splits if_splits)
  have drive: ?thesis if d: "x \<in> set (snd (drive now l i f e))" for i f
  proof (cases "map_of (en_upstreams e) i")
    case (Some u)
    show ?thesis
    proof (cases "u_instance (en_heap e u) = lk_instance (en_link e l)")
      case True
      obtain r e1 o1 where c: "contest l u e = (r, e1, o1)" using prod_cases3 by blast
      note cf = contest_frame [OF c]
      let ?e2 = "fst (up_own u (silence now) e1)"
      have "about l u e x" if "x \<in> set (snd (perform now l u f ?e2))"
        by (rule about_same [OF out_perform [OF that]]) (use cf in \<open>simp_all add: up_own_frame\<close>)
      with d Some True c out_perform out_contest [OF inv c] out_send have "about l u e x"
        by (auto simp: drive_def split_beta and_then_simps split: if_splits option.splits)
      then show ?thesis using True claims_invD(5) [OF inv Some] by blast
    qed (use d sent in \<open>simp add: drive_def Some\<close>)
  qed (use d sent in \<open>simp add: drive_def\<close>)
  have connect: ?thesis if d: "x \<in> set (snd (connect env ok now l c e))" for c
  proof (cases "check_connect env c")
    case (Inr io)
    obtain i opts where io: "io = (i, opts)" by (cases io)
    show ?thesis
    proof (cases "map_of (en_upstreams e) i")
      case (Some u)
      show ?thesis
      proof (cases "u_instance (en_heap e u) = lk_instance (en_link e l)")
        case True
        have "about l u e x"
          using d Some True Inr io out_attach_held [OF inv] out_discard out_fresh by (auto simp: connect_def and_then_simps split: if_splits)
        then show ?thesis using True claims_invD(5) [OF inv Some] by blast
      qed (use d sent Inr io in \<open>simp add: connect_def Some\<close>)
    qed (use d fresh Inr io in \<open>simp add: connect_def\<close>)
  qed (use d sent in \<open>simp add: connect_def\<close>)
  show ?thesis
    using x auth drive connect sent(1) [of _ e] sent(2) [of _ _ e] by (cases frame) (simp_all add: dispatch_def)
qed

section \<open>A sample engine\<close>

definition sample_frame :: "string \<Rightarrow> app_frame" where
  "sample_frame s =
     (if s = ''old'' then AHello \<lparr>hf_protocol = 1, hf_secret = Some ''s'', hf_instance = Some ''db'', hf_startedAt = 1\<rparr>
      else if s = ''mid'' then AHello \<lparr>hf_protocol = 1, hf_secret = Some ''s'', hf_instance = Some ''db'', hf_startedAt = 2\<rparr>
      else if s = ''new'' then AHello \<lparr>hf_protocol = 1, hf_secret = Some ''s'', hf_instance = Some ''db'', hf_startedAt = 3\<rparr>
      else if s = ''alien'' then AHello \<lparr>hf_protocol = 1, hf_secret = Some ''s'', hf_instance = Some ''db2'', hf_startedAt = 1\<rparr>
      else if s = ''connect'' then AConnect \<lparr>cf_id = Some ''c1'', cf_host = Some ''irc'', cf_port = Some 6697, cf_tls = True,
        cf_rejectUnauthorized = True, cf_outgoingAddr = None, cf_ident = None, cf_clientCert = None, cf_proxy = None\<rparr>
      else if s = ''close'' then AClose ''c1'' else APing)"

fun sample_decode :: "json \<Rightarrow> app_frame" where
  "sample_decode (JObj [(k, JStr s)]) = sample_frame s"
| "sample_decode j = APing"

definition sample_irc :: "string \<Rightarrow> irc_msg option" where
  "sample_irc s = Some \<lparr>msg_command = s, msg_params = [''me''], msg_prefix = None\<rparr>"

definition sample_env :: env where
  "sample_env =
     \<lparr>ev_digest = (\<lambda>s. s), ev_isIP = (\<lambda>s. True), ev_certPair = (\<lambda>c k. True), ev_number = (\<lambda>s. None),
      ev_dialThrows = (\<lambda>d. None), ev_frameLength = (\<lambda>f. 100), ev_json = (\<lambda>s. Some (JObj [(''op'', JStr s)])),
      ev_decode = sample_decode, ev_parse = sample_irc, ev_socketId = (\<lambda>n. ''sock''), ev_secret = ''s'',
      ev_version = ''1'', ev_bufferBytes = 1000, ev_orphanMs = 60000\<rparr>"

definition say :: "nat \<Rightarrow> string \<Rightarrow> event" where
  "say l text = EvLinkData l (text @ [newline])"

definition sample_events :: "((engine_frame \<Rightarrow> bool) \<times> int \<times> event) list" where
  "sample_events = map (\<lambda>ev. (\<lambda>_. True, 5, ev))
     [EvAccept 6, say 6 ''old'', EvAccept 7, say 7 ''mid'', say 7 ''connect'', EvAccept 8, say 8 ''new'',
      EvAccept 9, say 9 ''alien'']"

lemma sample_read:
  "reader_push (\<lambda>s. Some (JObj [(''op'', JStr s)])) [] (''old'' @ [newline]) = Inr ([JObj [(''op'', JStr ''old'')]], [])"
  "reader_push (\<lambda>s. Some (JObj [(''op'', JStr s)])) [] (''mid'' @ [newline]) = Inr ([JObj [(''op'', JStr ''mid'')]], [])"
  "reader_push (\<lambda>s. Some (JObj [(''op'', JStr s)])) [] (''new'' @ [newline]) = Inr ([JObj [(''op'', JStr ''new'')]], [])"
  "reader_push (\<lambda>s. Some (JObj [(''op'', JStr s)])) [] (''alien'' @ [newline]) = Inr ([JObj [(''op'', JStr ''alien'')]], [])"
  "reader_push (\<lambda>s. Some (JObj [(''op'', JStr s)])) [] (''connect'' @ [newline]) = Inr ([JObj [(''op'', JStr ''connect'')]], [])"
  by (simp_all add: reader_push_def read_frames.simps Let_def MAX_FRAME_BYTES_def js_trim_def is_space_def)

definition sample_engine :: engine where
  "sample_engine = fst (engine_run sample_env sample_events (engine_start 5000))"


lemma sample_accept: "engine_step env ok 5 (EvAccept l) e =
   (e\<lparr>en_links := set_add l (en_links e), en_link := (en_link e)(l := new_link 5)\<rparr>, [])"
  by (simp add: accept_def)



lemma sample_data:
  assumes "lk_buf (en_link e l) = []" "text \<in> {''old'', ''mid'', ''new'', ''alien'', ''connect''}" "\<not> lk_destroyed (en_link e l)"
  shows "fst (engine_step sample_env ok 5 (say l text) e) =
    fst (dispatch sample_env ok 5 l (sample_frame text)
      (upd_link l (\<lambda>k. k\<lparr>lk_lastSeen := 5, lk_sniffed := True, lk_buf := []\<rparr>) e))"
  using assms(2) unfolding insert_iff
  by (elim disjE emptyE; insert assms(1,3))
     (simp_all add: say_def onData_def Let_def sample_read [simplified] sample_env_def upd_link_def starts_with_def and_then_def skip_def split_beta)

lemma sample_hello:
  assumes "\<not> lk_authed (en_link e l)"
  shows "fst (dispatch sample_env ok 5 l (sample_frame ''old'') e) =
      upd_link l (\<lambda>k. k\<lparr>lk_authed := True, lk_instance := ''db'', lk_generation := 1\<rparr>) e"
    "fst (dispatch sample_env ok 5 l (sample_frame ''mid'') e) =
      upd_link l (\<lambda>k. k\<lparr>lk_authed := True, lk_instance := ''db'', lk_generation := 2\<rparr>) e"
    "fst (dispatch sample_env ok 5 l (sample_frame ''new'') e) =
      upd_link l (\<lambda>k. k\<lparr>lk_authed := True, lk_instance := ''db'', lk_generation := 3\<rparr>) e"
    "fst (dispatch sample_env ok 5 l (sample_frame ''alien'') e) =
      upd_link l (\<lambda>k. k\<lparr>lk_authed := True, lk_instance := ''db2'', lk_generation := 1\<rparr>) e"
  using assms
  by (simp_all add: dispatch_def hello_def sample_frame_def PROTOCOL_MAJOR_def sample_env_def send_def Let_def upd_link_def)

definition sample_dial :: dial_opts where
  "sample_dial = \<lparr>do_host = ''irc'', do_port = 6697, do_tls = True, do_rejectUnauthorized = True, do_outgoingAddr = None,
     do_ident = None, do_clientCert = None, do_proxy = None\<rparr>"

lemma sample_connect:
  assumes "lk_authed (en_link e l)" "en_upstreams e = []"
  shows "dispatch sample_env ok 5 l (sample_frame ''connect'') e =
      fresh_dial sample_env 5 l ''c1'' sample_dial e"
  using assms
  by (simp add: dispatch_def sample_frame_def connect_def check_connect_def check_cert_def check_proxy_def truthy_def sample_dial_def)

lemma sample_fresh:
  "fst (fresh_dial sample_env 5 l ''c1'' sample_dial e) =
     (claim l (en_next e) e)\<lparr>en_next := Suc (en_next e), en_budget := new_buffer (en_next e) 1000 (en_budget e),
       en_upstreams := AList.update ''c1'' (en_next e) (en_upstreams e),
       en_heap := (en_heap e)(en_next e := (case dial ((new_upstream (\<lambda>s. s) (en_next e) ''sock'' ''c1'' (lk_instance (en_link e l)) sample_dial)
           \<lparr>u_sink := Some l, u_stalled := False, u_detachedAt := None, u_sentSeq := 0\<rparr>) of Some o'' \<Rightarrow> o'' | None \<Rightarrow> undefined))\<rparr>"
  by (simp add: fresh_dial_def Let_def and_then_def split_beta sample_env_def sample_dial_def up_own_def up_call_def skip_def
     send_def attach_def new_upstream_def claim_def upd_link_def dial_def)
lemmas sample_simps = sample_events_def sample_data sample_hello sample_connect sample_fresh accept_def engine_start_def
  new_link_def upd_link_def claim_def and_then_simps skip_def

lemma event_ok_say [simp]: "event_ok (say l text) e = (l \<in> set (en_links e))"
  by (simp add: say_def)

lemma sample_run: "engine_run_ok sample_env sample_events (engine_start 5000)"
  by (simp add: sample_simps)

lemma sample_engine_facts:
  "map_of (en_upstreams sample_engine) ''c1'' = Some 0" "en_next sample_engine = 1" "en_links sample_engine = [6, 7, 8, 9]"
  "lk_claimed (en_link sample_engine 6) = []" "lk_claimed (en_link sample_engine 7) = [0]"
  "lk_claimed (en_link sample_engine 8) = []" "lk_claimed (en_link sample_engine 9) = []"
  "lk_authed (en_link sample_engine 6)" "lk_authed (en_link sample_engine 7)"
  "lk_authed (en_link sample_engine 8)" "lk_authed (en_link sample_engine 9)"
  unfolding sample_engine_def
  by (simp_all add: sample_simps) (simp_all add: set_add_def)

lemma sample_link_facts:
  "lk_instance (en_link sample_engine 6) = ''db''" "lk_instance (en_link sample_engine 7) = ''db''"
  "lk_instance (en_link sample_engine 8) = ''db''" "lk_instance (en_link sample_engine 9) = ''db2''"
  "lk_generation (en_link sample_engine 6) = 1" "lk_generation (en_link sample_engine 7) = 2"
  "lk_generation (en_link sample_engine 8) = 3" "\<not> lk_destroyed (en_link sample_engine 6)"
  "\<not> lk_destroyed (en_link sample_engine 7)" "\<not> lk_destroyed (en_link sample_engine 8)"
  unfolding sample_engine_def
  by (simp_all add: sample_simps)

lemma sample_socket_facts:
  "u_instance (en_heap sample_engine 0) = ''db''" "u_id (en_heap sample_engine 0) = ''c1''"
  "u_state (en_heap sample_engine 0) = Dialing" "\<not> u_closing (en_heap sample_engine 0)"
  "u_opts (en_heap sample_engine 0) = sample_dial" "u_proxyCred (en_heap sample_engine 0) = proxyCredDigest (\<lambda>s. s) None"
  "u_local (en_heap sample_engine 0) = None"
  unfolding sample_engine_def
  by (simp_all add: sample_simps) (simp_all add: dial_def sample_dial_def new_upstream_def wipe_key_def)

section \<open>Properties\<close>

lemma run_inv: "engine_run_ok env evs (engine_start m) \<Longrightarrow> claims_inv {} (fst (engine_run env evs (engine_start m)))"
  using claims_run [OF claims_start] by blast

text \<open>C5: Whatever the links and the sockets do, a link claims exactly the sockets that deliver to
  it: at most one link claims a socket, it is an authenticated live link of the socket's own
  instance, and the socket is the one its id means.\<close>

theorem claims_match_sinks:
  assumes "engine_run_ok env evs (engine_start m)"
  shows "\<forall>l u. u \<in> set (lk_claimed (en_link (fst (engine_run env evs (engine_start m))) l)) \<longleftrightarrow>
    (let e = fst (engine_run env evs (engine_start m)) in
      map_of (en_upstreams e) (u_id (en_heap e u)) = Some u \<and> u_sink (en_heap e u) = Some l \<and>
      l \<in> set (en_links e) \<and> lk_authed (en_link e l) \<and> lk_instance (en_link e l) = u_instance (en_heap e u))"
proof (intro allI)
  fix l u
  note inv = run_inv [OF assms]
  show "u \<in> set (lk_claimed (en_link (fst (engine_run env evs (engine_start m))) l)) \<longleftrightarrow>
    (let e = fst (engine_run env evs (engine_start m)) in
      map_of (en_upstreams e) (u_id (en_heap e u)) = Some u \<and> u_sink (en_heap e u) = Some l \<and>
      l \<in> set (en_links e) \<and> lk_authed (en_link e l) \<and> lk_instance (en_link e l) = u_instance (en_heap e u))"
    using claims_invD(1,2,3) [OF inv, of l] claims_invD(2,3) [OF inv, of u l] claims_invD(4) [OF inv, of u l]
      claims_invD(5,6) [OF inv, of _ u]
    unfolding Let_def by (metis empty_iff empty_set)
qed

lemma claims_match_sinks_witness:
  "lk_claimed (en_link sample_engine 7) = [0] \<and> u_sink (en_heap sample_engine 0) = Some 7"
  using claims_match_sinks [OF sample_run, rule_format, of 0 7] sample_engine_facts
  by (simp add: sample_engine_def Let_def)

text \<open>C6: A frame of an authenticated link leaves every socket of another instance alone: its state, its backlog, who
  claims it and whether its id means it stay as they are, nothing is written to it or done with it, and no link of
  another instance is sent anything.\<close>

theorem instances_are_isolated:
  assumes "engine_run_ok env evs (engine_start m)" "e = fst (engine_run env evs (engine_start m))"
    "lk_authed (en_link e l)" "w < en_next e" "u_instance (en_heap e w) \<noteq> lk_instance (en_link e l)"
  shows "untouched w e (fst (dispatch env ok now l frame e)) \<and>
    (\<forall>fx. OnSocket w fx \<notin> set (snd (dispatch env ok now l frame e))) \<and>
    (\<forall>k f. ToLink k f \<in> set (snd (dispatch env ok now l frame e)) \<longrightarrow> lk_instance (en_link e k) = lk_instance (en_link e l))"
proof -
  have inv: "claims_inv {} e" "own_buffers e" using run_inv [OF assms(1)] buffers_run [OF buffers_start] assms(2) by simp_all
  note o = out_dispatch [OF inv(1) assms(3)]
  have "OnSocket w fx \<notin> set (snd (dispatch env ok now l frame e))" for fx
    using o [of "OnSocket w fx"] assms(5) by (auto simp: about_def)
  moreover have "lk_instance (en_link e k) = lk_instance (en_link e l)" if "ToLink k f \<in> set (snd (dispatch env ok now l frame e))" for k f
    using o [OF that] by (auto simp: about_def)
  ultimately show ?thesis using untouched_dispatch [OF inv assms(3-5)] by blast
qed

lemma instances_are_isolated_witness:
  "untouched 0 sample_engine (fst (dispatch sample_env (\<lambda>_. True) 9 9 (sample_frame ''close'') sample_engine)) \<and>
   OnSocket 0 SocketDestroy \<notin> set (snd (dispatch sample_env (\<lambda>_. True) 9 9 (sample_frame ''close'') sample_engine))"
  using instances_are_isolated [OF sample_run sample_engine_def, of 9 0 "\<lambda>_. True" 9 "sample_frame ''close''"]
  by (simp add: sample_engine_facts sample_link_facts sample_socket_facts)

lemma holder_claims:
  assumes inv: "claims_inv {} e" and o: "u \<in> set (lk_claimed (en_link e other))" "other \<noteq> l"
  shows "holderOf e u (Some l) = Some other"
proof (cases "holderOf e u (Some l)")
  case None
  with holderOf_None [OF None, of other] claims_invD(1) [OF inv, of other] o show ?thesis by force
next
  case (Some k)
  with holderOf_Some [OF Some] claim_exclusive [OF inv, of u other k] o show ?thesis by simp
qed

text \<open>C7: A process that lost a session to a newer one can neither write to it, let go of it nor end it, and a connect of
  its with the settings the session has does not take it back: the request changes nothing and is answered with a refusal.  An ack
  is taken from any link of the instance, and a connect with other settings is not contested: it ends the session, whoever
  holds it (\<open>changed_settings_bypass_contest\<close>).\<close>

theorem newer_process_keeps_session:
  assumes "engine_run_ok env evs (engine_start m)" "e = fst (engine_run env evs (engine_start m))"
    and l: "lk_authed (en_link e l)" "\<not> lk_destroyed (en_link e l)"
    and u: "u \<in> set (lk_claimed (en_link e other))" "other \<noteq> l" "lk_generation (en_link e l) < lk_generation (en_link e other)"
    and i: "u_id (en_heap e u) = i" "i \<noteq> ''''" "lk_instance (en_link e l) = u_instance (en_heap e u)"
  shows "(frame_target frame = Some i \<and> \<not> is_ack frame \<longrightarrow>
      dispatch env ok now l frame e = (e, [ToLink l (FError (Some i) ''not attached to this connection'')])) \<and>
    (check_connect env c = Inr (i, opts) \<and> \<not> u_closing (en_heap e u) \<and> u_state (en_heap e u) \<noteq> UClosed \<and>
       matchesDial (ev_digest env) (en_heap e u) (do_host opts) (do_port opts) (do_tls opts) (cf_outgoingAddr c)
         (do_clientCert opts) (do_proxy opts) \<longrightarrow>
       dispatch env ok now l (AConnect c) e = (e, [ToLink l (FDetached i)]))"
proof -
  have inv: "claims_inv {} e" using run_inv [OF assms(1)] assms(2) by simp
  note h = holder_claims [OF inv u(1,2)]
  have c: "contest l u e = (Some other, e, [])"
    using h u(3) by (simp add: contest_def)
  have m: "map_of (en_upstreams e) i = Some u" "u_instance (en_heap e u) = lk_instance (en_link e l)"
    using claims_invD(2) [OF inv u(1)] i by auto
  have n: "u \<notin> set (lk_claimed (en_link e l))"
    using claim_exclusive [OF inv _ u(1), of l] u(2) by auto
  have "dispatch env ok now l frame e = (e, [ToLink l (FError (Some i) ''not attached to this connection'')])"
    if "frame_target frame = Some i" "\<not> is_ack frame"
  proof -
    have "dispatch env ok now l frame e = drive now l i frame e"
      using that l by (cases frame) (simp_all add: dispatch_def)
    also have "\<dots> = (e, [ToLink l (FError (Some i) ''not attached to this connection'')])"
      using that m n c l i(2) by (simp add: drive_def fail_def send_def truthy_def)
    finally show ?thesis .
  qed
  moreover have "dispatch env ok now l (AConnect c) e = (e, [ToLink l (FDetached i)])"
    if "check_connect env c = Inr (i, opts)" "\<not> u_closing (en_heap e u)" "u_state (en_heap e u) \<noteq> UClosed"
      "matchesDial (ev_digest env) (en_heap e u) (do_host opts) (do_port opts) (do_tls opts) (cf_outgoingAddr c)
         (do_clientCert opts) (do_proxy opts)"
    using that m c l by (simp add: dispatch_def connect_def attach_held_def send_def)
  ultimately show ?thesis by blast
qed

lemma close_sends: "SendTo l f \<in> set (snd (close_up h)) \<Longrightarrow> u_sink (snd h) = Some l"
  by (cases h) (auto simp: close_up_def Let_def destroy_def on_close_def split_beta split: if_splits option.splits)

lemma handle_quiet:
  "\<forall>l f. SendTo l f \<notin> set fx \<Longrightarrow> \<forall>b. EmitRegistered b \<notin> set fx \<Longrightarrow>
   ToLink k f \<notin> set (snd (in_order (map (handle_effect u) fx) e))"
proof (induction fx arbitrary: e)
  case (Cons x fx)
  then show ?case by (cases x) (auto simp: and_then_simps)
qed (simp add: skip_def)

lemma close_registers: "EmitRegistered b \<notin> set (snd (close_up h))"
  by (cases h) (auto simp: close_up_def Let_def destroy_def on_close_def split_beta split: option.splits)

lemma up_call_quiet:
  assumes "\<forall>l f. SendTo l f \<notin> set (snd (g (en_budget e, en_heap e u)))"
    "\<forall>b. EmitRegistered b \<notin> set (snd (g (en_budget e, en_heap e u)))"
  shows "ToLink k f \<notin> set (snd (up_call u g e))"
  using handle_quiet [OF assms] by (simp add: up_call_def split_beta)

lemma discard_quiet: "ToLink k f \<notin> set (snd (discard now u e))"
proof -
  have "u_sink (en_heap (fst (up_own u (silence now) e)) u) = None"
    by (simp add: up_own_frame)
  then show ?thesis
    unfolding discard_def and_then_simps
    by (simp add: up_call_quiet close_registers up_own_frame) (rule up_call_quiet; auto simp: close_registers up_own_frame dest!: close_sends)
qed

text \<open>Settings that differ are not contested: a connect for the same id under other parameters
  ends a newer process's session, whatever the generations, and the process that held it is sent
  nothing.\<close>

theorem changed_settings_bypass_contest:
  assumes "engine_run_ok env evs (engine_start m)" "e = fst (engine_run env evs (engine_start m))"
    and l: "lk_authed (en_link e l)"
    and u: "u \<in> set (lk_claimed (en_link e other))" "other \<noteq> l"
    and i: "u_id (en_heap e u) = i" "lk_instance (en_link e l) = u_instance (en_heap e u)"
    and c: "check_connect env c = Inr (i, opts)" "\<not> u_closing (en_heap e u)" "u_state (en_heap e u) \<noteq> UClosed"
      "\<not> matchesDial (ev_digest env) (en_heap e u) (do_host opts) (do_port opts) (do_tls opts) (cf_outgoingAddr c)
         (do_clientCert opts) (do_proxy opts)"
  shows "u \<notin> set (lk_claimed (en_link (fst (dispatch env ok now l (AConnect c) e)) other)) \<and>
    (\<forall>f. ToLink other f \<notin> set (snd (dispatch env ok now l (AConnect c) e)))"
proof -
  have inv: "claims_inv {} e" using run_inv [OF assms(1)] assms(2) by simp
  have m: "map_of (en_upstreams e) i = Some u" "u_instance (en_heap e u) = lk_instance (en_link e l)" "u < en_next e"
    using claims_invD(2) [OF inv u(1)] i by auto
  let ?e1 = "fst (discard now u (unclaim_all u e))"
  have eq: "dispatch env ok now l (AConnect c) e = and_then (discard now u) (fresh_dial env now l i opts) (unclaim_all u e)"
    using l m c by (simp add: dispatch_def connect_def)
  have fresh: "ToLink other f \<notin> set (snd (fresh_dial env now l i opts e'))" for f e'
    using u(2) by (auto simp: fresh_dial_def Let_def and_then_simps up_call_def skip_def send_def split_beta split: option.split)
  have kept: "u \<notin> set (lk_claimed (en_link (fst (fresh_dial env now l i opts e')) other))"
    if "u < en_next e'" "u \<notin> set (lk_claimed (en_link e' other))" for e'
    using that u(2) by (auto simp: fresh_dial_born and_then_simps up_own_frame unclaim_def born_frame
        dest!: subsetD [OF up_call_frame(5)] split: option.split)
  have "u \<notin> set (lk_claimed (en_link ?e1 other))"
  proof -
    have "unclaimed u ?e1"
      unfolding discard_def and_then_simps
      by (intro unclaimed_up_call) (simp add: unclaimed_all [OF inv])
    then show ?thesis by (simp add: unclaimed_def)
  qed
  with kept [of ?e1] m(3) show ?thesis
    unfolding eq and_then_simps using fresh discard_quiet by auto
qed

lemma newer_process_keeps_session_witness:
  "dispatch sample_env (\<lambda>_. True) 9 6 (sample_frame ''close'') sample_engine =
     (sample_engine, [ToLink 6 (FError (Some ''c1'') ''not attached to this connection'')])"
proof -
  note t = newer_process_keeps_session [OF sample_run sample_engine_def, of 6 0 7 "''c1''" "AClose ''c1''"]
  have "sample_frame ''close'' = AClose ''c1''" by (simp add: sample_frame_def)
  then show ?thesis
    by (simp add: sample_engine_facts sample_link_facts sample_socket_facts t)
qed

definition moved_request :: connect_frame where
  "moved_request =
     \<lparr>cf_id = Some ''c1'', cf_host = Some ''irc2'', cf_port = Some 6697, cf_tls = True, cf_rejectUnauthorized = True,
      cf_outgoingAddr = None, cf_ident = None, cf_clientCert = None, cf_proxy = None\<rparr>"

lemma changed_settings_bypass_contest_witness:
  "0 \<notin> set (lk_claimed (en_link (fst (dispatch sample_env (\<lambda>_. True) 9 6 (AConnect moved_request) sample_engine)) 7)) \<and>
   (\<forall>f. ToLink 7 f \<notin> set (snd (dispatch sample_env (\<lambda>_. True) 9 6 (AConnect moved_request) sample_engine)))"
  by (rule changed_settings_bypass_contest [OF sample_run sample_engine_def, where opts = "sample_dial\<lparr>do_host := ''irc2''\<rparr>"])
    (simp_all add: sample_engine_facts sample_link_facts sample_socket_facts moved_request_def check_connect_def
      check_cert_def check_proxy_def truthy_def sample_dial_def matchesDial_def)

text \<open>A process that is not older takes a held session over: the previous holder is told, the
  claim and the delivery move to the new link, and the socket itself is kept (no second dial).\<close>

theorem takeover_moves_claim:
  assumes "engine_run_ok env evs (engine_start m)" "e = fst (engine_run env evs (engine_start m))"
    and l: "lk_authed (en_link e l)"
    and u: "u \<in> set (lk_claimed (en_link e other))" "other \<noteq> l" "lk_generation (en_link e other) \<le> lk_generation (en_link e l)"
    and i: "u_id (en_heap e u) = i" "lk_instance (en_link e l) = u_instance (en_heap e u)"
    and c: "check_connect env c = Inr (i, opts)" "\<not> u_closing (en_heap e u)" "u_state (en_heap e u) \<noteq> UClosed"
      "matchesDial (ev_digest env) (en_heap e u) (do_host opts) (do_port opts) (do_tls opts) (cf_outgoingAddr c)
         (do_clientCert opts) (do_proxy opts)"
    and s: "u_state (en_heap e u) = UOpen \<longrightarrow> registered (en_heap e u)"
      "\<forall>f. ev_frameLength env f \<le> MAX_FRAME_BYTES"
  shows "(let e' = fst (dispatch env ok now l (AConnect c) e) in
      (\<forall>k. u \<in> set (lk_claimed (en_link e' k)) \<longleftrightarrow> k = l) \<and> u_sink (en_heap e' u) = Some l \<and> en_next e' = en_next e) \<and>
    (\<not> lk_destroyed (en_link e other) \<longrightarrow>
       (\<exists>rest. snd (dispatch env ok now l (AConnect c) e) = ToLink other (FDetached i) # rest))"
proof -
  have inv: "claims_inv {} e" using run_inv [OF assms(1)] assms(2) by simp
  have m: "map_of (en_upstreams e) i = Some u" "u_instance (en_heap e u) = lk_instance (en_link e l)" "u < en_next e"
    using claims_invD(2) [OF inv u(1)] i by auto
  obtain e1 o1 where con: "contest l u e = (None, e1, o1)" and e1: "e1 = unclaim other u e"
    and o1: "o1 = (if lk_destroyed (en_link e other) then [] else [ToLink other (FDetached i)])"
    using holder_claims [OF inv u(1,2)] u(3) i(1) by (simp add: contest_def send_def unclaim_def)
  have eq: "dispatch env ok now l (AConnect c) e = attach_held env ok now l i opts u e"
    using l m c by (simp add: dispatch_def connect_def)
  let ?e2 = "claim l u e1"
  let ?e3 = "fst (up_call u (\<lambda>h. (fst (attach now l h), [])) ?e2)"
  have cl2: "u \<in> set (lk_claimed (en_link ?e2 k)) \<longleftrightarrow> k = l" for k
    using contest_clear(2) [OF inv con] by (auto simp: claim_def)
  have st: "en_heap ?e2 = en_heap e" "en_next ?e2 = en_next e"
    by (simp_all add: e1 claim_def unclaim_def)
  have cl3: "u \<in> set (lk_claimed (en_link ?e3 k)) \<longleftrightarrow> k = l" for k
    using cl2 by (simp add: up_call_state store_def Let_def)
  have s3: "u_sink (en_heap ?e3 u) = Some l" "en_next ?e3 = en_next e"
    using st attach_core [of now l "(en_budget ?e2, en_heap ?e2 u)"] by (simp_all add: up_call_frame)
  let ?e4 = "fst (up_call u (flushAfterAttach (sink_ok ok u ?e3)) ?e3)"
  have s4: "u_sink (en_heap ?e4 u) = Some l" "en_next ?e4 = en_next e"
    "u \<in> set (lk_claimed (en_link ?e4 k)) \<longleftrightarrow> k = l" for k
    using s3 cl3 core_flushAfterAttach [where ok = "sink_ok ok u ?e3"]
    by (simp_all add: up_call_state store_def Let_def same_core_def)
  have un: "snd (attach now l (en_budget ?e2, en_heap ?e2 u)) \<noteq> Unregistered"
    using s(1) c(3) st by (auto simp: attach_def Let_def registered_def split: option.split)
  have "fst (attach_held env ok now l i opts u e) = ?e3 \<or> fst (attach_held env ok now l i opts u e) = ?e4"
    using un s(2) by (auto simp: attach_held_state [OF con] Let_def not_less [symmetric] split: attach_result.split)
  moreover have "\<exists>rest. snd (attach_held env ok now l i opts u e) = o1 @ rest"
    using con by (simp add: attach_held_def Let_def split_beta)
  ultimately show ?thesis
    unfolding eq Let_def using s3 cl3 s4 o1 by (elim disjE) auto
qed

lemma takeover_moves_claim_witness:
  "u_sink (en_heap (fst (dispatch sample_env (\<lambda>_. True) 9 8 (sample_frame ''connect'') sample_engine)) 0) = Some 8"
proof -
  obtain c where c: "sample_frame ''connect'' = AConnect c" "check_connect sample_env c = Inr (''c1'', sample_dial)"
    "cf_outgoingAddr c = None"
    by (simp add: sample_frame_def check_connect_def check_cert_def check_proxy_def truthy_def sample_dial_def)
  have "matchesDial (ev_digest sample_env) (en_heap sample_engine 0) (do_host sample_dial) (do_port sample_dial)
      (do_tls sample_dial) (cf_outgoingAddr c) (do_clientCert sample_dial) (do_proxy sample_dial)"
    by (simp add: matchesDial_def sample_socket_facts c sample_env_def) (simp add: sample_dial_def sameProxyRoute_def)
  from takeover_moves_claim [OF sample_run sample_engine_def _ _ _ _ _ _ c(2) _ _ this, of 8 7 "\<lambda>_. True" 9] show ?thesis
    by (simp add: sample_engine_facts sample_link_facts sample_socket_facts c Let_def) (simp add: sample_env_def MAX_FRAME_BYTES_def)
qed

text \<open>C8: Before its hello is accepted a link can change nothing but itself: the first frame either
  is a hello with the right protocol version, secret and an instance, which authenticates the
  link, or it destroys it.\<close>

theorem unauthenticated_link_is_powerless:
  assumes "\<not> lk_authed (en_link e l)"
  shows "(let e' = fst (dispatch env ok now l frame e) in
      e'\<lparr>en_link := en_link e\<rparr> = e \<and> (\<forall>k. k \<noteq> l \<longrightarrow> en_link e' k = en_link e k) \<and>
      lk_claimed (en_link e' l) = lk_claimed (en_link e l) \<and>
      (lk_authed (en_link e' l) \<longleftrightarrow>
        (\<exists>h. frame = AHello h \<and> hf_protocol h = PROTOCOL_MAJOR \<and>
           ev_digest env (or_empty (hf_secret h)) = ev_digest env (ev_secret env) \<and> or_empty (hf_instance h) \<noteq> '''')) \<and>
      (lk_authed (en_link e' l) \<or> lk_destroyed (en_link e' l))) \<and>
    (\<forall>k f. ToLink k f \<in> set (snd (dispatch env ok now l frame e)) \<longrightarrow> k = l)"
  using assms
  by (cases frame)
    (auto simp: dispatch_def hello_def Let_def and_then_simps fail_def send_def destroy_link_def upd_link_def)

lemma unauthenticated_link_is_powerless_witness:
  "lk_destroyed (en_link (fst (dispatch sample_env (\<lambda>_. True) 9 3 APing sample_engine)) 3)"
proof -
  have "\<not> lk_authed (en_link sample_engine 3)"
    unfolding sample_engine_def by (simp add: sample_simps)
  from unauthenticated_link_is_powerless [OF this, of sample_env "\<lambda>_. True" 9 APing] show ?thesis
    by (auto simp: Let_def)
qed

text \<open>A connect request that cannot be dialed is answered with an error and changes nothing; what
  does get through has an id and a host, a port in range, an IP source address, a usable
  certificate pair and a well-formed proxy.\<close>

theorem bad_connects_change_nothing:
  assumes "lk_authed (en_link e l)"
  shows "(case check_connect env c of
      Inl m \<Rightarrow> fst (dispatch env ok now l (AConnect c) e) = e \<and>
        set (snd (dispatch env ok now l (AConnect c) e)) \<subseteq> {ToLink l (FError (truthy (cf_id c)) m)}
    | Inr (i, opts) \<Rightarrow> cf_id c = Some i \<and> i \<noteq> '''' \<and> cf_host c = Some (do_host opts) \<and> do_host opts \<noteq> '''' \<and>
        do_port opts \<in> {1..65535} \<and>
        (\<forall>a. do_outgoingAddr opts = Some a \<longrightarrow> ev_isIP env a) \<and>
        (\<forall>cert key. do_clientCert opts = Some (cert, key) \<longrightarrow> ev_certPair env cert key) \<and>
        (\<forall>p. do_proxy opts = Some p \<longrightarrow> proxy_wf p))"
proof (cases "check_connect env c")
  case (Inl m)
  with assms show ?thesis by (simp add: dispatch_def connect_def fail_def send_def)
next
  case (Inr r)
  obtain i opts where r: "r = (i, opts)" by (cases r)
  have cert: "check_cert env c = Inr x \<Longrightarrow> \<forall>a b. x = Some (a, b) \<longrightarrow> ev_certPair env a b" for x
    by (auto simp: check_cert_def split: option.splits if_splits)
  have prox: "check_proxy env c = Inr x \<Longrightarrow> \<forall>p. x = Some p \<longrightarrow> proxy_wf p" for x
    using validateProxy_wf by (auto simp: check_proxy_def split: option.splits sum.splits)
  show ?thesis
    using Inr cert prox unfolding r check_connect_def
    by (auto simp: truthy_def non_empty_def split: option.splits if_splits sum.splits)
qed

lemma bad_connects_change_nothing_witness:
  "fst (dispatch sample_env (\<lambda>_. True) 9 6 (AConnect (moved_request\<lparr>cf_port := Some 70000\<rparr>)) sample_engine) = sample_engine"
  using bad_connects_change_nothing [where e = sample_engine and l = 6 and env = sample_env
      and c = "moved_request\<lparr>cf_port := Some 70000\<rparr>" and ok = "\<lambda>_. True" and now = 9]
  by (simp add: sample_engine_facts moved_request_def check_connect_def)

lemma untouched_sweep_links: "en_heap (fst (sweepSilentLinks now e)) = en_heap e \<and> en_upstreams (fst (sweepSilentLinks now e)) = en_upstreams e"
proof -
  have "en_heap (fst (in_order (map (\<lambda>l e. if lk_lastSeen (en_link e l) < t then destroy_link l e else (e, [])) ls) e)) = en_heap e \<and>
    en_upstreams (fst (in_order (map (\<lambda>l e. if lk_lastSeen (en_link e l) < t then destroy_link l e else (e, [])) ls) e)) = en_upstreams e" for t ls
    by (induction ls arbitrary: e) (auto simp: skip_def and_then_simps destroy_link_def upd_link_def)
  then show ?thesis by (simp add: sweepSilentLinks_def)
qed

text \<open>The sweep ends only sessions nobody has claimed for the whole orphan time: any other socket
  it leaves exactly as it was.\<close>

theorem sweep_ends_only_orphans:
  assumes "en_heap (fst (engine_step env ok now EvSweep e)) w \<noteq> en_heap e w"
  shows "\<exists>since. u_detachedAt (en_heap e w) = Some since \<and> since < now - ev_orphanMs env \<and> 0 < ev_orphanMs env \<and>
    u_sink (en_heap e w) = None \<and> u_state (en_heap e w) = UOpen \<and> \<not> u_closing (en_heap e w)"
proof -
  let ?orphan = "\<lambda>u. \<exists>since. u_detachedAt u = Some since \<and> since < now - ev_orphanMs env \<and>
    u_sink u = None \<and> u_state u = UOpen \<and> \<not> u_closing u"
  have keep: "en_heap (fst (reapOrphan env now u e')) w = en_heap e' w" if "\<not> ?orphan (en_heap e' w)" for u e'
    using that by (cases "u = w") (auto simp: reapOrphan_def Let_def attached_def up_call_frame split: option.split)
  have run: "en_heap (fst (in_order (map (reapOrphan env now) us) e')) w = en_heap e' w"
    if "\<not> ?orphan (en_heap e' w)" for us e'
    using that
  proof (induction us arbitrary: e')
    case (Cons u us)
    then show ?case using keep [OF Cons.prems, of u] by (simp add: and_then_simps)
  qed (simp add: skip_def)
  have "0 < ev_orphanMs env"
    using assms untouched_sweep_links by (auto simp: and_then_simps reapOrphans_def not_le [symmetric])
  moreover have "?orphan (en_heap e w)"
  proof (rule ccontr)
    assume "\<not> ?orphan (en_heap e w)"
    then show False
      using assms untouched_sweep_links run [of "fst (sweepSilentLinks now e)" "map snd (en_upstreams e)"]
      by (auto simp: and_then_simps reapOrphans_def simp del: map_map)
  qed
  ultimately show ?thesis by blast
qed

definition orphan_engine :: engine where
  "orphan_engine = (engine_start 10)\<lparr>en_upstreams := [(''c1'', 0)], en_next := 1,
     en_heap := (\<lambda>_. (en_heap (engine_start 10) 0)\<lparr>u_state := UOpen, u_detachedAt := Some 7\<rparr>)\<rparr>"

lemma sweep_ends_only_orphans_witness:
  "u_detachedAt (en_heap orphan_engine 0) = Some 7"
proof -
  have "en_heap (fst (engine_step sample_env (\<lambda>_. True) 60008 EvSweep orphan_engine)) 0 \<noteq> en_heap orphan_engine 0"
  proof
    assume "en_heap (fst (engine_step sample_env (\<lambda>_. True) 60008 EvSweep orphan_engine)) 0 = en_heap orphan_engine 0"
    moreover have "u_closing (en_heap (fst (engine_step sample_env (\<lambda>_. True) 60008 EvSweep orphan_engine)) 0)"
      by (simp add: orphan_engine_def engine_start_def and_then_simps sweepSilentLinks_def reapOrphans_def reapOrphan_def
          skip_def sample_env_def attached_def new_upstream_def up_call_frame quit_def close_up_def split_beta Let_def)
    ultimately show False by (simp add: orphan_engine_def engine_start_def new_upstream_def)
  qed
  from sweep_ends_only_orphans [OF this] show ?thesis
    by (simp add: orphan_engine_def)
qed

end
