(* ===== verification/Send_Pacer.thy ===== *)
theory Send_Pacer imports "HOL-Library.Multiset" Lurker_Base begin

text \<open>
  \<open>server/services/sendPacer.ts\<close>: the outbound queue of one IRC connection, with its three lanes and
  its estimate of the server's clock.  Queued items are objects: \<open>e_ref\<close> is their identity and
  \<open>e_origin\<close> the chain of items an item expanded from, nearest first, each with its \<open>onDropped\<close>.  A
  thunk is a function of the world at its turn (\<open>w_world\<close>); \<open>None\<close> stands for an exception.

  Every operation takes a \<open>world\<close>, the answers of the connection at that moment: the clock (read once
  per operation), \<open>ready\<close>, \<open>holding\<close>, \<open>paced\<close>, the socket's answer to \<open>send\<close>, and the \<open>live\<close> checks
  (false also when the check throws).  Hooks are put out in order as \<open>CallSent\<close> and \<open>CallDropped\<close>; a
  hook that writes again is a later operation.  The \<open>draining\<close> flag guards against such nested calls
  only and has no field.
\<close>

section \<open>What a line costs\<close>

definition BASE_COST_MS :: int where
  "BASE_COST_MS = 2000"

definition COST_PER_100_BYTES_MS :: int where
  "COST_PER_100_BYTES_MS = 1000"

definition BURST_BUDGET_MS :: int where
  "BURST_BUDGET_MS = 10000"

definition DEFAULT_MAX_KEYED :: nat where
  "DEFAULT_MAX_KEYED = 20"

text \<open>\<open>free\<close>: the test seam \<open>LURKER_SEND_PACING=0\<close>.\<close>

definition lineCostMs :: "bool \<Rightarrow> nat \<Rightarrow> int" where
  "lineCostMs free bytes =
     (if free then 0 else BASE_COST_MS + (int bytes div 100) * COST_PER_100_BYTES_MS)"

definition line_cost :: "bool \<Rightarrow> string \<Rightarrow> int" where
  "line_cost free line = lineCostMs free (utf8_length line + 2)"

definition word_char :: "char \<Rightarrow> bool" where
  "word_char c = (let n = (of_char c :: nat) in
     48 \<le> n \<and> n \<le> 57 \<or> 65 \<le> n \<and> n \<le> 90 \<or> n = 95 \<or> 97 \<le> n \<and> n \<le> 122)"

text \<open>\<open>/^(?:@\S+ )?(?:PING|PONG|QUIT)\b/i\<close>\<close>

definition skip_tags :: "string \<Rightarrow> string" where
  "skip_tags s =
     (case s of
        CHR ''@'' # r \<Rightarrow>
          (let t = takeWhile (\<lambda>c. \<not> is_space c) r; d = dropWhile (\<lambda>c. \<not> is_space c) r
           in if t \<noteq> [] \<and> d \<noteq> [] \<and> hd d = CHR '' '' then tl d else s)
      | _ \<Rightarrow> s)"

definition is_immediate :: "string \<Rightarrow> bool" where
  "is_immediate text =
     (let s = skip_tags text; rest = drop 4 s in
      to_upper (take 4 s) \<in> {''PING'', ''PONG'', ''QUIT''} \<and> (rest = [] \<or> \<not> word_char (hd rest)))"

section \<open>Items\<close>

datatype send_priority = High | Normal | Low

text \<open>A line with its hooks, one whose text is made when it goes, or a further thunk.  A thunk makes a
  list of parts; \<open>null\<close> is the empty list.\<close>

datatype 'w part =
    PText string
  | PLine string "nat option" "nat option"
  | PLazy "'w \<Rightarrow> string option option" "nat option" "nat option"
  | PThunk "'w \<Rightarrow> 'w part list option"

datatype 'w body =
    Text string
  | Build "'w \<Rightarrow> 'w part list option"
  | Unit "string list"

record 'w entry =
  e_ref :: nat
  e_priority :: send_priority
  e_seq :: nat
  e_body :: "'w body"
  e_key :: "string option"
  e_live :: "nat option"
  e_onSent :: "nat list"
  e_onDropped :: "nat option"
  e_origin :: "(nat \<times> nat option) list"
  e_unpaced :: bool

record write_options =
  wo_priority :: send_priority
  wo_key :: "string option"
  wo_live :: "nat option"
  wo_onSent :: "nat option"
  wo_onDropped :: "nat option"
  wo_unpaced :: bool

record 'w world =
  w_now :: int
  w_ready :: bool
  w_holding :: "string option \<Rightarrow> bool"
  w_accepts :: "string \<Rightarrow> bool"
  w_paced :: bool
  w_live :: "nat \<Rightarrow> bool"
  w_free :: bool
  w_world :: 'w

record 'w pacer =
  p_high :: "'w entry list"
  p_normal :: "'w entry list"
  p_low :: "'w entry list"
  p_timer :: "int option"
  p_disposed :: bool
  p_since :: int
  p_reportedDepth :: nat
  p_depthReport :: bool
  p_emptyHold :: bool
  p_emptyAtOnce :: bool
  p_seq :: nat
  p_toldAtRefusal :: "nat list"
  p_maxKeyed :: nat
  p_onDepth :: bool
  p_next :: nat

datatype pacer_out =
    Wire string
  | CallSent nat int
  | CallDropped nat
  | Depth nat

definition new_pacer :: "nat option \<Rightarrow> bool \<Rightarrow> 'w pacer" where
  "new_pacer maxKeyed onDepth =
     \<lparr>p_high = [], p_normal = [], p_low = [], p_timer = None, p_disposed = False, p_since = 0,
      p_reportedDepth = 0, p_depthReport = False, p_emptyHold = False, p_emptyAtOnce = False, p_seq = 0,
      p_toldAtRefusal = [], p_maxKeyed = (case maxKeyed of None \<Rightarrow> DEFAULT_MAX_KEYED | Some n \<Rightarrow> n),
      p_onDepth = onDepth, p_next = 0\<rparr>"

fun lane :: "send_priority \<Rightarrow> 'w pacer \<Rightarrow> 'w entry list" where
  "lane High s = p_high s"
| "lane Normal s = p_normal s"
| "lane Low s = p_low s"

fun upd_lane :: "send_priority \<Rightarrow> ('w entry list \<Rightarrow> 'w entry list) \<Rightarrow> 'w pacer \<Rightarrow> 'w pacer" where
  "upd_lane High f s = s\<lparr>p_high := f (p_high s)\<rparr>"
| "upd_lane Normal f s = s\<lparr>p_normal := f (p_normal s)\<rparr>"
| "upd_lane Low f s = s\<lparr>p_low := f (p_low s)\<rparr>"

definition waiting :: "'w pacer \<Rightarrow> 'w entry list" where
  "waiting s = p_high s @ p_normal s @ p_low s"

definition pacer_pending :: "'w pacer \<Rightarrow> nat" where
  "pacer_pending s = length (p_high s) + length (p_normal s) + length (p_low s)"

definition queue_head :: "'w pacer \<Rightarrow> 'w entry option" where
  "queue_head s =
     (if p_high s \<noteq> [] then Some (hd (p_high s))
      else if p_normal s \<noteq> [] then Some (hd (p_normal s))
      else if p_low s \<noteq> [] then Some (hd (p_low s)) else None)"

definition keyed :: "'w pacer \<Rightarrow> 'w entry list" where
  "keyed s = sort_key e_seq (filter (\<lambda>q. e_key q \<noteq> None) (waiting s))"

definition noteDepth :: "'w pacer \<Rightarrow> 'w pacer" where
  "noteDepth s = (if \<not> p_onDepth s \<or> p_depthReport s then s else s\<lparr>p_depthReport := True\<rparr>)"

section \<open>Telling an item dropped\<close>

definition call_dropped :: "nat option \<Rightarrow> pacer_out list" where
  "call_dropped h = (case h of None \<Rightarrow> [] | Some n \<Rightarrow> [CallDropped n])"

definition chain :: "'w entry \<Rightarrow> (nat \<times> nat option) list" where
  "chain e = (e_ref e, e_onDropped e) # e_origin e"

fun tell_chain :: "(nat \<times> nat option) list \<Rightarrow> nat list \<Rightarrow> nat list \<times> pacer_out list" where
  "tell_chain [] told = (told, [])"
| "tell_chain ((r, h) # cs) told =
     (if r \<in> set told then tell_chain cs told
      else let (told', out) = tell_chain cs (r # told) in (told', call_dropped h @ out))"

definition tellDropped :: "'w entry \<Rightarrow> nat list \<Rightarrow> nat list \<times> pacer_out list" where
  "tellDropped e told = tell_chain (chain e) told"

fun tell_all :: "'w entry list \<Rightarrow> nat list \<Rightarrow> nat list \<times> pacer_out list" where
  "tell_all [] told = (told, [])"
| "tell_all (e # es) told =
     (let (told1, o1) = tellDropped e told; (told2, o2) = tell_all es told1 in (told2, o1 @ o2))"

definition refuse :: "'w entry \<Rightarrow> 'w pacer \<Rightarrow> 'w pacer \<times> pacer_out list" where
  "refuse e s =
     (let (told, out) = tellDropped e (p_toldAtRefusal s) in (s\<lparr>p_toldAtRefusal := told\<rparr>, out))"

section \<open>Sending\<close>

definition costOf :: "'w world \<Rightarrow> string \<Rightarrow> int" where
  "costOf w line = (if w_paced w then line_cost (w_free w) line else 0)"

definition charge :: "int \<Rightarrow> int \<Rightarrow> bool \<Rightarrow> 'w pacer \<Rightarrow> 'w pacer" where
  "charge cost at capped s =
     (let charged = max (p_since s) at + cost
      in s\<lparr>p_since := (if capped then min charged (max (p_since s) (at + BURST_BUDGET_MS)) else charged)\<rparr>)"

definition call_sent :: "'w entry \<Rightarrow> int \<Rightarrow> pacer_out list" where
  "call_sent e at = map (\<lambda>h. CallSent h at) (e_onSent e)"

definition sendNow ::
  "'w world \<Rightarrow> 'w entry \<Rightarrow> string \<Rightarrow> bool \<Rightarrow> 'w pacer \<Rightarrow> bool \<times> 'w pacer \<times> pacer_out list" where
  "sendNow w e text charged s =
     (if \<not> w_accepts w text then (False, refuse e s)
      else (True, (if charged then charge (costOf w text) (w_now w) (e_unpaced e) s else s),
            Wire text # call_sent e (w_now w)))"

text \<open>The lines of a unit up to the first the socket refuses: what went, its cost, whether all went.\<close>

fun push_lines :: "'w world \<Rightarrow> string list \<Rightarrow> bool \<times> int \<times> pacer_out list" where
  "push_lines w [] = (True, 0, [])"
| "push_lines w (l # ls) =
     (if \<not> w_accepts w l then (False, 0, [])
      else let (went, cost, out) = push_lines w ls in (went, costOf w l + cost, Wire l # out))"

definition sendUnit ::
  "'w world \<Rightarrow> 'w entry \<Rightarrow> string list \<Rightarrow> 'w pacer \<Rightarrow> bool \<times> 'w pacer \<times> pacer_out list" where
  "sendUnit w e ls s =
     (let (went, cost, out) = push_lines w ls in
      if went then (True, charge cost (w_now w) False s, out @ call_sent e (w_now w))
      else let s1 = (if cost \<noteq> 0 then charge cost (w_now w) False s else s);
               (s2, told) = refuse e s1
           in (False, s2, out @ told))"

text \<open>A line whose text is made when it goes, as a thunk making that line.\<close>

definition lazyLine :: "('w \<Rightarrow> string option option) \<Rightarrow> nat option \<Rightarrow> 'w \<Rightarrow> 'w part list option" where
  "lazyLine f sent w =
     (case f w of
        None \<Rightarrow> None
      | Some None \<Rightarrow> Some []
      | Some (Some text) \<Rightarrow> Some [PLine text sent None])"

fun part_body :: "'w part \<Rightarrow> 'w body" where
  "part_body (PText t) = Text t"
| "part_body (PLine t sent dropped) = Text t"
| "part_body (PLazy f sent dropped) = Build (lazyLine f sent)"
| "part_body (PThunk f) = Build f"

fun part_sent :: "'w part \<Rightarrow> nat list" where
  "part_sent (PLine t (Some h) dropped) = [h]"
| "part_sent p = []"

fun part_dropped :: "'w part \<Rightarrow> nat option" where
  "part_dropped (PLine t sent dropped) = dropped"
| "part_dropped (PLazy f sent dropped) = dropped"
| "part_dropped p = None"

definition entryFor :: "nat \<Rightarrow> 'w part \<Rightarrow> 'w entry \<Rightarrow> 'w entry" where
  "entryFor ref item origin =
     \<lparr>e_ref = ref, e_priority = e_priority origin, e_seq = 0, e_body = part_body item, e_key = None,
      e_live = None, e_onSent = part_sent item, e_onDropped = part_dropped item, e_origin = chain origin,
      e_unpaced = False\<rparr>"

text \<open>A thunk makes thunks of its own, but not for ever: what it can make is smaller than it.\<close>

definition made_by :: "('w body \<times> 'w body) set" where
  "made_by = {(part_body q, Build f) | q f. \<exists>w ps. f w = Some ps \<and> q \<in> set ps}"

lemma made_by_Text: "(b, Text t) \<notin> made_by" "(b, Unit ls) \<notin> made_by"
  by (auto simp: made_by_def)

lemma made_by_Build: "(b, Build f) \<in> made_by \<longleftrightarrow> (\<exists>q w ps. b = part_body q \<and> f w = Some ps \<and> q \<in> set ps)"
  by (auto simp: made_by_def)

lemma acc_flat: "Text t \<in> Wellfounded.acc made_by" "Unit ls \<in> Wellfounded.acc made_by"
  by (auto intro: accI simp: made_by_Text)

lemma acc_part: "part_body p \<in> Wellfounded.acc made_by"
proof (induction p)
  case (PLazy f sent dropped)
  show ?case
    by (rule accI) (auto simp: made_by_Build lazyLine_def acc_flat split: option.splits)
next
  case (PThunk f)
  show ?case
  proof (rule accI)
    fix b :: "'a body"
    assume "(b, part_body (PThunk f)) \<in> made_by"
    then obtain q w ps where q: "b = part_body q" "f w = Some ps" "q \<in> set ps"
      by (auto simp: made_by_Build)
    from PThunk [of "f w" ps q] q rangeI [of f w] show "b \<in> Wellfounded.acc made_by" by simp
  qed
qed (simp_all add: acc_flat)

lemma wf_made_by: "wf made_by"
proof (rule acc_wfI, rule allI)
  fix b :: "'a body"
  show "b \<in> Wellfounded.acc made_by"
    using acc_flat acc_part [of "PThunk f" for f] by (cases b) auto
qed

lemma mult_shrink: "(image_mset part_body (mset ps) + M, {#Build f#} + M) \<in> mult made_by" if "f w = Some ps"
  using one_step_implies_mult [of "{#Build f#}" "image_mset part_body (mset ps)" made_by M] that
  by (auto simp: made_by_Build add.commute)

lemma mult_drop: "(M, {#b#} + M) \<in> mult made_by"
  using one_step_implies_mult [of "{#b#}" "{#}" made_by M] by simp

text \<open>Past the queue, uncharged: a line written before registration.\<close>

function (sequential) sendAtOnce ::
    "'w world \<Rightarrow> 'w entry \<Rightarrow> 'w pacer \<Rightarrow> bool \<times> 'w pacer \<times> pacer_out list"
  and sendItems ::
    "'w world \<Rightarrow> 'w entry \<Rightarrow> 'w part list \<Rightarrow> 'w pacer \<Rightarrow> bool \<times> 'w pacer \<times> pacer_out list" where
  "sendAtOnce w e s =
     (case e_body e of
        Unit ls \<Rightarrow>
          (case push_lines w ls of
             (True, cost, out) \<Rightarrow> (True, s, out @ call_sent e (w_now w))
           | (False, cost, out) \<Rightarrow> (case refuse e s of (s', told) \<Rightarrow> (False, s', out @ told)))
      | Text text \<Rightarrow> sendNow w e text False s
      | Build f \<Rightarrow>
          (case f (w_world w) of
             None \<Rightarrow> (False, refuse e s)
           | Some items \<Rightarrow>
               (case sendItems w e items s of
                  (went, s', out) \<Rightarrow>
                    (went, s', if went \<and> items \<noteq> [] then out @ call_sent e (w_now w) else out))))"
| "sendItems w e [] s = (True, s, [])"
| "sendItems w e (i # items) s =
     (case sendAtOnce w (entryFor (p_next s) i e) (s\<lparr>p_next := Suc (p_next s)\<rparr>) of
        (True, s1, o1) \<Rightarrow> (case sendItems w e items s1 of (went, s2, o2) \<Rightarrow> (went, s2, o1 @ o2))
      | (False, s1, o1) \<Rightarrow> (False, s1, o1))"
  by pat_completeness auto
termination
proof (relation "inv_image (mult made_by <*lex*> less_than)
    (\<lambda>x. case x of Inl (w, e, s) \<Rightarrow> ({#e_body e#}, 0)
                 | Inr (w, e, items, s) \<Rightarrow> (image_mset part_body (mset items), Suc 0))", goal_cases)
  case 1
  show ?case by (intro wf_inv_image wf_lex_prod wf_mult wf_made_by wf_less_than)
next
  case (2 w e s f items)
  then show ?case using mult_shrink [of f "w_world w" items "{#}"] by simp
next
  case (3 w e i items s)
  show ?case
    using one_step_implies_mult [of "image_mset part_body (mset items)" "{#}" made_by "{#part_body i#}"]
    by (cases items) (auto simp: entryFor_def add_mset_commute)
next
  case (4 w e i items s)
  then show ?case using mult_drop [of "image_mset part_body (mset items)" "part_body i"] by simp
qed

section \<open>The drain\<close>

text \<open>A thunk's items take its place at the head of its lane.\<close>

definition expanded :: "'w entry \<Rightarrow> nat \<Rightarrow> 'w part list \<Rightarrow> 'w entry list" where
  "expanded e n items =
     map (\<lambda>(i, item).
            (let own = (entryFor (n + i) item e)\<lparr>e_live := e_live e, e_unpaced := e_unpaced e\<rparr>
             in if Suc i = length items then own\<lparr>e_onSent := e_onSent own @ e_onSent e\<rparr> else own))
       (enumerate 0 items)"

definition expand :: "'w world \<Rightarrow> 'w entry \<Rightarrow> ('w \<Rightarrow> 'w part list option) \<Rightarrow> 'w pacer \<Rightarrow> 'w pacer \<times> pacer_out list" where
  "expand w e f s =
     (case f (w_world w) of
        None \<Rightarrow> (noteDepth s, snd (tellDropped e []))
      | Some items \<Rightarrow>
          (noteDepth (upd_lane (e_priority e) (\<lambda>q. expanded e (p_next s) items @ q)
             (s\<lparr>p_next := p_next s + length items\<rparr>)), []))"

definition peek :: "'w entry \<Rightarrow> string option" where
  "peek e = (case e_body e of Text t \<Rightarrow> Some t | Unit ls \<Rightarrow> (if ls = [] then None else Some (hd ls)) | Build f \<Rightarrow> None)"

text \<open>By how much the head does not fit under the budget yet.\<close>

definition over_budget :: "'w world \<Rightarrow> 'w entry \<Rightarrow> 'w pacer \<Rightarrow> int" where
  "over_budget w e s =
     (p_since s - w_now w) +
     (case e_body e of Text t \<Rightarrow> line_cost (w_free w) t | Unit ls \<Rightarrow> line_cost (w_free w) (hd ls) | Build f \<Rightarrow> BASE_COST_MS) -
     BURST_BUDGET_MS"

definition must_wait :: "'w world \<Rightarrow> 'w entry \<Rightarrow> 'w pacer \<Rightarrow> bool" where
  "must_wait w e s = (w_paced w \<and> \<not> e_unpaced e \<and> 0 < over_budget w e s)"

definition wanted :: "'w world \<Rightarrow> 'w entry \<Rightarrow> bool" where
  "wanted w e = (case e_live e of None \<Rightarrow> True | Some c \<Rightarrow> w_live w c)"

definition send_entry :: "'w world \<Rightarrow> 'w entry \<Rightarrow> 'w pacer \<Rightarrow> bool \<times> 'w pacer \<times> pacer_out list" where
  "send_entry w e s =
     (case e_body e of
        Unit ls \<Rightarrow> sendUnit w e ls (noteDepth s)
      | Text t \<Rightarrow> sendNow w e t True (noteDepth s)
      | Build f \<Rightarrow> (case expand w e f s of (s', out) \<Rightarrow> (True, s', out)))"

lemma noteDepth_simps [simp]:
  "p_high (noteDepth s) = p_high s" "p_normal (noteDepth s) = p_normal s" "p_low (noteDepth s) = p_low s"
  "p_since (noteDepth s) = p_since s" "p_timer (noteDepth s) = p_timer s" "p_disposed (noteDepth s) = p_disposed s"
  "p_next (noteDepth s) = p_next s" "p_maxKeyed (noteDepth s) = p_maxKeyed s" "p_onDepth (noteDepth s) = p_onDepth s"
  "p_toldAtRefusal (noteDepth s) = p_toldAtRefusal s" "waiting (noteDepth s) = waiting s"
  by (simp_all add: noteDepth_def waiting_def)

lemma charge_simps [simp]:
  "p_high (charge c t b s) = p_high s" "p_normal (charge c t b s) = p_normal s" "p_low (charge c t b s) = p_low s"
  "p_timer (charge c t b s) = p_timer s" "p_disposed (charge c t b s) = p_disposed s"
  "p_next (charge c t b s) = p_next s" "p_maxKeyed (charge c t b s) = p_maxKeyed s" "p_onDepth (charge c t b s) = p_onDepth s"
  "p_toldAtRefusal (charge c t b s) = p_toldAtRefusal s" "waiting (charge c t b s) = waiting s"
  by (simp_all add: charge_def Let_def waiting_def)

lemma refuse_simps [simp]:
  "p_high (fst (refuse e s)) = p_high s" "p_normal (fst (refuse e s)) = p_normal s" "p_low (fst (refuse e s)) = p_low s"
  "p_since (fst (refuse e s)) = p_since s" "p_timer (fst (refuse e s)) = p_timer s"
  "p_disposed (fst (refuse e s)) = p_disposed s" "waiting (fst (refuse e s)) = waiting s"
  by (simp_all add: refuse_def split_beta waiting_def)

definition head_lane :: "'w pacer \<Rightarrow> send_priority" where
  "head_lane s = (if p_high s \<noteq> [] then High else if p_normal s \<noteq> [] then Normal else Low)"

definition shift_head :: "'w pacer \<Rightarrow> 'w pacer" where
  "shift_head s = upd_lane (head_lane s) tl s"

lemma waiting_head:
  assumes "queue_head s = Some e"
  shows "waiting s = e # waiting (shift_head s)"
  using assms
  by (cases "p_high s"; cases "p_normal s"; cases "p_low s")
    (auto simp: queue_head_def head_lane_def shift_head_def waiting_def)

lemma upd_lane_simps [simp]:
  "p_since (upd_lane p f s) = p_since s" "p_timer (upd_lane p f s) = p_timer s"
  "p_disposed (upd_lane p f s) = p_disposed s" "p_next (upd_lane p f s) = p_next s"
  "p_maxKeyed (upd_lane p f s) = p_maxKeyed s" "p_onDepth (upd_lane p f s) = p_onDepth s"
  "p_toldAtRefusal (upd_lane p f s) = p_toldAtRefusal s" "p_depthReport (upd_lane p f s) = p_depthReport s"
  "p_reportedDepth (upd_lane p f s) = p_reportedDepth s" "p_emptyHold (upd_lane p f s) = p_emptyHold s"
  by (cases p; simp)+

lemma shift_simps [simp]:
  "p_since (shift_head s) = p_since s" "p_timer (shift_head s) = p_timer s"
  "p_disposed (shift_head s) = p_disposed s" "p_next (shift_head s) = p_next s"
  "p_maxKeyed (shift_head s) = p_maxKeyed s" "p_onDepth (shift_head s) = p_onDepth s"
  "p_toldAtRefusal (shift_head s) = p_toldAtRefusal s" "p_depthReport (shift_head s) = p_depthReport s"
  "p_reportedDepth (shift_head s) = p_reportedDepth s" "p_emptyHold (shift_head s) = p_emptyHold s"
  by (simp_all add: shift_head_def)

lemma mset_prepend: "mset (waiting (upd_lane p (\<lambda>q. xs @ q) s)) = mset xs + mset (waiting s)"
  by (cases p) (simp_all add: waiting_def)

lemma waiting_simps [simp]:
  "waiting (s\<lparr>p_next := n\<rparr>) = waiting s" "waiting (s\<lparr>p_timer := t\<rparr>) = waiting s" "waiting (s\<lparr>p_seq := n\<rparr>) = waiting s"
  "waiting (s\<lparr>p_since := x\<rparr>) = waiting s" "waiting (s\<lparr>p_emptyAtOnce := b\<rparr>) = waiting s"
  "waiting (s\<lparr>p_toldAtRefusal := ts\<rparr>) = waiting s" "waiting (s\<lparr>p_disposed := b\<rparr>) = waiting s"
  by (simp_all add: waiting_def)

lemma waiting_sendNow [simp]: "waiting (fst (snd (sendNow w e t c s))) = waiting s"
  by (simp add: sendNow_def)

lemma waiting_sendUnit [simp]: "waiting (fst (snd (sendUnit w e ls s))) = waiting s"
  by (simp add: sendUnit_def Let_def split_beta)

lemma expanded_bodies: "map e_body (expanded e n items) = map part_body items"
  by (rule nth_equalityI) (auto simp: expanded_def entryFor_def Let_def nth_enumerate_eq)

lemma send_entry_shrinks:
  assumes "send_entry w e s = (True, s', out)" and s: "s = shift_head s0" "queue_head s0 = Some e"
  shows "(mset (map e_body (waiting s')), mset (map e_body (waiting s0))) \<in> mult made_by"
proof -
  let ?M = "mset (map e_body (waiting s))"
  have s0: "mset (map e_body (waiting s0)) = {#e_body e#} + ?M"
    using waiting_head [OF s(2)] s(1) by simp
  consider "waiting s' = waiting s"
    | f items where "e_body e = Build f" "f (w_world w) = Some items"
        "mset (map e_body (waiting s')) = image_mset part_body (mset items) + ?M"
  proof (cases "e_body e")
    case (Text t)
    with assms(1) that(1) waiting_sendNow [of w e t True "noteDepth s"] show ?thesis by (simp add: send_entry_def)
  next
    case (Unit ls)
    with assms(1) that(1) waiting_sendUnit [of w e ls "noteDepth s"] show ?thesis by (simp add: send_entry_def)
  next
    case (Build f)
    show ?thesis
    proof (cases "f (w_world w)")
      case None
      with Build assms(1) that(1) show ?thesis by (auto simp: send_entry_def expand_def)
    next
      case (Some items)
      with Build assms(1) have "s' = noteDepth (upd_lane (e_priority e) (\<lambda>q. expanded e (p_next s) items @ q)
          (s\<lparr>p_next := p_next s + length items\<rparr>))"
        by (simp add: send_entry_def expand_def)
      then have "mset (waiting s') = mset (expanded e (p_next s) items) + mset (waiting s)"
        by (simp add: mset_prepend)
      then have "mset (map e_body (waiting s')) = mset (map e_body (expanded e (p_next s) items)) + ?M"
        by simp
      with Build Some that(2) show ?thesis by (simp only: expanded_bodies mset_map)
    qed
  qed
  then show ?thesis
  proof cases
    case 1
    then show ?thesis unfolding s0 using mult_drop by simp
  next
    case 2
    then show ?thesis unfolding s0 using mult_shrink [of f "w_world w" items ?M] by simp
  qed
qed

function drain_loop :: "'w world \<Rightarrow> 'w pacer \<Rightarrow> 'w pacer \<times> pacer_out list" where
  "drain_loop w s =
     (case queue_head s of
        None \<Rightarrow> (s, [])
      | Some e \<Rightarrow>
          if \<not> w_ready w \<or> w_holding w (peek e) then (s, [])
          else if must_wait w e s then (s\<lparr>p_timer := Some (over_budget w e s)\<rparr>, [])
          else if \<not> wanted w e then drain_loop w (noteDepth (shift_head s))
          else (case send_entry w e (shift_head s) of
                  (False, s', out) \<Rightarrow> (s', out)
                | (True, s', out) \<Rightarrow> (case drain_loop w s' of (s'', out') \<Rightarrow> (s'', out @ out'))))"
  by pat_completeness auto
termination
proof (relation "inv_image (mult made_by) (\<lambda>(w, s). mset (map e_body (waiting s)))", goal_cases)
  case 1
  show ?case by (intro wf_inv_image wf_mult wf_made_by)
next
  case (2 w s e)
  have "waiting s = e # waiting (shift_head s)" by (rule waiting_head) (use 2 in simp)
  then show ?case using mult_drop by simp
next
  case (3 w s e went r s' out)
  then have "send_entry w e (shift_head s) = (True, s', out)" by simp
  from send_entry_shrinks [OF this refl] 3 show ?case by simp
qed

declare drain_loop.simps [simp del]

definition drain :: "'w world \<Rightarrow> 'w pacer \<Rightarrow> 'w pacer \<times> pacer_out list" where
  "drain w s = (if p_timer s \<noteq> None then (s, []) else drain_loop w s)"

definition redrain :: "'w world \<Rightarrow> 'w pacer \<Rightarrow> 'w pacer \<times> pacer_out list" where
  "redrain w s = drain w (s\<lparr>p_timer := None\<rparr>)"

section \<open>Taking items out\<close>

definition rootOf :: "'w entry \<Rightarrow> nat" where
  "rootOf e = (if e_origin e = [] then e_ref e else fst (last (e_origin e)))"

definition takes :: "nat \<Rightarrow> 'w entry \<Rightarrow> bool" where
  "takes r q = (e_ref q = r \<or> rootOf q = r)"

definition remove_item :: "nat \<Rightarrow> bool \<Rightarrow> 'w pacer \<Rightarrow> bool \<times> 'w pacer \<times> pacer_out list" where
  "remove_item r dropped s =
     (let taken = filter (takes r) (p_low s) @ filter (takes r) (p_normal s) @ filter (takes r) (p_high s);
          keep = filter (\<lambda>q. \<not> takes r q)
      in if taken = [] then (False, s, [])
         else (True,
               noteDepth (s\<lparr>p_high := keep (p_high s), p_normal := keep (p_normal s), p_low := keep (p_low s)\<rparr>),
               if dropped then snd (tell_all taken []) else []))"

text \<open>The oldest keyed items go to make room.  (With a cap of 0 the code would never leave this loop;
  the cap is 20.)\<close>

function make_room :: "'w pacer \<Rightarrow> 'w pacer \<times> pacer_out list" where
  "make_room s =
     (case keyed s of
        [] \<Rightarrow> (s, [])
      | q # qs \<Rightarrow>
          if length (keyed s) < p_maxKeyed s then (s, [])
          else case remove_item (e_ref q) True s of
                 (b, s1, o1) \<Rightarrow> (case make_room s1 of (s2, o2) \<Rightarrow> (s2, o1 @ o2)))"
  by pat_completeness auto
termination
proof (relation "measure (\<lambda>s. length (waiting s))", goal_cases)
  case (2 s q qs x b s1 o1)
  have "q \<in> set (keyed s)" using 2 by simp
  then have q: "q \<in> set (waiting s)" by (simp add: keyed_def)
  have shorter: "length (waiting s') < length (waiting s)" if "remove_item (e_ref q) True s = (b, s', out)" for b s' out
  proof -
    have "takes (e_ref q) q" by (simp add: takes_def)
    have "waiting s' = filter (\<lambda>x. \<not> takes (e_ref q) x) (waiting s)"
      using that q \<open>takes (e_ref q) q\<close>
      by (auto simp: remove_item_def Let_def waiting_def filter_empty_conv split: if_splits)
    with q \<open>takes (e_ref q) q\<close> show ?thesis
      using length_filter_less [of q "waiting s" "\<lambda>x. \<not> takes (e_ref q) x"] by simp
  qed
  show ?case using 2 shorter [of x s1 o1] by simp
qed simp

declare make_room.simps [simp del]

section \<open>Operations\<close>

definition find_keyed :: "string \<Rightarrow> 'w entry list \<Rightarrow> nat option" where
  "find_keyed k q = (case dropWhile (\<lambda>e. e_key e \<noteq> Some k) q of [] \<Rightarrow> None
                     | _ \<Rightarrow> Some (length (takeWhile (\<lambda>e. e_key e \<noteq> Some k) q)))"

fun first_lane :: "string \<Rightarrow> send_priority list \<Rightarrow> 'w pacer \<Rightarrow> (send_priority \<times> nat) option" where
  "first_lane k [] s = None"
| "first_lane k (p # ps) s =
     (case find_keyed k (lane p s) of Some i \<Rightarrow> Some (p, i) | None \<Rightarrow> first_lane k ps s)"

text \<open>At the end of \<open>write\<close> and \<open>unit\<close>: into the lane, and pick again.  The handle is the item's identity.\<close>

definition enqueue :: "'w world \<Rightarrow> 'w entry \<Rightarrow> 'w pacer \<Rightarrow> nat option \<times> 'w pacer \<times> pacer_out list" where
  "enqueue w e s =
     (Some (e_ref e), redrain w (noteDepth (upd_lane (e_priority e) (\<lambda>q. q @ [e]) s)))"

definition write_keyed ::
  "'w world \<Rightarrow> 'w entry \<Rightarrow> 'w pacer \<Rightarrow> nat option \<times> 'w pacer \<times> pacer_out list" where
  "write_keyed w e s =
     (case e_key e of
        None \<Rightarrow> enqueue w e s
      | Some k \<Rightarrow>
          (case first_lane k [High, Normal, Low] s of
             Some (p, i) \<Rightarrow>
               (Some (e_ref e),
                upd_lane p (\<lambda>q. q[i := e\<lparr>e_priority := p, e_seq := e_seq (q ! i)\<rparr>]) s, [])
           | None \<Rightarrow>
               (let (s1, o1) = make_room s;
                    (h, s2, o2) = enqueue w e s1
                in (h, s2, o1 @ o2))))"

definition write_item ::
  "'w world \<Rightarrow> 'w body \<Rightarrow> write_options \<Rightarrow> 'w pacer \<Rightarrow> nat option \<times> 'w pacer \<times> pacer_out list" where
  "write_item w item wo s =
     (if p_disposed s then (None, s, call_dropped (wo_onDropped wo))
      else
      let e = \<lparr>e_ref = p_next s, e_priority = wo_priority wo, e_seq = p_seq s, e_body = item, e_key = wo_key wo,
               e_live = wo_live wo, e_onSent = (case wo_onSent wo of None \<Rightarrow> [] | Some h \<Rightarrow> [h]),
               e_onDropped = wo_onDropped wo, e_origin = [], e_unpaced = wo_unpaced wo\<rparr>;
          s1 = s\<lparr>p_seq := Suc (p_seq s), p_next := Suc (p_next s)\<rparr>
      in if \<not> w_ready w then (case sendAtOnce w e s1 of (went, s2, out) \<Rightarrow> (None, s2, out))
         else case item of
           Text text \<Rightarrow>
             if is_immediate text then (case sendNow w e text True s1 of (went, s2, out) \<Rightarrow> (None, s2, out))
             else write_keyed w e s1
         | _ \<Rightarrow> write_keyed w e s1)"

definition write_unit ::
  "'w world \<Rightarrow> string list \<Rightarrow> send_priority \<Rightarrow> nat option \<Rightarrow> nat option \<Rightarrow> 'w pacer \<Rightarrow>
   nat option \<times> 'w pacer \<times> pacer_out list" where
  "write_unit w ls p onSent onDropped s =
     (if p_disposed s \<or> ls = [] then (None, s, call_dropped onDropped)
      else
      let e = \<lparr>e_ref = p_next s, e_priority = p, e_seq = 0, e_body = Unit ls, e_key = None, e_live = None,
               e_onSent = (case onSent of None \<Rightarrow> [] | Some h \<Rightarrow> [h]), e_onDropped = onDropped, e_origin = [],
               e_unpaced = False\<rparr>;
          s1 = s\<lparr>p_next := Suc (p_next s)\<rparr>
      in if \<not> w_ready w then (case sendAtOnce w e s1 of (went, s2, out) \<Rightarrow> (None, s2, out))
         else enqueue w e s1)"

definition drop_all :: "'w pacer \<Rightarrow> 'w pacer \<times> pacer_out list" where
  "drop_all s =
     (noteDepth (s\<lparr>p_high := [], p_normal := [], p_low := [], p_since := 0, p_timer := None,
                   p_emptyAtOnce := True, p_toldAtRefusal := []\<rparr>),
      snd (tell_all (waiting s) (p_toldAtRefusal s)))"

definition dispose_pacer :: "'w pacer \<Rightarrow> 'w pacer \<times> pacer_out list" where
  "dispose_pacer s =
     (let (s1, out) = drop_all (s\<lparr>p_disposed := True\<rparr>);
          s2 = s1\<lparr>p_depthReport := False, p_emptyHold := False\<rparr>
      in if p_reportedDepth s2 \<noteq> 0 \<and> p_onDepth s2 then (s2\<lparr>p_reportedDepth := 0\<rparr>, out @ [Depth 0])
         else (s2, out))"

text \<open>The \<open>setImmediate\<close> callback of \<open>noteDepth\<close>, and the timer that holds an empty report back.\<close>

definition depth_tick :: "'w pacer \<Rightarrow> 'w pacer \<times> pacer_out list" where
  "depth_tick s =
     (if \<not> p_depthReport s then (s, [])
      else
      let depth = pacer_pending s; atOnce = p_emptyAtOnce s;
          s1 = s\<lparr>p_depthReport := False, p_emptyAtOnce := False\<rparr>;
          s2 = (if (0 < depth \<or> atOnce) \<and> p_emptyHold s1 then s1\<lparr>p_emptyHold := False\<rparr> else s1)
      in if depth = p_reportedDepth s2 then (s2, [])
         else if depth = 0 \<and> \<not> atOnce then (s2\<lparr>p_emptyHold := True\<rparr>, [])
         else (s2\<lparr>p_reportedDepth := depth\<rparr>, [Depth depth]))"

definition hold_over :: "'w pacer \<Rightarrow> 'w pacer \<times> pacer_out list" where
  "hold_over s =
     (if \<not> p_emptyHold s then (s, [])
      else let s1 = s\<lparr>p_emptyHold := False\<rparr> in
        if 0 < pacer_pending s1 \<or> p_reportedDepth s1 = 0 then (s1, [])
        else (s1\<lparr>p_reportedDepth := 0\<rparr>, if p_onDepth s1 then [Depth 0] else []))"

text \<open>What can happen to a pacer.\<close>

datatype 'w pacer_op =
    OpWrite "'w body" write_options
  | OpUnit "string list" send_priority "nat option" "nat option"
  | OpCancel nat
  | OpResume
  | OpRedrain
  | OpTimer
  | OpDrop
  | OpDispose
  | OpTick
  | OpHold

fun pacer_step :: "'w world \<Rightarrow> 'w pacer_op \<Rightarrow> 'w pacer \<Rightarrow> 'w pacer \<times> pacer_out list" where
  "pacer_step w (OpWrite item wo) s = snd (write_item w item wo s)"
| "pacer_step w (OpUnit ls p a b) s = snd (write_unit w ls p a b s)"
| "pacer_step w (OpCancel r) s = snd (remove_item r False s)"
| "pacer_step w OpResume s = drain w s"
| "pacer_step w OpRedrain s = redrain w s"
| "pacer_step w OpTimer s = drain w (s\<lparr>p_timer := None\<rparr>)"
| "pacer_step w OpDrop s = drop_all s"
| "pacer_step w OpDispose s = dispose_pacer s"
| "pacer_step w OpTick s = depth_tick s"
| "pacer_step w OpHold s = hold_over s"

fun pacer_run :: "('w world \<times> 'w pacer_op) list \<Rightarrow> 'w pacer \<Rightarrow> 'w pacer \<times> pacer_out list" where
  "pacer_run [] s = (s, [])"
| "pacer_run ((w, op) # ops) s =
     (let (s1, o1) = pacer_step w op s; (s2, o2) = pacer_run ops s1 in (s2, o1 @ o2))"

end
