(* ===== verification/Pacer_Laws.thy ===== *)
theory Pacer_Laws imports Send_Pacer begin

text \<open>
  What \<open>server/services/sendPacer.ts\<close> promises: the server's clock is never run more than the budget
  ahead, lines leave in lane order with none lost, a drain that stops has a reason to, every dropped
  item is told once, and the caps and the depth report are right.
\<close>

declare sendAtOnce.simps [simp del] sendItems.simps [simp del]

section \<open>What stays through the steps of a drain\<close>

lemma waiting_shift: "queue_head s = Some e \<Longrightarrow> set (waiting (shift_head s)) \<subseteq> set (waiting s)"
  using waiting_head by fastforce

lemma head_waiting: "queue_head s = Some e \<Longrightarrow> e \<in> set (waiting s)"
  using waiting_head by fastforce

lemma queue_head_None: "queue_head s = None \<longleftrightarrow> waiting s = []"
  by (auto simp: queue_head_def waiting_def)

text \<open>An invariant of the queue is one of each way the head can go.\<close>

lemma drain_loop_inv:
  assumes "P s"
    and skip: "\<And>s e. P s \<Longrightarrow> queue_head s = Some e \<Longrightarrow> P (noteDepth (shift_head s))"
    and timer: "\<And>s t. P s \<Longrightarrow> P (s\<lparr>p_timer := t\<rparr>)"
    and send: "\<And>s e b s' out. P s \<Longrightarrow> queue_head s = Some e \<Longrightarrow> send_entry w e (shift_head s) = (b, s', out) \<Longrightarrow> P s'"
  shows "P (fst (drain_loop w s))"
  using assms
proof (induction w s rule: drain_loop.induct)
  case (1 w s)
  note P = "1.prems"
  show ?case
  proof (cases "queue_head s")
    case None
    with P show ?thesis by (simp add: drain_loop.simps [of w s])
  next
    case (Some e)
    obtain b s' out where se: "send_entry w e (shift_head s) = (b, s', out)" using prod_cases3 by blast
    show ?thesis
    proof (cases "\<not> w_ready w \<or> w_holding w (peek e) \<or> must_wait w e s")
      case True
      with P Some show ?thesis by (auto simp: drain_loop.simps [of w s])
    next
      case go: False
      show ?thesis
      proof (cases "wanted w e")
        case False
        have "P (fst (drain_loop w (noteDepth (shift_head s))))"
          by (rule "1.IH"(1) [OF Some _ _ _ P(2) [OF P(1) Some] P(2-4)]) (use go False in auto)
        with Some go False show ?thesis by (simp add: drain_loop.simps [of w s])
      next
        case True
        have s': "P s'" by (rule P(4) [OF P(1) Some se])
        have "P (fst (drain_loop w s'))" if b
          by (rule "1.IH"(2) [OF Some _ _ _ se [symmetric] _ refl s' P(2-4)]) (use go True that in auto)
        with s' Some go True se show ?thesis
          by (cases b) (simp_all add: drain_loop.simps [of w s] split_beta)
      qed
    qed
  qed
qed

section \<open>Keyed items\<close>

definition keyed_in :: "'w entry list \<Rightarrow> nat" where
  "keyed_in es = length (filter (\<lambda>q. e_key q \<noteq> None) es)"

lemma keyed_in_simps [simp]:
  "keyed_in [] = 0" "keyed_in (e # es) = (if e_key e = None then 0 else 1) + keyed_in es"
  "keyed_in (es @ fs) = keyed_in es + keyed_in fs"
  by (simp_all add: keyed_in_def)

lemma keyed_count: "length (keyed s) = keyed_in (waiting s)"
  by (simp add: keyed_def keyed_in_def)

lemma expanded_nth:
  "i < length items \<Longrightarrow> expanded e n items ! i =
     (let own = (entryFor (n + i) (items ! i) e)\<lparr>e_live := e_live e, e_unpaced := e_unpaced e\<rparr>
      in if Suc i = length items then own\<lparr>e_onSent := e_onSent own @ e_onSent e\<rparr> else own)"
  "length (expanded e n items) = length items"
  by (simp_all add: expanded_def nth_enumerate_eq)

lemma expanded_shape:
  assumes "x \<in> set (expanded e n items)"
  shows "\<exists>i < length items. x \<in> {(entryFor (n + i) (items ! i) e)\<lparr>e_live := e_live e, e_unpaced := e_unpaced e\<rparr>,
    (entryFor (n + i) (items ! i) e)\<lparr>e_live := e_live e, e_unpaced := e_unpaced e,
      e_onSent := part_sent (items ! i) @ e_onSent e\<rparr>}"
  using assms by (auto simp: in_set_conv_nth expanded_nth Let_def entryFor_def split: if_splits)

lemma expanded_fields:
  assumes "x \<in> set (expanded e n items)"
  shows "e_key x = None" "e_unpaced x = e_unpaced e" "e_live x = e_live e" "e_priority x = e_priority e"
    "e_origin x = chain e" "\<exists>p \<in> set items. e_body x = part_body p"
  using expanded_shape [OF assms] by (auto simp: entryFor_def)

text \<open>What a send leaves in the lanes: the rest, behind whatever the item expanded to.\<close>

lemma send_entry_waiting:
  assumes "send_entry w e s = (b, s', out)"
  shows "mset (waiting s') = mset (waiting s) \<or>
    (\<exists>f items. e_body e = Build f \<and> f (w_world w) = Some items \<and>
       mset (waiting s') = mset (expanded e (p_next s) items) + mset (waiting s))"
proof (cases "e_body e")
  case (Text t)
  with assms waiting_sendNow [of w e t True "noteDepth s"] show ?thesis by (simp add: send_entry_def)
next
  case (Unit ls)
  with assms waiting_sendUnit [of w e ls "noteDepth s"] show ?thesis by (simp add: send_entry_def)
next
  case (Build f)
  with assms show ?thesis
    by (auto simp: send_entry_def expand_def mset_prepend split: option.splits)
qed

lemma send_entry_config:
  "send_entry w e s = (b, s', out) \<Longrightarrow> p_maxKeyed s' = p_maxKeyed s \<and> p_onDepth s' = p_onDepth s \<and> p_disposed s' = p_disposed s"
  by (auto simp: send_entry_def sendNow_def sendUnit_def refuse_def expand_def split_beta Let_def charge_def noteDepth_def
      split: body.splits option.splits if_splits)

lemma keyed_in_mset: "mset xs = mset ys \<Longrightarrow> keyed_in xs = keyed_in ys"
  unfolding keyed_in_def by (metis mset_filter size_mset)

lemma keyed_send:
  assumes "queue_head s = Some e" "send_entry w e (shift_head s) = (b, s', out)"
  shows "keyed_in (waiting s') \<le> keyed_in (waiting s)"
proof -
  have "keyed_in (waiting (shift_head s)) \<le> keyed_in (waiting s)"
    using waiting_head [OF assms(1)] by simp
  moreover have "keyed_in (waiting s') = keyed_in (waiting (shift_head s))"
    using send_entry_waiting [OF assms(2)]
  proof (elim disjE exE conjE)
    fix f items
    assume "mset (waiting s') = mset (expanded e (p_next (shift_head s)) items) + mset (waiting (shift_head s))"
    then have "mset (waiting s') = mset (expanded e (p_next (shift_head s)) items @ waiting (shift_head s))" by simp
    from keyed_in_mset [OF this] show ?thesis
      using expanded_fields(1) [of _ e "p_next (shift_head s)" items]
      by (simp add: keyed_in_def [of "expanded e n items" for e n items] filter_empty_conv)
  qed (rule keyed_in_mset)
  ultimately show ?thesis by simp
qed

lemma keyed_drain: "keyed_in (waiting (fst (drain_loop w s))) \<le> keyed_in (waiting s) \<and> p_maxKeyed (fst (drain_loop w s)) = p_maxKeyed s"
proof (rule drain_loop_inv [where P = "\<lambda>s'. keyed_in (waiting s') \<le> keyed_in (waiting s) \<and> p_maxKeyed s' = p_maxKeyed s"], goal_cases)
  case (2 s1 e)
  then show ?case using waiting_head [of s1 e] by (auto split: if_splits)
next
  case (4 s1 e b s' out)
  then show ?case using keyed_send [of s1 e w b s' out] send_entry_config [of w e "shift_head s1" b s' out] by simp
qed simp_all

text \<open>What goes past the queue leaves the queue alone.\<close>

definition same_queue :: "'w pacer \<Rightarrow> 'w pacer \<Rightarrow> bool" where
  "same_queue s s' \<longleftrightarrow> p_high s' = p_high s \<and> p_normal s' = p_normal s \<and> p_low s' = p_low s \<and>
     p_maxKeyed s' = p_maxKeyed s \<and> p_onDepth s' = p_onDepth s \<and> p_depthReport s' = p_depthReport s \<and>
     p_emptyHold s' = p_emptyHold s \<and> p_reportedDepth s' = p_reportedDepth s \<and> p_disposed s' = p_disposed s \<and>
     p_timer s' = p_timer s"

lemma same_queue_refl [simp]: "same_queue s s"
  by (simp add: same_queue_def)

lemma same_queue_trans: "same_queue s s1 \<Longrightarrow> same_queue s1 s2 \<Longrightarrow> same_queue s s2"
  by (simp add: same_queue_def)

lemma same_queue_small:
  "same_queue s (s\<lparr>p_next := n\<rparr>)" "same_queue s (s\<lparr>p_seq := m, p_next := n\<rparr>)" "same_queue s (fst (refuse e s))"
  "same_queue s (charge c t b s)" "same_queue s (fst (snd (sendNow w e text ch s)))"
  by (simp_all add: same_queue_def refuse_def split_beta charge_def sendNow_def Let_def)

lemma same_queue_unit: "same_queue s (fst (snd (sendUnit w e ls s)))"
  using same_queue_trans [OF same_queue_small(4) same_queue_small(3)] same_queue_small(3,4)
  by (auto simp: sendUnit_def split_beta Let_def)

lemma same_queue_waiting: "same_queue s s' \<Longrightarrow> waiting s' = waiting s"
  by (simp add: same_queue_def waiting_def)

lemma sendAtOnce_queue:
  "same_queue s (fst (snd (sendAtOnce w e s)))" "same_queue s (fst (snd (sendItems w e items s)))"
proof (induction w e s and w e items s rule: sendAtOnce_sendItems.induct)
  case (1 w e s)
  show ?case
  proof (cases "e_body e")
    case (Build f)
    then show ?thesis
      using 1 [OF Build] same_queue_small(3) [of s e]
      by (auto simp: sendAtOnce.simps [of w e s] split_beta split: option.split)
  next
    case (Unit ls)
    then show ?thesis
      using same_queue_small(3) [of s e] by (simp add: sendAtOnce.simps [of w e s] split_beta split: bool.split)
  qed (simp add: sendAtOnce.simps [of w e s] same_queue_small)
next
  case (3 w e i items s)
  let ?s = "s\<lparr>p_next := Suc (p_next s)\<rparr>" and ?r = "sendAtOnce w (entryFor (p_next s) i e) (s\<lparr>p_next := Suc (p_next s)\<rparr>)"
  have "same_queue s (fst (snd ?r))"
    by (rule same_queue_trans [OF same_queue_small(1) 3(1)])
  moreover have "fst ?r \<Longrightarrow> same_queue (fst (snd ?r)) (fst (snd (sendItems w e items (fst (snd ?r)))))"
    using 3(2) by (cases ?r) auto
  ultimately show ?case
    by (cases ?r) (auto simp: sendItems.simps split_beta intro: same_queue_trans split: bool.split)
qed (simp add: sendItems.simps)

lemma keyed_filter: "keyed_in (filter Q xs) \<le> keyed_in xs"
  by (induction xs) simp_all

lemma waiting_remove: "waiting (fst (snd (remove_item r d s))) = filter (\<lambda>x. \<not> takes r x) (waiting s)"
  by (auto simp: remove_item_def Let_def waiting_def filter_empty_conv filter_id_conv)

lemma remove_config: "p_maxKeyed (fst (snd (remove_item r d s))) = p_maxKeyed s"
  by (simp add: remove_item_def Let_def)

lemma make_room_cap:
  "p_maxKeyed (fst (make_room s)) = p_maxKeyed s \<and>
   (keyed_in (waiting (fst (make_room s))) < p_maxKeyed s \<or> p_maxKeyed s = 0)"
proof (induction s rule: make_room.induct)
  case (1 s)
  show ?case
  proof (cases "keyed s")
    case Nil
    then show ?thesis using keyed_count [of s] by (auto simp: make_room.simps [of s])
  next
    case (Cons q qs)
    obtain b s1 o1 where r: "remove_item (e_ref q) True s = (b, s1, o1)" using prod_cases3 by blast
    have "p_maxKeyed s1 = p_maxKeyed s" using remove_config [of "e_ref q" True s] r by simp
    then show ?thesis
      using 1 [OF Cons _ r [symmetric] refl] Cons r keyed_count [of s]
      by (auto simp: make_room.simps [of s] split_beta)
  qed
qed

lemma keyed_in_append: "keyed_in (waiting (upd_lane p (\<lambda>q. q @ [e]) s)) = keyed_in (waiting s) + (if e_key e = None then 0 else 1)"
  by (cases p) (simp_all add: waiting_def)

lemma find_keyed_Some: "find_keyed k q = Some i \<Longrightarrow> i < length q \<and> e_key (q ! i) = Some k"
proof -
  assume "find_keyed k q = Some i"
  then have "dropWhile (\<lambda>e. e_key e \<noteq> Some k) q \<noteq> []" and i: "i = length (takeWhile (\<lambda>e. e_key e \<noteq> Some k) q)"
    by (auto simp: find_keyed_def simp del: dropWhile_eq_Nil_conv split: list.splits)
  moreover have "length (takeWhile (\<lambda>e. e_key e \<noteq> Some k) q) + length (dropWhile (\<lambda>e. e_key e \<noteq> Some k) q) = length q"
    by (simp flip: length_append)
  ultimately have "i < length q" by (cases "dropWhile (\<lambda>e. e_key e \<noteq> Some k) q") auto
  with nth_length_takeWhile [of "\<lambda>e. e_key e \<noteq> Some k" q] i show ?thesis by simp
qed

lemma first_lane_Some: "first_lane k ps s = Some (p, i) \<Longrightarrow> i < length (lane p s) \<and> e_key (lane p s ! i) = Some k"
  by (induction ps) (auto dest: find_keyed_Some split: option.splits)

lemma keyed_in_update:
  "i < length q \<Longrightarrow> e_key (q ! i) = Some k \<Longrightarrow> e_key e = Some k \<Longrightarrow> keyed_in (q[i := e]) = keyed_in q"
  by (induction q arbitrary: i) (auto simp: nth_Cons split: nat.splits)

section \<open>Invariants of a pacer\<close>

text \<open>What an invariant of the queue has to survive; it then holds after every run.\<close>

locale pacer_invariant =
  fixes P :: "'w pacer \<Rightarrow> bool"
  assumes same: "same_queue s s' \<Longrightarrow> P s \<Longrightarrow> P s'"
    and timer: "P s \<Longrightarrow> P (s\<lparr>p_timer := t\<rparr>)"
    and skip: "P s \<Longrightarrow> queue_head s = Some e \<Longrightarrow> P (noteDepth (shift_head s))"
    and send: "P s \<Longrightarrow> queue_head s = Some e \<Longrightarrow> send_entry w e (shift_head s) = (b, s', out) \<Longrightarrow> P s'"
    and push: "P s \<Longrightarrow> e_key e = None \<or> keyed_in (waiting s) < p_maxKeyed s \<or> p_maxKeyed s = 0 \<Longrightarrow>
      P (noteDepth (upd_lane (e_priority e) (\<lambda>q. q @ [e]) s))"
    and replace: "P s \<Longrightarrow> first_lane k [High, Normal, Low] s = Some (p, i) \<Longrightarrow> e_key e = Some k \<Longrightarrow>
      e_priority e = p \<Longrightarrow> P (upd_lane p (\<lambda>q. q[i := e]) s)"
    and remove: "P s \<Longrightarrow> P (fst (snd (remove_item r d s)))"
    and drop: "P s \<Longrightarrow> P (fst (drop_all s))" "P s \<Longrightarrow> P (fst (dispose_pacer s))"
    and report: "P s \<Longrightarrow> P (fst (depth_tick s))" "P s \<Longrightarrow> P (fst (hold_over s))"
begin

lemma drained: "P s \<Longrightarrow> P (fst (drain w s))" "P s \<Longrightarrow> P (fst (redrain w s))"
proof -
  have "P s \<Longrightarrow> P (fst (drain_loop w s))" for s
    by (rule drain_loop_inv [where P = P]) (auto intro: skip timer send)
  then show "P s \<Longrightarrow> P (fst (drain w s))" "P s \<Longrightarrow> P (fst (redrain w s))"
    using timer by (simp_all add: drain_def redrain_def)
qed

lemma enqueued:
  "P s \<Longrightarrow> e_key e = None \<or> keyed_in (waiting s) < p_maxKeyed s \<or> p_maxKeyed s = 0 \<Longrightarrow> P (fst (snd (enqueue w e s)))"
  using drained(2) push by (simp add: enqueue_def)

lemma room: "P s \<Longrightarrow> P (fst (make_room s))"
proof (induction s rule: make_room.induct)
  case (1 s)
  show ?case
  proof (cases "keyed s")
    case Nil
    with "1.prems" show ?thesis by (simp add: make_room.simps [of s])
  next
    case (Cons q qs)
    obtain b s1 o1 where r: "remove_item (e_ref q) True s = (b, s1, o1)" using prod_cases3 by blast
    have "P s1" using remove [OF "1.prems", of "e_ref q" True] r by simp
    with "1.prems" show ?thesis
      using "1.IH" [OF Cons _ r [symmetric] refl] Cons r
      by (auto simp: make_room.simps [of s] split_beta)
  qed
qed

lemma written:
  assumes "P s"
  shows "P (fst (snd (write_keyed w e s)))"
proof (cases "e_key e")
  case None
  with enqueued [OF assms] show ?thesis by (simp add: write_keyed_def)
next
  case (Some k)
  show ?thesis
  proof (cases "first_lane k [High, Normal, Low] s")
    case None
    have "P (fst (snd (enqueue w e (fst (make_room s)))))"
      using make_room_cap [of s] by (intro enqueued room assms) auto
    then show ?thesis by (simp add: write_keyed_def Some None split_beta Let_def del: first_lane.simps)
  next
    case (Some pi)
    obtain p i where pi: "pi = (p, i)" by (cases pi)
    let ?e = "e\<lparr>e_priority := p, e_seq := e_seq (lane p s ! i)\<rparr>"
    have "P (upd_lane p (\<lambda>q. q[i := ?e]) s)"
      by (rule replace [OF assms Some [unfolded pi]]) (simp_all add: \<open>e_key e = Some k\<close>)
    moreover have "upd_lane p (\<lambda>q. q[i := e\<lparr>e_priority := p, e_seq := e_seq (q ! i)\<rparr>]) s = upd_lane p (\<lambda>q. q[i := ?e]) s"
      by (cases p) simp_all
    ultimately show ?thesis
      using Some pi \<open>e_key e = Some k\<close> by (simp add: write_keyed_def del: first_lane.simps)
  qed
qed

lemma step:
  assumes ok: "P s"
  shows "P (fst (pacer_step w op s))"
proof (cases op)
  case (OpWrite item wo)
  have ok1: "P (s\<lparr>p_seq := m, p_next := k\<rparr>)" for m k
    by (rule same [OF same_queue_small(2) ok])
  have "P (fst (snd (sendAtOnce w e (s\<lparr>p_seq := m, p_next := k\<rparr>))))"
    "P (fst (snd (sendNow w e tx ch (s\<lparr>p_seq := m, p_next := k\<rparr>))))" for e m k tx ch
    by (rule same [OF sendAtOnce_queue(1) ok1], rule same [OF same_queue_small(5) ok1])
  with ok show ?thesis
    by (auto simp: OpWrite write_item_def Let_def split_beta intro!: written ok1 split: body.split)
next
  case (OpUnit ls p a b)
  have ok1: "P (s\<lparr>p_next := k\<rparr>)" for k
    by (rule same [OF same_queue_small(1) ok])
  have "P (fst (snd (sendAtOnce w e (s\<lparr>p_next := k\<rparr>))))" for e k
    by (rule same [OF sendAtOnce_queue(1) ok1])
  with ok show ?thesis
    by (simp add: OpUnit write_unit_def Let_def split_beta enqueued ok1)
qed (simp_all add: ok drained timer remove drop report)

lemma run: "P s \<Longrightarrow> P (fst (pacer_run ops s))"
  by (induction ops arbitrary: s) (auto simp: split_beta Let_def step)

end

lemma waiting_append: "mset (waiting (upd_lane p (\<lambda>q. q @ es) s)) = mset (waiting s) + mset es"
  by (cases p) (simp_all add: waiting_def)

section \<open>The keyed cap\<close>

definition keyed_ok :: "nat \<Rightarrow> 'w pacer \<Rightarrow> bool" where
  "keyed_ok n s \<longleftrightarrow> p_maxKeyed s = n \<and> 0 < n \<and> keyed_in (waiting s) \<le> n"

interpretation cap: pacer_invariant "keyed_ok n" for n
proof (unfold_locales, goal_cases)
  case (1 s s')
  then show ?case by (simp add: keyed_ok_def same_queue_waiting) (simp add: same_queue_def)
next
  case (3 s e)
  then show ?case using waiting_head [of s e] by (auto simp: keyed_ok_def split: if_splits)
next
  case (4 s e w b s' out)
  then show ?case
    using keyed_send [of s e w b s' out] send_entry_config [of w e "shift_head s" b s' out] by (simp add: keyed_ok_def)
next
  case (5 s e)
  then show ?case by (auto simp: keyed_ok_def keyed_in_append)
next
  case (6 s k p i e)
  have "keyed_in ((lane p s)[i := e]) = keyed_in (lane p s)"
    by (rule keyed_in_update) (use first_lane_Some [OF 6(2)] 6(3) in auto)
  then have "keyed_in (waiting (upd_lane p (\<lambda>q. q[i := e]) s)) = keyed_in (waiting s)"
    by (cases p) (simp_all add: waiting_def)
  with 6 show ?case by (simp add: keyed_ok_def)
next
  case (7 s r d)
  have "keyed_in (waiting (fst (snd (remove_item r d s)))) \<le> keyed_in (waiting s)"
    by (simp add: waiting_remove keyed_filter)
  with 7 show ?case by (simp add: keyed_ok_def remove_config)
qed (auto simp: keyed_ok_def drop_all_def dispose_pacer_def depth_tick_def hold_over_def Let_def waiting_def)

text \<open>However handshake replies are written, replaced, cancelled and expanded, no more keyed items wait
  than the cap allows.\<close>

theorem keyed_items_capped:
  assumes "maxKeyed \<noteq> Some 0"
  shows "keyed_in (waiting (fst (pacer_run ops (new_pacer maxKeyed onDepth)))) \<le>
    (case maxKeyed of None \<Rightarrow> DEFAULT_MAX_KEYED | Some n \<Rightarrow> n)"
proof -
  let ?n = "case maxKeyed of None \<Rightarrow> DEFAULT_MAX_KEYED | Some n \<Rightarrow> n"
  have "keyed_ok ?n (new_pacer maxKeyed onDepth)"
    using assms by (auto simp: keyed_ok_def new_pacer_def waiting_def DEFAULT_MAX_KEYED_def split: option.split)
  from cap.run [OF this, of ops] show ?thesis unfolding keyed_ok_def by blast
qed

section \<open>The depth report\<close>

text \<open>Unless a report is on its way, the depth last reported is the depth; while an empty report is held
  back the queue is empty.\<close>

definition depth_ok :: "'w pacer \<Rightarrow> bool" where
  "depth_ok s \<longleftrightarrow> (p_onDepth s \<longrightarrow> \<not> p_depthReport s \<longrightarrow>
     (if p_emptyHold s then waiting s = [] else p_reportedDepth s = length (waiting s)))"

lemma pending_waiting: "pacer_pending s = length (waiting s)"
  by (simp add: pacer_pending_def waiting_def)

lemma waiting_report [simp]:
  "waiting (s\<lparr>p_depthReport := b\<rparr>) = waiting s" "waiting (s\<lparr>p_emptyHold := b\<rparr>) = waiting s"
  "waiting (s\<lparr>p_reportedDepth := n\<rparr>) = waiting s"
  by (simp_all add: waiting_def)

lemma depth_ok_note: "depth_ok (noteDepth s)"
  by (simp add: depth_ok_def noteDepth_def)

lemma depth_ok_same: "same_queue s s' \<Longrightarrow> depth_ok s' = depth_ok s"
  by (simp add: depth_ok_def same_queue_waiting) (simp add: same_queue_def)

lemma depth_ok_timer [simp]: "depth_ok (s\<lparr>p_timer := t\<rparr>) = depth_ok s"
  by (simp add: depth_ok_def)

lemma depth_ok_send:
  assumes "send_entry w e s = (b, s', out)"
  shows "depth_ok s'"
proof (cases "e_body e")
  case (Text t)
  with assms depth_ok_same [OF same_queue_small(5) [of "noteDepth s" w e t True]] show ?thesis
    by (simp add: send_entry_def depth_ok_note)
next
  case (Unit ls)
  with assms depth_ok_same [OF same_queue_unit [of "noteDepth s" w e ls]] show ?thesis
    by (simp add: send_entry_def depth_ok_note)
next
  case (Build f)
  with assms show ?thesis
    by (auto simp: send_entry_def expand_def depth_ok_note split: option.splits)
qed

interpretation depth: pacer_invariant depth_ok
proof (unfold_locales, goal_cases)
  case (6 s k p i e)
  have "length (waiting (upd_lane p (\<lambda>q. q[i := e]) s)) = length (waiting s)"
    by (cases p) (simp_all add: waiting_def)
  with 6 show ?case by (auto simp: depth_ok_def simp flip: length_0_conv)
next
  case (7 s r d)
  then show ?case by (simp add: remove_item_def Let_def depth_ok_note)
next
  case (8 s)
  show ?case by (simp add: drop_all_def depth_ok_note)
next
  case (9 s)
  have "waiting (fst (dispose_pacer s)) = []" "p_emptyHold (fst (dispose_pacer s)) = False"
    "p_onDepth (fst (dispose_pacer s)) \<longrightarrow> p_reportedDepth (fst (dispose_pacer s)) = 0"
    by (simp_all add: dispose_pacer_def drop_all_def Let_def split_beta waiting_def)
  then show ?case by (simp add: depth_ok_def)
next
  case (10 s)
  then show ?case
    by (cases "waiting s"; cases "p_depthReport s")
      (simp_all add: depth_tick_def depth_ok_def pending_waiting Let_def)
next
  case (11 s)
  then show ?case
    by (cases "waiting s"; cases "p_emptyHold s")
      (simp_all add: hold_over_def depth_ok_def pending_waiting Let_def)
qed (auto simp: depth_ok_same depth_ok_note intro: depth_ok_send)

text \<open>Whatever is written, cancelled or dropped, once no report is on its way the depth the user was last
  told is the number of items that wait, and a held-back empty report is held back only while
  the queue is empty.\<close>

theorem depth_report_is_true:
  "depth_ok (fst (pacer_run ops (new_pacer maxKeyed onDepth)))"
proof -
  have "depth_ok (new_pacer maxKeyed onDepth)"
    by (simp add: depth_ok_def new_pacer_def waiting_def)
  from depth.run [OF this] show ?thesis .
qed

section \<open>The server's clock\<close>

fun wires :: "pacer_out list \<Rightarrow> string list" where
  "wires [] = []"
| "wires (Wire l # out) = l # wires out"
| "wires (_ # out) = wires out"

lemma wires_append [simp]: "wires (a @ b) = wires a @ wires b"
  by (induction a rule: wires.induct) simp_all

lemma wires_hooks [simp]:
  "wires (call_dropped h) = []" "wires (call_sent e t) = []" "wires (snd (tell_chain c told)) = []"
  "wires (snd (refuse e s)) = []" "wires (snd (tell_all es told)) = []"
proof -
  show 1: "wires (call_dropped h) = []" for h by (cases h) (simp_all add: call_dropped_def)
  have "wires (map (\<lambda>h. CallSent h t) hs) = []" for hs by (induction hs) simp_all
  then show "wires (call_sent e t) = []" by (simp add: call_sent_def)
  show c: "wires (snd (tell_chain c told)) = []" for c told
    by (induction c told rule: tell_chain.induct) (auto simp: split_beta 1)
  show "wires (snd (refuse e s)) = []" by (simp add: refuse_def tellDropped_def split_beta c)
  show "wires (snd (tell_all es told)) = []"
    by (induction es arbitrary: told) (simp_all add: split_beta tellDropped_def c)
qed

definition wire_cost :: "pacer_out list \<Rightarrow> int" where
  "wire_cost out = sum_list (map (line_cost False) (wires out))"

lemma wire_cost_append [simp]: "wire_cost (a @ b) = wire_cost a + wire_cost b" "wire_cost [] = 0"
  by (simp_all add: wire_cost_def)

text \<open>A line, or the lines of a unit, which go whole once the first fits, may overshoot the budget, by \<open>ov\<close> at most.\<close>

definition short_lines :: "nat \<Rightarrow> pacer_out list \<Rightarrow> bool" where
  "short_lines ov out \<longleftrightarrow> (\<forall>l \<in> set (wires out). line_cost False l \<le> BURST_BUDGET_MS + int ov)"

lemma short_lines_append [simp]: "short_lines ov (a @ b) \<longleftrightarrow> short_lines ov a \<and> short_lines ov b"
  by (auto simp: short_lines_def)

definition unit_cost :: "string list \<Rightarrow> int" where
  "unit_cost ls = sum_list (map (line_cost False) ls)"

definition unit_within :: "nat \<Rightarrow> string list \<Rightarrow> bool" where
  "unit_within ov ls \<longleftrightarrow> unit_cost ls - line_cost False (hd ls) \<le> int ov \<and> unit_cost ls \<le> BURST_BUDGET_MS + int ov"

definition within :: "nat \<Rightarrow> 'w body \<Rightarrow> bool" where
  "within ov b \<longleftrightarrow> (case b of Unit ls \<Rightarrow> unit_within ov ls | _ \<Rightarrow> True)"

lemma line_cost_pos: "0 \<le> line_cost False l"
  by (simp add: line_cost_def lineCostMs_def BASE_COST_MS_def COST_PER_100_BYTES_MS_def)

definition plain :: "nat \<Rightarrow> 'w entry \<Rightarrow> bool" where
  "plain ov e \<longleftrightarrow> \<not> e_unpaced e \<and> within ov (e_body e)"

definition all_plain :: "nat \<Rightarrow> 'w pacer \<Rightarrow> bool" where
  "all_plain ov s \<longleftrightarrow> (\<forall>e \<in> set (waiting s). plain ov e)"

definition paced_world :: "'w world \<Rightarrow> bool" where
  "paced_world w \<longleftrightarrow> w_paced w \<and> w_ready w \<and> \<not> w_free w"

text \<open>The clock moves by what is sent and is never pushed past the budget by more than \<open>ov\<close>, nor, by what does not queue,
  by more than its cost \<open>i\<close>.\<close>

definition flow_by :: "int \<Rightarrow> nat \<Rightarrow> int \<Rightarrow> 'w pacer \<Rightarrow> 'w pacer \<times> pacer_out list \<Rightarrow> bool" where
  "flow_by i ov t s r \<longleftrightarrow> all_plain ov (fst r) \<and>
     max (p_since s) t + wire_cost (snd r) \<le> max (p_since (fst r)) t \<and>
     (short_lines ov (snd r) \<longrightarrow> p_since (fst r) \<le> max (p_since s) (t + BURST_BUDGET_MS + int ov) + i)"

abbreviation flow :: "nat \<Rightarrow> int \<Rightarrow> 'w pacer \<Rightarrow> 'w pacer \<times> pacer_out list \<Rightarrow> bool" where
  "flow \<equiv> flow_by 0"

lemmas flow_def = flow_by_def [of 0, simplified]

lemma flow_trans:
  "flow ov t s (s1, o1) \<Longrightarrow> flow ov t s1 (s2, o2) \<Longrightarrow> flow ov t s (s2, o1 @ o2)"
  by (auto simp: flow_by_def)

lemma flow_same: "all_plain ov s' \<Longrightarrow> p_since s' = p_since s \<Longrightarrow> wires out = [] \<Longrightarrow> flow ov t s (s', out)"
  by (simp add: flow_by_def wire_cost_def)

lemma part_within: "within ov (part_body p)"
  by (cases p) (simp_all add: within_def)

lemma all_plain_mset: "mset (waiting s) = mset xs \<Longrightarrow> all_plain ov s \<longleftrightarrow> (\<forall>e \<in> set xs. plain ov e)"
  unfolding all_plain_def by (metis mset_eq_setD)

lemma all_plain_shift: "all_plain ov s \<Longrightarrow> queue_head s = Some e \<Longrightarrow> all_plain ov (shift_head s) \<and> plain ov e"
  using waiting_shift head_waiting unfolding all_plain_def by blast

lemma push_lines_cost:
  assumes "paced_world w" "push_lines w ls = (went, cost, out)"
  shows "cost = wire_cost out" "0 \<le> cost" "cost \<le> unit_cost ls"
proof -
  have "0 \<le> unit_cost ks" for ks by (induction ks) (simp_all add: unit_cost_def line_cost_pos)
  then have "cost = wire_cost out \<and> 0 \<le> cost \<and> cost \<le> unit_cost ls"
    using assms
  proof (induction ls arbitrary: went cost out)
    case (Cons l ls)
    obtain b c o' where ls: "push_lines w ls = (b, c, o')" using prod_cases3 by blast
    from Cons.IH [OF Cons.prems(1,2) ls] Cons.prems(1) [of "l # ls"] Cons.prems(2,3) ls line_cost_pos [of l] show ?case
      by (auto simp: costOf_def paced_world_def wire_cost_def unit_cost_def split: if_splits)
  qed (simp add: wire_cost_def unit_cost_def)
  then show "cost = wire_cost out" "0 \<le> cost" "cost \<le> unit_cost ls" by blast+
qed

lemma flow_unit:
  assumes w: "paced_world w" and p: "all_plain ov s" "unit_within ov ls"
    and fits: "p_since s + line_cost False (hd ls) \<le> w_now w + BURST_BUDGET_MS"
  shows "flow ov (w_now w) s (snd (sendUnit w e ls s))"
proof -
  obtain went cost out where l: "push_lines w ls = (went, cost, out)" using prod_cases3 by blast
  note c = push_lines_cost [OF w l]
  have u: "unit_cost ls - line_cost False (hd ls) \<le> int ov" "unit_cost ls \<le> BURST_BUDGET_MS + int ov" using p(2) by (simp_all add: unit_within_def)
  have charged: "max (p_since s) (w_now w) + cost \<le> w_now w + BURST_BUDGET_MS + int ov"
    using c(3) u fits by linarith
  have w0: "wire_cost (out @ call_sent e t) = cost" "wire_cost (out @ snd (refuse e s')) = cost" for t s'
    using c(1) by (simp_all add: wire_cost_def)
  show ?thesis
  proof (cases went)
    case True
    then show ?thesis using p(1) charged w0 by (auto simp: sendUnit_def l flow_by_def all_plain_def charge_def Let_def)
  next
    case False
    then show ?thesis using p(1) charged w0 c(2)
      by (auto simp: sendUnit_def l flow_by_def all_plain_def charge_def Let_def split_beta)
  qed
qed

lemma flow_send:
  assumes w: "paced_world w" and s: "all_plain ov s" "queue_head s = Some e" and nw: "\<not> must_wait w e s"
    and se: "send_entry w e (shift_head s) = (b, s', out)"
  shows "flow ov (w_now w) s (s', out)"
proof -
  note p = all_plain_shift [OF s]
  show ?thesis
  proof (cases "e_body e")
    case (Text t)
    let ?c = "line_cost False t"
    have fits: "p_since s + ?c \<le> w_now w + BURST_BUDGET_MS"
      using nw w p Text by (auto simp: must_wait_def over_budget_def paced_world_def plain_def)
    show ?thesis
    proof (cases "w_accepts w t")
      case True
      with se Text w p have "s' = charge ?c (w_now w) False (noteDepth (shift_head s))" "out = Wire t # call_sent e (w_now w)"
        by (auto simp: send_entry_def sendNow_def costOf_def paced_world_def plain_def)
      with fits p show ?thesis
        by (auto simp: flow_def all_plain_def wire_cost_def charge_def Let_def short_lines_def)
    next
      case False
      with se Text have "(s', out) = refuse e (noteDepth (shift_head s))"
        by (simp add: send_entry_def sendNow_def)
      then have "s' = fst (refuse e (noteDepth (shift_head s)))" "out = snd (refuse e (noteDepth (shift_head s)))"
        by (metis fst_conv, metis snd_conv)
      with p show ?thesis by (intro flow_same) (simp_all add: all_plain_def)
    qed
  next
    case (Unit ls)
    have fits: "p_since s + line_cost False (hd ls) \<le> w_now w + BURST_BUDGET_MS"
      using nw w p Unit by (auto simp: must_wait_def over_budget_def paced_world_def plain_def)
    have "flow ov (w_now w) (noteDepth (shift_head s)) (snd (sendUnit w e ls (noteDepth (shift_head s))))"
      using p Unit fits by (intro flow_unit [OF w]) (simp_all add: all_plain_def plain_def within_def)
    with se Unit show ?thesis by (simp add: send_entry_def flow_def)
  next
    case (Build f)
    then have since: "p_since s' = p_since s" and out: "wires out = []"
      using se by (auto simp: send_entry_def expand_def tellDropped_def split: option.splits)
    have "all_plain ov s'"
      using send_entry_waiting [OF se]
    proof (elim disjE exE conjE)
      fix g items
      assume m: "mset (waiting s') = mset (expanded e (p_next (shift_head s)) items) + mset (waiting (shift_head s))"
      have "plain ov y" if "y \<in> set (expanded e k items)" for y k
        using expanded_fields [OF that] p part_within unfolding plain_def by metis
      with m p show ?thesis
        using all_plain_mset [of s' "expanded e (p_next (shift_head s)) items @ waiting (shift_head s)"]
        by (auto simp: all_plain_def)
    next
      assume "mset (waiting s') = mset (waiting (shift_head s))"
      from all_plain_mset [OF this] p show ?thesis by (simp add: all_plain_def)
    qed
    with since out show ?thesis by (intro flow_same)
  qed
qed

lemma flow_loop:
  assumes "paced_world w" "all_plain ov s"
  shows "flow ov (w_now w) s (drain_loop w s)"
  using assms
proof (induction w s rule: drain_loop.induct)
  case (1 w s)
  have stay: "flow ov (w_now w) s (s, [])" "flow ov (w_now w) s (s\<lparr>p_timer := t\<rparr>, [])" for t
    using "1.prems" by (auto intro!: flow_same simp: all_plain_def)
  show ?case
  proof (cases "queue_head s")
    case None
    with stay show ?thesis by (simp add: drain_loop.simps [of w s])
  next
    case (Some e)
    note p = all_plain_shift [OF "1.prems"(2) Some]
    obtain b s' out where se: "send_entry w e (shift_head s) = (b, s', out)" using prod_cases3 by blast
    show ?thesis
    proof (cases "\<not> w_ready w \<or> w_holding w (peek e) \<or> must_wait w e s")
      case True
      with stay Some show ?thesis by (auto simp: drain_loop.simps [of w s])
    next
      case go: False
      show ?thesis
      proof (cases "wanted w e")
        case False
        have pl: "all_plain ov (noteDepth (shift_head s))" using p by (simp add: all_plain_def)
        then have "flow ov (w_now w) (noteDepth (shift_head s)) (drain_loop w (noteDepth (shift_head s)))"
          by (intro "1.IH"(1) [OF Some]) (use go False "1.prems" in auto)
        then have "flow ov (w_now w) s (drain_loop w (noteDepth (shift_head s)))" by (simp add: flow_def)
        with Some go False show ?thesis by (simp add: drain_loop.simps [of w s])
      next
        case True
        have f: "flow ov (w_now w) s (s', out)" using flow_send [OF "1.prems" Some _ se] go by blast
        then have "all_plain ov s'" by (simp add: flow_def)
        then have "flow ov (w_now w) s' (drain_loop w s')" if b
          by (intro "1.IH"(2) [OF Some _ _ _ se [symmetric] _ refl]) (use go True that "1.prems" in auto)
        with f Some go True se show ?thesis
          by (cases b) (auto simp: drain_loop.simps [of w s] split_beta intro: flow_trans)
      qed
    qed
  qed
qed

lemma flow_drain:
  assumes "paced_world w" "all_plain ov s"
  shows "flow ov (w_now w) s (drain w s)" "flow ov (w_now w) s (redrain w s)" "flow ov (w_now w) s (drain w (s\<lparr>p_timer := None\<rparr>))"
proof -
  have "all_plain ov (s\<lparr>p_timer := None\<rparr>)" using assms(2) by (simp add: all_plain_def)
  from flow_loop [OF assms(1) this] have 1: "flow ov (w_now w) s (drain_loop w (s\<lparr>p_timer := None\<rparr>))"
    by (simp add: flow_def)
  then show "flow ov (w_now w) s (redrain w s)" "flow ov (w_now w) s (drain w (s\<lparr>p_timer := None\<rparr>))"
    by (simp_all add: drain_def redrain_def)
  show "flow ov (w_now w) s (drain w s)"
    using flow_loop [OF assms] assms(2) by (simp add: drain_def flow_def)
qed

lemma flow_enqueue:
  assumes "paced_world w" "all_plain ov s" "plain ov e"
  shows "flow ov (w_now w) s (snd (enqueue w e s))"
proof -
  have "set (waiting (upd_lane p (\<lambda>q. q @ [e]) s)) = insert e (set (waiting s))" for p
    by (cases p) (auto simp: waiting_def)
  then have "all_plain ov (noteDepth (upd_lane (e_priority e) (\<lambda>q. q @ [e]) s))"
    using assms(2,3) by (simp add: all_plain_def)
  from flow_drain(2) [OF assms(1) this] show ?thesis
    by (simp add: enqueue_def flow_def)
qed

lemma flow_remove:
  assumes "all_plain ov s"
  shows "flow ov t s (snd (remove_item r d s))"
proof -
  have "wires (snd (snd (remove_item r d s))) = []" "p_since (fst (snd (remove_item r d s))) = p_since s"
    by (simp_all add: remove_item_def Let_def)
  moreover have "all_plain ov (fst (snd (remove_item r d s)))"
    using assms by (simp add: all_plain_def waiting_remove)
  ultimately show ?thesis by (simp add: flow_def wire_cost_def short_lines_def)
qed

lemma flow_room: "all_plain ov s \<Longrightarrow> flow ov t s (make_room s)"
proof (induction s rule: make_room.induct)
  case (1 s)
  have stay: "flow ov t s (s, [])" using 1 by (intro flow_same) auto
  show ?case
  proof (cases "keyed s")
    case Nil
    with stay show ?thesis by (simp add: make_room.simps [of s])
  next
    case (Cons q qs)
    obtain b s1 o1 where r: "remove_item (e_ref q) True s = (b, s1, o1)" using prod_cases3 by blast
    have f: "flow ov t s (s1, o1)" using flow_remove [OF "1.prems", of t "e_ref q" True] r by simp
    then have "all_plain ov s1" by (simp add: flow_def)
    then have "flow ov t s1 (make_room s1)" if "\<not> length (keyed s) < p_maxKeyed s"
      using "1.IH" [OF Cons _ r [symmetric] refl] that by simp
    with f stay Cons r show ?thesis
      by (auto simp: make_room.simps [of s] split_beta intro: flow_trans)
  qed
qed

text \<open>Operations on a connection as it lives, with nothing exempt from pacing: all but a drop and a disposal, which end it.\<close>

fun paced_op :: "nat \<Rightarrow> 'w pacer_op \<Rightarrow> bool" where
  "paced_op ov (OpWrite item wo) \<longleftrightarrow> \<not> wo_unpaced wo \<and> within ov item"
| "paced_op ov (OpUnit ls p a b) \<longleftrightarrow> unit_within ov ls"
| "paced_op ov OpDrop = False"
| "paced_op ov OpDispose = False"
| "paced_op ov _ = True"

text \<open>What is sent past the queue, PING, PONG and QUIT, and is charged.\<close>

fun at_once_cost :: "'w pacer_op \<Rightarrow> int" where
  "at_once_cost (OpWrite (Text t) wo) = (if is_immediate t then line_cost False t else 0)"
| "at_once_cost op = 0"

lemma at_once_cost_pos: "0 \<le> at_once_cost op"
  by (cases op rule: at_once_cost.cases) (simp_all add: line_cost_pos)

lemma flow_write:
  assumes w: "paced_world w" and s: "all_plain ov s" "plain ov e"
  shows "flow ov (w_now w) s (snd (write_keyed w e s))"
proof (cases "e_key e")
  case None
  with flow_enqueue [OF w s] show ?thesis by (simp add: write_keyed_def)
next
  case (Some k)
  show ?thesis
  proof (cases "first_lane k [High, Normal, Low] s")
    case None
    have r: "flow ov (w_now w) s (make_room s)" by (rule flow_room [OF s(1)])
    then have "all_plain ov (fst (make_room s))" by (simp add: flow_def)
    from flow_enqueue [OF w this s(2)] r show ?thesis
      using Some None flow_trans [of ov "w_now w" s "fst (make_room s)" "snd (make_room s)"
          "fst (snd (enqueue w e (fst (make_room s))))" "snd (snd (enqueue w e (fst (make_room s))))"]
      by (simp add: write_keyed_def split_beta Let_def del: first_lane.simps)
  next
    case (Some pi)
    obtain p i where pi: "pi = (p, i)" by (cases pi)
    let ?s = "upd_lane p (\<lambda>q. q[i := e\<lparr>e_priority := p, e_seq := e_seq (q ! i)\<rparr>]) s"
    have pe: "plain ov (e\<lparr>e_priority := p, e_seq := n\<rparr>)" for n
      using s(2) by (simp add: plain_def)
    have sub: "set (waiting ?s) \<subseteq> insert (e\<lparr>e_priority := p, e_seq := e_seq (lane p s ! i)\<rparr>) (set (waiting s))"
      by (cases p) (auto simp: waiting_def dest!: set_update_subset_insert [THEN subsetD])
    have "all_plain ov ?s"
      unfolding all_plain_def using sub pe s(1) unfolding all_plain_def by blast
    then show ?thesis
      using Some pi \<open>e_key e = Some k\<close>
      by (auto simp: write_keyed_def intro: flow_same simp del: first_lane.simps)
  qed
qed

lemma flow_step:
  assumes w: "paced_world w" and s: "all_plain ov s" and op: "paced_op ov op"
  shows "flow_by (at_once_cost op) ov (w_now w) s (pacer_step w op s)"
proof -
  have zero: "flow_by i ov t s r" if "flow ov t s r" "0 \<le> i" for i t r
    using that by (auto simp: flow_by_def)
  have stay: "flow ov (w_now w) s (s, out)" if "wires out = []" for out
    using s that by (intro flow_same) auto
  show ?thesis
  proof (cases op)
    case (OpWrite item wo)
    have r: "w_ready w" using w by (simp add: paced_world_def)
    show ?thesis
    proof (cases "p_disposed s")
      case True
      then have "pacer_step w op s = (s, call_dropped (wo_onDropped wo))" by (simp add: OpWrite write_item_def)
      then show ?thesis using zero [OF stay at_once_cost_pos [of op]] by simp
    next
      case False
      let ?e = "\<lparr>e_ref = p_next s, e_priority = wo_priority wo, e_seq = p_seq s, e_body = item, e_key = wo_key wo,
               e_live = wo_live wo, e_onSent = (case wo_onSent wo of None \<Rightarrow> [] | Some h \<Rightarrow> [h]),
               e_onDropped = wo_onDropped wo, e_origin = [], e_unpaced = wo_unpaced wo\<rparr>"
      let ?s = "s\<lparr>p_seq := Suc (p_seq s), p_next := Suc (p_next s)\<rparr>"
      have "all_plain ov ?s" "plain ov ?e"
        using s op OpWrite by (auto simp: all_plain_def waiting_def plain_def)
      from flow_write [OF w this] have q: "flow ov (w_now w) s (snd (write_keyed w ?e ?s))"
        by (simp add: flow_def)
      show ?thesis
      proof (cases "\<exists>t. item = Text t \<and> is_immediate t")
        case True
        then obtain t where t: "item = Text t" "is_immediate t" by blast
        have "flow_by (line_cost False t) ov (w_now w) s (snd (sendNow w ?e t True ?s))"
          using w op \<open>all_plain ov ?s\<close> OpWrite line_cost_pos [of t]
          by (auto simp: sendNow_def flow_by_def all_plain_def charge_def costOf_def paced_world_def wire_cost_def Let_def BURST_BUDGET_MS_def)
        with False r OpWrite t show ?thesis by (auto simp: write_item_def Let_def split_beta)
      next
        case no: False
        with False r OpWrite have "pacer_step w op s = snd (write_keyed w ?e ?s)"
          by (auto simp: write_item_def Let_def split: body.splits)
        with zero [OF q at_once_cost_pos] show ?thesis by simp
      qed
    qed
  next
    case (OpUnit ls p a b)
    have r: "w_ready w" using w by (simp add: paced_world_def)
    show ?thesis
    proof (cases "p_disposed s \<or> ls = []")
      case True
      then show ?thesis using stay by (simp add: OpUnit write_unit_def)
    next
      case False
      let ?e = "\<lparr>e_ref = p_next s, e_priority = p, e_seq = 0, e_body = Unit ls, e_key = None, e_live = None,
               e_onSent = (case a of None \<Rightarrow> [] | Some h \<Rightarrow> [h]), e_onDropped = b, e_origin = [], e_unpaced = False\<rparr>"
      have "all_plain ov (s\<lparr>p_next := Suc (p_next s)\<rparr>)" "plain ov ?e"
        using s op OpUnit by (auto simp: all_plain_def waiting_def plain_def within_def)
      from flow_enqueue [OF w this] show ?thesis
        using False r by (simp add: OpUnit write_unit_def Let_def flow_by_def)
    qed
  next
    case (OpCancel r)
    then show ?thesis using flow_remove [OF s] by simp
  next
    case OpTick
    have "all_plain ov (fst (depth_tick s))" "p_since (fst (depth_tick s)) = p_since s" "wires (snd (depth_tick s)) = []"
      using s by (auto simp: depth_tick_def Let_def all_plain_def)
    then show ?thesis by (simp add: OpTick flow_def wire_cost_def short_lines_def)
  next
    case OpHold
    have "all_plain ov (fst (hold_over s))" "p_since (fst (hold_over s)) = p_since s" "wires (snd (hold_over s)) = []"
      using s by (auto simp: hold_over_def Let_def all_plain_def)
    then show ?thesis by (simp add: OpHold flow_def wire_cost_def short_lines_def)
  qed (use op flow_drain [OF w s] in auto)
qed

lemma flow_arith:
  fixes a t :: int
  assumes "max a t + c1 \<le> max b t" "b \<le> max a (t + k) + i" "t \<le> t2" "t2 \<le> t3" "0 \<le> k"
    "max b t2 + c2 \<le> max c t3" "c \<le> max b (t3 + k) + j" "0 \<le> i" "0 \<le> j"
  shows "max a t + (c1 + c2) \<le> max c t3 \<and> c \<le> max a (t3 + k) + (i + j)"
  using assms by (auto simp: max_def split: if_splits)

text \<open>C9: On a paced connection lines leave at the rate the server takes them: between the first and the last operation of a
  run, whatever is written, as lines, thunks or units that go whole, cancelled or replaced, they cost at most the ten-second
  budget and the time that passed, and by how much one line or unit may overshoot the budget at the most, and the PINGs,
  PONGs and QUITs, which do not queue.  The connection is up and paced throughout; items exempt from pacing are left out, and
  the clock is not ahead of the first operation by more than that budget, as a new pacer's is not.\<close>

theorem flow_is_limited:
  assumes "sorted (map (\<lambda>x. w_now (fst x)) ops)" "ops \<noteq> []"
    "\<forall>x \<in> set ops. paced_world (fst x) \<and> paced_op ov (snd x)"
    "all_plain ov s" "p_since s \<le> w_now (fst (hd ops)) + BURST_BUDGET_MS + int ov"
    "\<forall>l \<in> set (wires (snd (pacer_run ops s))). line_cost False l \<le> BURST_BUDGET_MS + int ov"
  shows "wire_cost (snd (pacer_run ops s)) \<le>
    BURST_BUDGET_MS + (w_now (fst (last ops)) - w_now (fst (hd ops))) + int ov + sum_list (map (\<lambda>x. at_once_cost (snd x)) ops)"
proof -
  let ?B = "BURST_BUDGET_MS + int ov"
  have B: "0 \<le> ?B" by (simp add: BURST_BUDGET_MS_def)
  have short: "short_lines ov (snd (pacer_run ops s))" using assms(6) by (simp add: short_lines_def)
  have "max (p_since s) (w_now (fst (hd ops))) + wire_cost (snd (pacer_run ops s)) \<le>
      max (p_since (fst (pacer_run ops s))) (w_now (fst (last ops))) \<and>
    p_since (fst (pacer_run ops s)) \<le> max (p_since s) (w_now (fst (last ops)) + ?B) + sum_list (map (\<lambda>x. at_once_cost (snd x)) ops)"
    using assms(1-4) short
  proof (induction ops arbitrary: s)
    case (Cons x ops)
    obtain w op where x: "x = (w, op)" by (cases x)
    let ?r = "pacer_step w op s"
    have f: "flow_by (at_once_cost op) ov (w_now w) s ?r" using flow_step [of w ov s op] Cons.prems x by auto
    have sh: "short_lines ov (snd ?r)" "short_lines ov (snd (pacer_run ops (fst ?r)))"
      using Cons.prems(5) x by (simp_all add: split_beta Let_def)
    show ?case
    proof (cases ops)
      case Nil
      with f sh x show ?thesis by (simp add: flow_by_def split_beta Let_def add.assoc)
    next
      case (Cons y ys)
      have t: "w_now w \<le> w_now (fst (hd ops))" "w_now (fst (hd ops)) \<le> w_now (fst (last ops))"
        using Cons.prems(1) x Cons last_in_set [of ops] by auto
      have ih: "max (p_since (fst ?r)) (w_now (fst (hd ops))) + wire_cost (snd (pacer_run ops (fst ?r))) \<le>
          max (p_since (fst (pacer_run ops (fst ?r)))) (w_now (fst (last ops))) \<and>
        p_since (fst (pacer_run ops (fst ?r))) \<le>
          max (p_since (fst ?r)) (w_now (fst (last ops)) + ?B) + sum_list (map (\<lambda>x. at_once_cost (snd x)) ops)"
        using f sh(2) Cons.prems(1,3) x Cons by (intro Cons.IH) (auto simp: flow_by_def)
      have j: "0 \<le> sum_list (map (\<lambda>x. at_once_cost (snd x)) ops)"
        by (rule sum_list_nonneg) (auto simp: at_once_cost_pos)
      have "max (p_since s) (w_now w) + wire_cost (snd ?r) \<le> max (p_since (fst ?r)) (w_now w)"
        "p_since (fst ?r) \<le> max (p_since s) (w_now w + ?B) + at_once_cost op"
        using f sh(1) by (simp_all add: flow_by_def add.assoc)
      from flow_arith [OF this t B conjunct1 [OF ih] conjunct2 [OF ih] at_once_cost_pos j] x Cons show ?thesis
        by (simp add: split_beta Let_def del: pacer_step.simps)
    qed
  qed simp
  moreover have "w_now (fst (hd ops)) \<le> w_now (fst (last ops))"
    using assms(1,2) last_in_set [of ops] by (cases ops) auto
  moreover have "0 \<le> sum_list (map (\<lambda>x. at_once_cost (snd x)) ops)"
    by (rule sum_list_nonneg) (auto simp: at_once_cost_pos)
  ultimately show ?thesis
    using assms(5) B by (auto simp: max_def split: if_splits)
qed

definition sample_world :: "int \<Rightarrow> unit world" where
  "sample_world t =
     \<lparr>w_now = t, w_ready = True, w_holding = (\<lambda>_. False), w_accepts = (\<lambda>_. True), w_paced = True,
      w_live = (\<lambda>_. True), w_free = False, w_world = ()\<rparr>"

definition sample_options :: write_options where
  "sample_options =
     \<lparr>wo_priority = Normal, wo_key = None, wo_live = None, wo_onSent = None, wo_onDropped = Some 7, wo_unpaced = False\<rparr>"

definition sample_writes :: "(unit world \<times> unit pacer_op) list" where
  "sample_writes =
     [(sample_world 50000, OpWrite (Text ''hi'') sample_options),
      (sample_world 50001, OpWrite (Build (\<lambda>_. Some [PText ''a'', PText ''b''])) sample_options)]"

lemma pacer_simps:
  "is_immediate ''hi'' = False" "line_cost False ''hi'' = 2000" "line_cost False ''a'' = 2000" "line_cost False ''b'' = 2000"
  by (simp_all add: is_immediate_def skip_tags_def to_upper_def upper_char_def line_cost_def lineCostMs_def
      BASE_COST_MS_def utf8_char_def Let_def)

lemmas pacer_eval = sample_world_def sample_options_def write_item_def write_keyed_def enqueue_def redrain_def drain_def
  drain_loop.simps queue_head_def must_wait_def over_budget_def wanted_def send_entry_def sendNow_def expand_def
  expanded_def entryFor_def chain_def call_sent_def costOf_def charge_def peek_def shift_head_def head_lane_def
  noteDepth_def new_pacer_def Let_def BURST_BUDGET_MS_def BASE_COST_MS_def

lemma sample_writes_run:
  "snd (pacer_run sample_writes (new_pacer None False)) = [Wire ''hi'', Wire ''a'', Wire ''b'']"
  by (simp add: sample_writes_def pacer_eval pacer_simps)

lemma flow_is_limited_witness:
  "wire_cost (snd (pacer_run sample_writes (new_pacer None False))) \<le> 10001"
proof -
  have w: "\<forall>x \<in> set sample_writes. paced_world (fst x) \<and> paced_op 0 (snd x)"
    by (simp add: sample_writes_def sample_world_def sample_options_def paced_world_def within_def)
  have "wire_cost (snd (pacer_run sample_writes (new_pacer None False))) \<le> BURST_BUDGET_MS +
      (w_now (fst (last sample_writes)) - w_now (fst (hd sample_writes))) + int 0 + sum_list (map (\<lambda>x. at_once_cost (snd x)) sample_writes)"
    by (rule flow_is_limited [OF _ _ w]; (unfold sample_writes_run)?)
      (simp_all add: sample_writes_def sample_world_def all_plain_def new_pacer_def waiting_def pacer_simps BURST_BUDGET_MS_def)
  then show ?thesis by (simp add: sample_writes_def sample_world_def BURST_BUDGET_MS_def pacer_simps)
qed

definition keyed_replies :: "(unit world \<times> unit pacer_op) list" where
  "keyed_replies = map (\<lambda>k. ((sample_world 5)\<lparr>w_holding := (\<lambda>_. True)\<rparr>, OpWrite (Text ''hi'') (sample_options\<lparr>wo_key := Some k\<rparr>)))
     [''a'', ''b'', ''a'', ''c'']"

lemma keyed_items_capped_witness:
  "let s = fst (pacer_run keyed_replies (new_pacer (Some 2) False)) in
   map e_key (waiting s) = [Some ''b'', Some ''c''] \<and> keyed_in (waiting s) \<le> 2"
proof -
  have "map e_key (waiting (fst (pacer_run keyed_replies (new_pacer (Some 2) False)))) = [Some ''b'', Some ''c'']"
    by (simp add: keyed_replies_def pacer_eval pacer_simps waiting_def first_lane.simps find_keyed_def make_room.simps
        keyed_def remove_item_def takes_def rootOf_def)
  with keyed_items_capped [of "Some 2" keyed_replies False] show ?thesis
    by (simp add: Let_def)
qed

section \<open>Order\<close>

text \<open>The lines an item stands for, its thunks run in the given world.\<close>

function unroll :: "'w \<Rightarrow> 'w body \<Rightarrow> string list" where
  "unroll w (Text t) = [t]"
| "unroll w (Unit ls) = ls"
| "unroll w (Build f) = (case f w of None \<Rightarrow> [] | Some ps \<Rightarrow> concat (map (\<lambda>p. unroll w (part_body p)) ps))"
  by pat_completeness auto
termination
  by (relation "inv_image made_by snd") (auto simp: wf_inv_image wf_made_by made_by_Build)

definition lines_of :: "'w \<Rightarrow> 'w entry list \<Rightarrow> string list" where
  "lines_of w es = concat (map (\<lambda>e. unroll w (e_body e)) es)"

lemma lines_of_simps [simp]:
  "lines_of w [] = []" "lines_of w (e # es) = unroll w (e_body e) @ lines_of w es"
  "lines_of w (es @ fs) = lines_of w es @ lines_of w fs"
  by (simp_all add: lines_of_def)

lemma lines_of_expanded: "lines_of w (expanded e n items) = concat (map (\<lambda>p. unroll w (part_body p)) items)"
proof -
  have "lines_of w es = concat (map (unroll w) (map e_body es))" for es :: "'a entry list"
    by (simp add: lines_of_def comp_def)
  from this [of "expanded e n items"] show ?thesis unfolding expanded_bodies by (simp add: comp_def)
qed

definition lanes_ok :: "'w pacer \<Rightarrow> bool" where
  "lanes_ok s \<longleftrightarrow> (\<forall>p. \<forall>e \<in> set (lane p s). e_priority e = p)"

lemma lane_upd [simp]: "lane q (upd_lane p f s) = (if q = p then f (lane p s) else lane q s)"
  by (cases p; cases q) simp_all

lemma lane_simps [simp]:
  "lane p (noteDepth s) = lane p s" "lane p (s\<lparr>p_next := n\<rparr>) = lane p s" "lane p (s\<lparr>p_timer := t\<rparr>) = lane p s"
  "lane p (charge c x b s) = lane p s" "lane p (fst (refuse e s)) = lane p s"
  by (cases p; simp)+

lemma lanes_ok_same: "same_queue s s' \<Longrightarrow> lanes_ok s' = lanes_ok s"
proof -
  assume "same_queue s s'"
  then have "lane p s' = lane p s" for p by (cases p) (simp_all add: same_queue_def)
  then show ?thesis by (simp add: lanes_ok_def)
qed

lemma head_in_lane: "queue_head s = Some e \<Longrightarrow> e \<in> set (lane (head_lane s) s)"
  by (auto simp: queue_head_def head_lane_def split: if_splits)

lemma lanes_ok_shift: "lanes_ok s \<Longrightarrow> lanes_ok (shift_head s)"
  by (auto simp: lanes_ok_def shift_head_def dest: list.set_sel(2) [rotated])
    (metis list.sel(2) list.set_sel(2))

lemma lanes_ok_push: "lanes_ok s \<Longrightarrow> \<forall>e \<in> set es. e_priority e = p \<Longrightarrow> lanes_ok (upd_lane p (\<lambda>q. es @ q) s)"
  "lanes_ok s \<Longrightarrow> \<forall>e \<in> set es. e_priority e = p \<Longrightarrow> lanes_ok (upd_lane p (\<lambda>q. q @ es) s)"
  by (auto simp: lanes_ok_def)

lemma lanes_ok_note [simp]: "lanes_ok (noteDepth s) = lanes_ok s" "lanes_ok (s\<lparr>p_next := n\<rparr>) = lanes_ok s"
  "lanes_ok (s\<lparr>p_timer := t\<rparr>) = lanes_ok s"
  by (simp_all add: lanes_ok_def)

text \<open>A thunk's items take its place: at the head of its lane, before everything that waits.\<close>

lemma expand_waiting:
  assumes "lanes_ok s" "queue_head s = Some e"
  shows "waiting (upd_lane (e_priority e) (\<lambda>q. es @ q) (shift_head s)) = es @ waiting (shift_head s)"
proof -
  have "e_priority e = head_lane s"
    using head_in_lane [OF assms(2)] assms(1) by (simp add: lanes_ok_def)
  then show ?thesis
    by (auto simp: head_lane_def shift_head_def waiting_def)
qed

lemma lanes_ok_send:
  assumes "lanes_ok s" "queue_head s = Some e" "send_entry w e (shift_head s) = (b, s', out)"
  shows "lanes_ok s'"
proof -
  note ok = lanes_ok_shift [OF assms(1)]
  show ?thesis
  proof (cases "e_body e")
    case (Text t)
    with assms(3) lanes_ok_same [OF same_queue_small(5) [of "noteDepth (shift_head s)" w e t True]] ok show ?thesis
      by (simp add: send_entry_def)
  next
    case (Unit ls)
    with assms(3) lanes_ok_same [OF same_queue_unit [of "noteDepth (shift_head s)" w e ls]] ok show ?thesis
      by (simp add: send_entry_def)
  next
    case (Build f)
    with assms(3) ok show ?thesis
      by (auto simp: send_entry_def expand_def intro!: lanes_ok_push(1) dest: expanded_fields(4) split: option.splits)
  qed
qed

interpretation lanes: pacer_invariant lanes_ok
proof (unfold_locales, goal_cases)
  case (5 s e)
  from lanes_ok_push(2) [OF 5(1), of "[e]" "e_priority e"] show ?case by simp
next
  case (6 s k p i e)
  then show ?case by (auto simp: lanes_ok_def dest!: set_update_subset_insert [THEN subsetD] simp del: first_lane.simps)
next
  case (7 s r d)
  have "set (lane p (fst (snd (remove_item r d s)))) \<subseteq> set (lane p s)" for p
    by (cases p) (auto simp: remove_item_def Let_def)
  with 7 show ?case unfolding lanes_ok_def by blast
next
  case (8 s)
  have "lane p (fst (drop_all s)) = []" for p by (cases p) (simp_all add: drop_all_def)
  then show ?case by (simp add: lanes_ok_def)
next
  case (9 s)
  have "lane p (fst (dispose_pacer s)) = []" for p by (cases p) (simp_all add: dispose_pacer_def drop_all_def Let_def)
  then show ?case by (simp add: lanes_ok_def)
next
  case (10 s)
  have "lane p (fst (depth_tick s)) = lane p s" for p by (cases p) (simp_all add: depth_tick_def Let_def)
  with 10 show ?case by (simp add: lanes_ok_def)
next
  case (11 s)
  have "lane p (fst (hold_over s)) = lane p s" for p by (cases p) (simp_all add: hold_over_def Let_def)
  with 11 show ?case by (simp add: lanes_ok_def)
qed (auto simp: lanes_ok_same intro: lanes_ok_send lanes_ok_shift)

definition willing :: "'w world \<Rightarrow> bool" where
  "willing w \<longleftrightarrow> (\<forall>l. w_accepts w l) \<and> (\<forall>c. w_live w c)"

lemma willing_wanted: "willing w \<Longrightarrow> wanted w e"
  by (simp add: willing_def wanted_def split: option.split)

lemma push_lines_willing: "willing w \<Longrightarrow> fst (push_lines w ls) \<and> wires (snd (snd (push_lines w ls))) = ls"
  by (induction ls) (simp_all add: willing_def split_beta)

lemma send_entry_lines:
  assumes "willing w" "lanes_ok s" "queue_head s = Some e" "send_entry w e (shift_head s) = (b, s', out)"
  shows "b \<and> wires out @ lines_of (w_world w) (waiting s') = lines_of (w_world w) (waiting s)"
proof -
  note h = waiting_head [OF assms(3)]
  show ?thesis
  proof (cases "e_body e")
    case (Text t)
    with assms(1,4) waiting_sendNow [of w e t True "noteDepth (shift_head s)"] h show ?thesis
      by (auto simp: send_entry_def sendNow_def willing_def)
  next
    case (Unit ls)
    with assms(4) waiting_sendUnit [of w e ls "noteDepth (shift_head s)"] push_lines_willing [OF assms(1), of ls] h
    show ?thesis
      by (auto simp: send_entry_def sendUnit_def split_beta Let_def)
  next
    case (Build f)
    show ?thesis
    proof (cases "f (w_world w)")
      case None
      with Build assms(4) h show ?thesis
        by (auto simp: send_entry_def expand_def tellDropped_def)
    next
      case (Some items)
      let ?es = "expanded e (p_next s) items"
      from Some Build assms(4) have b: b and out: "out = []"
        and s': "s' = noteDepth (upd_lane (e_priority e) (\<lambda>q. ?es @ q) ((shift_head s)\<lparr>p_next := p_next s + length items\<rparr>))"
        by (auto simp: send_entry_def expand_def)
      have "waiting s' = waiting (upd_lane (e_priority e) (\<lambda>q. ?es @ q) (shift_head s))"
        unfolding s' by (cases "e_priority e") (simp_all add: waiting_def)
      then have "waiting s' = ?es @ waiting (shift_head s)"
        using expand_waiting [OF assms(2,3)] by simp
      with b out h Build Some show ?thesis by (simp add: lines_of_expanded)
    qed
  qed
qed

lemma loop_lines:
  "willing w \<Longrightarrow> lanes_ok s \<Longrightarrow>
   wires (snd (drain_loop w s)) @ lines_of (w_world w) (waiting (fst (drain_loop w s))) = lines_of (w_world w) (waiting s)"
proof (induction w s rule: drain_loop.induct)
  case (1 w s)
  show ?case
  proof (cases "queue_head s")
    case None
    then show ?thesis by (simp add: drain_loop.simps [of w s])
  next
    case (Some e)
    obtain b s' out where se: "send_entry w e (shift_head s) = (b, s', out)" using prod_cases3 by blast
    note l = send_entry_lines [OF "1.prems" Some se] and w = willing_wanted [OF "1.prems"(1), of e]
    show ?thesis
    proof (cases "\<not> w_ready w \<or> w_holding w (peek e) \<or> must_wait w e s")
      case True
      with Some show ?thesis by (auto simp: drain_loop.simps [of w s])
    next
      case False
      then have "wires (snd (drain_loop w s')) @ lines_of (w_world w) (waiting (fst (drain_loop w s'))) =
          lines_of (w_world w) (waiting s')"
        by (intro "1.IH"(2) [OF Some _ _ _ se [symmetric] _ refl])
          (use w l "1.prems" lanes_ok_send [OF _ Some se] in auto)
      with l Some False w se show ?thesis
        by (simp add: drain_loop.simps [of w s] split_beta)
    qed
  qed
qed

text \<open>A socket that refuses a line, and an item nobody wants any more, lose lines, and nothing else does.\<close>

lemma push_lines_subseq: "subseq (wires (snd (snd (push_lines w ls)))) ls"
  by (induction ls) (simp_all add: split_beta)

lemma send_entry_subseq:
  assumes "lanes_ok s" "queue_head s = Some e" "send_entry w e (shift_head s) = (b, s', out)"
  shows "subseq (wires out @ lines_of (w_world w) (waiting s')) (lines_of (w_world w) (waiting s))"
proof -
  note h = waiting_head [OF assms(2)]
  show ?thesis
  proof (cases "e_body e")
    case (Text t)
    with assms(3) waiting_sendNow [of w e t True "noteDepth (shift_head s)"] h show ?thesis
      by (auto simp: send_entry_def sendNow_def split: if_splits) (metis wires_hooks(4) append_Nil snd_conv subseq_Cons' subseq_order.refl)
  next
    case (Unit ls)
    have "wires out = wires (snd (snd (push_lines w ls)))" "waiting s' = waiting (shift_head s)"
      using assms(3) Unit waiting_sendUnit [of w e ls "noteDepth (shift_head s)"]
      by (auto simp: send_entry_def sendUnit_def split_beta Let_def split: if_splits)
    with h Unit push_lines_subseq show ?thesis by (simp add: list_emb_append_mono)
  next
    case (Build f)
    show ?thesis
    proof (cases "f (w_world w)")
      case None
      with Build assms(3) h show ?thesis
        by (auto simp: send_entry_def expand_def tellDropped_def)
    next
      case (Some items)
      let ?es = "expanded e (p_next s) items"
      from Some Build assms(3) have out: "out = []"
        and s': "s' = noteDepth (upd_lane (e_priority e) (\<lambda>q. ?es @ q) ((shift_head s)\<lparr>p_next := p_next s + length items\<rparr>))"
        by (auto simp: send_entry_def expand_def)
      have "waiting s' = waiting (upd_lane (e_priority e) (\<lambda>q. ?es @ q) (shift_head s))"
        unfolding s' by (cases "e_priority e") (simp_all add: waiting_def)
      then have "waiting s' = ?es @ waiting (shift_head s)"
        using expand_waiting [OF assms(1,2)] by simp
      with out h Build Some show ?thesis by (simp add: lines_of_expanded)
    qed
  qed
qed

lemma loop_subseq:
  "lanes_ok s \<Longrightarrow>
   subseq (wires (snd (drain_loop w s)) @ lines_of (w_world w) (waiting (fst (drain_loop w s)))) (lines_of (w_world w) (waiting s))"
proof (induction w s rule: drain_loop.induct)
  case (1 w s)
  show ?case
  proof (cases "queue_head s")
    case None
    then show ?thesis by (simp add: drain_loop.simps [of w s])
  next
    case (Some e)
    obtain b s' out where se: "send_entry w e (shift_head s) = (b, s', out)" using prod_cases3 by blast
    note l = send_entry_subseq [OF "1.prems" Some se]
    show ?thesis
    proof (cases "\<not> w_ready w \<or> w_holding w (peek e) \<or> must_wait w e s")
      case True
      with Some show ?thesis by (auto simp: drain_loop.simps [of w s])
    next
      case go: False
      show ?thesis
      proof (cases "wanted w e")
        case False
        have "lanes_ok (noteDepth (shift_head s))" using lanes_ok_shift [OF "1.prems"] by simp
        then have "subseq (wires (snd (drain_loop w (noteDepth (shift_head s)))) @
            lines_of (w_world w) (waiting (fst (drain_loop w (noteDepth (shift_head s)))))) (lines_of (w_world w) (waiting (shift_head s)))"
          using "1.IH"(1) [OF Some] go False by simp
        with Some go False waiting_head [OF Some] show ?thesis
          by (simp add: drain_loop.simps [of w s] list_emb_append2)
      next
        case True
        then have "subseq (wires (snd (drain_loop w s')) @ lines_of (w_world w) (waiting (fst (drain_loop w s'))))
            (lines_of (w_world w) (waiting s'))" if b
          using that go by (intro "1.IH"(2) [OF Some _ _ _ se [symmetric] _ refl]) (use lanes_ok_send [OF "1.prems" Some se] in auto)
        then have "subseq (wires out @ (wires (snd (drain_loop w s')) @ lines_of (w_world w) (waiting (fst (drain_loop w s')))))
            (wires out @ lines_of (w_world w) (waiting s'))" if b
          using that by (intro list_emb_append_mono subseq_order.refl)
        from subseq_order.trans [OF this l] l Some go True se show ?thesis
          by (cases b) (simp_all add: drain_loop.simps [of w s] split_beta)
      qed
    qed
  qed
qed

text \<open>C10: A drain repeats nothing and reorders nothing: what goes out, followed by what still waits, is what waited, lane after
  lane (\<open>high\<close>, \<open>normal\<close>, \<open>low\<close>), an item's thunk making its lines in its own place; all of it when the socket takes every
  line and every item is still wanted, and else with lines missing, those of what was refused or no longer wanted.\<close>

theorem drain_keeps_order:
  assumes "s = fst (pacer_run ops (new_pacer maxKeyed onDepth))"
  shows "subseq (wires (snd (redrain w s)) @ lines_of (w_world w) (waiting (fst (redrain w s)))) (lines_of (w_world w) (waiting s)) \<and>
    (willing w \<longrightarrow>
      wires (snd (redrain w s)) @ lines_of (w_world w) (waiting (fst (redrain w s))) = lines_of (w_world w) (waiting s))"
proof -
  have "lanes_ok (new_pacer maxKeyed onDepth)"
    by (simp add: lanes_ok_def new_pacer_def) (metis (full_types) lane.simps send_priority.exhaust pacer.select_convs(1-3) empty_iff empty_set)
  from lanes.run [OF this] assms have "lanes_ok s" by simp
  then have "lanes_ok (s\<lparr>p_timer := None\<rparr>)" by simp
  from loop_subseq [OF this, of w] loop_lines [OF _ this, of w] show ?thesis
    by (simp add: redrain_def drain_def)
qed

definition sample_backlog :: "(unit world \<times> unit pacer_op) list" where
  "sample_backlog = sample_writes @
     [(sample_world 50001, OpWrite (Build (\<lambda>_. Some [PText ''a'', PThunk (\<lambda>_. Some [PText ''hi''])])) sample_options),
      (sample_world 50002, OpWrite (Build (\<lambda>_. Some [PText ''a'', PThunk (\<lambda>_. Some [PText ''b''])])) sample_options)]"

lemma sample_backlog_run:
  "lines_of () (waiting (fst (pacer_run sample_backlog (new_pacer None False)))) = [''a'', ''b'']"
  by (simp add: sample_backlog_def sample_writes_def pacer_eval pacer_simps waiting_def)

lemma drain_keeps_order_witness:
  "let s = fst (pacer_run sample_backlog (new_pacer None False)) in
   wires (snd (redrain (sample_world 51000) s)) @ lines_of () (waiting (fst (redrain (sample_world 51000) s))) = [''a'', ''b'']"
proof -
  have "willing (sample_world 51000)" by (simp add: willing_def sample_world_def)
  with drain_keeps_order [OF refl, of "sample_world 51000" sample_backlog None False] sample_backlog_run show ?thesis
    by (simp add: Let_def)
qed

section \<open>A drain ends, and stops for a reason\<close>

text \<open>A drain of an unpaced, ready connection ends with nothing waiting, however deep thunks make
  further thunks.\<close>

theorem unpaced_drain_empties:
  assumes "\<not> w_paced w" "w_ready w" "\<forall>t. \<not> w_holding w t" "\<forall>l. w_accepts w l"
  shows "waiting (fst (redrain w s)) = []"
proof -
  have "waiting (fst (drain_loop w s)) = []" for s
    using assms
  proof (induction w s rule: drain_loop.induct)
    case (1 w s)
    show ?case
    proof (cases "queue_head s")
      case None
      then show ?thesis using queue_head_None [of s] by (simp add: drain_loop.simps [of w s])
    next
      case (Some e)
      obtain b s' out where se: "send_entry w e (shift_head s) = (b, s', out)" using prod_cases3 by blast
      have p: "fst (push_lines w ls)" for ls
        using "1.prems"(4) by (induction ls) (simp_all add: split_beta)
      have b using se "1.prems"(4) p
        by (auto simp: send_entry_def sendNow_def sendUnit_def split_beta Let_def split: body.splits)
      have nw: "\<not> must_wait w e s" using "1.prems"(1) by (simp add: must_wait_def)
      have "waiting (fst (drain_loop w (noteDepth (shift_head s)))) = []" if "\<not> wanted w e"
        by (rule "1.IH"(1) [OF Some]) (use that nw "1.prems" in auto)
      moreover have "waiting (fst (drain_loop w s')) = []" if "wanted w e"
        by (rule "1.IH"(2) [OF Some _ _ _ se [symmetric] _ refl]) (use that nw \<open>b\<close> "1.prems" in auto)
      ultimately show ?thesis
        using Some se \<open>b\<close> nw "1.prems" by (simp add: drain_loop.simps [of w s] split_beta)
    qed
  qed
  then show ?thesis by (simp add: redrain_def drain_def)
qed

lemma unpaced_drain_empties_witness:
  "waiting (fst (redrain (sample_world 5\<lparr>w_paced := False\<rparr>) (fst (pacer_run sample_writes (new_pacer None False))))) = []"
  by (rule unpaced_drain_empties) (simp_all add: sample_world_def)

text \<open>C11: A drain that leaves items waiting on a connection that takes lines has scheduled itself: the timer
  is set, and when it is over the head fits.\<close>

theorem waiting_items_are_scheduled:
  assumes "w_ready w" "\<forall>t. \<not> w_holding w t" "\<forall>l. w_accepts w l" "waiting (fst (redrain w s)) \<noteq> []"
  shows "\<exists>e d. queue_head (fst (redrain w s)) = Some e \<and> p_timer (fst (redrain w s)) = Some d \<and> 0 < d \<and>
    (\<forall>w'. w_free w' = w_free w \<and> w_now w + d \<le> w_now w' \<longrightarrow> \<not> must_wait w' e (fst (redrain w s)))"
proof -
  let ?R = "\<lambda>w s. \<exists>e d. queue_head s = Some e \<and> p_timer s = Some d \<and> 0 < d \<and>
    (\<forall>w'. w_free w' = w_free w \<and> w_now w + d \<le> w_now w' \<longrightarrow> \<not> must_wait w' e s)"
  have "waiting (fst (drain_loop w s)) = [] \<or> ?R w (fst (drain_loop w s))" for s
    using assms(1-3)
  proof (induction w s rule: drain_loop.induct)
    case (1 w s)
    show ?case
    proof (cases "queue_head s")
      case None
      then show ?thesis using queue_head_None [of s] by (simp add: drain_loop.simps [of w s])
    next
      case (Some e)
      obtain b s' out where se: "send_entry w e (shift_head s) = (b, s', out)" using prod_cases3 by blast
      have p: "fst (push_lines w ls)" for ls
        using "1.prems"(3) by (induction ls) (simp_all add: split_beta)
      have b using se "1.prems"(3) p
        by (auto simp: send_entry_def sendNow_def sendUnit_def split_beta Let_def split: body.splits)
      show ?thesis
      proof (cases "must_wait w e s")
        case True
        let ?s = "s\<lparr>p_timer := Some (over_budget w e s)\<rparr>"
        have "queue_head ?s = queue_head s" by (simp add: queue_head_def)
        with Some have "queue_head ?s = Some e" by simp
        moreover have "\<not> must_wait w' e ?s" if "w_free w' = w_free w" "w_now w + over_budget w e s \<le> w_now w'" for w' :: "'a world"
          using that by (simp add: must_wait_def over_budget_def split: body.splits)
        moreover have "0 < over_budget w e s" using True by (simp add: must_wait_def)
        ultimately have "?R w ?s" by auto
        with Some True "1.prems" show ?thesis by (simp add: drain_loop.simps [of w s])
      next
        case nw: False
        have "waiting (fst (drain_loop w (noteDepth (shift_head s)))) = [] \<or> ?R w (fst (drain_loop w (noteDepth (shift_head s))))"
          if "\<not> wanted w e"
          by (rule "1.IH"(1) [OF Some]) (use that nw "1.prems" in auto)
        moreover have "waiting (fst (drain_loop w s')) = [] \<or> ?R w (fst (drain_loop w s'))" if "wanted w e"
          by (rule "1.IH"(2) [OF Some _ _ _ se [symmetric] _ refl]) (use that nw \<open>b\<close> "1.prems" in auto)
        ultimately show ?thesis
          using Some se \<open>b\<close> nw "1.prems" by (simp add: drain_loop.simps [of w s] split_beta)
      qed
    qed
  qed
  from this [of "s\<lparr>p_timer := None\<rparr>"] assms(4) show ?thesis by (simp add: redrain_def drain_def)
qed

lemma waiting_items_are_scheduled_witness:
  "let s = fst (pacer_run sample_backlog (new_pacer None False)) in
   \<exists>d. p_timer (fst (redrain (sample_world 50003) s)) = Some d \<and> 0 < d"
proof -
  have "waiting (fst (redrain (sample_world 50003) (fst (pacer_run sample_backlog (new_pacer None False))))) \<noteq> []"
    by (simp add: sample_backlog_def sample_writes_def pacer_eval pacer_simps waiting_def)
  from waiting_items_are_scheduled [OF _ _ _ this] show ?thesis
    by (auto simp: sample_world_def Let_def)
qed

section \<open>Telling what was dropped\<close>

lemma tell_chain_spec:
  assumes "\<forall>(r, h) \<in> set cs. h = hook r"
  shows "\<exists>rs. distinct rs \<and> set rs = fst ` set cs - set told \<and> set (fst (tell_chain cs told)) = set told \<union> fst ` set cs \<and>
    snd (tell_chain cs told) = concat (map (\<lambda>r. call_dropped (hook r)) rs)"
  using assms
proof (induction cs told rule: tell_chain.induct)
  case (1 told)
  then show ?case by (intro exI [of _ "[]"]) simp
next
  case (2 r h cs told)
  show ?case
  proof (cases "r \<in> set told")
    case True
    with 2 show ?thesis by (auto simp: insert_absorb)
  next
    case False
    with 2 obtain rs where rs: "distinct rs" "set rs = fst ` set cs - set (r # told)"
      "set (fst (tell_chain cs (r # told))) = set (r # told) \<union> fst ` set cs"
      "snd (tell_chain cs (r # told)) = concat (map (\<lambda>r. call_dropped (hook r)) rs)"
      by fastforce
    then show ?thesis
      using False 2(3) by (intro exI [of _ "r # rs"]) (auto simp: split_beta)
  qed
qed

lemma tell_all_spec:
  assumes "\<forall>e \<in> set es. \<forall>(r, h) \<in> set (chain e). h = hook r"
  shows "\<exists>rs. distinct rs \<and> set rs = (\<Union>e \<in> set es. fst ` set (chain e)) - set told \<and>
    snd (tell_all es told) = concat (map (\<lambda>r. call_dropped (hook r)) rs)"
  using assms
proof (induction es arbitrary: told)
  case Nil
  then show ?case by (intro exI [of _ "[]"]) simp
next
  case (Cons e es)
  let ?t = "fst (tell_chain (chain e) told)"
  obtain rs where rs: "distinct rs" "set rs = fst ` set (chain e) - set told" "set ?t = set told \<union> fst ` set (chain e)"
    "snd (tell_chain (chain e) told) = concat (map (\<lambda>r. call_dropped (hook r)) rs)"
    using tell_chain_spec [of "chain e" hook told] Cons.prems by auto
  obtain qs where qs: "distinct qs" "set qs = (\<Union>e \<in> set es. fst ` set (chain e)) - set ?t"
    "snd (tell_all es ?t) = concat (map (\<lambda>r. call_dropped (hook r)) qs)"
    using Cons.IH [of ?t] Cons.prems by auto
  have "distinct (rs @ qs)" "set (rs @ qs) = (\<Union>e \<in> set (e # es). fst ` set (chain e)) - set told"
    using rs qs by auto
  then show ?case
    using rs(4) qs(3) by (intro exI [of _ "rs @ qs"]) (simp add: tellDropped_def split_beta)
qed

text \<open>When the socket goes, the hook of every item that waits, and of every item those came from, is
  called exactly once, except those a refusal has told already.\<close>

theorem drop_tells_each_once:
  assumes "\<forall>e \<in> set (waiting s). \<forall>(r, h) \<in> set (chain e). h = hook r"
  shows "\<exists>rs. distinct rs \<and> set rs = (\<Union>e \<in> set (waiting s). fst ` set (chain e)) - set (p_toldAtRefusal s) \<and>
    snd (drop_all s) = concat (map (\<lambda>r. call_dropped (hook r)) rs) \<and> waiting (fst (drop_all s)) = []"
  using tell_all_spec [OF assms, of "p_toldAtRefusal s"] by (simp add: drop_all_def) (simp add: waiting_def)

definition sample_expanded :: "unit entry" where
  "sample_expanded =
     \<lparr>e_ref = 5, e_priority = Normal, e_seq = 0, e_body = Text ''a'', e_key = None, e_live = None, e_onSent = [],
      e_onDropped = None, e_origin = [(3, Some 7)], e_unpaced = False\<rparr>"

lemma drop_tells_each_once_witness:
  "let s = (new_pacer None False)\<lparr>p_normal := [sample_expanded, sample_expanded\<lparr>e_ref := 8, e_body := Text ''b''\<rparr>]\<rparr>;
       hook = (\<lambda>r :: nat. if r = 3 then Some 7 else None)
   in \<exists>rs. distinct rs \<and> set rs = {3, 5, 8} \<and> snd (drop_all s) = concat (map (\<lambda>r. call_dropped (hook r)) rs) \<and>
      waiting (fst (drop_all s)) = []"
proof -
  let ?s = "(new_pacer None False)\<lparr>p_normal := [sample_expanded, sample_expanded\<lparr>e_ref := 8, e_body := Text ''b''\<rparr>]\<rparr>"
  let ?hook = "\<lambda>r. if r = 3 then Some 7 else (None :: nat option)"
  have "\<forall>e \<in> set (waiting ?s). \<forall>(r, h) \<in> set (chain e). h = ?hook r"
    by (simp add: waiting_def new_pacer_def chain_def sample_expanded_def)
  moreover have refs: "(\<Union>e \<in> set (waiting ?s). fst ` set (chain e)) - set (p_toldAtRefusal ?s) = {3, 5, 8}"
    by (auto simp: waiting_def new_pacer_def chain_def sample_expanded_def)
  ultimately show ?thesis
    using drop_tells_each_once [of ?s ?hook] unfolding Let_def refs by blast
qed

end
