(* ===== verification/Connect_Scheduler.thy ===== *)
theory Connect_Scheduler imports Complex_Main "HOL-Library.AList" "HOL-Library.Multiset" Lurker_Base begin

text \<open>
  \<open>server/services/connectScheduler.ts\<close>: the throttle over the outbound connects of all users.  A task is
  its host key and the number of its closure; the timer is the delay it was last armed with.  The
  clock and the random source are arguments; the log line is left out.
\<close>

section \<open>State\<close>

record connect_task =
  ct_hostKey :: string
  ct_run :: nat

record throttle =
  th_perHostMs :: int
  th_jitterMs :: int
  th_globalMs :: int
  th_disabled :: bool
  th_queue :: "connect_task list"
  th_hostNextAt :: "(string \<times> int) list"
  th_globalNextAt :: int
  th_timer :: "int option"

definition new_throttle :: "int \<Rightarrow> int \<Rightarrow> int \<Rightarrow> bool \<Rightarrow> throttle" where
  "new_throttle perHostMs jitterMs globalMs disabled =
     \<lparr>th_perHostMs = perHostMs, th_jitterMs = jitterMs, th_globalMs = globalMs, th_disabled = disabled,
      th_queue = [], th_hostNextAt = [], th_globalNextAt = 0, th_timer = None\<rparr>"

section \<open>Operations\<close>

definition ready_at :: "throttle \<Rightarrow> connect_task \<Rightarrow> int" where
  "ready_at s t = max (th_globalNextAt s) (case map_of (th_hostNextAt s) (ct_hostKey t) of None \<Rightarrow> 0 | Some n \<Rightarrow> n)"

text \<open>The scan of \<open>schedulePump\<close>; \<open>None\<close> is \<open>Infinity\<close>.\<close>

fun soonest_ready :: "throttle \<Rightarrow> int \<Rightarrow> connect_task list \<Rightarrow> int option \<Rightarrow> int option" where
  "soonest_ready s now [] best = best"
| "soonest_ready s now (t # ts) best =
     (let due = ready_at s t;
          best' = (case best of None \<Rightarrow> due | Some b \<Rightarrow> if due < b then due else b)
      in if best' \<le> now then Some best' else soonest_ready s now ts (Some best'))"

definition schedulePump :: "int \<Rightarrow> throttle \<Rightarrow> throttle" where
  "schedulePump now s =
     (case soonest_ready s now (th_queue s) None of
        None \<Rightarrow> s\<lparr>th_timer := None\<rparr>
      | Some soonest \<Rightarrow> s\<lparr>th_timer := Some (max 0 (soonest - now))\<rparr>)"

definition launch :: "int \<Rightarrow> rat \<Rightarrow> connect_task \<Rightarrow> throttle \<Rightarrow> throttle" where
  "launch now random t s =
     (let jitter = (if 0 < th_jitterMs s then \<lfloor>random * of_int (th_jitterMs s)\<rfloor> else 0)
      in s\<lparr>th_hostNextAt := AList.update (ct_hostKey t) (now + th_perHostMs s + jitter) (th_hostNextAt s),
           th_globalNextAt := now + th_globalMs s\<rparr>)"

text \<open>The FIFO-earliest ready task, and the queue without it.\<close>

fun pick_ready :: "throttle \<Rightarrow> int \<Rightarrow> connect_task list \<Rightarrow> (connect_task \<times> connect_task list) option" where
  "pick_ready s now [] = None"
| "pick_ready s now (t # ts) =
     (if ready_at s t \<le> now then Some (t, ts)
      else case pick_ready s now ts of None \<Rightarrow> None | Some (u, us) \<Rightarrow> Some (u, t # us))"

definition pump :: "int \<Rightarrow> rat \<Rightarrow> throttle \<Rightarrow> throttle \<times> connect_task list" where
  "pump now random s =
     (let s1 = s\<lparr>th_timer := None\<rparr> in
      if th_queue s1 = [] then (s1, [])
      else case pick_ready s1 now (th_queue s1) of
             None \<Rightarrow> (schedulePump now s1, [])
           | Some (t, rest) \<Rightarrow> (schedulePump now (launch now random t (s1\<lparr>th_queue := rest\<rparr>)), [t]))"

definition schedule_connect :: "int \<Rightarrow> string \<Rightarrow> nat \<Rightarrow> throttle \<Rightarrow> throttle \<times> connect_task list" where
  "schedule_connect now host run s =
     (let t = \<lparr>ct_hostKey = to_lower (js_trim host), ct_run = run\<rparr> in
      if th_disabled s then (s, [t])
      else (schedulePump now (s\<lparr>th_queue := th_queue s @ [t]\<rparr>), []))"

definition pendingCount :: "throttle \<Rightarrow> nat" where
  "pendingCount s = length (th_queue s)"

definition reset_throttle :: "throttle \<Rightarrow> throttle" where
  "reset_throttle s = s\<lparr>th_queue := [], th_hostNextAt := [], th_globalNextAt := 0, th_timer := None\<rparr>"

text \<open>A run of the process: connects asked for, and the pump timer.\<close>

datatype throttle_op = AskConnect string nat | PumpTimer rat

fun throttle_step :: "int \<Rightarrow> throttle_op \<Rightarrow> throttle \<Rightarrow> throttle \<times> connect_task list" where
  "throttle_step now (AskConnect host run) s = schedule_connect now host run s"
| "throttle_step now (PumpTimer random) s = pump now random s"

fun throttle_run :: "(int \<times> throttle_op) list \<Rightarrow> throttle \<Rightarrow> throttle \<times> (int \<times> connect_task) list" where
  "throttle_run [] s = (s, [])"
| "throttle_run ((now, op) # ops) s =
     (let (s1, ts) = throttle_step now op s; (s2, lg) = throttle_run ops s1
      in (s2, map (Pair now) ts @ lg))"

section \<open>The gates\<close>

lemma pick_ready_Some:
  "pick_ready s now q = Some (t, rest) \<Longrightarrow> ready_at s t \<le> now \<and> mset q = add_mset t (mset rest)"
  by (induction q arbitrary: t rest) (auto split: if_splits option.splits)

lemma schedulePump_simps [simp]:
  "th_queue (schedulePump now s) = th_queue s" "th_hostNextAt (schedulePump now s) = th_hostNextAt s"
  "th_globalNextAt (schedulePump now s) = th_globalNextAt s" "th_perHostMs (schedulePump now s) = th_perHostMs s"
  "th_jitterMs (schedulePump now s) = th_jitterMs s" "th_globalMs (schedulePump now s) = th_globalMs s"
  "th_disabled (schedulePump now s) = th_disabled s"
  by (simp_all add: schedulePump_def split: option.split)

text \<open>Every launch so far has pushed both gates past its spacing.\<close>

definition gates_after :: "throttle \<Rightarrow> (int \<times> connect_task) list \<Rightarrow> bool" where
  "gates_after s lg \<longleftrightarrow> (\<forall>(a, t) \<in> set lg. a + th_globalMs s \<le> th_globalNextAt s \<and>
     (\<exists>n. map_of (th_hostNextAt s) (ct_hostKey t) = Some n \<and> a + th_perHostMs s \<le> n))"

definition spaced :: "int \<Rightarrow> int \<Rightarrow> (int \<times> connect_task) list \<Rightarrow> bool" where
  "spaced perHostMs globalMs lg \<longleftrightarrow> sorted_wrt (\<lambda>(a, t) (b, u).
     a + globalMs \<le> b \<and> (ct_hostKey t = ct_hostKey u \<longrightarrow> a + perHostMs \<le> b)) lg"

definition random_ok :: "throttle_op \<Rightarrow> bool" where
  "random_ok op = (case op of PumpTimer r \<Rightarrow> 0 \<le> r \<and> r < 1 | _ \<Rightarrow> True)"

definition throttle_config :: "throttle \<Rightarrow> int \<times> int \<times> int \<times> bool" where
  "throttle_config s = (th_perHostMs s, th_jitterMs s, th_globalMs s, th_disabled s)"

lemma config_step: "throttle_config (fst (throttle_step now op s)) = throttle_config s"
  by (cases op) (auto simp: schedule_connect_def pump_def launch_def throttle_config_def Let_def split: option.split)

lemma step_gates:
  assumes g: "gates_after s lg" "spaced (th_perHostMs s) (th_globalMs s) lg"
    and c: "\<not> th_disabled s" "0 \<le> th_perHostMs s" "0 \<le> th_globalMs s" "random_ok op"
  shows "gates_after (fst (throttle_step now op s)) (lg @ map (Pair now) (snd (throttle_step now op s))) \<and>
    spaced (th_perHostMs s) (th_globalMs s) (lg @ map (Pair now) (snd (throttle_step now op s)))"
proof (cases op)
  case (AskConnect host run)
  with g c show ?thesis by (simp add: schedule_connect_def gates_after_def Let_def)
next
  case (PumpTimer r)
  let ?s1 = "s\<lparr>th_timer := None\<rparr>"
  show ?thesis
  proof (cases "th_queue s = [] \<or> pick_ready ?s1 now (th_queue s) = None")
    case True
    with PumpTimer g show ?thesis by (auto simp: pump_def gates_after_def Let_def)
  next
    case False
    then obtain t rest where p: "pick_ready ?s1 now (th_queue s) = Some (t, rest)" by auto
    have r: "th_globalNextAt s \<le> now" "\<And>n. map_of (th_hostNextAt s) (ct_hostKey t) = Some n \<Longrightarrow> n \<le> now"
      using pick_ready_Some [OF p] by (auto simp: ready_at_def)
    let ?s2 = "fst (throttle_step now op s)"
    define jitter where "jitter = (if 0 < th_jitterMs s then \<lfloor>r * of_int (th_jitterMs s)\<rfloor> else 0)"
    have j: "0 \<le> jitter"
      using c(4) PumpTimer by (simp add: random_ok_def jitter_def)
    have s2: "th_globalNextAt ?s2 = now + th_globalMs s"
      "th_hostNextAt ?s2 = AList.update (ct_hostKey t) (now + th_perHostMs s + jitter) (th_hostNextAt s)"
      "th_perHostMs ?s2 = th_perHostMs s" "th_globalMs ?s2 = th_globalMs s" "snd (throttle_step now op s) = [t]"
      using False p PumpTimer by (auto simp: pump_def launch_def Let_def jitter_def)
    have old: "a + th_globalMs s \<le> now \<and> a \<le> now \<and> (ct_hostKey u = ct_hostKey t \<longrightarrow> a + th_perHostMs s \<le> now)" if "(a, u) \<in> set lg" for a u
    proof -
      obtain n where n: "a + th_globalMs s \<le> th_globalNextAt s" "map_of (th_hostNextAt s) (ct_hostKey u) = Some n" "a + th_perHostMs s \<le> n"
        using g(1) \<open>(a, u) \<in> set lg\<close> unfolding gates_after_def by fastforce
      have "n \<le> now" if "ct_hostKey u = ct_hostKey t" using r(2) n(2) that by simp
      with n r(1) c(3) show ?thesis by auto
    qed
    have "gates_after ?s2 (lg @ [(now, t)])"
      unfolding gates_after_def s2
    proof (intro ballI, clarsimp simp: update_conv', intro conjI impI)
      fix a u
      assume "a = now \<and> u = t \<or> (a, u) \<in> set lg"
      with old j c(2) show "a \<le> now" "ct_hostKey u = ct_hostKey t \<Longrightarrow> a \<le> now + jitter" by fastforce+
      show "\<exists>n. map_of (th_hostNextAt s) (ct_hostKey u) = Some n \<and> a + th_perHostMs s \<le> n" if "ct_hostKey u \<noteq> ct_hostKey t"
        using that g(1) \<open>a = now \<and> u = t \<or> (a, u) \<in> set lg\<close> unfolding gates_after_def by fastforce
    qed (use old in auto)
    moreover have "spaced (th_perHostMs s) (th_globalMs s) (lg @ [(now, t)])"
      using g(2) old by (auto simp: spaced_def sorted_wrt_append)
    ultimately show ?thesis by (simp add: s2(5))
  qed
qed

text \<open>C12: The throttle spaces launches: in any run two launches are at least the global floor apart, two to
  the same host at least the per-host wait, jitter and clock behaviour notwithstanding.\<close>

theorem launches_are_spaced:
  assumes "0 \<le> perHostMs" "0 \<le> globalMs" "\<forall>x \<in> set ops. random_ok (snd x)"
  shows "spaced perHostMs globalMs (snd (throttle_run ops (new_throttle perHostMs jitterMs globalMs False)))"
proof -
  have "spaced perHostMs globalMs (lg @ snd (throttle_run ops s))"
    if "gates_after s lg" "spaced perHostMs globalMs lg" "throttle_config s = (perHostMs, jitterMs, globalMs, False)" for s lg
    using that assms
  proof (induction ops arbitrary: s lg)
    case (Cons x ops)
    obtain now op where x: "x = (now, op)" by (cases x)
    let ?r = "throttle_step now op s"
    have c: "th_perHostMs s = perHostMs" "th_globalMs s = globalMs" "\<not> th_disabled s"
      using Cons.prems(3) by (simp_all add: throttle_config_def)
    have "gates_after (fst ?r) (lg @ map (Pair now) (snd ?r)) \<and> spaced perHostMs globalMs (lg @ map (Pair now) (snd ?r))"
      using step_gates [of s lg op now] Cons.prems c x by simp
    with Cons.IH [of "fst ?r" "lg @ map (Pair now) (snd ?r)"] Cons.prems config_step [of now op s] x show ?case
      by (simp add: split_beta Let_def)
  qed simp
  from this [of "new_throttle perHostMs jitterMs globalMs False" "[]"] show ?thesis
    by (simp add: gates_after_def spaced_def throttle_config_def new_throttle_def)
qed

definition sample_connects :: "(int \<times> throttle_op) list" where
  "sample_connects =
     [(1000, AskConnect ''irc.a'' 1), (1000, AskConnect '' IRC.a'' 2), (1000, AskConnect ''irc.b'' 3),
      (1000, PumpTimer 0), (1150, PumpTimer (1/2)), (3000, PumpTimer 0)]"

lemma launches_are_spaced_witness:
  "let lg = snd (throttle_run sample_connects (new_throttle 2000 0 150 False)) in
   map fst lg = [1000, 1150, 3000] \<and> spaced 2000 150 lg"
proof -
  have "map fst (snd (throttle_run sample_connects (new_throttle 2000 0 150 False))) = [1000, 1150, 3000]"
    by (simp add: sample_connects_def new_throttle_def schedule_connect_def schedulePump_def pump_def launch_def
        ready_at_def to_lower_def lower_char_def js_trim_def is_space_def Let_def)
  moreover have "spaced 2000 150 (snd (throttle_run sample_connects (new_throttle 2000 0 150 False)))"
    by (rule launches_are_spaced) (simp_all add: sample_connects_def random_ok_def)
  ultimately show ?thesis by (simp add: Let_def)
qed

section \<open>Nobody is stranded\<close>

lemma soonest_Some:
  "soonest_ready s now q best = Some m \<Longrightarrow> best = Some m \<or> (\<exists>t \<in> set q. ready_at s t = m)"
proof (induction q arbitrary: best)
  case (Cons t ts)
  let ?b = "case best of None \<Rightarrow> ready_at s t | Some b \<Rightarrow> if ready_at s t < b then ready_at s t else b"
  have "best = Some ?b \<or> ready_at s t = ?b" by (auto split: option.split)
  moreover have "m = ?b \<or> Some ?b = Some m \<or> (\<exists>t \<in> set ts. ready_at s t = m)"
    using Cons.prems Cons.IH [of "Some ?b"] by (auto simp: Let_def split: if_splits)
  ultimately show ?case by auto
qed simp

lemma soonest_None: "soonest_ready s now q best = None \<longleftrightarrow> q = [] \<and> best = None"
  by (induction q arbitrary: best) (auto simp: Let_def split: option.split)

lemma pick_ready_None: "pick_ready s now q = None \<longleftrightarrow> (\<forall>t \<in> set q. now < ready_at s t)"
  by (induction q) (auto split: option.split)

lemma ready_at_timer [simp]: "ready_at (s\<lparr>th_timer := x\<rparr>) t = ready_at s t"
  by (simp add: ready_at_def)

text \<open>While connects wait the timer is armed, and when it goes off one of them is launched.\<close>

theorem waiting_connects_launch:
  assumes "\<not> th_disabled s"
  shows "let s' = fst (throttle_step now op s) in
    (th_queue s' = [] \<longleftrightarrow> th_timer s' = None) \<and>
    (\<forall>d later r. th_timer s' = Some d \<and> now + d \<le> later \<longrightarrow> snd (pump later r s') \<noteq> [])"
proof -
  have "let s' = schedulePump now s0 in (th_queue s' = [] \<longleftrightarrow> th_timer s' = None) \<and>
    (\<forall>d later r. th_timer s' = Some d \<and> now + d \<le> later \<longrightarrow> snd (pump later r s') \<noteq> [])" for s0
  proof (cases "soonest_ready s0 now (th_queue s0) None")
    case None
    then show ?thesis by (simp add: schedulePump_def soonest_None)
  next
    case (Some m)
    obtain t where t: "t \<in> set (th_queue s0)" "ready_at s0 t = m"
      using soonest_Some [OF Some] by auto
    have "pick_ready (s0\<lparr>th_timer := None\<rparr>) later (th_queue s0) \<noteq> None" if "now + max 0 (m - now) \<le> later" for later
      using t that by (auto simp: pick_ready_None intro!: bexI [of _ t])
    then show ?thesis
      using t(1) Some by (auto simp: schedulePump_def pump_def Let_def split: option.split)
  qed
  note sp = this
  show ?thesis
  proof -
    have "\<exists>s0. fst (throttle_step now op s) = schedulePump now s0"
    proof (cases op)
      case (AskConnect host run)
      with assms show ?thesis by (auto simp: schedule_connect_def Let_def)
    next
      case (PumpTimer r')
      show ?thesis
      proof (cases "th_queue s = []")
        case True
        then have "fst (throttle_step now op s) = schedulePump now s"
          by (simp add: PumpTimer pump_def Let_def schedulePump_def)
        then show ?thesis by blast
      next
        case False
        then show ?thesis by (auto simp: PumpTimer pump_def Let_def split: option.split)
      qed
    qed
    then obtain s0 where "fst (throttle_step now op s) = schedulePump now s0" by blast
    then show ?thesis by (simp only: sp)
  qed
qed

lemma waiting_connects_launch_witness:
  "th_timer (fst (throttle_step 5 (AskConnect ''irc.a'' 1) (new_throttle 2000 0 150 False))) = Some 0"
  using waiting_connects_launch [of "new_throttle 2000 0 150 False" 5 "AskConnect ''irc.a'' 1"]
  by (simp add: new_throttle_def schedule_connect_def schedulePump_def ready_at_def Let_def)

end
