(* ===== verification/Restore_Gate.thy ===== *)
theory Restore_Gate imports Lurker_Base begin

text \<open>
  \<open>server/services/restoreGate.ts\<close>: the cap on channel-state refreshes after an engine re-attach.  An entry
  is its id; its \<open>run\<close>, \<open>released\<close> and \<open>waited\<close> fields are membership in a list.  The gate is a state
  machine: \<open>pump\<close> is entered by a start or a release, grants one slot per step, and is left by
  \<open>finish_pump\<close>; what a granted step does synchronously (reserve, start, release, throw) are steps taken
  while \<open>g_pumping\<close> is set, as the code's re-entrant calls are.  The cap is fixed for a run
  (\<open>None\<close> is no cap); log lines are left out.
\<close>

section \<open>State and operations\<close>

definition DESCRIBE_MAX :: nat where
  "DESCRIBE_MAX = 6"

record gate =
  g_waiting :: "nat list"
  g_active :: "nat list"
  g_nextId :: nat
  g_pumping :: bool
  g_burst :: "(int \<times> nat) option"
  g_started :: "nat list"
  g_released :: "nat list"
  g_waited :: "nat list"

definition new_gate :: gate where
  "new_gate =
     \<lparr>g_waiting = [], g_active = [], g_nextId = 1, g_pumping = False, g_burst = None, g_started = [],
      g_released = [], g_waited = []\<rparr>"

text \<open>\<open>limit\<close>: a cap that is not positive is no cap.\<close>

definition gate_limit :: "int option \<Rightarrow> nat option" where
  "gate_limit n = (case n of Some k \<Rightarrow> if 0 < k then Some (nat k) else None | None \<Rightarrow> None)"

definition has_room :: "nat option \<Rightarrow> gate \<Rightarrow> bool" where
  "has_room cap g = (case cap of None \<Rightarrow> True | Some n \<Rightarrow> length (g_active g) < n)"

definition reserve_slot :: "gate \<Rightarrow> nat \<times> gate" where
  "reserve_slot g = (g_nextId g, g\<lparr>g_nextId := Suc (g_nextId g)\<rparr>)"

text \<open>A call of \<open>pump\<close>: a call from within does nothing.\<close>

definition enter_pump :: "gate \<Rightarrow> gate" where
  "enter_pump g = (if g_pumping g then g else g\<lparr>g_pumping := True\<rparr>)"

definition start_slot :: "nat \<Rightarrow> gate \<Rightarrow> gate" where
  "start_slot i g =
     (if i \<in> set (g_released g) \<or> i \<in> set (g_started g) then g
      else enter_pump (g\<lparr>g_started := i # g_started g, g_waiting := g_waiting g @ [i]\<rparr>))"

definition release_slot :: "nat \<Rightarrow> gate \<Rightarrow> gate" where
  "release_slot i g =
     (let g1 = g\<lparr>g_released := set_add i (g_released g)\<rparr> in
      if i \<in> set (g_waiting g1) then enter_pump (g1\<lparr>g_waiting := remove1 i (g_waiting g1)\<rparr>)
      else if i \<in> set (g_active g1) then enter_pump (g1\<lparr>g_active := remove1 i (g_active g1)\<rparr>)
      else g1)"

definition can_grant :: "nat option \<Rightarrow> gate \<Rightarrow> bool" where
  "can_grant cap g = (g_pumping g \<and> g_waiting g \<noteq> [] \<and> has_room cap g)"

definition grant :: "gate \<Rightarrow> gate" where
  "grant g =
     (let i = hd (g_waiting g) in
      g\<lparr>g_waiting := tl (g_waiting g), g_active := set_add i (g_active g),
        g_burst := (case g_burst g of
                      Some (since, queued) \<Rightarrow> Some (since, if i \<in> set (g_waited g) then Suc queued else queued)
                    | None \<Rightarrow> None)\<rparr>)"

text \<open>A start that threw holds nothing.\<close>

definition step_threw :: "nat \<Rightarrow> gate \<Rightarrow> gate" where
  "step_threw i g = g\<lparr>g_active := set_del i (g_active g)\<rparr>"

definition noteIdle :: "gate \<Rightarrow> gate" where
  "noteIdle g = (if g_burst g = None \<or> g_waiting g \<noteq> [] \<or> g_active g \<noteq> [] then g else g\<lparr>g_burst := None\<rparr>)"

definition note_waiters :: "int \<Rightarrow> gate \<Rightarrow> gate" where
  "note_waiters now g =
     (let fresh = filter (\<lambda>i. i \<notin> set (g_waited g)) (g_waiting g) in
      g\<lparr>g_waited := g_waited g @ fresh,
        g_burst := (if g_burst g = None \<and> fresh \<noteq> [] then Some (now, 0) else g_burst g)\<rparr>)"

definition finish_pump :: "int \<Rightarrow> gate \<Rightarrow> gate" where
  "finish_pump now g = noteIdle (note_waiters now (g\<lparr>g_pumping := False\<rparr>))"

definition reset_gate :: "gate \<Rightarrow> gate" where
  "reset_gate g = g\<lparr>g_waiting := [], g_active := [], g_burst := None\<rparr>"

text \<open>The line for the event-loop monitor; \<open>describe\<close> may throw (\<open>None\<close>).\<close>

definition describeInFlight :: "(nat \<Rightarrow> string option) \<Rightarrow> (nat \<Rightarrow> string) \<Rightarrow> gate \<Rightarrow> string option" where
  "describeInFlight describe digits g =
     (if g_active g = [] \<and> g_waiting g = [] then None
      else
      let names = map (\<lambda>i. case describe i of Some l \<Rightarrow> l | None \<Rightarrow> ''?'') (take DESCRIBE_MAX (g_active g));
          rest = length (g_active g) - length names;
          suffix = (if 0 < rest then '', +'' @ digits rest @ '' more'' else '''');
          listed = (if names \<noteq> [] then '' ('' @ join_with '', '' names @ suffix @ '')'' else '''');
          queued = (if g_waiting g \<noteq> [] then ''; '' @ digits (length (g_waiting g)) @ '' waiting'' else '''')
      in Some (''re-attach channel-state refresh steps in flight: '' @ digits (length (g_active g)) @ listed @ queued))"

section \<open>The state machine\<close>

datatype gate_label = LReserve | LStart nat | LRelease nat | LRun nat | LThrew nat | LFinish int | LReset

inductive gate_step :: "nat option \<Rightarrow> gate \<Rightarrow> gate_label \<Rightarrow> gate \<Rightarrow> bool" for cap where
  Reserve: "gate_step cap g LReserve (snd (reserve_slot g))"
| Start: "i < g_nextId g \<Longrightarrow> i \<notin> set (g_released g) \<Longrightarrow> i \<notin> set (g_started g) \<Longrightarrow> gate_step cap g (LStart i) (start_slot i g)"
| Release: "i < g_nextId g \<Longrightarrow> gate_step cap g (LRelease i) (release_slot i g)"
| Grant: "can_grant cap g \<Longrightarrow> gate_step cap g (LRun (hd (g_waiting g))) (grant g)"
| Threw: "g_pumping g \<Longrightarrow> gate_step cap g (LThrew i) (step_threw i g)"
| Finish: "g_pumping g \<Longrightarrow> \<not> can_grant cap g \<Longrightarrow> gate_step cap g (LFinish now) (finish_pump now g)"
| Reset: "gate_step cap g LReset (reset_gate g)"

inductive_cases gate_stepE: "gate_step cap g l g'"

inductive gate_path :: "nat option \<Rightarrow> gate \<Rightarrow> gate_label list \<Rightarrow> gate \<Rightarrow> bool" for cap g where
  Here: "gate_path cap g [] g"
| Step: "gate_path cap g ls g1 \<Longrightarrow> gate_step cap g1 l g2 \<Longrightarrow> gate_path cap g (ls @ [l]) g2"

fun starts :: "gate_label list \<Rightarrow> nat list" where
  "starts [] = []"
| "starts (LStart i # ls) = i # starts ls"
| "starts (_ # ls) = starts ls"

fun runs :: "gate_label list \<Rightarrow> nat list" where
  "runs [] = []"
| "runs (LRun i # ls) = i # runs ls"
| "runs (_ # ls) = runs ls"

lemma starts_append [simp]: "starts (a @ b) = starts a @ starts b"
  by (induction a rule: starts.induct) simp_all

lemma runs_append [simp]: "runs (a @ b) = runs a @ runs b"
  by (induction a rule: runs.induct) simp_all

section \<open>The invariant\<close>

definition gate_ok :: "nat option \<Rightarrow> gate_label list \<Rightarrow> gate \<Rightarrow> bool" where
  "gate_ok cap ls g \<longleftrightarrow>
     subseq (runs ls @ g_waiting g) (starts ls) \<and> distinct (starts ls) \<and> set (starts ls) = set (g_started g) \<and>
     (case cap of None \<Rightarrow> True | Some n \<Rightarrow> length (g_active g) \<le> n) \<and>
     set (g_waiting g) \<inter> set (g_released g) = {} \<and> distinct (g_active g) \<and>
     (\<not> g_pumping g \<longrightarrow> g_waiting g = [] \<or> \<not> has_room cap g)"

lemma enter_pump_simps [simp]:
  "g_waiting (enter_pump g) = g_waiting g" "g_active (enter_pump g) = g_active g" "g_started (enter_pump g) = g_started g"
  "g_released (enter_pump g) = g_released g" "g_pumping (enter_pump g)"
  by (simp_all add: enter_pump_def)

lemma finish_simps [simp]:
  "g_waiting (finish_pump now g) = g_waiting g" "g_active (finish_pump now g) = g_active g"
  "g_started (finish_pump now g) = g_started g" "g_released (finish_pump now g) = g_released g"
  "\<not> g_pumping (finish_pump now g)"
  by (simp_all add: finish_pump_def noteIdle_def note_waiters_def Let_def)

lemma subseq_remove1: "subseq (a @ xs) ys \<Longrightarrow> subseq (a @ remove1 i xs) ys"
proof -
  have "subseq (remove1 i xs) xs"
    by (induction xs) auto
  then have "subseq (a @ remove1 i xs) (a @ xs)" by (simp add: subseq_append')
  then show "subseq (a @ xs) ys \<Longrightarrow> subseq (a @ remove1 i xs) ys" using subseq_order.trans by blast
qed

lemma distinct_subseq: "subseq xs ys \<Longrightarrow> distinct ys \<Longrightarrow> distinct xs"
  by (induction rule: list_emb.induct) (auto dest: list_emb_set)

lemma gate_ok_step:
  assumes ok: "gate_ok cap ls g" and st: "gate_step cap g l g'"
  shows "gate_ok cap (ls @ [l]) g'"
proof -
  note ok' = ok [unfolded gate_ok_def]
  from st show ?thesis
  proof cases
    case Reserve
    with ok show ?thesis by (simp add: gate_ok_def reserve_slot_def has_room_def split: option.splits)
  next
    case (Start i)
    with ok show ?thesis
      by (auto simp: gate_ok_def start_slot_def simp flip: append_assoc intro: list_emb_append_mono split: option.splits)
  next
    case (Release i)
    have d: "distinct (g_waiting g)"
      using ok' distinct_subseq by (metis distinct_append)
    have sub: "subseq (runs ls @ remove1 i (g_waiting g)) (starts ls)"
      by (rule subseq_remove1) (use ok' in simp)
    have len: "length (remove1 i (g_active g)) \<le> length (g_active g)" by (simp add: length_remove1)
    consider "i \<in> set (g_waiting g)" | "i \<notin> set (g_waiting g)" "i \<in> set (g_active g)"
      | "i \<notin> set (g_waiting g)" "i \<notin> set (g_active g)" by blast
    then show ?thesis
    proof cases
      case 1
      with Release ok' d sub show ?thesis
        by (cases cap) (auto simp: gate_ok_def release_slot_def Let_def)
    next
      case 2
      with Release ok' len show ?thesis
        by (cases cap) (auto simp: gate_ok_def release_slot_def Let_def)
    next
      case 3
      with Release ok' show ?thesis
        by (cases cap) (auto simp: gate_ok_def release_slot_def Let_def has_room_def)
    qed
  next
    case Grant
    then obtain i ws where w: "g_waiting g = i # ws" by (cases "g_waiting g") (auto simp: can_grant_def)
    with ok Grant show ?thesis
      by (auto simp: gate_ok_def grant_def can_grant_def has_room_def set_add_def Let_def split: option.splits)
  next
    case (Threw i)
    have "length (set_del i (g_active g)) \<le> length (g_active g)" by (simp add: set_del_def)
    with ok Threw show ?thesis
      by (auto simp: gate_ok_def step_threw_def wf_intros split: option.splits)
  next
    case (Finish now)
    with ok' show ?thesis by (cases cap) (auto simp: gate_ok_def can_grant_def has_room_def)
  next
    case Reset
    have "subseq (runs ls) (starts ls)"
      by (rule subseq_order.trans [of _ "runs ls @ g_waiting g"]) (use ok' in \<open>simp_all add: prefix_imp_subseq\<close>)
    with ok Reset show ?thesis by (simp add: gate_ok_def reset_gate_def split: option.splits)
  qed
qed



end
