(* ===== verification/Slot_Pool.thy ===== *)
theory Slot_Pool imports Lurker_Base begin

text \<open>
  \<open>server/utils/slotPool.ts\<close>: a counting semaphore whose slots are handed over.  A caller is a number;
  \<open>sp_settled\<close> are the waiters whose promise has been resolved.  An operation puts out the callers
  it answers, with what their \<open>acquire\<close> resolves to; a waiter's deadline is an event.
\<close>

record slot_pool =
  sp_size :: int
  sp_maxQueued :: nat
  sp_taken :: int
  sp_waiters :: "nat list"
  sp_settled :: "nat list"

type_synonym answers = "(nat \<times> bool) list"

definition new_pool :: "int \<Rightarrow> nat \<Rightarrow> slot_pool" where
  "new_pool slots maxQueued = \<lparr>sp_size = slots, sp_maxQueued = maxQueued, sp_taken = 0, sp_waiters = [], sp_settled = []\<rparr>"

definition acquire :: "nat \<Rightarrow> slot_pool \<Rightarrow> slot_pool \<times> answers" where
  "acquire c s =
     (if sp_taken s < sp_size s then (s\<lparr>sp_taken := sp_taken s + 1\<rparr>, [(c, True)])
      else if sp_maxQueued s \<le> length (sp_waiters s) then (s, [(c, False)])
      else (s\<lparr>sp_waiters := sp_waiters s @ [c]\<rparr>, []))"

text \<open>The deadline timer of a waiter.\<close>

definition wait_over :: "nat \<Rightarrow> slot_pool \<Rightarrow> slot_pool \<times> answers" where
  "wait_over c s =
     (if c \<in> set (sp_settled s) then (s, [])
      else (s\<lparr>sp_settled := c # sp_settled s, sp_waiters := remove1 c (sp_waiters s)\<rparr>, [(c, False)]))"

fun hand_over :: "nat list \<Rightarrow> slot_pool \<Rightarrow> slot_pool \<times> answers" where
  "hand_over [] s = (s\<lparr>sp_waiters := [], sp_taken := sp_taken s - 1\<rparr>, [])"
| "hand_over (c # cs) s =
     (if c \<in> set (sp_settled s) then hand_over cs s
      else (s\<lparr>sp_waiters := cs, sp_settled := c # sp_settled s\<rparr>, [(c, True)]))"

definition release_back :: "slot_pool \<Rightarrow> slot_pool \<times> answers" where
  "release_back s = hand_over (sp_waiters s) s"

text \<open>Callers that behave: each acquires once, is timed out only while it waits, and releases the slot it
  was given once.  \<open>held\<close> are the callers holding a slot.\<close>

datatype pool_op = Ask nat | Deadline nat | GiveBack nat

fun pool_step :: "pool_op \<Rightarrow> slot_pool \<Rightarrow> slot_pool \<times> answers" where
  "pool_step (Ask c) s = acquire c s"
| "pool_step (Deadline c) s = wait_over c s"
| "pool_step (GiveBack c) s = release_back s"

definition granted :: "answers \<Rightarrow> nat list" where
  "granted as = map fst (filter snd as)"

lemma granted_simps [simp]:
  "granted [] = []" "granted ((c, b) # as) = (if b then c # granted as else granted as)"
  by (simp_all add: granted_def)

fun holders_after :: "pool_op \<Rightarrow> answers \<Rightarrow> nat list \<Rightarrow> nat list" where
  "holders_after (GiveBack c) as held = granted as @ remove1 c held"
| "holders_after op as held = granted as @ held"

fun pool_op_ok :: "pool_op \<Rightarrow> nat list \<Rightarrow> nat list \<Rightarrow> slot_pool \<Rightarrow> bool" where
  "pool_op_ok (Ask c) used held s \<longleftrightarrow> c \<notin> set used"
| "pool_op_ok (Deadline c) used held s \<longleftrightarrow> c \<in> set (sp_waiters s)"
| "pool_op_ok (GiveBack c) used held s \<longleftrightarrow> c \<in> set held"

fun asked :: "pool_op \<Rightarrow> nat list" where
  "asked (Ask c) = [c]"
| "asked _ = []"

fun pool_run :: "pool_op list \<Rightarrow> nat list \<Rightarrow> nat list \<Rightarrow> slot_pool \<Rightarrow> (nat list \<times> nat list \<times> slot_pool) option" where
  "pool_run [] used held s = Some (used, held, s)"
| "pool_run (op # ops) used held s =
     (if \<not> pool_op_ok op used held s then None
      else let (s', as) = pool_step op s in pool_run ops (asked op @ used) (holders_after op as held) s')"

definition pool_ok :: "nat list \<Rightarrow> nat list \<Rightarrow> slot_pool \<Rightarrow> bool" where
  "pool_ok used held s \<longleftrightarrow>
     sp_taken s = int (length held) \<and> sp_taken s \<le> sp_size s \<and> length (sp_waiters s) \<le> sp_maxQueued s \<and>
     (sp_waiters s \<noteq> [] \<longrightarrow> sp_taken s = sp_size s) \<and>
     distinct (held @ sp_waiters s) \<and> set (held @ sp_waiters s) \<subseteq> set used \<and> set (sp_settled s) \<subseteq> set used \<and>
     set (sp_waiters s) \<inter> set (sp_settled s) = {}"

lemma pool_ok_step:
  assumes ok: "pool_ok used held s" and op: "pool_op_ok op used held s"
  shows "pool_ok (asked op @ used) (holders_after op (snd (pool_step op s)) held) (fst (pool_step op s))"
proof (cases op)
  case (Ask c)
  with ok op show ?thesis by (auto simp: pool_ok_def acquire_def)
next
  case (Deadline c)
  with ok op show ?thesis
    by (auto simp: pool_ok_def wait_over_def length_remove1 dest: notin_set_remove1)
next
  case (GiveBack c)
  then have c: "c \<in> set held" using op by simp
  then obtain h where h: "length held = Suc h" by (cases held) auto
  with c have n: "int (length held) - 1 = int (length (remove1 c held))" "Suc (length (remove1 c held)) = length held"
    by (simp_all add: length_remove1)
  show ?thesis
  proof (cases "sp_waiters s")
    case Nil
    from Nil n ok op GiveBack show ?thesis
      by (simp add: pool_ok_def release_back_def) blast
  next
    case (Cons w ws)
    then have "w \<notin> set (sp_settled s)" using ok by (auto simp: pool_ok_def)
    with Cons n ok op GiveBack show ?thesis
      by (auto simp: pool_ok_def release_back_def dest: notin_set_remove1)
  qed
qed

text \<open>No slot leaks or is given twice: the counter is the number of callers that hold a slot, never more
  than the pool's size; at most \<open>maxQueued\<close> callers wait, and only while every slot is held.\<close>

theorem slots_are_conserved:
  assumes "pool_run ops [] [] (new_pool slots maxQueued) = Some (used, held, s)" "0 \<le> slots"
  shows "sp_taken s = int (length held) \<and> distinct held \<and> int (length held) \<le> slots \<and>
    length (sp_waiters s) \<le> maxQueued \<and> (sp_waiters s \<noteq> [] \<longrightarrow> int (length held) = slots) \<and>
    set held \<inter> set (sp_waiters s) = {}"
proof -
  have c: "sp_size (fst (pool_step op s)) = sp_size s \<and> sp_maxQueued (fst (pool_step op s)) = sp_maxQueued s" for op s
  proof -
    have "sp_size (fst (hand_over cs s)) = sp_size s \<and> sp_maxQueued (fst (hand_over cs s)) = sp_maxQueued s" for cs
      by (induction cs s rule: hand_over.induct) auto
    then show ?thesis by (cases op) (auto simp: acquire_def wait_over_def release_back_def)
  qed
  have "pool_ok used held s \<and> sp_size s = n \<and> sp_maxQueued s = q"
    if "pool_ok used0 held0 s0" "pool_run ops used0 held0 s0 = Some (used, held, s)" "sp_size s0 = n" "sp_maxQueued s0 = q"
    for used0 held0 s0 n q
    using that
  proof (induction ops arbitrary: used0 held0 s0)
    case (Cons op ops)
    then have "pool_op_ok op used0 held0 s0" by (simp split: if_splits)
    with Cons.IH [OF pool_ok_step [OF Cons.prems(1)]] Cons.prems c [of op s0] show ?case
      by (simp add: split_beta Let_def)
  qed simp
  from this [of "[]" "[]" "new_pool slots maxQueued" slots maxQueued] assms show ?thesis
    by (auto simp: pool_ok_def new_pool_def)
qed

lemma slots_are_conserved_witness:
  "\<exists>used held s. pool_run [Ask 7, Ask 8, Ask 9, Deadline 8, GiveBack 7] [] [] (new_pool 1 2) = Some (used, held, s) \<and>
     held = [9] \<and> sp_taken s = int (length held)"
proof -
  note d = new_pool_def acquire_def wait_over_def release_back_def Let_def
  obtain used held s where r: "pool_run [Ask 7, Ask 8, Ask 9, Deadline 8, GiveBack 7] [] [] (new_pool 1 2) = Some (used, held, s)"
    and h: "held = [9]"
    by (simp add: d)
  from slots_are_conserved [OF r] h r show ?thesis by auto
qed

end
