(* ===== verification/Monitor_List.thy ===== *)
theory Monitor_List imports "HOL-Library.Extended_Nat" "HOL-Library.AList" Lurker_Base begin

text \<open>
  \<open>server/services/monitorList.ts\<close>: a connection's MONITOR list, shared by Lurker and the attached clients.
  A holder is a number and \<open>targets\<close> gives the nicks it watches; the map of listed nicks is an
  association list in insertion order; \<open>Infinity\<close> is \<open>\<infinity>\<close> of \<open>enat\<close>.  Operations put out the lines
  they send and the holders they tell; the microtask of \<open>requestStatus\<close> is an event.
\<close>

section \<open>Packing\<close>

definition MAX_TARGET_BYTES :: nat where
  "MAX_TARGET_BYTES = 400"

fun pack_loop :: "nat \<Rightarrow> string \<Rightarrow> string list \<Rightarrow> string list" where
  "pack_loop maxBytes current [] = (if current \<noteq> [] then [current] else [])"
| "pack_loop maxBytes current (nick # nicks) =
     (let next = (if current \<noteq> [] then current @ '','' @ nick else nick) in
      if current \<noteq> [] \<and> maxBytes < utf8_length next then current # pack_loop maxBytes nick nicks
      else pack_loop maxBytes next nicks)"

definition packTargets :: "nat \<Rightarrow> string list \<Rightarrow> string list" where
  "packTargets maxBytes nicks = pack_loop maxBytes [] nicks"

definition plain_nick :: "string \<Rightarrow> bool" where
  "plain_nick n \<longleftrightarrow> n \<noteq> [] \<and> CHR '','' \<notin> set n"

lemma split_on_snoc: "c \<notin> set t \<Longrightarrow> split_on c (s @ c # t) = split_on c s @ [t]"
  by (induction s) (auto simp: split_on_notin split: list.splits)

lemma pack_loop_splits:
  assumes "\<forall>n \<in> set ns. plain_nick n"
  shows "concat (map (split_on CHR '','') (pack_loop m cur ns)) =
    (if cur = [] then [] else split_on CHR '','' cur) @ ns"
  using assms
  by (induction ns arbitrary: cur) (auto simp: Let_def plain_nick_def split_on_snoc split_on_notin)

lemma packTargets_splits: "\<forall>n \<in> set ns. plain_nick n \<Longrightarrow> concat (map (split_on CHR '','') (packTargets m ns)) = ns"
  by (simp add: packTargets_def pack_loop_splits)

lemma pack_loop_bytes:
  assumes "t \<in> set (pack_loop m cur ns)" "utf8_length cur \<le> m \<or> CHR '','' \<notin> set cur" "\<forall>n \<in> set ns. plain_nick n"
  shows "utf8_length t \<le> m \<or> CHR '','' \<notin> set t"
  using assms
proof (induction ns arbitrary: cur)
  case (Cons n ns)
  have n: "utf8_length n \<le> m \<or> CHR '','' \<notin> set n" "\<forall>n \<in> set ns. plain_nick n"
    using Cons.prems by (simp_all add: plain_nick_def)
  show ?case
  proof (cases "cur \<noteq> [] \<and> m < utf8_length (cur @ '','' @ n)")
    case True
    with Cons.prems Cons.IH [of n] n show ?thesis by (auto simp: Let_def)
  next
    case False
    then have "t \<in> set (pack_loop m (if cur \<noteq> [] then cur @ '','' @ n else n) ns)"
      using Cons.prems(1) by (auto simp: Let_def split: if_splits)
    moreover have "utf8_length (if cur \<noteq> [] then cur @ '','' @ n else n) \<le> m \<or>
        CHR '','' \<notin> set (if cur \<noteq> [] then cur @ '','' @ n else n)"
      using False n by auto
    ultimately show ?thesis using Cons.IH n(2) by blast
  qed
qed (auto split: if_splits)

text \<open>Every list fits the line, or is one nick too long to be split.\<close>

lemma packTargets_bytes:
  "t \<in> set (packTargets m ns) \<Longrightarrow> \<forall>n \<in> set ns. plain_nick n \<Longrightarrow> utf8_length t \<le> m \<or> CHR '','' \<notin> set t"
  unfolding packTargets_def by (rule pack_loop_bytes) auto

section \<open>State\<close>

record monitor_entry =
  me_nick :: string
  me_online :: "bool option"
  me_slot :: nat

type_synonym listing = "(string \<times> monitor_entry) list"

record monitor =
  ml_listed :: listing
  ml_holders :: "nat list"
  ml_cap :: enat
  ml_statusQueued :: bool

datatype monitor_out = MonitorSend string | MonitorDropped nat "string list" enat

record monitor_sync =
  ms_added :: "string list"
  ms_skipped :: "string list"
  ms_limit :: enat

definition new_monitor :: monitor where
  "new_monitor = \<lparr>ml_listed = [], ml_holders = [], ml_cap = \<infinity>, ml_statusQueued = False\<rparr>"

definition addHolder :: "nat \<Rightarrow> monitor \<Rightarrow> monitor" where
  "addHolder h s = s\<lparr>ml_holders := set_add h (ml_holders s)\<rparr>"

definition removeHolder :: "nat \<Rightarrow> monitor \<Rightarrow> bool \<times> monitor" where
  "removeHolder h s = (h \<in> set (ml_holders s), s\<lparr>ml_holders := set_del h (ml_holders s)\<rparr>)"

text \<open>\<open>None\<close> is unlisted, \<open>Some None\<close> unanswered.\<close>

definition monitor_status :: "string \<Rightarrow> monitor \<Rightarrow> bool option option" where
  "monitor_status nick s = map_option me_online (map_of (ml_listed s) (to_lower nick))"

fun set_online :: "string list \<Rightarrow> bool \<Rightarrow> listing \<Rightarrow> listing" where
  "set_online [] online l = l"
| "set_online (nick # nicks) online l =
     set_online nicks online
       (case map_of l (to_lower nick) of
          None \<Rightarrow> l
        | Some e \<Rightarrow> AList.update (to_lower nick) (e\<lparr>me_online := Some online\<rparr>) l)"

definition noteStatus :: "string list \<Rightarrow> bool \<Rightarrow> monitor \<Rightarrow> monitor" where
  "noteStatus nicks online s = s\<lparr>ml_listed := set_online nicks online (ml_listed s)\<rparr>"

fun refuse_nicks :: "string list \<Rightarrow> enat \<Rightarrow> listing \<Rightarrow> enat \<times> listing" where
  "refuse_nicks [] slot l = (slot, l)"
| "refuse_nicks (nick # nicks) slot l =
     (case map_of l (to_lower nick) of
        None \<Rightarrow> refuse_nicks nicks slot l
      | Some e \<Rightarrow> refuse_nicks nicks (min slot (enat (me_slot e))) (AList.delete (to_lower nick) l))"

definition noteRefused :: "string list \<Rightarrow> monitor \<Rightarrow> monitor" where
  "noteRefused nicks s =
     (let (slot, l) = refuse_nicks nicks \<infinity> (ml_listed s) in
      s\<lparr>ml_listed := l, ml_cap := (if slot \<noteq> \<infinity> then slot else ml_cap s)\<rparr>)"

definition requestStatus :: "monitor \<Rightarrow> monitor" where
  "requestStatus s = (if ml_statusQueued s then s else s\<lparr>ml_statusQueued := True\<rparr>)"

text \<open>The microtask at the end of the turn.\<close>

definition status_tick :: "monitor \<Rightarrow> monitor \<times> monitor_out list" where
  "status_tick s = (s\<lparr>ml_statusQueued := False\<rparr>, if ml_listed s \<noteq> [] then [MonitorSend ''MONITOR S''] else [])"

definition reset_monitor :: "monitor \<Rightarrow> monitor" where
  "reset_monitor s = s\<lparr>ml_listed := [], ml_cap := \<infinity>\<rparr>"

section \<open>Bringing the list in line\<close>

type_synonym wants = "(string \<times> string) list"
type_synonym askers = "(string \<times> (nat \<times> string) list) list"

definition want :: "string \<Rightarrow> wants \<Rightarrow> wants" where
  "want nick w = (if nick = [] \<or> map_of w (to_lower nick) \<noteq> None then w else AList.update (to_lower nick) nick w)"

definition ask :: "nat \<times> string \<Rightarrow> askers \<Rightarrow> askers" where
  "ask hn by =
     (if snd hn = [] then by
      else AList.update (to_lower (snd hn))
        ((case map_of by (to_lower (snd hn)) of Some a \<Rightarrow> a | None \<Rightarrow> []) @ [hn]) by)"

definition asked_nicks :: "(nat \<Rightarrow> string list) \<Rightarrow> monitor \<Rightarrow> (nat \<times> string) list" where
  "asked_nicks targets s = concat (map (\<lambda>h. map (Pair h) (targets h)) (ml_holders s))"

definition note_dropped :: "nat \<times> string \<Rightarrow> (nat \<times> string list) list \<Rightarrow> (nat \<times> string list) list" where
  "note_dropped hn d =
     AList.update (fst hn) ((case map_of d (fst hn) of Some ns \<Rightarrow> ns | None \<Rightarrow> []) @ [snd hn]) d"

type_synonym sync_acc = "listing \<times> string list \<times> string list \<times> (nat \<times> string list) list"

definition add_wanted :: "enat \<Rightarrow> string list \<Rightarrow> askers \<Rightarrow> string \<times> string \<Rightarrow> sync_acc \<Rightarrow> sync_acc" where
  "add_wanted room ownKeys by kn acc =
     (let (listed, added, skipped, dropped) = acc; (key, nick) = kn in
      if map_of listed key \<noteq> None then acc
      else if room \<le> enat (length listed) then
        (listed, added, if key \<in> set ownKeys then skipped @ [nick] else skipped,
         fold note_dropped (case map_of by key of Some a \<Rightarrow> a | None \<Rightarrow> []) dropped)
      else (AList.update key \<lparr>me_nick = nick, me_online = None, me_slot = length listed\<rparr> listed,
            added @ [nick], skipped, dropped))"

definition sync_monitor :: "string list \<Rightarrow> (nat \<Rightarrow> string list) \<Rightarrow> enat \<Rightarrow> monitor \<Rightarrow> monitor \<times> monitor_out list \<times> monitor_sync" where
  "sync_monitor own targets limit s =
     (let asked = asked_nicks targets s;
          wanted = fold want (own @ map snd asked) [];
          ownKeys = map to_lower (filter (\<lambda>n. n \<noteq> []) own);
          by = fold ask asked [];
          removed = map (me_nick \<circ> snd) (filter (\<lambda>(k, e). map_of wanted k = None) (ml_listed s));
          kept = filter (\<lambda>(k, e). map_of wanted k \<noteq> None) (ml_listed s);
          room = min limit (ml_cap s);
          (listed, added, skipped, dropped) = fold (add_wanted room ownKeys by) wanted (kept, [], [], []);
          s1 = s\<lparr>ml_listed := listed\<rparr>;
          s2 = (if added \<noteq> [] then requestStatus s1 else s1)
      in (s2,
          map (\<lambda>t. MonitorSend (''MONITOR - '' @ t)) (packTargets MAX_TARGET_BYTES removed) @
          map (\<lambda>t. MonitorSend (''MONITOR + '' @ t)) (packTargets MAX_TARGET_BYTES added) @
          map (\<lambda>(h, ns). MonitorDropped h ns room) dropped,
          \<lparr>ms_added = added, ms_skipped = skipped, ms_limit = room\<rparr>))"

section \<open>What the sync promises\<close>

text \<open>The list the network keeps, and how it reads a line.\<close>

definition network_reads :: "string \<Rightarrow> string list \<Rightarrow> string list" where
  "network_reads line net =
     (let nicks = map to_lower (split_on CHR '','' (drop 10 line)) in
      if starts_with line ''MONITOR - '' then filter (\<lambda>k. k \<notin> set nicks) net
      else if starts_with line ''MONITOR + '' then fold set_add nicks net
      else net)"

definition sent_lines :: "monitor_out list \<Rightarrow> string list" where
  "sent_lines outs = concat (map (\<lambda>out. case out of MonitorSend l \<Rightarrow> [l] | _ \<Rightarrow> []) outs)"

definition listing_ok :: "listing \<Rightarrow> bool" where
  "listing_ok l \<longleftrightarrow> keys_distinct l \<and> (\<forall>(k, e) \<in> set l. k = to_lower (me_nick e) \<and> plain_nick (me_nick e))"

definition wants_ok :: "wants \<Rightarrow> bool" where
  "wants_ok w \<longleftrightarrow> keys_distinct w \<and> (\<forall>(k, n) \<in> set w. k = to_lower n \<and> plain_nick n)"

lemma update_absent: "map_of m k = None \<Longrightarrow> AList.update k v m = m @ [(k, v)]"
  by (induction m) auto

lemma sent_lines_simps [simp]:
  "sent_lines (as @ bs) = sent_lines as @ sent_lines bs"
  "sent_lines (map (\<lambda>t. MonitorSend (f t)) ts) = map f ts"
  "sent_lines (map (\<lambda>(h, ns). MonitorDropped h ns r) d) = []"
  by (induction ts) (auto simp: sent_lines_def)

lemma set_fold_set_add [simp]: "set (fold set_add xs ys) = set xs \<union> set ys"
  by (induction xs arbitrary: ys) auto

lemma network_reads_minus: "set (fold network_reads (map ((@) ''MONITOR - '') ts) net) =
    set net - to_lower ` set (concat (map (split_on CHR '','') ts))"
  by (induction ts arbitrary: net) (auto simp: network_reads_def starts_with_def)

lemma network_reads_plus: "set (fold network_reads (map ((@) ''MONITOR + '') ts) net) =
    set net \<union> to_lower ` set (concat (map (split_on CHR '','') ts))"
  by (induction ts arbitrary: net) (auto simp: network_reads_def starts_with_def)

lemma fold_want:
  assumes "wants_ok w" "\<forall>n \<in> set ns. CHR '','' \<notin> set n"
  shows "wants_ok (fold want ns w) \<and>
    fst ` set (fold want ns w) = fst ` set w \<union> to_lower ` {n \<in> set ns. n \<noteq> []}"
  using assms
proof (induction ns arbitrary: w)
  case (Cons n ns)
  have m: "map_of w k = None \<longleftrightarrow> k \<notin> fst ` set w" for k by (simp add: map_of_eq_None_iff)
  show ?case
  proof (cases "n = [] \<or> map_of w (to_lower n) \<noteq> None")
    case True
    then have "want n w = w" "n \<noteq> [] \<Longrightarrow> to_lower n \<in> fst ` set w" by (auto simp: want_def m)
    with Cons show ?thesis by auto
  next
    case False
    then have e: "want n w = w @ [(to_lower n, n)]" by (simp add: want_def update_absent)
    have "wants_ok (w @ [(to_lower n, n)])"
      using Cons.prems False by (auto simp: wants_ok_def keys_distinct_def plain_nick_def m)
    with Cons.IH [of "want n w"] Cons.prems e False show ?thesis by auto
  qed
qed auto

definition dropped_of :: "(nat \<times> string list) list \<Rightarrow> nat \<Rightarrow> string list" where
  "dropped_of d h = (case map_of d h of Some ns \<Rightarrow> ns | None \<Rightarrow> [])"

lemma fold_note_dropped:
  "set (dropped_of (fold note_dropped hns d) h) = set (dropped_of d h) \<union> {n. (h, n) \<in> set hns}"
proof (induction hns arbitrary: d)
  case (Cons hn hns)
  have "set (dropped_of (note_dropped hn d) h) = set (dropped_of d h) \<union> {n. (h, n) = hn}"
    by (cases hn) (auto simp: dropped_of_def note_dropped_def update_conv')
  with Cons show ?case by auto
qed simp

definition askers_of :: "askers \<Rightarrow> string \<Rightarrow> (nat \<times> string) list" where
  "askers_of by k = (case map_of by k of Some a \<Rightarrow> a | None \<Rightarrow> [])"

lemma fold_ask:
  "set (askers_of (fold ask hns m) k) = set (askers_of m k) \<union> {hn \<in> set hns. snd hn \<noteq> [] \<and> to_lower (snd hn) = k}"
proof (induction hns arbitrary: m)
  case (Cons hn hns)
  have "set (askers_of (ask hn m) k) = set (askers_of m k) \<union> {x. x = hn \<and> snd hn \<noteq> [] \<and> to_lower (snd hn) = k}"
    by (auto simp: askers_of_def ask_def update_conv')
  with Cons show ?case by auto
qed simp

text \<open>Whether a wanted nick is listed, or everybody who asked for it is told.\<close>

definition accounted :: "string list \<Rightarrow> askers \<Rightarrow> sync_acc \<Rightarrow> string \<times> string \<Rightarrow> bool" where
  "accounted ownKeys byKey acc kn =
     (let (l, added, skipped, dropped) = acc; (k, n) = kn in
      k \<in> fst ` set l \<or>
      (k \<in> set ownKeys \<longrightarrow> n \<in> set skipped) \<and> (\<forall>(h, m) \<in> set (askers_of byKey k). m \<in> set (dropped_of dropped h)))"

definition grows :: "enat \<Rightarrow> sync_acc \<Rightarrow> sync_acc \<Rightarrow> bool" where
  "grows room acc acc' =
     (let (l, a, sk, d) = acc; (l', a', sk', d') = acc' in
      \<exists>new. l' = l @ new \<and> a' = a @ map (me_nick \<circ> snd) new \<and> (new = [] \<or> enat (length l') \<le> room) \<and>
        set sk \<subseteq> set sk' \<and> (\<forall>h. set (dropped_of d h) \<subseteq> set (dropped_of d' h)))"

lemma grows_refl: "grows room acc acc"
  by (cases acc) (simp add: grows_def)

lemma grows_trans: "grows room x y \<Longrightarrow> grows room y z \<Longrightarrow> grows room x z"
proof -
  assume xy: "grows room x y" and yz: "grows room y z"
  obtain l a sk d where x: "x = (l, a, sk, d)" by (cases x)
  obtain l1 a1 sk1 d1 where y: "y = (l1, a1, sk1, d1)" by (cases y)
  obtain l2 a2 sk2 d2 where z: "z = (l2, a2, sk2, d2)" by (cases z)
  obtain n1 where n1: "l1 = l @ n1" "a1 = a @ map (me_nick \<circ> snd) n1" "n1 = [] \<or> enat (length l1) \<le> room"
    "set sk \<subseteq> set sk1" "\<forall>h. set (dropped_of d h) \<subseteq> set (dropped_of d1 h)"
    using xy by (auto simp: grows_def x y)
  obtain n2 where n2: "l2 = l1 @ n2" "a2 = a1 @ map (me_nick \<circ> snd) n2" "n2 = [] \<or> enat (length l2) \<le> room"
    "set sk1 \<subseteq> set sk2" "\<forall>h. set (dropped_of d1 h) \<subseteq> set (dropped_of d2 h)"
    using yz by (auto simp: grows_def y z)
  have "n1 @ n2 = [] \<or> enat (length l2) \<le> room" using n1(3) n2(1,3) by auto
  moreover have "\<forall>h. set (dropped_of d h) \<subseteq> set (dropped_of d2 h)" using n1(5) n2(5) by blast
  ultimately show ?thesis using n1(1,2,4) n2(1,2,4) unfolding grows_def x z Let_def prod.case
    by (intro exI [of _ "n1 @ n2"] conjI) (simp_all add: subset_trans)
qed

lemma accounted_grows: "accounted ow byKey acc kn \<Longrightarrow> grows room acc acc' \<Longrightarrow> accounted ow byKey acc' kn"
  by (cases acc; cases acc'; cases kn) (fastforce simp: accounted_def grows_def)

lemma add_wanted_step:
  assumes "listing_ok (fst acc)" "fst kn = to_lower (snd kn)" "plain_nick (snd kn)"
  shows "grows room acc (add_wanted room ow byKey kn acc) \<and> accounted ow byKey (add_wanted room ow byKey kn acc) kn \<and>
    listing_ok (fst (add_wanted room ow byKey kn acc)) \<and>
    fst ` set (fst (add_wanted room ow byKey kn acc)) \<subseteq> insert (fst kn) (fst ` set (fst acc))"
proof -
  obtain l a sk d where acc: "acc = (l, a, sk, d)" by (cases acc)
  obtain k n where kn: "kn = (k, n)" by (cases kn)
  have m: "map_of l k = None \<longleftrightarrow> k \<notin> fst ` set l" by (simp add: map_of_eq_None_iff)
  consider "map_of l k \<noteq> None" | "map_of l k = None" "room \<le> enat (length l)"
    | "map_of l k = None" "\<not> room \<le> enat (length l)" by blast
  then show ?thesis
  proof cases
    case 1
    then have "add_wanted room ow byKey kn acc = acc" by (simp add: add_wanted_def acc kn)
    with 1 m assms show ?thesis by (auto simp: grows_refl accounted_def acc kn)
  next
    case 2
    then have e: "add_wanted room ow byKey kn acc =
        (l, a, if k \<in> set ow then sk @ [n] else sk, fold note_dropped (askers_of byKey k) d)"
      by (simp add: add_wanted_def acc kn askers_of_def)
    from 2 assms show ?thesis
      unfolding e by (auto simp: grows_def accounted_def acc kn fold_note_dropped)
  next
    case 3
    then have e: "add_wanted room ow byKey kn acc =
        (l @ [(k, \<lparr>me_nick = n, me_online = None, me_slot = length l\<rparr>)], a @ [n], sk, d)"
      by (simp add: add_wanted_def acc kn update_absent)
    have "enat (Suc (length l)) \<le> room" using 3(2) by (simp add: Suc_ile_eq)
    moreover have "k \<notin> fst ` set l" using 3 m by blast
    ultimately show ?thesis
      using assms unfolding e by (auto simp: grows_def accounted_def acc kn listing_ok_def keys_distinct_def)
  qed
qed

lemma fold_add_wanted:
  assumes "listing_ok (fst acc)" "\<forall>kn \<in> set ws. fst kn = to_lower (snd kn) \<and> plain_nick (snd kn)"
  shows "grows room acc (fold (add_wanted room ow byKey) ws acc) \<and>
    (\<forall>kn \<in> set ws. accounted ow byKey (fold (add_wanted room ow byKey) ws acc) kn) \<and>
    listing_ok (fst (fold (add_wanted room ow byKey) ws acc)) \<and>
    fst ` set (fst (fold (add_wanted room ow byKey) ws acc)) \<subseteq> fst ` set ws \<union> fst ` set (fst acc)"
  using assms
proof (induction ws arbitrary: acc)
  case Nil
  then show ?case by (simp add: grows_refl)
next
  case (Cons kn ws)
  let ?acc = "add_wanted room ow byKey kn acc"
  note st = add_wanted_step [of acc kn room ow byKey]
  have ih: "grows room ?acc (fold (add_wanted room ow byKey) ws ?acc) \<and>
    (\<forall>kn \<in> set ws. accounted ow byKey (fold (add_wanted room ow byKey) ws ?acc) kn) \<and>
    listing_ok (fst (fold (add_wanted room ow byKey) ws ?acc)) \<and>
    fst ` set (fst (fold (add_wanted room ow byKey) ws ?acc)) \<subseteq> fst ` set ws \<union> fst ` set (fst ?acc)"
    using st Cons.prems by (intro Cons.IH) auto
  have s: "grows room acc ?acc" "accounted ow byKey ?acc kn" "fst ` set (fst ?acc) \<subseteq> insert (fst kn) (fst ` set (fst acc))"
    using st Cons.prems by auto
  from ih s(1) have "grows room acc (fold (add_wanted room ow byKey) ws ?acc)" using grows_trans by blast
  moreover have "accounted ow byKey (fold (add_wanted room ow byKey) ws ?acc) kn"
    by (rule accounted_grows [OF s(2), where room = room]) (use ih in simp)
  moreover have "fst ` set (fst (fold (add_wanted room ow byKey) ws ?acc)) \<subseteq> fst ` set (kn # ws) \<union> fst ` set (fst acc)"
    using ih s(3) by (simp del: image_insert) blast
  ultimately show ?case using ih by simp
qed

lemma fst_image_ex: "k \<in> fst ` A \<Longrightarrow> \<exists>m. (k, m) \<in> A"
  by force

definition monitor_ok :: "monitor \<Rightarrow> bool" where
  "monitor_ok s = listing_ok (ml_listed s)"

lemma listing_ok_filter: "listing_ok l \<Longrightarrow> listing_ok (filter p l)"
  by (auto simp: listing_ok_def keys_distinct_def distinct_map_filter)

lemma keys_of_nicks: "listing_ok l \<Longrightarrow> to_lower ` set (map (me_nick \<circ> snd) l) = fst ` set l"
  by (force simp: listing_ok_def image_iff)

lemma network_follows:
  assumes ok: "listing_ok l" and net: "set net = fst ` set l" and ok': "listing_ok (filter p l @ new)"
  shows "set (fold network_reads
      (map ((@) ''MONITOR - '') (packTargets m (map (me_nick \<circ> snd) (filter (\<lambda>x. \<not> p x) l))) @
       map ((@) ''MONITOR + '') (packTargets m (map (me_nick \<circ> snd) new))) net) = fst ` set (filter p l @ new)"
proof -
  have okn: "listing_ok new" using ok' by (auto simp: listing_ok_def keys_distinct_def)
  have plain: "\<forall>n \<in> set (map (me_nick \<circ> snd) l'). plain_nick n" if "listing_ok l'" for l'
    using that by (auto simp: listing_ok_def)
  have gone: "to_lower ` set (map (me_nick \<circ> snd) (filter (\<lambda>x. \<not> p x) l)) = fst ` set (filter (\<lambda>x. \<not> p x) l)"
    by (rule keys_of_nicks [OF listing_ok_filter [OF ok]])
  have "fst ` set (filter p l) = fst ` set l - fst ` set (filter (\<lambda>x. \<not> p x) l)"
  proof -
    have "x = y" if "x \<in> set l" "y \<in> set l" "fst x = fst y" for x y
      using ok that by (auto simp: listing_ok_def keys_distinct_def distinct_map inj_on_def)
    then show ?thesis by (auto simp: image_iff)
  qed
  then show ?thesis
    using net gone keys_of_nicks [OF okn] packTargets_splits [OF plain [OF listing_ok_filter [OF ok, of "\<lambda>x. \<not> p x"]]]
      packTargets_splits [OF plain [OF okn]]
    by (simp only: fold_append comp_apply network_reads_minus network_reads_plus set_append image_Un)
qed

text \<open>C14: After a sync the network, reading the lines sent, holds exactly the nicks Lurker lists, each
  wanted by somebody; nothing was added past the limit; and whoever asked for a nick that is not
  listed is told, Lurker by the skipped nicks and a holder by name and in its own spelling.\<close>

theorem sync_brings_network_in_line:
  assumes ok: "monitor_ok s" and net: "set net = fst ` set (ml_listed s)"
    and own: "\<forall>n \<in> set own. CHR '','' \<notin> set n" and hs: "\<forall>(h, n) \<in> set (asked_nicks targets s). CHR '','' \<notin> set n"
    and r: "monitor_sync.ms_limit res = room" "sync_monitor own targets limit s = (s', outs, res)"
  shows "monitor_ok s' \<and> set (fold network_reads (sent_lines outs) net) = fst ` set (ml_listed s') \<and>
    fst ` set (ml_listed s') \<subseteq> to_lower ` (set own \<union> snd ` set (asked_nicks targets s)) \<and>
    (ms_added res = [] \<or> enat (length (ml_listed s')) \<le> room) \<and>
    (\<forall>n \<in> set own. n \<noteq> [] \<and> to_lower n \<notin> fst ` set (ml_listed s') \<longrightarrow> to_lower n \<in> to_lower ` set (ms_skipped res)) \<and>
    (\<forall>(h, n) \<in> set (asked_nicks targets s). n \<noteq> [] \<and> to_lower n \<notin> fst ` set (ml_listed s') \<longrightarrow>
       (\<exists>ns. MonitorDropped h ns room \<in> set outs \<and> n \<in> set ns))"
proof -
  let ?asked = "asked_nicks targets s"
  define w where "w = fold want (own @ map snd ?asked) []"
  define ow where "ow = map to_lower (filter (\<lambda>n. n \<noteq> []) own)"
  define askd where "askd = fold ask ?asked []"
  let ?p = "\<lambda>x. map_of w (fst x) \<noteq> None"
  let ?kept = "filter ?p (ml_listed s)"
  define rm where "rm = min limit (ml_cap s)"
  obtain l a sk d where f: "fold (add_wanted rm ow askd) w (?kept, [], [], []) = (l, a, sk, d)"
    using prod_cases4 by blast
  have "wants_ok []" by (simp add: wants_ok_def)
  moreover have "\<forall>n \<in> set (own @ map snd ?asked). CHR '','' \<notin> set n" using own hs by auto
  ultimately have w: "wants_ok w" "fst ` set w = to_lower ` {n \<in> set (own @ map snd ?asked). n \<noteq> []}"
    using fold_want [of "[]" "own @ map snd ?asked"] unfolding w_def by simp_all
  note fa = fold_add_wanted [of "(?kept, [], [], [])" w rm ow askd]
  have okl: "listing_ok (ml_listed s)" using ok by (simp add: monitor_ok_def)
  have pre: "listing_ok (fst (?kept, ([] :: string list), ([] :: string list), ([] :: (nat \<times> string list) list)))"
    "\<forall>kn \<in> set w. fst kn = to_lower (snd kn) \<and> plain_nick (snd kn)"
    using w(1) listing_ok_filter [OF okl] by (auto simp: wants_ok_def)
  have P: "grows rm (?kept, [], [], []) (l, a, sk, d)" "\<forall>kn \<in> set w. accounted ow askd (l, a, sk, d) kn"
    "listing_ok l" "fst ` set l \<subseteq> fst ` set w \<union> fst ` set ?kept"
    using fa [OF pre] unfolding f fst_conv by simp_all
  then obtain new where new: "l = ?kept @ new" "a = map (me_nick \<circ> snd) new" "new = [] \<or> enat (length l) \<le> rm"
    by (auto simp: grows_def)
  have res: "ml_listed s' = l" "ms_added res = a" "ms_skipped res = sk" "room = rm"
    "outs = map (\<lambda>t. MonitorSend (''MONITOR - '' @ t)) (packTargets MAX_TARGET_BYTES (map (me_nick \<circ> snd) (filter (\<lambda>x. \<not> ?p x) (ml_listed s)))) @
      map (\<lambda>t. MonitorSend (''MONITOR + '' @ t)) (packTargets MAX_TARGET_BYTES a) @
      map (\<lambda>(h, ns). MonitorDropped h ns rm) d"
    using r f by (auto simp: sync_monitor_def Let_def rm_def [symmetric] w_def [symmetric, simplified] ow_def [symmetric] askd_def [symmetric] requestStatus_def case_prod_beta' split: if_splits)
  have sent: "sent_lines outs =
      map ((@) ''MONITOR - '') (packTargets MAX_TARGET_BYTES (map (me_nick \<circ> snd) (filter (\<lambda>x. \<not> ?p x) (ml_listed s)))) @
      map ((@) ''MONITOR + '') (packTargets MAX_TARGET_BYTES a)"
    by (simp only: res sent_lines_simps append_Nil2)
  have lists: "set (fold network_reads (sent_lines outs) net) = fst ` set (ml_listed s')"
    unfolding sent res(1) new(1,2) by (rule network_follows [OF okl net]) (use P(3) new(1) in simp)
  have kept: "fst ` set ?kept \<subseteq> fst ` set w"
    by (auto simp: map_of_eq_None_iff)
  have inw: "\<exists>m. (to_lower n, m) \<in> set w" if "n \<in> set own \<or> n \<in> snd ` set ?asked" "n \<noteq> []" for n
  proof -
    have "to_lower n \<in> fst ` set w" unfolding w(2) using that by auto
    then show ?thesis by (rule fst_image_ex)
  qed
  have acc: "to_lower n \<in> fst ` set l \<or> (to_lower n \<in> set ow \<longrightarrow> m \<in> set sk) \<and>
      (\<forall>(h, x) \<in> set (askers_of askd (to_lower n)). x \<in> set (dropped_of d h))" if "(to_lower n, m) \<in> set w" for n m
    using bspec [OF P(2) that] by (simp add: accounted_def)
  have o: "to_lower n \<in> to_lower ` set sk" if n: "n \<in> set own" "n \<noteq> []" "to_lower n \<notin> fst ` set l" for n
  proof -
    have "\<exists>m. (to_lower n, m) \<in> set w" by (rule inw) (use n in simp_all)
    then obtain m where m: "(to_lower n, m) \<in> set w" ..
    then have "to_lower n = to_lower m" using w(1) by (auto simp: wants_ok_def)
    moreover have "to_lower n \<in> set ow" using that unfolding ow_def by auto
    then have "m \<in> set sk" using acc [OF m] that(3) by blast
    ultimately show ?thesis by simp
  qed
  have h: "\<exists>ns. (h, ns) \<in> set d \<and> n \<in> set ns" if "(h, n) \<in> set ?asked" "n \<noteq> []" "to_lower n \<notin> fst ` set l" for h n
  proof -
    have "n \<in> snd ` set ?asked" using that(1) by force
    then have "\<exists>m. (to_lower n, m) \<in> set w" by (intro inw) (use that in simp_all)
    then obtain m where m: "(to_lower n, m) \<in> set w" ..
    have "(h, n) \<in> set (askers_of askd (to_lower n))" using that by (simp add: askd_def fold_ask)
    then have "n \<in> set (dropped_of d h)" using acc [OF m] that(3) by blast
    then show ?thesis by (cases "map_of d h") (auto simp: dropped_of_def dest: map_of_SomeD)
  qed
  have "fst ` set w \<subseteq> to_lower ` (set own \<union> snd ` set ?asked)" unfolding w(2) by auto
  then have k: "fst ` set l \<subseteq> to_lower ` (set own \<union> snd ` set ?asked)"
    by (rule subset_trans [OF subset_trans [OF P(4) Un_least [OF subset_refl kept]]])
  have dr: "\<exists>ns. MonitorDropped h ns room \<in> set outs \<and> n \<in> set ns" if "(h, ns) \<in> set d" "n \<in> set ns" for h n ns
    unfolding res using that by (intro exI [of _ ns]) force
  have hs': "\<forall>(h, n) \<in> set ?asked. n \<noteq> [] \<and> to_lower n \<notin> fst ` set l \<longrightarrow>
      (\<exists>ns. MonitorDropped h ns room \<in> set outs \<and> n \<in> set ns)"
    using h dr by blast
  have "ms_added res = [] \<or> enat (length l) \<le> room" using new(2,3) res by auto
  with lists P(3) k o hs' show ?thesis unfolding monitor_ok_def res(1,3) by blast
qed

lemma sync_brings_network_in_line_witness:
  "\<exists>s' outs res. sync_monitor [''Brad''] (\<lambda>h. [''amy'', ''BRAD'', ''zoe'']) (enat 2) (addHolder 5 new_monitor) = (s', outs, res) \<and>
     set (fold network_reads (sent_lines outs) []) = {''brad'', ''amy''} \<and> (\<exists>ns. MonitorDropped 5 ns (enat 2) \<in> set outs \<and> ''zoe'' \<in> set ns)"
proof -
  let ?t = "\<lambda>h :: nat. [''amy'', ''BRAD'', ''zoe'']"
  define s where "s = addHolder 5 new_monitor"
  have s: "ml_listed s = []" "ml_cap s = \<infinity>" "ml_holders s = [5]"
    by (simp_all add: s_def addHolder_def new_monitor_def set_add_def)
  have a: "asked_nicks ?t s = [(5, ''amy''), (5, ''BRAD''), (5, ''zoe'')]"
    by (simp add: asked_nicks_def s)
  have l: "to_lower ''Brad'' = ''brad''" "to_lower ''BRAD'' = ''brad''" "to_lower ''amy'' = ''amy''" "to_lower ''zoe'' = ''zoe''"
    by code_simp+
  obtain s' outs res where r: "sync_monitor [''Brad''] ?t (enat 2) s = (s', outs, res)"
    by (rule prod_cases3)
  have k: "fst ` set (ml_listed s') = {''brad'', ''amy''}" "monitor_sync.ms_limit res = enat 2"
    using r by (auto simp: sync_monitor_def a l s want_def ask_def add_wanted_def note_dropped_def
      requestStatus_def Let_def split: if_splits)
  have "monitor_ok s" "set [] = fst ` set (ml_listed s)" by (simp_all add: monitor_ok_def listing_ok_def s)
  note p = sync_brings_network_in_line [OF this _ _ k(2) r]
  show ?thesis unfolding s_def [symmetric]
    using r p by (intro exI [of _ s'] exI [of _ outs] exI [of _ res]) (simp add: a l k)
qed

end
