(* ===== verification/Channel_Modes.thy ===== *)
theory Channel_Modes imports "HOL-Library.Multiset" Lurker_Base begin

text \<open>
  \<open>shared/channelModes.ts\<close> and \<open>shared/modes.ts\<close>: a network's channel-mode vocabulary, the ranks it
  gives, the packing of mode changes into MODE lines, and the classes of a mode change.

  \<open>irc-framework\<close>'s option values are a datatype with the shapes the code tells apart; \<open>Number(text)\<close>
  on an option's text is the argument \<open>to_number\<close>, \<open>Some n\<close> when it is the integer \<open>n\<close>.
\<close>

section \<open>The vocabulary\<close>

record prefix_mode =
  pm_mode :: string
  pm_symbol :: string

record mode_spec =
  sp_list :: string
  sp_always :: string
  sp_onSet :: string
  sp_flags :: string
  sp_prefix :: "prefix_mode list"
  sp_maxModes :: "nat option"
  sp_topicLen :: "nat option"

definition DEFAULT_CHANMODES :: "string list" where
  "DEFAULT_CHANMODES = [''beI'', ''k'', ''l'', ''imnst'']"

definition DEFAULT_PREFIX :: "prefix_mode list" where
  "DEFAULT_PREFIX =
     [\<lparr>pm_mode = ''q'', pm_symbol = ''~''\<rparr>, \<lparr>pm_mode = ''a'', pm_symbol = ''&''\<rparr>,
      \<lparr>pm_mode = ''o'', pm_symbol = ''@''\<rparr>, \<lparr>pm_mode = ''h'', pm_symbol = ''%''\<rparr>,
      \<lparr>pm_mode = ''v'', pm_symbol = ''+''\<rparr>]"

definition DEFAULT_MAX_MODES :: nat where
  "DEFAULT_MAX_MODES = 3"

definition CONVENTIONAL_RANK :: "string list" where
  "CONVENTIONAL_RANK = [''q'', ''a'', ''o'', ''h'', ''v'']"

text \<open>An item of an array option: a text, an object with its \<open>mode\<close> and \<open>symbol\<close> when they are texts, or
  anything else.\<close>

datatype option_item = ItemText string | ItemPair "string option" "string option" | ItemOther

datatype option_value = OptAbsent | OptTrue | OptNumber "int option" | OptText string | OptArray "option_item list" | OptOther

definition positiveInt :: "(string \<Rightarrow> int option) \<Rightarrow> option_value \<Rightarrow> nat option" where
  "positiveInt to_number v =
     (case (case v of OptText t \<Rightarrow> to_number t | OptNumber n \<Rightarrow> n | _ \<Rightarrow> None) of
        None \<Rightarrow> None
      | Some n \<Rightarrow> if 0 < n then Some (nat n) else None)"

fun item_prefix :: "option_item \<Rightarrow> prefix_mode list" where
  "item_prefix (ItemPair (Some mode) (Some symbol)) =
     (if length mode = 1 then [\<lparr>pm_mode = mode, pm_symbol = symbol\<rparr>] else [])"
| "item_prefix _ = []"

definition parse_prefix :: "option_value \<Rightarrow> prefix_mode list" where
  "parse_prefix raw = (case raw of OptArray items \<Rightarrow> concat (map item_prefix items) | _ \<Rightarrow> DEFAULT_PREFIX)"

definition parse_groups :: "option_value \<Rightarrow> string list" where
  "parse_groups raw =
     (case raw of
        OptArray items \<Rightarrow> map (\<lambda>g. case g of ItemText t \<Rightarrow> t | _ \<Rightarrow> []) items
      | OptText t \<Rightarrow> split_on CHR '','' t
      | _ \<Rightarrow> DEFAULT_CHANMODES)"

text \<open>\<open>group\<close>: the letters no earlier group has claimed, and those now seen.\<close>

fun claim_letters :: "string \<Rightarrow> string list \<Rightarrow> string \<times> string list" where
  "claim_letters [] seen = ([], seen)"
| "claim_letters (c # cs) seen =
     (if [c] \<in> set seen then claim_letters cs seen
      else let (out, seen') = claim_letters cs ([c] # seen) in (c # out, seen'))"

definition group_at :: "string list \<Rightarrow> nat \<Rightarrow> string" where
  "group_at groups i = (if i < length groups then groups ! i else [])"

record mode_options =
  mo_PREFIX :: option_value
  mo_CHANMODES :: option_value
  mo_MODES :: option_value
  mo_TOPICLEN :: option_value

definition parseModeSpec :: "(string \<Rightarrow> int option) \<Rightarrow> mode_options \<Rightarrow> mode_spec" where
  "parseModeSpec to_number opts =
     (let pfx = parse_prefix (mo_PREFIX opts);
          groups = parse_groups (mo_CHANMODES opts);
          (g0, seen0) = claim_letters (group_at groups 0) (map pm_mode pfx);
          (g1, seen1) = claim_letters (group_at groups 1) seen0;
          (g2, seen2) = claim_letters (group_at groups 2) seen1;
          (g3, seen3) = claim_letters (group_at groups 3) seen2
      in \<lparr>sp_list = g0, sp_always = g1, sp_onSet = g2, sp_flags = g3, sp_prefix = pfx,
          sp_maxModes = (if mo_MODES opts = OptTrue then None
                         else case positiveInt to_number (mo_MODES opts) of
                                Some n \<Rightarrow> Some n | None \<Rightarrow> Some DEFAULT_MAX_MODES),
          sp_topicLen = positiveInt to_number (mo_TOPICLEN opts)\<rparr>)"

definition modeTakesParam :: "mode_spec \<Rightarrow> string \<Rightarrow> char \<Rightarrow> bool" where
  "modeTakesParam spec letter sign =
     (if \<exists>p \<in> set (sp_prefix spec). pm_mode p = letter then True
      else if js_includes (sp_list spec) letter \<or> js_includes (sp_always spec) letter then True
      else if js_includes (sp_onSet spec) letter then sign = CHR ''+''
      else False)"

section \<open>Ranks\<close>

text \<open>\<open>findIndex\<close>, with \<open>None\<close> for \<open>-1\<close>.\<close>

fun find_index :: "('a \<Rightarrow> bool) \<Rightarrow> 'a list \<Rightarrow> nat option" where
  "find_index p [] = None"
| "find_index p (x # xs) = (if p x then Some 0 else map_option Suc (find_index p xs))"

definition rankIndex :: "string list option \<Rightarrow> prefix_mode list \<Rightarrow> nat option" where
  "rankIndex modes pfx =
     (case modes of
        None \<Rightarrow> None
      | Some ms \<Rightarrow> if ms = [] then None else find_index (\<lambda>p. pm_mode p \<in> set ms) pfx)"

text \<open>A \<open>Map\<close> from mode to position: the last of two equal modes wins.\<close>

definition rank_order :: "prefix_mode list \<Rightarrow> string \<Rightarrow> nat option" where
  "rank_order pfx = map_of (rev (zip (map pm_mode pfx) [0..<length pfx]))"

definition sortByRank :: "string list \<Rightarrow> prefix_mode list \<Rightarrow> string list" where
  "sortByRank modes pfx =
     sort_key (\<lambda>a. case rank_order pfx a of Some i \<Rightarrow> i | None \<Rightarrow> length pfx) modes"

text \<open>The walk up the conventional ladder from position \<open>start\<close>.\<close>

fun ladder_up :: "prefix_mode list \<Rightarrow> nat \<Rightarrow> nat option" where
  "ladder_up pfx 0 = None"
| "ladder_up pfx (Suc i) =
     (case find_index (\<lambda>p. pm_mode p = CONVENTIONAL_RANK ! i) pfx of
        Some t \<Rightarrow> Some t
      | None \<Rightarrow> ladder_up pfx i)"

definition hasRankAtLeast :: "string list option \<Rightarrow> prefix_mode list \<Rightarrow> string \<Rightarrow> bool" where
  "hasRankAtLeast modes pfx letter =
     (case rankIndex modes pfx of
        None \<Rightarrow> False
      | Some held \<Rightarrow>
          let threshold =
                (case find_index (\<lambda>p. pm_mode p = letter) pfx of
                   Some t \<Rightarrow> Some t
                 | None \<Rightarrow> (case find_index (\<lambda>l. l = letter) CONVENTIONAL_RANK of
                              None \<Rightarrow> None
                            | Some start \<Rightarrow> ladder_up pfx start))
          in case threshold of None \<Rightarrow> False | Some t \<Rightarrow> held \<le> t)"

section \<open>Packing mode changes\<close>

record outgoing_change =
  oc_sign :: char
  oc_letter :: string
  oc_param :: "string option"

definition MODE_LINE_BUDGET :: nat where
  "MODE_LINE_BUDGET = 400"

record batch =
  ba_lines :: "string list"
  ba_letters :: string
  ba_params :: "string list"
  ba_lastSign :: "char option"
  ba_paramCount :: nat

definition render_mode :: "string \<Rightarrow> string \<Rightarrow> string list \<Rightarrow> string" where
  "render_mode target l p = ''MODE '' @ target @ '' '' @ l @ (if p \<noteq> [] then '' '' @ join_with '' '' p else '''')"

definition flush_modes :: "string \<Rightarrow> batch \<Rightarrow> batch" where
  "flush_modes target b =
     \<lparr>ba_lines = (if ba_letters b \<noteq> [] then ba_lines b @ [render_mode target (ba_letters b) (ba_params b)] else ba_lines b),
      ba_letters = [], ba_params = [], ba_lastSign = None, ba_paramCount = 0\<rparr>"

definition has_param :: "outgoing_change \<Rightarrow> bool" where
  "has_param c = (case oc_param c of None \<Rightarrow> False | Some p \<Rightarrow> p \<noteq> [])"

definition add_change :: "string \<Rightarrow> nat option \<Rightarrow> outgoing_change \<Rightarrow> batch \<Rightarrow> batch" where
  "add_change target maxModes c b =
     (let b1 = (if has_param c \<and> (case maxModes of None \<Rightarrow> False | Some n \<Rightarrow> n \<le> ba_paramCount b)
                then flush_modes target b else b);
          piece = (if Some (oc_sign c) = ba_lastSign b1 then [] else [oc_sign c]) @ oc_letter c;
          nextParams = (if has_param c then ba_params b1 @ [the (oc_param c)] else ba_params b1);
          over = (ba_letters b1 \<noteq> [] \<and> MODE_LINE_BUDGET < utf8_length (render_mode target (ba_letters b1 @ piece) nextParams));
          b2 = (if over then flush_modes target b1 else b1);
          piece2 = (if over then oc_sign c # oc_letter c else piece)
      in b2\<lparr>ba_letters := ba_letters b2 @ piece2, ba_lastSign := Some (oc_sign c),
           ba_params := (if has_param c then ba_params b2 @ [the (oc_param c)] else ba_params b2),
           ba_paramCount := (if has_param c then Suc (ba_paramCount b2) else ba_paramCount b2)\<rparr>)"

definition new_batch :: batch where
  "new_batch = \<lparr>ba_lines = [], ba_letters = [], ba_params = [], ba_lastSign = None, ba_paramCount = 0\<rparr>"

definition batchModeLines :: "string \<Rightarrow> outgoing_change list \<Rightarrow> nat option \<Rightarrow> string list" where
  "batchModeLines target changes maxModes =
     ba_lines (flush_modes target (fold (add_change target maxModes) changes new_batch))"

section \<open>Classes of a change\<close>

datatype change_kind = KindPrefix | KindList | KindChan

record mode_change =
  mc_mode :: string
  mc_param :: "string option"
  mc_kind :: "change_kind option"

definition modeLetter :: "string \<Rightarrow> string" where
  "modeLetter mode = (if starts_with mode ''+'' \<or> starts_with mode ''-'' then drop 1 mode else mode)"

definition truthy_param :: "mode_change \<Rightarrow> bool" where
  "truthy_param c = (case mc_param c of None \<Rightarrow> False | Some p \<Rightarrow> p \<noteq> [])"

definition classifyModeChange :: "mode_change \<Rightarrow> string set \<Rightarrow> string set \<Rightarrow> change_kind" where
  "classifyModeChange change prefixModes listModes =
     (let letter = modeLetter (mc_mode change) in
      if truthy_param change \<and> letter \<in> prefixModes then KindPrefix
      else if letter \<in> listModes then KindList
      else KindChan)"

definition status_change :: "mode_change \<Rightarrow> bool" where
  "status_change c = (mc_kind c = Some KindPrefix \<and> truthy_param c)"

definition isChurnMode :: "mode_change list option \<Rightarrow> bool" where
  "isChurnMode modes = (case modes of None \<Rightarrow> False | Some ms \<Rightarrow> ms \<noteq> [] \<and> (\<forall>c \<in> set ms. status_change c))"

definition modeTargets :: "mode_change list option \<Rightarrow> string list" where
  "modeTargets modes = (case modes of None \<Rightarrow> [] | Some ms \<Rightarrow> map (the \<circ> mc_param) (filter status_change ms))"

definition smartHidesMode :: "mode_change list option \<Rightarrow> string option \<Rightarrow> string option \<Rightarrow> (string \<Rightarrow> bool) \<Rightarrow> bool" where
  "smartHidesMode modes actorNick ownNickLc spokeRecently =
     (let own = (case ownNickLc of Some n \<Rightarrow> if n = [] then None else Some n | None \<Rightarrow> None);
          actor = (case actorNick of Some n \<Rightarrow> if n = [] then None else Some n | None \<Rightarrow> None);
          targets = modeTargets modes
      in if \<not> isChurnMode modes then False
         else if own \<noteq> None \<and> actor \<noteq> None \<and> map_option to_lower actor = own then False
         else if own \<noteq> None \<and> (\<exists>t \<in> set targets. Some (to_lower t) = own) then False
         else \<not> (\<exists>t \<in> set targets. spokeRecently t))"

section \<open>The vocabulary's laws\<close>

lemma claim_letters_spec:
  "claim_letters g seen = (out, seen') \<Longrightarrow>
     distinct out \<and> (\<forall>c \<in> set out. [c] \<notin> set seen \<and> c \<in> set g) \<and> set seen' = set seen \<union> (\<lambda>c. [c]) ` set out \<and>
     (\<forall>c \<in> set g. [c] \<in> set seen')"
proof (induction g seen arbitrary: out seen' rule: claim_letters.induct)
  case (2 c cs seen)
  show ?case
  proof (cases "[c] \<in> set seen")
    case True
    with 2 show ?thesis by fastforce
  next
    case False
    obtain o1 s1 where r: "claim_letters cs ([c] # seen) = (o1, s1)" by (meson surj_pair)
    with False 2(3) have "out = c # o1" "seen' = s1" by simp_all
    with False 2(2) [OF False r] show ?thesis by auto
  qed
qed simp

lemma parsed_letters_disjoint:
  assumes "parseModeSpec num opts = spec"
  shows "distinct (sp_list spec @ sp_always spec @ sp_onSet spec @ sp_flags spec) \<and>
    (\<forall>p \<in> set (sp_prefix spec). \<forall>c \<in> set (sp_list spec @ sp_always spec @ sp_onSet spec @ sp_flags spec). [c] \<noteq> pm_mode p)"
proof -
  obtain g0 s0 where 0: "claim_letters (group_at (parse_groups (mo_CHANMODES opts)) 0) (map pm_mode (parse_prefix (mo_PREFIX opts))) = (g0, s0)"
    by (meson surj_pair)
  obtain g1 s1 where 1: "claim_letters (group_at (parse_groups (mo_CHANMODES opts)) 1) s0 = (g1, s1)" by (meson surj_pair)
  obtain g2 s2 where 2: "claim_letters (group_at (parse_groups (mo_CHANMODES opts)) 2) s1 = (g2, s2)" by (meson surj_pair)
  obtain g3 s3 where 3: "claim_letters (group_at (parse_groups (mo_CHANMODES opts)) 3) s2 = (g3, s3)" by (meson surj_pair)
  have e: "sp_list spec = g0" "sp_always spec = g1" "sp_onSet spec = g2" "sp_flags spec = g3"
    "sp_prefix spec = parse_prefix (mo_PREFIX opts)"
    using assms 0 1 2 3 by (auto simp: parseModeSpec_def Let_def)
  from claim_letters_spec [OF 0] claim_letters_spec [OF 1] claim_letters_spec [OF 2] claim_letters_spec [OF 3]
  show ?thesis unfolding e by (auto simp: image_iff)
qed

section \<open>What a packed line says\<close>

text \<open>A line holds a run of changes, its signs restated where they turn.\<close>

fun sign_letters :: "char option \<Rightarrow> outgoing_change list \<Rightarrow> string" where
  "sign_letters sg [] = []"
| "sign_letters sg (c # cs) = (if sg = Some (oc_sign c) then [] else [oc_sign c]) @ oc_letter c @ sign_letters (Some (oc_sign c)) cs"

definition params_of :: "outgoing_change list \<Rightarrow> string list" where
  "params_of cs = map (the \<circ> oc_param) (filter has_param cs)"

definition chunk_line :: "string \<Rightarrow> outgoing_change list \<Rightarrow> string" where
  "chunk_line target cs = render_mode target (sign_letters None cs) (params_of cs)"

definition chunk_fits :: "string \<Rightarrow> nat option \<Rightarrow> outgoing_change list \<Rightarrow> bool" where
  "chunk_fits target maxModes cs \<longleftrightarrow>
     cs \<noteq> [] \<and> (case maxModes of None \<Rightarrow> True | Some n \<Rightarrow> length (params_of cs) \<le> n) \<and>
     (utf8_length (chunk_line target cs) \<le> MODE_LINE_BUDGET \<or> (\<exists>c. cs = [c]))"

definition last_sign :: "outgoing_change list \<Rightarrow> char option" where
  "last_sign cs = (if cs = [] then None else Some (oc_sign (last cs)))"

definition batch_holds :: "string \<Rightarrow> nat option \<Rightarrow> outgoing_change list \<Rightarrow> batch \<Rightarrow> bool" where
  "batch_holds target maxModes dn b \<longleftrightarrow>
     (\<exists>chunks cur. dn = concat chunks @ cur \<and> ba_lines b = map (chunk_line target) chunks \<and>
        (\<forall>ch \<in> set chunks. chunk_fits target maxModes ch) \<and> (cur \<noteq> [] \<longrightarrow> chunk_fits target maxModes cur) \<and>
        ba_letters b = sign_letters None cur \<and> ba_params b = params_of cur \<and> ba_lastSign b = last_sign cur \<and>
        ba_paramCount b = length (params_of cur))"

lemma sign_letters_append:
  "sign_letters s (as @ bs) = sign_letters s as @ sign_letters (if as = [] then s else last_sign as) bs"
  by (induction as arbitrary: s) (auto simp: last_sign_def)

lemma sign_letters_Nil: "sign_letters None cs = [] \<longleftrightarrow> cs = []"
  by (cases cs) auto

lemma params_of_simps [simp]:
  "params_of [] = []" "params_of (as @ bs) = params_of as @ params_of bs"
  "params_of [c] = (if has_param c then [the (oc_param c)] else [])"
  by (simp_all add: params_of_def)

lemma last_sign_snoc [simp]: "last_sign (cs @ [c]) = Some (oc_sign c)" "last_sign [] = None"
  by (simp_all add: last_sign_def)

lemma flush_holds:
  assumes "batch_holds target maxModes dn b"
  shows "\<exists>chunks. dn = concat chunks \<and> (\<forall>ch \<in> set chunks. chunk_fits target maxModes ch) \<and>
    flush_modes target b = \<lparr>ba_lines = map (chunk_line target) chunks, ba_letters = [], ba_params = [],
      ba_lastSign = None, ba_paramCount = 0\<rparr>"
proof -
  obtain chunks cur where c: "dn = concat chunks @ cur" "ba_lines b = map (chunk_line target) chunks"
    "\<forall>ch \<in> set chunks. chunk_fits target maxModes ch" "cur \<noteq> [] \<longrightarrow> chunk_fits target maxModes cur"
    "ba_letters b = sign_letters None cur" "ba_params b = params_of cur"
    using assms by (auto simp: batch_holds_def)
  show ?thesis
  proof (cases "cur = []")
    case True
    with c show ?thesis by (intro exI [of _ chunks]) (simp add: flush_modes_def)
  next
    case False
    with c show ?thesis
      by (intro exI [of _ "chunks @ [cur]"]) (auto simp: flush_modes_def sign_letters_Nil chunk_line_def)
  qed
qed

text \<open>A fresh line takes any one change.\<close>

lemma holds_fresh:
  assumes "dn = concat chunks" "\<forall>ch \<in> set chunks. chunk_fits target maxModes ch" "maxModes \<noteq> Some 0"
  shows "batch_holds target maxModes (dn @ [c])
    \<lparr>ba_lines = map (chunk_line target) chunks, ba_letters = oc_sign c # oc_letter c,
      ba_params = (if has_param c then [the (oc_param c)] else []), ba_lastSign = Some (oc_sign c),
      ba_paramCount = (if has_param c then Suc 0 else 0)\<rparr>"
  unfolding batch_holds_def
  by (rule exI [of _ chunks], rule exI [of _ "[c]"])
    (use assms in \<open>auto simp: chunk_fits_def last_sign_def split: option.split\<close>)

lemma add_change_holds:
  assumes h: "batch_holds target maxModes dn b" and m: "maxModes \<noteq> Some 0"
  shows "batch_holds target maxModes (dn @ [c]) (add_change target maxModes c b)"
proof -
  let ?full = "has_param c \<and> (case maxModes of None \<Rightarrow> False | Some n \<Rightarrow> n \<le> ba_paramCount b)"
  let ?over = "\<lambda>b1. ba_letters b1 \<noteq> [] \<and> MODE_LINE_BUDGET < utf8_length (render_mode target
      (ba_letters b1 @ (if Some (oc_sign c) = ba_lastSign b1 then [] else [oc_sign c]) @ oc_letter c)
      (if has_param c then ba_params b1 @ [the (oc_param c)] else ba_params b1))"
  obtain chunks where f: "dn = concat chunks" "\<forall>ch \<in> set chunks. chunk_fits target maxModes ch"
    "flush_modes target b = \<lparr>ba_lines = map (chunk_line target) chunks, ba_letters = [], ba_params = [],
      ba_lastSign = None, ba_paramCount = 0\<rparr>"
    using flush_holds [OF h] by blast
  show ?thesis
  proof (cases "?full \<or> ?over b")
    case True
    then have "add_change target maxModes c b =
      \<lparr>ba_lines = map (chunk_line target) chunks, ba_letters = oc_sign c # oc_letter c,
      ba_params = (if has_param c then [the (oc_param c)] else []), ba_lastSign = Some (oc_sign c),
      ba_paramCount = (if has_param c then Suc 0 else 0)\<rparr>"
      by (auto simp: add_change_def Let_def f(3))
    then show ?thesis using holds_fresh [OF f(1,2) m] by simp
  next
    case False
    obtain chunks cur where c: "dn = concat chunks @ cur" "ba_lines b = map (chunk_line target) chunks"
      "\<forall>ch \<in> set chunks. chunk_fits target maxModes ch" "cur \<noteq> [] \<longrightarrow> chunk_fits target maxModes cur"
      "ba_letters b = sign_letters None cur" "ba_params b = params_of cur" "ba_lastSign b = last_sign cur"
      "ba_paramCount b = length (params_of cur)"
      using h by (auto simp: batch_holds_def)
    have l: "ba_letters b @ (if Some (oc_sign c) = ba_lastSign b then [] else [oc_sign c]) @ oc_letter c =
        sign_letters None (cur @ [c])"
      by (auto simp: c sign_letters_append last_sign_def)
    have e: "add_change target maxModes c b = b\<lparr>ba_letters := sign_letters None (cur @ [c]),
        ba_lastSign := Some (oc_sign c), ba_params := params_of (cur @ [c]), ba_paramCount := length (params_of (cur @ [c]))\<rparr>"
      using False l by (auto simp: add_change_def Let_def c)
    have fits: "chunk_fits target maxModes (cur @ [c])"
      using False m c l by (auto simp: chunk_fits_def chunk_line_def sign_letters_Nil not_less split: option.splits)
    show ?thesis
      unfolding batch_holds_def e
      by (rule exI [of _ chunks], rule exI [of _ "cur @ [c]"]) (use c fits in simp)
  qed
qed

text \<open>The lines are the changes cut into runs that fit.\<close>

lemma batchModeLines_chunks:
  assumes "maxModes \<noteq> Some 0"
  shows "\<exists>chunks. changes = concat chunks \<and> (\<forall>ch \<in> set chunks. chunk_fits target maxModes ch) \<and>
    batchModeLines target changes maxModes = map (chunk_line target) chunks"
proof -
  have "batch_holds target maxModes (dn @ changes) (fold (add_change target maxModes) changes b)"
    if "batch_holds target maxModes dn b" for dn b
    using that
  proof (induction changes arbitrary: dn b)
    case (Cons c cs)
    from Cons.IH [OF add_change_holds [OF Cons.prems assms]] show ?case by simp
  qed simp
  moreover have "batch_holds target maxModes [] new_batch"
    unfolding batch_holds_def new_batch_def by (rule exI [of _ "[]"], rule exI [of _ "[]"]) simp
  ultimately have "batch_holds target maxModes changes (fold (add_change target maxModes) changes new_batch)" by force
  from flush_holds [OF this] show ?thesis by (auto simp: batchModeLines_def)
qed

section \<open>Reading the lines back\<close>

text \<open>How a server reads the letters and parameters of a MODE line: \<open>takes\<close> says which changes take a
  parameter.\<close>

fun read_changes :: "(string \<Rightarrow> char \<Rightarrow> bool) \<Rightarrow> char \<Rightarrow> string \<Rightarrow> string list \<Rightarrow> outgoing_change list" where
  "read_changes takes sg [] ps = []"
| "read_changes takes sg (c # cs) ps =
     (if c = CHR ''+'' \<or> c = CHR ''-'' then read_changes takes c cs ps
      else if takes [c] sg then
        \<lparr>oc_sign = sg, oc_letter = [c], oc_param = (case ps of [] \<Rightarrow> None | p # _ \<Rightarrow> Some p)\<rparr> # read_changes takes sg cs (tl ps)
      else \<lparr>oc_sign = sg, oc_letter = [c], oc_param = None\<rparr> # read_changes takes sg cs ps)"

text \<open>The parameters of an IRC line, its words: an empty word is a blank too many, and one that starts with a colon is the last
  and holds the rest of the line, blanks and all.\<close>

fun irc_params :: "string list \<Rightarrow> string list" where
  "irc_params [] = []"
| "irc_params ([] # ws) = irc_params ws"
| "irc_params ((c # w) # ws) = (if c = CHR '':'' then [join_with '' '' (w # ws)] else (c # w) # irc_params ws)"

definition read_line :: "(string \<Rightarrow> char \<Rightarrow> bool) \<Rightarrow> string \<Rightarrow> outgoing_change list" where
  "read_line takes line =
     (case irc_params (split_on CHR '' '' line) of
        _ # _ # letters # ps \<Rightarrow> read_changes takes CHR ''+'' letters ps
      | _ \<Rightarrow> [])"

text \<open>A word that is one parameter wherever it stands.\<close>

definition one_param :: "string \<Rightarrow> bool" where
  "one_param p \<longleftrightarrow> p \<noteq> [] \<and> CHR '' '' \<notin> set p \<and> hd p \<noteq> CHR '':''"

lemma irc_params_words: "\<forall>w \<in> set ws. one_param w \<Longrightarrow> irc_params ws = ws"
  by (induction ws rule: irc_params.induct) (auto simp: one_param_def)

text \<open>A change as \<open>set_channel_modes\<close> hands it on: one letter, a parameter exactly when the mode takes one, and that one
  parameter.\<close>

definition change_ok :: "(string \<Rightarrow> char \<Rightarrow> bool) \<Rightarrow> outgoing_change \<Rightarrow> bool" where
  "change_ok takes c \<longleftrightarrow>
     oc_sign c \<in> {CHR ''+'', CHR ''-''} \<and>
     (\<exists>x. oc_letter c = [x] \<and> x \<notin> {CHR ''+'', CHR ''-'', CHR '' ''}) \<and>
     (takes (oc_letter c) (oc_sign c) \<longleftrightarrow> has_param c) \<and> (\<not> has_param c \<longrightarrow> oc_param c = None) \<and>
     (\<forall>p. oc_param c = Some p \<longrightarrow> one_param p)"

lemma change_cases:
  assumes "change_ok takes c"
  obtains x where "c = \<lparr>oc_sign = oc_sign c, oc_letter = [x], oc_param = (if has_param c then Some (the (oc_param c)) else None)\<rparr>"
    "x \<notin> {CHR ''+'', CHR ''-'', CHR '' ''}" "takes [x] (oc_sign c) = has_param c" "oc_sign c \<in> {CHR ''+'', CHR ''-''}"
proof -
  obtain x where x: "oc_letter c = [x]" "x \<notin> {CHR ''+'', CHR ''-'', CHR '' ''}"
    using assms by (auto simp: change_ok_def)
  have "c = \<lparr>oc_sign = oc_sign c, oc_letter = [x], oc_param = (if has_param c then Some (the (oc_param c)) else None)\<rparr>"
    using assms x(1) by (cases c) (auto simp: change_ok_def has_param_def split: option.splits)
  with x assms show ?thesis by (intro that [of x]) (auto simp: change_ok_def)
qed

lemma read_sign_letters:
  assumes "\<forall>c \<in> set cs. change_ok takes c"
    "read_sg = (case sg of None \<Rightarrow> CHR ''+'' | Some s \<Rightarrow> s)"
  shows "read_changes takes read_sg (sign_letters sg cs) (params_of cs) = cs"
  using assms
proof (induction cs arbitrary: sg read_sg)
  case (Cons c cs)
  then have "change_ok takes c" by simp
  then obtain x where x: "c = \<lparr>oc_sign = oc_sign c, oc_letter = [x], oc_param = (if has_param c then Some (the (oc_param c)) else None)\<rparr>"
    "x \<notin> {CHR ''+'', CHR ''-'', CHR '' ''}" "takes [x] (oc_sign c) = has_param c" "oc_sign c \<in> {CHR ''+'', CHR ''-''}"
    by (rule change_cases)
  then have l: "oc_letter c = [x]" by (metis outgoing_change.select_convs(2))
  have p: "params_of (c # cs) = (if has_param c then [the (oc_param c)] else []) @ params_of cs"
    by (simp add: params_of_def)
  have ih: "read_changes takes (oc_sign c) (sign_letters (Some (oc_sign c)) cs) (params_of cs) = cs"
    using Cons by (intro Cons.IH) simp_all
  have "read_changes takes (oc_sign c) (x # sign_letters (Some (oc_sign c)) cs) (params_of (c # cs)) = c # cs"
  proof (cases "has_param c")
    case True
    have "\<lparr>oc_sign = oc_sign c, oc_letter = [x], oc_param = Some (the (oc_param c))\<rparr> = c"
      using l True by (cases c) (auto simp: has_param_def split: option.splits)
    with x(2,3) ih True show ?thesis by (simp add: p)
  next
    case False
    have "\<lparr>oc_sign = oc_sign c, oc_letter = [x], oc_param = None\<rparr> = c"
      using l False \<open>change_ok takes c\<close> by (cases c) (auto simp: change_ok_def)
    with x(2,3) ih False show ?thesis by (simp add: p)
  qed
  moreover have "read_changes takes read_sg (sign_letters sg (c # cs)) ps =
      read_changes takes (oc_sign c) (x # sign_letters (Some (oc_sign c)) cs) ps" for ps
    using Cons.prems(2) x(4) by (auto simp: l)
  ultimately show ?case by metis
qed (simp add: params_of_def)

lemma sign_letters_no_space: "\<forall>c \<in> set cs. change_ok takes c \<Longrightarrow> CHR '' '' \<notin> set (sign_letters sg cs)"
  by (induction cs arbitrary: sg) (auto simp: change_ok_def)

lemma sign_letters_start: "cs \<noteq> [] \<Longrightarrow> \<forall>c \<in> set cs. change_ok takes c \<Longrightarrow> one_param (sign_letters None cs)"
proof -
  assume ne: "cs \<noteq> []" and ok: "\<forall>c \<in> set cs. change_ok takes c"
  obtain c rest where c: "cs = c # rest" using ne by (cases cs) auto
  have "oc_sign c \<noteq> CHR '':''" using ok c by (auto simp: change_ok_def)
  moreover have "CHR '' '' \<notin> set (sign_letters None cs)" by (rule sign_letters_no_space [OF ok])
  ultimately show ?thesis unfolding one_param_def using c by simp
qed

lemma read_chunk_line:
  assumes ok: "\<forall>c \<in> set cs. change_ok takes c" and ne: "cs \<noteq> []" and t: "one_param target"
  shows "read_line takes (chunk_line target cs) = cs"
proof -
  let ?l = "sign_letters None cs" and ?ws = "''MODE'' # target # sign_letters None cs # params_of cs"
  have np: "\<forall>p \<in> set (params_of cs). one_param p"
    using ok by (auto simp: params_of_def change_ok_def has_param_def split: option.splits)
  then have w: "\<forall>w \<in> set ?ws. one_param w"
    using t sign_letters_start [OF ne ok] by (simp add: one_param_def)
  have "chunk_line target cs = join_with '' '' ?ws"
    by (cases "params_of cs") (simp_all add: chunk_line_def render_mode_def)
  moreover have "split_on CHR '' '' (join_with '' '' ?ws) = ?ws"
    using w unfolding one_param_def by (intro split_on_join) blast+
  ultimately show ?thesis
    using read_sign_letters [OF ok, of _ None] irc_params_words [OF w] by (simp add: read_line_def)
qed

section \<open>The verb that sets modes\<close>

text \<open>\<open>server/services/verbs/setChannelModes.ts\<close>.  A field of a change as it came: not there, a text, or anything else.\<close>

datatype raw_value = RawMissing | RawText string | RawOther

record raw_change =
  rw_sign :: raw_value
  rw_letter :: raw_value
  rw_param :: raw_value

definition one_letter :: "string \<Rightarrow> bool" where
  "one_letter s \<longleftrightarrow> length s = 1 \<and> (let n = of_char (hd s) :: nat in 65 \<le> n \<and> n \<le> 90 \<or> 97 \<le> n \<and> n \<le> 122)"

definition known_mode :: "mode_spec \<Rightarrow> string \<Rightarrow> bool" where
  "known_mode spec letter \<longleftrightarrow>
     (\<exists>p \<in> set (sp_prefix spec). pm_mode p = letter) \<or>
     (\<exists>g \<in> {sp_list spec, sp_always spec, sp_onSet spec, sp_flags spec}. js_includes g letter)"

definition param_malformed :: "string \<Rightarrow> bool" where
  "param_malformed p \<longleftrightarrow> (\<exists>c \<in> set p. is_space c \<or> c = CHR 0x00) \<or> starts_with p '':''"

definition checkParam :: "mode_spec \<Rightarrow> char \<Rightarrow> string \<Rightarrow> raw_value \<Rightarrow> string + outgoing_change" where
  "checkParam spec sign letter param =
     (let needs = modeTakesParam spec letter sign in
      if param = RawMissing \<or> param = RawText [] then
        (if needs \<and> \<not> (sign = CHR ''-'' \<and> letter = ''k'') then Inl (''param-required:'' @ letter)
         else Inr \<lparr>oc_sign = sign, oc_letter = letter, oc_param = None\<rparr>)
      else if \<not> needs then Inl (''param-not-taken:'' @ sign # letter)
      else (case param of
              RawText p \<Rightarrow> if param_malformed p then Inl (''param-malformed:'' @ letter)
                          else Inr \<lparr>oc_sign = sign, oc_letter = letter, oc_param = Some p\<rparr>
            | _ \<Rightarrow> Inl (''param-malformed:'' @ letter)))"

definition checkChange :: "mode_spec \<Rightarrow> raw_change option \<Rightarrow> string + outgoing_change" where
  "checkChange spec raw =
     (case raw of
        None \<Rightarrow> Inl ''change-must-be-an-object''
      | Some r \<Rightarrow>
          if rw_sign r \<noteq> RawText ''+'' \<and> rw_sign r \<noteq> RawText ''-'' then Inl ''sign-must-be-plus-or-minus''
          else (case rw_letter r of
            RawText letter \<Rightarrow>
              if \<not> one_letter letter then Inl ''letter-must-be-one-mode-letter''
              else if \<not> known_mode spec letter then Inl (''unknown-mode:'' @ letter)
              else checkParam spec (if rw_sign r = RawText ''+'' then CHR ''+'' else CHR ''-'') letter (rw_param r)
          | _ \<Rightarrow> Inl ''letter-must-be-one-mode-letter''))"

text \<open>A bare \<open>-k\<close> is given the key stored for the channel, or a star.\<close>

definition key_or_star :: "string option \<Rightarrow> string" where
  "key_or_star key = (case key of None \<Rightarrow> ''*'' | Some k \<Rightarrow> if k = [] then ''*'' else k)"

definition name_key :: "mode_spec \<Rightarrow> string option \<Rightarrow> outgoing_change \<Rightarrow> outgoing_change" where
  "name_key spec key c =
     (if oc_sign c = CHR ''-'' \<and> oc_letter c = ''k'' \<and> \<not> has_param c \<and> modeTakesParam spec ''k'' (CHR ''-'')
      then c\<lparr>oc_param := Some (key_or_star key)\<rparr> else c)"

fun accept_changes :: "mode_spec \<Rightarrow> string option \<Rightarrow> raw_change option list \<Rightarrow> string + outgoing_change list" where
  "accept_changes spec key [] = Inr []"
| "accept_changes spec key (r # rs) =
     (case checkChange spec r of
        Inl e \<Rightarrow> Inl e
      | Inr c \<Rightarrow> (case accept_changes spec key rs of Inl e \<Rightarrow> Inl e | Inr cs \<Rightarrow> Inr (name_key spec key c # cs)))"

text \<open>The handler, on a target and a connection already looked up: the error, or the lines it sends.\<close>

definition set_channel_modes ::
  "bool \<Rightarrow> (mode_spec \<times> string \<times> string option) option \<Rightarrow> raw_change option list \<Rightarrow> string + string list" where
  "set_channel_modes is_channel conn raws =
     (if \<not> is_channel then Inl ''not-a-channel''
      else if raws = [] then Inl ''no-changes''
      else case conn of
        None \<Rightarrow> Inl ''not-connected''
      | Some (spec, name, key) \<Rightarrow>
          (case accept_changes spec key raws of
             Inl e \<Rightarrow> Inl e
           | Inr changes \<Rightarrow> Inr (batchModeLines name changes (sp_maxModes spec))))"

text \<open>What a caller asks for with a change: itself, and with a bare \<open>-k\<close> the removal of the key that is stored.\<close>

definition asks_for :: "mode_spec \<Rightarrow> string option \<Rightarrow> raw_change option \<Rightarrow> outgoing_change \<Rightarrow> bool" where
  "asks_for spec key raw c \<longleftrightarrow>
     (\<exists>r. raw = Some r \<and> rw_sign r = RawText [oc_sign c] \<and> rw_letter r = RawText (oc_letter c) \<and>
        (if rw_param r = RawMissing \<or> rw_param r = RawText []
         then oc_param c = (if modeTakesParam spec (oc_letter c) (oc_sign c) then Some (key_or_star key) else None)
         else \<exists>p. rw_param r = RawText p \<and> oc_param c = Some p))"

lemma checkChange_asks:
  assumes "checkChange spec raw = Inr c" "\<forall>k. key = Some k \<longrightarrow> k = [] \<or> one_param k"
  shows "asks_for spec key raw (name_key spec key c) \<and> change_ok (modeTakesParam spec) (name_key spec key c)"
proof -
  obtain r letter where r: "raw = Some r" "rw_letter r = RawText letter" "one_letter letter" "known_mode spec letter"
      "rw_sign r = RawText ''+'' \<or> rw_sign r = RawText ''-''"
      "checkParam spec (if rw_sign r = RawText ''+'' then CHR ''+'' else CHR ''-'') letter (rw_param r) = Inr c"
    using assms(1) by (auto simp: checkChange_def split: option.splits raw_value.splits if_splits)
  define sign where "sign = (if rw_sign r = RawText ''+'' then CHR ''+'' else CHR ''-'')"
  have sg: "rw_sign r = RawText [sign]" "sign \<in> {CHR ''+'', CHR ''-''}" using r(5) by (auto simp: sign_def)
  have ps: "checkParam spec sign letter (rw_param r) = Inr c" using r(6) by (simp only: sign_def)
  obtain x where x: "letter = [x]" using r(3) by (cases letter) (auto simp: one_letter_def)
  have xs: "x \<notin> {CHR ''+'', CHR ''-'', CHR '' ''}" using r(3) unfolding x one_letter_def by (auto simp: Let_def)
  have key: "one_param (key_or_star key)"
    using assms(2) by (cases key) (auto simp: key_or_star_def one_param_def)
  show ?thesis
  proof (cases "rw_param r = RawMissing \<or> rw_param r = RawText []")
    case True
    then have c: "c = \<lparr>oc_sign = sign, oc_letter = letter, oc_param = None\<rparr>"
      and n: "modeTakesParam spec letter sign \<Longrightarrow> sign = CHR ''-'' \<and> letter = ''k''"
      using ps by (auto simp: checkParam_def Let_def split: if_splits)
    have "key_or_star key \<noteq> []" using key by (simp add: one_param_def)
    then show ?thesis using r(1,2) sg True n x xs key
      by (cases "modeTakesParam spec letter sign") (auto simp: asks_for_def name_key_def change_ok_def c has_param_def)
  next
    case False
    then obtain p where p: "rw_param r = RawText p" "\<not> param_malformed p" "modeTakesParam spec letter sign" "p \<noteq> []"
        "c = \<lparr>oc_sign = sign, oc_letter = letter, oc_param = Some p\<rparr>"
      using ps by (auto simp: checkParam_def Let_def split: if_splits raw_value.splits)
    have "one_param p"
    proof -
      have "is_space CHR '' ''" by code_simp
      then have "CHR '' '' \<notin> set p" using p(2) unfolding param_malformed_def by blast
      moreover have "hd p \<noteq> CHR '':''"
      proof
        assume "hd p = CHR '':''"
        with p(4) obtain q where "p = CHR '':'' # q" by (cases p) auto
        then have "starts_with p '':''" by (simp add: starts_with_def)
        with p(2) show False by (simp add: param_malformed_def)
      qed
      ultimately show ?thesis using p(4) by (simp add: one_param_def)
    qed
    then show ?thesis using r(1,2) sg p x xs False
      by (auto simp: asks_for_def name_key_def change_ok_def has_param_def)
  qed
qed

lemma accept_changes_asks:
  "accept_changes spec key raws = Inr changes \<Longrightarrow> \<forall>k. key = Some k \<longrightarrow> k = [] \<or> one_param k \<Longrightarrow>
   list_all2 (asks_for spec key) raws changes \<and> (\<forall>c \<in> set changes. change_ok (modeTakesParam spec) c)"
proof (induction raws arbitrary: changes)
  case (Cons r rs)
  obtain c cs where c: "checkChange spec r = Inr c" "accept_changes spec key rs = Inr cs" "changes = name_key spec key c # cs"
    using Cons.prems(1) by (auto split: sum.splits)
  from Cons.IH [OF c(2) Cons.prems(2)] checkChange_asks [OF c(1) Cons.prems(2)] show ?case by (simp add: c(3))
qed simp

text \<open>C15: What \<open>set_channel_modes\<close> sends says what its caller asked: when it takes the changes, the lines, each read as a
  server reads an IRC line, a parameter behind a colon swallowing the rest, are the changes in their order, a bare \<open>-k\<close>
  with the key stored; a line has no more parameters than the network takes, and is within the byte budget unless it is of
  a single change.  The channel's name is one parameter, and so is its key, when one is stored.\<close>

theorem packed_modes_read_back:
  assumes "spec = parseModeSpec num opts" "one_param name" "\<forall>k. key = Some k \<longrightarrow> k = [] \<or> one_param k"
    "set_channel_modes is_channel (Some (spec, name, key)) raws = Inr lines"
  shows "list_all2 (asks_for spec key) raws (concat (map (read_line (modeTakesParam spec)) lines)) \<and>
    (\<forall>line \<in> set lines.
       read_line (modeTakesParam spec) line \<noteq> [] \<and>
       (case sp_maxModes spec of None \<Rightarrow> True | Some n \<Rightarrow> length (filter has_param (read_line (modeTakesParam spec) line)) \<le> n) \<and>
       (utf8_length line \<le> MODE_LINE_BUDGET \<or> length (read_line (modeTakesParam spec) line) = 1))"
proof -
  let ?takes = "modeTakesParam spec"
  obtain changes where ch: "accept_changes spec key raws = Inr changes" "lines = batchModeLines name changes (sp_maxModes spec)"
    using assms(4) by (auto simp: set_channel_modes_def split: if_splits sum.splits)
  note ok = accept_changes_asks [OF ch(1) assms(3)]
  have m: "sp_maxModes spec \<noteq> Some 0"
    unfolding assms(1) by (auto simp: parseModeSpec_def Let_def split_beta positiveInt_def DEFAULT_MAX_MODES_def split: option.splits if_splits)
  obtain chunks where c: "changes = concat chunks" "\<forall>ch \<in> set chunks. chunk_fits name (sp_maxModes spec) ch"
    "lines = map (chunk_line name) chunks"
    using batchModeLines_chunks [OF m] ch(2) by blast
  have r: "read_line ?takes (chunk_line name cs) = cs" if "cs \<in> set chunks" for cs
    using that ok assms(2) c(1,2) by (intro read_chunk_line) (auto simp: chunk_fits_def)
  have "map (read_line ?takes \<circ> chunk_line name) chunks = chunks"
    using r by (simp add: map_idI)
  then have "concat (map (read_line ?takes) lines) = changes"
    using c(1,3) by (simp only: map_map)
  moreover have "read_line ?takes line \<noteq> [] \<and>
       (case sp_maxModes spec of None \<Rightarrow> True | Some n \<Rightarrow> length (filter has_param (read_line ?takes line)) \<le> n) \<and>
       (utf8_length line \<le> MODE_LINE_BUDGET \<or> length (read_line ?takes line) = 1)"
    if line: "line \<in> set lines" for line
  proof -
    obtain cs where cs: "cs \<in> set chunks" "line = chunk_line name cs" using line unfolding c(3) by auto
    then have e: "read_line ?takes line = cs" and fits: "chunk_fits name (sp_maxModes spec) cs" using r c(2) by auto
    from fits show ?thesis
      unfolding e unfolding cs(2) by (auto simp: chunk_fits_def params_of_def split: option.splits)
  qed
  ultimately show ?thesis using ok by simp
qed

definition sample_mode_options :: mode_options where
  "sample_mode_options = \<lparr>mo_PREFIX = OptAbsent, mo_CHANMODES = OptAbsent, mo_MODES = OptNumber (Some 1), mo_TOPICLEN = OptAbsent\<rparr>"

definition sample_changes :: "raw_change option list" where
  "sample_changes =
     [Some \<lparr>rw_sign = RawText ''+'', rw_letter = RawText ''o'', rw_param = RawText ''amy''\<rparr>,
      Some \<lparr>rw_sign = RawText ''+'', rw_letter = RawText ''m'', rw_param = RawMissing\<rparr>,
      Some \<lparr>rw_sign = RawText ''-'', rw_letter = RawText ''k'', rw_param = RawMissing\<rparr>]"

lemma packed_modes_read_back_witness:
  "set_channel_modes True (Some (parseModeSpec (\<lambda>_. None) sample_mode_options, ''#c'', Some ''s3'')) sample_changes =
     Inr [''MODE #c +om amy'', ''MODE #c -k s3''] \<and>
   list_all2 (asks_for (parseModeSpec (\<lambda>_. None) sample_mode_options) (Some ''s3'')) sample_changes
     (concat (map (read_line (modeTakesParam (parseModeSpec (\<lambda>_. None) sample_mode_options))) [''MODE #c +om amy'', ''MODE #c -k s3'']))"
proof -
  have b: "set_channel_modes True (Some (parseModeSpec (\<lambda>_. None) sample_mode_options, ''#c'', Some ''s3'')) sample_changes =
     Inr [''MODE #c +om amy'', ''MODE #c -k s3'']"
    by code_simp
  from packed_modes_read_back [OF refl _ _ b] b show ?thesis by (simp add: one_param_def)
qed

section \<open>Ranks and churn\<close>

lemma sortByRank_permutes: "mset (sortByRank modes pfx) = mset modes"
  by (simp add: sortByRank_def)

lemma find_index_Some: "find_index p xs = Some i \<Longrightarrow> i < length xs \<and> p (xs ! i) \<and> (\<forall>j < i. \<not> p (xs ! j))"
proof (induction xs arbitrary: i)
  case (Cons x xs)
  show ?case
  proof (cases i)
    case (Suc k)
    with Cons show ?thesis by (auto simp: less_Suc_eq_0_disj split: if_splits)
  qed (use Cons.prems in \<open>auto split: if_splits\<close>)
qed simp

text \<open>A rank gate on a letter the network has opens only to a member holding that letter's rank or a higher one.\<close>

lemma rank_gate:
  assumes "hasRankAtLeast (Some ms) pfx letter" "find_index (\<lambda>p. pm_mode p = letter) pfx = Some t"
  shows "\<exists>i \<le> t. pm_mode (pfx ! i) \<in> set ms"
proof -
  obtain held where h: "find_index (\<lambda>p. pm_mode p \<in> set ms) pfx = Some held" "held \<le> t"
    using assms by (auto simp: hasRankAtLeast_def rankIndex_def split: option.splits if_splits)
  from find_index_Some [OF h(1)] h(2) show ?thesis by auto
qed

text \<open>The smart filter hides only rows made of member-status changes, none on a nick that spoke lately.\<close>

lemma smart_hides_only_churn:
  "smartHidesMode (Some ms) actor own spoke \<Longrightarrow>
     (\<forall>c \<in> set ms. mc_kind c = Some KindPrefix) \<and> (\<forall>t \<in> set (modeTargets (Some ms)). \<not> spoke t)"
  by (auto simp: smartHidesMode_def isChurnMode_def status_change_def Let_def split: if_splits)

end
