(* ===== verification/Mode_Narration.thy ===== *)
theory Mode_Narration imports Channel_Modes begin

text \<open>
  \<open>shared/modeNarration.ts\<close>: a MODE row as a sentence.  The letters are texts, as in the code; the two
  phrase tables are maps.
\<close>

datatype mode_segment = SegText string | SegNick string | SegArg string

definition PREFIX_NAMES :: "(string \<times> string) list" where
  "PREFIX_NAMES = [(''q'', ''owner''), (''a'', ''admin''), (''o'', ''op''), (''h'', ''half-op''), (''v'', ''voice'')]"

definition prefixSegments :: "char \<Rightarrow> string \<Rightarrow> string \<Rightarrow> mode_segment list" where
  "prefixSegments sign letter param =
     (let name = (case map_of PREFIX_NAMES letter of Some n \<Rightarrow> n | None \<Rightarrow> ''+'' @ letter) in
      [SegText (if sign = CHR ''+'' then '' gave '' @ name @ '' to '' else '' took '' @ name @ '' from ''), SegNick param])"

definition LIST_PHRASES :: "(string \<times> string \<times> string) list" where
  "LIST_PHRASES =
     [(''b'', '' banned '', '' unbanned ''), (''q'', '' quieted '', '' unquieted ''),
      (''e'', '' added a ban exemption for '', '' removed the ban exemption for ''),
      (''I'', '' added an invite exception for '', '' removed the invite exception for '')]"

definition listSegments :: "char \<Rightarrow> string \<Rightarrow> string \<Rightarrow> mode_segment list" where
  "listSegments sign letter param =
     (let add = (sign = CHR ''+'') in
      case map_of LIST_PHRASES letter of
        Some (on, off) \<Rightarrow> [SegText (if add then on else off), SegArg param]
      | None \<Rightarrow>
          [SegText (if add then '' added '' else '' removed ''), SegArg param,
           SegText (if add then '' to the +'' @ letter @ '' list'' else '' from the +'' @ letter @ '' list'')])"

definition given_param :: "string option \<Rightarrow> string option" where
  "given_param p = (case p of Some t \<Rightarrow> if t = [] then None else Some t | None \<Rightarrow> None)"

definition chanSegments :: "char \<Rightarrow> string \<Rightarrow> string option \<Rightarrow> mode_segment list" where
  "chanSegments sign letter param =
     (let add = (sign = CHR ''+'') in
      if letter = ''k'' then [SegText (if add then '' set a channel key'' else '' removed the channel key'')]
      else if letter = ''l'' then
        (if \<not> add then [SegText '' removed the user limit'']
         else case given_param param of
                Some p \<Rightarrow> [SegText '' set the user limit to '', SegArg p]
              | None \<Rightarrow> [SegText '' set a user limit''])
      else if letter = ''t'' then [SegText (if add then '' locked the topic'' else '' unlocked the topic'')]
      else if letter = ''n'' then [SegText (if add then '' blocked outside messages'' else '' allowed outside messages'')]
      else if letter = ''i'' then [SegText (if add then '' made the channel invite-only'' else '' removed invite-only'')]
      else if letter = ''m'' then [SegText (if add then '' made the channel moderated'' else '' removed moderation'')]
      else if letter = ''s'' then [SegText (if add then '' made the channel secret'' else '' removed secret'')]
      else if letter = ''p'' then [SegText (if add then '' made the channel private'' else '' removed private'')]
      else case (given_param param, add) of
             (Some p, True) \<Rightarrow> [SegText ('' set +'' @ letter @ '' to ''), SegArg p]
           | _ \<Rightarrow> [SegText (if add then '' set +'' @ letter else '' unset +'' @ letter)])"

definition raw_part :: "mode_change \<Rightarrow> string" where
  "raw_part c =
     (if modeLetter (mc_mode c) = ''k'' then mc_mode c
      else case given_param (mc_param c) of Some p \<Rightarrow> mc_mode c @ '' '' @ p | None \<Rightarrow> mc_mode c)"

definition rawSegments :: "mode_change list \<Rightarrow> mode_segment list" where
  "rawSegments modes = [SegText '' set '', SegArg (join_with '' '' (map raw_part modes))]"

definition withoutKeyParam :: "string \<Rightarrow> string" where
  "withoutKeyParam t =
     (let modeToken = takeWhile (\<lambda>c. \<not> is_space c) t in
      if CHR ''k'' \<in> set modeToken then modeToken else t)"

definition describeMode :: "mode_change list option \<Rightarrow> string option \<Rightarrow> mode_segment list" where
  "describeMode modes rawText =
     (case filter (\<lambda>m. mc_mode m \<noteq> []) (case modes of None \<Rightarrow> [] | Some ms \<Rightarrow> ms) of
        [] \<Rightarrow>
          (let t = withoutKeyParam (js_trim (case rawText of None \<Rightarrow> [] | Some r \<Rightarrow> r)) in
           if t = [] then [SegText '' changed the channel modes''] else [SegText '' set '', SegArg t])
      | [c] \<Rightarrow>
          (let sign = (if starts_with (mc_mode c) ''-'' then CHR ''-'' else CHR ''+'');
               letter = modeLetter (mc_mode c)
           in case (mc_kind c, given_param (mc_param c)) of
                (Some KindPrefix, Some p) \<Rightarrow> prefixSegments sign letter p
              | (Some KindList, Some p) \<Rightarrow> listSegments sign letter p
              | (Some KindChan, _) \<Rightarrow> chanSegments sign letter (mc_param c)
              | _ \<Rightarrow> rawSegments [c])
      | cs \<Rightarrow> rawSegments cs)"

section \<open>The channel key\<close>

text \<open>Another key in place of the one a row carries.\<close>

definition other_key :: "(mode_change \<Rightarrow> string option) \<Rightarrow> mode_change \<Rightarrow> mode_change" where
  "other_key r c = (if modeLetter (mc_mode c) = ''k'' then c\<lparr>mc_param := r c\<rparr> else c)"

lemma other_key_simps [simp]:
  "mc_mode (other_key r c) = mc_mode c" "mc_kind (other_key r c) = mc_kind c" "raw_part (other_key r c) = raw_part c"
  "modeLetter (mc_mode c) \<noteq> ''k'' \<Longrightarrow> other_key r c = c"
  by (simp_all add: other_key_def raw_part_def)

lemma rawSegments_other_key [simp]: "rawSegments (map (other_key r) cs) = rawSegments cs"
  by (simp add: rawSegments_def comp_def)

lemma js_trim_token:
  assumes "tok \<noteq> []" "\<forall>c \<in> set tok. \<not> is_space c"
  shows "takeWhile (\<lambda>c. \<not> is_space c) (js_trim (tok @ CHR '' '' # rest)) = tok"
proof -
  have sp: "is_space CHR '' ''" by code_simp
  have "dropWhile is_space (tok @ CHR '' '' # rest) = tok @ CHR '' '' # rest"
    using assms by (cases tok) auto
  moreover have "dropWhile is_space (rev rest @ CHR '' '' # rev tok) =
      (if \<forall>c \<in> set rest. is_space c then rev tok else dropWhile is_space (rev rest) @ CHR '' '' # rev tok)"
  proof (cases "\<forall>c \<in> set rest. is_space c")
    case True
    then have "dropWhile is_space (rev rest @ CHR '' '' # rev tok) = dropWhile is_space (CHR '' '' # rev tok)"
      by (intro dropWhile_append2) simp
    also have "\<dots> = dropWhile is_space (rev tok)" using sp by simp
    also have "\<dots> = rev tok" using assms by (cases "rev tok") auto
    finally show ?thesis using True by simp
  next
    case False
    then show ?thesis by (auto simp: dropWhile_append)
  qed
  ultimately show ?thesis
    using assms(2) sp by (auto simp: js_trim_def takeWhile_append2 takeWhile_tail)
qed

text \<open>C17: A narrated MODE row tells nothing of a channel key: the sentence is the same whatever the
  parameters of its key changes are (the server stamps \<open>k\<close> as a channel mode or not at all), and a
  row with only its wire text is the same whatever follows letters that include a \<open>k\<close>.\<close>

theorem narration_hides_the_key:
  assumes "\<forall>c \<in> set ms. modeLetter (mc_mode c) = ''k'' \<longrightarrow> mc_kind c \<notin> {Some KindPrefix, Some KindList}"
    "CHR ''k'' \<in> set tok" "\<forall>c \<in> set tok. \<not> is_space c"
  shows "describeMode (Some (map (other_key r) ms)) raw = describeMode (Some ms) raw \<and>
    describeMode None (Some (tok @ CHR '' '' # params)) = [SegText '' set '', SegArg tok]"
proof
  let ?f = "filter (\<lambda>m. mc_mode m \<noteq> [])"
  have f: "?f (map (other_key r) ms) = map (other_key r) (?f ms)"
    by (simp add: filter_map comp_def)
  have cs: "\<forall>c \<in> set (?f ms). modeLetter (mc_mode c) = ''k'' \<longrightarrow> mc_kind c \<notin> {Some KindPrefix, Some KindList}"
    using assms(1) by simp
  show "describeMode (Some (map (other_key r) ms)) raw = describeMode (Some ms) raw"
  proof (cases "?f ms")
    case Nil
    then show ?thesis by (simp add: describeMode_def f)
  next
    case (Cons c cs')
    note C = Cons
    show ?thesis
    proof (cases cs')
      case Nil
      show ?thesis
      proof (cases "modeLetter (mc_mode c) = ''k''")
        case True
        with cs C have "mc_kind c \<notin> {Some KindPrefix, Some KindList}" by simp
        moreover have "rawSegments [other_key r c] = rawSegments [c]"
          using rawSegments_other_key [of r "[c]"] by (simp del: rawSegments_other_key)
        ultimately show ?thesis
          using C Nil f True
          by (cases "mc_kind c")
            (auto simp: describeMode_def chanSegments_def Let_def split: option.splits change_kind.splits)
      qed (use C Nil f in \<open>simp add: describeMode_def\<close>)
    next
      case (Cons c' cs'')
      have "rawSegments (map (other_key r) (c # c' # cs'')) = rawSegments (c # c' # cs'')"
        by (rule rawSegments_other_key)
      with C Cons f show ?thesis by (simp add: describeMode_def)
    qed
  qed
  have "tok \<noteq> []" using assms(2) by auto
  then have "takeWhile (\<lambda>c. \<not> is_space c) (js_trim (tok @ CHR '' '' # params)) = tok"
    using assms(3) by (rule js_trim_token)
  then show "describeMode None (Some (tok @ CHR '' '' # params)) = [SegText '' set '', SegArg tok]"
    using assms(2) \<open>tok \<noteq> []\<close> by (simp add: describeMode_def withoutKeyParam_def)
qed

lemma narration_hides_the_key_witness:
  "describeMode (Some [\<lparr>mc_mode = ''+k'', mc_param = Some ''hunter2'', mc_kind = Some KindChan\<rparr>]) None =
     describeMode (Some [\<lparr>mc_mode = ''+k'', mc_param = Some ''other'', mc_kind = Some KindChan\<rparr>]) None \<and>
   describeMode None (Some ''+k hunter2'') = [SegText '' set '', SegArg ''+k'']"
proof -
  let ?ms = "[\<lparr>mc_mode = ''+k'', mc_param = Some ''hunter2'', mc_kind = Some KindChan\<rparr>]"
  have l: "modeLetter ''+k'' = ''k''" by code_simp
  have "\<forall>c \<in> set ''+k''. \<not> is_space c" by code_simp
  from narration_hides_the_key [OF _ _ this, of ?ms "\<lambda>_. Some ''other''" None "''hunter2''"] show ?thesis
    by (simp add: other_key_def l)
qed

end
