(* ===== verification/Consolidate.thy ===== *)
theory Consolidate imports "HOL-Library.AList" Channel_Modes Proxy_Config begin

text \<open>
  \<open>shared/consolidate.ts\<close>: runs of join/part/quit/nick/chghost rows, and of op and voice churn, folded
  into one summary row.  A row is extensible, as the code's \<open>R extends MessageStreamRow\<close> is.
  Two objects that are the same entry are the same position, so \<open>rankEntries\<close> is a stable sort.
\<close>

section \<open>Types\<close>

datatype row_id = NumberId int | TextId string

record cmsg =
  cm_id :: "row_id option"
  cm_type :: string
  cm_nick :: "string option"
  cm_newNick :: "string option"
  cm_time :: string
  cm_modes :: "mode_change list option"

record stream_row =
  sr_m :: "cmsg option"
  sr_key :: row_id

datatype event_action = ActJoin | ActLeave | ActRename | ActRehost

datatype consolidation_kind = Joined | Left | Reconnected | JoinedAndLeft | Renamed | Rehosted
  | ModeGranted | ModeRevoked | ModeBriefly | ModeRegranted

datatype name_entry = NickEntry string | RenameEntry string string

record consolidation_group =
  cg_kind :: consolidation_kind
  cg_visible :: "name_entry list"
  cg_hidden :: nat
  cg_letter :: "string option"

record consolidation_row =
  cr_groups :: "consolidation_group list"
  cr_eventCount :: nat
  cr_time :: string
  cr_firstId :: "row_id option"
  cr_lastId :: "row_id option"
  cr_key :: string

datatype 'r out_row = PlainRow 'r | SummaryRow consolidation_row

record consolidate_options =
  op_enabled :: "bool option"
  op_recentSpeakers :: "string list option"
  op_maxNames :: nat

record identity_state =
  id_displayNick :: string
  id_originalNick :: string
  id_actions :: "event_action list"
  id_seenIndex :: nat

record mode_state =
  ms_nick :: string
  ms_letter :: string
  ms_first :: char
  ms_last :: char
  ms_seen :: nat

section \<open>What folds, and how it is classified\<close>

definition CONSOLIDATABLE_TYPES :: "string list" where
  "CONSOLIDATABLE_TYPES = [''join'', ''part'', ''quit'', ''nick'', ''chghost'']"

definition foldsIntoRun :: "cmsg \<Rightarrow> bool" where
  "foldsIntoRun m =
     (if cm_type m \<in> set CONSOLIDATABLE_TYPES then True
      else cm_type m = ''mode'' \<and> isChurnMode (cm_modes m))"

definition classify :: "event_action list \<Rightarrow> consolidation_kind" where
  "classify actions =
     (let jl = filter (\<lambda>a. a = ActJoin \<or> a = ActLeave) actions in
      if jl = [] then (if ActRename \<in> set actions then Renamed else Rehosted)
      else
      let wasPresent = (hd jl = ActLeave); isPresent = (last jl = ActJoin) in
      if \<not> wasPresent \<and> isPresent then Joined
      else if wasPresent \<and> \<not> isPresent then Left
      else if \<not> wasPresent \<and> \<not> isPresent then JoinedAndLeft
      else Reconnected)"

definition entry_name :: "name_entry \<Rightarrow> string" where
  "entry_name e = (case e of NickEntry n \<Rightarrow> n | RenameEntry _ new \<Rightarrow> new)"

definition rankEntries :: "name_entry list \<Rightarrow> string list option \<Rightarrow> name_entry list" where
  "rankEntries entries speakers =
     sort_key (\<lambda>e. case speakers of
                     None \<Rightarrow> 1 :: nat
                   | Some s \<Rightarrow> if to_lower (entry_name e) \<in> set s then 0 else 1) entries"

definition cap :: "name_entry list \<Rightarrow> nat \<Rightarrow> string list option \<Rightarrow> name_entry list \<times> nat" where
  "cap entries maxNames speakers =
     (if length entries \<le> maxNames then (entries, 0)
      else let ranked = rankEntries entries speakers in (take maxNames ranked, length ranked - maxNames))"

definition classifyMode :: "char \<Rightarrow> char \<Rightarrow> consolidation_kind" where
  "classifyMode first final =
     (if first = CHR ''+'' then (if final = CHR ''+'' then ModeGranted else ModeBriefly)
      else if final = CHR ''+'' then ModeRegranted else ModeRevoked)"

section \<open>Mode changes of a run\<close>

definition pair_key :: "string \<Rightarrow> string \<Rightarrow> string" where
  "pair_key nick letter = to_lower nick @ [char_of (0 :: nat)] @ letter"

definition change_sign :: "mode_change \<Rightarrow> char" where
  "change_sign c = (if starts_with (mc_mode c) ''-'' then CHR ''-'' else CHR ''+'')"

definition note_change :: "mode_change \<Rightarrow> (string \<times> mode_state) list \<times> nat \<Rightarrow> (string \<times> mode_state) list \<times> nat" where
  "note_change c ns =
     (let (net, seen) = ns in
      if \<not> status_change c then (net, seen)
      else
      let letter = modeLetter (mc_mode c) in
      if letter = [] then (net, seen)
      else
      let key = pair_key (the (mc_param c)) letter; sign = change_sign c; prev = map_of net key in
      (AList.update key
         \<lparr>ms_nick = the (mc_param c), ms_letter = letter,
          ms_first = (case prev of Some p \<Rightarrow> ms_first p | None \<Rightarrow> sign), ms_last = sign,
          ms_seen = (case prev of Some p \<Rightarrow> ms_seen p | None \<Rightarrow> seen)\<rparr> net,
       case prev of Some p \<Rightarrow> seen | None \<Rightarrow> Suc seen))"

definition event_changes :: "cmsg \<Rightarrow> mode_change list" where
  "event_changes e = (case cm_modes e of None \<Rightarrow> [] | Some ms \<Rightarrow> ms)"

definition net_modes :: "cmsg list \<Rightarrow> (string \<times> mode_state) list" where
  "net_modes events = fst (fold note_change (concat (map event_changes events)) ([], 0))"

record mode_bucket =
  mb_kind :: consolidation_kind
  mb_letter :: string
  mb_entries :: "name_entry list"
  mb_seen :: nat

definition fill_bucket :: "mode_state \<Rightarrow> ((consolidation_kind \<times> string) \<times> mode_bucket) list \<Rightarrow> ((consolidation_kind \<times> string) \<times> mode_bucket) list" where
  "fill_bucket st buckets =
     (let kind = classifyMode (ms_first st) (ms_last st);
          bucket = (case map_of buckets (kind, ms_letter st) of
                      Some b \<Rightarrow> b
                    | None \<Rightarrow> \<lparr>mb_kind = kind, mb_letter = ms_letter st, mb_entries = [], mb_seen = ms_seen st\<rparr>)
      in AList.update (kind, ms_letter st) (bucket\<lparr>mb_entries := mb_entries bucket @ [NickEntry (ms_nick st)]\<rparr>) buckets)"

definition mode_buckets :: "cmsg list \<Rightarrow> mode_bucket list" where
  "mode_buckets events = map snd (fold fill_bucket (sort_key ms_seen (map snd (net_modes events))) [])"

definition modeGroups :: "cmsg list \<Rightarrow> nat \<Rightarrow> string list option \<Rightarrow> consolidation_group list" where
  "modeGroups events maxNames speakers =
     map (\<lambda>b. let (visible, hidden) = cap (mb_entries b) maxNames speakers in
            \<lparr>cg_kind = mb_kind b, cg_visible = visible, cg_hidden = hidden, cg_letter = Some (mb_letter b)\<rparr>)
       (sort_key mb_seen (mode_buckets events))"

section \<open>A run\<close>

definition text_or :: "string option \<Rightarrow> string" where
  "text_or t = (case t of Some s \<Rightarrow> s | None \<Rightarrow> [])"

definition action_of :: "string \<Rightarrow> event_action list" where
  "action_of type =
     (if type = ''join'' then [ActJoin]
      else if type = ''part'' \<or> type = ''quit'' then [ActLeave]
      else if type = ''chghost'' then [ActRehost]
      else [])"

definition note_presence :: "cmsg \<Rightarrow> (string \<times> identity_state) list \<times> nat \<Rightarrow> (string \<times> identity_state) list \<times> nat" where
  "note_presence e ns =
     (let (ids, seen) = ns; nick = text_or (cm_nick e); newNick = text_or (cm_newNick e) in
      if cm_type e = ''nick'' then
        case map_of ids (to_lower nick) of
          Some st \<Rightarrow>
            (AList.update (to_lower newNick)
               (st\<lparr>id_actions := id_actions st @ [ActRename], id_displayNick := newNick\<rparr>)
               (AList.delete (to_lower nick) ids), seen)
        | None \<Rightarrow>
            (AList.update (to_lower newNick)
               \<lparr>id_displayNick = newNick, id_originalNick = nick, id_actions = [ActRename], id_seenIndex = seen\<rparr> ids,
             Suc seen)
      else
        case map_of ids (to_lower nick) of
          Some st \<Rightarrow>
            (AList.update (to_lower nick) (st\<lparr>id_actions := id_actions st @ action_of (cm_type e)\<rparr>) ids, seen)
        | None \<Rightarrow>
            (AList.update (to_lower nick)
               \<lparr>id_displayNick = nick, id_originalNick = nick, id_actions = action_of (cm_type e), id_seenIndex = seen\<rparr> ids,
             Suc seen))"

definition identities :: "cmsg list \<Rightarrow> identity_state list" where
  "identities events = sort_key id_seenIndex (map snd (fst (fold note_presence events ([], 0))))"

definition identity_entry :: "identity_state \<Rightarrow> name_entry" where
  "identity_entry st =
     (if classify (id_actions st) = Renamed then RenameEntry (id_originalNick st) (id_displayNick st)
      else NickEntry (id_displayNick st))"

definition groupOrder :: "consolidation_kind list" where
  "groupOrder = [Joined, Left, Reconnected, JoinedAndLeft, Renamed, Rehosted]"

definition presence_groups :: "identity_state list \<Rightarrow> nat \<Rightarrow> string list option \<Rightarrow> consolidation_group list" where
  "presence_groups ids maxNames speakers =
     concat (map (\<lambda>kind.
       let bucket = map identity_entry (filter (\<lambda>st. classify (id_actions st) = kind) ids) in
       if bucket = [] then []
       else let (visible, hidden) = cap bucket maxNames speakers in
            [\<lparr>cg_kind = kind, cg_visible = visible, cg_hidden = hidden, cg_letter = None\<rparr>]) groupOrder)"

definition consolidateRun :: "string list option \<Rightarrow> nat \<Rightarrow> cmsg list \<Rightarrow> consolidation_group list" where
  "consolidateRun recentSpeakers maxNames events =
     (let speakers = map_option (map to_lower) recentSpeakers;
          names = max 1 (if maxNames = 0 then 5 else maxNames);
          modeEvents = filter (\<lambda>e. cm_type e = ''mode'') events;
          presenceEvents = (if modeEvents \<noteq> [] then filter (\<lambda>e. cm_type e \<noteq> ''mode'') events else events)
      in presence_groups (identities presenceEvents) names speakers @ modeGroups modeEvents names speakers)"

section \<open>The rows\<close>

definition id_text :: "row_id \<Rightarrow> string" where
  "id_text i = (case i of TextId t \<Rightarrow> t
     | NumberId n \<Rightarrow> (if n < 0 then CHR ''-'' # digits_of (nat (- n)) else digits_of (nat n)))"

definition flush_run :: "string list option \<Rightarrow> nat \<Rightarrow> 'a stream_row_scheme list \<Rightarrow> 'a stream_row_scheme out_row list" where
  "flush_run speakers maxNames run =
     (if run = [] then []
      else if length run = 1 then [PlainRow (hd run)]
      else
      let events = map (the \<circ> sr_m) run; groups = consolidateRun speakers maxNames events in
      if groups = [] then map PlainRow run
      else [SummaryRow \<lparr>cr_groups = groups, cr_eventCount = length events, cr_time = cm_time (last events),
              cr_firstId = cm_id (hd events), cr_lastId = cm_id (last events),
              cr_key = ''cons:'' @ id_text (sr_key (hd run)) @ ''-'' @ id_text (sr_key (last run))\<rparr>])"

definition row_folds :: "'a stream_row_scheme \<Rightarrow> bool" where
  "row_folds r = (case sr_m r of None \<Rightarrow> False | Some m \<Rightarrow> foldsIntoRun m)"

fun walk_rows :: "string list option \<Rightarrow> nat \<Rightarrow> 'a stream_row_scheme list \<Rightarrow> 'a stream_row_scheme list
    \<Rightarrow> 'a stream_row_scheme out_row list" where
  "walk_rows speakers maxNames run [] = flush_run speakers maxNames run"
| "walk_rows speakers maxNames run (r # rows) =
     (if row_folds r then walk_rows speakers maxNames (run @ [r]) rows
      else flush_run speakers maxNames run @ PlainRow r # walk_rows speakers maxNames [] rows)"

definition consolidateRows :: "'a stream_row_scheme list \<Rightarrow> consolidate_options \<Rightarrow> 'a stream_row_scheme out_row list" where
  "consolidateRows rows options =
     (if op_enabled options \<noteq> Some True then map PlainRow rows
      else walk_rows (op_recentSpeakers options) (if op_maxNames options = 0 then 5 else op_maxNames options) [] rows)"

definition index_rows :: "cmsg list \<Rightarrow> stream_row list" where
  "index_rows messages =
     map (\<lambda>(i, msg). \<lparr>sr_m = Some msg,
            sr_key = (case cm_id msg of Some k \<Rightarrow> k | None \<Rightarrow> TextId (''idx:'' @ digits_of i))\<rparr>)
       (zip [0..<length messages] messages)"

definition consolidateMessages :: "cmsg list \<Rightarrow> consolidate_options \<Rightarrow> stream_row out_row list" where
  "consolidateMessages messages options =
     consolidateRows (index_rows messages)
       (options\<lparr>op_enabled := (case op_enabled options of None \<Rightarrow> Some True | Some b \<Rightarrow> Some b)\<rparr>)"

section \<open>Rows are kept\<close>

text \<open>The rows cut into maximal runs of folding rows and single others.\<close>

function segments :: "'a stream_row_scheme list \<Rightarrow> 'a stream_row_scheme list list" where
  "segments [] = []"
| "segments (r # rs) =
     (if row_folds r then (r # takeWhile row_folds rs) # segments (dropWhile row_folds rs) else [r] # segments rs)"
  by pat_completeness auto
termination by (relation "measure length") (auto simp: le_imp_less_Suc length_dropWhile_le)

definition rows_of :: "'r out_row \<Rightarrow> nat" where
  "rows_of out = (case out of PlainRow _ \<Rightarrow> 1 | SummaryRow s \<Rightarrow> cr_eventCount s)"

fun plain_row :: "'r out_row \<Rightarrow> 'r list" where
  "plain_row (PlainRow r) = [r]"
| "plain_row (SummaryRow _) = []"

lemma concat_segments: "concat (segments rows) = rows"
  by (induction rows rule: segments.induct) simp_all

lemma walk_segments:
  "walk_rows sp n run rows =
     (if run = [] then concat (map (flush_run sp n) (segments rows))
      else flush_run sp n (run @ takeWhile row_folds rows) @
           concat (map (flush_run sp n) (segments (dropWhile row_folds rows))))"
proof (induction sp n run rows rule: walk_rows.induct)
  case (1 sp n run)
  show ?case by (simp add: flush_run_def)
next
  case (2 sp n run r rows)
  have one: "flush_run sp n [r] = [PlainRow r]" by (simp add: flush_run_def)
  show ?case
  proof (cases "row_folds r")
    case True
    with 2(1) show ?thesis by simp
  next
    case False
    with 2(2) one show ?thesis by (simp add: flush_run_def)
  qed
qed

lemma rows_of_flush: "sum_list (map rows_of (flush_run sp n run)) = length run"
  by (cases run) (auto simp: flush_run_def rows_of_def Let_def comp_def sum_list_triv)

lemma plain_of_flush:
  assumes "(\<exists>r. run = [r] \<and> \<not> row_folds r) \<or> (\<forall>r \<in> set run. row_folds r)"
  shows "filter (\<lambda>r. \<not> row_folds r) (concat (map plain_row (flush_run sp n run))) = filter (\<lambda>r. \<not> row_folds r) run"
proof -
  have p: "concat (map plain_row (map PlainRow run)) = run" by (induction run) auto
  consider "run = []" | r where "run = [r]" | "length run > 1" "\<forall>r \<in> set run. row_folds r"
    using assms by (cases run rule: remdups_adj.cases) auto
  then show ?thesis
  proof cases
    case 3
    then have "filter (\<lambda>r. \<not> row_folds r) run = []" "run \<noteq> []" by auto
    with 3 p show ?thesis by (auto simp: flush_run_def Let_def)
  qed (simp_all add: flush_run_def)
qed

lemma segment_shape:
  "run \<in> set (segments rows) \<Longrightarrow> (\<exists>r. run = [r] \<and> \<not> row_folds r) \<or> (\<forall>r \<in> set run. row_folds r)"
  by (induction rows rule: segments.induct) (auto split: if_splits dest: set_takeWhileD)

lemma flush_summary:
  "SummaryRow s \<in> set (flush_run sp n run) \<Longrightarrow>
     1 < length run \<and> cr_groups s = consolidateRun sp n (map (the \<circ> sr_m) run) \<and> cr_groups s \<noteq> [] \<and>
     cr_eventCount s = length run"
  by (cases run) (auto simp: flush_run_def Let_def split: if_splits)

text \<open>C16: The stream is cut into its maximal runs of folding rows and every other row: each run of two or
  more becomes one summary that counts all of its rows and has something to say, or stands as its own
  rows; a row that does not fold is always shown, in its place; and every row is counted once.\<close>

theorem consolidation_keeps_rows:
  assumes "op_enabled options = Some True"
  shows "\<exists>sp n. consolidateRows rows options = concat (map (flush_run sp n) (segments rows)) \<and>
    concat (segments rows) = rows \<and>
    sum_list (map rows_of (consolidateRows rows options)) = length rows \<and>
    filter (\<lambda>r. \<not> row_folds r) (concat (map plain_row (consolidateRows rows options))) = filter (\<lambda>r. \<not> row_folds r) rows \<and>
    (\<forall>s. SummaryRow s \<in> set (consolidateRows rows options) \<longrightarrow>
       (\<exists>run \<in> set (segments rows). 1 < length run \<and> (\<forall>r \<in> set run. row_folds r) \<and> cr_eventCount s = length run \<and>
          cr_groups s = consolidateRun sp n (map (the \<circ> sr_m) run) \<and> cr_groups s \<noteq> []))"
proof -
  define sp where "sp = op_recentSpeakers options"
  define n where "n = (if op_maxNames options = 0 then 5 else op_maxNames options)"
  have out: "consolidateRows rows options = concat (map (flush_run sp n) (segments rows))"
    using assms by (simp add: consolidateRows_def walk_segments sp_def n_def)
  have "sum_list (map rows_of (concat (map (flush_run sp n) segs))) = length (concat segs)" for segs
    by (induction segs) (simp_all add: rows_of_flush)
  from this [of "segments rows"] have c: "sum_list (map rows_of (consolidateRows rows options)) = length rows"
    by (simp only: out concat_segments)
  have "filter (\<lambda>r. \<not> row_folds r) (concat (map plain_row (concat (map (flush_run sp n) segs)))) =
      filter (\<lambda>r. \<not> row_folds r) (concat segs)"
    if "\<forall>run \<in> set segs. (\<exists>r. run = [r] \<and> \<not> row_folds r) \<or> (\<forall>r \<in> set run. row_folds r)" for segs
    using that by (induction segs) (simp_all add: plain_of_flush)
  then have p: "filter (\<lambda>r. \<not> row_folds r) (concat (map plain_row (consolidateRows rows options))) = filter (\<lambda>r. \<not> row_folds r) rows"
    using segment_shape by (metis out concat_segments)
  have "\<exists>run \<in> set (segments rows). 1 < length run \<and> (\<forall>r \<in> set run. row_folds r) \<and> cr_eventCount s = length run \<and>
          cr_groups s = consolidateRun sp n (map (the \<circ> sr_m) run) \<and> cr_groups s \<noteq> []"
    if s: "SummaryRow s \<in> set (consolidateRows rows options)" for s
  proof -
    obtain run where run: "run \<in> set (segments rows)" "SummaryRow s \<in> set (flush_run sp n run)"
      using s unfolding out by auto
    from flush_summary [OF run(2)] segment_shape [OF run(1)] show ?thesis by (intro bexI [OF _ run(1)]) auto
  qed
  with out c p show ?thesis using concat_segments by blast
qed

definition sample_event :: "string \<Rightarrow> string \<Rightarrow> string \<Rightarrow> int \<Rightarrow> cmsg" where
  "sample_event type nick newNick i =
     \<lparr>cm_id = Some (NumberId i), cm_type = type, cm_nick = Some nick, cm_newNick = Some newNick, cm_time = ''t'', cm_modes = None\<rparr>"

definition sample_rows :: "stream_row list" where
  "sample_rows = index_rows [sample_event ''join'' ''amy'' '''' 5, sample_event ''quit'' ''amy'' '''' 6,
     sample_event ''message'' ''zoe'' '''' 7, sample_event ''part'' ''bob'' '''' 8]"

lemma consolidation_keeps_rows_witness:
  "\<exists>s. consolidateRows sample_rows \<lparr>op_enabled = Some True, op_recentSpeakers = None, op_maxNames = 3\<rparr> =
     [SummaryRow s, PlainRow (sample_rows ! 2), PlainRow (sample_rows ! 3)] \<and> cr_eventCount s = 2 \<and> cr_groups s \<noteq> []"
proof -
  let ?o = "\<lparr>op_enabled = Some True, op_recentSpeakers = None, op_maxNames = 3\<rparr>"
  have f: "map row_folds sample_rows = [True, True, False, True]" by code_simp
  obtain s where s: "consolidateRows sample_rows ?o = [SummaryRow s, PlainRow (sample_rows ! 2), PlainRow (sample_rows ! 3)]"
    "cr_eventCount s = 2"
    by (rule that [of "case hd (consolidateRows sample_rows ?o) of SummaryRow s \<Rightarrow> s"]) code_simp+
  have "op_enabled ?o = Some True" by simp
  from consolidation_keeps_rows [OF this, of sample_rows] s show ?thesis by (auto simp: rows_of_def)
qed

section \<open>Mode changes are not lost\<close>

definition folded_change :: "mode_change \<Rightarrow> bool" where
  "folded_change c \<longleftrightarrow> status_change c \<and> modeLetter (mc_mode c) \<noteq> []"

definition change_key :: "mode_change \<Rightarrow> string" where
  "change_key c = pair_key (the (mc_param c)) (modeLetter (mc_mode c))"

text \<open>The changes to one nick and letter, in order.\<close>

definition pair_changes :: "mode_change list \<Rightarrow> string \<Rightarrow> mode_change list" where
  "pair_changes cs k = filter (\<lambda>c. folded_change c \<and> change_key c = k) cs"

definition net_entry :: "mode_change list \<Rightarrow> string \<Rightarrow> nat \<Rightarrow> mode_state" where
  "net_entry cs k i =
     (let pc = pair_changes cs k in
      \<lparr>ms_nick = the (mc_param (last pc)), ms_letter = modeLetter (mc_mode (last pc)),
       ms_first = change_sign (hd pc), ms_last = change_sign (last pc), ms_seen = i\<rparr>)"

lemma pair_changes_snoc:
  "pair_changes (cs @ [c]) k = pair_changes cs k @ (if folded_change c \<and> change_key c = k then [c] else [])"
  by (simp add: pair_changes_def)

lemma pair_changes_Nil: "pair_changes cs k = [] \<longleftrightarrow> k \<notin> change_key ` {c \<in> set cs. folded_change c}"
  by (auto simp: pair_changes_def filter_empty_conv)

lemma note_change_skip: "\<not> folded_change c \<Longrightarrow> note_change c ns = ns"
  by (cases ns) (auto simp: note_change_def folded_change_def Let_def)

lemma note_change_new:
  "folded_change c \<Longrightarrow> note_change c (net, seen) =
     (AList.update (change_key c)
        \<lparr>ms_nick = the (mc_param c), ms_letter = modeLetter (mc_mode c),
         ms_first = (case map_of net (change_key c) of Some p \<Rightarrow> ms_first p | None \<Rightarrow> change_sign c), ms_last = change_sign c,
         ms_seen = (case map_of net (change_key c) of Some p \<Rightarrow> ms_seen p | None \<Rightarrow> seen)\<rparr> net,
      case map_of net (change_key c) of Some p \<Rightarrow> seen | None \<Rightarrow> Suc seen)"
  by (simp add: note_change_def folded_change_def change_key_def Let_def)

lemma net_spec:
  "keys_distinct (fst (fold note_change cs ([], 0))) \<and>
   (\<forall>k. if pair_changes cs k = [] then map_of (fst (fold note_change cs ([], 0))) k = None
        else \<exists>i. map_of (fst (fold note_change cs ([], 0))) k = Some (net_entry cs k i))"
proof (induction cs rule: rev_induct)
  case Nil
  show ?case by (simp add: pair_changes_def)
next
  case (snoc c cs)
  obtain net seen where ns: "fold note_change cs ([], 0) = (net, seen)" by (meson surj_pair)
  have ih: "keys_distinct net" "pair_changes cs k = [] \<Longrightarrow> map_of net k = None"
    "pair_changes cs k \<noteq> [] \<Longrightarrow> \<exists>i. map_of net k = Some (net_entry cs k i)" for k
    using snoc [unfolded ns fst_conv] by presburger+
  show ?case
  proof (cases "folded_change c")
    case False
    then have "pair_changes (cs @ [c]) = pair_changes cs" by (intro ext) (simp add: pair_changes_snoc)
    moreover from this have "net_entry (cs @ [c]) = net_entry cs" by (intro ext) (simp add: net_entry_def)
    ultimately show ?thesis using snoc False by (simp add: note_change_skip)
  next
    case True
    have o: "map_of (fst (note_change c (net, seen))) k = map_of net k" if "k \<noteq> change_key c" for k
      using that True by (simp add: note_change_new update_conv')
    have "\<exists>i. map_of (fst (note_change c (net, seen))) (change_key c) = Some (net_entry (cs @ [c]) (change_key c) i)"
    proof (cases "pair_changes cs (change_key c) = []")
      case True
      with ih(2) have "map_of net (change_key c) = None" by blast
      with True \<open>folded_change c\<close> show ?thesis
        by (simp add: note_change_new update_conv' net_entry_def pair_changes_snoc Let_def)
    next
      case False
      with ih(3) obtain i where "map_of net (change_key c) = Some (net_entry cs (change_key c) i)" by blast
      with False \<open>folded_change c\<close> show ?thesis
        by (simp add: note_change_new update_conv' net_entry_def pair_changes_snoc Let_def)
    qed
    moreover have "keys_distinct (fst (note_change c (net, seen)))"
      using ih(1) True by (simp add: note_change_new om.wf_set)
    moreover have "pair_changes (cs @ [c]) (change_key c) \<noteq> []" using True by (simp add: pair_changes_snoc)
    moreover have "pair_changes (cs @ [c]) k = pair_changes cs k" "net_entry (cs @ [c]) k = net_entry cs k"
      if "k \<noteq> change_key c" for k
      using that by (auto simp: pair_changes_snoc net_entry_def)
    moreover have "if pair_changes (cs @ [c]) k = [] then map_of (fst (note_change c (net, seen))) k = None
        else \<exists>i. map_of (fst (note_change c (net, seen))) k = Some (net_entry (cs @ [c]) k i)" for k
      using calculation o [of k] ih(2,3) [of k] by (cases "k = change_key c") presburger+
    ultimately show ?thesis using ns by simp
  qed
qed

definition state_kind :: "mode_state \<Rightarrow> consolidation_kind \<times> string" where
  "state_kind st = (classifyMode (ms_first st) (ms_last st), ms_letter st)"

lemma fill_bucket_eq:
  "fill_bucket st bs = AList.update (state_kind st)
     ((case map_of bs (state_kind st) of Some b \<Rightarrow> b
        | None \<Rightarrow> \<lparr>mb_kind = fst (state_kind st), mb_letter = snd (state_kind st), mb_entries = [], mb_seen = ms_seen st\<rparr>)
      \<lparr>mb_entries := mb_entries (case map_of bs (state_kind st) of Some b \<Rightarrow> b
        | None \<Rightarrow> \<lparr>mb_kind = fst (state_kind st), mb_letter = snd (state_kind st), mb_entries = [], mb_seen = ms_seen st\<rparr>)
          @ [NickEntry (ms_nick st)]\<rparr>) bs"
  unfolding fill_bucket_def state_kind_def Let_def fst_conv snd_conv ..

definition bucket_size :: "('k \<times> mode_bucket) list \<Rightarrow> nat" where
  "bucket_size bs = sum_list (map (\<lambda>x. length (mb_entries (snd x))) bs)"

lemma bucket_size_update:
  "bucket_size (AList.update k b bs) + (case map_of bs k of Some old \<Rightarrow> length (mb_entries old) | None \<Rightarrow> 0) =
     bucket_size bs + length (mb_entries b)"
  by (induction bs) (auto simp: bucket_size_def split: option.splits)

lemma buckets_spec:
  "keys_distinct (fold fill_bucket sts []) \<and> bucket_size (fold fill_bucket sts []) = length sts \<and>
   (\<forall>st \<in> set sts. \<exists>b. map_of (fold fill_bucket sts []) (state_kind st) = Some b \<and> NickEntry (ms_nick st) \<in> set (mb_entries b)) \<and>
   (\<forall>(kl, b) \<in> set (fold fill_bucket sts []). (mb_kind b, mb_letter b) = kl)"
proof (induction sts rule: rev_induct)
  case Nil
  show ?case by (simp add: bucket_size_def)
next
  case (snoc st sts)
  let ?bs = "fold fill_bucket sts []"
  obtain old where old: "old = (case map_of ?bs (state_kind st) of Some b \<Rightarrow> b
        | None \<Rightarrow> \<lparr>mb_kind = fst (state_kind st), mb_letter = snd (state_kind st), mb_entries = [], mb_seen = ms_seen st\<rparr>)" by simp
  let ?b = "old\<lparr>mb_entries := mb_entries old @ [NickEntry (ms_nick st)]\<rparr>"
  have f: "fill_bucket st ?bs = AList.update (state_kind st) ?b ?bs" by (simp add: fill_bucket_eq old)
  have named: "(mb_kind old, mb_letter old) = state_kind st"
    using snoc by (cases "map_of ?bs (state_kind st)") (auto simp: old dest!: map_of_SomeD)
  have size: "bucket_size (AList.update (state_kind st) ?b ?bs) = Suc (length sts)"
    using bucket_size_update [of "state_kind st" ?b ?bs] snoc by (cases "map_of ?bs (state_kind st)") (auto simp: old)
  have mem: "\<exists>b. map_of (AList.update (state_kind st) ?b ?bs) (state_kind x) = Some b \<and> NickEntry (ms_nick x) \<in> set (mb_entries b)"
    if "x \<in> set (sts @ [st])" for x
    using that snoc by (cases "state_kind x = state_kind st") (auto simp: update_conv' old split: option.split)
  have "set (AList.update (state_kind st) ?b ?bs) \<subseteq> insert (state_kind st, ?b) (set ?bs)"
    by (rule set_alist_update)
  moreover have "\<forall>(kl, b) \<in> insert (state_kind st, ?b) (set ?bs). (mb_kind b, mb_letter b) = kl"
    using snoc named by simp
  ultimately have "\<forall>(kl, b) \<in> set (AList.update (state_kind st) ?b ?bs). (mb_kind b, mb_letter b) = kl"
    by (meson subsetD)
  moreover have "keys_distinct (AList.update (state_kind st) ?b ?bs)" using snoc by (simp add: om.wf_set)
  ultimately show ?case using size mem by (simp add: f)
qed

lemma length_cap: "cap es n sp = (v, h) \<Longrightarrow> length v + h = length es \<and> length v \<le> n \<and> set v \<subseteq> set es \<and> (h = 0 \<longrightarrow> set v = set es)"
  by (auto simp: cap_def rankEntries_def Let_def split: if_splits dest: in_set_takeD)

lemma length_net: "length (net_modes evs) = card (change_key ` {c \<in> set (concat (map event_changes evs)). folded_change c})"
proof -
  let ?cs = "concat (map event_changes evs)"
  have s: "keys_distinct (net_modes evs)" "map_of (net_modes evs) k = None \<longleftrightarrow> pair_changes ?cs k = []" for k
    using net_spec [of ?cs] by (auto simp: net_modes_def split: if_splits)
  have "fst ` set (net_modes evs) = change_key ` {c \<in> set ?cs. folded_change c}"
    using s(2) by (auto simp: map_of_eq_None_iff pair_changes_Nil set_eq_iff)
  moreover have "length (net_modes evs) = card (fst ` set (net_modes evs))"
    using s(1) distinct_card [of "map fst (net_modes evs)"] by (simp add: keys_distinct_def)
  ultimately show ?thesis by simp
qed

lemma group_of_bucket:
  assumes "b \<in> set (mode_buckets evs)"
  shows "\<exists>g \<in> set (modeGroups evs n sp). cg_kind g = mb_kind b \<and> cg_letter g = Some (mb_letter b) \<and>
    (cg_hidden g = 0 \<longrightarrow> set (cg_visible g) = set (mb_entries b))"
proof -
  obtain v h where c: "cap (mb_entries b) n sp = (v, h)" by (meson surj_pair)
  have "\<lparr>cg_kind = mb_kind b, cg_visible = v, cg_hidden = h, cg_letter = Some (mb_letter b)\<rparr> \<in> set (modeGroups evs n sp)"
    using assms c by (force simp: modeGroups_def)
  with length_cap [OF c] show ?thesis by (intro bexI) auto
qed

lemma names_of_groups:
  "sum_list (map (\<lambda>g. length (cg_visible g) + cg_hidden g) (modeGroups evs n sp)) =
     bucket_size (fold fill_bucket (sort_key ms_seen (map snd (net_modes evs))) [])"
proof -
  have "(\<lambda>g. length (cg_visible g) + cg_hidden g) \<circ>
      (\<lambda>b. let (visible, hidden) = cap (mb_entries b) n sp in
            \<lparr>cg_kind = mb_kind b, cg_visible = visible, cg_hidden = hidden, cg_letter = Some (mb_letter b)\<rparr>) =
      (\<lambda>b :: mode_bucket. length (mb_entries b))"
  proof
    fix b :: mode_bucket
    obtain v h where "cap (mb_entries b) n sp = (v, h)" by (meson surj_pair)
    with length_cap [OF this] show "((\<lambda>g. length (cg_visible g) + cg_hidden g) \<circ>
      (\<lambda>b. let (visible, hidden) = cap (mb_entries b) n sp in
            \<lparr>cg_kind = mb_kind b, cg_visible = visible, cg_hidden = hidden, cg_letter = Some (mb_letter b)\<rparr>)) b =
      length (mb_entries b)" by simp
  qed
  then have "sum_list (map (\<lambda>g. length (cg_visible g) + cg_hidden g) (modeGroups evs n sp)) =
      sum_list (map (\<lambda>b. length (mb_entries b)) (sort_key mb_seen (mode_buckets evs)))"
    by (simp only: modeGroups_def map_map)
  also have "\<dots> = sum_mset (image_mset (\<lambda>b. length (mb_entries b)) (mset (mode_buckets evs)))"
    by (simp flip: sum_mset_sum_list)
  also have "\<dots> = sum_list (map (\<lambda>b. length (mb_entries b)) (mode_buckets evs))"
    by (simp flip: sum_mset_sum_list)
  finally show ?thesis by (simp add: bucket_size_def mode_buckets_def comp_def)
qed

text \<open>No op or voice change is lost in a summary: each nick and letter that changed is named in exactly
  one place or counted as hidden, in the group its first and last change of the run give it, under
  its last spelling.\<close>

theorem mode_summary_loses_nothing:
  fixes events :: "cmsg list"
  defines "cs \<equiv> concat (map event_changes events)"
  shows "sum_list (map (\<lambda>g. length (cg_visible g) + cg_hidden g) (modeGroups events n sp)) =
      card (change_key ` {c \<in> set cs. folded_change c}) \<and>
    (\<forall>c \<in> {c \<in> set cs. folded_change c}.
       \<exists>g \<in> set (modeGroups events n sp).
         (let pc = pair_changes cs (change_key c) in
          cg_kind g = classifyMode (change_sign (hd pc)) (change_sign (last pc)) \<and>
          cg_letter g = Some (modeLetter (mc_mode (last pc))) \<and>
          (cg_hidden g = 0 \<longrightarrow> NickEntry (the (mc_param (last pc))) \<in> set (cg_visible g))))"
proof -
  let ?sts = "sort_key ms_seen (map snd (net_modes events))"
  note sp = buckets_spec [of ?sts]
  have "bucket_size (fold fill_bucket ?sts []) = card (change_key ` {c \<in> set cs. folded_change c})"
    using sp length_net [of events] by (simp add: cs_def)
  moreover have "\<exists>g \<in> set (modeGroups events n sp).
         (let pc = pair_changes cs (change_key c) in
          cg_kind g = classifyMode (change_sign (hd pc)) (change_sign (last pc)) \<and>
          cg_letter g = Some (modeLetter (mc_mode (last pc))) \<and>
          (cg_hidden g = 0 \<longrightarrow> NickEntry (the (mc_param (last pc))) \<in> set (cg_visible g)))"
    if c: "c \<in> {c \<in> set cs. folded_change c}" for c n sp
  proof -
    have "pair_changes cs (change_key c) \<noteq> []" using c by (auto simp: pair_changes_Nil)
    then obtain i where i: "map_of (net_modes events) (change_key c) = Some (net_entry cs (change_key c) i)"
      using net_spec [of cs] unfolding net_modes_def cs_def by metis
    let ?st = "net_entry cs (change_key c) i"
    have "?st \<in> set ?sts" using map_of_SomeD [OF i] by force
    from bspec [OF sp [THEN conjunct2, THEN conjunct2, THEN conjunct1] this]
    obtain b where b: "map_of (fold fill_bucket ?sts []) (state_kind ?st) = Some b" "NickEntry (ms_nick ?st) \<in> set (mb_entries b)"
      by blast
    have k: "(mb_kind b, mb_letter b) = state_kind ?st"
      using bspec [OF sp [THEN conjunct2, THEN conjunct2, THEN conjunct2] map_of_SomeD [OF b(1)]] by simp
    have "b \<in> set (mode_buckets events)" using map_of_SomeD [OF b(1)] by (force simp: mode_buckets_def)
    from group_of_bucket [OF this, of n sp] obtain g where g: "g \<in> set (modeGroups events n sp)" "cg_kind g = mb_kind b"
      "cg_letter g = Some (mb_letter b)" "cg_hidden g = 0 \<longrightarrow> set (cg_visible g) = set (mb_entries b)"
      by (elim bexE conjE) (rule that)
    from g(2-4) k b(2) show ?thesis
      by (intro bexI [OF _ g(1)]) (auto simp: state_kind_def net_entry_def Let_def)
  qed
  ultimately show ?thesis unfolding names_of_groups by blast
qed

definition sample_modes :: "cmsg list" where
  "sample_modes =
     [\<lparr>cm_id = Some (NumberId 5), cm_type = ''mode'', cm_nick = Some ''op'', cm_newNick = None, cm_time = ''t'',
       cm_modes = Some [\<lparr>mc_mode = ''+o'', mc_param = Some ''Amy'', mc_kind = Some KindPrefix\<rparr>,
                        \<lparr>mc_mode = ''+v'', mc_param = Some ''zoe'', mc_kind = Some KindPrefix\<rparr>]\<rparr>,
      \<lparr>cm_id = Some (NumberId 6), cm_type = ''mode'', cm_nick = Some ''op'', cm_newNick = None, cm_time = ''t'',
       cm_modes = Some [\<lparr>mc_mode = ''-o'', mc_param = Some ''amy'', mc_kind = Some KindPrefix\<rparr>]\<rparr>]"

lemma mode_summary_loses_nothing_witness:
  "sum_list (map (\<lambda>g. length (cg_visible g) + cg_hidden g) (modeGroups sample_modes 3 None)) = 2 \<and>
   (\<exists>g \<in> set (modeGroups sample_modes 3 None). cg_kind g = ModeBriefly \<and> cg_letter g = Some ''o'')"
proof -
  let ?cs = "concat (map event_changes sample_modes)"
  let ?c = "\<lparr>mc_mode = ''+o'', mc_param = Some ''Amy'', mc_kind = Some KindPrefix\<rparr>"
  have k: "map change_key (filter folded_change ?cs) = [''amy'' @ char_of (0::nat) # ''o'', ''zoe'' @ char_of (0::nat) # ''v'', ''amy'' @ char_of (0::nat) # ''o'']"
    by code_simp
  then have "change_key ` {c \<in> set ?cs. folded_change c} = {''amy'' @ char_of (0::nat) # ''o'', ''zoe'' @ char_of (0::nat) # ''v''}"
    by (simp only: set_map [symmetric] set_filter [symmetric]) auto
  then have card: "card (change_key ` {c \<in> set ?cs. folded_change c}) = 2" by simp
  have "?c \<in> set ?cs" "folded_change ?c" by code_simp+
  then have c: "?c \<in> {c \<in> set ?cs. folded_change c}" by blast
  have p: "pair_changes ?cs (change_key ?c) = [?c, \<lparr>mc_mode = ''-o'', mc_param = Some ''amy'', mc_kind = Some KindPrefix\<rparr>]"
    by code_simp
  have l: "modeLetter ''-o'' = ''o''" by code_simp
  have s: "classifyMode (change_sign ?c) (change_sign \<lparr>mc_mode = ''-o'', mc_param = Some ''amy'', mc_kind = Some KindPrefix\<rparr>) = ModeBriefly"
    by code_simp
  from mode_summary_loses_nothing [of sample_modes 3 None] bspec [OF conjunct2 [OF mode_summary_loses_nothing [of sample_modes 3 None]] c]
  show ?thesis using card p l s by (auto simp: Let_def)
qed

section \<open>A rename onto a nick of the run\<close>

text \<open>When somebody leaves and another takes the nick over in one run, the second identity is written
  over the first: the summary counts two events but names only the rename, and the leave, which alone
  is named, is lost.\<close>

theorem rename_onto_nick_drops_leave:
  assumes "to_lower amy \<noteq> to_lower bob"
  shows "consolidateRun sp maxNames [sample_event ''quit'' bob [] i] =
      [\<lparr>cg_kind = Left, cg_visible = [NickEntry bob], cg_hidden = 0, cg_letter = None\<rparr>] \<and>
    consolidateRun sp maxNames [sample_event ''quit'' bob [] i, sample_event ''nick'' amy bob j] =
      [\<lparr>cg_kind = Renamed, cg_visible = [RenameEntry amy bob], cg_hidden = 0, cg_letter = None\<rparr>]"
proof -
  define n where "n = max 1 (if maxNames = 0 then 5 else maxNames)"
  then have n: "1 \<le> n" by simp
  have one: "identities [sample_event ''quit'' bob [] i] =
      [\<lparr>id_displayNick = bob, id_originalNick = bob, id_actions = [ActLeave], id_seenIndex = 0\<rparr>]"
    by (simp add: identities_def note_presence_def sample_event_def text_or_def action_of_def)
  have two: "identities [sample_event ''quit'' bob [] i, sample_event ''nick'' amy bob j] =
      [\<lparr>id_displayNick = bob, id_originalNick = amy, id_actions = [ActRename], id_seenIndex = 1\<rparr>]"
    using assms by (simp add: identities_def note_presence_def sample_event_def text_or_def action_of_def)
  have modes: "modeGroups [] k sp = []" for k sp
    by (simp add: modeGroups_def mode_buckets_def net_modes_def)
  have run: "consolidateRun sp maxNames es = presence_groups (identities es) n (map_option (map to_lower) sp)"
    if "filter (\<lambda>e. cm_type e = ''mode'') es = []" for es
    using that by (simp add: consolidateRun_def Let_def modes n_def)
  have c: "classify [ActLeave] = Left" "classify [ActRename] = Renamed"
    by (simp_all add: classify_def)
  have g: "presence_groups [st] n s = [\<lparr>cg_kind = classify (id_actions st), cg_visible = [identity_entry st], cg_hidden = 0, cg_letter = None\<rparr>]"
    if "classify (id_actions st) \<in> {Left, Renamed}" for st s
    using that n by (auto simp: presence_groups_def groupOrder_def cap_def Let_def)
  have ty: "cm_type (sample_event ty nick new k) = ty" for ty nick new k
    by (simp add: sample_event_def)
  show ?thesis by (simp add: run ty one two g c identity_entry_def)
qed

lemma rename_onto_nick_drops_leave_witness:
  "consolidateRun None 5 [sample_event ''quit'' ''bob'' [] 5, sample_event ''nick'' ''amy'' ''bob'' 6] =
     [\<lparr>cg_kind = Renamed, cg_visible = [RenameEntry ''amy'' ''bob''], cg_hidden = 0, cg_letter = None\<rparr>]"
proof -
  have "to_lower ''amy'' \<noteq> to_lower ''bob''" by code_simp
  from rename_onto_nick_drops_leave [OF this, of None 5 5 6] show ?thesis by simp
qed

end
