(* ===== verification/Event_Filter.thy ===== *)
theory Event_Filter imports Consolidate begin

text \<open>
  \<open>shared/eventFilter.ts\<close>: the event-noise tier, the sets it is made of, and what a page of history counts.
\<close>

datatype event_mode = ModeAll | ModeSmart | ModeNone

datatype page_unit = UnitEvent | UnitRenderable | UnitChat

definition EVENT_MODES :: "(string \<times> event_mode) list" where
  "EVENT_MODES = [(''all'', ModeAll), (''smart'', ModeSmart), (''none'', ModeNone)]"

definition eventModeKey :: "bool \<Rightarrow> string" where
  "eventModeKey isMobile = (if isMobile then ''chat.events.mobile'' else ''chat.events'')"

text \<open>A stored or wire value that may be no text (\<open>None\<close>).\<close>

definition asEventMode :: "string option \<Rightarrow> event_mode" where
  "asEventMode value =
     (case value of None \<Rightarrow> ModeAll
      | Some v \<Rightarrow> (case map_of EVENT_MODES v of Some mode \<Rightarrow> mode | None \<Rightarrow> ModeAll))"

definition NOISE_TYPES :: "string list" where
  "NOISE_TYPES = CONSOLIDATABLE_TYPES @ [''mode'']"

definition isNoiseType :: "string \<Rightarrow> bool" where
  "isNoiseType type = (type \<in> set NOISE_TYPES)"

definition EARLY_PRUNE_TYPES :: "string list" where
  "EARLY_PRUNE_TYPES = NOISE_TYPES @ [''motd'', ''usermode'', ''away'', ''back'']"

definition asPageUnit :: "string option \<Rightarrow> page_unit" where
  "asPageUnit value =
     (if value = Some ''renderable'' then UnitRenderable else if value = Some ''chat'' then UnitChat else UnitEvent)"

record page_countable =
  pc_type :: string
  pc_modes :: "mode_change list option"

definition countsTowardPage :: "page_countable \<Rightarrow> page_unit \<Rightarrow> bool" where
  "countsTowardPage row unit =
     (case unit of
        UnitRenderable \<Rightarrow>
          (if pc_type row \<in> set CONSOLIDATABLE_TYPES then False
           else \<not> (pc_type row = ''mode'' \<and> isChurnMode (pc_modes row)))
      | UnitChat \<Rightarrow> pc_type row \<notin> set NOISE_TYPES
      | UnitEvent \<Rightarrow> True)"

definition pageUnitFor :: "event_mode \<Rightarrow> bool \<Rightarrow> page_unit" where
  "pageUnitFor mode consolidate =
     (if mode = ModeNone then UnitChat else if consolidate then UnitRenderable else UnitEvent)"

definition countable :: "cmsg \<Rightarrow> page_countable" where
  "countable m = \<lparr>pc_type = cm_type m, pc_modes = cm_modes m\<rparr>"

text \<open>What spends page budget under \<open>renderable\<close> is what does not fold.\<close>

lemma renderable_is_not_folded: "countsTowardPage (countable m) UnitRenderable \<longleftrightarrow> \<not> foldsIntoRun m"
  by (simp add: countsTowardPage_def foldsIntoRun_def countable_def)

text \<open>How many rows a client draws: every row, the rows after folding, or the rows that are no noise.\<close>

definition drawn_rows :: "event_mode \<Rightarrow> bool \<Rightarrow> cmsg list \<Rightarrow> nat" where
  "drawn_rows mode consolidate ms =
     (if mode = ModeNone then length (filter (\<lambda>m. \<not> isNoiseType (cm_type m)) ms)
      else length (consolidateMessages ms \<lparr>op_enabled = Some consolidate, op_recentSpeakers = None, op_maxNames = 0\<rparr>))"

lemma flush_run_length: "run \<noteq> [] \<Longrightarrow> 1 \<le> length (flush_run sp n run)"
  by (cases run) (auto simp: flush_run_def Let_def)

lemma walk_rows_length:
  "length (filter (\<lambda>r. \<not> row_folds r) rows) \<le> length (walk_rows sp n run rows)"
proof (induction sp n run rows rule: walk_rows.induct)
  case (1 sp n run)
  show ?case by simp
next
  case (2 sp n run r rows)
  then show ?case by (cases "row_folds r") auto
qed

lemma rows_of_index: "map (the \<circ> sr_m) (index_rows ms) = ms"
proof -
  have "map (the \<circ> sr_m) (index_rows ms) = map snd (zip [0..<length ms] ms)"
    unfolding index_rows_def map_map by (rule map_cong) (auto simp: case_prod_beta')
  then show ?thesis by simp
qed

lemma index_rows_some: "r \<in> set (index_rows ms) \<Longrightarrow> row_folds r \<longleftrightarrow> foldsIntoRun (the (sr_m r))"
  by (auto simp: index_rows_def row_folds_def)

text \<open>The page unit a client asks for is no finer than what it draws, unless it filters by who spoke: of
  any rows of history, the number that spend page budget is at most the number of rows the client
  draws from them.\<close>

theorem page_unit_not_finer:
  assumes "mode \<noteq> ModeSmart"
  shows "length (filter (\<lambda>m. countsTowardPage (countable m) (pageUnitFor mode consolidate)) ms) \<le> drawn_rows mode consolidate ms"
proof (cases "mode = ModeNone")
  case True
  then show ?thesis
    by (simp add: drawn_rows_def pageUnitFor_def countsTowardPage_def countable_def isNoiseType_def)
next
  case False
  show ?thesis
  proof (cases consolidate)
    case True
    let ?rows = "index_rows ms"
    have "filter (\<lambda>m. \<not> foldsIntoRun m) ms = filter (\<lambda>m. \<not> foldsIntoRun m) (map (the \<circ> sr_m) ?rows)"
      by (simp only: rows_of_index)
    also have "\<dots> = map (the \<circ> sr_m) (filter (\<lambda>r. \<not> row_folds r) ?rows)"
      by (simp add: filter_map comp_def index_rows_some cong: filter_cong)
    finally have "length (filter (\<lambda>m. \<not> foldsIntoRun m) ms) = length (filter (\<lambda>r. \<not> row_folds r) ?rows)" by simp
    with walk_rows_length [of ?rows] False True show ?thesis
      by (simp add: drawn_rows_def pageUnitFor_def renderable_is_not_folded consolidateMessages_def consolidateRows_def)
  next
    case c: False
    then show ?thesis
      using False by (simp add: drawn_rows_def pageUnitFor_def countsTowardPage_def consolidateMessages_def
          consolidateRows_def index_rows_def)
  qed
qed

lemma page_unit_not_finer_witness:
  "length (filter (\<lambda>m. countsTowardPage (countable m) UnitRenderable)
     [sample_event ''join'' ''amy'' ''-'' 5, sample_event ''message'' ''zoe'' ''-'' 7]) \<le>
   drawn_rows ModeAll True [sample_event ''join'' ''amy'' ''-'' 5, sample_event ''message'' ''zoe'' ''-'' 7]"
  using page_unit_not_finer [of ModeAll True "[sample_event ''join'' ''amy'' ''-'' 5, sample_event ''message'' ''zoe'' ''-'' 7]"]
  by (simp only: pageUnitFor_def event_mode.distinct if_True if_False simp_thms)

text \<open>The noise sets grow: what folds is noise, and noise is pruned early.\<close>

lemma noise_sets_grow: "foldsIntoRun m \<Longrightarrow> isNoiseType (cm_type m) \<and> cm_type m \<in> set EARLY_PRUNE_TYPES"
  by (auto simp: foldsIntoRun_def isNoiseType_def NOISE_TYPES_def EARLY_PRUNE_TYPES_def split: if_splits)

end
