(* ===== verification/Channel_Names.thy ===== *)
theory Channel_Names imports Lurker_Base begin

text \<open>
  \<open>shared/channels.ts\<close>: what a target names, and how a typed list of channels is read.  A raw value that
  is neither a text nor an array of texts is \<open>RawOther\<close>; an array's other items are \<open>None\<close>.
\<close>

definition CHANNEL_PREFIX_CHARS :: string where
  "CHANNEL_PREFIX_CHARS = ''#&+!''"

definition isChannelTarget :: "string option \<Rightarrow> bool" where
  "isChannelTarget target =
     (case target of None \<Rightarrow> False | Some t \<Rightarrow> t \<noteq> [] \<and> hd t \<in> set CHANNEL_PREFIX_CHARS)"

definition STATUSMSG_PREFIXES :: string where
  "STATUSMSG_PREFIXES = ''~&@%+''"

fun channelReadings :: "string \<Rightarrow> string list" where
  "channelReadings [] = []"
| "channelReadings (c # t) =
     (if isChannelTarget (Some (c # t)) then [c # t] else []) @
     (if c \<notin> set STATUSMSG_PREFIXES then [] else channelReadings t)"

text \<open>\<open>/[,\<backslash>s\<backslash>u0000-\<backslash>u001f]/\<close> on code units below 256.\<close>

definition splits_line :: "char \<Rightarrow> bool" where
  "splits_line c \<longleftrightarrow> c = CHR '','' \<or> is_space c \<or> (of_char c :: nat) \<le> 31"

definition isSinglePeerTarget :: "string \<Rightarrow> bool" where
  "isSinglePeerTarget target =
     (if target = [] \<or> (\<exists>c \<in> set target. splits_line c) then False
      else if starts_with target ''$'' then False
      else channelReadings target = [])"

definition ensureChannelPrefix :: "string \<Rightarrow> string" where
  "ensureChannelPrefix name = (if isChannelTarget (Some name) then name else CHR ''#'' # name)"

text \<open>\<open>split(/[,\<backslash>s]+/)\<close> with the blanks dropped: the runs of other characters.\<close>

definition list_sep :: "char \<Rightarrow> bool" where
  "list_sep c \<longleftrightarrow> c = CHR '','' \<or> is_space c"

function list_words :: "string \<Rightarrow> string list" where
  "list_words s =
     (let t = dropWhile list_sep s in
      if t = [] then [] else takeWhile (\<lambda>c. \<not> list_sep c) t # list_words (dropWhile (\<lambda>c. \<not> list_sep c) t))"
  by pat_completeness auto
termination
proof (relation "measure length", simp)
  fix s t :: string
  assume t: "t = dropWhile list_sep s" "t \<noteq> []"
  from t(2) obtain c u where c: "t = c # u" by (cases t) simp_all
  have "\<not> list_sep (hd t)" using hd_dropWhile [OF t(2) [unfolded t(1)]] unfolding t(1) .
  then have "\<not> list_sep c" using c by simp
  then have "length (dropWhile (\<lambda>c. \<not> list_sep c) t) \<le> length u"
    using c length_dropWhile_le [of "\<lambda>c. \<not> list_sep c" u] by simp
  moreover have "length t \<le> length s" using t(1) length_dropWhile_le by simp
  ultimately show "(dropWhile (\<lambda>c. \<not> list_sep c) t, s) \<in> measure length" using c by simp
qed

declare list_words.simps [simp del]

datatype raw_channels = RawText string | RawList "string option list" | RawOther

definition raw_entries :: "raw_channels \<Rightarrow> string list" where
  "raw_entries raw =
     (case raw of
        RawList items \<Rightarrow> concat (map (\<lambda>i. case i of Some t \<Rightarrow> [t] | None \<Rightarrow> []) items)
      | RawText t \<Rightarrow> [t]
      | RawOther \<Rightarrow> [])"

fun keep_first :: "(string \<Rightarrow> string) \<Rightarrow> string list \<Rightarrow> string list \<Rightarrow> string list" where
  "keep_first key seen [] = []"
| "keep_first key seen (x # xs) =
     (if key x \<in> set seen then keep_first key seen xs else x # keep_first key (key x # seen) xs)"

definition parseChannelNames :: "raw_channels \<Rightarrow> string list" where
  "parseChannelNames raw =
     (let pieces = concat (map list_words (raw_entries raw));
          asTyped = (\<exists>n \<in> set pieces. isChannelTarget (Some n));
          names = filter (\<lambda>n. \<not> (length n = 1 \<and> isChannelTarget (Some n))) pieces
      in keep_first to_lower [] (map (\<lambda>n. if asTyped then n else ensureChannelPrefix n) names))"

definition isDccChatTarget :: "string option \<Rightarrow> bool" where
  "isDccChatTarget target = (case target of None \<Rightarrow> False | Some t \<Rightarrow> starts_with t ''='')"

definition dccChatPeer :: "string \<Rightarrow> string" where
  "dccChatPeer target = (if isDccChatTarget (Some target) then drop 1 target else target)"

definition stripChannelPrefix :: "string \<Rightarrow> string" where
  "stripChannelPrefix target = dropWhile (\<lambda>c. c \<in> set CHANNEL_PREFIX_CHARS) target"

definition normalizeChannelList :: "string option list \<Rightarrow> string list" where
  "normalizeChannelList values =
     keep_first id []
       (filter (\<lambda>c. c \<noteq> []) (map (\<lambda>v. to_lower (js_trim (case v of Some t \<Rightarrow> t | None \<Rightarrow> []))) values))"

definition parseChannelList :: "string \<Rightarrow> string list" where
  "parseChannelList input = normalizeChannelList (map Some (list_words input))"

section \<open>Laws\<close>

lemma keep_first_distinct: "distinct (map key (keep_first key seen xs)) \<and> set (map key (keep_first key seen xs)) \<inter> set seen = {}"
  by (induction key seen xs rule: keep_first.induct) auto

lemma keep_first_covers: "x \<in> set xs \<Longrightarrow> key x \<in> set seen \<or> key x \<in> key ` set (keep_first key seen xs)"
  by (induction key seen xs rule: keep_first.induct) auto

lemma keep_first_subset: "set (keep_first key seen xs) \<subseteq> set xs"
  by (induction key seen xs rule: keep_first.induct) auto

lemma first_word: "dropWhile list_sep s = t \<Longrightarrow> t \<noteq> [] \<Longrightarrow> takeWhile (\<lambda>c. \<not> list_sep c) t \<noteq> []"
  using hd_dropWhile [of list_sep s] by (cases t) auto

lemma list_words_plain: "w \<in> set (list_words s) \<Longrightarrow> w \<noteq> [] \<and> (\<forall>c \<in> set w. \<not> list_sep c)"
proof (induction s rule: list_words.induct)
  case (1 s)
  define t where "t = dropWhile list_sep s"
  show ?case
  proof (cases "t = []")
    case True
    then show ?thesis using 1(2) by (simp add: list_words.simps [of s] t_def del: dropWhile_eq_Nil_conv)
  next
    case False
    have e: "list_words s = takeWhile (\<lambda>c. \<not> list_sep c) t # list_words (dropWhile (\<lambda>c. \<not> list_sep c) t)"
      using False by (simp only: list_words.simps [of s] t_def [symmetric] Let_def if_False)
    from 1(2) [unfolded e] consider "w = takeWhile (\<lambda>c. \<not> list_sep c) t"
      | "w \<in> set (list_words (dropWhile (\<lambda>c. \<not> list_sep c) t))" by auto
    then show ?thesis
    proof cases
      case 1
      then show ?thesis using first_word [OF t_def [symmetric] False] by (auto dest: set_takeWhileD)
    next
      case 2
      then show ?thesis using 1(1) [OF t_def False] by blast
    qed
  qed
qed

text \<open>A list of typed names: no two are the same channel, every one is plain, and unless some word carries a
  prefix every word becomes a channel.\<close>

lemma parsed_names:
  "distinct (map to_lower (parseChannelNames raw)) \<and>
   (\<forall>n \<in> set (parseChannelNames raw). n \<noteq> [] \<and> (\<forall>c \<in> set n. \<not> list_sep c)) \<and>
   ((\<forall>w \<in> set (concat (map list_words (raw_entries raw))). \<not> isChannelTarget (Some w)) \<longrightarrow>
      (\<forall>n \<in> set (parseChannelNames raw). isChannelTarget (Some n)))"
proof -
  have sep: "\<not> list_sep CHR ''#''" by (simp add: list_sep_def is_space_def)
  let ?pieces = "concat (map list_words (raw_entries raw))"
  let ?f = "\<lambda>n. if \<exists>n \<in> set ?pieces. isChannelTarget (Some n) then n else ensureChannelPrefix n"
  have sub: "\<exists>w \<in> set ?pieces. n = ?f w" if "n \<in> set (parseChannelNames raw)" for n
  proof -
    have "n \<in> set (map ?f (filter (\<lambda>n. \<not> (length n = 1 \<and> isChannelTarget (Some n))) ?pieces))"
      by (rule subsetD [OF keep_first_subset that [unfolded parseChannelNames_def Let_def]])
    then show ?thesis unfolding set_map set_filter by blast
  qed
  have "n \<noteq> [] \<and> (\<forall>c \<in> set n. \<not> list_sep c)" if n: "n \<in> set (parseChannelNames raw)" for n
  proof -
    obtain w where w: "w \<in> set ?pieces" "n = ?f w" using sub [OF n] by blast
    then have "w \<noteq> [] \<and> (\<forall>c \<in> set w. \<not> list_sep c)" using list_words_plain by auto
    with w(2) sep show ?thesis by (simp add: ensureChannelPrefix_def)
  qed
  moreover have "isChannelTarget (Some n)"
    if none: "\<forall>w \<in> set ?pieces. \<not> isChannelTarget (Some w)" and n: "n \<in> set (parseChannelNames raw)" for n
  proof -
    obtain w where w: "w \<in> set ?pieces" "n = ?f w" using sub [OF n] by blast
    with none have "n = CHR ''#'' # w" by (auto simp: ensureChannelPrefix_def)
    then show ?thesis by (simp add: isChannelTarget_def CHANNEL_PREFIX_CHARS_def)
  qed
  moreover have "distinct (map to_lower (parseChannelNames raw))"
    by (simp add: parseChannelNames_def Let_def keep_first_distinct)
  ultimately show ?thesis by blast
qed

text \<open>A target that names one person names no channel, with or without a status prefix.\<close>

lemma single_peer_no_channel:
  "isSinglePeerTarget t \<Longrightarrow> \<not> isChannelTarget (Some t) \<and> (\<forall>p. p \<in> set STATUSMSG_PREFIXES \<longrightarrow> t \<noteq> p # CHR ''#'' # u)"
  by (cases t) (auto simp: isSinglePeerTarget_def isChannelTarget_def CHANNEL_PREFIX_CHARS_def split: if_splits)

end
