(* ===== verification/Text_Match.thy ===== *)
theory Text_Match imports Lurker_Base begin

text \<open>
  \<open>shared/textMatch.ts\<close>: the text tests that highlights and ignores share.  A user's regular expression is
  compiled by the engine: the argument \<open>regexp\<close> gives its test, or \<open>None\<close> for one that does not compile;
  \<open>strip_urls\<close> is the engine's global replacement of the URL expression by a space.  The generated
  expressions are translated: a literal or a glob between two word boundaries.  Letters are compared
  without case by \<open>lower_char\<close>, which is the engine's folding on code units below 256.
\<close>

datatype text_kind = KindSubstr | KindPlain | KindGlob | KindRegex

section \<open>Globs and words\<close>

definition line_end :: "char \<Rightarrow> bool" where
  "line_end c \<longleftrightarrow> (of_char c :: nat) \<in> {10, 13}"

text \<open>The text left over after a glob has matched at the front, for each way it can match: \<open>*\<close> is any run and
  \<open>?\<close> any one character, neither a line end.\<close>

fun glob_rests :: "(char \<Rightarrow> char \<Rightarrow> bool) \<Rightarrow> string \<Rightarrow> string \<Rightarrow> string list" where
  "glob_rests same [] t = [t]"
| "glob_rests same (p # ps) [] = (if p = CHR ''*'' then glob_rests same ps [] else [])"
| "glob_rests same (p # ps) (c # cs) =
     (if p = CHR ''*'' then glob_rests same ps (c # cs) @ (if line_end c then [] else glob_rests same (p # ps) cs)
      else if p = CHR ''?'' then (if line_end c then [] else glob_rests same ps cs)
      else if same p c then glob_rests same ps cs else [])"

definition same_char :: "bool \<Rightarrow> char \<Rightarrow> char \<Rightarrow> bool" where
  "same_char caseSensitive a b = (if caseSensitive then a = b else lower_char a = lower_char b)"

text \<open>The characters \<open>\<backslash>p{L}\<close>, \<open>\<backslash>p{N}\<close> and the underscore below 256.\<close>

definition letter_char :: "char \<Rightarrow> bool" where
  "letter_char c \<longleftrightarrow>
     (let n = (of_char c :: nat) in
      (48 \<le> n \<and> n \<le> 57) \<or> (65 \<le> n \<and> n \<le> 90) \<or> n = 95 \<or> (97 \<le> n \<and> n \<le> 122) \<or>
      n \<in> {170, 178, 179, 181, 185, 186, 188, 189, 190} \<or> (192 \<le> n \<and> n \<noteq> 215 \<and> n \<noteq> 247))"

definition word_ends :: "string \<Rightarrow> bool" where
  "word_ends t = (t = [] \<or> \<not> letter_char (hd t))"

text \<open>Where the expression may start: the front of the text, or past a character that is no word character.\<close>

fun word_starts :: "string \<Rightarrow> string list" where
  "word_starts [] = []"
| "word_starts (c # cs) = (if letter_char c then [] else [cs]) @ word_starts cs"

fun literal_rests :: "(char \<Rightarrow> char \<Rightarrow> bool) \<Rightarrow> string \<Rightarrow> string \<Rightarrow> string list" where
  "literal_rests same [] t = [t]"
| "literal_rests same (p # ps) [] = []"
| "literal_rests same (p # ps) (c # cs) = (if same p c then literal_rests same ps cs else [])"

definition whole_word :: "(string \<Rightarrow> string list) \<Rightarrow> string \<Rightarrow> bool" where
  "whole_word rests t = (\<exists>s \<in> set (t # word_starts t). \<exists>r \<in> set (rests s). word_ends r)"

definition buildTextTest :: "(string \<Rightarrow> bool \<Rightarrow> (string \<Rightarrow> bool) option) \<Rightarrow> string \<Rightarrow> text_kind \<Rightarrow> bool \<Rightarrow> (string \<Rightarrow> bool) option" where
  "buildTextTest regexp pat kind caseSensitive =
     (case kind of
        KindSubstr \<Rightarrow>
          Some (if caseSensitive then (\<lambda>t. js_includes t pat) else (\<lambda>t. js_includes (to_lower t) (to_lower pat)))
      | KindRegex \<Rightarrow> regexp pat caseSensitive
      | KindGlob \<Rightarrow> Some (whole_word (glob_rests (same_char caseSensitive) pat))
      | KindPlain \<Rightarrow> Some (whole_word (literal_rests (same_char caseSensitive) pat)))"

section \<open>Formatting codes\<close>

definition is_hex :: "char \<Rightarrow> bool" where
  "is_hex c \<longleftrightarrow> is_digit c \<or> (let n = (of_char c :: nat) in (65 \<le> n \<and> n \<le> 70) \<or> (97 \<le> n \<and> n \<le> 102))"

definition digits_len :: "string \<Rightarrow> nat" where
  "digits_len t = min 2 (length (takeWhile is_digit t))"

definition hex_len :: "string \<Rightarrow> nat" where
  "hex_len t = (if 6 \<le> length (takeWhile is_hex t) then 6 else 0)"

text \<open>A colour, and a second one behind a comma.\<close>

definition colour_len :: "(string \<Rightarrow> nat) \<Rightarrow> string \<Rightarrow> nat" where
  "colour_len len t =
     (let n = len t in
      if n = 0 then 0
      else case drop n t of
             CHR '','' # u \<Rightarrow> (if len u = 0 then n else n + 1 + len u)
           | _ \<Rightarrow> n)"

text \<open>The length of the formatting code at the front of a text; 0 when there is none.\<close>

definition code_len :: "string \<Rightarrow> nat" where
  "code_len t =
     (case t of
        [] \<Rightarrow> 0
      | c # u \<Rightarrow>
          (let n = (of_char c :: nat) in
           if n = 3 then 1 + colour_len digits_len u
           else if n = 4 then 1 + colour_len hex_len u
           else if n \<in> {2, 15, 17, 22, 29, 30, 31} then 1
           else 0))"

lemma code_len_Nil [simp]: "code_len [] = 0"
  by (simp add: code_len_def)

function stripFormatting :: "string \<Rightarrow> string" where
  "stripFormatting t =
     (if t = [] then []
      else if code_len t = 0 then hd t # stripFormatting (tl t)
      else stripFormatting (drop (code_len t) t))"
  by pat_completeness auto
termination
  by (relation "measure length") (auto simp: length_tl)

declare stripFormatting.simps [simp del]

text \<open>How far \<open>rawIndexForVisibleOffset\<close> scans to pass \<open>k\<close> visible characters.\<close>

function raw_scan :: "string \<Rightarrow> nat \<Rightarrow> nat" where
  "raw_scan t k =
     (if t = [] \<or> k = 0 then 0
      else if code_len t = 0 then Suc (raw_scan (tl t) (k - 1))
      else code_len t + raw_scan (drop (code_len t) t) k)"
  by pat_completeness auto
termination
  by (relation "measure (\<lambda>(t, k). length t)") (auto simp: length_tl)

declare raw_scan.simps [simp del]

definition rawIndexForVisibleOffset :: "string \<Rightarrow> int \<Rightarrow> nat" where
  "rawIndexForVisibleOffset raw visibleOffset = (if visibleOffset \<le> 0 then 0 else raw_scan raw (nat visibleOffset))"

definition cleanForMatch :: "(string \<Rightarrow> string) \<Rightarrow> string \<Rightarrow> string" where
  "cleanForMatch strip_urls t = strip_urls (stripFormatting t)"

section \<open>Laws\<close>

definition code_start :: "char \<Rightarrow> bool" where
  "code_start c \<longleftrightarrow> (of_char c :: nat) \<in> {2, 3, 4, 15, 17, 22, 29, 30, 31}"

lemma code_len_0: "code_len (c # t) = 0 \<longleftrightarrow> \<not> code_start c"
  by (auto simp: code_len_def code_start_def Let_def)

lemma strip_Nil [simp]: "stripFormatting [] = []"
  by (simp add: stripFormatting.simps)

lemma strip_plain: "\<not> code_start c \<Longrightarrow> stripFormatting (c # t) = c # stripFormatting t"
  by (subst stripFormatting.simps) (simp add: code_len_0)

lemma strip_code: "code_start c \<Longrightarrow> stripFormatting (c # t) = stripFormatting (drop (code_len (c # t)) (c # t))"
  by (subst stripFormatting.simps) (simp add: code_len_0)

text \<open>No formatting code is left, and a text without one is left alone.\<close>

lemma strip_no_codes: "c \<in> set (stripFormatting t) \<Longrightarrow> \<not> code_start c \<and> c \<in> set t"
proof (induction t rule: stripFormatting.induct)
  case (1 t)
  show ?case
  proof (cases t)
    case (Cons d u)
    show ?thesis
    proof (cases "code_start d")
      case True
      then have "c \<in> set (stripFormatting (drop (code_len t) t))" using 1(3) Cons by (simp add: strip_code)
      moreover have "code_len t \<noteq> 0" "t \<noteq> []" using True Cons by (simp_all add: code_len_0)
      ultimately have "\<not> code_start c \<and> c \<in> set (drop (code_len t) t)" using 1(2) by blast
      then show ?thesis by (auto dest: in_set_dropD)
    next
      case False
      then have "c = d \<or> c \<in> set (stripFormatting u)" using 1(3) Cons by (simp add: strip_plain)
      moreover have "code_len t = 0" using False Cons by (simp add: code_len_0)
      ultimately show ?thesis using 1(1) False Cons by auto
    qed
  qed (use 1(3) in simp)
qed

lemma strip_id: "\<forall>c \<in> set t. \<not> code_start c \<Longrightarrow> stripFormatting t = t"
  by (induction t) (simp_all add: strip_plain)

lemma strip_idem: "stripFormatting (stripFormatting t) = stripFormatting t"
  by (rule strip_id) (use strip_no_codes in blast)

text \<open>Cutting the raw text where the visible one is cut keeps the visible rest.\<close>

lemma raw_index_cuts: "stripFormatting (drop (rawIndexForVisibleOffset raw k) raw) = drop (nat k) (stripFormatting raw)"
proof -
  have "stripFormatting (drop (raw_scan t n) t) = drop n (stripFormatting t)" for t n
  proof (induction t n rule: raw_scan.induct)
    case (1 t k)
    consider "t = [] \<or> k = 0" | c u where "t = c # u" "k \<noteq> 0" "\<not> code_start c" | c u where "t = c # u" "k \<noteq> 0" "code_start c"
      by (cases t) auto
    then show ?case
    proof cases
      case 1
      then show ?thesis by (auto simp: raw_scan.simps)
    next
      case 2
      then have "code_len t = 0" by (simp add: code_len_0)
      with 2 "1.IH"(1) show ?thesis
        by (cases k) (auto simp: raw_scan.simps [of "c # u"] strip_plain)
    next
      case 3
      then have n: "code_len t \<noteq> 0" by (simp add: code_len_0)
      then have "raw_scan t k = code_len t + raw_scan (drop (code_len t) t) k" using 3 by (subst raw_scan.simps) simp
      moreover have "stripFormatting t = stripFormatting (drop (code_len t) t)" using 3 strip_code by blast
      moreover have "stripFormatting (drop (raw_scan (drop (code_len t) t) k) (drop (code_len t) t)) =
          drop k (stripFormatting (drop (code_len t) t))"
        using n 3 by (intro "1.IH"(2)) simp_all
      ultimately show ?thesis by (simp add: add.commute)
    qed
  qed
  then show ?thesis by (simp add: rawIndexForVisibleOffset_def)
qed

end
