(* ===== verification/Ignore_Rules.thy ===== *)
theory Ignore_Rules imports Text_Match begin

text \<open>
  \<open>shared/ignoreLevels.ts\<close> and \<open>shared/ignoreMatch.ts\<close>: the vocabulary of ignore levels and the matcher that
  server and client share.  A compiled rule keeps its tests as functions, as the code does.
  \<open>Date.parse\<close> is the argument \<open>parse_date\<close>, \<open>None\<close> when it gives \<open>NaN\<close>; the argument \<open>strip_urls\<close> and the
  user's expressions are those of \<open>Text_Match\<close>.
\<close>

section \<open>Levels\<close>

record level_def =
  ld_types :: "string list"
  ld_dm :: "bool option"

definition LEVEL_DEFS :: "(string \<times> level_def) list" where
  "LEVEL_DEFS =
     [(''PUBLIC'', \<lparr>ld_types = [''message''], ld_dm = Some False\<rparr>),
      (''MSGS'', \<lparr>ld_types = [''message''], ld_dm = Some True\<rparr>),
      (''NOTICES'', \<lparr>ld_types = [''notice''], ld_dm = None\<rparr>),
      (''ACTIONS'', \<lparr>ld_types = [''action''], ld_dm = None\<rparr>),
      (''JOINS'', \<lparr>ld_types = [''join''], ld_dm = None\<rparr>),
      (''PARTS'', \<lparr>ld_types = [''part''], ld_dm = None\<rparr>),
      (''QUITS'', \<lparr>ld_types = [''quit'', ''chghost''], ld_dm = None\<rparr>),
      (''NICKS'', \<lparr>ld_types = [''nick''], ld_dm = None\<rparr>),
      (''KICKS'', \<lparr>ld_types = [''kick''], ld_dm = None\<rparr>),
      (''MODES'', \<lparr>ld_types = [''mode''], ld_dm = None\<rparr>),
      (''TOPICS'', \<lparr>ld_types = [''topic''], ld_dm = None\<rparr>),
      (''CTCPS'', \<lparr>ld_types = [], ld_dm = None\<rparr>)]"

definition ALL_TYPES :: "string list" where
  "ALL_TYPES =
     [''message'', ''action'', ''notice'', ''join'', ''part'', ''quit'', ''nick'', ''kick'', ''mode'', ''topic'', ''chghost'']"

definition HIGHLIGHTABLE :: "string list" where
  "HIGHLIGHTABLE = [''message'', ''action'']"

definition LEVEL_ALIASES :: "(string \<times> string) list" where
  "LEVEL_ALIASES =
     [(''PUBLIC'', ''PUBLIC''), (''PUBLICS'', ''PUBLIC''), (''MSG'', ''MSGS''), (''MSGS'', ''MSGS''),
      (''NOTICE'', ''NOTICES''), (''NOTICES'', ''NOTICES''), (''ACTION'', ''ACTIONS''), (''ACTIONS'', ''ACTIONS''),
      (''JOIN'', ''JOINS''), (''JOINS'', ''JOINS''), (''PART'', ''PARTS''), (''PARTS'', ''PARTS''),
      (''QUIT'', ''QUITS''), (''QUITS'', ''QUITS''), (''NICK'', ''NICKS''), (''NICKS'', ''NICKS''),
      (''KICK'', ''KICKS''), (''KICKS'', ''KICKS''), (''MODE'', ''MODES''), (''MODES'', ''MODES''),
      (''TOPIC'', ''TOPICS''), (''TOPICS'', ''TOPICS''), (''CTCP'', ''CTCPS''), (''CTCPS'', ''CTCPS''),
      (''ALL'', ''ALL''), (''NOHIGHLIGHT'', ''NOHIGHLIGHT''), (''NOHIGHLIGHTS'', ''NOHIGHLIGHT''),
      (''NOHILIGHT'', ''NOHIGHLIGHT''), (''NOHILITE'', ''NOHIGHLIGHT''), (''NOUNREAD'', ''NOUNREAD''),
      (''NOUNREADS'', ''NOUNREAD''), (''NO_ACT'', ''NOUNREAD''), (''NOACT'', ''NOUNREAD''),
      (''NOACTIVITY'', ''NOUNREAD''), (''NONOTIFY'', ''NONOTIFY''), (''NONOTIFYS'', ''NONOTIFY''),
      (''NONOTIFICATION'', ''NONOTIFY''), (''NONOTIFICATIONS'', ''NONOTIFY'')]"

definition CANONICAL_ORDER :: "string list" where
  "CANONICAL_ORDER =
     [''ALL'', ''PUBLIC'', ''MSGS'', ''NOTICES'', ''ACTIONS'', ''JOINS'', ''PARTS'', ''QUITS'', ''NICKS'', ''KICKS'',
      ''MODES'', ''TOPICS'', ''CTCPS'', ''NOHIGHLIGHT'', ''NOUNREAD'', ''NONOTIFY'']"

definition canonicalLevel :: "string \<Rightarrow> string option" where
  "canonicalLevel token = map_of LEVEL_ALIASES (to_upper token)"

definition canonicalizeLevels :: "string list \<Rightarrow> string list" where
  "canonicalizeLevels levels = filter (\<lambda>l. Some l \<in> set (map canonicalLevel levels)) CANONICAL_ORDER"

definition MODIFIER_LEVELS :: "string list" where
  "MODIFIER_LEVELS = [''NOHIGHLIGHT'', ''NOUNREAD'', ''NONOTIFY'']"

section \<open>Masks and channels\<close>

definition or_star :: "string \<Rightarrow> string" where
  "or_star s = (if s = [] then ''*'' else s)"

definition splitMask :: "string \<Rightarrow> string \<times> string \<times> string" where
  "splitMask msk =
     (let (pre, host) = (case index_of CHR ''@'' msk of
                           None \<Rightarrow> (msk, ''*'')
                         | Some i \<Rightarrow> (take i msk, or_star (drop (Suc i) msk)))
      in case index_of CHR ''!'' pre of
           Some i \<Rightarrow> (or_star (take i pre), or_star (drop (Suc i) pre), host)
         | None \<Rightarrow> (if CHR ''@'' \<in> set msk then (''*'', or_star pre, host) else (or_star pre, ''*'', host)))"

text \<open>\<open>globToRegex\<close>: the whole text is the glob; \<open>upper_char\<close> is the engine's folding under the \<open>i\<close> flag.\<close>

definition glob_test :: "string \<Rightarrow> bool \<Rightarrow> string \<Rightarrow> bool" where
  "glob_test pat caseInsensitive t =
     ([] \<in> set (glob_rests (\<lambda>a b. if caseInsensitive then upper_char a = upper_char b else a = b) pat t))"

definition mask_parts :: "string \<Rightarrow> (string \<times> string) option" where
  "mask_parts uh =
     (case index_of CHR ''!'' uh of
        None \<Rightarrow> None
      | Some bang \<Rightarrow>
          (let rest = drop (Suc bang) uh in
           case index_of CHR ''@'' rest of
             None \<Rightarrow> None
           | Some i \<Rightarrow> Some (take i rest, drop (Suc i) rest)))"

definition given :: "string option \<Rightarrow> string option" where
  "given t = (case t of Some s \<Rightarrow> if s = [] then None else Some s | None \<Rightarrow> None)"

definition buildMaskMatcher :: "string option \<Rightarrow> string option \<Rightarrow> string option \<Rightarrow> bool" where
  "buildMaskMatcher msk n uh =
     (case given msk of
        None \<Rightarrow> True
      | Some pat \<Rightarrow>
          if pat = ''*'' then True
          else if CHR ''!'' \<in> set pat \<or> CHR ''@'' \<in> set pat then
            (let (nick, user, host) = splitMask pat in
             case given n of
               None \<Rightarrow> False
             | Some nk \<Rightarrow>
                 if \<not> glob_test nick True nk then False
                 else case given uh of
                        None \<Rightarrow> user = ''*'' \<and> host = ''*''
                      | Some u \<Rightarrow>
                          (case mask_parts u of
                             None \<Rightarrow> user = ''*'' \<and> host = ''*''
                           | Some (us, ho) \<Rightarrow> glob_test user False us \<and> glob_test host False ho))
          else (case given n of None \<Rightarrow> False | Some nk \<Rightarrow> glob_test pat True nk))"

definition buildChannelMatcher :: "string list option \<Rightarrow> string \<Rightarrow> bool" where
  "buildChannelMatcher channels t =
     (case channels of
        None \<Rightarrow> True
      | Some cs \<Rightarrow> if cs = [] then True else t \<noteq> [] \<and> (\<exists>c \<in> set cs. glob_test c True t))"

section \<open>Rules\<close>

record ignore_rule =
  ig_mask :: "string option"
  ig_channels :: "string list option"
  ig_pattern :: "string option"
  ig_patternKind :: string
  ig_levels :: "string list"
  ig_isExcept :: bool
  ig_expiresAt :: "string option"

record ignore_input =
  in_nick :: "string option"
  in_userhost :: "string option"
  in_target :: string
  in_text :: string
  in_type :: string
  in_isDm :: bool

record ignore_verdict =
  iv_hide :: bool
  iv_nohilight :: bool
  iv_nonotify :: bool

text \<open>\<open>ci_expiresAt\<close> is \<open>None\<close> for \<open>null\<close> and \<open>Some None\<close> for \<open>NaN\<close>, which no time has passed.\<close>

record compiled_rule =
  ci_isExcept :: bool
  ci_maskLen :: nat
  ci_expiresAt :: "int option option"
  ci_hides :: bool
  ci_nohilight :: bool
  ci_nounread :: bool
  ci_nonotify :: bool
  ci_pattern :: bool
  ci_channels :: bool
  ci_anyNick :: bool
  ci_hasAll :: bool
  ci_matchesNick :: "string option \<Rightarrow> string option \<Rightarrow> bool"
  ci_matchesChannel :: "string \<Rightarrow> bool"
  ci_matchesText :: "string \<Rightarrow> bool"
  ci_hideLevel :: "string \<Rightarrow> bool \<Rightarrow> bool"

definition patternKindToTextKind :: "string \<Rightarrow> text_kind" where
  "patternKindToTextKind kind =
     (if kind = ''regex'' then KindRegex
      else if kind = ''glob'' then KindGlob
      else if kind = ''full'' \<or> kind = ''plain'' then KindPlain
      else KindSubstr)"

definition hide_level :: "string list \<Rightarrow> string \<Rightarrow> bool \<Rightarrow> bool" where
  "hide_level hideLevels type isDm =
     (if ''ALL'' \<in> set hideLevels then type \<in> set ALL_TYPES
      else \<exists>lvl \<in> set hideLevels.
             case map_of LEVEL_DEFS lvl of
               None \<Rightarrow> False
             | Some d \<Rightarrow> type \<in> set (ld_types d) \<and> (ld_dm d = None \<or> ld_dm d = Some isDm))"

definition compile_rule :: "(string \<Rightarrow> bool \<Rightarrow> (string \<Rightarrow> bool) option) \<Rightarrow> (string \<Rightarrow> int option) \<Rightarrow> ignore_rule \<Rightarrow> compiled_rule" where
  "compile_rule regexp parse_date rule =
     (let hideLevels = filter (\<lambda>l. l \<notin> set MODIFIER_LEVELS) (ig_levels rule) in
      \<lparr>ci_isExcept = ig_isExcept rule,
       ci_maskLen = (case ig_mask rule of Some k \<Rightarrow> length k | None \<Rightarrow> 0),
       ci_expiresAt = map_option parse_date (given (ig_expiresAt rule)),
       ci_hides = (hideLevels \<noteq> []),
       ci_nohilight = (''NOHIGHLIGHT'' \<in> set (ig_levels rule)),
       ci_nounread = (''NOUNREAD'' \<in> set (ig_levels rule)),
       ci_nonotify = (''NONOTIFY'' \<in> set (ig_levels rule)),
       ci_pattern = (given (ig_pattern rule) \<noteq> None),
       ci_channels = (case ig_channels rule of Some cs \<Rightarrow> cs \<noteq> [] | None \<Rightarrow> False),
       ci_anyNick = (given (ig_mask rule) = None \<or> ig_mask rule = Some ''*''),
       ci_hasAll = (''ALL'' \<in> set hideLevels),
       ci_matchesNick = buildMaskMatcher (ig_mask rule),
       ci_matchesChannel = buildChannelMatcher (ig_channels rule),
       ci_matchesText =
         (case given (ig_pattern rule) of
            None \<Rightarrow> (\<lambda>_. True)
          | Some pat \<Rightarrow> (case buildTextTest regexp pat (patternKindToTextKind (ig_patternKind rule)) False of
                           Some test \<Rightarrow> test
                         | None \<Rightarrow> (\<lambda>_. False))),
       ci_hideLevel = hide_level hideLevels\<rparr>)"

definition compileIgnoreRules :: "(string \<Rightarrow> bool \<Rightarrow> (string \<Rightarrow> bool) option) \<Rightarrow> (string \<Rightarrow> int option) \<Rightarrow> ignore_rule list \<Rightarrow> compiled_rule list" where
  "compileIgnoreRules regexp parse_date rules = map (compile_rule regexp parse_date) rules"

definition anyHasPattern :: "compiled_rule list \<Rightarrow> bool" where
  "anyHasPattern compiled = (\<exists>r \<in> set compiled. ci_pattern r)"

definition lapsed :: "int \<Rightarrow> compiled_rule \<Rightarrow> bool" where
  "lapsed now r = (case ci_expiresAt r of Some (Some t) \<Rightarrow> t \<le> now | _ \<Rightarrow> False)"

section \<open>The verdict\<close>

text \<open>The longest mask of the rules and of the exceptions that apply so far; \<open>-1\<close> for none.\<close>

type_synonym best = "int \<times> int"

definition note_best :: "bool \<Rightarrow> compiled_rule \<Rightarrow> best \<Rightarrow> best" where
  "note_best applies r b =
     (if \<not> applies then b
      else if ci_isExcept r then (fst b, if snd b < int (ci_maskLen r) then int (ci_maskLen r) else snd b)
      else (if fst b < int (ci_maskLen r) then int (ci_maskLen r) else fst b, snd b))"

definition hide_applies :: "ignore_input \<Rightarrow> compiled_rule \<Rightarrow> bool" where
  "hide_applies i r = (ci_hides r \<and> ci_hideLevel r (in_type i) (in_isDm i))"

definition no_applies :: "ignore_input \<Rightarrow> compiled_rule \<Rightarrow> bool" where
  "no_applies i r =
     (ci_nohilight r \<and> in_type i \<in> set HIGHLIGHTABLE \<and> (if ci_hides r then ci_hideLevel r (in_type i) (in_isDm i) else True))"

definition notify_applies :: "ignore_input \<Rightarrow> compiled_rule \<Rightarrow> bool" where
  "notify_applies i r = (ci_nonotify r \<and> (if ci_hides r then ci_hideLevel r (in_type i) (in_isDm i) else True))"

definition rule_matches :: "ignore_input \<Rightarrow> string \<Rightarrow> compiled_rule \<Rightarrow> bool" where
  "rule_matches i t r =
     (ci_matchesNick r (in_nick i) (in_userhost i) \<and> ci_matchesChannel r (in_target i) \<and> ci_matchesText r t)"

definition weigh_rule :: "int \<Rightarrow> ignore_input \<Rightarrow> string \<Rightarrow> compiled_rule \<Rightarrow> best \<times> best \<times> best \<Rightarrow> best \<times> best \<times> best" where
  "weigh_rule now i t r bests =
     (if lapsed now r then bests
      else if \<not> hide_applies i r \<and> \<not> no_applies i r \<and> \<not> notify_applies i r then bests
      else if \<not> rule_matches i t r then bests
      else let (h, no, nt) = bests in
           (note_best (hide_applies i r) r h, note_best (no_applies i r) r no, note_best (notify_applies i r) r nt))"

definition best_wins :: "best \<Rightarrow> bool" where
  "best_wins b = (0 \<le> fst b \<and> snd b < fst b)"

definition evaluateIgnores :: "(string \<Rightarrow> string) \<Rightarrow> compiled_rule list \<Rightarrow> ignore_input \<Rightarrow> int \<Rightarrow> ignore_verdict" where
  "evaluateIgnores strip_urls compiled i now =
     (if compiled = [] then \<lparr>iv_hide = False, iv_nohilight = False, iv_nonotify = False\<rparr>
      else
      let t = (if in_text i \<noteq> [] \<and> anyHasPattern compiled then cleanForMatch strip_urls (in_text i) else []);
          (h, no, nt) = fold (weigh_rule now i t) compiled ((-1, -1), (-1, -1), (-1, -1))
      in \<lparr>iv_hide = best_wins h, iv_nohilight = best_wins no, iv_nonotify = best_wins nt\<rparr>)"

definition isMemberHidden :: "compiled_rule list \<Rightarrow> string \<Rightarrow> string option \<Rightarrow> string \<Rightarrow> int \<Rightarrow> bool" where
  "isMemberHidden compiled nick userhost channel now =
     (\<exists>r \<in> set compiled. \<not> (ci_isExcept r \<or> ci_pattern r \<or> \<not> ci_hasAll r) \<and> \<not> lapsed now r \<and>
        ci_matchesChannel r channel \<and> ci_matchesNick r (Some nick) userhost)"

definition channelMutesUnread :: "compiled_rule list \<Rightarrow> string \<Rightarrow> int \<Rightarrow> bool" where
  "channelMutesUnread compiled channel now =
     (\<exists>r \<in> set compiled. \<not> (ci_isExcept r \<or> ci_pattern r \<or> \<not> ci_nounread r \<or> \<not> ci_anyNick r) \<and> \<not> lapsed now r \<and>
        ci_matchesChannel r channel)"

section \<open>The longest mask wins\<close>

text \<open>What a verdict means: some rule applies, and its mask is longer than that of every exception that does.\<close>

definition outweighs :: "(compiled_rule \<Rightarrow> bool) \<Rightarrow> compiled_rule list \<Rightarrow> bool" where
  "outweighs A rs \<longleftrightarrow> (\<exists>r \<in> set rs. A r \<and> \<not> ci_isExcept r \<and> (\<forall>e \<in> set rs. A e \<and> ci_isExcept e \<longrightarrow> ci_maskLen e < ci_maskLen r))"

definition is_best :: "(compiled_rule \<Rightarrow> bool) \<Rightarrow> compiled_rule list \<Rightarrow> int \<Rightarrow> bool" where
  "is_best A rs b \<longleftrightarrow> (\<forall>r \<in> set rs. A r \<longrightarrow> int (ci_maskLen r) \<le> b) \<and> (b = -1 \<or> (\<exists>r \<in> set rs. A r \<and> int (ci_maskLen r) = b))"

lemma is_best_note:
  assumes "is_best A rs b"
  shows "is_best A (rs @ [r]) (if A r then (if b < int (ci_maskLen r) then int (ci_maskLen r) else b) else b)"
  using assms by (auto simp: is_best_def)

lemma best_wins_iff:
  assumes "is_best (\<lambda>r. A r \<and> \<not> ci_isExcept r) rs (fst b)" "is_best (\<lambda>r. A r \<and> ci_isExcept r) rs (snd b)"
  shows "best_wins b \<longleftrightarrow> outweighs A rs"
proof
  assume w: "best_wins b"
  then obtain r where "r \<in> set rs" "A r" "\<not> ci_isExcept r" "int (ci_maskLen r) = fst b"
    using assms(1) by (auto simp: best_wins_def is_best_def)
  with w assms(2) show "outweighs A rs" by (fastforce simp: best_wins_def is_best_def outweighs_def)
next
  assume "outweighs A rs"
  then obtain r where r: "r \<in> set rs" "A r" "\<not> ci_isExcept r" "\<And>e. e \<in> set rs \<Longrightarrow> A e \<Longrightarrow> ci_isExcept e \<Longrightarrow> ci_maskLen e < ci_maskLen r"
    by (auto simp: outweighs_def)
  then have "int (ci_maskLen r) \<le> fst b" using assms(1) by (auto simp: is_best_def)
  moreover have "snd b < int (ci_maskLen r)" using assms(2) r(4) by (fastforce simp: is_best_def)
  ultimately show "best_wins b" by (auto simp: best_wins_def)
qed

text \<open>The rules that count towards each part of the verdict.\<close>

definition counts :: "int \<Rightarrow> ignore_input \<Rightarrow> string \<Rightarrow> (ignore_input \<Rightarrow> compiled_rule \<Rightarrow> bool) \<Rightarrow> compiled_rule \<Rightarrow> bool" where
  "counts now i t applies r \<longleftrightarrow> \<not> lapsed now r \<and> applies i r \<and> rule_matches i t r"

definition bests_ok :: "int \<Rightarrow> ignore_input \<Rightarrow> string \<Rightarrow> compiled_rule list \<Rightarrow> (ignore_input \<Rightarrow> compiled_rule \<Rightarrow> bool) \<Rightarrow> best \<Rightarrow> bool" where
  "bests_ok now i t rs applies b \<longleftrightarrow>
     is_best (\<lambda>r. counts now i t applies r \<and> \<not> ci_isExcept r) rs (fst b) \<and>
     is_best (\<lambda>r. counts now i t applies r \<and> ci_isExcept r) rs (snd b)"

lemma note_best_ok:
  assumes "bests_ok now i t rs applies b"
  shows "bests_ok now i t (rs @ [r]) applies (note_best (counts now i t applies r) r b)"
  using is_best_note [of "\<lambda>r. counts now i t applies r \<and> \<not> ci_isExcept r" rs "fst b" r]
    is_best_note [of "\<lambda>r. counts now i t applies r \<and> ci_isExcept r" rs "snd b" r] assms
  by (auto simp: bests_ok_def note_best_def split: if_splits)

lemma weigh_rule_counts:
  "weigh_rule now i t r (h, no, nt) =
     (note_best (counts now i t hide_applies r) r h, note_best (counts now i t no_applies r) r no,
      note_best (counts now i t notify_applies r) r nt)"
  by (auto simp: weigh_rule_def counts_def note_best_def)

lemma fold_weigh:
  "\<exists>h no nt. fold (weigh_rule now i t) rs ((-1, -1), (-1, -1), (-1, -1)) = (h, no, nt) \<and>
     bests_ok now i t rs hide_applies h \<and> bests_ok now i t rs no_applies no \<and> bests_ok now i t rs notify_applies nt"
proof (induction rs rule: rev_induct)
  case Nil
  show ?case by (simp add: bests_ok_def is_best_def)
next
  case (snoc r rs)
  then obtain h no nt where "fold (weigh_rule now i t) rs ((-1, -1), (-1, -1), (-1, -1)) = (h, no, nt)"
    "bests_ok now i t rs hide_applies h" "bests_ok now i t rs no_applies no" "bests_ok now i t rs notify_applies nt"
    by blast
  then show ?case by (simp add: weigh_rule_counts note_best_ok)
qed

text \<open>C18: An event is hidden exactly when an unlapsed rule that covers its type and matches its sender, target
  and text has a longer mask than every such exception; not highlighting and not notifying are decided
  the same way among the rules that carry them, highlighting only for messages and actions.\<close>

theorem longest_mask_wins:
  "evaluateIgnores strip_urls rs i now =
     (let t = (if in_text i \<noteq> [] \<and> anyHasPattern rs then cleanForMatch strip_urls (in_text i) else []) in
      \<lparr>iv_hide = outweighs (counts now i t hide_applies) rs,
       iv_nohilight = outweighs (counts now i t no_applies) rs,
       iv_nonotify = outweighs (counts now i t notify_applies) rs\<rparr>)"
proof (cases "rs = []")
  case True
  then show ?thesis by (simp add: evaluateIgnores_def outweighs_def)
next
  case False
  define t where "t = (if in_text i \<noteq> [] \<and> anyHasPattern rs then cleanForMatch strip_urls (in_text i) else [])"
  obtain h no nt where f: "fold (weigh_rule now i t) rs ((-1, -1), (-1, -1), (-1, -1)) = (h, no, nt)"
    "bests_ok now i t rs hide_applies h" "bests_ok now i t rs no_applies no" "bests_ok now i t rs notify_applies nt"
    using fold_weigh by blast
  have "evaluateIgnores strip_urls rs i now = \<lparr>iv_hide = best_wins h, iv_nohilight = best_wins no, iv_nonotify = best_wins nt\<rparr>"
    using False f(1) unfolding evaluateIgnores_def t_def [symmetric] Let_def by simp
  moreover have "best_wins h = outweighs (counts now i t hide_applies) rs" "best_wins no = outweighs (counts now i t no_applies) rs"
    "best_wins nt = outweighs (counts now i t notify_applies) rs"
    using f(2-4) best_wins_iff unfolding bests_ok_def by blast+
  ultimately show ?thesis unfolding t_def [symmetric] by simp
qed

text \<open>A rule with modifier levels alone hides nothing.\<close>

lemma modifiers_hide_nothing:
  "set (ig_levels rule) \<subseteq> set MODIFIER_LEVELS \<Longrightarrow> \<not> hide_applies i (compile_rule regexp parse_date rule)"
  by (auto simp: hide_applies_def compile_rule_def Let_def filter_empty_conv)

text \<open>The canonical list of levels is in order, without repeats, and stays as it is when read again.\<close>

lemma canonical_levels_known: "l \<in> set CANONICAL_ORDER \<Longrightarrow> canonicalLevel l = Some l"
proof -
  have "list_all (\<lambda>l. canonicalLevel l = Some l) CANONICAL_ORDER" by code_simp
  then show "l \<in> set CANONICAL_ORDER \<Longrightarrow> canonicalLevel l = Some l" by (simp only: list_all_iff)
qed

lemma canonicalize_idem: "canonicalizeLevels (canonicalizeLevels ls) = canonicalizeLevels ls"
proof -
  have "canonicalizeLevels (filter P CANONICAL_ORDER) = filter P CANONICAL_ORDER" for P
    unfolding canonicalizeLevels_def
    by (intro filter_cong) (force simp: canonical_levels_known)+
  then show ?thesis unfolding canonicalizeLevels_def by blast
qed

end
