(* ===== verification/Message_Split.thy ===== *)
theory Message_Split imports Lurker_Base begin

text \<open>
  \<open>server/services/messageSplit.ts\<close>: one body as the PRIVMSGs, actions or draft/multiline batches it goes out
  as.  \<open>lineBreak\<close> of irc-framework is the argument \<open>lb\<close>, from a text and a byte budget to pieces.
\<close>

section \<open>The line budget\<close>

definition IRC_LINE_BYTES :: nat where
  "IRC_LINE_BYTES = 512"

definition MIN_TEXT_BUDGET :: nat where
  "MIN_TEXT_BUDGET = 64"

definition ACTION_WRAPPER_BYTES :: nat where
  "ACTION_WRAPPER_BYTES = 9"

record budget_opts =
  bo_nick :: string
  bo_userhostBytes :: nat
  bo_command :: string
  bo_target :: string
  bo_action :: bool

definition textBudget :: "budget_opts \<Rightarrow> int" where
  "textBudget opts =
     (let head = utf8_length ('':'' @ bo_nick opts @ ''! '' @ bo_command opts @ '' '' @ bo_target opts @ '' :'')
                 + bo_userhostBytes opts + 2;
          wrapper = (if bo_action opts then ACTION_WRAPPER_BYTES else 0)
      in max (int MIN_TEXT_BUDGET) (int IRC_LINE_BYTES - int head - int wrapper))"

text \<open>A line of that budget fits, unless the budget is the minimum.\<close>

lemma textBudget_fits:
  "int (utf8_length t) \<le> textBudget opts \<Longrightarrow> textBudget opts \<noteq> int MIN_TEXT_BUDGET \<Longrightarrow> \<not> bo_action opts \<Longrightarrow>
     utf8_length ('':'' @ bo_nick opts @ ''!'') + bo_userhostBytes opts +
     utf8_length ('' '' @ bo_command opts @ '' '' @ bo_target opts @ '' :'' @ t) + 2 \<le> IRC_LINE_BYTES"
  by (simp add: textBudget_def Let_def max_def utf8_char_def split: if_splits)

section \<open>Pieces\<close>

definition LEGACY_TEXT_BUDGET :: nat where
  "LEGACY_TEXT_BUDGET = 350"

definition LEGACY_ACTION_BUDGET :: nat where
  "LEGACY_ACTION_BUDGET = LEGACY_TEXT_BUDGET - (length ''ACTION'' + 3)"

definition chunk :: "(string \<Rightarrow> nat \<Rightarrow> string list) \<Rightarrow> string \<Rightarrow> nat \<Rightarrow> string list" where
  "chunk lb t bytes =
     (let pieces = lb t bytes in
      if pieces = [] \<and> t \<noteq> [] \<and> utf8_length t \<le> bytes then [t] else pieces)"

text \<open>\<open>pushRuns\<close>: whitespace alone, in budget-sized pieces.\<close>

fun push_runs :: "nat \<Rightarrow> string \<Rightarrow> string \<Rightarrow> string list" where
  "push_runs bytes run [] = (if run \<noteq> [] then [run] else [])"
| "push_runs bytes run (c # gap) =
     (if bytes < utf8_length (run @ [c]) then run # push_runs bytes [c] gap else push_runs bytes (run @ [c]) gap)"

text \<open>\<open>attach\<close>: the pieces out so far and the next piece, the dropped gap restored.\<close>

definition attach_gap :: "nat \<Rightarrow> string list \<Rightarrow> string \<Rightarrow> string \<Rightarrow> string list \<times> string" where
  "attach_gap bytes out gap next =
     (if out \<noteq> [] \<and> utf8_length (last out @ gap) \<le> bytes then (butlast out @ [last out @ gap], next)
      else if utf8_length (gap @ next) \<le> bytes then (out, gap @ next)
      else (out @ push_runs bytes [] gap, next))"

text \<open>\<open>indexOf\<close> of a text in what is left of the line.\<close>

fun find_sub :: "string \<Rightarrow> string \<Rightarrow> nat option" where
  "find_sub p [] = (if p = [] then Some 0 else None)"
| "find_sub p (c # s) = (if starts_with (c # s) p then Some 0 else map_option Suc (find_sub p s))"

text \<open>The walk over the pieces; \<open>None\<close> when they are not this line's pieces in order.\<close>

fun walk_pieces :: "nat \<Rightarrow> string list \<Rightarrow> string \<Rightarrow> string list \<Rightarrow> (string list \<times> string) option" where
  "walk_pieces bytes [] rest out = Some (out, rest)"
| "walk_pieces bytes (p # ps) rest out =
     (case find_sub p rest of
        None \<Rightarrow> None
      | Some i \<Rightarrow>
          let gap = take i rest in
          if \<not> list_all is_space gap then None
          else let out' = (if gap \<noteq> [] then (case attach_gap bytes out gap p of (o', n) \<Rightarrow> o' @ [n]) else out @ [p])
               in walk_pieces bytes ps (drop (i + length p) rest) out')"

definition chunkConcat :: "(string \<Rightarrow> nat \<Rightarrow> string list) \<Rightarrow> string \<Rightarrow> nat \<Rightarrow> string list" where
  "chunkConcat lb line bytes =
     (let pieces = chunk lb line bytes in
      if length pieces \<le> 1 then pieces
      else case walk_pieces bytes pieces line [] of
             None \<Rightarrow> pieces
           | Some (out, tail) \<Rightarrow>
               if tail = [] then out
               else if utf8_length (last out @ tail) \<le> bytes then butlast out @ [last out @ tail]
               else out @ push_runs bytes [] tail)"

section \<open>Lines\<close>

text \<open>\<open>split(/\<backslash>r\<backslash>n|\<backslash>n|\<backslash>r/)\<close>.\<close>

definition cr :: char where "cr = char_of (13 :: nat)"
definition lf :: char where "lf = char_of (10 :: nat)"

fun split_lines :: "string \<Rightarrow> string list" where
  "split_lines [] = [[]]"
| "split_lines (c # s) =
     (if c = cr then [] # split_lines (if s \<noteq> [] \<and> hd s = lf then tl s else s)
      else if c = lf then [] # split_lines s
      else case split_lines s of [] \<Rightarrow> [[c]] | l # ls \<Rightarrow> (c # l) # ls)"

definition splitSay :: "(string \<Rightarrow> nat \<Rightarrow> string list) \<Rightarrow> string option \<Rightarrow> nat \<Rightarrow> string list" where
  "splitSay lb t bytes =
     (case t of None \<Rightarrow> [] | Some s \<Rightarrow>
        if s = [] then [] else concat (map (\<lambda>line. chunk lb line bytes) (filter (\<lambda>l. l \<noteq> []) (split_lines s))))"

definition splitAction :: "(string \<Rightarrow> nat \<Rightarrow> string list) \<Rightarrow> string option \<Rightarrow> nat \<Rightarrow> string list" where
  "splitAction lb t bytes = (case t of None \<Rightarrow> [] | Some s \<Rightarrow> if s = [] then [] else chunk lb s bytes)"

record wire =
  wi_content :: string
  wi_concat :: bool

definition parts_wires :: "bool \<Rightarrow> string list \<Rightarrow> wire list" where
  "parts_wires first parts =
     (case parts of [] \<Rightarrow> [] | p # ps \<Rightarrow>
        \<lparr>wi_content = p, wi_concat = first\<rparr> # map (\<lambda>q. \<lparr>wi_content = q, wi_concat = True\<rparr>) ps)"

definition line_wires :: "(string \<Rightarrow> nat \<Rightarrow> string list) \<Rightarrow> nat \<Rightarrow> string \<Rightarrow> wire list" where
  "line_wires lb bytes line =
     (if line = [] then [\<lparr>wi_content = [], wi_concat = False\<rparr>] else parts_wires False (chunkConcat lb line bytes))"

definition blank_wire :: "wire \<Rightarrow> bool" where
  "blank_wire w = (wi_content w = [] \<and> \<not> wi_concat w)"

definition trim_edges :: "('a \<Rightarrow> bool) \<Rightarrow> 'a list \<Rightarrow> 'a list" where
  "trim_edges p xs = rev (dropWhile p (rev (dropWhile p xs)))"

definition splitMultiline :: "(string \<Rightarrow> nat \<Rightarrow> string list) \<Rightarrow> string option \<Rightarrow> nat \<Rightarrow> wire list" where
  "splitMultiline lb t bytes =
     (case t of None \<Rightarrow> [] | Some s \<Rightarrow>
        if s = [] then [] else trim_edges blank_wire (concat (map (line_wires lb bytes) (split_lines s))))"

section \<open>Batches\<close>

record multiline_limits =
  ml_maxBytes :: nat
  ml_maxLines :: nat

text \<open>A head and its continuations.\<close>

definition group_wire :: "wire \<Rightarrow> wire list list \<Rightarrow> wire list list" where
  "group_wire w logical =
     (if \<not> wi_concat w \<or> logical = [] then logical @ [[w]] else butlast logical @ [last logical @ [w]])"

definition wires_bytes :: "wire list \<Rightarrow> nat" where
  "wires_bytes ws = sum_list (map (utf8_length \<circ> wi_content) ws)"

type_synonym packing = "wire list list \<times> wire list \<times> nat"

definition flush_batch :: "packing \<Rightarrow> packing" where
  "flush_batch st = (let (batches, cur, n) = st in if cur \<noteq> [] then (batches @ [cur], [], 0) else st)"

definition push_wires :: "wire list \<Rightarrow> packing \<Rightarrow> packing" where
  "push_wires ws st = (let (batches, cur, n) = st in (batches, cur @ ws, n + wires_bytes ws))"

definition place_wire :: "multiline_limits \<Rightarrow> wire \<Rightarrow> packing \<Rightarrow> packing" where
  "place_wire lim w st =
     (let (batches, cur, n) = st;
          full = (cur \<noteq> [] \<and> (ml_maxLines lim < length cur + 1 \<or> ml_maxBytes lim < n + utf8_length (wi_content w)))
      in push_wires [w] (if full then flush_batch st else st))"

definition recut :: "(string \<Rightarrow> nat \<Rightarrow> string list) \<Rightarrow> multiline_limits \<Rightarrow> wire \<Rightarrow> wire list" where
  "recut lb lim w =
     (if ml_maxBytes lim < utf8_length (wi_content w)
      then parts_wires (wi_concat w) (chunkConcat lb (wi_content w) (ml_maxBytes lim))
      else [w])"

definition place_line :: "(string \<Rightarrow> nat \<Rightarrow> string list) \<Rightarrow> multiline_limits \<Rightarrow> wire list \<Rightarrow> packing \<Rightarrow> packing" where
  "place_line lb lim line st =
     (let (batches, cur, n) = st;
          lineBytes = wires_bytes line;
          full = (cur \<noteq> [] \<and> (ml_maxLines lim < length cur + length line \<or> ml_maxBytes lim < n + lineBytes));
          st1 = (if full then flush_batch st else st)
      in if length line \<le> ml_maxLines lim \<and> lineBytes \<le> ml_maxBytes lim then push_wires line st1
         else fold (place_wire lim) (concat (map (recut lb lim) line)) (flush_batch st1))"

definition partitionMultiline :: "(string \<Rightarrow> nat \<Rightarrow> string list) \<Rightarrow> string option \<Rightarrow> multiline_limits \<Rightarrow> nat \<Rightarrow> wire list list" where
  "partitionMultiline lb t lim bytes =
     (let wires = splitMultiline lb t bytes in
      if wires = [] then []
      else fst (flush_batch (fold (place_line lb lim) (fold group_wire wires []) ([], [], 0))))"

definition line_char :: "char \<Rightarrow> bool" where
  "line_char c \<longleftrightarrow> c = cr \<or> c = lf"

definition hasInteriorNewline :: "string \<Rightarrow> bool" where
  "hasInteriorNewline t = (\<exists>c \<in> set (trim_edges line_char t). line_char c)"

fun reassemble_rest :: "wire list \<Rightarrow> string" where
  "reassemble_rest [] = []"
| "reassemble_rest (w # ws) = (if wi_concat w then wi_content w else lf # wi_content w) @ reassemble_rest ws"

definition reassembleMultiline :: "wire list \<Rightarrow> string" where
  "reassembleMultiline ws = (case ws of [] \<Rightarrow> [] | w # r \<Rightarrow> wi_content w @ reassemble_rest r)"

section \<open>What \<open>lineBreak\<close> is relied on for\<close>

text \<open>Its pieces are pieces of the line in order, each with something visible, and only whitespace lies between
  and around them.\<close>

fun cut_of :: "string list \<Rightarrow> string \<Rightarrow> bool" where
  "cut_of [] rest \<longleftrightarrow> list_all is_space rest"
| "cut_of (p # ps) rest \<longleftrightarrow>
     (\<exists>gap rest'. rest = gap @ p @ rest' \<and> list_all is_space gap \<and> \<not> list_all is_space p \<and> cut_of ps rest')"

definition cut_ok :: "(string \<Rightarrow> nat \<Rightarrow> string list) \<Rightarrow> string \<Rightarrow> nat \<Rightarrow> bool" where
  "cut_ok lb line bytes \<longleftrightarrow>
     (let ps = chunk lb line bytes in ps = [line] \<or> 1 < length ps \<and> cut_of ps line \<and> (\<forall>p \<in> set ps. utf8_length p \<le> bytes))"

lemma takeWhile_space_gap:
  "list_all is_space gap \<Longrightarrow> \<not> list_all is_space p \<Longrightarrow>
     length (takeWhile is_space (gap @ p @ r)) = length gap + length (takeWhile is_space p)"
proof -
  assume g: "list_all is_space gap" and p: "\<not> list_all is_space p"
  then have "takeWhile is_space (gap @ p @ r) = gap @ takeWhile is_space (p @ r)"
    by (simp add: list_all_iff takeWhile_append2)
  moreover from p obtain x where "x \<in> set p" "\<not> is_space x" by (auto simp: list_all_iff)
  then have "takeWhile is_space (p @ r) = takeWhile is_space p" by (rule takeWhile_append1)
  ultimately show ?thesis by simp
qed

lemma find_sub_gap:
  "list_all is_space gap \<Longrightarrow> \<not> list_all is_space p \<Longrightarrow> find_sub p (gap @ p @ r) = Some (length gap)"
proof (induction gap)
  case Nil
  then obtain c p' where "p = c # p'" by (cases p) auto
  then show ?case by (simp add: starts_with_def)
next
  case (Cons c gap)
  have "\<not> starts_with (c # gap @ p @ r) p"
  proof
    assume "starts_with (c # gap @ p @ r) p"
    then obtain u where u: "c # gap @ p @ r = p @ u" by (auto simp: starts_with_iff_prefix prefix_def)
    have "length (takeWhile is_space ((c # gap) @ p @ r)) = length (c # gap) + length (takeWhile is_space p)"
      using Cons.prems by (intro takeWhile_space_gap)
    moreover have "length (takeWhile is_space ([] @ p @ u)) = length ([] :: string) + length (takeWhile is_space p)"
      using Cons.prems(2) by (intro takeWhile_space_gap) simp_all
    ultimately show False using u by simp
  qed
  with Cons show ?case by simp
qed

section \<open>Nothing is lost at a cut\<close>

lemma push_runs_concat: "concat (push_runs bytes run gap) = run @ gap"
  by (induction bytes run gap rule: push_runs.induct) simp_all

lemma utf8_char_le_2: "utf8_char c \<le> 2"
  by (simp add: utf8_char_def)

lemma push_runs_pieces:
  "2 \<le> bytes \<Longrightarrow> utf8_length run \<le> bytes \<Longrightarrow> p \<in> set (push_runs bytes run gap) \<Longrightarrow> p \<noteq> [] \<and> utf8_length p \<le> bytes"
proof (induction bytes run gap rule: push_runs.induct)
  case (2 bytes run c gap)
  have c: "utf8_length [c] \<le> bytes" using 2(3) utf8_char_le_2 [of c] by simp
  show ?case
  proof (cases "bytes < utf8_length (run @ [c])")
    case True
    then have "run \<noteq> []" using c by auto
    with True 2 c show ?thesis by auto
  next
    case False
    with 2 show ?thesis by auto
  qed
qed (auto split: if_splits)

text \<open>The pieces so far and the next, with their gap, are the same text, and stay within the budget.\<close>

definition pieces_ok :: "nat \<Rightarrow> string list \<Rightarrow> bool" where
  "pieces_ok bytes ps \<longleftrightarrow> (\<forall>p \<in> set ps. p \<noteq> [] \<and> utf8_length p \<le> bytes)"

lemma pieces_ok_simps [simp]:
  "pieces_ok bytes []" "pieces_ok bytes (p # ps) \<longleftrightarrow> p \<noteq> [] \<and> utf8_length p \<le> bytes \<and> pieces_ok bytes ps"
  "pieces_ok bytes (as @ bs) \<longleftrightarrow> pieces_ok bytes as \<and> pieces_ok bytes bs"
  by (auto simp: pieces_ok_def)

lemma pieces_ok_runs: "2 \<le> bytes \<Longrightarrow> pieces_ok bytes (push_runs bytes [] gap)"
  using push_runs_pieces [of bytes "[]"] by (auto simp: pieces_ok_def)

lemma extend_last:
  assumes "out \<noteq> []"
  shows "concat (butlast out @ [last out @ gap]) = concat out @ gap"
    "pieces_ok bytes out \<Longrightarrow> utf8_length (last out @ gap) \<le> bytes \<Longrightarrow> pieces_ok bytes (butlast out @ [last out @ gap])"
proof -
  have e: "out = butlast out @ [last out]" using assms by simp
  show "concat (butlast out @ [last out @ gap]) = concat out @ gap"
    by (subst (3) e) simp
  show "pieces_ok bytes (butlast out @ [last out @ gap])" if "pieces_ok bytes out" "utf8_length (last out @ gap) \<le> bytes"
    using that assms by (auto simp: pieces_ok_def dest: in_set_butlastD)
qed

lemma attach_gap_ok:
  assumes "attach_gap bytes out gap p = (out', n)"
  shows "concat out' @ n = concat out @ gap @ p"
    "2 \<le> bytes \<Longrightarrow> pieces_ok bytes out \<Longrightarrow> p \<noteq> [] \<Longrightarrow> utf8_length p \<le> bytes \<Longrightarrow> pieces_ok bytes (out' @ [n])"
  using assms extend_last [where out = out and gap = gap] pieces_ok_runs [of bytes gap]
  by (auto simp: attach_gap_def push_runs_concat split: if_splits)

lemma walk_pieces_ok:
  "cut_of ps rest \<Longrightarrow> \<exists>out' t. walk_pieces bytes ps rest out = Some (out', t) \<and> concat out' @ t = concat out @ rest \<and>
     (ps \<noteq> [] \<or> out \<noteq> [] \<longrightarrow> out' \<noteq> []) \<and>
     (2 \<le> bytes \<and> pieces_ok bytes out \<and> (\<forall>p \<in> set ps. utf8_length p \<le> bytes) \<longrightarrow> pieces_ok bytes out')"
proof (induction ps arbitrary: rest out)
  case Nil
  show ?case by simp
next
  case (Cons p ps)
  from Cons.prems obtain gap rest' where c: "rest = gap @ p @ rest'" "list_all is_space gap" "\<not> list_all is_space p" "cut_of ps rest'"
    by auto
  define out1 where "out1 = (if gap \<noteq> [] then (case attach_gap bytes out gap p of (o', n) \<Rightarrow> o' @ [n]) else out @ [p])"
  obtain o' n where a: "attach_gap bytes out gap p = (o', n)" by (meson surj_pair)
  have p: "p \<noteq> []" using c(3) by auto
  have o1: "out1 \<noteq> []" "concat out1 = concat out @ gap @ p"
    "2 \<le> bytes \<Longrightarrow> pieces_ok bytes out \<Longrightarrow> utf8_length p \<le> bytes \<Longrightarrow> pieces_ok bytes out1"
    using attach_gap_ok [OF a] p by (auto simp: out1_def a)
  have w: "walk_pieces bytes (p # ps) rest out = walk_pieces bytes ps rest' out1"
    using c(1,2) find_sub_gap [OF c(2,3)] by (simp add: Let_def out1_def)
  obtain out' t where ih: "walk_pieces bytes ps rest' out1 = Some (out', t)" "concat out' @ t = concat out1 @ rest'"
    "ps \<noteq> [] \<or> out1 \<noteq> [] \<longrightarrow> out' \<noteq> []"
    "2 \<le> bytes \<and> pieces_ok bytes out1 \<and> (\<forall>p \<in> set ps. utf8_length p \<le> bytes) \<longrightarrow> pieces_ok bytes out'"
    using Cons.IH [OF c(4), of out1] by blast
  show ?case
    by (intro exI [of _ out'] exI [of _ t]) (use w ih o1 c(1) in auto)
qed

text \<open>The pieces of a line joined are the line, none empty and none over the budget.\<close>

lemma chunkConcat_keeps:
  assumes "cut_ok lb line bytes" "line \<noteq> []"
  shows "concat (chunkConcat lb line bytes) = line" "chunkConcat lb line bytes \<noteq> []"
    "2 \<le> bytes \<Longrightarrow> chunk lb line bytes \<noteq> [line] \<or> utf8_length line \<le> bytes \<Longrightarrow> pieces_ok bytes (chunkConcat lb line bytes)"
proof -
  let ?ps = "chunk lb line bytes"
  have "concat (chunkConcat lb line bytes) = line \<and> chunkConcat lb line bytes \<noteq> [] \<and>
    (2 \<le> bytes \<longrightarrow> chunk lb line bytes \<noteq> [line] \<or> utf8_length line \<le> bytes \<longrightarrow> pieces_ok bytes (chunkConcat lb line bytes))"
  proof (cases "?ps = [line]")
    case True
    with assms(2) show ?thesis by (simp add: chunkConcat_def)
  next
    case False
    then have c: "1 < length ?ps" "cut_of ?ps line" "\<forall>p \<in> set ?ps. utf8_length p \<le> bytes"
      using assms(1) by (auto simp: cut_ok_def Let_def)
    obtain out t where w: "walk_pieces bytes ?ps line [] = Some (out, t)" "concat out @ t = line" "out \<noteq> []"
      "2 \<le> bytes \<longrightarrow> pieces_ok bytes out"
      using walk_pieces_ok [OF c(2), of bytes "[]"] c(1,3) by auto
    have e: "chunkConcat lb line bytes = (if t = [] then out
        else if utf8_length (last out @ t) \<le> bytes then butlast out @ [last out @ t] else out @ push_runs bytes [] t)"
      using c(1) w(1) by (simp add: chunkConcat_def Let_def)
    show ?thesis
      using w extend_last [OF w(3), where gap = t] pieces_ok_runs [of bytes t] unfolding e by (auto simp: push_runs_concat)
  qed
  then show "concat (chunkConcat lb line bytes) = line" "chunkConcat lb line bytes \<noteq> []"
    "2 \<le> bytes \<Longrightarrow> chunk lb line bytes \<noteq> [line] \<or> utf8_length line \<le> bytes \<Longrightarrow> pieces_ok bytes (chunkConcat lb line bytes)"
    by blast+
qed

section \<open>The round trip of a body\<close>

lemma dropWhile_concat:
  assumes "\<forall>l \<in> set ls. p l \<longrightarrow> (\<forall>x \<in> set (g l). q x)" "\<forall>l \<in> set ls. \<not> p l \<longrightarrow> g l \<noteq> [] \<and> \<not> q (hd (g l))"
  shows "dropWhile q (concat (map g ls)) = concat (map g (dropWhile p ls))"
  using assms
proof (induction ls)
  case (Cons l ls)
  show ?case
  proof (cases "p l")
    case True
    then have "\<forall>x \<in> set (g l). q x" using Cons.prems(1) True by simp
    then have "dropWhile q (g l @ concat (map g ls)) = dropWhile q (concat (map g ls))"
      by (intro dropWhile_append2) blast
    moreover have "dropWhile q (concat (map g ls)) = concat (map g (dropWhile p ls))"
      by (rule Cons.IH) (use Cons.prems in simp_all)
    ultimately show ?thesis using True by simp
  next
    case False
    then obtain x xs where "g l = x # xs" "\<not> q x" using Cons.prems(2) by (cases "g l") auto
    with False show ?thesis by simp
  qed
qed simp

lemma trim_edges_concat:
  assumes "\<forall>l \<in> set ls. p l \<longrightarrow> (\<forall>x \<in> set (g l). q x)" "\<forall>l \<in> set ls. \<not> p l \<longrightarrow> g l \<noteq> [] \<and> (\<forall>x \<in> set (g l). \<not> q x)"
  shows "trim_edges q (concat (map g ls)) = concat (map g (trim_edges p ls))"
proof -
  let ?ls = "dropWhile p ls"
  have sub: "set ?ls \<subseteq> set ls" using set_dropWhileD by fast
  have "dropWhile q (concat (map g ls)) = concat (map g ?ls)"
    using assms by (intro dropWhile_concat) (auto simp: hd_in_set)
  moreover have "dropWhile q (concat (map (rev \<circ> g) (rev ?ls))) = concat (map (rev \<circ> g) (dropWhile p (rev ?ls)))"
    using assms sub by (intro dropWhile_concat) (auto simp: hd_rev dest: last_in_set)
  ultimately show ?thesis by (simp add: trim_edges_def rev_concat rev_map comp_def)
qed

lemma parts_wires_facts:
  "parts \<noteq> [] \<Longrightarrow> parts_wires b parts \<noteq> [] \<and> wi_concat (hd (parts_wires b parts)) = b"
  "reassemble_rest (parts_wires b parts) = (if parts = [] then [] else (if b then [] else [lf]) @ concat parts)"
  "set (map wi_content (parts_wires b parts)) = set parts"
  "length (parts_wires b parts) = length parts"
proof -
  have r: "reassemble_rest (map (\<lambda>q. \<lparr>wi_content = q, wi_concat = True\<rparr>) ps) = concat ps" for ps
    by (induction ps) simp_all
  show "parts \<noteq> [] \<Longrightarrow> parts_wires b parts \<noteq> [] \<and> wi_concat (hd (parts_wires b parts)) = b"
    "reassemble_rest (parts_wires b parts) = (if parts = [] then [] else (if b then [] else [lf]) @ concat parts)"
    "set (map wi_content (parts_wires b parts)) = set parts" "length (parts_wires b parts) = length parts"
    by (cases parts; simp add: parts_wires_def r image_image)+
qed

lemma reassemble_rest_append [simp]: "reassemble_rest (as @ bs) = reassemble_rest as @ reassemble_rest bs"
  by (induction as) simp_all

text \<open>A line's wires: their text is the line behind a line feed, and none is blank unless the line is.\<close>

lemma line_wires_facts:
  assumes "line \<noteq> [] \<Longrightarrow> cut_ok lb line bytes" "2 \<le> bytes"
  shows "reassemble_rest (line_wires lb bytes line) = lf # line" "line_wires lb bytes line \<noteq> []"
    "\<not> wi_concat (hd (line_wires lb bytes line))"
    "line = [] \<Longrightarrow> \<forall>w \<in> set (line_wires lb bytes line). blank_wire w"
    "line \<noteq> [] \<Longrightarrow> \<forall>w \<in> set (line_wires lb bytes line). \<not> blank_wire w"
proof -
  let ?ps = "chunkConcat lb line bytes"
  have k: "concat ?ps = line" "?ps \<noteq> []" if "line \<noteq> []" using chunkConcat_keeps [of lb line bytes] assms(1) that by auto
  have ne: "\<forall>p \<in> set ?ps. p \<noteq> []" if l: "line \<noteq> []"
  proof (cases "chunk lb line bytes = [line]")
    case True
    then show ?thesis using l by (simp add: chunkConcat_def)
  next
    case False
    then show ?thesis using chunkConcat_keeps(3) [of lb line bytes] assms l by (auto simp: pieces_ok_def)
  qed
  show "reassemble_rest (line_wires lb bytes line) = lf # line" "line_wires lb bytes line \<noteq> []"
    "\<not> wi_concat (hd (line_wires lb bytes line))"
    using k parts_wires_facts(1) [of ?ps False] by (auto simp: line_wires_def parts_wires_facts(2))
  show "line = [] \<Longrightarrow> \<forall>w \<in> set (line_wires lb bytes line). blank_wire w" by (simp add: line_wires_def blank_wire_def)
  assume l: "line \<noteq> []"
  have "\<forall>w \<in> set (parts_wires False ?ps). wi_content w \<in> set ?ps"
    using parts_wires_facts(3) [of False ?ps] by auto
  then show "\<forall>w \<in> set (line_wires lb bytes line). \<not> blank_wire w"
    using ne l by (auto simp: line_wires_def blank_wire_def)
qed

lemma reassemble_lines:
  assumes "\<And>l. l \<in> set ls \<Longrightarrow> reassemble_rest (g l) = lf # k l \<and> g l \<noteq> [] \<and> \<not> wi_concat (hd (g l))"
  shows "reassembleMultiline (concat (map g ls)) = join_with [lf] (map k ls)"
proof (cases ls)
  case Nil
  then show ?thesis by (simp add: reassembleMultiline_def)
next
  case (Cons l ls')
  have rest: "reassemble_rest (concat (map g ls'')) = concat (map ((#) lf) (map k ls''))" if "set ls'' \<subseteq> set ls" for ls''
    using that assms by (induction ls'') auto
  have j: "join_with [lf] (l # ls') = l @ concat (map ((#) lf) ls')" for l ls'
    by (induction ls' arbitrary: l) simp_all
  obtain w ws where w: "g l = w # ws" "\<not> wi_concat w" "reassemble_rest (w # ws) = lf # k l"
    using assms [of l] Cons by (cases "g l") auto
  have "set ls' \<subseteq> set ls" using Cons by auto
  from rest [OF this] w Cons show ?thesis by (simp add: reassembleMultiline_def j)
qed

text \<open>What of a line the receiver gets back.  \<open>lineBreak\<close> drops the blanks it cuts at, and \<open>chunkConcat\<close> puts them
  back when it made two pieces or more: a line it has no piece of is gone, and of a line it made one piece of that piece is left.\<close>

definition breaks_fairly :: "(string \<Rightarrow> nat \<Rightarrow> string list) \<Rightarrow> string \<Rightarrow> nat \<Rightarrow> bool" where
  "breaks_fairly lb line bytes \<longleftrightarrow> cut_of (lb line bytes) line \<and> (\<forall>p \<in> set (lb line bytes). utf8_length p \<le> bytes)"

definition gone :: "(string \<Rightarrow> nat \<Rightarrow> string list) \<Rightarrow> nat \<Rightarrow> string \<Rightarrow> bool" where
  "gone lb bytes line \<longleftrightarrow> line \<noteq> [] \<and> lb line bytes = [] \<and> bytes < utf8_length line"

definition kept_of :: "(string \<Rightarrow> nat \<Rightarrow> string list) \<Rightarrow> nat \<Rightarrow> string \<Rightarrow> string" where
  "kept_of lb bytes line = (case lb line bytes of [p] \<Rightarrow> p | _ \<Rightarrow> line)"

lemma kept_of_facts:
  assumes "breaks_fairly lb line bytes"
  shows "gone lb bytes line \<Longrightarrow> list_all is_space line"
    "\<exists>before after. line = before @ kept_of lb bytes line @ after \<and> list_all is_space before \<and> list_all is_space after \<and>
      (length (lb line bytes) \<noteq> 1 \<longrightarrow> before = [] \<and> after = [])"
proof -
  show "gone lb bytes line \<Longrightarrow> list_all is_space line" using assms by (simp add: gone_def breaks_fairly_def)
  show "\<exists>before after. line = before @ kept_of lb bytes line @ after \<and> list_all is_space before \<and> list_all is_space after \<and>
      (length (lb line bytes) \<noteq> 1 \<longrightarrow> before = [] \<and> after = [])"
  proof (cases "length (lb line bytes) = 1")
    case True
    then obtain p where p: "lb line bytes = [p]" by (auto simp: length_Suc_conv)
    then show ?thesis using assms by (auto simp: breaks_fairly_def kept_of_def)
  next
    case False
    then have "kept_of lb bytes line = line" by (auto simp: kept_of_def split: list.splits)
    then show ?thesis using False by (intro exI [of _ "[]"]) simp
  qed
qed

lemma kept_wires:
  assumes "line \<noteq> [] \<Longrightarrow> breaks_fairly lb line bytes" "2 \<le> bytes" "\<not> gone lb bytes line"
  shows "reassemble_rest (line_wires lb bytes line) = lf # (if line = [] then [] else kept_of lb bytes line) \<and>
    line_wires lb bytes line \<noteq> [] \<and> \<not> wi_concat (hd (line_wires lb bytes line)) \<and>
    (line \<noteq> [] \<longrightarrow> (\<forall>w \<in> set (line_wires lb bytes line). \<not> blank_wire w))"
proof (cases "line = [] \<or> cut_ok lb line bytes \<and> kept_of lb bytes line = line")
  case True
  then show ?thesis using line_wires_facts [of line lb bytes] assms(2) by (cases "line = []") auto
next
  case False
  then have line: "line \<noteq> []" "cut_of (lb line bytes) line" "\<forall>p \<in> set (lb line bytes). utf8_length p \<le> bytes"
    using assms(1) by (auto simp: breaks_fairly_def)
  obtain p where p: "lb line bytes = [p]"
  proof (cases "lb line bytes")
    case Nil
    then have "chunk lb line bytes = [line]" using assms(3) line(1) by (simp add: chunk_def gone_def)
    then have "cut_ok lb line bytes" "kept_of lb bytes line = line" using Nil by (simp_all add: cut_ok_def kept_of_def)
    then show thesis using False by simp
  next
    case (Cons p ps)
    show thesis
    proof (cases ps)
      case (Cons q qs)
      then have e: "lb line bytes = p # q # qs" using \<open>lb line bytes = p # ps\<close> by simp
      then have "chunk lb line bytes = p # q # qs" "kept_of lb bytes line = line" by (simp_all add: chunk_def kept_of_def)
      then have "cut_ok lb line bytes" using line(2,3) unfolding cut_ok_def Let_def e by auto
      then show thesis using False \<open>kept_of lb bytes line = line\<close> by simp
    qed (use that Cons in simp)
  qed
  then have "chunkConcat lb line bytes = [p]" "kept_of lb bytes line = p" by (simp_all add: chunkConcat_def chunk_def kept_of_def)
  moreover have "p \<noteq> []" using line(2) p by auto
  ultimately show ?thesis using line(1) by (simp add: line_wires_def parts_wires_def blank_wire_def)
qed

text \<open>C19: A body sent as multiline wires and put together by the receiver is the body with its empty edge lines gone and its
  line breaks as line feeds, line by line, as long as \<open>lineBreak\<close> cuts as it does: at blanks only, into visible pieces within
  the budget.  A line it makes two pieces or more of, or that fits and has nothing visible, comes back to the
  character.  A line it makes one piece of comes back as that piece, blanks at its ends lost; and a line of blanks alone
  that is over the budget is lost with its line break.\<close>

theorem multiline_reassembles:
  assumes "\<forall>line \<in> set (split_lines s). line \<noteq> [] \<longrightarrow> breaks_fairly lb line bytes" "2 \<le> bytes"
  shows "reassembleMultiline (splitMultiline lb (Some s) bytes) =
      join_with [lf] (map (\<lambda>line. if line = [] then [] else kept_of lb bytes line)
        (trim_edges (\<lambda>line. line = []) (filter (\<lambda>line. \<not> gone lb bytes line) (split_lines s)))) \<and>
    (\<forall>line \<in> set (split_lines s). line \<noteq> [] \<longrightarrow> (gone lb bytes line \<longrightarrow> list_all is_space line) \<and>
      (\<exists>before after. line = before @ kept_of lb bytes line @ after \<and> list_all is_space before \<and> list_all is_space after \<and>
        (length (lb line bytes) \<noteq> 1 \<longrightarrow> before = [] \<and> after = [])))"
proof -
  let ?lines = "filter (\<lambda>line. \<not> gone lb bytes line) (split_lines s)" and ?w = "line_wires lb bytes"
  let ?k = "\<lambda>line. if line = [] then [] else kept_of lb bytes line" and ?trim = "trim_edges (\<lambda>line. line = [])"
  have f: "reassemble_rest (?w l) = lf # ?k l \<and> ?w l \<noteq> [] \<and> \<not> wi_concat (hd (?w l))" "l \<noteq> [] \<Longrightarrow> \<forall>w \<in> set (?w l). \<not> blank_wire w"
    "l = [] \<Longrightarrow> \<forall>w \<in> set (?w l). blank_wire w" if "l \<in> set ?lines" for l
    using kept_wires [of l lb bytes] that assms by (auto simp: line_wires_def blank_wire_def)
  have none: "?w l = []" if "gone lb bytes l" for l
    using that by (simp add: gone_def line_wires_def chunkConcat_def chunk_def parts_wires_def)
  have "concat (map ?w ls) = concat (map ?w (filter (\<lambda>line. \<not> gone lb bytes line) ls))" for ls
    by (induction ls) (auto simp: none)
  moreover have "trim_edges blank_wire (concat (map ?w ?lines)) = concat (map ?w (?trim ?lines))"
    by (rule trim_edges_concat) (use f in simp_all)
  ultimately have "splitMultiline lb (Some s) bytes = concat (map ?w (?trim ?lines))"
    by (cases "s = []") (simp_all add: splitMultiline_def trim_edges_def gone_def line_wires_def)
  moreover have "set (?trim ?lines) \<subseteq> set ?lines" unfolding trim_edges_def by (auto dest!: set_dropWhileD)
  then have "reassembleMultiline (concat (map ?w (?trim ?lines))) = join_with [lf] (map ?k (?trim ?lines))"
    by (intro reassemble_lines f(1)) blast
  ultimately show ?thesis using kept_of_facts assms(1) by (metis (no_types, lifting))
qed

text \<open>What is lost: one piece and its blanks, and a line of blanks.\<close>

lemma single_piece_loses_blanks:
  "reassembleMultiline (splitMultiline (\<lambda>t b. if t = ''AAA  '' then [''AAA''] else []) (Some ''AAA  '') 3) = ''AAA''"
  by code_simp

definition sample_break :: "string \<Rightarrow> nat \<Rightarrow> string list" where
  "sample_break t bytes = (if t = ''AAA BBB'' then [''AAA'', ''BBB''] else [t])"

lemma sample_breaks: "breaks_fairly sample_break ''AAA BBB'' 3"
proof -
  have sp: "list_all is_space '' ''" "list_all is_space []" "\<not> list_all is_space ''AAA''" "\<not> list_all is_space ''BBB''"
    by code_simp+
  have b: "utf8_length ''AAA'' \<le> 3" "utf8_length ''BBB'' \<le> 3" by code_simp+
  have "cut_of [''AAA'', ''BBB''] ''AAA BBB''"
    unfolding cut_of.simps
    by (rule exI [of _ "[]"], rule exI [of _ "'' BBB''"], intro conjI sp, simp,
        rule exI [of _ "'' ''"], rule exI [of _ "[]"]) (use sp in simp)
  then show ?thesis using b by (simp add: breaks_fairly_def sample_break_def)
qed

lemma multiline_reassembles_witness:
  "splitMultiline sample_break (Some (''AAA BBB'' @ [lf])) 3 =
     [\<lparr>wi_content = ''AAA'', wi_concat = False\<rparr>, \<lparr>wi_content = '' '', wi_concat = True\<rparr>, \<lparr>wi_content = ''BBB'', wi_concat = True\<rparr>] \<and>
   reassembleMultiline (splitMultiline sample_break (Some (''AAA BBB'' @ [lf])) 3) = ''AAA BBB''"
proof -
  have l: "split_lines (''AAA BBB'' @ [lf]) = [''AAA BBB'', []]" by code_simp
  have t: "trim_edges (\<lambda>l. l = []) [''AAA BBB'', []] = [''AAA BBB'']" by (simp add: trim_edges_def)
  have g: "\<not> gone sample_break 3 ''AAA BBB''" "\<not> gone sample_break 3 []" "kept_of sample_break 3 ''AAA BBB'' = ''AAA BBB''"
    by (simp_all add: gone_def kept_of_def sample_break_def)
  have "\<forall>line \<in> set (split_lines (''AAA BBB'' @ [lf])). line \<noteq> [] \<longrightarrow> breaks_fairly sample_break line 3"
    using sample_breaks unfolding l by simp
  from multiline_reassembles [OF this, THEN conjunct1] have "reassembleMultiline (splitMultiline sample_break (Some (''AAA BBB'' @ [lf])) 3) = ''AAA BBB''"
    using g unfolding l by (simp add: t)
  moreover have "splitMultiline sample_break (Some (''AAA BBB'' @ [lf])) 3 =
     [\<lparr>wi_content = ''AAA'', wi_concat = False\<rparr>, \<lparr>wi_content = '' '', wi_concat = True\<rparr>, \<lparr>wi_content = ''BBB'', wi_concat = True\<rparr>]"
    by code_simp
  ultimately show ?thesis by simp
qed

section \<open>The batches\<close>

definition batch_fits :: "multiline_limits \<Rightarrow> wire list \<Rightarrow> bool" where
  "batch_fits lim ws \<longleftrightarrow> length ws \<le> ml_maxLines lim \<and> wires_bytes ws \<le> ml_maxBytes lim"

definition packing_ok :: "multiline_limits \<Rightarrow> packing \<Rightarrow> bool" where
  "packing_ok lim st \<longleftrightarrow>
     (let (batches, cur, n) = st in
      (\<forall>b \<in> set batches. b \<noteq> [] \<and> batch_fits lim b) \<and> batch_fits lim cur \<and> n = wires_bytes cur)"

definition packed :: "packing \<Rightarrow> wire list" where
  "packed st = (let (batches, cur, n) = st in concat batches @ cur)"

lemma wires_bytes_simps [simp]:
  "wires_bytes [] = 0" "wires_bytes (w # ws) = utf8_length (wi_content w) + wires_bytes ws"
  "wires_bytes (as @ bs) = wires_bytes as + wires_bytes bs"
  by (simp_all add: wires_bytes_def)

lemma flush_batch_ok: "packing_ok lim st \<Longrightarrow> packing_ok lim (flush_batch st) \<and> packed (flush_batch st) = packed st \<and> fst (snd (flush_batch st)) = []"
  by (cases st) (auto simp: flush_batch_def packing_ok_def packed_def batch_fits_def)

lemma push_wires_ok:
  "packing_ok lim st \<Longrightarrow> batch_fits lim (fst (snd st) @ ws) \<Longrightarrow> packing_ok lim (push_wires ws st) \<and> packed (push_wires ws st) = packed st @ ws"
  by (cases st) (auto simp: push_wires_def packing_ok_def packed_def)

lemma place_wire_ok:
  assumes "packing_ok lim st" "utf8_length (wi_content w) \<le> ml_maxBytes lim" "0 < ml_maxLines lim"
  shows "packing_ok lim (place_wire lim w st) \<and> packed (place_wire lim w st) = packed st @ [w]"
proof -
  obtain bs cur n where st: "st = (bs, cur, n)" by (cases st)
  define full where "full \<longleftrightarrow> cur \<noteq> [] \<and> (ml_maxLines lim < length cur + 1 \<or> ml_maxBytes lim < n + utf8_length (wi_content w))"
  let ?st = "if full then flush_batch st else st"
  have ok: "packing_ok lim ?st" "packed ?st = packed st" using flush_batch_ok [OF assms(1)] assms(1) by auto
  have "batch_fits lim (fst (snd ?st) @ [w])"
    using flush_batch_ok [OF assms(1)] assms
    by (auto simp: st full_def batch_fits_def packing_ok_def not_less)
  from push_wires_ok [OF ok(1) this] ok(2) show ?thesis
    unfolding place_wire_def st full_def Let_def prod.case by simp
qed

lemma place_wires_ok:
  "packing_ok lim st \<Longrightarrow> \<forall>w \<in> set ws. utf8_length (wi_content w) \<le> ml_maxBytes lim \<Longrightarrow> 0 < ml_maxLines lim \<Longrightarrow>
     packing_ok lim (fold (place_wire lim) ws st) \<and> packed (fold (place_wire lim) ws st) = packed st @ ws"
  by (induction ws arbitrary: st) (simp_all add: place_wire_ok)

text \<open>A wire too big for a batch is cut again; its text stays, and every cut fits.\<close>

definition recut_ok :: "(string \<Rightarrow> nat \<Rightarrow> string list) \<Rightarrow> multiline_limits \<Rightarrow> wire \<Rightarrow> bool" where
  "recut_ok lb lim w \<longleftrightarrow>
     (ml_maxBytes lim < utf8_length (wi_content w) \<longrightarrow>
        cut_ok lb (wi_content w) (ml_maxBytes lim) \<and> chunk lb (wi_content w) (ml_maxBytes lim) \<noteq> [wi_content w])"

lemma recut_facts:
  assumes "recut_ok lb lim w" "2 \<le> ml_maxBytes lim"
  shows "\<forall>v \<in> set (recut lb lim w). utf8_length (wi_content v) \<le> ml_maxBytes lim"
    "reassemble_rest (recut lb lim w) = reassemble_rest [w]"
proof -
  let ?c = "wi_content w" and ?b = "ml_maxBytes lim"
  have "(\<forall>v \<in> set (recut lb lim w). utf8_length (wi_content v) \<le> ?b) \<and> reassemble_rest (recut lb lim w) = reassemble_rest [w]"
  proof (cases "?b < utf8_length ?c")
    case False
    then show ?thesis by (simp add: recut_def)
  next
    case True
    then have ne: "?c \<noteq> []" by auto
    have ok: "cut_ok lb ?c ?b" "chunk lb ?c ?b \<noteq> [?c]" using assms(1) True by (auto simp: recut_ok_def)
    note k = chunkConcat_keeps [OF ok(1) ne]
    have "pieces_ok ?b (chunkConcat lb ?c ?b)" using k(3) assms(2) ok(2) by blast
    moreover have "\<forall>v \<in> set (parts_wires (wi_concat w) (chunkConcat lb ?c ?b)). wi_content v \<in> set (chunkConcat lb ?c ?b)"
      using parts_wires_facts(3) [of "wi_concat w" "chunkConcat lb ?c ?b"] by auto
    ultimately show ?thesis
      using True k(1,2) by (auto simp: recut_def pieces_ok_def parts_wires_facts(2))
  qed
  then show "\<forall>v \<in> set (recut lb lim w). utf8_length (wi_content v) \<le> ml_maxBytes lim"
    "reassemble_rest (recut lb lim w) = reassemble_rest [w]" by blast+
qed

lemma place_line_ok:
  assumes "packing_ok lim st" "\<forall>w \<in> set line. recut_ok lb lim w" "2 \<le> ml_maxBytes lim" "0 < ml_maxLines lim"
  shows "packing_ok lim (place_line lb lim line st) \<and>
    reassemble_rest (packed (place_line lb lim line st)) = reassemble_rest (packed st) @ reassemble_rest line"
proof -
  obtain bs cur n where st: "st = (bs, cur, n)" by (cases st)
  define full where "full \<longleftrightarrow> cur \<noteq> [] \<and> (ml_maxLines lim < length cur + length line \<or> ml_maxBytes lim < n + wires_bytes line)"
  define st1 where "st1 = (if full then flush_batch st else st)"
  have ok: "packing_ok lim st1" "packed st1 = packed st" using flush_batch_ok [OF assms(1)] assms(1) by (auto simp: st1_def)
  have e: "place_line lb lim line st =
      (if length line \<le> ml_maxLines lim \<and> wires_bytes line \<le> ml_maxBytes lim then push_wires line st1
       else fold (place_wire lim) (concat (map (recut lb lim) line)) (flush_batch st1))"
    unfolding place_line_def st st1_def full_def Let_def prod.case ..
  show ?thesis
  proof (cases "length line \<le> ml_maxLines lim \<and> wires_bytes line \<le> ml_maxBytes lim")
    case True
    then have "batch_fits lim (fst (snd st1) @ line)"
      using flush_batch_ok [OF assms(1)] assms(1)
      by (auto simp: st1_def st full_def batch_fits_def packing_ok_def not_less)
    from push_wires_ok [OF ok(1) this] ok(2) True show ?thesis by (simp add: e)
  next
    case False
    have "\<forall>v \<in> set (concat (map (recut lb lim) line)). utf8_length (wi_content v) \<le> ml_maxBytes lim"
      using recut_facts(1) assms(2,3) by fastforce
    moreover have "reassemble_rest (concat (map (recut lb lim) line)) = reassemble_rest line"
      using assms(2,3) recut_facts(2) by (induction line) (simp_all, blast?)
    ultimately show ?thesis
      using place_wires_ok [of lim "flush_batch st1"] flush_batch_ok [OF ok(1)] ok(2) assms(4) False by (auto simp: e)
  qed
qed

lemma group_wires: "concat (fold group_wire ws gs) = concat gs @ ws \<and> (\<forall>g \<in> set (fold group_wire ws gs). \<forall>w \<in> set g. w \<in> set (concat gs @ ws))"
proof -
  have "concat (fold group_wire ws gs) = concat gs @ ws"
  proof (induction ws arbitrary: gs)
    case (Cons w ws)
    have "concat (group_wire w gs) = concat gs @ [w]"
    proof (cases "\<not> wi_concat w \<or> gs = []")
      case False
      then have e: "gs = butlast gs @ [last gs]" by simp
      then have "concat gs = concat (butlast gs) @ last gs" by (metis concat.simps(1,2) concat_append append_Nil2)
      with False show ?thesis by (simp add: group_wire_def)
    qed (auto simp: group_wire_def)
    with Cons show ?case by simp
  qed simp
  then show ?thesis by (metis UN_I set_concat)
qed

text \<open>Every batch a body is partitioned into is within the network's limits, however long its lines, and the
  batches one after the other carry the text of the wires they were made of.\<close>

theorem batches_within_limits:
  assumes "\<forall>w \<in> set (splitMultiline lb t bytes). recut_ok lb lim w" "2 \<le> ml_maxBytes lim" "0 < ml_maxLines lim"
  shows "(\<forall>b \<in> set (partitionMultiline lb t lim bytes). b \<noteq> [] \<and> length b \<le> ml_maxLines lim \<and> wires_bytes b \<le> ml_maxBytes lim) \<and>
    reassemble_rest (concat (partitionMultiline lb t lim bytes)) = reassemble_rest (splitMultiline lb t bytes)"
proof (cases "splitMultiline lb t bytes = []")
  case True
  then show ?thesis by (simp add: partitionMultiline_def)
next
  case False
  let ?ws = "splitMultiline lb t bytes"
  let ?ls = "fold group_wire ?ws []"
  have lines: "\<forall>l \<in> set ?ls. \<forall>w \<in> set l. recut_ok lb lim w" "concat ?ls = ?ws"
    using group_wires [of ?ws "[]"] assms(1) by auto
  have f: "packing_ok lim (fold (place_line lb lim) ls st) \<and>
      reassemble_rest (packed (fold (place_line lb lim) ls st)) = reassemble_rest (packed st) @ reassemble_rest (concat ls)"
    if "packing_ok lim st" "\<forall>l \<in> set ls. \<forall>w \<in> set l. recut_ok lb lim w" for ls st
    using that
  proof (induction ls arbitrary: st)
    case (Cons l ls)
    have p: "packing_ok lim (place_line lb lim l st)"
      "reassemble_rest (packed (place_line lb lim l st)) = reassemble_rest (packed st) @ reassemble_rest l"
      using place_line_ok [OF Cons.prems(1) _ assms(2,3), of l lb] Cons.prems(2) by auto
    have "\<forall>l \<in> set ls. \<forall>w \<in> set l. recut_ok lb lim w" using Cons.prems(2) by simp
    from Cons.IH [OF p(1) this] p(2) show ?case by simp
  qed simp
  define st where "st = fold (place_line lb lim) ?ls ([], [], 0)"
  have st: "packing_ok lim st" "reassemble_rest (packed st) = reassemble_rest ?ws"
    using f [of "([], [], 0)" ?ls] lines assms(3) by (auto simp: st_def packing_ok_def batch_fits_def packed_def)
  obtain bs cur n where b: "flush_batch st = (bs, cur, n)" by (cases "flush_batch st")
  have "cur = []" "packing_ok lim (bs, cur, n)" "packed (bs, cur, n) = packed st"
    using flush_batch_ok [OF st(1)] b by auto
  moreover have "partitionMultiline lb t lim bytes = bs" using False b by (simp add: partitionMultiline_def st_def)
  ultimately show ?thesis using st(2) by (auto simp: packing_ok_def packed_def batch_fits_def)
qed

lemma batches_within_limits_witness:
  "\<exists>b1 b2. partitionMultiline sample_break (Some (''AAA BBB'' @ [lf] @ ''CC'')) \<lparr>ml_maxBytes = 7, ml_maxLines = 3\<rparr> 3 = [b1, b2] \<and>
     length b1 \<le> 3 \<and> wires_bytes b2 \<le> 7"
proof -
  let ?t = "Some (''AAA BBB'' @ [lf] @ ''CC'')"
  let ?lim = "\<lparr>ml_maxBytes = 7, ml_maxLines = 3\<rparr>"
  have w: "list_all (\<lambda>w. utf8_length (wi_content w) \<le> 7) (splitMultiline sample_break ?t 3)" by code_simp
  then have "\<forall>w \<in> set (splitMultiline sample_break ?t 3). recut_ok sample_break ?lim w"
    by (auto simp: recut_ok_def list_all_iff)
  from batches_within_limits [OF this] have ok: "\<forall>b \<in> set (partitionMultiline sample_break ?t ?lim 3). length b \<le> 3 \<and> wires_bytes b \<le> 7"
    by simp
  have "length (partitionMultiline sample_break ?t ?lim 3) = 2" by code_simp
  then obtain b1 b2 where "partitionMultiline sample_break ?t ?lim 3 = [b1, b2]" by (auto simp: length_Suc_conv numeral_2_eq_2)
  with ok show ?thesis by auto
qed

end
