(* ===== verification/Engine_Link.thy ===== *)
theory Engine_Link imports Engine_Protocol begin

text \<open>
  \<open>server/services/engineLink.ts\<close>: the app's end of the link to the engine.  The listeners and frame handlers it
  calls are the argument \<open>listen\<close>: what each of them, called with what the link has done so far, does to the link
  before it returns.  \<open>al_trace\<close> is that record, oldest first: it is the model's, as is \<open>al_sawHello\<close>, a local of
  one socket's listeners in the code.  What Node brings (a connected socket, a chunk, a closed socket, a timer) is an
  event with its clock; the JSON text parser, the frame decoder and the database's instance id are arguments.
\<close>

section \<open>Ids and addresses\<close>

definition engineConnectionId :: "string \<Rightarrow> nat \<Rightarrow> nat \<Rightarrow> string" where
  "engineConnectionId inst userId networkId = inst @ '':'' @ digits_of userId @ '':'' @ digits_of networkId"

definition isOurConnectionId :: "string \<Rightarrow> string \<Rightarrow> bool" where
  "isOurConnectionId inst i = starts_with i (inst @ '':'')"

lemma own_ids_are_ours: "isOurConnectionId inst (engineConnectionId inst u n)"
  by (simp add: isOurConnectionId_def engineConnectionId_def starts_with_def)

lemma other_ids_are_not:
  assumes "CHR '':'' \<notin> set a" "CHR '':'' \<notin> set b" "isOurConnectionId a (engineConnectionId b u n)"
  shows "a = b"
proof -
  obtain r where "b @ CHR '':'' # (digits_of u @ '':'' @ digits_of n) = a @ CHR '':'' # r"
    using assms(3) by (auto simp: isOurConnectionId_def engineConnectionId_def starts_with_iff_prefix prefix_def)
  then have "split_on (CHR '':'') (b @ CHR '':'' # (digits_of u @ '':'' @ digits_of n)) = split_on (CHR '':'') (a @ CHR '':'' # r)" by simp
  then show ?thesis using assms(1,2) by (simp add: split_on_append)
qed

text \<open>The scheme, and everything from the path, query or fragment on, taken off.\<close>

definition scheme_char :: "char \<Rightarrow> bool" where
  "scheme_char c = (let n = (of_char (lower_char c) :: nat) in (97 \<le> n \<and> n \<le> 122) \<or> is_digit c \<or> c \<in> set ''+.-'')"

definition strip_scheme :: "string \<Rightarrow> string" where
  "strip_scheme s =
     (let k = length (takeWhile scheme_char s) in
      if 0 < k \<and> scheme_char (hd s) \<and> \<not> is_digit (hd s) \<and> hd s \<notin> set ''+.-'' \<and> starts_with (drop k s) ''://''
      then drop (k + 3) s else s)"

fun strip_tail :: "string \<Rightarrow> string" where
  "strip_tail [] = []"
| "strip_tail (c # s) =
     (if c \<in> set ''/?#'' \<and> CHR 0x0A \<notin> set s \<and> CHR 0x0D \<notin> set s then [] else c # strip_tail s)"

definition parseEngineUrl :: "(string \<Rightarrow> int option) \<Rightarrow> string option \<Rightarrow> (string \<times> int) option" where
  "parseEngineUrl num raw =
     (let s = js_trim (case raw of None \<Rightarrow> [] | Some r \<Rightarrow> r) in
      if s = [] then None
      else case parseHostPort num (js_trim (strip_tail (strip_scheme s))) (''127.0.0.1'', 8016) of
             Inl e \<Rightarrow> None
           | Inr a \<Rightarrow> Some a)"

lemma parseEngineUrl_port: "parseEngineUrl num raw = Some (h, n) \<Longrightarrow> 1 \<le> n \<and> n \<le> 65535"
  using parseHostPort_port [of num _ "''127.0.0.1''" 8016 h n]
  by (auto simp: parseEngineUrl_def Let_def split: if_splits sum.splits)

section \<open>State\<close>

definition CLIENT_CERT_MINOR :: int where
  "CLIENT_CERT_MINOR = 2"

definition PROXY_MINOR :: int where
  "PROXY_MINOR = 5"

datatype link_state = LinkIdle | LinkConnecting | LinkReady | LinkDown | LinkRefused

record link_opts =
  lo_json :: "string \<Rightarrow> json option"
  lo_instance :: string
  lo_secret :: string
  lo_generation :: rat
  lo_retryBaseMs :: nat
  lo_retryMaxMs :: nat
  lo_heartbeatMs :: int

text \<open>A frame from the engine: one of its own, or what only an older or another engine sends.\<close>

datatype link_frame =
    FromEngine engine_frame
  | OldHello string "string list"
  | EnginePing
  | OtherFrame "string option"

datatype emitted = EmReady | EmRefused string | EmLost | EmDown | EmHeld string | EmUnrouted link_frame | EmFrame link_frame

datatype link_act =
    Asked string
  | Dialed nat
  | GotHello "string list"
  | Wrote app_frame
  | Emitted emitted
  | Handled nat link_frame
  | ToldLost nat
  | HalfClosed nat
  | Destroyed nat

record app_link =
  al_state :: link_state
  al_engineVersion :: "string option"
  al_engineMinor :: "int option"
  al_refusedReason :: "string option"
  al_socket :: "nat option"
  al_destroyed :: bool
  al_sawHello :: bool
  al_reader :: string
  al_handlers :: "(string \<times> nat) list"
  al_heldSet :: "string list"
  al_pendingCloses :: "string list"
  al_closedHere :: "string list"
  al_retryTimer :: "nat option"
  al_heartbeat :: "nat option"
  al_lastFrameAt :: int
  al_lastBeat :: int
  al_attempt :: nat
  al_stopped :: bool
  al_everReady :: bool
  al_disabledReason :: "string option"
  al_next :: nat
  al_trace :: "link_act list"

definition new_app_link :: app_link where
  "new_app_link =
     \<lparr>al_state = LinkIdle, al_engineVersion = None, al_engineMinor = None, al_refusedReason = None, al_socket = None,
      al_destroyed = False, al_sawHello = False, al_reader = [], al_handlers = [], al_heldSet = [],
      al_pendingCloses = [], al_closedHere = [], al_retryTimer = None, al_heartbeat = None, al_lastFrameAt = 0,
      al_lastBeat = 0, al_attempt = 0, al_stopped = False, al_everReady = False, al_disabledReason = None,
      al_next = 0, al_trace = []\<rparr>"

definition note_act :: "link_act \<Rightarrow> app_link \<Rightarrow> app_link" where
  "note_act a st = st\<lparr>al_trace := al_trace st @ [a]\<rparr>"

definition engineConfigured :: "(string \<Rightarrow> int option) \<Rightarrow> string option \<Rightarrow> app_link \<Rightarrow> bool" where
  "engineConfigured num url st = (al_disabledReason st = None \<and> parseEngineUrl num url \<noteq> None)"

definition link_holds :: "string \<Rightarrow> app_link \<Rightarrow> bool" where
  "link_holds i st = (i \<in> set (al_heldSet st))"

definition supportsClientCert :: "app_link \<Rightarrow> bool" where
  "supportsClientCert st = (case al_engineMinor st of None \<Rightarrow> False | Some m \<Rightarrow> CLIENT_CERT_MINOR \<le> m)"

definition supportsProxy :: "app_link \<Rightarrow> bool" where
  "supportsProxy st = (case al_engineMinor st of None \<Rightarrow> False | Some m \<Rightarrow> PROXY_MINOR \<le> m)"

section \<open>What a caller can do to the link\<close>

definition stopHeartbeat :: "app_link \<Rightarrow> app_link" where
  "stopHeartbeat st = st\<lparr>al_heartbeat := None\<rparr>"

definition startHeartbeat :: "nat \<Rightarrow> int \<Rightarrow> app_link \<Rightarrow> app_link" where
  "startHeartbeat n now st = (stopHeartbeat st)\<lparr>al_lastFrameAt := now, al_lastBeat := now, al_heartbeat := Some n\<rparr>"

definition connectOnce :: "app_link \<Rightarrow> app_link" where
  "connectOnce st =
     note_act (Dialed (al_next st))
       (st\<lparr>al_state := LinkConnecting, al_reader := [], al_socket := Some (al_next st), al_destroyed := False,
           al_sawHello := False, al_next := Suc (al_next st)\<rparr>)"

definition link_start :: "app_link \<Rightarrow> app_link" where
  "link_start st = (if al_stopped st \<or> al_state st \<noteq> LinkIdle then st else connectOnce st)"

definition can_send :: "app_link \<Rightarrow> bool" where
  "can_send st \<longleftrightarrow> al_state st = LinkReady \<and> al_socket st \<noteq> None \<and> \<not> al_destroyed st"

definition note_sent :: "app_frame \<Rightarrow> app_link \<Rightarrow> app_link" where
  "note_sent f st =
     (case f of
        AClose i \<Rightarrow> st\<lparr>al_closedHere := set_add i (al_closedHere st)\<rparr>
      | AConnect c \<Rightarrow> (case cf_id c of None \<Rightarrow> st | Some i \<Rightarrow> st\<lparr>al_closedHere := set_del i (al_closedHere st)\<rparr>)
      | _ \<Rightarrow> st)"

definition link_send :: "app_frame \<Rightarrow> app_link \<Rightarrow> bool \<times> app_link" where
  "link_send f st = (if can_send st then (True, note_act (Wrote f) (note_sent f st)) else (False, st))"

definition requestClose :: "string \<Rightarrow> app_link \<Rightarrow> app_link" where
  "requestClose i st =
     (let (sent, st1) = link_send (AClose i) (note_act (Asked i) (st\<lparr>al_heldSet := set_del i (al_heldSet st)\<rparr>))
      in if sent then st1 else st1\<lparr>al_pendingCloses := set_add i (al_pendingCloses st1)\<rparr>)"

definition noteDetached :: "string \<Rightarrow> app_link \<Rightarrow> app_link" where
  "noteDetached i st = st\<lparr>al_heldSet := set_del i (al_heldSet st)\<rparr>"

definition link_register :: "string \<Rightarrow> nat \<Rightarrow> app_link \<Rightarrow> app_link" where
  "link_register i h st = st\<lparr>al_handlers := AList.update i h (al_handlers st)\<rparr>"

definition link_unregister :: "string \<Rightarrow> nat option \<Rightarrow> app_link \<Rightarrow> app_link" where
  "link_unregister i h st =
     (if h = None \<or> map_of (al_handlers st) i = h then st\<lparr>al_handlers := AList.delete i (al_handlers st)\<rparr> else st)"

definition link_stop :: "app_link \<Rightarrow> app_link" where
  "link_stop st =
     (let st1 = (stopHeartbeat (st\<lparr>al_stopped := True, al_retryTimer := None\<rparr>))
                  \<lparr>al_socket := None, al_state := (if al_state st = LinkRefused then LinkRefused else LinkDown)\<rparr>
      in case al_socket st of
           None \<Rightarrow> st1
         | Some n \<Rightarrow> if al_destroyed st then st1 else note_act (HalfClosed n) st1)"

text \<open>The public operations, which a listener may call too.\<close>

datatype link_op =
    OpStart
  | OpSend app_frame
  | OpRequestClose string
  | OpNoteDetached string
  | OpRegister string nat
  | OpUnregister string "nat option"
  | OpStop

fun do_op :: "link_op \<Rightarrow> app_link \<Rightarrow> app_link" where
  "do_op OpStart st = link_start st"
| "do_op (OpSend f) st = snd (link_send f st)"
| "do_op (OpRequestClose i) st = requestClose i st"
| "do_op (OpNoteDetached i) st = noteDetached i st"
| "do_op (OpRegister i h) st = link_register i h st"
| "do_op (OpUnregister i h) st = link_unregister i h st"
| "do_op OpStop st = link_stop st"

type_synonym listeners = "link_act \<Rightarrow> app_link \<Rightarrow> link_op list"

text \<open>A call out: the listeners run to completion before the link goes on.\<close>

definition call_out :: "listeners \<Rightarrow> link_act \<Rightarrow> app_link \<Rightarrow> app_link" where
  "call_out listen a st = fold do_op (listen a st) (note_act a st)"

section \<open>Frames from the engine\<close>

fun hello_of :: "link_frame \<Rightarrow> (string \<times> int \<times> string list) option" where
  "hello_of (FromEngine (FHello protocol minor version held)) = Some (version, minor, held)"
| "hello_of (OldHello version held) = Some (version, 1, held)"
| "hello_of _ = None"

fun frame_id :: "link_frame \<Rightarrow> string option" where
  "frame_id (FromEngine (FDialing i)) = Some i"
| "frame_id (FromEngine (FOpen i _ _ _)) = Some i"
| "frame_id (FromEngine (FAttached i _)) = Some i"
| "frame_id (FromEngine (FLine i _ _)) = Some i"
| "frame_id (FromEngine (FLive i)) = Some i"
| "frame_id (FromEngine (FGap i _)) = Some i"
| "frame_id (FromEngine (FDetached i)) = Some i"
| "frame_id (FromEngine (FClosed i _)) = Some i"
| "frame_id (FromEngine (FHeld i)) = Some i"
| "frame_id (FromEngine (FError i _)) = i"
| "frame_id (OtherFrame i) = i"
| "frame_id _ = None"

fun socket_gone :: "link_frame \<Rightarrow> bool" where
  "socket_gone (FromEngine (FClosed _ _)) = True"
| "socket_gone (FromEngine (FDetached _)) = True"
| "socket_gone _ = False"

text \<open>What \<open>route\<close> learns about what the engine holds.\<close>

fun note_held :: "link_frame \<Rightarrow> app_link \<Rightarrow> app_link" where
  "note_held (FromEngine (FAttached i _)) st = st\<lparr>al_heldSet := set_add i (al_heldSet st)\<rparr>"
| "note_held (FromEngine (FOpen i _ _ _)) st = st\<lparr>al_heldSet := set_add i (al_heldSet st)\<rparr>"
| "note_held (FromEngine (FClosed i _)) st = st\<lparr>al_heldSet := set_del i (al_heldSet st)\<rparr>"
| "note_held (FromEngine (FDetached i)) st = st\<lparr>al_heldSet := set_del i (al_heldSet st)\<rparr>"
| "note_held _ st = st"

definition hand_on :: "listeners \<Rightarrow> link_frame \<Rightarrow> app_link \<Rightarrow> app_link" where
  "hand_on listen f st =
     (case frame_id f of
        None \<Rightarrow> call_out listen (Emitted (EmFrame f)) st
      | Some i \<Rightarrow>
          (case map_of (al_handlers st) i of
             Some h \<Rightarrow> call_out listen (Handled h f) st
           | None \<Rightarrow> if socket_gone f then st else call_out listen (Emitted (EmUnrouted f)) st))"

definition link_route :: "listeners \<Rightarrow> link_frame \<Rightarrow> app_link \<Rightarrow> app_link" where
  "link_route listen f st =
     (case f of
        EnginePing \<Rightarrow> snd (link_send APong st)
      | FromEngine FPong \<Rightarrow> st
      | FromEngine (FHeld i) \<Rightarrow>
          if i \<in> set (al_closedHere st) then st
          else call_out listen (Emitted (EmHeld i)) (st\<lparr>al_heldSet := set_add i (al_heldSet st)\<rparr>)
      | _ \<Rightarrow> hand_on listen f (note_held f st))"

definition send_pending :: "string \<Rightarrow> app_link \<Rightarrow> app_link" where
  "send_pending i st = snd (link_send (AClose i) (st\<lparr>al_heldSet := set_del i (al_heldSet st)\<rparr>))"

definition accept_hello :: "listeners \<Rightarrow> nat \<Rightarrow> int \<Rightarrow> string \<times> int \<times> string list \<Rightarrow> app_link \<Rightarrow> app_link" where
  "accept_hello listen n now h st =
     (let (version, minor, held) = h;
          st1 = note_act (GotHello held)
                  (st\<lparr>al_sawHello := True, al_state := LinkReady, al_closedHere := [], al_heldSet := fold set_add held [],
                      al_engineVersion := Some version, al_engineMinor := Some minor, al_everReady := True,
                      al_attempt := 0\<rparr>);
          st2 = startHeartbeat n now st1;
          st3 = fold send_pending (al_pendingCloses st2) st2
      in call_out listen (Emitted EmReady) (st3\<lparr>al_pendingCloses := []\<rparr>))"

definition link_refuse :: "listeners \<Rightarrow> nat \<Rightarrow> string \<Rightarrow> app_link \<Rightarrow> app_link" where
  "link_refuse listen n message st =
     (let st1 = call_out listen (Emitted (EmRefused message))
                  (st\<lparr>al_refusedReason := Some message, al_state := LinkRefused, al_stopped := True,
                      al_disabledReason := Some message\<rparr>)
      in note_act (Destroyed n) (if al_socket st1 = Some n then st1\<lparr>al_destroyed := True\<rparr> else st1))"

fun on_frames :: "listeners \<Rightarrow> nat \<Rightarrow> int \<Rightarrow> link_frame list \<Rightarrow> app_link \<Rightarrow> app_link" where
  "on_frames listen n now [] st = st"
| "on_frames listen n now (f # fs) st =
     (if al_sawHello st then on_frames listen n now fs (link_route listen f st)
      else case hello_of f of
             Some h \<Rightarrow> on_frames listen n now fs (accept_hello listen n now h st)
           | None \<Rightarrow>
               (case f of
                  FromEngine (FError _ message) \<Rightarrow> link_refuse listen n message st
                | _ \<Rightarrow> on_frames listen n now fs st))"

section \<open>Events\<close>

definition destroy_socket :: "nat \<Rightarrow> app_link \<Rightarrow> app_link" where
  "destroy_socket n st = note_act (Destroyed n) (if al_socket st = Some n then st\<lparr>al_destroyed := True\<rparr> else st)"

definition link_connect :: "link_opts \<Rightarrow> nat \<Rightarrow> app_link \<Rightarrow> app_link" where
  "link_connect opts n st =
     (if al_socket st \<noteq> Some n then st
      else note_act (Wrote (AHello \<lparr>hf_protocol = PROTOCOL_MAJOR, hf_secret = Some (lo_secret opts),
             hf_instance = Some (lo_instance opts), hf_startedAt = lo_generation opts\<rparr>)) st)"

definition link_data :: "link_opts \<Rightarrow> (json \<Rightarrow> link_frame) \<Rightarrow> listeners \<Rightarrow> nat \<Rightarrow> string \<Rightarrow> int \<Rightarrow> app_link \<Rightarrow> app_link" where
  "link_data opts decode listen n chunk now st =
     (if al_socket st \<noteq> Some n then st
      else let st1 = st\<lparr>al_lastFrameAt := now\<rparr> in
           case reader_push (lo_json opts) (al_reader st1) chunk of
             Inl e \<Rightarrow> destroy_socket n st1
           | Inr (frames, b) \<Rightarrow> on_frames listen n now (map decode frames) (st1\<lparr>al_reader := b\<rparr>))"

definition retry_delay :: "link_opts \<Rightarrow> nat \<Rightarrow> nat" where
  "retry_delay opts attempt = min (lo_retryBaseMs opts * 2 ^ attempt) (lo_retryMaxMs opts)"

text \<open>The random part of the delay is \<open>jitter\<close>, below 250.\<close>

definition scheduleRetry :: "link_opts \<Rightarrow> nat \<Rightarrow> app_link \<Rightarrow> app_link" where
  "scheduleRetry opts jitter st =
     (if al_stopped st \<or> al_retryTimer st \<noteq> None then st
      else st\<lparr>al_attempt := Suc (al_attempt st), al_retryTimer := Some (retry_delay opts (al_attempt st) + jitter)\<rparr>)"

definition link_close :: "link_opts \<Rightarrow> listeners \<Rightarrow> nat \<Rightarrow> nat \<Rightarrow> app_link \<Rightarrow> app_link" where
  "link_close opts listen n jitter st =
     (if al_socket st \<noteq> Some n then st
      else let wasReady = (al_state st = LinkReady);
               st1 = (stopHeartbeat (st\<lparr>al_socket := None\<rparr>))
                       \<lparr>al_state := (if al_state st = LinkRefused then LinkRefused else LinkDown)\<rparr>;
               st2 = (if wasReady
                      then fold (\<lambda>h. call_out listen (ToldLost h)) (map snd (al_handlers st1))
                             (call_out listen (Emitted EmLost) (st1\<lparr>al_handlers := []\<rparr>))
                      else if al_attempt st1 = 0 \<and> al_state st1 = LinkDown
                      then call_out listen (Emitted EmDown) st1
                      else st1)
           in scheduleRetry opts jitter st2)"

definition on_retry :: "app_link \<Rightarrow> app_link" where
  "on_retry st = (let st1 = st\<lparr>al_retryTimer := None\<rparr> in if al_stopped st1 then st1 else connectOnce st1)"

definition link_beat :: "link_opts \<Rightarrow> nat \<Rightarrow> int \<Rightarrow> app_link \<Rightarrow> app_link" where
  "link_beat opts n now st =
     (if al_socket st \<noteq> Some n then stopHeartbeat st
      else let overran = (now - al_lastBeat st > lo_heartbeatMs opts * 2);
               st1 = st\<lparr>al_lastBeat := now\<rparr>
           in if \<not> overran \<and> now - al_lastFrameAt st1 > lo_heartbeatMs opts * 3
              then destroy_socket n st1
              else snd (link_send APing st1))"

datatype link_event =
    CallOp link_op
  | SocketConnected nat
  | SocketData nat string int
  | SocketClosed nat nat
  | RetryFires
  | BeatFires nat int

text \<open>Node brings no data from a destroyed socket, and only a set timer fires.\<close>

fun may_happen :: "link_event \<Rightarrow> app_link \<Rightarrow> bool" where
  "may_happen (SocketData n _ _) st \<longleftrightarrow> (al_socket st = Some n \<longrightarrow> \<not> al_destroyed st)"
| "may_happen RetryFires st \<longleftrightarrow> al_retryTimer st \<noteq> None"
| "may_happen (BeatFires n _) st \<longleftrightarrow> al_heartbeat st = Some n"
| "may_happen (SocketClosed _ jitter) st \<longleftrightarrow> jitter < 250"
| "may_happen _ st \<longleftrightarrow> True"

fun link_step :: "link_opts \<Rightarrow> (json \<Rightarrow> link_frame) \<Rightarrow> listeners \<Rightarrow> link_event \<Rightarrow> app_link \<Rightarrow> app_link" where
  "link_step opts decode listen (CallOp op) st = do_op op st"
| "link_step opts decode listen (SocketConnected n) st = link_connect opts n st"
| "link_step opts decode listen (SocketData n chunk now) st = link_data opts decode listen n chunk now st"
| "link_step opts decode listen (SocketClosed n jitter) st = link_close opts listen n jitter st"
| "link_step opts decode listen RetryFires st = on_retry st"
| "link_step opts decode listen (BeatFires n now) st = link_beat opts n now st"

inductive link_run :: "link_opts \<Rightarrow> (json \<Rightarrow> link_frame) \<Rightarrow> listeners \<Rightarrow> app_link \<Rightarrow> bool"
  for opts decode listen where
  run_new: "link_run opts decode listen new_app_link"
| run_event: "link_run opts decode listen st \<Longrightarrow> may_happen ev st \<Longrightarrow> link_run opts decode listen (link_step opts decode listen ev st)"

text \<open>\<open>whenReady\<close>: the answer at once, or from what the link does within the window after it is started.\<close>

datatype ready_answer = AnsReady | AnsRefused | AnsTimeout

fun first_answer :: "link_act list \<Rightarrow> ready_answer" where
  "first_answer [] = AnsTimeout"
| "first_answer (Emitted EmReady # acts) = AnsReady"
| "first_answer (Emitted (EmRefused _) # acts) = AnsRefused"
| "first_answer (_ # acts) = first_answer acts"

definition whenReady :: "link_act list \<Rightarrow> app_link \<Rightarrow> ready_answer \<times> app_link" where
  "whenReady window st =
     (case al_state st of
        LinkReady \<Rightarrow> (AnsReady, st)
      | LinkRefused \<Rightarrow> (AnsRefused, st)
      | _ \<Rightarrow> (first_answer window, link_start st))"

section \<open>What the record shows\<close>

text \<open>The ids whose last \<open>close\<close> or \<open>connect\<close> on the present link is a close, and the closes asked for that
  have not gone out.\<close>

fun closed_by :: "link_act \<Rightarrow> string set \<Rightarrow> string set" where
  "closed_by (GotHello _) S = {}"
| "closed_by (Wrote (AClose i)) S = insert i S"
| "closed_by (Wrote (AConnect c)) S = S - set_option (cf_id c)"
| "closed_by _ S = S"

fun owed_by :: "link_act \<Rightarrow> string set \<Rightarrow> string set" where
  "owed_by (Asked i) S = insert i S"
| "owed_by (Wrote (AClose i)) S = S - {i}"
| "owed_by _ S = S"

definition closed_in :: "link_act list \<Rightarrow> string set" where
  "closed_in tr = fold closed_by tr {}"

definition owed_in :: "link_act list \<Rightarrow> string set" where
  "owed_in tr = fold owed_by tr {}"

lemma closed_in_simps [simp]: "closed_in [] = {}" "closed_in (tr @ as) = fold closed_by as (closed_in tr)"
  by (simp_all add: closed_in_def)

lemma owed_in_simps [simp]: "owed_in [] = {}" "owed_in (tr @ as) = fold owed_by as (owed_in tr)"
  by (simp_all add: owed_in_def)

definition act_ok :: "link_act list \<Rightarrow> link_act \<Rightarrow> bool" where
  "act_ok before a \<longleftrightarrow>
     (case a of Emitted (EmHeld i) \<Rightarrow> i \<notin> closed_in before | Emitted EmReady \<Rightarrow> owed_in before = {} | _ \<Rightarrow> True)"

lemma act_ok_simps [simp]:
  "act_ok tr (Emitted (EmHeld i)) \<longleftrightarrow> i \<notin> closed_in tr" "act_ok tr (Emitted EmReady) \<longleftrightarrow> owed_in tr = {}"
  "act_ok tr (Emitted (EmRefused m))" "act_ok tr (Emitted EmLost)" "act_ok tr (Emitted EmDown)"
  "act_ok tr (Emitted (EmUnrouted f))" "act_ok tr (Emitted (EmFrame f))"
  "act_ok tr (Asked i)" "act_ok tr (Dialed n)" "act_ok tr (GotHello hs)" "act_ok tr (Wrote w)"
  "act_ok tr (Handled h f)" "act_ok tr (ToldLost h)" "act_ok tr (HalfClosed n)" "act_ok tr (Destroyed n)"
  by (simp_all add: act_ok_def)

definition record_ok :: "app_link \<Rightarrow> bool" where
  "record_ok st \<longleftrightarrow>
     set (al_closedHere st) = closed_in (al_trace st) \<and> owed_in (al_trace st) \<subseteq> set (al_pendingCloses st) \<and> along act_ok (al_trace st)"

text \<open>An act that neither opens, closes nor asks leaves the two sets.\<close>

fun plain_act :: "link_act \<Rightarrow> bool" where
  "plain_act (GotHello _) = False"
| "plain_act (Wrote (AClose _)) = False"
| "plain_act (Wrote (AConnect _)) = False"
| "plain_act (Asked _) = False"
| "plain_act _ = True"

lemma plain_act_keeps: "plain_act a \<Longrightarrow> closed_by a S = S \<and> owed_by a T = T"
  by (cases a rule: plain_act.cases) auto

lemma note_act_simps [simp]:
  "al_trace (note_act a st) = al_trace st @ [a]" "al_state (note_act a st) = al_state st"
  "al_socket (note_act a st) = al_socket st" "al_destroyed (note_act a st) = al_destroyed st"
  "al_closedHere (note_act a st) = al_closedHere st" "al_pendingCloses (note_act a st) = al_pendingCloses st"
  "al_stopped (note_act a st) = al_stopped st" "al_retryTimer (note_act a st) = al_retryTimer st"
  "al_heartbeat (note_act a st) = al_heartbeat st" "al_sawHello (note_act a st) = al_sawHello st"
  "al_disabledReason (note_act a st) = al_disabledReason st" "al_handlers (note_act a st) = al_handlers st"
  "al_heldSet (note_act a st) = al_heldSet st" "al_lastFrameAt (note_act a st) = al_lastFrameAt st"
  "al_lastBeat (note_act a st) = al_lastBeat st"
  by (simp_all add: note_act_def)

lemma note_sent_simps [simp]:
  "al_trace (note_sent f st) = al_trace st" "al_state (note_sent f st) = al_state st"
  "al_socket (note_sent f st) = al_socket st" "al_destroyed (note_sent f st) = al_destroyed st"
  "al_pendingCloses (note_sent f st) = al_pendingCloses st"
  "al_stopped (note_sent f st) = al_stopped st" "al_retryTimer (note_sent f st) = al_retryTimer st"
  "al_heartbeat (note_sent f st) = al_heartbeat st" "al_sawHello (note_sent f st) = al_sawHello st"
  "al_disabledReason (note_sent f st) = al_disabledReason st" "al_handlers (note_sent f st) = al_handlers st"
  "al_heldSet (note_sent f st) = al_heldSet st" "al_lastFrameAt (note_sent f st) = al_lastFrameAt st"
  "al_lastBeat (note_sent f st) = al_lastBeat st"
  by (simp_all add: note_sent_def split: app_frame.splits option.splits)

lemma record_ok_act: "record_ok st \<Longrightarrow> plain_act a \<Longrightarrow> act_ok (al_trace st) a \<Longrightarrow> record_ok (note_act a st)"
  using plain_act_keeps [of a] by (auto simp: record_ok_def)

lemma record_ok_send: "record_ok st \<Longrightarrow> record_ok (snd (link_send f st))"
  by (cases f) (auto simp: record_ok_def link_send_def note_sent_def split: option.splits)

lemma link_send_fst [simp]: "fst (link_send f st) = can_send st"
  by (simp add: link_send_def)

lemma record_ok_requestClose: "record_ok st \<Longrightarrow> record_ok (requestClose i st)"
  by (auto simp: record_ok_def requestClose_def link_send_def note_sent_def can_send_def)

lemma record_ok_cong:
  "al_trace st' = al_trace st \<Longrightarrow> al_closedHere st' = al_closedHere st \<Longrightarrow> al_pendingCloses st' = al_pendingCloses st \<Longrightarrow>
     record_ok st' = record_ok st"
  by (simp add: record_ok_def)

lemma record_ok_connectOnce: "record_ok st \<Longrightarrow> record_ok (connectOnce st)"
  unfolding connectOnce_def by (rule record_ok_act) (simp_all add: record_ok_def)

lemma record_ok_stop: "record_ok st \<Longrightarrow> record_ok (link_stop st)"
  by (auto simp: link_stop_def Let_def stopHeartbeat_def record_ok_def split: option.splits)

lemma record_ok_table:
  "record_ok st \<Longrightarrow> record_ok (noteDetached i st)" "record_ok st \<Longrightarrow> record_ok (link_register i h st)"
  "record_ok st \<Longrightarrow> record_ok (link_unregister i ho st)"
  by (simp_all add: noteDetached_def link_register_def link_unregister_def record_ok_def)

lemma record_ok_start: "record_ok st \<Longrightarrow> record_ok (link_start st)"
  by (simp add: link_start_def record_ok_connectOnce)

lemma record_ok_op: "record_ok st \<Longrightarrow> record_ok (do_op op st)"
  by (cases op) (simp_all add: record_ok_send record_ok_requestClose record_ok_stop record_ok_table record_ok_start)

lemma record_ok_ops: "record_ok st \<Longrightarrow> record_ok (fold do_op ops st)"
  by (induction ops arbitrary: st) (simp_all add: record_ok_op)

lemma record_ok_call: "record_ok st \<Longrightarrow> plain_act a \<Longrightarrow> act_ok (al_trace st) a \<Longrightarrow> record_ok (call_out listen a st)"
  by (simp add: call_out_def record_ok_ops record_ok_act)

lemma record_ok_calls:
  "record_ok st \<Longrightarrow> \<forall>a \<in> set as. plain_act a \<and> (\<forall>tr. act_ok tr a) \<Longrightarrow> record_ok (fold (call_out listen) as st)"
  by (induction as arbitrary: st) (simp_all add: record_ok_call)

lemma note_held_simps [simp]:
  "al_trace (note_held f st) = al_trace st" "al_closedHere (note_held f st) = al_closedHere st"
  "al_pendingCloses (note_held f st) = al_pendingCloses st" "al_state (note_held f st) = al_state st"
  "al_socket (note_held f st) = al_socket st" "al_destroyed (note_held f st) = al_destroyed st"
  "al_stopped (note_held f st) = al_stopped st" "al_retryTimer (note_held f st) = al_retryTimer st"
  "al_heartbeat (note_held f st) = al_heartbeat st" "al_sawHello (note_held f st) = al_sawHello st"
  "al_disabledReason (note_held f st) = al_disabledReason st" "al_handlers (note_held f st) = al_handlers st"
  by (induction f st rule: note_held.induct) simp_all

lemma record_ok_hand_on: "record_ok st \<Longrightarrow> record_ok (hand_on listen f st)"
  by (auto simp: hand_on_def record_ok_call split: option.splits)

lemma record_ok_route: "record_ok st \<Longrightarrow> record_ok (link_route listen f st)"
proof -
  assume r: "record_ok st"
  then have h: "record_ok (hand_on listen f (note_held f st))"
    by (intro record_ok_hand_on) (simp add: record_ok_def)
  have "record_ok (call_out listen (Emitted (EmHeld i)) (st\<lparr>al_heldSet := set_add i (al_heldSet st)\<rparr>))"
    if "i \<notin> set (al_closedHere st)" for i
    by (rule record_ok_call) (use r that in \<open>simp_all add: record_ok_def\<close>)
  with r h show ?thesis
    unfolding link_route_def by (auto split: link_frame.splits engine_frame.splits intro: record_ok_send)
qed

lemma can_send_pending: "can_send (send_pending i st) = can_send st"
  by (simp add: send_pending_def link_send_def can_send_def)

lemma send_pending_record:
  assumes "record_ok st" "can_send st"
  shows "record_ok (send_pending i st)" "owed_in (al_trace (send_pending i st)) = owed_in (al_trace st) - {i}"
  using assms by (auto simp: send_pending_def link_send_def can_send_def record_ok_def note_sent_def)

lemma send_pendings_record:
  "record_ok st \<Longrightarrow> can_send st \<Longrightarrow>
     record_ok (fold send_pending is st) \<and> owed_in (al_trace (fold send_pending is st)) = owed_in (al_trace st) - set is"
  by (induction "is" arbitrary: st) (auto simp: can_send_pending send_pending_record)

lemma record_ok_hello:
  assumes "record_ok st" "al_socket st \<noteq> None" "\<not> al_destroyed st"
  shows "record_ok (accept_hello listen n now h st)"
proof -
  obtain version minor held where h: "h = (version, minor, held)" by (cases h)
  define st1 where "st1 = note_act (GotHello held)
    (st\<lparr>al_sawHello := True, al_state := LinkReady, al_closedHere := [], al_heldSet := fold set_add held [],
        al_engineVersion := Some version, al_engineMinor := Some minor, al_everReady := True, al_attempt := 0\<rparr>)"
  define st2 where "st2 = startHeartbeat n now st1"
  have 2: "record_ok st2" "can_send st2"
    using assms by (auto simp: st2_def st1_def startHeartbeat_def stopHeartbeat_def record_ok_def can_send_def)
  define st3 where "st3 = fold send_pending (al_pendingCloses st2) st2"
  have 3: "record_ok st3" "owed_in (al_trace st3) = owed_in (al_trace st2) - set (al_pendingCloses st2)"
    using send_pendings_record [OF 2] by (auto simp: st3_def)
  have none: "owed_in (al_trace st3) = {}" using 3(2) 2(1) by (auto simp: record_ok_def)
  have "record_ok (call_out listen (Emitted EmReady) (st3\<lparr>al_pendingCloses := []\<rparr>))"
    by (rule record_ok_call) (use 3(1) none in \<open>simp_all add: record_ok_def\<close>)
  then show ?thesis by (simp add: accept_hello_def h st3_def st2_def st1_def Let_def)
qed

lemma record_ok_refuse:
  assumes "record_ok st"
  shows "record_ok (link_refuse listen n m st)"
proof -
  define st1 where "st1 = call_out listen (Emitted (EmRefused m))
    (st\<lparr>al_refusedReason := Some m, al_state := LinkRefused, al_stopped := True, al_disabledReason := Some m\<rparr>)"
  have 1: "record_ok st1"
    unfolding st1_def by (rule record_ok_call) (use assms in \<open>simp_all add: record_ok_def\<close>)
  define st2 where "st2 = (if al_socket st1 = Some n then st1\<lparr>al_destroyed := True\<rparr> else st1)"
  have "record_ok st2" using 1 by (simp add: st2_def record_ok_def)
  then have "record_ok (note_act (Destroyed n) st2)" by (rule record_ok_act) simp_all
  then show ?thesis unfolding link_refuse_def Let_def st2_def st1_def .
qed

section \<open>The shape of a link's state\<close>

text \<open>\<open>link_shape\<close> holds at every call out too; \<open>link_rest\<close> between events.\<close>

definition link_shape :: "link_opts \<Rightarrow> app_link \<Rightarrow> bool" where
  "link_shape opts st \<longleftrightarrow>
     (al_stopped st \<longrightarrow> al_retryTimer st = None \<and> (al_state st = LinkRefused \<or> al_state st = LinkDown)) \<and>
     (al_state st = LinkReady \<longrightarrow> al_socket st \<noteq> None \<and> al_sawHello st \<and> al_heartbeat st = al_socket st) \<and>
     (al_state st = LinkRefused \<longrightarrow> al_stopped st \<and> al_disabledReason st \<noteq> None) \<and>
     (al_state st = LinkIdle \<longrightarrow> al_socket st = None \<and> al_retryTimer st = None) \<and>
     (\<forall>d. al_retryTimer st = Some d \<longrightarrow> al_socket st = None \<and> d < lo_retryMaxMs opts + 250)"

definition link_rest :: "app_link \<Rightarrow> bool" where
  "link_rest st \<longleftrightarrow>
     (al_stopped st \<and> al_socket st \<noteq> None \<longrightarrow> al_destroyed st) \<and>
     (al_stopped st \<or> al_state st = LinkIdle \<or> al_socket st \<noteq> None \<or> al_retryTimer st \<noteq> None)"

text \<open>The fields the shape is about, after each operation.\<close>

lemma requestClose_shape [simp]:
  "al_state (requestClose i st) = al_state st" "al_socket (requestClose i st) = al_socket st"
  "al_destroyed (requestClose i st) = al_destroyed st" "al_stopped (requestClose i st) = al_stopped st"
  "al_retryTimer (requestClose i st) = al_retryTimer st" "al_heartbeat (requestClose i st) = al_heartbeat st"
  "al_sawHello (requestClose i st) = al_sawHello st" "al_disabledReason (requestClose i st) = al_disabledReason st"
  by (simp_all add: requestClose_def link_send_def Let_def)

lemma link_send_shape [simp]:
  "al_state (snd (link_send f st)) = al_state st" "al_socket (snd (link_send f st)) = al_socket st"
  "al_destroyed (snd (link_send f st)) = al_destroyed st" "al_stopped (snd (link_send f st)) = al_stopped st"
  "al_retryTimer (snd (link_send f st)) = al_retryTimer st" "al_heartbeat (snd (link_send f st)) = al_heartbeat st"
  "al_sawHello (snd (link_send f st)) = al_sawHello st" "al_disabledReason (snd (link_send f st)) = al_disabledReason st"
  "al_lastFrameAt (snd (link_send f st)) = al_lastFrameAt st" "al_lastBeat (snd (link_send f st)) = al_lastBeat st"
  by (simp_all add: link_send_def)

lemma table_shape [simp]:
  "link_shape opts (noteDetached i st) = link_shape opts st" "link_rest (noteDetached i st) = link_rest st"
  "link_shape opts (link_register i h st) = link_shape opts st" "link_rest (link_register i h st) = link_rest st"
  "link_shape opts (link_unregister i ho st) = link_shape opts st" "link_rest (link_unregister i ho st) = link_rest st"
  "link_shape opts (note_act a st) = link_shape opts st" "link_rest (note_act a st) = link_rest st"
  "link_shape opts (note_held f st) = link_shape opts st" "link_rest (note_held f st) = link_rest st"
  "link_shape opts (requestClose i st) = link_shape opts st" "link_rest (requestClose i st) = link_rest st"
  "link_shape opts (snd (link_send w st)) = link_shape opts st" "link_rest (snd (link_send w st)) = link_rest st"
  by (simp_all add: link_shape_def link_rest_def noteDetached_def link_register_def link_unregister_def)

lemma connectOnce_shape: "\<not> al_stopped st \<Longrightarrow> al_retryTimer st = None \<Longrightarrow> link_shape opts (connectOnce st) \<and> link_rest (connectOnce st)"
  by (simp add: connectOnce_def link_shape_def link_rest_def note_act_def)

lemma start_shape: "link_shape opts st \<Longrightarrow> link_shape opts (link_start st) \<and> (link_rest st \<longrightarrow> link_rest (link_start st))"
  using connectOnce_shape [of st opts] by (auto simp: link_start_def link_shape_def)

lemma stop_shape: "link_shape opts (link_stop st) \<and> link_rest (link_stop st)" if "link_shape opts st"
  using that by (auto simp: link_stop_def Let_def stopHeartbeat_def link_shape_def link_rest_def split: option.splits)

lemma op_shape: "link_shape opts st \<Longrightarrow> link_shape opts (do_op op st) \<and> (link_rest st \<longrightarrow> link_rest (do_op op st))"
  using start_shape [of opts st] stop_shape [of opts st] by (cases op) simp_all

lemma ops_shape: "link_shape opts st \<Longrightarrow> link_shape opts (fold do_op ops st) \<and> (link_rest st \<longrightarrow> link_rest (fold do_op ops st))"
proof (induction ops arbitrary: st)
  case (Cons op ops)
  then show ?case using op_shape [of opts st op] by simp
qed simp

lemma call_shape:
  "link_shape opts st \<Longrightarrow> link_shape opts (call_out listen a st) \<and> (link_rest st \<longrightarrow> link_rest (call_out listen a st))"
  using ops_shape [of opts "note_act a st"] by (simp add: call_out_def)

lemma calls_shape:
  "link_shape opts st \<Longrightarrow> link_shape opts (fold (\<lambda>h. call_out listen (ToldLost h)) hs st)"
  by (induction hs arbitrary: st) (simp_all add: call_shape)

text \<open>Nothing takes back the hello of a socket while its data is being handled.\<close>

lemma op_seen:
  "al_state st \<noteq> LinkIdle \<Longrightarrow> al_state (do_op op st) \<noteq> LinkIdle \<and> al_sawHello (do_op op st) = al_sawHello st"
  by (cases op) (auto simp: link_start_def link_stop_def Let_def stopHeartbeat_def noteDetached_def link_register_def
      link_unregister_def split: option.splits)

lemma ops_seen:
  "al_state st \<noteq> LinkIdle \<Longrightarrow> al_state (fold do_op ops st) \<noteq> LinkIdle \<and> al_sawHello (fold do_op ops st) = al_sawHello st"
proof (induction ops arbitrary: st)
  case (Cons op ops)
  then show ?case using op_seen [of st op] by simp
qed simp

lemma call_seen:
  "al_state st \<noteq> LinkIdle \<Longrightarrow> al_state (call_out listen a st) \<noteq> LinkIdle \<and> al_sawHello (call_out listen a st) = al_sawHello st"
  using ops_seen [of "note_act a st"] by (simp add: call_out_def)

lemma hand_on_seen:
  "al_state st \<noteq> LinkIdle \<Longrightarrow> al_state (hand_on listen f st) \<noteq> LinkIdle \<and> al_sawHello (hand_on listen f st) = al_sawHello st"
  by (simp add: hand_on_def call_seen split: option.splits)

lemma route_seen:
  assumes "al_state st \<noteq> LinkIdle"
  shows "al_state (link_route listen f st) \<noteq> LinkIdle \<and> al_sawHello (link_route listen f st) = al_sawHello st"
proof -
  have "al_state (call_out listen (Emitted (EmHeld i)) (st\<lparr>al_heldSet := set_add i (al_heldSet st)\<rparr>)) \<noteq> LinkIdle \<and>
      al_sawHello (call_out listen (Emitted (EmHeld i)) (st\<lparr>al_heldSet := set_add i (al_heldSet st)\<rparr>)) = al_sawHello st" for i
    using call_seen [of "st\<lparr>al_heldSet := set_add i (al_heldSet st)\<rparr>"] assms by simp
  then show ?thesis
    using hand_on_seen [of "note_held f st" listen f] assms
    by (auto simp: link_route_def split: link_frame.splits engine_frame.splits)
qed

lemma hand_on_shape:
  "link_shape opts st \<Longrightarrow> link_shape opts (hand_on listen f st) \<and> (link_rest st \<longrightarrow> link_rest (hand_on listen f st))"
  by (simp add: hand_on_def call_shape split: option.splits)

lemma route_shape:
  assumes "link_shape opts st"
  shows "link_shape opts (link_route listen f st) \<and> (link_rest st \<longrightarrow> link_rest (link_route listen f st))"
proof -
  let ?st = "\<lambda>i. st\<lparr>al_heldSet := set_add i (al_heldSet st)\<rparr>"
  have "link_shape opts (?st i)" "link_rest (?st i) = link_rest st" for i
    using assms by (simp_all add: link_shape_def link_rest_def)
  then have "link_shape opts (call_out listen (Emitted (EmHeld i)) (?st i)) \<and>
      (link_rest st \<longrightarrow> link_rest (call_out listen (Emitted (EmHeld i)) (?st i)))" for i
    using call_shape [of opts "?st i"] by simp
  then show ?thesis
    using hand_on_shape [of opts "note_held f st" listen f] assms
    by (auto simp: link_route_def split: link_frame.splits engine_frame.splits)
qed

lemma send_pending_shape [simp]:
  "link_shape opts (send_pending i st) = link_shape opts st" "link_rest (send_pending i st) = link_rest st"
  "al_state (send_pending i st) = al_state st" "al_sawHello (send_pending i st) = al_sawHello st"
  by (simp_all add: send_pending_def, simp_all add: link_shape_def link_rest_def)

lemma send_pendings_shape [simp]:
  "link_shape opts (fold send_pending is st) = link_shape opts st" "link_rest (fold send_pending is st) = link_rest st"
  "al_state (fold send_pending is st) = al_state st" "al_sawHello (fold send_pending is st) = al_sawHello st"
  by (induction "is" arbitrary: st) simp_all

lemma accept_hello_shape:
  assumes "link_shape opts st" "al_socket st = Some n" "\<not> al_stopped st"
  shows "link_shape opts (accept_hello listen n now h st) \<and> link_rest (accept_hello listen n now h st) \<and>
    al_sawHello (accept_hello listen n now h st) \<and> al_state (accept_hello listen n now h st) \<noteq> LinkIdle"
proof -
  obtain version minor held where h: "h = (version, minor, held)" by (cases h)
  define st1 where "st1 = note_act (GotHello held)
    (st\<lparr>al_sawHello := True, al_state := LinkReady, al_closedHere := [], al_heldSet := fold set_add held [],
        al_engineVersion := Some version, al_engineMinor := Some minor, al_everReady := True, al_attempt := 0\<rparr>)"
  define st2 where "st2 = startHeartbeat n now st1"
  have 2: "link_shape opts st2" "link_rest st2" "al_state st2 = LinkReady" "al_sawHello st2"
    using assms by (auto simp: st2_def st1_def startHeartbeat_def stopHeartbeat_def link_shape_def link_rest_def note_act_def)
  define st3 where "st3 = fold send_pending (al_pendingCloses st2) st2"
  have 3: "link_shape opts st3" "link_rest st3" "al_state st3 = LinkReady" "al_sawHello st3"
    using 2 by (simp_all add: st3_def)
  let ?st = "st3\<lparr>al_pendingCloses := []\<rparr>"
  have "link_shape opts ?st" "link_rest ?st" "al_state ?st \<noteq> LinkIdle" "al_sawHello ?st"
    using 3 by (simp_all add: link_shape_def link_rest_def)
  then show ?thesis
    using call_shape [of opts ?st] call_seen [of ?st] by (simp add: accept_hello_def h st3_def st2_def st1_def Let_def)
qed

lemma op_socket:
  "al_state st \<noteq> LinkIdle \<Longrightarrow>
     (al_socket (do_op op st) = al_socket st \<or> al_socket (do_op op st) = None) \<and> (al_stopped st \<longrightarrow> al_stopped (do_op op st))"
  by (cases op) (auto simp: link_start_def link_stop_def Let_def stopHeartbeat_def noteDetached_def link_register_def
      link_unregister_def split: option.splits)

lemma ops_socket:
  "al_state st \<noteq> LinkIdle \<Longrightarrow>
     (al_socket (fold do_op ops st) = al_socket st \<or> al_socket (fold do_op ops st) = None) \<and>
     (al_stopped st \<longrightarrow> al_stopped (fold do_op ops st))"
proof (induction ops arbitrary: st)
  case (Cons op ops)
  from Cons.IH [of "do_op op st"] op_seen [OF Cons.prems] op_socket [OF Cons.prems, of op] show ?case by auto
qed simp

lemma refuse_shape:
  assumes "link_shape opts st" "al_retryTimer st = None" "al_socket st = Some n"
  shows "link_shape opts (link_refuse listen n m st) \<and> link_rest (link_refuse listen n m st)"
proof -
  define st0 where "st0 = note_act (Emitted (EmRefused m))
    (st\<lparr>al_refusedReason := Some m, al_state := LinkRefused, al_stopped := True, al_disabledReason := Some m\<rparr>)"
  have s: "link_shape opts st0" "al_stopped st0" "al_state st0 \<noteq> LinkIdle" "al_socket st0 = Some n"
    using assms by (auto simp: link_shape_def st0_def note_act_def)
  define ops where "ops = listen (Emitted (EmRefused m))
    (st\<lparr>al_refusedReason := Some m, al_state := LinkRefused, al_stopped := True, al_disabledReason := Some m\<rparr>)"
  define st1 where "st1 = fold do_op ops st0"
  have 1: "link_shape opts st1" "al_stopped st1" "al_socket st1 = Some n \<or> al_socket st1 = None"
    using ops_shape [OF s(1), of ops] ops_socket [OF s(3), of ops] s by (auto simp: st1_def)
  define st2 where "st2 = (if al_socket st1 = Some n then st1\<lparr>al_destroyed := True\<rparr> else st1)"
  have "link_shape opts st2" "link_rest st2" using 1 by (auto simp: st2_def link_shape_def link_rest_def)
  then have "link_shape opts (note_act (Destroyed n) st2)" "link_rest (note_act (Destroyed n) st2)" by simp_all
  moreover have "link_refuse listen n m st = note_act (Destroyed n) st2"
    unfolding link_refuse_def Let_def st2_def st1_def st0_def ops_def call_out_def ..
  ultimately show ?thesis by simp
qed

text \<open>One chunk.\<close>

definition link_ok :: "link_opts \<Rightarrow> app_link \<Rightarrow> bool" where
  "link_ok opts st \<longleftrightarrow> link_shape opts st \<and> link_rest st \<and> record_ok st"

lemma seen_frames_ok:
  "al_sawHello st \<Longrightarrow> al_state st \<noteq> LinkIdle \<Longrightarrow> link_ok opts st \<Longrightarrow> link_ok opts (on_frames listen n now fs st)"
proof (induction fs arbitrary: st)
  case (Cons f fs)
  have "al_sawHello (link_route listen f st)" "al_state (link_route listen f st) \<noteq> LinkIdle" "link_ok opts (link_route listen f st)"
    using Cons.prems route_seen [of st listen f] route_shape [of opts st listen f] record_ok_route [of st listen f]
    by (auto simp: link_ok_def)
  then show ?case using Cons.IH Cons.prems(1) by simp
qed simp

lemma frames_ok:
  "al_socket st = Some n \<Longrightarrow> \<not> al_destroyed st \<Longrightarrow> link_ok opts st \<Longrightarrow> link_ok opts (on_frames listen n now fs st)"
proof (induction fs arbitrary: st)
  case (Cons f fs)
  have st: "\<not> al_stopped st" "al_state st \<noteq> LinkIdle" "al_retryTimer st = None"
    using Cons.prems by (auto simp: link_ok_def link_shape_def link_rest_def)
  show ?case
  proof (cases "al_sawHello st")
    case True
    then show ?thesis by (rule seen_frames_ok [OF _ st(2) Cons.prems(3)])
  next
    case False
    show ?thesis
    proof (cases "hello_of f")
      case (Some h)
      have "link_ok opts (accept_hello listen n now h st)" "al_sawHello (accept_hello listen n now h st)"
        "al_state (accept_hello listen n now h st) \<noteq> LinkIdle"
        using accept_hello_shape [of opts st n listen now h] record_ok_hello [of st listen n now h] Cons.prems st(1)
        by (auto simp: link_ok_def)
      then have "link_ok opts (on_frames listen n now fs (accept_hello listen n now h st))" by (intro seen_frames_ok)
      then show ?thesis using False Some by simp
    next
      case None
      have "link_ok opts (link_refuse listen n m st)" for m
        using refuse_shape [of opts st n listen m] record_ok_refuse [of st listen n m] Cons.prems st(3)
        by (auto simp: link_ok_def)
      then show ?thesis using False None Cons
        by (auto split: link_frame.splits engine_frame.splits)
    qed
  qed
qed simp

lemma data_ok:
  assumes "link_ok opts st" "al_socket st = Some n \<longrightarrow> \<not> al_destroyed st"
  shows "link_ok opts (link_data opts decode listen n chunk now st)"
proof (cases "al_socket st = Some n")
  case False
  then show ?thesis using assms by (simp add: link_data_def)
next
  case True
  let ?st = "st\<lparr>al_lastFrameAt := now\<rparr>"
  have st: "link_ok opts ?st" using assms(1) by (simp add: link_ok_def link_shape_def link_rest_def record_ok_def)
  show ?thesis
  proof (cases "reader_push (lo_json opts) (al_reader ?st) chunk")
    case (Inl e)
    have "link_ok opts (?st\<lparr>al_destroyed := True\<rparr>)" using st by (simp add: link_ok_def link_shape_def link_rest_def record_ok_def)
    then have "link_ok opts (note_act (Destroyed n) (?st\<lparr>al_destroyed := True\<rparr>))" by (simp add: link_ok_def record_ok_act)
    then show ?thesis using True Inl by (simp add: link_data_def Let_def destroy_socket_def)
  next
    case (Inr r)
    obtain frames b where r: "r = (frames, b)" by (cases r)
    have "link_ok opts (?st\<lparr>al_reader := b\<rparr>)" using st by (simp add: link_ok_def link_shape_def link_rest_def record_ok_def)
    then have "link_ok opts (on_frames listen n now (map decode frames) (?st\<lparr>al_reader := b\<rparr>))"
      by (intro frames_ok) (use True assms(2) in simp_all)
    then show ?thesis using True Inr r by (simp add: link_data_def Let_def)
  qed
qed

section \<open>Every event\<close>

lemma schedule_ok:
  assumes "link_shape opts st" "record_ok st" "al_socket st = None" "al_state st \<noteq> LinkIdle" "j < 250"
  shows "link_ok opts (scheduleRetry opts j st)"
proof -
  have "retry_delay opts (al_attempt st) + j < lo_retryMaxMs opts + 250" using assms(5) by (simp add: retry_delay_def)
  then show ?thesis using assms by (auto simp: scheduleRetry_def link_ok_def link_shape_def link_rest_def record_ok_def)
qed

lemma call_no_socket:
  "al_state st \<noteq> LinkIdle \<Longrightarrow> al_socket st = None \<Longrightarrow>
     al_socket (call_out listen a st) = None \<and> al_state (call_out listen a st) \<noteq> LinkIdle"
  using ops_socket [of "note_act a st" "listen a st"] ops_seen [of "note_act a st" "listen a st"] by (auto simp: call_out_def)

lemma calls_no_socket:
  "al_state st \<noteq> LinkIdle \<Longrightarrow> al_socket st = None \<Longrightarrow>
     al_socket (fold (\<lambda>h. call_out listen (ToldLost h)) hs st) = None \<and>
     al_state (fold (\<lambda>h. call_out listen (ToldLost h)) hs st) \<noteq> LinkIdle"
  by (induction hs arbitrary: st) (simp_all add: call_no_socket)

lemma calls_record: "record_ok st \<Longrightarrow> record_ok (fold (\<lambda>h. call_out listen (ToldLost h)) hs st)"
  by (induction hs arbitrary: st) (simp_all add: record_ok_call)

lemma close_ok:
  assumes "link_ok opts st" "j < 250"
  shows "link_ok opts (link_close opts listen n j st)"
proof (cases "al_socket st = Some n")
  case False
  then show ?thesis using assms(1) by (simp add: link_close_def)
next
  case True
  define st1 where "st1 = (stopHeartbeat (st\<lparr>al_socket := None\<rparr>))
    \<lparr>al_state := (if al_state st = LinkRefused then LinkRefused else LinkDown)\<rparr>"
  have 1: "link_shape opts st1" "record_ok st1" "al_socket st1 = None" "al_state st1 \<noteq> LinkIdle"
    using assms(1) by (auto simp: st1_def stopHeartbeat_def link_ok_def link_shape_def record_ok_def)
  define st2 where "st2 = (if al_state st = LinkReady
      then fold (\<lambda>h. call_out listen (ToldLost h)) (map snd (al_handlers st1)) (call_out listen (Emitted EmLost) (st1\<lparr>al_handlers := []\<rparr>))
      else if al_attempt st1 = 0 \<and> al_state st1 = LinkDown then call_out listen (Emitted EmDown) st1 else st1)"
  have h: "link_shape opts (st1\<lparr>al_handlers := []\<rparr>)" "record_ok (st1\<lparr>al_handlers := []\<rparr>)"
    using 1 by (simp_all add: link_shape_def record_ok_def)
  have "link_shape opts st2" "record_ok st2" "al_socket st2 = None" "al_state st2 \<noteq> LinkIdle"
    using 1 h call_shape [OF h(1), of listen] call_shape [OF 1(1), of listen] call_no_socket [of _ listen]
    by (auto simp: st2_def calls_shape calls_record record_ok_call calls_no_socket)
  from schedule_ok [OF this assms(2)] True show ?thesis
    unfolding link_close_def Let_def st2_def st1_def by simp
qed

lemma retry_ok: "link_ok opts st \<Longrightarrow> al_retryTimer st \<noteq> None \<Longrightarrow> link_ok opts (on_retry st)"
proof -
  assume ok: "link_ok opts st" and t: "al_retryTimer st \<noteq> None"
  then have "\<not> al_stopped st" by (auto simp: link_ok_def link_shape_def)
  moreover have "record_ok (st\<lparr>al_retryTimer := None\<rparr>)" using ok by (simp add: link_ok_def record_ok_def)
  ultimately show ?thesis
    using connectOnce_shape [of "st\<lparr>al_retryTimer := None\<rparr>" opts] record_ok_connectOnce
    by (simp add: on_retry_def Let_def link_ok_def)
qed

lemma beat_ok: "link_ok opts st \<Longrightarrow> al_heartbeat st = Some n \<Longrightarrow> link_ok opts (link_beat opts n now st)"
proof (cases "al_socket st = Some n")
  case False
  then show "link_ok opts st \<Longrightarrow> al_heartbeat st = Some n \<Longrightarrow> ?thesis"
    by (auto simp: link_beat_def stopHeartbeat_def link_ok_def link_shape_def link_rest_def record_ok_def)
next
  case True
  assume ok: "link_ok opts st"
  let ?st = "st\<lparr>al_lastBeat := now\<rparr>"
  have st: "link_ok opts ?st" "link_ok opts (?st\<lparr>al_destroyed := True\<rparr>)"
    using ok by (simp_all add: link_ok_def link_shape_def link_rest_def record_ok_def)
  have "link_ok opts (note_act (Destroyed n) (?st\<lparr>al_destroyed := True\<rparr>))"
    using st(2) by (simp add: link_ok_def record_ok_act)
  moreover have "link_ok opts (snd (link_send APing ?st))" using st(1) by (simp add: link_ok_def record_ok_send)
  ultimately show ?thesis using True by (simp add: link_beat_def Let_def destroy_socket_def)
qed

lemma step_ok: "link_ok opts st \<Longrightarrow> may_happen ev st \<Longrightarrow> link_ok opts (link_step opts decode listen ev st)"
proof (cases ev)
  case (CallOp op)
  then show "link_ok opts st \<Longrightarrow> ?thesis" using op_shape [of opts st op] record_ok_op [of st op] by (simp add: link_ok_def)
next
  case (SocketConnected n)
  then show "link_ok opts st \<Longrightarrow> ?thesis" by (simp add: link_connect_def link_ok_def record_ok_act)
qed (simp_all add: data_ok close_ok retry_ok beat_ok)

lemma run_ok: "link_run opts decode listen st \<Longrightarrow> link_ok opts st"
proof (induction rule: link_run.induct)
  case run_new
  show ?case by (simp add: link_ok_def link_shape_def link_rest_def record_ok_def new_app_link_def)
qed (rule step_ok)

section \<open>Properties\<close>

lemma closed_stays:
  "i \<in> S \<Longrightarrow> \<forall>a \<in> set as. (\<forall>hs. a \<noteq> GotHello hs) \<and> (\<forall>c. a = Wrote (AConnect c) \<longrightarrow> cf_id c \<noteq> Some i) \<Longrightarrow> i \<in> fold closed_by as S"
proof (induction as arbitrary: S)
  case (Cons a as)
  have "i \<in> closed_by a S" using Cons.prems by (cases "(a, S)" rule: closed_by.cases) auto
  then show ?case using Cons by simp
qed simp

lemma owed_stays: "i \<in> S \<Longrightarrow> Wrote (AClose i) \<notin> set as \<Longrightarrow> i \<in> fold owed_by as S"
proof (induction as arbitrary: S)
  case (Cons a as)
  have "i \<in> owed_by a S" using Cons.prems by (cases "(a, S)" rule: owed_by.cases) auto
  then show ?case using Cons by simp
qed simp

text \<open>C20: Whatever the listeners do and however the link comes and goes, a session this link has sent a close for
  is not offered as held again, unless a new hello has listed the engine's sessions afresh or the app has
  connected under its id since.\<close>

theorem closed_sessions_stay_closed:
  assumes "link_run opts decode listen st"
    and "al_trace st = before @ Wrote (AClose i) # between @ Emitted (EmHeld i) # after"
  shows "\<exists>a \<in> set between. (\<exists>hs. a = GotHello hs) \<or> (\<exists>c. a = Wrote (AConnect c) \<and> cf_id c = Some i)"
proof (rule ccontr)
  let ?tr = "before @ Wrote (AClose i) # between"
  assume "\<not> ?thesis"
  then have "i \<in> closed_in ?tr"
    using closed_stays [of i "insert i (closed_in before)" between] by auto
  moreover have "along act_ok (al_trace st)" using run_ok [OF assms(1)] by (simp add: link_ok_def record_ok_def)
  then have "act_ok ?tr (Emitted (EmHeld i))" by (rule alongD) (simp add: assms(2))
  ultimately show False by (simp del: closed_in_simps)
qed

text \<open>A close asked for is never forgotten: it has gone out since, or it is remembered; and whenever the
  listeners hear that the link is ready, every close asked for before has gone out, whether the link was down
  or up when it was asked for.\<close>

theorem requested_closes_go_out:
  assumes "link_run opts decode listen st" "al_trace st = before @ Asked i # after"
  shows "(Wrote (AClose i) \<in> set after \<or> i \<in> set (al_pendingCloses st)) \<and>
    (\<forall>between rest. after = between @ Emitted EmReady # rest \<longrightarrow> Wrote (AClose i) \<in> set between)"
proof -
  have r: "record_ok st" using run_ok [OF assms(1)] by (simp add: link_ok_def)
  have owed: "i \<in> owed_in (before @ Asked i # as)" if "Wrote (AClose i) \<notin> set as" for as
    using owed_stays [OF _ that, of "insert i (owed_in before)"] by simp
  have "Wrote (AClose i) \<in> set after \<or> i \<in> set (al_pendingCloses st)"
    using owed [of after] r assms(2) by (auto simp: record_ok_def simp del: owed_in_simps)
  moreover have "Wrote (AClose i) \<in> set between" if "after = between @ Emitted EmReady # rest" for between rest
  proof (rule ccontr)
    assume n: "Wrote (AClose i) \<notin> set between"
    have "act_ok (before @ Asked i # between) (Emitted EmReady)"
      by (rule alongD [of _ "al_trace st"]) (use r assms(2) that in \<open>simp_all add: record_ok_def\<close>)
    with owed [OF n] show False by (simp del: owed_in_simps)
  qed
  ultimately show ?thesis by blast
qed

text \<open>A silent link.\<close>

fun punctual :: "int \<Rightarrow> int \<Rightarrow> int list \<Rightarrow> bool" where
  "punctual hb t [] = True"
| "punctual hb t (u # us) = (t + hb \<le> u \<and> u \<le> t + 2 * hb \<and> punctual hb u us)"

lemma link_beat_simps:
  assumes "al_socket st = Some n"
  shows "al_socket (link_beat opts n t st) = Some n" "al_lastFrameAt (link_beat opts n t st) = al_lastFrameAt st"
    "al_lastBeat (link_beat opts n t st) = t"
    "al_destroyed (link_beat opts n t st) \<longleftrightarrow>
       al_destroyed st \<or> t - al_lastBeat st \<le> lo_heartbeatMs opts * 2 \<and> t - al_lastFrameAt st > lo_heartbeatMs opts * 3"
  using assms by (auto simp: link_beat_def Let_def destroy_socket_def)

lemma beats_destroy:
  "al_socket st = Some n \<Longrightarrow> punctual (lo_heartbeatMs opts) (al_lastBeat st) ts \<Longrightarrow>
     al_destroyed (fold (link_beat opts n) ts st) \<longleftrightarrow> al_destroyed st \<or> (\<exists>t \<in> set ts. t - al_lastFrameAt st > lo_heartbeatMs opts * 3)"
proof (induction ts arbitrary: st)
  case (Cons t ts)
  show ?case using Cons.IH [of "link_beat opts n t st"] Cons.prems by (auto simp: link_beat_simps)
qed simp

lemma punctual_far: "punctual hb t ts \<Longrightarrow> ts \<noteq> [] \<Longrightarrow> t + int (length ts) * hb \<le> last ts"
proof (induction ts arbitrary: t)
  case (Cons u us)
  show ?case
  proof (cases "us = []")
    case False
    then have "u + int (length us) * hb \<le> last us" "t + hb \<le> u" using Cons by simp_all
    with False show ?thesis by (simp add: algebra_simps)
  qed (use Cons.prems in simp)
qed simp

text \<open>While beats come on time, a silent link is dropped at the first beat more than three intervals after its
  last frame, by the fourth beat at the latest, and at no other.\<close>

lemma silent_link_dropped:
  assumes "al_socket st = Some n" "\<not> al_destroyed st" "punctual (lo_heartbeatMs opts) (al_lastBeat st) ts"
    and "al_lastFrameAt st \<le> al_lastBeat st" "0 < lo_heartbeatMs opts"
  shows "(al_destroyed (fold (link_beat opts n) ts st) \<longleftrightarrow> (\<exists>t \<in> set ts. t - al_lastFrameAt st > lo_heartbeatMs opts * 3)) \<and>
    (4 \<le> length ts \<longrightarrow> al_destroyed (fold (link_beat opts n) ts st))"
proof -
  have d: "al_destroyed (fold (link_beat opts n) ts st) \<longleftrightarrow> (\<exists>t \<in> set ts. t - al_lastFrameAt st > lo_heartbeatMs opts * 3)"
    using beats_destroy [OF assms(1,3)] assms(2) by simp
  moreover have "\<exists>t \<in> set ts. t - al_lastFrameAt st > lo_heartbeatMs opts * 3" if "4 \<le> length ts"
  proof
    have "ts \<noteq> []" using that by auto
    then show "last ts \<in> set ts" by simp
    have "lo_heartbeatMs opts * 4 \<le> int (length ts) * lo_heartbeatMs opts"
      using that assms(5) by (simp add: mult.commute)
    with punctual_far [OF assms(3) \<open>ts \<noteq> []\<close>] assms(4,5)
    show "last ts - al_lastFrameAt st > lo_heartbeatMs opts * 3" by linarith
  qed
  ultimately show ?thesis by blast
qed

text \<open>C21: Between events a link that has not been stopped or refused is never left to itself: it was never started, or it
  has a socket, or a retry is due within the longest delay.  A link that is ready has a socket that has said hello, and a
  heartbeat on that socket.  A socket need not be alive, but a dead one does not stay: with nothing heard since the last beat
  it is destroyed by the fourth beat that comes on time, and when its close is reported a retry is due, unless a listener
  stops the link.\<close>

theorem link_never_gives_up:
  assumes "link_run opts decode listen st"
  shows "(al_stopped st \<or> al_state st = LinkIdle \<or> al_socket st \<noteq> None \<or>
      (\<exists>d. al_retryTimer st = Some d \<and> d < lo_retryMaxMs opts + 250)) \<and>
    (al_state st = LinkReady \<longrightarrow> al_socket st \<noteq> None \<and> al_sawHello st \<and> al_heartbeat st = al_socket st \<and> \<not> al_stopped st) \<and>
    (al_stopped st \<longrightarrow> al_retryTimer st = None) \<and>
    (\<forall>n ts. al_socket st = Some n \<and> punctual (lo_heartbeatMs opts) (al_lastBeat st) ts \<and> al_lastFrameAt st \<le> al_lastBeat st \<and>
      0 < lo_heartbeatMs opts \<and> 4 \<le> length ts \<longrightarrow> al_destroyed (fold (link_beat opts n) ts st)) \<and>
    (\<forall>n jitter. al_socket st = Some n \<and> jitter < 250 \<longrightarrow>
      (let st' = link_step opts decode listen (SocketClosed n jitter) st in
        al_stopped st' \<or> (\<exists>d. al_retryTimer st' = Some d \<and> d < lo_retryMaxMs opts + 250)))"
proof -
  have "al_destroyed (fold (link_beat opts n) ts st)"
    if "al_socket st = Some n" "punctual (lo_heartbeatMs opts) (al_lastBeat st) ts" "al_lastFrameAt st \<le> al_lastBeat st"
      "0 < lo_heartbeatMs opts" "4 \<le> length ts" for n ts
    using silent_link_dropped [OF that(1) _ that(2-4)] beats_destroy [OF that(1,2)] that(5) by blast
  moreover have "let st' = link_step opts decode listen (SocketClosed n jitter) st in
      al_stopped st' \<or> (\<exists>d. al_retryTimer st' = Some d \<and> d < lo_retryMaxMs opts + 250)" if "al_socket st = Some n" "jitter < 250" for n jitter
  proof -
    let ?st = "link_step opts decode listen (SocketClosed n jitter) st"
    have "link_ok opts ?st" by (rule run_ok [OF run_event [OF assms]]) (simp add: that(2))
    moreover have "al_stopped ?st \<or> al_retryTimer ?st \<noteq> None"
      using that(1) by (auto simp: link_close_def Let_def scheduleRetry_def)
    ultimately show ?thesis by (auto simp: link_ok_def link_shape_def Let_def)
  qed
  ultimately show ?thesis using run_ok [OF assms] by (auto simp: link_ok_def link_shape_def link_rest_def)
qed

section \<open>A run\<close>

fun may_all :: "link_opts \<Rightarrow> (json \<Rightarrow> link_frame) \<Rightarrow> listeners \<Rightarrow> link_event list \<Rightarrow> app_link \<Rightarrow> bool" where
  "may_all opts decode listen [] st = True"
| "may_all opts decode listen (ev # evs) st = (may_happen ev st \<and> may_all opts decode listen evs (link_step opts decode listen ev st))"

lemma run_all:
  "link_run opts decode listen st \<Longrightarrow> may_all opts decode listen evs st \<Longrightarrow>
     link_run opts decode listen (fold (link_step opts decode listen) evs st)"
  by (induction evs arbitrary: st) (simp_all add: run_event)

definition sample_link_opts :: link_opts where
  "sample_link_opts =
     \<lparr>lo_json = (\<lambda>t. if t = ''hello'' \<or> t = ''held'' then Some (JObj [(''op'', JStr t)]) else None),
      lo_instance = ''db'', lo_secret = ''s'', lo_generation = 1, lo_retryBaseMs = 1000, lo_retryMaxMs = 15000,
      lo_heartbeatMs = 15000\<rparr>"

definition sample_decode :: "json \<Rightarrow> link_frame" where
  "sample_decode j = (if j = JObj [(''op'', JStr ''hello'')] then OldHello ''1'' [''db:1:1''] else FromEngine (FHeld ''db:1:1''))"

definition sample_connect :: connect_frame where
  "sample_connect =
     \<lparr>cf_id = Some ''db:1:1'', cf_host = Some ''h'', cf_port = Some 6697, cf_tls = True, cf_rejectUnauthorized = True,
      cf_outgoingAddr = None, cf_ident = None, cf_clientCert = None, cf_proxy = None\<rparr>"

text \<open>A close asked for while the link is down, an offer that crosses it, and a connect under the same id.\<close>

definition sample_chunk :: string where
  "sample_chunk = ''hello'' @ [newline] @ ''held'' @ [newline]"

definition sample_offer :: string where
  "sample_offer = ''held'' @ [newline]"

lemma sample_reads:
  "reader_push (lo_json sample_link_opts) [] sample_chunk = Inr ([JObj [(''op'', JStr ''hello'')], JObj [(''op'', JStr ''held'')]], [])"
  "reader_push (lo_json sample_link_opts) [] sample_offer = Inr ([JObj [(''op'', JStr ''held'')]], [])"
  by (simp_all add: reader_push_def read_frames.simps js_trim_def is_space_def MAX_FRAME_BYTES_def sample_chunk_def
      sample_offer_def sample_link_opts_def)

definition sample_link_events :: "link_event list" where
  "sample_link_events =
     [CallOp OpStart, CallOp (OpRequestClose ''db:1:1''), SocketConnected 0,
      SocketData 0 sample_chunk 5, CallOp (OpSend (AConnect sample_connect)),
      SocketData 0 sample_offer 9]"

definition sample_app_link :: app_link where
  "sample_app_link = fold (link_step sample_link_opts sample_decode (\<lambda>a st. [])) sample_link_events new_app_link"

lemmas sample_link_eval = sample_link_events_def link_start_def connectOnce_def new_app_link_def note_act_def requestClose_def
  link_send_def can_send_def set_add_def set_del_def link_connect_def link_data_def sample_reads sample_decode_def
  accept_hello_def startHeartbeat_def stopHeartbeat_def send_pending_def note_sent_def call_out_def link_route_def
  sample_connect_def

lemma sample_app_link_run: "link_run sample_link_opts sample_decode (\<lambda>a st. []) sample_app_link"
proof -
  have "may_all sample_link_opts sample_decode (\<lambda>a st. []) sample_link_events new_app_link" by (simp add: sample_link_eval)
  then show ?thesis unfolding sample_app_link_def by (rule run_all [OF run_new])
qed

lemma sample_app_link_whole:
  "\<exists>w. al_trace sample_app_link = [Dialed 0, Asked ''db:1:1'', w, GotHello [''db:1:1''], Wrote (AClose ''db:1:1''),
     Emitted EmReady, Wrote (AConnect sample_connect), Emitted (EmHeld ''db:1:1'')] \<and>
   al_state sample_app_link = LinkReady \<and> al_socket sample_app_link = Some 0"
  by (simp add: sample_app_link_def sample_link_eval)

lemma closed_sessions_stay_closed_witness:
  "\<exists>before after. al_trace sample_app_link = before @ Wrote (AClose ''db:1:1'') #
     [Emitted EmReady, Wrote (AConnect sample_connect)] @ Emitted (EmHeld ''db:1:1'') # after \<and>
     (\<exists>a \<in> set [Emitted EmReady, Wrote (AConnect sample_connect)].
        (\<exists>hs. a = GotHello hs) \<or> (\<exists>c. a = Wrote (AConnect c) \<and> cf_id c = Some ''db:1:1''))"
proof -
  obtain w where "al_trace sample_app_link = [Dialed 0, Asked ''db:1:1'', w, GotHello [''db:1:1'']] @ Wrote (AClose ''db:1:1'') #
     [Emitted EmReady, Wrote (AConnect sample_connect)] @ Emitted (EmHeld ''db:1:1'') # []"
    using sample_app_link_whole by auto
  with closed_sessions_stay_closed [OF sample_app_link_run this] show ?thesis by blast
qed

lemma requested_closes_go_out_witness:
  "\<exists>after. al_trace sample_app_link = [Dialed 0] @ Asked ''db:1:1'' # after \<and>
     (Wrote (AClose ''db:1:1'') \<in> set after \<or> ''db:1:1'' \<in> set (al_pendingCloses sample_app_link))"
proof -
  obtain after where "al_trace sample_app_link = [Dialed 0] @ Asked ''db:1:1'' # after"
    using sample_app_link_whole by auto
  with requested_closes_go_out [OF sample_app_link_run this] show ?thesis by blast
qed

lemma link_never_gives_up_witness: "al_state sample_app_link = LinkReady \<and> al_heartbeat sample_app_link = Some 0"
proof -
  have "al_state sample_app_link = LinkReady" "al_socket sample_app_link = Some 0" using sample_app_link_whole by blast+
  then show ?thesis using link_never_gives_up [OF sample_app_link_run] by simp
qed

lemma silent_link_dropped_witness:
  "al_destroyed (fold (link_beat sample_link_opts 0) [15000, 30000, 45000, 60000] (new_app_link\<lparr>al_socket := Some 0\<rparr>))"
  using silent_link_dropped [of "new_app_link\<lparr>al_socket := Some 0\<rparr>" 0 sample_link_opts "[15000, 30000, 45000, 60000]"]
  by (simp add: new_app_link_def sample_link_opts_def)

text \<open>A listener that stops the link does not stop the chunk being handled: the frames after it still reach the
  listeners.\<close>

lemma stopped_link_still_routes:
  "\<exists>before after. al_trace (fold (link_step sample_link_opts sample_decode (\<lambda>a st. if a = Emitted EmReady then [OpStop] else []))
       [CallOp OpStart, SocketConnected 0, SocketData 0 sample_chunk 5] new_app_link)
     = before @ HalfClosed 0 # Emitted (EmHeld ''db:1:1'') # after"
proof -
  have "\<exists>w. al_trace (fold (link_step sample_link_opts sample_decode (\<lambda>a st. if a = Emitted EmReady then [OpStop] else []))
       [CallOp OpStart, SocketConnected 0, SocketData 0 sample_chunk 5] new_app_link)
     = [Dialed 0, w, GotHello [''db:1:1''], Emitted EmReady] @ HalfClosed 0 # Emitted (EmHeld ''db:1:1'') # []"
    by (simp add: sample_link_eval link_stop_def)
  then show ?thesis by blast
qed

end
