(* ===== verification/Engine_Transport.thy ===== *)
theory Engine_Transport imports Engine_Link Engine_Upstream begin

text \<open>
  \<open>server/services/engineTransport.ts\<close>: the transport an IRC client runs on when the engine holds its socket.  The
  client and the hooks are the argument \<open>client\<close>: what each event makes them call on the transport before it
  returns, and whether it ends in an exception; these calls may make the transport emit again.  What the
  transport does to the link is recorded, with what it told the client and the seq of the line being delivered
  then, in \<open>tr_log\<close>, oldest first.  The link's state, the wait for it, the timers and the microtask are events;
  irc-framework's line parser is the argument \<open>parse\<close>.
\<close>

section \<open>What a replay may hold\<close>

definition RESTORE_MARK :: string where
  "RESTORE_MARK = ''__lurker_restore__''"

definition swallow_words :: "string list" where
  "swallow_words = [''CAP'', ''NICK'', ''USER'', ''PASS'', ''AUTHENTICATE'']"

definition swallowedWhileRestoring :: "string \<Rightarrow> bool" where
  "swallowedWhileRestoring line =
     (\<exists>w \<in> set swallow_words. starts_with line w \<and> (drop (length w) line = [] \<or> is_space (hd (drop (length w) line))))"

definition SASL_NUMERICS :: "string list" where
  "SASL_NUMERICS = [''900'', ''901'', ''902'', ''903'', ''904'', ''905'', ''906'', ''907'', ''908'']"

definition keep_cap :: "string \<Rightarrow> bool" where
  "keep_cap c = (c \<noteq> [] \<and> hd (split_on (CHR ''='') c) \<noteq> ''sasl'')"

definition sanitize_line :: "(string \<Rightarrow> irc_msg option) \<Rightarrow> string \<Rightarrow> string option" where
  "sanitize_line parse line =
     (case parse line of
        None \<Rightarrow> None
      | Some msg \<Rightarrow>
          let command = to_upper (msg_command msg); params = msg_params msg in
          if command = ''AUTHENTICATE'' \<or> command \<in> set SASL_NUMERICS then None
          else if command = ''CAP'' \<and> to_upper (if 1 < length params then params ! 1 else []) \<in> {''LS'', ''ACK'', ''NEW''}
          then let caps = filter keep_cap (split_on (CHR '' '') (last params)) in
               if caps = [] then None
               else Some ((case msg_prefix msg of None \<Rightarrow> [] | Some p \<Rightarrow> if p = [] then [] else '':'' @ p @ '' '') @
                          ''CAP '' @ join_with '' '' (butlast params) @ '' :'' @ join_with '' '' caps)
          else Some line)"

definition sanitizeReplay :: "(string \<Rightarrow> irc_msg option) \<Rightarrow> string list \<Rightarrow> string list" where
  "sanitizeReplay parse ls = List.map_filter (sanitize_line parse) ls"

section \<open>State\<close>

datatype engine_close = CloseLinkLost | CloseUnreachable | CloseTakenOver | CloseRefused | CloseDetached

datatype close_reason = CleanClose | EngineCloseError engine_close string | PlainError string

record client_opts =
  co_id :: string
  co_host :: string
  co_port :: int
  co_tls :: bool
  co_rejectUnauthorized :: bool
  co_outgoing_addr :: "string option"
  co_ident :: "string option"
  co_client_certificate :: "(string \<times> string) option"
  co_proxy :: "proxy_input option"

datatype phase =
    PhDialing
  | PhAttached int "string option" "string list" nat bool "string option"
  | PhRestored "string list"
  | PhLive nat
  | PhGap gap

datatype tr_event = EvOpen | EvRaw endpoint endpoint | EvLine string | EvClose close_reason | EvPhase phase

datatype tr_act = Told tr_event "nat option" | Did link_op | Received nat string | Restarted | Cut

datatype client_call = CallWrite string | CallClose | CallDetach | CallDispose

record transport =
  tr_id :: string
  tr_handle :: nat
  tr_restoring :: bool
  tr_requested_disconnect :: bool
  tr_connected :: bool
  tr_ended :: bool
  tr_detachedByApp :: bool
  tr_lostToPeer :: bool
  tr_closeSent :: bool
  tr_pending :: "engine_frame list"
  tr_swallowed :: "string list"
  tr_backlog :: "nat option"
  tr_replyTimer :: bool
  tr_ackSeq :: nat
  tr_ackQueued :: bool
  tr_socket :: "string option"
  tr_deliveringSeq :: "nat option"
  tr_waiting :: nat
  tr_log :: "tr_act list"

definition new_transport :: "client_opts \<Rightarrow> nat \<Rightarrow> transport" where
  "new_transport o' h =
     \<lparr>tr_id = co_id o', tr_handle = h, tr_restoring = False, tr_requested_disconnect = False, tr_connected = False,
      tr_ended = False, tr_detachedByApp = False, tr_lostToPeer = False, tr_closeSent = False, tr_pending = [],
      tr_swallowed = [], tr_backlog = None, tr_replyTimer = False, tr_ackSeq = 0, tr_ackQueued = False,
      tr_socket = None, tr_deliveringSeq = None, tr_waiting = 0, tr_log = []\<rparr>"

text \<open>A step of the transport: the new state, and whether an exception is on its way up.\<close>

type_synonym step = "transport \<Rightarrow> transport \<times> bool"

definition tr_note :: "tr_act \<Rightarrow> transport \<Rightarrow> transport" where
  "tr_note a st = st\<lparr>tr_log := tr_log st @ [a]\<rparr>"

definition quietly :: "(transport \<Rightarrow> transport) \<Rightarrow> step" where
  "quietly f st = (f st, False)"

definition then_step :: "step \<Rightarrow> step \<Rightarrow> step" where
  "then_step f g st = (let (st1, threw) = f st in if threw then (st1, True) else g st1)"

fun steps :: "step list \<Rightarrow> step" where
  "steps [] = quietly (\<lambda>st. st)"
| "steps (f # fs) = then_step f (steps fs)"

section \<open>The end of a transport\<close>

type_synonym emitter = "tr_event \<Rightarrow> step"

definition finish :: "transport \<Rightarrow> transport" where
  "finish st =
     (tr_note (Did (OpUnregister (tr_id st) (Some (tr_handle st)))) (st\<lparr>tr_replyTimer := False, tr_ended := True\<rparr>))
       \<lparr>tr_connected := False, tr_restoring := False, tr_pending := []\<rparr>"

definition tr_end :: "emitter \<Rightarrow> close_reason \<Rightarrow> step" where
  "tr_end em err st = em (EvClose err) (finish st)"

section \<open>Lines from the engine\<close>

text \<open>\<open>deliver\<close>: the client handles the line, then it is to be acknowledged; after an exception only the seq being
  delivered is put back.\<close>

definition tr_deliver :: "emitter \<Rightarrow> nat \<Rightarrow> string \<Rightarrow> step" where
  "tr_deliver em s line st =
     (let (st1, threw) = em (EvLine line) (st\<lparr>tr_backlog := map_option Suc (tr_backlog st), tr_deliveringSeq := Some s\<rparr>);
          st2 = st1\<lparr>tr_deliveringSeq := None\<rparr>
      in if threw then (st2, True) else (st2\<lparr>tr_ackSeq := s, tr_ackQueued := True\<rparr>, False))"

text \<open>The three frames a restore holds back.\<close>

definition handle_live :: "emitter \<Rightarrow> engine_frame \<Rightarrow> step" where
  "handle_live em f st =
     (if tr_ended st then (st, False)
      else if tr_restoring st then (st\<lparr>tr_pending := tr_pending st @ [f]\<rparr>, False)
      else case f of
             FLine i s line \<Rightarrow> tr_deliver em s line st
           | FGap i g \<Rightarrow> em (EvPhase (PhGap g)) st
           | FLive i \<Rightarrow>
               em (EvPhase (PhLive (case tr_backlog st of None \<Rightarrow> 0 | Some n \<Rightarrow> n))) (st\<lparr>tr_backlog := None\<rparr>)
           | _ \<Rightarrow> (st, False))"

definition finishRestore :: "emitter \<Rightarrow> step" where
  "finishRestore em st =
     then_step (em (EvPhase (PhRestored (tr_swallowed st))))
       (\<lambda>st. steps (map (handle_live em) (tr_pending st)) (st\<lparr>tr_pending := []\<rparr>)) (st\<lparr>tr_restoring := False\<rparr>)"

section \<open>What the client calls\<close>

definition is_mark_pong :: "string \<Rightarrow> bool" where
  "is_mark_pong line = (line = ''PONG '' @ RESTORE_MARK \<or> line = ''PONG :'' @ RESTORE_MARK)"

definition writeLine :: "emitter \<Rightarrow> string \<Rightarrow> step" where
  "writeLine em line st =
     (if tr_restoring st \<and> is_mark_pong line then finishRestore em st
      else if tr_restoring st \<and> swallowedWhileRestoring line then (st\<lparr>tr_swallowed := tr_swallowed st @ [line]\<rparr>, False)
      else if tr_connected st then (tr_note (Did (OpSend (AWrite (tr_id st) line))) st, False)
      else (st, False))"

definition tr_close :: "emitter \<Rightarrow> step" where
  "tr_close em st =
     (let st1 = st\<lparr>tr_requested_disconnect := True\<rparr> in
      if tr_detachedByApp st1 \<or> tr_lostToPeer st1 \<or> tr_closeSent st1 then (st1, False)
      else let st2 = tr_note (Did (OpRequestClose (tr_id st1))) (st1\<lparr>tr_closeSent := True\<rparr>) in
           if tr_ended st2 then (st2, False) else tr_end em CleanClose st2)"

definition tr_detach :: "emitter \<Rightarrow> step" where
  "tr_detach em st =
     (if tr_detachedByApp st \<or> tr_ended st then (st, False)
      else tr_end em (EngineCloseError CloseDetached ''detached; the engine keeps the socket'')
             (tr_note (Did (OpNoteDetached (tr_id st)))
               (tr_note (Did (OpSend (ADetach (tr_id st))))
                 (st\<lparr>tr_detachedByApp := True, tr_requested_disconnect := True\<rparr>))))"

definition disposeSocket :: "transport \<Rightarrow> transport" where
  "disposeSocket st = tr_note (Did (OpUnregister (tr_id st) (Some (tr_handle st)))) (st\<lparr>tr_replyTimer := False, tr_ended := True\<rparr>)"

fun do_call :: "emitter \<Rightarrow> client_call \<Rightarrow> step" where
  "do_call em (CallWrite line) = writeLine em line"
| "do_call em CallClose = tr_close em"
| "do_call em CallDetach = tr_detach em"
| "do_call em CallDispose = quietly disposeSocket"

type_synonym client = "tr_event \<Rightarrow> transport \<Rightarrow> client_call list \<times> bool"

text \<open>An event to the client, with the emissions its calls lead to.  They nest at most two deep, so the bound is
  never reached (\<open>reentrance_is_bounded\<close> in \<open>Transport_Laws\<close>); reaching it would leave \<open>Cut\<close> in the log.\<close>

primrec emit_within :: "nat \<Rightarrow> client \<Rightarrow> emitter" where
  "emit_within 0 client ev st = (tr_note Cut (tr_note (Told ev (tr_deliveringSeq st)) st), False)"
| "emit_within (Suc k) client ev st =
     (let st1 = tr_note (Told ev (tr_deliveringSeq st)) st; (calls, throws) = client ev st1
      in then_step (steps (map (do_call (emit_within k client)) calls)) (\<lambda>st. (st, throws)) st1)"

abbreviation emit_tr :: "client \<Rightarrow> emitter" where
  "emit_tr client \<equiv> emit_within 3 client"

section \<open>Restoring\<close>

definition restore_shows :: "client \<Rightarrow> (string \<Rightarrow> irc_msg option) \<Rightarrow> string list \<Rightarrow> step" where
  "restore_shows client parse replay =
     steps ([emit_tr client EvOpen] @ map (\<lambda>line. emit_tr client (EvLine line)) (sanitizeReplay parse replay) @
            [emit_tr client (EvLine (''PING :'' @ RESTORE_MARK))])"

definition restore :: "client \<Rightarrow> (string \<Rightarrow> irc_msg option) \<Rightarrow> attached_payload \<Rightarrow> step" where
  "restore client parse p st =
     (let sock = (if ap_socket p = [] then None else Some (ap_socket p));
          st1 = st\<lparr>tr_connected := True, tr_restoring := True, tr_swallowed := [], tr_backlog := Some 0, tr_socket := sock\<rparr>
      in then_step (emit_tr client (EvPhase (PhAttached (ap_detachedForMs p) (ap_nick p) (ap_channels p)
                       (length (ap_replay p)) (ap_unattended p) sock)))
           (then_step (emit_tr client (EvRaw (ap_local p) (ap_remote p)))
             (\<lambda>st. let (st2, threw) = restore_shows client parse (ap_replay p) st in
                   if \<not> threw then (st2, False)
                   else tr_end (emit_tr client) (PlainError ''restore failed'')
                          ((tr_note (Did (OpRequestClose (tr_id st2))) st2)\<lparr>tr_closeSent := True\<rparr>))) st1)"

section \<open>Frames\<close>

definition tr_onFrame :: "client \<Rightarrow> (string \<Rightarrow> irc_msg option) \<Rightarrow> engine_frame \<Rightarrow> step" where
  "tr_onFrame client parse f st =
     (if tr_ended st then (st, False)
      else case f of
             FDialing i \<Rightarrow> emit_tr client (EvPhase PhDialing) (st\<lparr>tr_replyTimer := False\<rparr>)
           | FOpen i local remote sock \<Rightarrow>
               then_step (emit_tr client (EvRaw local remote)) (emit_tr client EvOpen)
                 (st\<lparr>tr_replyTimer := False, tr_connected := True, tr_socket := (if sock = [] then None else Some sock)\<rparr>)
           | FAttached i p \<Rightarrow> restore client parse p (st\<lparr>tr_replyTimer := False\<rparr>)
           | FDetached i \<Rightarrow>
               tr_end (emit_tr client) (EngineCloseError CloseTakenOver ''another Lurker process took over this connection'')
                 (st\<lparr>tr_lostToPeer := True\<rparr>)
           | FClosed i err \<Rightarrow>
               tr_end (emit_tr client) (case truthy err of None \<Rightarrow> CleanClose | Some e \<Rightarrow> PlainError e) st
           | FError i message \<Rightarrow>
               if \<not> tr_connected st then tr_end (emit_tr client) (PlainError message) st else (st, False)
           | FLine i s line \<Rightarrow> handle_live (emit_tr client) f (tr_note (Received s line) st)
           | FGap i g \<Rightarrow> handle_live (emit_tr client) f st
           | FLive i \<Rightarrow> handle_live (emit_tr client) f st
           | _ \<Rightarrow> (st, False))"

section \<open>Connecting\<close>

definition connect_request :: "client_opts \<Rightarrow> app_frame" where
  "connect_request o' =
     AConnect \<lparr>cf_id = Some (co_id o'), cf_host = Some (co_host o'), cf_port = Some (co_port o'), cf_tls = co_tls o',
       cf_rejectUnauthorized = co_rejectUnauthorized o', cf_outgoingAddr = truthy (co_outgoing_addr o'),
       cf_ident = truthy (co_ident o'),
       cf_clientCert = map_option (\<lambda>(cert, key). (Some cert, Some key)) (co_client_certificate o'),
       cf_proxy = co_proxy o'\<rparr>"

text \<open>\<open>go\<close>: the link is ready, so what the engine can do is known.\<close>

definition connect_go :: "client \<Rightarrow> client_opts \<Rightarrow> app_link \<Rightarrow> step" where
  "connect_go client o' link st =
     (if co_proxy o' \<noteq> None \<and> \<not> supportsProxy link
      then tr_end (emit_tr client) (PlainError ''the engine cannot route a connection via a proxy'') st
      else if co_client_certificate o' \<noteq> None \<and> \<not> supportsClientCert link
      then tr_end (emit_tr client) (PlainError ''the engine cannot present a client certificate'') st
      else ((tr_note (Did (OpSend (connect_request o'))) st)\<lparr>tr_replyTimer := True\<rparr>, False))"

definition tr_register :: "transport \<Rightarrow> transport" where
  "tr_register st = tr_note (Did (OpRegister (tr_id st) (tr_handle st))) st"

definition tr_connect :: "client \<Rightarrow> client_opts \<Rightarrow> app_link \<Rightarrow> step" where
  "tr_connect client o' link st =
     (let st1 = tr_register (tr_note Restarted (st\<lparr>tr_ended := False, tr_requested_disconnect := False, tr_detachedByApp := False\<rparr>))
      in if al_state link = LinkReady then connect_go client o' link st1
         else (tr_note (Did OpStart) (st1\<lparr>tr_waiting := Suc (tr_waiting st1)\<rparr>), False))"

text \<open>\<open>whenReady\<close> has answered.\<close>

definition tr_answered :: "client \<Rightarrow> client_opts \<Rightarrow> app_link \<Rightarrow> ready_answer \<Rightarrow> step" where
  "tr_answered client o' link r st =
     (let st1 = st\<lparr>tr_waiting := tr_waiting st - 1\<rparr> in
      if tr_ended st1 then (st1, False)
      else case r of
             AnsReady \<Rightarrow> connect_go client o' link (tr_register st1)
           | AnsRefused \<Rightarrow> tr_end (emit_tr client) (EngineCloseError CloseRefused ''the Lurker engine refused this app'') st1
           | AnsTimeout \<Rightarrow> tr_end (emit_tr client) (EngineCloseError CloseUnreachable ''the Lurker engine is unreachable'') st1)"

definition tr_reply_timeout :: "client \<Rightarrow> step" where
  "tr_reply_timeout client st =
     (let st1 = st\<lparr>tr_replyTimer := False\<rparr> in
      if tr_ended st1 \<or> tr_connected st1 then (st1, False)
      else tr_end (emit_tr client) (EngineCloseError CloseUnreachable ''the Lurker engine did not answer the connect request'') st1)"

definition tr_onLost :: "client \<Rightarrow> client_opts \<Rightarrow> app_link \<Rightarrow> step" where
  "tr_onLost client o' link st =
     (if tr_ended st \<or> tr_detachedByApp st then (st, False)
      else let st1 = st\<lparr>tr_connected := False, tr_restoring := False, tr_pending := []\<rparr> in
           if tr_connected st then tr_end (emit_tr client) (EngineCloseError CloseLinkLost ''lost the link to the Lurker engine'') st1
           else tr_connect client o' link (st1\<lparr>tr_replyTimer := False\<rparr>))"

definition tr_ack :: "transport \<Rightarrow> transport" where
  "tr_ack st =
     (let st1 = st\<lparr>tr_ackQueued := False\<rparr> in
      if \<not> tr_ended st1 \<and> tr_connected st1 then tr_note (Did (OpSend (AAck (tr_id st1) (tr_ackSeq st1)))) st1 else st1)"

datatype tr_input =
    InConnect app_link
  | InAnswer app_link ready_answer
  | InReplyTimeout
  | InFrame engine_frame
  | InLost app_link
  | InAck
  | InCall client_call

text \<open>A client does not connect again a transport it disposed of in the middle of a restore: it builds a fresh one.\<close>

fun tr_enabled :: "tr_input \<Rightarrow> transport \<Rightarrow> bool" where
  "tr_enabled (InConnect _) st \<longleftrightarrow> \<not> tr_restoring st \<and> tr_pending st = []"
| "tr_enabled (InAnswer _ _) st \<longleftrightarrow> 0 < tr_waiting st"
| "tr_enabled InReplyTimeout st \<longleftrightarrow> tr_replyTimer st"
| "tr_enabled InAck st \<longleftrightarrow> tr_ackQueued st"
| "tr_enabled _ st \<longleftrightarrow> True"

fun tr_step :: "client \<Rightarrow> (string \<Rightarrow> irc_msg option) \<Rightarrow> client_opts \<Rightarrow> tr_input \<Rightarrow> step" where
  "tr_step client parse o' (InConnect link) = tr_connect client o' link"
| "tr_step client parse o' (InAnswer link r) = tr_answered client o' link r"
| "tr_step client parse o' InReplyTimeout = tr_reply_timeout client"
| "tr_step client parse o' (InFrame f) = tr_onFrame client parse f"
| "tr_step client parse o' (InLost link) = tr_onLost client o' link"
| "tr_step client parse o' InAck = quietly tr_ack"
| "tr_step client parse o' (InCall c) = do_call (emit_tr client) c"

inductive tr_run :: "client \<Rightarrow> (string \<Rightarrow> irc_msg option) \<Rightarrow> client_opts \<Rightarrow> transport \<Rightarrow> bool"
  for client parse o' where
  tr_run_new: "tr_run client parse o' (new_transport o' h)"
| tr_run_step: "tr_run client parse o' st \<Longrightarrow> tr_enabled i st \<Longrightarrow> tr_run client parse o' (fst (tr_step client parse o' i st))"

end
