(* ===== verification/Transport_Laws.thy ===== *)
theory Transport_Laws imports Engine_Transport begin

text \<open>
  What holds of the transport of \<open>Engine_Transport\<close> whatever its client does from inside the events it is told: how
  deep events nest, what is still sent after the end, that lines come once and in order through a restore, and
  that a restore ends.  The events of an emission are followed through by relations every step keeps.
\<close>

section \<open>Emissions nest at most two deep\<close>

lemma tr_note_simps [simp]:
  "tr_log (tr_note a st) = tr_log st @ [a]" "tr_restoring (tr_note a st) = tr_restoring st"
  "tr_ended (tr_note a st) = tr_ended st" "tr_connected (tr_note a st) = tr_connected st"
  "tr_pending (tr_note a st) = tr_pending st" "tr_deliveringSeq (tr_note a st) = tr_deliveringSeq st"
  "tr_detachedByApp (tr_note a st) = tr_detachedByApp st" "tr_lostToPeer (tr_note a st) = tr_lostToPeer st"
  "tr_closeSent (tr_note a st) = tr_closeSent st" "tr_id (tr_note a st) = tr_id st"
  "tr_ackSeq (tr_note a st) = tr_ackSeq st" "tr_ackQueued (tr_note a st) = tr_ackQueued st"
  "tr_waiting (tr_note a st) = tr_waiting st" "tr_swallowed (tr_note a st) = tr_swallowed st"
  "tr_backlog (tr_note a st) = tr_backlog st"
  by (simp_all add: tr_note_def)

lemma tr_finish_simps [simp]:
  "tr_restoring (finish st) = False" "tr_ended (finish st) = True" "tr_connected (finish st) = False"
  "tr_pending (finish st) = []" "tr_log (finish st) = tr_log st @ [Did (OpUnregister (tr_id st) (Some (tr_handle st)))]"
  "tr_deliveringSeq (finish st) = tr_deliveringSeq st" "tr_detachedByApp (finish st) = tr_detachedByApp st"
  "tr_lostToPeer (finish st) = tr_lostToPeer st" "tr_closeSent (finish st) = tr_closeSent st"
  "tr_ackQueued (finish st) = tr_ackQueued st" "tr_ackSeq (finish st) = tr_ackSeq st"
  by (simp_all add: finish_def tr_note_def)

definition tr_rank :: "transport \<Rightarrow> nat" where
  "tr_rank st = (if tr_restoring st then 1 else 0) + (if tr_ended st then 0 else 1)"

text \<open>From a state of low rank nothing is cut, and the rank does not rise.\<close>

definition uncut :: "nat \<Rightarrow> step \<Rightarrow> bool" where
  "uncut k f \<longleftrightarrow> (\<forall>st. tr_rank st < k \<and> Cut \<notin> set (tr_log st) \<longrightarrow> tr_rank (fst (f st)) \<le> tr_rank st \<and> Cut \<notin> set (tr_log (fst (f st))))"

lemma uncutD: "uncut k f \<Longrightarrow> tr_rank st < k \<Longrightarrow> Cut \<notin> set (tr_log st) \<Longrightarrow> tr_rank (fst (f st)) \<le> tr_rank st \<and> Cut \<notin> set (tr_log (fst (f st)))"
  by (simp add: uncut_def)

lemma uncut_then: "uncut k f \<Longrightarrow> uncut k g \<Longrightarrow> uncut k (then_step f g)"
  unfolding uncut_def then_step_def by (auto simp: split_beta Let_def) (meson le_trans order.strict_trans1)+

lemma uncut_steps: "\<forall>f \<in> set fs. uncut k f \<Longrightarrow> uncut k (steps fs)"
  by (induction fs) (simp_all add: uncut_then, simp add: uncut_def quietly_def)

lemma tr_rank_eq: "tr_restoring st' = tr_restoring st \<Longrightarrow> tr_ended st' = tr_ended st \<Longrightarrow> tr_rank st' = tr_rank st"
  by (simp add: tr_rank_def)

lemma uncut_end:
  assumes "\<forall>ev. uncut k (em ev)" "0 < k" "Cut \<notin> set (tr_log st)"
  shows "tr_rank (fst (tr_end em err st)) = 0 \<and> Cut \<notin> set (tr_log (fst (tr_end em err st)))"
proof -
  have "tr_rank (finish st) = 0" "Cut \<notin> set (tr_log (finish st))" using assms(3) by (simp_all add: tr_rank_def)
  then show ?thesis using uncutD [of k "em (EvClose err)" "finish st"] assms(1,2) by (simp add: tr_end_def)
qed

lemma uncut_handle_live:
  assumes em: "\<forall>ev. uncut k (em ev)"
  shows "uncut k (handle_live em f)"
proof -
  have d: "uncut k (tr_deliver em s line)" for s line
    unfolding uncut_def
  proof (intro allI impI)
    fix st assume h: "tr_rank st < k \<and> Cut \<notin> set (tr_log st)"
    let ?st = "st\<lparr>tr_backlog := map_option Suc (tr_backlog st), tr_deliveringSeq := Some s\<rparr>"
    have "tr_rank ?st = tr_rank st" by (rule tr_rank_eq) simp_all
    then have "tr_rank (fst (em (EvLine line) ?st)) \<le> tr_rank st" "Cut \<notin> set (tr_log (fst (em (EvLine line) ?st)))"
      using uncutD [of k "em (EvLine line)" ?st] em h by auto
    moreover have "tr_rank (fst (tr_deliver em s line st)) = tr_rank (fst (em (EvLine line) ?st))"
      "tr_log (fst (tr_deliver em s line st)) = tr_log (fst (em (EvLine line) ?st))"
      by (simp_all add: tr_deliver_def split_beta Let_def tr_rank_def)
    ultimately show "tr_rank (fst (tr_deliver em s line st)) \<le> tr_rank st \<and> Cut \<notin> set (tr_log (fst (tr_deliver em s line st)))"
      by simp
  qed
  have l: "tr_rank (st\<lparr>tr_backlog := None\<rparr>) = tr_rank st" "tr_rank (st\<lparr>tr_pending := q\<rparr>) = tr_rank st" for st q
    by (simp_all add: tr_rank_def)
  show ?thesis
    unfolding uncut_def
  proof (intro allI impI)
    fix st assume h: "tr_rank st < k \<and> Cut \<notin> set (tr_log st)"
    let ?b = "st\<lparr>tr_backlog := None\<rparr>"
    have "tr_rank (fst (em ev ?b)) \<le> tr_rank st \<and> Cut \<notin> set (tr_log (fst (em ev ?b)))"
      "tr_rank (fst (em ev st)) \<le> tr_rank st \<and> Cut \<notin> set (tr_log (fst (em ev st)))" for ev
      using uncutD [of k "em ev" ?b] uncutD [of k "em ev" st] em h l by auto
    then show "tr_rank (fst (handle_live em f st)) \<le> tr_rank st \<and> Cut \<notin> set (tr_log (fst (handle_live em f st)))"
      using d uncutD [OF d] h by (auto simp: handle_live_def l split: engine_frame.splits)
  qed
qed

lemma uncut_call:
  assumes em: "\<forall>ev. uncut k (em ev)" and st: "tr_rank st \<le> k" "Cut \<notin> set (tr_log st)" and k: "0 < k \<or> tr_rank st = 0"
  shows "tr_rank (fst (do_call em c st)) \<le> tr_rank st \<and> Cut \<notin> set (tr_log (fst (do_call em c st)))"
proof (cases c)
  case (CallWrite line)
  show ?thesis
  proof (cases "tr_restoring st \<and> is_mark_pong line")
    case True
    let ?st = "st\<lparr>tr_restoring := False\<rparr>"
    have r: "tr_rank ?st < k" "Cut \<notin> set (tr_log ?st)" using True st k by (auto simp: tr_rank_def)
    have g: "uncut k (\<lambda>st. steps (map (handle_live em) (tr_pending st)) (st\<lparr>tr_pending := []\<rparr>))"
      unfolding uncut_def
    proof (intro allI impI)
      fix s assume h: "tr_rank s < k \<and> Cut \<notin> set (tr_log s)"
      have "uncut k (steps (map (handle_live em) (tr_pending s)))" using uncut_handle_live [OF em] by (intro uncut_steps) simp
      from uncutD [OF this, of "s\<lparr>tr_pending := []\<rparr>"] h
      show "tr_rank (fst (steps (map (handle_live em) (tr_pending s)) (s\<lparr>tr_pending := []\<rparr>))) \<le> tr_rank s \<and>
          Cut \<notin> set (tr_log (fst (steps (map (handle_live em) (tr_pending s)) (s\<lparr>tr_pending := []\<rparr>))))"
        by (simp add: tr_rank_def)
    qed
    have "uncut k (then_step (em (EvPhase (PhRestored (tr_swallowed st)))) (\<lambda>st. steps (map (handle_live em) (tr_pending st)) (st\<lparr>tr_pending := []\<rparr>)))"
      using em g by (intro uncut_then) simp_all
    from uncutD [OF this r] True show ?thesis
      by (auto simp: CallWrite writeLine_def finishRestore_def tr_rank_def)
  next
    case False
    then show ?thesis using st by (auto simp: CallWrite writeLine_def tr_rank_def)
  qed
next
  case CallClose
  show ?thesis
  proof (cases "tr_ended st \<or> tr_detachedByApp st \<or> tr_lostToPeer st \<or> tr_closeSent st")
    case True
    then show ?thesis using st by (auto simp: CallClose tr_close_def Let_def tr_rank_def)
  next
    case False
    then have "0 < k" using k by (auto simp: tr_rank_def)
    with False st show ?thesis
      using uncut_end [OF em, of "tr_note (Did (OpRequestClose (tr_id st))) (st\<lparr>tr_requested_disconnect := True, tr_closeSent := True\<rparr>)" CleanClose]
      by (simp add: CallClose tr_close_def Let_def)
  qed
next
  case CallDetach
  show ?thesis
  proof (cases "tr_detachedByApp st \<or> tr_ended st")
    case False
    then have "0 < k" using k by (auto simp: tr_rank_def)
    then show ?thesis
      using uncut_end [OF em, of "tr_note (Did (OpNoteDetached (tr_id st))) (tr_note (Did (OpSend (ADetach (tr_id st))))
        (st\<lparr>tr_detachedByApp := True, tr_requested_disconnect := True\<rparr>))"] False st(2)
      by (simp add: CallDetach tr_detach_def)
  qed (use st in \<open>auto simp: CallDetach tr_detach_def\<close>)
next
  case CallDispose
  then show ?thesis using st by (auto simp: quietly_def disposeSocket_def tr_rank_def)
qed

lemma uncut_calls:
  assumes "\<forall>ev. uncut k (em ev)"
  shows "uncut (Suc k) (steps (map (do_call em) cs))"
proof (rule uncut_steps, intro ballI)
  fix f assume "f \<in> set (map (do_call em) cs)"
  then obtain c where f: "f = do_call em c" by auto
  show "uncut (Suc k) f"
    unfolding uncut_def f using uncut_call [OF assms] by (metis gr0I le_zero_eq less_Suc_eq_le)
qed

lemma uncut_emit: "uncut k (emit_within k client ev)"
proof (induction k arbitrary: ev)
  case 0
  show ?case by (simp add: uncut_def)
next
  case (Suc k)
  have "uncut (Suc k) (\<lambda>st. emit_within (Suc k) client ev st)"
    unfolding uncut_def
  proof (intro allI impI)
    fix st assume h: "tr_rank st < Suc k \<and> Cut \<notin> set (tr_log st)"
    let ?st1 = "tr_note (Told ev (tr_deliveringSeq st)) st"
    obtain calls throws where c: "client ev ?st1 = (calls, throws)" by (cases "client ev ?st1")
    have r: "tr_rank ?st1 = tr_rank st" by (rule tr_rank_eq) simp_all
    have "uncut (Suc k) (then_step (steps (map (do_call (emit_within k client)) calls)) (\<lambda>st. (st, throws)))"
      using Suc.IH by (intro uncut_then uncut_calls) (simp_all add: uncut_def)
    from uncutD [OF this, of ?st1] h r
    show "tr_rank (fst (emit_within (Suc k) client ev st)) \<le> tr_rank st \<and> Cut \<notin> set (tr_log (fst (emit_within (Suc k) client ev st)))"
      by (simp add: c)
  qed
  then show ?case .
qed

lemma tr_rank_lt: "tr_rank st < 3"
  by (simp add: tr_rank_def)

lemma emission_bound: "Cut \<notin> set (tr_log st) \<Longrightarrow> Cut \<notin> set (tr_log (fst (emit_tr client ev st)))"
  using uncutD [OF uncut_emit [of 3 client ev] tr_rank_lt] by blast

definition keeps :: "(transport \<Rightarrow> bool) \<Rightarrow> step \<Rightarrow> bool" where
  "keeps P f \<longleftrightarrow> (\<forall>st. P st \<longrightarrow> P (fst (f st)))"

lemma keepsD: "keeps P f \<Longrightarrow> P st \<Longrightarrow> P (fst (f st))"
  by (simp add: keeps_def)

lemma keeps_then: "keeps P f \<Longrightarrow> keeps P g \<Longrightarrow> keeps P (then_step f g)"
  by (simp add: keeps_def then_step_def split_beta Let_def)

lemma keeps_steps: "\<forall>f \<in> set fs. keeps P f \<Longrightarrow> keeps P (steps fs)"
  by (induction fs) (simp_all add: keeps_then, simp add: keeps_def quietly_def)

text \<open>So no run is ever cut short.\<close>

definition uncut_log :: "transport \<Rightarrow> bool" where
  "uncut_log st \<longleftrightarrow> Cut \<notin> set (tr_log st)"

lemma uncut_emits: "keeps uncut_log (emit_tr client ev)"
  using emission_bound by (simp add: keeps_def uncut_log_def del: emit_within.simps)

lemma uncut_finish: "uncut_log st \<Longrightarrow> uncut_log (fst (tr_end (emit_tr client) err st))"
  using uncut_end [of 3 "emit_tr client" st err] uncut_emit [of 3 client] by (simp add: uncut_log_def del: emit_within.simps)

lemma uncut_cong: "uncut_log st \<Longrightarrow> set (tr_log st') \<subseteq> insert a (set (tr_log st)) \<Longrightarrow> a \<noteq> Cut \<Longrightarrow> uncut_log st'"
  by (auto simp: uncut_log_def)

lemma uncut_lives: "keeps uncut_log (handle_live (emit_tr client) f)"
  using uncutD [OF uncut_handle_live [of 3 "emit_tr client" f] tr_rank_lt] uncut_emit [of 3 client]
  by (simp add: keeps_def uncut_log_def del: emit_within.simps)

lemma uncut_restore: "uncut_log st \<Longrightarrow> uncut_log (fst (restore client parse p st))"
proof -
  assume st: "uncut_log st"
  have sh: "keeps uncut_log (restore_shows client parse (ap_replay p))"
    unfolding restore_shows_def by (rule keeps_steps) (auto simp del: emit_within.simps intro: uncut_emits)
  have 3: "keeps uncut_log (\<lambda>st. let (st2, threw) = restore_shows client parse (ap_replay p) st in
               if \<not> threw then (st2, False)
               else tr_end (emit_tr client) (PlainError ''restore failed'')
                      ((tr_note (Did (OpRequestClose (tr_id st2))) st2)\<lparr>tr_closeSent := True\<rparr>))"
    unfolding keeps_def
  proof (intro allI impI)
    fix s assume "uncut_log s"
    then have q: "uncut_log (fst (restore_shows client parse (ap_replay p) s))" by (rule keepsD [OF sh])
    let ?s2 = "fst (restore_shows client parse (ap_replay p) s)"
    have "uncut_log ((tr_note (Did (OpRequestClose (tr_id ?s2))) ?s2)\<lparr>tr_closeSent := True\<rparr>)"
      using q by (simp add: uncut_log_def)
    with q uncut_finish show "uncut_log (fst (let (st2, threw) = restore_shows client parse (ap_replay p) s in
               if \<not> threw then (st2, False)
               else tr_end (emit_tr client) (PlainError ''restore failed'')
                      ((tr_note (Did (OpRequestClose (tr_id st2))) st2)\<lparr>tr_closeSent := True\<rparr>)))"
      by (simp add: split_beta Let_def del: emit_within.simps)
  qed
  have "uncut_log (st\<lparr>tr_connected := True, tr_restoring := True, tr_swallowed := [], tr_backlog := Some 0, tr_socket := k\<rparr>)" for k
    using st by (simp add: uncut_log_def)
  from keepsD [OF keeps_then [OF uncut_emits keeps_then [OF uncut_emits 3]] this] show ?thesis
    unfolding restore_def Let_def by simp
qed

lemma uncut_go: "uncut_log st \<Longrightarrow> uncut_log (fst (connect_go client o' link st))"
  using uncut_finish [of st client] by (simp add: connect_go_def uncut_log_def del: emit_within.simps)

lemma uncut_connect: "uncut_log st \<Longrightarrow> uncut_log (fst (tr_connect client o' link st))"
  using uncut_go [of "tr_register (tr_note Restarted (st\<lparr>tr_ended := False, tr_requested_disconnect := False, tr_detachedByApp := False\<rparr>))"]
  by (simp add: tr_connect_def Let_def uncut_log_def tr_register_def)

lemma uncut_onFrame: "uncut_log st \<Longrightarrow> uncut_log (fst (tr_onFrame client parse f st))"
proof -
  assume st: "uncut_log st"
  note emit = keepsD [OF uncut_emits] and live = keepsD [OF uncut_lives]
  have c: "uncut_log (st\<lparr>tr_replyTimer := False\<rparr>)" "uncut_log (st\<lparr>tr_lostToPeer := True\<rparr>)"
    "uncut_log (st\<lparr>tr_replyTimer := False, tr_connected := True, tr_socket := k\<rparr>)" "uncut_log (tr_note (Received s line) st)" for k s line
    using st by (simp_all add: uncut_log_def)
  note two = keepsD [OF keeps_then [OF uncut_emits uncut_emits] c(3)]
  show ?thesis
    using st c emit live two uncut_finish uncut_restore
    by (simp add: tr_onFrame_def del: emit_within.simps split: engine_frame.splits option.splits)
qed

lemma uncut_step: "uncut_log st \<Longrightarrow> uncut_log (fst (tr_step client parse o' i st))"
proof -
  assume st: "uncut_log st"
  have c: "uncut_log (st\<lparr>tr_waiting := n\<rparr>)" "uncut_log (tr_register (st\<lparr>tr_waiting := n\<rparr>))" "uncut_log (st\<lparr>tr_replyTimer := False\<rparr>)"
    "uncut_log (st\<lparr>tr_connected := False, tr_restoring := False, tr_pending := []\<rparr>)"
    "uncut_log (st\<lparr>tr_connected := False, tr_restoring := False, tr_pending := [], tr_replyTimer := False\<rparr>)" "uncut_log (tr_ack st)" for n
    using st by (simp_all add: uncut_log_def tr_register_def tr_ack_def Let_def)
  have call: "uncut_log (fst (do_call (emit_tr client) x st))" for x
    using uncut_call [of 3 "emit_tr client" st x] uncut_emit [of 3 client] tr_rank_lt [of st] st
    by (simp add: uncut_log_def less_imp_le del: emit_within.simps do_call.simps)
  show ?thesis
    using st c uncut_connect [OF st] uncut_connect [OF c(5)] uncut_finish [OF c(1)] uncut_finish [OF c(3)] uncut_finish [OF c(4)]
      uncut_go [OF c(2)] uncut_onFrame [OF st] call
    by (cases i) (auto simp: tr_answered_def tr_reply_timeout_def tr_onLost_def quietly_def Let_def
        simp del: emit_within.simps do_call.simps split: ready_answer.splits)
qed

text \<open>C24: Whatever the client does from inside what it is told, including closing, detaching or answering the
  made-up PING in the middle of a restore, the transport's events nest at most three deep: the bound of the
  model is never reached.\<close>

theorem reentrance_is_bounded:
  assumes "tr_run client parse o' st"
  shows "Cut \<notin> set (tr_log st)"
proof -
  have "uncut_log st" using assms
  proof (induction rule: tr_run.induct)
    case (tr_run_new h)
    show ?case by (simp add: uncut_log_def new_transport_def)
  qed (rule uncut_step)
  then show ?thesis by (simp add: uncut_log_def)
qed

section \<open>After the end\<close>

text \<open>Over: the client has been told of the close since the transport was last connected.  Kept: since then the
  session was left to the engine, or has been taken over.\<close>

fun over_by :: "tr_act \<Rightarrow> bool \<Rightarrow> bool" where
  "over_by (Told (EvClose _) _) b = True"
| "over_by Restarted b = False"
| "over_by _ b = b"

fun kept_by :: "tr_act \<Rightarrow> bool \<Rightarrow> bool" where
  "kept_by (Did (OpSend (ADetach _))) b = True"
| "kept_by (Told (EvClose (EngineCloseError CloseTakenOver _)) _) b = True"
| "kept_by Restarted b = False"
| "kept_by _ b = b"

definition tr_over :: "tr_act list \<Rightarrow> bool" where
  "tr_over tr = fold over_by tr False"

definition tr_kept :: "tr_act list \<Rightarrow> bool" where
  "tr_kept tr = fold kept_by tr False"

lemma tr_over_simps [simp]: "tr_over [] = False" "tr_over (tr @ as) = fold over_by as (tr_over tr)"
  by (simp_all add: tr_over_def)

lemma tr_kept_simps [simp]: "tr_kept [] = False" "tr_kept (tr @ as) = fold kept_by as (tr_kept tr)"
  by (simp_all add: tr_kept_def)

fun quiet_act :: "bool \<Rightarrow> tr_act list \<Rightarrow> tr_act \<Rightarrow> bool" where
  "quiet_act calm before (Did (OpSend _)) = (\<not> tr_over before)"
| "quiet_act calm before (Did (OpRequestClose _)) = (calm \<longrightarrow> \<not> tr_kept before)"
| "quiet_act calm before _ = True"

definition tr_quiet :: "bool \<Rightarrow> transport \<Rightarrow> bool" where
  "tr_quiet calm st \<longleftrightarrow>
     (tr_over (tr_log st) \<longrightarrow> tr_ended st \<and> \<not> tr_connected st \<and> \<not> tr_restoring st) \<and>
     (tr_kept (tr_log st) \<longrightarrow> tr_detachedByApp st \<or> tr_lostToPeer st) \<and> along (quiet_act calm) (tr_log st)"

definition tells_of :: "tr_event \<Rightarrow> transport \<Rightarrow> bool" where
  "tells_of ev st \<longleftrightarrow>
     (case ev of
        EvClose e \<Rightarrow> tr_ended st \<and> \<not> tr_connected st \<and> \<not> tr_restoring st \<and>
          (\<forall>m. e = EngineCloseError CloseTakenOver m \<longrightarrow> tr_lostToPeer st)
      | _ \<Rightarrow> True)"

definition quiet_emitter :: "bool \<Rightarrow> emitter \<Rightarrow> bool" where
  "quiet_emitter calm em \<longleftrightarrow> (\<forall>ev st. tr_quiet calm st \<and> tells_of ev st \<longrightarrow> tr_quiet calm (fst (em ev st)))"

lemma quiet_emitterD: "quiet_emitter calm em \<Longrightarrow> tr_quiet calm st \<Longrightarrow> tells_of ev st \<Longrightarrow> tr_quiet calm (fst (em ev st))"
  by (simp add: quiet_emitter_def)

lemma tells_simps [simp]:
  "tells_of EvOpen st" "tells_of (EvRaw a b) st" "tells_of (EvLine l) st" "tells_of (EvPhase p) st"
  by (simp_all add: tells_of_def)

lemma tr_quiet_cong:
  "tr_quiet calm st \<Longrightarrow> tr_log st' = tr_log st \<Longrightarrow> tr_ended st' = tr_ended st \<Longrightarrow> tr_connected st' = tr_connected st \<Longrightarrow>
     (tr_restoring st' \<longrightarrow> tr_restoring st) \<Longrightarrow> tr_detachedByApp st' = tr_detachedByApp st \<Longrightarrow> tr_lostToPeer st' = tr_lostToPeer st \<Longrightarrow>
     tr_quiet calm st'"
  by (auto simp: tr_quiet_def)

lemma quiet_end:
  assumes "quiet_emitter calm em" "tr_quiet calm st" "\<And>m. err = EngineCloseError CloseTakenOver m \<Longrightarrow> tr_lostToPeer st"
  shows "tr_quiet calm (fst (tr_end em err st))"
  unfolding tr_end_def using assms(1)
proof (rule quiet_emitterD)
  show "tr_quiet calm (finish st)" using assms(2) by (simp add: tr_quiet_def)
  show "tells_of (EvClose err) (finish st)" using assms(3) by (simp add: tells_of_def)
qed

lemma quiet_handle_live:
  assumes "quiet_emitter calm em"
  shows "keeps (tr_quiet calm) (handle_live em f)"
  unfolding keeps_def
proof (intro allI impI)
  fix st assume q: "tr_quiet calm st"
  have d: "tr_quiet calm (fst (tr_deliver em s line st))" for s line
  proof -
    let ?st = "st\<lparr>tr_backlog := map_option Suc (tr_backlog st), tr_deliveringSeq := Some s\<rparr>"
    have "tr_quiet calm ?st" by (rule tr_quiet_cong [OF q]) simp_all
    then have "tr_quiet calm (fst (em (EvLine line) ?st))" by (rule quiet_emitterD [OF assms]) simp
    then show ?thesis
      by (rule tr_quiet_cong) (simp_all add: tr_deliver_def split_beta Let_def)
  qed
  have "tr_quiet calm (st\<lparr>tr_backlog := None\<rparr>)" "tr_quiet calm (st\<lparr>tr_pending := tr_pending st @ [f]\<rparr>)"
    by (rule tr_quiet_cong [OF q], simp_all)+
  with d q show "tr_quiet calm (fst (handle_live em f st))"
    using quiet_emitterD [OF assms, of "st\<lparr>tr_backlog := None\<rparr>"] quiet_emitterD [OF assms, of st]
    by (simp add: handle_live_def split: engine_frame.splits)
qed

lemma quiet_finishRestore:
  assumes em: "quiet_emitter calm em" and q: "tr_quiet calm st"
  shows "tr_quiet calm (fst (finishRestore em st))"
proof -
  have g: "keeps (tr_quiet calm) (\<lambda>st. steps (map (handle_live em) (tr_pending st)) (st\<lparr>tr_pending := []\<rparr>))"
    unfolding keeps_def
  proof (intro allI impI)
    fix s assume "tr_quiet calm s"
    then have "tr_quiet calm (s\<lparr>tr_pending := []\<rparr>)" by (rule tr_quiet_cong) simp_all
    moreover have "keeps (tr_quiet calm) (steps (map (handle_live em) (tr_pending s)))"
      using quiet_handle_live [OF em] by (intro keeps_steps) simp
    ultimately show "tr_quiet calm (fst (steps (map (handle_live em) (tr_pending s)) (s\<lparr>tr_pending := []\<rparr>)))"
      using keepsD by blast
  qed
  have f: "keeps (tr_quiet calm) (em (EvPhase (PhRestored (tr_swallowed st))))"
    using quiet_emitterD [OF em] by (simp add: keeps_def)
  have "tr_quiet calm (st\<lparr>tr_restoring := False\<rparr>)" by (rule tr_quiet_cong [OF q]) simp_all
  from keepsD [OF keeps_then [OF f g] this] show ?thesis unfolding finishRestore_def .
qed

lemma quiet_call:
  assumes em: "quiet_emitter calm em"
  shows "keeps (tr_quiet calm) (do_call em c)"
  unfolding keeps_def
proof (intro allI impI)
  fix st assume q: "tr_quiet calm st"
  show "tr_quiet calm (fst (do_call em c st))"
  proof (cases c)
    case (CallWrite line)
    then show ?thesis using q quiet_finishRestore [OF em q] by (auto simp: writeLine_def tr_quiet_def)
  next
    case CallClose
    let ?st = "st\<lparr>tr_requested_disconnect := True\<rparr>"
    let ?st2 = "tr_note (Did (OpRequestClose (tr_id st))) (?st\<lparr>tr_closeSent := True\<rparr>)"
    have "tr_quiet calm ?st2" if "\<not> tr_detachedByApp st" "\<not> tr_lostToPeer st"
      using q that by (auto simp: tr_quiet_def)
    moreover have "tr_quiet calm ?st" by (rule tr_quiet_cong [OF q]) simp_all
    ultimately show ?thesis
      using quiet_end [OF em, of ?st2 CleanClose] by (simp add: CallClose tr_close_def Let_def)
  next
    case CallDetach
    have "tr_quiet calm (tr_note (Did (OpNoteDetached (tr_id st))) (tr_note (Did (OpSend (ADetach (tr_id st))))
        (st\<lparr>tr_detachedByApp := True, tr_requested_disconnect := True\<rparr>)))" if "\<not> tr_ended st"
      using q that by (auto simp: tr_quiet_def)
    from quiet_end [OF em this, of "EngineCloseError CloseDetached ''detached; the engine keeps the socket''"] q
    show ?thesis by (simp add: CallDetach tr_detach_def)
  next
    case CallDispose
    then show ?thesis using q by (auto simp: quietly_def disposeSocket_def tr_quiet_def)
  qed
qed

lemma quiet_told:
  assumes "tr_quiet c st" "tells_of ev st"
  shows "tr_quiet c (tr_note (Told ev s) st)"
proof (cases ev)
  case (EvClose e)
  then show ?thesis using assms
    by (cases e; cases "(case e of EngineCloseError x m \<Rightarrow> x | _ \<Rightarrow> CloseDetached)") (auto simp: tr_quiet_def tells_of_def)
qed (use assms in \<open>simp_all add: tr_quiet_def\<close>)

lemma quiet_emit: "quiet_emitter c (emit_within k client)"
proof (induction k)
  case 0
  have "tr_quiet c (tr_note Cut st)" if "tr_quiet c st" for st using that by (simp add: tr_quiet_def)
  then show ?case using quiet_told by (simp add: quiet_emitter_def)
next
  case (Suc k)
  show ?case
    unfolding quiet_emitter_def
  proof (intro allI impI)
    fix ev st assume h: "tr_quiet c st \<and> tells_of ev st"
    let ?st1 = "tr_note (Told ev (tr_deliveringSeq st)) st"
    obtain calls throws where cl: "client ev ?st1 = (calls, throws)" by (cases "client ev ?st1")
    have "keeps (tr_quiet c) (then_step (steps (map (do_call (emit_within k client)) calls)) (\<lambda>st. (st, throws)))"
      using quiet_call [OF Suc.IH] by (intro keeps_then keeps_steps) (simp_all add: keeps_def)
    from keepsD [OF this quiet_told] h show "tr_quiet c (fst (emit_within (Suc k) client ev st))" by (simp add: cl)
  qed
qed

text \<open>A client that lets no exception out leaves none.\<close>

definition calm :: "client \<Rightarrow> bool" where
  "calm client \<longleftrightarrow> (\<forall>ev st. \<not> snd (client ev st))"

definition never :: "step \<Rightarrow> bool" where
  "never f \<longleftrightarrow> (\<forall>st. \<not> snd (f st))"

lemma never_then: "never f \<Longrightarrow> never g \<Longrightarrow> never (then_step f g)"
  by (simp add: never_def then_step_def split_beta Let_def)

lemma never_steps: "\<forall>f \<in> set fs. never f \<Longrightarrow> never (steps fs)"
  by (induction fs) (simp_all add: never_then, simp add: never_def quietly_def)

lemma never_handle_live: "\<forall>ev. never (em ev) \<Longrightarrow> never (handle_live em f)"
  by (auto simp: never_def handle_live_def tr_deliver_def split_beta Let_def split: engine_frame.splits)

lemma never_finishRestore:
  assumes "\<forall>ev. never (em ev)"
  shows "never (finishRestore em)"
proof -
  have "never (steps (map (handle_live em) q))" for q using never_handle_live [OF assms] by (intro never_steps) simp
  then show ?thesis using assms by (simp add: never_def finishRestore_def then_step_def split_beta Let_def)
qed

lemma never_call: "\<forall>ev. never (em ev) \<Longrightarrow> never (do_call em c)"
  using never_finishRestore [of em]
  by (cases c) (auto simp: never_def quietly_def writeLine_def tr_close_def tr_end_def tr_detach_def Let_def)

lemma never_emit:
  assumes "calm client"
  shows "never (emit_within k client ev)"
proof (induction k arbitrary: ev)
  case (Suc k)
  have "never (steps (map (do_call (emit_within k client)) cs))" for cs
    using never_call [of "emit_within k client"] Suc.IH by (intro never_steps) simp
  then show ?case using assms
    by (simp add: never_def calm_def then_step_def split_beta Let_def)
qed (simp add: never_def)

lemma never_shows: "calm client \<Longrightarrow> never (restore_shows client parse replay)"
  unfolding restore_shows_def by (rule never_steps) (auto simp del: emit_within.simps intro: never_emit)

text \<open>Every step of a transport.\<close>

lemma quiet_emits: "\<not> (\<exists>e. ev = EvClose e) \<Longrightarrow> keeps (tr_quiet c) (emit_tr client ev)"
  using quiet_emitterD [OF quiet_emit [of c 3 client]] unfolding keeps_def by (cases ev) (simp_all del: emit_within.simps)

lemma quiet_tr_end:
  "tr_quiet c st \<Longrightarrow> (\<forall>m. err = EngineCloseError CloseTakenOver m \<longrightarrow> tr_lostToPeer st) \<Longrightarrow>
     tr_quiet c (fst (tr_end (emit_within k client) err st))"
  using quiet_end [OF quiet_emit] by blast

lemma quiet_restore:
  assumes "tr_quiet (calm client) st" "\<not> tr_ended st"
  shows "tr_quiet (calm client) (fst (restore client parse p st))"
proof -
  let ?sock = "if ap_socket p = [] then None else Some (ap_socket p)"
  let ?f1 = "emit_tr client (EvPhase (PhAttached (ap_detachedForMs p) (ap_nick p) (ap_channels p) (length (ap_replay p)) (ap_unattended p) ?sock))"
  let ?f2 = "emit_tr client (EvRaw (ap_local p) (ap_remote p))"
  let ?f3 = "\<lambda>st. let (st2, threw) = restore_shows client parse (ap_replay p) st in
               if \<not> threw then (st2, False)
               else tr_end (emit_tr client) (PlainError ''restore failed'')
                      ((tr_note (Did (OpRequestClose (tr_id st2))) st2)\<lparr>tr_closeSent := True\<rparr>)"
  have sh: "keeps (tr_quiet (calm client)) (restore_shows client parse (ap_replay p))"
    unfolding restore_shows_def by (rule keeps_steps) (auto simp del: emit_within.simps intro: quiet_emits)
  have 3: "keeps (tr_quiet (calm client)) ?f3"
    unfolding keeps_def
  proof (intro allI impI)
    fix s assume q: "tr_quiet (calm client) s"
    obtain s2 threw where s2: "restore_shows client parse (ap_replay p) s = (s2, threw)"
      by (cases "restore_shows client parse (ap_replay p) s")
    have q2: "tr_quiet (calm client) s2" using keepsD [OF sh q] s2 by simp
    have c: "threw \<Longrightarrow> \<not> calm client" using never_shows [of client parse "ap_replay p"] s2 by (metis never_def snd_conv)
    let ?s3 = "(tr_note (Did (OpRequestClose (tr_id s2))) s2)\<lparr>tr_closeSent := True\<rparr>"
    have "tr_quiet (calm client) (fst (tr_end (emit_tr client) (PlainError ''restore failed'') ?s3))" if "\<not> calm client"
      by (rule quiet_tr_end) (use q2 that in \<open>auto simp: tr_quiet_def\<close>)
    then show "tr_quiet (calm client) (fst (?f3 s))" using q2 c by (simp add: s2 del: emit_within.simps)
  qed
  have "tr_quiet (calm client) (st\<lparr>tr_connected := True, tr_restoring := True, tr_swallowed := [], tr_backlog := Some 0, tr_socket := ?sock\<rparr>)"
    using assms by (auto simp: tr_quiet_def)
  from keepsD [OF keeps_then [OF quiet_emits keeps_then [OF quiet_emits 3]] this] show ?thesis
    unfolding restore_def Let_def by simp
qed

lemma quiet_onFrame: "keeps (tr_quiet (calm client)) (tr_onFrame client parse f)"
  unfolding keeps_def
proof (intro allI impI)
  fix st assume q: "tr_quiet (calm client) st"
  note cong = tr_quiet_cong [OF q]
  have t: "tr_quiet (calm client) (st\<lparr>tr_replyTimer := False\<rparr>)" by (rule cong) simp_all
  show "tr_quiet (calm client) (fst (tr_onFrame client parse f st))"
  proof (cases "tr_ended st")
    case False
    have h: "tr_quiet (calm client) (fst (handle_live (emit_tr client) f s))" if "tr_quiet (calm client) s" for f s
      by (rule keepsD [OF quiet_handle_live [OF quiet_emit] that])
    show ?thesis
    proof (cases f)
      case (FOpen i local remote sock)
      have "tr_quiet (calm client) (st\<lparr>tr_replyTimer := False, tr_connected := True, tr_socket := s\<rparr>)" for s
        using q False by (auto simp: tr_quiet_def)
      from keepsD [OF keeps_then [OF quiet_emits quiet_emits] this] FOpen False show ?thesis
        by (simp add: tr_onFrame_def del: emit_within.simps)
    next
      case (FAttached i p)
      then show ?thesis using quiet_restore [OF t] False by (simp add: tr_onFrame_def del: emit_within.simps)
    next
      case (FDetached i)
      have "tr_quiet (calm client) (st\<lparr>tr_lostToPeer := True\<rparr>)" using q by (auto simp: tr_quiet_def)
      from quiet_tr_end [OF this] FDetached False show ?thesis by (simp add: tr_onFrame_def del: emit_within.simps)
    next
      case (FClosed i err)
      then show ?thesis using quiet_tr_end [OF q, of "case truthy err of None \<Rightarrow> CleanClose | Some e \<Rightarrow> PlainError e"] False
        by (simp add: tr_onFrame_def del: emit_within.simps split: option.splits)
    next
      case (FError i m)
      then show ?thesis using quiet_tr_end [OF q, of "PlainError m"] q False by (simp add: tr_onFrame_def del: emit_within.simps)
    next
      case (FDialing i)
      then show ?thesis using keepsD [OF quiet_emits t, of "EvPhase PhDialing"] False
        by (simp add: tr_onFrame_def del: emit_within.simps)
    next
      case (FLine i s line)
      have "tr_quiet (calm client) (tr_note (Received s line) st)" using q by (auto simp: tr_quiet_def)
      then show ?thesis using h FLine False by (simp add: tr_onFrame_def del: emit_within.simps)
    qed (use h [OF q] q False in \<open>simp_all add: tr_onFrame_def del: emit_within.simps\<close>)
  qed (use q in \<open>simp add: tr_onFrame_def\<close>)
qed

lemma quiet_go:
  assumes "tr_quiet c st" "\<not> tr_over (tr_log st)"
  shows "tr_quiet c (fst (connect_go client o' link st))"
proof -
  have "tr_quiet c ((tr_note (Did (OpSend (connect_request o'))) st)\<lparr>tr_replyTimer := True\<rparr>)"
    using assms by (auto simp: tr_quiet_def connect_request_def)
  then show ?thesis using quiet_tr_end [OF assms(1)] by (simp add: connect_go_def del: emit_within.simps)
qed

lemma quiet_connect:
  assumes "tr_quiet c st"
  shows "tr_quiet c (fst (tr_connect client o' link st))"
proof -
  let ?st = "tr_register (tr_note Restarted (st\<lparr>tr_ended := False, tr_requested_disconnect := False, tr_detachedByApp := False\<rparr>))"
  have st: "tr_quiet c ?st" "\<not> tr_over (tr_log ?st)" using assms by (auto simp: tr_quiet_def tr_register_def)
  moreover have "tr_quiet c (tr_note (Did OpStart) (?st\<lparr>tr_waiting := n\<rparr>))" for n
    using st(1) by (simp add: tr_quiet_def)
  ultimately show ?thesis using quiet_go [of c ?st client o' link] by (simp add: tr_connect_def Let_def)
qed

lemma quiet_step: "tr_quiet (calm client) st \<Longrightarrow> tr_quiet (calm client) (fst (tr_step client parse o' i st))"
proof -
  assume q: "tr_quiet (calm client) st"
  note cong = tr_quiet_cong [OF q]
  show ?thesis
  proof (cases i)
    case (InAnswer link r)
    let ?st = "st\<lparr>tr_waiting := tr_waiting st - 1\<rparr>"
    have w: "tr_quiet (calm client) ?st" by (rule cong) simp_all
    have g: "tr_quiet (calm client) (tr_register ?st)" "tr_over (tr_log (tr_register ?st)) = tr_over (tr_log st)"
      using q by (auto simp: tr_quiet_def tr_register_def)
    have "\<not> tr_over (tr_log st)" if "\<not> tr_ended st" using q that by (auto simp: tr_quiet_def)
    with w g show ?thesis using quiet_go [OF g(1)] quiet_tr_end [OF w]
      by (auto simp: InAnswer tr_answered_def Let_def simp del: emit_within.simps split: ready_answer.splits)
  next
    case InReplyTimeout
    have w: "tr_quiet (calm client) (st\<lparr>tr_replyTimer := False\<rparr>)" by (rule cong) simp_all
    then show ?thesis using quiet_tr_end [OF w]
      by (simp add: InReplyTimeout tr_reply_timeout_def Let_def del: emit_within.simps)
  next
    case (InLost link)
    let ?st = "st\<lparr>tr_connected := False, tr_restoring := False, tr_pending := []\<rparr>"
    have w: "tr_quiet (calm client) ?st" "tr_quiet (calm client) (?st\<lparr>tr_replyTimer := False\<rparr>)" using q by (auto simp: tr_quiet_def)
    then show ?thesis using quiet_tr_end [OF w(1)] quiet_connect [OF w(2)] q
      by (simp add: InLost tr_onLost_def Let_def del: emit_within.simps)
  next
    case InAck
    then show ?thesis using q by (auto simp: quietly_def tr_ack_def Let_def tr_quiet_def)
  qed (use quiet_connect [OF q] keepsD [OF quiet_onFrame q] keepsD [OF quiet_call [OF quiet_emit] q] in
    \<open>simp_all del: emit_within.simps do_call.simps\<close>)
qed

lemma run_quiet: "tr_run client parse o' st \<Longrightarrow> tr_quiet (calm client) st"
proof (induction rule: tr_run.induct)
  case (tr_run_new h)
  show ?case by (simp add: tr_quiet_def new_transport_def)
qed (rule quiet_step)

lemma over_stays: "b \<Longrightarrow> Restarted \<notin> set as \<Longrightarrow> fold over_by as b"
proof (induction as arbitrary: b)
  case (Cons a as)
  then have "over_by a b" by (cases "(a, b)" rule: over_by.cases) auto
  with Cons show ?case by simp
qed simp

lemma kept_stays: "b \<Longrightarrow> Restarted \<notin> set as \<Longrightarrow> fold kept_by as b"
proof (induction as arbitrary: b)
  case (Cons a as)
  then have "kept_by a b" by (cases "(a, b)" rule: kept_by.cases) auto
  with Cons show ?case by simp
qed simp

text \<open>Whatever the client does in answer to what it is told, a transport that has told it of the close sends
  nothing more to the engine, no line, acknowledgement or detach, before it is connected again.\<close>

theorem finished_transport_is_silent:
  assumes "tr_run client parse o' st"
    and "tr_log st = before @ Told (EvClose e) s # between @ Did (OpSend f) # after"
  shows "Restarted \<in> set between"
proof (rule ccontr)
  let ?tr = "before @ Told (EvClose e) s # between"
  assume "Restarted \<notin> set between"
  then have "tr_over ?tr" using over_stays [of True between] by simp
  moreover have "along (quiet_act (calm client)) (tr_log st)" using run_quiet [OF assms(1)] by (simp add: tr_quiet_def)
  then have "quiet_act (calm client) ?tr (Did (OpSend f))" by (rule alongD) (simp add: assms(2))
  ultimately show False by (simp del: tr_over_simps)
qed

text \<open>A session left to the engine with a detach, or taken over by a newer process, is not closed afterwards
  by this transport, whatever its client still asks of it, before it is connected again.\<close>

theorem left_session_is_not_closed:
  assumes "tr_run client parse o' st" "\<forall>ev st. \<not> snd (client ev st)"
    and "tr_log st = before @ x # between @ Did (OpRequestClose i) # after"
    and "x = Did (OpSend (ADetach j)) \<or> (\<exists>m s. x = Told (EvClose (EngineCloseError CloseTakenOver m)) s)"
  shows "Restarted \<in> set between"
proof (rule ccontr)
  let ?tr = "before @ x # between"
  assume "Restarted \<notin> set between"
  then have "tr_kept ?tr" using kept_stays [of True between] assms(4) by auto
  moreover have "along (quiet_act (calm client)) (tr_log st)" using run_quiet [OF assms(1)] by (simp add: tr_quiet_def)
  then have "quiet_act (calm client) ?tr (Did (OpRequestClose i))" by (rule alongD) (simp add: assms(3))
  ultimately show False using assms(2) by (simp add: calm_def del: tr_kept_simps)
qed

section \<open>Every line once, in order\<close>

text \<open>The lines that came in since the transport was last connected, those handed to the client, and the seq of the
  line handed over last.\<close>

fun received_by :: "tr_act \<Rightarrow> (nat \<times> string) list \<Rightarrow> (nat \<times> string) list" where
  "received_by (Received s line) xs = xs @ [(s, line)]"
| "received_by Restarted xs = []"
| "received_by _ xs = xs"

fun delivered_by :: "tr_act \<Rightarrow> (nat \<times> string) list \<Rightarrow> (nat \<times> string) list" where
  "delivered_by (Told (EvLine line) (Some s)) xs = xs @ [(s, line)]"
| "delivered_by Restarted xs = []"
| "delivered_by _ xs = xs"

fun told_by :: "tr_act \<Rightarrow> nat option \<Rightarrow> nat option" where
  "told_by (Told (EvLine line) (Some s)) x = Some s"
| "told_by _ x = x"

definition received :: "tr_act list \<Rightarrow> (nat \<times> string) list" where
  "received tr = fold received_by tr []"

definition delivered :: "tr_act list \<Rightarrow> (nat \<times> string) list" where
  "delivered tr = fold delivered_by tr []"

definition last_told :: "tr_act list \<Rightarrow> nat option" where
  "last_told tr = fold told_by tr None"

lemma history_simps [simp]:
  "received [] = []" "received (tr @ as) = fold received_by as (received tr)"
  "delivered [] = []" "delivered (tr @ as) = fold delivered_by as (delivered tr)"
  "last_told [] = None" "last_told (tr @ as) = fold told_by as (last_told tr)"
  by (simp_all add: received_def delivered_def last_told_def)

fun lines_of :: "engine_frame list \<Rightarrow> (nat \<times> string) list" where
  "lines_of [] = []"
| "lines_of (FLine i s line # fs) = (s, line) # lines_of fs"
| "lines_of (_ # fs) = lines_of fs"

lemma lines_of_append [simp]: "lines_of (fs @ gs) = lines_of fs @ lines_of gs"
  by (induction fs rule: lines_of.induct) simp_all

lemma lines_of_Cons: "lines_of (f # fs) = lines_of [f] @ lines_of fs"
  using lines_of_append [of "[f]" fs] by simp

fun ack_act :: "tr_act list \<Rightarrow> tr_act \<Rightarrow> bool" where
  "ack_act before (Did (OpSend (AAck i s))) = (last_told before = Some s)"
| "ack_act before _ = True"

text \<open>\<open>q\<close> are lines taken off the pending ones and not yet handed over.\<close>

definition lines_in_order :: "(nat \<times> string) list \<Rightarrow> transport \<Rightarrow> bool" where
  "lines_in_order q st \<longleftrightarrow>
     prefix (delivered (tr_log st)) (received (tr_log st)) \<and>
     (\<not> tr_ended st \<longrightarrow> received (tr_log st) = delivered (tr_log st) @ q @ lines_of (tr_pending st)) \<and>
     (tr_deliveringSeq st \<noteq> None \<longrightarrow> \<not> tr_restoring st) \<and>
     (tr_ackQueued st \<and> tr_deliveringSeq st = None \<longrightarrow> last_told (tr_log st) = Some (tr_ackSeq st)) \<and>
     along ack_act (tr_log st)"

definition moves_on :: "(nat \<times> string) list \<Rightarrow> transport \<Rightarrow> transport \<Rightarrow> bool" where
  "moves_on q st st' \<longleftrightarrow>
     lines_in_order q st' \<and> (tr_ended st \<longrightarrow> tr_ended st') \<and>
     (\<not> tr_restoring st \<longrightarrow> \<not> tr_restoring st' \<and> tr_deliveringSeq st' = tr_deliveringSeq st \<and>
        last_told (tr_log st') = last_told (tr_log st) \<and> (tr_pending st' = tr_pending st \<or> tr_pending st' = [])) \<and>
     (tr_restoring st \<and> \<not> tr_restoring st' \<and> \<not> tr_ended st' \<longrightarrow> tr_pending st' = []) \<and>
     (tr_deliveringSeq st = None \<longrightarrow> tr_deliveringSeq st' = None)"

definition fits :: "(nat \<times> string) list \<Rightarrow> transport \<Rightarrow> bool" where
  "fits q st \<longleftrightarrow> lines_in_order q st \<and> (q \<noteq> [] \<longrightarrow> \<not> tr_restoring st)"

lemma moves_on_refl: "lines_in_order q st \<Longrightarrow> moves_on q st st"
  by (auto simp: moves_on_def)

lemma moves_on_trans: "moves_on q a b \<Longrightarrow> moves_on q b c \<Longrightarrow> moves_on q a c"
  unfolding moves_on_def by (cases "tr_restoring b") auto

lemma moves_on_fits: "fits q st \<Longrightarrow> moves_on q st st' \<Longrightarrow> fits q st'"
  by (auto simp: fits_def moves_on_def)

definition orderly :: "(nat \<times> string) list \<Rightarrow> step \<Rightarrow> bool" where
  "orderly q f \<longleftrightarrow> (\<forall>st. fits q st \<longrightarrow> moves_on q st (fst (f st)))"

lemma orderlyD: "orderly q f \<Longrightarrow> fits q st \<Longrightarrow> moves_on q st (fst (f st))"
  by (simp add: orderly_def)

lemma orderly_then: "orderly q f \<Longrightarrow> orderly q g \<Longrightarrow> orderly q (then_step f g)"
  unfolding orderly_def then_step_def
  by (auto simp: split_beta Let_def intro: moves_on_trans moves_on_fits)

lemma orderly_steps: "\<forall>f \<in> set fs. orderly q f \<Longrightarrow> orderly q (steps fs)"
  by (induction fs) (simp_all add: orderly_then, simp add: orderly_def quietly_def fits_def moves_on_refl)

definition told :: "tr_event \<Rightarrow> transport \<Rightarrow> transport" where
  "told ev st = tr_note (Told ev (tr_deliveringSeq st)) st"

definition orderly_emitter :: "emitter \<Rightarrow> bool" where
  "orderly_emitter em \<longleftrightarrow> (\<forall>ev. never (em ev)) \<and> (\<forall>q ev st. fits q (told ev st) \<longrightarrow> moves_on q (told ev st) (fst (em ev st)))"

lemma orderly_emitterD: "orderly_emitter em \<Longrightarrow> fits q (told ev st) \<Longrightarrow> moves_on q (told ev st) (fst (em ev st))"
  by (simp add: orderly_emitter_def)

lemma told_plain:
  assumes "lines_in_order q st" "\<And>line. ev = EvLine line \<Longrightarrow> tr_deliveringSeq st = None"
  shows "moves_on q st (told ev st)"
proof (cases ev)
  case (EvLine line)
  with assms show ?thesis by (auto simp: told_def moves_on_def lines_in_order_def)
qed (use assms(1) in \<open>auto simp: told_def moves_on_def lines_in_order_def\<close>)

lemma orderly_emit_plain:
  assumes "orderly_emitter em" "fits q st" "\<And>line. ev = EvLine line \<Longrightarrow> tr_deliveringSeq st = None"
  shows "moves_on q st (fst (em ev st))"
proof -
  have m: "moves_on q st (told ev st)" by (rule told_plain) (use assms(2,3) in \<open>simp_all add: fits_def\<close>)
  from moves_on_trans [OF m orderly_emitterD [OF assms(1) moves_on_fits [OF assms(2) m]]] show ?thesis .
qed

lemma told_fields [simp]:
  "tr_restoring (told ev st) = tr_restoring st" "tr_ended (told ev st) = tr_ended st"
  "tr_pending (told ev st) = tr_pending st" "tr_deliveringSeq (told ev st) = tr_deliveringSeq st"
  "tr_ackQueued (told ev st) = tr_ackQueued st" "tr_ackSeq (told ev st) = tr_ackSeq st"
  "tr_log (told ev st) = tr_log st @ [Told ev (tr_deliveringSeq st)]"
  by (simp_all add: told_def)

lemma orderly_end:
  assumes "orderly_emitter em" "fits q st"
  shows "moves_on q st (fst (tr_end em err st))"
proof -
  have m: "moves_on q st (finish st)" using assms(2)
    by (auto simp: moves_on_def lines_in_order_def fits_def finish_def tr_note_def)
  from moves_on_trans [OF m orderly_emit_plain [OF assms(1) moves_on_fits [OF assms(2) m], of "EvClose err"]] show ?thesis
    by (simp add: tr_end_def)
qed

text \<open>One line, or one of the other frames, handed over outside a restore.\<close>

lemma orderly_deliver:
  assumes em: "orderly_emitter em" and st: "lines_in_order ((s, line) # q) st" "\<not> tr_restoring st" "\<not> tr_ended st" "tr_deliveringSeq st = None"
  shows "lines_in_order q (fst (tr_deliver em s line st)) \<and> \<not> tr_restoring (fst (tr_deliver em s line st)) \<and>
    tr_deliveringSeq (fst (tr_deliver em s line st)) = None \<and>
    (tr_pending (fst (tr_deliver em s line st)) = tr_pending st \<or> tr_pending (fst (tr_deliver em s line st)) = [])"
proof -
  let ?st = "st\<lparr>tr_backlog := map_option Suc (tr_backlog st), tr_deliveringSeq := Some s\<rparr>"
  have "fits q (told (EvLine line) ?st)" using st by (simp add: fits_def lines_in_order_def)
  then have m: "moves_on q (told (EvLine line) ?st) (fst (em (EvLine line) ?st))" by (rule orderly_emitterD [OF em])
  have n: "\<not> snd (em (EvLine line) ?st)" using em by (simp add: orderly_emitter_def never_def)
  define st1 where "st1 = fst (em (EvLine line) ?st)"
  have e: "fst (tr_deliver em s line st) = st1\<lparr>tr_deliveringSeq := None, tr_ackSeq := s, tr_ackQueued := True\<rparr>"
    using n by (simp add: tr_deliver_def split_beta Let_def st1_def)
  show ?thesis using m st(2) unfolding e st1_def [symmetric] moves_on_def lines_in_order_def by auto
qed

definition handed :: "(nat \<times> string) list \<Rightarrow> transport \<Rightarrow> transport \<Rightarrow> bool" where
  "handed q st st' \<longleftrightarrow>
     lines_in_order q st' \<and> \<not> tr_restoring st' \<and> tr_deliveringSeq st' = None \<and> (tr_ended st \<longrightarrow> tr_ended st') \<and>
     (tr_pending st' = tr_pending st \<or> tr_pending st' = [])"

lemma handed_live:
  assumes em: "orderly_emitter em" and st: "lines_in_order (lines_of [f] @ q) st" "\<not> tr_restoring st" "tr_deliveringSeq st = None"
  shows "handed q st (fst (handle_live em f st))"
proof (cases "tr_ended st")
  case True
  then show ?thesis using st by (simp add: handle_live_def handed_def lines_in_order_def)
next
  case False
  have plain: "handed q st (fst (em (EvPhase ph) s))"
    if "lines_in_order q s" "\<not> tr_restoring s" "tr_deliveringSeq s = None" "tr_pending s = tr_pending st" for s ph
    using orderly_emit_plain [OF em, of q s "EvPhase ph"] that False by (auto simp: fits_def handed_def moves_on_def)
  have other: "handed q st st" if "lines_of [f] = []"
    using st that by (auto simp: handed_def)
  show ?thesis
  proof (cases f)
    case (FLine i s line)
    then show ?thesis using orderly_deliver [OF em, of s line q st] st False by (simp add: handle_live_def handed_def)
  next
    case (FLive i)
    have "lines_in_order q (st\<lparr>tr_backlog := None\<rparr>)" using st FLive by (simp add: lines_in_order_def)
    then show ?thesis using plain [of "st\<lparr>tr_backlog := None\<rparr>"] st FLive False by (simp add: handle_live_def)
  next
    case (FGap i g)
    then show ?thesis using plain [of st] st False by (simp add: handle_live_def)
  qed (use other st False in \<open>simp_all add: handle_live_def\<close>)
qed

lemma handed_lives:
  "orderly_emitter em \<Longrightarrow> lines_in_order (lines_of fs @ q) st \<Longrightarrow> \<not> tr_restoring st \<Longrightarrow> tr_deliveringSeq st = None \<Longrightarrow>
     handed q st (fst (steps (map (handle_live em) fs) st))"
proof (induction fs arbitrary: st)
  case Nil
  then show ?case by (simp add: handed_def quietly_def)
next
  case (Cons f fs)
  let ?st1 = "fst (handle_live em f st)"
  have "lines_in_order (lines_of [f] @ (lines_of fs @ q)) st" using Cons.prems(2) by (simp add: lines_of_Cons [of f fs])
  from handed_live [OF Cons.prems(1) this Cons.prems(3,4)] have 1: "handed (lines_of fs @ q) st ?st1" .
  have n: "\<not> snd (handle_live em f st)"
    using never_handle_live [of em f] Cons.prems(1) by (simp add: orderly_emitter_def never_def)
  have "handed q ?st1 (fst (steps (map (handle_live em) fs) ?st1))"
    by (rule Cons.IH [OF Cons.prems(1)]) (use 1 in \<open>simp_all add: handed_def\<close>)
  then show ?case using 1 n by (auto simp: handed_def then_step_def split_beta Let_def)
qed

lemma orderly_finishRestore:
  assumes em: "orderly_emitter em" and st: "fits q st" "tr_restoring st"
  shows "moves_on q st (fst (finishRestore em st))" "\<not> tr_restoring (fst (finishRestore em st))"
proof -
  have q: "q = []" using st by (auto simp: fits_def)
  have ds: "tr_deliveringSeq st = None" using st by (auto simp: fits_def lines_in_order_def)
  let ?st0 = "st\<lparr>tr_restoring := False\<rparr>"
  let ?ev = "EvPhase (PhRestored (tr_swallowed st))"
  have "fits [] ?st0" using st q by (simp add: fits_def lines_in_order_def)
  then have m: "moves_on [] ?st0 (fst (em ?ev ?st0))" by (rule orderly_emit_plain [OF em]) simp
  define st1 where "st1 = fst (em ?ev ?st0)"
  have 1: "lines_in_order [] st1" "\<not> tr_restoring st1" "tr_deliveringSeq st1 = None" "tr_ended st \<longrightarrow> tr_ended st1"
    using m ds by (auto simp: st1_def moves_on_def)
  let ?st2 = "st1\<lparr>tr_pending := []\<rparr>"
  have "lines_in_order (lines_of (tr_pending st1) @ []) ?st2" using 1(1) by (simp add: lines_in_order_def)
  from handed_lives [OF em this] 1
  have h: "handed [] ?st2 (fst (steps (map (handle_live em) (tr_pending st1)) ?st2))" by simp
  have n: "\<not> snd (em ?ev ?st0)" using em by (simp add: orderly_emitter_def never_def)
  have e: "fst (finishRestore em st) = fst (steps (map (handle_live em) (tr_pending st1)) ?st2)"
    using n by (simp add: finishRestore_def then_step_def split_beta Let_def st1_def)
  show "moves_on q st (fst (finishRestore em st))" "\<not> tr_restoring (fst (finishRestore em st))"
    using h 1 st ds unfolding e q by (auto simp: handed_def moves_on_def)
qed

lemma orderly_call:
  assumes em: "orderly_emitter em"
  shows "orderly q (do_call em c)"
  unfolding orderly_def
proof (intro allI impI)
  fix st assume st: "fits q st"
  show "moves_on q st (fst (do_call em c st))"
  proof (cases c)
    case (CallWrite line)
    show ?thesis
    proof (cases "tr_restoring st \<and> is_mark_pong line")
      case True
      then show ?thesis using orderly_finishRestore [OF em st] by (simp add: CallWrite writeLine_def)
    next
      case False
      then show ?thesis using st by (auto simp: CallWrite writeLine_def fits_def moves_on_def lines_in_order_def)
    qed
  next
    case CallClose
    let ?st = "st\<lparr>tr_requested_disconnect := True\<rparr>"
    let ?st2 = "tr_note (Did (OpRequestClose (tr_id st))) (?st\<lparr>tr_closeSent := True\<rparr>)"
    have m: "moves_on q st ?st" "moves_on q st ?st2" using st by (auto simp: fits_def moves_on_def lines_in_order_def)
    then show ?thesis
      using moves_on_trans [OF m(2) orderly_end [OF em moves_on_fits [OF st m(2)]]]
      by (simp add: CallClose tr_close_def Let_def)
  next
    case CallDetach
    let ?st = "tr_note (Did (OpNoteDetached (tr_id st))) (tr_note (Did (OpSend (ADetach (tr_id st))))
      (st\<lparr>tr_detachedByApp := True, tr_requested_disconnect := True\<rparr>))"
    have m: "moves_on q st ?st" using st by (auto simp: fits_def moves_on_def lines_in_order_def)
    show ?thesis
      using moves_on_trans [OF m orderly_end [OF em moves_on_fits [OF st m]]] moves_on_refl [of q st] st
      by (simp add: CallDetach tr_detach_def fits_def)
  next
    case CallDispose
    then show ?thesis using st by (auto simp: quietly_def disposeSocket_def fits_def moves_on_def lines_in_order_def)
  qed
qed

lemma orderly_emit:
  assumes "calm client"
  shows "orderly_emitter (emit_within k client)"
proof (induction k)
  case 0
  then show ?case using never_emit [OF assms, of 0]
    by (auto simp: orderly_emitter_def moves_on_def fits_def lines_in_order_def told_def never_def)
next
  case (Suc k)
  have "moves_on q (told ev st) (fst (emit_within (Suc k) client ev st))" if f: "fits q (told ev st)" for q ev st
  proof -
    obtain calls throws where c: "client ev (told ev st) = (calls, throws)" by (cases "client ev (told ev st)")
    have "orderly q (steps (map (do_call (emit_within k client)) calls))"
      using orderly_call [OF Suc.IH] by (intro orderly_steps) simp
    moreover have "orderly q (\<lambda>st. (st, throws))" by (simp add: orderly_def moves_on_refl fits_def)
    ultimately have "orderly q (then_step (steps (map (do_call (emit_within k client)) calls)) (\<lambda>st. (st, throws)))"
      by (rule orderly_then)
    from orderlyD [OF this f] show ?thesis using c by (simp add: told_def)
  qed
  then show ?case using never_emit [OF assms, of "Suc k"] by (simp add: orderly_emitter_def del: emit_within.simps)
qed

text \<open>Between events nothing is being delivered, and lines are held back only by a restore.\<close>

definition at_rest :: "transport \<Rightarrow> bool" where
  "at_rest st \<longleftrightarrow>
     lines_in_order [] st \<and> tr_deliveringSeq st = None \<and> (\<not> tr_restoring st \<and> \<not> tr_ended st \<longrightarrow> tr_pending st = [])"

lemma at_rest_fits: "at_rest st \<Longrightarrow> fits [] st"
  by (simp add: at_rest_def fits_def)

lemma at_rest_moves: "at_rest st \<Longrightarrow> moves_on [] st st' \<Longrightarrow> at_rest st'"
  unfolding at_rest_def moves_on_def by (cases "tr_restoring st") auto

lemma at_rest_handed: "at_rest st \<Longrightarrow> \<not> tr_restoring st \<Longrightarrow> tr_pending s = tr_pending st \<Longrightarrow> (tr_ended st \<longrightarrow> tr_ended s) \<Longrightarrow> handed [] s st' \<Longrightarrow> at_rest st'"
  unfolding at_rest_def handed_def by auto

text \<open>A restore that throws nothing is its events one after the other.\<close>

definition restore_start :: "attached_payload \<Rightarrow> transport \<Rightarrow> transport" where
  "restore_start p st =
     st\<lparr>tr_connected := True, tr_restoring := True, tr_swallowed := [], tr_backlog := Some 0,
        tr_socket := (if ap_socket p = [] then None else Some (ap_socket p))\<rparr>"

definition restore_events :: "(string \<Rightarrow> irc_msg option) \<Rightarrow> attached_payload \<Rightarrow> tr_event list" where
  "restore_events parse p =
     [EvPhase (PhAttached (ap_detachedForMs p) (ap_nick p) (ap_channels p) (length (ap_replay p)) (ap_unattended p)
        (if ap_socket p = [] then None else Some (ap_socket p))),
      EvRaw (ap_local p) (ap_remote p), EvOpen] @ map EvLine (sanitizeReplay parse (ap_replay p))"

lemma restore_steps:
  assumes "calm client"
  shows "restore client parse p st =
    steps (map (emit_tr client) (restore_events parse p @ [EvLine (''PING :'' @ RESTORE_MARK)])) (restore_start p st)"
proof -
  let ?rs = "restore_shows client parse (ap_replay p)"
  have "(let (st2, threw) = ?rs s in if \<not> threw then (st2, False) else g st2) = ?rs s" for s g
    using never_shows [OF assms, of parse "ap_replay p"] by (simp add: never_def split_beta Let_def prod_eq_iff)
  then have "restore client parse p st =
      then_step (emit_tr client (hd (restore_events parse p)))
        (then_step (emit_tr client (hd (tl (restore_events parse p)))) ?rs) (restore_start p st)"
    by (simp add: restore_def restore_start_def restore_events_def Let_def del: emit_within.simps)
  also have "\<dots> = steps (map (emit_tr client) (restore_events parse p @ [EvLine (''PING :'' @ RESTORE_MARK)])) (restore_start p st)"
    by (simp add: restore_shows_def restore_events_def comp_def del: emit_within.simps)
  finally show ?thesis .
qed

lemma emit_rest:
  assumes "calm client" "at_rest st"
  shows "at_rest (fst (emit_within k client ev st))"
  using at_rest_moves [OF assms(2) orderly_emit_plain [OF orderly_emit [OF assms(1)] at_rest_fits [OF assms(2)]]] assms(2)
  by (simp add: at_rest_def)

lemma emits_rest: "calm client \<Longrightarrow> at_rest st \<Longrightarrow> at_rest (fst (steps (map (emit_within k client) evs) st))"
proof (induction evs arbitrary: st)
  case (Cons ev evs)
  then have "at_rest (fst (emit_within k client ev st))" by (intro emit_rest)
  with Cons show ?case by (simp add: then_step_def split_beta Let_def del: emit_within.simps)
qed (simp add: quietly_def)

lemma emits_snoc:
  assumes "calm client"
  shows "fst (steps (map (emit_within k client) (evs @ [ev])) st) = fst (emit_within k client ev (fst (steps (map (emit_within k client) evs) st)))"
  using never_emit [OF assms, of k]
  by (induction evs arbitrary: st) (simp_all add: then_step_def split_beta Let_def quietly_def never_def del: emit_within.simps)

lemma restore_start_rest: "at_rest st \<Longrightarrow> at_rest (restore_start p st)"
  by (simp add: at_rest_def lines_in_order_def restore_start_def)

lemma restore_rest: "calm client \<Longrightarrow> at_rest st \<Longrightarrow> at_rest (fst (restore client parse p st))"
  by (simp add: restore_steps emits_rest restore_start_rest del: emit_within.simps map_append)

lemma onFrame_rest:
  assumes c: "calm client" and st: "at_rest st"
  shows "at_rest (fst (tr_onFrame client parse f st))"
proof (cases "tr_ended st")
  case True
  then show ?thesis using st by (simp add: tr_onFrame_def)
next
  case False
  define e where "e = emit_tr client"
  have em: "orderly_emitter e" unfolding e_def by (rule orderly_emit [OF c])
  have nev: "never (e ev)" for ev using em by (simp add: orderly_emitter_def)
  have ev: "at_rest (fst (e ev s))" if "at_rest s" for ev s unfolding e_def by (rule emit_rest [OF c that])
  have en: "at_rest (fst (tr_end e err s))" if "at_rest s" for err s
    by (rule at_rest_moves [OF that orderly_end [OF em at_rest_fits [OF that]]])
  have live: "at_rest (fst (handle_live e f s))"
    if s: "tr_restoring st \<or> lines_in_order (lines_of [f]) s" "tr_restoring s = tr_restoring st" "tr_pending s = tr_pending st"
      "tr_deliveringSeq s = None" "tr_ended s = tr_ended st" "tr_restoring st \<longrightarrow> at_rest (s\<lparr>tr_pending := tr_pending s @ [f]\<rparr>)" for s f
  proof (cases "tr_restoring st")
    case True
    then show ?thesis using s False by (simp add: handle_live_def)
  next
    case nr: False
    have "handed [] s (fst (handle_live e f s))" by (rule handed_live [OF em]) (use s nr in simp_all)
    from at_rest_handed [OF st nr s(3) _ this] s(5) show ?thesis by simp
  qed
  have cong: "at_rest (st\<lparr>tr_replyTimer := False\<rparr>)" "at_rest (st\<lparr>tr_lostToPeer := True\<rparr>)"
    "at_rest (st\<lparr>tr_replyTimer := False, tr_connected := True, tr_socket := k\<rparr>)" for k
    using st by (simp_all add: at_rest_def lines_in_order_def)
  have e: "emit_tr client = e" by (simp add: e_def)
  show ?thesis
  proof (cases f)
    case (FOpen i local remote sock)
    then show ?thesis using ev [OF ev [OF cong(3)]] nev False
      by (simp add: tr_onFrame_def then_step_def split_beta Let_def never_def e del: emit_within.simps)
  next
    case (FAttached i p)
    then show ?thesis using restore_rest [OF c cong(1)] False by (simp add: tr_onFrame_def del: emit_within.simps)
  next
    case (FLine i s line)
    have "at_rest (fst (handle_live e (FLine i s line) (tr_note (Received s line) st)))"
      by (rule live) (use st False in \<open>auto simp: at_rest_def lines_in_order_def\<close>)
    then show ?thesis using FLine False by (simp add: tr_onFrame_def e del: emit_within.simps)
  next
    case (FLive i)
    have "at_rest (fst (handle_live e (FLive i) st))"
      by (rule live) (use st False in \<open>auto simp: at_rest_def lines_in_order_def\<close>)
    then show ?thesis using FLive False by (simp add: tr_onFrame_def e del: emit_within.simps)
  next
    case (FGap i g)
    have "at_rest (fst (handle_live e (FGap i g) st))"
      by (rule live) (use st False in \<open>auto simp: at_rest_def lines_in_order_def\<close>)
    then show ?thesis using FGap False by (simp add: tr_onFrame_def e del: emit_within.simps)
  qed (use st ev [OF cong(1)] en [OF st] en [OF cong(2)] False in
      \<open>simp_all add: tr_onFrame_def e del: emit_within.simps split: option.splits\<close>)
qed

lemma go_rest: "calm client \<Longrightarrow> at_rest st \<Longrightarrow> at_rest (fst (connect_go client o' link st))"
proof -
  assume c: "calm client" and st: "at_rest st"
  have "at_rest (fst (tr_end (emit_tr client) err st))" for err
    by (rule at_rest_moves [OF st orderly_end [OF orderly_emit [OF c] at_rest_fits [OF st]]])
  moreover have "at_rest ((tr_note (Did (OpSend (connect_request o'))) st)\<lparr>tr_replyTimer := True\<rparr>)"
    using st by (simp add: at_rest_def lines_in_order_def connect_request_def)
  ultimately show ?thesis by (simp add: connect_go_def del: emit_within.simps)
qed

lemma connect_rest:
  assumes "calm client" "at_rest st" "\<not> tr_restoring st" "tr_pending st = []"
  shows "at_rest (fst (tr_connect client o' link st))"
proof -
  let ?st = "tr_register (tr_note Restarted (st\<lparr>tr_ended := False, tr_requested_disconnect := False, tr_detachedByApp := False\<rparr>))"
  have st: "at_rest ?st" using assms(2-4) by (simp add: at_rest_def lines_in_order_def tr_register_def)
  then have "at_rest (tr_note (Did OpStart) (?st\<lparr>tr_waiting := n\<rparr>))" for n
    by (simp add: at_rest_def lines_in_order_def)
  with go_rest [OF assms(1) st] show ?thesis by (simp add: tr_connect_def Let_def)
qed

lemma step_rest:
  assumes c: "calm client" and st: "at_rest st" and en: "tr_enabled i st"
  shows "at_rest (fst (tr_step client parse o' i st))"
proof -
  have e: "at_rest (fst (tr_end (emit_tr client) err s))" if "at_rest s" for err s
    by (rule at_rest_moves [OF that orderly_end [OF orderly_emit [OF c] at_rest_fits [OF that]]])
  show ?thesis
  proof (cases i)
    case (InConnect link)
    then show ?thesis using connect_rest [OF c st] en by simp
  next
    case (InAnswer link r)
    let ?st = "st\<lparr>tr_waiting := tr_waiting st - 1\<rparr>"
    have w: "at_rest ?st" "at_rest (tr_register ?st)" using st by (simp_all add: at_rest_def lines_in_order_def tr_register_def)
    then show ?thesis using go_rest [OF c w(2)] e [OF w(1)]
      by (auto simp: InAnswer tr_answered_def Let_def simp del: emit_within.simps split: ready_answer.splits)
  next
    case InReplyTimeout
    have w: "at_rest (st\<lparr>tr_replyTimer := False\<rparr>)" using st by (simp add: at_rest_def lines_in_order_def)
    then show ?thesis using e [OF w] by (simp add: InReplyTimeout tr_reply_timeout_def Let_def del: emit_within.simps)
  next
    case (InFrame f)
    then show ?thesis using onFrame_rest [OF c st] by simp
  next
    case (InLost link)
    let ?st = "st\<lparr>tr_connected := False, tr_restoring := False, tr_pending := []\<rparr>"
    show ?thesis
    proof (cases "tr_ended st \<or> tr_detachedByApp st")
      case True
      then show ?thesis using st by (simp add: InLost tr_onLost_def)
    next
      case False
      have r: "at_rest (fst (tr_connect client o' link (?st\<lparr>tr_replyTimer := False\<rparr>)))" if "\<not> tr_connected st"
      proof -
        let ?s = "tr_register (tr_note Restarted ((?st\<lparr>tr_replyTimer := False\<rparr>)
          \<lparr>tr_ended := False, tr_requested_disconnect := False, tr_detachedByApp := False\<rparr>))"
        have s: "at_rest ?s" using st by (simp add: at_rest_def lines_in_order_def tr_register_def)
        then have "at_rest (tr_note (Did OpStart) (?s\<lparr>tr_waiting := n\<rparr>))" for n by (simp add: at_rest_def lines_in_order_def)
        with go_rest [OF c s] show ?thesis by (simp add: tr_connect_def Let_def)
      qed
      have "at_rest (fst (tr_end (emit_tr client) err ?st))" for err
      proof -
        have "fits [] (finish ?st)" using st by (simp add: fits_def at_rest_def lines_in_order_def)
        from orderly_emit_plain [OF orderly_emit [OF c] this, of "EvClose err" 3]
        have "moves_on [] (finish ?st) (fst (tr_end (emit_tr client) err ?st))" by (simp add: tr_end_def del: emit_within.simps)
        moreover have "at_rest (finish ?st)" using st by (simp add: at_rest_def lines_in_order_def)
        ultimately show ?thesis using at_rest_moves by blast
      qed
      with r False show ?thesis by (simp add: InLost tr_onLost_def Let_def del: emit_within.simps)
    qed
  next
    case InAck
    then show ?thesis using st by (simp add: quietly_def tr_ack_def Let_def at_rest_def lines_in_order_def InAck en [unfolded InAck, simplified])
  next
    case (InCall x)
    have "moves_on [] st (fst (do_call (emit_tr client) x st))"
      by (rule orderlyD [OF orderly_call [OF orderly_emit [OF c]] at_rest_fits [OF st]])
    with at_rest_moves [OF st this] show ?thesis by (simp add: InCall del: emit_within.simps do_call.simps)
  qed
qed

lemma run_rest: "calm client \<Longrightarrow> tr_run client parse o' st \<Longrightarrow> at_rest st"
proof (rotate_tac, induction rule: tr_run.induct)
  case (tr_run_new h)
  show ?case by (simp add: at_rest_def lines_in_order_def new_transport_def)
qed (rule step_rest)

text \<open>C22: Through every restore, and whatever a client that lets no exception out does in answer, the client gets
  the lines the engine sent since the transport was connected in their order, each once: what it has been
  given, and while the transport lives what a restore holds back, is what came in; outside a restore nothing
  is held back; and an acknowledgement names the line handed over last before it.\<close>

theorem restored_lines_in_order:
  assumes "tr_run client parse o' st" "\<forall>ev st. \<not> snd (client ev st)"
  shows "prefix (delivered (tr_log st)) (received (tr_log st)) \<and>
    (\<not> tr_ended st \<longrightarrow> received (tr_log st) = delivered (tr_log st) @ lines_of (tr_pending st)) \<and>
    (\<not> tr_ended st \<and> \<not> tr_restoring st \<longrightarrow> tr_pending st = []) \<and>
    (\<forall>before i s after. tr_log st = before @ Did (OpSend (AAck i s)) # after \<longrightarrow> last_told before = Some s)"
proof -
  have r: "at_rest st" using run_rest [of client] assms by (simp add: calm_def)
  then have "along ack_act (tr_log st)" by (simp add: at_rest_def lines_in_order_def)
  then have "last_told before = Some s" if "tr_log st = before @ Did (OpSend (AAck i s)) # after" for before i s after
    using alongD [of ack_act "tr_log st" before "Did (OpSend (AAck i s))" after] that by simp
  with r show ?thesis by (auto simp: at_rest_def lines_in_order_def)
qed

section \<open>A restore comes to its end\<close>

lemma calls_settle:
  assumes em: "orderly_emitter em" and st: "fits [] st" and c: "c \<in> set cs"
    and settle: "\<And>st. fits [] st \<Longrightarrow> \<not> tr_restoring (fst (do_call em c st))"
  shows "\<not> tr_restoring (fst (steps (map (do_call em) cs) st))"
  using st c
proof (induction cs arbitrary: st)
  case (Cons d cs)
  let ?st1 = "fst (do_call em d st)"
  have n: "\<not> snd (do_call em d st)" using never_call [of em d] em by (simp add: orderly_emitter_def never_def)
  have m: "fits [] ?st1" by (rule moves_on_fits [OF Cons.prems(1) orderlyD [OF orderly_call [OF em] Cons.prems(1)]])
  have "\<not> tr_restoring (fst (steps (map (do_call em) cs) ?st1))"
  proof (cases "c \<in> set cs")
    case True
    with Cons.IH [OF m] show ?thesis .
  next
    case False
    then have r: "\<not> tr_restoring ?st1" using settle [OF Cons.prems(1)] Cons.prems(2) by auto
    have "orderly [] (steps (map (do_call em) cs))" using orderly_call [OF em] by (intro orderly_steps) simp
    from orderlyD [OF this m] r show ?thesis by (simp add: moves_on_def)
  qed
  then show ?case using n by (simp add: then_step_def split_beta Let_def)
qed simp

lemma pong_settles:
  assumes "orderly_emitter em" "fits [] st"
  shows "\<not> tr_restoring (fst (do_call em (CallWrite (''PONG '' @ RESTORE_MARK)) st))"
  using orderly_finishRestore(2) [OF assms] by (auto simp: writeLine_def is_mark_pong_def)

lemma ping_settles:
  assumes "calm client" "fits [] st" "tr_deliveringSeq st = None"
    and "CallWrite (''PONG '' @ RESTORE_MARK) \<in> set (fst (client (EvLine l) (told (EvLine l) st)))"
  shows "\<not> tr_restoring (fst (emit_within (Suc k) client (EvLine l) st))"
proof -
  have em: "orderly_emitter (emit_within k client)" by (rule orderly_emit [OF assms(1)])
  have f: "fits [] (told (EvLine l) st)" using moves_on_fits [OF assms(2) told_plain] assms(2,3) by (simp add: fits_def)
  obtain calls throws where c: "client (EvLine l) (told (EvLine l) st) = (calls, throws)" by (cases "client (EvLine l) (told (EvLine l) st)")
  have "\<not> tr_restoring (fst (steps (map (do_call (emit_within k client)) calls) (told (EvLine l) st)))"
    by (rule calls_settle [OF em f _ pong_settles [OF em]]) (use assms(4) c in simp_all)
  then show ?thesis using c by (simp add: told_def then_step_def split_beta Let_def)
qed

text \<open>C23: A restore ends: a client that throws nothing and answers the made-up PING with its PONG, wherever among its
  calls and whatever else it does, leaves no line held back when the engine's attach has been handled, and the
  transport, if it was not ended, has delivered every line it was sent.\<close>

theorem restore_completes:
  assumes "tr_run client parse o' st" "\<forall>ev st. \<not> snd (client ev st)"
    and "\<forall>st. CallWrite (''PONG '' @ RESTORE_MARK) \<in> set (fst (client (EvLine (''PING :'' @ RESTORE_MARK)) st))"
    and "\<not> tr_ended st" "tr_onFrame client parse (FAttached i p) st = (st', threw)"
  shows "\<not> tr_restoring st' \<and> \<not> threw \<and> (\<not> tr_ended st' \<longrightarrow> received (tr_log st') = delivered (tr_log st'))"
proof -
  have c: "calm client" using assms(2) by (simp add: calm_def)
  let ?st = "restore_start p (st\<lparr>tr_replyTimer := False\<rparr>)"
  let ?ping = "EvLine (''PING :'' @ RESTORE_MARK)"
  let ?mid = "fst (steps (map (emit_tr client) (restore_events parse p)) ?st)"
  have "at_rest (st\<lparr>tr_replyTimer := False\<rparr>)" using run_rest [OF c assms(1)] by (simp add: at_rest_def lines_in_order_def)
  then have r: "at_rest ?mid" by (intro emits_rest [OF c] restore_start_rest)
  have e: "tr_onFrame client parse (FAttached i p) st = steps (map (emit_tr client) (restore_events parse p @ [?ping])) ?st"
    using assms(4) by (simp add: tr_onFrame_def restore_steps [OF c] del: emit_within.simps map_append)
  have st': "st' = fst (emit_tr client ?ping ?mid)"
    using assms(5) emits_snoc [OF c, of 3 "restore_events parse p" ?ping ?st] by (simp only: e fst_conv)
  have "never (steps (map (emit_tr client) (restore_events parse p @ [?ping])))"
    by (rule never_steps) (auto simp del: emit_within.simps intro: never_emit [OF c])
  then have "\<not> threw" using assms(5) unfolding e never_def by (metis snd_conv)
  moreover have "\<not> tr_restoring st'"
    unfolding st' numeral_3_eq_3 using r assms(3)
    by (intro ping_settles [OF c at_rest_fits]) (simp_all add: at_rest_def numeral_3_eq_3 del: emit_within.simps)
  moreover have "at_rest st'" unfolding st' by (rule emit_rest [OF c r])
  ultimately show ?thesis by (simp add: at_rest_def lines_in_order_def)
qed

section \<open>A run\<close>

definition sample_client :: client where
  "sample_client ev st =
     ((if ev = EvOpen then [CallWrite ''NICK me''] else [])
      @ (if ev = EvLine (''PING :'' @ RESTORE_MARK) then [CallWrite (''PONG '' @ RESTORE_MARK)] else [])
      @ (if ev = EvLine ''hi'' then [CallWrite ''PRIVMSG #c :hello''] else [])
      @ (if ev = EvLine ''bye'' then [CallDetach, CallWrite ''QUIT'', CallClose] else []), False)"

definition sample_client_opts :: client_opts where
  "sample_client_opts =
     \<lparr>co_id = ''db:1:1'', co_host = ''h'', co_port = 6697, co_tls = True, co_rejectUnauthorized = True,
      co_outgoing_addr = None, co_ident = None, co_client_certificate = None, co_proxy = None\<rparr>"

definition sample_attached :: attached_payload where
  "sample_attached =
     \<lparr>ap_local = (''l'', 1), ap_remote = (''r'', 2), ap_socket = ''s'', ap_replay = [''001''], ap_nick = Some ''me'',
      ap_channels = [], ap_detachedForMs = 0, ap_unattended = False\<rparr>"

definition sample_inputs :: "tr_input list" where
  "sample_inputs =
     [InConnect (new_app_link\<lparr>al_state := LinkReady\<rparr>), InFrame (FAttached ''db:1:1'' sample_attached),
      InFrame (FLine ''db:1:1'' 4 ''hi''), InAck, InFrame (FLine ''db:1:1'' 5 ''bye''), InCall CallClose]"

definition sample_parse :: "string \<Rightarrow> irc_msg option" where
  "sample_parse line = Some \<lparr>msg_command = line, msg_params = [], msg_prefix = None\<rparr>"

fun tr_runs :: "client \<Rightarrow> (string \<Rightarrow> irc_msg option) \<Rightarrow> client_opts \<Rightarrow> tr_input list \<Rightarrow> transport \<Rightarrow> transport option" where
  "tr_runs client parse o' [] st = Some st"
| "tr_runs client parse o' (i # is) st =
     (if tr_enabled i st then tr_runs client parse o' is (fst (tr_step client parse o' i st)) else None)"

lemma tr_runs_run: "tr_run client parse o' st \<Longrightarrow> tr_runs client parse o' is st = Some st' \<Longrightarrow> tr_run client parse o' st'"
  by (induction "is" arbitrary: st) (auto split: if_splits intro: tr_run_step)

text \<open>The transport after some of these inputs.\<close>

definition sample_transport :: "tr_input list \<Rightarrow> transport" where
  "sample_transport is = the (tr_runs sample_client sample_parse sample_client_opts is (new_transport sample_client_opts 0))"

lemma sample_transport_run:
  assumes "tr_runs sample_client sample_parse sample_client_opts is (new_transport sample_client_opts 0) \<noteq> None"
  shows "tr_run sample_client sample_parse sample_client_opts (sample_transport is)"
  using assms tr_runs_run [OF tr_run_new] by (auto simp: sample_transport_def)

lemma sample_calm: "\<forall>ev st. \<not> snd (sample_client ev st)"
  by (simp add: sample_client_def)

lemma sample_log:
  "tr_log (sample_transport sample_inputs) =
     [Restarted, Did (OpRegister ''db:1:1'' 0), Did (OpSend (connect_request sample_client_opts)),
      Told (EvPhase (PhAttached 0 (Some ''me'') [] 1 False (Some ''s''))) None, Told (EvRaw (''l'', 1) (''r'', 2)) None,
      Told EvOpen None, Told (EvLine ''001'') None, Told (EvLine (''PING :'' @ RESTORE_MARK)) None,
      Told (EvPhase (PhRestored [''NICK me''])) None,
      Received 4 ''hi'', Told (EvLine ''hi'') (Some 4), Did (OpSend (AWrite ''db:1:1'' ''PRIVMSG #c :hello'')),
      Did (OpSend (AAck ''db:1:1'' 4)), Received 5 ''bye'', Told (EvLine ''bye'') (Some 5),
      Did (OpSend (ADetach ''db:1:1'')), Did (OpNoteDetached ''db:1:1''), Did (OpUnregister ''db:1:1'' (Some 0)),
      Told (EvClose (EngineCloseError CloseDetached ''detached; the engine keeps the socket'')) (Some 5)]"
  by code_simp

text \<open>Closed, or detached, before it is connected again.\<close>

definition ready_link :: app_link where
  "ready_link = new_app_link\<lparr>al_state := LinkReady\<rparr>"

lemma finished_transport_is_silent_witness:
  "\<exists>a b c. tr_log (sample_transport [InCall CallClose, InConnect ready_link]) =
     a @ Told (EvClose CleanClose) None # b @ Did (OpSend (connect_request sample_client_opts)) # c \<and> Restarted \<in> set b"
proof -
  have run: "tr_run sample_client sample_parse sample_client_opts (sample_transport [InCall CallClose, InConnect ready_link])"
    by (rule sample_transport_run) code_simp
  have "tr_log (sample_transport [InCall CallClose, InConnect ready_link]) =
      [Did (OpRequestClose ''db:1:1''), Did (OpUnregister ''db:1:1'' (Some 0))] @ Told (EvClose CleanClose) None #
      [Restarted, Did (OpRegister ''db:1:1'' 0)] @ Did (OpSend (connect_request sample_client_opts)) # []"
    by code_simp
  with finished_transport_is_silent [OF run this] show ?thesis by blast
qed

lemma reentrance_is_bounded_witness: "Cut \<notin> set (tr_log (sample_transport sample_inputs))"
  by (rule reentrance_is_bounded [OF sample_transport_run]) code_simp

lemma left_session_is_not_closed_witness:
  "\<exists>a b c. tr_log (sample_transport [InConnect ready_link, InCall CallDetach, InConnect ready_link, InCall CallClose]) =
     a @ Did (OpSend (ADetach ''db:1:1'')) # b @ Did (OpRequestClose ''db:1:1'') # c \<and> Restarted \<in> set b"
proof -
  let ?is = "[InConnect ready_link, InCall CallDetach, InConnect ready_link, InCall CallClose]"
  have run: "tr_run sample_client sample_parse sample_client_opts (sample_transport ?is)"
    by (rule sample_transport_run) code_simp
  have "tr_log (sample_transport ?is) =
      [Restarted, Did (OpRegister ''db:1:1'' 0), Did (OpSend (connect_request sample_client_opts))] @
      Did (OpSend (ADetach ''db:1:1'')) #
      [Did (OpNoteDetached ''db:1:1''), Did (OpUnregister ''db:1:1'' (Some 0)),
       Told (EvClose (EngineCloseError CloseDetached ''detached; the engine keeps the socket'')) None, Restarted,
       Did (OpRegister ''db:1:1'' 0), Did (OpSend (connect_request sample_client_opts))] @
      Did (OpRequestClose ''db:1:1'') # [Did (OpUnregister ''db:1:1'' (Some 0)), Told (EvClose CleanClose) None]"
    by code_simp
  with left_session_is_not_closed [OF run sample_calm this disjI1 [OF refl]] show ?thesis by blast
qed

lemma restored_lines_in_order_witness:
  "delivered (tr_log (sample_transport (take 4 sample_inputs))) = [(4, ''hi'')] \<and>
   received (tr_log (sample_transport (take 4 sample_inputs))) = [(4, ''hi'')]"
proof -
  let ?st = "sample_transport (take 4 sample_inputs)"
  have run: "tr_run sample_client sample_parse sample_client_opts ?st" by (rule sample_transport_run) code_simp
  have d: "delivered (tr_log ?st) = [(4, ''hi'')]" by code_simp
  have "\<not> tr_ended ?st \<and> \<not> tr_restoring ?st" by code_simp
  with restored_lines_in_order [OF run sample_calm] d show ?thesis by simp
qed

lemma restore_completes_witness:
  "\<not> tr_restoring (fst (tr_onFrame sample_client sample_parse (FAttached ''db:1:1'' sample_attached) (sample_transport [InConnect ready_link])))"
proof -
  let ?st = "sample_transport [InConnect ready_link]"
  have run: "tr_run sample_client sample_parse sample_client_opts ?st" by (rule sample_transport_run) code_simp
  have "\<not> tr_ended ?st" by code_simp
  moreover have "\<forall>st. CallWrite (''PONG '' @ RESTORE_MARK) \<in> set (fst (sample_client (EvLine (''PING :'' @ RESTORE_MARK)) st))"
    by (simp add: sample_client_def)
  ultimately show ?thesis using restore_completes [OF run sample_calm] by (metis prod.collapse)
qed

text \<open>The rest of a replay is shown to a client that has closed the transport in the middle of it.\<close>

lemma closed_restore_goes_on:
  "tr_log (fst (tr_onFrame (\<lambda>ev st. (if ev = EvOpen then [CallClose] else [], False)) sample_parse
       (FAttached ''db:1:1'' sample_attached) (sample_transport [InConnect ready_link]))) =
     tr_log (sample_transport [InConnect ready_link]) @
     [Told (EvPhase (PhAttached 0 (Some ''me'') [] 1 False (Some ''s''))) None, Told (EvRaw (''l'', 1) (''r'', 2)) None,
      Told EvOpen None, Did (OpRequestClose ''db:1:1''), Did (OpUnregister ''db:1:1'' (Some 0)), Told (EvClose CleanClose) None,
      Told (EvLine ''001'') None, Told (EvLine (''PING :'' @ RESTORE_MARK)) None]"
  by code_simp

end
