(* ===== verification/Reply_Router.thy ===== *)
theory Reply_Router imports Engine_Upstream Channel_Names Send_Pacer begin

text \<open>
  \<open>server/services/replyRouter.ts\<close>: who each reply on a shared connection is for.  A \<open>Query\<close> object is a record
  with an identity; a set is a list.  What the router calls (the send queue, the askers, the hooks that came with a
  query) is put out in order, a hook's own sends being the next events.  Per event the environment gives
  irc-framework's parser, the network's fold and modes, the clock, whether the connection can send, and whether a
  line handed to the queue goes at once.  What runs after a timer, once the loop has read what there is, is an
  event.
\<close>

section \<open>Data\<close>

datatype asker = AskLurker | AskUser | AskClient nat

datatype reply_owner = OwnedBy asker | Unasked | Nobody

datatype query_end = Replied | Postponed | EndedByError | TimedOut

datatype query_form =
    Who | Whois | Whowas | List | Names | ModeForm | ModeList | Umode | Topic | Ison | Userhost | Away | Accept
  | Metadata | Chathistory

record query =
  q_id :: nat
  q_form :: query_form
  q_command :: string
  q_targets :: "string list"
  q_ends :: "string list"
  q_channel :: string
  q_letter :: string
  q_anyChannel :: bool
  q_abort :: "(string \<times> string list) option"
  q_batchRef :: string
  q_sub :: string
  q_inner :: "string list"
  q_asker :: "asker option"
  q_heardAt :: int
  q_timer :: bool
  q_started :: bool
  q_sent :: bool
  q_written :: bool
  q_lane :: "send_priority option"
  q_unpaced :: bool

record router_env =
  re_parse :: "string \<Rightarrow> irc_msg option"
  re_fold :: "string \<Rightarrow> string"
  re_isJoined :: "string \<Rightarrow> bool"
  re_ownNick :: string
  re_listModes :: "string list"
  re_prefixModes :: "string list"
  re_canSend :: bool
  re_goes :: "nat \<Rightarrow> bool"
  re_now :: int
  re_timeoutMs :: int

record router =
  rr_wire :: "query list"
  rr_waiting :: "query list"
  rr_settle :: "(query \<times> string) option"
  rr_modes :: "(string \<times> (string \<times> string option)) list"
  rr_lineBatch :: "string option"
  rr_orphans :: "(string \<times> asker option) list"
  rr_next :: nat

datatype router_out =
    WriteLine string "send_priority option" bool
  | WriteQuery nat "send_priority option" bool
  | CancelWrite nat
  | SentHook nat
  | DroppedHook nat
  | EndHook nat query_end
  | FromCache nat "string list"
  | Aborted nat string "string list"
  | OnReply nat string "string list"

type_synonym routing = "router \<times> router_out list"

definition new_router :: router where
  "new_router = \<lparr>rr_wire = [], rr_waiting = [], rr_settle = None, rr_modes = [], rr_lineBatch = None, rr_orphans = [], rr_next = 0\<rparr>"

definition NOT_WHOIS :: "string list" where
  "NOT_WHOIS = [''302'', ''303'', ''305'', ''306'', ''314'', ''315'', ''321'', ''322'', ''323'', ''324'', ''329'', ''331'',
     ''332'', ''333'', ''341'', ''346'', ''347'', ''348'', ''349'', ''352'', ''353'', ''354'', ''366'', ''367'', ''368'', ''369'']"

definition WHOIS_OTHER_REPLIES :: "string list" where
  "WHOIS_OTHER_REPLIES = [''276'', ''671'', ''760'']"

definition isWhoisReply :: "string \<Rightarrow> bool" where
  "isWhoisReply command =
     ((length command = 3 \<and> hd command = CHR ''3'' \<and> list_all is_digit command \<and> command \<notin> set NOT_WHOIS) \<or>
      command \<in> set WHOIS_OTHER_REPLIES)"

definition WHOWAS_REPLIES :: "string list" where
  "WHOWAS_REPLIES = [''312'', ''314'', ''330'', ''338'']"

text \<open>Entry and end of a list mode.\<close>

definition LIST_MODE_NUMERICS :: "(string \<times> (string \<times> string)) list" where
  "LIST_MODE_NUMERICS =
     [(''b'', (''367'', ''368'')), (''e'', (''348'', ''349'')), (''I'', (''346'', ''347'')), (''q'', (''728'', ''729''))]"

definition COMMAND_ERRORS :: "string list" where
  "COMMAND_ERRORS = [''263'', ''400'', ''421'', ''461'']"

definition TARGET_ERRORS :: "string list" where
  "TARGET_ERRORS = [''401'', ''402'', ''403'', ''407'', ''442'', ''476'', ''479'', ''482'']"

definition QUERY_ONLY :: "string list" where
  "QUERY_ONLY = [''276'', ''302'', ''303'', ''305'', ''306'', ''307'', ''310'', ''311'', ''312'', ''313'', ''314'', ''315'',
     ''317'', ''318'', ''319'', ''320'', ''321'', ''322'', ''323'', ''330'', ''335'', ''337'', ''338'', ''343'', ''344'',
     ''346'', ''347'', ''348'', ''349'', ''352'', ''354'', ''367'', ''368'', ''369'', ''378'', ''379'', ''406'', ''416'',
     ''671'', ''728'', ''729'']"

definition WAITS :: "query_form list" where
  "WAITS = [Who, List, Ison, Userhost, Umode, Accept]"

definition END_AFTER_ERROR :: "(query_form \<times> string) list" where
  "END_AFTER_ERROR = [(Who, ''315''), (Whois, ''318''), (Whowas, ''369''), (List, ''323''), (Names, ''366'')]"

text \<open>The \<open>batch\<close> tag of a line.\<close>

definition batchTagOf :: "string \<Rightarrow> string option" where
  "batchTagOf line =
     (if \<not> starts_with line ''@'' then None
      else let tags = split_on (CHR '';'') (drop 1 (takeWhile (\<lambda>c. c \<noteq> CHR '' '') line)) in
           case find (\<lambda>t. starts_with t ''batch='') tags of
             None \<Rightarrow> None
           | Some t \<Rightarrow> if drop 6 t = [] then None else Some (drop 6 t))"

definition spec :: "query_form \<Rightarrow> string \<Rightarrow> query" where
  "spec form command =
     \<lparr>q_id = 0, q_form = form, q_command = command, q_targets = [], q_ends = [], q_channel = [], q_letter = [],
      q_anyChannel = False, q_abort = None, q_batchRef = [], q_sub = [], q_inner = [], q_asker = None, q_heardAt = 0,
      q_timer = False, q_started = False, q_sent = False, q_written = False, q_lane = None, q_unpaced = False\<rparr>"

definition client_of :: "asker option \<Rightarrow> nat option" where
  "client_of a = (case a of Some (AskClient c) \<Rightarrow> Some c | _ \<Rightarrow> None)"

section \<open>What a line is a query for\<close>

definition param :: "string list \<Rightarrow> nat \<Rightarrow> string" where
  "param params i = (if i < length params then params ! i else [])"

definition fold_names :: "router_env \<Rightarrow> string list \<Rightarrow> string list" where
  "fold_names env ns = map (re_fold env) (filter (\<lambda>n. n \<noteq> []) ns)"

definition or_any :: "string \<Rightarrow> string" where
  "or_any s = (if s = [] then ''*'' else s)"

definition classify_mode :: "router_env \<Rightarrow> string list \<Rightarrow> query option" where
  "classify_mode env params =
     (let target = param params 0 in
      if target \<noteq> [] \<and> isChannelTarget (Some target) then
        if length params = 1 then Some ((spec ModeForm ''MODE'')\<lparr>q_targets := fold_names env [target], q_channel := target\<rparr>)
        else
          let arg = param params 1; letter = (if starts_with arg ''+'' then drop 1 arg else arg) in
          if length params \<noteq> 2 \<or> length letter \<noteq> 1 then None
          else case map_of LIST_MODE_NUMERICS letter of
                 None \<Rightarrow> None
               | Some (item, end_num) \<Rightarrow>
                   if letter = ''q'' \<and> ''q'' \<notin> set (re_listModes env) then None
                   else Some ((spec ModeList ''MODE'')\<lparr>q_targets := fold_names env [target], q_channel := target,
                                q_letter := letter, q_abort := Some (end_num, [target])\<rparr>)
      else if params = [] then Some (spec Umode ''MODE'')
      else if length params = 1 \<and> re_fold env target = re_fold env (re_ownNick env) then Some (spec Umode ''MODE'')
      else None)"

definition classify_line :: "router_env \<Rightarrow> string \<Rightarrow> query option" where
  "classify_line env line =
     (case re_parse env line of
        None \<Rightarrow> None
      | Some msg \<Rightarrow>
          let command = to_upper (msg_command msg); params = msg_params msg; p0 = param params 0 in
          if command = ''WHO'' then
            Some ((spec Who command)\<lparr>q_targets := fold_names env [p0], q_abort := Some (''315'', [or_any p0])\<rparr>)
          else if command = ''WHOIS'' then
            let lst = (if params = [] then [] else last params); nicks = split_on (CHR '','') lst in
            Some ((spec Whois command)
              \<lparr>q_targets := fold_names env (nicks @ [lst] @ (if 1 < length params then [p0] else [])),
               q_ends := fold_names env [lst, last nicks], q_abort := Some (''318'', [or_any lst])\<rparr>)
          else if command = ''WHOWAS'' then
            Some ((spec Whowas command)\<lparr>q_targets := fold_names env (split_on (CHR '','') p0 @ [p0]),
              q_abort := Some (''369'', [or_any p0])\<rparr>)
          else if command = ''LIST'' then
            Some ((spec List command)\<lparr>q_targets := fold_names env (split_on (CHR '','') p0), q_abort := Some (''323'', [])\<rparr>)
          else if command = ''NAMES'' then
            Some ((spec Names command)
              \<lparr>q_targets := fold_names env (if p0 = [] then [''*''] else split_on (CHR '','') p0 @ [p0]),
               q_anyChannel := (p0 = []), q_abort := Some (''366'', [or_any p0])\<rparr>)
          else if command = ''MODE'' then classify_mode env params
          else if command = ''TOPIC'' then
            if params = [] then Some (spec Topic command)
            else if length params = 1 \<and> isChannelTarget (Some p0) then
              Some ((spec Topic command)\<lparr>q_targets := fold_names env [p0], q_channel := p0\<rparr>)
            else None
          else if command = ''ISON'' then Some (spec Ison command)
          else if command = ''USERHOST'' then Some (spec Userhost command)
          else if command = ''AWAY'' then Some (spec Away command)
          else if command = ''ACCEPT'' then
            if p0 = ''*'' then Some ((spec Accept command)\<lparr>q_abort := Some (''282'', [])\<rparr>) else None
          else if command = ''CHATHISTORY'' then
            let sub = to_upper p0; target = (if sub = ''TARGETS'' then [] else param params 1) in
            if sub = [] then None
            else Some ((spec Chathistory command)\<lparr>q_targets := fold_names env [target], q_sub := sub\<rparr>)
          else if command = ''METADATA'' then
            let sub = to_upper (param params 1) in
            if p0 = [] \<or> sub = [] then None
            else Some ((spec Metadata command)
              \<lparr>q_targets := fold_names env ([p0] @ (if p0 = ''*'' then [re_ownNick env] else [])), q_sub := sub\<rparr>)
          else None)"

section \<open>What a line is to a query\<close>

datatype role = Body | EndRole

definition role_if :: "bool \<Rightarrow> role \<Rightarrow> query \<Rightarrow> (role \<times> query) option" where
  "role_if b r q = (if b then Some (r, q) else None)"

definition metadata_role :: "router_env \<Rightarrow> string option \<Rightarrow> query \<Rightarrow> string \<Rightarrow> string list \<Rightarrow> (role \<times> query) option" where
  "metadata_role env lineBatch q command params =
     (let names = (\<lambda>i. re_fold env (param params i) \<in> set (q_targets q)); sub = q_sub q in
      if command = ''BATCH'' then
        let ref = param params 0; type = param params 1 in
        if starts_with ref ''+'' then
          if q_batchRef q \<noteq> [] then None
          else role_if ((type = ''metadata-subs'' \<and> sub = ''SUBS'') \<or>
                        (type = ''metadata'' \<and> sub \<in> {''GET'', ''LIST'', ''SYNC'', ''CLEAR''} \<and> names 2))
                 Body (q\<lparr>q_batchRef := drop 1 ref\<rparr>)
        else role_if (starts_with ref ''-'' \<and> q_batchRef q = drop 1 ref) EndRole q
      else if q_batchRef q \<noteq> [] then
        role_if (lineBatch = Some (q_batchRef q) \<and> command \<in> {''761'', ''766'', ''772'', ''METADATA''}) Body q
      else if command \<in> {''761'', ''766''} \<and> sub = ''SET'' then role_if (names 1) EndRole q
      else if command = ''770'' then role_if (sub = ''SUB'') EndRole q
      else if command = ''771'' then role_if (sub = ''UNSUB'') EndRole q
      else if command = ''774'' then role_if (sub = ''SYNC'' \<and> names 1) EndRole q
      else None)"

definition inside_batch :: "query \<Rightarrow> string option \<Rightarrow> bool" where
  "inside_batch q lineBatch \<longleftrightarrow>
     lineBatch = Some (q_batchRef q) \<or> (case lineBatch of None \<Rightarrow> [] | Some b \<Rightarrow> b) \<in> set (q_inner q)"

definition chathistory_role :: "router_env \<Rightarrow> string option \<Rightarrow> query \<Rightarrow> string \<Rightarrow> string list \<Rightarrow> (role \<times> query) option" where
  "chathistory_role env lineBatch q command params =
     (let names = (\<lambda>i. re_fold env (param params i) \<in> set (q_targets q)) in
      if command = ''BATCH'' then
        let ref = param params 0; type = param params 1 in
        if starts_with ref ''+'' then
          if q_batchRef q = [] then
            role_if (if q_sub q = ''TARGETS'' then type = ''draft/chathistory-targets'' else type = ''chathistory'' \<and> names 2)
              Body (q\<lparr>q_batchRef := drop 1 ref\<rparr>)
          else role_if (inside_batch q lineBatch) Body (q\<lparr>q_inner := set_add (drop 1 ref) (q_inner q)\<rparr>)
        else if starts_with ref ''-'' then
          if q_batchRef q = drop 1 ref then Some (EndRole, q)
          else role_if (drop 1 ref \<in> set (q_inner q)) Body (q\<lparr>q_inner := set_del (drop 1 ref) (q_inner q)\<rparr>)
        else None
      else if q_batchRef q = [] then None
      else role_if (inside_batch q lineBatch) Body q)"

definition roleOf :: "router_env \<Rightarrow> string option \<Rightarrow> query \<Rightarrow> string \<Rightarrow> string list \<Rightarrow> (role \<times> query) option" where
  "roleOf env lineBatch q command params =
     (let names = (\<lambda>i. re_fold env (param params i) \<in> set (q_targets q)) in
      case q_form q of
        Who \<Rightarrow> if command \<in> {''352'', ''354'', ''416''} then Some (Body, q) else role_if (command = ''315'') EndRole q
      | Whois \<Rightarrow>
          if command = ''318'' then
            if re_fold env (param params 1) \<in> set (q_ends q) then Some (EndRole, q) else role_if (names 1) Body q
          else if \<not> isWhoisReply command \<or> \<not> names 1 then None
          else role_if (command \<noteq> ''301'' \<or> q_started q) Body q
      | Whowas \<Rightarrow>
          if command = ''369'' then role_if (names 1) EndRole q
          else role_if (command \<in> set WHOWAS_REPLIES \<and> names 1) Body q
      | List \<Rightarrow> if command \<in> {''321'', ''322''} then Some (Body, q) else role_if (command = ''323'') EndRole q
      | Names \<Rightarrow>
          if command = ''353'' then role_if (q_anyChannel q \<or> names 2) Body q
          else role_if (command = ''366'' \<and> names 1) EndRole q
      | ModeForm \<Rightarrow> role_if (command = ''324'' \<and> names 1) EndRole q
      | ModeList \<Rightarrow>
          (case map_of LIST_MODE_NUMERICS (q_letter q) of
             None \<Rightarrow> None
           | Some (item, end_num) \<Rightarrow>
               if \<not> names 1 then None
               else if command = item then Some (Body, q)
               else role_if (command = end_num) EndRole q)
      | Umode \<Rightarrow> role_if (command = ''221'') EndRole q
      | Topic \<Rightarrow> role_if (command \<in> {''331'', ''332''} \<and> names 1) EndRole q
      | Ison \<Rightarrow> role_if (command = ''303'') EndRole q
      | Userhost \<Rightarrow> role_if (command = ''302'') EndRole q
      | Away \<Rightarrow> role_if (command \<in> {''305'', ''306''}) EndRole q
      | Accept \<Rightarrow> if command = ''281'' then Some (Body, q) else role_if (command = ''282'') EndRole q
      | Metadata \<Rightarrow> metadata_role env lineBatch q command params
      | Chathistory \<Rightarrow> chathistory_role env lineBatch q command params)"

definition isErrorFor :: "router_env \<Rightarrow> query \<Rightarrow> string \<Rightarrow> string list \<Rightarrow> bool" where
  "isErrorFor env q command params =
     (let target = (\<lambda>i. re_fold env (param params i) \<in> set (q_targets q)) in
      if command \<in> set COMMAND_ERRORS then to_upper (param params 1) = q_command q
      else if command = ''FAIL'' then
        if to_upper (param params 0) \<noteq> q_command q then False
        else if q_form q = Chathistory then
          let sub = to_upper (param params 2); named = param params 3 in
          \<not> (sub \<noteq> [] \<and> sub \<noteq> q_sub q) \<and> \<not> (isChannelTarget (Some named) \<and> \<not> target 3)
        else True
      else if command \<in> set TARGET_ERRORS then target 1
      else if command = ''431'' then q_form q = Whois \<or> q_form q = Whowas
      else if command = ''406'' then q_form q = Whowas \<and> target 1
      else False)"

definition trailerOf :: "query \<Rightarrow> string \<Rightarrow> string option" where
  "trailerOf q command =
     (if q_form q = ModeForm then Some ''329''
      else if q_form q = Topic \<and> command = ''332'' then Some ''333'' else None)"

definition endAfterError :: "query \<Rightarrow> string option" where
  "endAfterError q =
     (if q_form q = ModeList then map_option snd (map_of LIST_MODE_NUMERICS (q_letter q))
      else map_of END_AFTER_ERROR (q_form q))"

definition settles :: "router_env \<Rightarrow> query \<times> string \<Rightarrow> string \<Rightarrow> string list \<Rightarrow> bool" where
  "settles env s command params =
     (let (q, wants) = s in
      if command \<noteq> wants then False
      else if q_form q = Who \<or> q_form q = List then True
      else if param params 1 = ''*'' then True
      else let folded = re_fold env (param params 1) in folded \<in> set (q_targets q) \<or> folded \<in> set (q_ends q))"

section \<open>Sending\<close>

definition abort_query :: "query \<Rightarrow> router_out list" where
  "abort_query q =
     (case (client_of (q_asker q), q_abort q) of
        (Some c, Some (numeric, params)) \<Rightarrow> [Aborted c numeric params]
      | _ \<Rightarrow> [])"

text \<open>The first item that has a value, with what is before and after it.\<close>

fun split_first :: "('a \<Rightarrow> 'b option) \<Rightarrow> 'a list \<Rightarrow> ('a list \<times> 'b \<times> 'a list) option" where
  "split_first f [] = None"
| "split_first f (x # xs) =
     (case f x of
        Some y \<Rightarrow> Some ([], y, xs)
      | None \<Rightarrow> (case split_first f xs of None \<Rightarrow> None | Some (pre, y, post) \<Rightarrow> Some (x # pre, y, post)))"

definition with_id :: "nat \<Rightarrow> query \<Rightarrow> query option" where
  "with_id i q = (if q_id q = i then Some q else None)"

definition blocks :: "router_env \<Rightarrow> query \<Rightarrow> query \<Rightarrow> bool" where
  "blocks env other q =
     (if q_form q \<in> set WAITS then q_form other = q_form q
      else if q_form q = ModeForm \<and> client_of (q_asker q) \<noteq> None
      then q_form other = ModeForm \<and> re_fold env (q_channel other) = re_fold env (q_channel q)
      else False)"

definition ahead :: "router \<Rightarrow> query list" where
  "ahead rr = rr_wire rr @ (case rr_settle rr of None \<Rightarrow> [] | Some (q, wants) \<Rightarrow> [q])"

definition mustWait :: "router_env \<Rightarrow> query \<Rightarrow> router \<Rightarrow> bool" where
  "mustWait env q rr = (\<exists>other \<in> set (ahead rr). blocks env other q)"

definition answerFromCache :: "router_env \<Rightarrow> query \<Rightarrow> router \<Rightarrow> router_out list option" where
  "answerFromCache env q rr =
     (case client_of (q_asker q) of
        None \<Rightarrow> None
      | Some c \<Rightarrow>
          if q_form q \<noteq> ModeForm \<or> \<not> re_isJoined env (q_channel q) then None
          else case map_of (rr_modes rr) (re_fold env (q_channel q)) of
                 None \<Rightarrow> None
               | Some (mode, created) \<Rightarrow>
                   Some [FromCache c (case created of None \<Rightarrow> [mode] | Some l \<Rightarrow> if l = [] then [mode] else [mode, l])])"

text \<open>A line has gone: its query is the newest on the wire, and its silence is timed from now.\<close>

definition line_went :: "router_env \<Rightarrow> nat \<Rightarrow> router \<Rightarrow> router" where
  "line_went env i rr =
     (case split_first (with_id i) (rr_wire rr) of
        None \<Rightarrow> rr
      | Some (pre, q, post) \<Rightarrow>
          rr\<lparr>rr_wire := pre @ post @ [q\<lparr>q_sent := True, q_written := False, q_heardAt := re_now env, q_timer := True\<rparr>]\<rparr>)"

definition dispatchNow :: "router_env \<Rightarrow> query \<Rightarrow> router \<Rightarrow> routing" where
  "dispatchNow env q rr =
     (if mustWait env q rr then (rr\<lparr>rr_waiting := rr_waiting rr @ [q]\<rparr>, [])
      else if \<not> re_canSend env then (rr, abort_query q @ [EndHook (q_id q) EndedByError])
      else let rr1 = rr\<lparr>rr_wire := rr_wire rr @ [q\<lparr>q_written := True\<rparr>]\<rparr>; wrote = WriteQuery (q_id q) (q_lane q) (q_unpaced q) in
           if re_goes env (q_id q) then (line_went env (q_id q) rr1, [wrote, SentHook (q_id q)]) else (rr1, [wrote]))"

definition then_out :: "routing \<Rightarrow> (router \<Rightarrow> routing) \<Rightarrow> routing" where
  "then_out r f = (let (rr, out) = r; (rr', out') = f rr in (rr', out @ out'))"

text \<open>\<open>dispatch\<close> of a query for which nothing steps aside.\<close>

definition dispatch_behind :: "router_env \<Rightarrow> query \<Rightarrow> router \<Rightarrow> routing" where
  "dispatch_behind env q rr =
     (if q_asker q = None then (rr, [])
      else case answerFromCache env q rr of
             Some out \<Rightarrow> (rr, out)
           | None \<Rightarrow> dispatchNow env q rr)"

definition steps_aside :: "router_env \<Rightarrow> query \<Rightarrow> query \<Rightarrow> bool" where
  "steps_aside env q other \<longleftrightarrow> \<not> q_sent other \<and> q_asker other = Some AskLurker \<and> blocks env other q"

definition each_out :: "('a \<Rightarrow> router \<Rightarrow> routing) \<Rightarrow> 'a list \<Rightarrow> router \<Rightarrow> routing" where
  "each_out f xs rr = fold (\<lambda>x r. then_out r (f x)) xs (rr, [])"

definition dispatch_query :: "router_env \<Rightarrow> query \<Rightarrow> router \<Rightarrow> routing" where
  "dispatch_query env q rr =
     (if q_asker q = None then (rr, [])
      else case answerFromCache env q rr of
             Some out \<Rightarrow> (rr, out)
           | None \<Rightarrow>
               let goes_aside = (\<lambda>other. q_asker q \<noteq> Some AskLurker \<and> steps_aside env q other);
                   aside = filter goes_aside (rr_wire rr);
                   rr1 = rr\<lparr>rr_wire := filter (\<lambda>other. \<not> goes_aside other) (rr_wire rr)\<rparr>
               in then_out (then_out (rr1, map (\<lambda>other. CancelWrite (q_id other)) aside) (dispatchNow env q))
                    (each_out (\<lambda>other. dispatch_behind env (other\<lparr>q_written := False\<rparr>)) aside))"

definition releaseWaiting :: "router_env \<Rightarrow> router \<Rightarrow> routing" where
  "releaseWaiting env rr = each_out (dispatch_query env) (rr_waiting rr) (rr\<lparr>rr_waiting := []\<rparr>)"

definition router_send :: "router_env \<Rightarrow> asker \<Rightarrow> string \<Rightarrow> send_priority option \<Rightarrow> bool \<Rightarrow> router \<Rightarrow> routing" where
  "router_send env a line priority unpaced rr =
     (let lane = (if priority \<noteq> None then priority else if a = AskLurker then Some Low else None) in
      case classify_line env line of
        None \<Rightarrow> (rr, [WriteLine line lane unpaced])
      | Some found \<Rightarrow>
          dispatch_query env (found\<lparr>q_id := rr_next rr, q_asker := Some a, q_lane := lane, q_unpaced := unpaced\<rparr>)
            (rr\<lparr>rr_next := Suc (rr_next rr)\<rparr>))"

section \<open>Server lines\<close>

definition changesShownModes :: "router_env \<Rightarrow> string \<Rightarrow> bool" where
  "changesShownModes env modes =
     (\<exists>c \<in> set modes. c \<noteq> CHR ''+'' \<and> c \<noteq> CHR ''-'' \<and> [c] \<notin> set (re_prefixModes env) \<and> [c] \<notin> set (re_listModes env))"

definition noteModes :: "router_env \<Rightarrow> string \<Rightarrow> string \<Rightarrow> string list \<Rightarrow> string option \<Rightarrow> router \<Rightarrow> router" where
  "noteModes env line command params source rr =
     (let fold' = re_fold env in
      if command = ''324'' then
        let key = fold' (param params 1) in
        if key = [] then rr
        else rr\<lparr>rr_modes := AList.update key (line, case map_of (rr_modes rr) key of None \<Rightarrow> None | Some (_, c) \<Rightarrow> c) (rr_modes rr)\<rparr>
      else if command = ''329'' then
        let key = fold' (param params 1) in
        (case map_of (rr_modes rr) key of
           None \<Rightarrow> rr
         | Some (mode, _) \<Rightarrow> rr\<lparr>rr_modes := AList.update key (mode, Some line) (rr_modes rr)\<rparr>)
      else if command = ''MODE'' then
        if isChannelTarget (Some (param params 0)) \<and> changesShownModes env (param params 1)
        then rr\<lparr>rr_modes := AList.delete (fold' (param params 0)) (rr_modes rr)\<rparr> else rr
      else if command = ''JOIN'' then
        (case source of
           None \<Rightarrow> rr
         | Some s \<Rightarrow>
             if s \<noteq> [] \<and> fold' s = fold' (re_ownNick env)
             then rr\<lparr>rr_modes := fold (\<lambda>ch. AList.delete (fold' ch)) (split_on (CHR '','') (param params 0)) (rr_modes rr)\<rparr>
             else rr)
      else rr)"

definition owner_of :: "asker option \<Rightarrow> reply_owner" where
  "owner_of a = (case a of None \<Rightarrow> Nobody | Some x \<Rightarrow> OwnedBy x)"

definition claimOrphan :: "string \<Rightarrow> string list \<Rightarrow> router \<Rightarrow> reply_owner option \<times> router" where
  "claimOrphan command params rr =
     (let ref = (if command = ''BATCH'' \<and> starts_with (param params 0) ''-'' then Some (drop 1 (param params 0)) else rr_lineBatch rr) in
      case ref of
        None \<Rightarrow> (None, rr)
      | Some r \<Rightarrow>
          (case (if r = [] then None else map_of (rr_orphans rr) r) of
             None \<Rightarrow> (None, rr)
           | Some a \<Rightarrow>
               (Some (owner_of a), if command = ''BATCH'' then rr\<lparr>rr_orphans := AList.delete r (rr_orphans rr)\<rparr> else rr)))"

text \<open>\<open>finish\<close>: the query leaves the wire; if a line may still follow its end it settles, and what waits for it waits on.\<close>

definition finish_query :: "router_env \<Rightarrow> query \<Rightarrow> string option \<Rightarrow> query_end \<Rightarrow> router \<Rightarrow> routing" where
  "finish_query env q wants how rr =
     then_out (rr, [EndHook (q_id q) how])
       (\<lambda>rr. case wants of
          None \<Rightarrow> releaseWaiting env rr
        | Some w \<Rightarrow> (rr\<lparr>rr_settle := Some (q\<lparr>q_timer := False\<rparr>, w)\<rparr>, []))"

text \<open>The oldest sent query a line answers, heard from now, or that an error is for.\<close>

definition answered_by :: "router_env \<Rightarrow> string option \<Rightarrow> string \<Rightarrow> string list \<Rightarrow> query \<Rightarrow> (role \<times> query) option" where
  "answered_by env lineBatch command params q =
     (if \<not> q_sent q then None
      else map_option (\<lambda>(r, q'). (r, q'\<lparr>q_heardAt := re_now env, q_started := True\<rparr>)) (roleOf env lineBatch q command params))"

definition refused_by :: "router_env \<Rightarrow> string \<Rightarrow> string list \<Rightarrow> query \<Rightarrow> query option" where
  "refused_by env command params q = (if q_sent q \<and> isErrorFor env q command params then Some q else None)"

definition claim_line :: "router_env \<Rightarrow> string \<Rightarrow> string list \<Rightarrow> router \<Rightarrow> reply_owner option \<times> routing" where
  "claim_line env command params rr =
     (case split_first (answered_by env (rr_lineBatch rr) command params) (rr_wire rr) of
        Some (pre, (r, q), post) \<Rightarrow>
          (Some (owner_of (q_asker q)),
           if r = EndRole
           then finish_query env q (trailerOf q command) (if command = ''774'' then Postponed else Replied) (rr\<lparr>rr_wire := pre @ post\<rparr>)
           else (rr\<lparr>rr_wire := pre @ q # post\<rparr>, []))
      | None \<Rightarrow>
          (case split_first (refused_by env command params) (rr_wire rr) of
             Some (pre, q, post) \<Rightarrow>
               (Some (owner_of (q_asker q)), finish_query env q (endAfterError q) EndedByError (rr\<lparr>rr_wire := pre @ post\<rparr>))
           | None \<Rightarrow> (None, (rr, []))))"

text \<open>The settling query's line, an orphaned batch's, or a query's on the wire.\<close>

definition find_owner :: "router_env \<Rightarrow> string \<Rightarrow> string list \<Rightarrow> router \<Rightarrow> reply_owner option \<times> routing" where
  "find_owner env command params rr =
     (let settled = (case rr_settle rr of
                       Some (q, wants) \<Rightarrow> if settles env (q, wants) command params then Some (owner_of (q_asker q)) else None
                     | None \<Rightarrow> None);
          rr1 = rr\<lparr>rr_settle := None\<rparr>
      in if settled \<noteq> None then (settled, (rr1, []))
         else case claimOrphan command params rr1 of
                (Some ow, rr2) \<Rightarrow> (Some ow, (rr2, []))
              | (None, rr2) \<Rightarrow> claim_line env command params rr2)"

definition noteServerLine :: "router_env \<Rightarrow> string \<Rightarrow> string \<Rightarrow> string list \<Rightarrow> string option \<Rightarrow> router \<Rightarrow> reply_owner \<times> routing" where
  "noteServerLine env line command params source rr =
     (let rr1 = (noteModes env line command params source rr)\<lparr>rr_lineBatch := batchTagOf line\<rparr>;
          (ow, r) = find_owner env command params rr1;
          r1 = then_out r (\<lambda>rr. (rr, case ow of Some (OwnedBy (AskClient c)) \<Rightarrow> [OnReply c command params] | _ \<Rightarrow> []));
          r2 = (if rr_settle rr1 \<noteq> None then then_out r1 (releaseWaiting env) else r1)
      in (case ow of Some w \<Rightarrow> w | None \<Rightarrow> if command \<in> set QUERY_ONLY then Nobody else Unasked, r2))"

section \<open>Timers, clients and the socket\<close>

definition settle_over :: "router_env \<Rightarrow> router \<Rightarrow> routing" where
  "settle_over env rr = (if rr_settle rr = None then (rr, []) else releaseWaiting env (rr\<lparr>rr_settle := None\<rparr>))"

definition orphan_batch :: "query \<Rightarrow> router \<Rightarrow> router" where
  "orphan_batch q rr =
     (if q_batchRef q = [] then rr
      else let kept = (if 100 \<le> length (rr_orphans rr) then [] else rr_orphans rr) in
           rr\<lparr>rr_orphans := AList.update (q_batchRef q) (q_asker q) kept\<rparr>)"

definition query_quiet :: "router_env \<Rightarrow> nat \<Rightarrow> router \<Rightarrow> routing" where
  "query_quiet env i rr =
     (case split_first (with_id i) (rr_wire rr) of
        None \<Rightarrow> (rr, [])
      | Some (pre, q, post) \<Rightarrow>
          if re_now env - q_heardAt q < re_timeoutMs env then (rr, [])
          else then_out (orphan_batch q (rr\<lparr>rr_wire := pre @ post\<rparr>), abort_query q @ [EndHook i TimedOut]) (releaseWaiting env))"

text \<open>\<open>cancelled\<close>: whether the queue still held the line.\<close>

definition router_reset :: "(nat \<Rightarrow> bool) \<Rightarrow> router \<Rightarrow> routing" where
  "router_reset cancelled rr =
     (let ended = (case rr_settle rr of None \<Rightarrow> [] | Some (q, _) \<Rightarrow> [q]) @ rr_wire rr @ rr_waiting rr in
      (rr\<lparr>rr_wire := [], rr_waiting := [], rr_settle := None, rr_modes := [], rr_orphans := []\<rparr>,
       map (\<lambda>q. DroppedHook (q_id q)) (filter (\<lambda>q. q_written q \<and> cancelled (q_id q)) (rr_wire rr)) @
       concat (map abort_query ended)))"

definition drop_asker :: "nat \<Rightarrow> query \<Rightarrow> query" where
  "drop_asker c q = (if q_asker q = Some (AskClient c) then q\<lparr>q_asker := None\<rparr> else q)"

definition dropClient :: "router_env \<Rightarrow> nat \<Rightarrow> router \<Rightarrow> routing" where
  "dropClient env c rr =
     (let mine = (\<lambda>q. q_asker q = Some (AskClient c)); unsent = filter (\<lambda>q. mine q \<and> \<not> q_sent q) (rr_wire rr);
          rr1 = rr\<lparr>rr_waiting := filter (\<lambda>q. \<not> mine q) (rr_waiting rr),
                   rr_wire := map (drop_asker c) (filter (\<lambda>q. \<not> (mine q \<and> \<not> q_sent q)) (rr_wire rr)),
                   rr_settle := map_option (\<lambda>(q, w). (drop_asker c q, w)) (rr_settle rr)\<rparr>
      in then_out (rr1, map (\<lambda>q. CancelWrite (q_id q)) (filter q_written unsent))
           (if unsent = [] then (\<lambda>rr. (rr, [])) else releaseWaiting env))"

datatype router_event =
    Send asker string "send_priority option" bool
  | LineWent nat
  | ServerLine string string "string list" "string option"
  | SettleOver
  | QueryQuiet nat
  | DropClient nat
  | Reset "nat \<Rightarrow> bool"

fun router_step :: "router_env \<Rightarrow> router_event \<Rightarrow> router \<Rightarrow> routing" where
  "router_step env (Send a line priority unpaced) rr = router_send env a line priority unpaced rr"
| "router_step env (LineWent i) rr =
     (line_went env i rr, [SentHook i])"
| "router_step env (ServerLine line command params source) rr = snd (noteServerLine env line command params source rr)"
| "router_step env SettleOver rr = settle_over env rr"
| "router_step env (QueryQuiet i) rr = query_quiet env i rr"
| "router_step env (DropClient c) rr = dropClient env c rr"
| "router_step env (Reset cancelled) rr = router_reset cancelled rr"

text \<open>A run: the router, and all it put out.\<close>

definition router_next :: "router_env \<times> router_event \<Rightarrow> routing \<Rightarrow> routing" where
  "router_next e r = then_out r (router_step (fst e) (snd e))"

definition run_router :: "(router_env \<times> router_event) list \<Rightarrow> routing" where
  "run_router evs = fold router_next evs (new_router, [])"

section \<open>Steps\<close>

lemma run_router_snoc: "run_router (evs @ [e]) = router_next e (run_router evs)"
  by (simp add: run_router_def)

lemma then_out_fst: "fst (then_out r f) = fst (f (fst r))" "snd (then_out r f) = snd r @ snd (f (fst r))"
  by (simp_all add: then_out_def split_beta Let_def)

text \<open>A relation a step keeps between the router and what has been put out.\<close>

definition keeps_all :: "(routing \<Rightarrow> bool) \<Rightarrow> (router \<Rightarrow> routing) \<Rightarrow> bool" where
  "keeps_all P f \<longleftrightarrow> (\<forall>r. P r \<longrightarrow> P (then_out r f))"

lemma keeps_allD: "keeps_all P f \<Longrightarrow> P r \<Longrightarrow> P (then_out r f)"
  unfolding keeps_all_def by blast

lemma then_out_assoc: "then_out (then_out r f) g = then_out r (\<lambda>rr. then_out (f rr) g)"
  by (simp add: then_out_def split_beta Let_def)

lemma keeps_all_then: "keeps_all P f \<Longrightarrow> keeps_all P g \<Longrightarrow> keeps_all P (\<lambda>rr. then_out (f rr) g)"
  unfolding keeps_all_def by (metis then_out_assoc)

lemma then_out_id: "then_out r (\<lambda>rr. (rr, [])) = r"
  by (simp add: then_out_def split_beta Let_def)

lemma fold_then_out:
  "fold (\<lambda>x r. then_out r (f x)) xs (then_out r g) = then_out r (\<lambda>rr. fold (\<lambda>x r. then_out r (f x)) xs (g rr))"
  by (induction xs arbitrary: g) (simp_all add: then_out_assoc)

lemma each_out_Cons: "each_out f (x # xs) rr = then_out (f x rr) (each_out f xs)"
proof -
  have "fold (\<lambda>x r. then_out r (f x)) xs (f x rr) = fold (\<lambda>x r. then_out r (f x)) xs (then_out (f x rr) (\<lambda>rr. (rr, [])))"
    by (simp add: then_out_id)
  also have "\<dots> = then_out (f x rr) (each_out f xs)" by (simp add: fold_then_out each_out_def [abs_def])
  moreover have "then_out (rr, []) (f x) = f x rr" by (simp add: then_out_def split_beta Let_def)
  ultimately show ?thesis by (simp add: each_out_def)
qed

lemma each_out_Nil: "each_out f [] rr = (rr, [])"
  by (simp add: each_out_def)

lemma keeps_all_each: "\<forall>x \<in> set xs. keeps_all P (f x) \<Longrightarrow> keeps_all P (each_out f xs)"
proof (induction xs)
  case Nil
  then show ?case by (simp add: keeps_all_def each_out_Nil then_out_id)
next
  case (Cons x xs)
  then have "keeps_all P (\<lambda>rr. then_out (f x rr) (each_out f xs))" by (intro keeps_all_then) simp_all
  then show ?case by (simp add: each_out_Cons [abs_def])
qed

lemma split_first_Some: "split_first f xs = Some (pre, y, post) \<Longrightarrow> \<exists>x. xs = pre @ x # post \<and> f x = Some y \<and> (\<forall>p \<in> set pre. f p = None)"
  by (induction xs arbitrary: pre) (auto split: option.splits)

lemma split_first_None: "split_first f xs = None \<longleftrightarrow> (\<forall>x \<in> set xs. f x = None)"
  by (induction xs) (auto split: option.splits)

section \<open>Queries that wait\<close>

text \<open>What matters of the queries ahead: their kinds and channels.\<close>

definition kind :: "query \<Rightarrow> query_form \<times> string" where
  "kind q = (q_form q, q_channel q)"

definition kinds :: "router \<Rightarrow> (query_form \<times> string) multiset" where
  "kinds rr = image_mset kind (mset (ahead rr))"

lemma blocks_kind: "kind a = kind b \<Longrightarrow> blocks env a q = blocks env b q"
  by (auto simp: kind_def blocks_def)

lemma blocks_fold: "re_fold e1 = re_fold e2 \<Longrightarrow> blocks e1 = blocks e2"
  by (intro ext) (auto simp: blocks_def)

text \<open>What one query blocks, another it blocks blocks too.\<close>

lemma blocks_switch: "blocks env other q \<Longrightarrow> blocks env other w \<Longrightarrow> blocks env q w"
  by (auto simp: blocks_def WAITS_def split: if_splits)

lemma blocks_switch2: "blocks env other q \<Longrightarrow> blocks env other w \<Longrightarrow> blocks env x q \<Longrightarrow> blocks env x w"
  by (auto simp: blocks_def WAITS_def split: if_splits)

definition blocked :: "router_env \<Rightarrow> query \<Rightarrow> (query_form \<times> string) multiset \<Rightarrow> bool" where
  "blocked env q ks \<longleftrightarrow> (\<exists>other. kind other \<in># ks \<and> blocks env other q)"

lemma mustWait_kinds: "mustWait env q rr \<longleftrightarrow> blocked env q (kinds rr)"
proof
  assume "blocked env q (kinds rr)"
  then obtain other x where "x \<in> set (ahead rr)" "kind x = kind other" "blocks env other q"
    unfolding blocked_def kinds_def by (metis (no_types, lifting) imageE in_image_mset set_mset_mset)
  then show "mustWait env q rr" using blocks_kind unfolding mustWait_def by blast
qed (auto simp: blocked_def kinds_def mustWait_def)

definition solo :: "(query_form \<times> string) multiset \<Rightarrow> bool" where
  "solo ks \<longleftrightarrow> (\<forall>f \<in> set WAITS. size (filter_mset (\<lambda>k. fst k = f) ks) \<le> 1)"

definition queued :: "router_env \<Rightarrow> router \<Rightarrow> bool" where
  "queued env rr \<longleftrightarrow> solo (kinds rr) \<and> (\<forall>w \<in> set (rr_waiting rr). blocked env w (kinds rr))"

lemma solo_sub: "solo ks \<Longrightarrow> js \<subseteq># ks \<Longrightarrow> solo js"
  unfolding solo_def by (meson filter_mset_mono_strong size_mset_mono le_trans multiset_filter_mono)

lemma solo_add: "solo ks \<Longrightarrow> \<not> blocked env q ks \<Longrightarrow> solo (add_mset (kind q) ks)"
proof -
  assume s: "solo ks" and b: "\<not> blocked env q ks"
  have "filter_mset (\<lambda>k. fst k = q_form q) ks = {#}" if "q_form q \<in> set WAITS"
  proof (rule ccontr)
    assume "filter_mset (\<lambda>k. fst k = q_form q) ks \<noteq> {#}"
    then obtain f c where k: "(f, c) \<in># ks" "f = q_form q" by fastforce
    then have "kind (q\<lparr>q_channel := c\<rparr>) \<in># ks" "blocks env (q\<lparr>q_channel := c\<rparr>) q"
      using that by (simp_all add: kind_def blocks_def)
    then show False using b unfolding blocked_def by blast
  qed
  with s show ?thesis by (auto simp: solo_def kind_def)
qed

lemma blocked_mono: "blocked env q js \<Longrightarrow> js \<subseteq># ks \<Longrightarrow> blocked env q ks"
  unfolding blocked_def by (meson mset_subset_eqD)

lemma kinds_wire:
  "kinds (rr\<lparr>rr_wire := qs\<rparr>) = image_mset kind (mset qs) + image_mset kind (mset (case rr_settle rr of None \<Rightarrow> [] | Some (q, w) \<Rightarrow> [q]))"
  "kinds (rr\<lparr>rr_waiting := ws\<rparr>) = kinds rr"
  by (simp_all add: kinds_def ahead_def)

lemma kinds_eq:
  "kinds rr = image_mset kind (mset (rr_wire rr)) + image_mset kind (mset (case rr_settle rr of None \<Rightarrow> [] | Some (q, w) \<Rightarrow> [q]))"
  by (simp add: kinds_def ahead_def)

lemma line_went_kinds [simp]: "kinds (line_went env i rr) = kinds rr"
proof (cases "split_first (with_id i) (rr_wire rr)")
  case (Some r)
  obtain pre q post where r: "r = (pre, q, post)" by (cases r)
  from split_first_Some [OF Some [unfolded r]] obtain x where "rr_wire rr = pre @ x # post" "with_id i x = Some q" by auto
  then have w: "rr_wire rr = pre @ q # post" by (simp add: with_id_def split: if_splits)
  have e: "line_went env i rr = rr\<lparr>rr_wire := pre @ post @ [q\<lparr>q_sent := True, q_written := False, q_heardAt := re_now env, q_timer := True\<rparr>]\<rparr>"
    by (simp add: line_went_def Some r)
  show ?thesis unfolding e kinds_wire kinds_eq w by (simp add: kind_def)
qed (simp add: line_went_def)

lemma line_went_simps [simp]:
  "rr_waiting (line_went env i rr) = rr_waiting rr" "rr_settle (line_went env i rr) = rr_settle rr"
  "rr_modes (line_went env i rr) = rr_modes rr" "rr_orphans (line_went env i rr) = rr_orphans rr"
  by (simp_all add: line_went_def split: option.splits prod.splits)

text \<open>Putting a query on the wire, or to wait.\<close>

lemma dispatchNow_kinds:
  assumes "re_canSend env" "solo (kinds rr)"
  shows "solo (kinds (fst (dispatchNow env q rr)))" "kinds rr \<subseteq># kinds (fst (dispatchNow env q rr))"
    "rr_waiting (fst (dispatchNow env q rr)) = rr_waiting rr @ (if mustWait env q rr then [q] else [])"
    "\<not> mustWait env q rr \<Longrightarrow> kind q \<in># kinds (fst (dispatchNow env q rr))"
proof -
  let ?rr = "rr\<lparr>rr_wire := rr_wire rr @ [q\<lparr>q_written := True\<rparr>]\<rparr>"
  have k: "kinds ?rr = add_mset (kind q) (kinds rr)"
    by (simp add: kinds_wire kinds_eq [of rr] kind_def)
  have "solo (kinds ?rr)" if "\<not> mustWait env q rr" using solo_add [OF assms(2)] that k by (simp add: mustWait_kinds)
  then show "solo (kinds (fst (dispatchNow env q rr)))" "kinds rr \<subseteq># kinds (fst (dispatchNow env q rr))"
    "rr_waiting (fst (dispatchNow env q rr)) = rr_waiting rr @ (if mustWait env q rr then [q] else [])"
    "\<not> mustWait env q rr \<Longrightarrow> kind q \<in># kinds (fst (dispatchNow env q rr))"
    using assms k by (simp_all add: dispatchNow_def Let_def kinds_wire(2))
qed

lemma dispatchNow_queued:
  assumes "re_canSend env" "queued env rr"
  shows "queued env (fst (dispatchNow env q rr))"
proof -
  have s: "solo (kinds rr)" using assms(2) by (simp add: queued_def)
  note d = dispatchNow_kinds [OF assms(1) s, of q]
  have "blocked env w (kinds (fst (dispatchNow env q rr)))" if "w \<in> set (rr_waiting (fst (dispatchNow env q rr)))" for w
    using that assms(2) d(2,3) blocked_mono [of env w "kinds rr"] by (auto simp: queued_def mustWait_kinds split: if_splits)
  then show ?thesis using d(1) by (simp add: queued_def)
qed

lemma dispatch_behind_queued:
  assumes "re_canSend env" "queued env rr"
  shows "queued env (fst (dispatch_behind env q rr))"
  using dispatchNow_queued [OF assms] assms(2) by (simp add: dispatch_behind_def split: option.splits)

lemma then_out_P: "P (fst r) \<Longrightarrow> (\<And>rr. P rr \<Longrightarrow> P (fst (f rr))) \<Longrightarrow> P (fst (then_out r f))"
  by (simp add: then_out_fst)

lemma each_out_P: "P rr \<Longrightarrow> (\<And>x rr. P rr \<Longrightarrow> P (fst (f x rr))) \<Longrightarrow> P (fst (each_out f xs rr))"
  by (induction xs arbitrary: rr) (simp_all add: each_out_Nil each_out_Cons then_out_fst)

text \<open>A query that takes the place of those it sends behind it blocks whom they blocked.\<close>

lemma dispatch_queued:
  assumes can: "re_canSend env" and q: "queued env rr"
  shows "queued env (fst (dispatch_query env q rr))"
proof (cases "q_asker q = None \<or> answerFromCache env q rr \<noteq> None")
  case True
  then show ?thesis using q by (auto simp: dispatch_query_def)
next
  case False
  define ga where "ga = (\<lambda>other. q_asker q \<noteq> Some AskLurker \<and> steps_aside env q other)"
  define rr1 where "rr1 = rr\<lparr>rr_wire := filter (\<lambda>other. \<not> ga other) (rr_wire rr)\<rparr>"
  let ?aside = "filter ga (rr_wire rr)"
  have d: "dispatch_query env q rr = then_out (then_out (rr1, map (\<lambda>other. CancelWrite (q_id other)) ?aside) (dispatchNow env q))
      (each_out (\<lambda>other. dispatch_behind env (other\<lparr>q_written := False\<rparr>)) ?aside)"
    using False by (auto simp: dispatch_query_def Let_def ga_def rr1_def)
  have split: "kinds rr = kinds rr1 + image_mset kind (mset ?aside)"
  proof -
    have "mset (rr_wire rr) = mset (filter ga (rr_wire rr)) + mset (filter (\<lambda>other. \<not> ga other) (rr_wire rr))"
      by simp
    then have "image_mset kind (mset (rr_wire rr)) =
        image_mset kind (mset (filter ga (rr_wire rr))) + image_mset kind (mset (filter (\<lambda>other. \<not> ga other) (rr_wire rr)))"
      by (metis image_mset_union)
    then show ?thesis unfolding rr1_def kinds_wire kinds_eq by (simp add: ac_simps)
  qed
  have s1: "solo (kinds rr1)" using q split solo_sub [of "kinds rr" "kinds rr1"] by (simp add: queued_def)
  note n = dispatchNow_kinds [OF can s1, of q]
  let ?rr2 = "fst (dispatchNow env q rr1)"
  have w1: "rr_waiting rr1 = rr_waiting rr" by (simp add: rr1_def)
  have stays: "blocked env w (kinds ?rr2)" if w: "w \<in> set (rr_waiting ?rr2)" for w
  proof (cases "w \<in> set (rr_waiting rr)")
    case True
    then obtain other where other: "kind other \<in># kinds rr" "blocks env other w"
      using q by (auto simp: queued_def blocked_def)
    show ?thesis
    proof (cases "kind other \<in># kinds rr1")
      case True
      then have "blocked env w (kinds rr1)" using other(2) unfolding blocked_def by blast
      then show ?thesis by (rule blocked_mono [OF _ n(2)])
    next
      case False
      then obtain x where x: "x \<in> set ?aside" "kind x = kind other" using other(1) split by auto
      then have b: "blocks env x q" "blocks env x w" using other(2) blocks_kind [of x other] by (auto simp: ga_def steps_aside_def)
      show ?thesis
      proof (cases "mustWait env q rr1")
        case True
        then obtain y where "kind y \<in># kinds rr1" "blocks env y q" by (auto simp: mustWait_kinds blocked_def)
        then have "blocked env w (kinds rr1)" using blocks_switch2 [OF b] unfolding blocked_def by blast
        then show ?thesis by (rule blocked_mono [OF _ n(2)])
      next
        case nw: False
        then show ?thesis using n(4) blocks_switch [OF b] unfolding blocked_def by blast
      qed
    qed
  next
    case False
    then have "w = q" "mustWait env q rr1" using w n(3) w1 by (auto split: if_splits)
    then show ?thesis using blocked_mono [OF _ n(2)] by (simp add: mustWait_kinds)
  qed
  then have "queued env ?rr2" using n(1) by (simp add: queued_def)
  then have "queued env (fst (then_out (rr1, map (\<lambda>other. CancelWrite (q_id other)) ?aside) (dispatchNow env q)))"
    by (simp add: then_out_fst)
  then show ?thesis unfolding d
    by (rule then_out_P) (rule each_out_P, assumption, rule dispatch_behind_queued [OF can])
qed

lemma release_queued: "re_canSend env \<Longrightarrow> solo (kinds rr) \<Longrightarrow> queued env (fst (releaseWaiting env rr))"
  unfolding releaseWaiting_def by (rule each_out_P) (simp add: queued_def kinds_wire, rule dispatch_queued)

lemma finish_queued:
  assumes "re_canSend env" "solo (add_mset (kind q) (kinds rr))" "rr_settle rr = None"
  shows "solo (kinds (fst (finish_query env q wants how rr)))"
    "\<forall>w \<in> set (rr_waiting rr). blocked env w (add_mset (kind q) (kinds rr)) \<Longrightarrow> queued env (fst (finish_query env q wants how rr))"
proof -
  have s: "solo (kinds rr)" using assms(2) solo_sub by fastforce
  have k: "kinds (rr\<lparr>rr_settle := Some (q\<lparr>q_timer := False\<rparr>, w)\<rparr>) = add_mset (kind q) (kinds rr)" for w
    using assms(3) by (simp add: kinds_def ahead_def kind_def)
  have r: "queued env (fst (releaseWaiting env rr))" by (rule release_queued [OF assms(1) s])
  show "solo (kinds (fst (finish_query env q wants how rr)))"
    using k assms(2) r by (auto simp: finish_query_def then_out_fst queued_def split: option.splits)
  show "\<forall>w \<in> set (rr_waiting rr). blocked env w (add_mset (kind q) (kinds rr)) \<Longrightarrow> queued env (fst (finish_query env q wants how rr))"
    using k assms(2) r by (auto simp: finish_query_def then_out_fst queued_def split: option.splits)
qed

lemma roleOf_kind: "roleOf env lb q command params = Some (r, q') \<Longrightarrow> kind q' = kind q \<and> q_id q' = q_id q \<and> q_asker q' = q_asker q \<and> q_sent q' = q_sent q \<and> q_written q' = q_written q"
  by (auto simp: roleOf_def role_if_def metadata_role_def chathistory_role_def Let_def kind_def split: query_form.splits if_splits option.splits prod.splits)

text \<open>A line from the server: the query that settled is given up first, and whoever it held up is tried again last.\<close>

lemma claim_line_queued:
  assumes can: "re_canSend env" and q: "solo (kinds rr)" "rr_settle rr = None"
  shows "solo (kinds (fst (snd (claim_line env command params rr)))) \<and>
    (queued env rr \<longrightarrow> queued env (fst (snd (claim_line env command params rr))))"
proof (cases "split_first (answered_by env (rr_lineBatch rr) command params) (rr_wire rr)")
  case (Some z)
  obtain pre r q' post where z: "z = (pre, (r, q'), post)" by (cases z) auto
  from split_first_Some [OF Some [unfolded z]] obtain x where
    w: "rr_wire rr = pre @ x # post" and a: "answered_by env (rr_lineBatch rr) command params x = Some (r, q')" by auto
  from a obtain y where y: "roleOf env (rr_lineBatch rr) x command params = Some (r, y)"
    "q' = y\<lparr>q_heardAt := re_now env, q_started := True\<rparr>" by (auto simp: answered_by_def split: if_splits)
  have k: "kind q' = kind x" using roleOf_kind [OF y(1)] y(2) by (simp add: kind_def)
  have body: "kinds (rr\<lparr>rr_wire := pre @ q' # post\<rparr>) = kinds rr" unfolding kinds_wire kinds_eq w by (simp add: k)
  have rest: "add_mset (kind q') (kinds (rr\<lparr>rr_wire := pre @ post\<rparr>)) = kinds rr" unfolding kinds_wire kinds_eq w by (simp add: k)
  have "solo (kinds (fst (finish_query env q' ws how (rr\<lparr>rr_wire := pre @ post\<rparr>)))) \<and>
      (queued env rr \<longrightarrow> queued env (fst (finish_query env q' ws how (rr\<lparr>rr_wire := pre @ post\<rparr>))))" for ws how
    using finish_queued [OF can, of q' "rr\<lparr>rr_wire := pre @ post\<rparr>"] q rest by (simp add: queued_def)
  moreover have "queued env (rr\<lparr>rr_wire := pre @ q' # post\<rparr>) = queued env rr" using body by (simp add: queued_def)
  ultimately show ?thesis using body q(1) by (simp add: claim_line_def Some z Let_def)
next
  case None
  show ?thesis
  proof (cases "split_first (refused_by env command params) (rr_wire rr)")
    case e: None
    then show ?thesis using None q by (simp add: claim_line_def)
  next
    case (Some z)
    obtain pre q' post where z: "z = (pre, q', post)" by (cases z) auto
    from split_first_Some [OF Some [unfolded z]] obtain x where
      w: "rr_wire rr = pre @ x # post" and a: "refused_by env command params x = Some q'" by auto
    have x: "x = q'" using a by (simp add: refused_by_def split: if_splits)
    have rest: "add_mset (kind q') (kinds (rr\<lparr>rr_wire := pre @ post\<rparr>)) = kinds rr" unfolding kinds_wire kinds_eq w by (simp add: x)
    have "solo (kinds (fst (finish_query env q' ws how (rr\<lparr>rr_wire := pre @ post\<rparr>)))) \<and>
        (queued env rr \<longrightarrow> queued env (fst (finish_query env q' ws how (rr\<lparr>rr_wire := pre @ post\<rparr>))))" for ws how
      using finish_queued [OF can, of q' "rr\<lparr>rr_wire := pre @ post\<rparr>"] q rest by (simp add: queued_def)
    then show ?thesis by (simp add: claim_line_def None Some z)
  qed
qed

lemma claimOrphan_fields:
  "rr_wire (snd (claimOrphan command params rr)) = rr_wire rr" "rr_waiting (snd (claimOrphan command params rr)) = rr_waiting rr"
  "rr_settle (snd (claimOrphan command params rr)) = rr_settle rr" "rr_lineBatch (snd (claimOrphan command params rr)) = rr_lineBatch rr"
  by (simp_all add: claimOrphan_def Let_def split: option.splits)

lemma queued_cong:
  "queued env rr \<Longrightarrow> rr_wire rr' = rr_wire rr \<Longrightarrow> rr_waiting rr' = rr_waiting rr \<Longrightarrow> rr_settle rr' = rr_settle rr \<Longrightarrow> queued env rr'"
  by (simp add: queued_def kinds_def ahead_def)

lemma noteModes_fields [simp]:
  "rr_wire (noteModes env line command params source rr) = rr_wire rr"
  "rr_waiting (noteModes env line command params source rr) = rr_waiting rr"
  "rr_settle (noteModes env line command params source rr) = rr_settle rr"
  "rr_orphans (noteModes env line command params source rr) = rr_orphans rr"
  by (simp_all add: noteModes_def Let_def split: option.splits prod.splits)

lemma find_owner_solo:
  assumes can: "re_canSend env" and q: "queued env rr"
  shows "solo (kinds (fst (snd (find_owner env command params rr))))"
    "rr_settle rr = None \<Longrightarrow> queued env (fst (snd (find_owner env command params rr)))"
proof -
  let ?rr = "rr\<lparr>rr_settle := None\<rparr>"
  have solo: "solo (kinds ?rr)" using q solo_sub [of "kinds rr" "kinds ?rr"] by (auto simp: queued_def kinds_def ahead_def split: option.splits)
  have same: "rr_settle rr = None \<Longrightarrow> ?rr = rr" by simp
  let ?rr2 = "snd (claimOrphan command params ?rr)"
  have f: "rr_wire ?rr2 = rr_wire rr" "rr_waiting ?rr2 = rr_waiting rr" "rr_settle ?rr2 = None"
    by (simp_all add: claimOrphan_fields)
  have e: "solo (kinds ?rr2)" using solo f by (simp add: kinds_def ahead_def)
  note c = claim_line_queued [OF can e f(3), of command params]
  show "rr_settle rr = None \<Longrightarrow> queued env (fst (snd (find_owner env command params rr)))"
  proof -
    assume n: "rr_settle rr = None"
    have "queued env ?rr2" by (rule queued_cong [OF q]) (simp_all add: f n)
    then show ?thesis using c q n
      by (auto simp: find_owner_def split_beta Let_def split: option.splits prod.splits)
  qed
  show "solo (kinds (fst (snd (find_owner env command params rr))))"
    using solo e c by (auto simp: find_owner_def split_beta Let_def split: option.splits prod.splits)
qed

lemma server_line_queued:
  assumes can: "re_canSend env" and q: "queued env rr"
  shows "queued env (fst (snd (noteServerLine env line command params source rr)))"
proof -
  let ?rr = "(noteModes env line command params source rr)\<lparr>rr_lineBatch := batchTagOf line\<rparr>"
  have 1: "queued env ?rr" by (rule queued_cong [OF q]) simp_all
  obtain ow r where o: "find_owner env command params ?rr = (ow, r)" by (cases "find_owner env command params ?rr")
  have "solo (kinds (fst r))" "rr_settle ?rr = None \<Longrightarrow> queued env (fst r)"
    using find_owner_solo [OF can 1, of command params] o by auto
  then show ?thesis
    using release_queued [OF can, of "fst r"]
    by (cases "rr_settle ?rr") (simp_all add: noteServerLine_def Let_def o then_out_fst del: noteModes_fields(3))
qed

text \<open>The other events.\<close>

lemma send_queued: "re_canSend env \<Longrightarrow> queued env rr \<Longrightarrow> queued env (fst (router_send env a line p u rr))"
proof -
  assume can: "re_canSend env" and q: "queued env rr"
  have "queued env (rr\<lparr>rr_next := n\<rparr>)" for n by (rule queued_cong [OF q]) simp_all
  then show ?thesis using dispatch_queued [OF can] q by (simp add: router_send_def Let_def split: option.splits)
qed

lemma settle_over_queued: "re_canSend env \<Longrightarrow> queued env rr \<Longrightarrow> queued env (fst (settle_over env rr))"
proof -
  assume can: "re_canSend env" and q: "queued env rr"
  have "solo (kinds (rr\<lparr>rr_settle := None\<rparr>))" using q solo_sub [of "kinds rr" "kinds (rr\<lparr>rr_settle := None\<rparr>)"]
    by (auto simp: queued_def kinds_def ahead_def split: option.splits)
  then show ?thesis using release_queued [OF can] q by (simp add: settle_over_def)
qed

lemma quiet_queued: "re_canSend env \<Longrightarrow> queued env rr \<Longrightarrow> queued env (fst (query_quiet env i rr))"
proof (cases "split_first (with_id i) (rr_wire rr)")
  case None
  then show "queued env rr \<Longrightarrow> ?thesis" by (simp add: query_quiet_def)
next
  case (Some z)
  assume can: "re_canSend env" and q: "queued env rr"
  obtain pre x post where z: "z = (pre, x, post)" by (cases z)
  from split_first_Some [OF Some [unfolded z]] obtain y where w: "rr_wire rr = pre @ y # post" by auto
  have "kinds (rr\<lparr>rr_wire := pre @ post\<rparr>) \<subseteq># kinds rr" unfolding kinds_wire kinds_eq w by simp
  then have "solo (kinds (rr\<lparr>rr_wire := pre @ post\<rparr>))" using q solo_sub by (auto simp: queued_def)
  moreover have "kinds (orphan_batch x rr') = kinds rr'" for rr' by (simp add: orphan_batch_def Let_def kinds_def ahead_def)
  ultimately have "solo (kinds (orphan_batch x (rr\<lparr>rr_wire := pre @ post\<rparr>)))" by simp
  then show ?thesis using release_queued [OF can] q by (simp add: query_quiet_def Some z then_out_fst)
qed

lemma drop_asker_kind [simp]: "kind (drop_asker c q) = kind q"
  by (simp add: drop_asker_def kind_def)

lemma drop_queued:
  assumes can: "re_canSend env" and q: "queued env rr"
  shows "queued env (fst (dropClient env c rr))"
proof -
  let ?mine = "\<lambda>q. q_asker q = Some (AskClient c)"
  let ?gone = "\<lambda>q. ?mine q \<and> \<not> q_sent q"
  define rr1 where "rr1 = rr\<lparr>rr_waiting := filter (\<lambda>q. \<not> ?mine q) (rr_waiting rr),
    rr_wire := map (drop_asker c) (filter (\<lambda>q. \<not> ?gone q) (rr_wire rr)),
    rr_settle := map_option (\<lambda>(q, w). (drop_asker c q, w)) (rr_settle rr)\<rparr>"
  have d: "dropClient env c rr = then_out (rr1, map (\<lambda>q. CancelWrite (q_id q)) (filter q_written (filter ?gone (rr_wire rr))))
      (if filter ?gone (rr_wire rr) = [] then (\<lambda>rr. (rr, [])) else releaseWaiting env)"
    by (simp add: dropClient_def Let_def rr1_def)
  have k: "kinds rr1 = image_mset kind (mset (filter (\<lambda>q. \<not> ?gone q) (rr_wire rr))) +
      image_mset kind (mset (case rr_settle rr of None \<Rightarrow> [] | Some (q, w) \<Rightarrow> [q]))"
    by (simp add: rr1_def kinds_def ahead_def image_mset.compositionality comp_def split: option.splits)
  have "image_mset kind (mset (filter (\<lambda>q. \<not> ?gone q) (rr_wire rr))) \<subseteq># image_mset kind (mset (rr_wire rr))"
    by (simp add: image_mset_subseteq_mono)
  then have sub: "kinds rr1 \<subseteq># kinds rr" unfolding k kinds_eq [of rr] by (simp add: subset_mset.add_right_mono)
  have s: "solo (kinds rr1)" using q sub solo_sub by (auto simp: queued_def)
  show ?thesis
  proof (cases "filter ?gone (rr_wire rr) = []")
    case False
    have "queued env (fst (releaseWaiting env rr1))" by (rule release_queued [OF can s])
    with False show ?thesis unfolding d by (simp add: then_out_fst del: filter_empty_conv)
  next
    case True
    then have "filter (\<lambda>q. \<not> ?gone q) (rr_wire rr) = rr_wire rr" by (auto simp: filter_empty_conv intro: filter_True)
    then have "kinds rr1 = kinds rr" using k kinds_eq [of rr] by simp
    then have "queued env rr1" using q by (auto simp: queued_def rr1_def)
    with True show ?thesis unfolding d by (simp add: then_out_fst del: filter_empty_conv)
  qed
qed

lemma step_queued:
  assumes "re_canSend env" "queued env rr"
  shows "queued env (fst (router_step env ev rr))"
proof (cases ev)
  case (LineWent i)
  then show ?thesis using assms(2) by (simp add: queued_def)
next
  case (Reset cancelled)
  then show ?thesis by (simp add: router_reset_def Let_def queued_def kinds_def ahead_def solo_def)
qed (simp_all add: send_queued [OF assms] settle_over_queued [OF assms] quiet_queued [OF assms] drop_queued [OF assms]
      server_line_queued [OF assms])

section \<open>Properties\<close>

lemma queued_fold: "re_fold e1 = re_fold e2 \<Longrightarrow> queued e1 rr = queued e2 rr"
  using blocks_fold [of e1 e2] by (simp add: queued_def blocked_def)

lemma run_queued:
  assumes "\<forall>(e, ev) \<in> set evs. re_canSend e \<and> re_fold e = F" "re_fold env = F"
  shows "queued env (fst (run_router evs))"
  using assms(1)
proof (induction evs rule: rev_induct)
  case Nil
  show ?case by (simp add: run_router_def queued_def kinds_def ahead_def new_router_def solo_def)
next
  case (snoc x evs)
  obtain e ev where x: "x = (e, ev)" by (cases x)
  have e: "re_canSend e" "re_fold e = F" "\<forall>(e, ev) \<in> set evs. re_canSend e \<and> re_fold e = F" using snoc.prems x by auto
  have "queued e (fst (run_router evs))" using snoc.IH [OF e(3)] queued_fold [of e env] e(2) assms(2) by simp
  then have "queued e (fst (router_step e ev (fst (run_router evs))))" by (rule step_queued [OF e(1)])
  then show ?case using queued_fold [of e env] e(2) assms(2) by (simp add: run_router_snoc router_next_def x then_out_fst)
qed

lemma size_filter_kinds:
  "size (filter_mset (\<lambda>k. fst k = f) (image_mset kind (mset qs))) = length (filter (\<lambda>q. q_form q = f) qs)"
  by (induction qs) (simp_all add: kind_def)

text \<open>C25: While the connection can send, of the queries whose replies name nothing at most one of a kind is on the
  wire or owed its last line, so such a reply is never ambiguous; and no query is left waiting: each waits for
  one that is on the wire or owed its last line at that moment.\<close>

theorem queries_wait_their_turn:
  assumes "\<forall>(e, ev) \<in> set evs. re_canSend e \<and> re_fold e = re_fold env"
  shows "(\<forall>f \<in> set WAITS. length (filter (\<lambda>q. q_form q = f) (ahead (fst (run_router evs)))) \<le> 1) \<and>
    (\<forall>w \<in> set (rr_waiting (fst (run_router evs))). \<exists>other \<in> set (ahead (fst (run_router evs))). blocks env other w)"
proof -
  have q: "queued env (fst (run_router evs))" by (rule run_queued [OF assms refl])
  have "length (filter (\<lambda>q. q_form q = f) (ahead (fst (run_router evs)))) \<le> 1" if "f \<in> set WAITS" for f
    using q that unfolding queued_def solo_def kinds_def size_filter_kinds by blast
  moreover have "mustWait env w (fst (run_router evs))" if "w \<in> set (rr_waiting (fst (run_router evs)))" for w
    using q that by (simp add: queued_def mustWait_kinds)
  ultimately show ?thesis by (simp add: mustWait_def)
qed

text \<open>The sent queries on the wire, in the order their lines went.\<close>

fun sent_hooks :: "router_out list \<Rightarrow> nat list" where
  "sent_hooks [] = []"
| "sent_hooks (SentHook i # out) = i # sent_hooks out"
| "sent_hooks (_ # out) = sent_hooks out"

lemma sent_hooks_append [simp]: "sent_hooks (as @ bs) = sent_hooks as @ sent_hooks bs"
  by (induction as rule: sent_hooks.induct) simp_all

abbreviation sent_ids :: "query list \<Rightarrow> nat list" where
  "sent_ids qs \<equiv> map q_id (filter q_sent qs)"

definition in_sent_order :: "routing \<Rightarrow> bool" where
  "in_sent_order r \<longleftrightarrow>
     subseq (sent_ids (rr_wire (fst r))) (sent_hooks (snd r)) \<and> (\<forall>q \<in> set (rr_waiting (fst r)). \<not> q_sent q)"

lemma no_hooks [simp]:
  "sent_hooks (abort_query q) = []" "sent_hooks (map (\<lambda>q. CancelWrite (q_id q)) qs) = []"
  "sent_hooks (map (\<lambda>q. DroppedHook (q_id q)) qs) = []" "sent_hooks (concat (map abort_query qs)) = []"
proof -
  show a: "sent_hooks (abort_query q) = []" for q by (simp add: abort_query_def split: option.splits prod.splits)
  show "sent_hooks (map (\<lambda>q. CancelWrite (q_id q)) qs) = []" "sent_hooks (map (\<lambda>q. DroppedHook (q_id q)) qs) = []"
    by (induction qs) simp_all
  show "sent_hooks (concat (map abort_query qs)) = []" by (induction qs) (simp_all add: a)
qed

lemma subseq_drop_middle: "subseq (as @ b # cs) xs \<Longrightarrow> subseq (as @ cs) xs"
proof -
  have "subseq (as @ cs) (as @ b # cs)" by (intro list_emb_append_mono) (simp_all add: list_emb_Cons)
  then show "subseq (as @ b # cs) xs \<Longrightarrow> subseq (as @ cs) xs" by (rule subseq_order.order_trans)
qed

lemma line_went_order:
  assumes "subseq (sent_ids (rr_wire rr)) hooks"
  shows "subseq (sent_ids (rr_wire (line_went env i rr))) (hooks @ [i])"
proof (cases "split_first (with_id i) (rr_wire rr)")
  case None
  then show ?thesis using assms list_emb_prefix by (auto simp: line_went_def)
next
  case (Some z)
  obtain pre q post where z: "z = (pre, q, post)" by (cases z)
  from split_first_Some [OF Some [unfolded z]] have w: "rr_wire rr = pre @ q # post" "q_id q = i"
    by (auto simp: with_id_def split: if_splits)
  have "subseq (sent_ids (pre @ post)) hooks"
    using assms w subseq_drop_middle by (auto split: if_splits)
  then show ?thesis using w(2) using list_emb_append_mono [of "(=)" "sent_ids (pre @ post)" hooks "[i]" "[i]"]
    by (simp add: line_went_def Some z)
qed

lemma dispatchNow_order: "\<not> q_sent q \<Longrightarrow> keeps_all in_sent_order (dispatchNow env q)"
  unfolding keeps_all_def
proof (intro allI impI)
  fix r assume q: "\<not> q_sent q" and r: "in_sent_order r"
  let ?rr = "(fst r)\<lparr>rr_wire := rr_wire (fst r) @ [q\<lparr>q_written := True\<rparr>]\<rparr>"
  have w: "sent_ids (rr_wire ?rr) = sent_ids (rr_wire (fst r))" using q by simp
  have "subseq (sent_ids (rr_wire (line_went env (q_id q) ?rr))) (sent_hooks (snd r) @ [q_id q])"
    by (rule line_went_order) (use r w in \<open>simp add: in_sent_order_def\<close>)
  then show "in_sent_order (then_out r (dispatchNow env q))"
    using q r by (auto simp: in_sent_order_def then_out_fst dispatchNow_def Let_def)
qed

lemma cache_order: "answerFromCache env q rr = Some out \<Longrightarrow> sent_hooks out = []"
  by (auto simp: answerFromCache_def split: option.splits if_splits prod.splits)

lemma dispatch_behind_order: "\<not> q_sent q \<Longrightarrow> keeps_all in_sent_order (dispatch_behind env q)"
  unfolding keeps_all_def
proof (intro allI impI)
  fix r assume q: "\<not> q_sent q" and r: "in_sent_order r"
  have n: "in_sent_order (then_out r (dispatchNow env q))" by (rule keeps_allD [OF dispatchNow_order [OF q] r])
  show "in_sent_order (then_out r (dispatch_behind env q))"
  proof (cases "q_asker q = None \<or> answerFromCache env q (fst r) \<noteq> None")
    case True
    then show ?thesis using r cache_order [of env q "fst r"]
      by (auto simp: dispatch_behind_def then_out_fst in_sent_order_def)
  next
    case False
    then have "then_out r (dispatch_behind env q) = then_out r (dispatchNow env q)"
      by (auto simp: dispatch_behind_def then_out_def split_beta)
    with n show ?thesis by simp
  qed
qed

lemma sent_ids_filter: "subseq (sent_ids (filter P qs)) (sent_ids qs)"
  by (induction qs) (auto simp: list_emb_Cons)

lemma sent_ids_filter_conj: "subseq (map q_id (filter (\<lambda>q. P q \<and> q_sent q) qs)) (sent_ids qs)"
  by (induction qs) (auto simp: list_emb_Cons)

lemma dispatch_order: "\<not> q_sent q \<Longrightarrow> keeps_all in_sent_order (dispatch_query env q)"
  unfolding keeps_all_def
proof (intro allI impI)
  fix r assume q: "\<not> q_sent q" and r: "in_sent_order r"
  let ?rr = "fst r"
  show "in_sent_order (then_out r (dispatch_query env q))"
  proof (cases "q_asker q = None \<or> answerFromCache env q ?rr \<noteq> None")
    case True
    then show ?thesis using r cache_order [of env q ?rr]
      by (auto simp: dispatch_query_def then_out_fst in_sent_order_def)
  next
    case False
    define ga where "ga = (\<lambda>other. q_asker q \<noteq> Some AskLurker \<and> steps_aside env q other)"
    let ?aside = "filter ga (rr_wire ?rr)"
    define g where "g = (\<lambda>rr :: router. (rr\<lparr>rr_wire := filter (\<lambda>other. \<not> ga other) (rr_wire rr)\<rparr>, map (\<lambda>other. CancelWrite (q_id other)) ?aside))"
    have e: "then_out r (dispatch_query env q) =
        then_out (then_out (then_out r g) (dispatchNow env q)) (each_out (\<lambda>other. dispatch_behind env (other\<lparr>q_written := False\<rparr>)) ?aside)"
      using False unfolding then_out_assoc
      by (auto simp: dispatch_query_def Let_def ga_def g_def then_out_def split_beta)
    have "subseq (sent_ids (filter (\<lambda>other. \<not> ga other) (rr_wire ?rr))) (sent_hooks (snd r))"
      using r sent_ids_filter subseq_order.order_trans unfolding in_sent_order_def by blast
    then have 1: "in_sent_order (then_out r g)" using r by (simp add: in_sent_order_def then_out_fst g_def)
    have "keeps_all in_sent_order (each_out (\<lambda>other. dispatch_behind env (other\<lparr>q_written := False\<rparr>)) ?aside)"
      by (intro keeps_all_each ballI dispatch_behind_order) (simp add: ga_def steps_aside_def)
    from keeps_allD [OF this keeps_allD [OF dispatchNow_order [OF q] 1]] show ?thesis unfolding e .
  qed
qed

lemma release_order: "in_sent_order r \<Longrightarrow> in_sent_order (then_out r (releaseWaiting env))"
proof -
  assume r: "in_sent_order r"
  define r1 where "r1 = then_out r (\<lambda>rr. (rr\<lparr>rr_waiting := []\<rparr>, []))"
  have "in_sent_order r1" using r by (simp add: in_sent_order_def r1_def then_out_fst)
  moreover have "keeps_all in_sent_order (each_out (dispatch_query env) (rr_waiting (fst r)))"
    using r by (intro keeps_all_each ballI dispatch_order) (simp add: in_sent_order_def)
  ultimately have "in_sent_order (then_out r1 (each_out (dispatch_query env) (rr_waiting (fst r))))" by (metis keeps_allD)
  moreover have "then_out r1 (each_out (dispatch_query env) (rr_waiting (fst r))) = then_out r (releaseWaiting env)"
    by (simp add: r1_def releaseWaiting_def then_out_def split_beta)
  ultimately show ?thesis by simp
qed

lemma order_cong:
  "in_sent_order r \<Longrightarrow> subseq (sent_ids (rr_wire rr)) (sent_ids (rr_wire (fst r))) \<Longrightarrow> set (rr_waiting rr) \<subseteq> set (rr_waiting (fst r)) \<Longrightarrow>
     sent_hooks out = sent_hooks (snd r) \<Longrightarrow> in_sent_order (rr, out)"
  unfolding in_sent_order_def by (auto intro: subseq_order.order_trans)

lemma finish_order: "in_sent_order r \<Longrightarrow> in_sent_order (then_out r (finish_query env q wants how))"
proof -
  assume r: "in_sent_order r"
  have 1: "in_sent_order (then_out r (\<lambda>rr. (rr, [EndHook (q_id q) how])))" using r by (simp add: in_sent_order_def then_out_fst)
  have e: "then_out r (finish_query env q wants how) = then_out (then_out r (\<lambda>rr. (rr, [EndHook (q_id q) how])))
      (\<lambda>rr. case wants of None \<Rightarrow> releaseWaiting env rr | Some w \<Rightarrow> (rr\<lparr>rr_settle := Some (q\<lparr>q_timer := False\<rparr>, w)\<rparr>, []))"
    by (simp add: then_out_assoc finish_query_def [abs_def])
  show ?thesis
  proof (cases wants)
    case None
    then show ?thesis unfolding e using release_order [OF 1] by simp
  next
    case (Some w)
    then show ?thesis unfolding e using 1 by (simp add: in_sent_order_def then_out_fst)
  qed
qed

lemma claim_order: "in_sent_order (rr, out) \<Longrightarrow> in_sent_order (then_out (rr, out) (\<lambda>rr. snd (claim_line env command params rr)))"
proof (cases "split_first (answered_by env (rr_lineBatch rr) command params) (rr_wire rr)")
  case (Some z)
  assume r: "in_sent_order (rr, out)"
  obtain pre ro q' post where z: "z = (pre, (ro, q'), post)" by (cases z) auto
  from split_first_Some [OF Some [unfolded z]] obtain x where
    w: "rr_wire rr = pre @ x # post" and a: "answered_by env (rr_lineBatch rr) command params x = Some (ro, q')" by auto
  from a obtain y where y: "roleOf env (rr_lineBatch rr) x command params = Some (ro, y)"
    "q' = y\<lparr>q_heardAt := re_now env, q_started := True\<rparr>" by (auto simp: answered_by_def split: if_splits)
  have k: "q_id q' = q_id x" "q_sent q' = q_sent x" using roleOf_kind [OF y(1)] y(2) by simp_all
  have 1: "in_sent_order (rr\<lparr>rr_wire := pre @ post\<rparr>, out)"
    by (rule order_cong [OF r]) (use w in \<open>simp_all add: list_emb_append_mono list_emb_Cons\<close>)
  have 2: "in_sent_order (rr\<lparr>rr_wire := pre @ q' # post\<rparr>, out)"
    by (rule order_cong [OF r]) (use w k in \<open>simp_all\<close>)
  show ?thesis
    using finish_order [OF 1] 2 by (simp add: claim_line_def Some z then_out_def split_beta Let_def)
next
  case None
  assume r: "in_sent_order (rr, out)"
  show ?thesis
  proof (cases "split_first (refused_by env command params) (rr_wire rr)")
    case e: None
    then show ?thesis using None r by (simp add: claim_line_def then_out_fst in_sent_order_def)
  next
    case (Some z)
    obtain pre q' post where z: "z = (pre, q', post)" by (cases z) auto
    from split_first_Some [OF Some [unfolded z]] obtain x where w: "rr_wire rr = pre @ x # post" by auto
    have 1: "in_sent_order (rr\<lparr>rr_wire := pre @ post\<rparr>, out)"
      by (rule order_cong [OF r]) (use w in \<open>simp_all add: list_emb_append_mono list_emb_Cons\<close>)
    show ?thesis using finish_order [OF 1] by (simp add: claim_line_def None Some z then_out_def split_beta)
  qed
qed


lemma find_owner_order: "in_sent_order (rr, out) \<Longrightarrow> in_sent_order (then_out (rr, out) (\<lambda>rr. snd (find_owner env command params rr)))"
proof -
  assume r: "in_sent_order (rr, out)"
  let ?rr = "rr\<lparr>rr_settle := None\<rparr>" and ?rr2 = "snd (claimOrphan command params (rr\<lparr>rr_settle := None\<rparr>))"
  have 1: "in_sent_order (?rr, out)" by (rule order_cong [OF r]) simp_all
  have 2: "in_sent_order (?rr2, out)" by (rule order_cong [OF r]) (simp_all add: claimOrphan_fields)
  show ?thesis using 1 2 claim_order [OF 2, of env command params]
    by (auto simp: find_owner_def then_out_def split_beta Let_def split: option.splits prod.splits)
qed

lemma server_line_order:
  "in_sent_order (rr, out) \<Longrightarrow> in_sent_order (then_out (rr, out) (\<lambda>rr. snd (noteServerLine env line command params source rr)))"
proof -
  assume r: "in_sent_order (rr, out)"
  let ?rr = "(noteModes env line command params source rr)\<lparr>rr_lineBatch := batchTagOf line\<rparr>"
  have 1: "in_sent_order (?rr, out)" by (rule order_cong [OF r]) simp_all
  obtain ow r1 where o: "find_owner env command params ?rr = (ow, r1)" by (cases "find_owner env command params ?rr")
  define f where "f = (\<lambda>rr. (rr :: router, case ow of Some (OwnedBy (AskClient c)) \<Rightarrow> [OnReply c command params] | _ \<Rightarrow> []))"
  have "in_sent_order (then_out (?rr, out) (\<lambda>rr. snd (find_owner env command params rr)))" by (rule find_owner_order [OF 1])
  then have "in_sent_order (fst r1, out @ snd r1)" by (simp add: then_out_def split_beta Let_def o)
  then have 2: "in_sent_order (then_out (fst r1, out @ snd r1) f)"
    unfolding in_sent_order_def then_out_fst f_def by (auto split: option.splits reply_owner.splits asker.splits)
  have e: "then_out (rr, out) (\<lambda>rr. snd (noteServerLine env line command params source rr)) =
    (if rr_settle ?rr \<noteq> None then then_out (then_out (fst r1, out @ snd r1) f) (releaseWaiting env) else then_out (fst r1, out @ snd r1) f)"
    by (simp add: noteServerLine_def Let_def o f_def then_out_def split_beta del: noteModes_fields)
  show ?thesis unfolding e using 2 release_order [OF 2] by simp
qed

lemma step_order: "in_sent_order r \<Longrightarrow> in_sent_order (then_out r (router_step env ev))"
proof -
  assume r: "in_sent_order r"
  obtain rr out where e: "r = (rr, out)" by (cases r)
  show ?thesis
  proof (cases ev)
    case (Send a line p u)
    show ?thesis
    proof (cases "classify_line env line")
      case None
      then show ?thesis using r by (simp add: Send in_sent_order_def then_out_fst router_send_def Let_def)
    next
      case (Some f)
      have s: "\<not> q_sent f" using Some by (auto simp: classify_line_def classify_mode_def Let_def spec_def split: option.splits if_splits prod.splits)
      let ?q = "f\<lparr>q_id := rr_next rr, q_asker := Some a, q_lane := if p \<noteq> None then p else if a = AskLurker then Some Low else None, q_unpaced := u\<rparr>"
      have 1: "in_sent_order (rr\<lparr>rr_next := Suc (rr_next rr)\<rparr>, out)" by (rule order_cong [OF r]) (simp_all add: e)
      have q: "\<not> q_sent ?q" using s by simp
      have "in_sent_order (then_out (rr\<lparr>rr_next := Suc (rr_next rr)\<rparr>, out) (dispatch_query env ?q))"
        using keeps_allD [OF dispatch_order [OF q] 1] .
      then show ?thesis by (simp add: Send e then_out_def router_send_def Some Let_def)
    qed
  next
    case (LineWent i)
    then show ?thesis using r line_went_order by (simp add: in_sent_order_def then_out_fst)
  next
    case (ServerLine line command params source)
    have "router_step env ev = (\<lambda>rr. snd (noteServerLine env line command params source rr))"
      by (rule ext) (simp add: ServerLine)
    then show ?thesis using server_line_order [OF r [unfolded e]] by (simp add: e)
  next
    case SettleOver
    have 1: "in_sent_order (rr\<lparr>rr_settle := None\<rparr>, out)" by (rule order_cong [OF r]) (simp_all add: e)
    show ?thesis using r release_order [OF 1, of env] by (simp add: SettleOver settle_over_def e then_out_def split_beta)
  next
    case (QueryQuiet i)
    show ?thesis
    proof (cases "split_first (with_id i) (rr_wire rr)")
      case None
      then show ?thesis using r by (simp add: QueryQuiet query_quiet_def e then_out_def)
    next
      case (Some z)
      obtain pre q post where z: "z = (pre, q, post)" by (cases z)
      from split_first_Some [OF Some [unfolded z]] obtain x where w: "rr_wire rr = pre @ x # post" by auto
      have o: "rr_wire (orphan_batch q rr') = rr_wire rr'" "rr_waiting (orphan_batch q rr') = rr_waiting rr'" for rr'
        by (simp_all add: orphan_batch_def Let_def)
      have 1: "in_sent_order (orphan_batch q (rr\<lparr>rr_wire := pre @ post\<rparr>), out @ abort_query q @ [EndHook i TimedOut])"
        by (rule order_cong [OF r]) (use w in \<open>simp_all add: o e list_emb_append_mono list_emb_Cons\<close>)
      have "then_out (rr, out) (query_quiet env i) =
        (if re_now env - q_heardAt q < re_timeoutMs env then (rr, out)
         else then_out (orphan_batch q (rr\<lparr>rr_wire := pre @ post\<rparr>), out @ abort_query q @ [EndHook i TimedOut]) (releaseWaiting env))"
        by (simp add: query_quiet_def Some z then_out_def split_beta Let_def)
      moreover have "router_step env ev = query_quiet env i" by (rule ext) (simp add: QueryQuiet)
      ultimately show ?thesis using r release_order [OF 1, of env] by (simp add: e)
    qed
  next
    case (DropClient c)
    define rr1 where "rr1 = rr\<lparr>rr_waiting := filter (\<lambda>q. q_asker q \<noteq> Some (AskClient c)) (rr_waiting rr),
      rr_wire := map (drop_asker c) (filter (\<lambda>q. \<not> (q_asker q = Some (AskClient c) \<and> \<not> q_sent q)) (rr_wire rr)),
      rr_settle := map_option (\<lambda>(q, w). (drop_asker c q, w)) (rr_settle rr)\<rparr>"
    let ?un = "filter (\<lambda>q. q_asker q = Some (AskClient c) \<and> \<not> q_sent q) (rr_wire rr)"
    let ?o = "out @ map (\<lambda>q. CancelWrite (q_id q)) (filter q_written ?un)"
    have d: "then_out (rr, out) (dropClient env c) = then_out (rr1, ?o) (if ?un = [] then (\<lambda>rr. (rr, [])) else releaseWaiting env)"
      by (simp add: dropClient_def Let_def rr1_def then_out_def split_beta)
    have ids: "sent_ids (map (drop_asker c) qs) = sent_ids qs" for qs
      by (induction qs) (simp_all add: drop_asker_def)
    have 1: "in_sent_order (rr1, ?o)"
      by (rule order_cong [OF r]) (use sent_ids_filter_conj in \<open>auto simp: rr1_def e ids\<close>)
    show ?thesis unfolding DropClient router_step.simps e d using 1 release_order [OF 1, of env]
      by (simp add: then_out_def del: filter_empty_conv)
  next
    case (Reset cancelled)
    then show ?thesis by (simp add: router_reset_def Let_def in_sent_order_def then_out_fst)
  qed
qed

lemma run_order: "in_sent_order (run_router evs)"
proof (induction evs rule: rev_induct)
  case Nil
  show ?case by (simp add: run_router_def in_sent_order_def new_router_def)
next
  case (snoc e evs)
  then show ?case by (simp add: run_router_snoc router_next_def step_order)
qed

text \<open>Who a line is attributed to.\<close>

definition answers :: "router_env \<Rightarrow> string option \<Rightarrow> string \<Rightarrow> string list \<Rightarrow> query \<Rightarrow> bool" where
  "answers env lineBatch command params q \<longleftrightarrow> q_sent q \<and> roleOf env lineBatch q command params \<noteq> None"

lemma claim_line_owner:
  assumes "fst (claim_line env command params rr) = Some (OwnedBy a)"
  shows "\<exists>pre q post. rr_wire rr = pre @ q # post \<and> q_sent q \<and> q_asker q = Some a \<and>
    ((answers env (rr_lineBatch rr) command params q \<and> \<not> (\<exists>x \<in> set pre. answers env (rr_lineBatch rr) command params x)) \<or>
     (isErrorFor env q command params \<and> \<not> (\<exists>x \<in> set (rr_wire rr). answers env (rr_lineBatch rr) command params x) \<and>
      \<not> (\<exists>x \<in> set pre. q_sent x \<and> isErrorFor env x command params)))"
proof -
  let ?f = "answered_by env (rr_lineBatch rr) command params"
  have ans: "?f x = None \<longleftrightarrow> \<not> answers env (rr_lineBatch rr) command params x" for x
    by (cases "roleOf env (rr_lineBatch rr) x command params") (simp_all add: answered_by_def answers_def)
  have ref: "refused_by env command params x = None \<longleftrightarrow> \<not> (q_sent x \<and> isErrorFor env x command params)" for x
    by (simp add: refused_by_def)
  show ?thesis
  proof (cases "split_first ?f (rr_wire rr)")
    case (Some z)
    obtain pre r q' post where z: "z = (pre, (r, q'), post)" by (cases z) auto
    from split_first_Some [OF Some [unfolded z]] obtain x where
      x: "rr_wire rr = pre @ x # post" "?f x = Some (r, q')" "\<forall>p \<in> set pre. ?f p = None" by auto
    from x(2) obtain y where y: "q_sent x" "roleOf env (rr_lineBatch rr) x command params = Some (r, y)"
      "q' = y\<lparr>q_heardAt := re_now env, q_started := True\<rparr>" by (auto simp: answered_by_def split: if_splits)
    have "q_asker x = Some a" using assms y(3) roleOf_kind [OF y(2)]
      by (auto simp: claim_line_def Some z owner_of_def split: option.splits)
    moreover have "answers env (rr_lineBatch rr) command params x" using y by (simp add: answers_def)
    ultimately show ?thesis using x y(1) ans by blast
  next
    case None
    then have none: "\<not> (\<exists>x \<in> set (rr_wire rr). answers env (rr_lineBatch rr) command params x)"
      unfolding split_first_None using ans by blast
    show ?thesis
    proof (cases "split_first (refused_by env command params) (rr_wire rr)")
      case e: None
      then show ?thesis using assms None by (simp add: claim_line_def)
    next
      case (Some z)
      obtain pre q' post where z: "z = (pre, q', post)" by (cases z) auto
      from split_first_Some [OF Some [unfolded z]] obtain x where
        x: "rr_wire rr = pre @ x # post" "refused_by env command params x = Some q'"
          "\<forall>p \<in> set pre. refused_by env command params p = None" by auto
      from x(2) have y: "q' = x" "q_sent x" "isErrorFor env x command params" by (auto simp: refused_by_def split: if_splits)
      have "q_asker x = Some a" using assms None y(1) by (auto simp: claim_line_def Some z owner_of_def split: option.splits)
      then show ?thesis using x(1,3) y(2,3) none ref by blast
    qed
  qed
qed

text \<open>C26: A line is given to an asker only by the query it belongs to: the one that settled and still expects that
  line, one whose batch it is in or closes, or the oldest sent query on the wire that it answers (an error, if
  it answers none: the oldest it is for) - oldest being the order in which the lines went out.\<close>

theorem replies_go_to_the_oldest:
  assumes "run_router evs = (rr, out)" and "fst (noteServerLine env line command params source rr) = OwnedBy a"
  shows "subseq (sent_ids (rr_wire rr)) (sent_hooks out) \<and>
    ((\<exists>q w. rr_settle rr = Some (q, w) \<and> q_asker q = Some a \<and> settles env (q, w) command params) \<or>
     (\<exists>ref. map_of (rr_orphans rr) ref = Some (Some a) \<and>
        (batchTagOf line = Some ref \<or> command = ''BATCH'' \<and> param params 0 = CHR ''-'' # ref)) \<or>
     (\<exists>pre q post. rr_wire rr = pre @ q # post \<and> q_sent q \<and> q_asker q = Some a \<and>
        ((answers env (batchTagOf line) command params q \<and> \<not> (\<exists>x \<in> set pre. answers env (batchTagOf line) command params x)) \<or>
         (isErrorFor env q command params \<and> \<not> (\<exists>x \<in> set (rr_wire rr). answers env (batchTagOf line) command params x) \<and>
          \<not> (\<exists>x \<in> set pre. q_sent x \<and> isErrorFor env x command params)))))"
proof -
  have o: "subseq (sent_ids (rr_wire rr)) (sent_hooks out)" using run_order [of evs] assms(1) by (simp add: in_sent_order_def)
  let ?rr = "(noteModes env line command params source rr)\<lparr>rr_lineBatch := batchTagOf line\<rparr>"
  let ?settled = "?rr\<lparr>rr_settle := None\<rparr>"
  have f: "fst (find_owner env command params ?rr) = Some (OwnedBy a)"
    using assms(2) by (cases "fst (find_owner env command params ?rr)") (simp_all add: noteServerLine_def Let_def split_beta split: if_splits)
  consider (settle) q w where "rr_settle rr = Some (q, w)" "settles env (q, w) command params" "owner_of (q_asker q) = OwnedBy a"
    | (orphan) "fst (claimOrphan command params ?settled) = Some (OwnedBy a)"
    | (wire) "fst (claim_line env command params (snd (claimOrphan command params ?settled))) = Some (OwnedBy a)"
    using f by (auto simp: find_owner_def Let_def split_beta split: option.splits prod.splits if_splits)
  then show ?thesis
  proof cases
    case settle
    then show ?thesis using o by (auto simp: owner_of_def split: option.splits)
  next
    case orphan
    define ref where "ref = (if command = ''BATCH'' \<and> starts_with (param params 0) ''-'' then Some (drop 1 (param params 0)) else batchTagOf line)"
    from orphan obtain r where r: "ref = Some r" "map_of (rr_orphans rr) r = Some (Some a)"
      by (auto simp: claimOrphan_def Let_def ref_def owner_of_def split: option.splits if_splits)
    have "batchTagOf line = Some r \<or> command = ''BATCH'' \<and> param params 0 = CHR ''-'' # r"
      using r(1) by (cases "param params 0") (auto simp: ref_def starts_with_def split: if_splits)
    with r(2) o show ?thesis by blast
  next
    case wire
    from claim_line_owner [OF wire] o show ?thesis by (simp add: claimOrphan_fields)
  qed
qed

section \<open>Runs\<close>

definition words_msg :: "string \<Rightarrow> irc_msg option" where
  "words_msg line = (case split_on (CHR '' '') line of [] \<Rightarrow> None | w # ws \<Rightarrow> Some \<lparr>msg_command = w, msg_params = ws, msg_prefix = None\<rparr>)"

definition sample_env :: router_env where
  "sample_env = \<lparr>re_parse = words_msg, re_fold = (\<lambda>s. s), re_isJoined = (\<lambda>c. True), re_ownNick = ''me'', re_listModes = [''b''],
     re_prefixModes = [''o'', ''v''], re_canSend = True, re_goes = (\<lambda>i. True), re_now = 0, re_timeoutMs = 30\<rparr>"

definition turns :: "(router_env \<times> router_event) list" where
  "turns = map (Pair sample_env) [Send AskUser ''WHO a'' None False, Send (AskClient 1) ''WHO b'' None False]"

lemma queries_wait_their_turn_witness:
  "length (filter (\<lambda>q. q_form q = Who) (ahead (fst (run_router turns)))) \<le> 1 \<and>
   map q_id (rr_waiting (fst (run_router turns))) = [1]"
proof -
  have "\<forall>(e, ev) \<in> set turns. re_canSend e \<and> re_fold e = re_fold sample_env" by (simp add: turns_def sample_env_def)
  from queries_wait_their_turn [OF this] have "length (filter (\<lambda>q. q_form q = Who) (ahead (fst (run_router turns)))) \<le> 1"
    by (simp add: WAITS_def)
  moreover have "map q_id (rr_waiting (fst (run_router turns))) = [1]" by code_simp
  ultimately show ?thesis by blast
qed

text \<open>Two topics asked of one channel: the first asker gets the first answer.\<close>

definition two_topics :: "(router_env \<times> router_event) list" where
  "two_topics = map (Pair sample_env) [Send AskUser ''TOPIC #a'' None False, Send (AskClient 1) ''TOPIC #a'' None False]"

lemma replies_go_to_the_oldest_witness:
  "\<exists>pre q post. rr_wire (fst (run_router two_topics)) = pre @ q # post \<and> q_sent q \<and> q_asker q = Some AskUser \<and>
     (answers sample_env None ''331'' [''me'', ''#a'', ''No topic''] q \<or> isErrorFor sample_env q ''331'' [''me'', ''#a'', ''No topic''])"
proof -
  have e: "rr_settle (fst (run_router two_topics)) = None" "rr_orphans (fst (run_router two_topics)) = []"
    "fst (noteServerLine sample_env '':s 331 me #a :No topic'' ''331'' [''me'', ''#a'', ''No topic''] None (fst (run_router two_topics))) = OwnedBy AskUser"
    "batchTagOf '':s 331 me #a :No topic'' = None" by code_simp+
  show ?thesis
    using replies_go_to_the_oldest [OF prod.collapse [symmetric] e(3)] unfolding e(1,2,4) by auto
qed

end
