(* ===== verification/Router_Laws.thy ===== *)
theory Router_Laws imports Reply_Router begin

text \<open>
  Two more guarantees of the reply router: what a client's \<open>MODE #chan\<close> is answered from cache is what the network
  last said, and a client that detached hears nothing more.
\<close>

section \<open>The mode cache\<close>

lemma each_modes: "(\<And>x rr. rr_modes (fst (f x rr)) = rr_modes rr) \<Longrightarrow> rr_modes (fst (each_out f xs rr)) = rr_modes rr"
  using each_out_P [of "\<lambda>r. rr_modes r = rr_modes rr" rr f xs] by simp

lemma dispatch_modes [simp]:
  "rr_modes (fst (dispatchNow env q rr)) = rr_modes rr" "rr_modes (fst (dispatch_behind env q rr)) = rr_modes rr"
  "rr_modes (fst (dispatch_query env q rr)) = rr_modes rr" "rr_modes (fst (releaseWaiting env rr)) = rr_modes rr"
  "rr_modes (fst (finish_query env q wants how rr)) = rr_modes rr"
proof -
  show a: "rr_modes (fst (dispatchNow env q rr)) = rr_modes rr" for q rr by (simp add: dispatchNow_def Let_def)
  show b: "rr_modes (fst (dispatch_behind env q rr)) = rr_modes rr" for q rr
    by (simp add: dispatch_behind_def a split: option.splits)
  show c: "rr_modes (fst (dispatch_query env q rr)) = rr_modes rr" for q rr
    by (simp add: dispatch_query_def Let_def then_out_fst a each_modes [OF b] split: option.splits)
  show d: "rr_modes (fst (releaseWaiting env rr)) = rr_modes rr" for rr
    by (simp add: releaseWaiting_def each_modes [OF c])
  show "rr_modes (fst (finish_query env q wants how rr)) = rr_modes rr"
    by (simp add: finish_query_def then_out_fst d split: option.splits)
qed

lemma owner_modes: "rr_modes (fst (snd (find_owner env command params rr))) = rr_modes rr"
proof -
  have "rr_modes (fst (snd (claim_line env command params r))) = rr_modes r" for r
    by (simp add: claim_line_def split: option.splits prod.splits)
  moreover have "rr_modes (snd (claimOrphan command params r)) = rr_modes r" for r
    by (simp add: claimOrphan_def Let_def split: option.splits)
  ultimately show ?thesis by (auto simp: find_owner_def Let_def split_beta split: option.splits prod.splits)
qed

text \<open>What makes the modes kept for a channel stale.\<close>

definition stales :: "router_env \<Rightarrow> string \<Rightarrow> router_event \<Rightarrow> bool" where
  "stales env key ev =
     (case ev of
        ServerLine line command params source \<Rightarrow>
          (command = ''MODE'' \<and> isChannelTarget (Some (param params 0)) \<and> changesShownModes env (param params 1) \<and>
             re_fold env (param params 0) = key) \<or>
          (command = ''JOIN'' \<and> source \<noteq> None \<and> source \<noteq> Some [] \<and> re_fold env (the source) = re_fold env (re_ownNick env) \<and>
             key \<in> re_fold env ` set (split_on (CHR '','') (param params 0)))
      | Reset cancelled \<Rightarrow> True
      | _ \<Rightarrow> False)"

definition is_line :: "router_env \<Rightarrow> string \<Rightarrow> string \<Rightarrow> router_event \<Rightarrow> bool" where
  "is_line env key num ev = (case ev of ServerLine line command params source \<Rightarrow> command = num \<and> re_fold env (param params 1) = key | _ \<Rightarrow> False)"

definition newest_line :: "string \<Rightarrow> string \<Rightarrow> string \<Rightarrow> (router_env \<times> router_event) list \<Rightarrow> bool" where
  "newest_line key num line evs \<longleftrightarrow>
     (\<exists>before e params source since. evs = before @ (e, ServerLine line num params source) # since \<and> re_fold e (param params 1) = key \<and>
        (\<forall>(e', ev) \<in> set since. \<not> stales e' key ev \<and> \<not> is_line e' key num ev))"

lemma newest_line_snoc: "newest_line key num line evs \<Longrightarrow> \<not> stales e key ev \<Longrightarrow> \<not> is_line e key num ev \<Longrightarrow> newest_line key num line (evs @ [(e, ev)])"
proof -
  assume n: "newest_line key num line evs" and s: "\<not> stales e key ev" "\<not> is_line e key num ev"
  from n obtain before e1 params source since where
    1: "evs = before @ (e1, ServerLine line num params source) # since" "re_fold e1 (param params 1) = key"
      "\<forall>(e', ev) \<in> set since. \<not> stales e' key ev \<and> \<not> is_line e' key num ev" unfolding newest_line_def by blast
  have "evs @ [(e, ev)] = before @ (e1, ServerLine line num params source) # (since @ [(e, ev)])" using 1(1) by simp
  moreover have "\<forall>(e', ev) \<in> set (since @ [(e, ev)]). \<not> stales e' key ev \<and> \<not> is_line e' key num ev" using 1(3) s by auto
  ultimately show ?thesis using 1(2) unfolding newest_line_def by blast
qed

lemma newest_line_now: "re_fold e (param params 1) = key \<Longrightarrow> newest_line key num line (evs @ [(e, ServerLine line num params source)])"
  unfolding newest_line_def by fastforce

definition modes_fresh :: "(router_env \<times> router_event) list \<Rightarrow> (string \<times> (string \<times> string option)) list \<Rightarrow> bool" where
  "modes_fresh evs ms \<longleftrightarrow> (\<forall>key mode created. map_of ms key = Some (mode, created) \<longrightarrow>
     key \<noteq> [] \<and> newest_line key ''324'' mode evs \<and> (\<forall>l. created = Some l \<longrightarrow> newest_line key ''329'' l evs))"

lemma map_of_delete_all: "map_of (fold (\<lambda>c. AList.delete (f c)) cs ms) key = (if key \<in> f ` set cs then None else map_of ms key)"
  by (induction cs arbitrary: ms) (auto simp: delete_conv')


lemma note_modes_fresh:
  assumes "modes_fresh evs (rr_modes rr)"
  shows "modes_fresh (evs @ [(env, ServerLine line command params source)]) (rr_modes (noteModes env line command params source rr))"
  unfolding modes_fresh_def
proof (intro allI impI)
  fix key mode created
  let ?ev = "ServerLine line command params source"
  assume m: "map_of (rr_modes (noteModes env line command params source rr)) key = Some (mode, created)"
  have old: "key \<noteq> [] \<and> newest_line key ''324'' mode' evs \<and> (\<forall>l. created' = Some l \<longrightarrow> newest_line key ''329'' l evs)"
    if "map_of (rr_modes rr) key = Some (mode', created')" for mode' created'
    using assms that unfolding modes_fresh_def by blast
  show "key \<noteq> [] \<and> newest_line key ''324'' mode (evs @ [(env, ?ev)]) \<and> (\<forall>l. created = Some l \<longrightarrow> newest_line key ''329'' l (evs @ [(env, ?ev)]))"
  proof (cases "is_line env key ''324'' ?ev \<and> re_fold env (param params 1) \<noteq> []")
    case True
    then have c: "command = ''324''" "re_fold env (param params 1) = key" by (simp_all add: is_line_def)
    have e: "mode = line" "created = (case map_of (rr_modes rr) key of None \<Rightarrow> None | Some (_, l) \<Rightarrow> l)"
      using m c True by (simp_all add: noteModes_def Let_def update_conv')
    have n: "\<not> stales env key ?ev" "\<not> is_line env key ''329'' ?ev" using c by (simp_all add: stales_def is_line_def)
    have "newest_line key ''329'' l (evs @ [(env, ?ev)])" if "created = Some l" for l
      using newest_line_snoc [OF _ n] old e(2) that by (auto split: option.splits)
    then show ?thesis using newest_line_now [OF c(2)] c True e(1) by simp
  next
    case f4: False
    show ?thesis
    proof (cases "is_line env key ''329'' ?ev")
      case True
      then have c: "command = ''329''" "re_fold env (param params 1) = key" by (simp_all add: is_line_def)
      obtain cr where e: "map_of (rr_modes rr) key = Some (mode, cr)" "created = Some line"
        using m c by (auto simp: noteModes_def Let_def update_conv' split: option.splits)
      have n: "\<not> stales env key ?ev" "\<not> is_line env key ''324'' ?ev" using c by (simp_all add: stales_def is_line_def)
      show ?thesis using newest_line_snoc [OF _ n] old [OF e(1)] newest_line_now [OF c(2)] c(1) e(2) by auto
    next
      case f9: False
      have e: "\<not> stales env key ?ev \<and> \<not> is_line env key ''324'' ?ev \<and> map_of (rr_modes rr) key = Some (mode, created)"
        using m f4 f9 old
        by (auto simp: noteModes_def Let_def update_conv' delete_conv' map_of_delete_all is_line_def stales_def split: if_splits option.splits)
      then show ?thesis using old newest_line_snoc f9 by blast
    qed
  qed
qed

lemma step_modes_fresh:
  assumes "modes_fresh evs (rr_modes rr)"
  shows "modes_fresh (evs @ [(env, ev)]) (rr_modes (fst (router_step env ev rr)))"
proof -
  have same: "modes_fresh (evs @ [(env, ev)]) (rr_modes rr)"
    if "\<And>key. \<not> stales env key ev" "\<And>key num. \<not> is_line env key num ev"
    using assms newest_line_snoc that unfolding modes_fresh_def by blast
  show ?thesis
  proof (cases ev)
    case (Send a line p u)
    have "rr_modes (fst (router_send env a line p u rr)) = rr_modes rr" by (simp add: router_send_def Let_def split: option.splits)
    then show ?thesis using same by (simp add: Send stales_def is_line_def)
  next
    case (ServerLine line command params source)
    have "rr_modes (fst (snd (noteServerLine env line command params source rr))) = rr_modes (noteModes env line command params source rr)"
      by (simp add: noteServerLine_def Let_def split_beta then_out_fst owner_modes)
    then show ?thesis using note_modes_fresh [OF assms] by (simp add: ServerLine)
  next
    case (QueryQuiet i)
    have "rr_modes (fst (query_quiet env i rr)) = rr_modes rr"
      by (simp add: query_quiet_def orphan_batch_def Let_def then_out_fst split: option.splits prod.splits)
    then show ?thesis using same by (simp add: QueryQuiet stales_def is_line_def)
  next
    case (Reset cancelled)
    then show ?thesis by (simp add: modes_fresh_def router_reset_def Let_def)
  qed (use same in \<open>simp_all add: stales_def is_line_def settle_over_def dropClient_def Let_def then_out_fst\<close>)
qed

lemma run_modes_fresh: "modes_fresh evs (rr_modes (fst (run_router evs)))"
proof (induction evs rule: rev_induct)
  case Nil
  show ?case by (simp add: run_router_def modes_fresh_def new_router_def)
next
  case (snoc x evs)
  obtain e ev where x: "x = (e, ev)" by (cases x)
  show ?case using step_modes_fresh [OF snoc.IH, of e ev] by (simp add: x run_router_snoc router_next_def then_out_fst)
qed

text \<open>C27: A query answered from cache is a client's \<open>MODE #chan\<close>, and the answer is the newest 324 the network sent for
  that channel, with at most its newest 329: since each of them no mode a 324 shows changed, we did not join the
  channel again, and the socket did not go.\<close>

theorem cached_modes_are_current:
  assumes "answerFromCache env q (fst (run_router evs)) = Some out"
  shows "\<exists>c mode rest. q_asker q = Some (AskClient c) \<and> q_form q = ModeForm \<and> out = [FromCache c (mode # rest)] \<and> length rest \<le> 1 \<and>
    newest_line (re_fold env (q_channel q)) ''324'' mode evs \<and>
    (\<forall>created \<in> set rest. newest_line (re_fold env (q_channel q)) ''329'' created evs)"
proof -
  obtain c mode created where c: "client_of (q_asker q) = Some c" "q_form q = ModeForm"
      "map_of (rr_modes (fst (run_router evs))) (re_fold env (q_channel q)) = Some (mode, created)"
      "out = [FromCache c (case created of None \<Rightarrow> [mode] | Some l \<Rightarrow> if l = [] then [mode] else [mode, l])]"
    using assms by (auto simp: answerFromCache_def split: option.splits if_splits)
  have a: "q_asker q = Some (AskClient c)" using c(1) by (simp add: client_of_def split: option.splits asker.splits)
  have n: "newest_line (re_fold env (q_channel q)) ''324'' mode evs"
    "\<forall>l. created = Some l \<longrightarrow> newest_line (re_fold env (q_channel q)) ''329'' l evs"
    using run_modes_fresh [of evs] c(3) unfolding modes_fresh_def by blast+
  let ?rest = "case created of None \<Rightarrow> [] | Some l \<Rightarrow> if l = [] then [] else [l]"
  have "out = [FromCache c (mode # ?rest)]" "length ?rest \<le> 1" using c(4) by (simp_all split: option.splits)
  moreover have "\<forall>l \<in> set ?rest. newest_line (re_fold env (q_channel q)) ''329'' l evs" using n(2) by (auto split: option.splits)
  ultimately show ?thesis using a c(2) n(1) by blast
qed


section \<open>A client that detached\<close>

definition tells :: "nat \<Rightarrow> router_out \<Rightarrow> bool" where
  "tells c ev = (case ev of FromCache d lines \<Rightarrow> d = c | Aborted d numeric params \<Rightarrow> d = c | OnReply d command params \<Rightarrow> d = c | _ \<Rightarrow> False)"

definition asked :: "nat \<Rightarrow> query \<Rightarrow> bool" where
  "asked c q \<longleftrightarrow> q_asker q = Some (AskClient c)"

definition clear_of :: "nat \<Rightarrow> router \<Rightarrow> bool" where
  "clear_of c rr \<longleftrightarrow> (\<forall>q \<in> set (rr_wire rr) \<union> set (rr_waiting rr). \<not> asked c q) \<and>
     (\<forall>q w. rr_settle rr = Some (q, w) \<longrightarrow> \<not> asked c q) \<and> Some (AskClient c) \<notin> snd ` set (rr_orphans rr)"

definition hushed :: "nat \<Rightarrow> routing \<Rightarrow> bool" where
  "hushed c r \<longleftrightarrow> clear_of c (fst r) \<and> (\<forall>ev \<in> set (snd r). \<not> tells c ev)"

lemma hushed_then: "hushed c r \<Longrightarrow> hushed c (f (fst r)) \<Longrightarrow> hushed c (then_out r f)"
  by (auto simp: hushed_def then_out_fst)

lemma hushed_thenI: "hushed c r \<Longrightarrow> (\<And>rr. clear_of c rr \<Longrightarrow> hushed c (f rr)) \<Longrightarrow> hushed c (then_out r f)"
  by (auto simp: hushed_def then_out_fst)

lemma hushed_each:
  "clear_of c rr \<Longrightarrow> (\<And>x rr. x \<in> set xs \<Longrightarrow> clear_of c rr \<Longrightarrow> hushed c (f x rr)) \<Longrightarrow> hushed c (each_out f xs rr)"
proof (induction xs arbitrary: rr)
  case Nil
  then show ?case by (simp add: each_out_Nil hushed_def)
next
  case (Cons x xs)
  have 1: "hushed c (f x rr)" using Cons.prems by simp
  then have "hushed c (each_out f xs (fst (f x rr)))" using Cons.prems(2) by (intro Cons.IH) (auto simp: hushed_def)
  with 1 show ?case unfolding each_out_Cons by (rule hushed_then)
qed

lemma client_of_eq: "client_of a = Some c \<longleftrightarrow> a = Some (AskClient c)"
  by (simp add: client_of_def split: option.splits asker.splits)

lemma abort_hushed: "\<not> asked c q \<Longrightarrow> ev \<in> set (abort_query q) \<Longrightarrow> \<not> tells c ev"
  by (auto simp: abort_query_def asked_def tells_def client_of_def split: option.splits prod.splits asker.splits)

lemma line_went_clear: "clear_of c rr \<Longrightarrow> clear_of c (line_went env i rr)"
proof (cases "split_first (with_id i) (rr_wire rr)")
  case (Some z)
  assume k: "clear_of c rr"
  obtain pre q post where z: "z = (pre, q, post)" by (cases z)
  from split_first_Some [OF Some [unfolded z]] have w: "rr_wire rr = pre @ q # post" by (auto simp: with_id_def split: if_splits)
  have e: "line_went env i rr = rr\<lparr>rr_wire := pre @ post @ [q\<lparr>q_sent := True, q_written := False, q_heardAt := re_now env, q_timer := True\<rparr>]\<rparr>"
    by (simp add: line_went_def Some z)
  show ?thesis unfolding e using k w by (auto simp: clear_of_def asked_def)
qed (simp add: line_went_def)

lemma dispatchNow_hushed: "\<not> asked c q \<Longrightarrow> clear_of c rr \<Longrightarrow> hushed c (dispatchNow env q rr)"
proof -
  assume q: "\<not> asked c q" and k: "clear_of c rr"
  have "clear_of c (rr\<lparr>rr_wire := rr_wire rr @ [q\<lparr>q_written := True\<rparr>]\<rparr>)" "clear_of c (rr\<lparr>rr_waiting := rr_waiting rr @ [q]\<rparr>)"
    using q k by (auto simp: clear_of_def asked_def)
  then show ?thesis using k line_went_clear abort_hushed [OF q]
    by (auto simp: dispatchNow_def Let_def hushed_def tells_def)
qed

lemma cache_hushed: "answerFromCache env q rr = Some out \<Longrightarrow> \<not> asked c q \<Longrightarrow> ev \<in> set out \<Longrightarrow> \<not> tells c ev"
  by (auto simp: answerFromCache_def asked_def tells_def client_of_eq split: option.splits if_splits)

lemma dispatch_behind_hushed: "\<not> asked c q \<Longrightarrow> clear_of c rr \<Longrightarrow> hushed c (dispatch_behind env q rr)"
  using dispatchNow_hushed [of c q rr env] cache_hushed [of env q rr _ c]
  by (auto simp: dispatch_behind_def hushed_def split: option.splits)

lemma dispatch_hushed: "\<not> asked c q \<Longrightarrow> clear_of c rr \<Longrightarrow> hushed c (dispatch_query env q rr)"
proof (cases "q_asker q = None \<or> answerFromCache env q rr \<noteq> None")
  case True
  assume "\<not> asked c q" "clear_of c rr"
  then show ?thesis using True cache_hushed [of env q rr _ c] by (auto simp: dispatch_query_def hushed_def)
next
  case False
  assume q: "\<not> asked c q" and k: "clear_of c rr"
  define ga where "ga = (\<lambda>other. q_asker q \<noteq> Some AskLurker \<and> steps_aside env q other)"
  let ?aside = "filter ga (rr_wire rr)"
  let ?r1 = "(rr\<lparr>rr_wire := filter (\<lambda>other. \<not> ga other) (rr_wire rr)\<rparr>, map (\<lambda>other. CancelWrite (q_id other)) ?aside)"
  have d: "dispatch_query env q rr = then_out (then_out ?r1 (dispatchNow env q)) (each_out (\<lambda>other. dispatch_behind env (other\<lparr>q_written := False\<rparr>)) ?aside)"
    using False by (auto simp: dispatch_query_def Let_def ga_def)
  have 1: "hushed c ?r1" using k by (auto simp: hushed_def clear_of_def tells_def)
  have 2: "hushed c (then_out ?r1 (dispatchNow env q))"
    by (rule hushed_then [OF 1 dispatchNow_hushed [OF q]]) (use 1 in \<open>simp add: hushed_def\<close>)
  have a: "\<not> asked c (other\<lparr>q_written := False\<rparr>)" if "other \<in> set ?aside" for other
    using that by (simp add: asked_def ga_def steps_aside_def)
  have k2: "clear_of c (fst (then_out ?r1 (dispatchNow env q)))" using 2 by (simp add: hushed_def)
  have 3: "hushed c (each_out (\<lambda>other. dispatch_behind env (other\<lparr>q_written := False\<rparr>)) ?aside (fst (then_out ?r1 (dispatchNow env q))))"
    by (rule hushed_each [OF k2]) (rule dispatch_behind_hushed [OF a])
  show ?thesis unfolding d by (rule hushed_then) (rule 2, rule 3)
qed

lemma release_hushed: "clear_of c rr \<Longrightarrow> hushed c (releaseWaiting env rr)"
  unfolding releaseWaiting_def by (rule hushed_each) (auto simp: clear_of_def intro: dispatch_hushed)

lemma finish_hushed: "\<not> asked c q \<Longrightarrow> clear_of c rr \<Longrightarrow> hushed c (finish_query env q wants how rr)"
proof -
  assume q: "\<not> asked c q" and k: "clear_of c rr"
  have 1: "hushed c (rr, [EndHook (q_id q) how])" using k by (simp add: hushed_def tells_def)
  have 2: "hushed c (rr\<lparr>rr_settle := Some (q\<lparr>q_timer := False\<rparr>, w)\<rparr>, [])" for w
    using k q by (simp add: hushed_def clear_of_def asked_def)
  show ?thesis unfolding finish_query_def
    by (rule hushed_then [OF 1]) (cases wants; simp add: 2 release_hushed [OF k])
qed

lemma claim_hushed: "clear_of c rr \<Longrightarrow> hushed c (snd (claim_line env command params rr)) \<and> fst (claim_line env command params rr) \<noteq> Some (OwnedBy (AskClient c))"
proof
  assume k: "clear_of c rr"
  show "fst (claim_line env command params rr) \<noteq> Some (OwnedBy (AskClient c))"
    using claim_line_owner [of env command params rr "AskClient c"] k by (auto simp: clear_of_def asked_def)
  show "hushed c (snd (claim_line env command params rr))"
  proof (cases "split_first (answered_by env (rr_lineBatch rr) command params) (rr_wire rr)")
    case (Some z)
    obtain pre r q' post where z: "z = (pre, (r, q'), post)" by (cases z) auto
    from split_first_Some [OF Some [unfolded z]] obtain x where
      x: "rr_wire rr = pre @ x # post" "answered_by env (rr_lineBatch rr) command params x = Some (r, q')" by auto
    from x(2) obtain y where "roleOf env (rr_lineBatch rr) x command params = Some (r, y)" "q' = y\<lparr>q_heardAt := re_now env, q_started := True\<rparr>"
      by (auto simp: answered_by_def split: if_splits)
    then have q: "\<not> asked c q'" using roleOf_kind k x(1) by (fastforce simp: clear_of_def asked_def)
    have "clear_of c (rr\<lparr>rr_wire := pre @ post\<rparr>)" "clear_of c (rr\<lparr>rr_wire := pre @ q' # post\<rparr>)"
      using k x(1) q by (auto simp: clear_of_def)
    then show ?thesis using finish_hushed [OF q] by (simp add: claim_line_def Some z hushed_def)
  next
    case None
    show ?thesis
    proof (cases "split_first (refused_by env command params) (rr_wire rr)")
      case e: None
      then show ?thesis using None k by (simp add: claim_line_def hushed_def)
    next
      case (Some z)
      obtain pre q' post where z: "z = (pre, q', post)" by (cases z) auto
      from split_first_Some [OF Some [unfolded z]] have w: "rr_wire rr = pre @ q' # post"
        by (auto simp: refused_by_def split: if_splits)
      then have "clear_of c (rr\<lparr>rr_wire := pre @ post\<rparr>)" "\<not> asked c q'" using k by (auto simp: clear_of_def)
      then show ?thesis using finish_hushed by (simp add: claim_line_def None Some z)
    qed
  qed
qed


lemma server_line_hushed: "clear_of c rr \<Longrightarrow> hushed c (snd (noteServerLine env line command params source rr))"
proof -
  assume k: "clear_of c rr"
  let ?rr = "(noteModes env line command params source rr)\<lparr>rr_lineBatch := batchTagOf line\<rparr>"
  let ?rs = "?rr\<lparr>rr_settle := None\<rparr>"
  let ?ro = "snd (claimOrphan command params ?rs)"
  have 1: "clear_of c ?rr" "clear_of c ?rs" using k by (simp_all add: clear_of_def)
  have "set (rr_orphans ?ro) \<subseteq> set (rr_orphans rr)"
    by (auto simp: claimOrphan_def Let_def AList.delete_eq split: option.splits if_splits)
  then have 2: "clear_of c ?ro" using 1(2) by (auto simp: clear_of_def claimOrphan_fields)
  have 3: "fst (claimOrphan command params ?rs) \<noteq> Some (OwnedBy (AskClient c))"
    using k by (auto simp: claimOrphan_def Let_def owner_of_def clear_of_def image_iff dest!: map_of_SomeD split: option.splits)
  have 4: "\<not> (\<exists>q w. rr_settle ?rr = Some (q, w) \<and> owner_of (q_asker q) = OwnedBy (AskClient c))"
    using k by (auto simp: clear_of_def asked_def owner_of_def split: option.splits)
  have f: "hushed c (snd (find_owner env command params ?rr)) \<and> fst (find_owner env command params ?rr) \<noteq> Some (OwnedBy (AskClient c))"
    using 1(2) 2 3 4 claim_hushed [OF 2, of env command params]
    by (auto simp: find_owner_def Let_def split_beta hushed_def split: option.splits prod.splits)
  obtain ow r where o: "find_owner env command params ?rr = (ow, r)" by (cases "find_owner env command params ?rr")
  define g where "g = (\<lambda>rr. (rr :: router, case ow of Some (OwnedBy (AskClient d)) \<Rightarrow> [OnReply d command params] | _ \<Rightarrow> []))"
  have r: "hushed c r" using f o by simp
  have "hushed c (g (fst r))" using r f o
    by (auto simp: hushed_def g_def tells_def split: option.splits reply_owner.splits asker.splits)
  with r have h: "hushed c (then_out r g)" by (rule hushed_then)
  have "hushed c (then_out (then_out r g) (releaseWaiting env))" by (rule hushed_thenI [OF h release_hushed])
  with h show ?thesis by (simp add: noteServerLine_def Let_def o g_def [symmetric] del: noteModes_fields)
qed

lemma classify_asker: "classify_line env line = Some q \<Longrightarrow> q_asker q = None"
  by (auto simp: classify_line_def classify_mode_def Let_def spec_def split: option.splits if_splits prod.splits)

lemma quiet_hushed: "clear_of c rr \<Longrightarrow> hushed c (query_quiet env i rr)"
proof (cases "split_first (with_id i) (rr_wire rr)")
  case (Some z)
  assume k: "clear_of c rr"
  obtain pre q post where z: "z = (pre, q, post)" by (cases z)
  from split_first_Some [OF Some [unfolded z]] have w: "rr_wire rr = pre @ q # post" by (auto simp: with_id_def split: if_splits)
  then have q: "\<not> asked c q" and p: "clear_of c (rr\<lparr>rr_wire := pre @ post\<rparr>)" using k by (auto simp: clear_of_def)
  have u: "set (AList.update (q_batchRef q) (q_asker q) os) \<subseteq> insert (q_batchRef q, q_asker q) (set os)" for os
    by (induction os) auto
  define r1 where "r1 = rr\<lparr>rr_wire := pre @ post\<rparr>"
  have "set (rr_orphans (orphan_batch q r1)) \<subseteq> insert (q_batchRef q, q_asker q) (set (rr_orphans r1))"
    using u [of "[]"] u [of "rr_orphans r1"] unfolding orphan_batch_def Let_def by (cases "q_batchRef q = []") auto
  then have "Some (AskClient c) \<notin> snd ` set (rr_orphans (orphan_batch q r1))"
    using p q unfolding r1_def [symmetric] clear_of_def asked_def by (auto simp: image_iff)
  moreover have "rr_wire (orphan_batch q r1) = rr_wire r1" "rr_waiting (orphan_batch q r1) = rr_waiting r1" "rr_settle (orphan_batch q r1) = rr_settle r1"
    by (simp_all add: orphan_batch_def Let_def)
  ultimately have 1: "clear_of c (orphan_batch q (rr\<lparr>rr_wire := pre @ post\<rparr>))"
    using p unfolding r1_def [symmetric] clear_of_def by simp
  have "hushed c (then_out (orphan_batch q (rr\<lparr>rr_wire := pre @ post\<rparr>), abort_query q @ [EndHook i TimedOut]) (releaseWaiting env))"
  proof (rule hushed_thenI [OF _ release_hushed])
    have "\<not> tells c (EndHook i TimedOut)" by (simp add: tells_def)
    then show "hushed c (orphan_batch q (rr\<lparr>rr_wire := pre @ post\<rparr>), abort_query q @ [EndHook i TimedOut])"
      using 1 abort_hushed [OF q] unfolding hushed_def by auto
  qed
  then show ?thesis using k by (simp add: query_quiet_def Some z) (simp add: hushed_def)
qed (simp add: query_quiet_def hushed_def)

lemma asked_drop: "asked c (drop_asker d q) \<longleftrightarrow> asked c q \<and> c \<noteq> d"
  by (auto simp: asked_def drop_asker_def)

lemma drop_clears:
  "Some (AskClient c) \<notin> snd ` set (rr_orphans rr) \<Longrightarrow> hushed c (dropClient env c rr)"
  "clear_of c rr \<Longrightarrow> hushed c (dropClient env d rr)"
proof -
  let ?un = "\<lambda>d. filter (\<lambda>q. q_asker q = Some (AskClient d) \<and> \<not> q_sent q) (rr_wire rr)"
  define left where "left = (\<lambda>d. rr\<lparr>rr_waiting := filter (\<lambda>q. q_asker q \<noteq> Some (AskClient d)) (rr_waiting rr),
      rr_wire := map (drop_asker d) (filter (\<lambda>q. \<not> (q_asker q = Some (AskClient d) \<and> \<not> q_sent q)) (rr_wire rr)),
      rr_settle := map_option (\<lambda>(q, w). (drop_asker d q, w)) (rr_settle rr)\<rparr>)"
  have d: "dropClient env d rr = then_out (left d, map (\<lambda>q. CancelWrite (q_id q)) (filter q_written (?un d)))
      (if ?un d = [] then (\<lambda>rr. (rr, [])) else releaseWaiting env)" for d
    by (simp add: dropClient_def Let_def left_def)
  have go: "hushed c (dropClient env d rr)" if "clear_of c (left d)" for d
  proof -
    have "\<not> tells c (CancelWrite i)" for i by (simp add: tells_def)
    then have 1: "hushed c (left d, map (\<lambda>q. CancelWrite (q_id q)) (filter q_written (?un d)))"
      using that unfolding hushed_def by auto
    show ?thesis unfolding d
    proof (rule hushed_thenI [OF 1])
      fix r assume "clear_of c r"
      then show "hushed c ((if ?un d = [] then (\<lambda>rr. (rr, [])) else releaseWaiting env) r)"
        using release_hushed [of c r env] by (cases "?un d = []") (simp add: hushed_def, simp only: if_False)
    qed
  qed
  have w: "set (rr_waiting (left d)) = {q \<in> set (rr_waiting rr). \<not> asked d q}"
    "set (rr_wire (left d)) \<subseteq> drop_asker d ` set (rr_wire rr)" "rr_orphans (left d) = rr_orphans rr"
    "rr_settle (left d) = map_option (\<lambda>(q, w). (drop_asker d q, w)) (rr_settle rr)" for d
    by (auto simp: left_def asked_def)
  have own: "clear_of c (left c)" if "Some (AskClient c) \<notin> snd ` set (rr_orphans rr)"
    unfolding clear_of_def w(3,4) using that w(1,2) [of c] by (auto simp: asked_drop)
  have other: "clear_of c (left d)" if "clear_of c rr" for d
    using that w(1,2) [of d] unfolding clear_of_def w(3,4) by (auto simp: asked_drop)
  show "hushed c (dropClient env c rr)" if "Some (AskClient c) \<notin> snd ` set (rr_orphans rr)"
    by (rule go [OF own [OF that]])
  show "hushed c (dropClient env d rr)" if "clear_of c rr"
    by (rule go [OF other [OF that]])
qed

lemma step_hushed: "clear_of c rr \<Longrightarrow> \<not> (\<exists>line p u. ev = Send (AskClient c) line p u) \<Longrightarrow> hushed c (router_step env ev rr)"
proof (cases ev)
  case (Send a line p u)
  assume k: "clear_of c rr" and n: "\<not> (\<exists>line p u. ev = Send (AskClient c) line p u)"
  have "clear_of c (rr\<lparr>rr_next := m\<rparr>)" for m using k by (simp add: clear_of_def)
  moreover have "\<not> asked c (f\<lparr>q_id := i, q_asker := Some a, q_lane := l, q_unpaced := u\<rparr>)" for f i l using n Send by (auto simp: asked_def)
  ultimately have "hushed c (dispatch_query env (f\<lparr>q_id := i, q_asker := Some a, q_lane := l, q_unpaced := u\<rparr>) (rr\<lparr>rr_next := m\<rparr>))" for f i l m
    using dispatch_hushed by blast
  moreover have "hushed c (rr, [WriteLine line l u])" for l using k by (simp add: hushed_def tells_def)
  ultimately show ?thesis by (cases "classify_line env line") (simp_all only: Send router_step.simps router_send_def Let_def option.case)
next
  case SettleOver
  assume k: "clear_of c rr"
  have "clear_of c (rr\<lparr>rr_settle := None\<rparr>)" using k by (simp add: clear_of_def)
  then show ?thesis using k release_hushed by (simp add: SettleOver settle_over_def) (simp add: hushed_def)
next
  case (Reset cancelled)
  assume k: "clear_of c rr"
  then have "\<forall>q \<in> set ((case rr_settle rr of None \<Rightarrow> [] | Some (q, _) \<Rightarrow> [q]) @ rr_wire rr @ rr_waiting rr). \<not> asked c q"
    by (cases "rr_settle rr") (auto simp: clear_of_def)
  then have "\<forall>ev \<in> set (concat (map abort_query ((case rr_settle rr of None \<Rightarrow> [] | Some (q, _) \<Rightarrow> [q]) @ rr_wire rr @ rr_waiting rr))). \<not> tells c ev"
    using abort_hushed by fastforce
  moreover have "\<not> tells c (DroppedHook i)" for i by (simp add: tells_def)
  ultimately show ?thesis by (cases "rr_settle rr") (auto simp: Reset router_reset_def Let_def hushed_def clear_of_def)
next
  case (LineWent i)
  assume "clear_of c rr"
  then show ?thesis using line_went_clear by (simp add: LineWent hushed_def tells_def)
qed (simp_all add: server_line_hushed quiet_hushed drop_clears(2))

text \<open>Once a client has detached, with no batch of a timed-out query of its still open, nothing is told to it - no
  reply of its queries, no end numeric, no cached answer - whatever follows, until it asks something again.\<close>

theorem dropped_client_hears_nothing:
  assumes "Some (AskClient c) \<notin> snd ` set (rr_orphans (fst (run_router evs)))"
    and "\<forall>(e, ev) \<in> set evs'. \<not> (\<exists>line p u. ev = Send (AskClient c) line p u)"
  shows "\<exists>out. snd (run_router (evs @ (env, DropClient c) # evs')) = snd (run_router evs) @ out \<and> (\<forall>ev \<in> set out. \<not> tells c ev)"
proof -
  let ?r = "run_router (evs @ [(env, DropClient c)])"
  have r: "?r = then_out (run_router evs) (dropClient env c)" by (simp add: run_router_snoc router_next_def) (simp add: then_out_def)
  have start: "hushed c (dropClient env c (fst (run_router evs)))" by (rule drop_clears(1) [OF assms(1)])
  have "\<exists>out. snd (fold router_next evs' ?r) = snd (run_router evs) @ out \<and> hushed c (fst (fold router_next evs' ?r), out)"
    using assms(2)
  proof (induction evs' rule: rev_induct)
    case Nil
    show ?case using start by (auto simp: r then_out_fst hushed_def)
  next
    case (snoc x evs')
    obtain e ev where x: "x = (e, ev)" by (cases x)
    from snoc obtain out where o: "snd (fold router_next evs' ?r) = snd (run_router evs) @ out" "hushed c (fst (fold router_next evs' ?r), out)"
      by auto
    have "hushed c (router_step e ev (fst (fold router_next evs' ?r)))"
      by (rule step_hushed) (use o(2) snoc.prems x in \<open>auto simp: hushed_def\<close>)
    then have "hushed c (fst (fold router_next (evs' @ [x]) ?r), out @ snd (router_step e ev (fst (fold router_next evs' ?r))))"
      using o(2) by (auto simp: router_next_def x then_out_fst hushed_def)
    moreover have "snd (fold router_next (evs' @ [x]) ?r) = snd (run_router evs) @ (out @ snd (router_step e ev (fst (fold router_next evs' ?r))))"
      using o(1) by (simp add: router_next_def x then_out_fst)
    ultimately show ?case by blast
  qed
  moreover have "run_router (evs @ (env, DropClient c) # evs') = fold router_next evs' ?r" by (simp add: run_router_def)
  ultimately show ?thesis by (auto simp: hushed_def)
qed


section \<open>Runs of it\<close>

text \<open>Lurker's \<open>MODE\<close> fills the cache; a client's is answered from it.\<close>

definition cached_modes :: "(router_env \<times> router_event) list" where
  "cached_modes = map (Pair sample_env) [Send AskLurker ''MODE #a'' None False,
     ServerLine '':s 324 me #a +nt'' ''324'' [''me'', ''#a'', ''+nt''] None,
     ServerLine '':s 329 me #a 5'' ''329'' [''me'', ''#a'', ''5''] None]"

definition client_mode :: query where
  "client_mode = (spec ModeForm ''MODE'')\<lparr>q_targets := [''#a''], q_channel := ''#a'', q_asker := Some (AskClient 1)\<rparr>"

lemma cached_modes_are_current_witness:
  "newest_line ''#a'' ''324'' '':s 324 me #a +nt'' cached_modes \<and> newest_line ''#a'' ''329'' '':s 329 me #a 5'' cached_modes"
proof -
  have e: "answerFromCache sample_env client_mode (fst (run_router cached_modes)) =
    Some [FromCache 1 ['':s 324 me #a +nt'', '':s 329 me #a 5'']]" "re_fold sample_env (q_channel client_mode) = ''#a''" by code_simp+
  show ?thesis using cached_modes_are_current [OF e(1)] unfolding e(2) by auto
qed

text \<open>A client that detached while its \<open>WHOIS\<close> was on the wire; then its reply comes, and a line of a batch of a query
  of its that had timed out before.\<close>

definition detached :: "(router_env \<times> router_event) list" where
  "detached = map (Pair sample_env) [ServerLine '':s 311 me bob u h * :B'' ''311'' [''me'', ''bob'', ''u'', ''h'', ''*'', ''B''] None,
     ServerLine '':s 318 me bob :End'' ''318'' [''me'', ''bob'', ''End''] None]"

lemma dropped_client_hears_nothing_witness:
  "\<exists>out. snd (run_router ((sample_env, Send (AskClient 1) ''WHOIS bob'' None False) # (sample_env, DropClient 1) # detached)) =
     [WriteQuery 0 None False, SentHook 0] @ out \<and> (\<forall>ev \<in> set out. \<not> tells 1 ev)"
proof -
  let ?evs = "[(sample_env, Send (AskClient 1) ''WHOIS bob'' None False)]"
  have e: "rr_orphans (fst (run_router ?evs)) = []" "snd (run_router ?evs) = [WriteQuery 0 None False, SentHook 0]" by code_simp+
  have o: "Some (AskClient 1) \<notin> snd ` set (rr_orphans (fst (run_router ?evs)))" unfolding e(1) by simp
  have n: "\<forall>(e, ev) \<in> set detached. \<not> (\<exists>line p u. ev = Send (AskClient 1) line p u)" by (simp add: detached_def)
  show ?thesis using dropped_client_hears_nothing [OF o n, of sample_env] unfolding e(2) append_Cons append_Nil .
qed

definition stale_page :: "(router_env \<times> router_event) list" where
  "stale_page = [(sample_env, Send (AskClient 1) ''CHATHISTORY LATEST #a * 9'' None False),
     (sample_env, ServerLine '':s BATCH +r chathistory #a'' ''BATCH'' [''+r'', ''chathistory'', ''#a''] None),
     (sample_env\<lparr>re_now := 30\<rparr>, QueryQuiet 0), (sample_env\<lparr>re_now := 31\<rparr>, DropClient 1)]"

lemma orphaned_batch_outlives_its_client:
  "noteServerLine sample_env ''@batch=r :bob!u@h PRIVMSG #a hi'' ''PRIVMSG'' [''#a'', ''hi''] (Some ''bob'') (fst (run_router stale_page)) =
     (OwnedBy (AskClient 1), (fst (run_router stale_page))\<lparr>rr_lineBatch := Some ''r''\<rparr>, [OnReply 1 ''PRIVMSG'' [''#a'', ''hi'']])"
  by code_simp

end
