(* ===== verification/Ip_Guard.thy ===== *)
theory Ip_Guard imports Proxy_Config Text_Match "HOL-Library.Word" begin

text \<open>
  \<open>server/utils/ipGuard.ts\<close>: whether an address that someone else chose may be dialled.  The verdict on a text is
  compared with a list of networks on the address itself, a 32- or 128-bit word, for every way of writing it.
\<close>

unbundle bit_operations_syntax

section \<open>Numbers, as JavaScript reads them\<close>

text \<open>
  Whether the double nearest to \<open>d / 10 ^ m\<close> is the integer \<open>k < 256\<close>: the value is within half a step of \<open>k\<close>, a tie
  going to \<open>k\<close>, whose last bit is even.  A step below a power of two is half the step above it.
\<close>

fun log_floor :: "nat \<Rightarrow> nat" where
  "log_floor k = (if k < 2 then 0 else Suc (log_floor (k div 2)))"

declare log_floor.simps [simp del]

definition rounds_to :: "nat \<Rightarrow> nat \<Rightarrow> nat \<Rightarrow> bool" where
  "rounds_to d m k =
     (if k = 0 then d * 2 ^ 1075 \<le> 10 ^ m
      else let above = 2 ^ (log_floor k + 1); below = (if k = 2 ^ log_floor k then 2 ^ log_floor k else above) in
           2 ^ 54 * 10 ^ m * k \<le> d * 2 ^ 54 + below * 10 ^ m \<and> d * 2 ^ 54 \<le> (2 ^ 54 * k + above) * 10 ^ m)"

definition scaled_octet :: "nat \<Rightarrow> int \<Rightarrow> nat option" where
  "scaled_octet d e =
     (if d = 0 then Some 0
      else if 0 \<le> e then (if 2 < e \<or> 255 < d * 10 ^ nat e then None else Some (d * 10 ^ nat e))
      else find (rounds_to d (nat (- e))) [0..<256])"

definition exponent_of :: "string \<Rightarrow> int option" where
  "exponent_of s =
     (case s of
        [] \<Rightarrow> None
      | c # t \<Rightarrow>
          if c = CHR ''-'' then map_option (\<lambda>n. - int n) (numeral_of 10 t)
          else map_option int (numeral_of 10 (if c = CHR ''+'' then t else s)))"

definition decimal_octet :: "string \<Rightarrow> nat option" where
  "decimal_octet u =
     (let mant = takeWhile (\<lambda>c. c \<notin> set ''eE'') u; rest = dropWhile (\<lambda>c. c \<notin> set ''eE'') u in
      case numeral_of 10 mant of
        None \<Rightarrow> None
      | Some d \<Rightarrow>
          if rest = [] then (if d \<le> 255 then Some d else None)
          else (case exponent_of (tl rest) of None \<Rightarrow> None | Some e \<Rightarrow> scaled_octet d e))"

definition byte_of :: "nat option \<Rightarrow> nat option" where
  "byte_of n = (case n of None \<Rightarrow> None | Some v \<Rightarrow> if v \<le> 255 then Some v else None)"

text \<open>\<open>Number(p)\<close> of a text with no point in it, when that is an integer from 0 to 255.\<close>

definition number_octet :: "string \<Rightarrow> nat option" where
  "number_octet p =
     (let t = js_trim p in
      if t = [] then Some 0
      else if take 2 t \<in> {''0x'', ''0X''} then byte_of (numeral_of 16 (drop 2 t))
      else if take 2 t \<in> {''0b'', ''0B''} then byte_of (numeral_of 2 (drop 2 t))
      else if take 2 t \<in> {''0o'', ''0O''} then byte_of (numeral_of 8 (drop 2 t))
      else if hd t = CHR ''-'' then (if decimal_octet (tl t) = Some 0 then Some 0 else None)
      else decimal_octet (if hd t = CHR ''+'' then tl t else t))"

section \<open>The guard\<close>

definition isBlockedIpv4 :: "string \<Rightarrow> bool" where
  "isBlockedIpv4 ip =
     (let parts = map number_octet (split_on (CHR ''.'') ip) in
      if length parts \<noteq> 4 \<or> None \<in> set parts then True
      else let a = the (parts ! 0); b = the (parts ! 1) in
           if a = 0 then True
           else if a = 10 then True
           else if a = 127 then True
           else if a = 169 \<and> b = 254 then True
           else if a = 172 \<and> 16 \<le> b \<and> b \<le> 31 then True
           else if a = 192 \<and> b = 168 then True
           else if a = 100 \<and> 64 \<le> b \<and> b \<le> 127 then True
           else if 224 \<le> a then True
           else False)"

text \<open>\<open>text.split('::')\<close>.\<close>

fun split_colons :: "string \<Rightarrow> string list" where
  "split_colons (c # d # s) =
     (if c = CHR '':'' \<and> d = CHR '':'' then [] # split_colons s
      else case split_colons (d # s) of [] \<Rightarrow> [[c]] | p # ps \<Rightarrow> (c # p) # ps)"
| "split_colons s = [s]"

fun groups_all :: "string list \<Rightarrow> nat list option" where
  "groups_all [] = Some []"
| "groups_all (g # gs) =
     (if 1 \<le> length g \<and> length g \<le> 4 \<and> list_all is_hex g
      then (case (numeral_of 16 g, groups_all gs) of (Some n, Some ns) \<Rightarrow> Some (n # ns) | _ \<Rightarrow> None)
      else None)"

definition groupsOf :: "string \<Rightarrow> nat list option" where
  "groupsOf part = (if part = [] then Some [] else groups_all (split_on (CHR '':'') part))"

fun hex_of :: "nat \<Rightarrow> string" where
  "hex_of n = (let c = (if n mod 16 < 10 then char_of (48 + n mod 16) else char_of (87 + n mod 16)) in
     if n < 16 then [c] else hex_of (n div 16) @ [c])"

declare hex_of.simps [simp del]

definition pair :: "nat \<Rightarrow> nat \<Rightarrow> string" where
  "pair a b = hex_of (unat (push_bit 8 (of_nat a :: 32 word) OR of_nat b))"

text \<open>A trailing dotted quad, behind the last colon, and what is before it.\<close>

definition dotted_tail :: "string \<Rightarrow> (string \<times> string list) option" where
  "dotted_tail s =
     (let tl = rev (takeWhile (\<lambda>c. c \<noteq> CHR '':'') (rev s)); front = take (length s - length tl) s; quads = split_on (CHR ''.'') tl in
      if front \<noteq> [] \<and> list_all (\<lambda>c. \<not> line_end c) front \<and> length quads = 4 \<and>
         list_all (\<lambda>q. 1 \<le> length q \<and> length q \<le> 3 \<and> list_all is_digit q) quads
      then Some (front, quads) else None)"

definition parse_halves :: "string \<Rightarrow> nat list option" where
  "parse_halves text =
     (case split_colons text of
        [whole] \<Rightarrow> (case groupsOf text of Some gs \<Rightarrow> if length gs = 8 then Some gs else None | None \<Rightarrow> None)
      | [l, r] \<Rightarrow>
          (case (groupsOf l, groupsOf r) of
             (Some ls, Some rs) \<Rightarrow>
               if 8 \<le> length ls + length rs then None
               else Some (ls @ replicate (8 - length ls - length rs) 0 @ rs)
           | _ \<Rightarrow> None)
      | _ \<Rightarrow> None)"

definition parseIpv6 :: "string \<Rightarrow> nat list option" where
  "parseIpv6 input =
     (case dotted_tail input of
        None \<Rightarrow> parse_halves input
      | Some (front, quads) \<Rightarrow>
          let os = map (\<lambda>q. the (numeral_of 10 q)) quads in
          if \<exists>n \<in> set os. 255 < n then None
          else parse_halves (front @ pair (os ! 0) (os ! 1) @ '':'' @ pair (os ! 2) (os ! 3)))"

definition dotted_quad :: "nat \<Rightarrow> nat \<Rightarrow> nat \<Rightarrow> nat \<Rightarrow> string" where
  "dotted_quad a b c d = digits_of a @ ''.'' @ digits_of b @ ''.'' @ digits_of c @ ''.'' @ digits_of d"

definition last32 :: "nat list \<Rightarrow> string" where
  "last32 gs = dotted_quad (drop_bit 8 (gs ! 6)) ((gs ! 6) AND 0xff) (drop_bit 8 (gs ! 7)) ((gs ! 7) AND 0xff)"

definition embeddedIpv4 :: "nat list \<Rightarrow> string option" where
  "embeddedIpv4 gs =
     (if (\<forall>i \<in> {0, 1, 2, 3, 4}. gs ! i = 0) \<and> gs ! 5 = 0xffff then Some (last32 gs)
      else if \<forall>i \<in> {0, 1, 2, 3, 4, 5}. gs ! i = 0 then Some (last32 gs)
      else if gs ! 0 = 0x64 \<and> gs ! 1 = 0xff9b \<and> (\<forall>i \<in> {2, 3, 4, 5}. gs ! i = 0) then Some (last32 gs)
      else None)"

text \<open>\<open>h.replace(/^\[|\]$/g, '')\<close>.\<close>

definition unbracket :: "string \<Rightarrow> string" where
  "unbracket h =
     (let front = (if starts_with h ''['' then tl h else h) in
      if front \<noteq> [] \<and> last front = CHR '']'' then butlast front else front)"

definition isBlockedIpLiteral :: "string \<Rightarrow> bool" where
  "isBlockedIpLiteral host =
     (let h = to_lower (js_trim host) in
      if h = [] then True
      else let bare = unbracket h in
        if bare = [] then True
        else if CHR '':'' \<notin> set bare then isBlockedIpv4 bare
        else case parseIpv6 bare of
               None \<Rightarrow> True
             | Some gs \<Rightarrow>
                 (case embeddedIpv4 gs of
                    Some ip \<Rightarrow> isBlockedIpv4 ip
                  | None \<Rightarrow>
                      if gs ! 0 = 0x2002 then True
                      else if gs ! 0 = 0x2001 \<and> gs ! 1 = 0x0000 then True
                      else (gs ! 0) AND 0xe000 \<noteq> 0x2000))"

section \<open>The networks not dialled\<close>

definition in_net :: "'a::len word \<Rightarrow> 'a word \<times> nat \<Rightarrow> bool" where
  "in_net ip net = (drop_bit (LENGTH('a) - snd net) ip = drop_bit (LENGTH('a) - snd net) (fst net))"

definition ipv4 :: "nat \<Rightarrow> nat \<Rightarrow> nat \<Rightarrow> nat \<Rightarrow> 32 word" where
  "ipv4 a b c d = of_nat (d + 256 * c + 65536 * b + 16777216 * a)"

definition blocked_nets :: "(32 word \<times> nat) list" where
  "blocked_nets =
     [(ipv4 0 0 0 0, 8), (ipv4 10 0 0 0, 8), (ipv4 127 0 0 0, 8), (ipv4 169 254 0 0, 16), (ipv4 172 16 0 0, 12),
      (ipv4 192 168 0 0, 16), (ipv4 100 64 0 0, 10), (ipv4 224 0 0 0, 4), (ipv4 240 0 0 0, 4)]"

definition blocked32 :: "32 word \<Rightarrow> bool" where
  "blocked32 ip \<longleftrightarrow> (\<exists>net \<in> set blocked_nets. in_net ip net)"

definition ipv6 :: "nat list \<Rightarrow> 128 word" where
  "ipv6 gs = of_nat (foldl (\<lambda>n g. n * 65536 + g) 0 gs)"

text \<open>An address that carries an IPv4 one is judged by that; any other has to be global unicast, and no tunnel.\<close>

definition carrier_nets :: "(128 word \<times> nat) list" where
  "carrier_nets = [(ipv6 [0, 0, 0, 0, 0, 0xffff, 0, 0], 96), (ipv6 [0, 0, 0, 0, 0, 0, 0, 0], 96), (ipv6 [0x64, 0xff9b, 0, 0, 0, 0, 0, 0], 96)]"

definition tunnel_nets :: "(128 word \<times> nat) list" where
  "tunnel_nets = [(ipv6 [0x2002, 0, 0, 0, 0, 0, 0, 0], 16), (ipv6 [0x2001, 0, 0, 0, 0, 0, 0, 0], 32)]"

definition blocked128 :: "128 word \<Rightarrow> bool" where
  "blocked128 ip =
     (if \<exists>net \<in> set carrier_nets. in_net ip net then blocked32 (ucast ip)
      else \<not> in_net ip (ipv6 [0x2000, 0, 0, 0, 0, 0, 0, 0], 3) \<or> (\<exists>net \<in> set tunnel_nets. in_net ip net))"

section \<open>How an address may be written\<close>

definition spells_group :: "string \<Rightarrow> nat \<Rightarrow> bool" where
  "spells_group s g \<longleftrightarrow> 1 \<le> length s \<and> length s \<le> 4 \<and> list_all is_hex s \<and> numeral_of 16 s = Some g"

definition colons :: "string list \<Rightarrow> string" where
  "colons ws = join_with '':'' ws"

text \<open>All eight groups, or the groups around a \<open>::\<close> that stands for at least one.\<close>

definition spells_hex :: "string \<Rightarrow> nat list \<Rightarrow> bool" where
  "spells_hex s gs \<longleftrightarrow>
     (\<exists>ws. list_all2 spells_group ws gs \<and> length gs = 8 \<and> s = colons ws) \<or>
     (\<exists>ls rs gl gr. list_all2 spells_group ls gl \<and> list_all2 spells_group rs gr \<and> length gl + length gr < 8 \<and>
        gs = gl @ replicate (8 - length gl - length gr) 0 @ gr \<and> s = colons ls @ ''::'' @ colons rs)"

text \<open>The last two groups may be a dotted quad.\<close>

definition spells :: "string \<Rightarrow> nat list \<Rightarrow> bool" where
  "spells s gs \<longleftrightarrow> spells_hex s gs \<or>
     (\<exists>front a b c d. s = front @ dotted_quad a b c d \<and> a < 256 \<and> b < 256 \<and> c < 256 \<and> d < 256 \<and>
        front \<noteq> [] \<and> last front = CHR '':'' \<and> spells_hex (front @ pair a b @ '':'' @ pair c d) gs)"


section \<open>Numerals\<close>

lemma digits_of_short: "n < 1000 \<Longrightarrow> length (digits_of n) \<le> 3"
proof -
  assume n: "n < 1000"
  have 1: "length (digits_of k) = 1" if "k < 10" for k using that by (subst digits_of.simps) simp
  have 2: "length (digits_of k) \<le> 2" if "k < 100" for k
    using that 1 [of "k div 10"] by (cases "k < 10"; subst digits_of.simps) simp_all
  show ?thesis using n 2 [of "n div 10"] by (cases "n < 10"; subst digits_of.simps) simp_all
qed

lemma digit_plain: "is_digit c \<Longrightarrow> \<not> is_space c \<and> c \<noteq> CHR ''.'' \<and> c \<noteq> CHR '':'' \<and> c \<noteq> CHR ''e'' \<and> c \<noteq> CHR ''E'' \<and>
   c \<noteq> CHR ''x'' \<and> c \<noteq> CHR ''X'' \<and> c \<noteq> CHR ''b'' \<and> c \<noteq> CHR ''B'' \<and> c \<noteq> CHR ''o'' \<and> c \<noteq> CHR ''O'' \<and> c \<noteq> CHR ''-'' \<and>
   c \<noteq> CHR ''+'' \<and> \<not> line_end c"
  by (auto simp: is_digit_def is_space_def line_end_def Let_def)

lemma number_octet_digits:
  assumes "list_all is_digit s" "s \<noteq> []"
  shows "number_octet s = byte_of (numeral_of 10 s)"
proof -
  have d: "\<And>c. c \<in> set s \<Longrightarrow> is_digit c" using assms(1) by (simp add: list_all_iff)
  have t: "js_trim s = s" by (rule js_trim_id) (use d digit_plain in blast)
  have tw: "takeWhile (\<lambda>c. c \<notin> set ''eE'') s = s" "dropWhile (\<lambda>c. c \<notin> set ''eE'') s = []"
    using d digit_plain by (auto simp: takeWhile_eq_all_conv dropWhile_eq_Nil_conv)
  have h: "hd s \<noteq> CHR ''-''" "hd s \<noteq> CHR ''+''" using d digit_plain assms(2) hd_in_set by blast+
  have no: "take 2 s \<notin> {''0x'', ''0X'', ''0b'', ''0B'', ''0o'', ''0O''}"
  proof
    assume "take 2 s \<in> {''0x'', ''0X'', ''0b'', ''0B'', ''0o'', ''0O''}"
    moreover have "t ! 1 \<in> {CHR ''x'', CHR ''X'', CHR ''b'', CHR ''B'', CHR ''o'', CHR ''O''} \<and> length t = 2"
      if "t \<in> {''0x'', ''0X'', ''0b'', ''0B'', ''0o'', ''0O''}" for t using that by auto
    ultimately have n: "take 2 s ! 1 \<in> {CHR ''x'', CHR ''X'', CHR ''b'', CHR ''B'', CHR ''o'', CHR ''O''}" "length (take 2 s) = 2" by blast+
    then have "take 2 s ! 1 \<in> set s" by (metis in_set_takeD nth_mem one_less_numeral_iff semiring_norm(76))
    then show False using d digit_plain n(1) by blast
  qed
  show ?thesis
  proof -
    have e: "decimal_octet s = byte_of (numeral_of 10 s)"
      unfolding decimal_octet_def Let_def tw byte_of_def by (simp split: option.splits)
    have "take 2 s \<notin> {''0x'', ''0X''}" "take 2 s \<notin> {''0b'', ''0B''}" "take 2 s \<notin> {''0o'', ''0O''}" using no by blast+
    then show ?thesis unfolding number_octet_def Let_def t using assms(2) h e by (simp only: if_False)
  qed
qed

lemma number_octet_quad: "n < 256 \<Longrightarrow> number_octet (digits_of n) = Some n"
  using number_octet_digits [of "digits_of n"] digits_of_digits [of n] by (simp add: numeral_of_digits byte_of_def)

lemma digits_of_no [simp]: "CHR ''.'' \<notin> set (digits_of n)" "CHR '':'' \<notin> set (digits_of n)"
  using digits_of_digits [of n] digit_plain by (auto simp: list_all_iff)

lemma dotted_quad_parts: "split_on (CHR ''.'') (dotted_quad a b c d) = [digits_of a, digits_of b, digits_of c, digits_of d]"
  by (simp add: dotted_quad_def split_on_append split_on_notin)

section \<open>Verdicts on IPv4\<close>

lemma in_net_of_nat:
  fixes net :: "'a::len word"
  assumes "M < 2 ^ LENGTH('a)" "N < 2 ^ LENGTH('a)"
  shows "in_net (of_nat M :: 'a word) (of_nat N, l) \<longleftrightarrow> M div 2 ^ (LENGTH('a) - l) = N div 2 ^ (LENGTH('a) - l)"
proof -
  have "unat (of_nat M :: 'a word) = M" "unat (of_nat N :: 'a word) = N" using assms by (simp_all add: unat_of_nat)
  then show ?thesis by (simp only: in_net_def fst_conv snd_conv word_unat_eq_iff unat_drop_bit_eq) (simp add: drop_bit_eq_div)
qed

lemma digits: "x < m \<Longrightarrow> y < m \<Longrightarrow> x + m * p = y + m * q \<longleftrightarrow> p = q \<and> x = y" for x y m p q :: nat
proof -
  assume m: "x < m" "y < m"
  have "p = q \<and> x = y" if e: "x + m * p = y + m * q"
  proof -
    have "(x + m * p) mod m = x" "(y + m * q) mod m = y" using m by simp_all
    then have "x = y" using e by metis
    then show ?thesis using e m(1) by auto
  qed
  then show ?thesis by blast
qed

lemma blocked32_iff:
  assumes "a < 256" "b < 256" "c < 256" "d < 256"
  shows "blocked32 (ipv4 a b c d) \<longleftrightarrow>
    a = 0 \<or> a = 10 \<or> a = 127 \<or> (a = 169 \<and> b = 254) \<or> (a = 172 \<and> 16 \<le> b \<and> b \<le> 31) \<or> (a = 192 \<and> b = 168) \<or>
    (a = 100 \<and> 64 \<le> b \<and> b \<le> 127) \<or> 224 \<le> a"
proof -
  let ?N = "d + 256 * c + 65536 * b + 16777216 * a"
  have top: "?N div 2 ^ 24 = a" using assms by simp
  have "d + 256 * c < 65536" using assms by linarith
  then have d16: "?N div 2 ^ 16 = b + 256 * a" by simp
  have "?N div 2 ^ 20 = ?N div 2 ^ 16 div 16" by (simp add: div_mult2_eq [symmetric])
  then have d20: "?N div 2 ^ 20 = b div 16 + 16 * a" unfolding d16 by simp
  have "?N div 2 ^ 22 = ?N div 2 ^ 16 div 64" by (simp add: div_mult2_eq [symmetric])
  then have d22: "?N div 2 ^ 22 = b div 64 + 4 * a" unfolding d16 by simp
  have "?N div 2 ^ 28 = ?N div 2 ^ 24 div 16" by (simp add: div_mult2_eq [symmetric])
  then have d28: "?N div 2 ^ 28 = a div 16" unfolding top .
  have N: "?N < 2 ^ LENGTH(32)" using assms by simp
  have net: "in_net (ipv4 a b c d) (ipv4 p q r s, l) \<longleftrightarrow> X = Y"
    if "?N div 2 ^ k = X" "(s + 256 * r + 65536 * q + 16777216 * p) div 2 ^ k = Y" "l + k = 32" "p < 256" "q < 256" "r < 256" "s < 256"
    for p q r s l k X Y
  proof -
    have "32 - l = k" using that(3) by simp
    then show ?thesis
      unfolding ipv4_def using in_net_of_nat [OF N, of "s + 256 * r + 65536 * q + 16777216 * p" l] that by simp
  qed
  have nets: "in_net (ipv4 a b c d) (ipv4 0 0 0 0, 8) \<longleftrightarrow> a = 0" "in_net (ipv4 a b c d) (ipv4 10 0 0 0, 8) \<longleftrightarrow> a = 10"
    "in_net (ipv4 a b c d) (ipv4 127 0 0 0, 8) \<longleftrightarrow> a = 127"
    by (rule net [OF top]; simp)+
  have nets16: "in_net (ipv4 a b c d) (ipv4 169 254 0 0, 16) \<longleftrightarrow> b + 256 * a = 43518"
    "in_net (ipv4 a b c d) (ipv4 192 168 0 0, 16) \<longleftrightarrow> b + 256 * a = 49320"
    by (rule net [OF d16]; simp)+
  have nets12: "in_net (ipv4 a b c d) (ipv4 172 16 0 0, 12) \<longleftrightarrow> b div 16 + 16 * a = 2753" by (rule net [OF d20]; simp)
  have nets10: "in_net (ipv4 a b c d) (ipv4 100 64 0 0, 10) \<longleftrightarrow> b div 64 + 4 * a = 401" by (rule net [OF d22]; simp)
  have nets4: "in_net (ipv4 a b c d) (ipv4 224 0 0 0, 4) \<longleftrightarrow> a div 16 = 14" "in_net (ipv4 a b c d) (ipv4 240 0 0 0, 4) \<longleftrightarrow> a div 16 = 15"
    by (rule net [OF d28]; simp)+
  have "blocked32 (ipv4 a b c d) \<longleftrightarrow> a = 0 \<or> a = 10 \<or> a = 127 \<or> b + 256 * a = 43518 \<or> b div 16 + 16 * a = 2753 \<or>
    b + 256 * a = 49320 \<or> b div 64 + 4 * a = 401 \<or> a div 16 = 14 \<or> a div 16 = 15"
    unfolding blocked32_def blocked_nets_def by (simp only: list.set(1,2) insert_iff ball_simps bex_simps nets nets16 nets12 nets10 nets4 simp_thms)
  moreover have "a div 16 = 14 \<or> a div 16 = 15 \<longleftrightarrow> 224 \<le> a" using assms(1) by auto
  moreover have "b div 16 + 16 * a = 2753 \<longleftrightarrow> a = 172 \<and> b div 16 = 1" "b div 64 + 4 * a = 401 \<longleftrightarrow> a = 100 \<and> b div 64 = 1"
    "b + 256 * a = 43518 \<longleftrightarrow> a = 169 \<and> b = 254" "b + 256 * a = 49320 \<longleftrightarrow> a = 192 \<and> b = 168"
    using digits [of "b div 16" 16 1 a 172] digits [of "b div 64" 4 1 a 100] digits [of b 256 254 a 169] digits [of b 256 168 a 192] assms(2)
    by (simp_all add: less_mult_imp_div_less)
  moreover have "b div 16 = 1 \<longleftrightarrow> 16 \<le> b \<and> b \<le> 31" "b div 64 = 1 \<longleftrightarrow> 64 \<le> b \<and> b \<le> 127" by auto
  ultimately show ?thesis by blast
qed

lemma isBlockedIpv4_iff:
  assumes "map number_octet (split_on (CHR ''.'') ip) = [Some a, Some b, Some c, Some d]" "a < 256" "b < 256" "c < 256" "d < 256"
  shows "isBlockedIpv4 ip \<longleftrightarrow> blocked32 (ipv4 a b c d)"
  unfolding blocked32_iff [OF assms(2-5)] by (auto simp: isBlockedIpv4_def assms(1) Let_def)

lemma blocked_quad: "a < 256 \<Longrightarrow> b < 256 \<Longrightarrow> c < 256 \<Longrightarrow> d < 256 \<Longrightarrow> isBlockedIpv4 (dotted_quad a b c d) \<longleftrightarrow> blocked32 (ipv4 a b c d)"
  by (rule isBlockedIpv4_iff) (simp_all add: dotted_quad_parts number_octet_quad)


section \<open>Addresses of eight groups\<close>

definition groups_nat :: "nat list \<Rightarrow> nat" where
  "groups_nat gs = foldl (\<lambda>n g. n * 65536 + g) 0 gs"

lemma foldl_groups: "foldl (\<lambda>n g. n * 65536 + g) a gs = a * 65536 ^ length gs + groups_nat gs"
proof (induction gs arbitrary: a)
  case (Cons g gs)
  have "foldl (\<lambda>n g. n * 65536 + g) a (g # gs) = (a * 65536 + g) * 65536 ^ length gs + groups_nat gs" using Cons.IH by simp
  moreover have "groups_nat (g # gs) = g * 65536 ^ length gs + groups_nat gs" using Cons.IH [of g] by (simp add: groups_nat_def)
  ultimately show ?case by (simp add: algebra_simps)
qed (simp add: groups_nat_def)

lemma groups_nat_append: "groups_nat (xs @ ys) = groups_nat xs * 65536 ^ length ys + groups_nat ys"
  by (simp add: groups_nat_def [of "xs @ ys"] groups_nat_def [of xs, symmetric] foldl_groups [of "groups_nat xs"])

lemma groups_nat_less: "list_all (\<lambda>g. g < 65536) gs \<Longrightarrow> groups_nat gs < 65536 ^ length gs"
proof (induction gs rule: rev_induct)
  case (snoc g gs)
  then have "groups_nat gs < 65536 ^ length gs" "g < 65536" by simp_all
  then have "groups_nat gs * 65536 + g < 65536 ^ length gs * 65536" by linarith
  then show ?case by (simp add: groups_nat_append groups_nat_def [of "[g]"] mult.commute)
qed (simp add: groups_nat_def)

lemma groups_nat_inj:
  "length xs = length ys \<Longrightarrow> list_all (\<lambda>g. g < 65536) xs \<Longrightarrow> list_all (\<lambda>g. g < 65536) ys \<Longrightarrow> groups_nat xs = groups_nat ys \<longleftrightarrow> xs = ys"
proof (induction xs arbitrary: ys rule: rev_induct)
  case (snoc g xs)
  then obtain h zs where y: "ys = zs @ [h]" by (cases ys rule: rev_cases) auto
  have e: "groups_nat (us @ [k]) = k + 65536 * groups_nat us" for us k by (simp add: groups_nat_append groups_nat_def [of "[k]"])
  show ?case using snoc y digits [of g 65536 h] by (simp add: e)
qed (simp add: groups_nat_def)

abbreviation eight :: "nat list \<Rightarrow> bool" where
  "eight gs \<equiv> length gs = 8 \<and> list_all (\<lambda>g. g < 65536) gs"

lemma groups_div: "eight gs \<Longrightarrow> k \<le> 8 \<Longrightarrow> groups_nat gs div 2 ^ (128 - 16 * k) = groups_nat (take k gs)"
proof -
  assume e: "eight gs" and k: "k \<le> 8"
  have l: "length (drop k gs) = 8 - k" using e by simp
  have p: "(2::nat) ^ (128 - 16 * k) = 65536 ^ (8 - k)"
  proof -
    have "128 - 16 * k = 16 * (8 - k)" using k by simp
    then have "(2::nat) ^ (128 - 16 * k) = (2 ^ 16) ^ (8 - k)" by (simp only: power_mult)
    then show ?thesis by simp
  qed
  have "groups_nat (drop k gs) < 65536 ^ (8 - k)"
    using groups_nat_less [of "drop k gs"] e by (simp add: list_all_iff in_set_dropD)
  moreover have "groups_nat gs = groups_nat (take k gs) * 65536 ^ (8 - k) + groups_nat (drop k gs)"
    using groups_nat_append [of "take k gs" "drop k gs"] l by simp
  ultimately show ?thesis unfolding p by simp
qed

lemma groups_fit: "eight gs \<Longrightarrow> groups_nat gs < 2 ^ LENGTH(128)"
  using groups_nat_less [of gs] by simp

lemma ipv6_nat: "ipv6 gs = of_nat (groups_nat gs)"
  by (simp add: ipv6_def groups_nat_def)

lemma in_net_take:
  assumes "eight gs" "eight net" "k \<le> 8"
  shows "in_net (ipv6 gs) (ipv6 net, 16 * k) \<longleftrightarrow> take k gs = take k net"
proof -
  have "in_net (ipv6 gs) (ipv6 net, 16 * k) \<longleftrightarrow> groups_nat (take k gs) = groups_nat (take k net)"
    unfolding ipv6_nat using in_net_of_nat [OF groups_fit [OF assms(1)] groups_fit [OF assms(2)], of "16 * k"]
    by (simp add: groups_div [OF assms(1,3)] groups_div [OF assms(2,3)])
  also have "\<dots> \<longleftrightarrow> take k gs = take k net"
    by (rule groups_nat_inj) (use assms in \<open>auto simp: list_all_iff dest: in_set_takeD\<close>)
  finally show ?thesis .
qed

lemma in_net_unicast:
  assumes "eight gs"
  shows "in_net (ipv6 gs) (ipv6 [0x2000, 0, 0, 0, 0, 0, 0, 0], 3) \<longleftrightarrow> gs ! 0 div 8192 = 1"
proof -
  let ?net = "[0x2000, 0, 0, 0, 0, 0, 0, 0] :: nat list"
  have n: "eight ?net" by simp
  have d: "groups_nat xs div 2 ^ 125 = xs ! 0 div 8192" if x: "eight xs" for xs
  proof -
    have "groups_nat xs div 2 ^ 125 = groups_nat xs div 2 ^ 112 div 2 ^ 13" by (simp only: div_mult2_eq [symmetric] power_add [symmetric]) simp
    also have "groups_nat xs div 2 ^ 112 = groups_nat (take 1 xs)" using groups_div [OF x, of 1] by simp
    also have "take 1 xs = [xs ! 0]" using x by (cases xs) auto
    finally show ?thesis by (simp add: groups_nat_def)
  qed
  have "in_net (ipv6 gs) (ipv6 ?net, 3) \<longleftrightarrow> groups_nat gs div 2 ^ 125 = groups_nat ?net div 2 ^ 125"
    unfolding ipv6_nat using in_net_of_nat [OF groups_fit [OF assms] groups_fit [OF n], of 3] by simp
  then show ?thesis unfolding d [OF assms] d [OF n] by simp
qed

lemma and_top: "g < 65536 \<Longrightarrow> (g AND 0xe000) = 0x2000 \<longleftrightarrow> g div 8192 = 1" for g :: nat
proof -
  assume g: "g < 65536"
  have "(g AND push_bit 13 (mask 3)) = push_bit 13 (take_bit 3 (drop_bit 13 g))"
    by (rule bit_eqI) (auto simp: bit_simps)
  moreover have "push_bit 13 (mask 3) = (0xe000 :: nat)" by (simp add: mask_eq_exp_minus_1 push_bit_eq_mult)
  moreover have "take_bit 3 (drop_bit 13 g) = g div 8192" using g by (simp add: take_bit_eq_mod drop_bit_eq_div)
  ultimately have "(g AND 0xe000) = push_bit 13 (g div 8192)" by simp
  then show ?thesis by (simp add: push_bit_eq_mult)
qed

lemma and_low: "(g AND 0xff) = g mod 256" for g :: nat
  using take_bit_eq_mask [of 8 g] by (simp add: mask_eq_exp_minus_1 take_bit_eq_mod)


section \<open>Verdicts on IPv6\<close>

definition verdict6 :: "nat list \<Rightarrow> bool" where
  "verdict6 gs =
     (case embeddedIpv4 gs of
        Some ip \<Rightarrow> isBlockedIpv4 ip
      | None \<Rightarrow> gs ! 0 = 0x2002 \<or> (gs ! 0 = 0x2001 \<and> gs ! 1 = 0x0000) \<or> (gs ! 0) AND 0xe000 \<noteq> 0x2000)"

lemma eight_cases: "length gs = 8 \<Longrightarrow> \<exists>a b c d e f g h. gs = [a, b, c, d, e, f, g, h]"
  by (auto simp: numeral_eq_Suc length_Suc_conv)

lemma last32_verdict:
  assumes "eight gs"
  shows "isBlockedIpv4 (last32 gs) \<longleftrightarrow> blocked32 (ucast (ipv6 gs))"
proof -
  let ?g = "gs ! 6" and ?h = "gs ! 7"
  have s: "?g < 65536" "?h < 65536" using assms by (simp_all add: list_all_length)
  have "take 6 gs @ [?g, ?h] = gs" using eight_cases [of gs] assms by auto
  then have "groups_nat gs = groups_nat (take 6 gs) * 65536 ^ 2 + groups_nat [?g, ?h]" using groups_nat_append [of "take 6 gs" "[?g, ?h]"] by simp
  then have "groups_nat gs = groups_nat (take 6 gs) * 2 ^ 32 + (?g * 65536 + ?h)" by (simp add: groups_nat_def)
  then have low: "groups_nat gs mod 2 ^ 32 = ?g * 65536 + ?h" using s by simp
  have "unat (ucast (ipv6 gs) :: 32 word) = groups_nat gs mod 2 ^ 32"
    using groups_fit [OF assms] by (simp add: ipv6_nat unsigned_ucast_eq unat_of_nat take_bit_eq_mod)
  also have "\<dots> = unat (of_nat (?g * 65536 + ?h) :: 32 word)"
  proof -
    have "?g * 65536 + ?h < 2 ^ LENGTH(32)" using s by simp
    then show ?thesis unfolding low unat_of_nat by (rule mod_less [symmetric])
  qed
  finally have u: "(ucast (ipv6 gs) :: 32 word) = of_nat (?g * 65536 + ?h)" by (simp add: word_unat_eq_iff)
  have "?g = 256 * (?g div 256) + ?g mod 256" "?h = 256 * (?h div 256) + ?h mod 256" by simp_all
  then have "?g * 65536 + ?h = ?h mod 256 + 256 * (?h div 256) + 65536 * (?g mod 256) + 16777216 * (?g div 256)" by linarith
  then have w: "ucast (ipv6 gs) = ipv4 (?g div 256) (?g mod 256) (?h div 256) (?h mod 256)" unfolding u ipv4_def by simp
  have "?g div 256 < 256" "?h div 256 < 256" using s by simp_all
  then show ?thesis
    unfolding w using blocked_quad [of "?g div 256" "?g mod 256" "?h div 256" "?h mod 256"]
    by (simp add: last32_def and_low drop_bit_eq_div)
qed

lemma verdict6_iff: "eight gs \<Longrightarrow> verdict6 gs \<longleftrightarrow> blocked128 (ipv6 gs)"
proof -
  assume e: "eight gs"
  obtain a b c d f g h i where gs: "gs = [a, b, c, d, f, g, h, i]" using eight_cases e by blast
  have n: "in_net (ipv6 gs) (ipv6 net, 96) \<longleftrightarrow> take 6 gs = take 6 net" "in_net (ipv6 gs) (ipv6 net, 32) \<longleftrightarrow> take 2 gs = take 2 net"
    "in_net (ipv6 gs) (ipv6 net, 16) \<longleftrightarrow> take 1 gs = take 1 net" if "eight net" for net
    using in_net_take [OF e that, of 6] in_net_take [OF e that, of 2] in_net_take [OF e that, of 1] by simp_all
  have "(\<exists>net \<in> set carrier_nets. in_net (ipv6 gs) net) \<longleftrightarrow> embeddedIpv4 gs \<noteq> None"
  proof -
    have "(\<exists>net \<in> set carrier_nets. in_net (ipv6 gs) net) \<longleftrightarrow>
        take 6 gs = [0, 0, 0, 0, 0, 0xffff] \<or> take 6 gs = [0, 0, 0, 0, 0, 0] \<or> take 6 gs = [0x64, 0xff9b, 0, 0, 0, 0]"
      unfolding carrier_nets_def by (simp add: n)
    then show ?thesis by (simp add: embeddedIpv4_def gs)
  qed
  moreover have "(\<exists>net \<in> set tunnel_nets. in_net (ipv6 gs) net) \<longleftrightarrow> gs ! 0 = 0x2002 \<or> (gs ! 0 = 0x2001 \<and> gs ! 1 = 0)"
  proof -
    have "(\<exists>net \<in> set tunnel_nets. in_net (ipv6 gs) net) \<longleftrightarrow> take 1 gs = [0x2002] \<or> take 2 gs = [0x2001, 0]"
      unfolding tunnel_nets_def by (simp add: n)
    then show ?thesis by (simp add: gs)
  qed
  moreover have "in_net (ipv6 gs) (ipv6 [0x2000, 0, 0, 0, 0, 0, 0, 0], 3) \<longleftrightarrow> (gs ! 0) AND 0xe000 = 0x2000"
    using in_net_unicast [OF e] and_top [of "gs ! 0"] e by (simp add: list_all_length)
  moreover have "embeddedIpv4 gs = Some ip \<Longrightarrow> isBlockedIpv4 ip \<longleftrightarrow> blocked32 (ucast (ipv6 gs))" for ip
    using last32_verdict [OF e] by (auto simp: embeddedIpv4_def split: if_splits)
  ultimately show ?thesis unfolding verdict6_def blocked128_def by (auto split: option.splits)
qed

section \<open>Reading what was written\<close>

lemma spells_group_chars: "spells_group s g \<Longrightarrow> s \<noteq> [] \<and> list_all is_hex s"
  by (auto simp: spells_group_def)

lemma hex_plain: "is_hex c \<Longrightarrow> c \<noteq> CHR '':'' \<and> c \<noteq> CHR ''.'' \<and> c \<noteq> CHR ''['' \<and> c \<noteq> CHR '']'' \<and> \<not> is_space c \<and> \<not> line_end c"
  by (auto simp: is_hex_def is_digit_def is_space_def line_end_def Let_def)

lemma groups_all_spelled: "list_all2 spells_group ws gs \<Longrightarrow> groups_all ws = Some gs"
  by (induction ws gs rule: list_all2_induct) (simp_all add: spells_group_def)

lemma spelled_no: "list_all2 spells_group ws gs \<Longrightarrow> w \<in> set ws \<Longrightarrow> w \<noteq> [] \<and> list_all is_hex w"
  by (induction ws gs rule: list_all2_induct) (auto dest: spells_group_chars)

lemma groupsOf_spelled: "list_all2 spells_group ws gs \<Longrightarrow> groupsOf (colons ws) = Some gs"
proof (cases ws)
  case (Cons v vs)
  assume a: "list_all2 spells_group ws gs"
  have "split_on (CHR '':'') (colons ws) = ws"
    unfolding colons_def by (rule split_on_join) (use Cons spelled_no [OF a] hex_plain in \<open>auto simp: list_all_iff\<close>)
  moreover have "colons ws \<noteq> []" using spelled_no [OF a, of v] Cons by (cases vs) (auto simp: colons_def)
  ultimately show ?thesis using groups_all_spelled [OF a] by (simp add: groupsOf_def)
qed (simp add: groupsOf_def colons_def)

lemma split_colons_word: "CHR '':'' \<notin> set w \<Longrightarrow> split_colons (w @ s) = (case split_colons s of [] \<Rightarrow> [w] | p # ps \<Rightarrow> (w @ p) # ps)"
proof (induction w)
  case Nil
  have "split_colons s \<noteq> []" by (induction s rule: split_colons.induct) (auto split: list.splits)
  then show ?case by (simp split: list.splits)
next
  case (Cons c w)
  then show ?case by (cases "w @ s") (auto split: list.splits)
qed

lemma split_colons_one: "t = [] \<or> hd t \<noteq> CHR '':'' \<Longrightarrow> split_colons ('':'' @ t) = (case split_colons t of [] \<Rightarrow> ['':''] | p # ps \<Rightarrow> (CHR '':'' # p) # ps)"
  by (cases t) (auto split: list.splits)


lemma colons_Cons: "ws \<noteq> [] \<Longrightarrow> colons (w # ws) = w @ '':'' @ colons ws"
  by (cases ws) (simp_all add: colons_def)

lemma colons_head: "list_all2 spells_group (w # ws) gs \<Longrightarrow> hd (colons (w # ws) @ t) \<noteq> CHR '':''"
proof -
  assume a: "list_all2 spells_group (w # ws) gs"
  have "w \<noteq> [] \<and> list_all is_hex w" using spelled_no [OF a, of w] by simp
  then have "hd w \<noteq> CHR '':''" using hex_plain by (cases w) auto
  then show ?thesis using \<open>w \<noteq> [] \<and> list_all is_hex w\<close> by (cases ws) (simp_all add: colons_def)
qed

lemma word_no_colon: "list_all2 spells_group ws gs \<Longrightarrow> w \<in> set ws \<Longrightarrow> CHR '':'' \<notin> set w"
  using spelled_no [of ws gs w] hex_plain by (auto simp: list_all_iff)

lemma split_colons_spelled:
  "list_all2 spells_group ws gs \<Longrightarrow> split_colons (colons ws) = [colons ws]"
  "list_all2 spells_group ws gs \<Longrightarrow> split_colons (colons ws @ ''::'' @ t) = colons ws # split_colons t"
proof -
  have "list_all2 spells_group ws gs \<Longrightarrow> split_colons (colons ws) = [colons ws] \<and> split_colons (colons ws @ ''::'' @ t) = colons ws # split_colons t"
  proof (induction ws arbitrary: gs)
    case Nil
    then show ?case by (simp add: colons_def)
  next
    case (Cons w ws)
    have w: "CHR '':'' \<notin> set w" using word_no_colon [OF Cons.prems] by simp
    obtain hs where hs: "list_all2 spells_group ws hs" using Cons.prems by (cases gs) auto
    show ?case
    proof (cases ws)
      case Nil
      then show ?thesis using split_colons_word [OF w, of "[]"] split_colons_word [OF w, of "''::'' @ t"] by (simp add: colons_def)
    next
      case (Cons v vs)
      have h: "hd (colons ws @ u) \<noteq> CHR '':''" for u using colons_head hs unfolding Cons by blast
      have "split_colons ('':'' @ colons ws) = ['':'' @ colons ws]"
        using split_colons_one [of "colons ws"] h [of "[]"] Cons.IH [OF hs] by simp
      moreover have "split_colons ('':'' @ (colons ws @ ''::'' @ t)) = ('':'' @ colons ws) # split_colons t"
        using split_colons_one [of "colons ws @ ''::'' @ t"] h [of "''::'' @ t"] Cons.IH [OF hs] by simp
      ultimately show ?thesis
        using colons_Cons [of ws w] Cons split_colons_word [OF w, of "'':'' @ colons ws"] split_colons_word [OF w, of "'':'' @ (colons ws @ ''::'' @ t)"]
        by simp
    qed
  qed
  then show "list_all2 spells_group ws gs \<Longrightarrow> split_colons (colons ws) = [colons ws]"
    "list_all2 spells_group ws gs \<Longrightarrow> split_colons (colons ws @ ''::'' @ t) = colons ws # split_colons t" by blast+
qed

lemma parse_halves_spelled: "spells_hex s gs \<Longrightarrow> parse_halves s = Some gs"
proof -
  assume "spells_hex s gs"
  then consider (full) ws where "list_all2 spells_group ws gs" "length gs = 8" "s = colons ws"
    | (short) ls rs gl gr where "list_all2 spells_group ls gl" "list_all2 spells_group rs gr" "length gl + length gr < 8"
        "gs = gl @ replicate (8 - length gl - length gr) 0 @ gr" "s = colons ls @ ''::'' @ colons rs"
    unfolding spells_hex_def by blast
  then show ?thesis
  proof cases
    case full
    then show ?thesis by (simp add: parse_halves_def split_colons_spelled(1) [OF full(1)] groupsOf_spelled [OF full(1)])
  next
    case short
    have "split_colons s = [colons ls, colons rs]"
      unfolding short(5) using split_colons_spelled(2) [OF short(1)] split_colons_spelled(1) [OF short(2)] by simp
    then show ?thesis
      using short(3,4) by (simp add: parse_halves_def groupsOf_spelled [OF short(1)] groupsOf_spelled [OF short(2)])
  qed
qed

lemma digits_value_bound: "digits_value b acc s = Some n \<Longrightarrow> n < (acc + 1) * b ^ length s"
proof (induction s arbitrary: acc)
  case (Cons c s)
  then obtain v where v: "digit_value b c = Some v" "digits_value b (acc * b + v) s = Some n" by (auto split: option.splits)
  have "v < b" using v(1) by (auto simp: digit_value_def Let_def split: if_splits)
  then have "acc * b + v + 1 \<le> (acc + 1) * b" by (simp add: algebra_simps)
  then have "(acc * b + v + 1) * b ^ length s \<le> (acc + 1) * b * b ^ length s" by (rule mult_le_mono1)
  with Cons.IH [OF v(2)] have "n < (acc + 1) * b * b ^ length s" by linarith
  then show ?case by (simp only: mult.assoc power_Suc list.size add_Suc_right add_0_right)
qed simp

lemma spells_group_less: "spells_group s g \<Longrightarrow> g < 65536"
proof -
  assume s: "spells_group s g"
  then have "g < 16 ^ length s" using digits_value_bound [of 16 0 s g] by (auto simp: spells_group_def numeral_of_def split: if_splits)
  also have "(16::nat) ^ length s \<le> 16 ^ 4" by (rule power_increasing) (use s in \<open>simp_all add: spells_group_def\<close>)
  finally show ?thesis by simp
qed

lemma spelled_less: "list_all2 spells_group ws gs \<Longrightarrow> list_all (\<lambda>g. g < 65536) gs"
  by (induction ws gs rule: list_all2_induct) (auto dest: spells_group_less)

lemma spells_hex_eight: "spells_hex s gs \<Longrightarrow> eight gs"
proof -
  have "list_all (\<lambda>g. g < 65536) (replicate k (0 :: nat))" for k by (induction k) simp_all
  then show "spells_hex s gs \<Longrightarrow> eight gs" using spelled_less unfolding spells_hex_def by (auto simp: list_all_append)
qed


text \<open>The characters of a spelling, and its case.\<close>

definition ip_char :: "char \<Rightarrow> bool" where
  "ip_char c \<longleftrightarrow> is_hex c \<or> c = CHR '':'' \<or> c = CHR ''.''"

lemma ip_char_plain: "ip_char c \<Longrightarrow> c \<noteq> CHR ''['' \<and> c \<noteq> CHR '']'' \<and> \<not> is_space c \<and> \<not> line_end c"
  using hex_plain by (auto simp: ip_char_def is_space_def line_end_def)

lemma colons_chars: "list_all2 spells_group ws gs \<Longrightarrow> \<forall>c \<in> set (colons ws). is_hex c \<or> c = CHR '':''"
proof -
  have "set (colons ws) \<subseteq> insert (CHR '':'') (\<Union> (set ` set ws))" for ws
    by (induction ws rule: induct_list012) (auto simp: colons_def)
  then show "list_all2 spells_group ws gs \<Longrightarrow> ?thesis" using spelled_no [of ws gs] by (fastforce simp: list_all_iff)
qed

lemma spells_hex_chars: "spells_hex s gs \<Longrightarrow> (\<forall>c \<in> set s. is_hex c \<or> c = CHR '':'') \<and> CHR '':'' \<in> set s"
proof -
  assume "spells_hex s gs"
  then consider (full) ws where "list_all2 spells_group ws gs" "length gs = 8" "s = colons ws"
    | (short) ls rs gl gr where "list_all2 spells_group ls gl" "list_all2 spells_group rs gr" "s = colons ls @ ''::'' @ colons rs"
    unfolding spells_hex_def by blast
  then show ?thesis
  proof cases
    case full
    have "length ws = 8" using full(1,2) by (simp add: list_all2_lengthD)
    then obtain w v vs where "ws = w # v # vs" by (cases ws; cases "tl ws") auto
    then have "CHR '':'' \<in> set s" using full(3) by (simp add: colons_def)
    then show ?thesis using colons_chars [OF full(1)] full(3) by blast
  next
    case short
    then show ?thesis using colons_chars [OF short(1)] colons_chars [OF short(2)] by auto
  qed
qed

lemma lower_digit: "digit_value 16 (lower_char c) = digit_value 16 c" "is_hex (lower_char c) = is_hex c"
proof -
  show "digit_value 16 (lower_char c) = digit_value 16 c" by (auto simp: digit_value_def lower_char_def Let_def)
  show "is_hex (lower_char c) = is_hex c" by (auto simp: is_hex_def is_digit_def lower_char_def Let_def)
qed

lemma digits_value_lower: "digits_value 16 acc (to_lower s) = digits_value 16 acc s"
  by (induction s arbitrary: acc) (simp_all add: to_lower_def lower_digit split: option.splits)

lemma spells_group_lower: "spells_group s g \<Longrightarrow> spells_group (to_lower s) g"
proof -
  have "list_all is_hex (to_lower s) = list_all is_hex s" by (simp add: to_lower_def list_all_iff lower_digit)
  then show "spells_group s g \<Longrightarrow> ?thesis" by (simp add: spells_group_def numeral_of_def digits_value_lower split: if_splits)
qed

lemma colons_lower: "to_lower (colons ws) = colons (map to_lower ws)"
  by (induction ws rule: induct_list012) (simp_all add: colons_def to_lower_def lower_char_def)

lemma spelled_lower: "list_all2 spells_group ws gs \<Longrightarrow> list_all2 spells_group (map to_lower ws) gs"
  by (induction ws gs rule: list_all2_induct) (simp_all add: spells_group_lower)

lemma to_lower_append: "to_lower (s @ t) = to_lower s @ to_lower t"
  by (simp add: to_lower_def)

lemma spells_hex_lower: "spells_hex s gs \<Longrightarrow> spells_hex (to_lower s) gs"
proof -
  assume "spells_hex s gs"
  then consider (full) ws where "list_all2 spells_group ws gs" "length gs = 8" "s = colons ws"
    | (short) ls rs gl gr where "list_all2 spells_group ls gl" "list_all2 spells_group rs gr" "length gl + length gr < 8"
        "gs = gl @ replicate (8 - length gl - length gr) 0 @ gr" "s = colons ls @ ''::'' @ colons rs"
    unfolding spells_hex_def by blast
  then show ?thesis
  proof cases
    case full
    then show ?thesis using spelled_lower [OF full(1)] colons_lower unfolding spells_hex_def by blast
  next
    case short
    have "to_lower s = colons (map to_lower ls) @ ''::'' @ colons (map to_lower rs)"
    proof -
      have "to_lower ''::'' = ''::''" by (simp add: to_lower_def lower_char_def)
      then show ?thesis unfolding short(5) to_lower_append colons_lower by simp
    qed
    then show ?thesis using spelled_lower [OF short(1)] spelled_lower [OF short(2)] short(3,4) unfolding spells_hex_def by blast
  qed
qed

lemma lower_char_id: "(of_char c :: nat) < 65 \<or> (90 < (of_char c :: nat) \<and> (of_char c :: nat) < 192) \<Longrightarrow> lower_char c = c"
  by (auto simp: lower_char_def Let_def)

lemma to_lower_id: "\<forall>c \<in> set s. (of_char c :: nat) < 65 \<Longrightarrow> to_lower s = s"
  unfolding to_lower_def by (rule map_idI) (simp add: lower_char_id)

lemma hex_of_lower: "to_lower (hex_of n) = hex_of n"
proof (induction n rule: hex_of.induct)
  case (1 n)
  have d: "lower_char (char_of (48 + k)) = char_of (48 + k)" if "k < 10" for k :: nat by (rule lower_char_id) (use that in simp)
  have h: "lower_char (char_of (87 + k)) = char_of (87 + k)" if "10 \<le> k" "k < 16" for k :: nat by (rule lower_char_id) (use that in simp)
  have c: "to_lower [if k < 10 then char_of (48 + k) else char_of (87 + k)] = [if k < 10 then char_of (48 + k) else char_of (87 + k)]"
    if "k < 16" for k :: nat using d [of k] h [of k] that by (simp add: to_lower_def)
  show ?case
  proof (cases "n < 16")
    case True
    then show ?thesis using c [of "n mod 16"] by (subst (1 2) hex_of.simps) (simp add: Let_def)
  next
    case False
    then have "hex_of n = hex_of (n div 16) @ [if n mod 16 < 10 then char_of (48 + n mod 16) else char_of (87 + n mod 16)]"
      by (subst hex_of.simps) (simp add: Let_def)
    then show ?thesis using 1 False c [of "n mod 16"] by (simp only: to_lower_append) simp
  qed
qed

lemma quad_lower: "to_lower (dotted_quad a b c d) = dotted_quad a b c d"
proof -
  have "(of_char x :: nat) < 65" if "x \<in> set (digits_of n)" for x n
    using that digits_of_digits [of n] by (auto simp: list_all_iff is_digit_def)
  then show ?thesis by (intro to_lower_id) (auto simp: dotted_quad_def)
qed

lemma spells_lower: "spells s gs \<Longrightarrow> spells (to_lower s) gs"
proof -
  assume "spells s gs"
  then consider (hex) "spells_hex s gs"
    | (quad) front a b c d where "s = front @ dotted_quad a b c d" "a < 256" "b < 256" "c < 256" "d < 256"
        "front \<noteq> []" "last front = CHR '':''" "spells_hex (front @ pair a b @ '':'' @ pair c d) gs"
    unfolding spells_def by blast
  then show ?thesis
  proof cases
    case hex
    then show ?thesis using spells_hex_lower unfolding spells_def by blast
  next
    case quad
    have "to_lower (pair a b) = pair a b" for a b by (simp add: pair_def hex_of_lower)
    moreover have "to_lower '':'' = '':''" by (simp add: to_lower_def lower_char_def)
    ultimately have "to_lower (front @ pair a b @ '':'' @ pair c d) = to_lower front @ pair a b @ '':'' @ pair c d"
      unfolding to_lower_append by simp
    then have "spells_hex (to_lower front @ pair a b @ '':'' @ pair c d) gs" using spells_hex_lower [OF quad(8)] by simp
    moreover have "to_lower s = to_lower front @ dotted_quad a b c d" unfolding quad(1) by (simp add: to_lower_append quad_lower)
    moreover have "last (to_lower front) = CHR '':''" using quad(6,7) by (simp add: to_lower_def last_map lower_char_def)
    ultimately show ?thesis using quad(2-6) unfolding spells_def by (metis to_lower_eq_Nil)
  qed
qed


lemma no_dotted_tail: "CHR ''.'' \<notin> set s \<Longrightarrow> dotted_tail s = None"
proof -
  assume d: "CHR ''.'' \<notin> set s"
  have "CHR ''.'' \<notin> set (rev (takeWhile (\<lambda>c. c \<noteq> CHR '':'') (rev s)))" using d set_takeWhileD by fastforce
  then show ?thesis unfolding dotted_tail_def Let_def by (simp add: split_on_notin)
qed

lemma dotted_tail_quad:
  assumes "front \<noteq> []" "last front = CHR '':''" "\<forall>c \<in> set front. \<not> line_end c" "a < 256" "b < 256" "c < 256" "d < 256"
  shows "dotted_tail (front @ dotted_quad a b c d) = Some (front, [digits_of a, digits_of b, digits_of c, digits_of d])"
proof -
  let ?q = "dotted_quad a b c d"
  have n: "CHR '':'' \<notin> set ?q" by (simp add: dotted_quad_def)
  obtain f where "front = f @ [CHR '':'']" using assms(1,2) by (cases front rule: rev_cases) auto
  then have "rev (front @ ?q) = rev ?q @ CHR '':'' # rev f" by simp
  moreover have "takeWhile (\<lambda>c. c \<noteq> CHR '':'') (rev ?q @ CHR '':'' # rev f) = rev ?q @ takeWhile (\<lambda>c. c \<noteq> CHR '':'') (CHR '':'' # rev f)"
    by (rule takeWhile_append2) (use n in auto)
  ultimately have "takeWhile (\<lambda>c. c \<noteq> CHR '':'') (rev (front @ ?q)) = rev ?q" by simp
  then have t: "rev (takeWhile (\<lambda>c. c \<noteq> CHR '':'') (rev (front @ ?q))) = ?q" by simp
  have "1 \<le> length (digits_of k) \<and> length (digits_of k) \<le> 3 \<and> list_all is_digit (digits_of k)" if "k < 256" for k
    using digits_of_digits [of k] digits_of_short [of k] that by (simp add: Suc_le_eq)
  then show ?thesis
    unfolding dotted_tail_def t Let_def dotted_quad_parts using assms by (simp add: list_all_iff)
qed

lemma parseIpv6_spelled: "spells s gs \<Longrightarrow> parseIpv6 s = Some gs"
proof -
  assume "spells s gs"
  then consider (hex) "spells_hex s gs"
    | (quad) front a b c d where "s = front @ dotted_quad a b c d" "a < 256" "b < 256" "c < 256" "d < 256"
        "front \<noteq> []" "last front = CHR '':''" "spells_hex (front @ pair a b @ '':'' @ pair c d) gs"
    unfolding spells_def by blast
  then show ?thesis
  proof cases
    case hex
    have "CHR ''.'' \<notin> set s" using spells_hex_chars [OF hex] hex_plain by auto
    then show ?thesis using parse_halves_spelled [OF hex] by (simp add: parseIpv6_def no_dotted_tail)
  next
    case quad
    have "\<forall>c \<in> set front. \<not> line_end c" using spells_hex_chars [OF quad(8)] ip_char_plain by (auto simp: ip_char_def)
    then have "dotted_tail s = Some (front, [digits_of a, digits_of b, digits_of c, digits_of d])"
      unfolding quad(1) by (rule dotted_tail_quad [OF quad(6,7) _ quad(2-5)])
    then show ?thesis using quad(2-5) parse_halves_spelled [OF quad(8)] by (simp add: parseIpv6_def numeral_of_digits)
  qed
qed

lemma spells_chars: "spells s gs \<Longrightarrow> (\<forall>c \<in> set s. ip_char c) \<and> CHR '':'' \<in> set s \<and> eight gs"
proof -
  assume "spells s gs"
  then consider (hex) "spells_hex s gs"
    | (quad) front a b c d where "s = front @ dotted_quad a b c d" "front \<noteq> []" "last front = CHR '':''"
        "spells_hex (front @ pair a b @ '':'' @ pair c d) gs"
    unfolding spells_def by blast
  then show ?thesis
  proof cases
    case hex
    then show ?thesis using spells_hex_chars spells_hex_eight by (auto simp: ip_char_def)
  next
    case quad
    have q: "ip_char x" if "x \<in> set (dotted_quad a b c d)" for x
      using that digits_of_digits [of a] digits_of_digits [of b] digits_of_digits [of c] digits_of_digits [of d]
      by (auto simp: dotted_quad_def ip_char_def is_hex_def list_all_iff)
    have "CHR '':'' \<in> set front" using quad(2,3) last_in_set by fastforce
    then show ?thesis using spells_hex_chars [OF quad(4)] spells_hex_eight [OF quad(4)] q unfolding quad(1) by (auto simp: ip_char_def)
  qed
qed

lemma unbracket_plain: "\<forall>c \<in> set h. ip_char c \<Longrightarrow> unbracket h = h" "\<forall>c \<in> set h. ip_char c \<Longrightarrow> unbracket (''['' @ h @ '']'') = h"
proof -
  assume a: "\<forall>c \<in> set h. ip_char c"
  have "\<not> starts_with h ''[''" using a ip_char_plain by (cases h) (auto simp: starts_with_def)
  moreover have "h \<noteq> [] \<Longrightarrow> last h \<noteq> CHR '']''" using a ip_char_plain last_in_set by blast
  ultimately show "unbracket h = h" by (auto simp: unbracket_def Let_def)
  show "unbracket (''['' @ h @ '']'') = h" by (simp add: unbracket_def Let_def starts_with_def)
qed

lemma isBlocked_bare:
  assumes "\<forall>c \<in> set s. ip_char c" "s \<noteq> []"
  shows "isBlockedIpLiteral s = isBlockedIpLiteral (''['' @ s @ '']'')"
    "isBlockedIpLiteral s =
       (if CHR '':'' \<notin> set (to_lower s) then isBlockedIpv4 (to_lower s)
        else case parseIpv6 (to_lower s) of None \<Rightarrow> True | Some gs \<Rightarrow> verdict6 gs)"
proof -
  have l: "\<forall>c \<in> set (to_lower s). ip_char c" using assms(1) lower_digit(2) by (auto simp: to_lower_def ip_char_def lower_char_def)
  have sp: "js_trim s = s" "js_trim (''['' @ s @ '']'') = ''['' @ s @ '']''"
  proof -
    have b: "\<not> is_space (CHR ''['')" "\<not> is_space (CHR '']'')" by (simp_all add: is_space_def)
    show "js_trim s = s" by (rule js_trim_id) (use assms(1) ip_char_plain in blast)
    show "js_trim (''['' @ s @ '']'') = ''['' @ s @ '']''" by (rule js_trim_id) (use assms(1) ip_char_plain b in auto)
  qed
  have b: "to_lower (''['' @ s @ '']'') = ''['' @ to_lower s @ '']''" by (simp add: to_lower_def lower_char_def)
  have v: "(if CHR '':'' \<notin> set t then isBlockedIpv4 t
      else case parseIpv6 t of None \<Rightarrow> True
        | Some gs \<Rightarrow> (case embeddedIpv4 gs of Some ip \<Rightarrow> isBlockedIpv4 ip
            | None \<Rightarrow> if gs ! 0 = 0x2002 then True else if gs ! 0 = 0x2001 \<and> gs ! 1 = 0x0000 then True else (gs ! 0) AND 0xe000 \<noteq> 0x2000)) =
     (if CHR '':'' \<notin> set t then isBlockedIpv4 t else case parseIpv6 t of None \<Rightarrow> True | Some gs \<Rightarrow> verdict6 gs)" for t
    by (auto simp: verdict6_def split: option.splits)
  show 1: "isBlockedIpLiteral s =
       (if CHR '':'' \<notin> set (to_lower s) then isBlockedIpv4 (to_lower s)
        else case parseIpv6 (to_lower s) of None \<Rightarrow> True | Some gs \<Rightarrow> verdict6 gs)"
    unfolding isBlockedIpLiteral_def Let_def sp unbracket_plain(1) [OF l] v using assms(2) by simp
  show "isBlockedIpLiteral s = isBlockedIpLiteral (''['' @ s @ '']'')"
    unfolding 1 unfolding isBlockedIpLiteral_def Let_def sp b unbracket_plain(2) [OF l] v using assms(2) by simp
qed

section \<open>Properties\<close>

text \<open>C28: However an address is written - a dotted quad; eight groups; groups around a \<open>::\<close>; a dotted quad for the last two;
  in any case, in brackets or not - the guard's verdict is that of the networks on the address itself.\<close>

theorem every_spelling_same_verdict:
  "(a < 256 \<and> b < 256 \<and> c < 256 \<and> d < 256 \<longrightarrow> isBlockedIpLiteral (dotted_quad a b c d) = blocked32 (ipv4 a b c d)) \<and>
   (spells s gs \<longrightarrow> isBlockedIpLiteral s = blocked128 (ipv6 gs) \<and> isBlockedIpLiteral (''['' @ s @ '']'') = blocked128 (ipv6 gs))"
proof -
  have "isBlockedIpLiteral (dotted_quad a b c d) = blocked32 (ipv4 a b c d)" if l: "a < 256" "b < 256" "c < 256" "d < 256"
  proof -
    have c: "\<forall>x \<in> set (dotted_quad a b c d). ip_char x" "CHR '':'' \<notin> set (dotted_quad a b c d)"
      using digits_of_digits [of a] digits_of_digits [of b] digits_of_digits [of c] digits_of_digits [of d]
      by (auto simp: dotted_quad_def ip_char_def is_hex_def list_all_iff)
    have "dotted_quad a b c d \<noteq> []" by (simp add: dotted_quad_def)
    from isBlocked_bare(2) [OF c(1) this] show ?thesis using blocked_quad [OF l] c(2) by (simp add: quad_lower)
  qed
  moreover have "isBlockedIpLiteral s = blocked128 (ipv6 gs) \<and> isBlockedIpLiteral (''['' @ s @ '']'') = blocked128 (ipv6 gs)" if s: "spells s gs"
  proof -
    have c: "\<forall>x \<in> set s. ip_char x" "s \<noteq> []" "eight gs" using spells_chars [OF s] by auto
    have l: "CHR '':'' \<in> set (to_lower s)" using spells_chars [OF spells_lower [OF s]] by blast
    have "isBlockedIpLiteral s = verdict6 gs"
      unfolding isBlocked_bare(2) [OF c(1,2)] using l parseIpv6_spelled [OF spells_lower [OF s]] by simp
    then show ?thesis using verdict6_iff [OF c(3)] isBlocked_bare(1) [OF c(1,2)] by simp
  qed
  ultimately show ?thesis by blast
qed

lemma spelled_example: "spells ''::ffff:A9FE:a9fe'' [0, 0, 0, 0, 0, 0xffff, 0xa9fe, 0xa9fe]"
proof -
  have "spells_hex (colons [] @ ''::'' @ colons [''ffff'', ''A9FE'', ''a9fe'']) ([] @ replicate (8 - length ([] :: nat list) - length [0xffff, 0xa9fe, 0xa9fe :: nat]) 0 @ [0xffff, 0xa9fe, 0xa9fe])"
    unfolding spells_hex_def
    by (intro disjI2 exI [of _ "[]"] exI [of _ "[''ffff'', ''A9FE'', ''a9fe'']"] exI [of _ "[0xffff, 0xa9fe, 0xa9fe]"] conjI refl)
      (simp_all add: spells_group_def numeral_of_def digit_value_def Let_def is_hex_def is_digit_def)
  moreover have "replicate 5 0 = [0, 0, 0, 0, 0 :: nat]" by (simp add: numeral_eq_Suc)
  ultimately show ?thesis unfolding spells_def by (simp add: colons_def)
qed

lemma every_spelling_same_verdict_witness:
  "isBlockedIpLiteral ''[::ffff:A9FE:a9fe]'' \<and> blocked128 (ipv6 [0, 0, 0, 0, 0, 0xffff, 0xa9fe, 0xa9fe])"
proof -
  have "embeddedIpv4 [0, 0, 0, 0, 0, 0xffff, 0xa9fe, 0xa9fe] = Some (dotted_quad 169 254 169 254)"
    by (simp add: embeddedIpv4_def last32_def drop_bit_eq_div and_low)
  then have "blocked128 (ipv6 [0, 0, 0, 0, 0, 0xffff, 0xa9fe, 0xa9fe])"
    by (subst verdict6_iff [symmetric]) (simp_all add: verdict6_def blocked_quad blocked32_iff)
  moreover note every_spelling_same_verdict [of 0 0 0 0 "''::ffff:A9FE:a9fe''" "[0, 0, 0, 0, 0, 0xffff, 0xa9fe, 0xa9fe]"] spelled_example
  ultimately show ?thesis by simp
qed

text \<open>The octets a text stands for, read as \<open>Number\<close> reads them.\<close>

definition octets :: "string \<Rightarrow> (nat \<times> nat \<times> nat \<times> nat) option" where
  "octets s =
     (case map number_octet (split_on (CHR ''.'') s) of
        [Some a, Some b, Some c, Some d] \<Rightarrow> Some (a, b, c, d)
      | _ \<Rightarrow> None)"


lemma number_octet_less: "number_octet p = Some n \<Longrightarrow> n < 256"
proof -
  have b: "byte_of x = Some n \<Longrightarrow> n < 256" for x by (auto simp: byte_of_def split: option.splits if_splits)
  have s: "scaled_octet d e = Some n \<Longrightarrow> n < 256" for d e
    by (auto simp: scaled_octet_def find_Some_iff split: if_splits)
  have "decimal_octet u = Some n \<Longrightarrow> n < 256" for u
    by (auto simp: decimal_octet_def Let_def split: option.splits if_splits dest: s)
  then show "number_octet p = Some n \<Longrightarrow> n < 256" using b
    unfolding number_octet_def Let_def by (auto split: if_splits)
qed

lemma octets_verdict: "octets s = Some (a, b, c, d) \<Longrightarrow> isBlockedIpv4 s = blocked32 (ipv4 a b c d)"
proof -
  assume "octets s = Some (a, b, c, d)"
  then have m: "map number_octet (split_on (CHR ''.'') s) = [Some a, Some b, Some c, Some d]"
    by (auto simp: octets_def split: list.splits option.splits)
  then have "Some x \<in> set (map number_octet (split_on (CHR ''.'') s)) \<Longrightarrow> x < 256" for x
    using number_octet_less by (metis (no_types, lifting) image_iff list.set_map)
  then have "a < 256" "b < 256" "c < 256" "d < 256" unfolding m by simp_all
  then show ?thesis by (rule isBlockedIpv4_iff [OF m])
qed

lemma allowed_octets: "\<not> isBlockedIpv4 s \<Longrightarrow> octets s \<noteq> None"
proof -
  assume "\<not> isBlockedIpv4 s"
  then have "length (map number_octet (split_on (CHR ''.'') s)) = 4" "None \<notin> set (map number_octet (split_on (CHR ''.'') s))"
    by (auto simp: isBlockedIpv4_def Let_def split: if_splits)
  then show ?thesis unfolding octets_def
    by (auto simp: numeral_eq_Suc length_Suc_conv split: option.splits list.splits)
qed

lemma groups_all_less: "groups_all ws = Some gs \<Longrightarrow> list_all (\<lambda>g. g < 65536) gs"
proof (induction ws arbitrary: gs)
  case (Cons w ws)
  then obtain n ns where n: "length w \<le> 4" "list_all is_hex w" "1 \<le> length w" "numeral_of 16 w = Some n" "groups_all ws = Some ns" "gs = n # ns"
    by (auto split: if_splits option.splits)
  have "spells_group w n" using n by (simp add: spells_group_def)
  then show ?case using spells_group_less Cons.IH [OF n(5)] n(6) by simp
qed simp

lemma groupsOf_less: "groupsOf s = Some gs \<Longrightarrow> list_all (\<lambda>g. g < 65536) gs"
  using groups_all_less by (auto simp: groupsOf_def split: if_splits)

lemma parse_halves_eight: "parse_halves s = Some gs \<Longrightarrow> eight gs"
proof -
  have "list_all (\<lambda>g. g < 65536) (replicate k (0 :: nat))" for k by (induction k) simp_all
  then show "parse_halves s = Some gs \<Longrightarrow> eight gs"
    by (auto simp: parse_halves_def list_all_append dest: groupsOf_less split: list.splits option.splits if_splits)
qed

lemma parseIpv6_eight: "parseIpv6 s = Some gs \<Longrightarrow> eight gs"
  by (auto simp: parseIpv6_def Let_def dest: parse_halves_eight split: option.splits prod.splits if_splits)

text \<open>What the guard lets through its own readers have read: \<open>octets\<close> (each part through Number, an empty one as 0) or
  \<open>parseIpv6\<close>, as an address in none of the blocked networks.  How the readers take every spelling of an address is
  \<open>every_spelling_same_verdict\<close>; that they take more than an address's spellings is \<open>empty_octets_are_let_through\<close>.\<close>

lemma allowed_addresses_are_public:
  assumes "\<not> isBlockedIpLiteral host"
  shows "let bare = unbracket (to_lower (js_trim host)) in
    (\<exists>a b c d. octets bare = Some (a, b, c, d) \<and> \<not> blocked32 (ipv4 a b c d)) \<or>
    (\<exists>gs. parseIpv6 bare = Some gs \<and> eight gs \<and> \<not> blocked128 (ipv6 gs))"
proof -
  let ?bare = "unbracket (to_lower (js_trim host))"
  show ?thesis
  proof (cases "CHR '':'' \<in> set ?bare")
    case False
    then have "\<not> isBlockedIpv4 ?bare" using assms by (auto simp: isBlockedIpLiteral_def Let_def split: if_splits)
    then show ?thesis using allowed_octets octets_verdict unfolding Let_def by (metis not_None_eq prod_cases4)
  next
    case True
    then obtain gs where gs: "parseIpv6 ?bare = Some gs" "\<not> verdict6 gs"
      using assms by (auto simp: isBlockedIpLiteral_def verdict6_def Let_def split: if_splits option.splits)
    then show ?thesis using parseIpv6_eight [OF gs(1)] verdict6_iff unfolding Let_def by blast
  qed
qed

lemma allowed_addresses_are_public_witness:
  "octets ''8.8.4.4'' = Some (8, 8, 4, 4) \<and> \<not> blocked32 (ipv4 8 8 4 4)"
proof -
  have o: "number_octet ''8'' = Some 8" "number_octet ''4'' = Some 4"
    by (simp_all add: number_octet_digits is_digit_def byte_of_def numeral_of_def digit_value_def Let_def)
  then have q: "octets ''8.8.4.4'' = Some (8, 8, 4, 4)" by (simp add: octets_def)
  have b: "unbracket (to_lower (js_trim ''8.8.4.4'')) = ''8.8.4.4''" by code_simp
  have "\<not> isBlockedIpv4 ''8.8.4.4''" using o by (simp add: isBlockedIpv4_def)
  then have "\<not> isBlockedIpLiteral ''8.8.4.4''" unfolding isBlockedIpLiteral_def using b
    by (auto simp: Let_def unbracket_def starts_with_def split: if_splits)
  from allowed_addresses_are_public [OF this] have "(\<exists>a b c d. octets ''8.8.4.4'' = Some (a, b, c, d) \<and> \<not> blocked32 (ipv4 a b c d)) \<or>
    (\<exists>gs. parseIpv6 ''8.8.4.4'' = Some gs)" unfolding b Let_def by blast
  moreover have "parseIpv6 ''8.8.4.4'' = None" by code_simp
  ultimately show ?thesis using q by simp
qed

text \<open>An octet left out counts as zero.\<close>

lemma empty_octets_are_let_through: "\<not> isBlockedIpv4 ''8...8''"
proof -
  have "number_octet ''8'' = Some 8" "number_octet [] = Some 0"
    by (simp_all add: number_octet_digits is_digit_def byte_of_def numeral_of_def digit_value_def Let_def)
      (simp add: number_octet_def)
  then show ?thesis by (simp add: isBlockedIpv4_def)
qed

end
