(* ===== verification/Client_Filter.thy ===== *)
theory Client_Filter imports Lurker_Base begin

text \<open>
  \<open>server/services/bouncerClientFilter.ts\<close>: what an attached client of the bouncer may receive.  The filter's state
  is its open batches, by reference; the client's caps and what its network knows are read anew for every line.
  The time a relayed line gets is given as its ISO text.  A \<open>CHGHOST\<close> is written as fallback lines that go through
  the filter again: \<open>apply_line\<close> has the nesting as fuel and \<open>None\<close> for none left.
\<close>

section \<open>Lines\<close>

record client_line =
  cl_tags :: "string list"
  cl_source :: "string option"
  cl_command :: string
  cl_params :: "string list"
  cl_trailing :: bool

text \<open>What is before and after the first blank, or the first blank with a colon behind it.\<close>

definition at_blank :: "string \<Rightarrow> (string \<times> string) option" where
  "at_blank s = (if CHR '' '' \<in> set s then Some (takeWhile (\<lambda>c. c \<noteq> CHR '' '') s, tl (dropWhile (\<lambda>c. c \<noteq> CHR '' '') s)) else None)"

fun at_trailing :: "string \<Rightarrow> string \<times> string option" where
  "at_trailing (c # d # s) =
     (if c = CHR '' '' \<and> d = CHR '':'' then ([], Some s)
      else let (h, t) = at_trailing (d # s) in (c # h, t))"
| "at_trailing s = (s, None)"

definition words :: "string \<Rightarrow> string list" where
  "words s = filter (\<lambda>w. w \<noteq> []) (split_on (CHR '' '') s)"

definition parse_command :: "string list \<Rightarrow> string option \<Rightarrow> string \<Rightarrow> client_line option" where
  "parse_command tags source rest =
     (let (head, trailing) = at_trailing rest in
      case words head of
        [] \<Rightarrow> None
      | w # ws \<Rightarrow>
          Some \<lparr>cl_tags = tags, cl_source = source, cl_command = to_upper w,
            cl_params = ws @ (case trailing of None \<Rightarrow> [] | Some t \<Rightarrow> [t]), cl_trailing = (trailing \<noteq> None)\<rparr>)"

definition parse_source :: "string list \<Rightarrow> string \<Rightarrow> client_line option" where
  "parse_source tags line =
     (let rest = dropWhile (\<lambda>c. c = CHR '' '') line in
      if starts_with rest '':''
      then (case at_blank rest of
              None \<Rightarrow> None
            | Some (s, rest') \<Rightarrow> parse_command tags (Some (drop 1 s)) rest')
      else parse_command tags None rest)"

definition parseLine :: "string \<Rightarrow> client_line option" where
  "parseLine line =
     (if starts_with line ''@''
      then (case at_blank line of
              None \<Rightarrow> None
            | Some (t, rest) \<Rightarrow> parse_source (filter (\<lambda>tag. tag \<noteq> []) (split_on (CHR '';'') (drop 1 t))) rest)
      else parse_source [] line)"

definition format_param :: "bool \<Rightarrow> string \<Rightarrow> string" where
  "format_param trailing p =
     (if trailing \<or> p = [] \<or> CHR '' '' \<in> set p \<or> starts_with p '':'' then CHR '':'' # p else p)"

definition format_params :: "client_line \<Rightarrow> string list" where
  "format_params msg =
     (if cl_params msg = [] then []
      else butlast (cl_params msg) @ [format_param (cl_trailing msg) (last (cl_params msg))])"

definition formatLine :: "client_line \<Rightarrow> string" where
  "formatLine msg =
     join_with '' ''
       ((if cl_tags msg \<noteq> [] then [''@'' @ join_with '';'' (cl_tags msg)] else []) @
        (case cl_source msg of None \<Rightarrow> [] | Some s \<Rightarrow> ['':'' @ s]) @ [cl_command msg] @ format_params msg)"

definition tagKey :: "string \<Rightarrow> string" where
  "tagKey tag = takeWhile (\<lambda>c. c \<noteq> CHR ''='') tag"

definition tagValue :: "string list \<Rightarrow> string \<Rightarrow> string option" where
  "tagValue tags key = map_option (drop (length key + 1)) (find (\<lambda>t. tagKey t = key) tags)"

definition restrictTags :: "string \<Rightarrow> (string \<Rightarrow> bool) \<Rightarrow> string option" where
  "restrictTags line keep =
     (case parseLine line of
        None \<Rightarrow> None
      | Some msg \<Rightarrow>
          let kept = filter (\<lambda>t. keep (tagKey t)) (cl_tags msg) in
          if length kept = length (cl_tags msg) \<and> (kept \<noteq> [] \<or> \<not> starts_with line ''@'') then Some line
          else Some (formatLine (msg\<lparr>cl_tags := kept\<rparr>)))"

text \<open>\<open>/^-?(?:\S*\/)?FILEHOST(?:=|$)/i\<close>: the name is at the front, or behind some slash with no blank before it.\<close>

definition filehost_at :: "string \<Rightarrow> bool" where
  "filehost_at s \<longleftrightarrow> to_upper (take 8 s) = ''FILEHOST'' \<and> (drop 8 s = [] \<or> hd (drop 8 s) = CHR ''='')"

fun filehost_after :: "string \<Rightarrow> bool" where
  "filehost_after [] = False"
| "filehost_after (c # s) = (\<not> is_space c \<and> ((c = CHR ''/'' \<and> filehost_at s) \<or> filehost_after s))"

definition filehost_token :: "string \<Rightarrow> bool" where
  "filehost_token p =
     (filehost_at p \<or> filehost_after p \<or> (starts_with p ''-'' \<and> (filehost_at (tl p) \<or> filehost_after (tl p))))"

definition withoutUpstreamFilehost :: "string \<Rightarrow> string option" where
  "withoutUpstreamFilehost line =
     (case parseLine line of
        None \<Rightarrow> Some line
      | Some msg \<Rightarrow>
          if cl_command msg \<noteq> ''005'' \<or> length (cl_params msg) < 2 then Some line
          else let params = tl (cl_params msg); kept = filter (\<lambda>p. \<not> filehost_token p) params in
            if length kept = length params then Some line
            else let text = (cl_trailing msg \<and> \<not> filehost_token (last params)) in
              if length kept = (if text then 1 else 0) then None
              else Some (formatLine (msg\<lparr>cl_params := hd (cl_params msg) # kept, cl_trailing := text\<rparr>)))"

definition highestPrefixOnly :: "string \<Rightarrow> string \<Rightarrow> string" where
  "highestPrefixOnly entry symbols =
     (let e = length (takeWhile (\<lambda>c. c \<in> set symbols) entry) in
      if 1 < e then hd entry # drop e entry else entry)"

definition whoFlagsHighestPrefixOnly :: "string \<Rightarrow> string \<Rightarrow> string" where
  "whoFlagsHighestPrefixOnly flags symbols =
     (let start = length (takeWhile (\<lambda>c. c \<notin> set symbols) flags);
          stop = start + length (takeWhile (\<lambda>c. c \<in> set symbols) (drop start flags))
      in if 1 < stop - start then take (start + 1) flags @ drop stop flags else flags)"

section \<open>The client, its network and its open batches\<close>

record shared_channel =
  sc_channel :: string
  sc_modes :: "string list"
  sc_account :: "string option"

record client_view =
  cv_caps :: "string list"
  cv_serverName :: string
  cv_nick :: "string option"
  cv_prefixes :: "(string \<times> string) list"
  cv_shared :: "string \<Rightarrow> shared_channel list"
  cv_monitors :: "string \<Rightarrow> bool"

definition has_cap :: "client_view \<Rightarrow> string \<Rightarrow> bool" where
  "has_cap view cap \<longleftrightarrow> cap \<in> set (cv_caps view)"

definition EXTENDED_MONITOR_CAPS :: "string list" where
  "EXTENDED_MONITOR_CAPS = [''extended-monitor'', ''draft/extended-monitor'']"

definition PRESENCE_COMMANDS :: "string list" where
  "PRESENCE_COMMANDS = [''AWAY'', ''ACCOUNT'', ''CHGHOST'', ''SETNAME'']"

definition METADATA_CAP :: string where
  "METADATA_CAP = ''draft/metadata-2''"

definition METADATA_BATCH_TYPES :: "string list" where
  "METADATA_BATCH_TYPES = [''metadata'', ''metadata-subs'']"

definition metadata_numeric :: "string \<Rightarrow> bool" where
  "metadata_numeric c \<longleftrightarrow>
     length c = 3 \<and> hd c = CHR ''7'' \<and>
     ((c ! 1 = CHR ''6'' \<and> is_digit (c ! 2)) \<or> (c ! 1 = CHR ''7'' \<and> c ! 2 \<in> set ''012345''))"

definition CAP_GATED_COMMANDS :: "(string \<times> string) list" where
  "CAP_GATED_COMMANDS =
     [(''TAGMSG'', ''message-tags''), (''BATCH'', ''batch''), (''AWAY'', ''away-notify''), (''ACCOUNT'', ''account-notify''),
      (''CHGHOST'', ''chghost''), (''SETNAME'', ''setname''), (''REDACT'', ''draft/message-redaction''),
      (''MARKREAD'', ''draft/read-marker''), (''METADATA'', ''draft/metadata-2'')]"

definition TAG_CAPS :: "(string \<times> string) list" where
  "TAG_CAPS = [(''time'', ''server-time''), (''batch'', ''batch''), (''account'', ''account-tag'')]"

record open_batch =
  ob_type :: string
  ob_opened :: bool
  ob_tags :: "string list"
  ob_first :: bool

type_synonym batches = "(string \<times> open_batch) list"

definition batch_sent :: "client_view \<Rightarrow> batches \<Rightarrow> string \<Rightarrow> bool" where
  "batch_sent view bs ref \<longleftrightarrow> has_cap view ''batch'' \<and> (case map_of bs ref of None \<Rightarrow> False | Some b \<Rightarrow> ob_opened b)"

definition resetBatches :: "batches \<Rightarrow> batches" where
  "resetBatches bs = []"

definition forgetSentBatches :: "batches \<Rightarrow> batches" where
  "forgetSentBatches bs = map (\<lambda>(ref, b). (ref, b\<lparr>ob_opened := False\<rparr>)) bs"

definition nick_of :: "client_line \<Rightarrow> string" where
  "nick_of msg = takeWhile (\<lambda>c. c \<noteq> CHR ''!'') (case cl_source msg of None \<Rightarrow> [] | Some s \<Rightarrow> s)"

definition is_self :: "client_view \<Rightarrow> string \<Rightarrow> bool" where
  "is_self view nick = (case cv_nick view of None \<Rightarrow> False | Some self \<Rightarrow> self \<noteq> [] \<and> to_lower nick = to_lower self)"

definition inAudience :: "client_view \<Rightarrow> client_line \<Rightarrow> bool" where
  "inAudience view msg =
     (let nick = nick_of msg in
      if nick = [] then True
      else if is_self view nick then True
      else if (\<exists>cap \<in> set EXTENDED_MONITOR_CAPS. has_cap view cap) \<and> cv_monitors view nick then True
      else cv_shared view nick \<noteq> [])"

definition prefixSymbols :: "client_view \<Rightarrow> string" where
  "prefixSymbols view = concat (map snd (cv_prefixes view))"


section \<open>The rules, in their order\<close>

text \<open>A rule yields the line as it now stands, and whether a rule has changed it.\<close>

type_synonym draft = "client_line \<times> bool"

definition p_at :: "client_line \<Rightarrow> nat \<Rightarrow> string" where
  "p_at msg i = (if i < length (cl_params msg) then cl_params msg ! i else [])"

definition batch_ref :: "client_line \<Rightarrow> string option" where
  "batch_ref msg = tagValue (cl_tags msg) ''batch''"

definition keep_tags :: "(string \<Rightarrow> bool) \<Rightarrow> client_line \<Rightarrow> client_line" where
  "keep_tags P msg = msg\<lparr>cl_tags := filter P (cl_tags msg)\<rparr>"

definition drop_unsent_batch :: "client_view \<Rightarrow> batches \<Rightarrow> client_line \<Rightarrow> draft" where
  "drop_unsent_batch view bs msg =
     (case batch_ref msg of
        Some ref \<Rightarrow> if batch_sent view bs ref then (msg, False) else (keep_tags (\<lambda>t. tagKey t \<noteq> ''batch'') msg, True)
      | None \<Rightarrow> (msg, False))"

text \<open>A \<open>BATCH\<close> line: the open batches after it, and whether it may go on.\<close>

definition batch_line :: "client_view \<Rightarrow> client_line \<Rightarrow> batches \<Rightarrow> batches \<times> bool" where
  "batch_line view msg bs =
     (if cl_command msg \<noteq> ''BATCH'' then (bs, True)
      else let refParam = p_at msg 0; type = p_at msg 1 in
        if starts_with refParam ''+'' then
          let opened = has_cap view ''batch'' \<and> type \<noteq> ''draft/multiline'' \<and>
                \<not> (type \<in> set METADATA_BATCH_TYPES \<and> \<not> has_cap view METADATA_CAP)
          in (AList.update (drop 1 refParam) \<lparr>ob_type = type, ob_opened = opened, ob_tags = cl_tags msg, ob_first = True\<rparr> bs, opened)
        else if starts_with refParam ''-'' then
          (AList.delete (drop 1 refParam) bs,
           case map_of bs (drop 1 refParam) of None \<Rightarrow> False | Some b \<Rightarrow> ob_opened b)
        else (bs, True))"

definition gate_of :: "client_line \<Rightarrow> string option" where
  "gate_of msg = map_of CAP_GATED_COMMANDS (cl_command msg)"

definition gated :: "client_view \<Rightarrow> client_line \<Rightarrow> bool" where
  "gated view msg = (case gate_of msg of None \<Rightarrow> False | Some cap \<Rightarrow> \<not> has_cap view cap)"

definition withheld :: "client_view \<Rightarrow> client_line \<Rightarrow> bool" where
  "withheld view msg \<longleftrightarrow>
     (metadata_numeric (cl_command msg) \<and> \<not> has_cap view METADATA_CAP) \<or>
     (cl_command msg \<in> set PRESENCE_COMMANDS \<and> \<not> inAudience view msg) \<or>
     (cl_command msg = ''INVITE'' \<and> \<not> has_cap view ''invite-notify'' \<and>
        (case cv_nick view of None \<Rightarrow> True | Some nick \<Rightarrow> nick = [] \<or> to_lower (p_at msg 0) \<noteq> to_lower nick))"

definition trim_join :: "client_view \<Rightarrow> draft \<Rightarrow> draft" where
  "trim_join view d =
     (let (msg, dirty) = d in
      if cl_command msg = ''JOIN'' \<and> 1 < length (cl_params msg) \<and> \<not> has_cap view ''extended-join''
      then (msg\<lparr>cl_params := take 1 (cl_params msg), cl_trailing := False\<rparr>, True) else d)"

definition plain_entry :: "client_view \<Rightarrow> string \<Rightarrow> string" where
  "plain_entry view entry =
     (let name = (if has_cap view ''multi-prefix'' then entry else highestPrefixOnly entry (prefixSymbols view)) in
      if has_cap view ''userhost-in-names'' then name else takeWhile (\<lambda>c. c \<noteq> CHR ''!'') name)"

definition trim_names :: "client_view \<Rightarrow> draft \<Rightarrow> draft" where
  "trim_names view d =
     (let (msg, dirty) = d in
      if cl_command msg = ''353'' \<and> 3 \<le> length (cl_params msg) \<and>
         (\<not> has_cap view ''multi-prefix'' \<or> \<not> has_cap view ''userhost-in-names'')
      then let entries = join_with '' '' (map (plain_entry view) (split_on (CHR '' '') (last (cl_params msg)))) in
           if entries \<noteq> last (cl_params msg) then (msg\<lparr>cl_params := butlast (cl_params msg) @ [entries]\<rparr>, True) else d
      else d)"

definition trim_who :: "client_view \<Rightarrow> draft \<Rightarrow> draft" where
  "trim_who view d =
     (let (msg, dirty) = d in
      if cl_command msg = ''352'' \<and> 7 \<le> length (cl_params msg) \<and> \<not> has_cap view ''multi-prefix''
      then let flags = whoFlagsHighestPrefixOnly (cl_params msg ! 6) (prefixSymbols view) in
           if flags \<noteq> cl_params msg ! 6 then (msg\<lparr>cl_params := (cl_params msg)[6 := flags]\<rparr>, True) else d
      else d)"

text \<open>The lines of a multiline batch as plain messages: \<open>None\<close> for a blank one.\<close>

definition carried_tags :: "client_view \<Rightarrow> batches \<Rightarrow> open_batch \<Rightarrow> string list" where
  "carried_tags view bs b =
     filter (\<lambda>t. if tagKey t = ''msgid'' then ob_first b
                 else if tagKey t = ''batch'' then batch_sent view bs (drop 6 t) else True) (ob_tags b)"

definition unwrap_multiline :: "client_view \<Rightarrow> string option \<Rightarrow> batches \<Rightarrow> draft \<Rightarrow> (batches \<times> draft) option" where
  "unwrap_multiline view ref bs d =
     (let (msg, dirty) = d in
      case (case ref of None \<Rightarrow> None | Some r \<Rightarrow> map_option (Pair r) (map_of bs r)) of
        None \<Rightarrow> Some (bs, d)
      | Some (r, b) \<Rightarrow>
          if ob_type b = ''draft/multiline'' \<and> cl_command msg \<in> {''PRIVMSG'', ''NOTICE''} then
            if p_at msg 1 = [] then None
            else let present = map tagKey (cl_tags msg);
                     added = filter (\<lambda>t. tagKey t \<notin> set present) (carried_tags view bs b);
                     bs' = AList.update r (b\<lparr>ob_first := False\<rparr>) bs
                 in Some (bs', if added \<noteq> [] then (msg\<lparr>cl_tags := added @ cl_tags msg\<rparr>, True) else d)
          else Some (bs, d))"

definition drop_concat :: "draft \<Rightarrow> draft" where
  "drop_concat d =
     (let (msg, dirty) = d in
      if \<exists>t \<in> set (cl_tags msg). tagKey t = ''draft/multiline-concat''
      then (keep_tags (\<lambda>t. tagKey t \<noteq> ''draft/multiline-concat'') msg, True) else d)"

definition is_numeric :: "string \<Rightarrow> bool" where
  "is_numeric c \<longleftrightarrow> length c = 3 \<and> list_all is_digit c"

definition stamp_time :: "client_view \<Rightarrow> string option \<Rightarrow> draft \<Rightarrow> draft" where
  "stamp_time view relayedAt d =
     (let (msg, dirty) = d in
      case relayedAt of
        None \<Rightarrow> d
      | Some at \<Rightarrow>
          if has_cap view ''server-time'' \<and> \<not> is_numeric (cl_command msg) \<and> \<not> (\<exists>t \<in> set (cl_tags msg). tagKey t = ''time'')
          then (msg\<lparr>cl_tags := (''time='' @ at) # cl_tags msg\<rparr>, True) else d)"

definition tag_allowed :: "client_view \<Rightarrow> string \<Rightarrow> bool" where
  "tag_allowed view t = (case map_of TAG_CAPS (tagKey t) of None \<Rightarrow> False | Some cap \<Rightarrow> has_cap view cap)"

definition strip_tags :: "client_view \<Rightarrow> string \<Rightarrow> draft \<Rightarrow> draft" where
  "strip_tags view line d =
     (let (msg, dirty) = d in
      if has_cap view ''message-tags'' then d
      else let kept = filter (tag_allowed view) (cl_tags msg) in
           if length kept \<noteq> length (cl_tags msg) \<or> (kept = [] \<and> starts_with line ''@'')
           then (msg\<lparr>cl_tags := kept\<rparr>, True) else d)"

text \<open>The lines that stand in for a \<open>CHGHOST\<close>.\<close>

definition fallback_for :: "client_view \<Rightarrow> string \<Rightarrow> string \<Rightarrow> string \<Rightarrow> string \<Rightarrow> shared_channel \<Rightarrow> string list" where
  "fallback_for view tagBlock nick user host sc =
     (let accountParam = (case sc_account sc of Some a \<Rightarrow> a | None \<Rightarrow> ''*'');
          restored = map fst (filter (\<lambda>p. fst p \<in> set (sc_modes sc)) (cv_prefixes view))
      in (tagBlock @ '':'' @ nick @ ''!'' @ user @ ''@'' @ host @ '' JOIN '' @ sc_channel sc @ '' '' @ accountParam @ '' :'') #
         (if restored = [] then []
          else [tagBlock @ '':'' @ cv_serverName view @ '' MODE '' @ sc_channel sc @ '' +'' @ concat restored @ '' '' @
                join_with '' '' (map (\<lambda>_. nick) restored)]))"

definition chghost_lines :: "client_view \<Rightarrow> client_line \<Rightarrow> string list" where
  "chghost_lines view msg =
     (let source = (case cl_source msg of None \<Rightarrow> [] | Some s \<Rightarrow> s); nick = nick_of msg; user = p_at msg 0; host = p_at msg 1 in
      if nick = [] \<or> user = [] \<or> host = [] \<or> is_self view nick then []
      else let shared = cv_shared view nick in
        if shared = [] then []
        else let time = filter (\<lambda>t. tagKey t = ''time'') (cl_tags msg);
                 tagBlock = (if time \<noteq> [] then ''@'' @ join_with '';'' time @ '' '' else [])
             in (tagBlock @ '':'' @ source @ '' QUIT :Changing hostname'') #
                concat (map (fallback_for view tagBlock nick user host) shared))"

text \<open>What is left to do for a line no gate stops.\<close>

definition rewrite :: "client_view \<Rightarrow> string option \<Rightarrow> string \<Rightarrow> string option \<Rightarrow> draft \<Rightarrow> batches \<Rightarrow> string list \<times> batches" where
  "rewrite view relayedAt line ref d bs =
     (case unwrap_multiline view ref bs (trim_who view (trim_names view (trim_join view d))) of
        None \<Rightarrow> ([], bs)
      | Some (bs', d') \<Rightarrow>
          let (msg, dirty) = strip_tags view line (stamp_time view relayedAt (drop_concat d')) in
          ([if dirty then formatLine msg else line], bs'))"

fun apply_line :: "nat \<Rightarrow> client_view \<Rightarrow> string option \<Rightarrow> string \<Rightarrow> batches \<Rightarrow> (string list \<times> batches) option"
  and apply_all :: "nat \<Rightarrow> client_view \<Rightarrow> string option \<Rightarrow> string list \<Rightarrow> batches \<Rightarrow> (string list \<times> batches) option" where
  "apply_line 0 view relayedAt line bs = None"
| "apply_line (Suc n) view relayedAt line bs =
     (case parseLine line of
        None \<Rightarrow> Some ([], bs)
      | Some msg0 \<Rightarrow>
          let ref = batch_ref msg0; d = drop_unsent_batch view bs msg0; msg = fst d; (bs1, goes) = batch_line view msg bs in
          if \<not> goes then Some ([], bs1)
          else if gated view msg then
            (if cl_command msg = ''CHGHOST'' then apply_all n view relayedAt (chghost_lines view msg) bs1 else Some ([], bs1))
          else if withheld view msg then Some ([], bs1)
          else Some (rewrite view relayedAt line ref d bs1))"
| "apply_all n view relayedAt [] bs = Some ([], bs)"
| "apply_all n view relayedAt (l # ls) bs =
     (case apply_line n view relayedAt l bs of
        None \<Rightarrow> None
      | Some (out, bs') \<Rightarrow>
          (case apply_all n view relayedAt ls bs' of None \<Rightarrow> None | Some (outs, bs'') \<Rightarrow> Some (out @ outs, bs'')))"


section \<open>Reading a formatted line\<close>

lemma upper_char_idem: "upper_char (upper_char c) = upper_char c"
  using of_char_lt_256 [of c] by (auto simp: upper_char_def Let_def)

lemma to_upper_idem [simp]: "to_upper (to_upper s) = to_upper s"
  by (simp add: to_upper_def upper_char_idem)

lemma upper_blank: "upper_char c = CHR '' '' \<longleftrightarrow> c = CHR '' ''"
proof -
  have "(of_char (upper_char c) :: nat) = 32 \<longleftrightarrow> (of_char c :: nat) = 32"
    using of_char_lt_256 [of c] by (auto simp: upper_char_def Let_def)
  moreover have "(of_char d :: nat) = 32 \<longleftrightarrow> d = CHR '' ''" for d
    using of_char_eq_iff [where ?'a = nat, of d "CHR '' ''"] by simp
  ultimately show ?thesis by blast
qed

definition good_tag :: "string \<Rightarrow> bool" where
  "good_tag t \<longleftrightarrow> t \<noteq> [] \<and> CHR '' '' \<notin> set t \<and> CHR '';'' \<notin> set t"

definition middle :: "string \<Rightarrow> bool" where
  "middle p \<longleftrightarrow> p \<noteq> [] \<and> CHR '' '' \<notin> set p \<and> hd p \<noteq> CHR '':''"

definition plain_command :: "client_line \<Rightarrow> bool" where
  "plain_command m \<longleftrightarrow> cl_command m \<noteq> [] \<and> hd (cl_command m) \<noteq> CHR '':'' \<and> hd (cl_command m) \<noteq> CHR ''@''"

definition wf_parts :: "client_line \<Rightarrow> bool" where
  "wf_parts m \<longleftrightarrow>
     (\<forall>t \<in> set (cl_tags m). good_tag t) \<and> (\<forall>s. cl_source m = Some s \<longrightarrow> CHR '' '' \<notin> set s) \<and>
     cl_command m \<noteq> [] \<and> CHR '' '' \<notin> set (cl_command m) \<and> to_upper (cl_command m) = cl_command m \<and>
     (\<forall>p \<in> set (butlast (cl_params m)). middle p)"

lemma at_trailing_word: "CHR '' '' \<notin> set w \<Longrightarrow> at_trailing (w @ s) = (w @ fst (at_trailing s), snd (at_trailing s))"
proof (induction w)
  case (Cons c w)
  then show ?case by (cases "w @ s") (auto simp: split_beta Let_def)
qed simp

lemma at_trailing_blank: "s = [] \<or> hd s \<noteq> CHR '':'' \<Longrightarrow> at_trailing (CHR '' '' # s) = (CHR '' '' # fst (at_trailing s), snd (at_trailing s))"
  by (cases s) (auto simp: split_beta Let_def)

lemma at_trailing_none: "snd (at_trailing s) = None \<Longrightarrow> fst (at_trailing s) = s"
  by (induction s rule: at_trailing.induct) (auto simp: split_beta Let_def split: if_splits)

lemma at_trailing_some: "snd (at_trailing s) = None \<Longrightarrow> at_trailing (s @ '' :'' @ t) = (s, Some t)"
proof (induction s rule: at_trailing.induct)
  case (1 c d s)
  then show ?case by (auto simp: split_beta Let_def split: if_splits)
next
  case "2_2"
  then show ?case by (auto simp: Let_def)
qed simp

lemma at_trailing_words: "ws \<noteq> [] \<Longrightarrow> CHR '' '' \<notin> set (hd ws) \<Longrightarrow> \<forall>w \<in> set (tl ws). middle w \<Longrightarrow> snd (at_trailing (join_with '' '' ws)) = None"
proof (induction ws rule: induct_list012)
  case (2 w)
  then show ?case using at_trailing_word [of w "[]"] by simp
next
  case (3 w v ws)
  have m: "middle v" using 3 by simp
  have h: "hd (join_with '' '' (v # ws)) \<noteq> CHR '':''" using m by (cases ws) (auto simp: middle_def)
  have "snd (at_trailing (join_with '' '' (v # ws))) = None" using 3 m by (auto simp: middle_def)
  then show ?case using 3(4) at_trailing_word [of w "CHR '' '' # join_with '' '' (v # ws)"] at_trailing_blank [of "join_with '' '' (v # ws)"] h by simp
qed simp

lemma words_join: "\<forall>w \<in> set ws. w \<noteq> [] \<and> CHR '' '' \<notin> set w \<Longrightarrow> words (join_with '' '' ws) = ws"
proof (cases ws)
  case (Cons w vs)
  assume a: "\<forall>w \<in> set ws. w \<noteq> [] \<and> CHR '' '' \<notin> set w"
  then have "split_on (CHR '' '') (join_with '' '' ws) = ws" using Cons by (intro split_on_join) auto
  then show ?thesis using a by (simp add: words_def)
qed (simp add: words_def)

lemma join_snoc: "ws \<noteq> [] \<Longrightarrow> join_with sep (ws @ [w]) = join_with sep ws @ sep @ w"
  by (induction ws rule: induct_list012) simp_all

definition needs_colon :: "client_line \<Rightarrow> bool" where
  "needs_colon m \<longleftrightarrow> cl_params m \<noteq> [] \<and>
     (cl_trailing m \<or> last (cl_params m) = [] \<or> CHR '' '' \<in> set (last (cl_params m)) \<or> starts_with (last (cl_params m)) '':'')"

lemma parse_command_format:
  assumes "wf_parts m"
  shows "parse_command tags source (join_with '' '' (cl_command m # format_params m)) =
    Some \<lparr>cl_tags = tags, cl_source = source, cl_command = cl_command m, cl_params = cl_params m, cl_trailing = needs_colon m\<rparr>"
proof -
  let ?c = "cl_command m" and ?ps = "cl_params m"
  have c: "?c \<noteq> []" "CHR '' '' \<notin> set ?c" "to_upper ?c = ?c" and b: "\<forall>p \<in> set (butlast ?ps). middle p"
    using assms by (simp_all add: wf_parts_def)
  show ?thesis
  proof (cases "needs_colon m")
    case True
    then have ne: "?ps \<noteq> []" and f: "format_params m = butlast ?ps @ [CHR '':'' # last ?ps]"
      by (auto simp: needs_colon_def format_params_def format_param_def)
    have "join_with '' '' (?c # format_params m) = join_with '' '' (?c # butlast ?ps) @ '' :'' @ last ?ps"
      using join_snoc [of "?c # butlast ?ps" "'' ''" "CHR '':'' # last ?ps"] unfolding f by simp
    moreover have "snd (at_trailing (join_with '' '' (?c # butlast ?ps))) = None"
      by (rule at_trailing_words) (use c b in auto)
    ultimately have "at_trailing (join_with '' '' (?c # format_params m)) = (join_with '' '' (?c # butlast ?ps), Some (last ?ps))"
      by (simp only: at_trailing_some)
    moreover have "words (join_with '' '' (?c # butlast ?ps)) = ?c # butlast ?ps"
      by (rule words_join) (use c b in \<open>auto simp: middle_def\<close>)
    ultimately show ?thesis using ne c(3) True by (simp add: parse_command_def)
  next
    case False
    have f: "format_params m = ?ps"
    proof (cases "?ps = []")
      case ne: False
      then show ?thesis using False by (simp add: format_params_def format_param_def needs_colon_def)
    qed (simp add: format_params_def)
    have all: "\<forall>p \<in> set ?ps. middle p"
    proof (cases "?ps = []")
      case ne: False
      then have "middle (last ?ps)" using False by (cases "last ?ps") (auto simp: needs_colon_def middle_def starts_with_def)
      moreover have "set ?ps = insert (last ?ps) (set (butlast ?ps))" using ne by (metis append_butlast_last_id list.simps(15) rotate1.simps(2) set_rotate1)
      ultimately show ?thesis using b by simp
    qed simp
    have "snd (at_trailing (join_with '' '' (?c # ?ps))) = None" by (rule at_trailing_words) (use c all in auto)
    then have "at_trailing (join_with '' '' (?c # ?ps)) = (join_with '' '' (?c # ?ps), None)"
      using at_trailing_none by (metis prod.collapse)
    moreover have "words (join_with '' '' (?c # ?ps)) = ?c # ?ps" by (rule words_join) (use c all in \<open>auto simp: middle_def\<close>)
    ultimately show ?thesis using c(3) False by (simp add: parse_command_def f)
  qed
qed

lemma at_blank_word: "CHR '' '' \<notin> set w \<Longrightarrow> at_blank (w @ CHR '' '' # s) = Some (w, s)"
proof -
  assume b: "CHR '' '' \<notin> set w"
  then have "takeWhile (\<lambda>c. c \<noteq> CHR '' '') (w @ CHR '' '' # s) = w \<and> dropWhile (\<lambda>c. c \<noteq> CHR '' '') (w @ CHR '' '' # s) = CHR '' '' # s"
    by (induction w) auto
  then show ?thesis by (simp add: at_blank_def)
qed


lemma starts_with_Cons: "starts_with (c # s) [d] \<longleftrightarrow> c = d" "\<not> starts_with [] [d]"
  by (simp_all add: starts_with_def)

lemma starts_hd: "s \<noteq> [] \<Longrightarrow> starts_with s [d] \<longleftrightarrow> hd s = d"
  by (cases s) (simp_all add: starts_with_def)

text \<open>A line made of its parts reads back as them; only whether the last one needed a colon is read anew.\<close>

lemma parse_format:
  assumes wf: "wf_parts m" and plain: "plain_command m"
  shows "parseLine (formatLine m) = Some (m\<lparr>cl_trailing := needs_colon m\<rparr>)"
proof -
  let ?rest = "join_with '' '' (cl_command m # format_params m)"
  let ?srest = "join_with '' '' ((case cl_source m of None \<Rightarrow> [] | Some s \<Rightarrow> ['':'' @ s]) @ cl_command m # format_params m)"
  have c: "cl_command m \<noteq> []" "CHR '' '' \<notin> set (cl_command m)" using wf by (simp_all add: wf_parts_def)
  have hd_rest: "?rest \<noteq> [] \<and> hd ?rest = hd (cl_command m)" using c by (cases "format_params m") simp_all
  have hd_c: "hd (cl_command m) \<noteq> CHR '' ''" using c hd_in_set by metis
  have src: "parse_source tags ?srest = Some (m\<lparr>cl_tags := tags, cl_trailing := needs_colon m\<rparr>)" for tags
  proof (cases "cl_source m")
    case None
    have "dropWhile (\<lambda>c. c = CHR '' '') ?rest = ?rest" using hd_rest hd_c by (cases ?rest) auto
    moreover have "\<not> starts_with ?rest '':''" using hd_rest plain by (simp add: starts_hd plain_command_def)
    ultimately show ?thesis using None by (simp add: parse_source_def parse_command_format [OF wf] Let_def)
  next
    case (Some s)
    have b: "CHR '' '' \<notin> set s" using wf Some by (simp add: wf_parts_def)
    have e: "?srest = (CHR '':'' # s) @ CHR '' '' # ?rest" using Some by (cases "format_params m") simp_all
    have "at_blank ?srest = Some (CHR '':'' # s, ?rest)" unfolding e by (rule at_blank_word) (use b in simp)
    then show ?thesis using e Some by (simp add: parse_source_def parse_command_format [OF wf] Let_def starts_with_Cons)
  qed
  show ?thesis
  proof (cases "cl_tags m = []")
    case True
    then have f: "formatLine m = ?srest" by (simp add: formatLine_def)
    have "\<not> starts_with ?srest ''@''"
    proof (cases "cl_source m")
      case None
      then show ?thesis using hd_rest plain by (simp add: starts_hd plain_command_def)
    next
      case (Some s)
      then show ?thesis by (simp add: starts_with_Cons)
    qed
    then show ?thesis unfolding parseLine_def f using src [of "[]"] True by simp
  next
    case False
    let ?t = "join_with '';'' (cl_tags m)"
    have g: "\<forall>t \<in> set (cl_tags m). good_tag t" using wf by (simp add: wf_parts_def)
    have f: "formatLine m = (CHR ''@'' # ?t) @ CHR '' '' # ?srest" using False
      by (cases "(case cl_source m of None \<Rightarrow> [] | Some s \<Rightarrow> ['':'' @ s]) @ [cl_command m] @ format_params m")
        (auto simp: formatLine_def split: option.splits)
    have "set (join_with '';'' ts) \<subseteq> insert (CHR '';'') (\<Union> (set ` set ts))" for ts
      by (induction ts rule: induct_list012) auto
    then have "CHR '' '' \<notin> set ?t" using g by (fastforce simp: good_tag_def)
    then have b: "at_blank (formatLine m) = Some (CHR ''@'' # ?t, ?srest)" unfolding f by (intro at_blank_word) simp
    have "split_on (CHR '';'') ?t = cl_tags m" by (rule split_on_join) (use g False in \<open>auto simp: good_tag_def\<close>)
    moreover have "filter (\<lambda>tag. tag \<noteq> []) (cl_tags m) = cl_tags m" using g by (auto simp: good_tag_def intro: filter_True)
    moreover have "starts_with (formatLine m) ''@''" unfolding f by (simp add: starts_with_Cons)
    ultimately show ?thesis unfolding parseLine_def using b src [of "cl_tags m"] by simp
  qed
qed

section \<open>What a line reads as\<close>

lemma split_on_chars: "p \<in> set (split_on c s) \<Longrightarrow> set p \<subseteq> set s"
proof (induction s arbitrary: p)
  case (Cons x xs)
  then show ?case by (cases "split_on c xs") (auto split: if_splits, blast+)
qed simp

lemma split_on_hd: "prefix (hd (split_on c s)) s"
  by (induction s) (auto split: list.splits)

lemma split_on_tl: "p \<in> set (tl (split_on c s)) \<Longrightarrow> sublist (c # p) s"
proof (induction s)
  case (Cons x xs)
  show ?case
  proof (cases "x = c")
    case True
    then have p: "p \<in> set (split_on c xs)" using Cons.prems by simp
    show ?thesis
    proof (cases "p = hd (split_on c xs)")
      case True
      then have "prefix (c # p) (c # xs)" using split_on_hd by simp
      then show ?thesis using \<open>x = c\<close> by (simp add: prefix_imp_sublist)
    next
      case False
      then have "p \<in> set (tl (split_on c xs))" using p by (cases "split_on c xs") auto
      then show ?thesis using Cons.IH by (simp add: sublist_Cons_right)
    qed
  next
    case False
    then have "p \<in> set (tl (split_on c xs))" using Cons.prems by (cases "split_on c xs") auto
    then show ?thesis using Cons.IH by (simp add: sublist_Cons_right)
  qed
qed simp

lemma words_set: "w \<in> set (words s) \<Longrightarrow> w \<noteq> [] \<and> CHR '' '' \<notin> set w \<and> set w \<subseteq> set s"
  using split_on_no_sep split_on_chars by (fastforce simp: words_def)

lemma tl_filter: "set (tl (filter P xs)) \<subseteq> set (tl xs)"
proof -
  have "set (tl l) \<subseteq> set l" for l :: "'a list" by (cases l) auto
  then have "set (tl (filter P ys)) \<subseteq> set ys" for ys by (meson filter_is_subset order_trans)
  then show ?thesis by (cases xs) auto
qed

lemma words_tl: "w \<in> set (tl (words s)) \<Longrightarrow> sublist (CHR '' '' # w) s"
  using split_on_tl tl_filter unfolding words_def by fastforce

lemma at_trailing_head: "\<not> sublist '' :'' (fst (at_trailing s))"
proof (induction s rule: at_trailing.induct)
  case (1 c d s)
  show ?case
  proof (cases "c = CHR '' '' \<and> d = CHR '':''")
    case False
    have "fst (at_trailing (c # d # s)) = c # fst (at_trailing (d # s))" using False by (auto simp: split_beta Let_def)
    moreover have "fst (at_trailing (d # s)) \<noteq> [] \<longrightarrow> hd (fst (at_trailing (d # s))) = d" by (cases s) (auto simp: split_beta Let_def)
    ultimately show ?thesis using 1 False by (cases "fst (at_trailing (d # s))") (auto simp: sublist_Cons_right)
  qed simp
qed (auto simp: sublist_Cons_right)

lemma parse_command_wf:
  assumes "parse_command tags source rest = Some m"
  shows "cl_tags m = tags" "cl_source m = source" "cl_command m \<noteq> []" "CHR '' '' \<notin> set (cl_command m)"
    "to_upper (cl_command m) = cl_command m" "\<forall>p \<in> set (butlast (cl_params m)). middle p" "needs_colon m = cl_trailing m"
proof -
  obtain head trailing w ws where h: "at_trailing rest = (head, trailing)" "words head = w # ws"
    "m = \<lparr>cl_tags = tags, cl_source = source, cl_command = to_upper w,
            cl_params = ws @ (case trailing of None \<Rightarrow> [] | Some t \<Rightarrow> [t]), cl_trailing = (trailing \<noteq> None)\<rparr>"
    using assms by (auto simp: parse_command_def split_beta Let_def split: list.splits) (metis prod.collapse)
  have w: "w \<noteq> []" "CHR '' '' \<notin> set w" using words_set [of w head] h(2) by auto
  have mid: "middle v" if "v \<in> set ws" for v
  proof -
    have v: "v \<noteq> []" "CHR '' '' \<notin> set v" using words_set [of v head] h(2) that by auto
    have "sublist (CHR '' '' # v) head" using words_tl [of v head] h(2) that by simp
    moreover have "\<not> sublist '' :'' head" using at_trailing_head [of rest] h(1) by simp
    moreover have "sublist '' :'' (CHR '' '' # v)" if "hd v = CHR '':''"
      using that v(1) by (cases v) (simp_all add: prefix_imp_sublist)
    ultimately have "hd v \<noteq> CHR '':''" using sublist_order.order_trans by blast
    with v show ?thesis by (simp add: middle_def)
  qed
  have "CHR '' '' \<notin> set (to_upper w)" unfolding to_upper_def using w(2) upper_blank by (metis (no_types, lifting) imageE list.set_map)
  then show "cl_tags m = tags" "cl_source m = source" "cl_command m \<noteq> []" "CHR '' '' \<notin> set (cl_command m)" "to_upper (cl_command m) = cl_command m"
    using h(3) w(1) by (simp_all add: to_upper_def upper_char_idem)
  show "\<forall>p \<in> set (butlast (cl_params m)). middle p"
    using h(3) mid by (auto split: option.splits dest: in_set_butlastD)
  show "needs_colon m = cl_trailing m"
  proof (cases trailing)
    case None
    show ?thesis
    proof (cases "ws = []")
      case True
      then show ?thesis using h(3) None by (simp add: needs_colon_def)
    next
      case False
      then have "middle (last ws)" using mid by simp
      then show ?thesis using h(3) None False by (simp add: needs_colon_def middle_def starts_hd)
    qed
  qed (use h(3) in \<open>simp add: needs_colon_def\<close>)
qed


lemma at_blank_Some: "at_blank s = Some (w, t) \<Longrightarrow> CHR '' '' \<notin> set w"
  by (auto simp: at_blank_def split: if_splits dest: set_takeWhileD)

lemma set_drop1: "set (drop 1 s) \<subseteq> set s"
  by (rule set_drop_subset)

lemma parse_source_wf:
  assumes "parse_source tags rest = Some m"
  shows "cl_tags m = tags" "\<forall>s. cl_source m = Some s \<longrightarrow> CHR '' '' \<notin> set s" "cl_command m \<noteq> []" "CHR '' '' \<notin> set (cl_command m)"
    "to_upper (cl_command m) = cl_command m" "\<forall>p \<in> set (butlast (cl_params m)). middle p" "needs_colon m = cl_trailing m"
proof -
  obtain source rest' where p: "parse_command tags source rest' = Some m" "\<forall>s. source = Some s \<longrightarrow> CHR '' '' \<notin> set s"
  proof (cases "starts_with (dropWhile (\<lambda>c. c = CHR '' '') rest) '':''")
    case True
    then obtain s r where b: "at_blank (dropWhile (\<lambda>c. c = CHR '' '') rest) = Some (s, r)" "parse_command tags (Some (drop 1 s)) r = Some m"
      using assms by (auto simp: parse_source_def Let_def split: option.splits)
    have "CHR '' '' \<notin> set (drop 1 s)" using at_blank_Some [OF b(1)] by (auto dest: in_set_dropD)
    then show thesis using b(2) that [of "Some (drop 1 s)" r] by simp
  next
    case False
    then show thesis using assms that [of None] by (simp add: parse_source_def Let_def)
  qed
  note w = parse_command_wf [OF p(1)]
  show "cl_tags m = tags" "cl_command m \<noteq> []" "CHR '' '' \<notin> set (cl_command m)"
    "to_upper (cl_command m) = cl_command m" "\<forall>p \<in> set (butlast (cl_params m)). middle p" "needs_colon m = cl_trailing m"
    using w by blast+
  show "\<forall>s. cl_source m = Some s \<longrightarrow> CHR '' '' \<notin> set s" using w(2) p(2) by simp
qed

lemma parse_wf: "parseLine line = Some m \<Longrightarrow> wf_parts m \<and> needs_colon m = cl_trailing m"
proof -
  assume "parseLine line = Some m"
  then obtain tags rest where p: "parse_source tags rest = Some m" "\<forall>t \<in> set tags. good_tag t"
  proof (cases "starts_with line ''@''")
    case True
    assume "parseLine line = Some m"
    then obtain t rest where b: "at_blank line = Some (t, rest)"
      "parse_source (filter (\<lambda>tag. tag \<noteq> []) (split_on (CHR '';'') (drop 1 t))) rest = Some m"
      using True by (auto simp: parseLine_def split: option.splits)
    have "CHR '' '' \<notin> set (drop 1 t)" using at_blank_Some [OF b(1)] by (auto dest: in_set_dropD)
    then have "\<forall>x \<in> set (filter (\<lambda>tag. tag \<noteq> []) (split_on (CHR '';'') (drop 1 t))). good_tag x"
    proof (intro ballI)
      fix x assume "x \<in> set (filter (\<lambda>tag. tag \<noteq> []) (split_on (CHR '';'') (drop 1 t)))"
      then have "x \<noteq> []" "x \<in> set (split_on (CHR '';'') (drop 1 t))" by simp_all
      then show "good_tag x" using \<open>CHR '' '' \<notin> set (drop 1 t)\<close> split_on_no_sep split_on_chars unfolding good_tag_def by blast
    qed
    with b(2) show thesis using that by blast
  next
    case False
    assume "parseLine line = Some m"
    then have "parse_source [] line = Some m" using False by (simp add: parseLine_def)
    then show thesis using that [of "[]"] by simp
  qed
  note w = parse_source_wf [OF p(1)]
  show ?thesis unfolding wf_parts_def using w p(2) by simp
qed

section \<open>What each rule keeps\<close>

definition wf_batches :: "batches \<Rightarrow> bool" where
  "wf_batches bs \<longleftrightarrow> (\<forall>(ref, b) \<in> set bs. \<forall>t \<in> set (ob_tags b). good_tag t)"

lemma keep_tags_simps [simp]:
  "cl_tags (keep_tags P m) = filter P (cl_tags m)" "cl_source (keep_tags P m) = cl_source m"
  "cl_command (keep_tags P m) = cl_command m" "cl_params (keep_tags P m) = cl_params m" "cl_trailing (keep_tags P m) = cl_trailing m"
  by (simp_all add: keep_tags_def)

lemma wf_keep [simp]: "wf_parts m \<Longrightarrow> wf_parts (keep_tags P m)"
  by (simp add: wf_parts_def)

text \<open>A draft that no rule has changed is the line as it was.\<close>

definition draft_of :: "client_line \<Rightarrow> draft \<Rightarrow> bool" where
  "draft_of m0 d \<longleftrightarrow> wf_parts (fst d) \<and> cl_command (fst d) = cl_command m0 \<and> cl_source (fst d) = cl_source m0 \<and> (\<not> snd d \<longrightarrow> fst d = m0)"

lemma draft_unsent: "wf_parts m \<Longrightarrow> draft_of m (drop_unsent_batch view bs m)"
  by (simp add: drop_unsent_batch_def draft_of_def split: option.splits)

lemma draft_join: "draft_of m d \<Longrightarrow> draft_of m (trim_join view d)"
  by (cases d; cases "cl_params (fst d)") (auto simp: trim_join_def draft_of_def wf_parts_def)

lemma draft_names: "draft_of m d \<Longrightarrow> draft_of m (trim_names view d)"
  by (cases d) (auto simp: trim_names_def draft_of_def wf_parts_def Let_def)

lemma who_flags_middle: "middle f \<Longrightarrow> middle (whoFlagsHighestPrefixOnly f s)"
proof -
  assume m: "middle f"
  have sub: "set (take n f @ drop k f) \<subseteq> set f" for n k by (auto dest: in_set_takeD in_set_dropD)
  have "f \<noteq> []" using m by (simp add: middle_def)
  then have "take (Suc n) f @ drop k f \<noteq> [] \<and> hd (take (Suc n) f @ drop k f) = hd f" for n k by (cases f) auto
  then show ?thesis using m sub unfolding middle_def whoFlagsHighestPrefixOnly_def Let_def by (auto dest: in_set_takeD in_set_dropD)
qed

lemma draft_who: "draft_of m d \<Longrightarrow> draft_of m (trim_who view d)"
proof -
  assume d: "draft_of m d"
  obtain msg dirty where e: "d = (msg, dirty)" by (cases d)
  have wf: "\<forall>p \<in> set (butlast (cl_params msg)). middle p" using d by (simp add: draft_of_def wf_parts_def e)
  let ?f = "whoFlagsHighestPrefixOnly (cl_params msg ! 6) (prefixSymbols view)"
  have "\<forall>p \<in> set (butlast ((cl_params msg)[6 := ?f])). middle p"
  proof (cases "6 < length (butlast (cl_params msg))")
    case True
    then have "middle (cl_params msg ! 6)" using wf nth_mem by (metis nth_butlast)
    then have "middle ?f" by (rule who_flags_middle)
    then show ?thesis using wf True by (auto simp: butlast_list_update dest!: set_update_subset_insert [THEN subsetD])
  next
    case False
    then show ?thesis using wf by (auto simp: butlast_list_update list_update_beyond)
  qed
  then show ?thesis using d by (auto simp: trim_who_def draft_of_def wf_parts_def e Let_def)
qed

lemma draft_concat: "draft_of m d \<Longrightarrow> draft_of m (drop_concat d)"
  by (cases d) (auto simp: drop_concat_def draft_of_def)

definition good_time :: "string option \<Rightarrow> bool" where
  "good_time relayedAt \<longleftrightarrow> (\<forall>at. relayedAt = Some at \<longrightarrow> CHR '' '' \<notin> set at \<and> CHR '';'' \<notin> set at)"

lemma draft_time: "good_time relayedAt \<Longrightarrow> draft_of m d \<Longrightarrow> draft_of m (stamp_time view relayedAt d)"
  by (cases d) (auto simp: stamp_time_def draft_of_def wf_parts_def good_time_def good_tag_def split: option.splits)

lemma draft_strip: "draft_of m d \<Longrightarrow> draft_of m (strip_tags view line d)"
  by (cases d) (auto simp: strip_tags_def draft_of_def wf_parts_def Let_def)

lemma wf_batches_update: "wf_batches bs \<Longrightarrow> \<forall>t \<in> set (ob_tags b). good_tag t \<Longrightarrow> wf_batches (AList.update r b bs)"
  using set_alist_update [of r b bs] unfolding wf_batches_def by blast

lemma draft_unwrap:
  assumes "unwrap_multiline view ref bs d = Some (bs', d')" "wf_batches bs" "draft_of m d"
  shows "draft_of m d' \<and> wf_batches bs' \<and> cl_params (fst d') = cl_params (fst d)"
proof (cases "case ref of None \<Rightarrow> None | Some r \<Rightarrow> map_option (Pair r) (map_of bs r)")
  case None
  then show ?thesis using assms by (cases d) (auto simp: unwrap_multiline_def)
next
  case (Some rb)
  obtain r b where rb: "rb = (r, b)" by (cases rb)
  have b: "map_of bs r = Some b" using Some rb by (auto split: option.splits)
  then have g: "\<forall>t \<in> set (ob_tags b). good_tag t" using assms(2) map_of_SomeD [OF b] unfolding wf_batches_def by fastforce
  then have "\<forall>t \<in> set (filter P (carried_tags view bs b)). good_tag t" for P by (simp add: carried_tags_def)
  moreover have "wf_batches (AList.update r (b\<lparr>ob_first := False\<rparr>) bs)"
    by (rule wf_batches_update) (use assms(2) g in simp_all)
  moreover obtain msg dirty where d: "d = (msg, dirty)" by (cases d)
  moreover have "ref = Some r" using Some rb by (auto split: option.splits)
  ultimately show ?thesis
    using assms(1,3) b assms(2) unfolding unwrap_multiline_def draft_of_def wf_parts_def Let_def
    by (simp split: if_splits) auto
qed

lemma batch_line_wf: "wf_batches bs \<Longrightarrow> wf_parts msg \<Longrightarrow> wf_batches (fst (batch_line view msg bs))"
proof -
  assume w: "wf_batches bs" "wf_parts msg"
  have "wf_batches (AList.update k \<lparr>ob_type = t, ob_opened = op, ob_tags = cl_tags msg, ob_first = True\<rparr> bs)" for k t op
    by (rule wf_batches_update) (use w in \<open>simp_all add: wf_parts_def\<close>)
  moreover have "wf_batches (AList.delete k bs)" for k using w(1) by (auto simp: wf_batches_def AList.delete_eq)
  ultimately show ?thesis using w(1) by (simp add: batch_line_def Let_def)
qed


section \<open>What a client may see\<close>

definition allowed :: "client_view \<Rightarrow> batches \<Rightarrow> client_line \<Rightarrow> bool" where
  "allowed view bs m \<longleftrightarrow>
     \<not> gated view m \<and> \<not> withheld view m \<and>
     (cl_command m = ''JOIN'' \<longrightarrow> length (cl_params m) \<le> 1 \<or> has_cap view ''extended-join'') \<and>
     (cl_command m = ''353'' \<and> 3 \<le> length (cl_params m) \<longrightarrow>
        (\<forall>e \<in> set (split_on (CHR '' '') (last (cl_params m))). plain_entry view e = e)) \<and>
     (cl_command m = ''352'' \<and> 7 \<le> length (cl_params m) \<and> \<not> has_cap view ''multi-prefix'' \<longrightarrow>
        whoFlagsHighestPrefixOnly (cl_params m ! 6) (prefixSymbols view) = cl_params m ! 6) \<and>
     (\<forall>t \<in> set (cl_tags m). has_cap view ''message-tags'' \<or> tag_allowed view t) \<and>
     (\<forall>t \<in> set (cl_tags m). tagKey t \<noteq> ''draft/multiline-concat'') \<and>
     (\<forall>r. batch_ref m = Some r \<longrightarrow> batch_sent view bs r)"

lemma drop_takeWhile_hd: "drop (length (takeWhile P xs)) xs = [] \<or> \<not> P (hd (drop (length (takeWhile P xs)) xs))"
  by (metis dropWhile_eq_drop hd_dropWhile)

lemma highest_length: "length (takeWhile (\<lambda>c. c \<in> set s) (highestPrefixOnly e s)) \<le> 1"
proof -
  let ?n = "length (takeWhile (\<lambda>c. c \<in> set s) e)"
  have "takeWhile (\<lambda>c. c \<in> set s) (drop ?n e) = []" using drop_takeWhile_hd [of "\<lambda>c. c \<in> set s" e] by (cases "drop ?n e") auto
  then show ?thesis by (auto simp: highestPrefixOnly_def Let_def)
qed

lemma highest_id: "length (takeWhile (\<lambda>c. c \<in> set s) e) \<le> 1 \<Longrightarrow> highestPrefixOnly e s = e"
  by (simp add: highestPrefixOnly_def Let_def)

lemma takeWhile_cut: "takeWhile P (takeWhile Q xs) = takeWhile Q (takeWhile P xs)"
  by (induction xs) auto

lemma plain_entry_idem: "plain_entry view (plain_entry view e) = plain_entry view e"
proof -
  let ?s = "prefixSymbols view" and ?cut = "takeWhile (\<lambda>c. c \<noteq> CHR ''!'')"
  have "length (takeWhile (\<lambda>c. c \<in> set ?s) (?cut (highestPrefixOnly e ?s))) \<le> 1"
    unfolding takeWhile_cut [of "\<lambda>c. c \<in> set ?s"] using highest_length [of ?s e] length_takeWhile_le by (rule le_trans [rotated])
  then show ?thesis using highest_id [OF highest_length [of ?s e]] by (simp add: plain_entry_def Let_def highest_id)
qed

lemma plain_entry_chars: "set (plain_entry view e) \<subseteq> set e"
proof -
  have h: "set (highestPrefixOnly e s) \<subseteq> set e" for s by (cases e) (auto simp: highestPrefixOnly_def Let_def dest: in_set_dropD)
  then show ?thesis by (auto simp: plain_entry_def Let_def dest: set_takeWhileD)
qed

lemma who_flags_id:
  "length (takeWhile (\<lambda>c. c \<in> set s) (drop (length (takeWhile (\<lambda>c. c \<notin> set s) g)) g)) \<le> 1 \<Longrightarrow> whoFlagsHighestPrefixOnly g s = g"
  by (simp add: whoFlagsHighestPrefixOnly_def Let_def)

lemma who_flags_idem: "whoFlagsHighestPrefixOnly (whoFlagsHighestPrefixOnly f s) s = whoFlagsHighestPrefixOnly f s"
proof -
  let ?a = "length (takeWhile (\<lambda>c. c \<notin> set s) f)"
  let ?b = "length (takeWhile (\<lambda>c. c \<in> set s) (drop ?a f))"
  show ?thesis
  proof (cases "1 < ?b")
    case True
    obtain x xs where x: "drop ?a f = x # xs" "x \<in> set s" using True by (cases "drop ?a f") (auto split: if_splits)
    have t: "take (?a + 1) f = takeWhile (\<lambda>c. c \<notin> set s) f @ [x]"
    proof -
      have "take (?a + 1) f = take ?a f @ take 1 (drop ?a f)" by (rule take_add)
      then show ?thesis using x(1) takeWhile_eq_take [of "\<lambda>c. c \<notin> set s" f] by simp
    qed
    have d: "drop (?a + ?b) f = drop ?b (drop ?a f)" by (simp add: add.commute)
    have r: "whoFlagsHighestPrefixOnly f s = takeWhile (\<lambda>c. c \<notin> set s) f @ x # drop ?b (drop ?a f)"
      using True t d by (simp add: whoFlagsHighestPrefixOnly_def Let_def)
    let ?r = "takeWhile (\<lambda>c. c \<notin> set s) f @ x # drop ?b (drop ?a f)"
    have w: "takeWhile (\<lambda>c. c \<notin> set s) ?r = takeWhile (\<lambda>c. c \<notin> set s) f" using x(2) by (simp add: takeWhile_append)
    have "takeWhile (\<lambda>c. c \<in> set s) (drop ?b (drop ?a f)) = []"
      using drop_takeWhile_hd [of "\<lambda>c. c \<in> set s" "drop ?a f"] by (cases "drop ?b (drop ?a f)") auto
    then have "length (takeWhile (\<lambda>c. c \<in> set s) (drop (length (takeWhile (\<lambda>c. c \<notin> set s) ?r)) ?r)) \<le> 1" unfolding w by simp
    from who_flags_id [OF this] show ?thesis unfolding r .
  qed (simp add: whoFlagsHighestPrefixOnly_def Let_def)
qed

lemma batch_ref_find: "batch_ref m = map_option (drop 6) (find (\<lambda>t. tagKey t = ''batch'') (cl_tags m))"
  by (simp add: batch_ref_def tagValue_def numeral_eq_Suc)

lemma find_filter_key: "(\<And>t. Q t \<Longrightarrow> P t) \<Longrightarrow> find Q (filter P xs) = find Q xs"
  by (induction xs) auto

lemma find_Some_in: "find P xs = Some x \<Longrightarrow> x \<in> set xs \<and> P x"
  by (induction xs) (auto split: if_splits)

lemma batch_ref_keep:
  "batch_ref (keep_tags P m) = Some r \<Longrightarrow> (\<And>t u. tagKey t = tagKey u \<Longrightarrow> P t = P u) \<Longrightarrow> batch_ref m = Some r"
proof -
  assume b: "batch_ref (keep_tags P m) = Some r" and k: "\<And>t u. tagKey t = tagKey u \<Longrightarrow> P t = P u"
  from b obtain t where f: "find (\<lambda>t. tagKey t = ''batch'') (filter P (cl_tags m)) = Some t"
    unfolding batch_ref_find keep_tags_simps by (cases "find (\<lambda>t. tagKey t = ''batch'') (filter P (cl_tags m))") simp_all
  have t: "t \<in> set (filter P (cl_tags m))" "tagKey t = ''batch''" using find_Some_in [OF f] by blast+
  have "P u" if "tagKey u = ''batch''" for u
  proof -
    have "P u = P t" by (rule k) (simp add: that t(2))
    then show ?thesis using t(1) by simp
  qed
  then have "find (\<lambda>t. tagKey t = ''batch'') (filter P (cl_tags m)) = find (\<lambda>t. tagKey t = ''batch'') (cl_tags m)"
    by (intro find_filter_key)
  with b show ?thesis unfolding batch_ref_find keep_tags_simps by simp
qed


text \<open>The rules one by one: what they establish and what they leave alone.\<close>

lemma join_result: "cl_command (fst d) = ''JOIN'' \<Longrightarrow> length (cl_params (fst (trim_join view d))) \<le> 1 \<or> has_cap view ''extended-join''"
  by (cases d) (auto simp: trim_join_def)

lemma trim_fields [simp]:
  "cl_tags (fst (trim_join view d)) = cl_tags (fst d)" "cl_tags (fst (trim_names view d)) = cl_tags (fst d)"
  "cl_tags (fst (trim_who view d)) = cl_tags (fst d)"
  "cl_command (fst d) \<noteq> ''JOIN'' \<Longrightarrow> trim_join view d = d"
  "cl_command (fst d) \<noteq> ''353'' \<Longrightarrow> trim_names view d = d"
  "cl_command (fst d) \<noteq> ''352'' \<Longrightarrow> trim_who view d = d"
  by (cases d; auto simp: trim_join_def trim_names_def trim_who_def Let_def)+

lemma names_result:
  assumes "cl_command (fst d) = ''353''" "3 \<le> length (cl_params (fst (trim_names view d)))"
    "e \<in> set (split_on (CHR '' '') (last (cl_params (fst (trim_names view d)))))"
  shows "plain_entry view e = e"
proof -
  obtain msg dirty where d: "d = (msg, dirty)" by (cases d)
  show ?thesis
  proof (cases "has_cap view ''multi-prefix'' \<and> has_cap view ''userhost-in-names''")
    case True
    then show ?thesis by (simp add: plain_entry_def Let_def)
  next
    case False
    let ?ws = "split_on (CHR '' '') (last (cl_params msg))"
    let ?new = "join_with '' '' (map (plain_entry view) ?ws)"
    have l: "3 \<le> length (cl_params msg)" using assms(2) by (auto simp: trim_names_def d Let_def split: if_splits)
    have "last (cl_params (fst (trim_names view d))) = ?new"
      using assms(1) False l by (auto simp: trim_names_def d Let_def)
    moreover have "split_on (CHR '' '') ?new = map (plain_entry view) ?ws"
    proof (rule split_on_join)
      fix p assume "p \<in> set (map (plain_entry view) ?ws)"
      then show "CHR '' '' \<notin> set p" using plain_entry_chars split_on_no_sep by fastforce
    qed simp
    ultimately have "e \<in> set (map (plain_entry view) ?ws)" using assms(3) by simp
    then show ?thesis using plain_entry_idem by auto
  qed
qed

lemma who_result:
  "cl_command (fst d) = ''352'' \<Longrightarrow> 7 \<le> length (cl_params (fst (trim_who view d))) \<Longrightarrow> \<not> has_cap view ''multi-prefix'' \<Longrightarrow>
     whoFlagsHighestPrefixOnly (cl_params (fst (trim_who view d)) ! 6) (prefixSymbols view) = cl_params (fst (trim_who view d)) ! 6"
proof -
  obtain msg dirty where d: "d = (msg, dirty)" by (cases d)
  show "cl_command (fst d) = ''352'' \<Longrightarrow> 7 \<le> length (cl_params (fst (trim_who view d))) \<Longrightarrow> \<not> has_cap view ''multi-prefix'' \<Longrightarrow> ?thesis"
    by (cases "7 \<le> length (cl_params msg)") (simp_all add: d trim_who_def Let_def who_flags_idem)
qed

lemma unwrap_batch_ref:
  assumes "unwrap_multiline view ref bs d = Some (bs', d')" "\<forall>r. batch_ref (fst d) = Some r \<longrightarrow> batch_sent view bs r"
  shows "\<forall>r. batch_ref (fst d') = Some r \<longrightarrow> batch_sent view bs r"
proof -
  obtain msg dirty where d: "d = (msg, dirty)" by (cases d)
  have f: "find Q (xs @ ts) = Some t \<Longrightarrow> (t \<in> set xs \<and> Q t) \<or> find Q ts = Some t" for Q and xs ts :: "string list" and t
    by (induction xs) (auto split: if_splits)
  have c: "batch_sent view bs (drop 6 t) \<or> find (\<lambda>t. tagKey t = ''batch'') ts = Some t"
    if "find (\<lambda>t. tagKey t = ''batch'') (filter P (carried_tags view bs b) @ ts) = Some t" for P b ts t
    using f [OF that] by (auto simp: carried_tags_def)
  obtain xs where x: "cl_tags (fst d') = xs @ cl_tags msg" "xs = [] \<or> (\<exists>P b. xs = filter P (carried_tags view bs b))"
    using assms(1) by (auto simp: unwrap_multiline_def d Let_def split: option.splits if_splits) blast+
  have old: "batch_sent view bs (drop 6 t)" if "find (\<lambda>t. tagKey t = ''batch'') (cl_tags msg) = Some t" for t
    using assms(2) that by (simp add: batch_ref_find d)
  show ?thesis
  proof (intro allI impI)
    fix r assume "batch_ref (fst d') = Some r"
    then obtain t where t: "find (\<lambda>t. tagKey t = ''batch'') (xs @ cl_tags msg) = Some t" "r = drop 6 t"
      by (auto simp: batch_ref_find x(1))
    then show "batch_sent view bs r" using x(2) c old by (metis append_Nil)
  qed
qed

lemma concat_result: "t \<in> set (cl_tags (fst (drop_concat d))) \<Longrightarrow> tagKey t \<noteq> ''draft/multiline-concat''"
  by (cases d) (auto simp: drop_concat_def split: if_splits)

lemma strip_result: "t \<in> set (cl_tags (fst (strip_tags view line d))) \<Longrightarrow> has_cap view ''message-tags'' \<or> tag_allowed view t"
proof (cases d)
  case (Pair msg dirty)
  assume t: "t \<in> set (cl_tags (fst (strip_tags view line d)))"
  have "length (filter P xs) = length xs \<Longrightarrow> x \<in> set xs \<Longrightarrow> P x" for P and xs :: "string list" and x
    by (metis length_filter_less nat_neq_iff)
  then show ?thesis using t Pair by (auto simp: strip_tags_def Let_def split: if_splits)
qed

lemma params_kept [simp]:
  "cl_params (fst (drop_concat d)) = cl_params (fst d)" "cl_params (fst (stamp_time view at d)) = cl_params (fst d)"
  "cl_params (fst (strip_tags view line d)) = cl_params (fst d)"
  by (cases d; auto simp: drop_concat_def stamp_time_def strip_tags_def Let_def split: option.splits)+


lemma view_trailing [simp]:
  "allowed view bs (m\<lparr>cl_trailing := b\<rparr>) = allowed view bs m" "wf_parts (m\<lparr>cl_trailing := b\<rparr>) = wf_parts m"
  by (simp_all add: allowed_def gated_def gate_of_def withheld_def inAudience_def nick_of_def p_at_def batch_ref_def wf_parts_def cong: option.case_cong)

lemma drop_unsent_ref: "batch_ref (fst (drop_unsent_batch view bs m)) = Some r \<Longrightarrow> batch_sent view bs r"
proof -
  have "find (\<lambda>t. tagKey t = ''batch'') (filter (\<lambda>t. tagKey t \<noteq> ''batch'') ts) = None" for ts by (induction ts) auto
  then show "batch_ref (fst (drop_unsent_batch view bs m)) = Some r \<Longrightarrow> ?thesis"
    by (auto simp: drop_unsent_batch_def batch_ref_find split: option.splits if_splits)
qed

lemma drop_unsent_fields [simp]:
  "cl_params (fst (drop_unsent_batch view bs m)) = cl_params m" "cl_command (fst (drop_unsent_batch view bs m)) = cl_command m"
  "cl_source (fst (drop_unsent_batch view bs m)) = cl_source m"
  by (simp_all add: drop_unsent_batch_def split: option.splits)

lemma concat_ref: "batch_ref (fst (drop_concat d)) = Some r \<Longrightarrow> batch_ref (fst d) = Some r"
  by (cases d) (auto simp: drop_concat_def dest: batch_ref_keep split: if_splits)

lemma time_ref: "batch_ref (fst (stamp_time view at d)) = Some r \<Longrightarrow> batch_ref (fst d) = Some r"
  by (cases d) (auto simp: stamp_time_def batch_ref_find tagKey_def split: option.splits if_splits)

lemma strip_tags_cases: "strip_tags view line d = d \<or> fst (strip_tags view line d) = keep_tags (tag_allowed view) (fst d)"
  by (cases d) (simp add: strip_tags_def keep_tags_def Let_def)

lemma strip_ref: "batch_ref (fst (strip_tags view line d)) = Some r \<Longrightarrow> batch_ref (fst d) = Some r"
proof -
  assume b: "batch_ref (fst (strip_tags view line d)) = Some r"
  have k: "tagKey t = tagKey u \<Longrightarrow> tag_allowed view t = tag_allowed view u" for t u by (simp add: tag_allowed_def)
  from strip_tags_cases [of view line d] show ?thesis
  proof
    assume "fst (strip_tags view line d) = keep_tags (tag_allowed view) (fst d)"
    with b have "batch_ref (keep_tags (tag_allowed view) (fst d)) = Some r" by simp
    then show ?thesis by (rule batch_ref_keep) (rule k)
  qed (use b in simp)
qed

lemma time_tags: "t \<in> set (cl_tags (fst (stamp_time view at d))) \<Longrightarrow> t \<in> set (cl_tags (fst d)) \<or> tagKey t = ''time''"
  by (cases d) (auto simp: stamp_time_def tagKey_def split: option.splits if_splits)

lemma strip_subset: "t \<in> set (cl_tags (fst (strip_tags view line d))) \<Longrightarrow> t \<in> set (cl_tags (fst d))"
  by (cases d) (auto simp: strip_tags_def Let_def split: if_splits)

lemma final_line:
  assumes "parseLine line = Some m0" "plain_command m0" "draft_of m0 d" "(msg, dirty) = d"
  shows "parseLine (if dirty then formatLine msg else line) = Some (msg\<lparr>cl_trailing := (if dirty then needs_colon msg else cl_trailing msg)\<rparr>)"
proof (cases dirty)
  case True
  have "plain_command msg" "wf_parts msg" using assms(2-4) by (auto simp: draft_of_def plain_command_def)
  then show ?thesis using parse_format True by simp
next
  case False
  then have "msg = m0" using assms(3,4) by (auto simp: draft_of_def)
  then show ?thesis using assms(1) False by simp
qed

text \<open>A line that passed the gates is written as one line at most, which the client may see.\<close>

lemma rewrite_allowed:
  assumes line: "parseLine line = Some m0" "plain_command m0" and t: "good_time relayedAt" and w: "wf_batches bs1"
    and same: "cl_command m0 \<noteq> ''BATCH'' \<longrightarrow> bs1 = bs"
    and gates: "\<not> gated view m0" "\<not> withheld view m0"
    and r: "rewrite view relayedAt line ref (drop_unsent_batch view bs m0) bs1 = (outs, bs2)"
  shows "wf_batches bs2 \<and> length outs \<le> 1 \<and>
    (\<forall>out \<in> set outs. \<exists>m. parseLine out = Some m \<and> allowed view bs m \<and> cl_command m = cl_command m0 \<and>
       (cl_command m0 \<notin> {''JOIN'', ''353'', ''352''} \<longrightarrow> cl_params m = cl_params m0))"
proof -
  let ?d0 = "drop_unsent_batch view bs m0"
  define d3 where "d3 = trim_who view (trim_names view (trim_join view ?d0))"
  have wf0: "wf_parts m0" using parse_wf [OF line(1)] by blast
  have d3: "draft_of m0 d3" unfolding d3_def by (intro draft_who draft_names draft_join draft_unsent wf0)
  show ?thesis
  proof (cases "unwrap_multiline view ref bs1 d3")
    case None
    then show ?thesis using r w by (simp add: rewrite_def d3_def)
  next
    case (Some x)
    obtain bs' d4 where x: "x = (bs', d4)" by (cases x)
    note u = Some [unfolded x]
    define d7 where "d7 = strip_tags view line (stamp_time view relayedAt (drop_concat d4))"
    obtain msg dirty where e: "(msg, dirty) = d7" by (metis surj_pair)
    have d4: "draft_of m0 d4" "wf_batches bs'" "cl_params (fst d4) = cl_params (fst d3)"
      using draft_unwrap [OF u w d3] by blast+
    have d7: "draft_of m0 d7" unfolding d7_def by (intro draft_strip draft_time [OF t] draft_concat d4(1))
    have out: "outs = [if dirty then formatLine msg else line]" "bs2 = bs'"
      using r Some x e by (auto simp: rewrite_def d3_def [symmetric] d7_def [symmetric] split_beta Let_def)
    have f: "cl_command msg = cl_command m0" "cl_source msg = cl_source m0" using d7 e by (auto simp: draft_of_def)
    have p: "cl_params msg = cl_params (fst d3)" using e d4(3) by (metis d7_def fst_conv params_kept)
    have c0: "cl_command (fst (trim_join view ?d0)) = cl_command m0" "cl_command (fst (trim_names view (trim_join view ?d0))) = cl_command m0"
      using draft_join [OF draft_unsent [OF wf0]] draft_names [OF draft_join [OF draft_unsent [OF wf0]]] by (auto simp: draft_of_def)
    have p0: "cl_command m0 \<notin> {''JOIN'', ''353'', ''352''} \<Longrightarrow> cl_params msg = cl_params m0"
      unfolding p d3_def by (simp add: trim_fields)
    have ref3: "batch_ref (fst d3) = Some q \<Longrightarrow> batch_sent view bs q" for q
      using drop_unsent_ref unfolding d3_def batch_ref_find trim_fields by blast
    have ref4: "batch_ref (fst d4) = Some q \<Longrightarrow> batch_sent view bs q" for q
    proof (cases "cl_command m0 = ''BATCH''")
      case True
      then have "d4 = d3" using u d3 by (auto simp: unwrap_multiline_def draft_of_def split_beta Let_def split: option.splits if_splits)
      then show "batch_ref (fst d4) = Some q \<Longrightarrow> ?thesis" using ref3 by simp
    next
      case False
      then have "bs1 = bs" using same by simp
      then show "batch_ref (fst d4) = Some q \<Longrightarrow> ?thesis" using unwrap_batch_ref [of view ref bs d3 bs' d4] u ref3 by blast
    qed
    have ref: "\<forall>q. batch_ref msg = Some q \<longrightarrow> batch_sent view bs q"
    proof (intro allI impI)
      fix q assume "batch_ref msg = Some q"
      then have "batch_ref (fst d7) = Some q" unfolding e [symmetric] by simp
      then show "batch_sent view bs q" unfolding d7_def by (rule ref4 [OF concat_ref [OF time_ref [OF strip_ref]]])
    qed
    have tags: "\<forall>t \<in> set (cl_tags msg). has_cap view ''message-tags'' \<or> tag_allowed view t"
      using strip_result [of _ view line] e unfolding d7_def by (metis fst_conv)
    have nocat: "\<forall>t \<in> set (cl_tags msg). tagKey t \<noteq> ''draft/multiline-concat''"
    proof
      fix t assume "t \<in> set (cl_tags msg)"
      then have "t \<in> set (cl_tags (fst d7))" unfolding e [symmetric] by simp
      then have "t \<in> set (cl_tags (fst (stamp_time view relayedAt (drop_concat d4))))" unfolding d7_def by (rule strip_subset)
      then have "t \<in> set (cl_tags (fst (drop_concat d4))) \<or> tagKey t = ''time''" by (rule time_tags)
      then show "tagKey t \<noteq> ''draft/multiline-concat''" using concat_result [of t d4] by fastforce
    qed
    have join: "length (cl_params msg) \<le> 1 \<or> has_cap view ''extended-join''" if "cl_command m0 = ''JOIN''"
      using join_result [of ?d0 view] that c0 unfolding p d3_def by simp
    have names: "plain_entry view w = w"
      if "cl_command m0 = ''353''" "3 \<le> length (cl_params msg)" "w \<in> set (split_on (CHR '' '') (last (cl_params msg)))" for w
      using names_result [of ?d0 view w] that c0 unfolding p d3_def by simp
    have who: "whoFlagsHighestPrefixOnly (cl_params msg ! 6) (prefixSymbols view) = cl_params msg ! 6"
      if "cl_command m0 = ''352''" "7 \<le> length (cl_params msg)" "\<not> has_cap view ''multi-prefix''"
      using who_result [of ?d0 view] that c0 unfolding p d3_def by simp
    have gate: "\<not> gated view msg" using gates(1) f by (simp add: gated_def gate_of_def cong: option.case_cong)
    have held: "\<not> withheld view msg"
    proof -
      have "inAudience view msg = inAudience view m0" using f by (simp add: inAudience_def nick_of_def)
      moreover have "cl_command m0 = ''INVITE'' \<Longrightarrow> p_at msg 0 = p_at m0 0" using p0 by (simp add: p_at_def)
      ultimately show ?thesis using gates(2) f by (simp add: withheld_def cong: option.case_cong)
    qed
    have a: "allowed view bs msg" unfolding allowed_def using gate held join names who tags nocat ref f(1) by auto
    have l: "parseLine (if dirty then formatLine msg else line) =
        Some (msg\<lparr>cl_trailing := (if dirty then needs_colon msg else cl_trailing msg)\<rparr>)"
      using final_line [OF line d7 e] .
    show ?thesis unfolding out using d4(2) a f(1) p0 l by simp
  qed
qed

section \<open>The fallback for a changed host\<close>

text \<open>A line whose command can be read again, and a \<open>CHGHOST\<close> whose host is one word.\<close>

definition plain_line :: "string \<Rightarrow> bool" where
  "plain_line line \<longleftrightarrow> (\<forall>m. parseLine line = Some m \<longrightarrow> plain_command m \<and> (cl_command m = ''CHGHOST'' \<longrightarrow> CHR '' '' \<notin> set (p_at m 1)))"

definition fallback_line :: "string \<Rightarrow> bool" where
  "fallback_line l \<longleftrightarrow> (\<exists>m. parseLine l = Some m \<and> cl_command m \<in> {''QUIT'', ''JOIN'', ''MODE''} \<and> batch_ref m = None)"

lemma batch_line_other: "cl_command msg \<noteq> ''BATCH'' \<Longrightarrow> batch_line view msg bs = (bs, True)"
  by (simp add: batch_line_def)

lemma fallback_unwrap [simp]: "unwrap_multiline view None bs d = Some (bs, d)"
  by (cases d) (simp add: unwrap_multiline_def)

lemma gates_unsent [simp]:
  "gated view (fst (drop_unsent_batch view bs m)) = gated view m" "withheld view (fst (drop_unsent_batch view bs m)) = withheld view m"
  by (simp_all add: gated_def gate_of_def withheld_def inAudience_def nick_of_def p_at_def cong: option.case_cong)

lemma p_at_unsent [simp]: "p_at (fst (drop_unsent_batch view bs m)) i = p_at m i"
  by (simp add: p_at_def)

lemma parse_command_first:
  assumes "c \<noteq> []" "CHR '' '' \<notin> set c" "to_upper c = c"
  shows "\<exists>m. parse_command tags source (c @ CHR '' '' # rest) = Some m \<and> cl_tags m = tags \<and> cl_command m = c"
proof -
  have w: "words (c @ CHR '' '' # s) = c # words s" "words c = [c]" for s
    using assms(1,2) by (simp_all add: words_def split_on_append split_on_notin)
  have "fst (at_trailing (CHR '' '' # rest)) = [] \<or> (\<exists>h. fst (at_trailing (CHR '' '' # rest)) = CHR '' '' # h)"
    by (cases rest) (auto simp: split_beta Let_def)
  then obtain h where h: "fst (at_trailing (CHR '' '' # rest)) = [] \<or> fst (at_trailing (CHR '' '' # rest)) = CHR '' '' # h" by blast
  have "at_trailing (c @ CHR '' '' # rest) = (c @ fst (at_trailing (CHR '' '' # rest)), snd (at_trailing (CHR '' '' # rest)))"
    by (rule at_trailing_word) (rule assms(2))
  with h show ?thesis using w assms(3) unfolding parse_command_def by (elim disjE) auto
qed

lemma parse_prefixed:
  assumes ts: "\<forall>t \<in> set ts. good_tag t" and s: "CHR '' '' \<notin> set src" and c: "c \<noteq> []" "CHR '' '' \<notin> set c" "to_upper c = c"
  shows "\<exists>m. parseLine ((if ts \<noteq> [] then ''@'' @ join_with '';'' ts @ '' '' else []) @ '':'' @ src @ '' '' @ c @ '' '' @ rest) = Some m \<and>
    cl_tags m = ts \<and> cl_command m = c"
proof -
  let ?line = "'':'' @ src @ '' '' @ c @ '' '' @ rest"
  have b: "at_blank ?line = Some (CHR '':'' # src, c @ CHR '' '' # rest)"
    using at_blank_word [of "CHR '':'' # src" "c @ CHR '' '' # rest"] s by simp
  have src: "\<exists>m. parse_source tags ?line = Some m \<and> cl_tags m = tags \<and> cl_command m = c" for tags
    using b parse_command_first [OF c, of tags "Some src" rest] by (simp add: parse_source_def starts_with_Cons)
  show ?thesis
  proof (cases "ts = []")
    case True
    then show ?thesis using src [of "[]"] by (simp add: parseLine_def starts_with_Cons)
  next
    case False
    have "set (join_with '';'' us) \<subseteq> insert (CHR '';'') (\<Union> (set ` set us))" for us
      by (induction us rule: induct_list012) auto
    then have "CHR '' '' \<notin> set (join_with '';'' ts)" using ts by (fastforce simp: good_tag_def)
    then have t: "at_blank (''@'' @ join_with '';'' ts @ '' '' @ ?line) = Some (CHR ''@'' # join_with '';'' ts, ?line)"
      using at_blank_word [of "CHR ''@'' # join_with '';'' ts" ?line] by simp
    have "split_on (CHR '';'') (join_with '';'' ts) = ts" by (rule split_on_join) (use ts False in \<open>auto simp: good_tag_def\<close>)
    moreover have "filter (\<lambda>tag. tag \<noteq> []) ts = ts" using ts by (auto simp: good_tag_def intro: filter_True)
    ultimately show ?thesis using t src [of ts] False by (simp add: parseLine_def starts_with_Cons)
  qed
qed

lemma chghost_fallbacks:
  assumes m: "wf_parts m" and host: "CHR '' '' \<notin> set (p_at m 1)" and srv: "CHR '' '' \<notin> set (cv_serverName view)"
  shows "\<forall>l \<in> set (chghost_lines view m). fallback_line l"
proof
  fix l assume l: "l \<in> set (chghost_lines view m)"
  let ?ts = "filter (\<lambda>t. tagKey t = ''time'') (cl_tags m)"
  let ?block = "if ?ts \<noteq> [] then ''@'' @ join_with '';'' ?ts @ '' '' else []"
  let ?src = "case cl_source m of None \<Rightarrow> [] | Some s \<Rightarrow> s"
  have ts: "\<forall>t \<in> set ?ts. good_tag t" using m by (simp add: wf_parts_def)
  have src: "CHR '' '' \<notin> set ?src" using m by (simp add: wf_parts_def split: option.splits)
  have nick: "CHR '' '' \<notin> set (nick_of m)" 
  proof
    assume "CHR '' '' \<in> set (nick_of m)"
    then have "CHR '' '' \<in> set ?src" unfolding nick_of_def by (rule set_takeWhileD [THEN conjunct1])
    with src show False by contradiction
  qed
  have ne: "p_at m 1 \<noteq> []" using l by (auto simp: chghost_lines_def Let_def split: if_splits)
  have "1 < length (cl_params m)"
  proof (rule ccontr)
    assume "\<not> 1 < length (cl_params m)"
    then show False using ne by (simp add: p_at_def)
  qed
  then have "p_at m 0 = butlast (cl_params m) ! 0" "0 < length (butlast (cl_params m))" by (auto simp: p_at_def nth_butlast)
  then have "p_at m 0 \<in> set (butlast (cl_params m))" using nth_mem by metis
  then have user: "CHR '' '' \<notin> set (p_at m 0)" using m by (simp add: wf_parts_def middle_def)
  have none: "find (\<lambda>t. tagKey t = ''batch'') ?ts = None" by (simp add: find_None_iff)
  define B where "B = ?block"
  have fb: "fallback_line (B @ '':'' @ s @ '' '' @ c @ '' '' @ rest)" if "c \<in> {''QUIT'', ''JOIN'', ''MODE''}" "CHR '' '' \<notin> set s" for s c rest
  proof -
    have "to_upper ''QUIT'' = ''QUIT''" "to_upper ''JOIN'' = ''JOIN''" "to_upper ''MODE'' = ''MODE''" by code_simp+
    then have "c \<noteq> []" "CHR '' '' \<notin> set c" "to_upper c = c" using that(1) by auto
    from parse_prefixed [OF ts that(2) this, of rest] obtain q where
      q: "parseLine (B @ '':'' @ s @ '' '' @ c @ '' '' @ rest) = Some q" "cl_tags q = ?ts" "cl_command q = c" unfolding B_def by blast
    have "batch_ref q = None" unfolding batch_ref_find q(2) using none by simp
    then show ?thesis unfolding fallback_line_def using q that(1) by blast
  qed
  have quit: "fallback_line (B @ '':'' @ ?src @ '' QUIT :Changing hostname'')"
    using fb [of "''QUIT''" ?src "'':Changing hostname''"] src by simp
  have other: "fallback_line k" if "k \<in> set (fallback_for view B (nick_of m) (p_at m 0) (p_at m 1) sc)" for k sc
  proof -
    have "CHR '' '' \<notin> set (nick_of m @ ''!'' @ p_at m 0 @ ''@'' @ p_at m 1)" using nick user host by simp
    from fb [OF _ this, of "''JOIN''"]
    have "fallback_line (B @ '':'' @ nick_of m @ ''!'' @ p_at m 0 @ ''@'' @ p_at m 1 @ '' JOIN '' @ rest)" for rest by simp
    then have J: "k = B @ '':'' @ nick_of m @ ''!'' @ p_at m 0 @ ''@'' @ p_at m 1 @ '' JOIN '' @ rest \<Longrightarrow> fallback_line k" for k rest by (simp only:)
    have "fallback_line (B @ '':'' @ cv_serverName view @ '' MODE '' @ rest)" for rest using fb [OF _ srv, of "''MODE''"] by simp
    then have M: "k = B @ '':'' @ cv_serverName view @ '' MODE '' @ rest \<Longrightarrow> fallback_line k" for k rest by (simp only:)
    have in2: "x \<in> set (a # (if P then [] else [b])) \<Longrightarrow> x = a \<or> x = b" for x a b :: string and P by (simp split: if_splits)
    show ?thesis using in2 [OF that [unfolded fallback_for_def Let_def]] J M by blast
  qed
  show "fallback_line l" using l quit other unfolding chghost_lines_def Let_def B_def [symmetric] by (auto split: if_splits simp del: append_assoc append_Cons)
qed

text \<open>All that is written is allowed, and no batch's start or end.\<close>

definition lines_allowed :: "client_view \<Rightarrow> batches \<Rightarrow> string list \<Rightarrow> bool" where
  "lines_allowed view bs outs \<longleftrightarrow>
     (\<forall>out \<in> set outs. \<exists>m. parseLine out = Some m \<and> allowed view bs m \<and> cl_command m \<noteq> ''BATCH'')"

lemma fallback_applied:
  assumes l: "fallback_line l" and t: "good_time relayedAt" and w: "wf_batches bs"
  shows "\<exists>outs. apply_line (Suc n) view relayedAt l bs = Some (outs, bs) \<and> lines_allowed view bs outs"
proof -
  obtain m where m: "parseLine l = Some m" "cl_command m \<in> {''QUIT'', ''JOIN'', ''MODE''}" "batch_ref m = None"
    using l unfolding fallback_line_def by blast
  have p: "plain_command m" using m(2) by (auto simp: plain_command_def)
  have d: "drop_unsent_batch view bs m = (m, False)" using m(3) by (simp add: drop_unsent_batch_def)
  have c: "cl_command m \<noteq> ''BATCH''" "\<not> gated view m" using m(2) by (auto simp: gated_def gate_of_def CAP_GATED_COMMANDS_def)
  have e: "apply_line (Suc n) view relayedAt l bs =
      (if withheld view m then Some ([], bs) else Some (rewrite view relayedAt l None (m, False) bs))"
    using m(1,3) d c by (simp add: Let_def batch_line_other)
  obtain outs bs2 where r: "rewrite view relayedAt l None (m, False) bs = (outs, bs2)" by (cases "rewrite view relayedAt l None (m, False) bs")
  have b: "bs2 = bs" using r by (auto simp: rewrite_def fallback_unwrap split_beta Let_def)
  show ?thesis
  proof (cases "withheld view m")
    case True
    then show ?thesis unfolding e by (simp add: lines_allowed_def)
  next
    case False
    have "lines_allowed view bs outs"
      using rewrite_allowed [OF m(1) p t w _ c(2) False, of bs None outs bs2] r d c(1) unfolding lines_allowed_def by auto
    then show ?thesis unfolding e using False r b by simp
  qed
qed

lemma fallbacks_applied:
  assumes "\<forall>l \<in> set ls. fallback_line l" "good_time relayedAt" "wf_batches bs"
  shows "\<exists>outs. apply_all (Suc n) view relayedAt ls bs = Some (outs, bs) \<and> lines_allowed view bs outs"
  using assms(1)
proof (induction ls)
  case Nil
  show ?case by (simp add: lines_allowed_def)
next
  case (Cons l ls)
  obtain o1 where o1: "apply_line (Suc n) view relayedAt l bs = Some (o1, bs)" "lines_allowed view bs o1"
    using fallback_applied assms(2,3) Cons.prems by fastforce
  obtain o2 where o2: "apply_all (Suc n) view relayedAt ls bs = Some (o2, bs)" "lines_allowed view bs o2" using Cons by auto
  have "apply_all (Suc n) view relayedAt (l # ls) bs = Some (o1 @ o2, bs)" using o1(1) o2(1) by (simp del: apply_line.simps)
  moreover have "lines_allowed view bs (o1 @ o2)" using o1(2) o2(2) by (auto simp: lines_allowed_def)
  ultimately show ?case by blast
qed

text \<open>What becomes of a line: nothing more, the fallback, or the rules; the open batches change only at a \<open>BATCH\<close>.\<close>

lemma apply_cases:
  assumes "parseLine line = Some m0" "batch_line view (fst (drop_unsent_batch view bs m0)) bs = (bs1, goes)"
  shows "(apply_line (Suc n) view relayedAt line bs = Some ([], bs1) \<and> (\<not> goes \<or> gated view m0 \<or> withheld view m0)) \<or>
    (cl_command m0 = ''CHGHOST'' \<and>
     apply_line (Suc n) view relayedAt line bs = apply_all n view relayedAt (chghost_lines view (fst (drop_unsent_batch view bs m0))) bs1) \<or>
    (goes \<and> \<not> gated view m0 \<and> \<not> withheld view m0 \<and>
     apply_line (Suc n) view relayedAt line bs = Some (rewrite view relayedAt line (batch_ref m0) (drop_unsent_batch view bs m0) bs1))"
  using assms by (simp add: Let_def)

lemma chghost_applied:
  assumes "parseLine line = Some m0" "plain_line line" "cl_command m0 = ''CHGHOST''" "CHR '' '' \<notin> set (cv_serverName view)"
    "good_time relayedAt" "wf_batches bs"
  shows "\<exists>outs. apply_all (Suc n) view relayedAt (chghost_lines view (fst (drop_unsent_batch view bs m0))) bs = Some (outs, bs) \<and> lines_allowed view bs outs"
proof -
  have "wf_parts (fst (drop_unsent_batch view bs m0))" using draft_unsent [of m0 view bs] parse_wf [OF assms(1)] by (simp add: draft_of_def)
  moreover have "CHR '' '' \<notin> set (p_at (fst (drop_unsent_batch view bs m0)) 1)" using assms(1-3) by (simp add: plain_line_def)
  ultimately have "\<forall>l \<in> set (chghost_lines view (fst (drop_unsent_batch view bs m0))). fallback_line l"
    using chghost_fallbacks assms(4) by blast
  from fallbacks_applied [OF this assms(5,6)] show ?thesis .
qed

lemma apply_detail:
  assumes wf: "wf_batches bs" and t: "good_time relayedAt" and p: "plain_line line" and srv: "CHR '' '' \<notin> set (cv_serverName view)"
    and m0: "parseLine line = Some m0"
    and b: "batch_line view (fst (drop_unsent_batch view bs m0)) bs = (bs1, goes)"
  shows "\<exists>outs bs'. apply_line (Suc (Suc n)) view relayedAt line bs = Some (outs, bs') \<and> wf_batches bs' \<and>
    (\<forall>out \<in> set outs. \<exists>m. parseLine out = Some m \<and> allowed view bs m \<and>
       (cl_command m = ''BATCH'' \<longrightarrow> cl_command m0 = ''BATCH'' \<and> goes \<and> cl_params m = cl_params m0))"
proof -
  have pc: "plain_command m0" using p m0 by (simp add: plain_line_def)
  have wfm: "wf_parts (fst (drop_unsent_batch view bs m0))" using draft_unsent [of m0 view bs] parse_wf [OF m0] by (simp add: draft_of_def)
  have w1: "wf_batches bs1" using batch_line_wf [OF wf wfm, of view] b by simp
  have same: "cl_command m0 \<noteq> ''BATCH'' \<longrightarrow> bs1 = bs" using b by (auto simp: batch_line_other)
  consider (none) "apply_line (Suc (Suc n)) view relayedAt line bs = Some ([], bs1)"
    | (chghost) "cl_command m0 = ''CHGHOST''"
        "apply_line (Suc (Suc n)) view relayedAt line bs = apply_all (Suc n) view relayedAt (chghost_lines view (fst (drop_unsent_batch view bs m0))) bs1"
    | (rules) "goes" "\<not> gated view m0" "\<not> withheld view m0"
        "apply_line (Suc (Suc n)) view relayedAt line bs = Some (rewrite view relayedAt line (batch_ref m0) (drop_unsent_batch view bs m0) bs1)"
    using apply_cases [OF m0 b, of "Suc n" relayedAt] by blast
  then show ?thesis
  proof cases
    case none
    then show ?thesis using w1 by simp
  next
    case chghost
    then have "bs1 = bs" using same by simp
    obtain outs where o1: "apply_all (Suc n) view relayedAt (chghost_lines view (fst (drop_unsent_batch view bs m0))) bs = Some (outs, bs)"
      and o2: "lines_allowed view bs outs" using chghost_applied [OF m0 p chghost(1) srv t wf, of n] by blast
    have "\<forall>out \<in> set outs. \<exists>m. parseLine out = Some m \<and> allowed view bs m \<and>
       (cl_command m = ''BATCH'' \<longrightarrow> cl_command m0 = ''BATCH'' \<and> goes \<and> cl_params m = cl_params m0)"
      using o2 unfolding lines_allowed_def by blast
    then show ?thesis using chghost(2) o1 wf \<open>bs1 = bs\<close> by simp
  next
    case rules
    obtain outs bs2 where r: "rewrite view relayedAt line (batch_ref m0) (drop_unsent_batch view bs m0) bs1 = (outs, bs2)"
      by (cases "rewrite view relayedAt line (batch_ref m0) (drop_unsent_batch view bs m0) bs1")
    have a: "wf_batches bs2" "\<forall>out \<in> set outs. \<exists>m. parseLine out = Some m \<and> allowed view bs m \<and> cl_command m = cl_command m0 \<and>
       (cl_command m0 \<notin> {''JOIN'', ''353'', ''352''} \<longrightarrow> cl_params m = cl_params m0)"
      using rewrite_allowed [OF m0 pc t w1 same rules(2,3) r] by blast+
    have "\<forall>out \<in> set outs. \<exists>m. parseLine out = Some m \<and> allowed view bs m \<and>
       (cl_command m = ''BATCH'' \<longrightarrow> cl_command m0 = ''BATCH'' \<and> goes \<and> cl_params m = cl_params m0)"
    proof
      fix out assume "out \<in> set outs"
      then obtain m where m: "parseLine out = Some m" "allowed view bs m" "cl_command m = cl_command m0"
        "cl_command m0 \<notin> {''JOIN'', ''353'', ''352''} \<longrightarrow> cl_params m = cl_params m0" using a(2) by blast
      have "cl_command m = ''BATCH'' \<longrightarrow> cl_command m0 = ''BATCH'' \<and> goes \<and> cl_params m = cl_params m0" using m(3,4) rules(1) by simp
      then show "\<exists>m. parseLine out = Some m \<and> allowed view bs m \<and>
         (cl_command m = ''BATCH'' \<longrightarrow> cl_command m0 = ''BATCH'' \<and> goes \<and> cl_params m = cl_params m0)" using m(1,2) by blast
    qed
    then show ?thesis unfolding rules(4) r using a(1) by blast
  qed
qed

text \<open>C29: Of a line, a network's or the bouncer's own, a client is written only lines it may see: none whose command or
  numeric needs a cap it lacks, no presence of a stranger, no foreign invitation; a \<open>JOIN\<close>, a \<open>NAMES\<close> and a \<open>WHO\<close>
  reply in the form it asked for; of the tags those it has the caps for, and a batch's only if it was sent that
  batch's start.  The fallback for a \<open>CHGHOST\<close> comes back, and is held to the same.  The line is one whose command does not
  begin with \<open>@\<close> or a colon and, if it is a \<open>CHGHOST\<close>, whose new host has no blank in it (of others it is not true, see
  \<open>tag_like_command_passes_the_gate\<close> and \<open>chghost_host_becomes_a_command\<close>), and neither the time it is tagged with nor the
  bouncer's own name has a blank.\<close>

theorem client_gets_what_it_asked_for:
  assumes "wf_batches bs" "good_time relayedAt" "plain_line line" "CHR '' '' \<notin> set (cv_serverName view)" "2 \<le> fuel"
  shows "\<exists>outs bs'. apply_line fuel view relayedAt line bs = Some (outs, bs') \<and> wf_batches bs' \<and>
    (\<forall>out \<in> set outs. \<exists>m. parseLine out = Some m \<and> allowed view bs m)"
proof -
  obtain n where f: "fuel = Suc (Suc n)" using assms(5) by (metis Suc_le_D numeral_2_eq_2 Suc_le_mono)
  show ?thesis
  proof (cases "parseLine line")
    case None
    then show ?thesis using assms(1) by (simp add: f)
  next
    case (Some m0)
    obtain bs1 goes where b: "batch_line view (fst (drop_unsent_batch view bs m0)) bs = (bs1, goes)"
      by (cases "batch_line view (fst (drop_unsent_batch view bs m0)) bs")
    show ?thesis using apply_detail [OF assms(1-4) Some b, of n] unfolding f by blast
  qed
qed

text \<open>A client without \<open>chghost\<close>, \<open>extended-join\<close> and \<open>message-tags\<close>, that shares a channel with bob.\<close>

definition old_client :: client_view where
  "old_client = \<lparr>cv_caps = [''server-time''], cv_serverName = ''irc.x'', cv_nick = Some ''me'', cv_prefixes = [(''o'', ''@''), (''v'', ''+'')],
     cv_shared = (\<lambda>n. if n = ''bob'' then [\<lparr>sc_channel = ''#a'', sc_modes = [''o''], sc_account = None\<rparr>] else []), cv_monitors = (\<lambda>n. False)\<rparr>"

lemma client_gets_what_it_asked_for_witness:
  "\<exists>outs bs. apply_line 2 old_client None ''@time=t;msgid=1 :bob!b@old CHGHOST b new'' [] = Some (outs, bs) \<and>
     outs = [''@time=t :bob!b@old QUIT :Changing hostname'', ''@time=t :bob!b@new JOIN #a'', ''@time=t :irc.x MODE #a +o bob''] \<and>
     (\<forall>out \<in> set outs. \<exists>m. parseLine out = Some m \<and> allowed old_client [] m)"
proof -
  let ?line = "''@time=t;msgid=1 :bob!b@old CHGHOST b new''"
  have r: "apply_line 2 old_client None ?line [] =
    Some ([''@time=t :bob!b@old QUIT :Changing hostname'', ''@time=t :bob!b@new JOIN #a'', ''@time=t :irc.x MODE #a +o bob''], [])"
    by code_simp
  have p: "map_option (\<lambda>m. plain_command m \<and> CHR '' '' \<notin> set (p_at m 1)) (parseLine ?line) = Some True" by code_simp
  then have "plain_line ?line" unfolding plain_line_def by auto
  moreover have "CHR '' '' \<notin> set (cv_serverName old_client)" by (simp add: old_client_def)
  ultimately show ?thesis
    using client_gets_what_it_asked_for [of "[]" None ?line old_client 2] r by (simp add: wf_batches_def good_time_def)
qed

text \<open>A line read and made again from its parts reads as the same line: nothing moves between its tags, source, command
  and parameters, whatever blanks or colons they hold.\<close>

theorem formatted_line_reads_back:
  assumes "parseLine line = Some m" "plain_command m"
  shows "parseLine (formatLine m) = Some m"
proof -
  have "wf_parts m" "needs_colon m = cl_trailing m" using parse_wf [OF assms(1)] by blast+
  then show ?thesis using parse_format [OF _ assms(2)] by simp
qed

lemma formatted_line_reads_back_witness:
  "parseLine ''@a=1;b :n!u@h  PRIVMSG   #c : hi : there'' \<noteq> None \<and>
   parseLine (formatLine (the (parseLine ''@a=1;b :n!u@h  PRIVMSG   #c : hi : there''))) = parseLine ''@a=1;b :n!u@h  PRIVMSG   #c : hi : there''"
proof -
  let ?l = "''@a=1;b :n!u@h  PRIVMSG   #c : hi : there''"
  have p: "parseLine ?l = Some \<lparr>cl_tags = [''a=1'', ''b''], cl_source = Some ''n!u@h'', cl_command = ''PRIVMSG'',
      cl_params = [''#c'', '' hi : there''], cl_trailing = True\<rparr>" by code_simp
  from formatted_line_reads_back [OF this] show ?thesis unfolding p by (simp add: plain_command_def)
qed

text \<open>A command that starts with \<open>@\<close> is read as tags once the line has lost its own; the gates saw another command.\<close>

lemma tag_like_command_passes_the_gate:
  "apply_line 2 old_client None ''@a @b TAGMSG #c'' [] = Some ([''@B TAGMSG #c''], []) \<and>
   map_option cl_command (parseLine ''@B TAGMSG #c'') = Some ''TAGMSG'' \<and> \<not> has_cap old_client ''message-tags''"
  by (intro conjI; code_simp)

text \<open>A host with a blank in it is not kept from the words of the fallback's line.\<close>

lemma chghost_host_becomes_a_command:
  "map_option fst (apply_line 2 old_client None '':bob!b@old CHGHOST b :new PRIVMSG me :hi'' []) =
     Some ['':bob!b@old QUIT :Changing hostname'', '':bob!b@new PRIVMSG me :hi JOIN #a * :'', '':irc.x MODE #a +o bob'']"
  by code_simp

end
