(* ===== verification/E2e_Wire.thy ===== *)
theory E2e_Wire imports Numerals "HOL-Library.Word" begin

text \<open>
  The RPE2E01 message format: \<open>encoding.ts\<close>, \<open>chunker.ts\<close>, \<open>wire.ts\<close>, \<open>aad.ts\<close> and \<open>constants.ts\<close> of
  \<open>server/services/e2e/\<close>.  Bytes are 8-bit words.  A plaintext is a list of UTF-16 code units, of any value; lines
  and channel names are texts of the model's alphabet.  A thrown \<open>E2eError\<close> is its kind with the fixed part of its
  message.
\<close>

type_synonym bytes = "8 word list"

datatype e2e_error = WireError string | ChunkLimit nat | HandshakeError string | CryptoError string | KeyringError string

section \<open>Constants\<close>

definition PROTO :: string where
  "PROTO = ''RPE2E01''"

definition WIRE_PREFIX :: string where
  "WIRE_PREFIX = ''+RPE2E01''"

definition MSGID_LEN :: nat where
  "MSGID_LEN = 8"

definition MAX_CHUNKS :: nat where
  "MAX_CHUNKS = 16"

definition MAX_PLAINTEXT_PER_CHUNK :: nat where
  "MAX_PLAINTEXT_PER_CHUNK = 180"

definition NONCE_LEN :: nat where
  "NONCE_LEN = 24"

definition MAX_SAFE :: int where
  "MAX_SAFE = 2 ^ 53 - 1"

section \<open>UTF-8\<close>

text \<open>\<open>TextEncoder\<close> reads code units as scalar values, a lone surrogate as U+FFFD.\<close>

definition is_high :: "nat \<Rightarrow> bool" where
  "is_high u \<longleftrightarrow> 0xD800 \<le> u \<and> u < 0xDC00"

definition is_low :: "nat \<Rightarrow> bool" where
  "is_low u \<longleftrightarrow> 0xDC00 \<le> u \<and> u < 0xE000"

fun scalars :: "nat list \<Rightarrow> nat list" where
  "scalars [] = []"
| "scalars [u] = [if is_high u \<or> is_low u then 0xFFFD else u]"
| "scalars (u # v # us) =
     (if is_high u \<and> is_low v then (0x10000 + (u - 0xD800) * 0x400 + (v - 0xDC00)) # scalars us
      else (if is_high u \<or> is_low u then 0xFFFD else u) # scalars (v # us))"

definition units_of :: "nat list \<Rightarrow> nat list" where
  "units_of cps =
     concat (map (\<lambda>c. if c < 0x10000 then [c] else [0xD800 + (c - 0x10000) div 0x400, 0xDC00 + (c - 0x10000) mod 0x400]) cps)"

definition utf8_scalar :: "nat \<Rightarrow> bytes" where
  "utf8_scalar c =
     map word_of_nat
       (if c < 0x80 then [c]
        else if c < 0x800 then [0xC0 + c div 0x40, 0x80 + c mod 0x40]
        else if c < 0x10000 then [0xE0 + c div 0x1000, 0x80 + c div 0x40 mod 0x40, 0x80 + c mod 0x40]
        else [0xF0 + c div 0x40000, 0x80 + c div 0x1000 mod 0x40, 0x80 + c div 0x40 mod 0x40, 0x80 + c mod 0x40])"

definition utf8_encode :: "nat list \<Rightarrow> bytes" where
  "utf8_encode cps = concat (map utf8_scalar cps)"

definition utf8_text :: "string \<Rightarrow> bytes" where
  "utf8_text s = utf8_encode (map of_char s)"

text \<open>\<open>new TextDecoder('utf-8', { fatal: true })\<close>: \<open>None\<close> for bytes that are not well-formed.  It drops a byte order
  mark at the front.\<close>

definition tail_byte :: "nat \<Rightarrow> nat \<Rightarrow> 8 word \<Rightarrow> bool" where
  "tail_byte lo hi b \<longleftrightarrow> lo \<le> unat b \<and> unat b \<le> hi"

fun utf8_decode :: "bytes \<Rightarrow> nat list option" where
  "utf8_decode [] = Some []"
| "utf8_decode (b # bs) =
     (let n = unat b in
      if n < 0x80 then map_option ((#) n) (utf8_decode bs)
      else if 0xC2 \<le> n \<and> n \<le> 0xDF then
        (case bs of
           b1 # bs1 \<Rightarrow>
             if tail_byte 0x80 0xBF b1
             then map_option ((#) ((n - 0xC0) * 0x40 + (unat b1 - 0x80))) (utf8_decode bs1) else None
         | _ \<Rightarrow> None)
      else if 0xE0 \<le> n \<and> n \<le> 0xEF then
        (case bs of
           b1 # b2 # bs2 \<Rightarrow>
             if tail_byte (if n = 0xE0 then 0xA0 else 0x80) (if n = 0xED then 0x9F else 0xBF) b1 \<and> tail_byte 0x80 0xBF b2
             then map_option ((#) ((n - 0xE0) * 0x1000 + (unat b1 - 0x80) * 0x40 + (unat b2 - 0x80))) (utf8_decode bs2) else None
         | _ \<Rightarrow> None)
      else if 0xF0 \<le> n \<and> n \<le> 0xF4 then
        (case bs of
           b1 # b2 # b3 # bs3 \<Rightarrow>
             if tail_byte (if n = 0xF0 then 0x90 else 0x80) (if n = 0xF4 then 0x8F else 0xBF) b1 \<and>
                tail_byte 0x80 0xBF b2 \<and> tail_byte 0x80 0xBF b3
             then map_option ((#) ((n - 0xF0) * 0x40000 + (unat b1 - 0x80) * 0x1000 + (unat b2 - 0x80) * 0x40 + (unat b3 - 0x80)))
                    (utf8_decode bs3) else None
         | _ \<Rightarrow> None)
      else None)"

declare utf8_decode.simps(2) [simp del]

definition decode_text :: "bytes \<Rightarrow> nat list option" where
  "decode_text bs = map_option units_of (utf8_decode (if take 3 bs = [0xEF, 0xBB, 0xBF] then drop 3 bs else bs))"

section \<open>Base64, hex and numerals\<close>

definition STD_ALPHABET :: string where
  "STD_ALPHABET = ''ABCDEFGHIJKLMNOPQRSTUVWXYZabcdefghijklmnopqrstuvwxyz0123456789+/''"

definition URL_ALPHABET :: string where
  "URL_ALPHABET = ''ABCDEFGHIJKLMNOPQRSTUVWXYZabcdefghijklmnopqrstuvwxyz0123456789-_''"

text \<open>Three bytes are four groups of six bits; the last groups of a shorter rest are filled up with zeros, and read back
  without what fills them.\<close>

fun sextets :: "bytes \<Rightarrow> nat list" where
  "sextets [] = []"
| "sextets [a] = [unat a div 4, unat a mod 4 * 16]"
| "sextets [a, b] = [unat a div 4, unat a mod 4 * 16 + unat b div 16, unat b mod 16 * 4]"
| "sextets (a # b # c # bs) =
     [unat a div 4, unat a mod 4 * 16 + unat b div 16, unat b mod 16 * 4 + unat c div 64, unat c mod 64] @ sextets bs"

fun from_sextets :: "nat list \<Rightarrow> bytes" where
  "from_sextets (a # b # c # d # ss) =
     [word_of_nat (a * 4 + b div 16), word_of_nat (b mod 16 * 16 + c div 4), word_of_nat (c mod 4 * 64 + d)] @ from_sextets ss"
| "from_sextets [a, b, c] = [word_of_nat (a * 4 + b div 16), word_of_nat (b mod 16 * 16 + c div 4)]"
| "from_sextets [a, b] = [word_of_nat (a * 4 + b div 16)]"
| "from_sextets _ = []"

definition place :: "string \<Rightarrow> char \<Rightarrow> nat" where
  "place alphabet c = length (takeWhile (\<lambda>d. d \<noteq> c) alphabet)"

definition to_base64url :: "bytes \<Rightarrow> string" where
  "to_base64url bs = map (\<lambda>s. URL_ALPHABET ! s) (sextets bs)"

definition to_base64 :: "bytes \<Rightarrow> string" where
  "to_base64 bs =
     map (\<lambda>s. STD_ALPHABET ! s) (sextets bs) @ replicate (if length bs mod 3 = 0 then 0 else 3 - length bs mod 3) (CHR ''='')"

definition tryDecodeStdBase64 :: "string \<Rightarrow> bytes option" where
  "tryDecodeStdBase64 s =
     (let body = takeWhile (\<lambda>c. c \<in> set STD_ALPHABET) s; pad = dropWhile (\<lambda>c. c \<in> set STD_ALPHABET) s in
      if length s mod 4 \<noteq> 0 \<or> pad \<notin> {'''', ''='', ''==''} then None
      else Some (from_sextets (map (place STD_ALPHABET) body)))"

definition tryDecodeUrlBase64 :: "string \<Rightarrow> bytes option" where
  "tryDecodeUrlBase64 s =
     (if length s mod 4 = 1 \<or> \<not> set s \<subseteq> set URL_ALPHABET then None
      else Some (from_sextets (map (place URL_ALPHABET) s)))"

definition parseUintStrict :: "string \<Rightarrow> nat option" where
  "parseUintStrict s = (case numeral_of 10 s of None \<Rightarrow> None | Some n \<Rightarrow> if int n \<le> MAX_SAFE then Some n else None)"

definition show_int :: "int \<Rightarrow> string" where
  "show_int n = (if n < 0 then CHR ''-'' # digits_of (nat (- n)) else digits_of (nat n))"

text \<open>\<open>/^-?\<backslash>d+$/\<close>, as a number.\<close>

definition parse_int :: "string \<Rightarrow> int option" where
  "parse_int s =
     (case s of
        [] \<Rightarrow> None
      | c # t \<Rightarrow> if c = CHR ''-'' then map_option (\<lambda>n. - int n) (numeral_of 10 t) else map_option int (numeral_of 10 s))"

definition HEX :: string where
  "HEX = ''0123456789abcdef''"

definition to_hex :: "bytes \<Rightarrow> string" where
  "to_hex bs = concat (map (\<lambda>b. [HEX ! (unat b div 16), HEX ! (unat b mod 16)]) bs)"

definition hex_digit :: "char \<Rightarrow> bool" where
  "hex_digit c \<longleftrightarrow> digit_value 16 c \<noteq> None"

fun from_hex :: "string \<Rightarrow> bytes" where
  "from_hex (c # d # s) = word_of_nat (the (digit_value 16 c) * 16 + the (digit_value 16 d)) # from_hex s"
| "from_hex _ = []"

section \<open>Chunks of a plaintext\<close>

definition isContinuation :: "8 word \<Rightarrow> bool" where
  "isContinuation b \<longleftrightarrow> unat b div 64 = 2"

fun walk_back :: "bytes \<Rightarrow> nat \<Rightarrow> nat \<Rightarrow> nat" where
  "walk_back bs cursor e =
     (if cursor < e \<and> e < length bs \<and> isContinuation (bs ! e) then walk_back bs cursor (e - 1) else e)"

declare walk_back.simps [simp del]

lemma walk_back_le: "walk_back bs cursor e \<le> e"
proof (induction bs cursor e rule: walk_back.induct)
  case (1 bs cursor e)
  then show ?case by (subst walk_back.simps) (simp; linarith?)
qed

lemma walk_back_ge: "cursor \<le> e \<Longrightarrow> cursor \<le> walk_back bs cursor e"
proof (induction bs cursor e rule: walk_back.induct)
  case (1 bs cursor e)
  then show ?case by (subst walk_back.simps) (simp; linarith?)
qed

function split_loop :: "bytes \<Rightarrow> nat \<Rightarrow> bytes list \<Rightarrow> e2e_error + bytes list" where
  "split_loop bs cursor chunks =
     (if cursor < length bs then
        (let e = walk_back bs cursor (min (cursor + MAX_PLAINTEXT_PER_CHUNK) (length bs)) in
         if e = cursor then Inl (WireError ''cannot split: single UTF-8 char exceeds chunk budget'')
         else let chunks' = chunks @ [take (e - cursor) (drop cursor bs)] in
           if MAX_CHUNKS < length chunks' then Inl (ChunkLimit (length chunks')) else split_loop bs e chunks')
      else if MAX_CHUNKS < length chunks then Inl (ChunkLimit (length chunks))
      else Inr chunks)"
  by pat_completeness auto
termination
proof (relation "measure (\<lambda>(bs, cursor, _). length bs - cursor)", simp)
  fix bs cursor chunks e chunks'
  assume c: "cursor < length (bs :: bytes)" "e = walk_back bs cursor (min (cursor + MAX_PLAINTEXT_PER_CHUNK) (length bs))" "e \<noteq> cursor"
  have "cursor \<le> e" unfolding c(2) by (rule walk_back_ge) (use c(1) in simp)
  moreover have "e \<le> length bs" using walk_back_le [of bs cursor "min (cursor + MAX_PLAINTEXT_PER_CHUNK) (length bs)"] c(2) by linarith
  ultimately show "((bs, e, chunks'), (bs, cursor, chunks)) \<in> measure (\<lambda>(bs, cursor, _). length bs - cursor)" using c(1,3) by simp
qed

declare split_loop.simps [simp del]

definition splitPlaintext :: "nat list \<Rightarrow> e2e_error + bytes list" where
  "splitPlaintext plaintext =
     (if plaintext = [] then Inl (WireError ''empty plaintext'')
      else split_loop (utf8_encode (scalars plaintext)) 0 [])"

section \<open>The line of a chunk\<close>

record wire_chunk =
  wc_msgid :: bytes
  wc_ts :: int
  wc_part :: nat
  wc_total :: nat
  wc_nonce :: bytes
  wc_ciphertext :: bytes

definition encodeChunk :: "wire_chunk \<Rightarrow> e2e_error + string" where
  "encodeChunk c =
     (if length (wc_msgid c) \<noteq> MSGID_LEN then Inl (WireError ''msgid must be 8 bytes'')
      else if length (wc_nonce c) \<noteq> NONCE_LEN then Inl (WireError ''nonce must be 24 bytes'')
      else if wc_total c = 0 \<or> MAX_CHUNKS < wc_total c then Inl (ChunkLimit (wc_total c))
      else if wc_part c = 0 \<or> wc_total c < wc_part c then Inl (WireError ''invalid part/total'')
      else Inr (WIRE_PREFIX @ '' '' @ to_hex (wc_msgid c) @ '' '' @ show_int (wc_ts c) @ '' '' @ digits_of (wc_part c) @ ''/'' @
                digits_of (wc_total c) @ '' '' @ to_base64 (wc_nonce c) @ '':'' @ to_base64 (wc_ciphertext c)))"

text \<open>\<open>split(/\<backslash>s+/)\<close> with the blanks dropped.\<close>

definition space_fields :: "string \<Rightarrow> string list" where
  "space_fields s = filter (\<lambda>w. w \<noteq> []) (split_on (CHR '' '') (map (\<lambda>c. if is_space c then CHR '' '' else c) s))"

definition parse_body :: "bytes \<Rightarrow> int \<Rightarrow> nat \<Rightarrow> nat \<Rightarrow> string \<Rightarrow> e2e_error + wire_chunk option" where
  "parse_body msgid ts part tot body =
     (case index_of (CHR '':'') body of
        None \<Rightarrow> Inl (WireError ''missing nonce:ct separator'')
      | Some colon \<Rightarrow>
          (case tryDecodeStdBase64 (take colon body) of
             None \<Rightarrow> Inl (WireError ''nonce must be 24 bytes'')
           | Some nonce \<Rightarrow>
               if length nonce \<noteq> NONCE_LEN then Inl (WireError ''nonce must be 24 bytes'')
               else (case tryDecodeStdBase64 (drop (colon + 1) body) of
                       None \<Rightarrow> Inl (WireError ''invalid ciphertext base64'')
                     | Some ct \<Rightarrow>
                         Inr (Some \<lparr>wc_msgid = msgid, wc_ts = ts, wc_part = part, wc_total = tot, wc_nonce = nonce,
                                    wc_ciphertext = ct\<rparr>))))"

definition parse_parts :: "bytes \<Rightarrow> int \<Rightarrow> string \<Rightarrow> string \<Rightarrow> e2e_error + wire_chunk option" where
  "parse_parts msgid ts partTot body =
     (case index_of (CHR ''/'') partTot of
        None \<Rightarrow> Inl (WireError ''part/total missing slash'')
      | Some slash \<Rightarrow>
          (case (parseUintStrict (take slash partTot), parseUintStrict (drop (slash + 1) partTot)) of
             (Some part, Some tot) \<Rightarrow>
               if tot = 0 \<or> MAX_CHUNKS < tot \<or> part = 0 \<or> tot < part then Inl (WireError ''bad part/total'')
               else parse_body msgid ts part tot body
           | _ \<Rightarrow> Inl (WireError ''bad part/total'')))"

definition parseChunk :: "string \<Rightarrow> e2e_error + wire_chunk option" where
  "parseChunk line =
     (if \<not> starts_with line WIRE_PREFIX then Inr None
      else case space_fields (drop (length WIRE_PREFIX) line) of
        [msgidHex, tsStr, partTot, body] \<Rightarrow>
          if length msgidHex \<noteq> MSGID_LEN * 2 \<or> \<not> list_all hex_digit msgidHex then Inl (WireError ''msgid must be 16 hex chars'')
          else (case parse_int tsStr of
                  None \<Rightarrow> Inl (WireError ''bad ts'')
                | Some ts \<Rightarrow>
                    if MAX_SAFE < \<bar>ts\<bar> then Inl (WireError ''ts out of range'')
                    else parse_parts (from_hex msgidHex) ts partTot body)
      | others \<Rightarrow> Inl (WireError (if length others < 4 then ''missing fields'' else ''extra fields'')))"

section \<open>What a chunk is bound to\<close>

definition be16 :: "nat \<Rightarrow> bytes" where
  "be16 n = [word_of_nat (n div 256), word_of_nat (n mod 256)]"

definition be64 :: "64 word \<Rightarrow> bytes" where
  "be64 w = map (\<lambda>i. ucast (drop_bit (8 * i) w)) [7, 6, 5, 4, 3, 2, 1, 0]"

definition buildAad :: "string \<Rightarrow> bytes \<Rightarrow> int \<Rightarrow> nat \<Rightarrow> nat \<Rightarrow> e2e_error + bytes" where
  "buildAad channel msgid ts part tot =
     (if length msgid \<noteq> MSGID_LEN then Inl (WireError ''msgid must be 8 bytes'')
      else if MAX_SAFE < \<bar>ts\<bar> then Inl (WireError ''ts must be an integer'')
      else if 255 < part then Inl (WireError ''part must be 0..255'')
      else if 255 < tot then Inl (WireError ''total must be 0..255'')
      else let chan = utf8_text channel in
        Inr (utf8_text PROTO @ be16 (min (length chan) 0xFFFF) @ chan @ be16 8 @ msgid @ be16 8 @ be64 (word_of_int ts) @
             be16 1 @ [word_of_nat part] @ be16 1 @ [word_of_nat tot]))"

section \<open>UTF-8 is read back\<close>

definition valid_scalar :: "nat \<Rightarrow> bool" where
  "valid_scalar c \<longleftrightarrow> c < 0x110000 \<and> \<not> (0xD800 \<le> c \<and> c < 0xE000)"

lemma valid_unit: "u < 0x10000 \<Longrightarrow> valid_scalar (if is_high u \<or> is_low u then 0xFFFD else u)"
  by (auto simp: valid_scalar_def is_high_def is_low_def)

lemma valid_pair: "is_high u \<Longrightarrow> is_low v \<Longrightarrow> valid_scalar (0x10000 + (u - 0xD800) * 0x400 + (v - 0xDC00))"
  unfolding valid_scalar_def is_high_def is_low_def by linarith

lemma scalars_valid: "\<forall>u \<in> set us. u < 0x10000 \<Longrightarrow> \<forall>c \<in> set (scalars us). valid_scalar c"
proof (induction us rule: scalars.induct)
  case (3 u v us)
  show ?case
  proof (cases "is_high u \<and> is_low v")
    case True
    then have e: "scalars (u # v # us) = (0x10000 + (u - 0xD800) * 0x400 + (v - 0xDC00)) # scalars us" by simp
    show ?thesis unfolding e using True 3(1,3) valid_pair [of u v] by simp
  next
    case False
    then have e: "scalars (u # v # us) = (if is_high u \<or> is_low u then 0xFFFD else u) # scalars (v # us)" by simp
    show ?thesis unfolding e using False 3(2,3) valid_unit [of u] by simp
  qed
qed (use valid_unit in auto)

lemma scalars_units: "\<forall>c \<in> set cps. valid_scalar c \<Longrightarrow> scalars (units_of cps @ us) = cps @ scalars us"
proof (induction cps)
  case (Cons c cps)
  have v: "valid_scalar c" and IH: "scalars (units_of cps @ us) = cps @ scalars us" using Cons by auto
  show ?case
  proof (cases "c < 0x10000")
    case True
    then have p: "\<not> is_high c" "\<not> is_low c" using v by (auto simp: valid_scalar_def is_high_def is_low_def)
    have "scalars (c # vs) = c # scalars vs" for vs using p by (cases vs) auto
    then show ?thesis using True IH by (simp add: units_of_def)
  next
    case False
    have "(c - 0x10000) div 0x400 < 0x400" using v False by (auto simp: valid_scalar_def)
    then have "is_high (0xD800 + (c - 0x10000) div 0x400)" "is_low (0xDC00 + (c - 0x10000) mod 0x400)" by (auto simp: is_high_def is_low_def)
    moreover have "0x10000 + (c - 0x10000) div 0x400 * 0x400 + (c - 0x10000) mod 0x400 = c" using False by simp
    ultimately show ?thesis using False IH by (simp add: units_of_def)
  qed
qed (simp add: units_of_def)

lemma scalars_nonempty: "us \<noteq> [] \<Longrightarrow> scalars us \<noteq> []"
  by (induction us rule: scalars.induct) auto

lemma byte_unat: "n < 256 \<Longrightarrow> unat (word_of_nat n :: 8 word) = n"
  by (simp add: unat_of_nat)

lemma utf8_scalar_bytes:
  assumes "valid_scalar c"
  shows "\<exists>b ts. utf8_scalar c = b # ts \<and> \<not> isContinuation b \<and> (\<forall>t \<in> set ts. isContinuation t) \<and> length ts \<le> 3"
proof -
  have c: "c < 0x110000" using assms by (simp add: valid_scalar_def)
  consider "c < 0x80" | "\<not> c < 0x80" "c < 0x800" | "\<not> c < 0x800" "c < 0x10000" | "\<not> c < 0x10000" by linarith
  then show ?thesis using c
  proof cases
    case 2
    then have "c div 0x40 < 32" by auto
    then show ?thesis using 2 by (auto simp: utf8_scalar_def isContinuation_def byte_unat simp del: of_nat_add)
  next
    case 3
    then have "c div 0x1000 < 16" by auto
    then show ?thesis using 3 by (auto simp: utf8_scalar_def isContinuation_def byte_unat simp del: of_nat_add)
  next
    case 4
    then have "c div 0x40000 < 5" using c by auto
    then show ?thesis using 4 by (auto simp: utf8_scalar_def isContinuation_def byte_unat simp del: of_nat_add)
  qed (auto simp: utf8_scalar_def isContinuation_def byte_unat simp del: of_nat_add)
qed

lemma utf8_decode_1: "a < 0x80 \<Longrightarrow> utf8_decode (word_of_nat a # bs) = map_option ((#) a) (utf8_decode bs)"
  by (simp add: utf8_decode.simps byte_unat)

lemma utf8_decode_2:
  assumes "2 \<le> a" "a < 0x20" "b < 0x40"
  shows "utf8_decode (word_of_nat (0xC0 + a) # word_of_nat (0x80 + b) # bs) = map_option ((#) (a * 0x40 + b)) (utf8_decode bs)"
proof -
  have "unat (word_of_nat (0xC0 + a) :: 8 word) = 0xC0 + a" "unat (word_of_nat (0x80 + b) :: 8 word) = 0x80 + b"
    using assms by (simp_all add: byte_unat del: of_nat_add)
  then show ?thesis using assms unfolding utf8_decode.simps(2) tail_byte_def Let_def by (simp del: of_nat_add)
qed

lemma utf8_decode_3:
  assumes "a < 0x10" "b < 0x40" "d < 0x40" "a = 0 \<Longrightarrow> 0x20 \<le> b" "a = 13 \<Longrightarrow> b \<le> 0x1F"
  shows "utf8_decode (word_of_nat (0xE0 + a) # word_of_nat (0x80 + b) # word_of_nat (0x80 + d) # bs) =
    map_option ((#) (a * 0x1000 + b * 0x40 + d)) (utf8_decode bs)"
proof -
  have "unat (word_of_nat (0xE0 + a) :: 8 word) = 0xE0 + a" "unat (word_of_nat (0x80 + b) :: 8 word) = 0x80 + b"
    "unat (word_of_nat (0x80 + d) :: 8 word) = 0x80 + d"
    using assms(1-3) by (simp_all add: byte_unat del: of_nat_add)
  then show ?thesis using assms unfolding utf8_decode.simps(2) tail_byte_def Let_def by (simp del: of_nat_add)
qed

lemma utf8_decode_4:
  assumes "a < 5" "b < 0x40" "d < 0x40" "e < 0x40" "a = 0 \<Longrightarrow> 0x10 \<le> b" "a = 4 \<Longrightarrow> b \<le> 0xF"
  shows "utf8_decode (word_of_nat (0xF0 + a) # word_of_nat (0x80 + b) # word_of_nat (0x80 + d) # word_of_nat (0x80 + e) # bs) =
    map_option ((#) (a * 0x40000 + b * 0x1000 + d * 0x40 + e)) (utf8_decode bs)"
proof -
  have "unat (word_of_nat (0xF0 + a) :: 8 word) = 0xF0 + a" "unat (word_of_nat (0x80 + b) :: 8 word) = 0x80 + b"
    "unat (word_of_nat (0x80 + d) :: 8 word) = 0x80 + d" "unat (word_of_nat (0x80 + e) :: 8 word) = 0x80 + e"
    using assms(1-4) by (simp_all add: byte_unat del: of_nat_add)
  then show ?thesis using assms unfolding utf8_decode.simps(2) tail_byte_def Let_def by (simp del: of_nat_add)
qed

lemma utf8_decode_scalar:
  assumes v: "valid_scalar c"
  shows "utf8_decode (utf8_scalar c @ bs) = map_option ((#) c) (utf8_decode bs)"
proof -
  have c: "c < 0x110000" "\<not> (0xD800 \<le> c \<and> c < 0xE000)" using v by (simp_all add: valid_scalar_def)
  have lt: "n mod 0x40 < 0x40" for n :: nat by simp
  have in64: "n = n div 0x40 * 0x40 + n mod 0x40" for n :: nat by simp
  have dd: "c div 0x40 div 0x40 = c div 0x1000" "c div 0x1000 div 0x40 = c div 0x40000" by (simp_all add: div_mult2_eq [symmetric])
  consider "c < 0x80" | "\<not> c < 0x80" "c < 0x800" | "\<not> c < 0x800" "c < 0x10000" | "\<not> c < 0x10000" by linarith
  then show ?thesis
  proof cases
    case 1
    then show ?thesis by (simp add: utf8_scalar_def utf8_decode_1)
  next
    case 2
    have "c = c div 0x40 * 0x40 + c mod 0x40" by presburger
    moreover have "2 \<le> c div 0x40" "c div 0x40 < 0x20" using 2 by auto
    ultimately show ?thesis using 2 utf8_decode_2 [of "c div 0x40" "c mod 0x40" bs] lt by (simp add: utf8_scalar_def del: of_nat_add)
  next
    case 3
    let ?a = "c div 0x1000" and ?b = "c div 0x40 mod 0x40" and ?d = "c mod 0x40"
    have s: "c = ?a * 0x1000 + ?b * 0x40 + ?d" using in64 [of c] in64 [of "c div 0x40"] unfolding dd by linarith
    have a: "?a < 16" using 3 by auto
    have 1: "?a = 0 \<Longrightarrow> 0x20 \<le> ?b" using 3 s by linarith
    have 2: "?a = 13 \<Longrightarrow> ?b \<le> 0x1F" using c s by linarith
    have e: "utf8_scalar c @ bs = word_of_nat (0xE0 + ?a) # word_of_nat (0x80 + ?b) # word_of_nat (0x80 + ?d) # bs"
      using 3 by (simp add: utf8_scalar_def del: of_nat_add)
    have "utf8_decode (utf8_scalar c @ bs) = map_option ((#) (?a * 0x1000 + ?b * 0x40 + ?d)) (utf8_decode bs)"
      unfolding e by (rule utf8_decode_3 [OF a lt lt 1 2])
    then show ?thesis by (simp only: s [symmetric])
  next
    case 4
    let ?a = "c div 0x40000" and ?b = "c div 0x1000 mod 0x40" and ?d = "c div 0x40 mod 0x40" and ?e = "c mod 0x40"
    have s: "c = ?a * 0x40000 + ?b * 0x1000 + ?d * 0x40 + ?e"
      using in64 [of c] in64 [of "c div 0x40"] in64 [of "c div 0x1000"] unfolding dd by linarith
    have a: "?a < 5" using c by auto
    have 1: "?a = 0 \<Longrightarrow> 0x10 \<le> ?b" using 4 s by linarith
    have 2: "?a = 4 \<Longrightarrow> ?b \<le> 0xF" using c s by linarith
    have e: "utf8_scalar c @ bs = word_of_nat (0xF0 + ?a) # word_of_nat (0x80 + ?b) # word_of_nat (0x80 + ?d) # word_of_nat (0x80 + ?e) # bs"
      using 4 by (simp add: utf8_scalar_def del: of_nat_add)
    have "utf8_decode (utf8_scalar c @ bs) = map_option ((#) (?a * 0x40000 + ?b * 0x1000 + ?d * 0x40 + ?e)) (utf8_decode bs)"
      unfolding e by (rule utf8_decode_4 [OF a lt lt lt 1 2])
    then show ?thesis by (simp only: s [symmetric])
  qed
qed

lemma utf8_encode_simps [simp]:
  "utf8_encode [] = []" "utf8_encode (c # cs) = utf8_scalar c @ utf8_encode cs" "utf8_encode (cs @ ds) = utf8_encode cs @ utf8_encode ds"
  by (simp_all add: utf8_encode_def)

lemma utf8_reads_back: "\<forall>c \<in> set cps. valid_scalar c \<Longrightarrow> utf8_decode (utf8_encode cps) = Some cps"
  by (induction cps) (simp_all add: utf8_decode_scalar)

section \<open>What the chunker promises\<close>

text \<open>From any place of a text's bytes, walking back ends between two characters, at most three bytes before.\<close>

lemma walk_in_scalar:
  assumes "utf8_scalar c = b # ts" "\<not> isContinuation b" "\<forall>t \<in> set ts. isContinuation t" "j \<le> length ts" "cursor \<le> length pre"
  shows "walk_back (pre @ (b # ts) @ post) cursor (length pre + j) = length pre"
  using assms(4)
proof (induction j)
  case 0
  then show ?case using assms(2) by (subst walk_back.simps) (simp add: nth_append)
next
  case (Suc j)
  have "isContinuation ((pre @ (b # ts) @ post) ! (length pre + Suc j))" using Suc.prems assms(3) by (simp add: nth_append)
  then have "walk_back (pre @ (b # ts) @ post) cursor (length pre + Suc j) = walk_back (pre @ (b # ts) @ post) cursor (length pre + j)"
    using Suc.prems assms(5) by (subst walk_back.simps) simp
  then show ?case using Suc by simp
qed

lemma encode_position:
  assumes "\<forall>c \<in> set cps. valid_scalar c" "e < length (utf8_encode cps)"
  shows "\<exists>cps1 c cps2 j. cps = cps1 @ c # cps2 \<and> e = length (utf8_encode cps1) + j \<and> j < length (utf8_scalar c)"
  using assms
proof (induction cps arbitrary: e)
  case (Cons c cps)
  show ?case
  proof (cases "e < length (utf8_scalar c)")
    case True
    then have "c # cps = [] @ c # cps \<and> e = length (utf8_encode []) + e \<and> e < length (utf8_scalar c)" by simp
    then show ?thesis by blast
  next
    case False
    then have "e - length (utf8_scalar c) < length (utf8_encode cps)" using Cons.prems(2) by simp
    moreover have "\<forall>c \<in> set cps. valid_scalar c" using Cons.prems(1) by simp
    ultimately obtain cps1 d cps2 j where
      IH: "cps = cps1 @ d # cps2" "e - length (utf8_scalar c) = length (utf8_encode cps1) + j" "j < length (utf8_scalar d)"
      using Cons.IH by blast
    have "c # cps = (c # cps1) @ d # cps2 \<and> e = length (utf8_encode (c # cps1)) + j \<and> j < length (utf8_scalar d)" using IH False by simp
    then show ?thesis by blast
  qed
qed simp

lemma walk_boundary:
  assumes v: "\<forall>c \<in> set cps. valid_scalar c" and e: "length pre \<le> e" "e \<le> length (pre @ utf8_encode cps)"
  shows "\<exists>cps1 cps2. cps = cps1 @ cps2 \<and> walk_back (pre @ utf8_encode cps) (length pre) e = length pre + length (utf8_encode cps1) \<and>
    e \<le> length pre + length (utf8_encode cps1) + 3"
proof (cases "e = length (pre @ utf8_encode cps)")
  case True
  then have "walk_back (pre @ utf8_encode cps) (length pre) e = length pre + length (utf8_encode cps)" by (subst walk_back.simps) simp
  moreover have "cps = cps @ []" by simp
  ultimately show ?thesis using True by (metis le_add1 length_append)
next
  case False
  then have "e - length pre < length (utf8_encode cps)" using e by simp
  from encode_position [OF v this] obtain cps1 c cps2 j where
    p: "cps = cps1 @ c # cps2" "e - length pre = length (utf8_encode cps1) + j" "j < length (utf8_scalar c)" by blast
  obtain b ts where b: "utf8_scalar c = b # ts" "\<not> isContinuation b" "\<forall>t \<in> set ts. isContinuation t" "length ts \<le> 3"
    using utf8_scalar_bytes [of c] v p(1) by auto
  have "walk_back ((pre @ utf8_encode cps1) @ (b # ts) @ utf8_encode cps2) (length pre) (length (pre @ utf8_encode cps1) + j) = length (pre @ utf8_encode cps1)"
    by (rule walk_in_scalar [OF b(1-3)]) (use p(3) b(1) in auto)
  moreover have "(pre @ utf8_encode cps1) @ (b # ts) @ utf8_encode cps2 = pre @ utf8_encode cps" using p(1) b(1) by simp
  moreover have "length (pre @ utf8_encode cps1) + j = e" using p(2) e(1) by simp
  ultimately have "walk_back (pre @ utf8_encode cps) (length pre) e = length pre + length (utf8_encode cps1)" by simp
  moreover have "e \<le> length pre + length (utf8_encode cps1) + 3" using p(2,3) b(1,4) e(1) by simp
  ultimately show ?thesis using p(1) by blast
qed

text \<open>The loop's cursor is always between two characters, each chunk is whole characters, and a chunk that is not the last
  holds at least 177 bytes.\<close>

definition whole_chunks :: "bytes list \<Rightarrow> nat list list \<Rightarrow> bool" where
  "whole_chunks chunks texts \<longleftrightarrow> chunks = map utf8_encode texts \<and> (\<forall>ch \<in> set chunks. ch \<noteq> [] \<and> length ch \<le> MAX_PLAINTEXT_PER_CHUNK)"

lemma split_loop_spec:
  assumes "\<forall>c \<in> set cps. valid_scalar c" "whole_chunks chunks texts" "length chunks \<le> MAX_CHUNKS"
    "177 * length chunks \<le> length (concat chunks) \<or> cps = []"
  shows "case split_loop (concat chunks @ utf8_encode cps) (length (concat chunks)) chunks of
      Inr out \<Rightarrow> \<exists>more. whole_chunks out (texts @ more) \<and> length out \<le> MAX_CHUNKS \<and> concat more = cps
    | Inl err \<Rightarrow> err = ChunkLimit (MAX_CHUNKS + 1) \<and> 177 * MAX_CHUNKS < length (concat chunks @ utf8_encode cps)"
  using assms
proof (induction "length cps" arbitrary: cps chunks texts rule: less_induct)
  case less
  let ?pre = "concat chunks"
  let ?bs = "?pre @ utf8_encode cps"
  show ?case
  proof (cases "cps = []")
    case True
    have "split_loop ?bs (length ?pre) chunks = Inr chunks" using True less.prems(3) by (subst split_loop.simps) simp
    then show ?thesis using True less.prems by (simp add: exI [of _ "[]"])
  next
    case False
    then obtain c cs where c: "cps = c # cs" by (cases cps) auto
    obtain b ts where b: "utf8_scalar c = b # ts" "length ts \<le> 3" using utf8_scalar_bytes [of c] less.prems(1) c by auto
    let ?stop = "min (length ?pre + MAX_PLAINTEXT_PER_CHUNK) (length ?bs)"
    obtain cps1 cps2 where w: "cps = cps1 @ cps2" "walk_back ?bs (length ?pre) ?stop = length ?pre + length (utf8_encode cps1)"
      "?stop \<le> length ?pre + length (utf8_encode cps1) + 3"
      using walk_boundary [OF less.prems(1), of ?pre ?stop] by auto
    have ne: "cps1 \<noteq> []"
    proof
      assume "cps1 = []"
      then have z: "walk_back ?bs (length ?pre) ?stop = length ?pre" "?stop \<le> length ?pre + 3" using w by auto
      have "length ?bs \<le> length ?pre + 3" using z(2) by (simp add: MAX_PLAINTEXT_PER_CHUNK_def min_def split: if_splits)
      then have "?stop = length ?bs" by (simp add: MAX_PLAINTEXT_PER_CHUNK_def)
      then have "walk_back ?bs (length ?pre) ?stop = length ?bs" by (subst walk_back.simps) simp
      then show False using z(1) c b(1) by simp
    qed
    then have pos: "0 < length (utf8_encode cps1)" using w(1) less.prems(1) utf8_scalar_bytes by (cases cps1) fastforce+
    define chunks' where "chunks' = chunks @ [utf8_encode cps1]"
    have small: "length (utf8_encode cps1) \<le> MAX_PLAINTEXT_PER_CHUNK"
      using walk_back_le [of ?bs "length ?pre" ?stop] w(2) by simp
    have wc: "whole_chunks chunks' (texts @ [cps1])"
      using less.prems(2) pos small by (auto simp: whole_chunks_def chunks'_def)
    have big: "177 \<le> length (utf8_encode cps1) \<or> cps2 = []"
    proof (cases "cps2 = []")
      case False
      then have "0 < length (utf8_encode cps2)" using w(1) less.prems(1) utf8_scalar_bytes by (cases cps2) fastforce+
      moreover have "?stop \<noteq> length ?bs"
      proof
        assume "?stop = length ?bs"
        then have "walk_back ?bs (length ?pre) ?stop = length ?bs" by (subst walk_back.simps) simp
        then show False using w(1,2) \<open>0 < length (utf8_encode cps2)\<close> by simp
      qed
      ultimately show ?thesis using w(3) by (simp add: MAX_PLAINTEXT_PER_CHUNK_def min_def split: if_splits)
    qed simp
    have sum: "177 * length chunks \<le> length ?pre" using less.prems(4) False by blast
    have step: "split_loop ?bs (length ?pre) chunks =
        (if MAX_CHUNKS < length chunks' then Inl (ChunkLimit (length chunks')) else split_loop ?bs (length ?pre + length (utf8_encode cps1)) chunks')"
    proof -
      have "take (length (utf8_encode cps1)) (drop (length ?pre) ?bs) = utf8_encode cps1" using w(1) by simp
      moreover have "length ?pre < length ?bs" using pos w(1) by simp
      ultimately have "split_loop ?bs (length ?pre) chunks =
        (if length ?pre + length (utf8_encode cps1) = length ?pre then Inl (WireError ''cannot split: single UTF-8 char exceeds chunk budget'')
         else if MAX_CHUNKS < length chunks' then Inl (ChunkLimit (length chunks'))
         else split_loop ?bs (length ?pre + length (utf8_encode cps1)) chunks')"
        by (subst split_loop.simps) (simp only: w(2) Let_def chunks'_def diff_add_inverse if_True)
      then show ?thesis using pos by simp
    qed
    show ?thesis
    proof (cases "MAX_CHUNKS < length chunks'")
      case True
      then have "length chunks = MAX_CHUNKS" using less.prems(3) by (simp add: chunks'_def)
      moreover have "length ?pre + length (utf8_encode cps1) \<le> length ?bs" using w(1) by simp
      then have "177 * MAX_CHUNKS < length ?bs" using sum \<open>length chunks = MAX_CHUNKS\<close> pos by linarith
      ultimately show ?thesis using True by (simp add: step chunks'_def)
    next
      case fit: False
      have bs: "?bs = concat chunks' @ utf8_encode cps2" "length ?pre + length (utf8_encode cps1) = length (concat chunks')"
        using w(1) by (simp_all add: chunks'_def)
      have l: "length cps2 < length cps" using w(1) ne by simp
      have s2: "177 * length chunks' \<le> length (concat chunks') \<or> cps2 = []" using sum big by (auto simp: chunks'_def)
      have v2: "\<forall>c \<in> set cps2. valid_scalar c" using less.prems(1) w(1) by simp
      have IH: "case split_loop (concat chunks' @ utf8_encode cps2) (length (concat chunks')) chunks' of
          Inr out \<Rightarrow> \<exists>more. whole_chunks out ((texts @ [cps1]) @ more) \<and> length out \<le> MAX_CHUNKS \<and> concat more = cps2
        | Inl err \<Rightarrow> err = ChunkLimit (MAX_CHUNKS + 1) \<and> 177 * MAX_CHUNKS < length (concat chunks' @ utf8_encode cps2)"
        using less.hyps [OF l v2 wc _ s2] fit by simp
      have st: "split_loop ?bs (length ?pre) chunks = split_loop (concat chunks' @ utf8_encode cps2) (length (concat chunks')) chunks'"
        using step fit unfolding bs by simp
      show ?thesis
      proof (cases "split_loop (concat chunks' @ utf8_encode cps2) (length (concat chunks')) chunks'")
        case (Inl err)
        then show ?thesis using IH unfolding st Inl sum.case bs(1) [symmetric] by simp
      next
        case (Inr out)
        then obtain more where "whole_chunks out ((texts @ [cps1]) @ more)" "length out \<le> MAX_CHUNKS" "concat more = cps2" using IH by auto
        then have "whole_chunks out (texts @ (cps1 # more)) \<and> length out \<le> MAX_CHUNKS \<and> concat (cps1 # more) = cps" using w(1) by simp
        then show ?thesis unfolding st Inr sum.case by blast
      qed
    qed
  qed
qed

lemma encoded_bom:
  assumes "\<forall>c \<in> set cps. valid_scalar c" "take 3 (utf8_encode cps) = [0xEF, 0xBB, 0xBF]"
  shows "0xFEFF \<in> set cps"
proof -
  obtain rest where r: "utf8_encode cps = 0xEF # 0xBB # 0xBF # rest"
    using assms(2) append_take_drop_id [of 3 "utf8_encode cps"] by (metis append_Cons append_Nil)
  have "word_of_nat (0xE0 + 15) = (0xEF :: 8 word)" "word_of_nat (0x80 + 0x3B) = (0xBB :: 8 word)" "word_of_nat (0x80 + 0x3F) = (0xBF :: 8 word)"
    by simp_all
  then have "utf8_decode (utf8_encode cps) = map_option ((#) 0xFEFF) (utf8_decode rest)"
    using utf8_decode_3 [of 15 "0x3B" "0x3F" rest] unfolding r by simp
  then have "Some cps = map_option ((#) 0xFEFF) (utf8_decode rest)" using utf8_reads_back [OF assms(1)] by simp
  then show ?thesis by (cases "utf8_decode rest") auto
qed

lemma decode_text_encoded:
  "\<forall>c \<in> set cps. valid_scalar c \<Longrightarrow> 0xFEFF \<notin> set cps \<Longrightarrow> decode_text (utf8_encode cps) = Some (units_of cps)"
  using encoded_bom utf8_reads_back by (auto simp: decode_text_def)

lemma units_of_concat: "concat (map units_of css) = units_of (concat css)"
  by (induction css) (simp_all add: units_of_def)

lemma scalars_no_bom: "0xFEFF \<notin> set us \<Longrightarrow> 0xFEFF \<notin> set (scalars us)"
  by (induction us rule: scalars.induct) auto

text \<open>A text with no byte order mark in it that is split is carried whole: at most 16 chunks of at most 180 bytes, none
  empty, each of which decodes on its own, together to the text in order, its lone surrogates replaced.  No text of up
  to 2,832 bytes is refused but the empty one.\<close>

lemma chunks_carry_the_text:
  assumes "\<forall>u \<in> set plaintext. u < 0x10000" "0xFEFF \<notin> set plaintext"
  shows "case splitPlaintext plaintext of
      Inr chunks \<Rightarrow> chunks \<noteq> [] \<and> length chunks \<le> 16 \<and> (\<forall>ch \<in> set chunks. ch \<noteq> [] \<and> length ch \<le> 180) \<and>
        (\<exists>texts. map decode_text chunks = map Some texts \<and> concat texts = units_of (scalars plaintext))
    | Inl err \<Rightarrow> plaintext = [] \<or> (err = ChunkLimit 17 \<and> 2832 < length (utf8_encode (scalars plaintext)))"
proof (cases "plaintext = []")
  case False
  let ?cps = "scalars plaintext"
  have v: "\<forall>c \<in> set ?cps. valid_scalar c" by (rule scalars_valid) (rule assms(1))
  have "?cps \<noteq> []" using False by (rule scalars_nonempty)
  have nobom: "0xFEFF \<notin> set ?cps" using assms(2) by (rule scalars_no_bom)
  have wc: "whole_chunks [] []" by (simp add: whole_chunks_def)
  have s: "case split_loop (utf8_encode ?cps) 0 [] of
      Inr out \<Rightarrow> \<exists>more. whole_chunks out more \<and> length out \<le> MAX_CHUNKS \<and> concat more = ?cps
    | Inl err \<Rightarrow> err = ChunkLimit (MAX_CHUNKS + 1) \<and> 177 * MAX_CHUNKS < length (utf8_encode ?cps)"
    using split_loop_spec [OF v wc] by (simp only: concat.simps list.size append_Nil) simp
  show ?thesis
  proof (cases "split_loop (utf8_encode ?cps) 0 []")
    case (Inl err)
    then show ?thesis using s False by (simp add: splitPlaintext_def MAX_CHUNKS_def)
  next
    case (Inr out)
    then obtain more where m: "whole_chunks out more" "length out \<le> MAX_CHUNKS" "concat more = ?cps" using s by auto
    have "decode_text (utf8_encode t) = Some (units_of t)" if "t \<in> set more" for t
    proof (rule decode_text_encoded)
      have "set t \<subseteq> set ?cps" using that unfolding m(3) [symmetric] by auto
      then show "\<forall>c \<in> set t. valid_scalar c" "0xFEFF \<notin> set t" using v nobom by auto
    qed
    then have "map decode_text out = map Some (map units_of more)" using m(1) by (simp add: whole_chunks_def)
    moreover have "concat (map units_of more) = units_of ?cps" using m(3) by (simp add: units_of_concat)
    ultimately have ex: "\<exists>texts. map decode_text out = map Some texts \<and> concat texts = units_of ?cps" by blast
    have "out \<noteq> []" using m(1,3) \<open>?cps \<noteq> []\<close> by (auto simp: whole_chunks_def)
    moreover have "\<forall>ch \<in> set out. ch \<noteq> [] \<and> length ch \<le> 180" using m(1) by (simp add: whole_chunks_def MAX_PLAINTEXT_PER_CHUNK_def)
    ultimately show ?thesis using m(2) False Inr ex by (simp add: splitPlaintext_def MAX_CHUNKS_def)
  qed
qed (simp add: splitPlaintext_def)


lemma chunks_carry_the_text_witness:
  "case splitPlaintext (replicate 181 0x61) of
      Inr chunks \<Rightarrow> map length chunks = [180, 1] \<and>
        (\<exists>texts. map decode_text chunks = map Some texts \<and> concat texts = replicate 181 0x61)
    | Inl err \<Rightarrow> False"
proof -
  let ?p = "replicate 181 0x61 :: nat list"
  have plain: "scalars us = us" if "\<forall>u \<in> set us. u < 0xD800" for us
    using that by (induction us rule: scalars.induct) (auto simp: is_high_def is_low_def)
  have u: "scalars ?p = ?p" "units_of ?p = ?p" "utf8_encode ?p = replicate 181 0x61"
    by (rule plain) (simp_all add: units_of_def utf8_encode_def utf8_scalar_def map_replicate_const concat_replicate_single)
  have "splitPlaintext ?p = Inr [replicate 180 0x61, [0x61]]"
    unfolding splitPlaintext_def u
    by (simp add: split_loop.simps walk_back.simps MAX_PLAINTEXT_PER_CHUNK_def MAX_CHUNKS_def isContinuation_def)
  moreover have "\<forall>u \<in> set ?p. u < 0x10000" "0xFEFF \<notin> set ?p" by auto
  from chunks_carry_the_text [OF this] have "case splitPlaintext ?p of
      Inr chunks \<Rightarrow> \<exists>texts. map decode_text chunks = map Some texts \<and> concat texts = ?p
    | Inl err \<Rightarrow> ?p = [] \<or> 2832 < length (utf8_encode ?p)" unfolding u by (auto split: sum.splits)
  ultimately show ?thesis by (simp)
qed

text \<open>A byte order mark at the front of a chunk is lost.\<close>

lemma bom_is_lost:
  "splitPlaintext [0xFEFF, 0x61] = Inr [[0xEF, 0xBB, 0xBF, 0x61]] \<and> decode_text [0xEF, 0xBB, 0xBF, 0x61] = Some [0x61]"
  by (simp add: splitPlaintext_def is_high_def is_low_def utf8_scalar_def split_loop.simps walk_back.simps MAX_PLAINTEXT_PER_CHUNK_def
      MAX_CHUNKS_def decode_text_def utf8_decode.simps units_of_def)

section \<open>Base64 and numerals are read back\<close>

lemma byte_parts: "unat a < 256" "unat a div 4 < 64" "unat a div 16 < 16" "unat a div 64 < 4" for a :: "8 word"
proof -
  have "unat a < 2 ^ 8" using unsigned_less [of a] by simp
  then show "unat a < 256" by simp
  then show "unat a div 4 < 64" "unat a div 16 < 16" "unat a div 64 < 4" by auto
qed

lemma sextets_small: "s \<in> set (sextets bs) \<Longrightarrow> s < 64"
proof (induction bs rule: sextets.induct)
  case (2 a)
  then show ?case using byte_parts(2) [of a] by auto
next
  case (3 a b)
  have "unat a mod 4 < 4" "unat b mod 16 < 16" by simp_all
  then show ?case using 3 byte_parts(2) [of a] byte_parts(3) [of b] by auto
next
  case (4 a b c bs)
  have "unat a mod 4 < 4" "unat b mod 16 < 16" "unat c mod 64 < 64" by simp_all
  then show ?case using 4 byte_parts(2) [of a] byte_parts(3) [of b] byte_parts(4) [of c] by auto
qed simp

lemma from_sextets_sextets: "from_sextets (sextets bs) = bs"
proof (induction bs rule: sextets.induct)
  case (3 a b)
  then show ?case using byte_parts(3) [of b] by (simp del: of_nat_add of_nat_mult)
next
  case (4 a b c bs)
  then show ?case using byte_parts(3) [of b] byte_parts(4) [of c] by (simp del: of_nat_add of_nat_mult)
qed (simp_all del: of_nat_add of_nat_mult)

lemma place_nth: "distinct al \<Longrightarrow> i < length al \<Longrightarrow> place al (al ! i) = i"
proof (induction al arbitrary: i)
  case (Cons a al)
  then show ?case by (cases i) (auto simp: place_def)
qed simp

lemma alphabets: "distinct STD_ALPHABET" "length STD_ALPHABET = 64" "distinct URL_ALPHABET" "length URL_ALPHABET = 64"
  "\<forall>c \<in> set STD_ALPHABET. \<not> is_space c \<and> c \<noteq> CHR '':'' \<and> c \<noteq> CHR ''=''" "\<forall>c \<in> set URL_ALPHABET. \<not> is_space c \<and> c \<noteq> CHR ''=''"
  by code_simp+

lemma base64_chars: "set (map (\<lambda>s. STD_ALPHABET ! s) (sextets bs)) \<subseteq> set STD_ALPHABET" "set (to_base64url bs) \<subseteq> set URL_ALPHABET"
  using sextets_small alphabets(2,4) nth_mem by (fastforce simp: to_base64url_def)+

lemma base64url_reads_back: "tryDecodeUrlBase64 (to_base64url bs) = Some bs"
proof -
  have "map (place URL_ALPHABET) (to_base64url bs) = sextets bs"
    using sextets_small alphabets(3,4) by (auto simp: to_base64url_def place_nth intro!: map_idI)
  moreover have "length (to_base64url bs) mod 4 \<noteq> 1"
    by (simp add: to_base64url_def) (induction bs rule: sextets.induct, simp_all)
  ultimately show ?thesis using base64_chars by (simp add: tryDecodeUrlBase64_def from_sextets_sextets)
qed

lemma sextets_length: "(length (sextets bs) + (if length bs mod 3 = 0 then 0 else 3 - length bs mod 3)) mod 4 = 0"
proof (induction bs rule: sextets.induct)
  case (4 a b c bs)
  have "length (a # b # c # bs) mod 3 = length bs mod 3" by simp
  then show ?case using 4 by (simp only:) (simp add: add.assoc split: if_splits)
qed simp_all

lemma base64_reads_back: "tryDecodeStdBase64 (to_base64 bs) = Some bs"
proof -
  let ?m = "map (\<lambda>s. STD_ALPHABET ! s) (sextets bs)" and ?k = "if length bs mod 3 = 0 then 0 else 3 - length bs mod 3"
  have e: "to_base64 bs = ?m @ replicate ?k (CHR ''='')" by (simp add: to_base64_def)
  have k: "?k = 0 \<or> ?k = 1 \<or> ?k = 2" by auto
  have "CHR ''='' \<notin> set STD_ALPHABET" using alphabets(5) by blast
  then have t: "takeWhile (\<lambda>c. c \<in> set STD_ALPHABET) (replicate ?k (CHR ''='')) = []" "dropWhile (\<lambda>c. c \<in> set STD_ALPHABET) (replicate ?k (CHR ''='')) = replicate ?k (CHR ''='')"
    by (simp_all only: takeWhile_eq_Nil_iff dropWhile_eq_self_iff) (simp_all add: hd_replicate)
  have "takeWhile (\<lambda>c. c \<in> set STD_ALPHABET) (to_base64 bs) = ?m" "dropWhile (\<lambda>c. c \<in> set STD_ALPHABET) (to_base64 bs) = replicate ?k (CHR ''='')"
        unfolding e using base64_chars(1) [of bs] t by (simp_all only: subset_iff takeWhile_append2 dropWhile_append2 append_Nil2)
  moreover have "length (to_base64 bs) mod 4 = 0" using sextets_length [of bs] by (simp add: e)
  moreover have "replicate ?k (CHR ''='') \<in> {'''', ''='', ''==''}" using k by (elim disjE) (simp_all only: replicate.simps, simp_all add: numeral_2_eq_2)
  moreover have "map (place STD_ALPHABET) ?m = sextets bs" using sextets_small alphabets(1,2) by (auto simp: place_nth intro!: map_idI)
  ultimately show ?thesis by (simp add: tryDecodeStdBase64_def from_sextets_sextets Let_def)
qed

lemma base64_plain: "c \<in> set (to_base64 bs) \<Longrightarrow> \<not> is_space c \<and> c \<noteq> CHR '':''"
  using base64_chars(1) alphabets(5) by (auto simp: to_base64_def is_space_def)

lemma hex_digits: "n < 16 \<Longrightarrow> digit_value 16 (HEX ! n) = Some n"
proof -
  have "list_all (\<lambda>n. digit_value 16 (HEX ! n) = Some n) [0..<16]" by code_simp
  then show "n < 16 \<Longrightarrow> ?thesis" by (simp only: list_all_iff) simp
qed

lemma hex_reads_back: "from_hex (to_hex bs) = bs \<and> length (to_hex bs) = 2 * length bs \<and> list_all hex_digit (to_hex bs)"
proof (induction bs)
  case (Cons b bs)
  have "unat b div 16 < 16" "unat b mod 16 < 16" using byte_parts(3) [of b] by auto
  then have "digit_value 16 (HEX ! (unat b div 16)) = Some (unat b div 16)" "digit_value 16 (HEX ! (unat b mod 16)) = Some (unat b mod 16)"
    by (simp_all add: hex_digits)
  then show ?case using Cons by (simp add: to_hex_def hex_digit_def del: of_nat_add of_nat_mult)
qed (simp add: to_hex_def)

lemma hex_no_space: "hex_digit c \<Longrightarrow> \<not> is_space c"
  by (auto simp: hex_digit_def digit_value_def is_space_def Let_def split: if_splits)

lemma digit_no_space: "is_digit c \<Longrightarrow> \<not> is_space c \<and> c \<noteq> CHR ''-'' \<and> c \<noteq> CHR ''/''"
  by (auto simp: is_digit_def is_space_def Let_def)

lemma digits_of_plain: "c \<in> set (digits_of n) \<Longrightarrow> \<not> is_space c \<and> c \<noteq> CHR ''-'' \<and> c \<noteq> CHR ''/''"
  using digits_of_digits [of n] digit_no_space by (auto simp: list_all_iff)

lemma int_reads_back: "parse_int (show_int n) = Some n" "c \<in> set (show_int n) \<Longrightarrow> \<not> is_space c" "show_int n \<noteq> []"
proof -
  obtain d ds where d: "digits_of (nat n) = d # ds" using digits_of_digits [of "nat n"] by (cases "digits_of (nat n)") auto
  then have "d \<noteq> CHR ''-''" using digits_of_plain [of d "nat n"] by simp
  then show "parse_int (show_int n) = Some n" using d numeral_of_digits [of "nat n"] numeral_of_digits [of "nat (- n)"]
    by (auto simp: parse_int_def show_int_def)
  show "c \<in> set (show_int n) \<Longrightarrow> \<not> is_space c" using digits_of_plain by (auto simp: show_int_def is_space_def split: if_splits)
  show "show_int n \<noteq> []" using digits_of_digits by (simp add: show_int_def)
qed

lemma uint_reads_back: "int n \<le> MAX_SAFE \<Longrightarrow> parseUintStrict (digits_of n) = Some n"
  by (simp add: parseUintStrict_def numeral_of_digits)

lemma space_fields_join:
  assumes "\<forall>w \<in> set ws. w \<noteq> [] \<and> (\<forall>c \<in> set w. \<not> is_space c)"
  shows "space_fields ('' '' @ join_with '' '' ws) = ws" "space_fields (join_with '' '' ws) = ws"
proof -
  let ?f = "\<lambda>c. if is_space c then CHR '' '' else c"
  have sp: "is_space (CHR '' '')" by (simp add: is_space_def)
  have j: "map ?f (join_with '' '' vs) = join_with '' '' vs" if "\<forall>w \<in> set vs. \<forall>c \<in> set w. \<not> is_space c" for vs
    using that by (induction vs rule: induct_list012) (auto simp: sp intro!: map_idI)
  have "split_on (CHR '' '') (join_with '' '' ws) = ws" if "ws \<noteq> []"
    using that assms sp by (intro split_on_join) auto
  then have "filter (\<lambda>w. w \<noteq> []) (split_on (CHR '' '') (join_with '' '' ws)) = ws"
    using assms by (cases "ws = []") (auto intro: filter_True)
  then show "space_fields (join_with '' '' ws) = ws" "space_fields ('' '' @ join_with '' '' ws) = ws"
    using assms j [of ws] by (simp_all add: space_fields_def sp)
qed

section \<open>A chunk's line is read back\<close>

definition sendable :: "wire_chunk \<Rightarrow> bool" where
  "sendable c \<longleftrightarrow> length (wc_msgid c) = 8 \<and> length (wc_nonce c) = 24 \<and> 1 \<le> wc_part c \<and> wc_part c \<le> wc_total c \<and> wc_total c \<le> 16 \<and>
     \<bar>wc_ts c\<bar> \<le> MAX_SAFE"

lemma index_of_sep: "c \<notin> set s \<Longrightarrow> index_of c (s @ c # t) = Some (length s)"
  by (rule index_of_append_notin)

lemma starts_with_append [simp]: "starts_with (p @ s) p"
  by (simp add: starts_with_def)

lemma encode_parse:
  assumes "sendable c"
  shows "\<exists>line. encodeChunk c = Inr line \<and> parseChunk line = Inr (Some c)"
proof -
  let ?pt = "digits_of (wc_part c) @ ''/'' @ digits_of (wc_total c)"
  let ?body = "to_base64 (wc_nonce c) @ '':'' @ to_base64 (wc_ciphertext c)"
  let ?ws = "[to_hex (wc_msgid c), show_int (wc_ts c), ?pt, ?body]"
  let ?line = "WIRE_PREFIX @ '' '' @ join_with '' '' ?ws"
  note s = assms [unfolded sendable_def]
  have enc: "encodeChunk c = Inr ?line" using s by (simp add: encodeChunk_def MSGID_LEN_def NONCE_LEN_def MAX_CHUNKS_def)
  have hex: "from_hex (to_hex (wc_msgid c)) = wc_msgid c" "length (to_hex (wc_msgid c)) = 16" "list_all hex_digit (to_hex (wc_msgid c))"
    using hex_reads_back [of "wc_msgid c"] s by simp_all
  have ne: "to_hex (wc_msgid c) \<noteq> []" "?pt \<noteq> []" "?body \<noteq> []" using hex(2) by auto
  have "\<forall>w \<in> set ?ws. w \<noteq> [] \<and> (\<forall>ch \<in> set w. \<not> is_space ch)"
  proof -
    have "\<not> is_space ch" if "ch \<in> set (to_hex (wc_msgid c))" for ch using that hex(3) hex_no_space by (auto simp: list_all_iff)
    moreover have "\<not> is_space ch" if "ch \<in> set ?pt" for ch using that digits_of_plain by (auto simp: is_space_def)
    moreover have "\<not> is_space ch" if "ch \<in> set ?body" for ch using that base64_plain by (auto simp: is_space_def)
    ultimately show ?thesis using int_reads_back ne by simp
  qed
  then have f: "space_fields ('' '' @ join_with '' '' ?ws) = ?ws" by (rule space_fields_join)
  have slash: "index_of (CHR ''/'') ?pt = Some (length (digits_of (wc_part c)))"
    using index_of_sep [of "CHR ''/''" "digits_of (wc_part c)"] digits_of_plain by fastforce
  have colon: "index_of (CHR '':'') ?body = Some (length (to_base64 (wc_nonce c)))"
    using index_of_sep [of "CHR '':''" "to_base64 (wc_nonce c)"] base64_plain by fastforce
  have body: "parse_body (wc_msgid c) (wc_ts c) (wc_part c) (wc_total c) ?body = Inr (Some c)"
    unfolding parse_body_def colon using s by (simp add: base64_reads_back NONCE_LEN_def)
  have safe: "int (wc_part c) \<le> MAX_SAFE" "int (wc_total c) \<le> MAX_SAFE" using s by (simp_all add: MAX_SAFE_def)
  have "parse_parts (wc_msgid c) (wc_ts c) ?pt ?body = Inr (Some c)"
    unfolding parse_parts_def slash using s body safe by (simp add: uint_reads_back MAX_CHUNKS_def)
  then have "parseChunk ?line = Inr (Some c)"
    unfolding parseChunk_def using f s hex by (simp add: int_reads_back(1) MSGID_LEN_def)
  with enc show ?thesis by blast
qed

text \<open>C30: A chunk with a part among its parts and lengths as the format has them is written as a line, and the line reads
  as that chunk; any other is refused.\<close>

theorem chunk_line_reads_back:
  assumes "\<bar>wc_ts c\<bar> \<le> MAX_SAFE"
  shows "if length (wc_msgid c) = 8 \<and> length (wc_nonce c) = 24 \<and> 1 \<le> wc_part c \<and> wc_part c \<le> wc_total c \<and> wc_total c \<le> 16
    then \<exists>line. encodeChunk c = Inr line \<and> parseChunk line = Inr (Some c)
    else \<exists>err. encodeChunk c = Inl err"
proof (cases "sendable c")
  case True
  then show ?thesis using encode_parse by (simp add: sendable_def)
next
  case False
  then show ?thesis using assms by (auto simp: sendable_def encodeChunk_def MSGID_LEN_def NONCE_LEN_def MAX_CHUNKS_def)
qed

lemma chunk_line_reads_back_witness:
  "\<exists>line. encodeChunk \<lparr>wc_msgid = replicate 8 0xAB, wc_ts = - 5, wc_part = 2, wc_total = 3, wc_nonce = replicate 24 0,
      wc_ciphertext = [1, 2]\<rparr> = Inr line \<and>
    parseChunk line = Inr (Some \<lparr>wc_msgid = replicate 8 0xAB, wc_ts = - 5, wc_part = 2, wc_total = 3, wc_nonce = replicate 24 0,
      wc_ciphertext = [1, 2]\<rparr>)"
  using chunk_line_reads_back [of "\<lparr>wc_msgid = replicate 8 0xAB, wc_ts = - 5, wc_part = 2, wc_total = 3, wc_nonce = replicate 24 0,
      wc_ciphertext = [1, 2]\<rparr>"] by (simp add: MAX_SAFE_def del: replicate.simps)

section \<open>The associated data binds every field\<close>

lemma be64_inj: "be64 v = be64 w \<Longrightarrow> v = w"
proof (rule bit_word_eqI)
  fix n assume e: "be64 v = be64 w" and n: "n < LENGTH(64)"
  have b: "bit (ucast (drop_bit (8 * (n div 8)) u) :: 8 word) (n mod 8) = bit u n" for u :: "64 word"
    using n by (simp add: bit_ucast_iff bit_drop_bit_eq)
  have "n div 8 \<in> set [7, 6, 5, 4, 3, 2, 1, 0]" using n by auto
  moreover have "\<forall>i \<in> set [7, 6, 5, 4, 3, 2, 1, 0]. (ucast (drop_bit (8 * i) v) :: 8 word) = ucast (drop_bit (8 * i) w)"
    using e by (simp add: be64_def)
  ultimately show "bit v n = bit w n" using b [of v] b [of w] by metis
qed

lemma safe_word_inj: "\<bar>s\<bar> \<le> MAX_SAFE \<Longrightarrow> \<bar>t\<bar> \<le> MAX_SAFE \<Longrightarrow> word_of_int s = (word_of_int t :: 64 word) \<Longrightarrow> s = t"
proof -
  assume s: "\<bar>s\<bar> \<le> MAX_SAFE" "\<bar>t\<bar> \<le> MAX_SAFE" and e: "word_of_int s = (word_of_int t :: 64 word)"
  have "sint (word_of_int u :: 64 word) = u" if "\<bar>u\<bar> \<le> MAX_SAFE" for u
    using that signed_take_bit_int_eq_self [of 63 u] by (simp add: signed_of_int MAX_SAFE_def)
  with s e show "s = t" by metis
qed

lemma utf8_text_inj: "utf8_text s = utf8_text t \<Longrightarrow> s = t"
proof -
  assume e: "utf8_text s = utf8_text t"
  have "utf8_decode (utf8_text u) = Some (map of_char u)" for u
    unfolding utf8_text_def
  proof (rule utf8_reads_back, rule ballI)
    fix c :: nat assume "c \<in> set (map of_char u)"
    then obtain ch :: char where "c = of_char ch" by auto
    then have "c < 256" using of_char_lt_256 [of ch] by (simp only:)
    then show "valid_scalar c" by (simp add: valid_scalar_def)
  qed
  then have "map (of_char :: char \<Rightarrow> nat) s = map of_char t" using e by (metis option.inject)
  moreover have "inj (of_char :: char \<Rightarrow> nat)" by (simp add: inj_on_def of_char_eq_iff)
  ultimately show "s = t" by (rule map_injective)
qed

text \<open>C31: Whatever names, ids, times and numbers two chunks have, they are bound to the same bytes only when all of these are
  the same: no part of one chunk can be read as another's.\<close>

theorem aad_binds_every_field:
  assumes "buildAad channel msgid ts part tot = Inr aad" "buildAad channel' msgid' ts' part' tot' = Inr aad"
  shows "channel = channel' \<and> msgid = msgid' \<and> ts = ts' \<and> part = part' \<and> tot = tot'"
proof -
  have aad: "aad = utf8_text PROTO @ be16 (min (length (utf8_text ch)) 0xFFFF) @ utf8_text ch @ be16 8 @ m @ be16 8 @ be64 (word_of_int s) @
      be16 1 @ [word_of_nat p] @ be16 1 @ [word_of_nat n]" "length m = 8" "\<bar>s\<bar> \<le> MAX_SAFE" "p < 256" "n < 256"
    if "buildAad ch m s p n = Inr aad" for ch m s p n
    using that by (auto simp: buildAad_def MSGID_LEN_def Let_def split: if_splits)
  note a = aad [OF assms(1)] and b = aad [OF assms(2)]
  have len: "length (be64 w) = 8" "length (be16 k) = 2" for w k by (simp_all add: be64_def be16_def)
  have "length (utf8_text channel) = length (utf8_text channel')" using arg_cong [OF a(1) [unfolded b(1)], of length] a(2) b(2) by (simp add: len)
  then have "utf8_text channel = utf8_text channel' \<and> msgid = msgid' \<and> be64 (word_of_int ts) = be64 (word_of_int ts') \<and>
    (word_of_nat part :: 8 word) = word_of_nat part' \<and> (word_of_nat tot :: 8 word) = word_of_nat tot'"
    using a(1) [unfolded b(1)] a(2) b(2) by (simp add: len)
  then show ?thesis
    using utf8_text_inj be64_inj safe_word_inj [OF a(3) b(3)] byte_unat [OF a(4)] byte_unat [OF b(4)] byte_unat [OF a(5)] byte_unat [OF b(5)]
    by metis
qed

lemma aad_binds_every_field_witness:
  "\<exists>aad. buildAad ''#a'' (replicate 8 1) 7 1 2 = Inr aad \<and> buildAad ''#a'' (replicate 8 1) 7 2 2 \<noteq> Inr aad"
proof -
  obtain aad where a: "buildAad ''#a'' (replicate 8 1) 7 1 2 = Inr aad" by (simp add: buildAad_def MSGID_LEN_def MAX_SAFE_def Let_def)
  then show ?thesis using aad_binds_every_field [OF a, of "''#a''" "replicate 8 1" 7 2 2] by auto
qed

end
