(* ===== verification/E2e_Keyring.thy ===== *)
theory E2e_Keyring imports E2e_Wire Ignore_Rules begin

text \<open>
  \<open>db/e2e.ts\<close>: the tables the encryption of one account on one network is kept in.  A table is the list of its rows in
  the order they were inserted, for this account and network; a statement is a function on the keyring.  A key at rest is
  \<open>Some\<close> of it, \<open>None\<close> when its envelope can't be opened (the server's secret has changed).
\<close>

datatype trust_status = Pending | Trusted | Revoked

datatype channel_mode = AutoAccept | Normal | Quiet

record identity_row =
  id_pubkey :: bytes
  id_privkey :: "bytes option"
  id_fingerprint :: bytes
  id_createdAt :: int

record peer_record =
  pr_fingerprint :: bytes
  pr_pubkey :: bytes
  pr_lastHandle :: "string option"
  pr_lastNick :: "string option"
  pr_firstSeen :: int
  pr_lastSeen :: int
  pr_globalStatus :: trust_status

record incoming_row =
  in_handle :: string
  in_channel :: string
  in_fingerprint :: bytes
  in_sk :: "bytes option"
  in_status :: trust_status
  in_createdAt :: int

record outgoing_row =
  og_channel :: string
  og_sk :: "bytes option"
  og_createdAt :: int
  og_pendingRotation :: bool

record channel_config =
  cf_channel :: string
  cf_enabled :: bool
  cf_mode :: channel_mode

record recipient_row =
  rp_channel :: string
  rp_handle :: string
  rp_fingerprint :: bytes
  rp_firstSentAt :: int

record keyring =
  kg_identity :: "identity_row option"
  kg_peers :: "peer_record list"
  kg_incoming :: "incoming_row list"
  kg_outgoing :: "outgoing_row list"
  kg_configs :: "channel_config list"
  kg_autotrust :: "(string \<times> string) list"
  kg_recipients :: "recipient_row list"

definition new_keyring :: keyring where
  "new_keyring = \<lparr>kg_identity = None, kg_peers = [], kg_incoming = [], kg_outgoing = [], kg_configs = [], kg_autotrust = [],
     kg_recipients = []\<rparr>"

section \<open>SQL\<close>

text \<open>\<open>COLLATE NOCASE\<close> folds ASCII letters.\<close>

definition ascii_lower :: "char \<Rightarrow> char" where
  "ascii_lower c = (let n = (of_char c :: nat) in if 65 \<le> n \<and> n \<le> 90 then char_of (n + 32) else c)"

definition nocase :: "string \<Rightarrow> string \<Rightarrow> bool" where
  "nocase s t \<longleftrightarrow> map ascii_lower s = map ascii_lower t"

lemma nocase_refl [simp]: "nocase s s"
  by (simp add: nocase_def)

lemma nocase_sym: "nocase s t \<Longrightarrow> nocase t s"
  by (simp add: nocase_def)

lemma nocase_trans: "nocase s t \<Longrightarrow> nocase t u \<Longrightarrow> nocase s u"
  by (simp add: nocase_def)

lemma nocase_cong: "nocase s t \<Longrightarrow> nocase u s \<longleftrightarrow> nocase u t"
  by (auto simp: nocase_def)

text \<open>\<open>INSERT \<dots> ON CONFLICT DO UPDATE\<close>, \<open>UPDATE \<dots> WHERE\<close>, \<open>DELETE \<dots> WHERE\<close>.\<close>

definition upsert_rows :: "('r \<Rightarrow> bool) \<Rightarrow> ('r \<Rightarrow> 'r) \<Rightarrow> 'r \<Rightarrow> 'r list \<Rightarrow> 'r list" where
  "upsert_rows hit upd new rows = (if \<exists>r \<in> set rows. hit r then map (\<lambda>r. if hit r then upd r else r) rows else rows @ [new])"

definition update_rows :: "('r \<Rightarrow> bool) \<Rightarrow> ('r \<Rightarrow> 'r) \<Rightarrow> 'r list \<Rightarrow> 'r list" where
  "update_rows hit upd rows = map (\<lambda>r. if hit r then upd r else r) rows"

definition delete_rows :: "('r \<Rightarrow> bool) \<Rightarrow> 'r list \<Rightarrow> 'r list" where
  "delete_rows hit rows = filter (\<lambda>r. \<not> hit r) rows"

section \<open>Keys at rest\<close>

definition KEY_LEN :: nat where
  "KEY_LEN = 32"

definition sealKey :: "bytes \<Rightarrow> e2e_error + bytes option" where
  "sealKey key = (if length key \<noteq> KEY_LEN then Inl (KeyringError ''key must be 32 bytes'') else Inr (Some key))"

definition openKey :: "bytes option \<Rightarrow> e2e_error + bytes" where
  "openKey stored =
     (case stored of
        None \<Rightarrow> Inl (KeyringError ''failed to unseal key'')
      | Some k \<Rightarrow> if length k \<noteq> KEY_LEN then Inl (KeyringError ''sealed key wrong length'') else Inr k)"

section \<open>Identity and peers\<close>

definition saveIdentity :: "bytes \<Rightarrow> bytes \<Rightarrow> bytes \<Rightarrow> int \<Rightarrow> keyring \<Rightarrow> e2e_error + keyring" where
  "saveIdentity pubkey privkey fp createdAt k =
     (case sealKey privkey of
        Inl e \<Rightarrow> Inl e
      | Inr s \<Rightarrow> Inr (k\<lparr>kg_identity := Some \<lparr>id_pubkey = pubkey, id_privkey = s, id_fingerprint = fp, id_createdAt = createdAt\<rparr>\<rparr>))"

definition upsertPeer :: "peer_record \<Rightarrow> keyring \<Rightarrow> keyring" where
  "upsertPeer p k = k\<lparr>kg_peers := upsert_rows (\<lambda>r. pr_fingerprint r = pr_fingerprint p)
     (\<lambda>r. r\<lparr>pr_lastHandle := pr_lastHandle p, pr_lastNick := pr_lastNick p, pr_lastSeen := pr_lastSeen p\<rparr>) p (kg_peers k)\<rparr>"

definition setPeerStatus :: "bytes \<Rightarrow> trust_status \<Rightarrow> keyring \<Rightarrow> keyring" where
  "setPeerStatus fp st k = k\<lparr>kg_peers := update_rows (\<lambda>r. pr_fingerprint r = fp) (\<lambda>r. r\<lparr>pr_globalStatus := st\<rparr>) (kg_peers k)\<rparr>"

definition getPeerByFingerprint :: "bytes \<Rightarrow> keyring \<Rightarrow> peer_record option" where
  "getPeerByFingerprint fp k = find (\<lambda>r. pr_fingerprint r = fp) (kg_peers k)"

definition handle_is :: "string \<Rightarrow> peer_record \<Rightarrow> bool" where
  "handle_is handle r \<longleftrightarrow> (case pr_lastHandle r of None \<Rightarrow> False | Some h \<Rightarrow> nocase h handle)"

text \<open>\<open>ORDER BY last_seen DESC LIMIT 1\<close>; of rows seen at the same time, the first.\<close>

fun latest :: "peer_record list \<Rightarrow> peer_record option" where
  "latest [] = None"
| "latest (r # rs) = (case latest rs of None \<Rightarrow> Some r | Some q \<Rightarrow> if pr_lastSeen r < pr_lastSeen q then Some q else Some r)"

definition getPeerByHandle :: "string \<Rightarrow> keyring \<Rightarrow> peer_record option" where
  "getPeerByHandle handle k = latest (filter (handle_is handle) (kg_peers k))"

definition deletePeerByFingerprint :: "bytes \<Rightarrow> keyring \<Rightarrow> keyring" where
  "deletePeerByFingerprint fp k = k\<lparr>kg_peers := delete_rows (\<lambda>r. pr_fingerprint r = fp) (kg_peers k)\<rparr>"

section \<open>Incoming sessions\<close>

definition session_is :: "string \<Rightarrow> string \<Rightarrow> incoming_row \<Rightarrow> bool" where
  "session_is handle channel r \<longleftrightarrow> nocase (in_handle r) handle \<and> nocase (in_channel r) channel"

definition session_row :: "string \<Rightarrow> string \<Rightarrow> keyring \<Rightarrow> incoming_row option" where
  "session_row handle channel k = find (session_is handle channel) (kg_incoming k)"

definition setIncomingSession :: "string \<Rightarrow> string \<Rightarrow> bytes \<Rightarrow> bytes \<Rightarrow> trust_status \<Rightarrow> int \<Rightarrow> keyring \<Rightarrow> e2e_error + keyring" where
  "setIncomingSession handle channel fp sk st createdAt k =
     (case sealKey sk of
        Inl e \<Rightarrow> Inl e
      | Inr s \<Rightarrow>
          Inr (k\<lparr>kg_incoming := upsert_rows (session_is handle channel)
             (\<lambda>r. r\<lparr>in_fingerprint := fp, in_sk := s, in_status := st, in_createdAt := createdAt\<rparr>)
             \<lparr>in_handle = handle, in_channel = channel, in_fingerprint = fp, in_sk = s, in_status = st, in_createdAt = createdAt\<rparr>
             (kg_incoming k)\<rparr>))"

definition HandleMismatchError :: e2e_error where
  "HandleMismatchError = KeyringError ''fingerprint changed for this handle+channel''"

definition installIncomingSessionStrict :: "string \<Rightarrow> string \<Rightarrow> bytes \<Rightarrow> bytes \<Rightarrow> trust_status \<Rightarrow> int \<Rightarrow> keyring \<Rightarrow> e2e_error + keyring" where
  "installIncomingSessionStrict handle channel fp sk st createdAt k =
     (case session_row handle channel k of
        Some row \<Rightarrow>
          if in_fingerprint row \<noteq> fp then Inl HandleMismatchError
          else (case sealKey sk of
                  Inl e \<Rightarrow> Inl e
                | Inr s \<Rightarrow> Inr (k\<lparr>kg_incoming := update_rows (session_is handle channel) (\<lambda>r. r\<lparr>in_sk := s\<rparr>) (kg_incoming k)\<rparr>))
      | None \<Rightarrow> setIncomingSession handle channel fp sk st createdAt k)"

definition getIncomingSession :: "string \<Rightarrow> string \<Rightarrow> keyring \<Rightarrow> e2e_error + (bytes \<times> incoming_row) option" where
  "getIncomingSession handle channel k =
     (case session_row handle channel k of
        None \<Rightarrow> Inr None
      | Some r \<Rightarrow> (case openKey (in_sk r) of Inl e \<Rightarrow> Inl e | Inr sk \<Rightarrow> Inr (Some (sk, r))))"

definition updateIncomingStatus :: "string \<Rightarrow> string \<Rightarrow> trust_status \<Rightarrow> keyring \<Rightarrow> keyring" where
  "updateIncomingStatus handle channel st k =
     k\<lparr>kg_incoming := update_rows (session_is handle channel) (\<lambda>r. r\<lparr>in_status := st\<rparr>) (kg_incoming k)\<rparr>"

definition deleteIncomingSession :: "string \<Rightarrow> string \<Rightarrow> keyring \<Rightarrow> keyring" where
  "deleteIncomingSession handle channel k = k\<lparr>kg_incoming := delete_rows (session_is handle channel) (kg_incoming k)\<rparr>"

text \<open>The statements on all sessions of a handle; the number is of the rows they changed.\<close>

definition deleteIncomingSessionsForHandle :: "string \<Rightarrow> keyring \<Rightarrow> nat \<times> keyring" where
  "deleteIncomingSessionsForHandle handle k =
     (length (filter (\<lambda>r. nocase (in_handle r) handle) (kg_incoming k)),
      k\<lparr>kg_incoming := delete_rows (\<lambda>r. nocase (in_handle r) handle) (kg_incoming k)\<rparr>)"

definition revokeIncomingSessionsForHandle :: "string \<Rightarrow> keyring \<Rightarrow> nat \<times> keyring" where
  "revokeIncomingSessionsForHandle handle k =
     (length (filter (\<lambda>r. nocase (in_handle r) handle) (kg_incoming k)),
      k\<lparr>kg_incoming := update_rows (\<lambda>r. nocase (in_handle r) handle) (\<lambda>r. r\<lparr>in_status := Revoked\<rparr>) (kg_incoming k)\<rparr>)"

definition listIncomingChannelsForHandle :: "string \<Rightarrow> keyring \<Rightarrow> string list" where
  "listIncomingChannelsForHandle handle k = map in_channel (filter (\<lambda>r. nocase (in_handle r) handle) (kg_incoming k))"

definition listOutgoingChannelsForHandle :: "string \<Rightarrow> keyring \<Rightarrow> string list" where
  "listOutgoingChannelsForHandle handle k = map rp_channel (filter (\<lambda>r. nocase (rp_handle r) handle) (kg_recipients k))"

section \<open>Outgoing sessions, recipients, configuration\<close>

definition outgoing_of :: "string \<Rightarrow> keyring \<Rightarrow> outgoing_row option" where
  "outgoing_of channel k = find (\<lambda>r. nocase (og_channel r) channel) (kg_outgoing k)"

definition setOutgoingSession :: "string \<Rightarrow> bytes \<Rightarrow> int \<Rightarrow> keyring \<Rightarrow> e2e_error + keyring" where
  "setOutgoingSession channel sk createdAt k =
     (case sealKey sk of
        Inl e \<Rightarrow> Inl e
      | Inr s \<Rightarrow>
          Inr (k\<lparr>kg_outgoing := upsert_rows (\<lambda>r. nocase (og_channel r) channel)
             (\<lambda>r. r\<lparr>og_sk := s, og_createdAt := createdAt, og_pendingRotation := False\<rparr>)
             \<lparr>og_channel = channel, og_sk = s, og_createdAt = createdAt, og_pendingRotation = False\<rparr> (kg_outgoing k)\<rparr>))"

definition getOutgoingSession :: "string \<Rightarrow> keyring \<Rightarrow> e2e_error + (bytes \<times> outgoing_row) option" where
  "getOutgoingSession channel k =
     (case outgoing_of channel k of
        None \<Rightarrow> Inr None
      | Some r \<Rightarrow> (case openKey (og_sk r) of Inl e \<Rightarrow> Inl e | Inr sk \<Rightarrow> Inr (Some (sk, r))))"

definition markOutgoingPendingRotation :: "string \<Rightarrow> keyring \<Rightarrow> keyring" where
  "markOutgoingPendingRotation channel k =
     k\<lparr>kg_outgoing := update_rows (\<lambda>r. nocase (og_channel r) channel) (\<lambda>r. r\<lparr>og_pendingRotation := True\<rparr>) (kg_outgoing k)\<rparr>"

definition setChannelConfig_row :: "channel_config \<Rightarrow> keyring \<Rightarrow> keyring" where
  "setChannelConfig_row cfg k =
     k\<lparr>kg_configs := upsert_rows (\<lambda>r. nocase (cf_channel r) (cf_channel cfg)) (\<lambda>r. r\<lparr>cf_enabled := cf_enabled cfg, cf_mode := cf_mode cfg\<rparr>)
        cfg (kg_configs k)\<rparr>"

definition getChannelConfig :: "string \<Rightarrow> keyring \<Rightarrow> channel_config option" where
  "getChannelConfig channel k = find (\<lambda>r. nocase (cf_channel r) channel) (kg_configs k)"

definition addAutotrust_row :: "string \<Rightarrow> string \<Rightarrow> keyring \<Rightarrow> keyring" where
  "addAutotrust_row scope pat k =
     (if \<exists>(s, p) \<in> set (kg_autotrust k). nocase s scope \<and> p = pat then k else k\<lparr>kg_autotrust := kg_autotrust k @ [(scope, pat)]\<rparr>)"

definition removeAutotrust_row :: "string \<Rightarrow> string \<Rightarrow> keyring \<Rightarrow> keyring" where
  "removeAutotrust_row scope pat k = k\<lparr>kg_autotrust := delete_rows (\<lambda>(s, p). nocase s scope \<and> p = pat) (kg_autotrust k)\<rparr>"

definition globMatchCi :: "string \<Rightarrow> string \<Rightarrow> bool" where
  "globMatchCi pat input \<longleftrightarrow> [] \<in> set (glob_rests (\<lambda>a b. lower_char a = lower_char b) pat input)"

definition autotrustMatches :: "string \<Rightarrow> string \<Rightarrow> keyring \<Rightarrow> bool" where
  "autotrustMatches handle channel k =
     list_ex (\<lambda>(s, p). (nocase s ''global'' \<or> nocase s channel) \<and> globMatchCi p handle) (kg_autotrust k)"

definition recipient_is :: "string \<Rightarrow> string \<Rightarrow> recipient_row \<Rightarrow> bool" where
  "recipient_is channel handle r \<longleftrightarrow> nocase (rp_channel r) channel \<and> nocase (rp_handle r) handle"

definition recordOutgoingRecipient :: "string \<Rightarrow> string \<Rightarrow> bytes \<Rightarrow> int \<Rightarrow> keyring \<Rightarrow> keyring" where
  "recordOutgoingRecipient channel handle fp firstSentAt k =
     k\<lparr>kg_recipients := upsert_rows (recipient_is channel handle) (\<lambda>r. r\<lparr>rp_fingerprint := fp\<rparr>)
        \<lparr>rp_channel = channel, rp_handle = handle, rp_fingerprint = fp, rp_firstSentAt = firstSentAt\<rparr> (kg_recipients k)\<rparr>"

definition listOutgoingRecipients :: "string \<Rightarrow> keyring \<Rightarrow> recipient_row list" where
  "listOutgoingRecipients channel k = sort_key rp_firstSentAt (filter (\<lambda>r. nocase (rp_channel r) channel) (kg_recipients k))"

definition removeOutgoingRecipient :: "string \<Rightarrow> string \<Rightarrow> keyring \<Rightarrow> keyring" where
  "removeOutgoingRecipient channel handle k = k\<lparr>kg_recipients := delete_rows (recipient_is channel handle) (kg_recipients k)\<rparr>"

definition deleteOutgoingRecipientsForHandle :: "string \<Rightarrow> keyring \<Rightarrow> nat \<times> keyring" where
  "deleteOutgoingRecipientsForHandle handle k =
     (length (filter (\<lambda>r. nocase (rp_handle r) handle) (kg_recipients k)),
      k\<lparr>kg_recipients := delete_rows (\<lambda>r. nocase (rp_handle r) handle) (kg_recipients k)\<rparr>)"

end
