(* ===== verification/E2e_Handshake.thy ===== *)
theory E2e_Handshake imports E2e_Wire begin

text \<open>
  \<open>handshake.ts\<close> of \<open>server/services/e2e/\<close>: the three messages two peers exchange keys with, the lines that carry them, and
  the bytes their signatures cover.  A \<open>REKEY\<close> has the fields of a \<open>KEYRSP\<close>.
\<close>

definition CTCP_TAG :: string where
  "CTCP_TAG = ''RPEE2E''"

definition PROTO_VERSION :: nat where
  "PROTO_VERSION = 1"

record key_req =
  kq_channel :: string
  kq_pubkey :: bytes
  kq_ephX25519 :: bytes
  kq_nonce :: bytes
  kq_sig :: bytes

record key_rsp =
  kr_channel :: string
  kr_pubkey :: bytes
  kr_ephemeralPub :: bytes
  kr_wrapNonce :: bytes
  kr_wrapCt :: bytes
  kr_nonce :: bytes
  kr_sig :: bytes

type_synonym key_rekey = key_rsp

datatype handshake_msg = KEYREQ key_req | KEYRSP key_rsp | REKEY key_rekey

section \<open>What is signed\<close>

definition buildSigPayload :: "string \<Rightarrow> string \<Rightarrow> bytes list \<Rightarrow> bytes" where
  "buildSigPayload label channel parts = utf8_text (label @ '':'') @ utf8_text channel @ concat (map (\<lambda>p. 0x3A # p) parts)"

definition sigPayloadKeyReq :: "string \<Rightarrow> bytes \<Rightarrow> bytes \<Rightarrow> bytes \<Rightarrow> bytes" where
  "sigPayloadKeyReq channel pubkey ephX25519 nonce = buildSigPayload ''KEYREQ'' channel [pubkey, ephX25519, nonce]"

definition sigPayloadKeyRsp :: "string \<Rightarrow> bytes \<Rightarrow> bytes \<Rightarrow> bytes \<Rightarrow> bytes \<Rightarrow> bytes \<Rightarrow> bytes" where
  "sigPayloadKeyRsp channel pubkey ephPub wrapNonce wrapCt nonce =
     buildSigPayload ''KEYRSP'' channel [pubkey, ephPub, wrapNonce, wrapCt, nonce]"

definition sigPayloadKeyRekey :: "string \<Rightarrow> bytes \<Rightarrow> bytes \<Rightarrow> bytes \<Rightarrow> bytes \<Rightarrow> bytes \<Rightarrow> bytes" where
  "sigPayloadKeyRekey channel pubkey ephPub wrapNonce wrapCt nonce =
     buildSigPayload ''REKEY'' channel [pubkey, ephPub, wrapNonce, wrapCt, nonce]"

section \<open>Steps that may fail\<close>

fun attempt :: "'e + 'a \<Rightarrow> ('a \<Rightarrow> 'e + 'b) \<Rightarrow> 'e + 'b" where
  "attempt (Inl e) f = Inl e"
| "attempt (Inr x) f = f x"

lemma attempt_Inr_iff: "attempt r f = Inr y \<longleftrightarrow> (\<exists>x. r = Inr x \<and> f x = Inr y)"
  by (cases r) auto

section \<open>Writing a message\<close>

text \<open>\<open>assertLen\<close>, of several fields in order.\<close>

fun assertLen :: "(bytes \<times> nat \<times> string) list \<Rightarrow> e2e_error + unit" where
  "assertLen [] = Inr ()"
| "assertLen ((bs, n, label) # rest) = (if length bs \<noteq> n then Inl (HandshakeError label) else assertLen rest)"

definition field_text :: "string \<Rightarrow> string \<Rightarrow> string" where
  "field_text key val = key @ ''='' @ val"

definition encodeKeyReq :: "key_req \<Rightarrow> e2e_error + string" where
  "encodeKeyReq req =
     attempt (assertLen [(kq_pubkey req, 32, ''p''), (kq_ephX25519 req, 32, ''e''), (kq_nonce req, 16, ''n''), (kq_sig req, 64, ''s'')])
       (\<lambda>_. Inr (join_with '' '' [CTCP_TAG, ''KEYREQ'', field_text ''v'' (digits_of PROTO_VERSION), field_text ''c'' (kq_channel req),
          field_text ''p'' (to_base64url (kq_pubkey req)), field_text ''e'' (to_base64url (kq_ephX25519 req)),
          field_text ''n'' (to_base64url (kq_nonce req)), field_text ''s'' (to_base64url (kq_sig req))]))"

definition encode_wrapped :: "string \<Rightarrow> key_rsp \<Rightarrow> e2e_error + string" where
  "encode_wrapped label rsp =
     attempt (assertLen [(kr_pubkey rsp, 32, ''p''), (kr_ephemeralPub rsp, 32, ''e''), (kr_wrapNonce rsp, NONCE_LEN, ''wn''),
         (kr_nonce rsp, 16, ''n''), (kr_sig rsp, 64, ''s'')])
       (\<lambda>_. Inr (join_with '' '' [CTCP_TAG, label, field_text ''v'' (digits_of PROTO_VERSION), field_text ''c'' (kr_channel rsp),
          field_text ''p'' (to_base64url (kr_pubkey rsp)), field_text ''e'' (to_base64url (kr_ephemeralPub rsp)),
          field_text ''wn'' (to_base64url (kr_wrapNonce rsp)), field_text ''w'' (to_base64url (kr_wrapCt rsp)),
          field_text ''n'' (to_base64url (kr_nonce rsp)), field_text ''s'' (to_base64url (kr_sig rsp))]))"

definition encodeKeyRsp :: "key_rsp \<Rightarrow> e2e_error + string" where
  "encodeKeyRsp = encode_wrapped ''KEYRSP''"

definition encodeKeyRekey :: "key_rekey \<Rightarrow> e2e_error + string" where
  "encodeKeyRekey = encode_wrapped ''REKEY''"

section \<open>Reading a message\<close>

fun parseKv :: "string list \<Rightarrow> (string \<times> string) list \<Rightarrow> e2e_error + (string \<times> string) list" where
  "parseKv [] out = Inr out"
| "parseKv (f # fs) out =
     (case index_of (CHR ''='') f of
        None \<Rightarrow> parseKv fs out
      | Some eq \<Rightarrow>
          (if map_of out (take eq f) \<noteq> None then Inl (WireError ''duplicate key'')
           else parseKv fs (out @ [(take eq f, drop (eq + 1) f)])))"

definition get_field :: "(string \<times> string) list \<Rightarrow> string \<Rightarrow> e2e_error + string" where
  "get_field kv key = (case map_of kv key of None \<Rightarrow> Inl (HandshakeError (''missing field: '' @ key)) | Some v \<Rightarrow> Inr v)"

definition b64Decode :: "string \<Rightarrow> string \<Rightarrow> e2e_error + bytes" where
  "b64Decode s label = (case tryDecodeUrlBase64 s of None \<Rightarrow> Inl (HandshakeError label) | Some raw \<Rightarrow> Inr raw)"

definition b64Fixed :: "string \<Rightarrow> nat \<Rightarrow> string \<Rightarrow> e2e_error + bytes" where
  "b64Fixed s n label = attempt (b64Decode s label) (\<lambda>raw. if length raw \<noteq> n then Inl (HandshakeError label) else Inr raw)"

definition fixed_field :: "(string \<times> string) list \<Rightarrow> string \<Rightarrow> nat \<Rightarrow> e2e_error + bytes" where
  "fixed_field kv key n = attempt (get_field kv key) (\<lambda>s. b64Fixed s n key)"

definition read_key_req :: "(string \<times> string) list \<Rightarrow> e2e_error + key_req" where
  "read_key_req kv =
     attempt (get_field kv ''c'') (\<lambda>c. attempt (fixed_field kv ''p'' 32) (\<lambda>p. attempt (fixed_field kv ''e'' 32) (\<lambda>e.
     attempt (fixed_field kv ''n'' 16) (\<lambda>n. attempt (fixed_field kv ''s'' 64) (\<lambda>s.
       Inr \<lparr>kq_channel = c, kq_pubkey = p, kq_ephX25519 = e, kq_nonce = n, kq_sig = s\<rparr>)))))"

definition read_key_rsp :: "(string \<times> string) list \<Rightarrow> e2e_error + key_rsp" where
  "read_key_rsp kv =
     attempt (get_field kv ''c'') (\<lambda>c. attempt (fixed_field kv ''p'' 32) (\<lambda>p. attempt (fixed_field kv ''e'' 32) (\<lambda>e.
     attempt (fixed_field kv ''wn'' NONCE_LEN) (\<lambda>wn. attempt (attempt (get_field kv ''w'') (\<lambda>s. b64Decode s ''w'')) (\<lambda>w.
     attempt (fixed_field kv ''n'' 16) (\<lambda>n. attempt (fixed_field kv ''s'' 64) (\<lambda>s.
       Inr \<lparr>kr_channel = c, kr_pubkey = p, kr_ephemeralPub = e, kr_wrapNonce = wn, kr_wrapCt = w, kr_nonce = n, kr_sig = s\<rparr>)))))))"

definition check_version :: "(string \<times> string) list \<Rightarrow> e2e_error + unit" where
  "check_version kv =
     (case map_of kv ''v'' of
        None \<Rightarrow> Inl (HandshakeError ''missing v'')
      | Some vStr \<Rightarrow>
          (case parseUintStrict vStr of
             None \<Rightarrow> Inl (HandshakeError ''bad v'')
           | Some v \<Rightarrow> if v \<noteq> PROTO_VERSION then Inl (HandshakeError ''unsupported version'') else Inr ()))"

definition read_msg :: "string \<Rightarrow> (string \<times> string) list \<Rightarrow> e2e_error + handshake_msg" where
  "read_msg kind kv =
     (if kind = ''KEYREQ'' then attempt (read_key_req kv) (\<lambda>q. Inr (KEYREQ q))
      else if kind = ''KEYRSP'' then attempt (read_key_rsp kv) (\<lambda>r. Inr (KEYRSP r))
      else if kind = ''REKEY'' then attempt (read_key_rsp kv) (\<lambda>r. Inr (REKEY r))
      else Inl (HandshakeError ''unknown type''))"

definition parseHandshake :: "string \<Rightarrow> e2e_error + handshake_msg option" where
  "parseHandshake body =
     (case space_fields body of
        [] \<Rightarrow> Inr None
      | tag # rest \<Rightarrow>
          if tag \<noteq> CTCP_TAG then Inr None
          else (case rest of
                  [] \<Rightarrow> Inl (HandshakeError ''missing type'')
                | kind # fs \<Rightarrow>
                    attempt (parseKv fs []) (\<lambda>kv. attempt (check_version kv) (\<lambda>_. attempt (read_msg kind kv) (\<lambda>m. Inr (Some m))))))"

section \<open>A message is read back\<close>

fun encode_msg :: "handshake_msg \<Rightarrow> e2e_error + string" where
  "encode_msg (KEYREQ q) = encodeKeyReq q"
| "encode_msg (KEYRSP r) = encodeKeyRsp r"
| "encode_msg (REKEY r) = encodeKeyRekey r"

fun msg_channel :: "handshake_msg \<Rightarrow> string" where
  "msg_channel (KEYREQ q) = kq_channel q"
| "msg_channel (KEYRSP r) = kr_channel r"
| "msg_channel (REKEY r) = kr_channel r"

lemma url_plain: "c \<in> set (to_base64url bs) \<Longrightarrow> \<not> is_space c"
  using base64_chars(2) [of bs] by (auto simp: URL_ALPHABET_def is_space_def)

lemma field_text_props:
  "CHR ''='' \<notin> set k \<Longrightarrow> index_of (CHR ''='') (field_text k v) = Some (length k)"
  "take (length k) (field_text k v) = k" "drop (Suc (length k)) (field_text k v) = v" "field_text k v \<noteq> []"
  by (simp_all add: field_text_def index_of_sep)

lemma parseKv_field:
  "CHR ''='' \<notin> set k \<Longrightarrow> map_of out k = None \<Longrightarrow> parseKv (field_text k v # fs) out = parseKv fs (out @ [(k, v)])"
  by (simp add: field_text_props)

lemma b64_back: "length bs = n \<Longrightarrow> b64Fixed (to_base64url bs) n l = Inr bs" "b64Decode (to_base64url bs) l = Inr bs"
  by (simp_all add: b64Fixed_def b64Decode_def base64url_reads_back)

lemma version_back: "parseUintStrict (digits_of PROTO_VERSION) = Some PROTO_VERSION"
  by (rule uint_reads_back) (simp add: PROTO_VERSION_def MAX_SAFE_def)


lemma assertLen_Inr: "assertLen fs = Inr () \<longleftrightarrow> (\<forall>(bs, n, l) \<in> set fs. length bs = n)"
  by (induction fs rule: assertLen.induct) auto

lemma space_fields_line:
  "\<forall>w \<in> set ws. w \<noteq> [] \<and> (\<forall>c \<in> set w. \<not> is_space c) \<Longrightarrow> space_fields (join_with '' '' ws) = ws"
  by (rule space_fields_join)

lemma version_plain: "c \<in> set (digits_of PROTO_VERSION) \<Longrightarrow> \<not> is_space c"
  using digits_of_plain by simp

lemmas fields_back = parseHandshake_def parseKv_field check_version_def version_back read_msg_def get_field_def fixed_field_def b64_back

lemma key_req_back:
  assumes "encodeKeyReq q = Inr line" "\<forall>c \<in> set (kq_channel q). \<not> is_space c"
  shows "parseHandshake line = Inr (Some (KEYREQ q))"
proof -
  let ?ws = "[CTCP_TAG, ''KEYREQ'', field_text ''v'' (digits_of PROTO_VERSION), field_text ''c'' (kq_channel q),
        field_text ''p'' (to_base64url (kq_pubkey q)), field_text ''e'' (to_base64url (kq_ephX25519 q)),
        field_text ''n'' (to_base64url (kq_nonce q)), field_text ''s'' (to_base64url (kq_sig q))]"
  have l: "line = join_with '' '' ?ws" "length (kq_pubkey q) = 32" "length (kq_ephX25519 q) = 32" "length (kq_nonce q) = 16" "length (kq_sig q) = 64"
    using assms(1) by (auto simp: encodeKeyReq_def attempt_Inr_iff assertLen_Inr simp del: join_with.simps assertLen.simps)
  have "space_fields line = ?ws"
    unfolding l(1) by (rule space_fields_line) (use assms(2) url_plain version_plain in \<open>auto simp: field_text_def CTCP_TAG_def is_space_def\<close>)
  then show ?thesis using l(2-) by (simp add: fields_back read_key_req_def del: parseKv.simps(2))
qed

lemma wrapped_back:
  assumes "encode_wrapped label r = Inr line" "\<forall>c \<in> set (kr_channel r). \<not> is_space c" "label = ''KEYRSP'' \<or> label = ''REKEY''"
  shows "parseHandshake line = Inr (Some (if label = ''KEYRSP'' then KEYRSP r else REKEY r))"
proof -
  let ?ws = "[CTCP_TAG, label, field_text ''v'' (digits_of PROTO_VERSION), field_text ''c'' (kr_channel r),
        field_text ''p'' (to_base64url (kr_pubkey r)), field_text ''e'' (to_base64url (kr_ephemeralPub r)),
        field_text ''wn'' (to_base64url (kr_wrapNonce r)), field_text ''w'' (to_base64url (kr_wrapCt r)),
        field_text ''n'' (to_base64url (kr_nonce r)), field_text ''s'' (to_base64url (kr_sig r))]"
  have l: "line = join_with '' '' ?ws" "length (kr_pubkey r) = 32" "length (kr_ephemeralPub r) = 32" "length (kr_wrapNonce r) = NONCE_LEN"
    "length (kr_nonce r) = 16" "length (kr_sig r) = 64"
    using assms(1) by (auto simp: encode_wrapped_def attempt_Inr_iff assertLen_Inr simp del: join_with.simps assertLen.simps)
  have "space_fields line = ?ws"
    unfolding l(1) by (rule space_fields_line) (use assms(2,3) url_plain version_plain in \<open>auto simp: field_text_def CTCP_TAG_def is_space_def\<close>)
  then show ?thesis using l(2-) assms(3) by (auto simp: fields_back read_key_rsp_def simp del: parseKv.simps(2))
qed

text \<open>C34: a handshake message whose channel has no blank is written as a line that reads as that very message.\<close>

theorem handshake_reads_back:
  assumes "encode_msg m = Inr line" "\<forall>c \<in> set (msg_channel m). \<not> is_space c"
  shows "parseHandshake line = Inr (Some m)"
  using assms key_req_back wrapped_back by (cases m) (auto simp: encodeKeyRsp_def encodeKeyRekey_def)

lemma handshake_reads_back_witness:
  "\<exists>line. encodeKeyReq \<lparr>kq_channel = ''#a=b'', kq_pubkey = replicate 32 1, kq_ephX25519 = replicate 32 2, kq_nonce = replicate 16 3,
      kq_sig = replicate 64 4\<rparr> = Inr line \<and>
    parseHandshake line = Inr (Some (KEYREQ \<lparr>kq_channel = ''#a=b'', kq_pubkey = replicate 32 1, kq_ephX25519 = replicate 32 2,
      kq_nonce = replicate 16 3, kq_sig = replicate 64 4\<rparr>))"
proof -
  let ?q = "\<lparr>kq_channel = ''#a=b'', kq_pubkey = replicate 32 1, kq_ephX25519 = replicate 32 2, kq_nonce = replicate 16 3,
      kq_sig = replicate 64 4\<rparr>"
  obtain line where l: "encodeKeyReq ?q = Inr line" by (simp add: encodeKeyReq_def)
  have "parseHandshake line = Inr (Some (KEYREQ ?q))" by (rule handshake_reads_back) (use l in \<open>simp_all add: is_space_def\<close>)
  with l show ?thesis by blast
qed

section \<open>A signature binds the whole message\<close>

fun signed_bytes :: "handshake_msg \<Rightarrow> bytes" where
  "signed_bytes (KEYREQ q) = sigPayloadKeyReq (kq_channel q) (kq_pubkey q) (kq_ephX25519 q) (kq_nonce q)"
| "signed_bytes (KEYRSP r) = sigPayloadKeyRsp (kr_channel r) (kr_pubkey r) (kr_ephemeralPub r) (kr_wrapNonce r) (kr_wrapCt r) (kr_nonce r)"
| "signed_bytes (REKEY r) = sigPayloadKeyRekey (kr_channel r) (kr_pubkey r) (kr_ephemeralPub r) (kr_wrapNonce r) (kr_wrapCt r) (kr_nonce r)"

fun wrapped_len :: "handshake_msg \<Rightarrow> nat" where
  "wrapped_len (KEYREQ q) = 0"
| "wrapped_len (KEYRSP r) = length (kr_wrapCt r)"
| "wrapped_len (REKEY r) = length (kr_wrapCt r)"

fun unsigned :: "handshake_msg \<Rightarrow> handshake_msg" where
  "unsigned (KEYREQ q) = KEYREQ (q\<lparr>kq_sig := []\<rparr>)"
| "unsigned (KEYRSP r) = KEYRSP (r\<lparr>kr_sig := []\<rparr>)"
| "unsigned (REKEY r) = REKEY (r\<lparr>kr_sig := []\<rparr>)"

lemma ascii_bytes: "utf8_text (c # s) = utf8_scalar (of_char c) @ utf8_text s"
  by (simp add: utf8_text_def utf8_encode_def)

lemma labels: "utf8_text ''KEYREQ:'' = [75, 69, 89, 82, 69, 81, 58]" "utf8_text ''KEYRSP:'' = [75, 69, 89, 82, 83, 80, 58]"
  "utf8_text ''REKEY:'' = [82, 69, 75, 69, 89, 58]"
  by (simp_all add: ascii_bytes utf8_scalar_def utf8_text_def)

lemma payload_inj:
  assumes "buildSigPayload label ch parts = buildSigPayload label ch' parts'" "map length parts = map length parts'"
  shows "ch = ch' \<and> parts = parts'"
proof -
  let ?c = "\<lambda>ps. concat (map (\<lambda>p. 0x3A # p) ps) :: bytes"
  have len: "length (?c parts) = length (?c parts')"
    using assms(2) by (induction parts parts' rule: list_induct2') auto
  then have "utf8_text ch = utf8_text ch' \<and> ?c parts = ?c parts'" using assms(1) by (simp add: buildSigPayload_def)
  moreover have "?c parts = ?c parts' \<Longrightarrow> parts = parts'"
    using assms(2) by (induction parts parts' rule: list_induct2') auto
  ultimately show ?thesis using utf8_text_inj by blast
qed

lemma req_lens: "encodeKeyReq q = Inr line \<Longrightarrow> map length [kq_pubkey q, kq_ephX25519 q, kq_nonce q] = [32, 32, 16]"
  by (auto simp: encodeKeyReq_def attempt_Inr_iff assertLen_Inr simp del: assertLen.simps join_with.simps)

lemma wrapped_lens: "encode_wrapped label r = Inr line \<Longrightarrow> map length [kr_pubkey r, kr_ephemeralPub r, kr_wrapNonce r, kr_nonce r] = [32, 32, NONCE_LEN, 16]"
  by (auto simp: encode_wrapped_def attempt_Inr_iff assertLen_Inr simp del: assertLen.simps join_with.simps)

lemma same_lens:
  "map length [kr_pubkey r, kr_ephemeralPub r, kr_wrapNonce r, kr_nonce r] = map length [kr_pubkey r', kr_ephemeralPub r', kr_wrapNonce r', kr_nonce r'] \<Longrightarrow>
   length (kr_wrapCt r) = length (kr_wrapCt r') \<Longrightarrow>
   map length [kr_pubkey r, kr_ephemeralPub r, kr_wrapNonce r, kr_wrapCt r, kr_nonce r] =
   map length [kr_pubkey r', kr_ephemeralPub r', kr_wrapNonce r', kr_wrapCt r', kr_nonce r']"
  by simp

text \<open>C35: two messages that can be written, with wrapped keys of one length, have the same signed bytes only when they are the
  same message, kind and channel included: a signature given for one never passes for another.\<close>

theorem signature_binds_the_message:
  assumes "encode_msg m = Inr line" "encode_msg m' = Inr line'" "signed_bytes m = signed_bytes m'" "wrapped_len m = wrapped_len m'"
  shows "unsigned m = unsigned m'"
proof -
  note sp = sigPayloadKeyReq_def sigPayloadKeyRsp_def sigPayloadKeyRekey_def
  have "m = KEYREQ q \<Longrightarrow> m' = KEYREQ q' \<Longrightarrow> ?thesis" for q q'
    using assms req_lens [of q] req_lens [of q']
      payload_inj [of "''KEYREQ''" "kq_channel q" "[kq_pubkey q, kq_ephX25519 q, kq_nonce q]" "kq_channel q'" "[kq_pubkey q', kq_ephX25519 q', kq_nonce q']"]
    by (cases q; cases q') (simp add: sp)
  moreover have "m = KEYRSP r \<Longrightarrow> m' = KEYRSP r' \<Longrightarrow> ?thesis" for r r'
    using assms wrapped_lens [of "''KEYRSP''" r] wrapped_lens [of "''KEYRSP''" r'] payload_inj [of "''KEYRSP''", OF _ same_lens [of r r']]
    by (cases r; cases r') (simp add: sp encodeKeyRsp_def)
  moreover have "m = REKEY r \<Longrightarrow> m' = REKEY r' \<Longrightarrow> ?thesis" for r r'
    using assms wrapped_lens [of "''REKEY''" r] wrapped_lens [of "''REKEY''" r'] payload_inj [of "''REKEY''", OF _ same_lens [of r r']]
    by (cases r; cases r') (simp add: sp encodeKeyRekey_def)
  ultimately show ?thesis
    using assms(3) by (cases m; cases m') (simp_all add: sp buildSigPayload_def labels)
qed

lemma signature_binds_the_message_witness:
  "signed_bytes (KEYREQ \<lparr>kq_channel = ''#a'', kq_pubkey = replicate 32 1, kq_ephX25519 = replicate 32 2, kq_nonce = replicate 16 3,
      kq_sig = replicate 64 4\<rparr>) \<noteq>
    signed_bytes (KEYREQ \<lparr>kq_channel = ''#a'', kq_pubkey = replicate 32 1, kq_ephX25519 = replicate 32 9, kq_nonce = replicate 16 3,
      kq_sig = replicate 64 4\<rparr>)"
proof
  let ?q = "\<lambda>e. \<lparr>kq_channel = ''#a'', kq_pubkey = replicate 32 1, kq_ephX25519 = replicate 32 e, kq_nonce = replicate 16 3,
      kq_sig = replicate 64 4\<rparr>"
  assume same: "signed_bytes (KEYREQ (?q 2)) = signed_bytes (KEYREQ (?q 9))"
  obtain line where l: "encode_msg (KEYREQ (?q 2)) = Inr line" by (simp add: encodeKeyReq_def)
  obtain line' where l': "encode_msg (KEYREQ (?q 9)) = Inr line'" by (simp add: encodeKeyReq_def)
  have "unsigned (KEYREQ (?q 2)) = unsigned (KEYREQ (?q 9))" by (rule signature_binds_the_message [OF l l' same]) simp
  then show False by simp
qed

end
