(* ===== verification/E2e_Limits.thy ===== *)
theory E2e_Limits imports Lurker_Base begin

text \<open>
  \<open>rateLimiter.ts\<close> and \<open>replayCache.ts\<close> of \<open>server/services/e2e/\<close>: how often a peer is asked for a key and answered, and
  which chunks have been seen.  A \<open>Map\<close> is an association list in insertion order; the clock is an argument, in
  milliseconds.
\<close>

section \<open>Capped maps\<close>

text \<open>The oldest entries go until no more than the cap are left.\<close>

fun cap_map :: "nat \<Rightarrow> ('k \<times> 'v) list \<Rightarrow> ('k \<times> 'v) list" where
  "cap_map n [] = []"
| "cap_map n (e # m) = (if n < length (e # m) then cap_map n m else e # m)"

lemma cap_map_length [simp]: "length (cap_map n m) \<le> n"
  by (induction m) auto

lemma cap_map_id [simp]: "length m \<le> n \<Longrightarrow> cap_map n m = m"
  by (cases m) auto

lemma cap_map_suffix: "suffix (cap_map n m) m"
  by (induction m) (auto simp: suffix_Cons)

section \<open>The rate limiter\<close>

definition OUTGOING_GAP_MS :: int where
  "OUTGOING_GAP_MS = 30000"

definition INCOMING_WINDOW_MS :: int where
  "INCOMING_WINDOW_MS = 60000"

definition INCOMING_MAX_PER_WINDOW :: nat where
  "INCOMING_MAX_PER_WINDOW = 3"

definition INCOMING_BACKOFF_MS :: int where
  "INCOMING_BACKOFF_MS = 5 * 60000"

record bucket =
  bk_recent :: "int list"
  bk_backoffUntil :: "int option"

record limiter =
  rl_lastSent :: "(string \<times> int) list"
  rl_incoming :: "(string \<times> bucket) list"
  rl_maxKeys :: nat

definition new_limiter :: "nat \<Rightarrow> limiter" where
  "new_limiter maxKeys = \<lparr>rl_lastSent = [], rl_incoming = [], rl_maxKeys = maxKeys\<rparr>"

definition canSendOutgoing :: "int \<Rightarrow> string \<Rightarrow> limiter \<Rightarrow> bool" where
  "canSendOutgoing now key l = (case map_of (rl_lastSent l) key of None \<Rightarrow> True | Some ts \<Rightarrow> OUTGOING_GAP_MS \<le> now - ts)"

definition allowOutgoing :: "int \<Rightarrow> string \<Rightarrow> limiter \<Rightarrow> bool \<times> limiter" where
  "allowOutgoing now key l =
     (case map_of (rl_lastSent l) key of
        Some ts \<Rightarrow>
          if now - ts < OUTGOING_GAP_MS then (False, l)
          else (True, l\<lparr>rl_lastSent := cap_map (rl_maxKeys l) (AList.update key now (rl_lastSent l))\<rparr>)
      | None \<Rightarrow> (True, l\<lparr>rl_lastSent := cap_map (rl_maxKeys l) (AList.update key now (rl_lastSent l))\<rparr>))"

definition answer_bucket :: "int \<Rightarrow> bucket \<Rightarrow> bool \<times> bucket" where
  "answer_bucket now b0 =
     (case bk_backoffUntil b0 of
        Some until \<Rightarrow> if now < until then (False, b0) else (True, \<lparr>bk_recent = [now], bk_backoffUntil = None\<rparr>)
      | None \<Rightarrow>
          let recent = filter (\<lambda>t. now - t \<le> INCOMING_WINDOW_MS) (bk_recent b0) in
          if INCOMING_MAX_PER_WINDOW \<le> length recent
          then (False, \<lparr>bk_recent = recent, bk_backoffUntil = Some (now + INCOMING_BACKOFF_MS)\<rparr>)
          else (True, \<lparr>bk_recent = recent @ [now], bk_backoffUntil = None\<rparr>))"

text \<open>A bucket the cap has dropped is changed without being in the map.\<close>

definition allowIncoming :: "int \<Rightarrow> string \<Rightarrow> limiter \<Rightarrow> bool \<times> limiter" where
  "allowIncoming now key l =
     (let (b, m) =
        (case map_of (rl_incoming l) key of
           Some b \<Rightarrow> (b, rl_incoming l)
         | None \<Rightarrow>
             (let b = \<lparr>bk_recent = [], bk_backoffUntil = None\<rparr> in (b, cap_map (rl_maxKeys l) (AList.update key b (rl_incoming l)))));
        (ok, b') = answer_bucket now b
      in (ok, l\<lparr>rl_incoming := AList.map_entry key (\<lambda>_. b') m\<rparr>))"

section \<open>The replay cache\<close>

record replay_cache =
  rc_seen :: "(string \<times> int) list"
  rc_maxEntries :: nat

definition new_cache :: "nat \<Rightarrow> replay_cache" where
  "new_cache n = \<lparr>rc_seen = [], rc_maxEntries = n\<rparr>"

definition evict :: "int \<Rightarrow> replay_cache \<Rightarrow> replay_cache" where
  "evict now c = c\<lparr>rc_seen := cap_map (rc_maxEntries c) (dropWhile (\<lambda>(k, expiry). expiry \<le> now) (rc_seen c))\<rparr>"

definition observe :: "int \<Rightarrow> string \<Rightarrow> int \<Rightarrow> replay_cache \<Rightarrow> bool \<times> replay_cache" where
  "observe now key ttlMs c =
     (case map_of (rc_seen c) key of
        Some expiry \<Rightarrow>
          if now < expiry then (False, c)
          else (True, evict now (c\<lparr>rc_seen := AList.update key (now + ttlMs) (AList.delete key (rc_seen c))\<rparr>))
      | None \<Rightarrow> (True, evict now (c\<lparr>rc_seen := AList.update key (now + ttlMs) (rc_seen c)\<rparr>)))"

section \<open>The cache against its specification\<close>

text \<open>What the cache promises: of every key, the time until which it is a replay.\<close>

definition observe_spec :: "int \<Rightarrow> string \<Rightarrow> int \<Rightarrow> (string \<Rightarrow> int option) \<Rightarrow> bool \<times> (string \<Rightarrow> int option)" where
  "observe_spec now key ttlMs f =
     (case f key of
        Some expiry \<Rightarrow> if now < expiry then (False, f) else (True, f(key \<mapsto> now + ttlMs))
      | None \<Rightarrow> (True, f(key \<mapsto> now + ttlMs)))"

text \<open>The cache and the specification agree on what is not over yet.\<close>

definition agrees :: "int \<Rightarrow> replay_cache \<Rightarrow> (string \<Rightarrow> int option) \<Rightarrow> bool" where
  "agrees now c f \<longleftrightarrow> distinct (map fst (rc_seen c)) \<and>
     (\<forall>k e. map_of (rc_seen c) k = Some e \<longrightarrow> f k = Some e) \<and>
     (\<forall>k e. f k = Some e \<longrightarrow> now < e \<longrightarrow> map_of (rc_seen c) k = Some e)"

lemma agreesD:
  assumes "agrees now c f"
  shows "map_of (rc_seen c) k = Some e \<Longrightarrow> f k = Some e" "f k = Some e \<Longrightarrow> now < e \<Longrightarrow> map_of (rc_seen c) k = Some e"
    "distinct (map fst (rc_seen c))"
  using assms unfolding agrees_def by blast+

lemma agreesI:
  assumes "distinct (map fst (rc_seen c))" "\<And>k e. map_of (rc_seen c) k = Some e \<Longrightarrow> f k = Some e"
    "\<And>k e. f k = Some e \<Longrightarrow> now < e \<Longrightarrow> map_of (rc_seen c) k = Some e"
  shows "agrees now c f"
  using assms unfolding agrees_def by blast

lemma agrees_later: "agrees now c f \<Longrightarrow> now \<le> later \<Longrightarrow> agrees later c f"
  unfolding agrees_def by (meson le_less_trans)

lemma agrees_new: "agrees now (new_cache n) (\<lambda>_. None)"
  by (simp add: agrees_def new_cache_def)

lemma map_of_suffix: "distinct (map fst (xs @ ys)) \<Longrightarrow> map_of ys k = Some v \<Longrightarrow> map_of (xs @ ys) k = Some v"
proof -
  assume d: "distinct (map fst (xs @ ys))" and v: "map_of ys k = Some v"
  have "k \<in> fst ` set ys" using v by (force dest: map_of_SomeD)
  then have "map_of xs k = None" using d by (auto simp: map_of_eq_None_iff)
  then show ?thesis using v by (simp add: map_add_def)
qed

lemma agrees_evict:
  assumes "agrees now c f" "length (rc_seen c) \<le> rc_maxEntries c"
  shows "agrees now (evict now c) f"
proof -
  let ?P = "\<lambda>(k :: string, expiry). expiry \<le> now"
  let ?d = "dropWhile ?P (rc_seen c)"
  have e: "rc_seen (evict now c) = ?d"
    using assms(2) length_dropWhile_le [of ?P "rc_seen c"] by (simp add: evict_def)
  have s: "rc_seen c = takeWhile ?P (rc_seen c) @ ?d" by simp
  have d: "distinct (map fst (takeWhile ?P (rc_seen c) @ ?d))" using assms(1) by (simp only: s [symmetric] agrees_def)
  then have dd: "distinct (map fst ?d)" by (simp only: map_append distinct_append)
  have sub: "map_of ?d k = Some x \<Longrightarrow> map_of (rc_seen c) k = Some x" for k x
    using map_of_suffix [OF d] s by metis
  have keep: "map_of (rc_seen c) k = Some x \<Longrightarrow> now < x \<Longrightarrow> map_of ?d k = Some x" for k x
  proof -
    assume x: "map_of (rc_seen c) k = Some x" "now < x"
    have "(k, x) \<in> set (rc_seen c)" using x(1) by (rule map_of_SomeD)
    moreover have "(k, x) \<notin> set (takeWhile ?P (rc_seen c))" using x(2) by (auto dest: set_takeWhileD)
    ultimately have "(k, x) \<in> set ?d" using s by (metis Un_iff set_append)
    then show "map_of ?d k = Some x" using dd by (simp only: map_of_is_SomeI)
  qed
  show ?thesis using assms(1) sub keep dd unfolding agrees_def e by blast
qed

lemma length_update: "length (AList.update k v n) = (if k \<in> fst ` set n then length n else Suc (length n))"
  by (induction n) auto

lemma observe_refines:
  assumes "agrees now c f" "length (AList.update key (now + ttlMs) (rc_seen c)) \<le> rc_maxEntries c"
  shows "fst (observe now key ttlMs c) = fst (observe_spec now key ttlMs f) \<and>
    agrees now (snd (observe now key ttlMs c)) (snd (observe_spec now key ttlMs f))"
proof -
  have put: "agrees now (c\<lparr>rc_seen := AList.update key (now + ttlMs) m\<rparr>) (f(key \<mapsto> now + ttlMs))"
    if "m = rc_seen c \<or> m = AList.delete key (rc_seen c)" for m
  proof -
    have up: "map_of (AList.update key (now + ttlMs) m) = (map_of (rc_seen c))(key \<mapsto> now + ttlMs)"
      using that by (auto simp: update_conv' delete_conv')
    show ?thesis
    proof (rule agreesI)
      show "distinct (map fst (rc_seen (c\<lparr>rc_seen := AList.update key (now + ttlMs) m\<rparr>)))"
        using that agreesD(3) [OF assms(1)] by (auto simp: distinct_update distinct_delete)
    next
      fix k e assume "map_of (rc_seen (c\<lparr>rc_seen := AList.update key (now + ttlMs) m\<rparr>)) k = Some e"
      then show "(f(key \<mapsto> now + ttlMs)) k = Some e"
        using agreesD(1) [OF assms(1), of k e] fun_cong [OF up, of k] by (cases "k = key") simp_all
    next
      fix k e assume "(f(key \<mapsto> now + ttlMs)) k = Some e" "now < e"
      then show "map_of (rc_seen (c\<lparr>rc_seen := AList.update key (now + ttlMs) m\<rparr>)) k = Some e"
        using agreesD(2) [OF assms(1), of k e] fun_cong [OF up, of k] by (cases "k = key") simp_all
    qed
  qed
  have len: "length (AList.update key (now + ttlMs) m) \<le> rc_maxEntries c" if "m = rc_seen c \<or> m = AList.delete key (rc_seen c)" for m
  proof -
    have "length (AList.update key v (AList.delete key n)) \<le> length (AList.update key v n)" for v and n :: "(string \<times> int) list"
    proof (cases "key \<in> fst ` set n")
      case True
      then have "length (AList.delete key n) < length n" by (induction n) (auto simp: less_Suc_eq_le length_delete_le Suc_le_eq image_iff Bex_def)
      then show ?thesis using True by (simp add: length_update)
    qed (simp add: delete_id)
    then show ?thesis using that assms(2) by (metis order_trans)
  qed
  have ev: "agrees now (evict now (c\<lparr>rc_seen := AList.update key (now + ttlMs) m\<rparr>)) (f(key \<mapsto> now + ttlMs))"
    if "m = rc_seen c \<or> m = AList.delete key (rc_seen c)" for m
    by (rule agrees_evict) (use put [OF that] len [OF that] in simp_all)
  show ?thesis
  proof (cases "map_of (rc_seen c) key")
    case None
    then have "\<not> (\<exists>e. f key = Some e \<and> now < e)" using agreesD(2) [OF assms(1), of key] by force
    then have "observe_spec now key ttlMs f = (True, f(key \<mapsto> now + ttlMs))" by (auto simp: observe_spec_def split: option.splits)
    then show ?thesis using None ev by (simp add: observe_def)
  next
    case (Some e)
    then have "f key = Some e" by (rule agreesD(1) [OF assms(1)])
    then show ?thesis using Some ev assms(1) by (simp add: observe_def observe_spec_def)
  qed
qed

section \<open>Runs of the cache\<close>

fun run_cache :: "(int \<times> string \<times> int) list \<Rightarrow> replay_cache \<Rightarrow> bool list \<times> replay_cache" where
  "run_cache [] c = ([], c)"
| "run_cache ((now, key, ttl) # es) c =
     (let (ok, c') = observe now key ttl c; (oks, c'') = run_cache es c' in (ok # oks, c''))"

fun run_spec :: "(int \<times> string \<times> int) list \<Rightarrow> (string \<Rightarrow> int option) \<Rightarrow> bool list" where
  "run_spec [] f = []"
| "run_spec ((now, key, ttl) # es) f =
     (let (ok, f') = observe_spec now key ttl f in ok # run_spec es f')"

lemma update_keys: "fst ` set (AList.update k v m) = insert k (fst ` set m)"
  by (induction m) auto

lemma evict_keys: "fst ` set (rc_seen (evict now d)) \<subseteq> fst ` set (rc_seen d)" "rc_maxEntries (evict now d) = rc_maxEntries d"
proof -
  have "suffix (rc_seen (evict now d)) (rc_seen d)"
    unfolding evict_def using suffix_order.trans [OF cap_map_suffix suffix_dropWhile] by simp
  from image_mono [OF set_mono_suffix [OF this], of fst] show "fst ` set (rc_seen (evict now d)) \<subseteq> fst ` set (rc_seen d)" .
qed (simp add: evict_def)

lemma observe_keys:
  shows "fst ` set (rc_seen (snd (observe now key ttl c))) \<subseteq> insert key (fst ` set (rc_seen c))"
    "rc_maxEntries (snd (observe now key ttl c)) = rc_maxEntries c"
proof -
  have "fst ` set (AList.delete key (rc_seen c)) \<subseteq> fst ` set (rc_seen c)" by (auto simp: AList.delete_eq)
  then have u: "fst ` set (AList.update key v m) \<subseteq> insert key (fst ` set (rc_seen c))"
    if "m = rc_seen c \<or> m = AList.delete key (rc_seen c)" for m v
    using that unfolding update_keys by blast
  have "fst ` set (rc_seen (evict now (c\<lparr>rc_seen := AList.update key v m\<rparr>))) \<subseteq> insert key (fst ` set (rc_seen c))"
    if "m = rc_seen c \<or> m = AList.delete key (rc_seen c)" for m v
    by (rule order_trans [OF evict_keys(1)]) (use u [OF that] in simp)
  then show "fst ` set (rc_seen (snd (observe now key ttl c))) \<subseteq> insert key (fst ` set (rc_seen c))"
    unfolding observe_def by (simp split: option.splits) blast
qed (simp add: observe_def evict_def split: option.splits)

lemma run_cache_refines:
  assumes "agrees t c f" "sorted (t # map fst es)" "finite K" "fst ` set (rc_seen c) \<subseteq> K" "(fst \<circ> snd) ` set es \<subseteq> K" "card K \<le> rc_maxEntries c"
  shows "fst (run_cache es c) = run_spec es f"
  using assms
proof (induction es arbitrary: t c f)
  case (Cons e es)
  obtain now key ttl where e: "e = (now, key, ttl)" by (cases e)
  have t: "t \<le> now" "sorted (now # map fst es)" using Cons.prems(2) e by simp_all
  have k: "key \<in> K" using Cons.prems(5) e by simp
  have a: "agrees now c f" using agrees_later [OF Cons.prems(1) t(1)] .
  have "length (AList.update key (now + ttl) (rc_seen c)) = card (fst ` set (AList.update key (now + ttl) (rc_seen c)))"
    using agreesD(3) [OF a] distinct_card [of "map fst (AList.update key (now + ttl) (rc_seen c))"] by (simp add: distinct_update)
  also have "\<dots> \<le> card K" 
  proof (rule card_mono [OF Cons.prems(3)])
    show "fst ` set (AList.update key (now + ttl) (rc_seen c)) \<subseteq> K" unfolding update_keys using Cons.prems(4) k by simp
  qed
  finally have l: "length (AList.update key (now + ttl) (rc_seen c)) \<le> rc_maxEntries c" using Cons.prems(6) by simp
  obtain ok c' where o: "observe now key ttl c = (ok, c')" by (cases "observe now key ttl c")
  obtain ok' f' where s: "observe_spec now key ttl f = (ok', f')" by (cases "observe_spec now key ttl f")
  have r: "ok = ok'" "agrees now c' f'" using observe_refines [OF a l] o s by simp_all
  have sub: "fst ` set (rc_seen c') \<subseteq> K" "card K \<le> rc_maxEntries c'" 
  proof -
    have "fst ` set (rc_seen c') \<subseteq> insert key (fst ` set (rc_seen c))" "rc_maxEntries c' = rc_maxEntries c" using observe_keys [of now key ttl c] o by simp_all
    then show "fst ` set (rc_seen c') \<subseteq> K" "card K \<le> rc_maxEntries c'" using Cons.prems(4,6) k by auto
  qed
  have "fst (run_cache es c') = run_spec es f'"
    by (rule Cons.IH [OF r(2) t(2) Cons.prems(3) sub(1) _ sub(2)]) (use Cons.prems(5) in auto)
  then show ?case using r(1) by (simp add: e o s split_beta Let_def)
qed simp

text \<open>C32: The cache of seen chunks is exact: with no more keys than it holds and a clock that does not run backwards, every
  observation answers what remembering each key for its time would answer.\<close>

theorem replay_cache_is_exact:
  assumes "sorted (map fst es)" "card ((fst \<circ> snd) ` set es) \<le> n"
  shows "fst (run_cache es (new_cache n)) = run_spec es (\<lambda>_. None)"
proof (cases es)
  case (Cons e es')
  have "sorted (fst e # map fst es)" using assms(1) Cons by auto
  then show ?thesis using run_cache_refines [OF agrees_new, of "fst e" es "(fst \<circ> snd) ` set es" n] assms(2) by (simp add: new_cache_def)
qed simp

lemma cache_never_over_cap: "length (rc_seen (snd (observe now key ttl c))) \<le> rc_maxEntries c \<or> snd (observe now key ttl c) = c"
  by (auto simp: observe_def evict_def split: option.splits)

lemma replay_cache_is_exact_witness:
  "fst (run_cache [(0, ''a'', 10), (3, ''b'', 10), (9, ''a'', 10), (12, ''a'', 10)] (new_cache 2)) = [True, True, False, True]"
proof -
  let ?es = "[(0, ''a'', 10), (3, ''b'', 10), (9, ''a'', 10), (12, ''a'', 10)] :: (int \<times> string \<times> int) list"
  have "(fst \<circ> snd) ` set ?es = {''a'', ''b''}" by auto
  then have "card ((fst \<circ> snd) ` set ?es) \<le> 2" by (simp only:) simp
  from replay_cache_is_exact [OF _ this] show ?thesis by (simp add: observe_spec_def del: run_cache.simps)
qed

section \<open>How often a peer is asked and answered\<close>

datatype throttled = Asking string | Answering string

fun key_of :: "throttled \<Rightarrow> string" where
  "key_of (Asking k) = k"
| "key_of (Answering k) = k"

definition ask_limiter :: "int \<Rightarrow> throttled \<Rightarrow> limiter \<Rightarrow> bool \<times> limiter" where
  "ask_limiter now x l = (case x of Asking k \<Rightarrow> allowOutgoing now k l | Answering k \<Rightarrow> allowIncoming now k l)"

text \<open>A run, and what of it was granted.\<close>

fun run_limiter :: "(int \<times> throttled) list \<Rightarrow> limiter \<Rightarrow> (int \<times> throttled) list \<times> limiter" where
  "run_limiter [] l = ([], l)"
| "run_limiter ((now, x) # es) l =
     (let (ok, l') = ask_limiter now x l; (granted, l'') = run_limiter es l' in
      (if ok then (now, x) # granted else granted, l''))"

definition times_of :: "throttled \<Rightarrow> (int \<times> throttled) list \<Rightarrow> int list" where
  "times_of x tr = map fst (filter (\<lambda>e. snd e = x) tr)"

definition sparse :: "int list \<Rightarrow> bool" where
  "sparse ts \<longleftrightarrow> (\<forall>t. length (filter (\<lambda>s. t \<le> s \<and> s \<le> t + INCOMING_WINDOW_MS) ts) \<le> INCOMING_MAX_PER_WINDOW)"

definition bucket_ok :: "int \<Rightarrow> int list \<Rightarrow> bucket \<Rightarrow> bool" where
  "bucket_ok now ts b \<longleftrightarrow>
     (case bk_backoffUntil b of
        None \<Rightarrow> \<exists>c. c \<le> now - INCOMING_WINDOW_MS \<and> bk_recent b = filter (\<lambda>s. c \<le> s) ts
      | Some until \<Rightarrow> \<forall>s \<in> set ts. s + INCOMING_WINDOW_MS < until)"

lemma bucket_ok_later: "bucket_ok now ts b \<Longrightarrow> now \<le> later \<Longrightarrow> bucket_ok later ts b"
proof (cases "bk_backoffUntil b")
  case None
  assume b: "bucket_ok now ts b" and l: "now \<le> later"
  then obtain c where "c \<le> now - INCOMING_WINDOW_MS" "bk_recent b = filter (\<lambda>s. c \<le> s) ts" using None by (auto simp: bucket_ok_def)
  moreover have "c \<le> later - INCOMING_WINDOW_MS" using calculation(1) l by simp
  ultimately show ?thesis using None by (auto simp: bucket_ok_def)
qed (simp add: bucket_ok_def)

lemma bucket_okI:
  "rs = filter (\<lambda>s. now - INCOMING_WINDOW_MS \<le> s) ts \<Longrightarrow> bucket_ok now ts \<lparr>bk_recent = rs, bk_backoffUntil = None\<rparr>"
  unfolding bucket_ok_def by (simp del: diff_le_eq) (rule exI [of _ "now - INCOMING_WINDOW_MS"], simp)

lemma sparse_snoc:
  assumes "sparse ts" "length (filter (\<lambda>s. now - INCOMING_WINDOW_MS \<le> s) ts) < INCOMING_MAX_PER_WINDOW" "\<forall>s \<in> set ts. s \<le> now"
  shows "sparse (ts @ [now])"
  unfolding sparse_def
proof
  fix t
  show "length (filter (\<lambda>s. t \<le> s \<and> s \<le> t + INCOMING_WINDOW_MS) (ts @ [now])) \<le> INCOMING_MAX_PER_WINDOW"
  proof (cases "t \<le> now \<and> now \<le> t + INCOMING_WINDOW_MS")
    case True
    have "length (filter (\<lambda>s. t \<le> s \<and> s \<le> t + INCOMING_WINDOW_MS) ts) \<le> length (filter (\<lambda>s. now - INCOMING_WINDOW_MS \<le> s) ts)"
      using True by (induction ts) auto
    then show ?thesis using True assms(2) by simp
  next
    case False
    then show ?thesis using assms(1) by (auto simp: sparse_def)
  qed
qed

lemma answer_step:
  assumes "bucket_ok now ts b" "sparse ts" "\<forall>s \<in> set ts. s \<le> now" "answer_bucket now b = (ok, b')"
  shows "bucket_ok now (if ok then ts @ [now] else ts) b' \<and> sparse (if ok then ts @ [now] else ts)"
proof (cases "bk_backoffUntil b")
  case None
  then obtain c where c: "c \<le> now - INCOMING_WINDOW_MS" "bk_recent b = filter (\<lambda>s. c \<le> s) ts" using assms(1) by (auto simp: bucket_ok_def)
  let ?r = "filter (\<lambda>s. now - INCOMING_WINDOW_MS \<le> s) ts"
  have r: "filter (\<lambda>t. now - t \<le> INCOMING_WINDOW_MS) (bk_recent b) = ?r" using c(1) unfolding c(2) by (induction ts) auto
  show ?thesis
  proof (cases "INCOMING_MAX_PER_WINDOW \<le> length ?r")
    case True
    have "s + INCOMING_WINDOW_MS < now + INCOMING_BACKOFF_MS" if "s \<in> set ts" for s
    proof -
      have "s \<le> now" using that assms(3) by blast
      then show ?thesis by (simp add: INCOMING_WINDOW_MS_def INCOMING_BACKOFF_MS_def)
    qed
    then show ?thesis using assms(2,4) None r True by (auto simp: answer_bucket_def bucket_ok_def Let_def)
  next
    case False
    then have "sparse (ts @ [now])" by (intro sparse_snoc assms(2,3)) simp
    moreover have "?r @ [now] = filter (\<lambda>s. now - INCOMING_WINDOW_MS \<le> s) (ts @ [now])" by (simp add: INCOMING_WINDOW_MS_def)
    then have "bucket_ok now (ts @ [now]) \<lparr>bk_recent = ?r @ [now], bk_backoffUntil = None\<rparr>" by (rule bucket_okI)
    moreover have "ok = True" "b' = \<lparr>bk_recent = ?r @ [now], bk_backoffUntil = None\<rparr>"
      using assms(4) None r False by (simp_all add: answer_bucket_def Let_def)
    ultimately show ?thesis by simp
  qed
next
  case (Some until)
  have old: "\<forall>s \<in> set ts. s + INCOMING_WINDOW_MS < until" using assms(1) Some by (simp add: bucket_ok_def)
  show ?thesis
  proof (cases "now < until")
    case True
    then show ?thesis using assms Some by (auto simp: answer_bucket_def)
  next
    case False
    then have n: "filter (\<lambda>s. now - INCOMING_WINDOW_MS \<le> s) ts = []" using old by (fastforce simp: filter_empty_conv)
    have "sparse (ts @ [now])" by (rule sparse_snoc [OF assms(2) _ assms(3)]) (simp add: n INCOMING_MAX_PER_WINDOW_def)
    moreover have "[now] = filter (\<lambda>s. now - INCOMING_WINDOW_MS \<le> s) (ts @ [now])" using n by (simp add: INCOMING_WINDOW_MS_def)
    then have "bucket_ok now (ts @ [now]) \<lparr>bk_recent = [now], bk_backoffUntil = None\<rparr>" by (rule bucket_okI)
    moreover have "ok = True" "b' = \<lparr>bk_recent = [now], bk_backoffUntil = None\<rparr>" using assms(4) Some False by (simp_all add: answer_bucket_def)
    ultimately show ?thesis by simp
  qed
qed

text \<open>The limiter after a run: what its maps say of what was granted.\<close>

definition outgoing_ok :: "limiter \<Rightarrow> (int \<times> throttled) list \<Rightarrow> bool" where
  "outgoing_ok l tr \<longleftrightarrow>
     (\<forall>k. map_of (rl_lastSent l) k = (if times_of (Asking k) tr = [] then None else Some (last (times_of (Asking k) tr))) \<and>
          successively (\<lambda>a b. a + OUTGOING_GAP_MS \<le> b) (times_of (Asking k) tr))"

definition answers_ok :: "int \<Rightarrow> bucket option \<Rightarrow> int list \<Rightarrow> bool" where
  "answers_ok now bo ts \<longleftrightarrow> (case bo of None \<Rightarrow> ts = [] | Some b \<Rightarrow> bucket_ok now ts b) \<and> sparse ts"

definition incoming_ok :: "int \<Rightarrow> limiter \<Rightarrow> (int \<times> throttled) list \<Rightarrow> bool" where
  "incoming_ok now l tr \<longleftrightarrow> (\<forall>k. answers_ok now (map_of (rl_incoming l) k) (times_of (Answering k) tr))"

definition limiter_ok :: "string set \<Rightarrow> int \<Rightarrow> limiter \<Rightarrow> (int \<times> throttled) list \<Rightarrow> bool" where
  "limiter_ok K now l tr \<longleftrightarrow>
     fst ` set (rl_lastSent l) \<subseteq> K \<and> fst ` set (rl_incoming l) \<subseteq> K \<and> distinct (map fst (rl_lastSent l)) \<and> distinct (map fst (rl_incoming l)) \<and>
     outgoing_ok l tr \<and> incoming_ok now l tr \<and> (\<forall>e \<in> set tr. fst e \<le> now)"

lemma times_of_simps [simp]:
  "times_of x [] = []" "times_of x (tr @ [(t, y)]) = (if y = x then times_of x tr @ [t] else times_of x tr)"
  by (simp_all add: times_of_def)

lemma roomy: "finite K \<Longrightarrow> k \<in> K \<Longrightarrow> fst ` set m \<subseteq> K \<Longrightarrow> distinct (map fst m) \<Longrightarrow> card K \<le> n \<Longrightarrow> length (AList.update k v m) \<le> n"
proof -
  assume a: "finite K" "k \<in> K" "fst ` set m \<subseteq> K" "distinct (map fst m)" "card K \<le> n"
  have "length (AList.update k v m) = card (fst ` set (AList.update k v m))"
    using a(4) distinct_card [of "map fst (AList.update k v m)"] by (simp add: distinct_update)
  also have "\<dots> \<le> card K" by (rule card_mono [OF a(1)]) (simp only: update_keys insert_subset a(2,3) simp_thms)
  finally show ?thesis using a(5) by simp
qed

lemma ask_step:
  assumes "limiter_ok K now l tr" "finite K" "k \<in> K" "card K \<le> rl_maxKeys l" "allowOutgoing now k l = (ok, l')"
  shows "limiter_ok K now l' (if ok then tr @ [(now, Asking k)] else tr) \<and> rl_maxKeys l' = rl_maxKeys l"
proof -
  note i = assms(1) [unfolded limiter_ok_def]
  have len: "length (AList.update k now (rl_lastSent l)) \<le> rl_maxKeys l" by (rule roomy [OF assms(2,3)]) (use i assms(4) in blast)+
  have o: "map_of (rl_lastSent l) k = (if times_of (Asking k) tr = [] then None else Some (last (times_of (Asking k) tr)))"
    "successively (\<lambda>a b. a + OUTGOING_GAP_MS \<le> b) (times_of (Asking k) tr)" using i by (simp_all add: outgoing_ok_def)
  show ?thesis
  proof (cases ok)
    case False
    then show ?thesis using assms(1,5) by (auto simp: allowOutgoing_def split: option.splits if_splits)
  next
    case True
    then have l': "l' = l\<lparr>rl_lastSent := AList.update k now (rl_lastSent l)\<rparr>"
      "\<forall>ts. map_of (rl_lastSent l) k = Some ts \<longrightarrow> ts + OUTGOING_GAP_MS \<le> now"
      using assms(5) len by (auto simp: allowOutgoing_def split: option.splits if_splits)
    have gap: "successively (\<lambda>a b. a + OUTGOING_GAP_MS \<le> b) (times_of (Asking k) tr @ [now])"
      using o l'(2) by (cases "times_of (Asking k) tr = []") (simp_all add: successively_append_iff)
    have "outgoing_ok l' (tr @ [(now, Asking k)])"
      unfolding outgoing_ok_def l'(1) using i gap by (simp add: outgoing_ok_def update_conv')
    moreover have "incoming_ok now l' (tr @ [(now, Asking k)])" using i unfolding l'(1) by (simp add: incoming_ok_def)
    moreover have "fst ` set (rl_lastSent l') \<subseteq> K" unfolding l'(1) using i assms(3) by (simp add: update_keys)
    ultimately show ?thesis using i True by (auto simp: limiter_ok_def l'(1) distinct_update)
  qed
qed

lemma answer_step':
  assumes "answers_ok now bo ts" "\<forall>s \<in> set ts. s \<le> now"
    "answer_bucket now (case bo of Some b \<Rightarrow> b | None \<Rightarrow> \<lparr>bk_recent = [], bk_backoffUntil = None\<rparr>) = (ok, b')"
  shows "answers_ok now (Some b') (if ok then ts @ [now] else ts)"
proof -
  let ?b = "case bo of Some b \<Rightarrow> b | None \<Rightarrow> \<lparr>bk_recent = [], bk_backoffUntil = None\<rparr>"
  have "bucket_ok now ts ?b" using assms(1) by (cases bo) (auto simp: answers_ok_def intro: bucket_okI)
  moreover have "sparse ts" using assms(1) by (simp add: answers_ok_def)
  ultimately show ?thesis using answer_step [OF _ _ assms(2,3)] by (simp add: answers_ok_def)
qed

lemma allowIncoming_eq:
  assumes "finite K" "k \<in> K" "fst ` set (rl_incoming l) \<subseteq> K" "distinct (map fst (rl_incoming l))" "card K \<le> rl_maxKeys l"
    "answer_bucket now (case map_of (rl_incoming l) k of Some b \<Rightarrow> b | None \<Rightarrow> \<lparr>bk_recent = [], bk_backoffUntil = None\<rparr>) = (ok, b')"
  shows "\<exists>m. allowIncoming now k l = (ok, l\<lparr>rl_incoming := m\<rparr>) \<and> map_of m = (map_of (rl_incoming l))(k \<mapsto> b') \<and>
    fst ` set m \<subseteq> K \<and> distinct (map fst m)"
proof (cases "map_of (rl_incoming l) k")
  case None
  let ?m = "AList.update k \<lparr>bk_recent = [], bk_backoffUntil = None\<rparr> (rl_incoming l)"
  have "length ?m \<le> rl_maxKeys l" by (rule roomy [OF assms(1-5)])
  moreover have "map_of (AList.map_entry k (\<lambda>_. b') ?m) = (map_of (rl_incoming l))(k \<mapsto> b')"
    by (simp add: map_of_map_entry update_conv' fun_eq_iff)
  moreover have "fst ` set (AList.map_entry k (\<lambda>_. b') ?m) \<subseteq> K" using assms(2,3) by (simp add: dom_map_entry update_keys)
  moreover have "distinct (map fst (AList.map_entry k (\<lambda>_. b') ?m))" by (intro AList.distinct_map_entry distinct_update assms(4))
  moreover have "allowIncoming now k l = (ok, l\<lparr>rl_incoming := AList.map_entry k (\<lambda>_. b') ?m\<rparr>)"
    using None assms(6) calculation(1) by (simp add: allowIncoming_def Let_def)
  ultimately show ?thesis by blast
next
  case (Some b)
  have "map_of (AList.map_entry k (\<lambda>_. b') (rl_incoming l)) = (map_of (rl_incoming l))(k \<mapsto> b')"
    using Some by (simp add: map_of_map_entry fun_eq_iff)
  moreover have "fst ` set (AList.map_entry k (\<lambda>_. b') (rl_incoming l)) \<subseteq> K" using assms(3) by (simp add: dom_map_entry)
  moreover have "distinct (map fst (AList.map_entry k (\<lambda>_. b') (rl_incoming l)))" by (intro AList.distinct_map_entry assms(4))
  moreover have "allowIncoming now k l = (ok, l\<lparr>rl_incoming := AList.map_entry k (\<lambda>_. b') (rl_incoming l)\<rparr>)"
    using Some assms(6) by (simp add: allowIncoming_def Let_def)
  ultimately show ?thesis by blast
qed

lemma times_le: "\<forall>e \<in> set tr. fst e \<le> (now :: int) \<Longrightarrow> \<forall>s \<in> set (times_of x tr). s \<le> now"
  by (auto simp: times_of_def)

lemma incoming_step:
  assumes "limiter_ok K now l tr" "finite K" "k \<in> K" "card K \<le> rl_maxKeys l" "allowIncoming now k l = (ok, l')"
  shows "limiter_ok K now l' (if ok then tr @ [(now, Answering k)] else tr) \<and> rl_maxKeys l' = rl_maxKeys l"
proof -
  note i = assms(1) [unfolded limiter_ok_def]
  obtain ok' b' where b': "answer_bucket now (case map_of (rl_incoming l) k of Some b \<Rightarrow> b | None \<Rightarrow> \<lparr>bk_recent = [], bk_backoffUntil = None\<rparr>) = (ok', b')"
    by (rule prod.exhaust)
  have "\<exists>m. allowIncoming now k l = (ok', l\<lparr>rl_incoming := m\<rparr>) \<and> map_of m = (map_of (rl_incoming l))(k \<mapsto> b') \<and>
    fst ` set m \<subseteq> K \<and> distinct (map fst m)"
    by (rule allowIncoming_eq [OF assms(2,3) _ _ assms(4) b']) (use i in blast)+
  then obtain m where m: "ok' = ok" "l' = l\<lparr>rl_incoming := m\<rparr>" "map_of m = (map_of (rl_incoming l))(k \<mapsto> b')"
    "fst ` set m \<subseteq> K" "distinct (map fst m)" using assms(5) by auto
  let ?tr = "if ok then tr @ [(now, Answering k)] else tr"
  have "\<forall>k. answers_ok now (map_of (rl_incoming l) k) (times_of (Answering k) tr)" using i by (simp add: incoming_ok_def)
  moreover have "answers_ok now (Some b') (if ok then times_of (Answering k) tr @ [now] else times_of (Answering k) tr)"
    by (rule answer_step' [OF _ _ b' [unfolded m(1)]]) (use i times_le in \<open>auto simp: incoming_ok_def\<close>)
  ultimately have "incoming_ok now l' ?tr" by (auto simp: incoming_ok_def m(2,3))
  moreover have "outgoing_ok l' ?tr" using i by (simp add: outgoing_ok_def m(2))
  ultimately show ?thesis using i m by (auto simp: limiter_ok_def)
qed

lemma answers_ok_later: "answers_ok now bo ts \<Longrightarrow> now \<le> later \<Longrightarrow> answers_ok later bo ts"
  by (cases bo) (auto simp: answers_ok_def intro: bucket_ok_later)

lemma limiter_step:
  assumes "limiter_ok K now l tr" "finite K" "key_of x \<in> K" "card K \<le> rl_maxKeys l" "ask_limiter now x l = (ok, l')"
  shows "limiter_ok K now l' (if ok then tr @ [(now, x)] else tr) \<and> rl_maxKeys l' = rl_maxKeys l"
proof (cases x)
  case (Asking k)
  show ?thesis unfolding Asking by (rule ask_step [OF assms(1,2) _ assms(4)]) (use assms(3,5) Asking in \<open>simp_all add: ask_limiter_def\<close>)
next
  case (Answering k)
  show ?thesis unfolding Answering by (rule incoming_step [OF assms(1,2) _ assms(4)]) (use assms(3,5) Answering in \<open>simp_all add: ask_limiter_def\<close>)
qed

lemma limiter_ok_later:
  assumes "limiter_ok K now l tr" "now \<le> later"
  shows "limiter_ok K later l tr"
proof -
  note i = assms(1) [unfolded limiter_ok_def]
  have "incoming_ok later l tr" using i assms(2) by (auto simp: incoming_ok_def intro: answers_ok_later)
  then show ?thesis using i assms(2) by (auto simp: limiter_ok_def)
qed

lemma run_limiter_ok:
  assumes "sorted (map fst es)" "limiter_ok K now l tr" "\<forall>e \<in> set es. now \<le> fst e \<and> key_of (snd e) \<in> K" "finite K" "card K \<le> rl_maxKeys l"
  shows "\<exists>t. limiter_ok K t (snd (run_limiter es l)) (tr @ fst (run_limiter es l))"
  using assms
proof (induction es arbitrary: now l tr)
  case (Cons e es)
  obtain t x where e: "e = (t, x)" by (cases e)
  obtain ok l' where a: "ask_limiter t x l = (ok, l')" by (rule prod.exhaust)
  let ?tr = "if ok then tr @ [(t, x)] else tr"
  have "limiter_ok K t l tr" by (rule limiter_ok_later [OF Cons.prems(2)]) (use Cons.prems(3) e in simp)
  then have s: "limiter_ok K t l' ?tr \<and> rl_maxKeys l' = rl_maxKeys l"
    by (rule limiter_step [OF _ Cons.prems(4) _ Cons.prems(5) a]) (use Cons.prems(3) e in simp)
  have "\<exists>u. limiter_ok K u (snd (run_limiter es l')) (?tr @ fst (run_limiter es l'))"
    by (rule Cons.IH) (use Cons.prems s e in auto)
  then show ?case using a e by (auto simp: split_def Let_def split: if_splits)
qed auto

lemma limiter_ok_new: "limiter_ok K t (new_limiter n) []"
  by (simp add: limiter_ok_def outgoing_ok_def incoming_ok_def answers_ok_def new_limiter_def sparse_def)

text \<open>C33: What the limiter grants, in any run of queries in time order about no more peers than it has room for: key requests
  to one peer are granted at least 30 seconds apart, and in no window of 60 seconds are more than three of a peer's requests
  let through to be answered.  (A request the user makes by \<open>buildKeyReq\<close> is not asked of the limiter; with more peers than
  room the gap is not kept, see \<open>latest_asked_is_forgotten\<close>.)\<close>

theorem handshakes_are_throttled:
  assumes "sorted (map fst es)" "card ((key_of \<circ> snd) ` set es) \<le> n"
  shows "successively (\<lambda>a b. a + OUTGOING_GAP_MS \<le> b) (times_of (Asking k) (fst (run_limiter es (new_limiter n)))) \<and>
    sparse (times_of (Answering k) (fst (run_limiter es (new_limiter n))))"
proof -
  let ?t = "Min (insert 0 (fst ` set es))"
  have "\<exists>t. limiter_ok ((key_of \<circ> snd) ` set es) t (snd (run_limiter es (new_limiter n))) ([] @ fst (run_limiter es (new_limiter n)))"
    by (rule run_limiter_ok [OF assms(1) limiter_ok_new [of _ ?t]]) (use assms(2) in \<open>auto simp: new_limiter_def\<close>)
  then show ?thesis by (auto simp: limiter_ok_def outgoing_ok_def incoming_ok_def answers_ok_def)
qed

lemma handshakes_are_throttled_witness:
  "sparse (times_of (Answering ''p'')
     (fst (run_limiter [(0, Answering ''p''), (1, Answering ''p''), (2, Answering ''p''), (3, Answering ''p''), (9, Asking ''p'')] (new_limiter 1))))"
proof -
  let ?es = "[(0, Answering ''p''), (1, Answering ''p''), (2, Answering ''p''), (3, Answering ''p''), (9, Asking ''p'')] :: (int \<times> throttled) list"
  have "(key_of \<circ> snd) ` set ?es = {''p''}" by auto
  then have "card ((key_of \<circ> snd) ` set ?es) \<le> 1" by (simp only:) simp
  from handshakes_are_throttled [OF _ this] show ?thesis by (simp del: run_limiter.simps)
qed

text \<open>With more peers about than there is room for, the peer asked last may be the one forgotten: its key keeps the place it
  first had.\<close>

lemma latest_asked_is_forgotten:
  "times_of (Asking ''a'') (fst (run_limiter [(0, Asking ''a''), (1, Asking ''b''), (30000, Asking ''a''), (30001, Asking ''c''), (30002, Asking ''a'')]
      (new_limiter 2))) = [0, 30000, 30002]"
  by code_simp

end
