(* ===== verification/E2e_Manager.thy ===== *)
theory E2e_Manager imports E2e_Keyring E2e_Handshake E2e_Limits begin

text \<open>
  \<open>manager.ts\<close> with \<open>identity.ts\<close>, \<open>ecdh.ts\<close>, \<open>aead.ts\<close> and \<open>fingerprint.ts\<close> of \<open>server/services/e2e/\<close>, for one account on
  one network.  An operation is a function from the manager's state, the keyring included, to what it returns or throws and
  the state after it: what it wrote before it threw stays.  The primitives of the crypto libraries are fields of the
  environment; the bytes of the system's generator are those of the environment's sequence, of which the state counts the
  draws.  The clock, in milliseconds, is an argument.
\<close>

section \<open>The environment and the state\<close>

record e2e_env =
  ev_tenant :: string
  ev_tsToleranceSecs :: int
  ev_random :: "nat \<Rightarrow> nat \<Rightarrow> bytes"
  ev_sha256 :: "bytes \<Rightarrow> bytes"
  ev_edPublic :: "bytes \<Rightarrow> bytes"
  ev_edSign :: "bytes \<Rightarrow> bytes \<Rightarrow> bytes option"
  ev_edVerify :: "bytes \<Rightarrow> bytes \<Rightarrow> bytes \<Rightarrow> bool"
  ev_xPublic :: "bytes \<Rightarrow> bytes"
  ev_xShared :: "bytes \<Rightarrow> bytes \<Rightarrow> bytes option"
  ev_hkdf :: "bytes \<Rightarrow> bytes \<Rightarrow> bytes \<Rightarrow> nat \<Rightarrow> bytes"
  ev_toMontgomery :: "bytes \<Rightarrow> bytes option"
  ev_toMontgomerySecret :: "bytes \<Rightarrow> bytes option"
  ev_aeadSeal :: "bytes \<Rightarrow> bytes \<Rightarrow> bytes \<Rightarrow> bytes \<Rightarrow> bytes"
  ev_aeadOpen :: "bytes \<Rightarrow> bytes \<Rightarrow> bytes \<Rightarrow> bytes \<Rightarrow> bytes option"

record identity =
  secretKey :: bytes
  publicKey :: bytes

record pending_handshake =
  ph_channel :: string
  ph_peerHandle :: "string option"
  ph_ephSecret :: bytes
  ph_createdAt :: int

record pending_inbound =
  pi_handle :: string
  pi_channel :: string
  pi_req :: key_req
  pi_createdAt :: int

datatype classify_result = NewPeer | KnownPeer | HandleChanged | FingerprintChanged | RevokedPeer

record pending_key_change =
  pk_kind :: classify_result
  pk_newPubkey :: bytes
  pk_channel :: string
  pk_createdAt :: int

record rekey_send =
  rs_channel :: string
  rs_targetHandle :: string
  rs_body :: string

record mgr =
  m_keyring :: keyring
  m_identity :: "identity option"
  m_pending :: "(string \<times> pending_handshake) list"
  m_pendingInbound :: "(string \<times> pending_inbound) list"
  m_pendingKeyChange :: "(string \<times> pending_key_change) list"
  m_pendingRekey :: "rekey_send list option"
  m_limiter :: limiter
  m_replay :: replay_cache
  m_rekeyReplay :: replay_cache
  m_draws :: nat

definition PENDING_TTL_MS :: int where
  "PENDING_TTL_MS = 10 * 60000"

definition PENDING_MAX :: nat where
  "PENDING_MAX = 4096"

definition PENDING_INBOUND_TTL_MS :: int where
  "PENDING_INBOUND_TTL_MS = 30 * 60000"

definition PENDING_INBOUND_MAX :: nat where
  "PENDING_INBOUND_MAX = 4096"

definition KEYCHANGE_TTL_MS :: int where
  "KEYCHANGE_TTL_MS = 30 * 60000"

definition KEYCHANGE_MAX :: nat where
  "KEYCHANGE_MAX = 4096"

definition REKEY_REPLAY_TTL_MS :: int where
  "REKEY_REPLAY_TTL_MS = 24 * 60 * 60000"

definition REKEY_REPLAY_MAX :: nat where
  "REKEY_REPLAY_MAX = 10000"

definition new_mgr :: "keyring \<Rightarrow> mgr" where
  "new_mgr k = \<lparr>m_keyring = k, m_identity = None, m_pending = [], m_pendingInbound = [], m_pendingKeyChange = [], m_pendingRekey = None,
     m_limiter = new_limiter 50000, m_replay = new_cache 100000, m_rekeyReplay = new_cache REKEY_REPLAY_MAX, m_draws = 0\<rparr>"

section \<open>Operations\<close>

type_synonym 'a act = "mgr \<Rightarrow> (e2e_error + 'a) \<times> mgr"

definition ret :: "'a \<Rightarrow> 'a act" where
  "ret x m = (Inr x, m)"

definition raise :: "e2e_error \<Rightarrow> 'a act" where
  "raise e m = (Inl e, m)"

definition andThen :: "'a act \<Rightarrow> ('a \<Rightarrow> 'b act) \<Rightarrow> 'b act" where
  "andThen a f m = (case a m of (Inl e, m') \<Rightarrow> (Inl e, m') | (Inr x, m') \<Rightarrow> f x m')"

text \<open>\<open>try { a } catch { h }\<close>.\<close>

definition orElse :: "'a act \<Rightarrow> 'a act \<Rightarrow> 'a act" where
  "orElse a h m = (case a m of (Inl e, m') \<Rightarrow> h m' | (Inr x, m') \<Rightarrow> (Inr x, m'))"

definition gets :: "(mgr \<Rightarrow> 'a) \<Rightarrow> 'a act" where
  "gets f m = (Inr (f m), m)"

definition modify :: "(mgr \<Rightarrow> mgr) \<Rightarrow> unit act" where
  "modify f m = (Inr (), f m)"

definition of_result :: "e2e_error + 'a \<Rightarrow> 'a act" where
  "of_result r m = (r, m)"

definition ask_keyring :: "(keyring \<Rightarrow> 'a) \<Rightarrow> 'a act" where
  "ask_keyring f m = (Inr (f (m_keyring m)), m)"

definition write_keyring :: "(keyring \<Rightarrow> keyring) \<Rightarrow> unit act" where
  "write_keyring f m = (Inr (), m\<lparr>m_keyring := f (m_keyring m)\<rparr>)"

definition count_keyring :: "(keyring \<Rightarrow> nat \<times> keyring) \<Rightarrow> nat act" where
  "count_keyring f m = (let (n, k) = f (m_keyring m) in (Inr n, m\<lparr>m_keyring := k\<rparr>))"

definition try_keyring :: "(keyring \<Rightarrow> e2e_error + keyring) \<Rightarrow> unit act" where
  "try_keyring f m = (case f (m_keyring m) of Inl e \<Rightarrow> (Inl e, m) | Inr k \<Rightarrow> (Inr (), m\<lparr>m_keyring := k\<rparr>))"

definition read_keyring :: "(keyring \<Rightarrow> e2e_error + 'a) \<Rightarrow> 'a act" where
  "read_keyring f m = (f (m_keyring m), m)"

definition randomBytes :: "e2e_env \<Rightarrow> nat \<Rightarrow> bytes act" where
  "randomBytes ev n m = (Inr (ev_random ev (m_draws m) n), m\<lparr>m_draws := Suc (m_draws m)\<rparr>)"

definition observe_in :: "(mgr \<Rightarrow> bool \<times> mgr) \<Rightarrow> bool act" where
  "observe_in f m = (let (b, m') = f m in (Inr b, m'))"

definition only_if :: "bool \<Rightarrow> unit act \<Rightarrow> unit act" where
  "only_if b a = (if b then a else ret ())"

fun for_each :: "('x \<Rightarrow> unit act) \<Rightarrow> 'x list \<Rightarrow> unit act" where
  "for_each f [] = ret ()"
| "for_each f (x # xs) = andThen (f x) (\<lambda>_. for_each f xs)"

fun collect_each :: "('x \<Rightarrow> 'y act) \<Rightarrow> 'x list \<Rightarrow> 'y list act" where
  "collect_each f [] = ret []"
| "collect_each f (x # xs) = andThen (f x) (\<lambda>y. andThen (collect_each f xs) (\<lambda>ys. ret (y # ys)))"

definition nowUnix :: "int \<Rightarrow> int" where
  "nowUnix now = now div 1000"

definition eqLower :: "string \<Rightarrow> string \<Rightarrow> bool" where
  "eqLower a b \<longleftrightarrow> to_lower a = to_lower b"

definition peerKey :: "e2e_env \<Rightarrow> string \<Rightarrow> string" where
  "peerKey ev handle = ev_tenant ev @ '':'' @ to_lower handle"

definition inboundKey :: "e2e_env \<Rightarrow> string \<Rightarrow> string \<Rightarrow> string" where
  "inboundKey ev handle channel = peerKey ev handle @ '':'' @ to_lower channel"

definition allow_incoming :: "e2e_env \<Rightarrow> int \<Rightarrow> string \<Rightarrow> bool act" where
  "allow_incoming ev now handle = observe_in (\<lambda>m. let (ok, l) = allowIncoming now (peerKey ev handle) (m_limiter m) in (ok, m\<lparr>m_limiter := l\<rparr>))"

definition allow_outgoing :: "e2e_env \<Rightarrow> int \<Rightarrow> string \<Rightarrow> bool act" where
  "allow_outgoing ev now handle = observe_in (\<lambda>m. let (ok, l) = allowOutgoing now (peerKey ev handle) (m_limiter m) in (ok, m\<lparr>m_limiter := l\<rparr>))"

definition observe_replay :: "int \<Rightarrow> string \<Rightarrow> int \<Rightarrow> bool act" where
  "observe_replay now key ttlMs = observe_in (\<lambda>m. let (ok, c) = observe now key ttlMs (m_replay m) in (ok, m\<lparr>m_replay := c\<rparr>))"

definition observe_rekey :: "int \<Rightarrow> string \<Rightarrow> int \<Rightarrow> bool act" where
  "observe_rekey now key ttlMs = observe_in (\<lambda>m. let (ok, c) = observe now key ttlMs (m_rekeyReplay m) in (ok, m\<lparr>m_rekeyReplay := c\<rparr>))"

section \<open>The primitives\<close>

definition FP_PREFIX :: string where
  "FP_PREFIX = ''RPE2E01-FP:''"

definition HKDF_WRAP_SALT :: string where
  "HKDF_WRAP_SALT = ''RPE2E01-WRAP''"

definition wrapInfo :: "string \<Rightarrow> string" where
  "wrapInfo channel = ''RPE2E01-WRAP:'' @ channel"

definition rekeyInfo :: "string \<Rightarrow> string" where
  "rekeyInfo channel = ''RPE2E01-REKEY:'' @ channel"

definition fingerprint :: "e2e_env \<Rightarrow> bytes \<Rightarrow> bytes" where
  "fingerprint ev pubkey = take 16 (ev_sha256 ev (utf8_text FP_PREFIX @ pubkey))"

definition identityFromSeed :: "e2e_env \<Rightarrow> bytes \<Rightarrow> e2e_error + identity" where
  "identityFromSeed ev seed =
     (if length seed \<noteq> 32 then Inl (CryptoError ''identity seed must be 32 bytes'')
      else Inr \<lparr>secretKey = seed, publicKey = ev_edPublic ev seed\<rparr>)"

definition sign :: "e2e_env \<Rightarrow> bytes \<Rightarrow> bytes \<Rightarrow> e2e_error + bytes" where
  "sign ev secret message =
     (if length secret \<noteq> 32 then Inl (CryptoError ''secret key must be 32 bytes'')
      else case ev_edSign ev message secret of None \<Rightarrow> Inl (CryptoError ''sign'') | Some s \<Rightarrow> Inr s)"

definition verify :: "e2e_env \<Rightarrow> bytes \<Rightarrow> bytes \<Rightarrow> bytes \<Rightarrow> bool" where
  "verify ev pubkey message sig = ev_edVerify ev sig message pubkey"

definition generateEphemeral :: "e2e_env \<Rightarrow> (bytes \<times> bytes) act" where
  "generateEphemeral ev = andThen (randomBytes ev 32) (\<lambda>s. ret (s, ev_xPublic ev s))"

definition deriveWrapKey :: "e2e_env \<Rightarrow> bytes \<Rightarrow> bytes \<Rightarrow> bytes \<Rightarrow> e2e_error + bytes" where
  "deriveWrapKey ev mySecret peerPublic info =
     (case ev_xShared ev mySecret peerPublic of
        None \<Rightarrow> Inl (CryptoError ''derive wrap key'')
      | Some shared \<Rightarrow> Inr (ev_hkdf ev shared (utf8_text HKDF_WRAP_SALT) info 32))"

definition ed25519PubToX25519 :: "e2e_env \<Rightarrow> bytes \<Rightarrow> e2e_error + bytes" where
  "ed25519PubToX25519 ev edPub = (case ev_toMontgomery ev edPub of None \<Rightarrow> Inl (CryptoError ''invalid ed25519 pub'') | Some x \<Rightarrow> Inr x)"

definition ed25519SeedToX25519 :: "e2e_env \<Rightarrow> bytes \<Rightarrow> e2e_error + bytes" where
  "ed25519SeedToX25519 ev edSeed =
     (case ev_toMontgomerySecret ev edSeed of None \<Rightarrow> Inl (CryptoError ''invalid ed25519 seed'') | Some x \<Rightarrow> Inr x)"

definition aead_encrypt :: "e2e_env \<Rightarrow> bytes \<Rightarrow> bytes \<Rightarrow> bytes \<Rightarrow> (bytes \<times> bytes) act" where
  "aead_encrypt ev key aad plaintext =
     (if length key \<noteq> KEY_LEN then raise (CryptoError ''key must be 32 bytes'')
      else andThen (randomBytes ev NONCE_LEN) (\<lambda>nonce. ret (nonce, ev_aeadSeal ev key nonce aad plaintext)))"

definition aead_decrypt :: "e2e_env \<Rightarrow> bytes \<Rightarrow> bytes \<Rightarrow> bytes \<Rightarrow> bytes \<Rightarrow> e2e_error + bytes" where
  "aead_decrypt ev key nonce aad ct =
     (if length key \<noteq> KEY_LEN then Inl (CryptoError ''key must be 32 bytes'')
      else if length nonce \<noteq> NONCE_LEN then Inl (CryptoError ''nonce must be 24 bytes'')
      else case ev_aeadOpen ev key nonce aad ct of None \<Rightarrow> Inl (CryptoError ''aead decrypt'') | Some pt \<Rightarrow> Inr pt)"

definition generateSessionKey :: "e2e_env \<Rightarrow> bytes act" where
  "generateSessionKey ev = randomBytes ev KEY_LEN"

section \<open>The identity\<close>

definition keyring_loadIdentity :: "keyring \<Rightarrow> e2e_error + (bytes \<times> identity_row) option" where
  "keyring_loadIdentity k =
     (case kg_identity k of
        None \<Rightarrow> Inr None
      | Some r \<Rightarrow> (case openKey (id_privkey r) of Inl e \<Rightarrow> Inl e | Inr s \<Rightarrow> Inr (Some (s, r))))"

definition loadIdentity :: "e2e_env \<Rightarrow> int \<Rightarrow> identity act" where
  "loadIdentity ev now =
     andThen (gets m_identity) (\<lambda>cached. case cached of
       Some idn \<Rightarrow> ret idn
     | None \<Rightarrow>
         andThen (read_keyring keyring_loadIdentity) (\<lambda>row.
         andThen (case row of
             Some (privkey, r) \<Rightarrow>
               andThen (of_result (identityFromSeed ev privkey)) (\<lambda>idn.
                 if publicKey idn \<noteq> id_pubkey r then raise (KeyringError ''stored identity pubkey does not match secret'')
                 else if fingerprint ev (publicKey idn) \<noteq> id_fingerprint r
                 then raise (KeyringError ''stored identity fingerprint does not match pubkey'')
                 else ret idn)
           | None \<Rightarrow>
               andThen (randomBytes ev 32) (\<lambda>seed.
               andThen (of_result (identityFromSeed ev seed)) (\<lambda>idn.
               andThen (try_keyring (saveIdentity (publicKey idn) (secretKey idn) (fingerprint ev (publicKey idn)) (nowUnix now)))
                 (\<lambda>_. ret idn))))
         (\<lambda>idn. andThen (modify (\<lambda>m. m\<lparr>m_identity := Some idn\<rparr>)) (\<lambda>_. ret idn))))"


definition getIdentity :: "e2e_env \<Rightarrow> int \<Rightarrow> (bytes \<times> bytes) option act" where
  "getIdentity ev now =
     orElse (andThen (loadIdentity ev now) (\<lambda>idn. ret (Some (publicKey idn, fingerprint ev (publicKey idn))))) (ret None)"

section \<open>Channel configuration\<close>

definition setChannelConfig :: "string \<Rightarrow> bool \<Rightarrow> channel_mode \<Rightarrow> bool act" where
  "setChannelConfig channel enabled md =
     orElse (andThen (write_keyring (setChannelConfig_row \<lparr>cf_channel = channel, cf_enabled = enabled, cf_mode = md\<rparr>)) (\<lambda>_. ret True))
       (ret False)"

definition channel_enabled :: "string \<Rightarrow> keyring \<Rightarrow> bool" where
  "channel_enabled channel k = (case getChannelConfig channel k of None \<Rightarrow> False | Some cfg \<Rightarrow> cf_enabled cfg)"

definition isChannelEnabled :: "string \<Rightarrow> bool act" where
  "isChannelEnabled channel = orElse (ask_keyring (channel_enabled channel)) (ret False)"

definition setChannelMode :: "string \<Rightarrow> channel_mode \<Rightarrow> bool act" where
  "setChannelMode channel md =
     andThen (ask_keyring (getChannelConfig channel)) (\<lambda>existing.
       setChannelConfig channel (case existing of None \<Rightarrow> True | Some cfg \<Rightarrow> cf_enabled cfg) md)"

definition effectiveMode :: "string \<Rightarrow> string \<Rightarrow> keyring \<Rightarrow> channel_mode option" where
  "effectiveMode handle channel k =
     (case getChannelConfig channel k of
        None \<Rightarrow> None
      | Some cfg \<Rightarrow>
          if \<not> cf_enabled cfg then None
          else if autotrustMatches handle channel k then Some AutoAccept
          else Some (cf_mode cfg))"

section \<open>Trust on first use\<close>

definition classifyPeerChange :: "bytes \<Rightarrow> string \<Rightarrow> keyring \<Rightarrow> classify_result" where
  "classifyPeerChange fp handle k =
     (case getPeerByFingerprint fp k of
        Some byFp \<Rightarrow>
          if pr_globalStatus byFp = Revoked then RevokedPeer
          else (case pr_lastHandle byFp of
                  None \<Rightarrow> HandleChanged
                | Some h \<Rightarrow> if h = [] \<or> \<not> eqLower h handle then HandleChanged else KnownPeer)
      | None \<Rightarrow>
          (case getPeerByHandle handle k of
             Some byHandle \<Rightarrow> if pr_fingerprint byHandle \<noteq> fp then FingerprintChanged else NewPeer
           | None \<Rightarrow> NewPeer))"

definition isTofuBlock :: "classify_result \<Rightarrow> bool" where
  "isTofuBlock c \<longleftrightarrow> c = RevokedPeer \<or> c = FingerprintChanged \<or> c = HandleChanged"

definition seen_peer :: "bytes \<Rightarrow> bytes \<Rightarrow> string \<Rightarrow> string option \<Rightarrow> int \<Rightarrow> peer_record" where
  "seen_peer fp pubkey handle nick t =
     \<lparr>pr_fingerprint = fp, pr_pubkey = pubkey, pr_lastHandle = Some handle, pr_lastNick = nick, pr_firstSeen = t, pr_lastSeen = t,
      pr_globalStatus = Pending\<rparr>"

definition upsertSeenPeer :: "int \<Rightarrow> bytes \<Rightarrow> bytes \<Rightarrow> string \<Rightarrow> string option \<Rightarrow> unit act" where
  "upsertSeenPeer now fp pubkey handle nick = write_keyring (upsertPeer (seen_peer fp pubkey handle nick (nowUnix now)))"

definition sweepMap :: "int \<Rightarrow> ('v \<Rightarrow> int) \<Rightarrow> int \<Rightarrow> nat \<Rightarrow> (string \<times> 'v) list \<Rightarrow> (string \<times> 'v) list" where
  "sweepMap now created ttlMs maxSize mp = cap_map maxSize (filter (\<lambda>(k, v). now - created v \<le> ttlMs) mp)"

definition sweepPending :: "int \<Rightarrow> unit act" where
  "sweepPending now = modify (\<lambda>m. m\<lparr>m_pending := sweepMap now ph_createdAt PENDING_TTL_MS PENDING_MAX (m_pending m)\<rparr>)"

definition stashKeyChange :: "e2e_env \<Rightarrow> int \<Rightarrow> string \<Rightarrow> classify_result \<Rightarrow> bytes \<Rightarrow> string \<Rightarrow> unit act" where
  "stashKeyChange ev now handle change pubkey channel =
     (if change \<noteq> FingerprintChanged \<and> change \<noteq> HandleChanged then ret ()
      else modify (\<lambda>m. m\<lparr>m_pendingKeyChange :=
        AList.update (peerKey ev handle) \<lparr>pk_kind = change, pk_newPubkey = pubkey, pk_channel = channel, pk_createdAt = now\<rparr>
          (sweepMap now pk_createdAt KEYCHANGE_TTL_MS KEYCHANGE_MAX (m_pendingKeyChange m))\<rparr>))"

definition clearKeyChange :: "e2e_env \<Rightarrow> string \<Rightarrow> unit act" where
  "clearKeyChange ev handle = modify (\<lambda>m. m\<lparr>m_pendingKeyChange := AList.delete (peerKey ev handle) (m_pendingKeyChange m)\<rparr>)"

definition hasTrustedIncoming :: "string \<Rightarrow> string \<Rightarrow> bool act" where
  "hasTrustedIncoming handle channel =
     andThen (read_keyring (getIncomingSession handle channel)) (\<lambda>s. ret (case s of None \<Rightarrow> False | Some (_, r) \<Rightarrow> in_status r = Trusted))"

definition installIncoming :: "string \<Rightarrow> string \<Rightarrow> bytes \<Rightarrow> bytes \<Rightarrow> int \<Rightarrow> bool act" where
  "installIncoming handle channel fp sk createdAt m =
     (case installIncomingSessionStrict handle channel fp sk Trusted createdAt (m_keyring m) of
        Inr k \<Rightarrow> (Inr True, m\<lparr>m_keyring := k\<rparr>)
      | Inl e \<Rightarrow> if e = HandleMismatchError then (Inr False, m) else (Inl e, m))"

section \<open>What a handshake comes to\<close>

text \<open>What the user is told; the texts are the view's.\<close>

datatype user_notice = WantsEnable string string | WantsAccept string string | Established string string | NothingToAccept string |
  TofuWarning string classify_result bytes

record handshake_outcome =
  oc_replies :: "string list"
  oc_notice :: "user_notice option"
  oc_channel :: "string option"

definition no_outcome :: handshake_outcome where
  "no_outcome = \<lparr>oc_replies = [], oc_notice = None, oc_channel = None\<rparr>"

definition notice :: "user_notice \<Rightarrow> string \<Rightarrow> handshake_outcome" where
  "notice n channel = \<lparr>oc_replies = [], oc_notice = Some n, oc_channel = Some channel\<rparr>"

section \<open>Asking for a key\<close>

definition buildKeyReqStruct :: "e2e_env \<Rightarrow> int \<Rightarrow> string \<Rightarrow> string option \<Rightarrow> key_req act" where
  "buildKeyReqStruct ev now channel peerHandle =
     andThen (loadIdentity ev now) (\<lambda>idn.
     andThen (randomBytes ev 16) (\<lambda>nonce.
     andThen (generateEphemeral ev) (\<lambda>(ephSecret, ephPub).
     andThen (of_result (sign ev (secretKey idn) (sigPayloadKeyReq channel (publicKey idn) ephPub nonce))) (\<lambda>sig.
     andThen (sweepPending now) (\<lambda>_.
     andThen (modify (\<lambda>m. m\<lparr>m_pending := AList.update (ev_tenant ev @ '':'' @ channel @ '':'' @ to_hex nonce)
        \<lparr>ph_channel = channel, ph_peerHandle = peerHandle, ph_ephSecret = ephSecret, ph_createdAt = now\<rparr> (m_pending m)\<rparr>)) (\<lambda>_.
     ret \<lparr>kq_channel = channel, kq_pubkey = publicKey idn, kq_ephX25519 = ephPub, kq_nonce = nonce, kq_sig = sig\<rparr>))))))"

definition buildKeyReq :: "e2e_env \<Rightarrow> int \<Rightarrow> string \<Rightarrow> string option \<Rightarrow> string option act" where
  "buildKeyReq ev now channel peerHandle =
     orElse (andThen (buildKeyReqStruct ev now channel peerHandle) (\<lambda>req. andThen (of_result (encodeKeyReq req)) (\<lambda>s. ret (Some s))))
       (ret None)"

definition peer_revoked :: "string \<Rightarrow> keyring \<Rightarrow> bool" where
  "peer_revoked handle k = (case getPeerByHandle handle k of None \<Rightarrow> False | Some p \<Rightarrow> pr_globalStatus p = Revoked)"

definition wouldAutoHandshake :: "e2e_env \<Rightarrow> int \<Rightarrow> string \<Rightarrow> bool act" where
  "wouldAutoHandshake ev now peerHandle =
     orElse (andThen (ask_keyring (peer_revoked peerHandle)) (\<lambda>rev.
       if rev then ret False else gets (\<lambda>m. canSendOutgoing now (peerKey ev peerHandle) (m_limiter m)))) (ret False)"

definition autoHandshakeBody :: "e2e_env \<Rightarrow> int \<Rightarrow> string \<Rightarrow> string \<Rightarrow> string option act" where
  "autoHandshakeBody ev now channel peerHandle =
     orElse (andThen (ask_keyring (peer_revoked peerHandle)) (\<lambda>rev.
       if rev then ret None
       else andThen (allow_outgoing ev now peerHandle) (\<lambda>ok.
         if \<not> ok then ret None
         else andThen (buildKeyReqStruct ev now channel (Some peerHandle)) (\<lambda>req.
              andThen (of_result (encodeKeyReq req)) (\<lambda>s. ret (Some s)))))) (ret None)"

section \<open>Our own key and its rotation\<close>

definition buildRekeyBody :: "e2e_env \<Rightarrow> int \<Rightarrow> string \<Rightarrow> bytes \<Rightarrow> bytes \<Rightarrow> string act" where
  "buildRekeyBody ev now channel recipientEdPub freshSk =
     andThen (loadIdentity ev now) (\<lambda>idn.
     andThen (generateEphemeral ev) (\<lambda>(ephSecret, ephPub).
     andThen (of_result (ed25519PubToX25519 ev recipientEdPub)) (\<lambda>recipientX.
     let info = utf8_text (rekeyInfo channel) in
     andThen (of_result (deriveWrapKey ev ephSecret recipientX info)) (\<lambda>wrapKey.
     andThen (aead_encrypt ev wrapKey info freshSk) (\<lambda>(wn, ct).
     andThen (randomBytes ev 16) (\<lambda>nonce.
     andThen (of_result (sign ev (secretKey idn) (sigPayloadKeyRekey channel (publicKey idn) ephPub wn ct nonce))) (\<lambda>sig.
     of_result (encodeKeyRekey \<lparr>kr_channel = channel, kr_pubkey = publicKey idn, kr_ephemeralPub = ephPub, kr_wrapNonce = wn,
       kr_wrapCt = ct, kr_nonce = nonce, kr_sig = sig\<rparr>))))))))"

text \<open>A recipient without a pinned peer, or whose key can't be built, is skipped.\<close>

definition rekey_for :: "e2e_env \<Rightarrow> int \<Rightarrow> string \<Rightarrow> bytes \<Rightarrow> recipient_row \<Rightarrow> rekey_send list act" where
  "rekey_for ev now channel freshSk r =
     andThen (ask_keyring (getPeerByFingerprint (rp_fingerprint r))) (\<lambda>peer. case peer of
       None \<Rightarrow> ret []
     | Some p \<Rightarrow>
         orElse (andThen (buildRekeyBody ev now channel (pr_pubkey p) freshSk) (\<lambda>body.
           ret [\<lparr>rs_channel = channel, rs_targetHandle = (case pr_lastHandle p of Some h \<Rightarrow> h | None \<Rightarrow> rp_handle r), rs_body = body\<rparr>]))
         (ret []))"

definition queueRekeyDistribution :: "e2e_env \<Rightarrow> int \<Rightarrow> string \<Rightarrow> bytes \<Rightarrow> unit act" where
  "queueRekeyDistribution ev now channel freshSk =
     andThen (ask_keyring (listOutgoingRecipients channel)) (\<lambda>recipients.
     andThen (collect_each (rekey_for ev now channel freshSk) recipients) (\<lambda>sends.
       if concat sends = [] then ret ()
       else modify (\<lambda>m. m\<lparr>m_pendingRekey := Some ((case m_pendingRekey m of Some q \<Rightarrow> q | None \<Rightarrow> []) @ concat sends)\<rparr>)))"

definition getOrGenerateOutgoingKey :: "e2e_env \<Rightarrow> int \<Rightarrow> string \<Rightarrow> bytes act" where
  "getOrGenerateOutgoingKey ev now channel =
     andThen (read_keyring (getOutgoingSession channel)) (\<lambda>sess.
     let fresh_key = (\<lambda>rotating.
       andThen (generateSessionKey ev) (\<lambda>fresh.
       andThen (only_if rotating (queueRekeyDistribution ev now channel fresh)) (\<lambda>_.
       andThen (try_keyring (setOutgoingSession channel fresh (nowUnix now))) (\<lambda>_.
       ret fresh)))) in
     case sess of
       Some (sk, r) \<Rightarrow> if \<not> og_pendingRotation r then ret sk else fresh_key True
     | None \<Rightarrow> fresh_key False)"

definition rotateChannel :: "string \<Rightarrow> bool act" where
  "rotateChannel channel =
     orElse (andThen (read_keyring (getOutgoingSession channel)) (\<lambda>sess.
       if sess = None then ret False
       else andThen (write_keyring (markOutgoingPendingRotation channel)) (\<lambda>_. ret True))) (ret False)"

definition takePendingRekeySends :: "rekey_send list act" where
  "takePendingRekeySends =
     andThen (gets m_pendingRekey) (\<lambda>queue. case queue of
       None \<Rightarrow> ret []
     | Some q \<Rightarrow> if q = [] then ret [] else andThen (modify (\<lambda>m. m\<lparr>m_pendingRekey := None\<rparr>)) (\<lambda>_. ret q))"

definition putBackRekeySend :: "rekey_send \<Rightarrow> unit act" where
  "putBackRekeySend send =
     modify (\<lambda>m. let queue = (case m_pendingRekey m of Some q \<Rightarrow> q | None \<Rightarrow> []) in
       m\<lparr>m_pendingRekey := Some (if list_ex (\<lambda>s. rs_channel s = rs_channel send \<and> rs_targetHandle s = rs_targetHandle send) queue
          then queue else send # queue)\<rparr>)"


section \<open>Answering\<close>

definition cachePendingInbound :: "e2e_env \<Rightarrow> int \<Rightarrow> string \<Rightarrow> key_req \<Rightarrow> unit act" where
  "cachePendingInbound ev now handle req =
     modify (\<lambda>m. m\<lparr>m_pendingInbound := AList.update (inboundKey ev handle (kq_channel req))
        \<lparr>pi_handle = handle, pi_channel = kq_channel req, pi_req = req, pi_createdAt = now\<rparr>
        (sweepMap now pi_createdAt PENDING_INBOUND_TTL_MS PENDING_INBOUND_MAX (m_pendingInbound m))\<rparr>)"

definition buildKeyRspAndReciprocal :: "e2e_env \<Rightarrow> int \<Rightarrow> string \<Rightarrow> key_req \<Rightarrow> bool \<Rightarrow> handshake_outcome act" where
  "buildKeyRspAndReciprocal ev now senderHandle req alreadyTrusted =
     (let channel = kq_channel req; fp = fingerprint ev (kq_pubkey req) in
     andThen (loadIdentity ev now) (\<lambda>idn.
     andThen (write_keyring (setPeerStatus fp Trusted)) (\<lambda>_.
     andThen (getOrGenerateOutgoingKey ev now channel) (\<lambda>ourSk.
     andThen (write_keyring (recordOutgoingRecipient channel senderHandle fp (nowUnix now))) (\<lambda>_.
     andThen (generateEphemeral ev) (\<lambda>(ephSecret, ephPub).
     let info = utf8_text (wrapInfo channel) in
     andThen (of_result (deriveWrapKey ev ephSecret (kq_ephX25519 req) info)) (\<lambda>wrapKey.
     andThen (aead_encrypt ev wrapKey info ourSk) (\<lambda>(wn, ct).
     andThen (randomBytes ev 16) (\<lambda>rspNonce.
     andThen (of_result (sign ev (secretKey idn) (sigPayloadKeyRsp channel (publicKey idn) ephPub wn ct rspNonce))) (\<lambda>sig.
     andThen (of_result (encodeKeyRsp \<lparr>kr_channel = channel, kr_pubkey = publicKey idn, kr_ephemeralPub = ephPub, kr_wrapNonce = wn,
       kr_wrapCt = ct, kr_nonce = rspNonce, kr_sig = sig\<rparr>)) (\<lambda>rsp.
     if alreadyTrusted then ret (no_outcome\<lparr>oc_replies := [rsp]\<rparr>)
     else andThen (allow_outgoing ev now senderHandle) (\<lambda>ok.
       if \<not> ok then ret (no_outcome\<lparr>oc_replies := [rsp]\<rparr>)
       else andThen (buildKeyReqStruct ev now channel (Some senderHandle)) (\<lambda>req'.
            andThen (of_result (encodeKeyReq req')) (\<lambda>s. ret (no_outcome\<lparr>oc_replies := [rsp, s]\<rparr>)))))))))))))))"

definition handleKeyReq :: "e2e_env \<Rightarrow> int \<Rightarrow> string \<Rightarrow> string option \<Rightarrow> key_req \<Rightarrow> handshake_outcome act" where
  "handleKeyReq ev now senderHandle senderNick req =
     (let channel = kq_channel req; who = (case senderNick of Some n \<Rightarrow> n | None \<Rightarrow> senderHandle);
          fp = fingerprint ev (kq_pubkey req) in
     andThen (allow_incoming ev now senderHandle) (\<lambda>ok.
     if \<not> ok then ret no_outcome
     else andThen (loadIdentity ev now) (\<lambda>idn.
     if kq_pubkey req = publicKey idn then ret no_outcome
     else if \<not> verify ev (kq_pubkey req) (sigPayloadKeyReq channel (kq_pubkey req) (kq_ephX25519 req) (kq_nonce req)) (kq_sig req)
     then ret no_outcome
     else andThen (ask_keyring (effectiveMode senderHandle channel)) (\<lambda>mode. case mode of
       None \<Rightarrow> ret (notice (WantsEnable who channel) channel)
     | Some md \<Rightarrow>
         andThen (ask_keyring (classifyPeerChange fp senderHandle)) (\<lambda>change.
         if isTofuBlock change then
           andThen (stashKeyChange ev now senderHandle change (kq_pubkey req) channel)
             (\<lambda>_. ret (notice (TofuWarning senderHandle change fp) channel))
         else
           andThen (upsertSeenPeer now fp (kq_pubkey req) senderHandle senderNick) (\<lambda>_.
           andThen (hasTrustedIncoming senderHandle channel) (\<lambda>alreadyTrusted.
           if md = Normal \<and> \<not> alreadyTrusted then
             andThen (cachePendingInbound ev now senderHandle req) (\<lambda>_. ret (notice (WantsAccept who channel) channel))
           else if md = Quiet \<and> \<not> alreadyTrusted then ret no_outcome
           else buildKeyRspAndReciprocal ev now senderHandle req alreadyTrusted)))))))"

text \<open>The pending handshakes are tried in turn; the first whose secret opens the wrapped key is used up.\<close>

definition open_pending :: "e2e_env \<Rightarrow> key_rsp \<Rightarrow> pending_handshake \<Rightarrow> bytes option" where
  "open_pending ev rsp ph =
     (if ph_channel ph \<noteq> kr_channel rsp then None
      else let info = utf8_text (wrapInfo (kr_channel rsp)) in
           case deriveWrapKey ev (ph_ephSecret ph) (kr_ephemeralPub rsp) info of
             Inl _ \<Rightarrow> None
           | Inr wrapKey \<Rightarrow>
               (case aead_decrypt ev wrapKey (kr_wrapNonce rsp) info (kr_wrapCt rsp) of
                  Inl _ \<Rightarrow> None
                | Inr sk \<Rightarrow> if length sk \<noteq> 32 then None else Some sk))"

fun first_opening :: "e2e_env \<Rightarrow> key_rsp \<Rightarrow> (string \<times> pending_handshake) list \<Rightarrow> (string \<times> bytes) option" where
  "first_opening ev rsp [] = None"
| "first_opening ev rsp ((key, ph) # rest) =
     (case open_pending ev rsp ph of Some sk \<Rightarrow> Some (key, sk) | None \<Rightarrow> first_opening ev rsp rest)"

definition consumePendingForKeyRsp :: "e2e_env \<Rightarrow> int \<Rightarrow> key_rsp \<Rightarrow> bytes option act" where
  "consumePendingForKeyRsp ev now rsp =
     andThen (sweepPending now) (\<lambda>_.
     andThen (gets (\<lambda>m. first_opening ev rsp (m_pending m))) (\<lambda>found. case found of
       None \<Rightarrow> ret None
     | Some (key, sk) \<Rightarrow> andThen (modify (\<lambda>m. m\<lparr>m_pending := AList.delete key (m_pending m)\<rparr>)) (\<lambda>_. ret (Some sk))))"

definition hasPendingForChannel :: "string \<Rightarrow> mgr \<Rightarrow> bool" where
  "hasPendingForChannel channel m = list_ex (\<lambda>(_, ph). ph_channel ph = channel) (m_pending m)"

text \<open>The end of both handlers that install a key: the session is pinned to another key, or it has this one now.\<close>

definition install_or_warn :: "e2e_env \<Rightarrow> int \<Rightarrow> string \<Rightarrow> key_rsp \<Rightarrow> bytes \<Rightarrow> handshake_outcome \<Rightarrow> handshake_outcome act" where
  "install_or_warn ev now senderHandle rsp sk done_outcome =
     (let fp = fingerprint ev (kr_pubkey rsp) in
     andThen (installIncoming senderHandle (kr_channel rsp) fp sk (nowUnix now)) (\<lambda>ok.
     if \<not> ok then
       andThen (stashKeyChange ev now senderHandle FingerprintChanged (kr_pubkey rsp) (kr_channel rsp))
         (\<lambda>_. ret (notice (TofuWarning senderHandle FingerprintChanged fp) (kr_channel rsp)))
     else ret done_outcome))"

definition handleKeyRsp :: "e2e_env \<Rightarrow> int \<Rightarrow> string \<Rightarrow> key_rsp \<Rightarrow> handshake_outcome act" where
  "handleKeyRsp ev now senderHandle rsp =
     (let channel = kr_channel rsp; fp = fingerprint ev (kr_pubkey rsp) in
     andThen (gets (hasPendingForChannel channel)) (\<lambda>waiting.
     if \<not> waiting then ret no_outcome
     else if \<not> verify ev (kr_pubkey rsp)
       (sigPayloadKeyRsp channel (kr_pubkey rsp) (kr_ephemeralPub rsp) (kr_wrapNonce rsp) (kr_wrapCt rsp) (kr_nonce rsp)) (kr_sig rsp)
     then ret no_outcome
     else andThen (consumePendingForKeyRsp ev now rsp) (\<lambda>opened. case opened of
       None \<Rightarrow> ret no_outcome
     | Some sk \<Rightarrow>
         andThen (ask_keyring (classifyPeerChange fp senderHandle)) (\<lambda>change.
         if isTofuBlock change then
           andThen (stashKeyChange ev now senderHandle change (kr_pubkey rsp) channel)
             (\<lambda>_. ret (notice (TofuWarning senderHandle change fp) channel))
         else
           andThen (write_keyring (upsertPeer (seen_peer fp (kr_pubkey rsp) senderHandle None (nowUnix now)))) (\<lambda>_.
           andThen (write_keyring (setPeerStatus fp Trusted)) (\<lambda>_.
           install_or_warn ev now senderHandle rsp sk (notice (Established senderHandle channel) channel)))))))"

definition rekey_replay_key :: "e2e_env \<Rightarrow> string \<Rightarrow> key_rekey \<Rightarrow> string" where
  "rekey_replay_key ev senderHandle rk =
     peerKey ev senderHandle @ '':'' @ to_lower (kr_channel rk) @ '':'' @ to_base64 (kr_nonce rk)"

definition handleRekey :: "e2e_env \<Rightarrow> int \<Rightarrow> string \<Rightarrow> key_rekey \<Rightarrow> handshake_outcome act" where
  "handleRekey ev now senderHandle rk =
     (let channel = kr_channel rk; fp = fingerprint ev (kr_pubkey rk) in
     andThen (allow_incoming ev now senderHandle) (\<lambda>ok.
     if \<not> ok then ret no_outcome
     else andThen (loadIdentity ev now) (\<lambda>idn.
     if kr_pubkey rk = publicKey idn then ret no_outcome
     else if \<not> verify ev (kr_pubkey rk)
       (sigPayloadKeyRekey channel (kr_pubkey rk) (kr_ephemeralPub rk) (kr_wrapNonce rk) (kr_wrapCt rk) (kr_nonce rk)) (kr_sig rk)
     then ret no_outcome
     else andThen (observe_rekey now (rekey_replay_key ev senderHandle rk) REKEY_REPLAY_TTL_MS) (\<lambda>fresh.
     if \<not> fresh then ret no_outcome
     else andThen (ask_keyring (classifyPeerChange fp senderHandle)) (\<lambda>change.
     if change = NewPeer then ret no_outcome
     else if isTofuBlock change then
       andThen (stashKeyChange ev now senderHandle change (kr_pubkey rk) channel)
         (\<lambda>_. ret (notice (TofuWarning senderHandle change fp) channel))
     else andThen (loadIdentity ev now) (\<lambda>idn.
     let info = utf8_text (rekeyInfo channel) in
     andThen (of_result (ed25519SeedToX25519 ev (secretKey idn))) (\<lambda>ours.
     andThen (of_result (deriveWrapKey ev ours (kr_ephemeralPub rk) info)) (\<lambda>wrapKey.
     case aead_decrypt ev wrapKey (kr_wrapNonce rk) info (kr_wrapCt rk) of
       Inl _ \<Rightarrow> ret no_outcome
     | Inr sk \<Rightarrow> if length sk \<noteq> 32 then ret no_outcome else install_or_warn ev now senderHandle rk sk no_outcome))))))))"

definition handleHandshakeBody :: "e2e_env \<Rightarrow> int \<Rightarrow> string \<Rightarrow> string option \<Rightarrow> string \<Rightarrow> handshake_outcome option act" where
  "handleHandshakeBody ev now senderHandle senderNick body =
     (case parseHandshake body of
        Inl _ \<Rightarrow> ret (Some no_outcome)
      | Inr None \<Rightarrow> ret None
      | Inr (Some msg) \<Rightarrow>
          orElse (andThen (case msg of
              KEYREQ req \<Rightarrow> handleKeyReq ev now senderHandle senderNick req
            | KEYRSP rsp \<Rightarrow> handleKeyRsp ev now senderHandle rsp
            | REKEY rk \<Rightarrow> handleRekey ev now senderHandle rk) (\<lambda>oc. ret (Some oc)))
            (ret (Some no_outcome)))"

definition acceptPending :: "e2e_env \<Rightarrow> int \<Rightarrow> string \<Rightarrow> string \<Rightarrow> handshake_outcome act" where
  "acceptPending ev now senderHandle channel =
     (let key = inboundKey ev senderHandle channel in
     orElse (andThen (gets (\<lambda>m. map_of (m_pendingInbound m) key)) (\<lambda>entry. case entry of
       None \<Rightarrow> ret (notice (NothingToAccept senderHandle) channel)
     | Some e \<Rightarrow>
         andThen (modify (\<lambda>m. m\<lparr>m_pendingInbound := AList.delete key (m_pendingInbound m)\<rparr>)) (\<lambda>_.
         andThen (hasTrustedIncoming senderHandle channel) (\<lambda>alreadyTrusted.
         buildKeyRspAndReciprocal ev now senderHandle (pi_req e) alreadyTrusted))))
       (ret no_outcome))"

section \<open>Encryption and decryption\<close>

datatype check_outcome = CheckDisabled | CheckOk | CheckError

datatype encrypt_outcome = Disabled | Encrypted "string list" | EncryptError

datatype decrypt_outcome = Plaintext "nat list" | Cleartext string | MissingKey | Replay | Rejected string

definition checkOutgoing :: "string \<Rightarrow> nat list \<Rightarrow> check_outcome act" where
  "checkOutgoing channel plaintext =
     andThen (ask_keyring (channel_enabled channel)) (\<lambda>on.
       if \<not> on then ret CheckDisabled
       else ret (case splitPlaintext plaintext of Inl _ \<Rightarrow> CheckError | Inr _ \<Rightarrow> CheckOk))"

definition prepareOutgoing :: "e2e_env \<Rightarrow> int \<Rightarrow> string \<Rightarrow> bool act" where
  "prepareOutgoing ev now channel = orElse (andThen (getOrGenerateOutgoingKey ev now channel) (\<lambda>_. ret True)) (ret False)"

definition encrypt_chunk :: "e2e_env \<Rightarrow> string \<Rightarrow> bytes \<Rightarrow> bytes \<Rightarrow> int \<Rightarrow> nat \<Rightarrow> nat \<times> bytes \<Rightarrow> string act" where
  "encrypt_chunk ev channel sk msgid ts tot pc =
     (let (idx, chunk) = pc; part = idx + 1 in
     andThen (of_result (buildAad channel msgid ts part tot)) (\<lambda>aad.
     andThen (aead_encrypt ev sk aad chunk) (\<lambda>(nonce, ct).
     of_result (encodeChunk \<lparr>wc_msgid = msgid, wc_ts = ts, wc_part = part, wc_total = tot, wc_nonce = nonce, wc_ciphertext = ct\<rparr>))))"

definition encryptOutgoing :: "e2e_env \<Rightarrow> int \<Rightarrow> string \<Rightarrow> nat list \<Rightarrow> encrypt_outcome act" where
  "encryptOutgoing ev now channel plaintext =
     orElse (andThen (ask_keyring (channel_enabled channel)) (\<lambda>on.
       if \<not> on then ret Disabled
       else case splitPlaintext plaintext of
         Inl _ \<Rightarrow> ret EncryptError
       | Inr chunks \<Rightarrow>
           andThen (getOrGenerateOutgoingKey ev now channel) (\<lambda>sk.
           andThen (randomBytes ev MSGID_LEN) (\<lambda>msgid.
           andThen (collect_each (encrypt_chunk ev channel sk msgid (nowUnix now) (length chunks)) (enumerate 0 chunks)) (\<lambda>lines.
           ret (Encrypted lines)))))) (ret EncryptError)"

definition replay_key :: "e2e_env \<Rightarrow> string \<Rightarrow> string \<Rightarrow> wire_chunk \<Rightarrow> string" where
  "replay_key ev channel senderHandle w =
     ev_tenant ev @ '':'' @ channel @ '':'' @ senderHandle @ '':'' @ to_hex (wc_msgid w) @ '':'' @ digits_of (wc_part w)"

text \<open>The text of a chunk that is authentic, or why there is none.\<close>

definition open_chunk :: "e2e_env \<Rightarrow> string \<Rightarrow> bytes \<Rightarrow> wire_chunk \<Rightarrow> e2e_error + (decrypt_outcome + nat list)" where
  "open_chunk ev channel sk w =
     attempt (buildAad channel (wc_msgid w) (wc_ts w) (wc_part w) (wc_total w)) (\<lambda>aad.
       case aead_decrypt ev sk (wc_nonce w) aad (wc_ciphertext w) of
         Inl _ \<Rightarrow> Inr (Inl (Rejected ''authentication failed''))
       | Inr pt \<Rightarrow>
           (case decode_text pt of None \<Rightarrow> Inr (Inl (Rejected ''invalid utf-8'')) | Some t \<Rightarrow> Inr (Inr t)))"

definition decryptIncoming :: "e2e_env \<Rightarrow> int \<Rightarrow> string \<Rightarrow> string \<Rightarrow> string \<Rightarrow> decrypt_outcome act" where
  "decryptIncoming ev now senderHandle channel line =
     orElse (case parseChunk line of
       Inl _ \<Rightarrow> ret (Rejected ''malformed RPE2E line'')
     | Inr None \<Rightarrow> ret (Cleartext line)
     | Inr (Some w) \<Rightarrow>
         if ev_tsToleranceSecs ev < \<bar>nowUnix now - wc_ts w\<bar> then ret (Rejected ''ts outside tolerance window'')
         else andThen (read_keyring (getIncomingSession senderHandle channel)) (\<lambda>sess. case sess of
           None \<Rightarrow> ret MissingKey
         | Some (sk, r) \<Rightarrow>
             if in_status r \<noteq> Trusted then ret (Rejected ''peer not trusted'')
             else andThen (of_result (open_chunk ev channel sk w)) (\<lambda>opened. case opened of
               Inl why \<Rightarrow> ret why
             | Inr t \<Rightarrow>
                 andThen (observe_replay now (replay_key ev channel senderHandle w) ((ev_tsToleranceSecs ev * 2 + 5) * 1000)) (\<lambda>fresh.
                 if \<not> fresh then ret Replay else ret (Plaintext t)))))
       (ret (Rejected ''internal error''))"


section \<open>What the user decides\<close>

definition verifyInfo :: "string \<Rightarrow> (bytes \<times> trust_status) option act" where
  "verifyInfo handle =
     orElse (ask_keyring (\<lambda>k. map_option (\<lambda>p. (pr_fingerprint p, pr_globalStatus p)) (getPeerByHandle handle k))) (ret None)"

definition revokePeer :: "e2e_env \<Rightarrow> string \<Rightarrow> bool act" where
  "revokePeer ev handle =
     orElse (andThen (ask_keyring (getPeerByHandle handle)) (\<lambda>peer.
       andThen (case peer of Some p \<Rightarrow> write_keyring (setPeerStatus (pr_fingerprint p) Revoked) | None \<Rightarrow> ret ()) (\<lambda>_.
       andThen (ask_keyring (\<lambda>k. fold set_add (listIncomingChannelsForHandle handle k @ listOutgoingChannelsForHandle handle k) [])) (\<lambda>channels.
       andThen (count_keyring (revokeIncomingSessionsForHandle handle)) (\<lambda>revoked.
       andThen (for_each (\<lambda>channel. andThen (write_keyring (markOutgoingPendingRotation channel)) (\<lambda>_.
          write_keyring (removeOutgoingRecipient channel handle))) channels) (\<lambda>_.
       andThen (clearKeyChange ev handle) (\<lambda>_.
       ret (peer \<noteq> None \<or> 0 < revoked)))))))) (ret False)"

definition pending_to :: "string \<Rightarrow> pending_handshake \<Rightarrow> bool" where
  "pending_to handle ph \<longleftrightarrow> (case ph_peerHandle ph of None \<Rightarrow> False | Some h \<Rightarrow> h \<noteq> [] \<and> eqLower h handle)"

definition clearPendingForHandle :: "string \<Rightarrow> nat act" where
  "clearPendingForHandle handle m =
     (Inr (length (filter (\<lambda>(k, ph). pending_to handle ph) (m_pending m)) +
           length (filter (\<lambda>(k, p). eqLower (pi_handle p) handle) (m_pendingInbound m))),
      m\<lparr>m_pending := filter (\<lambda>(k, ph). \<not> pending_to handle ph) (m_pending m),
        m_pendingInbound := filter (\<lambda>(k, p). \<not> eqLower (pi_handle p) handle) (m_pendingInbound m)\<rparr>)"

definition forgetPeer :: "e2e_env \<Rightarrow> string \<Rightarrow> nat act" where
  "forgetPeer ev handle =
     orElse (andThen (ask_keyring (getPeerByHandle handle)) (\<lambda>peer.
       andThen (case peer of Some p \<Rightarrow> write_keyring (deletePeerByFingerprint (pr_fingerprint p)) | None \<Rightarrow> ret ()) (\<lambda>_.
       andThen (count_keyring (deleteIncomingSessionsForHandle handle)) (\<lambda>sessions.
       andThen (count_keyring (deleteOutgoingRecipientsForHandle handle)) (\<lambda>recipients.
       andThen (clearPendingForHandle handle) (\<lambda>pend.
       andThen (clearKeyChange ev handle) (\<lambda>_.
       ret ((if peer = None then 0 else 1) + sessions + recipients + pend)))))))) (ret 0)"

definition forgetPeerOnChannel :: "e2e_env \<Rightarrow> string \<Rightarrow> string \<Rightarrow> bool act" where
  "forgetPeerOnChannel ev handle channel =
     (let key = inboundKey ev handle channel; ours = (\<lambda>(k, ph). eqLower (ph_channel ph) channel \<and> pending_to handle ph) in
     orElse (andThen (read_keyring (getIncomingSession handle channel)) (\<lambda>sess.
       andThen (gets (\<lambda>m. map_of (m_pendingInbound m) key \<noteq> None)) (\<lambda>hadPending.
       andThen (modify (\<lambda>m. m\<lparr>m_pendingInbound := AList.delete key (m_pendingInbound m)\<rparr>)) (\<lambda>_.
       andThen (write_keyring (deleteIncomingSession handle channel)) (\<lambda>_.
       andThen (write_keyring (removeOutgoingRecipient channel handle)) (\<lambda>_.
       andThen (gets (\<lambda>m. list_ex ours (m_pending m))) (\<lambda>hadOutbound.
       andThen (modify (\<lambda>m. m\<lparr>m_pending := filter (\<lambda>e. \<not> ours e) (m_pending m)\<rparr>)) (\<lambda>_.
       ret (sess \<noteq> None \<or> hadPending \<or> hadOutbound))))))))) (ret False))"

datatype reverify_outcome = Applied classify_result "bytes option" bytes | Cleared nat | NotFound

definition pin_new :: "e2e_env \<Rightarrow> int \<Rightarrow> string \<Rightarrow> bytes \<Rightarrow> unit act" where
  "pin_new ev now handle newPubkey =
     (let newFp = fingerprint ev newPubkey in
     andThen (write_keyring (upsertPeer (seen_peer newFp newPubkey handle None (nowUnix now)))) (\<lambda>_.
     andThen (write_keyring (setPeerStatus newFp Trusted)) (\<lambda>_.
     andThen (count_keyring (deleteOutgoingRecipientsForHandle handle)) (\<lambda>_.
     andThen (clearPendingForHandle handle) (\<lambda>_.
     clearKeyChange ev handle)))))"

definition applyStashedKeyChange :: "e2e_env \<Rightarrow> int \<Rightarrow> string \<Rightarrow> pending_key_change \<Rightarrow> reverify_outcome act" where
  "applyStashedKeyChange ev now handle stash =
     (let newFp = fingerprint ev (pk_newPubkey stash) in
     if pk_kind stash = FingerprintChanged then
       andThen (ask_keyring (getPeerByHandle handle)) (\<lambda>old.
       andThen (case old of
           Some p \<Rightarrow> only_if (pr_fingerprint p \<noteq> newFp) (write_keyring (deletePeerByFingerprint (pr_fingerprint p)))
         | None \<Rightarrow> ret ()) (\<lambda>_.
       andThen (count_keyring (deleteIncomingSessionsForHandle handle)) (\<lambda>_.
       andThen (pin_new ev now handle (pk_newPubkey stash)) (\<lambda>_.
       ret (Applied FingerprintChanged (map_option pr_fingerprint old) newFp)))))
     else
       andThen (ask_keyring (getPeerByFingerprint newFp)) (\<lambda>peer.
       andThen (case Option.bind peer pr_lastHandle of
           Some oldHandle \<Rightarrow>
             only_if (oldHandle \<noteq> [] \<and> \<not> eqLower oldHandle handle)
               (andThen (count_keyring (deleteIncomingSessionsForHandle oldHandle)) (\<lambda>_.
                andThen (count_keyring (deleteOutgoingRecipientsForHandle oldHandle)) (\<lambda>_.
                andThen (clearPendingForHandle oldHandle) (\<lambda>_. ret ()))))
         | None \<Rightarrow> ret ()) (\<lambda>_.
       andThen (pin_new ev now handle (pk_newPubkey stash)) (\<lambda>_.
       ret (Applied HandleChanged (Some newFp) newFp)))))"

definition reverifyPeer :: "e2e_env \<Rightarrow> int \<Rightarrow> string \<Rightarrow> reverify_outcome act" where
  "reverifyPeer ev now handle =
     orElse (andThen (gets (\<lambda>m. map_of (m_pendingKeyChange m) (peerKey ev handle))) (\<lambda>stash.
       let forget =
         andThen (modify (\<lambda>m. m\<lparr>m_pendingKeyChange := AList.delete (peerKey ev handle) (m_pendingKeyChange m)\<rparr>)) (\<lambda>_.
         andThen (forgetPeer ev handle) (\<lambda>cleared. ret (if 0 < cleared then Cleared cleared else NotFound))) in
       case stash of
         Some s \<Rightarrow> if now - pk_createdAt s \<le> KEYCHANGE_TTL_MS then applyStashedKeyChange ev now handle s else forget
       | None \<Rightarrow> forget)) (ret NotFound)"

definition declinePeer :: "e2e_env \<Rightarrow> string \<Rightarrow> string \<Rightarrow> bool act" where
  "declinePeer ev handle channel =
     (let key = inboundKey ev handle channel in
     orElse (andThen (gets (\<lambda>m. map_of (m_pendingInbound m) key \<noteq> None)) (\<lambda>hadPending.
       andThen (modify (\<lambda>m. m\<lparr>m_pendingInbound := AList.delete key (m_pendingInbound m)\<rparr>)) (\<lambda>_.
       if \<not> hadPending then ret False
       else andThen (write_keyring (updateIncomingStatus handle channel Revoked)) (\<lambda>_.
            andThen (clearKeyChange ev handle) (\<lambda>_. ret True))))) (ret False))"

definition unrevokePeer :: "string \<Rightarrow> bool act" where
  "unrevokePeer handle =
     orElse (andThen (ask_keyring (getPeerByHandle handle)) (\<lambda>peer. case peer of
       None \<Rightarrow> ret False
     | Some p \<Rightarrow>
         if pr_globalStatus p \<noteq> Revoked then ret False
         else
           andThen (write_keyring (setPeerStatus (pr_fingerprint p) Trusted)) (\<lambda>_.
           andThen (ask_keyring (listIncomingChannelsForHandle handle)) (\<lambda>channels.
           andThen (for_each (\<lambda>channel. write_keyring (updateIncomingStatus handle channel Trusted)) channels) (\<lambda>_.
           ret True))))) (ret False)"

definition addAutotrust :: "string \<Rightarrow> string \<Rightarrow> bool act" where
  "addAutotrust scope pat = orElse (andThen (write_keyring (addAutotrust_row scope pat)) (\<lambda>_. ret True)) (ret False)"

definition removeAutotrust :: "string \<Rightarrow> nat act" where
  "removeAutotrust pat =
     orElse (andThen (ask_keyring (\<lambda>k. filter (\<lambda>(s, p). to_lower p = to_lower pat) (kg_autotrust k))) (\<lambda>rules.
       andThen (for_each (\<lambda>(s, p). write_keyring (removeAutotrust_row s p)) rules) (\<lambda>_.
       ret (length rules)))) (ret 0)"

end
