(* ===== verification/E2e_Trust.thy ===== *)
theory E2e_Trust imports E2e_Manager begin

text \<open>
  What the peers and the server can change in the keyring, and what only the user can: trust on first use, whose key a
  session takes, and what a revocation does.
\<close>

section \<open>Steps on the keyring\<close>

named_theorems step_rules "how a relation on keyrings passes through an operation"

text \<open>An operation relates the keyring before it to the one after it, whatever it returns or throws.\<close>

definition relates :: "(keyring \<Rightarrow> keyring \<Rightarrow> bool) \<Rightarrow> (keyring \<Rightarrow> bool) \<Rightarrow> 'a act \<Rightarrow> bool" where
  "relates R P a \<longleftrightarrow> (\<forall>m. P (m_keyring m) \<longrightarrow> R (m_keyring m) (m_keyring (snd (a m))))"

lemma steps_all: "relates R (\<lambda>_. True) a \<Longrightarrow> relates R P a"
  by (simp add: relates_def)

locale keyring_relation =
  fixes R :: "keyring \<Rightarrow> keyring \<Rightarrow> bool" and P :: "keyring \<Rightarrow> bool"
  assumes refl: "R k k"
    and trans: "R k k' \<Longrightarrow> R k' k'' \<Longrightarrow> R k k''"
    and stable: "P k \<Longrightarrow> R k k' \<Longrightarrow> P k'"
begin

lemma keeps: "(\<And>m. m_keyring (snd (a m)) = m_keyring m) \<Longrightarrow> relates R P a"
  by (simp add: relates_def refl)

lemma simple [step_rules]:
  "relates R P (ret x)" "relates R P (raise e)" "relates R P (gets f)" "relates R P (of_result r)" "relates R P (ask_keyring g)"
  "relates R P (read_keyring h)" "relates R P (randomBytes ev n)"
  by (rule keeps, simp add: ret_def raise_def gets_def of_result_def ask_keyring_def read_keyring_def randomBytes_def)+

lemma andThen [step_rules]: "relates R P a \<Longrightarrow> (\<And>x. relates R P (f x)) \<Longrightarrow> relates R P (andThen a f)"
proof -
  assume a: "relates R P a" and f: "\<And>x. relates R P (f x)"
  show ?thesis
    unfolding relates_def
  proof (intro allI impI)
    fix m :: mgr assume p: "P (m_keyring m)"
    obtain r m' where am: "a m = (r, m')" by (rule prod.exhaust)
    have "R (m_keyring m) (m_keyring m')" using a p am by (simp add: relates_def) (metis snd_conv)
    moreover then have "R (m_keyring m') (m_keyring (snd (f x m')))" for x using f p stable by (simp add: relates_def)
    ultimately show "R (m_keyring m) (m_keyring (snd (andThen a f m)))"
      by (cases r) (auto simp: andThen_def am intro: trans)
  qed
qed

lemma orElse [step_rules]: "relates R P a \<Longrightarrow> relates R P h \<Longrightarrow> relates R P (orElse a h)"
proof -
  assume a: "relates R P a" and h: "relates R P h"
  show ?thesis
    unfolding relates_def
  proof (intro allI impI)
    fix m :: mgr assume p: "P (m_keyring m)"
    obtain r m' where am: "a m = (r, m')" by (rule prod.exhaust)
    have "R (m_keyring m) (m_keyring m')" using a p am by (simp add: relates_def) (metis snd_conv)
    moreover then have "R (m_keyring m') (m_keyring (snd (h m')))" using h p stable by (simp add: relates_def)
    ultimately show "R (m_keyring m) (m_keyring (snd (orElse a h m)))"
      by (cases r) (auto simp: orElse_def am intro: trans)
  qed
qed

lemma for_each [step_rules]: "(\<And>x. relates R P (f x)) \<Longrightarrow> relates R P (for_each f xs)"
  by (induction xs) (auto intro: simple andThen)

lemma collect_each [step_rules]: "(\<And>x. relates R P (f x)) \<Longrightarrow> relates R P (collect_each f xs)"
  by (induction xs) (auto intro: simple andThen)

lemma collected_from:
  assumes "\<And>x. relates R P (f x)" "P (m_keyring m)" "collect_each f xs m = (Inr ys, m')"
  shows "\<forall>y \<in> set ys. \<exists>x \<in> set xs. \<exists>m0. R (m_keyring m) (m_keyring m0) \<and> fst (f x m0) = Inr y"
  using assms(2,3)
proof (induction xs arbitrary: m ys m')
  case (Cons x xs)
  obtain r m1 where f: "f x m = (r, m1)" by (rule prod.exhaust)
  then obtain y where y: "r = Inr y" using Cons.prems(2) by (cases r) (auto simp: andThen_def)
  obtain r2 m2 where c: "collect_each f xs m1 = (r2, m2)" by (rule prod.exhaust)
  then obtain zs where zs: "r2 = Inr zs" "ys = y # zs" using Cons.prems(2) f y by (cases r2) (auto simp: andThen_def ret_def)
  have R1: "R (m_keyring m) (m_keyring m1)" using assms(1) [of x] Cons.prems(1) f by (simp add: relates_def) (metis snd_conv)
  have "\<forall>z \<in> set zs. \<exists>x \<in> set xs. \<exists>m0. R (m_keyring m1) (m_keyring m0) \<and> fst (f x m0) = Inr z"
    by (rule Cons.IH [OF stable [OF Cons.prems(1) R1]]) (use c zs in simp)
  then show ?case using f y zs(2) R1 refl by (auto intro: trans) (metis fst_conv, meson trans)
qed (simp add: ret_def)

lemma only_if [step_rules]: "relates R P a \<Longrightarrow> relates R P (only_if b a)"
  by (simp add: only_if_def simple)

lemma modify: "(\<And>m. m_keyring (f m) = m_keyring m) \<Longrightarrow> relates R P (modify f)"
  by (rule keeps) (simp add: modify_def)

lemma observe_in: "(\<And>m. m_keyring (snd (f m)) = m_keyring m) \<Longrightarrow> relates R P (observe_in f)"
  by (rule keeps) (simp add: observe_in_def split_def Let_def)

lemma kept_ops [step_rules]:
  "relates R P (allow_incoming ev now h)" "relates R P (allow_outgoing ev now h)" "relates R P (observe_replay now key ttl)"
  "relates R P (observe_rekey now key ttl)" "relates R P (sweepPending now)" "relates R P (stashKeyChange ev now h c pub ch)"
  "relates R P (clearKeyChange ev h)" "relates R P (cachePendingInbound ev now h req)"
  unfolding allow_incoming_def allow_outgoing_def observe_replay_def observe_rekey_def sweepPending_def stashKeyChange_def clearKeyChange_def
    cachePendingInbound_def
  by (auto simp: split_def Let_def intro!: observe_in modify simple)

lemma writes: "(\<And>k. P k \<Longrightarrow> R k (f k)) \<Longrightarrow> relates R P (write_keyring f)"
  by (simp add: relates_def write_keyring_def)

lemma try_write: "(\<And>k k'. P k \<Longrightarrow> f k = Inr k' \<Longrightarrow> R k k') \<Longrightarrow> relates R P (try_keyring f)"
  by (auto simp: relates_def try_keyring_def refl split: sum.splits)

lemma if_step [step_rules]: "(b \<Longrightarrow> relates R P a) \<Longrightarrow> (\<not> b \<Longrightarrow> relates R P c) \<Longrightarrow> relates R P (if b then a else c)"
  by simp

lemma option_step [step_rules]:
  "(p = None \<Longrightarrow> relates R P a) \<Longrightarrow> (\<And>x. p = Some x \<Longrightarrow> relates R P (f x)) \<Longrightarrow> relates R P (case p of None \<Rightarrow> a | Some x \<Rightarrow> f x)"
  by (cases p) auto

lemma sum_step [step_rules]:
  "(\<And>e. r = Inl e \<Longrightarrow> relates R P (g e)) \<Longrightarrow> (\<And>x. r = Inr x \<Longrightarrow> relates R P (h x)) \<Longrightarrow> relates R P (case r of Inl e \<Rightarrow> g e | Inr x \<Rightarrow> h x)"
  by (cases r) auto

lemma pair_step [step_rules]: "(\<And>u v. relates R P (k u v)) \<Longrightarrow> relates R P (case q of (u, v) \<Rightarrow> k u v)"
  by (cases q) auto

end

text \<open>A relation that looks at configuration, sessions and peers only.\<close>

locale table_relation = keyring_relation +
  assumes other: "kg_configs k' = kg_configs k \<Longrightarrow> kg_autotrust k' = kg_autotrust k \<Longrightarrow> kg_incoming k' = kg_incoming k \<Longrightarrow>
    kg_peers k' = kg_peers k \<Longrightarrow> R k k'"
begin

lemma recipients: "R k (recordOutgoingRecipient c h fp t k)"
  by (rule other) (simp_all add: recordOutgoingRecipient_def)

lemma outgoing: "setOutgoingSession c sk t k = Inr k' \<Longrightarrow> R k k'"
  by (rule other) (auto simp: setOutgoingSession_def split: sum.splits)

lemma saved: "saveIdentity p s fp t k = Inr k' \<Longrightarrow> R k k'"
  by (rule other) (auto simp: saveIdentity_def split: sum.splits)

lemma load [step_rules]: "relates R P (loadIdentity ev now)"
  by (auto simp: loadIdentity_def intro!: step_rules modify try_write intro: saved)

lemma request [step_rules]: "relates R P (buildKeyReqStruct ev now ch h)"
  by (auto simp: buildKeyReqStruct_def generateEphemeral_def intro!: step_rules modify)

lemma seal [step_rules]: "relates R P (aead_encrypt ev key aad pt)"
  by (auto simp: aead_encrypt_def intro!: step_rules)

lemma ephemeral [step_rules]: "relates R P (generateEphemeral ev)"
  by (auto simp: generateEphemeral_def intro!: step_rules)

lemma rekey_body [step_rules]: "relates R P (buildRekeyBody ev now ch pub sk)"
  by (auto simp: buildRekeyBody_def Let_def intro!: step_rules)

lemma rekey_one [step_rules]: "relates R P (rekey_for ev now ch sk r)"
  by (auto simp: rekey_for_def intro!: step_rules)

lemma distribute [step_rules]: "relates R P (queueRekeyDistribution ev now ch sk)"
  by (auto simp: queueRekeyDistribution_def intro!: step_rules modify)

lemma own_key [step_rules]: "relates R P (getOrGenerateOutgoingKey ev now ch)"
  by (auto simp: getOrGenerateOutgoingKey_def generateSessionKey_def Let_def intro!: step_rules try_write intro: outgoing)

lemma trusted [step_rules]: "relates R P (hasTrustedIncoming h c)"
  by (auto simp: hasTrustedIncoming_def intro!: step_rules)

lemma consume [step_rules]: "relates R P (consumePendingForKeyRsp ev now rsp)"
  by (auto simp: consumePendingForKeyRsp_def intro!: step_rules modify)

lemma answer:
  assumes "\<And>k. P k \<Longrightarrow> R k (setPeerStatus (fingerprint ev (kq_pubkey req)) Trusted k)"
  shows "relates R P (buildKeyRspAndReciprocal ev now h req already)"
  unfolding buildKeyRspAndReciprocal_def Let_def by (auto intro!: step_rules writes recipients assms)

lemma installs [step_rules]:
  assumes "\<And>sk t k k'. installIncomingSessionStrict h c fp sk Trusted t k = Inr k' \<Longrightarrow> R k k'"
  shows "relates R P (installIncoming h c fp sk t)"
  by (auto simp: relates_def installIncoming_def refl intro: assms split: sum.splits)

lemma install_end:
  assumes "\<And>sk t k k'. installIncomingSessionStrict h (kr_channel rsp) (fingerprint ev (kr_pubkey rsp)) sk Trusted t k = Inr k' \<Longrightarrow> R k k'"
  shows "relates R P (install_or_warn ev now h rsp sk oc)"
  unfolding install_or_warn_def Let_def by (auto intro!: step_rules intro: assms)

end

text \<open>A relation on sessions alone.\<close>

locale session_relation = keyring_relation +
  assumes same: "kg_incoming k' = kg_incoming k \<Longrightarrow> R k k'"

sublocale session_relation \<subseteq> table_relation
  by unfold_locales (rule same)

context session_relation
begin

lemma peers: "R k (setPeerStatus fp st k)" "R k (upsertPeer p k)"
  by (rule same; simp add: setPeerStatus_def upsertPeer_def)+

lemma key_req [step_rules]: "relates R P (handleKeyReq ev now h n req)"
  unfolding handleKeyReq_def Let_def upsertSeenPeer_def by (auto intro!: step_rules writes answer peers)

lemma key_rsp:
  assumes "verify ev (kr_pubkey rsp) (signed_bytes (KEYRSP rsp)) (kr_sig rsp) \<Longrightarrow>
    (\<And>sk t k k'. installIncomingSessionStrict h (kr_channel rsp) (fingerprint ev (kr_pubkey rsp)) sk Trusted t k = Inr k' \<Longrightarrow> R k k')"
  shows "relates R P (handleKeyRsp ev now h rsp)"
  unfolding handleKeyRsp_def Let_def by (auto intro!: step_rules writes peers install_end intro: assms)

lemma rekey:
  assumes "verify ev (kr_pubkey rk) (signed_bytes (REKEY rk)) (kr_sig rk) \<Longrightarrow>
    (\<And>sk t k k'. installIncomingSessionStrict h (kr_channel rk) (fingerprint ev (kr_pubkey rk)) sk Trusted t k = Inr k' \<Longrightarrow> R k k')"
  shows "relates R P (handleRekey ev now h rk)"
  unfolding handleRekey_def Let_def by (auto intro!: step_rules install_end intro: assms)

end

section \<open>Reading a table after writing it\<close>

lemma find_map_keep: "(\<And>r. hit (upd r) = hit r) \<Longrightarrow> find hit (map upd rows) = map_option upd (find hit rows)"
  by (induction rows) auto

lemma find_snoc: "find p (rows @ [new]) = (case find p rows of Some r \<Rightarrow> Some r | None \<Rightarrow> if p new then Some new else None)"
  by (induction rows) auto

lemma find_update_rows:
  "(\<And>r. hit (upd r) = hit r) \<Longrightarrow> find hit (update_rows on upd rows) = map_option (\<lambda>r. if on r then upd r else r) (find hit rows)"
  unfolding update_rows_def by (rule find_map_keep) simp

lemma find_upsert_rows:
  assumes "\<And>r. hit (upd r) = hit r"
  shows "find hit (upsert_rows on upd new rows) =
    (if \<exists>r \<in> set rows. on r then map_option (\<lambda>r. if on r then upd r else r) (find hit rows)
     else case find hit rows of Some r \<Rightarrow> Some r | None \<Rightarrow> if hit new then Some new else None)"
  using find_map_keep [of hit "\<lambda>r. if on r then upd r else r" rows] assms by (simp add: upsert_rows_def find_snoc)

lemma find_Some_hit: "find p rows = Some r \<Longrightarrow> p r \<and> r \<in> set rows"
  by (induction rows) (auto split: if_splits)

lemma find_None_iff2: "find p rows = None \<longleftrightarrow> (\<forall>r \<in> set rows. \<not> p r)"
  by (induction rows) auto


section \<open>What the network can change\<close>

definition not_revoked :: "bytes \<Rightarrow> keyring \<Rightarrow> bool" where
  "not_revoked fp k \<longleftrightarrow> (case getPeerByFingerprint fp k of None \<Rightarrow> True | Some p \<Rightarrow> pr_globalStatus p \<noteq> Revoked)"

definition session_pin :: "keyring \<Rightarrow> string \<Rightarrow> string \<Rightarrow> (bytes \<times> trust_status) option" where
  "session_pin k handle channel = map_option (\<lambda>r. (in_fingerprint r, in_status r)) (session_row handle channel k)"

text \<open>Configuration stays, sessions stay with their peer and status, peers with their key, and who is revoked stays so.\<close>

definition tofu :: "keyring \<Rightarrow> keyring \<Rightarrow> bool" where
  "tofu k k' \<longleftrightarrow>
     kg_configs k' = kg_configs k \<and> kg_autotrust k' = kg_autotrust k \<and>
     (\<forall>h c. session_pin k h c \<noteq> None \<longrightarrow> session_pin k' h c = session_pin k h c) \<and>
     (\<forall>fp p. getPeerByFingerprint fp k = Some p \<longrightarrow> (\<exists>p'. getPeerByFingerprint fp k' = Some p' \<and> pr_pubkey p' = pr_pubkey p)) \<and>
     (\<forall>fp. not_revoked fp k' \<longleftrightarrow> not_revoked fp k)"

lemma tofu_refl: "tofu k k"
  by (simp add: tofu_def)

lemma tofu_trans: "tofu k k' \<Longrightarrow> tofu k' k'' \<Longrightarrow> tofu k k''"
  unfolding tofu_def by (intro conjI allI impI) (metis, metis, metis, metis, blast)

lemma tofu_peers:
  assumes "kg_configs k' = kg_configs k" "kg_autotrust k' = kg_autotrust k" "kg_incoming k' = kg_incoming k"
    "\<And>fp p. getPeerByFingerprint fp k = Some p \<Longrightarrow> \<exists>p'. getPeerByFingerprint fp k' = Some p' \<and> pr_pubkey p' = pr_pubkey p"
    "\<And>fp. not_revoked fp k' \<longleftrightarrow> not_revoked fp k"
  shows "tofu k k'"
  using assms by (auto simp: tofu_def session_pin_def session_row_def)

lemma tofu_other:
  assumes "kg_configs k' = kg_configs k" "kg_autotrust k' = kg_autotrust k" "kg_incoming k' = kg_incoming k" "kg_peers k' = kg_peers k"
  shows "tofu k k'"
  by (rule tofu_peers) (use assms in \<open>simp_all add: getPeerByFingerprint_def not_revoked_def\<close>)

lemma peer_status:
  "getPeerByFingerprint fp (setPeerStatus fp' st k) =
    map_option (\<lambda>r. if fp = fp' then r\<lparr>pr_globalStatus := st\<rparr> else r) (getPeerByFingerprint fp k)"
  by (cases "find (\<lambda>r. pr_fingerprint r = fp) (kg_peers k)")
    (auto simp: setPeerStatus_def getPeerByFingerprint_def find_update_rows dest: find_Some_hit)

lemma tofu_status: "not_revoked fp k \<Longrightarrow> tofu k (setPeerStatus fp Trusted k)"
proof (rule tofu_peers)
  fix fp' assume "not_revoked fp k"
  then show "not_revoked fp' (setPeerStatus fp Trusted k) \<longleftrightarrow> not_revoked fp' k"
    by (cases "fp' = fp") (auto simp: not_revoked_def peer_status split: option.splits)
qed (auto simp: peer_status, simp_all add: setPeerStatus_def)

lemma tofu_upsert: "pr_globalStatus p \<noteq> Revoked \<Longrightarrow> tofu k (upsertPeer p k)"
proof (rule tofu_peers)
  fix fp q assume "getPeerByFingerprint fp k = Some q"
  then show "\<exists>p'. getPeerByFingerprint fp (upsertPeer p k) = Some p' \<and> pr_pubkey p' = pr_pubkey q"
    by (auto simp: upsertPeer_def getPeerByFingerprint_def find_upsert_rows)
next
  fix fp assume "pr_globalStatus p \<noteq> Revoked"
  then show "not_revoked fp (upsertPeer p k) \<longleftrightarrow> not_revoked fp k"
    by (auto simp: upsertPeer_def getPeerByFingerprint_def find_upsert_rows not_revoked_def split: option.splits)
qed (simp_all add: upsertPeer_def)

lemma session_is_keep [simp]: "session_is h c (r\<lparr>in_sk := s\<rparr>) = session_is h c r"
  by (simp add: session_is_def)

lemma session_install:
  assumes "installIncomingSessionStrict h c fp sk st t k = Inr k'"
  shows "(session_row h' c' k' = session_row h' c' k) \<or>
    (nocase h' h \<and> nocase c' c \<and> (\<exists>r. session_row h' c' k' = Some r \<and> in_fingerprint r = fp \<and>
      (\<forall>q. session_row h' c' k = Some q \<longrightarrow> in_fingerprint q = fp \<and> in_status r = in_status q)))"
proof (cases "session_row h c k")
  case None
  then have none: "\<not> (\<exists>r \<in> set (kg_incoming k). session_is h c r)" by (auto simp: session_row_def find_None_iff2)
  obtain s where s: "sealKey sk = Inr s" using assms None
    by (auto simp: installIncomingSessionStrict_def setIncomingSession_def split: sum.splits)
  let ?new = "\<lparr>in_handle = h, in_channel = c, in_fingerprint = fp, in_sk = s, in_status = st, in_createdAt = t\<rparr>"
  have k': "kg_incoming k' = kg_incoming k @ [?new]"
    using assms None s none by (auto simp: installIncomingSessionStrict_def setIncomingSession_def upsert_rows_def)
  show ?thesis
    by (auto simp: session_row_def k' find_snoc session_is_def nocase_sym split: option.splits)
next
  case (Some row)
  then obtain s where s: "sealKey sk = Inr s" "in_fingerprint row = fp"
    "k' = k\<lparr>kg_incoming := update_rows (session_is h c) (\<lambda>r. r\<lparr>in_sk := s\<rparr>) (kg_incoming k)\<rparr>"
    using assms by (auto simp: installIncomingSessionStrict_def split: sum.splits if_splits)
  have f: "session_row h' c' k' = map_option (\<lambda>r. if session_is h c r then r\<lparr>in_sk := s\<rparr> else r) (session_row h' c' k)"
    by (simp add: session_row_def s(3) find_update_rows)
  show ?thesis
  proof (cases "nocase h' h \<and> nocase c' c")
    case True
    then have "session_is h' c' = session_is h c" by (simp add: session_is_def fun_eq_iff nocase_def)
    then have "session_row h' c' k = Some row" using Some by (simp add: session_row_def)
    moreover have "session_is h c row" using find_Some_hit [OF Some [unfolded session_row_def]] by simp
    ultimately show ?thesis using True f s(2) by simp
  next
    case False
    have "\<not> session_is h c r" if "session_row h' c' k = Some r" for r
      using find_Some_hit [OF that [unfolded session_row_def]] False by (auto simp: session_is_def nocase_def)
    then have "session_row h' c' k' = session_row h' c' k" unfolding f by (cases "session_row h' c' k") auto
    then show ?thesis by blast
  qed
qed

lemma install_only_sessions:
  "installIncomingSessionStrict h c fp sk st t k = Inr k' \<Longrightarrow>
    kg_configs k' = kg_configs k \<and> kg_autotrust k' = kg_autotrust k \<and> kg_peers k' = kg_peers k"
  by (auto simp: installIncomingSessionStrict_def setIncomingSession_def split: option.splits sum.splits if_splits)

lemma tofu_install: "installIncomingSessionStrict h c fp sk Trusted t k = Inr k' \<Longrightarrow> tofu k k'"
proof -
  assume i: "installIncomingSessionStrict h c fp sk Trusted t k = Inr k'"
  have "session_pin k' h' c' = session_pin k h' c'" if "session_pin k h' c' \<noteq> None" for h' c'
    using session_install [OF i, of h' c'] that by (auto simp: session_pin_def)
  then show ?thesis using install_only_sessions [OF i] by (simp add: tofu_def getPeerByFingerprint_def not_revoked_def)
qed


interpretation anyone: table_relation tofu "\<lambda>_. True"
  by unfold_locales (rule tofu_refl, erule (1) tofu_trans, simp, rule tofu_other)

interpretation cleared: table_relation tofu "not_revoked fp" for fp
  by unfold_locales (rule tofu_refl, erule (1) tofu_trans, simp add: tofu_def, rule tofu_other)

lemma classified: "\<not> isTofuBlock (classifyPeerChange fp h k) \<Longrightarrow> not_revoked fp k"
  by (auto simp: isTofuBlock_def classifyPeerChange_def not_revoked_def split: option.splits if_splits)

lemma tofu_classify:
  assumes "\<And>c. isTofuBlock c \<Longrightarrow> relates tofu (\<lambda>_. True) (f c)" "\<And>c. \<not> isTofuBlock c \<Longrightarrow> relates tofu (not_revoked fp) (f c)"
  shows "relates tofu P (andThen (ask_keyring (classifyPeerChange fp h)) f)"
  unfolding relates_def
proof (intro allI impI)
  fix m :: mgr
  show "tofu (m_keyring m) (m_keyring (snd (andThen (ask_keyring (classifyPeerChange fp h)) f m)))"
    using assms(1) [of "classifyPeerChange fp h (m_keyring m)"] assms(2) [of "classifyPeerChange fp h (m_keyring m)"] classified [of fp h "m_keyring m"]
    by (cases "isTofuBlock (classifyPeerChange fp h (m_keyring m))") (auto simp: relates_def andThen_def ask_keyring_def)
qed

lemma tofu_key_req [step_rules]: "relates tofu (\<lambda>_. True) (handleKeyReq ev now h n req)"
  unfolding handleKeyReq_def Let_def upsertSeenPeer_def
  by (auto intro!: step_rules tofu_classify cleared.answer cleared.writes tofu_status tofu_upsert simp: seen_peer_def)

lemma tofu_key_rsp [step_rules]: "relates tofu (\<lambda>_. True) (handleKeyRsp ev now h rsp)"
  unfolding handleKeyRsp_def Let_def
  by (auto intro!: step_rules tofu_classify cleared.install_end cleared.writes tofu_status tofu_upsert simp: seen_peer_def intro: tofu_install)

lemma tofu_rekey [step_rules]: "relates tofu (\<lambda>_. True) (handleRekey ev now h rk)"
  unfolding handleRekey_def Let_def by (auto intro!: step_rules anyone.install_end intro: tofu_install)

lemma tofu_handshake [step_rules]: "relates tofu (\<lambda>_. True) (handleHandshakeBody ev now h n body)"
  unfolding handleHandshakeBody_def by (auto intro!: step_rules split: handshake_msg.split)

lemma encrypt_chunk_tables [step_rules]: "relates tofu (\<lambda>_. True) (encrypt_chunk ev c sk msgid ts tot pc)"
  unfolding encrypt_chunk_def Let_def by (auto intro!: step_rules)

text \<open>What goes on without a decision of the user on whom to trust: messages come and go.\<close>

datatype traffic = Handshake string "string option" string | Arrives string string string | Sends string "nat list" | Prepares string |
  AsksFor string "string option" | AutoAsks string string | Drains | PutsBack rekey_send

definition done_with :: "'a act \<Rightarrow> mgr \<Rightarrow> mgr" where
  "done_with a m = snd (a m)"

fun e2e_traffic :: "e2e_env \<Rightarrow> int \<times> traffic \<Rightarrow> mgr \<Rightarrow> mgr" where
  "e2e_traffic ev (now, Handshake h n body) = done_with (handleHandshakeBody ev now h n body)"
| "e2e_traffic ev (now, Arrives h c line) = done_with (decryptIncoming ev now h c line)"
| "e2e_traffic ev (now, Sends c text) = done_with (encryptOutgoing ev now c text)"
| "e2e_traffic ev (now, Prepares c) = done_with (prepareOutgoing ev now c)"
| "e2e_traffic ev (now, AsksFor c h) = done_with (buildKeyReq ev now c h)"
| "e2e_traffic ev (now, AutoAsks c h) = done_with (autoHandshakeBody ev now c h)"
| "e2e_traffic ev (now, Drains) = done_with takePendingRekeySends"
| "e2e_traffic ev (now, PutsBack s) = done_with (putBackRekeySend s)"

lemma done_tofu: "relates tofu (\<lambda>_. True) a \<Longrightarrow> tofu (m_keyring m) (m_keyring (done_with a m))"
  by (simp add: relates_def done_with_def)

lemma traffic_tofu: "tofu (m_keyring m) (m_keyring (e2e_traffic ev e m))"
proof -
  obtain now x where e: "e = (now, x)" by (cases e)
  show ?thesis
  proof (cases x)
    case (Handshake h n body)
    show ?thesis unfolding e Handshake e2e_traffic.simps by (rule done_tofu) (rule step_rules)
  next
    case (Arrives h c line)
    show ?thesis unfolding e Arrives e2e_traffic.simps by (rule done_tofu) (auto simp: decryptIncoming_def intro!: step_rules)
  next
    case (Sends c txt0)
    show ?thesis unfolding e Sends e2e_traffic.simps by (rule done_tofu) (auto simp: encryptOutgoing_def intro!: step_rules)
  next
    case (Prepares c)
    show ?thesis unfolding e Prepares e2e_traffic.simps by (rule done_tofu) (auto simp: prepareOutgoing_def intro!: step_rules)
  next
    case (AsksFor c h)
    show ?thesis unfolding e AsksFor e2e_traffic.simps by (rule done_tofu) (auto simp: buildKeyReq_def intro!: step_rules)
  next
    case (AutoAsks c h)
    show ?thesis unfolding e AutoAsks e2e_traffic.simps by (rule done_tofu) (auto simp: autoHandshakeBody_def intro!: step_rules)
  next
    case Drains
    show ?thesis unfolding e Drains e2e_traffic.simps by (rule done_tofu) (auto simp: takePendingRekeySends_def intro!: step_rules anyone.modify)
  next
    case (PutsBack s)
    show ?thesis unfolding e PutsBack e2e_traffic.simps by (rule done_tofu) (auto simp: putBackRekeySend_def Let_def intro!: anyone.modify)
  qed
qed

lemma run_tofu: "tofu (m_keyring m) (m_keyring (fold (e2e_traffic ev) es m))"
proof (induction es arbitrary: m)
  case (Cons e es)
  show ?case using tofu_trans [OF traffic_tofu Cons.IH] by simp
qed (simp add: tofu_refl)

text \<open>C36: whatever the peers and the server send, in whatever order with our own messages, trust changes by the user's
  decisions alone: no channel's encryption is switched off or loosened, no session passes to another key or from one status
  to another, no peer's key is replaced, and who is revoked stays revoked, and nobody else becomes so.\<close>

theorem traffic_never_changes_trust:
  "let k = m_keyring m; k' = m_keyring (fold (e2e_traffic ev) es m) in
    kg_configs k' = kg_configs k \<and> kg_autotrust k' = kg_autotrust k \<and>
    (\<forall>handle channel pin. session_pin k handle channel = Some pin \<longrightarrow> session_pin k' handle channel = Some pin) \<and>
    (\<forall>fp p. getPeerByFingerprint fp k = Some p \<longrightarrow>
      (\<exists>p'. getPeerByFingerprint fp k' = Some p' \<and> pr_pubkey p' = pr_pubkey p \<and>
        (pr_globalStatus p' = Revoked \<longleftrightarrow> pr_globalStatus p = Revoked)))"
proof -
  define k where "k = m_keyring m"
  define k' where "k' = m_keyring (fold (e2e_traffic ev) es m)"
  have t: "tofu k k'" unfolding k_def k'_def by (rule run_tofu)
  have "\<exists>p'. getPeerByFingerprint fp k' = Some p' \<and> pr_pubkey p' = pr_pubkey p \<and> (pr_globalStatus p' = Revoked \<longleftrightarrow> pr_globalStatus p = Revoked)"
    if p: "getPeerByFingerprint fp k = Some p" for fp p
  proof -
    obtain p' where p': "getPeerByFingerprint fp k' = Some p'" "pr_pubkey p' = pr_pubkey p" using t p unfolding tofu_def by metis
    have "not_revoked fp k' \<longleftrightarrow> not_revoked fp k" using t by (simp add: tofu_def)
    then show ?thesis using p p' by (simp add: not_revoked_def)
  qed
  then show ?thesis using t unfolding Let_def k_def [symmetric] k'_def [symmetric] by (simp add: tofu_def)
qed

section \<open>Whose key a session takes\<close>

definition takes_key :: "string \<Rightarrow> string \<Rightarrow> bytes \<Rightarrow> keyring \<Rightarrow> keyring \<Rightarrow> bool" where
  "takes_key handle channel fp k k' \<longleftrightarrow>
     (\<forall>h c. session_row h c k' = session_row h c k \<or>
       (nocase h handle \<and> nocase c channel \<and> (\<exists>r. session_row h c k' = Some r \<and> in_fingerprint r = fp)))"

lemma takes_key_trans: "takes_key h c fp k k' \<Longrightarrow> takes_key h c fp k' k'' \<Longrightarrow> takes_key h c fp k k''"
  unfolding takes_key_def by metis

lemma takes_key_install: "installIncomingSessionStrict h c fp sk st t k = Inr k' \<Longrightarrow> takes_key h c fp k k'"
  using session_install unfolding takes_key_def by blast

interpretation untouched: session_relation "\<lambda>k k'. kg_incoming k' = kg_incoming k" "\<lambda>_. True"
  by unfold_locales simp_all

interpretation takes_key: session_relation "takes_key h c fp" "\<lambda>_. True" for h c fp
  by unfold_locales (simp add: takes_key_def, erule (1) takes_key_trans, simp, simp add: takes_key_def session_row_def)

fun key_message :: "e2e_env \<Rightarrow> mgr \<Rightarrow> handshake_msg \<Rightarrow> key_rsp \<Rightarrow> bool" where
  "key_message ev m (KEYREQ q) r = False"
| "key_message ev m (KEYRSP rsp) r \<longleftrightarrow>
     r = rsp \<and> hasPendingForChannel (kr_channel rsp) m \<and> verify ev (kr_pubkey rsp) (signed_bytes (KEYRSP rsp)) (kr_sig rsp)"
| "key_message ev m (REKEY rk) r \<longleftrightarrow> r = rk \<and> verify ev (kr_pubkey rk) (signed_bytes (REKEY rk)) (kr_sig rk)"

lemma steps_orElse_ret: "m_keyring (snd (orElse (andThen a (\<lambda>oc. ret (Some oc))) (ret x) m)) = m_keyring (snd (a m))"
  by (cases "a m") (auto simp: orElse_def andThen_def ret_def split: sum.splits)

lemma msg_sessions:
  fixes m :: mgr
  defines "k \<equiv> m_keyring m"
  assumes "a = (case msg of KEYREQ req \<Rightarrow> handleKeyReq ev now h n req | KEYRSP rsp \<Rightarrow> handleKeyRsp ev now h rsp | REKEY rk \<Rightarrow> handleRekey ev now h rk)"
  shows "kg_incoming (m_keyring (snd (a m))) = kg_incoming k \<or>
    (\<exists>r. key_message ev m msg r \<and> takes_key h (kr_channel r) (fingerprint ev (kr_pubkey r)) k (m_keyring (snd (a m))))"
proof (cases msg)
  case (KEYREQ req)
  have "relates (\<lambda>k k'. kg_incoming k' = kg_incoming k) (\<lambda>_. True) (handleKeyReq ev now h n req)" by (rule untouched.key_req)
  then show ?thesis by (simp add: assms(2) KEYREQ relates_def k_def)
next
  case (KEYRSP rsp)
  let ?fp = "fingerprint ev (kr_pubkey rsp)"
  show ?thesis
  proof (cases "key_message ev m msg rsp")
    case True
    have "relates (takes_key h (kr_channel rsp) ?fp) (\<lambda>_. True) (handleKeyRsp ev now h rsp)"
      by (rule takes_key.key_rsp) (rule takes_key_install)
    then show ?thesis using True by (auto simp: assms(2) KEYRSP relates_def k_def)
  next
    case False
    show ?thesis
    proof (cases "hasPendingForChannel (kr_channel rsp) m")
      case True
      then have nv: "\<not> verify ev (kr_pubkey rsp) (signed_bytes (KEYRSP rsp)) (kr_sig rsp)" using False KEYRSP by simp
      have "relates (\<lambda>k k'. kg_incoming k' = kg_incoming k) (\<lambda>_. True) (handleKeyRsp ev now h rsp)"
        by (rule untouched.key_rsp) (use nv in blast)
      then show ?thesis by (simp add: assms(2) KEYRSP relates_def k_def)
    next
      case False
      then show ?thesis by (simp add: assms(2) KEYRSP k_def handleKeyRsp_def Let_def andThen_def gets_def ret_def)
    qed
  qed
next
  case (REKEY rk)
  show ?thesis
  proof (cases "key_message ev m msg rk")
    case True
    have "relates (takes_key h (kr_channel rk) (fingerprint ev (kr_pubkey rk))) (\<lambda>_. True) (handleRekey ev now h rk)"
      by (rule takes_key.rekey) (rule takes_key_install)
    then show ?thesis using True by (auto simp: assms(2) REKEY relates_def k_def)
  next
    case False
    have "relates (\<lambda>k k'. kg_incoming k' = kg_incoming k) (\<lambda>_. True) (handleRekey ev now h rk)"
      by (rule untouched.rekey) (use False REKEY in simp)
    then show ?thesis by (simp add: assms(2) REKEY relates_def k_def)
  qed
qed

text \<open>C37: a handshake message changes no session but that of its sender on its channel, and that only when it carries a key
  under a valid signature (an answer only to a request of ours): the session's pinned key is then the one that signed.\<close>

theorem session_takes_only_its_peers_key:
  "let k = m_keyring m; k' = m_keyring (snd (handleHandshakeBody ev now handle nick body m)) in
    session_row h c k' = session_row h c k \<or>
    (\<exists>msg r row. parseHandshake body = Inr (Some msg) \<and> key_message ev m msg r \<and> nocase h handle \<and> nocase c (kr_channel r) \<and>
      session_row h c k' = Some row \<and> in_fingerprint row = fingerprint ev (kr_pubkey r))"
proof (cases "\<exists>msg. parseHandshake body = Inr (Some msg)")
  case True
  then obtain msg where p: "parseHandshake body = Inr (Some msg)" by blast
  define a where "a = (case msg of KEYREQ req \<Rightarrow> handleKeyReq ev now handle nick req | KEYRSP rsp \<Rightarrow> handleKeyRsp ev now handle rsp
    | REKEY rk \<Rightarrow> handleRekey ev now handle rk)"
  have e: "m_keyring (snd (handleHandshakeBody ev now handle nick body m)) = m_keyring (snd (a m))"
    by (simp add: handleHandshakeBody_def p a_def steps_orElse_ret)
  let ?k' = "m_keyring (snd (a m))"
  from msg_sessions [OF a_def, of m] show ?thesis
  proof
    assume "kg_incoming ?k' = kg_incoming (m_keyring m)"
    then show ?thesis unfolding Let_def e by (simp add: session_row_def)
  next
    assume "\<exists>r. key_message ev m msg r \<and> takes_key handle (kr_channel r) (fingerprint ev (kr_pubkey r)) (m_keyring m) ?k'"
    then obtain r where r: "key_message ev m msg r" "takes_key handle (kr_channel r) (fingerprint ev (kr_pubkey r)) (m_keyring m) ?k'" by blast
    from r(2) have "session_row h c ?k' = session_row h c (m_keyring m) \<or> (nocase h handle \<and> nocase c (kr_channel r) \<and>
      (\<exists>row. session_row h c ?k' = Some row \<and> in_fingerprint row = fingerprint ev (kr_pubkey r)))" unfolding takes_key_def by blast
    then show ?thesis unfolding Let_def e using p r(1) by metis
  qed
next
  case False
  then have "snd (handleHandshakeBody ev now handle nick body m) = m"
    by (auto simp: handleHandshakeBody_def ret_def split: sum.splits option.splits)
  then show ?thesis by simp
qed

section \<open>What a revocation does\<close>

definition cut_off :: "string \<Rightarrow> string list \<Rightarrow> keyring \<Rightarrow> keyring" where
  "cut_off handle channels k = fold (\<lambda>c k. removeOutgoingRecipient c handle (markOutgoingPendingRotation c k)) channels k"

lemma for_each_cut_off:
  "for_each (\<lambda>c. andThen (write_keyring (markOutgoingPendingRotation c)) (\<lambda>_. write_keyring (removeOutgoingRecipient c handle))) cs m =
    (Inr (), m\<lparr>m_keyring := cut_off handle cs (m_keyring m)\<rparr>)"
  by (induction cs arbitrary: m) (simp_all add: cut_off_def ret_def andThen_def write_keyring_def)

lemma cut_off_outgoing:
  "outgoing_of c (cut_off handle cs k) =
    map_option (\<lambda>r. r\<lparr>og_pendingRotation := og_pendingRotation r \<or> (\<exists>x \<in> set cs. nocase (og_channel r) x)\<rparr>) (outgoing_of c k)"
proof (induction cs arbitrary: k)
  case (Cons x cs)
  have "outgoing_of c (removeOutgoingRecipient x handle (markOutgoingPendingRotation x k)) =
    map_option (\<lambda>r. if nocase (og_channel r) x then r\<lparr>og_pendingRotation := True\<rparr> else r) (outgoing_of c k)"
    by (simp add: outgoing_of_def removeOutgoingRecipient_def markOutgoingPendingRotation_def find_update_rows)
  then show ?case using Cons.IH [of "removeOutgoingRecipient x handle (markOutgoingPendingRotation x k)"]
    by (cases "outgoing_of c k") (auto simp: cut_off_def)
qed (simp add: cut_off_def option.map_ident)

lemma cut_off_others:
  "kg_peers (cut_off handle cs k) = kg_peers k" "kg_incoming (cut_off handle cs k) = kg_incoming k"
  "set (kg_recipients (cut_off handle cs k)) \<subseteq> set (kg_recipients k)"
  "x \<in> set cs \<Longrightarrow> r \<in> set (kg_recipients (cut_off handle cs k)) \<Longrightarrow> \<not> recipient_is x handle r"
proof -
  show "kg_peers (cut_off handle cs k) = kg_peers k" "kg_incoming (cut_off handle cs k) = kg_incoming k"
    by (induction cs arbitrary: k) (simp_all add: cut_off_def removeOutgoingRecipient_def markOutgoingPendingRotation_def)
  have sub: "set (kg_recipients (cut_off handle cs k)) \<subseteq> set (kg_recipients k)" for k cs
  proof (induction cs arbitrary: k)
    case (Cons c cs)
    show ?case using Cons.IH [of "removeOutgoingRecipient c handle (markOutgoingPendingRotation c k)"]
      by (auto simp: cut_off_def removeOutgoingRecipient_def markOutgoingPendingRotation_def delete_rows_def)
  qed (simp add: cut_off_def)
  then show "set (kg_recipients (cut_off handle cs k)) \<subseteq> set (kg_recipients k)" .
  show "x \<in> set cs \<Longrightarrow> r \<in> set (kg_recipients (cut_off handle cs k)) \<Longrightarrow> \<not> recipient_is x handle r"
  proof (induction cs arbitrary: k)
    case (Cons c cs)
    let ?k = "removeOutgoingRecipient c handle (markOutgoingPendingRotation c k)"
    have r: "r \<in> set (kg_recipients (cut_off handle cs ?k))" using Cons.prems(2) by (simp add: cut_off_def)
    show ?case
    proof (cases "x = c")
      case True
      then show ?thesis using r sub [of cs ?k] by (auto simp: removeOutgoingRecipient_def delete_rows_def)
    next
      case False
      then show ?thesis using Cons.IH [of ?k] Cons.prems(1) r by simp
    qed
  qed simp
qed

text \<open>Building a rekey message leaves the queue alone, and never throws past its recipient.\<close>

definition leaves_queue :: "'a act \<Rightarrow> bool" where
  "leaves_queue a \<longleftrightarrow> (\<forall>m. m_pendingRekey (snd (a m)) = m_pendingRekey m)"

lemma leaves_andThen: "leaves_queue a \<Longrightarrow> (\<And>x. leaves_queue (f x)) \<Longrightarrow> leaves_queue (andThen a f)"
  unfolding leaves_queue_def
proof
  fix m :: mgr
  assume a: "\<forall>m. m_pendingRekey (snd (a m)) = m_pendingRekey m" "\<And>x. \<forall>m. m_pendingRekey (snd (f x m)) = m_pendingRekey m"
  obtain r m' where "a m = (r, m')" by (rule prod.exhaust)
  then show "m_pendingRekey (snd (andThen a f m)) = m_pendingRekey m" using a(1) [rule_format, of m] a(2) by (cases r) (simp_all add: andThen_def)
qed

lemma leaves_orElse: "leaves_queue a \<Longrightarrow> leaves_queue h \<Longrightarrow> leaves_queue (orElse a h)"
  unfolding leaves_queue_def
proof
  fix m :: mgr
  assume a: "\<forall>m. m_pendingRekey (snd (a m)) = m_pendingRekey m" "\<forall>m. m_pendingRekey (snd (h m)) = m_pendingRekey m"
  obtain r m' where "a m = (r, m')" by (rule prod.exhaust)
  then show "m_pendingRekey (snd (orElse a h m)) = m_pendingRekey m" using a(1) [rule_format, of m] a(2) by (cases r) (simp_all add: orElse_def)
qed

lemma leaves_simple:
  "leaves_queue (ret x)" "leaves_queue (raise e)" "leaves_queue (gets g)" "leaves_queue (of_result r)" "leaves_queue (ask_keyring q)"
  "leaves_queue (read_keyring p)" "leaves_queue (try_keyring w)" "leaves_queue (randomBytes ev n)"
  "leaves_queue (modify (\<lambda>m. m\<lparr>m_identity := i\<rparr>))"
  by (simp_all add: leaves_queue_def ret_def raise_def gets_def of_result_def ask_keyring_def read_keyring_def try_keyring_def randomBytes_def
      modify_def split: sum.splits)

lemma leaves_rekey: "leaves_queue (rekey_for ev now c sk r)"
  unfolding rekey_for_def buildRekeyBody_def loadIdentity_def generateEphemeral_def aead_encrypt_def Let_def
  by (auto intro!: leaves_andThen leaves_orElse leaves_simple split: option.split)

lemma rekey_for_ok: "\<exists>ys m'. rekey_for ev now c sk r m = (Inr ys, m')"
proof (cases "getPeerByFingerprint (rp_fingerprint r) (m_keyring m)")
  case (Some p)
  have "\<exists>ys m'. orElse a (ret []) m = (Inr ys, m')" for a :: "rekey_send list act"
    by (cases "a m") (auto simp: orElse_def ret_def split: sum.splits)
  then show ?thesis using Some by (simp add: rekey_for_def andThen_def ask_keyring_def)
qed (simp add: rekey_for_def andThen_def ask_keyring_def ret_def)

lemma collect_rekeys: "\<exists>yss m'. collect_each (rekey_for ev now c sk) rs m = (Inr yss, m') \<and> m_pendingRekey m' = m_pendingRekey m"
proof (induction rs arbitrary: m)
  case (Cons r rs)
  obtain ys m1 where a: "rekey_for ev now c sk r m = (Inr ys, m1)" using rekey_for_ok by blast
  obtain yss m' where b: "collect_each (rekey_for ev now c sk) rs m1 = (Inr yss, m')" "m_pendingRekey m' = m_pendingRekey m1" using Cons.IH by blast
  have "m_pendingRekey m1 = m_pendingRekey m" using leaves_rekey [of ev now c sk r] a by (simp add: leaves_queue_def) (metis snd_conv)
  then show ?case using a b by (simp add: andThen_def ret_def)
qed (simp add: ret_def)

interpretation same_peers: table_relation "\<lambda>k k'. kg_peers k' = kg_peers k" "\<lambda>k. kg_peers k = ps" for ps
  by unfold_locales simp_all

text \<open>A send of the queue hands_on the key to the pinned key of a recipient.\<close>

definition hands_on :: "e2e_env \<Rightarrow> int \<Rightarrow> string \<Rightarrow> bytes \<Rightarrow> keyring \<Rightarrow> recipient_row \<Rightarrow> rekey_send \<Rightarrow> bool" where
  "hands_on ev now channel sk k r s \<longleftrightarrow> rs_channel s = channel \<and>
     (\<exists>p m0. getPeerByFingerprint (rp_fingerprint r) k = Some p \<and> fst (buildRekeyBody ev now channel (pr_pubkey p) sk m0) = Inr (rs_body s))"

lemma rekey_for_hands_on:
  assumes "fst (rekey_for ev now c sk r m0) = Inr ys" "s \<in> set ys" "kg_peers (m_keyring m0) = kg_peers k"
  shows "hands_on ev now c sk k r s"
proof (cases "getPeerByFingerprint (rp_fingerprint r) (m_keyring m0)")
  case (Some p)
  obtain res m1 where b: "buildRekeyBody ev now c (pr_pubkey p) sk m0 = (res, m1)" by (rule prod.exhaust)
  have "getPeerByFingerprint (rp_fingerprint r) k = Some p" using Some assms(3) by (simp add: getPeerByFingerprint_def)
  then show ?thesis using assms(1,2) Some b
    by (cases res) (auto simp: rekey_for_def andThen_def ask_keyring_def orElse_def ret_def hands_on_def intro!: exI [of _ m0])
qed (use assms(1,2) in \<open>simp add: rekey_for_def andThen_def ask_keyring_def ret_def\<close>)

lemma distribution:
  "\<exists>m' q. queueRekeyDistribution ev now c sk m = (Inr (), m') \<and>
    (m_pendingRekey m' = m_pendingRekey m \<and> q = [] \<or> m_pendingRekey m' = Some ((case m_pendingRekey m of Some old \<Rightarrow> old | None \<Rightarrow> []) @ q)) \<and>
    (\<forall>s \<in> set q. \<exists>r \<in> set (listOutgoingRecipients c (m_keyring m)). hands_on ev now c sk (m_keyring m) r s)"
proof -
  let ?rs = "listOutgoingRecipients c (m_keyring m)"
  obtain yss m1 where c: "collect_each (rekey_for ev now c sk) ?rs m = (Inr yss, m1)" "m_pendingRekey m1 = m_pendingRekey m"
    using collect_rekeys by blast
  have "\<forall>ys \<in> set yss. \<exists>r \<in> set ?rs. \<exists>m0. kg_peers (m_keyring m0) = kg_peers (m_keyring m) \<and> fst (rekey_for ev now c sk r m0) = Inr ys"
    by (rule same_peers.collected_from [OF same_peers.rekey_one _ c(1)]) simp
  then have d: "\<forall>s \<in> set (concat yss). \<exists>r \<in> set ?rs. hands_on ev now c sk (m_keyring m) r s" using rekey_for_hands_on by fastforce
  show ?thesis
  proof (cases "concat yss = []")
    case True
    then show ?thesis using c d by (intro exI [of _ m1] exI [of _ "[]"]) (simp add: queueRekeyDistribution_def andThen_def ask_keyring_def ret_def)
  next
    case False
    then show ?thesis using c d
      by (intro exI [of _ "m1\<lparr>m_pendingRekey := Some ((case m_pendingRekey m1 of Some q \<Rightarrow> q | None \<Rightarrow> []) @ concat yss)\<rparr>"] exI [of _ "concat yss"])
        (simp add: queueRekeyDistribution_def andThen_def ask_keyring_def modify_def del: concat_eq_Nil_conv)
  qed
qed

definition waiting_sends :: "mgr \<Rightarrow> rekey_send list" where
  "waiting_sends m = (case m_pendingRekey m of Some q \<Rightarrow> q | None \<Rightarrow> [])"

definition revoked_tables :: "string \<Rightarrow> keyring \<Rightarrow> keyring" where
  "revoked_tables handle k =
     (let k0 = (case getPeerByHandle handle k of Some p \<Rightarrow> setPeerStatus (pr_fingerprint p) Revoked k | None \<Rightarrow> k) in
      cut_off handle (fold set_add (listIncomingChannelsForHandle handle k0 @ listOutgoingChannelsForHandle handle k0) [])
        (snd (revokeIncomingSessionsForHandle handle k0)))"

lemma revoke_eq:
  "snd (revokePeer ev handle m) =
    m\<lparr>m_keyring := revoked_tables handle (m_keyring m), m_pendingKeyChange := AList.delete (peerKey ev handle) (m_pendingKeyChange m)\<rparr>"
  by (cases "getPeerByHandle handle (m_keyring m)")
    (simp_all add: revokePeer_def orElse_def andThen_def ask_keyring_def write_keyring_def count_keyring_def ret_def for_each_cut_off
      clearKeyChange_def modify_def revoked_tables_def split_def Let_def revokeIncomingSessionsForHandle_def)

lemma set_adds: "set (fold set_add xs ys) = set xs \<union> set ys"
  by (induction xs arbitrary: ys) auto

lemma latest_in: "latest rs = Some p \<Longrightarrow> p \<in> set rs"
  by (induction rs arbitrary: p) (auto split: option.splits if_splits)

lemma revoked_sessions: "session_row handle c (revoked_tables handle k) = Some r \<Longrightarrow> in_status r = Revoked"
proof -
  assume r: "session_row handle c (revoked_tables handle k) = Some r"
  have "r \<in> set (kg_incoming (revoked_tables handle k))" "nocase (in_handle r) handle"
    using find_Some_hit [OF r [unfolded session_row_def]] by (simp_all add: session_is_def)
  then show ?thesis
    by (auto simp: revoked_tables_def cut_off_others revokeIncomingSessionsForHandle_def update_rows_def Let_def split: option.splits)
qed

lemma no_text_from_revoked:
  assumes "m_keyring m = revoked_tables handle k"
  shows "fst (decryptIncoming ev now handle c line m) \<noteq> Inr (Plaintext t)"
proof -
  have "session_row handle c (m_keyring m) = Some r \<Longrightarrow> in_status r \<noteq> Trusted" for r using revoked_sessions assms by simp
  then show ?thesis
    by (auto simp: decryptIncoming_def orElse_def andThen_def read_keyring_def getIncomingSession_def ret_def split: sum.splits option.splits if_splits)
qed

lemma revoked_peer:
  assumes "getPeerByHandle handle k = Some p"
  shows "\<exists>peer. getPeerByFingerprint (pr_fingerprint p) (revoked_tables handle k) = Some peer \<and> pr_globalStatus peer = Revoked"
proof -
  have "p \<in> set (kg_peers k)" using latest_in [OF assms [unfolded getPeerByHandle_def]] by simp
  then obtain q where "getPeerByFingerprint (pr_fingerprint p) k = Some q"
    by (cases "getPeerByFingerprint (pr_fingerprint p) k") (auto simp: getPeerByFingerprint_def find_None_iff2)
  then have "getPeerByFingerprint (pr_fingerprint p) (setPeerStatus (pr_fingerprint p) Revoked k) = Some (q\<lparr>pr_globalStatus := Revoked\<rparr>)"
    by (simp add: peer_status)
  then show ?thesis
    by (simp add: revoked_tables_def assms Let_def getPeerByFingerprint_def cut_off_others revokeIncomingSessionsForHandle_def)
qed

lemma revoked_channel:
  assumes "row \<in> set (kg_recipients k)" "nocase (rp_handle row) handle"
  shows "outgoing_of (rp_channel row) (revoked_tables handle k) = map_option (\<lambda>o'. o'\<lparr>og_pendingRotation := True\<rparr>) (outgoing_of (rp_channel row) k)"
    "r \<in> set (listOutgoingRecipients (rp_channel row) (revoked_tables handle k)) \<Longrightarrow>
      r \<in> set (listOutgoingRecipients (rp_channel row) k) \<and> \<not> nocase (rp_handle r) handle"
proof -
  let ?k0 = "case getPeerByHandle handle k of Some p \<Rightarrow> setPeerStatus (pr_fingerprint p) Revoked k | None \<Rightarrow> k"
  let ?cs = "fold set_add (listIncomingChannelsForHandle handle ?k0 @ listOutgoingChannelsForHandle handle ?k0) []"
  let ?k1 = "snd (revokeIncomingSessionsForHandle handle ?k0)"
  have e: "revoked_tables handle k = cut_off handle ?cs ?k1" by (simp add: revoked_tables_def Let_def)
  have same: "kg_outgoing ?k1 = kg_outgoing k" "kg_recipients ?k1 = kg_recipients k" "kg_recipients ?k0 = kg_recipients k"
    by (simp_all add: revokeIncomingSessionsForHandle_def setPeerStatus_def split: option.splits)
  have c: "rp_channel row \<in> set ?cs" using assms by (auto simp: set_adds listOutgoingChannelsForHandle_def same)
  have hit: "nocase (og_channel o') (rp_channel row)" if "outgoing_of (rp_channel row) k = Some o'" for o'
    using find_Some_hit [OF that [unfolded outgoing_of_def]] by simp
  show "outgoing_of (rp_channel row) (revoked_tables handle k) = map_option (\<lambda>o'. o'\<lparr>og_pendingRotation := True\<rparr>) (outgoing_of (rp_channel row) k)"
  proof (cases "outgoing_of (rp_channel row) k")
    case (Some o')
    then have "outgoing_of (rp_channel row) ?k1 = Some o'" by (simp add: outgoing_of_def same)
    moreover have "\<exists>x \<in> set ?cs. nocase (og_channel o') x" using c hit [OF Some] by blast
    ultimately show ?thesis unfolding e cut_off_outgoing Some by simp
  qed (simp add: e cut_off_outgoing, simp add: outgoing_of_def same)
  assume r: "r \<in> set (listOutgoingRecipients (rp_channel row) (revoked_tables handle k))"
  then have "r \<in> set (kg_recipients (cut_off handle ?cs ?k1))" "nocase (rp_channel r) (rp_channel row)" by (simp_all add: listOutgoingRecipients_def e)
  then show "r \<in> set (listOutgoingRecipients (rp_channel row) k) \<and> \<not> nocase (rp_handle r) handle"
    using cut_off_others(3) [of handle ?cs ?k1] cut_off_others(4) [OF c, of r handle ?k1] same
    by (auto simp: listOutgoingRecipients_def recipient_is_def)
qed

lemma set_outgoing:
  assumes "length sk = 32"
  shows "\<exists>k' o'. setOutgoingSession c sk t k = Inr k' \<and> outgoing_of c k' = Some o' \<and> og_sk o' = Some sk \<and> \<not> og_pendingRotation o'"
proof -
  let ?hit = "\<lambda>r. nocase (og_channel r) c"
  have "find ?hit (upsert_rows ?hit (\<lambda>r. r\<lparr>og_sk := Some sk, og_createdAt := t, og_pendingRotation := False\<rparr>)
      \<lparr>og_channel = c, og_sk = Some sk, og_createdAt = t, og_pendingRotation = False\<rparr> (kg_outgoing k)) = Some o' \<Longrightarrow>
      og_sk o' = Some sk \<and> \<not> og_pendingRotation o'" for o'
    by (auto simp: find_upsert_rows find_None_iff2 split: option.splits if_splits dest: find_Some_hit)
  moreover have "\<exists>o'. find ?hit (upsert_rows ?hit (\<lambda>r. r\<lparr>og_sk := Some sk, og_createdAt := t, og_pendingRotation := False\<rparr>)
      \<lparr>og_channel = c, og_sk = Some sk, og_createdAt = t, og_pendingRotation = False\<rparr> (kg_outgoing k)) = Some o'"
    by (cases "find ?hit (kg_outgoing k)") (auto simp: find_upsert_rows find_None_iff2 split: option.split)
  ultimately show ?thesis using assms by (auto simp: setOutgoingSession_def sealKey_def KEY_LEN_def outgoing_of_def)
qed

lemma rotation:
  assumes "getOutgoingSession c (m_keyring m) = Inr (Some (sk, o'))" "og_pendingRotation o'" "length (ev_random ev (m_draws m) 32) = 32"
  shows "\<exists>m2 q o2. getOrGenerateOutgoingKey ev now c m = (Inr (ev_random ev (m_draws m) 32), m2) \<and>
    outgoing_of c (m_keyring m2) = Some o2 \<and> og_sk o2 = Some (ev_random ev (m_draws m) 32) \<and> waiting_sends m2 = waiting_sends m @ q \<and>
    (\<forall>s \<in> set q. \<exists>r \<in> set (listOutgoingRecipients c (m_keyring m)). hands_on ev now c (ev_random ev (m_draws m) 32) (m_keyring m) r s)"
proof -
  let ?fresh = "ev_random ev (m_draws m) 32" and ?m1 = "m\<lparr>m_draws := Suc (m_draws m)\<rparr>"
  obtain m' q where d: "queueRekeyDistribution ev now c ?fresh ?m1 = (Inr (), m')"
    "m_pendingRekey m' = m_pendingRekey ?m1 \<and> q = [] \<or> m_pendingRekey m' = Some ((case m_pendingRekey ?m1 of Some old \<Rightarrow> old | None \<Rightarrow> []) @ q)"
    "\<forall>s \<in> set q. \<exists>r \<in> set (listOutgoingRecipients c (m_keyring m)). hands_on ev now c ?fresh (m_keyring m) r s"
    using distribution [of ev now c ?fresh ?m1] by auto
  obtain k' o2 where s: "setOutgoingSession c ?fresh (nowUnix now) (m_keyring m') = Inr k'" "outgoing_of c k' = Some o2" "og_sk o2 = Some ?fresh"
    using set_outgoing [OF assms(3)] by blast
  have g: "getOrGenerateOutgoingKey ev now c m = (Inr ?fresh, m'\<lparr>m_keyring := k'\<rparr>)"
    using assms(1,2) d(1) s(1)
    by (simp add: getOrGenerateOutgoingKey_def andThen_def read_keyring_def generateSessionKey_def randomBytes_def KEY_LEN_def only_if_def
        try_keyring_def ret_def)
  have "waiting_sends (m'\<lparr>m_keyring := k'\<rparr>) = waiting_sends m @ q" using d(2) by (auto simp: waiting_sends_def)
  then show ?thesis using g s(2,3) d(3) by (intro exI [of _ "m'\<lparr>m_keyring := k'\<rparr>"] exI [of _ q] exI [of _ o2]) simp
qed

text \<open>Right after a revocation the peer's sessions show nothing, and a key is drawn for the next message on a channel where it is
  a recipient, which goes to the pinned keys of the channel's other recipients only.\<close>

lemma revocation_rotates:
  assumes "getPeerByHandle handle (m_keyring m) = Some p" "row \<in> set (kg_recipients (m_keyring m))" "nocase (rp_handle row) handle"
    "getOutgoingSession (rp_channel row) (m_keyring m) = Inr (Some (sk, o'))" "length (ev_random ev (m_draws m) 32) = 32"
  shows "let c = rp_channel row; m1 = snd (revokePeer ev handle m); fresh = ev_random ev (m_draws m) 32 in
    (\<exists>peer. getPeerByFingerprint (pr_fingerprint p) (m_keyring m1) = Some peer \<and> pr_globalStatus peer = Revoked) \<and>
    (\<forall>now' c' line t. fst (decryptIncoming ev now' handle c' line m1) \<noteq> Inr (Plaintext t)) \<and>
    (\<exists>m2 q o2. getOrGenerateOutgoingKey ev now c m1 = (Inr fresh, m2) \<and>
      outgoing_of c (m_keyring m2) = Some o2 \<and> og_sk o2 = Some fresh \<and> waiting_sends m2 = waiting_sends m @ q \<and>
      (\<forall>s \<in> set q. \<exists>r \<in> set (listOutgoingRecipients c (m_keyring m)). \<not> nocase (rp_handle r) handle \<and>
        hands_on ev now c fresh (m_keyring m1) r s))"
proof -
  let ?m1 = "snd (revokePeer ev handle m)" and ?c = "rp_channel row" and ?fresh = "ev_random ev (m_draws m) 32"
  have k1: "m_keyring ?m1 = revoked_tables handle (m_keyring m)" and m1: "m_draws ?m1 = m_draws m" "waiting_sends ?m1 = waiting_sends m"
    by (simp_all add: revoke_eq waiting_sends_def)
  obtain oo where oo: "outgoing_of ?c (m_keyring m) = Some oo" "openKey (og_sk oo) = Inr sk"
    using assms(4) by (auto simp: getOutgoingSession_def split: option.splits sum.splits)
  have "getOutgoingSession ?c (m_keyring ?m1) = Inr (Some (sk, oo\<lparr>og_pendingRotation := True\<rparr>))"
    unfolding getOutgoingSession_def k1 revoked_channel(1) [OF assms(2,3)] using oo by simp
  from rotation [OF this, of ev now] obtain m2 q o2 where r: "getOrGenerateOutgoingKey ev now ?c ?m1 = (Inr ?fresh, m2)"
    "outgoing_of ?c (m_keyring m2) = Some o2" "og_sk o2 = Some ?fresh" "waiting_sends m2 = waiting_sends m @ q"
    "\<forall>s \<in> set q. \<exists>r \<in> set (listOutgoingRecipients ?c (m_keyring ?m1)). hands_on ev now ?c ?fresh (m_keyring ?m1) r s"
    using assms(5) by (auto simp: m1)
  have "\<forall>s \<in> set q. \<exists>r \<in> set (listOutgoingRecipients ?c (m_keyring m)). \<not> nocase (rp_handle r) handle \<and> hands_on ev now ?c ?fresh (m_keyring ?m1) r s"
    using r(5) revoked_channel(2) [OF assms(2,3)] unfolding k1 by blast
  then show ?thesis using r(1-4) revoked_peer [OF assms(1)] no_text_from_revoked [OF k1] unfolding Let_def k1 by blast
qed

text \<open>A peer given our key under one spelling of its handle and revoked under another.\<close>

definition example_keyring :: keyring where
  "example_keyring = new_keyring\<lparr>
     kg_peers := [\<lparr>pr_fingerprint = [7], pr_pubkey = [8], pr_lastHandle = Some ''A@b'', pr_lastNick = None, pr_firstSeen = 0, pr_lastSeen = 0,
       pr_globalStatus = Trusted\<rparr>],
     kg_outgoing := [\<lparr>og_channel = ''#x'', og_sk = Some (replicate 32 1), og_createdAt = 0, og_pendingRotation = False\<rparr>],
     kg_recipients := [\<lparr>rp_channel = ''#x'', rp_handle = ''A@b'', rp_fingerprint = [7], rp_firstSentAt = 0\<rparr>]\<rparr>"

definition example_env :: e2e_env where
  "example_env = \<lparr>ev_tenant = ''1:1'', ev_tsToleranceSecs = 300, ev_random = (\<lambda>n l. replicate l (word_of_nat n)), ev_sha256 = (\<lambda>bs. bs),
     ev_edPublic = (\<lambda>s. s), ev_edSign = (\<lambda>msg s. Some (replicate 64 0)), ev_edVerify = (\<lambda>sig msg p. True), ev_xPublic = (\<lambda>s. s),
     ev_xShared = (\<lambda>s p. Some s), ev_hkdf = (\<lambda>s salt info l. replicate l 0), ev_toMontgomery = Some, ev_toMontgomerySecret = Some,
     ev_aeadSeal = (\<lambda>k n a pt. pt), ev_aeadOpen = (\<lambda>k n a ct. Some ct)\<rparr>"

lemma nocase_example: "nocase ''A@b'' ''a@b''" "nocase ''#x'' ''#x''"
  by code_simp+

lemma traffic_never_changes_trust_witness:
  "\<exists>p'. getPeerByFingerprint [7] (m_keyring (fold (e2e_traffic example_env)
      [(0, Handshake ''a@b'' None ''RPEE2E KEYREQ v=1 c=#x''), (5, Prepares ''#x'')] (new_mgr example_keyring))) = Some p' \<and> pr_pubkey p' = [8]"
proof -
  let ?p = "\<lparr>pr_fingerprint = [7], pr_pubkey = [8], pr_lastHandle = Some ''A@b'', pr_lastNick = None, pr_firstSeen = 0, pr_lastSeen = 0,
       pr_globalStatus = Trusted\<rparr>"
  have m: "m_keyring (new_mgr example_keyring) = example_keyring" by (simp add: new_mgr_def)
  have "getPeerByFingerprint [7] (m_keyring (new_mgr example_keyring)) = Some ?p"
    unfolding m by (simp add: example_keyring_def getPeerByFingerprint_def)
  then show ?thesis
    using traffic_never_changes_trust [of "new_mgr example_keyring" example_env
      "[(0, Handshake ''a@b'' None ''RPEE2E KEYREQ v=1 c=#x''), (5, Prepares ''#x'')]"]
    unfolding Let_def by fastforce
qed

end
