(* ===== verification/E2e_Exchange.thy ===== *)
theory E2e_Exchange imports E2e_Trust begin

text \<open>
  What two managers say to each other: a line is shown once, however often it is sent again, what one side encrypts the
  other side reads, and what a revocation does to what a peer sends and to what it can read.
\<close>

section \<open>Who touches the replay cache\<close>

named_theorems frame_rules "operations that leave the replay cache alone"

definition leaves_replay :: "'a act \<Rightarrow> bool" where
  "leaves_replay a \<longleftrightarrow> (\<forall>m. m_replay (snd (a m)) = m_replay m)"

lemma leaves_replayI: "(\<And>m. m_replay (snd (a m)) = m_replay m) \<Longrightarrow> leaves_replay a"
  by (simp add: leaves_replay_def)

lemma frame_andThen [frame_rules]: "leaves_replay a \<Longrightarrow> (\<And>x. leaves_replay (f x)) \<Longrightarrow> leaves_replay (andThen a f)"
proof (rule leaves_replayI)
  fix m :: mgr
  assume a: "leaves_replay a" "\<And>x. leaves_replay (f x)"
  obtain r m' where "a m = (r, m')" by (rule prod.exhaust)
  then show "m_replay (snd (andThen a f m)) = m_replay m"
    using a(1) [unfolded leaves_replay_def, rule_format, of m] a(2) by (cases r) (simp_all add: andThen_def leaves_replay_def)
qed

lemma frame_orElse [frame_rules]: "leaves_replay a \<Longrightarrow> leaves_replay h \<Longrightarrow> leaves_replay (orElse a h)"
proof (rule leaves_replayI)
  fix m :: mgr
  assume a: "leaves_replay a" "leaves_replay h"
  obtain r m' where "a m = (r, m')" by (rule prod.exhaust)
  then show "m_replay (snd (orElse a h m)) = m_replay m"
    using a(1) [unfolded leaves_replay_def, rule_format, of m] a(2) by (cases r) (simp_all add: orElse_def leaves_replay_def)
qed

lemma frame_simple [frame_rules]:
  "leaves_replay (ret x)" "leaves_replay (raise e)" "leaves_replay (gets g)" "leaves_replay (of_result r)" "leaves_replay (ask_keyring q)"
  "leaves_replay (read_keyring p)" "leaves_replay (try_keyring w)" "leaves_replay (write_keyring u)" "leaves_replay (count_keyring v)"
  "leaves_replay (randomBytes ev n)" "leaves_replay (installIncoming h c fp sk t)" "leaves_replay (clearPendingForHandle h)"
  by (rule leaves_replayI, auto simp: ret_def raise_def gets_def of_result_def ask_keyring_def read_keyring_def try_keyring_def write_keyring_def
      count_keyring_def randomBytes_def installIncoming_def clearPendingForHandle_def split_def Let_def split: sum.splits)+

lemma frame_modify: "(\<And>m. m_replay (f m) = m_replay m) \<Longrightarrow> leaves_replay (modify f)"
  by (simp add: leaves_replay_def modify_def)

lemma frame_kept [frame_rules]:
  "leaves_replay (allow_incoming ev now h)" "leaves_replay (allow_outgoing ev now h)" "leaves_replay (observe_rekey now key ttl)"
  "leaves_replay (sweepPending now)" "leaves_replay (stashKeyChange ev now h c pub ch)" "leaves_replay (clearKeyChange ev h)"
  "leaves_replay (cachePendingInbound ev now h req)" "leaves_replay (upsertSeenPeer now fp pub h n)"
  by (rule leaves_replayI, simp add: allow_incoming_def allow_outgoing_def observe_rekey_def observe_in_def sweepPending_def stashKeyChange_def
      clearKeyChange_def cachePendingInbound_def upsertSeenPeer_def modify_def write_keyring_def ret_def split_def Let_def)+

lemma frame_each [frame_rules]:
  "(\<And>x. leaves_replay (f x)) \<Longrightarrow> leaves_replay (collect_each f xs)"
  by (induction xs) (auto intro!: frame_rules)

lemma frame_if [frame_rules]:
  "(b \<Longrightarrow> leaves_replay a) \<Longrightarrow> (\<not> b \<Longrightarrow> leaves_replay c) \<Longrightarrow> leaves_replay (if b then a else c)"
  by simp

lemma frame_option [frame_rules]:
  "leaves_replay a \<Longrightarrow> (\<And>x. leaves_replay (f x)) \<Longrightarrow> leaves_replay (case p of None \<Rightarrow> a | Some x \<Rightarrow> f x)"
  by (cases p) auto

lemma frame_sum [frame_rules]:
  "(\<And>e. leaves_replay (g e)) \<Longrightarrow> (\<And>x. leaves_replay (h x)) \<Longrightarrow> leaves_replay (case r of Inl e \<Rightarrow> g e | Inr x \<Rightarrow> h x)"
  by (cases r) auto

lemma frame_pair [frame_rules]: "(\<And>u v. leaves_replay (k u v)) \<Longrightarrow> leaves_replay (case q of (u, v) \<Rightarrow> k u v)"
  by (cases q) auto

lemma frame_only_if [frame_rules]: "leaves_replay a \<Longrightarrow> leaves_replay (only_if b a)"
  by (simp add: only_if_def frame_simple)

lemma frame_load [frame_rules]: "leaves_replay (loadIdentity ev now)"
  unfolding loadIdentity_def by (auto intro!: frame_rules frame_modify)

lemma frame_request [frame_rules]: "leaves_replay (buildKeyReqStruct ev now ch h)"
  unfolding buildKeyReqStruct_def generateEphemeral_def by (auto intro!: frame_rules frame_modify)

lemma frame_seal [frame_rules]: "leaves_replay (aead_encrypt ev key aad pt)"
  unfolding aead_encrypt_def by (auto intro!: frame_rules)

lemma frame_rekey_body [frame_rules]: "leaves_replay (rekey_for ev now ch sk r)"
  unfolding rekey_for_def buildRekeyBody_def generateEphemeral_def Let_def by (auto intro!: frame_rules)

lemma frame_own_key [frame_rules]: "leaves_replay (getOrGenerateOutgoingKey ev now ch)"
  unfolding getOrGenerateOutgoingKey_def generateSessionKey_def queueRekeyDistribution_def Let_def by (auto intro!: frame_rules frame_modify)

lemma frame_answer [frame_rules]: "leaves_replay (buildKeyRspAndReciprocal ev now h req already)"
  unfolding buildKeyRspAndReciprocal_def generateEphemeral_def Let_def by (auto intro!: frame_rules)

lemma frame_install [frame_rules]: "leaves_replay (install_or_warn ev now h rsp sk oc)"
  unfolding install_or_warn_def Let_def by (auto intro!: frame_rules)

lemma frame_key_req [frame_rules]: "leaves_replay (handleKeyReq ev now h n req)"
  unfolding handleKeyReq_def hasTrustedIncoming_def Let_def by (auto intro!: frame_rules)

lemma frame_key_rsp [frame_rules]: "leaves_replay (handleKeyRsp ev now h rsp)"
  unfolding handleKeyRsp_def consumePendingForKeyRsp_def Let_def by (auto intro!: frame_rules frame_modify)

lemma frame_rekey [frame_rules]: "leaves_replay (handleRekey ev now h rk)"
  unfolding handleRekey_def Let_def by (auto intro!: frame_rules)

lemma frame_handshake [frame_rules]: "leaves_replay (handleHandshakeBody ev now h n body)"
  unfolding handleHandshakeBody_def by (auto intro!: frame_rules split: handshake_msg.split)

lemma frame_encrypt [frame_rules]: "leaves_replay (encryptOutgoing ev now c t)"
  unfolding encryptOutgoing_def encrypt_chunk_def Let_def by (auto intro!: frame_rules)


lemma frame_each_do [frame_rules]:
  "(\<And>x. leaves_replay (f x)) \<Longrightarrow> leaves_replay (for_each f xs)"
  by (induction xs) (auto intro!: frame_rules)

lemma frame_others [frame_rules]:
  "leaves_replay (prepareOutgoing ev now c)" "leaves_replay (buildKeyReq ev now c ph)" "leaves_replay (autoHandshakeBody ev now c h)"
  "leaves_replay takePendingRekeySends" "leaves_replay (putBackRekeySend s)"
  unfolding prepareOutgoing_def buildKeyReq_def autoHandshakeBody_def takePendingRekeySends_def putBackRekeySend_def Let_def
  by (auto intro!: frame_rules frame_modify)

section \<open>Everything that happens to a manager\<close>

text \<open>What the user decides, beside the traffic of \<open>E2e_Trust\<close>.\<close>

datatype decision = Configures string bool channel_mode | SetsMode string channel_mode | Rotates string | Accepts string string |
  Declines string string | Revokes string | Unrevokes string | Forgets string | ForgetsOn string string | Reverifies string |
  Trusts string string | Distrusts string

datatype happening = Traffic traffic | Decision decision

fun decide :: "e2e_env \<Rightarrow> int \<Rightarrow> decision \<Rightarrow> mgr \<Rightarrow> mgr" where
  "decide ev now (Configures c on md) = done_with (setChannelConfig c on md)"
| "decide ev now (SetsMode c md) = done_with (setChannelMode c md)"
| "decide ev now (Rotates c) = done_with (rotateChannel c)"
| "decide ev now (Accepts h c) = done_with (acceptPending ev now h c)"
| "decide ev now (Declines h c) = done_with (declinePeer ev h c)"
| "decide ev now (Revokes h) = done_with (revokePeer ev h)"
| "decide ev now (Unrevokes h) = done_with (unrevokePeer h)"
| "decide ev now (Forgets h) = done_with (forgetPeer ev h)"
| "decide ev now (ForgetsOn h c) = done_with (forgetPeerOnChannel ev h c)"
| "decide ev now (Reverifies h) = done_with (reverifyPeer ev now h)"
| "decide ev now (Trusts scope pat) = done_with (addAutotrust scope pat)"
| "decide ev now (Distrusts pat) = done_with (removeAutotrust pat)"

fun happens :: "e2e_env \<Rightarrow> int \<times> happening \<Rightarrow> mgr \<Rightarrow> mgr" where
  "happens ev (now, Traffic x) = e2e_traffic ev (now, x)"
| "happens ev (now, Decision d) = decide ev now d"

fun arrival :: "int \<times> happening \<Rightarrow> bool" where
  "arrival (now, Traffic (Arrives h c line)) = True"
| "arrival e = False"

lemma frame_config:
  "leaves_replay (setChannelConfig c on md)" "leaves_replay (setChannelMode c md)" "leaves_replay (rotateChannel c)"
  "leaves_replay (addAutotrust scope pat)" "leaves_replay (removeAutotrust pat)"
  unfolding setChannelMode_def setChannelConfig_def rotateChannel_def addAutotrust_def removeAutotrust_def
  by (auto intro!: frame_rules)

lemma frame_forget [frame_rules]: "leaves_replay (forgetPeer ev h)"
  unfolding forgetPeer_def by (auto intro!: frame_rules)

lemma frame_pin [frame_rules]: "leaves_replay (pin_new ev now h pub)" "leaves_replay (applyStashedKeyChange ev now h s)"
  unfolding applyStashedKeyChange_def pin_new_def Let_def by (auto intro!: frame_rules)

lemma frame_peer:
  "leaves_replay (acceptPending ev now h c)" "leaves_replay (declinePeer ev h c)" "leaves_replay (revokePeer ev h)"
  "leaves_replay (unrevokePeer h)" "leaves_replay (forgetPeerOnChannel ev h c)" "leaves_replay (reverifyPeer ev now h)"
  unfolding acceptPending_def declinePeer_def revokePeer_def unrevokePeer_def forgetPeerOnChannel_def reverifyPeer_def Let_def hasTrustedIncoming_def
  by (auto intro!: frame_rules frame_modify)

lemma frame_done: "leaves_replay a \<Longrightarrow> m_replay (done_with a m) = m_replay m"
  by (simp add: leaves_replay_def done_with_def)

lemma only_arrivals_observe:
  assumes "\<not> arrival e"
  shows "m_replay (happens ev e m) = m_replay m"
proof -
  obtain now x where e: "e = (now, x)" by (cases e)
  show ?thesis
  proof (cases x)
    case (Traffic y)
    then show ?thesis using assms e frame_handshake [THEN frame_done] frame_encrypt [THEN frame_done] frame_others [THEN frame_done]
      by (cases y) simp_all
  next
    case (Decision d)
    then show ?thesis using e frame_done [OF frame_config(1)] frame_done [OF frame_config(2)] frame_done [OF frame_config(3)]
        frame_done [OF frame_config(4)] frame_done [OF frame_config(5)] frame_done [OF frame_forget]
        frame_peer [THEN frame_done] by (cases d) simp_all
  qed
qed

section \<open>What the cache remembers through a run\<close>

definition remembers :: "(string \<times> int) set \<Rightarrow> int \<Rightarrow> nat \<Rightarrow> replay_cache \<Rightarrow> bool" where
  "remembers K later n c \<longleftrightarrow> distinct (map fst (rc_seen c)) \<and> length (rc_seen c) \<le> n \<and>
     (\<forall>(k, e) \<in> K. later < e \<and> map_of (rc_seen c) k = Some e)"

lemma remembersD:
  assumes "remembers K later n c"
  shows "distinct (map fst (rc_seen c))" "length (rc_seen c) \<le> n" "(k, e) \<in> K \<Longrightarrow> later < e" "(k, e) \<in> K \<Longrightarrow> map_of (rc_seen c) k = Some e"
  using assms by (auto simp: remembers_def)

lemma observe_agrees:
  assumes "distinct (map fst (rc_seen c))" "length (rc_seen c) < rc_maxEntries c"
  shows "fst (observe now key ttl c) = fst (observe_spec now key ttl (map_of (rc_seen c)))"
    "agrees now (snd (observe now key ttl c)) (snd (observe_spec now key ttl (map_of (rc_seen c))))"
    "length (rc_seen (snd (observe now key ttl c))) \<le> Suc (length (rc_seen c))"
proof -
  have a: "agrees now c (map_of (rc_seen c))" using assms(1) by (simp add: agrees_def)
  have l: "length (AList.update key (now + ttl) (rc_seen c)) \<le> rc_maxEntries c" using assms(2) by (simp add: length_update)
  show o: "fst (observe now key ttl c) = fst (observe_spec now key ttl (map_of (rc_seen c)))"
    and g: "agrees now (snd (observe now key ttl c)) (snd (observe_spec now key ttl (map_of (rc_seen c))))"
    using observe_refines [OF a l] by blast+
  let ?c = "snd (observe now key ttl c)"
  have "length (rc_seen ?c) = card (fst ` set (rc_seen ?c))" using agreesD(3) [OF g] distinct_card by fastforce
  also have "\<dots> \<le> card (insert key (fst ` set (rc_seen c)))" by (rule card_mono) (simp_all add: observe_keys)
  also have "\<dots> \<le> Suc (card (fst ` set (rc_seen c)))" by (rule card_insert_le_m1) simp_all
  also have "\<dots> \<le> Suc (length (rc_seen c))" using card_length [of "map fst (rc_seen c)"] by simp
  finally show "length (rc_seen ?c) \<le> Suc (length (rc_seen c))" .
qed

lemma observe_keeps:
  assumes "remembers K later n c" "n < rc_maxEntries c" "now \<le> later"
  shows "remembers K later (Suc n) (snd (observe now key ttl c))"
proof -
  note k = remembersD [OF assms(1)]
  have room: "length (rc_seen c) < rc_maxEntries c" using k(2) assms(2) by simp
  note o = observe_agrees [OF k(1) room, of now key ttl]
  have "map_of (rc_seen (snd (observe now key ttl c))) x = Some e" if x: "(x, e) \<in> K" for x e
  proof (rule agreesD(2) [OF o(2)])
    show "now < e" using k(3) [OF x] assms(3) by simp
    then show "snd (observe_spec now key ttl (map_of (rc_seen c))) x = Some e" using k(4) [OF x]
      by (auto simp: observe_spec_def split: option.splits)
  qed
  then show ?thesis using agreesD(3) [OF o(2)] o(3) k(2,3) unfolding remembers_def by auto
qed


lemma within_window: "a - b \<le> 2 * tol \<Longrightarrow> b * 1000 \<le> now \<Longrightarrow> later < a * 1000 + 1000 \<Longrightarrow> later < now + (tol * 2 + 5) * (1000 :: int)"
  by (simp add: algebra_simps)

lemma open_refuses: "open_chunk ev c sk w \<noteq> Inr (Inl (Plaintext t))"
  by (cases "buildAad c (wc_msgid w) (wc_ts w) (wc_part w) (wc_total w)") (auto simp: open_chunk_def split: sum.splits option.splits)

text \<open>What decryption can do: it shows nothing and changes nothing, or it asks the cache.\<close>

lemma decrypt_cases:
  obtains (nothing) "snd (decryptIncoming ev now h c line m) = m" "\<And>t. fst (decryptIncoming ev now h c line m) \<noteq> Inr (Plaintext t)"
  | (asks) w t where "parseChunk line = Inr (Some w)" "\<bar>nowUnix now - wc_ts w\<bar> \<le> ev_tsToleranceSecs ev"
      "decryptIncoming ev now h c line m =
        (let (fresh, rc) = observe now (replay_key ev c h w) ((ev_tsToleranceSecs ev * 2 + 5) * 1000) (m_replay m) in
          (Inr (if fresh then Plaintext t else Replay), m\<lparr>m_replay := rc\<rparr>))"
proof (cases "parseChunk line")
  case (Inl e)
  then have "decryptIncoming ev now h c line m = (Inr (Rejected ''malformed RPE2E line''), m)" by (simp add: decryptIncoming_def orElse_def ret_def)
  then show ?thesis using that(1) by simp
next
  case (Inr p)
  show ?thesis
  proof (cases p)
    case None
    then have "decryptIncoming ev now h c line m = (Inr (Cleartext line), m)" using Inr by (simp add: decryptIncoming_def orElse_def ret_def)
    then show ?thesis using that(1) by simp
  next
    case (Some w)
    let ?s = "getIncomingSession h c (m_keyring m)"
    show ?thesis
    proof (cases "\<exists>sk r t. ?s = Inr (Some (sk, r)) \<and> in_status r = Trusted \<and> open_chunk ev c sk w = Inr (Inr t) \<and>
        \<bar>nowUnix now - wc_ts w\<bar> \<le> ev_tsToleranceSecs ev")
      case True
      then obtain sk r t where o: "?s = Inr (Some (sk, r))" "in_status r = Trusted" "open_chunk ev c sk w = Inr (Inr t)"
        "\<bar>nowUnix now - wc_ts w\<bar> \<le> ev_tsToleranceSecs ev" by blast
      show ?thesis
        by (rule that(2) [of w t]) (use o Inr Some in \<open>simp_all add: decryptIncoming_def orElse_def andThen_def ret_def read_keyring_def of_result_def
            observe_replay_def observe_in_def Let_def split_beta\<close>)
    next
      case False
      have "snd (decryptIncoming ev now h c line m) = m \<and> (\<forall>t. fst (decryptIncoming ev now h c line m) \<noteq> Inr (Plaintext t))"
        using False Inr Some
        by (auto simp: decryptIncoming_def orElse_def andThen_def ret_def read_keyring_def of_result_def open_refuses
            split: sum.splits option.splits)
      then show ?thesis using that(1) by blast
    qed
  qed
qed

lemma max_kept [simp]: "rc_maxEntries (snd (observe now key ttl c)) = rc_maxEntries c"
  by (rule observe_keys)

lemma decrypt_keeps:
  assumes "remembers K later n (m_replay m)" "n < rc_maxEntries (m_replay m)" "now \<le> later"
  shows "remembers K later (Suc n) (m_replay (snd (decryptIncoming ev now h c line m)))"
    "rc_maxEntries (m_replay (snd (decryptIncoming ev now h c line m))) = rc_maxEntries (m_replay m)"
proof -
  have k: "remembers K later (Suc n) (m_replay m)" using assms(1) by (auto simp: remembers_def)
  show "remembers K later (Suc n) (m_replay (snd (decryptIncoming ev now h c line m)))"
    by (cases rule: decrypt_cases [of ev now h c line m]) (use k observe_keeps [OF assms] in \<open>auto simp: Let_def split_beta\<close>)
  show "rc_maxEntries (m_replay (snd (decryptIncoming ev now h c line m))) = rc_maxEntries (m_replay m)"
    by (cases rule: decrypt_cases [of ev now h c line m]) (auto simp: Let_def split_beta)
qed

lemma run_keeps:
  assumes "remembers K later n (m_replay m)" "n + length (filter arrival es) \<le> rc_maxEntries (m_replay m)" "\<forall>e \<in> set es. fst e \<le> later"
  shows "remembers K later (n + length (filter arrival es)) (m_replay (fold (happens ev) es m)) \<and>
    rc_maxEntries (m_replay (fold (happens ev) es m)) = rc_maxEntries (m_replay m)"
  using assms
proof (induction es arbitrary: m n)
  case (Cons e es)
  let ?m = "happens ev e m"
  show ?case
  proof (cases "arrival e")
    case True
    then obtain now h c line where e: "e = (now, Traffic (Arrives h c line))" by (cases e rule: arrival.cases) auto
    have n: "n < rc_maxEntries (m_replay m)" "now \<le> later" using Cons.prems(2,3) True e by simp_all
    have "remembers K later (Suc n) (m_replay ?m)" "rc_maxEntries (m_replay ?m) = rc_maxEntries (m_replay m)"
      using decrypt_keeps [OF Cons.prems(1) n] unfolding e by (simp_all add: done_with_def)
    then show ?thesis using Cons.IH [of "Suc n" ?m] Cons.prems(2,3) True by simp
  next
    case False
    then show ?thesis using Cons.IH [of n ?m] Cons.prems only_arrivals_observe [OF False, of ev m] by simp
  qed
qed simp

text \<open>A line that is shown asked the cache, which had not seen it.\<close>

lemma shown_asks:
  assumes "fst (decryptIncoming ev now h c line m) = Inr (Plaintext t)"
  obtains w where "parseChunk line = Inr (Some w)" "\<bar>nowUnix now - wc_ts w\<bar> \<le> ev_tsToleranceSecs ev"
    "fst (observe now (replay_key ev c h w) ((ev_tsToleranceSecs ev * 2 + 5) * 1000) (m_replay m))"
    "snd (decryptIncoming ev now h c line m) =
      m\<lparr>m_replay := snd (observe now (replay_key ev c h w) ((ev_tsToleranceSecs ev * 2 + 5) * 1000) (m_replay m))\<rparr>"
proof (cases rule: decrypt_cases [of ev now h c line m])
  case (asks w t0)
  then show thesis using assms by (intro that [of w]) (auto simp: Let_def split_beta split: if_splits)
qed (use assms in auto)

lemma observed_is_remembered:
  assumes "remembers K later n c" "n < rc_maxEntries c" "fst (observe now key ttl c)" "now < now + ttl" "later < now + ttl"
  shows "remembers {(key, now + ttl)} later (Suc n) (snd (observe now key ttl c))"
proof -
  have room: "length (rc_seen c) < rc_maxEntries c" using remembersD(2) [OF assms(1)] assms(2) by simp
  note o = observe_agrees [OF remembersD(1) [OF assms(1)] room, of now key ttl]
  have "snd (observe_spec now key ttl (map_of (rc_seen c))) key = Some (now + ttl)"
    using assms(3) o(1) by (auto simp: observe_spec_def split: option.splits if_splits)
  from agreesD(2) [OF o(2) this assms(4)] show ?thesis
    using agreesD(3) [OF o(2)] o(3) remembersD(2) [OF assms(1)] assms(5) by (simp add: remembers_def)
qed

lemma both_in_window:
  assumes "\<bar>nowUnix now - ts\<bar> \<le> tol" "\<bar>nowUnix later - ts\<bar> \<le> tol"
  shows "later < now + (tol * 2 + 5) * 1000"
proof -
  have "later div 1000 - now div 1000 \<le> 2 * tol" using assms unfolding nowUnix_def by linarith
  moreover have "now div 1000 * 1000 \<le> now" "later < later div 1000 * 1000 + 1000" by presburger+
  ultimately show ?thesis by (rule within_window)
qed

text \<open>C39: A line is shown as a message once: a manager that started with an empty replay cache and has shown the text of a
  line does not show a text for the same line again, from the same sender's handle and in the same channel, both spelled as
  before.  Between may lie any traffic and any decision of the user, the peer forgotten and trusted again included; the clock
  does not go back and fewer than 100,000 lines, the size of the cache, have come in.\<close>

theorem chunk_is_shown_once:
  assumes "m = fold (happens ev) before (new_mgr k)" "fst (decryptIncoming ev now h c line m) = Inr (Plaintext t)"
    "m' = fold (happens ev) between (snd (decryptIncoming ev now h c line m))"
    "sorted (map fst before @ now # map fst between @ [later])" "length (filter arrival (before @ between)) < 100000"
  shows "fst (decryptIncoming ev later h c line m') \<noteq> Inr (Plaintext t')"
proof
  assume again: "fst (decryptIncoming ev later h c line m') = Inr (Plaintext t')"
  let ?n = "length (filter arrival before)" and ?ttl = "(ev_tsToleranceSecs ev * 2 + 5) * 1000"
  have start: "remembers {} later 0 (m_replay (new_mgr k))" "rc_maxEntries (m_replay (new_mgr k)) = 100000"
    by (simp_all add: remembers_def new_mgr_def new_cache_def)
  have until: "\<forall>e \<in> set before. fst e \<le> later" "\<forall>e \<in> set between. fst e \<le> later"
    using assms(4) by (auto simp: sorted_append)
  have room: "?n < 100000" "?n + length (filter arrival between) < 100000" using assms(5) by simp_all
  have m: "remembers {} later ?n (m_replay m)" "rc_maxEntries (m_replay m) = 100000"
    using run_keeps [OF start(1) _ until(1), of ev] start(2) room(1) unfolding assms(1) by simp_all
  obtain w where w: "parseChunk line = Inr (Some w)" "\<bar>nowUnix now - wc_ts w\<bar> \<le> ev_tsToleranceSecs ev"
      "fst (observe now (replay_key ev c h w) ?ttl (m_replay m))"
      "snd (decryptIncoming ev now h c line m) = m\<lparr>m_replay := snd (observe now (replay_key ev c h w) ?ttl (m_replay m))\<rparr>"
    by (rule shown_asks [OF assms(2)])
  obtain w' where w': "parseChunk line = Inr (Some w')" "\<bar>nowUnix later - wc_ts w'\<bar> \<le> ev_tsToleranceSecs ev"
      "fst (observe later (replay_key ev c h w') ?ttl (m_replay m'))" by (rule shown_asks [OF again])
  have same: "w' = w" using w(1) w'(1) by simp
  have close: "later < now + ?ttl" by (rule both_in_window [OF w(2) w'(2) [unfolded same]])
  let ?K = "{(replay_key ev c h w, now + ?ttl)}"
  have "remembers ?K later (Suc ?n) (snd (observe now (replay_key ev c h w) ?ttl (m_replay m)))"
    using observed_is_remembered [OF m(1) _ w(3) _ close] m(2) room(1) w(2) by simp
  then have "remembers ?K later (Suc ?n + length (filter arrival between)) (m_replay m')"
    using run_keeps [of ?K later "Suc ?n" _ between ev] until(2) room(2) m(2) unfolding assms(3) w(4) by simp
  from remembersD(4) [OF this] have "map_of (rc_seen (m_replay m')) (replay_key ev c h w) = Some (now + ?ttl)" by simp
  then show False using w'(3) close by (simp add: same observe_def)
qed

section \<open>What is encrypted is read\<close>

text \<open>A line carries a chunk: it reads as that chunk, sealed under the key.\<close>

definition carries :: "e2e_env \<Rightarrow> string \<Rightarrow> bytes \<Rightarrow> bytes \<Rightarrow> int \<Rightarrow> nat \<Rightarrow> nat \<times> bytes \<Rightarrow> string \<Rightarrow> bool" where
  "carries ev channel sk msgid ts tot pc line \<longleftrightarrow>
     (\<exists>aad nonce. buildAad channel msgid ts (fst pc + 1) tot = Inr aad \<and> length nonce = NONCE_LEN \<and>
        parseChunk line = Inr (Some \<lparr>wc_msgid = msgid, wc_ts = ts, wc_part = fst pc + 1, wc_total = tot, wc_nonce = nonce,
          wc_ciphertext = ev_aeadSeal ev sk nonce aad (snd pc)\<rparr>))"

lemma encrypt_chunk_carries:
  assumes "length sk = KEY_LEN" "\<And>i n. length (ev_random ev i n) = n" "length msgid = MSGID_LEN" "fst pc < tot" "tot \<le> 16" "\<bar>ts\<bar> \<le> MAX_SAFE"
  obtains line m' where "encrypt_chunk ev channel sk msgid ts tot pc m = (Inr line, m')" "carries ev channel sk msgid ts tot pc line"
proof -
  obtain aad where aad: "buildAad channel msgid ts (fst pc + 1) tot = Inr aad"
    using assms(3-6) by (simp add: buildAad_def Let_def)
  let ?nonce = "ev_random ev (m_draws m) NONCE_LEN" and ?m = "m\<lparr>m_draws := Suc (m_draws m)\<rparr>"
  let ?w = "\<lparr>wc_msgid = msgid, wc_ts = ts, wc_part = fst pc + 1, wc_total = tot, wc_nonce = ?nonce,
    wc_ciphertext = ev_aeadSeal ev sk ?nonce aad (snd pc)\<rparr>"
  have "sendable ?w" using assms by (simp add: sendable_def MSGID_LEN_def NONCE_LEN_def)
  then obtain line where line: "encodeChunk ?w = Inr line" "parseChunk line = Inr (Some ?w)" using encode_parse by blast
  have "encrypt_chunk ev channel sk msgid ts tot pc m = (Inr line, ?m)"
    using aad line(1) assms(1) by (simp add: encrypt_chunk_def split_beta andThen_def of_result_def aead_encrypt_def randomBytes_def ret_def)
  moreover have "carries ev channel sk msgid ts tot pc line" using aad line(2) assms(2) by (auto simp: carries_def)
  ultimately show ?thesis by (rule that)
qed

lemma encrypt_chunks_carry:
  assumes "length sk = KEY_LEN" "\<And>i n. length (ev_random ev i n) = n" "length msgid = MSGID_LEN" "\<forall>pc \<in> set pcs. fst pc < tot" "tot \<le> 16"
    "\<bar>ts\<bar> \<le> MAX_SAFE"
  shows "\<exists>lines m'. collect_each (encrypt_chunk ev channel sk msgid ts tot) pcs m = (Inr lines, m') \<and>
    list_all2 (carries ev channel sk msgid ts tot) pcs lines"
  using assms(4)
proof (induction pcs arbitrary: m)
  case (Cons pc pcs)
  obtain line m1 where l: "encrypt_chunk ev channel sk msgid ts tot pc m = (Inr line, m1)" "carries ev channel sk msgid ts tot pc line"
    by (rule encrypt_chunk_carries [OF assms(1-3) _ assms(5,6), of pc channel m]) (use Cons.prems in auto)
  obtain lines m2 where ls: "collect_each (encrypt_chunk ev channel sk msgid ts tot) pcs m1 = (Inr lines, m2)"
    "list_all2 (carries ev channel sk msgid ts tot) pcs lines" using Cons.IH [of m1] Cons.prems by auto
  then show ?case using l by (simp add: andThen_def ret_def)
qed (simp add: ret_def)

definition part_key :: "e2e_env \<Rightarrow> string \<Rightarrow> string \<Rightarrow> bytes \<Rightarrow> nat \<Rightarrow> string" where
  "part_key ev channel handle msgid part =
     ev_tenant ev @ '':'' @ channel @ '':'' @ handle @ '':'' @ to_hex msgid @ '':'' @ digits_of part"

lemma replay_key_part: "replay_key ev c h w = part_key ev c h (wc_msgid w) (wc_part w)"
  by (simp add: replay_key_def part_key_def)

lemma part_key_inj: "part_key ev c h msgid p = part_key ev c h msgid q \<Longrightarrow> p \<le> 16 \<Longrightarrow> q \<le> 16 \<Longrightarrow> p = q"
proof -
  assume k: "part_key ev c h msgid p = part_key ev c h msgid q" and le: "p \<le> 16" "q \<le> 16"
  from k have d: "digits_of p = digits_of q" by (simp add: part_key_def)
  have "parseUintStrict (digits_of p) = Some p" "parseUintStrict (digits_of q) = Some q"
    by (rule uint_reads_back, use le in \<open>simp add: MAX_SAFE_def\<close>)+
  then show ?thesis unfolding d by simp
qed

lemma list_all2_member: "list_all2 P xs ys \<Longrightarrow> x \<in> set xs \<Longrightarrow> \<exists>y \<in> set ys. P x y"
  by (induction rule: list_all2_induct) auto

definition unseen :: "e2e_env \<Rightarrow> string \<Rightarrow> string \<Rightarrow> mgr \<Rightarrow> string \<Rightarrow> bool" where
  "unseen ev channel handle m line \<longleftrightarrow>
     (\<forall>w. parseChunk line = Inr (Some w) \<longrightarrow> replay_key ev channel handle w \<notin> fst ` set (rc_seen (m_replay m)))"

lemma carries_unseen:
  "carries evs c sk msgid ts tot pc line \<Longrightarrow> unseen ev c h m line \<Longrightarrow> part_key ev c h msgid (fst pc + 1) \<notin> fst ` set (rc_seen (m_replay m))"
proof -
  assume "carries evs c sk msgid ts tot pc line" and u: "unseen ev c h m line"
  then obtain w where w: "parseChunk line = Inr (Some w)" "wc_msgid w = msgid" "wc_part w = fst pc + 1" by (force simp: carries_def)
  have "replay_key ev c h w \<notin> fst ` set (rc_seen (m_replay m))" using u w(1) unfolding unseen_def by blast
  moreover have "replay_key ev c h w = part_key ev c h msgid (fst pc + 1)" unfolding replay_key_part w(2,3) ..
  ultimately show ?thesis by (rule subst [rotated])
qed

lemma reads_chunk:
  assumes "carries evs c sk msgid ts tot pc line" "decode_text (snd pc) = Some t"
    "\<And>nonce aad pt. length nonce = 24 \<Longrightarrow> ev_aeadOpen evr sk nonce aad (ev_aeadSeal evs sk nonce aad pt) = Some pt"
    "getIncomingSession h c (m_keyring m) = Inr (Some (sk, row))" "in_status row = Trusted" "length sk = KEY_LEN"
    "\<bar>nowUnix now - ts\<bar> \<le> ev_tsToleranceSecs evr" "part_key evr c h msgid (fst pc + 1) \<notin> fst ` set (rc_seen (m_replay m))"
  shows "\<exists>rc. decryptIncoming evr now h c line m = (Inr (Plaintext t), m\<lparr>m_replay := rc\<rparr>) \<and>
    fst ` set (rc_seen rc) \<subseteq> insert (part_key evr c h msgid (fst pc + 1)) (fst ` set (rc_seen (m_replay m)))"
proof -
  obtain aad nonce where w: "buildAad c msgid ts (fst pc + 1) tot = Inr aad" "length nonce = NONCE_LEN"
    "parseChunk line = Inr (Some \<lparr>wc_msgid = msgid, wc_ts = ts, wc_part = fst pc + 1, wc_total = tot, wc_nonce = nonce,
          wc_ciphertext = ev_aeadSeal evs sk nonce aad (snd pc)\<rparr>)" (is "_ = Inr (Some ?w)") using assms(1) unfolding carries_def by blast
  have "open_chunk evr c sk ?w = Inr (Inr t)"
    using w(1,2) assms(2,3,6) by (simp add: open_chunk_def aead_decrypt_def NONCE_LEN_def)
  then have "decryptIncoming evr now h c line m =
      (let (fresh, rc) = observe now (part_key evr c h msgid (fst pc + 1)) ((ev_tsToleranceSecs evr * 2 + 5) * 1000) (m_replay m) in
          (Inr (if fresh then Plaintext t else Replay), m\<lparr>m_replay := rc\<rparr>))"
    using w(3) assms(4,5,7) by (simp add: decryptIncoming_def orElse_def andThen_def ret_def read_keyring_def of_result_def replay_key_part
            observe_replay_def observe_in_def split_beta Let_def)
  moreover have "fst (observe now (part_key evr c h msgid (fst pc + 1)) ttl (m_replay m))" for ttl
    using assms(8) by (simp add: observe_def map_of_eq_None_iff [symmetric] split: option.splits)
  ultimately show ?thesis using observe_keys(1) by (simp add: split_beta Let_def) blast
qed

lemma reads_chunks:
  assumes "list_all2 (carries evs c sk msgid ts tot) pcs lines" "map (decode_text \<circ> snd) pcs = map Some texts"
    "\<And>nonce aad pt. length nonce = 24 \<Longrightarrow> ev_aeadOpen evr sk nonce aad (ev_aeadSeal evs sk nonce aad pt) = Some pt"
    "getIncomingSession h c (m_keyring m) = Inr (Some (sk, row))" "in_status row = Trusted" "length sk = KEY_LEN"
    "length clocks = length lines" "\<forall>now \<in> set clocks. \<bar>nowUnix now - ts\<bar> \<le> ev_tsToleranceSecs evr"
    "distinct (map fst pcs)" "\<forall>pc \<in> set pcs. fst pc < 16 \<and> part_key evr c h msgid (fst pc + 1) \<notin> fst ` set (rc_seen (m_replay m))"
  shows "fst (collect_each (\<lambda>(now, line). decryptIncoming evr now h c line) (zip clocks lines) m) = Inr (map Plaintext texts)"
  using assms(1,2,4,7-10)
proof (induction pcs arbitrary: lines texts clocks m)
  case (Cons pc pcs)
  obtain line lines' where lines: "lines = line # lines'" "carries evs c sk msgid ts tot pc line"
    "list_all2 (carries evs c sk msgid ts tot) pcs lines'" using Cons.prems(1) by (auto simp: list_all2_Cons1)
  obtain now clocks' where clocks: "clocks = now # clocks'" "length clocks' = length lines'" using Cons.prems(4) lines(1) by (cases clocks) auto
  obtain t texts' where texts: "texts = t # texts'" "decode_text (snd pc) = Some t" "map (decode_text \<circ> snd) pcs = map Some texts'"
    using Cons.prems(2) by (cases texts) (simp_all del: map_map add: comp_def)
  obtain rc where rc: "decryptIncoming evr now h c line m = (Inr (Plaintext t), m\<lparr>m_replay := rc\<rparr>)"
    "fst ` set (rc_seen rc) \<subseteq> insert (part_key evr c h msgid (fst pc + 1)) (fst ` set (rc_seen (m_replay m)))"
    using reads_chunk [OF lines(2) texts(2) assms(3) Cons.prems(3) assms(5,6)] Cons.prems(5,7) clocks(1) by (metis list.set_intros(1))
  have "part_key evr c h msgid (fst q + 1) \<notin> fst ` set (rc_seen rc)" if q: "q \<in> set pcs" for q
  proof -
    have "fst q \<noteq> fst pc" using Cons.prems(6) q by (auto simp: rev_image_eqI)
    moreover have "fst q < 16" "fst pc < 16" using Cons.prems(7) q by simp_all
    ultimately have "part_key evr c h msgid (fst q + 1) \<noteq> part_key evr c h msgid (fst pc + 1)"
      using part_key_inj [of evr c h msgid "fst q + 1" "fst pc + 1"] by linarith
    moreover have "part_key evr c h msgid (fst q + 1) \<notin> fst ` set (rc_seen (m_replay m))" using Cons.prems(7) q by (meson list.set_intros(2))
    ultimately show ?thesis using rc(2) by blast
  qed
  then have "fst (collect_each (\<lambda>(now, line). decryptIncoming evr now h c line) (zip clocks' lines') (m\<lparr>m_replay := rc\<rparr>)) =
      Inr (map Plaintext texts')"
    using Cons.IH [OF lines(3) texts(3) _ clocks(2), of "m\<lparr>m_replay := rc\<rparr>"] Cons.prems(3,5-7) clocks(1) by simp
  then show ?case by (auto simp: lines(1) clocks(1) texts(1) rc(1) andThen_def ret_def split: sum.splits prod.splits)
qed (simp add: ret_def)

text \<open>C40: What one side encrypts the other side reads.  The channel has encryption on and the sender a key, the text is not
  empty, of at most 2,832 bytes and without a byte order mark: it is encrypted, and the lines, arriving each in its turn
  within the tolerance of the sender's clock at a manager that trusts the sender's session with that key and has none of them
  in its replay cache, are shown one by one and are together the text, its lone surrogates replaced.  Of the cipher: opening
  undoes sealing under the same key, nonce and data; of the generator: it gives as many bytes as it was asked for; the clock
  in seconds is a safe integer.\<close>

theorem encrypted_text_is_read:
  assumes "\<And>key nonce aad pt. length key = 32 \<Longrightarrow> length nonce = 24 \<Longrightarrow>
      ev_aeadOpen evr key nonce aad (ev_aeadSeal evs key nonce aad pt) = Some pt"
    and "\<And>i n. length (ev_random evs i n) = n"
    and "channel_enabled c (m_keyring ms)" "fst (getOrGenerateOutgoingKey evs now c ms) = Inr sk" "\<bar>nowUnix now\<bar> \<le> MAX_SAFE"
    and "plaintext \<noteq> []" "\<forall>u \<in> set plaintext. u < 0x10000" "0xFEFF \<notin> set plaintext" "length (utf8_encode (scalars plaintext)) \<le> 2832"
    and "getIncomingSession h c (m_keyring mr) = Inr (Some (sk, row))" "in_status row = Trusted"
  shows "\<exists>lines. fst (encryptOutgoing evs now c plaintext ms) = Inr (Encrypted lines) \<and>
    (\<forall>clocks. length clocks = length lines \<and> (\<forall>t \<in> set clocks. \<bar>nowUnix t - nowUnix now\<bar> \<le> ev_tsToleranceSecs evr) \<and>
        (\<forall>line \<in> set lines. unseen evr c h mr line) \<longrightarrow>
      (\<exists>texts. fst (collect_each (\<lambda>(t, line). decryptIncoming evr t h c line) (zip clocks lines) mr) = Inr (map Plaintext texts) \<and>
        concat texts = units_of (scalars plaintext)))"
proof -
  obtain chunks texts where ch: "splitPlaintext plaintext = Inr chunks" "length chunks \<le> 16" "map decode_text chunks = map Some texts"
      "concat texts = units_of (scalars plaintext)"
    using chunks_carry_the_text [OF assms(7,8)] assms(6,9) by (auto split: sum.splits)
  have sk: "length sk = KEY_LEN"
    using assms(10) by (auto simp: getIncomingSession_def openKey_def split: option.splits sum.splits if_splits)
  obtain m1 where m1: "getOrGenerateOutgoingKey evs now c ms = (Inr sk, m1)" using assms(4) by (metis prod.collapse)
  let ?id = "ev_random evs (m_draws m1) MSGID_LEN" and ?m = "m1\<lparr>m_draws := Suc (m_draws m1)\<rparr>" and ?ts = "nowUnix now"
  let ?pcs = "enumerate 0 chunks" and ?tot = "length chunks"
  have part: "\<forall>pc \<in> set ?pcs. fst pc < ?tot" by (auto simp: in_set_enumerate_eq)
  obtain lines m2 where ls: "collect_each (encrypt_chunk evs c sk ?id ?ts ?tot) ?pcs ?m = (Inr lines, m2)"
      "list_all2 (carries evs c sk ?id ?ts ?tot) ?pcs lines"
    using encrypt_chunks_carry [OF sk assms(2) assms(2) part ch(2) assms(5)] by blast
  have rnd: "randomBytes evs MSGID_LEN m1 = (Inr ?id, ?m)" by (simp add: randomBytes_def)
  have "fst (encryptOutgoing evs now c plaintext ms) = Inr (Encrypted lines)"
    using assms(3) ch(1) by (simp add: encryptOutgoing_def orElse_def ask_keyring_def ret_def andThen_def m1 rnd ls(1))
  moreover have "\<exists>texts. fst (collect_each (\<lambda>(t, line). decryptIncoming evr t h c line) (zip clocks lines) mr) = Inr (map Plaintext texts) \<and>
        concat texts = units_of (scalars plaintext)"
    if t: "length clocks = length lines" "\<forall>t \<in> set clocks. \<bar>nowUnix t - ?ts\<bar> \<le> ev_tsToleranceSecs evr"
      and unseen: "\<forall>line \<in> set lines. unseen evr c h mr line" for clocks
  proof -
    have fresh: "\<forall>pc \<in> set ?pcs. fst pc < 16 \<and> part_key evr c h ?id (fst pc + 1) \<notin> fst ` set (rc_seen (m_replay mr))"
    proof
      fix pc assume pc: "pc \<in> set ?pcs"
      then obtain line where "line \<in> set lines" "carries evs c sk ?id ?ts ?tot pc line" using list_all2_member [OF ls(2)] by blast
      then have "part_key evr c h ?id (fst pc + 1) \<notin> fst ` set (rc_seen (m_replay mr))"
        using unseen carries_unseen by blast
      then show "fst pc < 16 \<and> part_key evr c h ?id (fst pc + 1) \<notin> fst ` set (rc_seen (m_replay mr))" using part pc ch(2) by fastforce
    qed
    have "map (decode_text \<circ> snd) ?pcs = map Some texts" using ch(3) by (metis map_map map_snd_enumerate)
    from reads_chunks [OF ls(2) this _ assms(10,11) sk t _ fresh] show ?thesis
      using assms(1) sk ch(4) by (auto simp: KEY_LEN_def)
  qed
  ultimately show ?thesis by blast
qed

section \<open>A peer is revoked\<close>

lemma split_loop_few: "split_loop bs cur chunks = Inr out \<Longrightarrow> length chunks \<le> MAX_CHUNKS \<Longrightarrow> length out \<le> MAX_CHUNKS"
proof (induction bs cur chunks rule: split_loop.induct)
  case (1 bs cur chunks)
  from "1.prems" show ?case
    by (subst (asm) split_loop.simps) (auto simp: Let_def split: if_splits dest: "1.IH" [OF _ refl])
qed

lemma encrypts_under:
  assumes "getOrGenerateOutgoingKey ev now c m = (Inr sk, m1)" "length sk = KEY_LEN" "\<And>i n. length (ev_random ev i n) = n"
    "\<bar>nowUnix now\<bar> \<le> MAX_SAFE" "fst (encryptOutgoing ev now c plaintext m) = Inr (Encrypted lines)"
  shows "\<exists>chunks msgid. splitPlaintext plaintext = Inr chunks \<and>
    list_all2 (carries ev c sk msgid (nowUnix now) (length chunks)) (enumerate 0 chunks) lines"
proof -
  obtain chunks where ch: "splitPlaintext plaintext = Inr chunks"
    using assms(5) by (auto simp: encryptOutgoing_def orElse_def andThen_def ask_keyring_def ret_def split: if_splits sum.splits prod.splits)
  then have few: "length chunks \<le> 16" using split_loop_few [of _ 0 "[]" chunks] by (simp add: splitPlaintext_def MAX_CHUNKS_def split: if_splits)
  have on: "channel_enabled c (m_keyring m)"
    using assms(5) by (auto simp: encryptOutgoing_def orElse_def andThen_def ask_keyring_def ret_def split: if_splits)
  let ?id = "ev_random ev (m_draws m1) MSGID_LEN" and ?m = "m1\<lparr>m_draws := Suc (m_draws m1)\<rparr>"
  have part: "\<forall>pc \<in> set (enumerate 0 chunks). fst pc < length chunks" by (auto simp: in_set_enumerate_eq)
  obtain ls m2 where ls: "collect_each (encrypt_chunk ev c sk ?id (nowUnix now) (length chunks)) (enumerate 0 chunks) ?m = (Inr ls, m2)"
      "list_all2 (carries ev c sk ?id (nowUnix now) (length chunks)) (enumerate 0 chunks) ls"
    using encrypt_chunks_carry [OF assms(2,3,3) part few assms(4)] by blast
  have rnd: "randomBytes ev MSGID_LEN m1 = (Inr ?id, ?m)" by (simp add: randomBytes_def)
  have "fst (encryptOutgoing ev now c plaintext m) = Inr (Encrypted ls)"
    using on ch by (simp add: encryptOutgoing_def orElse_def ask_keyring_def ret_def andThen_def assms(1) rnd ls(1))
  then show ?thesis using assms(5) ch ls(2) by auto
qed

lemma untrusted_session_shows_nothing:
  assumes "session_pin (m_keyring m) h c = Some (fp, Revoked)"
  shows "fst (decryptIncoming ev now h c line m) \<noteq> Inr (Plaintext t)"
  using assms by (auto simp: session_pin_def decryptIncoming_def orElse_def andThen_def read_keyring_def getIncomingSession_def ret_def
      split: sum.splits option.splits if_splits)

lemma revoked_pin: "session_pin (revoked_tables h k) h c = Some pin \<Longrightarrow> snd pin = Revoked"
  using revoked_sessions by (auto simp: session_pin_def)

lemma revocation_lasts:
  assumes "session_pin (m_keyring (snd (revokePeer ev h m))) h c \<noteq> None"
  shows "fst (decryptIncoming ev now h c line (fold (e2e_traffic ev) es (snd (revokePeer ev h m)))) \<noteq> Inr (Plaintext t)"
proof -
  let ?m1 = "snd (revokePeer ev h m)"
  have k1: "m_keyring ?m1 = revoked_tables h (m_keyring m)" by (simp add: revoke_eq)
  obtain fp st where pin: "session_pin (m_keyring ?m1) h c = Some (fp, st)" using assms by auto
  then have "st = Revoked" using revoked_pin unfolding k1 by fastforce
  moreover have "session_pin (m_keyring (fold (e2e_traffic ev) es ?m1)) h c = session_pin (m_keyring ?m1) h c"
    using run_tofu [of ?m1 ev es] pin by (simp add: tofu_def)
  ultimately show ?thesis using untrusted_session_shows_nothing pin by metis
qed

text \<open>C38: What revoking a peer by its handle does.  The peer is marked revoked.  Nothing said under that handle is shown: on any
  channel as it is right then, and after whatever traffic on the channels where the handle has a session.  And on a channel
  where the handle is listed as a recipient of our key, and we have that key, the next message, if one is sent, is sealed
  under a key drawn after the revocation, which is handed on to the pinned keys of other recipients of that channel only.
  (A handle dropped from the recipients before, by forgetting it, is not such a recipient any more.)  Of the generator: it gives as
  many bytes as it was asked for; the clock in seconds is a safe integer.\<close>

theorem revoke_cuts_a_peer_off:
  assumes "getPeerByHandle handle (m_keyring m) = Some p" "row \<in> set (kg_recipients (m_keyring m))" "nocase (rp_handle row) handle"
    "getOutgoingSession (rp_channel row) (m_keyring m) = Inr (Some (sk, o'))" "\<And>i n. length (ev_random ev i n) = n" "\<bar>nowUnix now\<bar> \<le> MAX_SAFE"
  shows "let c = rp_channel row; m1 = snd (revokePeer ev handle m); fresh = ev_random ev (m_draws m) 32 in
    (\<exists>peer. getPeerByFingerprint (pr_fingerprint p) (m_keyring m1) = Some peer \<and> pr_globalStatus peer = Revoked) \<and>
    (\<forall>now' c' line t es. es = [] \<or> session_pin (m_keyring m1) handle c' \<noteq> None \<longrightarrow>
      fst (decryptIncoming ev now' handle c' line (fold (e2e_traffic ev) es m1)) \<noteq> Inr (Plaintext t)) \<and>
    (\<forall>plaintext lines. fst (encryptOutgoing ev now c plaintext m1) = Inr (Encrypted lines) \<longrightarrow>
      (\<exists>chunks msgid. splitPlaintext plaintext = Inr chunks \<and>
        list_all2 (carries ev c fresh msgid (nowUnix now) (length chunks)) (enumerate 0 chunks) lines)) \<and>
    (\<exists>m2 q o2. getOrGenerateOutgoingKey ev now c m1 = (Inr fresh, m2) \<and>
      outgoing_of c (m_keyring m2) = Some o2 \<and> og_sk o2 = Some fresh \<and> waiting_sends m2 = waiting_sends m @ q \<and>
      (\<forall>s \<in> set q. \<exists>r \<in> set (listOutgoingRecipients c (m_keyring m)). \<not> nocase (rp_handle r) handle \<and>
        hands_on ev now c fresh (m_keyring m1) r s))"
proof -
  let ?m1 = "snd (revokePeer ev handle m)" and ?fresh = "ev_random ev (m_draws m) 32"
  note r = revocation_rotates [OF assms(1-4) assms(5), of now, unfolded Let_def]
  have "fst (decryptIncoming ev now' handle c' line (fold (e2e_traffic ev) es ?m1)) \<noteq> Inr (Plaintext t)"
    if "es = [] \<or> session_pin (m_keyring ?m1) handle c' \<noteq> None" for now' c' line t es
    using that r revocation_lasts by (cases "es = []") auto
  moreover obtain m2 where key: "getOrGenerateOutgoingKey ev now (rp_channel row) ?m1 = (Inr ?fresh, m2)" using r by blast
  moreover have "\<exists>chunks msgid. splitPlaintext plaintext = Inr chunks \<and>
      list_all2 (carries ev (rp_channel row) ?fresh msgid (nowUnix now) (length chunks)) (enumerate 0 chunks) lines"
    if "fst (encryptOutgoing ev now (rp_channel row) plaintext ?m1) = Inr (Encrypted lines)" for plaintext lines
    by (rule encrypts_under [OF key _ assms(5,6) that]) (simp add: KEY_LEN_def assms(5))
  ultimately show ?thesis using r unfolding Let_def by blast
qed

section \<open>Instances\<close>

text \<open>A cipher that shows what it was given and opens only that.\<close>

definition open_env :: e2e_env where
  "open_env = example_env\<lparr>ev_aeadSeal := (\<lambda>k n a pt. k @ n @ a @ pt),
     ev_aeadOpen := (\<lambda>k n a ct. if take (length (k @ n @ a)) ct = k @ n @ a then Some (drop (length (k @ n @ a)) ct) else None)\<rparr>"

definition sender_keyring :: keyring where
  "sender_keyring = example_keyring\<lparr>kg_configs := [\<lparr>cf_channel = ''#x'', cf_enabled = True, cf_mode = Normal\<rparr>]\<rparr>"

definition reader_row :: incoming_row where
  "reader_row = \<lparr>in_handle = ''A@b'', in_channel = ''#x'', in_fingerprint = [7], in_sk = Some (replicate 32 1), in_status = Trusted,
     in_createdAt = 0\<rparr>"

definition reader_keyring :: keyring where
  "reader_keyring = new_keyring\<lparr>kg_incoming := [reader_row]\<rparr>"

lemma open_env_opens: "ev_aeadOpen open_env k n a (ev_aeadSeal open_env k n a pt) = Some pt"
  by (simp add: open_env_def)

lemma open_env_draws: "length (ev_random open_env i n) = n"
  by (simp add: open_env_def example_env_def)

lemma reader_session: "getIncomingSession ''A@b'' ''#x'' reader_keyring = Inr (Some (replicate 32 1, reader_row))"
  "getIncomingSession ''a@b'' ''#x'' reader_keyring = Inr (Some (replicate 32 1, reader_row))" "in_status reader_row = Trusted"
  by (simp_all add: getIncomingSession_def session_row_def session_is_def reader_keyring_def reader_row_def nocase_example openKey_def KEY_LEN_def)

lemma example_line:
  obtains line where "carries open_env ''#x'' (replicate 32 1) (replicate 8 0) 0 1 (0, [0x61]) line"
  by (rule encrypt_chunk_carries [of "replicate 32 1" open_env "replicate 8 0" "(0, [0x61])" 1 0 "''#x''" "new_mgr new_keyring"])
    (simp_all add: KEY_LEN_def MSGID_LEN_def MAX_SAFE_def open_env_draws)

lemma example_read:
  assumes "carries open_env ''#x'' (replicate 32 1) (replicate 8 0) 0 1 (0, [0x61]) line" "handle = ''A@b'' \<or> handle = ''a@b''"
    "m_keyring m = reader_keyring" "part_key open_env ''#x'' handle (replicate 8 0) 1 \<notin> fst ` set (rc_seen (m_replay m))"
  shows "\<exists>rc. decryptIncoming open_env 0 handle ''#x'' line m = (Inr (Plaintext [0x61]), m\<lparr>m_replay := rc\<rparr>) \<and>
    fst ` set (rc_seen rc) \<subseteq> insert (part_key open_env ''#x'' handle (replicate 8 0) 1) (fst ` set (rc_seen (m_replay m)))"
proof -
  have d: "decode_text (snd (0 :: nat, [0x61 :: 8 word])) = Some [0x61]" by (simp add: decode_text_def utf8_decode.simps units_of_def)
  have s: "getIncomingSession handle ''#x'' (m_keyring m) = Inr (Some (replicate 32 1, reader_row))" using assms(2,3) reader_session by auto
  show ?thesis using reads_chunk [OF assms(1) d open_env_opens s reader_session(3), of 0] assms(4)
    by (simp add: KEY_LEN_def nowUnix_def open_env_def example_env_def)
qed

lemma chunk_is_shown_once_witness:
  "\<exists>line t. fst (decryptIncoming open_env 0 ''A@b'' ''#x'' line (new_mgr reader_keyring)) = Inr (Plaintext t) \<and>
    fst (decryptIncoming open_env 9000 ''A@b'' ''#x'' line (fold (happens open_env)
      [(1000, Traffic (Arrives ''A@b'' ''#x'' line)), (2000, Decision (Forgets ''a@b''))]
      (snd (decryptIncoming open_env 0 ''A@b'' ''#x'' line (new_mgr reader_keyring))))) \<noteq> Inr (Plaintext t)"
proof -
  obtain line where line: "carries open_env ''#x'' (replicate 32 1) (replicate 8 0) 0 1 (0, [0x61]) line" by (rule example_line)
  have m: "m_keyring (new_mgr reader_keyring) = reader_keyring" "rc_seen (m_replay (new_mgr reader_keyring)) = []"
    by (simp_all add: new_mgr_def new_cache_def)
  have "fst (decryptIncoming open_env 0 ''A@b'' ''#x'' line (new_mgr reader_keyring)) = Inr (Plaintext [0x61])"
    using example_read [OF line _ m(1), of "''A@b''"] m(2) by auto
  moreover have "fst (decryptIncoming open_env 9000 ''A@b'' ''#x'' line (fold (happens open_env)
      [(1000, Traffic (Arrives ''A@b'' ''#x'' line)), (2000, Decision (Forgets ''a@b''))]
      (snd (decryptIncoming open_env 0 ''A@b'' ''#x'' line (new_mgr reader_keyring))))) \<noteq> Inr (Plaintext [0x61])"
    by (rule chunk_is_shown_once [of _ open_env "[]" reader_keyring, OF _ calculation refl]) simp_all
  ultimately show ?thesis by blast
qed

text \<open>The replay key spells the sender's handle as it came, where the session is looked up whatever its letters' case: a network
  that repeats a line under another spelling of the handle has it shown again.\<close>

lemma respelled_handle_shows_again:
  "\<exists>line rc. decryptIncoming open_env 0 ''A@b'' ''#x'' line (new_mgr reader_keyring) = (Inr (Plaintext [0x61]), (new_mgr reader_keyring)\<lparr>m_replay := rc\<rparr>) \<and>
    fst (decryptIncoming open_env 0 ''a@b'' ''#x'' line ((new_mgr reader_keyring)\<lparr>m_replay := rc\<rparr>)) = Inr (Plaintext [0x61])"
proof -
  obtain line where line: "carries open_env ''#x'' (replicate 32 1) (replicate 8 0) 0 1 (0, [0x61]) line" by (rule example_line)
  have m: "m_keyring (new_mgr reader_keyring) = reader_keyring" "rc_seen (m_replay (new_mgr reader_keyring)) = []"
    by (simp_all add: new_mgr_def new_cache_def)
  obtain rc where rc: "decryptIncoming open_env 0 ''A@b'' ''#x'' line (new_mgr reader_keyring) =
      (Inr (Plaintext [0x61]), (new_mgr reader_keyring)\<lparr>m_replay := rc\<rparr>)"
    "fst ` set (rc_seen rc) \<subseteq> {part_key open_env ''#x'' ''A@b'' (replicate 8 0) 1}"
    using example_read [OF line _ m(1), of "''A@b''"] m(2) by auto
  have "part_key open_env ''#x'' ''a@b'' (replicate 8 0) 1 \<noteq> part_key open_env ''#x'' ''A@b'' (replicate 8 0) 1"
    by (simp add: part_key_def)
  then have "part_key open_env ''#x'' ''a@b'' (replicate 8 0) 1 \<notin> fst ` set (rc_seen rc)" using rc(2) by blast
  then have "fst (decryptIncoming open_env 0 ''a@b'' ''#x'' line ((new_mgr reader_keyring)\<lparr>m_replay := rc\<rparr>)) = Inr (Plaintext [0x61])"
    using example_read [OF line, of "''a@b''" "(new_mgr reader_keyring)\<lparr>m_replay := rc\<rparr>"] m(1) by auto
  then show ?thesis using rc(1) by blast
qed

lemma encrypted_text_is_read_witness:
  "\<exists>lines texts. fst (encryptOutgoing open_env 5000 ''#x'' [104, 105] (new_mgr sender_keyring)) = Inr (Encrypted lines) \<and>
    fst (collect_each (\<lambda>(t, line). decryptIncoming open_env t ''A@b'' ''#x'' line) (zip (map (\<lambda>_. 9000) lines) lines) (new_mgr reader_keyring)) =
      Inr (map Plaintext texts) \<and> concat texts = [104, 105]"
proof -
  have m: "m_keyring (new_mgr reader_keyring) = reader_keyring" "rc_seen (m_replay (new_mgr reader_keyring)) = []"
    "m_keyring (new_mgr sender_keyring) = sender_keyring" by (simp_all add: new_mgr_def new_cache_def)
  have on: "channel_enabled ''#x'' (m_keyring (new_mgr sender_keyring))"
    unfolding m by (simp add: channel_enabled_def getChannelConfig_def sender_keyring_def)
  have key: "fst (getOrGenerateOutgoingKey open_env 5000 ''#x'' (new_mgr sender_keyring)) = Inr (replicate 32 1)"
  proof -
    have "getOutgoingSession ''#x'' (m_keyring (new_mgr sender_keyring)) =
        Inr (Some (replicate 32 1, \<lparr>og_channel = ''#x'', og_sk = Some (replicate 32 1), og_createdAt = 0, og_pendingRotation = False\<rparr>))"
      unfolding m by (simp add: sender_keyring_def example_keyring_def new_keyring_def getOutgoingSession_def outgoing_of_def openKey_def KEY_LEN_def)
    then show ?thesis by (simp add: getOrGenerateOutgoingKey_def andThen_def read_keyring_def of_result_def ret_def Let_def)
  qed
  have len: "length (utf8_encode (scalars [104, 105])) \<le> 2832" "units_of (scalars [104, 105]) = [104, 105]" by (simp_all add: utf8_encode_def utf8_scalar_def units_of_def is_high_def is_low_def)
  have new: "unseen open_env ''#x'' ''A@b'' (new_mgr reader_keyring) line" for line by (simp add: unseen_def m)
  from encrypted_text_is_read [of open_env open_env "''#x''" "new_mgr sender_keyring" 5000 "replicate 32 1" "[104, 105]" "''A@b''" "new_mgr reader_keyring" reader_row,
      OF open_env_opens open_env_draws on key _ _ _ _ len(1)]
  obtain lines where lines: "fst (encryptOutgoing open_env 5000 ''#x'' [104, 105] (new_mgr sender_keyring)) = Inr (Encrypted lines)"
    "\<And>clocks. length clocks = length lines \<Longrightarrow> \<forall>t \<in> set clocks. \<bar>nowUnix t - nowUnix 5000\<bar> \<le> ev_tsToleranceSecs open_env \<Longrightarrow>
      \<exists>texts. fst (collect_each (\<lambda>(t, line). decryptIncoming open_env t ''A@b'' ''#x'' line) (zip clocks lines) (new_mgr reader_keyring)) =
        Inr (map Plaintext texts) \<and> concat texts = [104, 105]"
    using reader_session m(1) new len(2) by (auto simp: MAX_SAFE_def nowUnix_def)
  have "\<forall>t \<in> set (map (\<lambda>_. 9000) lines). \<bar>nowUnix t - nowUnix 5000\<bar> \<le> ev_tsToleranceSecs open_env"
    by (simp add: nowUnix_def open_env_def example_env_def)
  then show ?thesis using lines(1) lines(2) [of "map (\<lambda>_. 9000) lines"] by auto
qed

lemma revoke_cuts_a_peer_off_witness:
  "fst (getOrGenerateOutgoingKey example_env 0 ''#x'' (snd (revokePeer example_env ''a@b'' (new_mgr example_keyring)))) =
    Inr (ev_random example_env 0 32)"
proof -
  let ?m = "new_mgr example_keyring" and ?row = "\<lparr>rp_channel = ''#x'', rp_handle = ''A@b'', rp_fingerprint = [7], rp_firstSentAt = 0\<rparr>"
  have m: "m_keyring ?m = example_keyring" "m_draws ?m = 0" by (simp_all add: new_mgr_def)
  have "getPeerByHandle ''a@b'' (m_keyring ?m) \<noteq> None"
    unfolding m by (simp add: example_keyring_def new_keyring_def getPeerByHandle_def handle_is_def nocase_example)
  then obtain p where p: "getPeerByHandle ''a@b'' (m_keyring ?m) = Some p" by blast
  have row: "?row \<in> set (kg_recipients (m_keyring ?m))" unfolding m by (simp add: example_keyring_def)
  have own: "getOutgoingSession (rp_channel ?row) (m_keyring ?m) =
    Inr (Some (replicate 32 1, \<lparr>og_channel = ''#x'', og_sk = Some (replicate 32 1), og_createdAt = 0, og_pendingRotation = False\<rparr>))"
    unfolding m by (simp add: example_keyring_def new_keyring_def getOutgoingSession_def outgoing_of_def openKey_def KEY_LEN_def nocase_example)
  have len: "length (ev_random example_env i n) = n" for i n by (simp add: example_env_def)
  have clock: "\<bar>nowUnix 0\<bar> \<le> MAX_SAFE" by (simp add: nowUnix_def MAX_SAFE_def)
  have "\<exists>m2. getOrGenerateOutgoingKey example_env 0 ''#x'' (snd (revokePeer example_env ''a@b'' ?m)) = (Inr (ev_random example_env 0 32), m2)"
    using revoke_cuts_a_peer_off [OF p row _ own len clock, unfolded Let_def recipient_row.simps m(2)] nocase_example(1) by blast
  then show ?thesis by auto
qed

end
