(* ===== verification/Spec2Isabelle.thy ===== *)
theory Spec2Isabelle imports Main Upstream_Session Server_Sessions Pacer_Laws Connect_Scheduler Restore_Gate Slot_Pool Monitor_List Mode_Narration Event_Filter Channel_Names Ignore_Rules Message_Split Transport_Laws Router_Laws Ip_Guard Client_Filter E2e_Exchange begin

text \<open>
  A verification library for Lurker, a multi-user IRC client that stays connected.  Paths are under
  \<open>src/\<close>; a definition has the name of the function or method it translates where Isabelle allows it.

  \<^bold>\<open>The program and its parts.\<close>  An IRC connection of a user lives in two processes.  The \<^emph>\<open>engine\<close>
  (\<open>server/engine/\<close>) holds the sockets: it buffers what a network sends, replays it to the app when the app
  restarts, and answers a network's PING meanwhile.  The \<^emph>\<open>app\<close> (\<open>server/services/\<close>) talks to the engine
  over one authenticated link, runs irc-framework on a transport over it, queues what it sends at the pace a network
  allows, splits messages to the wire limit, matches replies to those who asked, and serves browsers, and IRC clients
  attached to its bouncer.  The rules both the server and the browser follow (modes, noise, ignores, consolidation of
  rows) are in \<open>shared/\<close>.

  \<^bold>\<open>The prelude.\<close>  \<open>Lurker_Base\<close>: JavaScript's strings, ordered maps and sets, and the fact collections.
  \<open>Numerals\<close>: numbers written in a base and read back.
  A character is a UTF-16 code unit below 256; where code units above that matter (UTF-8, surrogates) the component
  says how it takes them.  The locale \<open>js_map\<close> states what an insertion-ordered \<open>Map\<close> promises and
  is interpreted on association lists.

  \<^bold>\<open>The engine.\<close>
  \<^item> \<open>Backlog\<close>, \<open>Line_Buffer\<close> (\<open>lineBuffer.ts\<close>): a connection's unacknowledged lines and the byte
    budget all connections share.  The locale \<open>backlog\<close> is what a socket relies on; its interpretation is the
    buffer.  A run refines a ledger of sequence numbers: no line goes without a gap record, and the counter is exact.
  \<^item> \<open>Engine_Protocol\<close> (\<open>protocol.ts\<close>): frames, the frame reader, addresses.  Chunking is irrelevant,
    frames read back.
  \<^item> \<open>Engine_Upstream\<close> (\<open>upstream.ts\<close>): the held socket.  \<open>Upstream_Delivery\<close>: what an attached
    link receives; \<open>Upstream_Session\<close>: the invariant of a socket's life, the recorded burst, the replayed caps.
  \<^item> \<open>Engine_Server\<close> (\<open>server.ts\<close>): links, claims, dispatch, the sweep.  \<open>Server_Claims\<close>: a claim
    is held exactly by the link a socket delivers to; \<open>Server_Buffers\<close>: every socket keeps the backlog of its own;
    \<open>Server_Sessions\<close>: isolation, contests, errors.

  \<^bold>\<open>The app's side of it.\<close>
  \<^item> \<open>Engine_Link\<close> (\<open>engineLink.ts\<close>): hello, held sessions, pending closes, reconnecting.
  \<^item> \<open>Engine_Transport\<close>, \<open>Transport_Laws\<close> (\<open>engineTransport.ts\<close>): restore, replay, swallowed
    lines, closing.  The client calls back from inside events: \<open>emit_within\<close> has the nesting as fuel, and
    \<open>reentrance_is_bounded\<close> shows that three is enough.
  \<^item> \<open>Connect_Scheduler\<close>, \<open>Restore_Gate\<close>, \<open>Slot_Pool\<close>, \<open>Proxy_Config\<close>, \<open>Ip_Guard\<close>:
    the throttle, the gate and the pool as state machines; proxy settings; which addresses may be dialled, against a
    list of networks.

  \<^bold>\<open>One IRC connection.\<close>
  \<^item> \<open>Send_Pacer\<close>, \<open>Pacer_Laws\<close> (\<open>sendPacer.ts\<close>): three lanes and the estimate of the server's
    clock.  The locale \<open>pacer_invariant\<close> is what every operation keeps; it is interpreted on the keyed cap, the
    depth report and the lanes.  What leaves a paced connection is bounded in cost, whole units and unqueued lines
    included.  The drain has the queue's length as fuel.
  \<^item> \<open>Message_Split\<close> (\<open>messageSplit.ts\<close>, \<open>shared/wireBudget.ts\<close>): wires and multiline batches,
    put together again line by line, with what of a line the cuts lose.
  \<^item> \<open>Reply_Router\<close>, \<open>Router_Laws\<close> (\<open>replyRouter.ts\<close>): whose reply a line is.  What it calls is
    put out in order; the hooks' own sends are the next events.
  \<^item> \<open>Monitor_List\<close> (\<open>monitorList.ts\<close>), \<open>Client_Filter\<close> (\<open>bouncerClientFilter.ts\<close>): the
    shared MONITOR list; what an attached client may see.  A \<open>CHGHOST\<close> goes through the filter again as other
    lines, which never nest further: a fuel of two is enough for every line
    (\<open>client_gets_what_it_asked_for\<close>).

  \<^bold>\<open>End-to-end encryption\<close> (\<open>server/services/e2e/\<close>, \<open>db/e2e.ts\<close>).
  \<^item> \<open>E2e_Wire\<close> (\<open>encoding.ts\<close>, \<open>chunker.ts\<close>, \<open>wire.ts\<close>, \<open>aad.ts\<close>): bytes and their spellings, the
    chunks of a message, their lines, what their tags bind.  \<open>E2e_Handshake\<close> (\<open>handshake.ts\<close>): the three messages
    and what is signed.  \<open>E2e_Limits\<close>: the rate limiter and the replay cache, against a table that forgets nothing.
  \<^item> \<open>E2e_Keyring\<close> (\<open>db/e2e.ts\<close>): the tables of one account on one network.  \<open>E2e_Manager\<close>
    (\<open>manager.ts\<close> and the modules it calls): every operation of a conversation, with what it throws and what it has
    written by then.  The primitives of the crypto libraries and the random bytes are fields of an environment.
  \<^item> \<open>E2e_Trust\<close>: what passes through an operation of the manager is a relation on keyrings; the locales
    \<open>keyring_relation\<close>, \<open>table_relation\<close> and \<open>session_relation\<close> say it once for every operation, and are
    interpreted on trust on first use, on whose key a session takes, and on the pinned peers.  Only the user changes trust.
  \<^item> \<open>E2e_Exchange\<close>: two managers and their peers: what one encrypts the other reads, a line is shown once, a
    revocation cuts a peer off.

  \<^bold>\<open>Rules both sides share\<close> (\<open>shared/\<close>).
  \<open>Channel_Modes\<close> (\<open>modes.ts\<close>, \<open>channelModes.ts\<close>), \<open>Mode_Narration\<close>, \<open>Consolidate\<close>,
  \<open>Event_Filter\<close>, \<open>Channel_Names\<close>, \<open>Text_Match\<close>, \<open>Ignore_Rules\<close>: vocabularies, the verb
  \<open>set_channel_modes\<close>, whose lines read as a server reads them are what was asked for, sentences that hide a channel's key, rows folded without loss, and the
  verdict of ignore and highlight rules against a declarative one.

  \<^bold>\<open>Conventions.\<close>  A handler returns the new state and what it put out, in order.  Clocks, random bytes, the answers
  of sockets and the verdicts of libraries (irc-framework's parser, SHA-256, the ciphers and signatures of noble, JSON, Unicode segmentation, regular
  expressions of a user) are arguments, with what is relied on as a named hypothesis of the theorem and a witness
  where it holds.  Exceptions are values.  A loop that code bounds by data is a recursion with its measure; fuel is used
  only where a callback may call back.

  \<^bold>\<open>Not modelled.\<close>  The connection class (\<open>ircConnection.ts\<close>), the manager, the bouncer's sessions and the
  WebSocket hub are handlers of third-party events over the database, and the database is statements in SQL; what they
  delegate is modelled instead.  Routes, uploads, previews, DCC, push, OAuth and WebAuthn are I/O or other people's
  cryptography.  Of the encryption: the listings for display, the export
  and import of a keyring, and the guard of raw lines, which reads the keyring of the database.  The web client is components over the browser; its rules are the shared ones.  Log lines are left out
  everywhere.
\<close>

end
